(* ===== verification/Prelude.thy ===== *)
theory Prelude
  imports Main "HOL-Library.Word" "HOL-Library.AList"
begin

text \<open>
  Shared vocabulary of the development: the machine integer types of the code, its saturating
  operations and bit counts, the collections the component proofs use, and generic lemmas about
  lists that stand for Rust's \<open>Vec\<close> and \<open>VecDeque\<close> and about association lists that stand for
  its \<open>HashMap\<close>.

  Conventions of all theories.  A \<open>u8\<close>, \<open>u32\<close> or \<open>u64\<close> of the code whose overflow can be
  observed is a word of that width, with the wrapping or saturating operation the code names.
  A \<open>usize\<close> that counts elements of an allocated structure is a \<open>nat\<close>.  A \<open>HashMap\<close> is an
  association list without duplicate keys, read with \<open>map_of\<close>; where the code iterates over a map
  the order is the order of the list, that is, an arbitrary one.  A panic, an \<open>Err\<close> and an early
  return are values.
\<close>

unbundle bit_operations_syntax

type_synonym u8 = "8 word"
type_synonym u32 = "32 word"
type_synonym u64 = "64 word"

named_theorems inv_simps "unfoldings of the invariants"
named_theorems op_simps "unfoldings of operations that are used as rewrite rules"
named_theorems inv_intros "preservation of invariants by operations"

subsection \<open>Machine integers\<close>

text \<open>\<open>saturating_add\<close>, \<open>saturating_sub\<close>, \<open>saturating_mul\<close> of Rust's unsigned integers.\<close>

definition sat_add :: "'a::len word \<Rightarrow> 'a word \<Rightarrow> 'a word" where
  "sat_add a b = (if unat a + unat b < 2 ^ LENGTH('a) then a + b else - 1)"

definition sat_sub :: "'a::len word \<Rightarrow> 'a word \<Rightarrow> 'a word" where
  "sat_sub a b = (if b \<le> a then a - b else 0)"

definition sat_mul :: "'a::len word \<Rightarrow> 'a word \<Rightarrow> 'a word" where
  "sat_mul a b = (if unat a * unat b < 2 ^ LENGTH('a) then a * b else - 1)"

lemma unat_max_word: "unat (- 1 :: 'a::len word) = 2 ^ LENGTH('a) - 1"
  by (simp add: unsigned_minus_1_eq_mask mask_eq_exp_minus_1)

lemma unat_sat_add: "unat (sat_add a b) = min (unat a + unat b) (2 ^ LENGTH('a) - 1)"
  for a b :: "'a::len word"
proof (cases "unat a + unat b < 2 ^ LENGTH('a)")
  case True
  then show ?thesis
    using unat_add_lem [of a b] by (auto simp add: sat_add_def min_def)
next
  case False
  then show ?thesis by (simp add: sat_add_def unat_max_word)
qed

lemma unat_sat_sub: "unat (sat_sub a b) = unat a - unat b"
  for a b :: "'a::len word"
  by (simp add: sat_sub_def unat_sub word_le_nat_alt)

lemma unat_sat_mul: "unat (sat_mul a b) = min (unat a * unat b) (2 ^ LENGTH('a) - 1)"
  for a b :: "'a::len word"
proof (cases "unat a * unat b < 2 ^ LENGTH('a)")
  case True
  then show ?thesis
    using unat_mult_lem [of a b] by (auto simp add: sat_mul_def min_def)
next
  case False
  then show ?thesis by (simp add: sat_mul_def unat_max_word)
qed

lemma sat_sub_le: "sat_sub a b \<le> a"
  for a b :: "'a::len word"
  by (simp add: word_le_nat_alt unat_sat_sub)

lemma sat_sub_mono: "b \<le> c \<Longrightarrow> sat_sub a c \<le> sat_sub a b"
  for a b c :: "'a::len word"
  by (simp add: word_le_nat_alt unat_sat_sub)

lemma unat_of_nat_u64: "n < 18446744073709551616 \<Longrightarrow> unat (word_of_nat n :: u64) = n"
  by (simp add: unat_of_nat)

lemma unat_u64_less: "unat (w :: u64) < 18446744073709551616"
proof -
  have "unat w < 2 ^ LENGTH(64)" by (rule unsigned_less)
  then show ?thesis by simp
qed

lemma unat_of_nat_u32: "n < 4294967296 \<Longrightarrow> unat (word_of_nat n :: u32) = n"
  by (simp add: unat_of_nat)

lemma unat_u32_less: "unat (w :: u32) < 4294967296"
proof -
  have "unat w < 2 ^ LENGTH(32)" by (rule unsigned_less)
  then show ?thesis by simp
qed

lemma unat_u8_less: "unat (w :: u8) < 256"
proof -
  have "unat w < 2 ^ LENGTH(8)" by (rule unsigned_less)
  then show ?thesis by simp
qed

text \<open>\<open>u64::trailing_zeros\<close> and \<open>u64::count_ones\<close>.\<close>

definition trailing_zeros :: "u64 \<Rightarrow> nat" where
  "trailing_zeros w = length (takeWhile (\<lambda>i. \<not> bit w i) [0..<64])"

definition count_ones :: "u64 \<Rightarrow> nat" where
  "count_ones w = length (filter (\<lambda>i. bit w i) [0..<64])"

lemma bit_u64_less: "bit (w :: u64) n \<Longrightarrow> n < 64"
  using bit_imp_le_length [of w n] by simp

lemma nonzero_u64_bit: "w \<noteq> 0 \<Longrightarrow> \<exists>n < 64. bit w n" for w :: u64
  by (metis bit_eqI bit_u64_less bit_0_eq bot_apply bot_bool_def)

lemma trailing_zeros_below: "i < trailing_zeros w \<Longrightarrow> \<not> bit w i"
proof -
  assume i: "i < trailing_zeros w"
  then have le: "i < length (takeWhile (\<lambda>i. \<not> bit w i) [0..<64])"
    by (simp add: trailing_zeros_def)
  then have "takeWhile (\<lambda>i. \<not> bit w i) [0..<64] ! i \<in> set (takeWhile (\<lambda>i. \<not> bit w i) [0..<64])"
    by (rule nth_mem)
  moreover have "takeWhile (\<lambda>i. \<not> bit w i) [0..<64] ! i = i"
    using le length_takeWhile_le [of "\<lambda>i. \<not> bit w i" "[0..<64]"] by (simp add: takeWhile_nth)
  ultimately show ?thesis by (metis set_takeWhileD)
qed

lemma trailing_zeros_bit:
  assumes "w \<noteq> 0"
  shows "trailing_zeros w < 64" "bit w (trailing_zeros w)"
proof -
  obtain n where n: "n < 64" "bit w n" using nonzero_u64_bit [OF assms] by blast
  have "length (takeWhile (\<lambda>i. \<not> bit w i) [0..<64]) < length [0..<64::nat]"
  proof (rule ccontr)
    assume "\<not> ?thesis"
    then have "takeWhile (\<lambda>i. \<not> bit w i) [0..<64] = [0..<64]"
      using length_takeWhile_le [of "\<lambda>i. \<not> bit w i" "[0..<64::nat]"]
      by (metis le_antisym not_le takeWhile_eq_take take_all order_refl)
    then have "n \<in> set (takeWhile (\<lambda>i. \<not> bit w i) [0..<64])" using n by simp
    then show False using n set_takeWhileD by fastforce
  qed
  then show "trailing_zeros w < 64" "bit w (trailing_zeros w)"
    using nth_length_takeWhile [of "\<lambda>i. \<not> bit w i" "[0..<64::nat]"]
    by (simp_all add: trailing_zeros_def)
qed

lemma count_ones_card: "count_ones w = card {i. i < 64 \<and> bit w i}"
proof -
  have "count_ones w = card (set (filter (\<lambda>i. bit w i) [0..<64]))"
    by (simp add: count_ones_def distinct_card del: set_filter)
  also have "set (filter (\<lambda>i. bit w i) [0..<64]) = {i. i < 64 \<and> bit w i}" by auto
  finally show ?thesis .
qed

subsection \<open>Association lists\<close>

lemma delete_subset: "set (AList.delete k al) \<subseteq> set al"
  by (induction al) auto

lemma in_delete: "x \<in> set (AList.delete k al) \<longleftrightarrow> x \<in> set al \<and> fst x \<noteq> k"
  by (induction al) auto

lemma set_update_new: "k \<notin> fst ` set al \<Longrightarrow> set (AList.update k v al) = insert (k, v) (set al)"
  by (induction al) auto

lemma set_update_subset: "set (AList.update k v al) \<subseteq> insert (k, v) (set al)"
  by (induction al) auto

subsection \<open>Vectors\<close>

text \<open>\<open>iter().position(P)\<close>, which is also how \<open>iter_mut().find(P)\<close> is modelled when the element
  found is updated in place.\<close>

primrec find_idx :: "('a \<Rightarrow> bool) \<Rightarrow> 'a list \<Rightarrow> nat option" where
  "find_idx P [] = None"
| "find_idx P (x # xs) = (if P x then Some 0 else map_option Suc (find_idx P xs))"

lemma find_idx_Some:
  "find_idx P xs = Some i \<Longrightarrow> i < length xs \<and> P (xs ! i) \<and> (\<forall>j < i. \<not> P (xs ! j))"
  by (induction xs arbitrary: i) (auto simp: less_Suc_eq_0_disj split: if_splits)

lemma find_idx_None: "find_idx P xs = None \<longleftrightarrow> (\<forall>x \<in> set xs. \<not> P x)"
  by (induction xs) auto

lemma find_idx_exists: "x \<in> set xs \<Longrightarrow> P x \<Longrightarrow> \<exists>i. find_idx P xs = Some i"
  using find_idx_None [of P xs] by (cases "find_idx P xs") auto

text \<open>\<open>Vec::remove(i)\<close> for an index in range.\<close>

definition remove_nth :: "nat \<Rightarrow> 'a list \<Rightarrow> 'a list" where
  "remove_nth i xs = take i xs @ drop (Suc i) xs"

lemma length_remove_nth: "i < length xs \<Longrightarrow> length (remove_nth i xs) = length xs - 1"
  by (simp add: remove_nth_def)

lemma split_at: "i < length xs \<Longrightarrow> xs = take i xs @ xs ! i # drop (Suc i) xs"
  by (rule id_take_nth_drop)

lemma set_remove_nth: "i < length xs \<Longrightarrow> set xs = insert (xs ! i) (set (remove_nth i xs))"
  by (subst split_at [of i xs]) (auto simp: remove_nth_def)

lemma length_filter_update:
  assumes "i < length xs"
  shows "length (filter P (xs[i := y])) + (if P (xs ! i) then 1 else 0) =
    length (filter P xs) + (if P y then 1 else 0)"
  using assms by (subst (3) split_at [OF assms]) (simp add: upd_conv_take_nth_drop)

lemma filter_update_True: "i < length xs \<Longrightarrow> P y \<Longrightarrow> P (xs ! i) \<Longrightarrow>
    length (filter P (xs[i := y])) = length (filter P xs)"
  using length_filter_update [of i xs P y] by simp

lemma set_remove_nth_subset: "set (remove_nth i xs) \<subseteq> set xs"
  by (auto simp: remove_nth_def dest: in_set_takeD in_set_dropD)

end
