(* ===== verification/Bytes.thy ===== *)
theory Bytes
  imports Prelude
begin

text \<open>
  Little-endian bytes of machine integers, and encodings that can be told apart from what follows them:
  \<open>prefix_code D enc\<close> says that no encoding of a value in \<open>D\<close> is the start of another one.
\<close>

text \<open>\<open>u32::to_le_bytes\<close>, \<open>u32::from_le_bytes\<close> and \<open>u64::to_le_bytes\<close>.\<close>

definition u32_to_le_bytes :: "u32 \<Rightarrow> u8 list" where
  "u32_to_le_bytes w =
     [ucast w, ucast (drop_bit 8 w), ucast (drop_bit 16 w), ucast (drop_bit 24 w)]"

definition u32_from_le_bytes :: "u8 list \<Rightarrow> u32" where
  "u32_from_le_bytes bs = ucast (bs ! 0) OR push_bit 8 (ucast (bs ! 1)) OR
     push_bit 16 (ucast (bs ! 2)) OR push_bit 24 (ucast (bs ! 3))"

definition u64_to_le_bytes :: "u64 \<Rightarrow> u8 list" where
  "u64_to_le_bytes w = map (\<lambda>i. ucast (drop_bit (8 * i) w)) [0..<8]"

lemma length_u32_to_le_bytes [simp]: "length (u32_to_le_bytes w) = 4"
  by (simp add: u32_to_le_bytes_def)

lemma u32_le_roundtrip [simp]: "u32_from_le_bytes (u32_to_le_bytes w) = w"
proof (rule bit_word_eqI)
  fix n assume "n < LENGTH(32)"
  then consider "n < 8" | "8 \<le> n" "n < 16" | "16 \<le> n" "n < 24" | "24 \<le> n" "n < 32"
    by fastforce
  then show "bit (u32_from_le_bytes (u32_to_le_bytes w)) n = bit w n"
    by cases (simp_all add: u32_from_le_bytes_def u32_to_le_bytes_def bit_simps, linarith+)
qed

lemma length_u64_to_le_bytes [simp]: "length (u64_to_le_bytes w) = 8"
  by (simp add: u64_to_le_bytes_def)

lemma u64_to_le_bytes_inject: "u64_to_le_bytes v = u64_to_le_bytes w \<Longrightarrow> v = w"
proof (rule bit_word_eqI)
  fix n assume eq: "u64_to_le_bytes v = u64_to_le_bytes w" and n: "n < LENGTH(64)"
  then have i: "n div 8 < 8" by simp
  have "(ucast (drop_bit (8 * (n div 8)) v) :: u8) = ucast (drop_bit (8 * (n div 8)) w)"
    using arg_cong [OF eq, of "\<lambda>bs. bs ! (n div 8)"] i by (simp add: u64_to_le_bytes_def)
  then have "bit (ucast (drop_bit (8 * (n div 8)) v) :: u8) (n mod 8) = bit (ucast (drop_bit (8 * (n div 8)) w) :: u8) (n mod 8)"
    by simp
  then show "bit v n = bit w n" by (simp add: bit_simps)
qed

lemma u32_to_le_bytes_inject: "u32_to_le_bytes v = u32_to_le_bytes w \<Longrightarrow> v = w"
  by (metis u32_le_roundtrip)

subsection \<open>Prefix codes\<close>

definition prefix_code :: "'a set \<Rightarrow> ('a \<Rightarrow> 'b list) \<Rightarrow> bool" where
  "prefix_code D enc \<longleftrightarrow> (\<forall>x \<in> D. \<forall>y \<in> D. \<forall>s t. enc x @ s = enc y @ t \<longrightarrow> x = y \<and> s = t)"

lemma prefix_codeD: "prefix_code D enc \<Longrightarrow> enc x @ s = enc y @ t \<Longrightarrow> x \<in> D \<Longrightarrow> y \<in> D \<Longrightarrow> x = y \<and> s = t"
  unfolding prefix_code_def by blast

lemma prefix_code_inj: "prefix_code D enc \<Longrightarrow> inj_on enc D"
  by (rule inj_onI) (rule prefix_codeD [where enc = enc and D = D and s = "[]" and t = "[]", THEN conjunct1], simp_all)

lemma prefix_code_fixed: "(\<And>x. length (enc x) = n) \<Longrightarrow> (\<And>x y. enc x = enc y \<Longrightarrow> x = y) \<Longrightarrow> prefix_code D enc"
  unfolding prefix_code_def by (metis append_eq_append_conv)

lemma prefix_code_u32: "prefix_code UNIV u32_to_le_bytes"
  by (rule prefix_code_fixed [OF length_u32_to_le_bytes u32_to_le_bytes_inject])

lemma prefix_code_u64: "prefix_code UNIV u64_to_le_bytes"
  by (rule prefix_code_fixed [OF length_u64_to_le_bytes u64_to_le_bytes_inject])

lemma u32_append_eq [simp]: "u32_to_le_bytes v @ s = u32_to_le_bytes w @ t \<longleftrightarrow> v = w \<and> s = t"
  using prefix_codeD [OF prefix_code_u32, of v s w t] by auto

lemma u64_append_eq [simp]: "u64_to_le_bytes v @ s = u64_to_le_bytes w @ t \<longleftrightarrow> v = w \<and> s = t"
  using prefix_codeD [OF prefix_code_u64, of v s w t] by auto

text \<open>A list behind its length.\<close>

definition counted :: "('a \<Rightarrow> u8 list) \<Rightarrow> 'a list \<Rightarrow> u8 list" where
  "counted enc xs = u32_to_le_bytes (word_of_nat (length xs)) @ concat (map enc xs)"

lemma concat_prefix_code:
  assumes "prefix_code UNIV enc"
  shows "length xs = length ys \<Longrightarrow> concat (map enc xs) @ s = concat (map enc ys) @ t \<Longrightarrow> xs = ys \<and> s = t"
proof (induction xs ys rule: list_induct2)
  case (Cons x xs y ys)
  then have "enc x @ (concat (map enc xs) @ s) = enc y @ (concat (map enc ys) @ t)" by simp
  then have "x = y \<and> concat (map enc xs) @ s = concat (map enc ys) @ t"
    using prefix_codeD [OF assms] by blast
  with Cons.IH show ?case by simp
qed simp

lemma prefix_code_counted:
  assumes "prefix_code UNIV enc"
  shows "prefix_code {xs. length xs < 2 ^ 32} (counted enc)"
  unfolding prefix_code_def
proof (intro ballI allI impI)
  fix xs ys s t
  assume len: "xs \<in> {xs. length xs < 2 ^ 32}" "ys \<in> {xs. length xs < 2 ^ 32}"
    and eq: "counted enc xs @ s = counted enc ys @ t"
  have "word_of_nat (length xs) = (word_of_nat (length ys) :: u32) \<and>
      concat (map enc xs) @ s = concat (map enc ys) @ t"
    using prefix_codeD [OF prefix_code_u32] eq by (simp add: counted_def)
  then have "length xs = length ys" and rest: "concat (map enc xs) @ s = concat (map enc ys) @ t"
    using len by (auto dest: arg_cong [of _ _ unat] simp: unat_of_nat_u32)
  with concat_prefix_code [OF assms] show "xs = ys \<and> s = t" by blast
qed

end
