(* ===== verification/KvSlots.thy ===== *)
theory KvSlots
  imports Bytes
begin

text \<open>
  The compressed KV slot of \<open>kv_cache.rs\<close> and its page-data codec, which the scheduler's
  preemption snapshot and the distributed transport share.  Of a \<open>QjlCorrection\<close>, which belongs to
  the quantizer, a slot only reads the residual bits.
\<close>

unbundle bit_operations_syntax

record qjl_correction =
  qj_residual_bits :: "u8 list"

record compressed_kv_slot =
  ck_compressed_keys :: "u8 list"
  ck_compressed_values :: "u8 list"
  ck_qjl_correction :: "qjl_correction option"
  ck_kv_offset :: u32
  ck_num_tokens :: nat

definition ck_new :: "u32 \<Rightarrow> compressed_kv_slot" where
  "ck_new kv_offset = \<lparr>ck_compressed_keys = [], ck_compressed_values = [],
     ck_qjl_correction = None, ck_kv_offset = kv_offset, ck_num_tokens = 0\<rparr>"

datatype page_error = PageTooShort | PageLengthMismatch nat nat

definition to_page_data :: "compressed_kv_slot \<Rightarrow> u8 list" where
  "to_page_data s =
     u32_to_le_bytes (word_of_nat (length (ck_compressed_keys s))) @ ck_compressed_keys s @
     u32_to_le_bytes (word_of_nat (length (ck_compressed_values s))) @ ck_compressed_values s"

definition from_page_data :: "u8 list \<Rightarrow> page_error + compressed_kv_slot" where
  "from_page_data data = (
     if length data < 8 then Inl PageTooShort
     else
       let key_len = unat (u32_from_le_bytes (take 4 data));
           val_len = unat (u32_from_le_bytes (take 4 (drop 4 data))) in
       if 8 + key_len + val_len \<noteq> length data then
         Inl (PageLengthMismatch (8 + key_len + val_len) (length data))
       else
         let keys_end = 8 + key_len in
         Inr \<lparr>ck_compressed_keys = take key_len (drop 8 data),
              ck_compressed_values = drop keys_end data,
              ck_qjl_correction = None, ck_kv_offset = 0, ck_num_tokens = 1\<rparr>)"

definition ck_is_empty :: "compressed_kv_slot \<Rightarrow> bool" where
  "ck_is_empty s \<longleftrightarrow> ck_num_tokens s = 0"

definition ck_allocated_bytes :: "compressed_kv_slot \<Rightarrow> nat" where
  "ck_allocated_bytes s =
     length (ck_compressed_keys s) + length (ck_compressed_values s) +
     (case ck_qjl_correction s of None \<Rightarrow> 0 | Some c \<Rightarrow> length (qj_residual_bits c)) + 80"

subsection \<open>The codec\<close>

lemma unat_le_length [simp]:
  "length xs < 2 ^ 32 \<Longrightarrow> unat (u32_from_le_bytes (u32_to_le_bytes (word_of_nat (length xs)))) = length xs"
  by (simp add: unat_of_nat_u32)

lemma length_to_page_data:
  "length (to_page_data s) = 8 + length (ck_compressed_keys s) + length (ck_compressed_values s)"
  by (simp add: to_page_data_def)

text \<open>Without key bytes the codec is a round trip.\<close>

lemma page_data_roundtrip_no_keys:
  assumes "ck_compressed_keys s = []" "length (ck_compressed_values s) < 2 ^ 32"
  shows "from_page_data (to_page_data s) = Inr \<lparr>ck_compressed_keys = [],
    ck_compressed_values = ck_compressed_values s, ck_qjl_correction = None, ck_kv_offset = 0,
    ck_num_tokens = 1\<rparr>"
proof -
  let ?v = "ck_compressed_values s"
  let ?d = "to_page_data s"
  have len: "length ?d = 8 + length ?v" using assms(1) by (simp add: length_to_page_data)
  have d: "?d = u32_to_le_bytes 0 @ u32_to_le_bytes (word_of_nat (length ?v)) @ ?v"
    using assms(1) by (simp add: to_page_data_def)
  have t: "take 4 ?d = u32_to_le_bytes 0" "take 4 (drop 4 ?d) = u32_to_le_bytes (word_of_nat (length ?v))"
    "drop 8 ?d = ?v"
    by (simp_all add: d)
  show ?thesis
    using assms(2) unfolding from_page_data_def len t
    by (simp add: Let_def unat_of_nat_u32 t)
qed

text \<open>with at least four key bytes the decoder takes the first four of them for the value
  length, because the encoder writes that length after the keys.  It rejects the page unless those
  bytes happen to spell the number of value bytes, and then returns keys shifted by four bytes.\<close>

theorem page_data_keys_misread:
  assumes "4 \<le> length (ck_compressed_keys s)" "length (ck_compressed_keys s) < 2 ^ 32"
    "length (ck_compressed_values s) < 2 ^ 32"
  shows "from_page_data (to_page_data s) = (
    let claimed = unat (u32_from_le_bytes (take 4 (ck_compressed_keys s))) in
    if claimed = length (ck_compressed_values s) then
      Inr \<lparr>ck_compressed_keys = drop 4 (ck_compressed_keys s) @
            u32_to_le_bytes (word_of_nat (length (ck_compressed_values s))),
          ck_compressed_values = ck_compressed_values s, ck_qjl_correction = None,
          ck_kv_offset = 0, ck_num_tokens = 1\<rparr>
    else Inl (PageLengthMismatch (8 + length (ck_compressed_keys s) + claimed)
        (8 + length (ck_compressed_keys s) + length (ck_compressed_values s))))"
proof -
  let ?k = "ck_compressed_keys s" and ?v = "ck_compressed_values s"
  let ?d = "to_page_data s"
  have len: "length ?d = 8 + length ?k + length ?v" by (rule length_to_page_data)
  have d: "?d = u32_to_le_bytes (word_of_nat (length ?k)) @ ?k @ u32_to_le_bytes (word_of_nat (length ?v)) @ ?v"
    by (rule to_page_data_def)
  have t: "take 4 ?d = u32_to_le_bytes (word_of_nat (length ?k))" by (simp add: d)
  have t2: "take 4 (drop 4 ?d) = take 4 ?k" using assms(1) by (simp add: d)
  have dr: "drop 8 ?d = drop 4 ?k @ u32_to_le_bytes (word_of_nat (length ?v)) @ ?v"
    using assms(1) by (simp add: d)
  have dv: "drop (8 + length ?k) ?d = ?v"
    unfolding d by simp
  show ?thesis
    using assms unfolding from_page_data_def len t t2 dr dv
    by (simp add: Let_def unat_of_nat_u32 dv)
qed

text \<open>The slot of the repository's own round-trip test.\<close>

lemma page_data_keys_misread_witness:
  "let s = \<lparr>ck_compressed_keys = replicate 64 0xAB, ck_compressed_values = replicate 128 0xCD,
      ck_qjl_correction = None, ck_kv_offset = 42, ck_num_tokens = 2\<rparr> in
    from_page_data (to_page_data s) =
      Inl (PageLengthMismatch (8 + 64 + unat (u32_from_le_bytes [0xAB, 0xAB, 0xAB, 0xAB])) (8 + 64 + 128))"
proof -
  have "replicate 4 (0xAB :: u8) = [0xAB, 0xAB, 0xAB, 0xAB]" by (simp add: numeral_nat)
  moreover have "unat (u32_from_le_bytes [0xAB, 0xAB, 0xAB, 0xAB]) \<noteq> 128"
    by (simp add: u32_from_le_bytes_def)
  ultimately show ?thesis
    using page_data_keys_misread [of "\<lparr>ck_compressed_keys = replicate 64 0xAB,
      ck_compressed_values = replicate 128 0xCD, ck_qjl_correction = None, ck_kv_offset = 42,
      ck_num_tokens = 2\<rparr>"] by (simp add: Let_def)
qed

end
