(* ===== verification/Pager.thy ===== *)
theory Pager
  imports Prelude
begin

text \<open>
  The IOSurface allocators of \<open>memory/allocator.rs\<close>: the arena pool \<open>IosurfaceAllocator\<close>, the
  bitmap page allocator \<open>PagedIosurfaceAllocator\<close>, the generation-counted
  \<open>KvCacheBlockAllocator\<close> on top of it and its \<open>BlockHandle\<close> guard.

  An IOSurface arena is external to the code: of an \<open>Arena\<close> the code reads the base pointer and
  the byte length, which are the fields of the record \<open>arena\<close>; \<open>Arena::new\<close> is a parameter of
  the operations that call it.  Pointers are addresses.  The atomics and mutexes of the pool are
  modelled by their sequential meaning.
\<close>

unbundle bit_operations_syntax

subsection \<open>The arena pool\<close>

record arena =
  ar_base_ptr :: nat
  ar_byte_len :: nat

datatype dtype = Float16 | Float32 | Bfloat16 | Int8 | Uint8 | Int16 | Uint16
  | Int32 | Uint32 | Int64 | Uint64 | OtherDtype

definition bytes_per_element :: "dtype \<Rightarrow> u64" where
  "bytes_per_element dt = (case dt of
      Float16 \<Rightarrow> 2
    | Float32 \<Rightarrow> 4 | Bfloat16 \<Rightarrow> 4
    | Int8 \<Rightarrow> 1 | Uint8 \<Rightarrow> 1
    | Int16 \<Rightarrow> 2 | Uint16 \<Rightarrow> 2
    | Int32 \<Rightarrow> 4 | Uint32 \<Rightarrow> 4
    | Int64 \<Rightarrow> 8 | Uint64 \<Rightarrow> 8
    | _ \<Rightarrow> 4)"

record ios_allocator =
  ios_next_id :: u64
  ios_active_arenas :: "(u64 \<times> arena) list"
  ios_total_allocated_bytes :: u64
  ios_max_pool_bytes :: u64

datatype ios_error = ExceedsPoolLimit | ArenaNewFailed string | ActualExceedsPoolLimit
  | IdCollision u64 | ArenaNotFound u64

definition ios_new :: "u64 \<Rightarrow> ios_allocator" where
  "ios_new max_pool_bytes = \<lparr>ios_next_id = 0, ios_active_arenas = [],
     ios_total_allocated_bytes = 0, ios_max_pool_bytes = max_pool_bytes\<rparr>"

definition ios_estimated_bytes :: "u32 \<Rightarrow> u32 \<Rightarrow> dtype \<Rightarrow> u64" where
  "ios_estimated_bytes d0 d1 dt = sat_mul (sat_mul (ucast d0) (ucast d1)) (bytes_per_element dt)"

definition ios_allocate ::
  "(u32 \<Rightarrow> u32 \<Rightarrow> dtype \<Rightarrow> string + arena) \<Rightarrow> ios_allocator \<Rightarrow> u32 \<Rightarrow> u32 \<Rightarrow> dtype
     \<Rightarrow> (ios_error + u64) \<times> ios_allocator" where
  "ios_allocate arena_new a d0 d1 dt = (
     let estimated_bytes = ios_estimated_bytes d0 d1 dt;
         current = ios_total_allocated_bytes a;
         limit = ios_max_pool_bytes a in
     if 0 < limit \<and> limit < sat_add current estimated_bytes then (Inl ExceedsPoolLimit, a)
     else case arena_new d0 d1 dt of
       Inl e \<Rightarrow> (Inl (ArenaNewFailed e), a)
     | Inr ar \<Rightarrow>
         let actual_bytes = word_of_nat (ar_byte_len ar) in
         if 0 < limit \<and> limit < sat_add current actual_bytes then (Inl ActualExceedsPoolLimit, a)
         else
           let aid = ios_next_id a;
               a1 = a\<lparr>ios_next_id := aid + 1, ios_total_allocated_bytes := current + actual_bytes,
                      ios_active_arenas := AList.update aid ar (ios_active_arenas a)\<rparr> in
           case map_of (ios_active_arenas a) aid of
             Some _ \<Rightarrow> (Inl (IdCollision aid),
                       a1\<lparr>ios_total_allocated_bytes := current + actual_bytes - actual_bytes\<rparr>)
           | None \<Rightarrow> (Inr aid, a1))"

definition ios_get_arena :: "ios_allocator \<Rightarrow> u64 \<Rightarrow> arena option \<times> ios_allocator" where
  "ios_get_arena a aid = (map_of (ios_active_arenas a) aid,
     a\<lparr>ios_active_arenas := AList.delete aid (ios_active_arenas a)\<rparr>)"

definition ios_free :: "ios_allocator \<Rightarrow> u64 \<Rightarrow> (ios_error + unit) \<times> ios_allocator" where
  "ios_free a aid = (case map_of (ios_active_arenas a) aid of
      Some ar \<Rightarrow> (Inr (), a\<lparr>ios_active_arenas := AList.delete aid (ios_active_arenas a),
                   ios_total_allocated_bytes :=
                     ios_total_allocated_bytes a - word_of_nat (ar_byte_len ar)\<rparr>)
    | None \<Rightarrow> (Inl (ArenaNotFound aid), a))"

subsection \<open>The paged allocator\<close>

record pager =
  pg_arena :: arena
  pg_num_pages :: nat
  pg_page_size :: nat
  pg_free_bitmap :: "u64 list"

definition pager_new :: "arena \<Rightarrow> nat \<Rightarrow> nat \<Rightarrow> pager" where
  "pager_new ar num_pages page_size = \<lparr>pg_arena = ar, pg_num_pages = num_pages,
     pg_page_size = page_size, pg_free_bitmap = replicate ((num_pages + 63) div 64) (NOT 0)\<rparr>"

text \<open>The two loops over \<open>0..count\<close> of \<open>allocate_pages\<close>: the test of a run and its marking.\<close>

definition run_ok :: "pager \<Rightarrow> nat \<Rightarrow> nat \<Rightarrow> bool" where
  "run_ok p first_free count = list_all (\<lambda>i. let pg = first_free + i in
      pg < pg_num_pages p \<and> pg_free_bitmap p ! (pg div 64) AND push_bit (pg mod 64) 1 \<noteq> 0)
    [0..<count]"

definition clear_page_bit :: "u64 list \<Rightarrow> nat \<Rightarrow> u64 list" where
  "clear_page_bit bm pg = bm[pg div 64 := bm ! (pg div 64) AND NOT (push_bit (pg mod 64) 1)]"

definition mark_run :: "u64 list \<Rightarrow> nat \<Rightarrow> nat \<Rightarrow> u64 list" where
  "mark_run bm first_free count = foldl (\<lambda>bm i. clear_page_bit bm (first_free + i)) bm [0..<count]"

definition masked_word :: "u64 \<Rightarrow> nat \<Rightarrow> u64" where
  "masked_word w bit_off = w AND push_bit bit_off (NOT 0)"

lemma bit_masked_word: "bit (masked_word w off) i \<longleftrightarrow> bit w i \<and> off \<le> i"
  by (auto simp: masked_word_def bit_simps dest: bit_u64_less)

lemma masked_word_trailing_zeros: "masked_word w off \<noteq> 0 \<Longrightarrow> off \<le> trailing_zeros (masked_word w off)"
  using trailing_zeros_bit(2) bit_masked_word by blast

text \<open>The \<open>while start < bits\<close> loop, up to the first run that fits.\<close>

function alloc_scan :: "pager \<Rightarrow> nat \<Rightarrow> nat \<Rightarrow> nat option" where
  "alloc_scan p count start = (
     if start < pg_num_pages p then
       let word_idx = start div 64; bit_off = start mod 64 in
       if length (pg_free_bitmap p) \<le> word_idx then None
       else
         let masked = masked_word (pg_free_bitmap p ! word_idx) bit_off in
         if masked = 0 then alloc_scan p count ((word_idx + 1) * 64)
         else
           let first_free = word_idx * 64 + trailing_zeros masked in
           if pg_num_pages p \<le> first_free then None
           else if run_ok p first_free count then Some first_free
           else alloc_scan p count (first_free + 1)
     else None)"
  by pat_completeness auto

lemma scan_next_word: "(start :: nat) < (start div 64 + 1) * 64"
  using div_mult_mod_eq [of start 64] mod_less_divisor [of 64 start] by simp

lemma scan_next_page:
  assumes "masked_word w (start mod 64) \<noteq> 0"
  shows "start < start div 64 * 64 + trailing_zeros (masked_word w (start mod 64)) + 1"
  using masked_word_trailing_zeros [OF assms] div_mult_mod_eq [of start 64] by linarith

termination alloc_scan
proof (relation "measure (\<lambda>(p, count, start). pg_num_pages p - start)", goal_cases)
  case (2 p count start)
  then show ?case using scan_next_word [of start] by (auto intro: diff_less_mono2)
next
  case (3 p count start)
  then show ?case
    using scan_next_page [of "pg_free_bitmap p ! (start div 64)" start]
    by (auto intro!: diff_less_mono2)
qed auto

declare alloc_scan.simps [simp del]

definition allocate_pages :: "pager \<Rightarrow> nat \<Rightarrow> nat list option \<times> pager" where
  "allocate_pages p count = (case alloc_scan p count 0 of
      None \<Rightarrow> (None, p)
    | Some first_free \<Rightarrow>
        (Some (map (\<lambda>i. first_free + i) [0..<count]),
         p\<lparr>pg_free_bitmap := mark_run (pg_free_bitmap p) first_free count\<rparr>))"

definition free_page :: "pager \<Rightarrow> nat \<Rightarrow> pager" where
  "free_page p page_id = (
     if pg_num_pages p \<le> page_id then p
     else p\<lparr>pg_free_bitmap := (pg_free_bitmap p)[page_id div 64 :=
            pg_free_bitmap p ! (page_id div 64) OR push_bit (page_id mod 64) 1]\<rparr>)"

definition page_address :: "pager \<Rightarrow> nat \<Rightarrow> nat" where
  "page_address p page_id = ar_base_ptr (pg_arena p) + page_id * pg_page_size p"

definition free_pages :: "pager \<Rightarrow> nat" where
  "free_pages p = min (sum_list (map count_ones (pg_free_bitmap p))) (pg_num_pages p)"

subsection \<open>The abstract view of the bitmap\<close>

definition page_free :: "pager \<Rightarrow> nat \<Rightarrow> bool" where
  "page_free p i \<longleftrightarrow> i < pg_num_pages p \<and> bit (pg_free_bitmap p ! (i div 64)) (i mod 64)"

definition free_set :: "pager \<Rightarrow> nat set" where
  "free_set p = {i. page_free p i}"

definition all_pages :: "pager \<Rightarrow> nat set" where
  "all_pages p = {..<pg_num_pages p}"

text \<open>The bitmap has one word per 64 pages, and its padding bits are never cleared.\<close>

definition pager_inv :: "pager \<Rightarrow> bool" where
  "pager_inv p \<longleftrightarrow> length (pg_free_bitmap p) = (pg_num_pages p + 63) div 64 \<and>
     (\<forall>i. pg_num_pages p \<le> i \<longrightarrow> i < 64 * length (pg_free_bitmap p) \<longrightarrow>
        bit (pg_free_bitmap p ! (i div 64)) (i mod 64))"

definition fits :: "pager \<Rightarrow> nat \<Rightarrow> nat \<Rightarrow> bool" where
  "fits p count s \<longleftrightarrow> page_free p s \<and> (\<forall>i < count. page_free p (s + i))"

subsection \<open>Correctness of the scan\<close>

lemma find_skip:
  fixes a b n :: nat
  assumes "a \<le> b" "\<And>s. \<lbrakk>a \<le> s; s < b; s < n\<rbrakk> \<Longrightarrow> \<not> P s"
  shows "find P [a..<n] = find P [b..<n]"
  using assms
proof (induction "b - a" arbitrary: a)
  case 0
  then show ?case by simp
next
  case (Suc k)
  then have "find P [Suc a..<n] = find P [b..<n]"
    by (metis Suc_leI Suc_diff_Suc Suc_leD diff_Suc_Suc diff_diff_cancel diff_le_self
        le_neq_implies_less not_less_eq_eq old.nat.inject zero_less_Suc zero_less_diff)
  then show ?case using Suc by (cases "a < n") (auto simp: upt_conv_Cons)
qed

lemma run_ok_iff:
  shows "run_ok p s count \<longleftrightarrow> (\<forall>i < count. page_free p (s + i))"
  by (auto simp: run_ok_def list_all_iff page_free_def Let_def bit_iff_and_push_bit_not_eq_0)

lemma page_div_bound: "pager_inv p \<Longrightarrow> i < pg_num_pages p \<Longrightarrow> i div 64 < length (pg_free_bitmap p)"
  unfolding pager_inv_def by auto

lemma page_free_masked:
  assumes "start \<le> s" "s < (start div 64 + 1) * 64" "s < pg_num_pages p"
  shows "page_free p s \<longleftrightarrow>
    bit (masked_word (pg_free_bitmap p ! (start div 64)) (start mod 64)) (s mod 64)"
proof -
  have "s div 64 = start div 64" using assms by (simp add: div_nat_eqI)
  moreover from this have "start mod 64 \<le> s mod 64"
    using assms(1) by (metis add_le_cancel_left div_mult_mod_eq)
  ultimately show ?thesis using assms(3) by (simp add: page_free_def bit_masked_word)
qed

lemma alloc_scan_find:
  assumes "pager_inv p"
  shows "alloc_scan p count start = find (fits p count) [start..<pg_num_pages p]"
  using assms
proof (induction p count start rule: alloc_scan.induct)
  case (1 p count start)
  let ?wi = "start div 64" and ?n = "pg_num_pages p"
  let ?m = "masked_word (pg_free_bitmap p ! ?wi) (start mod 64)"
  let ?ff = "?wi * 64 + trailing_zeros ?m"
  show ?case
  proof (cases "start < ?n")
    case False
    then show ?thesis by (simp add: alloc_scan.simps)
  next
    case True
    note wi = page_div_bound [OF 1(3) True]
    note IH = 1(1) [OF True refl refl _ refl] 1(2) [OF True refl refl _ refl]
    show ?thesis
    proof (cases "?m = 0")
      case m: True
      have "alloc_scan p count start = alloc_scan p count ((?wi + 1) * 64)"
        using True wi m by (subst alloc_scan.simps) (simp add: Let_def)
      also have "\<dots> = find (fits p count) [(?wi + 1) * 64..<?n]"
        using IH(1) wi m 1(3) by simp
      also have "\<dots> = find (fits p count) [start..<?n]"
        using page_free_masked [of start _ p] m scan_next_word [of start]
        by (intro find_skip [symmetric]) (auto simp: fits_def)
      finally show ?thesis .
    next
      case m: False
      note tz = trailing_zeros_bit [OF m] and sn = scan_next_page [OF m]
      have none: "\<not> page_free p s" if "start \<le> s" "s < ?ff" "s < ?n" for s
      proof -
        have lt: "s < (?wi + 1) * 64" using that(2) tz(1) by simp
        have d: "s div 64 = ?wi"
          using div_le_mono [OF that(1), of 64] less_mult_imp_div_less [OF lt] by simp
        have "s mod 64 < trailing_zeros ?m"
          using that(2) d div_mult_mod_eq [of s 64] by linarith
        then show ?thesis
          using page_free_masked [OF that(1) lt that(3)] trailing_zeros_below by blast
      qed
      have skip: "find (fits p count) [start..<?n] = find (fits p count) [?ff..<?n]"
        using none sn by (intro find_skip) (auto simp: fits_def)
      have ff_free: "page_free p ?ff" if "?ff < ?n"
        using page_free_masked [of start ?ff p] that sn tz by simp
      show ?thesis
      proof (cases "?n \<le> ?ff")
        case True
        then show ?thesis
          using skip \<open>start < ?n\<close> wi m by (subst alloc_scan.simps) (simp add: Let_def)
      next
        case ff: False
        then have head: "[?ff..<?n] = ?ff # [?ff + 1..<?n]" by (simp add: upt_conv_Cons)
        have fits: "fits p count ?ff \<longleftrightarrow> run_ok p ?ff count"
          using ff_free ff by (simp add: fits_def run_ok_iff)
        show ?thesis
        proof (cases "run_ok p ?ff count")
          case True
          then show ?thesis
            using skip head fits \<open>start < ?n\<close> wi m ff
            by (subst alloc_scan.simps) (simp add: Let_def)
        next
          case no: False
          have "alloc_scan p count start = alloc_scan p count (?ff + 1)"
            using \<open>start < ?n\<close> wi m ff no by (subst alloc_scan.simps) (simp add: Let_def)
          also have "\<dots> = find (fits p count) [?ff + 1..<?n]"
            using IH(2) wi m ff no 1(3) by simp
          finally show ?thesis using skip head fits no by simp
        qed
      qed
    qed
  qed
qed

subsection \<open>What the operations do to the free pages\<close>

lemma bit_clear_page_bit:
  assumes "pg div 64 < length bm" "i div 64 < length bm"
  shows "bit (clear_page_bit bm pg ! (i div 64)) (i mod 64) \<longleftrightarrow>
    bit (bm ! (i div 64)) (i mod 64) \<and> i \<noteq> pg"
proof (cases "i div 64 = pg div 64")
  case True
  then have "i = pg \<longleftrightarrow> i mod 64 = pg mod 64" by (metis div_mult_mod_eq)
  with True assms show ?thesis
    by (auto simp: clear_page_bit_def bit_simps)
next
  case False
  with assms show ?thesis by (auto simp: clear_page_bit_def)
qed

lemma length_clear_page_bit [simp]: "length (clear_page_bit bm pg) = length bm"
  by (simp add: clear_page_bit_def)

lemma mark_run_Suc [simp]: "mark_run bm s (Suc n) = clear_page_bit (mark_run bm s n) (s + n)"
  by (simp add: mark_run_def)

lemma mark_run_0 [simp]: "mark_run bm s 0 = bm"
  by (simp add: mark_run_def)

lemma length_mark_run [simp]: "length (mark_run bm s n) = length bm"
  by (induction n) simp_all

lemma bit_mark_run:
  assumes "\<forall>i < n. (s + i) div 64 < length bm" "j div 64 < length bm"
  shows "bit (mark_run bm s n ! (j div 64)) (j mod 64) \<longleftrightarrow>
    bit (bm ! (j div 64)) (j mod 64) \<and> j \<notin> {s..<s + n}"
  using assms by (induction n) (auto simp: bit_clear_page_bit)

lemma alloc_scan_Some:
  assumes "pager_inv p" "alloc_scan p count start = Some s"
  shows "fits p count s" "start \<le> s" "\<And>t. start \<le> t \<Longrightarrow> t < s \<Longrightarrow> \<not> fits p count t"
proof -
  have "find (fits p count) [start..<pg_num_pages p] = Some s"
    using assms by (simp add: alloc_scan_find)
  then obtain i where i: "i < pg_num_pages p - start" "fits p count s" "s = start + i"
    "\<And>j. j < i \<Longrightarrow> \<not> fits p count (start + j)"
    unfolding find_Some_iff by auto
  then show "fits p count s" "start \<le> s" by auto
  show "\<not> fits p count t" if "start \<le> t" "t < s" for t
    using i(4) [of "t - start"] that i(3) by auto
qed

lemma alloc_scan_None:
  assumes "pager_inv p" "alloc_scan p count 0 = None"
  shows "\<not> fits p count s"
proof
  assume f: "fits p count s"
  then have "s < pg_num_pages p" by (simp add: fits_def page_free_def)
  with f assms show False by (auto simp: alloc_scan_find find_None_iff)
qed

lemma mark_run_pager:
  assumes "pager_inv p" "fits p count s"
  shows "pager_inv (p\<lparr>pg_free_bitmap := mark_run (pg_free_bitmap p) s count\<rparr>)" (is ?inv)
    and "page_free (p\<lparr>pg_free_bitmap := mark_run (pg_free_bitmap p) s count\<rparr>) i \<longleftrightarrow>
      page_free p i \<and> i \<notin> {s..<s + count}" (is ?free)
proof -
  have lt: "s + i < pg_num_pages p" if "i < count" for i
    using assms(2) that by (auto simp: fits_def page_free_def)
  then have in_bm: "\<forall>i < count. (s + i) div 64 < length (pg_free_bitmap p)"
    using page_div_bound [OF assms(1)] by blast
  have bits: "bit (mark_run (pg_free_bitmap p) s count ! (j div 64)) (j mod 64) \<longleftrightarrow>
      bit (pg_free_bitmap p ! (j div 64)) (j mod 64) \<and> j \<notin> {s..<s + count}"
    if "j < 64 * length (pg_free_bitmap p)" for j
    using that by (intro bit_mark_run [OF in_bm]) auto
  have "j \<notin> {s..<s + count}" if "pg_num_pages p \<le> j" for j
    using lt [of "j - s"] that by (cases "s \<le> j") (auto simp: less_diff_conv2)
  with bits assms(1) show ?inv by (auto simp: pager_inv_def)
  have "i < 64 * length (pg_free_bitmap p)" if "i < pg_num_pages p"
    using page_div_bound [OF assms(1) that] by linarith
  with bits show ?free by (auto simp: page_free_def)
qed

lemma allocate_pages_Some:
  assumes "pager_inv p" "allocate_pages p count = (Some ids, p')"
  obtains s where "fits p count s" "\<And>t. t < s \<Longrightarrow> \<not> fits p count t" "ids = [s..<s + count]"
    "pager_inv p'" "\<And>i. page_free p' i \<longleftrightarrow> page_free p i \<and> i \<notin> set ids"
    "pg_num_pages p' = pg_num_pages p" "pg_arena p' = pg_arena p" "pg_page_size p' = pg_page_size p"
proof -
  obtain s where s: "alloc_scan p count 0 = Some s" "ids = map (\<lambda>i. s + i) [0..<count]"
    "p' = p\<lparr>pg_free_bitmap := mark_run (pg_free_bitmap p) s count\<rparr>"
    using assms(2) by (auto simp: allocate_pages_def split: option.splits)
  have ids: "ids = [s..<s + count]" using s(2) map_add_upt [of s count] by (simp add: add.commute)
  note sc = alloc_scan_Some [OF assms(1) s(1)]
  show thesis
    by (rule that [OF sc(1) sc(3) ids])
      (auto simp: s(3) ids mark_run_pager [OF assms(1) sc(1)])
qed

lemma allocate_pages_laws:
  assumes "pager_inv p" "allocate_pages p count = (Some ids, p')"
  shows "pager_inv p' \<and> distinct ids \<and> length ids = count \<and> set ids \<subseteq> free_set p \<and>
    free_set p' = free_set p - set ids \<and> all_pages p' = all_pages p"
proof -
  obtain s where s: "fits p count s" "ids = [s..<s + count]" "pager_inv p'"
    "\<And>i. page_free p' i \<longleftrightarrow> page_free p i \<and> i \<notin> set ids" "pg_num_pages p' = pg_num_pages p"
    using allocate_pages_Some [OF assms] by metis
  have "page_free p i" if "i \<in> set ids" for i
  proof -
    have "s \<le> i" "i - s < count" using that s(2) by auto
    then show ?thesis using s(1) le_add_diff_inverse [of s i] unfolding fits_def by metis
  qed
  with s show ?thesis by (auto simp: free_set_def all_pages_def)
qed

lemma allocate_pages_None:
  assumes "pager_inv p" "allocate_pages p count = (None, p')"
  shows "p' = p" "\<not> fits p count s"
  using assms alloc_scan_None by (auto simp: allocate_pages_def split: option.splits)

lemma free_page_pager:
  assumes "pager_inv p"
  shows "pager_inv (free_page p pg)" (is ?inv)
    and "page_free (free_page p pg) i \<longleftrightarrow> page_free p i \<or> i = pg \<and> i < pg_num_pages p" (is ?free)
    and "pg_num_pages (free_page p pg) = pg_num_pages p"
proof -
  have bits: "bit (pg_free_bitmap (free_page p pg) ! (j div 64)) (j mod 64) \<longleftrightarrow>
      bit (pg_free_bitmap p ! (j div 64)) (j mod 64) \<or> j = pg"
    if "pg < pg_num_pages p" "j div 64 < length (pg_free_bitmap p)" for j
  proof (cases "j div 64 = pg div 64")
    case True
    then have "j = pg \<longleftrightarrow> j mod 64 = pg mod 64" by (metis div_mult_mod_eq)
    with True that show ?thesis
      by (auto simp: free_page_def bit_simps)
  next
    case False
    with that show ?thesis by (auto simp: free_page_def)
  qed
  have len: "length (pg_free_bitmap (free_page p pg)) = length (pg_free_bitmap p)"
    and num: "pg_num_pages (free_page p pg) = pg_num_pages p"
    by (simp_all add: free_page_def)
  have le: "j div 64 < length (pg_free_bitmap p)" if "j < 64 * length (pg_free_bitmap p)" for j
    using that by (simp add: less_mult_imp_div_less mult.commute)
  show "pg_num_pages (free_page p pg) = pg_num_pages p" by (rule num)
  show ?inv
  proof (cases "pg < pg_num_pages p")
    case True
    then show ?thesis using assms bits len num le by (auto simp: pager_inv_def)
  next
    case False
    then show ?thesis using assms by (simp add: free_page_def)
  qed
  show ?free
  proof (cases "pg < pg_num_pages p")
    case True
    then show ?thesis
      using bits num page_div_bound [OF assms] by (auto simp: page_free_def)
  next
    case False
    then show ?thesis by (auto simp: free_page_def)
  qed
qed

lemma pager_new_inv [simp]: "pager_inv (pager_new ar n sz)"
  by (auto simp: pager_inv_def pager_new_def less_mult_imp_div_less mult.commute)

lemma pg_num_new [simp]: "pg_num_pages (pager_new ar n sz) = n"
  by (simp add: pager_new_def)

lemma page_free_new: "page_free (pager_new ar n sz) i \<longleftrightarrow> i < n"
  by (auto simp: page_free_def pager_new_def)

subsection \<open>The page allocator interface\<close>

text \<open>
  What the clients of a page allocator rely on.  \<open>held\<close> are the pages that are handed out; a
  client keeps the pages of its own bookkeeping distinct and within \<open>held\<close>.
\<close>

locale page_allocator =
  fixes alloc :: "'s \<Rightarrow> nat \<Rightarrow> nat list option \<times> 's"
    and release :: "'s \<Rightarrow> nat \<Rightarrow> 's"
    and avail :: "'s \<Rightarrow> nat set"
    and pages :: "'s \<Rightarrow> nat set"
    and ok :: "'s \<Rightarrow> bool"
  assumes alloc_Some: "\<lbrakk>ok s; alloc s n = (Some ids, s')\<rbrakk> \<Longrightarrow>
      ok s' \<and> distinct ids \<and> length ids = n \<and> set ids \<subseteq> avail s \<and>
      avail s' = avail s - set ids \<and> pages s' = pages s"
    and alloc_None: "\<lbrakk>ok s; alloc s n = (None, s')\<rbrakk> \<Longrightarrow> s' = s"
    and release_ok: "ok s \<Longrightarrow> ok (release s i)"
    and release_pages: "ok s \<Longrightarrow> pages (release s i) = pages s"
    and release_avail: "ok s \<Longrightarrow> avail (release s i) = avail s \<union> ({i} \<inter> pages s)"
    and avail_pages: "ok s \<Longrightarrow> avail s \<subseteq> pages s"
begin

definition held :: "'s \<Rightarrow> nat set" where
  "held s = pages s - avail s"

definition release_all :: "'s \<Rightarrow> nat list \<Rightarrow> 's" where
  "release_all s ids = foldl release s ids"

lemma release_all_laws:
  assumes "ok s"
  shows "ok (release_all s ids) \<and> pages (release_all s ids) = pages s \<and>
    avail (release_all s ids) = avail s \<union> (set ids \<inter> pages s)"
  using assms
proof (induction ids arbitrary: s)
  case Nil
  then show ?case by (simp add: release_all_def)
next
  case (Cons i ids)
  have "release_all s (i # ids) = release_all (release s i) ids" by (simp add: release_all_def)
  with Cons.IH [of "release s i"] Cons.prems show ?case
    by (auto simp: release_ok release_pages release_avail)
qed

lemma held_alloc:
  assumes "ok s" "alloc s n = (Some ids, s')"
  shows "held s' = held s \<union> set ids" "set ids \<inter> held s = {}"
  using alloc_Some [OF assms] avail_pages [OF assms(1)] by (auto simp: held_def)

lemma held_release_all: "ok s \<Longrightarrow> held (release_all s ids) = held s - set ids"
  using release_all_laws [of s ids] avail_pages [of s] by (auto simp: held_def)

text \<open>A client that owns the pages \<open>own\<close> may add the pages it is given \<dots>\<close>

lemma owned_alloc:
  assumes "ok s" "alloc s n = (Some ids, s')" "distinct own" "set own \<subseteq> held s"
  shows "distinct (own @ ids)" "set (own @ ids) \<subseteq> held s'"
  using alloc_Some [OF assms(1,2)] held_alloc [OF assms(1,2)] assms(3,4) by auto

text \<open>\<dots> and give back some of them while it keeps the others.\<close>

lemma owned_release:
  assumes "ok s" "distinct (own @ ids)" "set (own @ ids) \<subseteq> held s"
  shows "distinct own" "set own \<subseteq> held (release_all s ids)"
  using held_release_all [OF assms(1)] assms(2,3) by auto

end

interpretation pgr: page_allocator allocate_pages free_page free_set all_pages pager_inv
proof (unfold_locales, goal_cases)
  case (1 s n ids s')
  then show ?case by (rule allocate_pages_laws)
next
  case (2 s n s')
  then show ?case by (rule allocate_pages_None)
next
  case (3 s i)
  then show ?case by (rule free_page_pager)
next
  case (4 s i)
  then show ?case by (simp add: all_pages_def free_page_pager)
next
  case (5 s i)
  then show ?case by (auto simp: free_set_def all_pages_def free_page_pager)
next
  case (6 s)
  then show ?case by (auto simp: free_set_def all_pages_def page_free_def)
qed

subsection \<open>Counting the free pages\<close>

definition bit_set :: "u64 list \<Rightarrow> nat set" where
  "bit_set bm = {i. i < 64 * length bm \<and> bit (bm ! (i div 64)) (i mod 64)}"

lemma finite_bit_set [simp]: "finite (bit_set bm)"
  by (rule finite_subset [of _ "{..<64 * length bm}"]) (auto simp: bit_set_def)

lemma bit_set_snoc:
  "bit_set (bm @ [w]) = bit_set bm \<union> (\<lambda>i. 64 * length bm + i) ` {i. i < 64 \<and> bit w i}"
proof (intro set_eqI iffI)
  fix i assume i: "i \<in> bit_set (bm @ [w])"
  show "i \<in> bit_set bm \<union> (\<lambda>i. 64 * length bm + i) ` {i. i < 64 \<and> bit w i}"
  proof (cases "i < 64 * length bm")
    case True
    then have "i div 64 < length bm" by (simp add: less_mult_imp_div_less mult.commute)
    with i True show ?thesis by (auto simp: bit_set_def nth_append)
  next
    case False
    moreover have "i < 64 * length bm + 64" using i by (simp add: bit_set_def)
    ultimately obtain k where k: "i = 64 * length bm + k" "k < 64"
      by (metis add_less_cancel_left le_Suc_ex not_less)
    with i show ?thesis by (auto simp: bit_set_def nth_append)
  qed
next
  fix i assume "i \<in> bit_set bm \<union> (\<lambda>i. 64 * length bm + i) ` {i. i < 64 \<and> bit w i}"
  then show "i \<in> bit_set (bm @ [w])"
    by (auto simp: bit_set_def nth_append less_mult_imp_div_less mult.commute)
qed

lemma sum_count_ones: "sum_list (map count_ones bm) = card (bit_set bm)"
proof (induction bm rule: rev_induct)
  case Nil
  then show ?case by (simp add: bit_set_def)
next
  case (snoc w bm)
  have "card (bit_set (bm @ [w])) =
      card (bit_set bm) + card ((\<lambda>i. 64 * length bm + i) ` {i. i < 64 \<and> bit w i})"
    unfolding bit_set_snoc by (rule card_Un_disjoint) (auto simp: bit_set_def)
  also have "card ((\<lambda>i. 64 * length bm + i) ` {i. i < 64 \<and> bit w i}) = count_ones w"
    by (simp add: card_image inj_on_def count_ones_card)
  finally show ?case using snoc by simp
qed

lemma bit_set_pager:
  assumes "pager_inv p"
  shows "bit_set (pg_free_bitmap p) =
    free_set p \<union> {pg_num_pages p..<64 * length (pg_free_bitmap p)}"
proof (intro set_eqI iffI)
  fix i assume "i \<in> bit_set (pg_free_bitmap p)"
  then show "i \<in> free_set p \<union> {pg_num_pages p..<64 * length (pg_free_bitmap p)}"
    by (auto simp: bit_set_def free_set_def page_free_def)
next
  fix i assume "i \<in> free_set p \<union> {pg_num_pages p..<64 * length (pg_free_bitmap p)}"
  then consider "page_free p i" | "pg_num_pages p \<le> i" "i < 64 * length (pg_free_bitmap p)"
    by (auto simp: free_set_def)
  then show "i \<in> bit_set (pg_free_bitmap p)"
  proof cases
    case 1
    then have "i div 64 < length (pg_free_bitmap p)"
      by (intro page_div_bound [OF assms]) (simp add: page_free_def)
    then have "i < 64 * length (pg_free_bitmap p)" by linarith
    with 1 show ?thesis by (simp add: bit_set_def page_free_def)
  next
    case 2
    with assms show ?thesis by (simp add: bit_set_def pager_inv_def)
  qed
qed

definition padding :: "pager \<Rightarrow> nat" where
  "padding p = 64 * ((pg_num_pages p + 63) div 64) - pg_num_pages p"

lemma free_pages_eq:
  assumes "pager_inv p"
  shows "free_pages p = min (card (free_set p) + padding p) (pg_num_pages p)"
proof -
  have "card (bit_set (pg_free_bitmap p)) =
      card (free_set p) + card {pg_num_pages p..<64 * length (pg_free_bitmap p)}"
    unfolding bit_set_pager [OF assms]
    by (rule card_Un_disjoint)
      (auto simp: free_set_def page_free_def intro: finite_subset [of _ "{..<pg_num_pages p}"])
  with assms show ?thesis
    by (simp add: free_pages_def sum_count_ones padding_def pager_inv_def)
qed

lemma padding_eq_0: "padding p = 0 \<longleftrightarrow> 64 dvd pg_num_pages p"
proof
  let ?q = "(pg_num_pages p + 63) div 64"
  assume "padding p = 0"
  moreover have "pg_num_pages p + 63 = ?q * 64 + (pg_num_pages p + 63) mod 64"
    "(pg_num_pages p + 63) mod 64 < 64"
    by (simp_all add: div_mult_mod_eq)
  ultimately have "pg_num_pages p = 64 * ?q" unfolding padding_def by linarith
  then show "64 dvd pg_num_pages p" by (rule dvdI)
qed (auto simp: padding_def elim!: dvdE)

subsection \<open>Blocks with generations\<close>

record block_allocator =
  ba_pager :: pager
  ba_generations :: "u32 list"

datatype block_error = NoFreeBlocks

definition ba_new :: "pager \<Rightarrow> block_allocator" where
  "ba_new p = \<lparr>ba_pager = p, ba_generations = replicate (pg_num_pages p) 0\<rparr>"

definition alloc_block :: "block_allocator \<Rightarrow> (block_error + nat \<times> u32) \<times> block_allocator" where
  "alloc_block a = (case allocate_pages (ba_pager a) 1 of
      (None, p) \<Rightarrow> (Inl NoFreeBlocks, a\<lparr>ba_pager := p\<rparr>)
    | (Some pages, p) \<Rightarrow>
        let idx = pages ! 0 in (Inr (idx, ba_generations a ! idx), a\<lparr>ba_pager := p\<rparr>))"

text \<open>\<open>None\<close> is the panic of the assertion on the index.\<close>

definition free_block :: "block_allocator \<Rightarrow> nat \<Rightarrow> block_allocator option" where
  "free_block a index = (
     if index < length (ba_generations a) then
       Some (a\<lparr>ba_pager := free_page (ba_pager a) index,
               ba_generations := (ba_generations a)[index := ba_generations a ! index + 1]\<rparr>)
     else None)"

definition block_ptr :: "block_allocator \<Rightarrow> nat \<Rightarrow> nat option" where
  "block_ptr a index = (if pg_num_pages (ba_pager a) \<le> index then None
     else Some (page_address (ba_pager a) index))"

definition allocated_blocks :: "block_allocator \<Rightarrow> nat" where
  "allocated_blocks a = pg_num_pages (ba_pager a) - free_pages (ba_pager a)"

definition ba_is_full :: "block_allocator \<Rightarrow> bool" where
  "ba_is_full a \<longleftrightarrow> free_pages (ba_pager a) = 0"

text \<open>
  A handle refers to the allocator weakly: its operations take the allocator when it is still
  alive and \<open>None\<close> when it has been dropped.
\<close>

record block_handle =
  bh_page_index :: nat
  bh_generation :: u32
  bh_freed :: bool

definition bh_new :: "nat \<Rightarrow> u32 \<Rightarrow> block_handle" where
  "bh_new index generation =
     \<lparr>bh_page_index = index, bh_generation = generation, bh_freed = False\<rparr>"

definition mark_freed :: "block_handle \<Rightarrow> block_handle" where
  "mark_freed h = h\<lparr>bh_freed := True\<rparr>"

definition bh_is_valid :: "block_handle \<Rightarrow> block_allocator option \<Rightarrow> bool option" where
  "bh_is_valid h alloc = (case alloc of
      None \<Rightarrow> None
    | Some a \<Rightarrow>
        if length (ba_generations a) \<le> bh_page_index h then Some False
        else Some (ba_generations a ! bh_page_index h = bh_generation h))"

text \<open>The outer \<open>None\<close> of a drop is the panic of \<open>free_block\<close>.\<close>

definition bh_drop :: "block_handle \<Rightarrow> block_allocator option \<Rightarrow> block_allocator option option" where
  "bh_drop h alloc = (
     if bh_freed h then Some alloc
     else case alloc of
       None \<Rightarrow> Some None
     | Some a \<Rightarrow> (case free_block a (bh_page_index h) of
           None \<Rightarrow> None
         | Some a' \<Rightarrow> Some (Some a')))"

definition ba_inv :: "block_allocator \<Rightarrow> bool" where
  "ba_inv a \<longleftrightarrow> pager_inv (ba_pager a) \<and> length (ba_generations a) = pg_num_pages (ba_pager a)"

lemma ba_new_inv: "pager_inv p \<Longrightarrow> ba_inv (ba_new p)"
  by (simp add: ba_inv_def ba_new_def)

datatype block_op = OpAlloc | OpFree nat

fun run_block_ops :: "block_allocator \<Rightarrow> block_op list \<Rightarrow> block_allocator option" where
  "run_block_ops a [] = Some a"
| "run_block_ops a (OpAlloc # ops) = run_block_ops (snd (alloc_block a)) ops"
| "run_block_ops a (OpFree i # ops) =
    (case free_block a i of None \<Rightarrow> None | Some a' \<Rightarrow> run_block_ops a' ops)"

lemma alloc_block_Inr:
  assumes "ba_inv a" "alloc_block a = (Inr (i, g), a')"
  shows "ba_inv a'" "i < length (ba_generations a)" "g = ba_generations a ! i"
    "ba_generations a' = ba_generations a" "page_free (ba_pager a) i"
    "\<And>t. t < i \<Longrightarrow> \<not> page_free (ba_pager a) t"
    "free_set (ba_pager a') = free_set (ba_pager a) - {i}"
proof -
  obtain ids p where p: "allocate_pages (ba_pager a) 1 = (Some ids, p)"
    using assms(2) by (auto simp: alloc_block_def split: prod.splits option.splits)
  have a': "i = ids ! 0" "g = ba_generations a ! i" "a' = a\<lparr>ba_pager := p\<rparr>"
    using assms(2) p by (auto simp: alloc_block_def Let_def)
  obtain s where s: "fits (ba_pager a) 1 s" "\<And>t. t < s \<Longrightarrow> \<not> fits (ba_pager a) 1 t"
    "ids = [s..<s + 1]" "pager_inv p"
    "\<And>i. page_free p i \<longleftrightarrow> page_free (ba_pager a) i \<and> i \<notin> set ids"
    "pg_num_pages p = pg_num_pages (ba_pager a)"
    using allocate_pages_Some [OF _ p] assms(1) unfolding ba_inv_def by metis
  then have "i = s" using a' by simp
  with s a' assms(1) show "ba_inv a'" "i < length (ba_generations a)" "g = ba_generations a ! i"
    "ba_generations a' = ba_generations a" "page_free (ba_pager a) i"
    "\<And>t. t < i \<Longrightarrow> \<not> page_free (ba_pager a) t"
    "free_set (ba_pager a') = free_set (ba_pager a) - {i}"
    by (auto simp: ba_inv_def fits_def page_free_def free_set_def)
qed

lemma alloc_block_Inl: "ba_inv a \<Longrightarrow> alloc_block a = (Inl e, a') \<Longrightarrow> a' = a"
  using allocate_pages_None(1) [of "ba_pager a" 1]
  by (auto simp: alloc_block_def ba_inv_def Let_def split: prod.splits option.splits)

lemma alloc_block_laws:
  assumes "ba_inv a"
  shows "ba_inv (snd (alloc_block a))" "ba_generations (snd (alloc_block a)) = ba_generations a"
  using alloc_block_Inr(1,4) [OF assms] alloc_block_Inl [OF assms] assms
  by (cases "alloc_block a"; cases "fst (alloc_block a)"; force)+

lemma free_block_laws:
  assumes "ba_inv a" "free_block a i = Some a'"
  shows "ba_inv a'" "ba_generations a' = (ba_generations a)[i := ba_generations a ! i + 1]"
    "i < length (ba_generations a)" "free_set (ba_pager a') = free_set (ba_pager a) \<union> {i}"
  using assms by (auto simp: free_block_def ba_inv_def free_page_pager free_set_def
      split: if_splits)

lemma run_block_ops_generation:
  assumes "ba_inv a" "run_block_ops a ops = Some a'" "i < length (ba_generations a)"
  shows "ba_inv a' \<and> length (ba_generations a') = length (ba_generations a) \<and>
    ba_generations a' ! i = ba_generations a ! i + word_of_nat (count_list ops (OpFree i))"
  using assms
proof (induction a ops rule: run_block_ops.induct)
  case (2 a ops)
  then show ?case using alloc_block_laws [of a] by simp
next
  case (3 a j ops)
  then obtain a1 where a1: "free_block a j = Some a1" "run_block_ops a1 ops = Some a'"
    by (auto split: option.splits)
  note l = free_block_laws [OF 3(2) a1(1)]
  show ?case using 3(1) [OF a1(1) l(1) a1(2)] l 3(4) by (auto simp: algebra_simps nth_list_update)
qed simp

text \<open>A pool of 100 pages, for concrete runs.\<close>

definition demo_pager :: pager where
  "demo_pager = pager_new \<lparr>ar_base_ptr = 0, ar_byte_len = 51200\<rparr> 100 512"

lemma allocate_pages_new:
  assumes "count \<le> n" "0 < n"
  shows "\<exists>p'. allocate_pages (pager_new ar n sz) count = (Some [0..<count], p')"
proof -
  have fits_new: "fits (pager_new ar n sz) count 0"
    using assms by (simp add: fits_def page_free_new)
  have "alloc_scan (pager_new ar n sz) count 0 = Some 0"
    using assms
    using pg_num_new [of ar n sz] fits_new
    by (simp add: alloc_scan_find upt_conv_Cons)
  then show ?thesis by (simp add: allocate_pages_def map_idI)
qed

lemma alloc_block_new:
  assumes "0 < n"
  shows "\<exists>a'. alloc_block (ba_new (pager_new ar n sz)) = (Inr (0, 0), a')"
  using allocate_pages_new [of 1 n ar sz] assms
  by (auto simp: alloc_block_def ba_new_def Let_def pager_new_def)

subsection \<open>Properties\<close>

text \<open>C17: \<open>allocate_pages\<close> is first fit.  It fails, leaving the allocator unchanged, exactly when
  no run of \<open>count\<close> free pages exists; otherwise it returns the lowest such run, makes exactly
  those pages unavailable and keeps the bitmap well formed.\<close>

theorem allocate_pages_first_fit:
  assumes "pager_inv p" "allocate_pages p count = (r, p')"
  shows "case r of
      None \<Rightarrow> p' = p \<and> (\<forall>s. \<not> fits p count s)
    | Some ids \<Rightarrow> \<exists>s. ids = [s..<s + count] \<and> fits p count s \<and> (\<forall>t < s. \<not> fits p count t) \<and>
        pager_inv p' \<and> pg_num_pages p' = pg_num_pages p \<and>
        (\<forall>i. page_free p' i \<longleftrightarrow> page_free p i \<and> i \<notin> set ids)"
proof (cases r)
  case None
  then show ?thesis using allocate_pages_None [of p count p'] assms by simp
next
  case (Some ids)
  then show ?thesis using allocate_pages_Some [of p count ids p'] assms by (simp, metis)
qed

lemma allocate_pages_first_fit_witness:
  "\<exists>p'. allocate_pages demo_pager 2 = (Some [0, 1], p') \<and>
    (\<exists>s. [0, 1] = [s..<s + 2] \<and> fits demo_pager 2 s \<and> (\<forall>t < s. \<not> fits demo_pager 2 t) \<and>
        pager_inv p' \<and> pg_num_pages p' = pg_num_pages demo_pager \<and>
        (\<forall>i. page_free p' i \<longleftrightarrow> page_free demo_pager i \<and> i \<notin> set [0, 1]))"
proof -
  obtain p' where "allocate_pages demo_pager 2 = (Some [0, 1], p')"
    using allocate_pages_new [of 2 100] by (auto simp: demo_pager_def numeral_2_eq_2)
  with allocate_pages_first_fit [OF _ this] show ?thesis by (auto simp: demo_pager_def)
qed

text \<open>C18: a block handle is valid exactly while its page has been freed a multiple of \<open>2 ^ 32\<close>
  times since the handle was allocated, whatever other blocks were allocated and freed in
  between; in particular it is valid until the first free and stale after it, until the generation
  counter wraps around.\<close>

theorem handle_validity:
  assumes "ba_inv a" "alloc_block a = (Inr (i, g), a1)" "run_block_ops a1 ops = Some a2"
  shows "bh_is_valid (bh_new i g) (Some a2) = Some (2 ^ 32 dvd count_list ops (OpFree i))"
proof -
  note l = alloc_block_Inr [OF assms(1,2)]
  have "i < length (ba_generations a1)" using l by simp
  from run_block_ops_generation [OF l(1) assms(3) this]
  have "i < length (ba_generations a2)"
    "ba_generations a2 ! i = g + word_of_nat (count_list ops (OpFree i))"
    using l by simp_all
  then show ?thesis
    by (simp add: bh_is_valid_def bh_new_def word_of_nat_eq_0_iff del: of_nat_numeral)
qed

lemma handle_validity_witness:
  "\<exists>a1 a2. run_block_ops a1 [OpAlloc, OpFree 0] = Some a2 \<and>
     bh_is_valid (bh_new 0 0) (Some a2) = Some False"
proof -
  let ?a = "ba_new demo_pager"
  have inv: "ba_inv ?a" by (simp add: demo_pager_def ba_new_inv)
  obtain a1 where a1: "alloc_block ?a = (Inr (0, 0), a1)"
    unfolding demo_pager_def by (metis alloc_block_new zero_less_numeral)
  have l: "ba_inv a1" "length (ba_generations a1) = 100"
    using alloc_block_Inr [OF inv a1] by (simp_all add: ba_new_def demo_pager_def)
  then have "length (ba_generations (snd (alloc_block a1))) = 100"
    by (simp add: alloc_block_laws)
  then obtain a2 where "run_block_ops a1 [OpAlloc, OpFree 0] = Some a2"
    by (simp add: free_block_def)
  with handle_validity [OF inv a1 this] show ?thesis by force
qed

text \<open>\<open>is_full\<close> reports a full pool only when the number of pages is a multiple of 64: the
  padding bits of the last bitmap word are counted as free pages, so with any other pool size an
  exhausted pool is never reported full, and \<open>allocated_blocks\<close> undercounts by the padding.\<close>

theorem is_full_iff:
  assumes "ba_inv a"
  shows "(ba_is_full a \<longleftrightarrow> pg_num_pages (ba_pager a) = 0 \<or>
      free_set (ba_pager a) = {} \<and> 64 dvd pg_num_pages (ba_pager a)) \<and>
    allocated_blocks a =
      pg_num_pages (ba_pager a) - (card (free_set (ba_pager a)) + padding (ba_pager a))"
proof -
  have inv: "pager_inv (ba_pager a)" using assms by (simp add: ba_inv_def)
  have "finite (free_set (ba_pager a))"
    by (rule finite_subset [of _ "{..<pg_num_pages (ba_pager a)}"])
      (auto simp: free_set_def page_free_def)
  then show ?thesis
    using padding_eq_0 [of "ba_pager a"]
    by (auto simp: ba_is_full_def allocated_blocks_def free_pages_eq [OF inv] min_def)
qed

lemma is_full_iff_witness: "\<not> ba_is_full (ba_new demo_pager) \<and> padding demo_pager = 28"
  using is_full_iff [of "ba_new demo_pager"] ba_new_inv [of demo_pager]
  by (simp add: demo_pager_def ba_new_def padding_def)

text \<open>dropping a stale handle frees the page again.  After block \<open>i\<close> was freed explicitly and
  handed out again, the new handle has the next generation; dropping the old handle, which was not
  marked freed, makes the page free while the new handle still stands for it, and invalidates the
  new handle.\<close>

theorem stale_handle_drop:
  assumes "ba_inv a" "alloc_block a = (Inr (i, g), a1)" "free_block a1 i = Some a2"
    "alloc_block a2 = (Inr (j, h), a3)"
  shows "j = i \<and> h = g + 1 \<and> bh_is_valid (bh_new j h) (Some a3) = Some True \<and>
    (\<exists>a4. bh_drop (bh_new i g) (Some a3) = Some (Some a4) \<and>
      page_free (ba_pager a4) j \<and> bh_is_valid (bh_new j h) (Some a4) = Some False)"
proof -
  note l1 = alloc_block_Inr [OF assms(1,2)]
  note l2 = free_block_laws [OF l1(1) assms(3)]
  note l3 = alloc_block_Inr [OF l2(1) assms(4)]
  have pf: "page_free (ba_pager a2) t \<longleftrightarrow> page_free (ba_pager a) t" for t
    using l1(5,7) l2(4) by (auto simp: free_set_def)
  have "j = i" using pf l1(5,6) l3(5,6) by (metis linorder_neqE_nat)
  moreover have "h = g + 1" using l1(3,4) l2(2,3) l3(3) calculation by simp
  moreover obtain a4 where a4: "free_block a3 i = Some a4"
    using l3(2,4) calculation(1) by (auto simp: free_block_def)
  note l4 = free_block_laws [OF l3(1) a4]
  have "ba_generations a4 ! i = h + 1" using l3(3,4) l4(2,3) calculation(1) by simp
  ultimately show ?thesis
    using a4 l4 l3(2-4) by (auto simp: bh_drop_def bh_new_def bh_is_valid_def free_set_def)
qed

lemma stale_handle_drop_witness:
  "\<exists>a1 a2 a3 a4. alloc_block (ba_new demo_pager) = (Inr (0, 0), a1) \<and> free_block a1 0 = Some a2 \<and>
    alloc_block a2 = (Inr (0, 1), a3) \<and> bh_drop (bh_new 0 0) (Some a3) = Some (Some a4) \<and>
    page_free (ba_pager a4) 0 \<and> bh_is_valid (bh_new 0 1) (Some a4) = Some False"
proof -
  have inv: "ba_inv (ba_new demo_pager)" by (simp add: demo_pager_def ba_new_inv)
  obtain a1 where a1: "alloc_block (ba_new demo_pager) = (Inr (0, 0), a1)"
    unfolding demo_pager_def by (metis alloc_block_new zero_less_numeral)
  note l = alloc_block_Inr [OF inv a1]
  have "length (ba_generations a1) = 100" using l by (simp add: ba_new_def demo_pager_def)
  then obtain a2 where a2: "free_block a1 0 = Some a2" by (auto simp: free_block_def)
  note l2 = free_block_laws [OF l(1) a2]
  have "page_free (ba_pager a2) 0" using l2(4) by (auto simp: free_set_def)
  moreover have "page_free (ba_pager a2) 0 \<Longrightarrow> \<exists>j h a3. alloc_block a2 = (Inr (j, h), a3)"
    using l2(1) allocate_pages_None(2) [of "ba_pager a2" 1 _ 0]
    by (cases "allocate_pages (ba_pager a2) 1"; cases "fst (allocate_pages (ba_pager a2) 1)")
      (auto simp: alloc_block_def Let_def fits_def ba_inv_def)
  ultimately obtain j h a3 where a3: "alloc_block a2 = (Inr (j, h), a3)" by blast
  from stale_handle_drop [OF inv a1 a2 a3] a1 a2 a3 show ?thesis by auto
qed

subsection \<open>Accounting of the arena pool\<close>

text \<open>
  A run of pool operations, together with the arenas that \<open>get_arena\<close> has transferred to the
  caller.
\<close>

datatype ios_op = IosAllocate u32 u32 dtype | IosGetArena u64 | IosFree u64

definition ios_step :: "(u32 \<Rightarrow> u32 \<Rightarrow> dtype \<Rightarrow> string + arena) \<Rightarrow>
    ios_op \<Rightarrow> ios_allocator \<times> arena list \<Rightarrow> ios_allocator \<times> arena list" where
  "ios_step arena_new opn st = (case opn of
      IosAllocate d0 d1 dt \<Rightarrow> (snd (ios_allocate arena_new (fst st) d0 d1 dt), snd st)
    | IosGetArena i \<Rightarrow> (case ios_get_arena (fst st) i of
          (Some ar, a) \<Rightarrow> (a, ar # snd st)
        | (None, a) \<Rightarrow> (a, snd st))
    | IosFree i \<Rightarrow> (snd (ios_free (fst st) i), snd st))"

definition ios_run :: "(u32 \<Rightarrow> u32 \<Rightarrow> dtype \<Rightarrow> string + arena) \<Rightarrow>
    ios_op list \<Rightarrow> ios_allocator \<times> arena list \<Rightarrow> ios_allocator \<times> arena list" where
  "ios_run arena_new ops st = foldl (\<lambda>st opn. ios_step arena_new opn st) st ops"

definition tracked_bytes :: "(u64 \<times> arena) list \<Rightarrow> nat" where
  "tracked_bytes ars = sum_list (map (\<lambda>(i, ar). ar_byte_len ar) ars)"

definition ios_inv :: "nat \<Rightarrow> ios_allocator \<times> arena list \<Rightarrow> bool" where
  "ios_inv k st \<longleftrightarrow> unat (ios_next_id (fst st)) \<le> k \<and> distinct (map fst (ios_active_arenas (fst st))) \<and>
     (\<forall>x \<in> set (ios_active_arenas (fst st)). fst x < ios_next_id (fst st)) \<and>
     unat (ios_total_allocated_bytes (fst st)) =
       tracked_bytes (ios_active_arenas (fst st)) + sum_list (map ar_byte_len (snd st)) \<and>
     ios_total_allocated_bytes (fst st) \<le> ios_max_pool_bytes (fst st)"

lemma tracked_bytes_delete:
  assumes "distinct (map fst ars)" "map_of ars i = Some ar"
  shows "tracked_bytes ars = tracked_bytes (AList.delete i ars) + ar_byte_len ar"
  using assms
proof (induction ars)
  case (Cons x ars)
  show ?case
  proof (cases "fst x = i")
    case True
    then have "i \<notin> fst ` set ars" using Cons.prems by auto
    then have "AList.delete i ars = ars" by (simp add: delete_id)
    with True Cons.prems show ?thesis by (cases x) (simp add: tracked_bytes_def)
  next
    case False
    with Cons show ?thesis by (cases x) (simp add: tracked_bytes_def)
  qed
qed simp

lemma tracked_bytes_update:
  "i \<notin> fst ` set ars \<Longrightarrow> tracked_bytes (AList.update i ar ars) = tracked_bytes ars + ar_byte_len ar"
  by (induction ars) (auto simp: tracked_bytes_def)

lemma ios_release_inv:
  assumes "ios_inv k (a, xs)" "map_of (ios_active_arenas a) i = Some ar"
    and "a' = a\<lparr>ios_active_arenas := AList.delete i (ios_active_arenas a),
      ios_total_allocated_bytes := ios_total_allocated_bytes a - word_of_nat (ar_byte_len ar)\<rparr>"
  shows "ios_inv k (a', xs)"
proof -
  have tb: "tracked_bytes (ios_active_arenas a) =
      tracked_bytes (AList.delete i (ios_active_arenas a)) + ar_byte_len ar"
    using assms(1,2) by (intro tracked_bytes_delete) (simp_all add: ios_inv_def)
  have "ar_byte_len ar \<le> unat (ios_total_allocated_bytes a)"
    using assms(1) tb by (simp add: ios_inv_def)
  then have "unat (word_of_nat (ar_byte_len ar) :: u64) = ar_byte_len ar"
    using unat_u64_less [of "ios_total_allocated_bytes a"] by (simp add: unat_of_nat_u64)
  then have "unat (ios_total_allocated_bytes a - word_of_nat (ar_byte_len ar)) =
      unat (ios_total_allocated_bytes a) - ar_byte_len ar"
    using \<open>ar_byte_len ar \<le> _\<close> by (simp add: unat_sub word_le_nat_alt)
  then show ?thesis
    using assms(1) tb unfolding assms(3) ios_inv_def
    by (auto simp: distinct_delete word_le_nat_alt in_delete)
qed

lemma ios_allocate_inv:
  assumes inv: "ios_inv k (a, xs)" and k: "k + 1 < 2 ^ 64"
    and new: "\<And>ar. arena_new d0 d1 dt = Inr ar \<Longrightarrow> ar_byte_len ar < 2 ^ 64"
    and lim: "0 < ios_max_pool_bytes a" "ios_max_pool_bytes a < - 1"
  shows "ios_inv (k + 1) (snd (ios_allocate arena_new a d0 d1 dt), xs)"
proof -
  let ?cur = "ios_total_allocated_bytes a" and ?max = "ios_max_pool_bytes a"
  have weaken: "ios_inv (k + 1) (a, xs)" using inv by (simp add: ios_inv_def)
  show ?thesis
  proof (cases "?max < sat_add ?cur (ios_estimated_bytes d0 d1 dt)")
    case True
    then show ?thesis using weaken lim by (simp add: ios_allocate_def)
  next
    case est: False
    show ?thesis
    proof (cases "arena_new d0 d1 dt")
      case (Inl e)
      then show ?thesis using weaken est by (simp add: ios_allocate_def)
    next
      case (Inr ar)
      let ?b = "word_of_nat (ar_byte_len ar) :: u64" and ?n = "ios_next_id a"
      have b: "unat ?b = ar_byte_len ar" using new [OF Inr] by (simp add: unat_of_nat_u64)
      show ?thesis
      proof (cases "?max < sat_add ?cur ?b")
        case True
        then show ?thesis using weaken est lim Inr by (simp add: ios_allocate_def)
      next
        case act: False
        have fresh: "?n \<notin> fst ` set (ios_active_arenas a)"
          using inv by (auto simp: ios_inv_def)
        then have none: "map_of (ios_active_arenas a) ?n = None" by (simp add: map_of_eq_None_iff)
        have "unat ?max < 2 ^ 64 - 1" using lim(2) by (simp add: word_less_nat_alt unat_max_word)
        then have sum: "unat ?cur + ar_byte_len ar \<le> unat ?max"
          using act b by (simp add: word_less_nat_alt unat_sat_add not_less)
        then have add: "unat (?cur + ?b) = unat ?cur + ar_byte_len ar"
          using b unat_u64_less [of ?max] unat_add_lem [of ?cur ?b] by simp
        have "unat ?n < 2 ^ 64 - 1" using inv k by (simp add: ios_inv_def)
        then have nxt: "unat (?n + 1) = unat ?n + 1"
          using unat_add_lem [of ?n 1] by simp
        have ids: "\<forall>x \<in> set (AList.update ?n ar (ios_active_arenas a)). fst x < ?n + 1"
          using inv nxt by (auto simp: set_update_new [OF fresh] ios_inv_def word_less_nat_alt)
        from inv est act lim Inr none show ?thesis
          using add sum nxt ids fresh
          by (simp add: ios_allocate_def ios_inv_def Let_def tracked_bytes_update distinct_update
              word_le_nat_alt)
      qed
    qed
  qed
qed

lemma ios_max_step [simp]:
  "ios_max_pool_bytes (fst (ios_step arena_new opn st)) = ios_max_pool_bytes (fst st)"
  by (auto simp: ios_step_def ios_allocate_def ios_free_def ios_get_arena_def Let_def
      split: ios_op.splits sum.splits option.splits)

lemma ios_step_inv:
  assumes "ios_inv k st" "k + 1 < 2 ^ 64"
    and "\<And>d0 d1 dt ar. arena_new d0 d1 dt = Inr ar \<Longrightarrow> ar_byte_len ar < 2 ^ 64"
    and "0 < ios_max_pool_bytes (fst st)" "ios_max_pool_bytes (fst st) < - 1"
  shows "ios_inv (k + 1) (ios_step arena_new opn st)"
proof (cases st)
  case (Pair a xs)
  have weaken: "ios_inv (k + 1) (b, ys)" if "ios_inv k (b, ys)" for b ys
    using that by (simp add: ios_inv_def)
  show ?thesis
  proof (cases opn)
    case (IosAllocate d0 d1 dt)
    then show ?thesis
      using ios_allocate_inv [of k a xs arena_new d0 d1 dt] assms Pair by (simp add: ios_step_def)
  next
    case (IosGetArena i)
    show ?thesis
    proof (cases "map_of (ios_active_arenas a) i")
      case None
      then have "i \<notin> fst ` set (ios_active_arenas a)" by (simp add: map_of_eq_None_iff)
      with None IosGetArena show ?thesis
        using weaken assms(1) Pair by (simp add: ios_step_def ios_get_arena_def)
    next
      case (Some ar)
      have "tracked_bytes (ios_active_arenas a) =
          tracked_bytes (AList.delete i (ios_active_arenas a)) + ar_byte_len ar"
        using assms(1) Some Pair by (intro tracked_bytes_delete) (simp_all add: ios_inv_def)
      with Some IosGetArena assms(1) Pair show ?thesis
        by (auto simp: ios_step_def ios_get_arena_def ios_inv_def distinct_delete in_delete)
    qed
  next
    case (IosFree i)
    then show ?thesis
      using ios_release_inv [of k a xs i] assms(1) Pair weaken
      by (auto simp: ios_step_def ios_free_def split: option.splits)
  qed
qed

text \<open>in every run of fewer than \<open>2 ^ 64 - 1\<close> allocations, releases and transfers of a pool with a
  limit, the byte counter equals the bytes of the tracked arenas plus the bytes of every arena that
  \<open>get_arena\<close> ever transferred out (these are never deducted), it never exceeds the limit, and no
  two live arenas share an id.  The limit \<open>2 ^ 64 - 1\<close> is excluded: there the saturating comparison
  always passes.\<close>

theorem ios_pool_accounting:
  assumes "\<And>d0 d1 dt ar. arena_new d0 d1 dt = Inr ar \<Longrightarrow> ar_byte_len ar < 2 ^ 64"
    and "0 < limit" "limit < - 1" "length ops + 1 < 2 ^ 64"
    and "ios_run arena_new ops (ios_new limit, []) = (a, xs)"
  shows "unat (ios_total_allocated_bytes a) =
      tracked_bytes (ios_active_arenas a) + sum_list (map ar_byte_len xs) \<and>
    ios_total_allocated_bytes a \<le> limit \<and> distinct (map fst (ios_active_arenas a))"
proof -
  have "ios_inv (length ops) (ios_run arena_new ops (ios_new limit, [])) \<and>
      ios_max_pool_bytes (fst (ios_run arena_new ops (ios_new limit, []))) = limit"
    using assms(4)
  proof (induction ops rule: rev_induct)
    case Nil
    then show ?case by (simp add: ios_run_def ios_inv_def ios_new_def tracked_bytes_def)
  next
    case (snoc x ops)
    then show ?case
      using ios_step_inv [of "length ops" "ios_run arena_new ops (ios_new limit, [])" arena_new x]
        assms(1-3) by (simp add: ios_run_def)
  qed
  then show ?thesis using assms(5) by (auto simp: ios_inv_def)
qed

lemma ios_pool_accounting_witness:
  "\<exists>a xs. ios_run (\<lambda>d0 d1 dt. Inr \<lparr>ar_base_ptr = 0, ar_byte_len = 64\<rparr>)
      [IosAllocate 4 4 Float16, IosAllocate 4 4 Float16, IosGetArena 0] (ios_new 200, []) = (a, xs) \<and>
    unat (ios_total_allocated_bytes a) =
      tracked_bytes (ios_active_arenas a) + sum_list (map ar_byte_len xs)"
proof -
  let ?new = "\<lambda>d0 d1 dt. Inr \<lparr>ar_base_ptr = 0, ar_byte_len = 64\<rparr> :: string + arena"
  obtain a xs where "ios_run ?new [IosAllocate 4 4 Float16, IosAllocate 4 4 Float16, IosGetArena 0]
      (ios_new 200, []) = (a, xs)" by (rule prod.exhaust)
  moreover from ios_pool_accounting [OF _ _ _ _ this]
  have "unat (ios_total_allocated_bytes a) =
      tracked_bytes (ios_active_arenas a) + sum_list (map ar_byte_len xs)"
    by auto
  ultimately show ?thesis by blast
qed

end
