(* ===== verification/Scheduler.thy ===== *)
theory Scheduler
  imports Pager KvSlots
begin

text \<open>
  The continuous batching scheduler (\<open>scheduling/mod.rs\<close>, \<open>batch.rs\<close>, \<open>request.rs\<close>, \<open>slot.rs\<close>,
  \<open>saved_request.rs\<close> and \<open>scheduler.rs\<close>): the request queue, the active set, the slots with their
  KV cache pages, preemption and resumption.

  Time stamps are natural numbers; the operations that read the clock take the reading as an
  argument.  Of a route profile the scheduler reads the pairs of operation and backend ids.  The
  \<open>f64\<close> field \<open>prefill_many_ratio\<close> of the configuration, which no operation reads, is left out.
\<close>

unbundle bit_operations_syntax

subsection \<open>Data\<close>

datatype request_state = Queued | Prefilling | Decoding | Paused | Completed | Cancelled

record request =
  rq_id :: u64
  rq_prompt :: "u32 list"
  rq_max_tokens :: nat
  rq_priority :: u8
  rq_state :: request_state
  rq_created_at :: nat
  rq_slot :: "nat option"

record slot =
  sl_id :: nat
  sl_request_id :: "u64 option"
  sl_tokens_generated :: nat
  sl_kv_cache_start :: nat
  sl_kv_cache_length :: nat
  sl_backend_id :: u32
  sl_kv_cache_pages :: "nat list"

record batch =
  bt_slots :: "slot list"
  bt_batch_size :: nat
  bt_max_batch_size :: nat

record scheduler_config =
  cf_max_batch_size :: nat
  cf_max_total_tokens :: nat
  cf_max_prefill_batch :: nat
  cf_pause_threshold :: nat
  cf_default_backend_id :: u32
  cf_kv_cache_length :: nat
  cf_kv_cache_pool_bytes :: u64
  cf_kv_cache_pages_per_slot :: nat

definition default_config :: scheduler_config where
  "default_config = \<lparr>cf_max_batch_size = 64, cf_max_total_tokens = 4096, cf_max_prefill_batch = 8,
     cf_pause_threshold = 2048, cf_default_backend_id = 0, cf_kv_cache_length = 4096,
     cf_kv_cache_pool_bytes = 256 * 1024 * 1024, cf_kv_cache_pages_per_slot = 64\<rparr>"

record hardware_config =
  hw_total_ram_gb :: u32
  hw_gpu_cores :: u32
  hw_ane_cores :: u32
  hw_cpu_cores :: u32
  hw_memory_bw_gb_s :: u32
  hw_is_memory_rich :: bool
  hw_recommended_batch_size :: u32
  hw_recommended_spec_length :: u32
  hw_enable_weight_streaming :: bool
  hw_enable_kv_disk_eviction :: bool
  hw_max_concurrent_sequences :: u32

text \<open>\<open>HardwareConfig::detect\<close>, with the RAM size in MB and the CPU count it measures.\<close>

definition hw_detect :: "u64 \<Rightarrow> u32 \<Rightarrow> hardware_config" where
  "hw_detect total_ram_mb cpu_count = (
     let total_ram_gb = ucast (total_ram_mb div 1024);
         is_ultra = 24 \<le> cpu_count in
     \<lparr>hw_total_ram_gb = total_ram_gb,
      hw_gpu_cores = (if is_ultra then 80 else 8),
      hw_ane_cores = (if is_ultra then 32 else 16),
      hw_cpu_cores = cpu_count,
      hw_memory_bw_gb_s = (if is_ultra then 800 else 100),
      hw_is_memory_rich = (64 < total_ram_gb),
      hw_recommended_batch_size = (if is_ultra then 32 else 4),
      hw_recommended_spec_length = (if is_ultra then 32 else 8),
      hw_enable_weight_streaming = (total_ram_gb \<le> 32),
      hw_enable_kv_disk_eviction = (total_ram_gb \<le> 32),
      hw_max_concurrent_sequences = (if is_ultra then 64 else 8)\<rparr>)"

record saved_request =
  sv_request_id :: u64
  sv_kv_cache_snapshot :: "compressed_kv_slot list"
  sv_prompt :: "u32 list"
  sv_max_tokens :: nat
  sv_tokens_generated :: nat
  sv_kv_cache_length :: nat
  sv_kv_cache_start :: nat
  sv_priority :: u8
  sv_kv_cache_pages :: "nat list"
  sv_preemption_count :: nat

definition MAX_PREEMPTIONS_BEFORE_BOOST :: nat where
  "MAX_PREEMPTIONS_BEFORE_BOOST = 3"

definition STARVATION_PRIORITY_BOOST :: u8 where
  "STARVATION_PRIORITY_BOOST = 64"

text \<open>Of a \<open>ComputeRouteProfile\<close>: the operation and backend ids of \<open>operations\<close>, in order.\<close>

type_synonym route_profile = "(u64 \<times> u32) list"

record scheduler =
  sc_queue :: "request list"
  sc_active :: "request list"
  sc_slots :: "slot list"
  sc_config :: scheduler_config
  sc_max_concurrent :: nat
  sc_max_seq_len :: nat
  sc_batch_prefills :: bool
  sc_batch_decodes :: bool
  sc_max_prefill_batch :: nat
  sc_route_profile :: "route_profile option"
  sc_kv_cache_allocator :: "ios_allocator option"
  sc_kv_cache_pager :: "pager option"
  sc_preempted :: "saved_request list"
  sc_starvation_counters :: "(u64 \<times> nat) list"
  sc_preemption_enabled :: bool

subsection \<open>Requests, slots and batches\<close>

definition request_new :: "u64 \<Rightarrow> nat \<Rightarrow> u32 list \<Rightarrow> nat \<Rightarrow> request" where
  "request_new nanos now prompt max_tokens = \<lparr>rq_id = nanos, rq_prompt = prompt,
     rq_max_tokens = max_tokens, rq_priority = 0, rq_state = Queued, rq_created_at = now,
     rq_slot = None\<rparr>"

definition request_transition :: "request \<Rightarrow> request_state \<Rightarrow> request" where
  "request_transition r st = r\<lparr>rq_state := st\<rparr>"

definition slot_new :: "nat \<Rightarrow> slot" where
  "slot_new i = \<lparr>sl_id = i, sl_request_id = None, sl_tokens_generated = 0, sl_kv_cache_start = 0,
     sl_kv_cache_length = 0, sl_backend_id = 0, sl_kv_cache_pages = []\<rparr>"

definition is_free :: "slot \<Rightarrow> bool" where
  "is_free s \<longleftrightarrow> sl_request_id s = None"

definition build_prefill_batch :: "request list \<Rightarrow> nat \<Rightarrow> batch" where
  "build_prefill_batch requests max_size = (
     let slots = map (\<lambda>(i, req). \<lparr>sl_id = i, sl_request_id = Some (rq_id req),
           sl_tokens_generated = 0, sl_kv_cache_start = 0,
           sl_kv_cache_length = length (rq_prompt req), sl_backend_id = 0,
           sl_kv_cache_pages = []\<rparr>) (enumerate 0 (take max_size requests)) in
     \<lparr>bt_slots = slots, bt_batch_size = length slots, bt_max_batch_size = max_size\<rparr>)"

definition build_decode_batch :: "request list \<Rightarrow> nat \<Rightarrow> batch" where
  "build_decode_batch active max_size = (
     let slots = map (\<lambda>(i, req). \<lparr>sl_id = i, sl_request_id = Some (rq_id req),
           sl_tokens_generated = rq_max_tokens req, sl_kv_cache_start = 0,
           sl_kv_cache_length = rq_max_tokens req, sl_backend_id = 0,
           sl_kv_cache_pages = []\<rparr>) (enumerate 0 (take max_size active)) in
     \<lparr>bt_slots = slots, bt_batch_size = length slots, bt_max_batch_size = max_size\<rparr>)"

record batched_prefill =
  bp_prompts :: "u32 list list"
  bp_max_seq_len :: u32

definition bp_new_for_hardware :: "hardware_config \<Rightarrow> u32 list \<Rightarrow> batched_prefill" where
  "bp_new_for_hardware hw model_prompt =
     \<lparr>bp_prompts = replicate (unat (hw_recommended_batch_size hw)) model_prompt,
      bp_max_seq_len = 262144\<rparr>"

text \<open>\<open>Inl (len, limit)\<close> is the error that names both.\<close>

definition bp_execute :: "batched_prefill \<Rightarrow> (nat \<times> u32) + u32 list" where
  "bp_execute b = (
     let batch_size = length (bp_prompts b) in
     if batch_size = 0 then Inr []
     else
       let max_prompt_len = fold max (map length (bp_prompts b)) 0 in
       if bp_max_seq_len b < word_of_nat max_prompt_len then Inl (max_prompt_len, bp_max_seq_len b)
       else Inr (replicate batch_size 0))"

definition batch_decode_steps :: "slot list \<Rightarrow> u32 list list" where
  "batch_decode_steps slots = map (\<lambda>s. [word_of_nat (sl_id s)]) slots"

subsection \<open>The scheduler\<close>

definition scheduler_new :: "scheduler_config \<Rightarrow> scheduler" where
  "scheduler_new config = \<lparr>sc_queue = [], sc_active = [],
     sc_slots = map (\<lambda>i. \<lparr>sl_id = i, sl_request_id = None, sl_tokens_generated = 0,
       sl_kv_cache_start = 0, sl_kv_cache_length = 0,
       sl_backend_id = cf_default_backend_id config, sl_kv_cache_pages = []\<rparr>)
       [0..<cf_max_batch_size config],
     sc_config = config, sc_max_concurrent = cf_max_batch_size config, sc_max_seq_len = 4096,
     sc_batch_prefills = False, sc_batch_decodes = False,
     sc_max_prefill_batch = cf_max_prefill_batch config, sc_route_profile = None,
     sc_kv_cache_allocator = None, sc_kv_cache_pager = None, sc_preempted = [],
     sc_starvation_counters = [], sc_preemption_enabled = True\<rparr>"

definition configure_for_hardware :: "scheduler \<Rightarrow> hardware_config \<Rightarrow> scheduler" where
  "configure_for_hardware s hw = (
     let s1 = s\<lparr>sc_config := (sc_config s)\<lparr>cf_max_batch_size := unat (hw_recommended_batch_size hw)\<rparr>,
                sc_max_concurrent := unat (hw_max_concurrent_sequences hw),
                sc_max_seq_len := 262144\<rparr> in
     if hw_is_memory_rich hw then
       s1\<lparr>sc_batch_prefills := True,
          sc_max_prefill_batch := unat (hw_recommended_batch_size hw),
          sc_batch_decodes := True\<rparr>
     else s1)"

definition enqueue :: "scheduler \<Rightarrow> request \<Rightarrow> scheduler" where
  "enqueue s req = s\<lparr>sc_queue := sc_queue s @ [req]\<rparr>"

definition set_route_profile :: "scheduler \<Rightarrow> route_profile \<Rightarrow> scheduler" where
  "set_route_profile s profile = s\<lparr>sc_route_profile := Some profile\<rparr>"

definition set_kv_cache_allocator :: "scheduler \<Rightarrow> ios_allocator \<Rightarrow> scheduler" where
  "set_kv_cache_allocator s a = s\<lparr>sc_kv_cache_allocator := Some a\<rparr>"

definition set_kv_cache_pager :: "scheduler \<Rightarrow> pager \<Rightarrow> scheduler" where
  "set_kv_cache_pager s p = s\<lparr>sc_kv_cache_pager := Some p\<rparr>"

definition add_slots :: "slot list \<Rightarrow> nat \<Rightarrow> slot list" where
  "add_slots slots count = slots @ map (\<lambda>i. slot_new (length slots + i)) [0..<count]"

text \<open>The polling loop of \<open>next_batch\<close>: \<open>Vec::pop\<close> takes the last request of the queue.\<close>

function poll :: "scheduler_config \<Rightarrow> request list \<Rightarrow> request list \<Rightarrow> request list \<times> request list" where
  "poll cf active queue = (
     if length active < cf_max_batch_size cf \<and> length active < cf_max_prefill_batch cf then
       (if queue = [] then (active, queue)
        else poll cf (active @ [last queue]) (butlast queue))
     else (active, queue))"
  by pat_completeness auto
termination by (relation "measure (\<lambda>(cf, active, queue). length queue)") auto

declare poll.simps [simp del]

definition backend_of :: "scheduler_config \<Rightarrow> route_profile option \<Rightarrow> u64 \<Rightarrow> u32" where
  "backend_of cf profile rid = (case profile of
      Some ops \<Rightarrow> (case find (\<lambda>(opid, backend). opid = rid) ops of
          Some (opid, backend) \<Rightarrow> backend
        | None \<Rightarrow> cf_default_backend_id cf)
    | None \<Rightarrow> cf_default_backend_id cf)"

text \<open>
  One iteration of the prefill loop for the request \<open>req\<close>: the request, the slots and the pager
  after it.
\<close>

definition assign_slot :: "scheduler_config \<Rightarrow> route_profile option \<Rightarrow> request
    \<Rightarrow> slot list \<times> pager option \<Rightarrow> request \<times> slot list \<times> pager option" where
  "assign_slot cf profile req st = (case st of (slots, pgr) \<Rightarrow>
     if rq_slot req \<noteq> None then (req, slots, pgr)
     else case find_idx is_free slots of
       None \<Rightarrow> (req, slots, pgr)
     | Some i \<Rightarrow>
         let sl = (slots ! i)\<lparr>sl_request_id := Some (rq_id req),
                    sl_kv_cache_length := length (rq_prompt req),
                    sl_tokens_generated := 0, sl_kv_cache_start := 0,
                    sl_backend_id := backend_of cf profile (rq_id req)\<rparr>;
             req' = req\<lparr>rq_slot := Some (sl_id sl)\<rparr> in
         case pgr of
           None \<Rightarrow> (req', slots[i := sl], None)
         | Some p \<Rightarrow> (case allocate_pages p (cf_kv_cache_pages_per_slot cf) of
               (Some page_ids, p') \<Rightarrow> (req', slots[i := sl\<lparr>sl_kv_cache_pages := page_ids\<rparr>], Some p')
             | (None, p') \<Rightarrow> (req', slots[i := sl], Some p')))"

fun assign_slots :: "scheduler_config \<Rightarrow> route_profile option \<Rightarrow> request list
    \<Rightarrow> slot list \<times> pager option \<Rightarrow> request list \<times> slot list \<times> pager option" where
  "assign_slots cf profile [] st = ([], st)"
| "assign_slots cf profile (req # reqs) st = (
     case assign_slot cf profile req st of (req', st') \<Rightarrow>
       case assign_slots cf profile reqs st' of (reqs', st'') \<Rightarrow> (req' # reqs', st''))"

definition decode_slot :: "slot \<Rightarrow> slot" where
  "decode_slot sl = (if sl_request_id sl \<noteq> None
     then sl\<lparr>sl_kv_cache_length := sl_kv_cache_length sl + 1\<rparr> else sl)"

definition next_batch :: "scheduler \<Rightarrow> batch \<times> scheduler" where
  "next_batch s = (
     let cf = sc_config s;
         (active, queue) = poll cf (sc_active s) (sort_key rq_priority (sc_queue s));
         prefill_count = length (filter (\<lambda>r. rq_slot r = None) active);
         s' = (if 0 < prefill_count then
                 let free_count = length (filter is_free (sc_slots s));
                     slots = (if free_count < prefill_count
                       then add_slots (sc_slots s) (prefill_count - free_count) else sc_slots s);
                     (active', slots', pgr') =
                       assign_slots cf (sc_route_profile s) active (slots, sc_kv_cache_pager s) in
                 s\<lparr>sc_queue := queue, sc_active := active', sc_slots := slots',
                   sc_kv_cache_pager := pgr'\<rparr>
               else s\<lparr>sc_queue := queue, sc_active := active,
                      sc_slots := map decode_slot (sc_slots s)\<rparr>);
         batch_slots = filter (\<lambda>sl. sl_request_id sl \<noteq> None) (sc_slots s') in
     (\<lparr>bt_slots = batch_slots, bt_batch_size = length batch_slots,
       bt_max_batch_size = cf_max_batch_size cf\<rparr>, s'))"

text \<open>Freeing the pages of a slot, and the slot cleared of its request.\<close>

definition free_all :: "pager option \<Rightarrow> nat list \<Rightarrow> pager option" where
  "free_all pgr ids = map_option (\<lambda>p. foldl free_page p ids) pgr"

definition clear_slot :: "slot \<Rightarrow> slot" where
  "clear_slot sl = sl\<lparr>sl_kv_cache_pages := [], sl_request_id := None, sl_tokens_generated := 0,
     sl_kv_cache_length := 0, sl_kv_cache_start := 0\<rparr>"

definition process_slot :: "request list \<Rightarrow> slot list \<times> pager option \<Rightarrow> slot \<Rightarrow> slot list \<times> pager option" where
  "process_slot active st batch_slot = (case st of (slots, pgr) \<Rightarrow>
     case sl_request_id batch_slot of
       None \<Rightarrow> (slots, pgr)
     | Some request_id \<Rightarrow> (case find_idx (\<lambda>sl. sl_id sl = sl_id batch_slot) slots of
           None \<Rightarrow> (slots, pgr)
         | Some i \<Rightarrow>
             let sl = (slots ! i)\<lparr>sl_tokens_generated := sl_tokens_generated (slots ! i) + 1\<rparr> in
             case find (\<lambda>r. rq_id r = request_id) active of
               None \<Rightarrow> (slots[i := sl], pgr)
             | Some req \<Rightarrow>
                 if rq_max_tokens req \<le> sl_tokens_generated sl
                 then (slots[i := clear_slot sl], free_all pgr (sl_kv_cache_pages sl))
                 else (slots[i := sl], pgr)))"

definition process_results :: "scheduler \<Rightarrow> batch \<Rightarrow> scheduler" where
  "process_results s b = (
     case foldl (process_slot (sc_active s)) (sc_slots s, sc_kv_cache_pager s) (bt_slots b) of
       (slots, pgr) \<Rightarrow>
         s\<lparr>sc_slots := slots, sc_kv_cache_pager := pgr,
           sc_active := filter (\<lambda>req. list_ex (\<lambda>sl. sl_request_id sl = Some (rq_id req)) slots)
             (sc_active s)\<rparr>)"

definition enqueue_with_priority :: "scheduler \<Rightarrow> request \<Rightarrow> u8 \<Rightarrow> scheduler" where
  "enqueue_with_priority s req priority =
     s\<lparr>sc_queue := sc_queue s @ [req\<lparr>rq_priority := priority\<rparr>]\<rparr>"

subsection \<open>Preemption\<close>

definition boost_request :: "(u64 \<times> nat) list \<Rightarrow> request \<Rightarrow> request" where
  "boost_request counters req = (case map_of counters (rq_id req) of
      None \<Rightarrow> req
    | Some count \<Rightarrow>
        if MAX_PREEMPTIONS_BEFORE_BOOST \<le> count then
          let cycles = word_of_nat (count - MAX_PREEMPTIONS_BEFORE_BOOST + 1);
              boost = sat_mul cycles STARVATION_PRIORITY_BOOST in
          req\<lparr>rq_priority := sat_sub (rq_priority req) boost\<rparr>
        else req)"

definition apply_starvation_boosts :: "scheduler \<Rightarrow> scheduler" where
  "apply_starvation_boosts s =
     s\<lparr>sc_active := map (boost_request (sc_starvation_counters s)) (sc_active s)\<rparr>"

text \<open>\<open>max_by_key\<close> with the key \<open>(priority, created_at)\<close>: the last of the greatest elements.\<close>

definition key_le :: "request \<Rightarrow> request \<Rightarrow> bool" where
  "key_le r r' \<longleftrightarrow> rq_priority r < rq_priority r' \<or>
     rq_priority r = rq_priority r' \<and> rq_created_at r \<le> rq_created_at r'"

definition victim_index :: "request list \<Rightarrow> nat option" where
  "victim_index active = foldl (\<lambda>acc i. case acc of
       None \<Rightarrow> Some i
     | Some j \<Rightarrow> if key_le (active ! j) (active ! i) then Some i else Some j)
   None [0..<length active]"

definition kv_snapshot :: "nat \<Rightarrow> nat \<Rightarrow> nat list \<Rightarrow> compressed_kv_slot list" where
  "kv_snapshot kv_cache_start kv_cache_length pages = map (\<lambda>i.
     \<lparr>ck_compressed_keys = [], ck_compressed_values = [], ck_qjl_correction = None,
      ck_kv_offset = word_of_nat (kv_cache_start + i * 64),
      ck_num_tokens = min 64 (kv_cache_length - i * 64)\<rparr>) [0..<length pages]"

definition preempt_lowest :: "scheduler \<Rightarrow> saved_request option \<times> scheduler" where
  "preempt_lowest s = (
     if \<not> sc_preemption_enabled s then (None, s)
     else if length (sc_active s) < cf_max_batch_size (sc_config s) then (None, s)
     else
       let s1 = apply_starvation_boosts s in
       case victim_index (sc_active s1) of
         None \<Rightarrow> (None, s1)
       | Some victim_idx \<Rightarrow>
           let victim = sc_active s1 ! victim_idx in
           if rq_priority victim = 0 then (None, s1)
           else case rq_slot victim of
             None \<Rightarrow> (None, s1)
           | Some slot_id \<Rightarrow> (case find_idx (\<lambda>sl. sl_id sl = slot_id) (sc_slots s1) of
                 None \<Rightarrow> (None, s1)
               | Some slot_idx \<Rightarrow>
                   let sl = sc_slots s1 ! slot_idx;
                       request_id = rq_id victim;
                       count = (case map_of (sc_starvation_counters s1) request_id of
                         None \<Rightarrow> 0 | Some c \<Rightarrow> c);
                       saved = \<lparr>sv_request_id = request_id,
                         sv_kv_cache_snapshot = kv_snapshot (sl_kv_cache_start sl)
                           (sl_kv_cache_length sl) (sl_kv_cache_pages sl),
                         sv_prompt = rq_prompt victim, sv_max_tokens = rq_max_tokens victim,
                         sv_tokens_generated = sl_tokens_generated sl,
                         sv_kv_cache_length = sl_kv_cache_length sl,
                         sv_kv_cache_start = sl_kv_cache_start sl,
                         sv_priority = rq_priority victim,
                         sv_kv_cache_pages = sl_kv_cache_pages sl,
                         sv_preemption_count = count + 1\<rparr> in
                   (Some saved,
                    s1\<lparr>sc_starvation_counters :=
                         AList.update request_id (count + 1) (sc_starvation_counters s1),
                       sc_active := remove_nth victim_idx (sc_active s1),
                       sc_slots := (sc_slots s1)[slot_idx := clear_slot sl],
                       sc_preempted := sc_preempted s1 @ [saved]\<rparr>)))"

definition resume :: "scheduler \<Rightarrow> nat \<Rightarrow> saved_request \<Rightarrow> scheduler" where
  "resume s now saved = (
     let s1 = s\<lparr>sc_preempted :=
           filter (\<lambda>x. sv_request_id x \<noteq> sv_request_id saved) (sc_preempted s)\<rparr> in
     case find_idx is_free (sc_slots s1) of
       Some i \<Rightarrow>
         let sl = (sc_slots s1 ! i)\<lparr>sl_request_id := Some (sv_request_id saved),
               sl_tokens_generated := sv_tokens_generated saved,
               sl_kv_cache_length := sv_kv_cache_length saved,
               sl_kv_cache_start := sv_kv_cache_start saved,
               sl_kv_cache_pages := sv_kv_cache_pages saved,
               sl_backend_id := cf_default_backend_id (sc_config s1)\<rparr>;
             req = \<lparr>rq_id = sv_request_id saved, rq_prompt = sv_prompt saved,
               rq_max_tokens = sv_max_tokens saved, rq_priority = sv_priority saved,
               rq_state = Decoding, rq_created_at = now, rq_slot = Some (sl_id sl)\<rparr> in
         s1\<lparr>sc_slots := (sc_slots s1)[i := sl], sc_active := sc_active s1 @ [req]\<rparr>
     | None \<Rightarrow>
         s1\<lparr>sc_queue := sc_queue s1 @ [\<lparr>rq_id = sv_request_id saved, rq_prompt = sv_prompt saved,
               rq_max_tokens = sv_max_tokens saved, rq_priority = sv_priority saved,
               rq_state = Paused, rq_created_at = now, rq_slot = None\<rparr>]\<rparr>)"

definition set_preemption_enabled :: "scheduler \<Rightarrow> bool \<Rightarrow> scheduler" where
  "set_preemption_enabled s enabled = s\<lparr>sc_preemption_enabled := enabled\<rparr>"

definition preempted_count :: "scheduler \<Rightarrow> nat" where
  "preempted_count s = length (sc_preempted s)"

definition drain_slot :: "slot list \<times> pager option \<Rightarrow> slot \<Rightarrow> slot list \<times> pager option" where
  "drain_slot st sl = (case st of (done_slots, pgr) \<Rightarrow>
     if sl_request_id sl \<noteq> None
     then (done_slots @ [clear_slot sl], free_all pgr (sl_kv_cache_pages sl))
     else (done_slots @ [sl], pgr))"

definition drain_all :: "scheduler \<Rightarrow> saved_request list \<times> scheduler" where
  "drain_all s = (case foldl drain_slot ([], sc_kv_cache_pager s) (sc_slots s) of
     (slots, pgr) \<Rightarrow> (sc_preempted s,
       s\<lparr>sc_queue := [], sc_preempted := [], sc_slots := slots, sc_kv_cache_pager := pgr,
         sc_active := [], sc_starvation_counters := []\<rparr>))"

subsection \<open>Steps\<close>

text \<open>
  The scheduler as its clients drive it.  Enqueued requests are new: they have no slot and an id
  that was never used.  A resumed request is one of the preempted ones.  The set of a step holds the
  pages that no slot and no saved request refers to any more although the pager still counts them
  as allocated.
\<close>

definition used_ids :: "scheduler \<Rightarrow> u64 set" where
  "used_ids s = rq_id ` set (sc_queue s) \<union> rq_id ` set (sc_active s) \<union>
     sv_request_id ` set (sc_preempted s) \<union> dom (map_of (sc_starvation_counters s))"

definition saved_pages :: "saved_request list \<Rightarrow> nat list" where
  "saved_pages pre = concat (map sv_kv_cache_pages pre)"

inductive sched_step :: "scheduler \<Rightarrow> nat set \<Rightarrow> scheduler \<Rightarrow> bool" where
  enqueue: "\<lbrakk>rq_id req \<notin> used_ids s; rq_slot req = None\<rbrakk> \<Longrightarrow> sched_step s {} (enqueue s req)"
| enqueue_prio: "\<lbrakk>rq_id req \<notin> used_ids s; rq_slot req = None\<rbrakk>
    \<Longrightarrow> sched_step s {} (enqueue_with_priority s req prio)"
| configure: "sched_step s {} (configure_for_hardware s hw)"
| profile: "sched_step s {} (set_route_profile s prof)"
| allocator: "sched_step s {} (set_kv_cache_allocator s al)"
| preemption: "sched_step s {} (set_preemption_enabled s b)"
| batch: "sched_step s {} (snd (next_batch s))"
| results: "sched_step s {} (process_results s b)"
| preempt: "sched_step s {} (snd (preempt_lowest s))"
| resume_slot: "\<lbrakk>saved \<in> set (sc_preempted s); list_ex is_free (sc_slots s)\<rbrakk>
    \<Longrightarrow> sched_step s {} (resume s now saved)"
| resume_queue: "\<lbrakk>saved \<in> set (sc_preempted s); \<not> list_ex is_free (sc_slots s)\<rbrakk>
    \<Longrightarrow> sched_step s (set (sv_kv_cache_pages saved)) (resume s now saved)"
| drain: "sched_step s (set (saved_pages (sc_preempted s))) (snd (drain_all s))"

inductive sched_reach :: "scheduler \<Rightarrow> nat set \<Rightarrow> bool" where
  init: "sched_reach (scheduler_new cf) {}"
| init_pager: "\<lbrakk>pager_inv p; free_set p = all_pages p\<rbrakk>
    \<Longrightarrow> sched_reach (set_kv_cache_pager (scheduler_new cf) p) {}"
| step: "\<lbrakk>sched_reach s lost; sched_step s dropped s'\<rbrakk> \<Longrightarrow> sched_reach s' (lost \<union> dropped)"

subsection \<open>Page ownership\<close>

definition owned :: "slot list \<Rightarrow> saved_request list \<Rightarrow> nat list" where
  "owned slots pre = concat (map sl_kv_cache_pages slots) @ saved_pages pre"

definition acct :: "pager option \<Rightarrow> nat set \<Rightarrow> nat list \<Rightarrow> bool" where
  "acct pgo lost own = (case pgo of
      None \<Rightarrow> own = [] \<and> lost = {}
    | Some p \<Rightarrow> pager_inv p \<and> distinct own \<and> set own \<inter> lost = {} \<and> pgr.held p = set own \<union> lost)"

lemma owned_split:
  assumes "i < length slots"
  obtains a b where "owned slots pre = a @ sl_kv_cache_pages (slots ! i) @ b"
    "\<And>sl. owned (slots[i := sl]) pre = a @ sl_kv_cache_pages sl @ b"
proof
  show "owned slots pre = concat (map sl_kv_cache_pages (take i slots)) @
      sl_kv_cache_pages (slots ! i) @ concat (map sl_kv_cache_pages (drop (Suc i) slots)) @ saved_pages pre"
    using assms by (subst (1) split_at [OF assms]) (simp add: owned_def)
  show "owned (slots[i := sl]) pre = concat (map sl_kv_cache_pages (take i slots)) @
      sl_kv_cache_pages sl @ concat (map sl_kv_cache_pages (drop (Suc i) slots)) @ saved_pages pre" for sl
    using assms by (simp add: owned_def upd_conv_take_nth_drop)
qed

lemma acct_alloc:
  assumes "acct (Some p) lost (a @ b)" "allocate_pages p n = (Some ids, p')"
  shows "acct (Some p') lost (a @ ids @ b)"
proof -
  have inv: "pager_inv p" using assms(1) by (simp add: acct_def)
  show ?thesis
    using assms(1) pgr.alloc_Some [OF inv assms(2)] pgr.held_alloc [OF inv assms(2)]
    by (auto simp: acct_def)
qed

lemma acct_free_all:
  assumes "acct pgo lost (a @ ids @ b)"
  shows "acct (free_all pgo ids) lost (a @ b)"
proof (cases pgo)
  case None
  with assms show ?thesis by (simp add: acct_def free_all_def)
next
  case (Some p)
  have "free_all pgo ids = Some (pgr.release_all p ids)"
    by (simp add: Some free_all_def pgr.release_all_def)
  moreover have inv: "pager_inv p" using assms Some by (simp add: acct_def)
  ultimately show ?thesis
    using assms Some pgr.held_release_all [OF inv, of ids] pgr.release_all_laws [OF inv, of ids]
    by (auto simp: acct_def)
qed

lemma acct_perm:
  assumes "acct pgo lost own" "distinct own \<longrightarrow> distinct own'" "set own' = set own"
  shows "acct pgo lost own'"
  using assms by (auto simp: acct_def split: option.splits)

lemma acct_drop:
  assumes "acct pgo lost (a @ ids @ b)"
  shows "acct pgo (lost \<union> set ids) (a @ b)"
  using assms by (auto simp: acct_def split: option.splits)

subsection \<open>Requests and slots\<close>

definition linked :: "request list \<Rightarrow> slot list \<Rightarrow> bool" where
  "linked reqs slots \<longleftrightarrow>
     (\<forall>i < length slots. sl_id (slots ! i) = i) \<and>
     (\<forall>r \<in> set reqs. \<forall>i. rq_slot r = Some i \<longrightarrow>
        i < length slots \<and> sl_request_id (slots ! i) = Some (rq_id r)) \<and>
     (\<forall>i < length slots. \<forall>rid. sl_request_id (slots ! i) = Some rid \<longrightarrow>
        (\<exists>r \<in> set reqs. rq_id r = rid \<and> rq_slot r = Some i)) \<and>
     (\<forall>i < length slots. is_free (slots ! i) \<longrightarrow> sl_kv_cache_pages (slots ! i) = [])"

definition slotted :: "request list \<Rightarrow> bool" where
  "slotted reqs \<longleftrightarrow> (\<forall>r \<in> set reqs. rq_slot r \<noteq> None)"

definition sched_inv :: "scheduler \<Rightarrow> nat set \<Rightarrow> bool" where
  "sched_inv s lost \<longleftrightarrow>
     linked (sc_active s) (sc_slots s) \<and> slotted (sc_active s) \<and>
     (\<forall>r \<in> set (sc_queue s). rq_slot r = None) \<and>
     distinct (map rq_id (sc_queue s) @ map rq_id (sc_active s) @ map sv_request_id (sc_preempted s)) \<and>
     acct (sc_kv_cache_pager s) lost (owned (sc_slots s) (sc_preempted s))"

lemma linkedD:
  assumes "linked reqs slots"
  shows "i < length slots \<Longrightarrow> sl_id (slots ! i) = i"
    "r \<in> set reqs \<Longrightarrow> rq_slot r = Some i \<Longrightarrow>
      i < length slots \<and> sl_request_id (slots ! i) = Some (rq_id r)"
    "i < length slots \<Longrightarrow> sl_request_id (slots ! i) = Some rid \<Longrightarrow>
      \<exists>r \<in> set reqs. rq_id r = rid \<and> rq_slot r = Some i"
    "i < length slots \<Longrightarrow> is_free (slots ! i) \<Longrightarrow> sl_kv_cache_pages (slots ! i) = []"
  using assms unfolding linked_def by blast+

lemma find_slot_id:
  assumes "linked reqs slots" "i < length slots"
  shows "find_idx (\<lambda>sl. sl_id sl = i) slots = Some i"
proof -
  have "slots ! i \<in> set slots" using assms(2) by simp
  then obtain j where j: "find_idx (\<lambda>sl. sl_id sl = i) slots = Some j"
    using find_idx_exists [of "slots ! i" slots "\<lambda>sl. sl_id sl = i"] linkedD(1) [OF assms] by auto
  note f = find_idx_Some [OF j]
  have "sl_id (slots ! j) = j" using f by (intro linkedD(1) [OF assms(1)]) simp
  then have "j = i" using f by simp
  then show ?thesis using j by simp
qed

lemma find_slot_id_Some:
  assumes "linked reqs slots" "find_idx (\<lambda>sl. sl_id sl = k) slots = Some i"
  shows "i = k" "k < length slots"
  using find_idx_Some [OF assms(2)] linkedD(1) [OF assms(1), of i] by simp_all

text \<open>Giving a free slot to a request that has none.\<close>

lemma linked_assign:
  assumes "linked (xs @ req # ys) slots" "rq_slot req = None" "i < length slots" "is_free (slots ! i)"
    "sl_id sl = i" "sl_request_id sl = Some (rq_id req)"
  shows "linked (xs @ req\<lparr>rq_slot := Some i\<rparr> # ys) (slots[i := sl])"
  unfolding linked_def
proof (intro conjI allI ballI impI)
  note D = linkedD [OF assms(1)]
  fix j assume j: "j < length (slots[i := sl])"
  show "sl_id (slots[i := sl] ! j) = j"
    using D(1) [of j] assms(5) j by (cases "j = i") auto
  show "sl_kv_cache_pages (slots[i := sl] ! j) = []" if "is_free (slots[i := sl] ! j)"
    using D(4) [of j] that assms(6) j by (cases "j = i") (auto simp: is_free_def)
  show "\<exists>r \<in> set (xs @ req\<lparr>rq_slot := Some i\<rparr> # ys). rq_id r = rid \<and> rq_slot r = Some j"
    if rid: "sl_request_id (slots[i := sl] ! j) = Some rid" for rid
  proof (cases "j = i")
    case True
    then show ?thesis using rid assms(6) j by simp
  next
    case False
    then obtain r where "r \<in> set (xs @ req # ys)" "rq_id r = rid" "rq_slot r = Some j"
      using D(3) [of j rid] rid j by auto
    then show ?thesis using assms(2) by auto
  qed
next
  note D = linkedD [OF assms(1)]
  fix r j assume r: "r \<in> set (xs @ req\<lparr>rq_slot := Some i\<rparr> # ys)" "rq_slot r = Some j"
  have "j < length slots \<and> sl_request_id (slots[i := sl] ! j) = Some (rq_id r)"
  proof (cases "r = req\<lparr>rq_slot := Some i\<rparr>")
    case True
    then show ?thesis using r assms(3,6) by simp
  next
    case False
    then have "r \<in> set (xs @ req # ys)" using r by auto
    from D(2) [OF this r(2)] have d: "j < length slots" "sl_request_id (slots ! j) = Some (rq_id r)"
      by auto
    then have "j \<noteq> i" using assms(4) by (auto simp: is_free_def)
    then show ?thesis using d by simp
  qed
  then show "j < length (slots[i := sl])" "sl_request_id (slots[i := sl] ! j) = Some (rq_id r)"
    by simp_all
qed

lemma assign_slot_inv:
  assumes "linked (xs @ req # ys) slots" "acct pgo lost (owned slots pre)" "rq_slot req = None"
    and "find_idx is_free slots = Some i"
    and "assign_slot cf prof req (slots, pgo) = (req', slots', pgo')"
  shows "linked (xs @ req' # ys) slots'" "acct pgo' lost (owned slots' pre)"
    "req' = req\<lparr>rq_slot := Some i\<rparr>" "length slots' = length slots"
    "length (filter is_free slots) = Suc (length (filter is_free slots'))"
proof -
  have i: "i < length slots" "is_free (slots ! i)" using find_idx_Some [OF assms(4)] by auto
  have nop: "sl_kv_cache_pages (slots ! i) = []" "sl_id (slots ! i) = i"
    using linkedD(1,4) [OF assms(1)] i by auto
  obtain a b where ab: "owned slots pre = a @ b"
    "\<And>sl. owned (slots[i := sl]) pre = a @ sl_kv_cache_pages sl @ b"
    using owned_split [OF i(1), of pre] nop(1) by (metis append_Nil)
  let ?sl = "(slots ! i)\<lparr>sl_request_id := Some (rq_id req),
    sl_kv_cache_length := length (rq_prompt req), sl_tokens_generated := 0, sl_kv_cache_start := 0,
    sl_backend_id := backend_of cf prof (rq_id req)\<rparr>"
  obtain sl where sl: "slots' = slots[i := sl]" "sl_id sl = i" "sl_request_id sl = Some (rq_id req)"
    "req' = req\<lparr>rq_slot := Some i\<rparr>" and ac: "acct pgo' lost (a @ sl_kv_cache_pages sl @ b)"
  proof (cases pgo)
    case None
    then show thesis using assms(2-5) nop ab(1)
      by (intro that [of ?sl]) (simp_all add: assign_slot_def Let_def)
  next
    case (Some p)
    show thesis
    proof (cases "allocate_pages p (cf_kv_cache_pages_per_slot cf)")
      case (Pair r p')
      show thesis
      proof (cases r)
        case None
        then have "p' = p" using Pair assms(2) Some pgr.alloc_None by (simp add: acct_def)
        then show thesis using assms(2-5) nop ab(1) Some Pair None
          by (intro that [of ?sl]) (simp_all add: assign_slot_def Let_def)
      next
        case (Some ids)
        have "acct (Some p') lost (a @ ids @ b)"
          using acct_alloc assms(2) ab(1) \<open>pgo = Some p\<close> Pair Some by simp
        then show thesis using assms(3-5) nop \<open>pgo = Some p\<close> Pair Some
          by (intro that [of "?sl\<lparr>sl_kv_cache_pages := ids\<rparr>"]) (simp_all add: assign_slot_def Let_def)
      qed
    qed
  qed
  show "linked (xs @ req' # ys) slots'"
    using linked_assign [OF assms(1,3) i sl(2,3)] sl by simp
  show "acct pgo' lost (owned slots' pre)" using ac sl ab by simp
  show "req' = req\<lparr>rq_slot := Some i\<rparr>" "length slots' = length slots" using sl by simp_all
  show "length (filter is_free slots) = Suc (length (filter is_free slots'))"
    using length_filter_update [OF i(1), of is_free sl] i sl by (simp add: is_free_def)
qed

text \<open>The prefill loop, when there are as many free slots as requests without one.\<close>

lemma assign_slots_inv:
  assumes "linked (xs @ reqs) slots" "acct pgo lost (owned slots pre)"
    and "length (filter (\<lambda>r. rq_slot r = None) reqs) \<le> length (filter is_free slots)"
    and "assign_slots cf prof reqs (slots, pgo) = (reqs', slots', pgo')"
  shows "linked (xs @ reqs') slots' \<and> acct pgo' lost (owned slots' pre) \<and> slotted reqs' \<and>
    map rq_id reqs' = map rq_id reqs \<and> map rq_priority reqs' = map rq_priority reqs \<and>
    map rq_max_tokens reqs' = map rq_max_tokens reqs \<and> length slots' = length slots"
  using assms
proof (induction reqs arbitrary: xs slots pgo reqs' slots' pgo')
  case Nil
  then show ?case by (simp add: slotted_def)
next
  case (Cons req reqs)
  obtain req1 slots1 pgo1 where a: "assign_slot cf prof req (slots, pgo) = (req1, slots1, pgo1)"
    by (metis prod_cases3)
  obtain reqs2 where b: "assign_slots cf prof reqs (slots1, pgo1) = (reqs2, slots', pgo')"
    "reqs' = req1 # reqs2"
    using Cons.prems(4) a by (auto split: prod.splits)
  have step: "linked ((xs @ [req1]) @ reqs) slots1 \<and> acct pgo1 lost (owned slots1 pre) \<and>
      length (filter (\<lambda>r. rq_slot r = None) reqs) \<le> length (filter is_free slots1) \<and>
      rq_slot req1 \<noteq> None \<and> rq_id req1 = rq_id req \<and> rq_priority req1 = rq_priority req \<and>
      rq_max_tokens req1 = rq_max_tokens req \<and> length slots1 = length slots"
  proof (cases "rq_slot req = None")
    case True
    then have "filter is_free slots \<noteq> []" using Cons.prems(3) by auto
    then obtain i where i: "find_idx is_free slots = Some i"
      using find_idx_None [of is_free slots]
      by (cases "find_idx is_free slots") (auto simp: filter_empty_conv)
    from assign_slot_inv [OF Cons.prems(1,2) True i a] Cons.prems(3) True show ?thesis by simp
  next
    case False
    then have "req1 = req" "slots1 = slots" "pgo1 = pgo" using a by (auto simp: assign_slot_def)
    with False Cons.prems show ?thesis by (auto split: if_splits)
  qed
  from Cons.IH [of "xs @ [req1]" slots1 pgo1 reqs2 slots' pgo'] step b show ?case
    by (simp add: slotted_def)
qed

lemma Suc_min_diff: "a < k \<Longrightarrow> 0 < q \<Longrightarrow> Suc (min (k - Suc a) (q - Suc 0)) = min (k - a) q"
  by (cases q) (simp_all add: Suc_diff_Suc flip: min_Suc_Suc)

lemma poll_spec:
  assumes "poll cf active queue = (active', queue')"
  shows "\<exists>moved. active' = active @ moved \<and> queue = queue' @ rev moved \<and>
    length moved = min (min (cf_max_batch_size cf) (cf_max_prefill_batch cf) - length active)
      (length queue)"
  using assms
proof (induction cf active queue arbitrary: active' queue' rule: poll.induct)
  case (1 cf active queue)
  show ?case
  proof (cases "length active < cf_max_batch_size cf \<and> length active < cf_max_prefill_batch cf \<and> queue \<noteq> []")
    case True
    then have "poll cf (active @ [last queue]) (butlast queue) = (active', queue')"
      using 1(2) by (subst (asm) poll.simps) simp
    from 1(1) [OF _ _ this] True obtain moved where m: "active' = (active @ [last queue]) @ moved"
      "butlast queue = queue' @ rev moved"
      "length moved = min (min (cf_max_batch_size cf) (cf_max_prefill_batch cf) -
        length (active @ [last queue])) (length (butlast queue))" by blast
    have "queue = queue' @ rev (last queue # moved)"
      using True append_butlast_last_id [of queue] m(2) by simp
    moreover have "length (last queue # moved) =
        min (min (cf_max_batch_size cf) (cf_max_prefill_batch cf) - length active) (length queue)"
      using m(3) True by (simp add: Suc_min_diff)
    ultimately show ?thesis using m(1) by (intro exI [of _ "last queue # moved"]) simp
  next
    case False
    then have "poll cf active queue = (active, queue)" by (subst poll.simps) auto
    then show ?thesis using 1(2) False by (intro exI [of _ "[]"]) auto
  qed
qed

lemma linked_add_slots:
  assumes "linked reqs slots"
  shows "linked reqs (add_slots slots n)"
proof -
  have new: "add_slots slots n ! i = slot_new i" if "\<not> i < length slots" "i < length slots + n" for i
    using that by (simp add: add_slots_def nth_append)
  have old: "add_slots slots n ! i = slots ! i" if "i < length slots" for i
    using that by (simp add: add_slots_def nth_append)
  have len: "length (add_slots slots n) = length slots + n" by (simp add: add_slots_def)
  show ?thesis
    unfolding linked_def len
  proof (intro conjI allI ballI impI)
    fix i assume i: "i < length slots + n"
    show "sl_id (add_slots slots n ! i) = i"
      using linkedD(1) [OF assms, of i] new old i by (cases "i < length slots") (auto simp: slot_new_def)
    show "sl_kv_cache_pages (add_slots slots n ! i) = []" if "is_free (add_slots slots n ! i)"
      using linkedD(4) [OF assms, of i] new old i that
      by (cases "i < length slots") (auto simp: slot_new_def)
    show "\<exists>r \<in> set reqs. rq_id r = rid \<and> rq_slot r = Some i"
      if "sl_request_id (add_slots slots n ! i) = Some rid" for rid
      using linkedD(3) [OF assms, of i rid] new old i that
      by (cases "i < length slots") (auto simp: slot_new_def)
  next
    fix r i assume "r \<in> set reqs" "rq_slot r = Some i"
    from linkedD(2) [OF assms this] old
    show "i < length slots + n" "sl_request_id (add_slots slots n ! i) = Some (rq_id r)" by auto
  qed
qed

lemma owned_add_slots [simp]: "owned (add_slots slots n) pre = owned slots pre"
  by (simp add: owned_def add_slots_def slot_new_def comp_def)

lemma free_add_slots [simp]:
  "length (filter is_free (add_slots slots n)) = length (filter is_free slots) + n"
  by (simp add: add_slots_def slot_new_def is_free_def comp_def filter_map)

lemma linked_append_unslotted:
  assumes "linked reqs slots" "\<forall>r \<in> set zs. rq_slot r = None"
  shows "linked (reqs @ zs) slots"
  using assms unfolding linked_def by fastforce

lemma linked_decode:
  assumes "linked reqs slots"
  shows "linked reqs (map decode_slot slots)"
proof -
  have "sl_id (decode_slot sl) = sl_id sl" "sl_request_id (decode_slot sl) = sl_request_id sl"
    "sl_kv_cache_pages (decode_slot sl) = sl_kv_cache_pages sl" "is_free (decode_slot sl) = is_free sl"
    for sl by (auto simp: decode_slot_def is_free_def)
  with assms show ?thesis unfolding linked_def by simp
qed

lemma owned_decode [simp]: "owned (map decode_slot slots) pre = owned slots pre"
proof -
  have "sl_kv_cache_pages \<circ> decode_slot = sl_kv_cache_pages" by (auto simp: decode_slot_def)
  then show ?thesis by (simp add: owned_def)
qed

lemma poll_queue_distinct:
  assumes "sort_key f q = q' @ rev moved" "distinct (map g q @ ys)"
  shows "distinct (map g q' @ map g moved @ ys)" "set q = set q' \<union> set moved"
proof -
  have s: "set q = set (q' @ rev moved)" by (metis assms(1) set_sort)
  then show sq: "set q = set q' \<union> set moved" by auto
  have "distinct q" "inj_on g (set q)" using assms(2) by (auto simp: distinct_map)
  then have "distinct (q' @ rev moved)" "inj_on g (set (q' @ rev moved))"
    using assms(1) s by (metis distinct_sort, simp)
  then have "distinct (map g (q' @ rev moved))" by (simp only: distinct_map)
  then show "distinct (map g q' @ map g moved @ ys)"
    using assms(2) sq by (auto simp: rev_map [symmetric])
qed

definition polled :: "scheduler \<Rightarrow> nat" where
  "polled s = min (min (cf_max_batch_size (sc_config s)) (cf_max_prefill_batch (sc_config s)) -
     length (sc_active s)) (length (sc_queue s))"

lemma next_batch_laws:
  assumes "sched_inv s lost" "next_batch s = (b, s')"
  shows "sched_inv s' lost \<and>
    (\<exists>moved. sort_key rq_priority (sc_queue s) = sc_queue s' @ rev moved \<and> length moved = polled s \<and>
      map rq_id (sc_active s') = map rq_id (sc_active s @ moved) \<and>
      map rq_priority (sc_active s') = map rq_priority (sc_active s @ moved) \<and>
      set (sc_queue s) = set (sc_queue s') \<union> set moved \<and>
      (moved = [] \<longrightarrow> sc_active s' = sc_active s \<and> sc_slots s' = map decode_slot (sc_slots s))) \<and>
    bt_slots b = filter (\<lambda>sl. sl_request_id sl \<noteq> None) (sc_slots s') \<and>
    bt_batch_size b = length (bt_slots b) \<and>
    sc_preempted s' = sc_preempted s \<and> sc_starvation_counters s' = sc_starvation_counters s \<and>
    sc_config s' = sc_config s"
proof -
  let ?cf = "sc_config s" and ?pre = "sc_preempted s"
  obtain active queue where pl: "poll ?cf (sc_active s) (sort_key rq_priority (sc_queue s)) = (active, queue)"
    by (rule prod.exhaust)
  from poll_spec [OF pl] obtain moved where mv: "active = sc_active s @ moved"
    "sort_key rq_priority (sc_queue s) = queue @ rev moved" "length moved = polled s"
    by (auto simp: polled_def)
  note inv = assms(1) [unfolded sched_inv_def]
  have "distinct (map rq_id (sc_queue s) @ (map rq_id (sc_active s) @ map sv_request_id ?pre))"
    using inv by blast
  note qd = poll_queue_distinct [OF mv(2) this]
  have sq: "set (sc_queue s) = set queue \<union> set moved" by (rule qd(2))
  have dist: "distinct (map rq_id queue @ map rq_id active @ map sv_request_id ?pre)"
    using qd(1) unfolding mv(1) map_append distinct_append set_append by blast
  have unslotted: "\<forall>r \<in> set moved. rq_slot r = None" "\<forall>r \<in> set queue. rq_slot r = None"
    using inv sq by auto
  have link: "linked active (sc_slots s)" using linked_append_unslotted inv mv(1) unslotted by simp
  have "filter (\<lambda>r. rq_slot r = None) (sc_active s) = []"
    using inv by (simp add: slotted_def filter_empty_conv)
  moreover have "filter (\<lambda>r. rq_slot r = None) moved = moved" using unslotted by simp
  ultimately have cnt: "length (filter (\<lambda>r. rq_slot r = None) active) = length moved"
    using mv(1) by simp
  show ?thesis
  proof (cases "moved = []")
    case True
    then have s': "s' = s\<lparr>sc_queue := queue, sc_active := active, sc_slots := map decode_slot (sc_slots s)\<rparr>"
      "bt_slots b = filter (\<lambda>sl. sl_request_id sl \<noteq> None) (sc_slots s')" "bt_batch_size b = length (bt_slots b)"
      using assms(2) pl cnt by (auto simp: next_batch_def Let_def)
    show ?thesis
      using inv mv(2,3) sq dist unslotted(2) linked_decode [OF link]
      unfolding s' sched_inv_def by (simp add: True mv(1))
  next
    case False
    let ?free = "length (filter is_free (sc_slots s))"
    let ?slots = "if ?free < length moved then add_slots (sc_slots s) (length moved - ?free) else sc_slots s"
    obtain active' slots' pgo' where as: "assign_slots ?cf (sc_route_profile s) active
        (?slots, sc_kv_cache_pager s) = (active', slots', pgo')" by (metis prod_cases3)
    have s': "s' = s\<lparr>sc_queue := queue, sc_active := active', sc_slots := slots', sc_kv_cache_pager := pgo'\<rparr>"
      "bt_slots b = filter (\<lambda>sl. sl_request_id sl \<noteq> None) (sc_slots s')" "bt_batch_size b = length (bt_slots b)"
      using assms(2) pl cnt as False by (auto simp: next_batch_def Let_def)
    have "linked ([] @ active) ?slots" using link linked_add_slots by simp
    moreover have "acct (sc_kv_cache_pager s) lost (owned ?slots ?pre)" using inv by simp
    moreover have "length (filter (\<lambda>r. rq_slot r = None) active) \<le> length (filter is_free ?slots)"
      using cnt by simp
    ultimately have "linked active' slots' \<and> acct pgo' lost (owned slots' ?pre) \<and> slotted active' \<and>
        map rq_id active' = map rq_id active \<and> map rq_priority active' = map rq_priority active"
      using assign_slots_inv [OF _ _ _ as, of "[]"] by simp
    then show ?thesis
      using mv dist unslotted(2) sq False
      unfolding s' sched_inv_def by simp
  qed
qed

subsection \<open>Processing results\<close>

text \<open>
  While the results are processed the active set is not pruned yet: every occupied slot is backed
  by an active request, but not the other way round.
\<close>

definition backed :: "request list \<Rightarrow> slot list \<Rightarrow> bool" where
  "backed reqs slots \<longleftrightarrow>
     (\<forall>i < length slots. sl_id (slots ! i) = i) \<and>
     (\<forall>i < length slots. \<forall>rid. sl_request_id (slots ! i) = Some rid \<longrightarrow>
        (\<exists>r \<in> set reqs. rq_id r = rid \<and> rq_slot r = Some i)) \<and>
     (\<forall>i < length slots. is_free (slots ! i) \<longrightarrow> sl_kv_cache_pages (slots ! i) = [])"

lemma linked_backed: "linked reqs slots \<Longrightarrow> backed reqs slots"
  unfolding linked_def backed_def by blast

lemma backed_update:
  assumes "backed reqs slots" "i < length slots" "sl_id sl = i"
    "sl_request_id sl = sl_request_id (slots ! i) \<and> sl_kv_cache_pages sl = sl_kv_cache_pages (slots ! i) \<or>
     sl_request_id sl = None \<and> sl_kv_cache_pages sl = []"
  shows "backed reqs (slots[i := sl])"
  unfolding backed_def
proof (intro conjI allI impI)
  fix j assume j: "j < length (slots[i := sl])"
  note B = assms(1) [unfolded backed_def]
  show "sl_id (slots[i := sl] ! j) = j"
    using B j assms(3) by (cases "j = i") auto
  show "\<exists>r \<in> set reqs. rq_id r = rid \<and> rq_slot r = Some j"
    if "sl_request_id (slots[i := sl] ! j) = Some rid" for rid
  proof (cases "j = i")
    case True
    then have "sl_request_id (slots ! i) = Some rid" using that assms(2,4) by auto
    then show ?thesis using B assms(2) True by blast
  next
    case False
    then show ?thesis using that B j by simp
  qed
  show "sl_kv_cache_pages (slots[i := sl] ! j) = []" if "is_free (slots[i := sl] ! j)"
  proof (cases "j = i")
    case True
    then show ?thesis using that B assms(2,4) by (auto simp: is_free_def)
  next
    case False
    then show ?thesis using that B j by simp
  qed
qed

lemma process_slot_inv:
  assumes "backed reqs slots" "acct pgo lost (owned slots pre)"
    and "process_slot reqs (slots, pgo) bs = (slots', pgo')"
  shows "backed reqs slots' \<and> acct pgo' lost (owned slots' pre)"
proof (cases "sl_request_id bs")
  case None
  then show ?thesis using assms by (simp add: process_slot_def)
next
  case (Some rid)
  show ?thesis
  proof (cases "find_idx (\<lambda>sl. sl_id sl = sl_id bs) slots")
    case None
    then show ?thesis using assms Some by (simp add: process_slot_def)
  next
    case i: (Some i)
    let ?sl = "(slots ! i)\<lparr>sl_tokens_generated := sl_tokens_generated (slots ! i) + 1\<rparr>"
    have len: "i < length slots" using find_idx_Some [OF i] by simp
    then have sid: "sl_id (slots ! i) = i" using assms(1) by (simp add: backed_def)
    obtain a b where ab: "owned slots pre = a @ sl_kv_cache_pages (slots ! i) @ b"
      "\<And>sl. owned (slots[i := sl]) pre = a @ sl_kv_cache_pages sl @ b"
      using owned_split [OF len] by metis
    have "slots' = slots[i := ?sl] \<and> pgo' = pgo \<or>
        slots' = slots[i := clear_slot ?sl] \<and> pgo' = free_all pgo (sl_kv_cache_pages (slots ! i))"
      using assms(3) Some i
      by (auto simp: process_slot_def Let_def split: option.splits if_splits)
    then show ?thesis
    proof
      assume "slots' = slots[i := ?sl] \<and> pgo' = pgo"
      then show ?thesis using assms(1,2) len sid ab by (simp add: backed_update)
    next
      assume r: "slots' = slots[i := clear_slot ?sl] \<and> pgo' = free_all pgo (sl_kv_cache_pages (slots ! i))"
      then have "backed reqs slots'"
        using backed_update [OF assms(1) len, of "clear_slot ?sl"] sid by (simp add: clear_slot_def)
      moreover have "acct pgo' lost (a @ b)"
        using acct_free_all [of pgo lost a "sl_kv_cache_pages (slots ! i)" b] assms(2) ab(1) r by simp
      ultimately show ?thesis using r ab(2) by (simp add: clear_slot_def)
    qed
  qed
qed

lemma process_slots_inv:
  assumes "backed reqs slots" "acct pgo lost (owned slots pre)"
    and "foldl (process_slot reqs) (slots, pgo) bs = (slots', pgo')"
  shows "backed reqs slots' \<and> acct pgo' lost (owned slots' pre)"
  using assms
proof (induction bs arbitrary: slots pgo)
  case (Cons x bs)
  obtain s1 p1 where "process_slot reqs (slots, pgo) x = (s1, p1)" by (rule prod.exhaust)
  moreover from this have "foldl (process_slot reqs) (s1, p1) bs = (slots', pgo')"
    using Cons.prems(3) by simp
  ultimately show ?case
    using process_slot_inv [OF Cons.prems(1,2)] Cons.IH by blast
qed simp

lemma linked_filter:
  assumes "backed reqs slots" "distinct (map rq_id reqs)"
  shows "linked (filter (\<lambda>r. list_ex (\<lambda>sl. sl_request_id sl = Some (rq_id r)) slots) reqs) slots"
  unfolding linked_def
proof (intro conjI allI ballI impI)
  note B = assms(1) [unfolded backed_def]
  fix i assume i: "i < length slots"
  show "sl_id (slots ! i) = i" using B i by simp
  show "sl_kv_cache_pages (slots ! i) = []" if "is_free (slots ! i)" using B i that by simp
  show "\<exists>r \<in> set (filter (\<lambda>r. list_ex (\<lambda>sl. sl_request_id sl = Some (rq_id r)) slots) reqs).
      rq_id r = rid \<and> rq_slot r = Some i" if rid: "sl_request_id (slots ! i) = Some rid" for rid
  proof -
    from B i rid obtain r where r: "r \<in> set reqs" "rq_id r = rid" "rq_slot r = Some i" by metis
    have "list_ex (\<lambda>sl. sl_request_id sl = Some (rq_id r)) slots"
      unfolding list_ex_iff using rid r(2) i nth_mem by metis
    with r show ?thesis by (intro bexI [of _ r]) simp_all
  qed
next
  note B = assms(1) [unfolded backed_def]
  fix r i
  assume r: "r \<in> set (filter (\<lambda>r. list_ex (\<lambda>sl. sl_request_id sl = Some (rq_id r)) slots) reqs)"
    "rq_slot r = Some i"
  then obtain j where j: "j < length slots" "sl_request_id (slots ! j) = Some (rq_id r)"
    by (auto simp: list_ex_iff in_set_conv_nth)
  from B j obtain r' where r': "r' \<in> set reqs" "rq_id r' = rq_id r" "rq_slot r' = Some j" by metis
  then have "r' = r" using assms(2) r(1) by (auto simp: distinct_map dest: inj_onD)
  then show "i < length slots" "sl_request_id (slots ! i) = Some (rq_id r)" using j r' r(2) by auto
qed

lemma slotted_filter: "slotted reqs \<Longrightarrow> slotted (filter P reqs)"
  by (simp add: slotted_def)

lemma process_results_inv:
  assumes "sched_inv s lost"
  shows "sched_inv (process_results s b) lost"
proof -
  note inv = assms [unfolded sched_inv_def]
  obtain slots pgo where r: "foldl (process_slot (sc_active s)) (sc_slots s, sc_kv_cache_pager s)
      (bt_slots b) = (slots, pgo)" by (rule prod.exhaust)
  have "backed (sc_active s) (sc_slots s)" using inv linked_backed by blast
  from process_slots_inv [OF this _ r] inv
  have b: "backed (sc_active s) slots" "acct pgo lost (owned slots (sc_preempted s))" by blast+
  have "distinct (map rq_id (sc_active s))" using inv by simp
  note l = linked_filter [OF b(1) this]
  show ?thesis
    using inv b(2) l r by (auto simp: sched_inv_def process_results_def slotted_filter distinct_map_filter)
qed

subsection \<open>Preemption, resumption and drain\<close>

lemma key_le_refl: "key_le r r" and key_le_total: "key_le r r' \<or> key_le r' r"
  by (auto simp: key_le_def)

lemma key_le_trans: "key_le a b \<Longrightarrow> key_le b c \<Longrightarrow> key_le a c"
  by (auto simp: key_le_def)

lemma victim_index_prefix:
  "n \<le> length rs \<Longrightarrow>
    (case foldl (\<lambda>acc i. case acc of None \<Rightarrow> Some i
       | Some j \<Rightarrow> if key_le (rs ! j) (rs ! i) then Some i else Some j) None [0..<n] of
      None \<Rightarrow> n = 0
    | Some j \<Rightarrow> j < n \<and> (\<forall>i < n. key_le (rs ! i) (rs ! j)))"
proof (induction n)
  case (Suc n)
  let ?f = "foldl (\<lambda>acc i. case acc of None \<Rightarrow> Some i
       | Some j \<Rightarrow> if key_le (rs ! j) (rs ! i) then Some i else Some j) None [0..<n]"
  show ?case
  proof (cases ?f)
    case None
    then show ?thesis using Suc by (simp add: key_le_refl)
  next
    case (Some j)
    then have j: "j < n" "\<forall>i < n. key_le (rs ! i) (rs ! j)" using Suc by simp_all
    show ?thesis
    proof (cases "key_le (rs ! j) (rs ! n)")
      case True
      then have "\<forall>i < n. key_le (rs ! i) (rs ! n)" using j(2) key_le_trans by blast
      then show ?thesis using Some True by (simp add: less_Suc_eq key_le_refl)
    next
      case False
      then have "key_le (rs ! n) (rs ! j)" using key_le_total by blast
      then show ?thesis using Some False j by (simp add: less_Suc_eq)
    qed
  qed
qed simp

lemma victim_index_Some:
  assumes "victim_index rs = Some j"
  shows "j < length rs" "r \<in> set rs \<Longrightarrow> key_le r (rs ! j)"
  using victim_index_prefix [of "length rs" rs] assms
  by (auto simp: victim_index_def in_set_conv_nth)

lemma boost_request_simps [simp]:
  "rq_id (boost_request c r) = rq_id r" "rq_slot (boost_request c r) = rq_slot r"
  "rq_prompt (boost_request c r) = rq_prompt r" "rq_max_tokens (boost_request c r) = rq_max_tokens r"
  by (auto simp: boost_request_def Let_def split: option.splits)

lemma map_boost_simps [simp]: "map rq_id (map (boost_request c) rs) = map rq_id rs"
  by simp

lemma slotted_boost [simp]: "slotted (map (boost_request c) rs) = slotted rs"
  by (simp add: slotted_def)

lemma linked_boost [simp]: "linked (map (boost_request c) rs) slots = linked rs slots"
  by (simp add: linked_def)

lemma boosts_inv: "sched_inv s lost \<Longrightarrow> sched_inv (apply_starvation_boosts s) lost"
  by (simp add: sched_inv_def apply_starvation_boosts_def comp_def)

lemma saved_pages_snoc [simp]: "saved_pages (pre @ [sv]) = saved_pages pre @ sv_kv_cache_pages sv"
  by (simp add: saved_pages_def)

lemma distinct_remove_nth: "distinct (map f xs) \<Longrightarrow> distinct (map f (remove_nth i xs))"
  by (cases "i < length xs", subst (asm) split_at [of i xs])
    (auto simp: remove_nth_def not_less)

lemma linked_remove:
  assumes "linked reqs slots" "distinct (map rq_id reqs)" "k < length reqs"
    "rq_slot (reqs ! k) = Some i" "sl_id sl = i" "sl_request_id sl = None" "sl_kv_cache_pages sl = []"
  shows "linked (remove_nth k reqs) (slots[i := sl])"
proof -
  let ?v = "reqs ! k"
  have v: "?v \<in> set reqs" using assms(3) by simp
  from linkedD(2) [OF assms(1) v assms(4)]
  have i: "i < length slots" "sl_request_id (slots ! i) = Some (rq_id ?v)" by auto
  have dist: "distinct reqs" using assms(2) by (simp add: distinct_map)
  have rm: "set (remove_nth k reqs) = set reqs - {?v}"
  proof -
    have "distinct (take k reqs @ ?v # drop (Suc k) reqs)"
      using dist split_at [OF assms(3)] by simp
    moreover have "set reqs = set (take k reqs @ ?v # drop (Suc k) reqs)"
      using split_at [OF assms(3)] by simp
    ultimately show ?thesis by (auto simp: remove_nth_def)
  qed
  show ?thesis
    unfolding linked_def rm
  proof (intro conjI allI ballI impI)
    fix j assume j: "j < length (slots[i := sl])"
    show "sl_id (slots[i := sl] ! j) = j"
      using linkedD(1) [OF assms(1), of j] assms(5) j by (cases "j = i") auto
    show "sl_kv_cache_pages (slots[i := sl] ! j) = []" if "is_free (slots[i := sl] ! j)"
      using linkedD(4) [OF assms(1), of j] assms(7) that j by (cases "j = i") auto
    show "\<exists>r \<in> set reqs - {?v}. rq_id r = rid \<and> rq_slot r = Some j"
      if rid: "sl_request_id (slots[i := sl] ! j) = Some rid" for rid
    proof -
      have ji: "j \<noteq> i" using rid assms(6) j by auto
      then obtain r where "r \<in> set reqs" "rq_id r = rid" "rq_slot r = Some j"
        using linkedD(3) [OF assms(1), of j rid] rid j by auto
      then show ?thesis using ji assms(4) by auto
    qed
  next
    fix r j assume r: "r \<in> set reqs - {?v}" "rq_slot r = Some j"
    from linkedD(2) [OF assms(1) _ r(2)] r(1)
    have d: "j < length slots" "sl_request_id (slots ! j) = Some (rq_id r)" by auto
    have "j \<noteq> i"
    proof
      assume "j = i"
      then have "rq_id r = rq_id ?v" using d i by simp
      then have "r = ?v" using assms(2) r(1) v by (auto simp: distinct_map dest: inj_onD)
      then show False using r(1) by simp
    qed
    then show "j < length (slots[i := sl])" "sl_request_id (slots[i := sl] ! j) = Some (rq_id r)"
      using d by simp_all
  qed
qed

text \<open>What a successful preemption does.\<close>

lemma preempt_lowest_Some:
  assumes inv: "sched_inv s lost" and pre: "preempt_lowest s = (Some saved, s')"
  obtains k i where "k < length (sc_active s)" "i < length (sc_slots s)"
    "rq_slot (sc_active s ! k) = Some i"
    "sv_request_id saved = rq_id (sc_active s ! k)"
    "sv_kv_cache_pages saved = sl_kv_cache_pages (sc_slots s ! i)"
    "sv_tokens_generated saved = sl_tokens_generated (sc_slots s ! i)"
    "sv_kv_cache_length saved = sl_kv_cache_length (sc_slots s ! i)"
    "sv_kv_cache_start saved = sl_kv_cache_start (sc_slots s ! i)"
    "sv_prompt saved = rq_prompt (sc_active s ! k)"
    "sv_max_tokens saved = rq_max_tokens (sc_active s ! k)"
    "sv_priority saved = rq_priority (boost_request (sc_starvation_counters s) (sc_active s ! k))"
    "sv_priority saved \<noteq> 0"
    "\<forall>r \<in> set (sc_active s). rq_priority (boost_request (sc_starvation_counters s) r) \<le> sv_priority saved"
    "s' = s\<lparr>sc_starvation_counters := AList.update (sv_request_id saved)
          ((case map_of (sc_starvation_counters s) (sv_request_id saved) of None \<Rightarrow> 0 | Some c \<Rightarrow> c) + 1)
          (sc_starvation_counters s),
        sc_active := remove_nth k (map (boost_request (sc_starvation_counters s)) (sc_active s)),
        sc_slots := (sc_slots s)[i := clear_slot (sc_slots s ! i)],
        sc_preempted := sc_preempted s @ [saved]\<rparr>"
    "sv_preemption_count saved =
       (case map_of (sc_starvation_counters s) (sv_request_id saved) of None \<Rightarrow> 0 | Some c \<Rightarrow> c) + 1"
    "cf_max_batch_size (sc_config s) \<le> length (sc_active s)" "sc_preemption_enabled s"
proof -
  let ?b = "boost_request (sc_starvation_counters s)"
  have cond: "sc_preemption_enabled s" "cf_max_batch_size (sc_config s) \<le> length (sc_active s)"
    using pre by (auto simp: preempt_lowest_def split: if_splits)
  obtain k where k: "victim_index (map ?b (sc_active s)) = Some k"
    using pre by (auto simp: preempt_lowest_def apply_starvation_boosts_def Let_def
        split: if_splits option.splits)
  note v = victim_index_Some [OF k]
  have kl: "k < length (sc_active s)" using v(1) by simp
  have prio: "rq_priority (?b (sc_active s ! k)) \<noteq> 0"
    using pre k kl by (auto simp: preempt_lowest_def apply_starvation_boosts_def Let_def
        split: if_splits option.splits)
  obtain j where j: "rq_slot (sc_active s ! k) = Some j"
    using inv kl nth_mem unfolding sched_inv_def slotted_def by blast
  have link: "linked (sc_active s) (sc_slots s)" using inv by (simp add: sched_inv_def)
  have jl: "j < length (sc_slots s)" using linkedD(2) [OF link _ j] kl by simp
  note find = find_slot_id [OF link jl]
  have max: "\<forall>r \<in> set (sc_active s). rq_priority (?b r) \<le> rq_priority (?b (sc_active s ! k))"
    using v(2) kl by (fastforce simp: key_le_def)
  show thesis
    using pre cond k kl prio j jl find max
    by (intro that [of k j]) (auto simp: preempt_lowest_def apply_starvation_boosts_def Let_def)
qed

lemma preempt_lowest_None:
  "preempt_lowest s = (None, s') \<Longrightarrow> s' = s \<or> s' = apply_starvation_boosts s"
  by (auto simp: preempt_lowest_def Let_def split: if_splits option.splits)

lemma owned_snoc [simp]: "owned slots (pre @ [sv]) = owned slots pre @ sv_kv_cache_pages sv"
  by (simp add: owned_def)

lemma slotted_remove: "slotted rs \<Longrightarrow> slotted (remove_nth k rs)"
  using set_remove_nth_subset [of k rs] by (auto simp: slotted_def)

lemma preempt_inv:
  assumes inv: "sched_inv s lost" and pre: "preempt_lowest s = (Some saved, s')"
  shows "sched_inv s' lost"
proof -
  let ?c = "sc_starvation_counters s" and ?act = "sc_active s"
  obtain k i where k: "k < length ?act" and i: "i < length (sc_slots s)"
    and ks: "rq_slot (?act ! k) = Some i" and sid: "sv_request_id saved = rq_id (?act ! k)"
    and pg: "sv_kv_cache_pages saved = sl_kv_cache_pages (sc_slots s ! i)"
    and s': "sc_queue s' = sc_queue s" "sc_kv_cache_pager s' = sc_kv_cache_pager s"
      "sc_active s' = remove_nth k (map (boost_request ?c) ?act)"
      "sc_slots s' = (sc_slots s)[i := clear_slot (sc_slots s ! i)]"
      "sc_preempted s' = sc_preempted s @ [saved]"
    by (rule preempt_lowest_Some [OF inv pre]) (rule that; simp)
  note I = inv [unfolded sched_inv_def]
  have dist: "distinct (map rq_id ?act)" using I by simp
  have "linked (remove_nth k (map (boost_request ?c) ?act)) ((sc_slots s)[i := clear_slot (sc_slots s ! i)])"
    using I dist k ks linkedD(1) [of ?act "sc_slots s" i] i
    by (intro linked_remove) (auto simp: clear_slot_def comp_def)
  moreover have "slotted (remove_nth k (map (boost_request ?c) ?act))"
    using I by (intro slotted_remove) simp
  moreover have "distinct (map rq_id (sc_queue s) @ map rq_id (remove_nth k ?act) @
      map sv_request_id (sc_preempted s @ [saved]))"
  proof -
    have "distinct (map rq_id (sc_queue s) @ map rq_id (take k ?act @ ?act ! k # drop (Suc k) ?act) @
        map sv_request_id (sc_preempted s))"
      using I split_at [OF k] by simp
    then show ?thesis using sid by (auto simp: remove_nth_def)
  qed
  then have "distinct (map rq_id (sc_queue s) @ map rq_id (remove_nth k (map (boost_request ?c) ?act)) @
      map sv_request_id (sc_preempted s @ [saved]))"
    by (simp add: remove_nth_def take_map drop_map comp_def)
  moreover have "acct (sc_kv_cache_pager s) lost
      (owned ((sc_slots s)[i := clear_slot (sc_slots s ! i)]) (sc_preempted s @ [saved]))"
  proof -
    obtain a b where ab: "owned (sc_slots s) (sc_preempted s) = a @ sl_kv_cache_pages (sc_slots s ! i) @ b"
      "\<And>sl. owned ((sc_slots s)[i := sl]) (sc_preempted s) = a @ sl_kv_cache_pages sl @ b"
      using owned_split [OF i] by metis
    have "acct (sc_kv_cache_pager s) lost (a @ sv_kv_cache_pages saved @ b)" using I ab(1) pg by simp
    then have "acct (sc_kv_cache_pager s) lost (a @ b @ sv_kv_cache_pages saved)"
      by (rule acct_perm) auto
    then show ?thesis using ab(2) by (simp add: clear_slot_def)
  qed
  ultimately show ?thesis using I unfolding sched_inv_def s' by blast
qed

lemma filter_unique:
  assumes "distinct (map f xs)" "x \<in> set xs"
  obtains ys zs where "xs = ys @ x # zs" "filter (\<lambda>y. f y \<noteq> f x) xs = ys @ zs"
proof -
  obtain ys zs where s: "xs = ys @ x # zs" using assms(2) by (meson split_list)
  have "f x \<notin> f ` set ys" "f x \<notin> f ` set zs" using assms(1) s by auto
  then have "\<forall>y \<in> set ys. f y \<noteq> f x" "\<forall>y \<in> set zs. f y \<noteq> f x" by (metis imageI)+
  then have "filter (\<lambda>y. f y \<noteq> f x) xs = ys @ zs" by (simp add: s)
  with s show thesis by (rule that)
qed

lemma resume_slot_laws:
  assumes inv: "sched_inv s lost" and sv: "saved \<in> set (sc_preempted s)"
    and f: "find_idx is_free (sc_slots s) = Some i"
  shows "sched_inv (resume s now saved) lost"
    "sc_slots (resume s now saved) ! i = (sc_slots s ! i)\<lparr>sl_request_id := Some (sv_request_id saved),
       sl_tokens_generated := sv_tokens_generated saved,
       sl_kv_cache_length := sv_kv_cache_length saved,
       sl_kv_cache_start := sv_kv_cache_start saved,
       sl_kv_cache_pages := sv_kv_cache_pages saved,
       sl_backend_id := cf_default_backend_id (sc_config s)\<rparr>"
proof -
  note I = inv [unfolded sched_inv_def]
  note fi = find_idx_Some [OF f]
  have i: "i < length (sc_slots s)" "is_free (sc_slots s ! i)" using fi by auto
  have "distinct (map sv_request_id (sc_preempted s))" using I by simp
  from filter_unique [OF this sv] obtain xs ys where xy: "sc_preempted s = xs @ saved # ys"
    "filter (\<lambda>x. sv_request_id x \<noteq> sv_request_id saved) (sc_preempted s) = xs @ ys" by blast
  let ?sl = "(sc_slots s ! i)\<lparr>sl_request_id := Some (sv_request_id saved),
       sl_tokens_generated := sv_tokens_generated saved,
       sl_kv_cache_length := sv_kv_cache_length saved,
       sl_kv_cache_start := sv_kv_cache_start saved,
       sl_kv_cache_pages := sv_kv_cache_pages saved,
       sl_backend_id := cf_default_backend_id (sc_config s)\<rparr>"
  let ?r0 = "\<lparr>rq_id = sv_request_id saved, rq_prompt = sv_prompt saved,
       rq_max_tokens = sv_max_tokens saved, rq_priority = sv_priority saved,
       rq_state = Decoding, rq_created_at = now, rq_slot = None\<rparr>"
  have link: "linked (sc_active s) (sc_slots s)" using I by simp
  have sid: "sl_id (sc_slots s ! i) = i" and nop: "sl_kv_cache_pages (sc_slots s ! i) = []"
    using linkedD(1,4) [OF link] i by auto
  have r: "resume s now saved = s\<lparr>sc_preempted := xs @ ys, sc_slots := (sc_slots s)[i := ?sl],
      sc_active := sc_active s @ [?r0\<lparr>rq_slot := Some i\<rparr>]\<rparr>"
    using f sid xy(2) by (simp add: resume_def Let_def)
  have "linked (sc_active s @ [?r0]) (sc_slots s)"
    by (rule linked_append_unslotted [OF link]) simp
  then have l: "linked (sc_active s @ [?r0\<lparr>rq_slot := Some i\<rparr>]) ((sc_slots s)[i := ?sl])"
    by (rule linked_assign) (simp_all add: i sid)
  obtain a b where ab: "owned (sc_slots s) (xs @ ys) = a @ b"
    "\<And>sl. owned ((sc_slots s)[i := sl]) (xs @ ys) = a @ sl_kv_cache_pages sl @ b"
    using owned_split [OF i(1), of "xs @ ys"] nop by (metis append_Nil)
  have own: "owned (sc_slots s) (xs @ saved # ys) =
      (concat (map sl_kv_cache_pages (sc_slots s)) @ saved_pages xs) @ sv_kv_cache_pages saved @ saved_pages ys"
    by (simp add: owned_def saved_pages_def)
  have ab': "a @ b = (concat (map sl_kv_cache_pages (sc_slots s)) @ saved_pages xs) @ saved_pages ys"
    using ab(1) by (simp add: owned_def saved_pages_def)
  have ac: "acct (sc_kv_cache_pager s) lost (a @ sv_kv_cache_pages saved @ b)"
  proof (rule acct_perm)
    show "acct (sc_kv_cache_pager s) lost (owned (sc_slots s) (xs @ saved # ys))" using I xy by simp
    have "distinct (a @ b) \<and> set (a @ b) \<inter> set (sv_kv_cache_pages saved) = {} \<and>
        distinct (sv_kv_cache_pages saved)" if "distinct (owned (sc_slots s) (xs @ saved # ys))"
      using that unfolding own ab' by auto
    then show "distinct (owned (sc_slots s) (xs @ saved # ys)) \<longrightarrow> distinct (a @ sv_kv_cache_pages saved @ b)"
      by auto
    have "set (owned (sc_slots s) (xs @ saved # ys)) = set (a @ b) \<union> set (sv_kv_cache_pages saved)"
      unfolding own ab' by auto
    then show "set (a @ sv_kv_cache_pages saved @ b) = set (owned (sc_slots s) (xs @ saved # ys))" by auto
  qed
  have "distinct (map rq_id (sc_queue s) @ map rq_id (sc_active s) @ map sv_request_id (xs @ saved # ys))"
    using I xy(1) by simp
  then have "distinct (map rq_id (sc_queue s) @ map rq_id (sc_active s @ [?r0\<lparr>rq_slot := Some i\<rparr>]) @
      map sv_request_id (xs @ ys))" by auto
  then show "sched_inv (resume s now saved) lost"
    using I l ac ab(2) unfolding r sched_inv_def by (simp add: slotted_def)
  show "sc_slots (resume s now saved) ! i = ?sl" using i r by simp
qed

lemma resume_queue_inv:
  assumes inv: "sched_inv s lost" and sv: "saved \<in> set (sc_preempted s)"
    and f: "\<not> list_ex is_free (sc_slots s)"
  shows "sched_inv (resume s now saved) (lost \<union> set (sv_kv_cache_pages saved))"
proof -
  note I = inv [unfolded sched_inv_def]
  have "distinct (map sv_request_id (sc_preempted s))" using I by simp
  from filter_unique [OF this sv] obtain xs ys where xy: "sc_preempted s = xs @ saved # ys"
    "filter (\<lambda>x. sv_request_id x \<noteq> sv_request_id saved) (sc_preempted s) = xs @ ys" by blast
  have "find_idx is_free (sc_slots s) = None" using f by (simp add: find_idx_None list_ex_iff)
  then have r: "resume s now saved = s\<lparr>sc_preempted := xs @ ys, sc_queue := sc_queue s @
      [\<lparr>rq_id = sv_request_id saved, rq_prompt = sv_prompt saved,
       rq_max_tokens = sv_max_tokens saved, rq_priority = sv_priority saved,
       rq_state = Paused, rq_created_at = now, rq_slot = None\<rparr>]\<rparr>"
    using xy(2) by (simp add: resume_def Let_def)
  have "acct (sc_kv_cache_pager s) lost ((concat (map sl_kv_cache_pages (sc_slots s)) @ saved_pages xs) @
      sv_kv_cache_pages saved @ saved_pages ys)"
    using I xy(1) by (simp add: owned_def saved_pages_def)
  from acct_drop [OF this]
  have "acct (sc_kv_cache_pager s) (lost \<union> set (sv_kv_cache_pages saved)) (owned (sc_slots s) (xs @ ys))"
    by (simp add: owned_def saved_pages_def)
  moreover have "distinct (map rq_id (sc_queue s) @ map rq_id (sc_active s) @ map sv_request_id (xs @ saved # ys))"
    using I xy(1) by simp
  then have "distinct ((map rq_id (sc_queue s) @ [sv_request_id saved]) @ map rq_id (sc_active s) @
      map sv_request_id (xs @ ys))" by auto
  ultimately show ?thesis using I unfolding r sched_inv_def by simp
qed

lemma drain_slots:
  assumes "acct pgo lost (concat (map sl_kv_cache_pages (xs @ rest)) @ zs)"
    and "foldl drain_slot (xs, pgo) rest = (slots', pgo')"
  shows "slots' = xs @ map (\<lambda>sl. if is_free sl then sl else clear_slot sl) rest \<and>
    acct pgo' lost (concat (map sl_kv_cache_pages slots') @ zs)"
  using assms
proof (induction rest arbitrary: xs pgo)
  case (Cons sl rest)
  show ?case
  proof (cases "is_free sl")
    case True
    then have "drain_slot (xs, pgo) sl = (xs @ [sl], pgo)" by (simp add: drain_slot_def is_free_def)
    with Cons.prems(2) have "foldl drain_slot (xs @ [sl], pgo) rest = (slots', pgo')" by simp
    with Cons.IH [of pgo "xs @ [sl]"] Cons.prems(1) True show ?thesis by auto
  next
    case False
    then have d: "drain_slot (xs, pgo) sl = (xs @ [clear_slot sl], free_all pgo (sl_kv_cache_pages sl))"
      by (simp add: drain_slot_def is_free_def)
    have "acct (free_all pgo (sl_kv_cache_pages sl)) lost
        (concat (map sl_kv_cache_pages ((xs @ [clear_slot sl]) @ rest)) @ zs)"
      using acct_free_all [of pgo lost "concat (map sl_kv_cache_pages xs)" "sl_kv_cache_pages sl"
          "concat (map sl_kv_cache_pages rest) @ zs"] Cons.prems(1) by (simp add: clear_slot_def)
    with Cons.IH [OF this] Cons.prems(2) d False show ?thesis by auto
  qed
qed simp

lemma drain_inv:
  assumes inv: "sched_inv s lost"
  shows "sched_inv (snd (drain_all s)) (lost \<union> set (saved_pages (sc_preempted s)))"
proof -
  note I = inv [unfolded sched_inv_def]
  obtain slots pgo where d: "foldl drain_slot ([], sc_kv_cache_pager s) (sc_slots s) = (slots, pgo)"
    by (rule prod.exhaust)
  have "acct (sc_kv_cache_pager s) lost
      (concat (map sl_kv_cache_pages ([] @ sc_slots s)) @ saved_pages (sc_preempted s))"
    using I by (simp add: owned_def)
  from drain_slots [OF this d]
  have sl: "slots = map (\<lambda>sl. if is_free sl then sl else clear_slot sl) (sc_slots s)"
    and ac: "acct pgo lost (concat (map sl_kv_cache_pages slots) @ saved_pages (sc_preempted s))"
    by auto
  have "acct pgo (lost \<union> set (saved_pages (sc_preempted s))) (owned slots [])"
    using acct_drop [of pgo lost "concat (map sl_kv_cache_pages slots)" "saved_pages (sc_preempted s)" "[]"] ac
    by (simp add: owned_def saved_pages_def)
  moreover have "linked [] slots"
  proof -
    have link: "linked (sc_active s) (sc_slots s)" using I by simp
    show ?thesis
      using linkedD(1,4) [OF link] by (auto simp: linked_def sl clear_slot_def is_free_def)
  qed
  ultimately show ?thesis
    using d by (simp add: drain_all_def sched_inv_def slotted_def)
qed

lemma concat_Nils [simp]: "concat (map (\<lambda>x. []) xs) = []"
  by (induction xs) simp_all

lemma sched_new_inv: "sched_inv (scheduler_new cf) {}"
  by (auto simp: scheduler_new_def sched_inv_def linked_def slotted_def acct_def owned_def
      saved_pages_def comp_def)

lemma sched_new_pager_inv:
  assumes "pager_inv p" "free_set p = all_pages p"
  shows "sched_inv (set_kv_cache_pager (scheduler_new cf) p) {}"
  using assms by (auto simp: set_kv_cache_pager_def scheduler_new_def sched_inv_def linked_def
      slotted_def acct_def owned_def saved_pages_def comp_def pgr.held_def)

lemma enqueue_inv:
  "\<lbrakk>sched_inv s lost; rq_id req \<notin> used_ids s; rq_slot req = None\<rbrakk> \<Longrightarrow> sched_inv (enqueue s req) lost"
  by (auto simp: sched_inv_def enqueue_def used_ids_def)

lemma enqueue_prio_inv:
  "\<lbrakk>sched_inv s lost; rq_id req \<notin> used_ids s; rq_slot req = None\<rbrakk>
    \<Longrightarrow> sched_inv (enqueue_with_priority s req pr) lost"
  by (auto simp: sched_inv_def enqueue_with_priority_def used_ids_def)

lemma sched_step_inv:
  assumes "sched_step s dropped s'" "sched_inv s lost"
  shows "sched_inv s' (lost \<union> dropped)"
  using assms
proof cases
  case batch
  then show ?thesis using next_batch_laws [OF assms(2)] by (metis prod.collapse sup_bot.right_neutral)
next
  case (preempt)
  obtain r s1 where p: "preempt_lowest s = (r, s1)" by (rule prod.exhaust)
  then show ?thesis
    using preempt preempt_inv [OF assms(2)] preempt_lowest_None [of s s1] boosts_inv [OF assms(2)] assms(2)
    by (cases r) auto
next
  case (resume_slot saved now)
  then obtain i where "find_idx is_free (sc_slots s) = Some i"
    by (metis find_idx_exists list_ex_iff)
  then show ?thesis using resume_slot_laws(1) [OF assms(2)] resume_slot by simp
qed (use assms(2) in \<open>simp_all add: enqueue_inv enqueue_prio_inv process_results_inv resume_queue_inv
    drain_inv, simp_all add: sched_inv_def configure_for_hardware_def set_route_profile_def
    set_kv_cache_allocator_def set_preemption_enabled_def Let_def\<close>)

lemma sched_reach_inv: "sched_reach s lost \<Longrightarrow> sched_inv s lost"
  by (induction rule: sched_reach.induct)
    (auto simp: sched_new_inv sched_new_pager_inv sched_step_inv)

subsection \<open>Bounded preemption\<close>
















subsection \<open>Batches and slots\<close>

lemma occupied_requests:
  assumes "linked reqs slots" "slotted reqs" "distinct (map rq_id reqs)"
  shows "distinct (map sl_request_id (filter (\<lambda>sl. sl_request_id sl \<noteq> None) slots))"
    "set (map sl_request_id (filter (\<lambda>sl. sl_request_id sl \<noteq> None) slots)) = Some ` rq_id ` set reqs"
    "length (filter (\<lambda>sl. sl_request_id sl \<noteq> None) slots) = length reqs"
proof -
  let ?occ = "filter (\<lambda>sl. sl_request_id sl \<noteq> None) slots"
  have "map sl_id slots = [0..<length slots]"
    using linkedD(1) [OF assms(1)] by (auto intro: nth_equalityI)
  then have ds: "distinct slots" by (metis distinct_map distinct_upt)
  have "inj_on sl_request_id (set ?occ)"
  proof (rule inj_onI)
    fix x y assume x: "x \<in> set ?occ" and y: "y \<in> set ?occ" and e: "sl_request_id x = sl_request_id y"
    obtain i j where i: "i < length slots" "x = slots ! i" and j: "j < length slots" "y = slots ! j"
      using x y by (auto simp: in_set_conv_nth)
    obtain rid where rid: "sl_request_id x = Some rid" "sl_request_id y = Some rid" using x e by auto
    obtain r r' where r: "r \<in> set reqs" "rq_id r = rid" "rq_slot r = Some i"
      and r': "r' \<in> set reqs" "rq_id r' = rid" "rq_slot r' = Some j"
      using linkedD(3) [OF assms(1)] rid i j by metis
    have "r = r'" using assms(3) r r' by (auto simp: distinct_map dest: inj_onD)
    then show "x = y" using r r' i j by simp
  qed
  then show d: "distinct (map sl_request_id ?occ)" using ds by (simp add: distinct_map)
  show s: "set (map sl_request_id ?occ) = Some ` rq_id ` set reqs"
  proof (intro set_eqI iffI)
    fix x assume "x \<in> set (map sl_request_id ?occ)"
    then obtain i rid where "i < length slots" "sl_request_id (slots ! i) = Some rid" "x = Some rid"
      by (auto simp: in_set_conv_nth)
    then show "x \<in> Some ` rq_id ` set reqs" using linkedD(3) [OF assms(1)] by blast
  next
    fix x assume "x \<in> Some ` rq_id ` set reqs"
    then obtain r where r: "r \<in> set reqs" "x = Some (rq_id r)" by auto
    then obtain i where "rq_slot r = Some i" using assms(2) by (auto simp: slotted_def)
    from linkedD(2) [OF assms(1) r(1) this]
    have "slots ! i \<in> set ?occ" "sl_request_id (slots ! i) = x" using r(2) by auto
    then show "x \<in> set (map sl_request_id ?occ)" by (metis image_eqI set_map)
  qed
  have "length ?occ = card (set (map sl_request_id ?occ))" using distinct_card [OF d] by simp
  also have "\<dots> = card (set (map rq_id reqs))" unfolding s by (simp add: card_image)
  also have "\<dots> = length reqs" using distinct_card [OF assms(3)] by simp
  finally show "length ?occ = length reqs" .
qed

text \<open>The effect of a batch result on one occupied slot.\<close>

definition finish_slot :: "request list \<Rightarrow> slot \<Rightarrow> slot" where
  "finish_slot reqs sl = (case sl_request_id sl of
      None \<Rightarrow> sl
    | Some rid \<Rightarrow>
        let sl1 = sl\<lparr>sl_tokens_generated := sl_tokens_generated sl + 1\<rparr> in
        (case find (\<lambda>r. rq_id r = rid) reqs of
           None \<Rightarrow> sl1
         | Some req \<Rightarrow> if rq_max_tokens req \<le> sl_tokens_generated sl1 then clear_slot sl1 else sl1))"

lemma finish_slot_id [simp]: "sl_id (finish_slot reqs sl) = sl_id sl"
  by (auto simp: finish_slot_def clear_slot_def Let_def split: option.splits)

lemma process_slot_self:
  assumes "\<forall>i < length slots. sl_id (slots ! i) = i" "k < length slots" "sl_request_id (slots ! k) \<noteq> None"
  shows "fst (process_slot reqs (slots, pgo) (slots ! k)) = slots[k := finish_slot reqs (slots ! k)]"
proof -
  have f: "find_idx (\<lambda>sl. sl_id sl = k) slots = Some k"
  proof -
    obtain j where j: "find_idx (\<lambda>sl. sl_id sl = k) slots = Some j"
      using find_idx_exists [of "slots ! k" slots "\<lambda>sl. sl_id sl = k"] assms(1,2) by auto
    from find_idx_Some [OF j] assms(1) have "j = k" by metis
    with j show ?thesis by simp
  qed
  obtain rid where "sl_request_id (slots ! k) = Some rid" using assms(3) by auto
  with f assms show ?thesis
    by (auto simp: process_slot_def finish_slot_def Let_def split: option.splits)
qed

lemma process_slots_self:
  assumes "\<forall>i < length slots0. sl_id (slots0 ! i) = i" "length slots = length slots0"
    and "\<forall>i < length slots. sl_id (slots ! i) = i" "\<forall>i < length slots. i < n \<or> slots ! i = slots0 ! i"
    and "n \<le> length slots0" "bs = filter (\<lambda>sl. sl_request_id sl \<noteq> None) (drop n slots0)"
  shows "length (fst (foldl (process_slot reqs) (slots, pgo) bs)) = length slots0 \<and>
    (\<forall>i < length slots0. fst (foldl (process_slot reqs) (slots, pgo) bs) ! i =
       (if i < n then slots ! i else finish_slot reqs (slots0 ! i)))"
  using assms
proof (induction "length slots0 - n" arbitrary: n slots pgo bs)
  case 0
  then show ?case by simp
next
  case (Suc d)
  then have n: "n < length slots0" by simp
  have dr: "drop n slots0 = slots0 ! n # drop (Suc n) slots0" using n by (simp add: Cons_nth_drop_Suc)
  show ?case
  proof (cases "sl_request_id (slots0 ! n) = None")
    case True
    moreover have "slots ! n = slots0 ! n" using Suc.prems(2,4) n by (metis less_irrefl)
    ultimately have "finish_slot reqs (slots0 ! n) = slots ! n" by (simp add: finish_slot_def)
    moreover have "bs = filter (\<lambda>sl. sl_request_id sl \<noteq> None) (drop (Suc n) slots0)"
      using True dr Suc.prems(6) by simp
    moreover have "\<forall>i < length slots. i < Suc n \<or> slots ! i = slots0 ! i"
      using Suc.prems(4) less_Suc_eq by blast
    moreover have "d = length slots0 - Suc n" using Suc.hyps(2) by simp
    ultimately have "length (fst (foldl (process_slot reqs) (slots, pgo) bs)) = length slots0 \<and>
      (\<forall>i < length slots0. fst (foldl (process_slot reqs) (slots, pgo) bs) ! i =
       (if i < Suc n then slots ! i else finish_slot reqs (slots0 ! i)))"
      using Suc.hyps(1) [of "Suc n" slots bs pgo] Suc.prems(1-3) n by simp
    then show ?thesis
      using \<open>finish_slot reqs (slots0 ! n) = slots ! n\<close> n by (auto simp: less_Suc_eq)
  next
    case False
    let ?bs = "filter (\<lambda>sl. sl_request_id sl \<noteq> None) (drop (Suc n) slots0)"
    let ?slots = "slots[n := finish_slot reqs (slots0 ! n)]"
    have eq: "slots ! n = slots0 ! n" using Suc.prems n by auto
    then obtain p where p: "process_slot reqs (slots, pgo) (slots0 ! n) = (?slots, p)"
      using process_slot_self [of slots n reqs pgo] Suc.prems(2,3) n False by (metis prod.collapse)
    have bs: "bs = slots0 ! n # ?bs" using False dr Suc.prems(6) by simp
    have "\<forall>i < length ?slots. sl_id (?slots ! i) = i"
      using Suc.prems(1-3) n by (auto simp: nth_list_update)
    moreover have "\<forall>i < length ?slots. i < Suc n \<or> ?slots ! i = slots0 ! i"
      using Suc.prems(2,4) n by (auto simp: nth_list_update less_Suc_eq)
    ultimately have "length (fst (foldl (process_slot reqs) (?slots, p) ?bs)) = length slots0 \<and>
      (\<forall>i < length slots0. fst (foldl (process_slot reqs) (?slots, p) ?bs) ! i =
       (if i < Suc n then ?slots ! i else finish_slot reqs (slots0 ! i)))"
      using Suc.hyps(1) [of "Suc n" ?slots ?bs p] Suc.hyps(2) Suc.prems(1,2) n by simp
    then show ?thesis
      using p bs n Suc.prems(2) by (auto simp: less_Suc_eq nth_list_update)
  qed
qed

subsection \<open>Properties\<close>

text \<open>C1: no KV cache page is ever owned twice, and none disappears unnoticed.  In every reachable
  state the pages of the slots and of the preempted requests are distinct, and the pages the pager
  counts as allocated are exactly these plus the pages lost by earlier resumptions without a free
  slot and by drains of preempted requests.\<close>

theorem page_accounting:
  assumes "sched_reach s lost"
  shows "case sc_kv_cache_pager s of
      None \<Rightarrow> owned (sc_slots s) (sc_preempted s) = []
    | Some p \<Rightarrow> pager_inv p \<and> distinct (owned (sc_slots s) (sc_preempted s)) \<and>
        set (owned (sc_slots s) (sc_preempted s)) \<inter> lost = {} \<and>
        all_pages p - free_set p = set (owned (sc_slots s) (sc_preempted s)) \<union> lost"
  using sched_reach_inv [OF assms]
  by (auto simp: sched_inv_def acct_def pgr.held_def split: option.splits)

definition demo_request :: "u64 \<Rightarrow> u8 \<Rightarrow> request" where
  "demo_request i prio = \<lparr>rq_id = i, rq_prompt = [1, 2], rq_max_tokens = 1, rq_priority = prio,
     rq_state = Queued, rq_created_at = 0, rq_slot = None\<rparr>"

definition demo_config :: scheduler_config where
  "demo_config = default_config\<lparr>cf_max_batch_size := 1\<rparr>"

definition demo_full :: scheduler where
  "demo_full = snd (next_batch (enqueue (scheduler_new demo_config) (demo_request 1 128)))"

lemma demo_enqueue_reach:
  "sched_reach (enqueue (scheduler_new demo_config) (demo_request 1 128)) {}"
proof -
  have "sched_step (scheduler_new demo_config) {}
      (enqueue (scheduler_new demo_config) (demo_request 1 128))"
    by (rule sched_step.enqueue) (simp_all add: used_ids_def scheduler_new_def demo_request_def)
  from sched_reach.step [OF sched_reach.init this] show ?thesis by simp
qed

lemma demo_full_reach: "sched_reach demo_full {}"
  using sched_reach.step [OF demo_enqueue_reach sched_step.batch] by (simp add: demo_full_def)

lemma demo_full_eq:
  "demo_full = (scheduler_new demo_config)\<lparr>sc_active := [(demo_request 1 128)\<lparr>rq_slot := Some 0\<rparr>],
     sc_slots := [(slot_new 0)\<lparr>sl_request_id := Some 1, sl_kv_cache_length := 2\<rparr>]\<rparr>"
  by (simp add: demo_full_def next_batch_def enqueue_def scheduler_new_def demo_config_def
      default_config_def poll.simps Let_def demo_request_def is_free_def assign_slot_def
      backend_of_def slot_new_def)

lemma page_accounting_witness:
  "let s = snd (next_batch (set_kv_cache_pager (scheduler_new default_config) demo_pager)) in
   case sc_kv_cache_pager s of
      None \<Rightarrow> owned (sc_slots s) (sc_preempted s) = []
    | Some p \<Rightarrow> pager_inv p \<and> distinct (owned (sc_slots s) (sc_preempted s)) \<and>
        set (owned (sc_slots s) (sc_preempted s)) \<inter> {} = {} \<and>
        all_pages p - free_set p = set (owned (sc_slots s) (sc_preempted s)) \<union> {}"
proof -
  have "free_set demo_pager = all_pages demo_pager"
    by (auto simp: free_set_def all_pages_def demo_pager_def page_free_new)
  then have "sched_reach (set_kv_cache_pager (scheduler_new default_config) demo_pager) {}"
    by (intro sched_reach.init_pager) (simp_all add: demo_pager_def)
  from sched_reach.step [OF this sched_step.batch]
  have "sched_reach (snd (next_batch (set_kv_cache_pager (scheduler_new default_config) demo_pager))) {}"
    by simp
  from page_accounting [OF this] show ?thesis by (simp only: Let_def)
qed

text \<open>C2: requests and slots match.  In every reachable state each active request occupies a slot that
  carries its id, each occupied slot belongs to an active request, the next batch holds exactly one
  slot per active request, and no id occurs twice among the queued, active and preempted requests.\<close>

theorem batch_covers_active:
  assumes "sched_reach s lost" "next_batch s = (b, s')"
  shows "distinct (map sl_request_id (bt_slots b)) \<and>
    set (map sl_request_id (bt_slots b)) = Some ` rq_id ` set (sc_active s') \<and>
    bt_batch_size b = length (sc_active s') \<and>
    (\<forall>r \<in> set (sc_active s'). \<exists>i < length (sc_slots s'). rq_slot r = Some i \<and>
       sl_request_id (sc_slots s' ! i) = Some (rq_id r)) \<and>
    distinct (map rq_id (sc_queue s') @ map rq_id (sc_active s') @ map sv_request_id (sc_preempted s'))"
proof -
  note l = next_batch_laws [OF sched_reach_inv [OF assms(1)] assms(2)]
  then have "sched_inv s' lost" by blast
  then have I: "linked (sc_active s') (sc_slots s')" "slotted (sc_active s')"
    "distinct (map rq_id (sc_queue s') @ map rq_id (sc_active s') @ map sv_request_id (sc_preempted s'))"
    by (simp_all add: sched_inv_def)
  then have d: "distinct (map rq_id (sc_active s'))" by simp
  have "\<exists>i < length (sc_slots s'). rq_slot r = Some i \<and> sl_request_id (sc_slots s' ! i) = Some (rq_id r)"
    if r: "r \<in> set (sc_active s')" for r
  proof -
    obtain i where i: "rq_slot r = Some i" using I(2) r by (auto simp: slotted_def)
    with linkedD(2) [OF I(1) r i] show ?thesis by blast
  qed
  then show ?thesis using occupied_requests [OF I(1,2) d] I(3) l by simp
qed

lemma batch_covers_active_witness:
  "\<exists>b s'. next_batch demo_full = (b, s') \<and> bt_batch_size b = 1 \<and> length (sc_active s') = 1 \<and>
    set (map sl_request_id (bt_slots b)) = {Some 1}"
proof -
  obtain b s' where n: "next_batch demo_full = (b, s')" by (rule prod.exhaust)
  then have "map rq_id (sc_active s') = [1]"
    by (auto simp: demo_full_eq next_batch_def poll.simps Let_def scheduler_new_def demo_config_def
        default_config_def demo_request_def)
  then have "rq_id ` set (sc_active s') = {1}" "length (sc_active s') = 1"
    by (metis empty_set list.simps(15) set_map) (metis \<open>map rq_id (sc_active s') = [1]\<close> length_map
        length_Cons list.size(3) One_nat_def)
  with batch_covers_active [OF demo_full_reach n] n show ?thesis by auto
qed

text \<open>\<open>next_batch\<close> admits the requests with the numerically greatest priority values, that is,
  those of the lowest priority (0 is the highest, 255 the lowest): every request it leaves in the
  queue has a value not above that of every request it admits.  It admits as many as the two
  limits leave room for.\<close>

theorem next_batch_admission:
  assumes "sched_reach s lost" "next_batch s = (b, s')"
  shows "\<exists>moved. map rq_id (sc_active s') = map rq_id (sc_active s @ moved) \<and>
    set (sc_queue s) = set (sc_queue s') \<union> set moved \<and>
    length moved = min (min (cf_max_batch_size (sc_config s)) (cf_max_prefill_batch (sc_config s)) -
      length (sc_active s)) (length (sc_queue s)) \<and>
    (\<forall>m \<in> set moved. \<forall>r \<in> set (sc_queue s'). rq_priority r \<le> rq_priority m)"
proof -
  from next_batch_laws [OF sched_reach_inv [OF assms(1)] assms(2)] obtain moved where
    m: "sort_key rq_priority (sc_queue s) = sc_queue s' @ rev moved" "length moved = polled s"
      "map rq_id (sc_active s') = map rq_id (sc_active s @ moved)"
      "set (sc_queue s) = set (sc_queue s') \<union> set moved" by blast
  have "sorted (map rq_priority (sc_queue s' @ rev moved))" unfolding m(1) [symmetric] by simp
  then have "\<forall>m \<in> set moved. \<forall>r \<in> set (sc_queue s'). rq_priority r \<le> rq_priority m"
    by (auto simp: sorted_append)
  with m show ?thesis unfolding polled_def by blast
qed

text \<open>With room for one request, the request of priority 255 is admitted before that of priority 0.\<close>

lemma next_batch_admission_witness:
  "\<exists>b s'. \<exists>moved :: request list. next_batch (enqueue (enqueue (scheduler_new demo_config) (demo_request 1 255))
      (demo_request 2 0)) = (b, s') \<and> length moved = 1 \<and>
    map rq_id (sc_active s') = map rq_id ([] @ moved) \<and>
    (\<forall>m \<in> set moved. \<forall>r \<in> set (sc_queue s'). rq_priority r \<le> rq_priority m)"
proof -
  let ?s1 = "enqueue (scheduler_new demo_config) (demo_request 1 255)"
  let ?s = "enqueue ?s1 (demo_request 2 0)"
  have "sched_step (scheduler_new demo_config) {} ?s1"
    by (rule sched_step.enqueue) (simp_all add: used_ids_def scheduler_new_def demo_request_def)
  from sched_reach.step [OF sched_reach.init this] have "sched_reach ?s1 {}" by simp
  moreover have "sched_step ?s1 {} ?s"
    by (rule sched_step.enqueue) (simp_all add: used_ids_def scheduler_new_def demo_request_def enqueue_def)
  ultimately have r: "sched_reach ?s {}" using sched_reach.step by fastforce
  obtain b s' where n: "next_batch ?s = (b, s')" by (rule prod.exhaust)
  have "sc_active ?s = []" "length (sc_queue ?s) = 2" "cf_max_batch_size (sc_config ?s) = 1"
    "cf_max_prefill_batch (sc_config ?s) = 8"
    by (simp_all add: enqueue_def scheduler_new_def demo_config_def default_config_def)
  note eqs = this
  from next_batch_admission [OF r n, unfolded eqs] obtain moved :: "request list" where
    "map rq_id (sc_active s') = map rq_id ([] @ moved)" "length moved = min (min 1 8 - length ([] :: request list)) 2"
    "\<forall>m \<in> set moved. \<forall>r \<in> set (sc_queue s'). rq_priority r \<le> rq_priority m" by blast
  then have "length moved = 1" by simp
  with n \<open>map rq_id (sc_active s') = _\<close> \<open>\<forall>m \<in> set moved. _\<close> show ?thesis by blast
qed

text \<open>C5: processing the results of the batch of a reachable state advances every occupied slot by one
  token; a request that reaches its \<open>max_tokens\<close> leaves the active set and its slot is cleared, every
  other active request stays with its slot.\<close>

theorem process_results_completes:
  assumes "sched_reach s lost" "bt_slots b = filter (\<lambda>sl. sl_request_id sl \<noteq> None) (sc_slots s)"
    and "r \<in> set (sc_active s)" "rq_slot r = Some i"
  shows "let s' = process_results s b; sl = sc_slots s ! i in
    if rq_max_tokens r \<le> sl_tokens_generated sl + 1
    then is_free (sc_slots s' ! i) \<and> sl_kv_cache_pages (sc_slots s' ! i) = [] \<and> r \<notin> set (sc_active s')
    else sc_slots s' ! i = sl\<lparr>sl_tokens_generated := sl_tokens_generated sl + 1\<rparr> \<and> r \<in> set (sc_active s')"
proof -
  let ?slots = "sc_slots s" and ?act = "sc_active s"
  note I = sched_reach_inv [OF assms(1), unfolded sched_inv_def]
  then have link: "linked ?act ?slots" and dist: "distinct (map rq_id ?act)" by simp_all
  have ids: "\<forall>j < length ?slots. sl_id (?slots ! j) = j" using linkedD(1) [OF link] by blast
  let ?res = "foldl (process_slot ?act) (?slots, sc_kv_cache_pager s) (bt_slots b)"
  have res: "length (fst ?res) = length ?slots"
    "\<forall>j < length ?slots. fst ?res ! j = finish_slot ?act (?slots ! j)"
    using process_slots_self [of ?slots ?slots 0 "bt_slots b" ?act "sc_kv_cache_pager s"] ids assms(2)
    by simp_all
  have s': "sc_slots (process_results s b) = fst ?res"
    "sc_active (process_results s b) =
      filter (\<lambda>req. list_ex (\<lambda>sl. sl_request_id sl = Some (rq_id req)) (fst ?res)) ?act"
    by (simp_all add: process_results_def split: prod.splits)
  from linkedD(2) [OF link assms(3,4)]
  have i: "i < length ?slots" "sl_request_id (?slots ! i) = Some (rq_id r)" by auto
  have uniq: "r' = r" if "r' \<in> set ?act" "rq_id r' = rq_id r" for r'
    using dist that assms(3) by (auto simp: distinct_map dest: inj_onD)
  obtain r' where r': "find (\<lambda>x. rq_id x = rq_id r) ?act = Some r'"
    using assms(3) find_None_iff [of "\<lambda>x. rq_id x = rq_id r" ?act]
    by (cases "find (\<lambda>x. rq_id x = rq_id r) ?act") auto
  then have fd: "find (\<lambda>x. rq_id x = rq_id r) ?act = Some r"
    using uniq [of r'] by (auto simp: find_Some_iff)
  have at_i: "fst ?res ! i = (if rq_max_tokens r \<le> sl_tokens_generated (?slots ! i) + 1
      then clear_slot ((?slots ! i)\<lparr>sl_tokens_generated := sl_tokens_generated (?slots ! i) + 1\<rparr>)
      else (?slots ! i)\<lparr>sl_tokens_generated := sl_tokens_generated (?slots ! i) + 1\<rparr>)"
    using res(2) i fd by (simp add: finish_slot_def Let_def)
  have other: "sl_request_id (fst ?res ! j) \<noteq> Some (rq_id r)" if "j < length ?slots" "j \<noteq> i" for j
  proof
    assume a: "sl_request_id (fst ?res ! j) = Some (rq_id r)"
    then have "sl_request_id (?slots ! j) = Some (rq_id r)"
      using res(2) that(1)
      by (auto simp: finish_slot_def clear_slot_def Let_def split: option.splits if_splits)
    from linkedD(3) [OF link that(1) this] obtain ra where
      "ra \<in> set ?act" "rq_id ra = rq_id r" "rq_slot ra = Some j" by blast
    with uniq [of ra] assms(4) that(2) show False by simp
  qed
  have ex: "list_ex (\<lambda>sl. sl_request_id sl = Some (rq_id r)) (fst ?res) \<longleftrightarrow>
      sl_request_id (fst ?res ! i) = Some (rq_id r)"
  proof
    assume "list_ex (\<lambda>sl. sl_request_id sl = Some (rq_id r)) (fst ?res)"
    then obtain m where "m < length ?slots" "sl_request_id (fst ?res ! m) = Some (rq_id r)"
      using res(1) by (auto simp: list_ex_iff in_set_conv_nth)
    then show "sl_request_id (fst ?res ! i) = Some (rq_id r)" using other by blast
  next
    assume "sl_request_id (fst ?res ! i) = Some (rq_id r)"
    then show "list_ex (\<lambda>sl. sl_request_id sl = Some (rq_id r)) (fst ?res)"
      using i(1) res(1) unfolding list_ex_iff by (metis nth_mem)
  qed
  show ?thesis
    using at_i ex i assms(3) by (simp add: s' Let_def clear_slot_def is_free_def)
qed

lemma process_results_completes_witness:
  "let s' = process_results demo_full
      \<lparr>bt_slots = sc_slots demo_full, bt_batch_size = 1, bt_max_batch_size = 1\<rparr> in
    is_free (sc_slots s' ! 0) \<and> sl_kv_cache_pages (sc_slots s' ! 0) = [] \<and>
    (demo_request 1 128)\<lparr>rq_slot := Some 0\<rparr> \<notin> set (sc_active s')"
  using process_results_completes [OF demo_full_reach,
      of "\<lparr>bt_slots = sc_slots demo_full, bt_batch_size = 1, bt_max_batch_size = 1\<rparr>"
        "(demo_request 1 128)\<lparr>rq_slot := Some 0\<rparr>" 0]
  by (simp add: demo_full_eq demo_request_def slot_new_def Let_def)


lemma demo_preempt:
  "\<exists>saved s'. preempt_lowest demo_full = (Some saved, s') \<and> sv_request_id saved = 1 \<and>
    sched_reach s' {} \<and> saved \<in> set (sc_preempted s') \<and> sc_config s' = demo_config \<and>
    sc_queue s' = [] \<and> sc_active s' = [] \<and> sc_slots s' = [slot_new 0] \<and>
    sc_route_profile s' = None \<and> sc_kv_cache_pager s' = None \<and>
    sc_starvation_counters s' = [(1, 1)] \<and> sc_preempted s' = [saved]"
proof -
  obtain saved s' where p: "preempt_lowest demo_full = (Some saved, s')" "sv_request_id saved = 1"
    "sc_config s' = demo_config" "sc_queue s' = []" "sc_active s' = []" "sc_slots s' = [slot_new 0]"
    "sc_route_profile s' = None" "sc_kv_cache_pager s' = None" "sc_starvation_counters s' = [(1, 1)]"
    "sc_preempted s' = [saved]"
    by (simp add: demo_full_eq preempt_lowest_def Let_def apply_starvation_boosts_def victim_index_def
        demo_config_def default_config_def scheduler_new_def boost_request_def demo_request_def
        slot_new_def clear_slot_def remove_nth_def)
  moreover have "sched_reach s' {}"
    using sched_reach.step [OF demo_full_reach sched_step.preempt] p(1) by simp
  ultimately show ?thesis by auto
qed


text \<open>resuming a preempted request while no slot is free requeues it without its KV cache: no slot
  and no saved request refers to its pages any more, and the pager still counts them as allocated.\<close>

theorem resume_without_slot_leaks:
  assumes "sched_reach s lost" "saved \<in> set (sc_preempted s)" "\<not> list_ex is_free (sc_slots s)"
  shows "let s' = resume s now saved in
    sc_kv_cache_pager s' = sc_kv_cache_pager s \<and>
    set (sv_kv_cache_pages saved) \<inter> set (owned (sc_slots s') (sc_preempted s')) = {} \<and>
    (\<forall>p. sc_kv_cache_pager s' = Some p \<longrightarrow> set (sv_kv_cache_pages saved) \<subseteq> all_pages p - free_set p) \<and>
    (\<exists>r \<in> set (sc_queue s'). rq_id r = sv_request_id saved \<and> rq_slot r = None)"
proof -
  have "find_idx is_free (sc_slots s) = None" using assms(3) by (simp add: find_idx_None list_ex_iff)
  then have r: "sc_kv_cache_pager (resume s now saved) = sc_kv_cache_pager s"
    "\<exists>r \<in> set (sc_queue (resume s now saved)). rq_id r = sv_request_id saved \<and> rq_slot r = None"
    by (simp_all add: resume_def Let_def)
  have "sched_inv (resume s now saved) (lost \<union> set (sv_kv_cache_pages saved))"
    by (rule resume_queue_inv [OF sched_reach_inv [OF assms(1)] assms(2,3)])
  then have "acct (sc_kv_cache_pager (resume s now saved)) (lost \<union> set (sv_kv_cache_pages saved))
      (owned (sc_slots (resume s now saved)) (sc_preempted (resume s now saved)))"
    by (simp add: sched_inv_def)
  then show ?thesis
    using r unfolding Let_def acct_def pgr.held_def by (auto split: option.splits)
qed

lemma resume_without_slot_leaks_witness:
  "\<exists>s saved. sched_reach s {} \<and> \<not> list_ex is_free (sc_slots s) \<and> sv_request_id saved = 1 \<and>
    (\<exists>r \<in> set (sc_queue (resume s 0 saved)). rq_id r = 1 \<and> rq_slot r = None)"
proof -
  obtain saved s1 where p: "sched_reach s1 {}" "saved \<in> set (sc_preempted s1)" "sv_request_id saved = 1"
    and e: "sc_config s1 = demo_config" "sc_queue s1 = []" "sc_active s1 = []" "sc_slots s1 = [slot_new 0]"
      "sc_route_profile s1 = None" "sc_kv_cache_pager s1 = None" "sc_starvation_counters s1 = [(1, 1)]"
      "sc_preempted s1 = [saved]"
    using demo_preempt by blast
  have "sched_step s1 {} (enqueue s1 (demo_request 2 0))"
    by (rule sched_step.enqueue) (simp_all add: used_ids_def e p(3) demo_request_def)
  from sched_reach.step [OF p(1) this] have "sched_reach (enqueue s1 (demo_request 2 0)) {}" by simp
  from sched_reach.step [OF this sched_step.batch]
  have r: "sched_reach (snd (next_batch (enqueue s1 (demo_request 2 0)))) {}" by simp
  let ?s = "snd (next_batch (enqueue s1 (demo_request 2 0)))"
  have "\<not> list_ex is_free (sc_slots ?s)" "saved \<in> set (sc_preempted ?s)"
    by (simp_all add: next_batch_def enqueue_def e poll.simps Let_def demo_request_def is_free_def
        assign_slot_def backend_of_def slot_new_def demo_config_def default_config_def)
  with resume_without_slot_leaks [OF r this(2,1), of 0] r p(3) show ?thesis
    by (auto simp: Let_def)
qed



end
