(* ===== verification/TokenBudget.thy ===== *)
theory TokenBudget
  imports Prelude
begin

text \<open>
  The token-budget scheduler of \<open>scheduling/token_budget.rs\<close>: work units, one scheduling cycle with
  chunking, the budget reset, and the receipt collector.

  Token counts are \<open>u32\<close> words; the block count uses the wrapping arithmetic of a release build.
  Deadlines are natural numbers computed from a clock reading.
\<close>

datatype phase_kind = Prefill | Decode | SpecDraft | SpecVerify

record work_unit =
  wu_request_id :: string
  wu_sequence_id :: "u64 option"
  wu_phase :: phase_kind
  wu_compute_image_phase :: "string option"
  wu_token_span :: u32
  wu_kv_blocks_needed :: u32
  wu_priority :: u32
  wu_deadline :: nat
  wu_backend_route :: "string option"
  wu_speculative_parent :: "string option"
  wu_receipt_sink :: "string option"

definition DEFAULT_BLOCK_SIZE :: u32 where
  "DEFAULT_BLOCK_SIZE = 32"

definition needed_blocks :: "u32 \<Rightarrow> u32" where
  "needed_blocks tokens = (tokens + DEFAULT_BLOCK_SIZE - 1) div DEFAULT_BLOCK_SIZE"

definition new_prefill :: "nat \<Rightarrow> string \<Rightarrow> u32 \<Rightarrow> work_unit" where
  "new_prefill now request_id token_span = \<lparr>wu_request_id = request_id, wu_sequence_id = None,
     wu_phase = Prefill, wu_compute_image_phase = None, wu_token_span = token_span,
     wu_kv_blocks_needed = needed_blocks token_span, wu_priority = 1, wu_deadline = now + 30,
     wu_backend_route = None, wu_speculative_parent = None, wu_receipt_sink = None\<rparr>"

definition new_decode :: "nat \<Rightarrow> string \<Rightarrow> work_unit" where
  "new_decode now request_id = \<lparr>wu_request_id = request_id, wu_sequence_id = None,
     wu_phase = Decode, wu_compute_image_phase = None, wu_token_span = 1,
     wu_kv_blocks_needed = 0, wu_priority = 2, wu_deadline = now + 30,
     wu_backend_route = None, wu_speculative_parent = None, wu_receipt_sink = None\<rparr>"

record budget_config =
  bc_max_num_batched_tokens :: u32
  bc_max_num_seqs :: u32
  bc_max_model_len :: u32

definition default_budget_config :: budget_config where
  "default_budget_config = \<lparr>bc_max_num_batched_tokens = 256, bc_max_num_seqs = 8,
     bc_max_model_len = 131072\<rparr>"

record budget_scheduler =
  tb_config :: budget_config
  tb_run_queue :: "work_unit list"
  tb_active_requests :: "string set"
  tb_total_budget_tokens :: u32
  tb_config_t :: "(string \<times> work_unit) list"

definition tb_new :: "budget_config \<Rightarrow> budget_scheduler" where
  "tb_new config = \<lparr>tb_config = config, tb_run_queue = [], tb_active_requests = {},
     tb_total_budget_tokens = bc_max_num_batched_tokens config, tb_config_t = []\<rparr>"

definition tb_enqueue :: "budget_scheduler \<Rightarrow> work_unit \<Rightarrow> budget_scheduler" where
  "tb_enqueue s unit = s\<lparr>tb_run_queue := tb_run_queue s @ [unit]\<rparr>"

text \<open>
  The loop of \<open>schedule\<close> over the run queue, with the remaining budget, the sequences so far and
  the active set; it returns the batch, the queue, the budget and the active set.
\<close>

definition chunk_unit :: "work_unit \<Rightarrow> u32 \<Rightarrow> work_unit" where
  "chunk_unit unit span = unit\<lparr>wu_token_span := span, wu_kv_blocks_needed := needed_blocks span\<rparr>"

fun schedule_loop :: "u32 \<Rightarrow> work_unit list \<Rightarrow> u32 \<Rightarrow> u32 \<Rightarrow> string set
    \<Rightarrow> work_unit list \<times> work_unit list \<times> u32 \<times> string set" where
  "schedule_loop max_seqs [] budget seqs active = ([], [], budget, active)"
| "schedule_loop max_seqs (unit # queue) budget seqs active = (
     if max_seqs \<le> seqs then ([], unit # queue, budget, active)
     else if budget < wu_token_span unit then
       ([chunk_unit unit budget], chunk_unit unit (wu_token_span unit - budget) # queue, 0, active)
     else
       case schedule_loop max_seqs queue (budget - wu_token_span unit) (seqs + 1)
              (insert (wu_request_id unit) active) of
         (batch, queue', budget', active') \<Rightarrow> (unit # batch, queue', budget', active'))"

definition schedule :: "budget_scheduler \<Rightarrow> work_unit list \<times> budget_scheduler" where
  "schedule s = (case schedule_loop (bc_max_num_seqs (tb_config s)) (tb_run_queue s)
       (tb_total_budget_tokens s) 0 (tb_active_requests s) of
     (batch, queue, budget, active) \<Rightarrow>
       (batch, s\<lparr>tb_run_queue := queue, tb_total_budget_tokens := budget,
                 tb_active_requests := active\<rparr>))"

definition tb_complete :: "budget_scheduler \<Rightarrow> string \<Rightarrow> budget_scheduler" where
  "tb_complete s request_id = s\<lparr>tb_active_requests := tb_active_requests s - {request_id}\<rparr>"

definition enqueue_decode :: "budget_scheduler \<Rightarrow> nat \<Rightarrow> string \<Rightarrow> u32 \<Rightarrow> budget_scheduler" where
  "enqueue_decode s now request_id prio =
     s\<lparr>tb_run_queue := tb_run_queue s @ [(new_decode now request_id)\<lparr>wu_priority := prio\<rparr>]\<rparr>"

definition reset_budget :: "budget_scheduler \<Rightarrow> budget_scheduler" where
  "reset_budget s = s\<lparr>tb_total_budget_tokens := bc_max_num_batched_tokens (tb_config s)\<rparr>"

definition pending_count :: "budget_scheduler \<Rightarrow> nat" where
  "pending_count s = length (tb_run_queue s)"

definition active_count :: "budget_scheduler \<Rightarrow> nat" where
  "active_count s = card (tb_active_requests s)"

subsection \<open>Receipts\<close>

record execution_receipt =
  er_request_id :: string
  er_phase :: string
  er_compute_image_phase :: "string option"
  er_backend_route :: "string option"
  er_token_count :: u32
  er_elapsed_ns :: u64
  er_success :: bool
  er_error :: "string option"

type_synonym receipt_collector = "execution_receipt list"

definition rc_record :: "receipt_collector \<Rightarrow> execution_receipt \<Rightarrow> receipt_collector" where
  "rc_record rs r = rs @ [r]"

text \<open>The numbers \<open>summary\<close> prints: receipts, successes, failures, tokens and nanoseconds.\<close>

definition rc_summary :: "receipt_collector \<Rightarrow> nat \<times> nat \<times> nat \<times> u32 \<times> u64" where
  "rc_summary rs = (
     let total = length rs;
         successes = length (filter er_success rs) in
     (total, successes, total - successes,
      sum_list (map er_token_count rs), sum_list (map er_elapsed_ns rs)))"

subsection \<open>Tokens of a queue\<close>

definition tokens :: "work_unit list \<Rightarrow> nat" where
  "tokens us = sum_list (map (\<lambda>u. unat (wu_token_span u)) us)"

lemma tokens_simps [simp]:
  "tokens [] = 0" "tokens (u # us) = unat (wu_token_span u) + tokens us"
  "tokens (us @ vs) = tokens us + tokens vs"
  by (simp_all add: tokens_def)

lemma chunk_unit_span [simp]: "wu_token_span (chunk_unit u n) = n"
  by (simp add: chunk_unit_def)

text \<open>What a cycle takes from the queue: a prefix of whole units, and the first part of the next unit
  when the budget runs out in the middle of it.\<close>

definition taken :: "work_unit list \<Rightarrow> nat \<Rightarrow> u32 \<Rightarrow> work_unit list \<Rightarrow> work_unit list \<Rightarrow> u32 \<Rightarrow> work_unit list \<Rightarrow> bool" where
  "taken queue room budget batch queue' budget' whole \<longleftrightarrow>
     (batch = whole \<and> queue = whole @ queue' \<and> unat budget' + tokens whole = unat budget \<and>
        length whole \<le> room \<and> (queue' = [] \<or> length whole = room)) \<or>
     (\<exists>u rest left. queue = whole @ u # rest \<and> unat left + tokens whole = unat budget \<and>
        left < wu_token_span u \<and> length whole < room \<and> batch = whole @ [chunk_unit u left] \<and>
        queue' = chunk_unit u (wu_token_span u - left) # rest \<and> budget' = 0)"

lemma taken_Cons:
  assumes "taken queue room (budget - wu_token_span u) batch queue' budget' whole"
    "wu_token_span u \<le> budget"
  shows "taken (u # queue) (Suc room) budget (u # batch) queue' budget' (u # whole)"
proof -
  have b: "unat (budget - wu_token_span u) = unat budget - unat (wu_token_span u)"
    "unat (wu_token_span u) \<le> unat budget"
    using assms(2) by (simp_all add: unat_sub word_le_nat_alt)
  from assms(1) consider (all) "batch = whole" "queue = whole @ queue'"
      "unat budget' + tokens whole = unat (budget - wu_token_span u)"
      "length whole \<le> room" "queue' = [] \<or> length whole = room"
    | (chunk) v rest left where "queue = whole @ v # rest"
      "unat left + tokens whole = unat (budget - wu_token_span u)"
      "left < wu_token_span v" "length whole < room" "batch = whole @ [chunk_unit v left]"
      "queue' = chunk_unit v (wu_token_span v - left) # rest" "budget' = 0"
    unfolding taken_def by blast
  then show ?thesis
  proof cases
    case all
    then show ?thesis using b by (simp add: taken_def)
  next
    case chunk
    then show ?thesis using b
      by (auto simp: taken_def intro!: exI [of _ v] exI [of _ rest] exI [of _ left])
  qed
qed

lemma schedule_loop_spec:
  assumes "schedule_loop max_seqs queue budget seqs active = (batch, queue', budget', active')"
  shows "\<exists>whole. taken queue (unat max_seqs - unat seqs) budget batch queue' budget' whole \<and>
    active' = active \<union> wu_request_id ` set whole"
  using assms
proof (induction max_seqs queue budget seqs active arbitrary: batch queue' budget' active'
    rule: schedule_loop.induct)
  case (1 max_seqs budget seqs active)
  then show ?case by (intro exI [of _ "[]"]) (simp add: taken_def)
next
  case (2 max_seqs u queue budget seqs active)
  show ?case
  proof (cases "max_seqs \<le> seqs")
    case True
    then show ?thesis using 2(2) by (intro exI [of _ "[]"]) (simp add: taken_def word_le_nat_alt)
  next
    case full: False
    then have room: "unat seqs < unat max_seqs" by (simp add: word_le_nat_alt)
    show ?thesis
    proof (cases "budget < wu_token_span u")
      case True
      then show ?thesis using 2(2) full room
        by (intro exI [of _ "[]"]) (auto simp: taken_def)
    next
      case False
      obtain batch1 where r: "schedule_loop max_seqs queue (budget - wu_token_span u) (seqs + 1)
          (insert (wu_request_id u) active) = (batch1, queue', budget', active')" "batch = u # batch1"
        using 2(2) full False by (auto split: prod.splits)
      from 2(1) [OF full False r(1)] obtain whole where
        t: "taken queue (unat max_seqs - unat (seqs + 1)) (budget - wu_token_span u) batch1 queue' budget' whole"
        and a: "active' = insert (wu_request_id u) active \<union> wu_request_id ` set whole" by blast
      have "unat (seqs + 1) = Suc (unat seqs)"
        using room unat_u32_less [of max_seqs] unat_add_lem [of seqs 1] by simp
      then have "Suc (unat max_seqs - unat (seqs + 1)) = unat max_seqs - unat seqs" using room by simp
      then have "taken (u # queue) (unat max_seqs - unat seqs) budget batch queue' budget' (u # whole)"
        using taken_Cons [OF t] False r(2) by simp
      then show ?thesis using a by (intro exI [of _ "u # whole"]) auto
    qed
  qed
qed

lemma taken_tokens:
  assumes "taken queue room budget batch queue' budget' whole"
  shows "tokens queue = tokens batch + tokens queue'" "tokens batch + unat budget' = unat budget"
    "length batch \<le> room" "queue' \<noteq> [] \<Longrightarrow> length batch = room \<or> budget' = 0"
proof -
  from assms consider (all) "batch = whole" "queue = whole @ queue'"
      "unat budget' + tokens whole = unat budget" "length whole \<le> room" "queue' = [] \<or> length whole = room"
    | (chunk) v rest left where "queue = whole @ v # rest" "unat left + tokens whole = unat budget"
      "left < wu_token_span v" "length whole < room" "batch = whole @ [chunk_unit v left]"
      "queue' = chunk_unit v (wu_token_span v - left) # rest" "budget' = 0"
    unfolding taken_def by blast
  then have "tokens queue = tokens batch + tokens queue' \<and> tokens batch + unat budget' = unat budget \<and>
    length batch \<le> room \<and> (queue' \<noteq> [] \<longrightarrow> length batch = room \<or> budget' = 0)"
  proof cases
    case all
    then show ?thesis by auto
  next
    case chunk
    then show ?thesis by (simp add: unat_sub word_less_nat_alt word_le_nat_alt)
  qed
  then show "tokens queue = tokens batch + tokens queue'" "tokens batch + unat budget' = unat budget"
    "length batch \<le> room" "queue' \<noteq> [] \<Longrightarrow> length batch = room \<or> budget' = 0" by auto
qed

lemma schedule_taken:
  assumes "schedule s = (batch, s')"
  obtains whole where "taken (tb_run_queue s) (unat (bc_max_num_seqs (tb_config s)))
      (tb_total_budget_tokens s) batch (tb_run_queue s') (tb_total_budget_tokens s') whole"
    "tb_active_requests s' = tb_active_requests s \<union> wu_request_id ` set whole"
    "tb_config s' = tb_config s"
proof -
  obtain q b a where l: "schedule_loop (bc_max_num_seqs (tb_config s)) (tb_run_queue s)
       (tb_total_budget_tokens s) 0 (tb_active_requests s) = (batch, q, b, a)"
    and s': "s' = s\<lparr>tb_run_queue := q, tb_total_budget_tokens := b, tb_active_requests := a\<rparr>"
    using assms by (auto simp: schedule_def split: prod.splits)
  from schedule_loop_spec [OF l] obtain whole where
    "taken (tb_run_queue s) (unat (bc_max_num_seqs (tb_config s)) - unat (0 :: u32))
      (tb_total_budget_tokens s) batch q b whole"
    "a = tb_active_requests s \<union> wu_request_id ` set whole" by blast
  with s' show thesis by (intro that [of whole]) simp_all
qed

subsection \<open>Draining the queue\<close>

text \<open>A scheduling cycle resets the budget and schedules.\<close>

fun run_cycles :: "nat \<Rightarrow> budget_scheduler \<Rightarrow> work_unit list \<times> budget_scheduler" where
  "run_cycles 0 s = ([], s)"
| "run_cycles (Suc n) s = (case schedule (reset_budget s) of (batch, s') \<Rightarrow>
     case run_cycles n s' of (batch', s'') \<Rightarrow> (batch @ batch', s''))"

lemma cycle_progress:
  assumes "schedule (reset_budget s) = (batch, s')" "tb_run_queue s \<noteq> []"
    "0 < bc_max_num_seqs (tb_config s)" "0 < bc_max_num_batched_tokens (tb_config s)"
  shows "tokens (tb_run_queue s') + length (tb_run_queue s') <
    tokens (tb_run_queue s) + length (tb_run_queue s)"
proof -
  let ?room = "unat (bc_max_num_seqs (tb_config s))" and ?q = "tb_run_queue s"
  have room: "0 < ?room" using assms(3) by (simp add: word_less_nat_alt)
  obtain whole where t: "taken ?q ?room (bc_max_num_batched_tokens (tb_config s)) batch
      (tb_run_queue s') (tb_total_budget_tokens s') whole"
    by (rule schedule_taken [OF assms(1)]) (simp add: reset_budget_def)
  from t consider (all) "?q = whole @ tb_run_queue s'" "tb_run_queue s' = [] \<or> length whole = ?room"
    | (chunk) v rest left where "?q = whole @ v # rest"
      "unat left + tokens whole = unat (bc_max_num_batched_tokens (tb_config s))"
      "left < wu_token_span v" "tb_run_queue s' = chunk_unit v (wu_token_span v - left) # rest"
    unfolding taken_def by blast
  then show ?thesis
  proof cases
    case all
    then have "whole \<noteq> []" using room assms(2) by auto
    then show ?thesis using all(1) by (cases whole) simp_all
  next
    case chunk
    have "0 < unat left + tokens whole" using chunk(2) assms(4) by (simp add: word_less_nat_alt)
    moreover have "unat (wu_token_span v - left) = unat (wu_token_span v) - unat left"
      "unat left < unat (wu_token_span v)"
      using chunk(3) by (simp_all add: unat_sub word_less_nat_alt word_le_nat_alt)
    ultimately show ?thesis using chunk(1,4) by auto
  qed
qed
lemma schedule_config:
  assumes "schedule s = (batch, s')"
  shows "tb_config s' = tb_config s"
  by (rule schedule_taken [OF assms])

lemma schedule_tokens:
  assumes "schedule s = (batch, s')"
  shows "tokens (tb_run_queue s) = tokens batch + tokens (tb_run_queue s')"
  by (rule schedule_taken [OF assms]) (rule taken_tokens)

lemma reset_budget_simps [simp]:
  "tb_config (reset_budget s) = tb_config s" "tb_run_queue (reset_budget s) = tb_run_queue s"
  by (simp_all add: reset_budget_def)

lemma run_cycles_drain:
  assumes "tokens (tb_run_queue s) + length (tb_run_queue s) \<le> n"
    "0 < bc_max_num_seqs (tb_config s)" "0 < bc_max_num_batched_tokens (tb_config s)"
    "run_cycles n s = (batch, s')"
  shows "tb_run_queue s' = [] \<and> tokens batch = tokens (tb_run_queue s)"
  using assms
proof (induction n arbitrary: s batch)
  case 0
  then show ?case by simp
next
  case (Suc n)
  obtain b1 s1 where c: "schedule (reset_budget s) = (b1, s1)" by (rule prod.exhaust)
  obtain b2 where r: "run_cycles n s1 = (b2, s')" "batch = b1 @ b2"
    using Suc.prems(4) c by (auto split: prod.splits)
  have cfg: "tb_config s1 = tb_config s" using schedule_config [OF c] by simp
  have tk: "tokens (tb_run_queue s) = tokens b1 + tokens (tb_run_queue s1)"
    using schedule_tokens [OF c] by simp
  have "tokens (tb_run_queue s1) + length (tb_run_queue s1) \<le> n"
  proof (cases "tb_run_queue s = []")
    case True
    have "tb_run_queue s1 = []"
      using c True by (auto simp: schedule_def split: prod.splits)
    then show ?thesis by simp
  next
    case False
    from cycle_progress [OF c False Suc.prems(2,3)] Suc.prems(1) show ?thesis by simp
  qed
  from Suc.IH [OF this _ _ r(1)] Suc.prems(2,3) cfg tk r(2) show ?case by simp
qed

subsection \<open>Properties\<close>


definition demo_units :: budget_scheduler where
  "demo_units = tb_enqueue (tb_enqueue (tb_new \<lparr>bc_max_num_batched_tokens = 256, bc_max_num_seqs = 8,
     bc_max_model_len = 131072\<rparr>) (new_prefill 0 ''a'' 200)) (new_prefill 0 ''b'' 100)"



text \<open>C24: every queue is drained.  With a positive token budget and a positive sequence limit, as many
  cycles as the queue has tokens and units dispatch all of it, exactly the queued tokens.\<close>

theorem cycles_drain_queue:
  assumes "0 < bc_max_num_seqs (tb_config s)" "0 < bc_max_num_batched_tokens (tb_config s)"
  shows "\<exists>batch s'. run_cycles (tokens (tb_run_queue s) + length (tb_run_queue s)) s = (batch, s') \<and>
    tb_run_queue s' = [] \<and> tokens batch = tokens (tb_run_queue s)"
proof -
  obtain batch s' where r: "run_cycles (tokens (tb_run_queue s) + length (tb_run_queue s)) s = (batch, s')"
    by (rule prod.exhaust)
  from run_cycles_drain [OF order_refl assms r] r show ?thesis by blast
qed

lemma cycles_drain_queue_witness:
  "\<exists>batch s'. run_cycles 302 demo_units = (batch, s') \<and> tb_run_queue s' = [] \<and> tokens batch = 300"
proof -
  have "tokens (tb_run_queue demo_units) = 300" "length (tb_run_queue demo_units) = 2"
    by (simp_all add: demo_units_def tb_enqueue_def tb_new_def new_prefill_def)
  moreover have "0 < bc_max_num_seqs (tb_config demo_units)"
    "0 < bc_max_num_batched_tokens (tb_config demo_units)"
    by (simp_all add: demo_units_def tb_enqueue_def tb_new_def)
  ultimately show ?thesis using cycles_drain_queue [of demo_units] by (simp del: run_cycles.simps)
qed

text \<open>when the budget is used up and not reset, a cycle still dispatches a unit, an empty chunk of
  the first queued one with no token and no block, and leaves the queue as it was.\<close>

theorem exhausted_budget_dispatches_empty_unit:
  assumes "tb_total_budget_tokens s = 0" "0 < bc_max_num_seqs (tb_config s)"
    "tb_run_queue s = u # us" "0 < wu_token_span u"
    "wu_kv_blocks_needed u = needed_blocks (wu_token_span u)"
  shows "fst (schedule s) = [u\<lparr>wu_token_span := 0, wu_kv_blocks_needed := 0\<rparr>] \<and> snd (schedule s) = s"
proof -
  have nb: "needed_blocks 0 = 0" by (simp add: needed_blocks_def DEFAULT_BLOCK_SIZE_def)
  have "\<not> bc_max_num_seqs (tb_config s) \<le> 0" using assms(2) by simp
  moreover have "chunk_unit u (wu_token_span u) = u" using assms(5) by (simp add: chunk_unit_def)
  ultimately show ?thesis
    using assms(1,3,4) nb by (simp add: schedule_def) (simp add: chunk_unit_def)
qed

lemma exhausted_budget_dispatches_empty_unit_witness:
  "fst (schedule (demo_units\<lparr>tb_total_budget_tokens := 0\<rparr>)) =
    [(new_prefill 0 ''a'' 200)\<lparr>wu_token_span := 0, wu_kv_blocks_needed := 0\<rparr>]"
  using exhausted_budget_dispatches_empty_unit [of "demo_units\<lparr>tb_total_budget_tokens := 0\<rparr>"
      "new_prefill 0 ''a'' 200" "[new_prefill 0 ''b'' 100]"]
  by (simp add: demo_units_def tb_enqueue_def tb_new_def new_prefill_def)

end
