(* ===== verification/Recency.thy ===== *)
theory Recency
  imports Prelude
begin

text \<open>
  Least recently used order.  The locale states what a structure that keeps the most recently used keys
  promises of one access; its theorem says what any sequence of accesses leaves: the last distinct keys, in
  the order of their last use.  The block tracker of the KV arena and both halves of the prefix
  cache interpret it.
\<close>

lemma remdups_snoc: "remdups (xs @ [x]) = filter (\<lambda>y. y \<noteq> x) (remdups xs) @ [x]"
  by (induction xs) auto

lemma remdups_append: "remdups (xs @ ys) = filter (\<lambda>x. x \<notin> set ys) (remdups xs) @ remdups ys"
  by (induction xs) auto

definition last_n :: "nat \<Rightarrow> 'a list \<Rightarrow> 'a list" where
  "last_n n xs = drop (length xs - n) xs"

lemma last_n_append: "length ys \<le> n \<Longrightarrow> last_n n (xs @ ys) = last_n (n - length ys) xs @ ys"
  by (simp add: last_n_def)

lemma last_n_short: "length xs \<le> n \<Longrightarrow> last_n n xs = xs"
  by (simp add: last_n_def)

lemma length_last_n: "length (last_n n xs) = min n (length xs)"
  by (simp add: last_n_def)

lemma distinct_last_n: "distinct xs \<Longrightarrow> distinct (last_n n xs)"
  by (simp add: last_n_def)

lemma remove1_filter: "distinct xs \<Longrightarrow> remove1 x xs = filter (\<lambda>y. y \<noteq> x) xs"
  by (rule distinct_remove1_removeAll [unfolded removeAll_filter_not_eq, of xs x, simplified eq_commute])

text \<open>Trimming before or after the touched element is moved to the back makes no difference.\<close>

lemma last_n_touch:
  assumes "distinct xs"
  shows "last_n n (filter (\<lambda>y. y \<noteq> x) (last_n n xs) @ [x]) = last_n n (filter (\<lambda>y. y \<noteq> x) xs @ [x])"
proof (cases "length xs \<le> n")
  case True
  then show ?thesis by (simp add: last_n_def)
next
  case False
  define p q where "p = take (length xs - n) xs" and "q = drop (length xs - n) xs"
  have xs: "xs = p @ q" "last_n n xs = q" "length q = n" using False by (simp_all add: p_def q_def last_n_def)
  show ?thesis
  proof (cases n)
    case 0
    then show ?thesis by (simp add: last_n_def)
  next
    case (Suc m)
    show ?thesis
    proof (cases "x \<in> set q")
      case True
      then have "length (filter (\<lambda>y. y \<noteq> x) q) < n" using xs(3) length_filter_less by fastforce
      moreover have "x \<notin> set p" using True assms xs(1) by auto
      moreover have "length (filter (\<lambda>y. y \<noteq> x) q) = n - 1"
        using True assms xs(1,3) remove1_filter [of q x] length_remove1 [of x q] by auto
      ultimately show ?thesis unfolding xs(2) unfolding xs(1)
        by (simp add: last_n_def Suc)
    next
      case False
      then have "filter (\<lambda>y. y \<noteq> x) q = q" by (auto intro: filter_True)
      then show ?thesis unfolding xs(2) unfolding xs(1) using xs(3) by (simp add: last_n_def Suc)
    qed
  qed
qed

text \<open>A loop of accesses that may fail to return.\<close>

fun run_opt :: "('s \<Rightarrow> 'i \<Rightarrow> 's option) \<Rightarrow> 's \<Rightarrow> 'i list \<Rightarrow> 's option" where
  "run_opt f s [] = Some s"
| "run_opt f s (i # is) = Option.bind (f s i) (\<lambda>s'. run_opt f s' is)"

lemma run_opt_append: "run_opt f s (xs @ ys) = Option.bind (run_opt f s xs) (\<lambda>s'. run_opt f s' ys)"
  by (induction xs arbitrary: s) (auto split: bind_splits)

lemma run_opt_invariant:
  "run_opt f s is = Some s' \<Longrightarrow> P s \<Longrightarrow> (\<And>s i s'. f s i = Some s' \<Longrightarrow> P s \<Longrightarrow> P s') \<Longrightarrow> P s'"
  by (induction "is" arbitrary: s) (auto simp: bind_eq_Some_conv)

locale recency =
  fixes touch :: "'s \<Rightarrow> 'i \<Rightarrow> 's option"
    and key :: "'i \<Rightarrow> 'a"
    and queue :: "'s \<Rightarrow> 'a list"
    and capacity :: "'s \<Rightarrow> nat"
    and ok :: "'s \<Rightarrow> bool"
  assumes ok_queue: "ok s \<Longrightarrow> distinct (queue s) \<and> length (queue s) \<le> capacity s"
    and touch_queue: "ok s \<Longrightarrow> \<exists>s'. touch s i = Some s' \<and> ok s' \<and> capacity s' = capacity s \<and>
      queue s' = last_n (capacity s) (remove1 (key i) (queue s) @ [key i])"
begin

lemma touches_queue:
  assumes "ok s"
  shows "\<exists>s'. run_opt touch s is = Some s' \<and> ok s' \<and> capacity s' = capacity s \<and>
    queue s' = last_n (capacity s) (remdups (queue s @ map key is))"
proof (induction "is" rule: rev_induct)
  case Nil
  from ok_queue [OF assms] assms show ?case by (simp add: last_n_short distinct_remdups_id)
next
  case (snoc i "is")
  then obtain s1 where s1: "run_opt touch s is = Some s1" "ok s1" "capacity s1 = capacity s"
    "queue s1 = last_n (capacity s) (remdups (queue s @ map key is))" by blast
  obtain s2 where s2: "touch s1 i = Some s2" "ok s2" "capacity s2 = capacity s1"
    "queue s2 = last_n (capacity s1) (remove1 (key i) (queue s1) @ [key i])"
    using touch_queue [OF s1(2)] by blast
  have "queue s2 = last_n (capacity s) (filter (\<lambda>y. y \<noteq> key i) (queue s1) @ [key i])"
    unfolding s2(4) s1(3) using ok_queue [OF s1(2)] by (simp add: remove1_filter)
  also have "\<dots> = last_n (capacity s) (remdups (queue s @ map key (is @ [i])))"
    unfolding s1(4) by (subst last_n_touch) (simp_all add: remdups_snoc flip: append_assoc)
  finally show ?case using s1 s2 by (simp add: run_opt_append)
qed

lemma touches_return: "ok s \<Longrightarrow> \<exists>s'. run_opt touch s is = Some s' \<and> ok s'"
  using touches_queue by blast

end

end
