(* ===== verification/KvArena.thy ===== *)
theory KvArena
  imports Recency "HOL-Library.Product_Lexorder"
begin

text \<open>
  The paged KV block arena: physical blocks (\<open>kv_arena/block.rs\<close>), the prefix index
  (\<open>kv_arena/prefix.rs\<close>), copy-on-write and LRU helpers (\<open>kv_arena/refcount.rs\<close>), the residency table
  (\<open>kv_arena/backend.rs\<close>), the arena with admission and eviction (\<open>kv_arena/mod.rs\<close>), and the compiled
  plan and runtime page of \<open>compute_image/kv_plan.rs\<close>.

  Reference counts are \<open>u64\<close> words that wrap, as the atomics do.  Block hashes are computed by the
  standard library's hasher and enter as \<open>u64\<close> values.  Sequence ids come from a global counter and
  enter as arguments.  \<open>None\<close> as the result of an arena operation is a panic.
\<close>

subsection \<open>Plans\<close>

datatype kv_dtype = Bf16 | F16 | F32 | Fp8E4M3 | Fp8E5M2 | KvInt8

datatype kv_layout = PagedBlocks | VirtualContiguousPagedPhysical

record prefix_key =
  pk_model_digest :: string
  pk_tokenizer_digest :: string
  pk_compile_digest :: string

definition prefix_key_new :: "string \<Rightarrow> string \<Rightarrow> string \<Rightarrow> prefix_key" where
  "prefix_key_new m t c = \<lparr>pk_model_digest = m, pk_tokenizer_digest = t, pk_compile_digest = c\<rparr>"

definition composite_key :: "prefix_key \<Rightarrow> string" where
  "composite_key k = pk_model_digest k @ '':'' @ pk_tokenizer_digest k @ '':'' @ pk_compile_digest k"

record kv_cache_plan =
  kp_block_tokens :: u32
  kp_max_blocks :: u32
  kp_kv_dtype :: kv_dtype
  kp_layout :: kv_layout
  kp_layer_partition :: "u32 list"
  kp_residency_domain :: string
  kp_prefix_key :: prefix_key
  kp_eviction_policy :: string
  kp_cow_policy :: string

definition plan_default :: kv_cache_plan where
  "plan_default = \<lparr>kp_block_tokens = 32, kp_max_blocks = 4096, kp_kv_dtype = Bf16,
     kp_layout = PagedBlocks, kp_layer_partition = [], kp_residency_domain = ''SharedUnified'',
     kp_prefix_key = prefix_key_new '''' '''' '''', kp_eviction_policy = ''lru'',
     kp_cow_policy = ''share_full''\<rparr>"

definition plan_apple :: kv_cache_plan where
  "plan_apple = plan_default\<lparr>kp_block_tokens := 32, kp_max_blocks := 8192, kp_kv_dtype := Bf16,
     kp_layout := VirtualContiguousPagedPhysical, kp_residency_domain := ''SharedUnified'',
     kp_eviction_policy := ''lru'', kp_cow_policy := ''share_full''\<rparr>"

definition plan_tensix :: kv_cache_plan where
  "plan_tensix = plan_default\<lparr>kp_block_tokens := 64, kp_max_blocks := 2048, kp_kv_dtype := Bf16,
     kp_layout := PagedBlocks, kp_residency_domain := ''DeviceLocal'',
     kp_eviction_policy := ''lru_refcount'', kp_cow_policy := ''copy_on_write''\<rparr>"

definition plan_cpu :: kv_cache_plan where
  "plan_cpu = plan_default\<lparr>kp_block_tokens := 16, kp_max_blocks := 16384, kp_kv_dtype := F32,
     kp_layout := PagedBlocks, kp_residency_domain := ''HostPageable''\<rparr>"

subsection \<open>Blocks\<close>

datatype backend_affinity = MlxMetal | CandleCpu | Tensix | IntelLevelZero | HostPinnedMem | Ane

record physical_block =
  pb_id :: u32
  pb_block_size :: nat
  pb_token_count :: u64
  pb_refcount :: u64
  pb_last_access_ns :: u64
  pb_backend :: backend_affinity

definition pb_new :: "u32 \<Rightarrow> nat \<Rightarrow> backend_affinity \<Rightarrow> physical_block" where
  "pb_new i block_size backend = \<lparr>pb_id = i, pb_block_size = block_size, pb_token_count = 0,
     pb_refcount = 1, pb_last_access_ns = 0, pb_backend = backend\<rparr>"

definition pb_touch :: "u64 \<Rightarrow> physical_block \<Rightarrow> physical_block" where
  "pb_touch now b = b\<lparr>pb_last_access_ns := now\<rparr>"

definition pb_is_full :: "physical_block \<Rightarrow> bool" where
  "pb_is_full b \<longleftrightarrow> word_of_nat (pb_block_size b) \<le> pb_token_count b"

definition pb_add_tokens :: "u64 \<Rightarrow> physical_block \<Rightarrow> physical_block" where
  "pb_add_tokens n b = b\<lparr>pb_token_count := pb_token_count b + n\<rparr>"

text \<open>\<open>fetch_sub\<close> and \<open>fetch_add\<close> wrap; the returned values are the ones the methods compute.\<close>

definition pb_dec_ref :: "physical_block \<Rightarrow> u64 \<times> physical_block" where
  "pb_dec_ref b = (sat_sub (pb_refcount b) 1, b\<lparr>pb_refcount := pb_refcount b - 1\<rparr>)"

definition pb_inc_ref :: "physical_block \<Rightarrow> u64 \<times> physical_block" where
  "pb_inc_ref b = (pb_refcount b + 1, b\<lparr>pb_refcount := pb_refcount b + 1\<rparr>)"

definition is_completely_free :: "physical_block \<Rightarrow> bool" where
  "is_completely_free b \<longleftrightarrow> pb_refcount b = 0"

record block_table_entry =
  bt_logical :: u32
  bt_physical :: u32
  bt_token_count :: u64
  bt_prefix_hash :: u64
  bt_is_dirty :: bool

type_synonym block_table = "block_table_entry list"

definition btab_push :: "block_table \<Rightarrow> block_table_entry \<Rightarrow> block_table" where
  "btab_push t e = t @ [e]"

definition btab_get :: "block_table \<Rightarrow> u32 \<Rightarrow> block_table_entry option" where
  "btab_get t logical = find (\<lambda>e. bt_logical e = logical) t"

definition btab_total_tokens :: "block_table \<Rightarrow> u64" where
  "btab_total_tokens t = sum_list (map bt_token_count t)"

definition btab_last_entry :: "block_table \<Rightarrow> block_table_entry option" where
  "btab_last_entry t = (if t = [] then None else Some (last t))"

text \<open>\<open>None\<close> is the division by zero.\<close>

definition tokens_to_blocks :: "nat \<Rightarrow> nat \<Rightarrow> nat option" where
  "tokens_to_blocks num_tokens block_size =
     (if block_size = 0 then None else Some ((num_tokens + block_size - 1) div block_size))"

subsection \<open>Prefix index\<close>

record prefix_index =
  px_index :: "(u64 \<times> u32) list"
  px_hits :: "(u64 \<times> u64) list"

definition px_new :: prefix_index where
  "px_new = \<lparr>px_index = [], px_hits = []\<rparr>"

definition or_insert :: "'k \<Rightarrow> 'v \<Rightarrow> ('k \<times> 'v) list \<Rightarrow> ('k \<times> 'v) list" where
  "or_insert k v al = (case map_of al k of None \<Rightarrow> AList.update k v al | Some _ \<Rightarrow> al)"

definition px_lookup :: "prefix_index \<Rightarrow> u64 \<Rightarrow> u32 option \<times> prefix_index" where
  "px_lookup x h = (case map_of (px_index x) h of
      Some block_id \<Rightarrow>
        let hits = or_insert h 0 (px_hits x) in
        (Some block_id, x\<lparr>px_hits := AList.update h (the (map_of hits h) + 1) hits\<rparr>)
    | None \<Rightarrow> (None, x))"

definition px_insert :: "prefix_index \<Rightarrow> u64 \<Rightarrow> u32 \<Rightarrow> prefix_index" where
  "px_insert x h block_id =
     x\<lparr>px_index := AList.update h block_id (px_index x), px_hits := or_insert h 0 (px_hits x)\<rparr>"

definition px_remove :: "prefix_index \<Rightarrow> u64 \<Rightarrow> prefix_index" where
  "px_remove x h = x\<lparr>px_index := AList.delete h (px_index x), px_hits := AList.delete h (px_hits x)\<rparr>"

definition px_clear :: "prefix_index \<Rightarrow> prefix_index" where
  "px_clear x = x\<lparr>px_index := [], px_hits := []\<rparr>"

subsection \<open>Copy on write, LRU tracking, residency\<close>

definition is_shareable :: "u64 \<Rightarrow> bool" where
  "is_shareable refcount \<longleftrightarrow> 1 < refcount"

definition prepare_write :: "physical_block \<Rightarrow> bool \<times> physical_block" where
  "prepare_write b = (if 1 < pb_refcount b then (True, snd (pb_dec_ref b)) else (False, b))"

record lru_tracker =
  lt_queue :: "u32 list"
  lt_capacity :: nat

definition lt_new :: "nat \<Rightarrow> lru_tracker" where
  "lt_new capacity = \<lparr>lt_queue = [], lt_capacity = capacity\<rparr>"

text \<open>\<open>position\<close> and \<open>remove\<close> take out the first occurrence; the trimming loop drops from the front.\<close>

definition lt_touch :: "lru_tracker \<Rightarrow> u32 \<Rightarrow> lru_tracker" where
  "lt_touch t block_id = (let q = remove1 block_id (lt_queue t) @ [block_id] in
     t\<lparr>lt_queue := drop (length q - lt_capacity t) q\<rparr>)"

definition lt_evict_candidate :: "lru_tracker \<Rightarrow> u32 option" where
  "lt_evict_candidate t = (case lt_queue t of [] \<Rightarrow> None | x # xs \<Rightarrow> Some x)"

definition lt_remove :: "lru_tracker \<Rightarrow> u32 \<Rightarrow> lru_tracker" where
  "lt_remove t block_id = t\<lparr>lt_queue := remove1 block_id (lt_queue t)\<rparr>"

datatype memory_domain = HostPageable | HostPinned | SharedUnified | DeviceLocal | MappedExternal
  | Borrowed

record block_residency =
  br_block :: u32
  br_backend :: backend_affinity
  br_memory_domain :: memory_domain
  br_device_ptr :: "u64 option"
  br_byte_size :: u64

definition br_new :: "u32 \<Rightarrow> backend_affinity \<Rightarrow> u64 \<Rightarrow> block_residency" where
  "br_new block backend byte_size = \<lparr>br_block = block, br_backend = backend,
     br_memory_domain = (case backend of
        MlxMetal \<Rightarrow> SharedUnified | CandleCpu \<Rightarrow> HostPageable | Tensix \<Rightarrow> DeviceLocal
      | IntelLevelZero \<Rightarrow> SharedUnified | HostPinnedMem \<Rightarrow> HostPinned | Ane \<Rightarrow> MappedExternal),
     br_device_ptr = None, br_byte_size = byte_size\<rparr>"

type_synonym residency_table = "block_residency list"

definition rt_insert :: "residency_table \<Rightarrow> block_residency \<Rightarrow> residency_table" where
  "rt_insert t r = t @ [r]"

definition rt_get :: "residency_table \<Rightarrow> u32 \<Rightarrow> block_residency option" where
  "rt_get t block = find (\<lambda>r. br_block r = block) t"

definition rt_remove :: "residency_table \<Rightarrow> u32 \<Rightarrow> residency_table" where
  "rt_remove t block = filter (\<lambda>r. br_block r \<noteq> block) t"

definition rt_total_memory_bytes :: "residency_table \<Rightarrow> u64" where
  "rt_total_memory_bytes t = sum_list (map br_byte_size t)"

subsection \<open>The arena\<close>

datatype arena_error =
    CapacityExceeded (ce_requested: nat) (ce_available: nat) (ce_total: nat)
  | BackendMismatch backend_affinity backend_affinity
  | OutOfMemory nat nat

record logical_table =
  lb_sequence_id :: u64
  lb_logical_to_physical :: "u32 list"
  lb_token_count :: u64
  lb_max_blocks :: nat

definition lb_new :: "u64 \<Rightarrow> nat \<Rightarrow> logical_table" where
  "lb_new seq max_blocks = \<lparr>lb_sequence_id = seq, lb_logical_to_physical = [],
     lb_token_count = 0, lb_max_blocks = max_blocks\<rparr>"

definition lb_translate :: "logical_table \<Rightarrow> u32 \<Rightarrow> u32 option" where
  "lb_translate t logical = (let i = unat logical in
     if i < length (lb_logical_to_physical t) then Some (lb_logical_to_physical t ! i) else None)"

definition lb_append :: "logical_table \<Rightarrow> u32 \<Rightarrow> logical_table" where
  "lb_append t physical = t\<lparr>lb_logical_to_physical := lb_logical_to_physical t @ [physical]\<rparr>"

definition lb_last_physical :: "logical_table \<Rightarrow> u32 option" where
  "lb_last_physical t = (if lb_logical_to_physical t = [] then None
     else Some (last (lb_logical_to_physical t)))"

record admission_receipt =
  ar_sequence_id :: u64
  ar_allocated_blocks :: "u32 list"
  ar_total_tokens :: u64
  ar_total_blocks :: nat
  ar_bytes_allocated :: u64
  ar_prefix_hits :: nat
  ar_new_blocks :: nat

record kv_arena =
  ka_blocks :: "physical_block list"
  ka_free_list :: "nat list"
  ka_block_size :: nat
  ka_capacity :: nat
  ka_backend :: backend_affinity
  ka_prefix_cache :: prefix_index
  ka_residency :: residency_table
  ka_logical_tables :: "logical_table list"
  ka_eviction_policy :: string
  ka_cow_policy :: string

definition arena_from_plan :: "kv_cache_plan \<Rightarrow> backend_affinity \<Rightarrow> kv_arena" where
  "arena_from_plan plan backend = \<lparr>ka_blocks = [], ka_free_list = [],
     ka_block_size = unat (kp_block_tokens plan), ka_capacity = unat (kp_max_blocks plan),
     ka_backend = backend, ka_prefix_cache = px_new, ka_residency = [], ka_logical_tables = [],
     ka_eviction_policy = kp_eviction_policy plan, ka_cow_policy = kp_cow_policy plan\<rparr>"

definition arena_new :: "nat \<Rightarrow> nat \<Rightarrow> backend_affinity \<Rightarrow> kv_arena" where
  "arena_new block_size capacity backend = arena_from_plan
     (plan_default\<lparr>kp_block_tokens := word_of_nat block_size, kp_max_blocks := word_of_nat capacity\<rparr>)
     backend"

text \<open>\<open>min_by_key\<close>: the first of the least elements.\<close>

definition min_by_key :: "('a \<Rightarrow> 'k::linorder) \<Rightarrow> 'a list \<Rightarrow> 'a option" where
  "min_by_key key xs = (case xs of [] \<Rightarrow> None | _ \<Rightarrow> Some (arg_min_list key xs))"

definition evictable :: "kv_arena \<Rightarrow> nat list" where
  "evictable a = filter (\<lambda>i. is_completely_free (ka_blocks a ! i) \<and> i \<notin> set (ka_free_list a))
     [0..<length (ka_blocks a)]"

definition evict_one :: "kv_arena \<Rightarrow> u32 option \<times> kv_arena" where
  "evict_one a = (
     let choice =
       (if ka_eviction_policy a = ''fifo'' then min_by_key (\<lambda>i. i) (evictable a)
        else if ka_eviction_policy a = ''lru_refcount'' then
          min_by_key (\<lambda>i. (pb_refcount (ka_blocks a ! i), pb_last_access_ns (ka_blocks a ! i))) (evictable a)
        else min_by_key (\<lambda>i. pb_last_access_ns (ka_blocks a ! i)) (evictable a)) in
     case choice of
       None \<Rightarrow> (None, a)
     | Some idx \<Rightarrow>
         let block = ka_blocks a ! idx in
         (Some (pb_id block),
          a\<lparr>ka_prefix_cache := px_remove (ka_prefix_cache a) (ucast (pb_id block)),
            ka_free_list := ka_free_list a @ [idx]\<rparr>))"

text \<open>\<open>free_list.pop()\<close> followed by the reinitialisation of the slot; \<open>None\<close> is the index panic.\<close>

definition recycle_last :: "kv_arena \<Rightarrow> (u32 \<times> kv_arena) option" where
  "recycle_last a = (
     let idx = last (ka_free_list a); i = word_of_nat idx in
     if idx < length (ka_blocks a) then
       Some (i, a\<lparr>ka_free_list := butlast (ka_free_list a),
         ka_blocks := (ka_blocks a)[idx := pb_new i (ka_block_size a) (ka_backend a)]\<rparr>)
     else None)"

definition try_allocate :: "kv_arena \<Rightarrow> ((arena_error + u32) \<times> kv_arena) option" where
  "try_allocate a = (
     if ka_free_list a \<noteq> [] then map_option (\<lambda>(i, a'). (Inr i, a')) (recycle_last a)
     else if ka_capacity a \<le> length (ka_blocks a) then
       (case evict_one a of
          (Some _, a') \<Rightarrow> map_option (\<lambda>(i, a''). (Inr i, a'')) (recycle_last a')
        | (None, a') \<Rightarrow> Some (Inl (CapacityExceeded 1 0 (ka_capacity a)), a'))
     else
       let i = word_of_nat (length (ka_blocks a)) in
       Some (Inr i, a\<lparr>ka_blocks := ka_blocks a @ [pb_new i (ka_block_size a) (ka_backend a)]\<rparr>))"

definition release :: "kv_arena \<Rightarrow> u32 \<Rightarrow> kv_arena" where
  "release a i = (
     let idx = unat i in
     if length (ka_blocks a) \<le> idx then a
     else
       let b = snd (pb_dec_ref (ka_blocks a ! idx));
           a1 = a\<lparr>ka_blocks := (ka_blocks a)[idx := b]\<rparr> in
       if is_completely_free b then a1\<lparr>ka_free_list := ka_free_list a1 @ [idx]\<rparr> else a1)"

text \<open>\<open>None\<close> is the panic \<open>out of blocks even with eviction\<close>.\<close>

definition allocate_prefixed :: "kv_arena \<Rightarrow> u64 \<Rightarrow> (u32 \<times> kv_arena) option" where
  "allocate_prefixed a h = (case px_lookup (ka_prefix_cache a) h of
      (Some cached_id, px) \<Rightarrow>
        let a1 = a\<lparr>ka_prefix_cache := px\<rparr> in
        (case find_idx (\<lambda>b. pb_id b = cached_id) (ka_blocks a1) of
           Some k \<Rightarrow> Some (cached_id,
             a1\<lparr>ka_blocks := (ka_blocks a1)[k := snd (pb_inc_ref (ka_blocks a1 ! k))]\<rparr>)
         | None \<Rightarrow> Some (cached_id, a1))
    | (None, px) \<Rightarrow>
        let register = (\<lambda>i a'. (i, a'\<lparr>ka_prefix_cache := px_insert (ka_prefix_cache a') h i\<rparr>)) in
        (case try_allocate (a\<lparr>ka_prefix_cache := px\<rparr>) of
           None \<Rightarrow> None
         | Some (Inr i, a') \<Rightarrow> Some (register i a')
         | Some (Inl _, a') \<Rightarrow>
             (case try_allocate (snd (evict_one a')) of
                Some (Inr i, a'') \<Rightarrow> Some (register i a'')
              | _ \<Rightarrow> None)))"

text \<open>The allocation loop of \<open>admit_sequence\<close>.\<close>

fun allocate_n :: "nat \<Rightarrow> kv_arena \<Rightarrow> ((arena_error + u32 list) \<times> kv_arena) option" where
  "allocate_n 0 a = Some (Inr [], a)"
| "allocate_n (Suc n) a = (case try_allocate a of
      None \<Rightarrow> None
    | Some (Inl e, a') \<Rightarrow> Some (Inl e, a')
    | Some (Inr i, a') \<Rightarrow> (case allocate_n n a' of
          None \<Rightarrow> None
        | Some (Inl e, a'') \<Rightarrow> Some (Inl e, a'')
        | Some (Inr is, a'') \<Rightarrow> Some (Inr (i # is), a'')))"

definition admit_sequence ::
  "u64 \<Rightarrow> kv_arena \<Rightarrow> u32 \<Rightarrow> ((arena_error + admission_receipt) \<times> kv_arena) option" where
  "admit_sequence seq a token_count = (
     case tokens_to_blocks (unat token_count) (ka_block_size a) of
       None \<Rightarrow> None
     | Some blocks_needed \<Rightarrow> (case allocate_n blocks_needed a of
           None \<Rightarrow> None
         | Some (Inl e, a') \<Rightarrow> Some (Inl e, a')
         | Some (Inr allocated, a') \<Rightarrow>
             let table = (foldl lb_append (lb_new seq (ka_capacity a')) allocated)
                   \<lparr>lb_token_count := ucast token_count\<rparr>;
                 bytes_per_block = word_of_nat (ka_block_size a' * 4 * 2) in
             Some (Inr \<lparr>ar_sequence_id = seq, ar_allocated_blocks = allocated,
                 ar_total_tokens = ucast token_count, ar_total_blocks = blocks_needed,
                 ar_bytes_allocated = word_of_nat (length allocated) * bytes_per_block,
                 ar_prefix_hits = 0, ar_new_blocks = blocks_needed\<rparr>,
               a'\<lparr>ka_logical_tables := ka_logical_tables a' @ [table]\<rparr>)))"

definition available_blocks :: "kv_arena \<Rightarrow> nat" where
  "available_blocks a = (ka_capacity a - length (ka_blocks a)) + length (ka_free_list a)"

definition get_logical_table :: "kv_arena \<Rightarrow> u64 \<Rightarrow> logical_table option" where
  "get_logical_table a seq = find (\<lambda>t. lb_sequence_id t = seq) (ka_logical_tables a)"

subsection \<open>Runtime pages\<close>

datatype kv_state = Unallocated | Allocated | Primed | Decoding | Synchronized | Invalidated | Released

record runtime_page =
  rp_state :: kv_state
  rp_counter :: u64

definition rp_new :: runtime_page where
  "rp_new = \<lparr>rp_state = Unallocated, rp_counter = 0\<rparr>"

text \<open>\<open>None\<close> is a failed assertion.\<close>

definition rp_allocate :: "runtime_page \<Rightarrow> runtime_page option" where
  "rp_allocate p = (if rp_state p = Unallocated then Some (p\<lparr>rp_state := Allocated\<rparr>) else None)"

definition rp_prime :: "runtime_page \<Rightarrow> runtime_page option" where
  "rp_prime p = (if rp_state p = Allocated then Some (p\<lparr>rp_state := Primed\<rparr>) else None)"

definition validate_then_prepare :: "runtime_page \<Rightarrow> bool \<times> runtime_page" where
  "validate_then_prepare p = (if rp_state p = Primed \<or> rp_state p = Synchronized
     then (True, p\<lparr>rp_state := Decoding, rp_counter := rp_counter p + 1\<rparr>) else (False, p))"

definition rp_append :: "runtime_page \<Rightarrow> runtime_page option" where
  "rp_append p = (if rp_state p = Decoding then Some (p\<lparr>rp_state := Synchronized\<rparr>) else None)"

definition rp_rollback :: "runtime_page \<Rightarrow> runtime_page" where
  "rp_rollback p = (if rp_state p = Decoding \<or> rp_state p = Synchronized
     then p\<lparr>rp_state := Primed, rp_counter := rp_counter p - 1\<rparr> else p)"

definition rp_release :: "runtime_page \<Rightarrow> runtime_page" where
  "rp_release p = p\<lparr>rp_state := Released\<rparr>"

subsection \<open>Well-formed arenas\<close>

definition live_blocks :: "kv_arena \<Rightarrow> nat set" where
  "live_blocks a = {i. i < length (ka_blocks a) \<and> pb_refcount (ka_blocks a ! i) \<noteq> 0}"

text \<open>
  Blocks carry their index as id, no more blocks exist than the capacity allows, and the free list
  holds each unreferenced block exactly once.
\<close>

definition wf_arena :: "kv_arena \<Rightarrow> bool" where
  "wf_arena a \<longleftrightarrow> length (ka_blocks a) \<le> ka_capacity a \<and> ka_capacity a < 2 ^ 32 \<and>
     (\<forall>i < length (ka_blocks a). pb_id (ka_blocks a ! i) = word_of_nat i) \<and>
     distinct (ka_free_list a) \<and>
     set (ka_free_list a) = {..<length (ka_blocks a)} - live_blocks a"

lemma live_blocks_less: "i \<in> live_blocks a \<Longrightarrow> i < length (ka_blocks a)"
  by (simp add: live_blocks_def)

lemma finite_live [simp]: "finite (live_blocks a)"
  by (rule finite_subset [of _ "{..<length (ka_blocks a)}"]) (auto simp: live_blocks_def)

lemma wf_id: "wf_arena a \<Longrightarrow> i < length (ka_blocks a) \<Longrightarrow> unat (word_of_nat i :: u32) = i"
  by (rule unat_of_nat_u32) (simp add: wf_arena_def)

lemma evictable_wf: "wf_arena a \<Longrightarrow> evictable a = []"
  by (auto simp: evictable_def filter_empty_conv wf_arena_def live_blocks_def is_completely_free_def)

lemma evict_one_wf: "wf_arena a \<Longrightarrow> evict_one a = (None, a)"
  by (simp add: evict_one_def evictable_wf min_by_key_def)

lemma pb_new_simps [simp]: "pb_refcount (pb_new i bs be) = 1" "pb_id (pb_new i bs be) = i"
  by (simp_all add: pb_new_def)

text \<open>What an allocation does to a well-formed arena.\<close>

lemma try_allocate_wf:
  assumes wf: "wf_arena a"
  shows "(\<exists>idx a'. try_allocate a = Some (Inr (word_of_nat idx), a') \<and> idx < ka_capacity a \<and>
      idx \<notin> live_blocks a \<and> wf_arena a' \<and> live_blocks a' = insert idx (live_blocks a) \<and>
      pb_refcount (ka_blocks a' ! idx) = 1 \<and> idx < length (ka_blocks a') \<and>
      length (ka_blocks a) \<le> length (ka_blocks a') \<and>
      (\<forall>i < length (ka_blocks a). i \<noteq> idx \<longrightarrow> ka_blocks a' ! i = ka_blocks a ! i) \<and>
      ka_capacity a' = ka_capacity a \<and> ka_block_size a' = ka_block_size a \<and>
      ka_logical_tables a' = ka_logical_tables a \<and> ka_prefix_cache a' = ka_prefix_cache a) \<or>
    try_allocate a = Some (Inl (CapacityExceeded 1 0 (ka_capacity a)), a) \<and>
      card (live_blocks a) = ka_capacity a"
proof (cases "ka_free_list a = []")
  case False
  let ?idx = "last (ka_free_list a)"
  let ?a' = "a\<lparr>ka_free_list := butlast (ka_free_list a),
      ka_blocks := (ka_blocks a)[?idx := pb_new (word_of_nat ?idx) (ka_block_size a) (ka_backend a)]\<rparr>"
  have "?idx \<in> set (ka_free_list a)" using False by simp
  then have idx: "?idx < length (ka_blocks a)" "?idx \<notin> live_blocks a"
    using wf by (auto simp: wf_arena_def)
  have live: "live_blocks ?a' = insert ?idx (live_blocks a)"
    using idx by (auto simp: live_blocks_def nth_list_update)
  have fl: "ka_free_list a = butlast (ka_free_list a) @ [?idx]" using False by simp
  have "distinct (butlast (ka_free_list a) @ [?idx])" "set (butlast (ka_free_list a) @ [?idx]) =
      {..<length (ka_blocks a)} - live_blocks a"
    using wf fl unfolding wf_arena_def by simp_all
  then have fs: "distinct (butlast (ka_free_list a))"
    "set (butlast (ka_free_list a)) = {..<length (ka_blocks a)} - live_blocks a - {?idx}"
    by auto
  have "wf_arena ?a'"
    using wf fs live idx(1) unfolding wf_arena_def by (auto simp: nth_list_update)
  then show ?thesis
    using False idx live wf
    by (intro disjI1 exI [of _ ?idx] exI [of _ ?a'])
      (simp add: try_allocate_def recycle_last_def Let_def wf_arena_def)
next
  case True
  then have all_live: "live_blocks a = {..<length (ka_blocks a)}"
    using wf by (auto simp: wf_arena_def live_blocks_def)
  show ?thesis
  proof (cases "ka_capacity a \<le> length (ka_blocks a)")
    case full: True
    then have "card (live_blocks a) = ka_capacity a" using all_live wf by (simp add: wf_arena_def)
    then show ?thesis using True full evict_one_wf [OF wf] by (simp add: try_allocate_def)
  next
    case room: False
    let ?n = "length (ka_blocks a)"
    let ?a' = "a\<lparr>ka_blocks := ka_blocks a @ [pb_new (word_of_nat ?n) (ka_block_size a) (ka_backend a)]\<rparr>"
    have live: "live_blocks ?a' = insert ?n (live_blocks a)"
      by (auto simp: live_blocks_def nth_append)
    have "wf_arena ?a'"
      using wf room True live all_live unfolding wf_arena_def
      by (auto simp: nth_append less_Suc_eq)
    then show ?thesis
      using True room live all_live
      by (intro disjI1 exI [of _ ?n] exI [of _ ?a']) (simp add: try_allocate_def Let_def nth_append)
  qed
qed

lemma release_wf:
  assumes wf: "wf_arena a" and l: "unat i \<in> live_blocks a"
  shows "wf_arena (release a i)"
    "live_blocks (release a i) =
      (if pb_refcount (ka_blocks a ! unat i) = 1 then live_blocks a - {unat i} else live_blocks a)"
proof -
  let ?k = "unat i"
  let ?b = "snd (pb_dec_ref (ka_blocks a ! ?k))"
  have k: "?k < length (ka_blocks a)" "pb_refcount (ka_blocks a ! ?k) \<noteq> 0"
    using l by (auto simp: live_blocks_def)
  have b: "pb_refcount ?b = pb_refcount (ka_blocks a ! ?k) - 1" "pb_id ?b = pb_id (ka_blocks a ! ?k)"
    by (simp_all add: pb_dec_ref_def)
  have notin: "?k \<notin> set (ka_free_list a)" using wf l by (auto simp: wf_arena_def)
  show live: "live_blocks (release a i) =
      (if pb_refcount (ka_blocks a ! ?k) = 1 then live_blocks a - {?k} else live_blocks a)"
    using k b by (auto simp: release_def Let_def live_blocks_def is_completely_free_def nth_list_update
        split: if_splits)
  show "wf_arena (release a i)"
  proof (cases "pb_refcount (ka_blocks a ! ?k) = 1")
    case True
    then have r: "release a i = a\<lparr>ka_blocks := (ka_blocks a)[?k := ?b], ka_free_list := ka_free_list a @ [?k]\<rparr>"
      using k b by (simp add: release_def Let_def is_completely_free_def)
    have "live_blocks (a\<lparr>ka_blocks := (ka_blocks a)[?k := ?b], ka_free_list := ka_free_list a @ [?k]\<rparr>) =
        live_blocks a - {?k}"
      using live True unfolding r by simp
    then show ?thesis
      using wf k b(2) notin l unfolding r wf_arena_def by (auto simp: nth_list_update)
  next
    case False
    then have r: "release a i = a\<lparr>ka_blocks := (ka_blocks a)[?k := ?b]\<rparr>"
      using k b by (simp add: release_def Let_def is_completely_free_def)
    have "live_blocks (a\<lparr>ka_blocks := (ka_blocks a)[?k := ?b]\<rparr>) = live_blocks a"
      using live False unfolding r by simp
    then show ?thesis
      using wf k b(2) unfolding r wf_arena_def by (auto simp: nth_list_update)
  qed
qed

lemma arena_new_wf:
  assumes "capacity < 2 ^ 32"
  shows "wf_arena (arena_new bs capacity be)" "live_blocks (arena_new bs capacity be) = {}"
    "ka_capacity (arena_new bs capacity be) = capacity"
  using assms
  by (auto simp: arena_new_def arena_from_plan_def wf_arena_def live_blocks_def unat_of_nat_u32)

lemma wf_live_card: "wf_arena a \<Longrightarrow> card (live_blocks a) \<le> ka_capacity a"
proof -
  assume wf: "wf_arena a"
  have "card (live_blocks a) \<le> card {..<length (ka_blocks a)}"
    by (rule card_mono) (auto simp: live_blocks_def)
  then show ?thesis using wf by (simp add: wf_arena_def)
qed

lemma allocate_n_wf:
  assumes "wf_arena a"
  shows "(if card (live_blocks a) + n \<le> ka_capacity a then
      \<exists>idxs a'. allocate_n n a = Some (Inr (map word_of_nat idxs), a') \<and> length idxs = n \<and>
        distinct idxs \<and> set idxs \<inter> live_blocks a = {} \<and> wf_arena a' \<and>
        (\<forall>i \<in> set idxs. i < ka_capacity a) \<and>
        live_blocks a' = live_blocks a \<union> set idxs \<and> ka_capacity a' = ka_capacity a \<and>
        ka_block_size a' = ka_block_size a \<and> ka_logical_tables a' = ka_logical_tables a
    else \<exists>a'. allocate_n n a = Some (Inl (CapacityExceeded 1 0 (ka_capacity a)), a') \<and> wf_arena a' \<and>
        live_blocks a \<subseteq> live_blocks a' \<and> card (live_blocks a') = ka_capacity a \<and>
        ka_capacity a' = ka_capacity a \<and> ka_logical_tables a' = ka_logical_tables a)"
  using assms
proof (induction n arbitrary: a)
  case 0
  then show ?case using wf_live_card [OF 0] by (intro if_P [THEN iffD2]) auto
next
  case (Suc n)
  from try_allocate_wf [OF Suc.prems] show ?case
  proof (elim disjE)
    assume "\<exists>idx a'. try_allocate a = Some (Inr (word_of_nat idx), a') \<and> idx < ka_capacity a \<and>
      idx \<notin> live_blocks a \<and> wf_arena a' \<and> live_blocks a' = insert idx (live_blocks a) \<and>
      pb_refcount (ka_blocks a' ! idx) = 1 \<and> idx < length (ka_blocks a') \<and>
      length (ka_blocks a) \<le> length (ka_blocks a') \<and>
      (\<forall>i < length (ka_blocks a). i \<noteq> idx \<longrightarrow> ka_blocks a' ! i = ka_blocks a ! i) \<and>
      ka_capacity a' = ka_capacity a \<and> ka_block_size a' = ka_block_size a \<and>
      ka_logical_tables a' = ka_logical_tables a \<and> ka_prefix_cache a' = ka_prefix_cache a"
    then obtain idx a1 where a1: "try_allocate a = Some (Inr (word_of_nat idx), a1)" "idx < ka_capacity a"
      "idx \<notin> live_blocks a" "wf_arena a1" "live_blocks a1 = insert idx (live_blocks a)"
      "ka_capacity a1 = ka_capacity a" "ka_block_size a1 = ka_block_size a"
      "ka_logical_tables a1 = ka_logical_tables a" by blast
    have card: "card (live_blocks a1) = Suc (card (live_blocks a))" using a1(3,5) by simp
    show ?case
    proof (cases "card (live_blocks a) + Suc n \<le> ka_capacity a")
      case True
      then have "card (live_blocks a1) + n \<le> ka_capacity a1" using card a1(6) by simp
      with Suc.IH [OF a1(4)] obtain idxs a2 where a2: "allocate_n n a1 = Some (Inr (map word_of_nat idxs), a2)"
        "length idxs = n" "distinct idxs" "set idxs \<inter> live_blocks a1 = {}" "wf_arena a2"
        "\<forall>i \<in> set idxs. i < ka_capacity a1" "live_blocks a2 = live_blocks a1 \<union> set idxs"
        "ka_capacity a2 = ka_capacity a1" "ka_block_size a2 = ka_block_size a1"
        "ka_logical_tables a2 = ka_logical_tables a1" by auto
      have "\<exists>idxs a'. allocate_n (Suc n) a = Some (Inr (map word_of_nat idxs), a') \<and> length idxs = Suc n \<and>
        distinct idxs \<and> set idxs \<inter> live_blocks a = {} \<and> wf_arena a' \<and>
        (\<forall>i \<in> set idxs. i < ka_capacity a) \<and>
        live_blocks a' = live_blocks a \<union> set idxs \<and> ka_capacity a' = ka_capacity a \<and>
        ka_block_size a' = ka_block_size a \<and> ka_logical_tables a' = ka_logical_tables a"
        using a1 a2 by (intro exI [of _ "idx # idxs"] exI [of _ a2]) auto
      with True show ?thesis by simp
    next
      case False
      then have "\<not> card (live_blocks a1) + n \<le> ka_capacity a1" using card a1(6) by simp
      with Suc.IH [OF a1(4)] obtain a2 where
        "allocate_n n a1 = Some (Inl (CapacityExceeded 1 0 (ka_capacity a1)), a2)" "wf_arena a2"
        "live_blocks a1 \<subseteq> live_blocks a2" "card (live_blocks a2) = ka_capacity a1"
        "ka_capacity a2 = ka_capacity a1" "ka_logical_tables a2 = ka_logical_tables a1" by auto
      with a1 False show ?thesis by auto
    qed
  next
    assume "try_allocate a = Some (Inl (CapacityExceeded 1 0 (ka_capacity a)), a) \<and>
      card (live_blocks a) = ka_capacity a"
    then show ?case using Suc.prems by simp
  qed
qed

lemma foldl_lb_append [simp]:
  "lb_logical_to_physical (foldl lb_append t is) = lb_logical_to_physical t @ is"
  "lb_sequence_id (foldl lb_append t is) = lb_sequence_id t"
  by (induction "is" arbitrary: t) (simp_all add: lb_append_def)

lemma tokens_to_blocks_ceil:
  assumes "0 < bs" "tokens_to_blocks n bs = Some k"
  shows "n \<le> k * bs" "0 < n \<Longrightarrow> (k - 1) * bs < n"
proof -
  have k: "k = (n + bs - 1) div bs" using assms by (simp add: tokens_to_blocks_def)
  have d: "n + bs - 1 = k * bs + (n + bs - 1) mod bs" "(n + bs - 1) mod bs < bs"
    using assms(1) k by simp_all
  then show "n \<le> k * bs" by linarith
  show "(k - 1) * bs < n" if "0 < n"
  proof -
    have "k * bs < n + bs" using d that assms(1) by linarith
    then show ?thesis using that by (cases k) simp_all
  qed
qed

subsection \<open>Properties of the arena\<close>

text \<open>C6: allocation from a well-formed arena hands out a block that nobody holds, with reference count
  one, and leaves every other block alone; it fails, changing nothing, exactly when all blocks up to
  the capacity are referenced; it never panics, and the arena stays well formed.\<close>

theorem try_allocate_fresh:
  assumes "wf_arena a"
  shows "case try_allocate a of
      None \<Rightarrow> False
    | Some (Inl e, a') \<Rightarrow> a' = a \<and> card (live_blocks a) = ka_capacity a
    | Some (Inr i, a') \<Rightarrow> unat i \<notin> live_blocks a \<and> card (live_blocks a) < ka_capacity a \<and> wf_arena a' \<and>
        live_blocks a' = insert (unat i) (live_blocks a) \<and> pb_refcount (ka_blocks a' ! unat i) = 1 \<and>
        (\<forall>k < length (ka_blocks a). k \<noteq> unat i \<longrightarrow> ka_blocks a' ! k = ka_blocks a ! k)"
  using try_allocate_wf [OF assms]
proof (elim disjE exE conjE)
  fix idx a'
  assume r: "try_allocate a = Some (Inr (word_of_nat idx), a')" "wf_arena a'" "idx < length (ka_blocks a')"
    "idx \<notin> live_blocks a" "live_blocks a' = insert idx (live_blocks a)"
    "pb_refcount (ka_blocks a' ! idx) = 1" "ka_capacity a' = ka_capacity a"
    "\<forall>i < length (ka_blocks a). i \<noteq> idx \<longrightarrow> ka_blocks a' ! i = ka_blocks a ! i"
  have u: "unat (word_of_nat idx :: u32) = idx" by (rule wf_id [OF r(2,3)])
  have "card (live_blocks a') \<le> ka_capacity a'" by (rule wf_live_card [OF r(2)])
  then have "card (live_blocks a) < ka_capacity a" using r(4,5,7) by simp
  with r u show ?thesis by simp
qed simp

lemma try_allocate_fresh_witness:
  "case try_allocate (arena_new 32 2 MlxMetal) of
      Some (Inr i, a') \<Rightarrow> wf_arena a' \<and> live_blocks a' = {unat i}
    | _ \<Rightarrow> False"
  using try_allocate_fresh [of "arena_new 32 2 MlxMetal"] arena_new_wf [of 2 32 MlxMetal]
  by (auto split: option.splits sum.splits prod.splits)

text \<open>C7: admission is all or nothing in what it reports: with a positive block size it succeeds exactly
  when the blocks the tokens need (rounded up) are still available, and then hands out that many
  distinct unreferenced blocks and records them in a new logical table.\<close>

theorem admit_sequence_spec:
  assumes "wf_arena a" "0 < ka_block_size a" "tokens_to_blocks (unat n) (ka_block_size a) = Some k"
    "card (live_blocks a) + k \<le> ka_capacity a"
  shows "\<exists>r a'. admit_sequence seq a n = Some (Inr r, a') \<and> wf_arena a' \<and>
    length (ar_allocated_blocks r) = k \<and> distinct (ar_allocated_blocks r) \<and>
    unat ` set (ar_allocated_blocks r) \<inter> live_blocks a = {} \<and>
    live_blocks a' = live_blocks a \<union> unat ` set (ar_allocated_blocks r) \<and>
    unat n \<le> k * ka_block_size a \<and>
    (\<exists>t. ka_logical_tables a' = ka_logical_tables a @ [t] \<and> lb_sequence_id t = seq \<and>
       lb_logical_to_physical t = ar_allocated_blocks r \<and> lb_token_count t = ucast n)"
proof -
  from allocate_n_wf [OF assms(1), of k] assms(4) obtain idxs a' where
    r: "allocate_n k a = Some (Inr (map word_of_nat idxs), a')" "length idxs = k" "distinct idxs"
      "set idxs \<inter> live_blocks a = {}" "wf_arena a'" "\<forall>i \<in> set idxs. i < ka_capacity a"
      "live_blocks a' = live_blocks a \<union> set idxs" "ka_logical_tables a' = ka_logical_tables a"
    by auto
  have cap: "ka_capacity a < 2 ^ 32" using assms(1) by (simp add: wf_arena_def)
  have u: "unat (word_of_nat i :: u32) = i" if "i \<in> set idxs" for i
    using r(6) that cap by (intro unat_of_nat_u32) auto
  then have inj: "inj_on (word_of_nat :: nat \<Rightarrow> u32) (set idxs)" by (metis inj_onI)
  have im: "unat ` set (map word_of_nat idxs :: u32 list) = set idxs"
    using u by (auto simp: image_image)
  have wf': "wf_arena (a'\<lparr>ka_logical_tables := ts\<rparr>) = wf_arena a'"
    "live_blocks (a'\<lparr>ka_logical_tables := ts\<rparr>) = live_blocks a'" for ts
    by (simp_all add: wf_arena_def live_blocks_def)
  show ?thesis
    using assms(2,3) r inj im wf' tokens_to_blocks_ceil(1) [OF assms(2,3)]
    by (simp add: admit_sequence_def distinct_map Let_def lb_new_def)
qed

lemma admit_sequence_spec_witness:
  "\<exists>r a'. admit_sequence 1 (arena_new 32 4 MlxMetal) 100 = Some (Inr r, a') \<and>
    length (ar_allocated_blocks r) = 4 \<and> distinct (ar_allocated_blocks r)"
proof -
  have "ka_block_size (arena_new 32 4 MlxMetal) = 32"
    by (simp add: arena_new_def arena_from_plan_def)
  then have "tokens_to_blocks (unat (100 :: u32)) (ka_block_size (arena_new 32 4 MlxMetal)) = Some 4"
    by (simp add: tokens_to_blocks_def)
  with admit_sequence_spec [of "arena_new 32 4 MlxMetal" 100 4 1] arena_new_wf [of 4 32 MlxMetal]
    \<open>ka_block_size _ = 32\<close>
  show ?thesis by auto
qed

text \<open>a rejected admission leaks: the blocks it had already taken stay referenced although no
  logical table mentions them, so after it every block of the arena is referenced.\<close>

theorem admit_rejection_leaks:
  assumes "wf_arena a" "tokens_to_blocks (unat n) (ka_block_size a) = Some k"
    "ka_capacity a < card (live_blocks a) + k"
  shows "\<exists>a'. admit_sequence seq a n = Some (Inl (CapacityExceeded 1 0 (ka_capacity a)), a') \<and>
    card (live_blocks a') = ka_capacity a \<and> live_blocks a \<subseteq> live_blocks a' \<and>
    ka_logical_tables a' = ka_logical_tables a"
  using allocate_n_wf [OF assms(1), of k] assms(2,3) by (auto simp: admit_sequence_def)

lemma admit_rejection_leaks_witness:
  "\<exists>a'. admit_sequence 1 (arena_new 32 2 MlxMetal) 100 = Some (Inl (CapacityExceeded 1 0 2), a') \<and>
    card (live_blocks a') = 2 \<and> ka_logical_tables a' = []"
proof -
  have s: "ka_block_size (arena_new 32 2 MlxMetal) = 32" "ka_logical_tables (arena_new 32 2 MlxMetal) = []"
    by (simp_all add: arena_new_def arena_from_plan_def)
  then have "tokens_to_blocks (unat (100 :: u32)) (ka_block_size (arena_new 32 2 MlxMetal)) = Some 4"
    by (simp add: tokens_to_blocks_def)
  with admit_rejection_leaks [of "arena_new 32 2 MlxMetal" 100 4 1] arena_new_wf [of 2 32 MlxMetal] s
  show ?thesis by auto
qed

text \<open>the prefix index outlives its blocks.  After a prefixed block was released, and so put on the
  free list, asking for the same prefix again returns it as a cache hit although it is on the free
  list, and the next allocation hands out the very same block a second time.\<close>

theorem stale_prefix_hands_out_twice:
  assumes wf: "wf_arena a" and miss: "map_of (px_index (ka_prefix_cache a)) h = None"
    and room: "card (live_blocks a) < ka_capacity a"
  shows "\<exists>i a1 a3 a4. allocate_prefixed a h = Some (i, a1) \<and>
    allocate_prefixed (release a1 i) h = Some (i, a3) \<and> try_allocate a3 = Some (Inr i, a4)"
proof -
  from try_allocate_wf [OF wf] room obtain k a0 where
    a0: "try_allocate a = Some (Inr (word_of_nat k), a0)" "wf_arena a0" "k < length (ka_blocks a0)"
      "pb_refcount (ka_blocks a0 ! k) = 1" "ka_prefix_cache a0 = ka_prefix_cache a" by auto
  let ?i = "word_of_nat k :: u32"
  have u: "unat ?i = k" by (rule wf_id [OF a0(2,3)])
  let ?a1 = "a0\<lparr>ka_prefix_cache := px_insert (ka_prefix_cache a0) h ?i\<rparr>"
  have p1: "allocate_prefixed a h = Some (?i, ?a1)"
    using miss a0(1) by (simp add: allocate_prefixed_def px_lookup_def Let_def)
  let ?b = "(ka_blocks a0 ! k)\<lparr>pb_refcount := 0\<rparr>"
  let ?a2 = "?a1\<lparr>ka_blocks := (ka_blocks a0)[k := ?b], ka_free_list := ka_free_list a0 @ [k]\<rparr>"
  have r: "release ?a1 ?i = ?a2"
    using a0(3,4) by (simp add: release_def u Let_def pb_dec_ref_def is_completely_free_def)
  have idx: "map_of (px_index (ka_prefix_cache ?a2)) h = Some ?i"
    by (simp add: px_insert_def update_conv')
  have f: "find_idx (\<lambda>b. pb_id b = ?i) (ka_blocks ?a2) = Some k"
  proof -
    have ids: "pb_id (ka_blocks ?a2 ! m) = word_of_nat m" if "m < length (ka_blocks a0)" for m
      using a0(2,3) that by (auto simp: wf_arena_def nth_list_update)
    have "ka_blocks ?a2 ! k \<in> set (ka_blocks ?a2)" using a0(3) by (intro nth_mem) simp
    then obtain m where m: "find_idx (\<lambda>b. pb_id b = ?i) (ka_blocks ?a2) = Some m"
      using find_idx_exists [of "ka_blocks ?a2 ! k" "ka_blocks ?a2" "\<lambda>b. pb_id b = ?i"] ids [OF a0(3)]
      by blast
    from find_idx_Some [OF m] have ml: "m < length (ka_blocks a0)" "pb_id (ka_blocks ?a2 ! m) = ?i" by simp_all
    then have "unat (word_of_nat m :: u32) = unat ?i" using ids by simp
    then have "m = k" using u wf_id [OF a0(2) ml(1)] by simp
    with m show ?thesis by simp
  qed
  obtain px where px: "px_lookup (ka_prefix_cache ?a2) h = (Some ?i, px)"
    using idx by (simp add: px_lookup_def Let_def)
  let ?a3 = "?a2\<lparr>ka_prefix_cache := px, ka_blocks := (ka_blocks ?a2)[k := snd (pb_inc_ref (ka_blocks ?a2 ! k))]\<rparr>"
  have p2: "allocate_prefixed (release ?a1 ?i) h = Some (?i, ?a3)"
    using f px unfolding r by (simp add: allocate_prefixed_def Let_def)
  have "\<exists>a4. try_allocate ?a3 = Some (Inr ?i, a4)"
    using a0(3) by (simp add: try_allocate_def recycle_last_def Let_def)
  with p1 p2 show ?thesis by blast
qed

lemma stale_prefix_hands_out_twice_witness:
  "\<exists>i a1 a3 a4. allocate_prefixed (arena_new 32 8 MlxMetal) 7 = Some (i, a1) \<and>
    allocate_prefixed (release a1 i) 7 = Some (i, a3) \<and> try_allocate a3 = Some (Inr i, a4)"
proof -
  have "map_of (px_index (ka_prefix_cache (arena_new 32 8 MlxMetal))) 7 = None"
    by (simp add: arena_new_def arena_from_plan_def px_new_def)
  with stale_prefix_hands_out_twice [of "arena_new 32 8 MlxMetal" 7] arena_new_wf [of 8 32 MlxMetal]
  show ?thesis by simp
qed

subsection \<open>Recency\<close>

lemma lt_touch_queue: "lt_queue (lt_touch t x) = last_n (lt_capacity t) (remove1 x (lt_queue t) @ [x])"
  by (simp add: lt_touch_def last_n_def Let_def)

definition lt_ok :: "lru_tracker \<Rightarrow> bool" where
  "lt_ok t \<longleftrightarrow> distinct (lt_queue t) \<and> length (lt_queue t) \<le> lt_capacity t"

interpretation lt: recency "\<lambda>t x. Some (lt_touch t x)" "\<lambda>x. x" lt_queue lt_capacity lt_ok
proof unfold_locales
  fix t x assume ok: "lt_ok t"
  then show "distinct (lt_queue t) \<and> length (lt_queue t) \<le> lt_capacity t" by (simp add: lt_ok_def)
  from ok have "distinct (remove1 x (lt_queue t) @ [x])" by (auto simp: lt_ok_def)
  then have "lt_ok (lt_touch t x)"
    by (simp add: lt_ok_def lt_touch_queue distinct_last_n length_last_n) (simp add: lt_touch_def Let_def)
  then show "\<exists>t'. Some (lt_touch t x) = Some t' \<and> lt_ok t' \<and> lt_capacity t' = lt_capacity t \<and>
      lt_queue t' = last_n (lt_capacity t) (remove1 x (lt_queue t) @ [x])"
    by (simp add: lt_touch_queue) (simp add: lt_touch_def Let_def)
qed

lemma run_touches: "run_opt (\<lambda>t x. Some (lt_touch t x)) t xs = Some (foldl lt_touch t xs)"
  by (induction xs arbitrary: t) simp_all

text \<open>the LRU tracker holds exactly the most recently touched blocks.  After any sequence of touches
  its queue lists, oldest first and without repetition, the last \<open>capacity\<close> distinct blocks in the
  order of their last touch; so the eviction candidate is the least recently touched of them.\<close>

theorem lru_tracker_recency:
  "lt_queue (foldl lt_touch (lt_new capacity) ids) = last_n capacity (remdups ids)"
  using lt.touches_queue [of "lt_new capacity" ids]
  by (simp add: run_touches lt_ok_def lt_new_def)

subsection \<open>Smaller laws\<close>

lemma rollback_after_prepare:
  "rp_state p = Primed \<Longrightarrow> rp_rollback (snd (validate_then_prepare p)) = p"
  by (cases p) (simp add: validate_then_prepare_def rp_rollback_def)

lemma rollback_after_append:
  "rp_state p = Primed \<Longrightarrow> rp_append (snd (validate_then_prepare p)) = Some q \<Longrightarrow> rp_rollback q = p"
  by (cases p) (auto simp: validate_then_prepare_def rp_append_def rp_rollback_def)

lemma prepare_write_exclusive:
  "prepare_write b = (False, b') \<Longrightarrow> b' = b \<and> pb_refcount b \<le> 1"
  by (auto simp: prepare_write_def split: if_splits)

lemma double_release_wraps:
  "pb_refcount b = 0 \<Longrightarrow> pb_refcount (snd (pb_dec_ref b)) = - 1 \<and> fst (pb_dec_ref b) = 0"
  by (simp add: pb_dec_ref_def sat_sub_def)

end
