(* ===== verification/Streaming.thy ===== *)
theory Streaming
  imports Prelude
begin

text \<open>
  The generation event channel of \<open>streaming.rs\<close>: the shared queue, its sending and receiving
  halves, and the validator of event sequences.

  The mutex makes every operation atomic.  Where an operation would wait on the condition variable
  its model returns \<open>Waits\<close> and leaves the state alone; it is retried after the next operation.  An
  \<open>f64\<close> payload, with which nothing is computed, is its bit pattern.  The oneshot notifier of the
  async runtime is left out.
\<close>

datatype generation_event =
    Started
  | Token u32
  | Chunk string
  | Logits "u64 list"
  | Progress u64
  | Metrics string
  | Warning string
  | Error string
  | Done
  | Cancelled

record shared_queue =
  sq_queue :: "generation_event list"
  sq_capacity :: nat
  sq_closed :: bool
  sq_sender_alive :: bool
  sq_terminal_seen :: bool

definition sq_new :: "nat \<Rightarrow> shared_queue" where
  "sq_new capacity = \<lparr>sq_queue = [], sq_capacity = capacity, sq_closed = False,
     sq_sender_alive = True, sq_terminal_seen = False\<rparr>"

definition is_terminal :: "generation_event \<Rightarrow> bool" where
  "is_terminal event = (case event of Done \<Rightarrow> True | Error _ \<Rightarrow> True | Cancelled \<Rightarrow> True | _ \<Rightarrow> False)"

definition generation_channel :: "u32 option \<Rightarrow> shared_queue" where
  "generation_channel capacity =
     sq_new (unat (max (case capacity of None \<Rightarrow> 128 | Some c \<Rightarrow> c) 1))"

subsection \<open>Receiving\<close>

datatype recv_outcome = Received generation_event | Ended | Waits

text \<open>Taking the front event and noting whether it is terminal.\<close>

definition deliver :: "shared_queue \<Rightarrow> generation_event \<Rightarrow> shared_queue" where
  "deliver q event = q\<lparr>sq_queue := tl (sq_queue q),
     sq_terminal_seen := sq_terminal_seen q \<or> is_terminal event\<rparr>"

definition recv :: "shared_queue \<Rightarrow> recv_outcome \<times> shared_queue" where
  "recv q = (
     if sq_terminal_seen q then (Ended, q)
     else case sq_queue q of
       event # rest \<Rightarrow> (Received event, deliver q event)
     | [] \<Rightarrow> if sq_closed q \<or> \<not> sq_sender_alive q then (Ended, q) else (Waits, q))"

definition try_recv :: "shared_queue \<Rightarrow> generation_event option \<times> shared_queue" where
  "try_recv q = (
     if sq_terminal_seen q then (None, q)
     else case sq_queue q of
       event # rest \<Rightarrow> (Some event, deliver q event)
     | [] \<Rightarrow> (None, q))"

definition close_stream :: "shared_queue \<Rightarrow> shared_queue" where
  "close_stream q = q\<lparr>sq_closed := True\<rparr>"

definition drop_stream :: "shared_queue \<Rightarrow> shared_queue" where
  "drop_stream q = q\<lparr>sq_closed := True\<rparr>"

subsection \<open>Sending\<close>

datatype send_error = ChannelClosed | ChannelFull | SendCancelled

datatype send_outcome = Sent | Refused send_error | SendWaits

definition push_event :: "shared_queue \<Rightarrow> generation_event \<Rightarrow> shared_queue" where
  "push_event q event = q\<lparr>sq_queue := sq_queue q @ [event]\<rparr>"

definition try_send :: "shared_queue \<Rightarrow> generation_event \<Rightarrow> send_outcome \<times> shared_queue" where
  "try_send q event = (
     if sq_closed q then (Refused ChannelClosed, q)
     else if sq_capacity q \<le> length (sq_queue q) then (Refused ChannelFull, q)
     else (Sent, push_event q event))"

definition blocking_send :: "shared_queue \<Rightarrow> generation_event \<Rightarrow> send_outcome \<times> shared_queue" where
  "blocking_send q event = (
     if sq_capacity q \<le> length (sq_queue q) then
       (if sq_closed q then (Refused ChannelClosed, q) else (SendWaits, q))
     else (Sent, push_event q event))"

definition send_terminal :: "shared_queue \<Rightarrow> generation_event \<Rightarrow> shared_queue" where
  "send_terminal q event = push_event q event"

definition try_send_or_cancel :: "shared_queue \<Rightarrow> generation_event \<Rightarrow> send_outcome \<times> shared_queue" where
  "try_send_or_cancel q event = (
     if sq_closed q then (Refused SendCancelled, q)
     else if sq_capacity q \<le> length (sq_queue q) then (Refused ChannelFull, q)
     else (Sent, push_event q event))"

definition is_disconnected :: "shared_queue \<Rightarrow> bool" where
  "is_disconnected q \<longleftrightarrow> sq_closed q"

definition drop_sender :: "shared_queue \<Rightarrow> shared_queue" where
  "drop_sender q = q\<lparr>sq_sender_alive := False\<rparr>"

subsection \<open>Event sequences\<close>

text \<open>The loop of \<open>validate_event_sequence_impl\<close> from the event of index \<open>i\<close> on.\<close>

fun validate_from :: "nat \<Rightarrow> nat \<Rightarrow> bool \<Rightarrow> bool \<Rightarrow> generation_event list \<Rightarrow> bool" where
  "validate_from i terminal_count active started_seen [] = (terminal_count = 1)"
| "validate_from i terminal_count active started_seen (event # events) = (
     case event of
       Started \<Rightarrow>
         if started_seen then False
         else if i \<noteq> 0 then False
         else validate_from (i + 1) terminal_count True True events
     | Done \<Rightarrow> if 1 < terminal_count + 1 then False
         else validate_from (i + 1) (terminal_count + 1) False started_seen events
     | Error _ \<Rightarrow> if 1 < terminal_count + 1 then False
         else validate_from (i + 1) (terminal_count + 1) False started_seen events
     | Cancelled \<Rightarrow> if 1 < terminal_count + 1 then False
         else validate_from (i + 1) (terminal_count + 1) False started_seen events
     | _ \<Rightarrow> if \<not> active then False
         else validate_from (i + 1) terminal_count active started_seen events)"

definition validate_event_sequence :: "generation_event list \<Rightarrow> bool" where
  "validate_event_sequence events = validate_from 0 0 False False events"

subsection \<open>Runs of the channel\<close>

datatype channel_op =
    TrySend generation_event
  | BlockingSend generation_event
  | SendTerminal generation_event
  | TrySendOrCancel generation_event
  | Recv | TryRecv | CloseStream | DropStream | DropSender

text \<open>A run with the events accepted from the sender and the events handed to the receiver, oldest
  first.\<close>

record channel_run =
  cr_queue :: shared_queue
  cr_accepted :: "generation_event list"
  cr_received :: "generation_event list"

definition accept_if :: "send_outcome \<times> shared_queue \<Rightarrow> generation_event \<Rightarrow> channel_run \<Rightarrow> channel_run" where
  "accept_if out event r = r\<lparr>cr_queue := snd out,
     cr_accepted := (if fst out = Sent then cr_accepted r @ [event] else cr_accepted r)\<rparr>"

fun channel_step :: "channel_run \<Rightarrow> channel_op \<Rightarrow> channel_run" where
  "channel_step r (TrySend e) = accept_if (try_send (cr_queue r) e) e r"
| "channel_step r (BlockingSend e) = accept_if (blocking_send (cr_queue r) e) e r"
| "channel_step r (SendTerminal e) = accept_if (Sent, send_terminal (cr_queue r) e) e r"
| "channel_step r (TrySendOrCancel e) = accept_if (try_send_or_cancel (cr_queue r) e) e r"
| "channel_step r Recv = (case recv (cr_queue r) of
      (Received e, q) \<Rightarrow> r\<lparr>cr_queue := q, cr_received := cr_received r @ [e]\<rparr>
    | (_, q) \<Rightarrow> r\<lparr>cr_queue := q\<rparr>)"
| "channel_step r TryRecv = (case try_recv (cr_queue r) of
      (Some e, q) \<Rightarrow> r\<lparr>cr_queue := q, cr_received := cr_received r @ [e]\<rparr>
    | (None, q) \<Rightarrow> r\<lparr>cr_queue := q\<rparr>)"
| "channel_step r CloseStream = r\<lparr>cr_queue := close_stream (cr_queue r)\<rparr>"
| "channel_step r DropStream = r\<lparr>cr_queue := drop_stream (cr_queue r)\<rparr>"
| "channel_step r DropSender = r\<lparr>cr_queue := drop_sender (cr_queue r)\<rparr>"

definition run_channel :: "u32 option \<Rightarrow> channel_op list \<Rightarrow> channel_run" where
  "run_channel capacity ops = foldl channel_step
     \<lparr>cr_queue = generation_channel capacity, cr_accepted = [], cr_received = []\<rparr> ops"

definition is_send_terminal :: "channel_op \<Rightarrow> bool" where
  "is_send_terminal op' = (case op' of SendTerminal _ \<Rightarrow> True | _ \<Rightarrow> False)"

text \<open>The invariant: nothing is lost or reordered, only the last received event can be terminal, and
  only terminal sends exceed the capacity.\<close>

definition channel_inv :: "nat \<Rightarrow> nat \<Rightarrow> channel_run \<Rightarrow> bool" where
  "channel_inv cap extra r \<longleftrightarrow> cr_accepted r = cr_received r @ sq_queue (cr_queue r) \<and>
     sq_capacity (cr_queue r) = cap \<and> length (sq_queue (cr_queue r)) \<le> cap + extra \<and>
     (if sq_terminal_seen (cr_queue r)
      then cr_received r \<noteq> [] \<and> is_terminal (last (cr_received r)) \<and>
        (\<forall>e \<in> set (butlast (cr_received r)). \<not> is_terminal e)
      else \<forall>e \<in> set (cr_received r). \<not> is_terminal e)"

lemma channel_step_inv:
  assumes "channel_inv cap extra r"
  shows "channel_inv cap (if is_send_terminal opn then extra + 1 else extra) (channel_step r opn)"
  using assms
  by (cases opn; cases "sq_queue (cr_queue r)")
    (auto simp: channel_inv_def accept_if_def try_send_def blocking_send_def send_terminal_def
      try_send_or_cancel_def push_event_def recv_def try_recv_def deliver_def close_stream_def
      drop_stream_def drop_sender_def is_send_terminal_def split: if_splits)

lemma run_channel_inv:
  "channel_inv (sq_capacity (generation_channel capacity))
     (length (filter is_send_terminal ops)) (run_channel capacity ops)"
proof (induction ops rule: rev_induct)
  case Nil
  then show ?case by (simp add: run_channel_def channel_inv_def generation_channel_def sq_new_def)
next
  case (snoc x ops)
  then show ?case
    using channel_step_inv [OF snoc, of x] by (auto simp: run_channel_def)
qed

subsection \<open>Properties\<close>

text \<open>the channel is a bounded FIFO queue that ends at a terminal event.  After any interleaving of
  sends, receives, closes and drops, the accepted events are the received ones followed by the
  queued ones, in order; at most the last received event is terminal; and the queue exceeds the
  capacity by at most the number of terminal sends.\<close>

theorem channel_fifo:
  "let r = run_channel capacity ops; rec = cr_received r; q = sq_queue (cr_queue r) in
    cr_accepted r = rec @ q \<and> filter is_terminal (butlast rec) = [] \<and>
    length q \<le> sq_capacity (generation_channel capacity) + length (filter is_send_terminal ops)"
proof -
  have "filter is_terminal (butlast rec) = []" if "list_all (\<lambda>e. \<not> is_terminal e) rec" for rec
    using that by (auto simp: filter_empty_conv list_all_iff dest: in_set_butlastD)
  then show ?thesis
    using run_channel_inv [of capacity ops]
    by (auto simp: channel_inv_def Let_def filter_empty_conv list_all_iff split: if_splits)
qed

lemma validate_after_terminal: "validate_from (Suc i) (Suc 0) False st events \<longleftrightarrow> events = []"
  by (cases events) (auto split: generation_event.splits)

lemma validate_active:
  "validate_from (Suc i) 0 True True events \<longleftrightarrow>
     (\<exists>payload t. events = payload @ [t] \<and> is_terminal t \<and>
        list_all (\<lambda>e. e \<noteq> Started \<and> \<not> is_terminal e) payload)"
proof (induction events arbitrary: i)
  case (Cons e events)
  have split: "(\<exists>payload t. e # events = payload @ [t] \<and> is_terminal t \<and>
        list_all (\<lambda>e. e \<noteq> Started \<and> \<not> is_terminal e) payload) \<longleftrightarrow>
      (events = [] \<and> is_terminal e) \<or>
      (e \<noteq> Started \<and> \<not> is_terminal e \<and> (\<exists>payload t. events = payload @ [t] \<and> is_terminal t \<and>
        list_all (\<lambda>e. e \<noteq> Started \<and> \<not> is_terminal e) payload))" (is "?l = ?r")
  proof
    assume ?l
    then obtain payload t where p: "e # events = payload @ [t]" "is_terminal t"
      "list_all (\<lambda>e. e \<noteq> Started \<and> \<not> is_terminal e) payload" by blast
    then show ?r by (cases payload) auto
  next
    assume ?r
    then show ?l
    proof
      assume "events = [] \<and> is_terminal e"
      then show ?l by (intro exI [of _ "[]"] exI [of _ e]) simp
    next
      assume "e \<noteq> Started \<and> \<not> is_terminal e \<and> (\<exists>payload t. events = payload @ [t] \<and>
        is_terminal t \<and> list_all (\<lambda>e. e \<noteq> Started \<and> \<not> is_terminal e) payload)"
      then obtain payload t where "e \<noteq> Started" "\<not> is_terminal e" "events = payload @ [t]"
        "is_terminal t" "list_all (\<lambda>e. e \<noteq> Started \<and> \<not> is_terminal e) payload" by blast
      then show ?l by (intro exI [of _ "e # payload"] exI [of _ t]) simp
    qed
  qed
  show ?case
    unfolding split
    by (cases e) (simp_all add: Cons.IH validate_after_terminal [simplified] is_terminal_def)
qed simp


text \<open>the sequence validator accepts exactly the well-bracketed runs: a single terminal event, or
  \<open>Started\<close>, any number of payload events, and one terminal event at the end.\<close>

theorem validate_event_sequence_iff:
  "validate_event_sequence events \<longleftrightarrow>
    (\<exists>t. is_terminal t \<and> (events = [t] \<or> (\<exists>payload. events = Started # payload @ [t] \<and>
       list_all (\<lambda>e. e \<noteq> Started \<and> \<not> is_terminal e) payload)))"
proof (cases events)
  case Nil
  then show ?thesis by (simp add: validate_event_sequence_def)
next
  case (Cons e rest)
  show ?thesis
  proof (cases "e = Started")
    case True
    then have "validate_event_sequence events \<longleftrightarrow> validate_from (Suc 0) 0 True True rest"
      using Cons by (simp add: validate_event_sequence_def)
    also have "\<dots> \<longleftrightarrow> (\<exists>payload t. rest = payload @ [t] \<and> is_terminal t \<and>
        list_all (\<lambda>e. e \<noteq> Started \<and> \<not> is_terminal e) payload)"
      by (rule validate_active)
    finally show ?thesis using True Cons by (auto simp: is_terminal_def)
  next
    case False
    then have "validate_event_sequence events \<longleftrightarrow> is_terminal e \<and> rest = []"
      using Cons validate_after_terminal [of 0 False rest]
      by (cases e) (simp_all add: validate_event_sequence_def is_terminal_def)
    then show ?thesis using False Cons by auto
  qed
qed

fun recv_until_end :: "nat \<Rightarrow> shared_queue \<Rightarrow> generation_event list option" where
  "recv_until_end 0 q = None"
| "recv_until_end (Suc n) q = (case recv q of
      (Received e, q') \<Rightarrow> map_option (Cons e) (recv_until_end n q')
    | (Ended, q') \<Rightarrow> Some []
    | (Waits, q') \<Rightarrow> None)"

definition up_to_terminal :: "generation_event list \<Rightarrow> generation_event list" where
  "up_to_terminal es = takeWhile (\<lambda>e. \<not> is_terminal e) es @ take 1 (dropWhile (\<lambda>e. \<not> is_terminal e) es)"

lemma up_to_terminal_simps [simp]:
  "up_to_terminal [] = []"
  "up_to_terminal (e # es) = (if is_terminal e then [e] else e # up_to_terminal es)"
  by (simp_all add: up_to_terminal_def)

lemma recv_until_end_closed:
  assumes "sq_closed q \<or> \<not> sq_sender_alive q" "length (sq_queue q) < n"
  shows "recv_until_end n q = Some (if sq_terminal_seen q then [] else up_to_terminal (sq_queue q))"
  using assms
proof (induction n arbitrary: q)
  case (Suc n)
  show ?case
  proof (cases "sq_queue q")
    case Nil
    then show ?thesis using Suc.prems by (auto simp: recv_def)
  next
    case (Cons e es)
    show ?thesis
    proof (cases "sq_terminal_seen q")
      case True
      then show ?thesis by (simp add: recv_def)
    next
      case False
      have "recv_until_end n (deliver q e) = Some (if sq_terminal_seen (deliver q e) then []
          else up_to_terminal (sq_queue (deliver q e)))"
        using Suc.prems Cons by (intro Suc.IH) (auto simp: deliver_def)
      then show ?thesis using False Cons by (simp add: recv_def deliver_def)
    qed
  qed
qed simp

text \<open>a consumer that keeps receiving from a closed or abandoned channel never waits: after at most
  one call per queued event and one more it has received exactly the queued events up to and
  including the first terminal one.\<close>

theorem closed_channel_drains:
  assumes "sq_closed q \<or> \<not> sq_sender_alive q" "\<not> sq_terminal_seen q"
  shows "recv_until_end (length (sq_queue q) + 1) q = Some (up_to_terminal (sq_queue q))"
  using recv_until_end_closed [OF assms(1), of "length (sq_queue q) + 1"] assms(2)
  by (simp del: recv_until_end.simps)

lemma closed_channel_drains_witness:
  "recv_until_end 4 (close_stream ((sq_new 8)\<lparr>sq_queue := [Started, Done, Token 3]\<rparr>)) = Some [Started, Done]"
  using closed_channel_drains [of "close_stream ((sq_new 8)\<lparr>sq_queue := [Started, Done, Token 3]\<rparr>)"]
  by (simp add: close_stream_def sq_new_def is_terminal_def eval_nat_numeral del: recv_until_end.simps)

lemma blocking_send_ignores_close:
  "sq_closed q \<Longrightarrow> length (sq_queue q) < sq_capacity q \<Longrightarrow> fst (blocking_send q e) = Sent"
  by (simp add: blocking_send_def)

end
