(* ===== verification/Protocol.thy ===== *)
theory Protocol
  imports Prelude
begin

text \<open>
  The host-worker protocol of \<open>worker_protocol.rs\<close>: message kinds, frames, the stateless frame check
  and the stateful \<open>ProtocolValidator\<close>.

  JSON is external.  A payload is a value of the type variable \<open>'p\<close>; the serialised size of a frame and
  the JSON value of a message kind are parameters: \<open>size_of\<close> gives the number of bytes or \<open>None\<close> when
  serialisation fails, \<open>kind_string\<close> gives whether the value is a string or \<open>None\<close> when serialisation
  fails.
\<close>

record protocol_version =
  pv_major :: "16 word"
  pv_minor :: "16 word"

definition V1_0 :: protocol_version where
  "V1_0 = \<lparr>pv_major = 1, pv_minor = 0\<rparr>"

datatype host_command = Hello | LoadModel | StartGeneration | CancelGeneration | UnloadModel
  | Ping | Shutdown | MemoryPressure

datatype worker_event = HelloAck | ModelLoadStarted | ModelLoaded | ComputeImageBound | AnePrepared
  | GpuPrepared | CpuPrepared | KvArenaReady | RoutesValidated | ModelReady | GenerationStarted
  | PrefillStarted | PrefillCompleted | TokenEvent | StepMetrics | GenerationCompleted
  | GenerationCancelled | GenerationFailed | Heartbeat | ModelUnloaded | WorkerFatal
  | ResearchTraceBatch

datatype message_kind = HostCommand host_command | WorkerEvent worker_event

record 'p frame =
  fr_version :: protocol_version
  fr_worker_instance_id :: string
  fr_sequence_number :: u64
  fr_request_id :: "string option"
  fr_message_kind :: message_kind
  fr_payload :: 'p

definition new_host_command :: "string \<Rightarrow> u64 \<Rightarrow> host_command \<Rightarrow> 'p \<Rightarrow> 'p frame" where
  "new_host_command worker_id seq cmd payload = \<lparr>fr_version = V1_0,
     fr_worker_instance_id = worker_id, fr_sequence_number = seq, fr_request_id = None,
     fr_message_kind = HostCommand cmd, fr_payload = payload\<rparr>"

definition new_host_command_with_request ::
  "string \<Rightarrow> u64 \<Rightarrow> string \<Rightarrow> host_command \<Rightarrow> 'p \<Rightarrow> 'p frame" where
  "new_host_command_with_request worker_id seq request_id cmd payload = \<lparr>fr_version = V1_0,
     fr_worker_instance_id = worker_id, fr_sequence_number = seq, fr_request_id = Some request_id,
     fr_message_kind = HostCommand cmd, fr_payload = payload\<rparr>"

definition new_worker_event :: "string \<Rightarrow> u64 \<Rightarrow> string \<Rightarrow> worker_event \<Rightarrow> 'p \<Rightarrow> 'p frame" where
  "new_worker_event worker_id seq request_id event payload = \<lparr>fr_version = V1_0,
     fr_worker_instance_id = worker_id, fr_sequence_number = seq, fr_request_id = Some request_id,
     fr_message_kind = WorkerEvent event, fr_payload = payload\<rparr>"

definition MAX_FRAME_SIZE_BYTES :: nat where
  "MAX_FRAME_SIZE_BYTES = 1048576"

datatype frame_error = FrameTooLarge | UnknownVersion | SequenceRegression | DuplicateRequestStart
  | UnknownRequest | TerminalAfterClose | InvalidMessageKind

definition validate_frame :: "('p frame \<Rightarrow> nat option) \<Rightarrow> (message_kind \<Rightarrow> bool option)
    \<Rightarrow> 'p frame \<Rightarrow> u64 \<Rightarrow> string option \<Rightarrow> frame_error + unit" where
  "validate_frame size_of kind_string f expected_next_seq expected_worker_id = (
     case size_of f of
       None \<Rightarrow> Inl FrameTooLarge
     | Some len \<Rightarrow>
         if MAX_FRAME_SIZE_BYTES < len then Inl FrameTooLarge
         else if fr_version f \<noteq> V1_0 then Inl UnknownVersion
         else if fr_sequence_number f \<noteq> expected_next_seq then Inl SequenceRegression
         else if (case expected_worker_id of Some e \<Rightarrow> fr_worker_instance_id f \<noteq> e | None \<Rightarrow> False)
           then Inl UnknownRequest
         else case kind_string (fr_message_kind f) of
           None \<Rightarrow> Inl InvalidMessageKind
         | Some is_string \<Rightarrow> if \<not> is_string then Inl InvalidMessageKind else Inr ())"

subsection \<open>The stateful validator\<close>

record protocol_validator =
  va_expected_worker_id :: string
  va_next_expected_seq :: u64
  va_known_requests :: "string list"
  va_terminal_requests :: "string list"

definition validator_new :: "string \<Rightarrow> protocol_validator" where
  "validator_new worker_id = \<lparr>va_expected_worker_id = worker_id, va_next_expected_seq = 0,
     va_known_requests = [], va_terminal_requests = []\<rparr>"

definition validate_baseline :: "(message_kind \<Rightarrow> bool option) \<Rightarrow> protocol_validator \<Rightarrow> 'p frame
    \<Rightarrow> frame_error + unit" where
  "validate_baseline kind_string v f = (
     if fr_version f \<noteq> V1_0 then Inl UnknownVersion
     else if fr_sequence_number f \<noteq> va_next_expected_seq v then Inl SequenceRegression
     else if fr_worker_instance_id f \<noteq> va_expected_worker_id v then Inl UnknownRequest
     else case kind_string (fr_message_kind f) of
       None \<Rightarrow> Inl InvalidMessageKind
     | Some is_string \<Rightarrow> if \<not> is_string then Inl InvalidMessageKind else Inr ())"

definition advance_seq :: "protocol_validator \<Rightarrow> protocol_validator" where
  "advance_seq v = v\<lparr>va_next_expected_seq := va_next_expected_seq v + 1\<rparr>"

definition validate_host_command :: "(message_kind \<Rightarrow> bool option) \<Rightarrow> protocol_validator \<Rightarrow> 'p frame
    \<Rightarrow> (frame_error + unit) \<times> protocol_validator" where
  "validate_host_command kind_string v f = (
     case validate_baseline kind_string v f of
       Inl e \<Rightarrow> (Inl e, v)
     | Inr _ \<Rightarrow> (case fr_message_kind f of
         WorkerEvent _ \<Rightarrow> (Inl InvalidMessageKind, v)
       | HostCommand cmd \<Rightarrow>
           let check = (case fr_request_id f of
                 None \<Rightarrow> None
               | Some req_id \<Rightarrow> (case cmd of
                     StartGeneration \<Rightarrow>
                       if req_id \<in> set (va_known_requests v) then Some DuplicateRequestStart else None
                   | CancelGeneration \<Rightarrow>
                       if req_id \<notin> set (va_known_requests v) then Some UnknownRequest else None
                   | _ \<Rightarrow> None)) in
           case check of
             Some e \<Rightarrow> (Inl e, v)
           | None \<Rightarrow> (Inr (), advance_seq v)))"

text \<open>The terminal worker events.\<close>

definition is_terminal_event :: "worker_event \<Rightarrow> bool" where
  "is_terminal_event ev \<longleftrightarrow> ev = GenerationCompleted \<or> ev = GenerationCancelled \<or> ev = GenerationFailed"

definition validate_worker_event :: "(message_kind \<Rightarrow> bool option) \<Rightarrow> protocol_validator \<Rightarrow> 'p frame
    \<Rightarrow> (frame_error + unit) \<times> protocol_validator" where
  "validate_worker_event kind_string v f = (
     case validate_baseline kind_string v f of
       Inl e \<Rightarrow> (Inl e, v)
     | Inr _ \<Rightarrow> (case fr_message_kind f of
         HostCommand _ \<Rightarrow> (Inl InvalidMessageKind, v)
       | WorkerEvent ev \<Rightarrow> (case fr_request_id f of
             None \<Rightarrow> (Inr (), advance_seq v)
           | Some req_id \<Rightarrow>
               if ev = GenerationStarted then
                 (if req_id \<in> set (va_known_requests v) then (Inl DuplicateRequestStart, v)
                  else (Inr (), advance_seq (v\<lparr>va_known_requests := va_known_requests v @ [req_id]\<rparr>)))
               else if is_terminal_event ev then
                 (if req_id \<notin> set (va_known_requests v) then (Inl UnknownRequest, v)
                  else if req_id \<in> set (va_terminal_requests v) then (Inl TerminalAfterClose, v)
                  else (Inr (), advance_seq (v\<lparr>
                    va_known_requests := filter (\<lambda>i. i \<noteq> req_id) (va_known_requests v),
                    va_terminal_requests := va_terminal_requests v @ [req_id]\<rparr>)))
               else (Inr (), advance_seq v))))"

subsection \<open>Runs\<close>

text \<open>A frame with its direction; a run keeps the accepted frames in order.\<close>

datatype 'p inbound = FromHost "'p frame" | FromWorker "'p frame"

definition check_inbound :: "(message_kind \<Rightarrow> bool option) \<Rightarrow> protocol_validator \<Rightarrow> 'p inbound
    \<Rightarrow> (frame_error + unit) \<times> protocol_validator" where
  "check_inbound kind_string v m = (case m of
      FromHost f \<Rightarrow> validate_host_command kind_string v f
    | FromWorker f \<Rightarrow> validate_worker_event kind_string v f)"

definition inbound_frame :: "'p inbound \<Rightarrow> 'p frame" where
  "inbound_frame m = (case m of FromHost f \<Rightarrow> f | FromWorker f \<Rightarrow> f)"

fun run_validator :: "(message_kind \<Rightarrow> bool option) \<Rightarrow> protocol_validator \<Rightarrow> 'p inbound list
    \<Rightarrow> 'p inbound list \<times> protocol_validator" where
  "run_validator ks v [] = ([], v)"
| "run_validator ks v (m # ms) = (case check_inbound ks v m of
      (Inl e, v') \<Rightarrow> run_validator ks v' ms
    | (Inr _, v') \<Rightarrow> (case run_validator ks v' ms of (acc, v'') \<Rightarrow> (m # acc, v'')))"

lemma baseline_Inr: "validate_baseline ks v f = Inr u \<Longrightarrow>
    fr_version f = V1_0 \<and> fr_sequence_number f = va_next_expected_seq v \<and>
    fr_worker_instance_id f = va_expected_worker_id v"
  by (auto simp: validate_baseline_def split: if_splits option.splits)

lemma check_inbound_Inl: "check_inbound ks v m = (Inl e, v') \<Longrightarrow> v' = v"
  by (auto simp: check_inbound_def validate_host_command_def validate_worker_event_def Let_def
      split: inbound.splits sum.splits message_kind.splits option.splits if_splits)

lemma check_inbound_Inr:
  assumes "check_inbound ks v m = (Inr u, v')"
  shows "fr_version (inbound_frame m) = V1_0"
    "fr_sequence_number (inbound_frame m) = va_next_expected_seq v"
    "fr_worker_instance_id (inbound_frame m) = va_expected_worker_id v"
    "va_next_expected_seq v' = va_next_expected_seq v + 1"
    "va_expected_worker_id v' = va_expected_worker_id v"
  using assms
  by (auto simp: check_inbound_def inbound_frame_def validate_host_command_def
      validate_worker_event_def Let_def advance_seq_def dest!: baseline_Inr
      split: inbound.splits sum.splits message_kind.splits option.splits if_splits)

lemma run_validator_seq:
  assumes "run_validator ks v ms = (acc, v')"
  shows "va_next_expected_seq v' = va_next_expected_seq v + word_of_nat (length acc) \<and>
    va_expected_worker_id v' = va_expected_worker_id v \<and>
    (\<forall>k < length acc. fr_sequence_number (inbound_frame (acc ! k)) =
       va_next_expected_seq v + word_of_nat k \<and>
       fr_worker_instance_id (inbound_frame (acc ! k)) = va_expected_worker_id v \<and>
       fr_version (inbound_frame (acc ! k)) = V1_0)"
  using assms
proof (induction ks v ms arbitrary: acc rule: run_validator.induct)
  case (2 ks v m ms)
  show ?case
  proof (cases "check_inbound ks v m")
    case (Pair r v1)
    show ?thesis
    proof (cases r)
      case (Inl e)
      with Pair check_inbound_Inl 2 show ?thesis by fastforce
    next
      case (Inr u)
      obtain acc1 where a: "run_validator ks v1 ms = (acc1, v')" "acc = m # acc1"
        using 2(3) Pair Inr by (auto split: prod.splits)
      note c = check_inbound_Inr [OF Pair [unfolded Inr]]
      from 2(2) [OF Pair [symmetric] Inr a(1)] c a(2) show ?thesis
        by (auto simp: nth_Cons' algebra_simps of_nat_diff)
    qed
  qed
qed simp

text \<open>From a fresh validator the accepted frames carry the sequence numbers 0, 1, 2, ... in order with
  no gap and no repetition, all in the supported version and from the expected worker, and the
  validator expects next the number of frames accepted; a rejected frame changes nothing.\<close>
theorem validator_accepts_gap_free:
  assumes "run_validator ks (validator_new w) ms = (acc, v)" "length acc < 2 ^ 64"
  shows "map (\<lambda>m. unat (fr_sequence_number (inbound_frame m))) acc = [0..<length acc] \<and>
    (\<forall>m \<in> set acc. fr_version (inbound_frame m) = V1_0 \<and> fr_worker_instance_id (inbound_frame m) = w) \<and>
    unat (va_next_expected_seq v) = length acc \<and>
    (\<forall>m e v'. check_inbound ks v m = (Inl e, v') \<longrightarrow> v' = v)"
proof -
  note r = run_validator_seq [OF assms(1)]
  have "map (\<lambda>m. unat (fr_sequence_number (inbound_frame m))) acc = [0..<length acc]"
    using r assms(2) by (intro nth_equalityI) (auto simp: validator_new_def unat_of_nat_u64)
  moreover have "\<forall>m \<in> set acc. fr_version (inbound_frame m) = V1_0 \<and>
      fr_worker_instance_id (inbound_frame m) = w"
    using r by (auto simp: validator_new_def in_set_conv_nth)
  moreover have "unat (va_next_expected_seq v) = length acc"
    using r assms(2) by (simp add: validator_new_def unat_of_nat_u64)
  ultimately show ?thesis using check_inbound_Inl by blast
qed

definition example_accepted :: "nat inbound list" where
  "example_accepted = [FromHost (new_host_command ''w'' 0 Ping 0),
     FromWorker (new_worker_event ''w'' 1 ''r'' GenerationStarted 0)]"

theorem validator_accepts_gap_free_witness:
  "map (\<lambda>m. unat (fr_sequence_number (inbound_frame m))) example_accepted = [0..<2]"
proof -
  have run: "run_validator (\<lambda>_. Some True) (validator_new ''w'')
      [FromHost (new_host_command ''w'' 0 Ping 0),
       FromHost (new_host_command ''w'' 5 Ping 0),
       FromWorker (new_worker_event ''w'' 1 ''r'' GenerationStarted 0)] =
     (example_accepted, \<lparr>va_expected_worker_id = ''w'', va_next_expected_seq = 2,
        va_known_requests = [''r''], va_terminal_requests = []\<rparr>)"
    by (simp add: check_inbound_def validate_host_command_def validate_worker_event_def Let_def
        validate_baseline_def new_host_command_def new_worker_event_def validator_new_def
        advance_seq_def example_accepted_def)
  have len: "length example_accepted = 2" by (simp add: example_accepted_def)
  then have "length example_accepted < 2 ^ 64" by simp
  from validator_accepts_gap_free [OF run this, THEN conjunct1] show ?thesis by (simp only: len)
qed

subsection \<open>The lifecycle of a request\<close>

text \<open>The start and terminal events of one request among the accepted frames: \<open>False\<close> for
  \<open>GenerationStarted\<close>, \<open>True\<close> for a terminal event.\<close>

definition lifecycle_event :: "string \<Rightarrow> 'p inbound \<Rightarrow> bool option" where
  "lifecycle_event rid m = (case m of
      FromHost f \<Rightarrow> None
    | FromWorker f \<Rightarrow> (case fr_message_kind f of
        HostCommand _ \<Rightarrow> None
      | WorkerEvent ev \<Rightarrow>
          if fr_request_id f \<noteq> Some rid then None
          else if ev = GenerationStarted then Some False
          else if is_terminal_event ev then Some True else None))"

definition lifecycle :: "string \<Rightarrow> 'p inbound list \<Rightarrow> bool list" where
  "lifecycle rid ms = List.map_filter (lifecycle_event rid) ms"

definition known :: "string \<Rightarrow> protocol_validator \<Rightarrow> bool" where
  "known rid v \<longleftrightarrow> rid \<in> set (va_known_requests v)"

definition terminated :: "string \<Rightarrow> protocol_validator \<Rightarrow> bool" where
  "terminated rid v \<longleftrightarrow> rid \<in> set (va_terminal_requests v)"

lemma accepted_lifecycle:
  assumes "check_inbound ks v m = (Inr u, v')"
  shows "case lifecycle_event rid m of
      None \<Rightarrow> known rid v' = known rid v \<and> terminated rid v' = terminated rid v
    | Some False \<Rightarrow> \<not> known rid v \<and> known rid v' \<and> terminated rid v' = terminated rid v
    | Some True \<Rightarrow> known rid v \<and> \<not> terminated rid v \<and> \<not> known rid v' \<and> terminated rid v'"
  using assms
  by (cases m) (auto simp: check_inbound_def validate_host_command_def validate_worker_event_def
      Let_def advance_seq_def lifecycle_event_def known_def terminated_def is_terminal_event_def
      split: sum.splits message_kind.splits option.splits if_splits)

lemma lifecycle_Cons: "lifecycle rid (m # ms) =
    (case lifecycle_event rid m of None \<Rightarrow> lifecycle rid ms | Some b \<Rightarrow> b # lifecycle rid ms)"
  by (simp add: lifecycle_def map_filter_simps split: option.split)

lemma run_validator_lifecycle:
  assumes "run_validator ks v ms = (acc, v')"
  shows "lifecycle rid acc \<in>
    (if known rid v then (if terminated rid v then {[]} else {[], [True], [True, False]})
     else (if terminated rid v then {[], [False]}
           else {[], [False], [False, True], [False, True, False]}))"
  using assms
proof (induction ks v ms arbitrary: acc rule: run_validator.induct)
  case (1 ks v)
  then show ?case by (auto simp: lifecycle_def map_filter_simps)
next
  case (2 ks v m ms)
  show ?case
  proof (cases "check_inbound ks v m")
    case (Pair r v1)
    show ?thesis
    proof (cases r)
      case (Inl e)
      with Pair have "v1 = v" using check_inbound_Inl by blast
      with Inl Pair 2 show ?thesis by simp
    next
      case (Inr u)
      obtain acc1 where a: "run_validator ks v1 ms = (acc1, v')" "acc = m # acc1"
        using 2(3) Pair Inr by (auto split: prod.splits)
      note c = accepted_lifecycle [OF Pair [unfolded Inr], of rid]
      note ih = 2(2) [OF Pair [symmetric] Inr a(1)]
      show ?thesis
      proof (cases "lifecycle_event rid m")
        case None
        with c have e: "known rid v1 = known rid v" "terminated rid v1 = terminated rid v"
          "lifecycle rid acc = lifecycle rid acc1"
          using a(2) by (simp_all add: lifecycle_Cons)
        from ih show ?thesis unfolding e .
      next
        case (Some b)
        with c ih a(2) show ?thesis
          by (cases b; cases "terminated rid v") (auto simp: lifecycle_Cons)
      qed
    qed
  qed
qed


lemma run_validator_status:
  assumes "run_validator ks v ms = (acc, v')"
  shows "(known rid v' \<longleftrightarrow> known rid v \<noteq> odd (length (lifecycle rid acc))) \<and>
    (terminated rid v' \<longleftrightarrow> terminated rid v \<or> True \<in> set (lifecycle rid acc))"
  using assms
proof (induction ks v ms arbitrary: acc rule: run_validator.induct)
  case (1 ks v)
  then show ?case by (auto simp: lifecycle_def map_filter_simps)
next
  case (2 ks v m ms)
  show ?case
  proof (cases "check_inbound ks v m")
    case (Pair r v1)
    show ?thesis
    proof (cases r)
      case (Inl e)
      with Pair have "v1 = v" using check_inbound_Inl by blast
      with Inl Pair 2 show ?thesis by simp
    next
      case (Inr u)
      obtain acc1 where a: "run_validator ks v1 ms = (acc1, v')" "acc = m # acc1"
        using 2(3) Pair Inr by (auto split: prod.splits)
      note c = accepted_lifecycle [OF Pair [unfolded Inr], of rid]
      note ih = 2(2) [OF Pair [symmetric] Inr a(1)]
      show ?thesis
      proof (cases "lifecycle_event rid m")
        case None
        with c ih a(2) show ?thesis by (simp add: lifecycle_Cons)
      next
        case (Some b)
        with c ih a(2) show ?thesis by (cases b) (simp_all add: lifecycle_Cons)
      qed
    qed
  qed
qed

text \<open>Whatever is received, the accepted start and terminal events of one request from a fresh
  validator are a prefix of start, terminal, start: a request ends only after it started, never ends
  twice, and starts only while it is not in flight.  The validator's two sets say where it stands.  A
  request that already ended may start once more, and that second run never ends: its terminal events
  are rejected.\<close>
theorem validator_request_lifecycle:
  assumes "run_validator ks (validator_new w) ms = (acc, v)"
  shows "\<exists>n \<le> 3. lifecycle rid acc = take n [False, True, False] \<and>
    (known rid v \<longleftrightarrow> odd n) \<and> (terminated rid v \<longleftrightarrow> 2 \<le> n)"
proof -
  have new: "\<not> known rid (validator_new w)" "\<not> terminated rid (validator_new w)"
    by (simp_all add: known_def terminated_def validator_new_def)
  have "lifecycle rid acc \<in> {[], [False], [False, True], [False, True, False]}"
    using run_validator_lifecycle [OF assms, of rid] new by simp
  then obtain n where n: "n \<le> 3" "lifecycle rid acc = take n [False, True, False]"
    by (auto intro: that [of 0] that [of 1] that [of 2] that [of 3])
  then have "n = 0 \<or> n = 1 \<or> n = 2 \<or> n = 3" by auto
  with n(2) run_validator_status [OF assms, of rid] new
  have "(known rid v \<longleftrightarrow> odd n) \<and> (terminated rid v \<longleftrightarrow> 2 \<le> n)"
    by (elim disjE) simp_all
  with n show ?thesis by blast
qed

definition example_events :: "nat inbound list" where
  "example_events = map (\<lambda>(k, ev). FromWorker (new_worker_event ''w'' k ''r'' ev 0))
     [(0, GenerationStarted), (1, GenerationCompleted), (2, GenerationStarted),
      (3, GenerationCompleted)]"

theorem validator_request_lifecycle_witness:
  "\<exists>acc v. run_validator (\<lambda>_. Some True) (validator_new ''w'') example_events = (acc, v) \<and>
     length acc = 3 \<and> (\<exists>n \<le> 3. lifecycle ''r'' acc = take n [False, True, False] \<and>
       (known ''r'' v \<longleftrightarrow> odd n) \<and> (terminated ''r'' v \<longleftrightarrow> 2 \<le> n))"
proof -
  have run: "run_validator (\<lambda>_. Some True) (validator_new ''w'') example_events =
    (take 3 example_events, \<lparr>va_expected_worker_id = ''w'', va_next_expected_seq = 3,
       va_known_requests = [''r''], va_terminal_requests = [''r'']\<rparr>)"
    by (simp add: example_events_def check_inbound_def validate_worker_event_def
        validate_baseline_def new_worker_event_def validator_new_def advance_seq_def
        is_terminal_event_def)
  have "length (take 3 example_events) = 3" by (simp add: example_events_def)
  with run validator_request_lifecycle [OF run, of "''r''"] show ?thesis by blast
qed

end
