(* ===== verification/Lifecycle.thy ===== *)
theory Lifecycle
  imports Prelude
begin

text \<open>
  The state machines of the runtime: the host-side and worker-side session machines of \<open>session.rs\<close>
  and the arena lifecycle of \<open>arena_lifecycle.rs\<close>.  Two locales state what these machines share: a
  guarded transition function with terminal states (\<open>guarded_fsm\<close>) and, for machines without cycles,
  a rank that grows with every change of state (\<open>ranked_fsm\<close>).
\<close>

subsection \<open>Host-side and worker-side session states\<close>

datatype control_state = CCreated | CAdmitted | CSubmitted | CPrefillReady | CPrefillRunning
  | CDecoding | CCompleted | CCancelled | CFailed

fun control_is_terminal :: "control_state \<Rightarrow> bool" where
  "control_is_terminal CCompleted = True"
| "control_is_terminal CCancelled = True"
| "control_is_terminal CFailed = True"
| "control_is_terminal _ = False"

definition control_can_transition :: "control_state \<Rightarrow> control_state \<Rightarrow> bool" where
  "control_can_transition s next = (
     if s = next then True
     else if control_is_terminal s then False
     else case (s, next) of
       (CCreated, CAdmitted) \<Rightarrow> True
     | (CAdmitted, CSubmitted) \<Rightarrow> True
     | (CSubmitted, CPrefillRunning) \<Rightarrow> True
     | (CPrefillRunning, CDecoding) \<Rightarrow> True
     | (CDecoding, CCompleted) \<Rightarrow> True
     | (CDecoding, CCancelled) \<Rightarrow> True
     | (CPrefillReady, CCancelled) \<Rightarrow> True
     | (CPrefillRunning, CCancelled) \<Rightarrow> True
     | (CAdmitted, CCancelled) \<Rightarrow> True
     | (CSubmitted, CCancelled) \<Rightarrow> True
     | (CPrefillReady, CPrefillRunning) \<Rightarrow> True
     | (CCreated, CPrefillReady) \<Rightarrow> True
     | (CAdmitted, CPrefillReady) \<Rightarrow> True
     | (_, CFailed) \<Rightarrow> True
     | _ \<Rightarrow> False)"

datatype session_outcome = OutCompleted (token_count: u32) | OutCancelled (reason: string)
  | OutFailed (error_code: string) (message: string)

text \<open>The only error of a transition: the state and the refused target.\<close>

datatype 's transition_error = InvalidTransition 's 's

definition control_transition :: "control_state \<Rightarrow> control_state
    \<Rightarrow> control_state transition_error + unit" where
  "control_transition s next =
     (if control_can_transition s next then Inr () else Inl (InvalidTransition s next))"

record control_session =
  cs_session_id :: string
  cs_model_image_hash :: "string option"
  cs_worker_pid :: "u32 option"
  cs_admission_receipt_json :: "string option"
  cs_terminal_outcome :: "session_outcome option"
  cs_position :: u32
  cs_eos_token_id :: u32
  cs_max_tokens :: u32
  cs_state :: control_state

definition control_session_new :: "string \<Rightarrow> u32 \<Rightarrow> u32 \<Rightarrow> control_session" where
  "control_session_new session_id eos_token_id max_tokens = \<lparr>cs_session_id = session_id,
     cs_model_image_hash = None, cs_worker_pid = None, cs_admission_receipt_json = None,
     cs_terminal_outcome = None, cs_position = 0, cs_eos_token_id = eos_token_id,
     cs_max_tokens = max_tokens, cs_state = CCreated\<rparr>"

definition control_session_transition :: "control_session \<Rightarrow> control_state
    \<Rightarrow> (control_state transition_error + unit) \<times> control_session" where
  "control_session_transition cs next = (case control_transition (cs_state cs) next of
      Inr _ \<Rightarrow> (Inr (), cs\<lparr>cs_state := next\<rparr>)
    | Inl e \<Rightarrow> (Inl e, cs))"

datatype inference_state = ICreated | IPrefillRunning | IDecoding | ICompleted | ICancelled | IFailed

fun inference_is_terminal :: "inference_state \<Rightarrow> bool" where
  "inference_is_terminal ICompleted = True"
| "inference_is_terminal ICancelled = True"
| "inference_is_terminal IFailed = True"
| "inference_is_terminal _ = False"

definition inference_can_transition :: "inference_state \<Rightarrow> inference_state \<Rightarrow> bool" where
  "inference_can_transition s next = (
     if s = next then True
     else if inference_is_terminal s then False
     else case (s, next) of
       (ICreated, IPrefillRunning) \<Rightarrow> True
     | (IPrefillRunning, IDecoding) \<Rightarrow> True
     | (IDecoding, ICompleted) \<Rightarrow> True
     | (IDecoding, ICancelled) \<Rightarrow> True
     | (IPrefillRunning, ICancelled) \<Rightarrow> True
     | (_, IFailed) \<Rightarrow> True
     | _ \<Rightarrow> False)"

definition inference_transition :: "inference_state \<Rightarrow> inference_state
    \<Rightarrow> inference_state transition_error + unit" where
  "inference_transition s next =
     (if inference_can_transition s next then Inr () else Inl (InvalidTransition s next))"

text \<open>The worker's session; \<open>'c\<close> is the type of its per-layer caches.\<close>

record 'c inference_session =
  is_session_id :: string
  is_absolute_position :: u32
  is_kv_caches :: "'c list"
  is_generated_tokens :: "u32 list"
  is_phase :: inference_state
  is_cancellation_flag :: bool
  is_receipts_json :: "string list"

definition inference_session_new :: "string \<Rightarrow> 'c list \<Rightarrow> 'c inference_session" where
  "inference_session_new session_id kv_caches = \<lparr>is_session_id = session_id,
     is_absolute_position = 0, is_kv_caches = kv_caches, is_generated_tokens = [],
     is_phase = ICreated, is_cancellation_flag = False, is_receipts_json = []\<rparr>"

definition inference_session_transition :: "'c inference_session \<Rightarrow> inference_state
    \<Rightarrow> (inference_state transition_error + unit) \<times> 'c inference_session" where
  "inference_session_transition s next = (case inference_transition (is_phase s) next of
      Inr _ \<Rightarrow> (Inr (), s\<lparr>is_phase := next\<rparr>)
    | Inl e \<Rightarrow> (Inl e, s))"

subsection \<open>The arena lifecycle\<close>

datatype arena_state = Free | MlxWriteLeased | MlxWritePending | CoreMlWriteLeased
  | CoreMlWritePending | Produced | MlxReadLeased | CoreMlReadLeased | Retiring | Released

datatype leased_backend = Mlx | CoreMl

datatype access_mode = Read | Write

text \<open>An arena identity: the random identifier is an argument, the process-wide generation counter
  is read and incremented.  A lease also records when it was acquired.\<close>

record arena_id =
  ai_id :: nat
  ai_generation :: u64

definition arena_id_new :: "nat \<Rightarrow> u64 \<Rightarrow> arena_id \<times> u64" where
  "arena_id_new uuid next_gen = (\<lparr>ai_id = uuid, ai_generation = next_gen\<rparr>, next_gen + 1)"

record arena_lease =
  al_arena_id :: arena_id
  al_state :: arena_state
  al_owner_session :: nat
  al_job_id :: nat
  al_backend :: leased_backend
  al_access :: access_mode
  al_acquired_at :: nat

definition arena_lease_new :: "arena_id \<Rightarrow> arena_state \<Rightarrow> nat \<Rightarrow> nat \<Rightarrow> leased_backend
    \<Rightarrow> access_mode \<Rightarrow> nat \<Rightarrow> arena_lease" where
  "arena_lease_new arena_id st owner_session job_id backend access now = \<lparr>al_arena_id = arena_id,
     al_state = st, al_owner_session = owner_session, al_job_id = job_id, al_backend = backend,
     al_access = access, al_acquired_at = now\<rparr>"

definition validate_transition :: "arena_state \<Rightarrow> arena_state
    \<Rightarrow> arena_state transition_error + arena_state" where
  "validate_transition current desired = (case (current, desired) of
       (Free, MlxWriteLeased) \<Rightarrow> Inr desired
     | (Free, CoreMlWriteLeased) \<Rightarrow> Inr desired
     | (MlxWriteLeased, MlxWritePending) \<Rightarrow> Inr desired
     | (CoreMlWriteLeased, CoreMlWritePending) \<Rightarrow> Inr desired
     | (MlxWritePending, Produced) \<Rightarrow> Inr desired
     | (CoreMlWritePending, Produced) \<Rightarrow> Inr desired
     | (Produced, MlxReadLeased) \<Rightarrow> Inr desired
     | (Produced, CoreMlReadLeased) \<Rightarrow> Inr desired
     | (MlxReadLeased, Produced) \<Rightarrow> Inr desired
     | (CoreMlReadLeased, Produced) \<Rightarrow> Inr desired
     | (Produced, Free) \<Rightarrow> Inr Free
     | (Free, Retiring) \<Rightarrow> Inr Retiring
     | (Produced, Retiring) \<Rightarrow> Inr Retiring
     | (Retiring, Released) \<Rightarrow> Inr Released
     | _ \<Rightarrow> Inl (InvalidTransition current desired))"

subsection \<open>Guarded machines\<close>

text \<open>A machine moves to a requested state when the guard allows it and stays otherwise; a run takes
  a list of requests and gives the states it goes through.\<close>

primrec run_states :: "('s \<Rightarrow> 's \<Rightarrow> bool) \<Rightarrow> 's \<Rightarrow> 's list \<Rightarrow> 's list" where
  "run_states can s [] = []"
| "run_states can s (t # ts) = (if can s t then t # run_states can t ts else s # run_states can s ts)"

definition final_state :: "('s \<Rightarrow> 's \<Rightarrow> bool) \<Rightarrow> 's \<Rightarrow> 's list \<Rightarrow> 's" where
  "final_state can s ts = last (s # run_states can s ts)"

text \<open>The number of actual changes of state in a run.\<close>

primrec changes :: "'s \<Rightarrow> 's list \<Rightarrow> nat" where
  "changes s [] = 0"
| "changes s (t # ts) = (if t = s then 0 else 1) + changes t ts"

lemma final_state_Nil [simp]: "final_state can s [] = s"
  by (simp add: final_state_def)

lemma final_state_Cons [simp]:
  "final_state can s (t # ts) = final_state can (if can s t then t else s) ts"
  by (simp add: final_state_def)

locale guarded_fsm =
  fixes can :: "'s \<Rightarrow> 's \<Rightarrow> bool"
    and is_terminal :: "'s \<Rightarrow> bool"
  assumes terminal_stays: "is_terminal s \<Longrightarrow> can s t \<Longrightarrow> t = s"
begin

lemma terminal_run: "is_terminal s \<Longrightarrow> t \<in> set (run_states can s ts) \<Longrightarrow> t = s"
  by (induction ts) (auto dest: terminal_stays split: if_splits)

lemma terminal_final: "is_terminal s \<Longrightarrow> final_state can s ts = s"
  using terminal_run [of s] by (auto simp: final_state_def dest: last_in_set)

lemma inv_run:
  assumes "P s" "\<And>s t. P s \<Longrightarrow> can s t \<Longrightarrow> P t"
  shows "P (final_state can s ts)"
  using assms(1) by (induction ts arbitrary: s) (auto intro: assms(2))

text \<open>A state that can only be entered from \<open>p\<close> is reached only through \<open>p\<close>.\<close>

lemma entered_through:
  assumes "\<And>s. can s q \<Longrightarrow> s \<noteq> q \<Longrightarrow> s = p" "s \<noteq> q" "final_state can s ts = q"
  shows "p \<in> set (s # run_states can s ts)"
  using assms(2,3)
proof (induction ts arbitrary: s)
  case (Cons t ts)
  show ?case
  proof (cases "can s t")
    case True
    show ?thesis
    proof (cases "t = q")
      case True
      with \<open>can s t\<close> Cons.prems(1) assms(1) have "s = p" by blast
      then show ?thesis by simp
    next
      case False
      with Cons \<open>can s t\<close> show ?thesis by fastforce
    qed
  next
    case False
    with Cons show ?thesis by fastforce
  qed
qed simp

end

locale ranked_fsm = guarded_fsm +
  fixes rank :: "'s \<Rightarrow> nat" and top :: nat
  assumes rank_grows: "can s t \<Longrightarrow> t \<noteq> s \<Longrightarrow> rank s < rank t"
    and rank_top: "rank s \<le> top"
begin

lemma changes_rank: "changes s (run_states can s ts) + rank s \<le> rank (final_state can s ts)"
proof (induction ts arbitrary: s)
  case (Cons t ts)
  show ?case
  proof (cases "can s t \<and> t \<noteq> s")
    case True
    then show ?thesis using Cons.IH [of t] rank_grows [of s t] by simp
  next
    case False
    then show ?thesis using Cons.IH [of s] by (cases "can s t") auto
  qed
qed simp

lemma changes_bound: "changes s (run_states can s ts) \<le> top - rank s"
  using changes_rank [of s ts] rank_top [of "final_state can s ts"] by linarith

lemma never_back:
  assumes "can s t" "t \<noteq> s"
  shows "s \<notin> set (run_states can t ts)"
proof -
  have "rank t \<le> rank u" if "u \<in> set (run_states can t ts)" for t u
    using that
  proof (induction ts arbitrary: t)
    case (Cons x ts)
    then show ?case by (cases "t = x") (fastforce split: if_splits dest: rank_grows)+
  qed simp
  with rank_grows [OF assms] show ?thesis by fastforce
qed

end

subsection \<open>The session machines are ranked\<close>

fun control_rank :: "control_state \<Rightarrow> nat" where
  "control_rank CCreated = 0"
| "control_rank CAdmitted = 1"
| "control_rank CSubmitted = 2"
| "control_rank CPrefillReady = 2"
| "control_rank CPrefillRunning = 3"
| "control_rank CDecoding = 4"
| "control_rank _ = 5"

fun inference_rank :: "inference_state \<Rightarrow> nat" where
  "inference_rank ICreated = 0"
| "inference_rank IPrefillRunning = 1"
| "inference_rank IDecoding = 2"
| "inference_rank _ = 3"

interpretation ctl: ranked_fsm control_can_transition control_is_terminal control_rank 5
proof
  fix s t :: control_state
  show "control_is_terminal s \<Longrightarrow> control_can_transition s t \<Longrightarrow> t = s"
    by (simp add: control_can_transition_def split: if_splits)
  show "control_can_transition s t \<Longrightarrow> t \<noteq> s \<Longrightarrow> control_rank s < control_rank t"
    by (cases s; cases t) (simp_all add: control_can_transition_def)
  show "control_rank s \<le> 5" by (cases s) simp_all
qed

interpretation inf: ranked_fsm inference_can_transition inference_is_terminal inference_rank 3
proof
  fix s t :: inference_state
  show "inference_is_terminal s \<Longrightarrow> inference_can_transition s t \<Longrightarrow> t = s"
    by (simp add: inference_can_transition_def split: if_splits)
  show "inference_can_transition s t \<Longrightarrow> t \<noteq> s \<Longrightarrow> inference_rank s < inference_rank t"
    by (cases s; cases t) (simp_all add: inference_can_transition_def)
  show "inference_rank s \<le> 3" by (cases s) simp_all
qed

definition arena_can :: "arena_state \<Rightarrow> arena_state \<Rightarrow> bool" where
  "arena_can s t \<longleftrightarrow> validate_transition s t = Inr t"

interpretation arn: guarded_fsm arena_can "\<lambda>s. s = Released"
  by unfold_locales (auto simp: arena_can_def validate_transition_def split: arena_state.splits)

subsection \<open>Histories of a session\<close>

definition control_run :: "control_session \<Rightarrow> control_state list \<Rightarrow> control_session" where
  "control_run cs ts = foldl (\<lambda>c t. snd (control_session_transition c t)) cs ts"

definition inference_run :: "'c inference_session \<Rightarrow> inference_state list \<Rightarrow> 'c inference_session"
  where
  "inference_run s ts = foldl (\<lambda>c t. snd (inference_session_transition c t)) s ts"

lemma control_run_state: "control_run cs ts =
    cs\<lparr>cs_state := final_state control_can_transition (cs_state cs) ts\<rparr>"
  by (induction ts arbitrary: cs)
    (simp_all add: control_run_def control_session_transition_def control_transition_def)

lemma inference_run_state: "inference_run s ts =
    s\<lparr>is_phase := final_state inference_can_transition (is_phase s) ts\<rparr>"
  by (induction ts arbitrary: s)
    (simp_all add: inference_run_def inference_session_transition_def inference_transition_def)

lemma entered_completed: "control_can_transition s CCompleted \<Longrightarrow> s \<noteq> CCompleted \<Longrightarrow> s = CDecoding"
  by (cases s) (simp_all add: control_can_transition_def)

lemma entered_decoding: "control_can_transition s CDecoding \<Longrightarrow> s \<noteq> CDecoding \<Longrightarrow> s = CPrefillRunning"
  by (cases s) (simp_all add: control_can_transition_def)

lemma run_states_prefix:
  assumes "x \<in> set (run_states can s ts)"
  shows "\<exists>n. n \<le> length ts \<and> final_state can s (take n ts) = x \<and>
    set (run_states can s (take n ts)) \<subseteq> set (run_states can s ts)"
  using assms
proof (induction ts arbitrary: s)
  case (Cons t ts)
  let ?s' = "if can s t then t else s"
  have run: "run_states can s (t # us) = ?s' # run_states can ?s' us" for us by simp
  show ?case
  proof (cases "x = ?s'")
    case True
    then show ?thesis by (intro exI [of _ 1]) auto
  next
    case False
    with Cons.prems have "x \<in> set (run_states can ?s' ts)" by (auto split: if_splits)
    then obtain n where "n \<le> length ts" "final_state can ?s' (take n ts) = x"
      "set (run_states can ?s' (take n ts)) \<subseteq> set (run_states can ?s' ts)"
      using Cons.IH by blast
    then show ?thesis
      by (intro exI [of _ "Suc n"]) (auto simp: run simp del: run_states.simps(2))
  qed
qed simp


text \<open>Whatever transitions are requested of a new host session, its identity and limits never
  change, its state changes at most five times, it completes only after it was running its prefill and
  then decoding, and once it is completed, cancelled or failed no later request changes it.\<close>
theorem control_session_history:
  assumes "cs = control_run (control_session_new session_id eos max_tok) ts"
  shows "cs\<lparr>cs_state := CCreated\<rparr> = control_session_new session_id eos max_tok \<and>
    changes CCreated (run_states control_can_transition CCreated ts) \<le> 5 \<and>
    (cs_state cs = CCompleted \<longrightarrow>
      {CPrefillRunning, CDecoding} \<subseteq> set (run_states control_can_transition CCreated ts)) \<and>
    (control_is_terminal (cs_state cs) \<longrightarrow> control_run cs ts' = cs)"
proof -
  let ?new = "control_session_new session_id eos max_tok"
  let ?run = "run_states control_can_transition CCreated"
  have state: "cs_state cs = final_state control_can_transition CCreated ts"
    by (simp add: assms control_run_state control_session_new_def)
  have fields: "cs\<lparr>cs_state := CCreated\<rparr> = ?new"
    by (simp add: assms control_run_state control_session_new_def)
  have decoding: "CPrefillRunning \<in> set (?run us)"
    if "final_state control_can_transition CCreated us = CDecoding" for us
    using ctl.entered_through [OF entered_decoding _ that] by simp
  have completed: "{CPrefillRunning, CDecoding} \<subseteq> set (?run ts)" if "cs_state cs = CCompleted"
  proof -
    have d: "CDecoding \<in> set (?run ts)"
      using ctl.entered_through [OF entered_completed _ that [unfolded state]] by simp
    then obtain n where "final_state control_can_transition CCreated (take n ts) = CDecoding"
      "set (?run (take n ts)) \<subseteq> set (?run ts)"
      using run_states_prefix [OF d] by auto
    with decoding d show ?thesis by blast
  qed
  have stays: "control_run cs ts' = cs" if "control_is_terminal (cs_state cs)"
    by (simp add: control_run_state ctl.terminal_final [OF that])
  show ?thesis
    using fields completed stays ctl.changes_bound [of CCreated ts] by simp
qed

theorem control_session_history_witness:
  "\<exists>cs. cs = control_run (control_session_new ''s'' 2 64)
       [CAdmitted, CDecoding, CSubmitted, CPrefillRunning, CDecoding, CCompleted] \<and>
     cs_state cs = CCompleted \<and> control_run cs [CFailed, CCancelled] = cs"
  using control_session_history [OF refl, of "''s''" 2 64
      "[CAdmitted, CDecoding, CSubmitted, CPrefillRunning, CDecoding, CCompleted]"
      "[CFailed, CCancelled]"]
  by (simp add: control_run_state control_session_new_def control_can_transition_def)

text \<open>The host's view of the worker's phase.\<close>

fun host_view :: "inference_state \<Rightarrow> control_state" where
  "host_view ICreated = CSubmitted"
| "host_view IPrefillRunning = CPrefillRunning"
| "host_view IDecoding = CDecoding"
| "host_view ICompleted = CCompleted"
| "host_view ICancelled = CCancelled"
| "host_view IFailed = CFailed"

lemma host_view_can: "inference_can_transition s t \<Longrightarrow>
    control_can_transition (host_view s) (host_view t)"
  by (cases s; cases t) (simp_all add: inference_can_transition_def control_can_transition_def)

lemma control_can_trans_accepted:
  "run_states inference_can_transition s ts = ts \<Longrightarrow>
   run_states control_can_transition (host_view s) (map host_view ts) = map host_view ts"
proof (induction ts arbitrary: s)
  case (Cons t ts)
  show ?case
  proof (cases "inference_can_transition s t")
    case True
    with Cons host_view_can [OF True] show ?thesis by simp
  next
    case False
    with Cons.prems have "s = t" by simp
    with False show ?thesis by (simp add: inference_can_transition_def)
  qed
qed simp

lemma run_states_idem:
  assumes "\<And>s. can s s"
  shows "run_states can s (run_states can s ts) = run_states can s ts"
  by (induction ts arbitrary: s) (use assms in auto)

text \<open>The host machine simulates the worker machine.  The phases a worker session goes through,
  whatever is requested of it, are a history the host machine accepts step by step from \<open>Submitted\<close>;
  the phase changes at most three times, and both machines agree on what is terminal.\<close>
theorem worker_history_refines_host:
  fixes s :: "'c inference_session"
  assumes "s = inference_run (inference_session_new session_id caches) ts"
  shows "host_view (is_phase s) = final_state control_can_transition CSubmitted
      (map host_view (run_states inference_can_transition ICreated ts)) \<and>
    run_states control_can_transition CSubmitted
      (map host_view (run_states inference_can_transition ICreated ts)) =
      map host_view (run_states inference_can_transition ICreated ts) \<and>
    changes ICreated (run_states inference_can_transition ICreated ts) \<le> 3 \<and>
    inference_is_terminal (is_phase s) = control_is_terminal (host_view (is_phase s)) \<and>
    s\<lparr>is_phase := ICreated\<rparr> = inference_session_new session_id caches"
proof -
  let ?r = "run_states inference_can_transition ICreated ts"
  have state: "is_phase s = final_state inference_can_transition ICreated ts"
    by (simp add: assms inference_run_state inference_session_new_def)
  have idem: "run_states inference_can_transition ICreated ?r = ?r"
    by (rule run_states_idem) (simp add: inference_can_transition_def)
  note acc = control_can_trans_accepted [OF idem, unfolded host_view.simps]
  have "host_view (is_phase s) = last (map host_view (ICreated # ?r))"
    by (simp add: state final_state_def last_map)
  also have "\<dots> = final_state control_can_transition CSubmitted (map host_view ?r)"
    by (simp add: final_state_def acc)
  finally have v: "host_view (is_phase s) = \<dots>" .
  have t: "inference_is_terminal p = control_is_terminal (host_view p)" for p
    by (cases p) simp_all
  have f: "s\<lparr>is_phase := ICreated\<rparr> = inference_session_new session_id caches"
    by (simp add: assms inference_run_state inference_session_new_def)
  show ?thesis using v acc t f inf.changes_bound [of ICreated ts] by simp
qed

theorem worker_history_refines_host_witness:
  "run_states control_can_transition CSubmitted [CPrefillRunning, CDecoding, CDecoding, CCancelled] =
     [CPrefillRunning, CDecoding, CDecoding, CCancelled]"
  using worker_history_refines_host [OF refl, of "''s''" "[]::nat list"
      "[IPrefillRunning, IDecoding, ICreated, ICancelled]"]
  by (simp add: inference_can_transition_def)

subsection \<open>The arena lifecycle\<close>

text \<open>Who may touch the contents of an arena in a state, and whether it writes.\<close>

fun holder :: "arena_state \<Rightarrow> (leased_backend \<times> access_mode) option" where
  "holder MlxWriteLeased = Some (Mlx, Write)"
| "holder MlxWritePending = Some (Mlx, Write)"
| "holder CoreMlWriteLeased = Some (CoreMl, Write)"
| "holder CoreMlWritePending = Some (CoreMl, Write)"
| "holder MlxReadLeased = Some (Mlx, Read)"
| "holder CoreMlReadLeased = Some (CoreMl, Read)"
| "holder _ = None"

fun to_retire :: "arena_state \<Rightarrow> arena_state list" where
  "to_retire MlxWriteLeased = [MlxWritePending, Produced, Retiring, Released]"
| "to_retire CoreMlWriteLeased = [CoreMlWritePending, Produced, Retiring, Released]"
| "to_retire Retiring = [Released]"
| "to_retire Released = []"
| "to_retire Free = [Retiring, Released]"
| "to_retire Produced = [Retiring, Released]"
| "to_retire _ = [Produced, Retiring, Released]"

text \<open>A holder changes only through a state nobody holds.\<close>

primrec no_handoff :: "arena_state \<Rightarrow> arena_state list \<Rightarrow> bool" where
  "no_handoff s [] \<longleftrightarrow> True"
| "no_handoff s (t # ts) \<longleftrightarrow>
     (holder s = None \<or> holder t = None \<or> holder s = holder t) \<and> no_handoff t ts"

lemma arena_can_holder: "arena_can s t \<Longrightarrow> holder s = None \<or> holder t = None \<or> holder s = holder t"
  by (cases s; cases t) (simp_all add: arena_can_def validate_transition_def)

lemma arena_no_handoff: "no_handoff s (run_states arena_can s ts)"
proof (induction ts arbitrary: s)
  case (Cons t ts)
  then show ?case using arena_can_holder [of s t] by simp
qed simp

lemma to_retire_runs: "run_states arena_can s (to_retire s) = to_retire s \<and>
    final_state arena_can s (to_retire s) = Released \<and> length (to_retire s) \<le> 4"
  by (cases s) (simp_all add: arena_can_def validate_transition_def)

lemma produced_through_write:
  assumes "final_state arena_can Free ts = Produced"
  shows "MlxWritePending \<in> set (run_states arena_can Free ts) \<or>
    CoreMlWritePending \<in> set (run_states arena_can Free ts)"
proof -
  have "s \<notin> {Produced, MlxReadLeased, CoreMlReadLeased} \<Longrightarrow>
      final_state arena_can s ts = Produced \<Longrightarrow>
      MlxWritePending \<in> set (s # run_states arena_can s ts) \<or>
      CoreMlWritePending \<in> set (s # run_states arena_can s ts)" for s
  proof (induction ts arbitrary: s)
    case (Cons t ts)
    show ?case
    proof (cases "arena_can s t")
      case True
      show ?thesis
      proof (cases "t \<in> {Produced, MlxReadLeased, CoreMlReadLeased}")
        case True
        with \<open>arena_can s t\<close> Cons.prems(1) have "s = MlxWritePending \<or> s = CoreMlWritePending"
          by (cases s; cases t) (simp_all add: arena_can_def validate_transition_def)
        then show ?thesis by auto
      next
        case False
        with Cons.IH [of t] Cons.prems \<open>arena_can s t\<close> show ?thesis by auto
      qed
    next
      case False
      with Cons.IH [of s] Cons.prems show ?thesis by auto
    qed
  qed auto
  from this [of Free] assms show ?thesis by simp
qed

text \<open>Whatever transitions are requested of a free arena, no backend takes it over directly from
  another holder or access mode, it is ready to read only after some backend's write was pending,
  it can be released from wherever it is in at most four steps, and a released arena stays released.\<close>
theorem arena_lifecycle_safe:
  assumes "s = final_state arena_can Free ts"
  shows "no_handoff Free (run_states arena_can Free ts) \<and>
    (s = Produced \<longrightarrow> MlxWritePending \<in> set (run_states arena_can Free ts) \<or>
       CoreMlWritePending \<in> set (run_states arena_can Free ts)) \<and>
    (\<exists>us. length us \<le> 4 \<and> run_states arena_can s us = us \<and> final_state arena_can s us = Released) \<and>
    (s = Released \<longrightarrow> final_state arena_can s us' = Released)"
proof (intro conjI impI)
  show "no_handoff Free (run_states arena_can Free ts)" by (rule arena_no_handoff)
  show "MlxWritePending \<in> set (run_states arena_can Free ts) \<or>
      CoreMlWritePending \<in> set (run_states arena_can Free ts)" if "s = Produced"
    by (rule produced_through_write) (simp add: assms [symmetric] that)
  show "\<exists>us. length us \<le> 4 \<and> run_states arena_can s us = us \<and> final_state arena_can s us = Released"
    using to_retire_runs [of s] by (intro exI [of _ "to_retire s"]) simp
  show "final_state arena_can s us' = Released" if "s = Released"
    using arn.terminal_final [OF that] that by simp
qed

theorem arena_lifecycle_safe_witness:
  "MlxWritePending \<in> set (run_states arena_can Free
     [CoreMlReadLeased, MlxWriteLeased, CoreMlWritePending, MlxWritePending, Produced])"
  using arena_lifecycle_safe [OF refl, of "[CoreMlReadLeased, MlxWriteLeased, CoreMlWritePending,
      MlxWritePending, Produced]"]
  by (simp add: arena_can_def validate_transition_def)

end
