(* ===== verification/ArenaPool.thy ===== *)
theory ArenaPool
  imports Lifecycle "HOL-Library.Multiset"
begin

text \<open>
  The bounded pool of shared tensor arenas of \<open>arena_pool.rs\<close>.  The hash map of the pool is an
  association list with one entry list per key.  Allocation is done by the operating system: the
  result of \<open>Arena::new\<close> is an argument of \<open>acquire\<close>, which looks at it only when it allocates.  An
  arena is its surface identity and its byte size; byte counts are natural numbers, since the sizes
  of live allocations cannot add up to \<open>2 ^ 64\<close>.
\<close>

record pool_key =
  pk_profile :: string
  pk_dim0 :: u32
  pk_dim1 :: u32

record arena =
  ar_surface :: nat
  ar_byte_len :: nat

record pool_entry =
  pe_arena :: arena
  pe_generation :: u64
  pe_state :: arena_state

record arena_pool =
  ap_entries :: "(pool_key \<times> pool_entry list) list"
  ap_max_total_bytes :: nat
  ap_current_bytes :: nat
  ap_max_arenas_per_key :: nat

definition arena_pool_new :: "nat \<Rightarrow> nat \<Rightarrow> arena_pool" where
  "arena_pool_new max_total_bytes max_arenas_per_key = \<lparr>ap_entries = [],
     ap_max_total_bytes = max_total_bytes, ap_current_bytes = 0,
     ap_max_arenas_per_key = max_arenas_per_key\<rparr>"

datatype pool_error = UnsupportedProfile string | AllocFailed string
  | BudgetExceeded nat nat nat

definition supported_profile :: string where
  "supported_profile = ''IOSurfaceFp16ContiguousV1''"

definition take_free :: "arena_pool \<Rightarrow> pool_key \<Rightarrow> (arena \<times> arena_pool) option" where
  "take_free p key = (case map_of (ap_entries p) key of
      None \<Rightarrow> None
    | Some vec \<Rightarrow> (case find_idx (\<lambda>e. pe_state e = Free) vec of
        None \<Rightarrow> None
      | Some idx \<Rightarrow> Some (pe_arena (vec ! idx),
          p\<lparr>ap_entries := AList.update key (remove_nth idx vec) (ap_entries p)\<rparr>)))"

definition pool_acquire :: "string + arena \<Rightarrow> arena_pool \<Rightarrow> string \<Rightarrow> u32 \<Rightarrow> u32
    \<Rightarrow> (pool_error + arena \<times> bool) \<times> arena_pool" where
  "pool_acquire alloc p profile dim0 dim1 = (
     if profile \<noteq> supported_profile then (Inl (UnsupportedProfile profile), p)
     else case take_free p \<lparr>pk_profile = profile, pk_dim0 = dim0, pk_dim1 = dim1\<rparr> of
       Some (a, p') \<Rightarrow> (Inr (a, True), p')
     | None \<Rightarrow> (case alloc of
         Inl e \<Rightarrow> (Inl (AllocFailed e), p)
       | Inr a \<Rightarrow>
           if ap_current_bytes p + ar_byte_len a > ap_max_total_bytes p
           then (Inl (BudgetExceeded (ap_current_bytes p) (ar_byte_len a) (ap_max_total_bytes p)), p)
           else (Inr (a, False), p\<lparr>ap_current_bytes := ap_current_bytes p + ar_byte_len a\<rparr>)))"

definition pool_release :: "arena_pool \<Rightarrow> string \<Rightarrow> u32 \<Rightarrow> u32 \<Rightarrow> arena \<Rightarrow> arena_pool" where
  "pool_release p profile dim0 dim1 a = (
     let key = \<lparr>pk_profile = profile, pk_dim0 = dim0, pk_dim1 = dim1\<rparr>;
         vec = (case map_of (ap_entries p) key of None \<Rightarrow> [] | Some v \<Rightarrow> v) in
     if length vec \<ge> ap_max_arenas_per_key p
     then p\<lparr>ap_entries := AList.update key vec (ap_entries p),
            ap_current_bytes := ap_current_bytes p - ar_byte_len a\<rparr>
     else p\<lparr>ap_entries := AList.update key
              (vec @ [\<lparr>pe_arena = a, pe_generation = 0, pe_state = Free\<rparr>]) (ap_entries p)\<rparr>)"

record pool_stats =
  ps_total_entries :: nat
  ps_free_entries :: nat
  ps_current_bytes :: nat
  ps_max_bytes :: nat

definition arena_pool_stats :: "arena_pool \<Rightarrow> pool_stats" where
  "arena_pool_stats p = \<lparr>
     ps_total_entries = sum_list (map (\<lambda>(_, v). length v) (ap_entries p)),
     ps_free_entries =
       sum_list (map (\<lambda>(_, v). length (filter (\<lambda>e. pe_state e = Free) v)) (ap_entries p)),
     ps_current_bytes = ap_current_bytes p, ps_max_bytes = ap_max_total_bytes p\<rparr>"

subsection \<open>The pool and the arenas its clients hold\<close>

text \<open>The arenas of the pool, and those handed out.  A client releases an arena under the shape it
  acquired it with; the system never allocates a surface that is still live.\<close>

definition pooled :: "arena_pool \<Rightarrow> arena list" where
  "pooled p = concat (map (\<lambda>(_, v). map pe_arena v) (ap_entries p))"

inductive pool_step :: "arena_pool \<times> (pool_key \<times> arena) list
    \<Rightarrow> arena_pool \<times> (pool_key \<times> arena) list \<Rightarrow> bool" where
  acquired: "pool_acquire alloc p (pk_profile (key :: pool_key)) (pk_dim0 key) (pk_dim1 key) =
       (Inr (a, r), p') \<Longrightarrow>
     (\<And>b. alloc = Inr b \<Longrightarrow> ar_surface b \<notin> ar_surface ` (set (pooled p) \<union> snd ` set held)) \<Longrightarrow>
     pool_step (p, held) (p', (key, a) # held)"
| refused: "pool_acquire alloc p profile dim0 dim1 = (Inl e, p') \<Longrightarrow>
     pool_step (p, held) (p', held)"
| released: "held = xs @ ((key :: pool_key), a) # ys \<Longrightarrow>
     pool_step (p, held)
       (pool_release p (pk_profile key) (pk_dim0 key) (pk_dim1 key) a, xs @ ys)"

inductive_cases pool_stepE: "pool_step (p, held) s'"

inductive pool_reach :: "arena_pool \<Rightarrow> arena_pool \<times> (pool_key \<times> arena) list \<Rightarrow> bool" for p0 where
  start: "pool_reach p0 (p0, [])"
| step: "pool_reach p0 s \<Longrightarrow> pool_step s s' \<Longrightarrow> pool_reach p0 s'"

definition bytes_of :: "arena list \<Rightarrow> nat" where
  "bytes_of as = sum_list (map ar_byte_len as)"

definition pool_inv :: "nat \<Rightarrow> nat \<Rightarrow> arena_pool \<times> (pool_key \<times> arena) list \<Rightarrow> bool" where
  "pool_inv max_bytes per_key s \<longleftrightarrow> (case s of (p, held) \<Rightarrow>
     ap_max_total_bytes p = max_bytes \<and> ap_max_arenas_per_key p = per_key \<and>
     ap_current_bytes p = bytes_of (pooled p) + bytes_of (map snd held) \<and>
     ap_current_bytes p \<le> max_bytes \<and>
     distinct (map ar_surface (pooled p @ map snd held)) \<and>
     (\<forall>kv \<in> set (ap_entries p). length (snd kv) \<le> per_key \<and>
        (\<forall>e \<in> set (snd kv). pe_state e = Free \<and> pe_generation e = 0)))"

subsection \<open>Accounting lemmas\<close>

lemma mset_remove_nth: "i < length xs \<Longrightarrow> add_mset (xs ! i) (mset (remove_nth i xs)) = mset xs"
  by (subst (3) split_at [of i xs]) (simp_all add: remove_nth_def)

lemma pooled_update:
  "mset (concat (map (\<lambda>(_, v). map f v) (AList.update k v al))) +
     mset (map f (case map_of al k of None \<Rightarrow> [] | Some w \<Rightarrow> w)) =
   mset (concat (map (\<lambda>(_, v). map f v) al)) + mset (map f v)"
  by (induction al) (auto simp: ac_simps)

lemma take_free_Some:
  assumes "take_free p key = Some (a, p')"
  obtains vec i where "map_of (ap_entries p) key = Some vec" "i < length vec"
    "pe_arena (vec ! i) = a"
    "p' = p\<lparr>ap_entries := AList.update key (remove_nth i vec) (ap_entries p)\<rparr>"
proof (cases "map_of (ap_entries p) key")
  case (Some vec)
  show ?thesis
  proof (cases "find_idx (\<lambda>e. pe_state e = Free) vec")
    case (Some i)
    show ?thesis
      by (rule that [OF \<open>map_of (ap_entries p) key = Some vec\<close>, of i])
        (use Some assms \<open>map_of (ap_entries p) key = Some vec\<close> in
          \<open>auto simp: take_free_def dest: find_idx_Some\<close>)
  qed (use Some assms in \<open>simp add: take_free_def\<close>)
qed (use assms in \<open>simp add: take_free_def\<close>)

lemma take_free_pooled:
  assumes "take_free p key = Some (a, p')"
  shows "mset (pooled p) = add_mset a (mset (pooled p'))"
proof -
  obtain vec i where v: "map_of (ap_entries p) key = Some vec" "i < length vec"
    "pe_arena (vec ! i) = a" "p' = p\<lparr>ap_entries := AList.update key (remove_nth i vec) (ap_entries p)\<rparr>"
    using take_free_Some [OF assms] .
  have m: "mset vec = add_mset (vec ! i) (mset (remove_nth i vec))"
    using mset_remove_nth [OF v(2)] by simp
  have "mset (pooled p') + mset (map pe_arena vec) =
      mset (pooled p) + mset (map pe_arena (remove_nth i vec))"
    using pooled_update [of pe_arena key "remove_nth i vec" "ap_entries p"] v(1,4)
    by (simp add: pooled_def)
  with m v(3) show ?thesis by simp
qed

lemma bytes_of_mset: "mset xs = mset ys \<Longrightarrow> bytes_of xs = bytes_of ys"
  unfolding bytes_of_def by (metis mset_map sum_mset_sum_list)

lemma distinct_surface_mset: "mset xs = mset ys \<Longrightarrow>
    distinct (map ar_surface xs) = distinct (map ar_surface ys)"
  by (metis mset_map mset_eq_imp_distinct_iff)

lemma bytes_of_simps [simp]: "bytes_of [] = 0" "bytes_of (x # xs) = ar_byte_len x + bytes_of xs"
  "bytes_of (xs @ ys) = bytes_of xs + bytes_of ys"
  by (simp_all add: bytes_of_def)

lemma pool_acquire_Inr:
  assumes "pool_acquire alloc p profile dim0 dim1 = (Inr (a, r), p')"
  shows "take_free p \<lparr>pk_profile = profile, pk_dim0 = dim0, pk_dim1 = dim1\<rparr> = Some (a, p') \<or>
    alloc = Inr a \<and> ap_current_bytes p + ar_byte_len a \<le> ap_max_total_bytes p \<and>
    p' = p\<lparr>ap_current_bytes := ap_current_bytes p + ar_byte_len a\<rparr>"
  using assms by (auto simp: pool_acquire_def split: if_splits option.splits sum.splits)

lemma pool_acquire_Inl: "pool_acquire alloc p profile dim0 dim1 = (Inl e, p') \<Longrightarrow> p' = p"
  by (auto simp: pool_acquire_def split: if_splits option.splits sum.splits)

lemma take_free_fields: "take_free p key = Some (a, p') \<Longrightarrow>
    ap_max_total_bytes p' = ap_max_total_bytes p \<and>
    ap_max_arenas_per_key p' = ap_max_arenas_per_key p \<and>
    ap_current_bytes p' = ap_current_bytes p"
  by (erule take_free_Some) simp

definition entries_ok :: "nat \<Rightarrow> (pool_key \<times> pool_entry list) list \<Rightarrow> bool" where
  "entries_ok per_key es \<longleftrightarrow> (\<forall>kv \<in> set es. length (snd kv) \<le> per_key \<and>
     (\<forall>e \<in> set (snd kv). pe_state e = Free \<and> pe_generation e = 0))"

lemma entries_ok_update: "entries_ok n es \<Longrightarrow> length v \<le> n \<Longrightarrow>
    (\<And>e. e \<in> set v \<Longrightarrow> pe_state e = Free \<and> pe_generation e = 0) \<Longrightarrow>
    entries_ok n (AList.update key v es)"
  using set_update_subset [of key v es] unfolding entries_ok_def by fastforce

lemma entries_ok_map_of: "entries_ok n es \<Longrightarrow> map_of es key = Some v \<Longrightarrow>
    length v \<le> n \<and> (\<forall>e \<in> set v. pe_state e = Free \<and> pe_generation e = 0)"
  unfolding entries_ok_def by (metis map_of_SomeD snd_conv)

lemma take_free_entries:
  assumes "take_free p key = Some (a, p')" "entries_ok n (ap_entries p)"
  shows "entries_ok n (ap_entries p')"
proof -
  obtain vec i where v: "map_of (ap_entries p) key = Some vec" "i < length vec"
    "p' = p\<lparr>ap_entries := AList.update key (remove_nth i vec) (ap_entries p)\<rparr>"
    using take_free_Some [OF assms(1)] .
  note o = entries_ok_map_of [OF assms(2) v(1)]
  have "entries_ok n (AList.update key (remove_nth i vec) (ap_entries p))"
    by (rule entries_ok_update [OF assms(2)])
      (use o set_remove_nth_subset [of i vec] length_remove_nth [OF v(2)] in auto)
  with v(3) show ?thesis by simp
qed

lemma pool_inv_iff: "pool_inv m n (p, held) \<longleftrightarrow>
    ap_max_total_bytes p = m \<and> ap_max_arenas_per_key p = n \<and>
    ap_current_bytes p = bytes_of (pooled p @ map snd held) \<and> ap_current_bytes p \<le> m \<and>
    distinct (map ar_surface (pooled p @ map snd held)) \<and> entries_ok n (ap_entries p)"
  by (simp add: pool_inv_def entries_ok_def)

lemma pool_inv_acquire:
  assumes "pool_inv m n (p, held)"
    and acq: "pool_acquire alloc p profile dim0 dim1 = (Inr (a, r), p')"
    and fresh: "\<And>b. alloc = Inr b \<Longrightarrow> ar_surface b \<notin> ar_surface ` (set (pooled p) \<union> snd ` set held)"
  shows "pool_inv m n (p', (key, a) # held)"
proof -
  note inv = assms(1) [unfolded pool_inv_iff]
  let ?key = "\<lparr>pk_profile = profile, pk_dim0 = dim0, pk_dim1 = dim1\<rparr>"
  consider (reuse) "take_free p ?key = Some (a, p')"
    | (alloc) "alloc = Inr a" "ap_current_bytes p + ar_byte_len a \<le> ap_max_total_bytes p"
      "p' = p\<lparr>ap_current_bytes := ap_current_bytes p + ar_byte_len a\<rparr>"
    using pool_acquire_Inr [OF acq] by blast
  then show ?thesis
  proof cases
    case reuse
    have ms: "mset (pooled p @ map snd held) = mset (pooled p' @ map snd ((key, a) # held))"
      using take_free_pooled [OF reuse] by simp
    show ?thesis
      unfolding pool_inv_iff
      using inv take_free_fields [OF reuse] take_free_entries [OF reuse] bytes_of_mset [OF ms]
        distinct_surface_mset [OF ms] by simp
  next
    case alloc
    from fresh [OF alloc(1)] inv alloc(2) show ?thesis
      unfolding pool_inv_iff alloc(3) by (auto simp: pooled_def image_Un)
  qed
qed

lemma pool_inv_release:
  assumes "pool_inv m n (p, xs @ (key, a) # ys)"
  shows "pool_inv m n (pool_release p profile dim0 dim1 a, xs @ ys)"
proof -
  let ?held = "xs @ (key, a) # ys"
  let ?key = "\<lparr>pk_profile = profile, pk_dim0 = dim0, pk_dim1 = dim1\<rparr>"
  define vec where "vec = (case map_of (ap_entries p) ?key of None \<Rightarrow> [] | Some v \<Rightarrow> v)"
  let ?p' = "pool_release p profile dim0 dim1 a"
  note inv = assms [unfolded pool_inv_iff]
  have vec: "length vec \<le> n" "\<forall>e \<in> set vec. pe_state e = Free \<and> pe_generation e = 0"
    using entries_ok_map_of [of n "ap_entries p" ?key] inv
    by (cases "map_of (ap_entries p) ?key"; force simp: vec_def)+
  note upd = pooled_update [of pe_arena ?key _ "ap_entries p", folded vec_def]
  show ?thesis
  proof (cases "length vec \<ge> n")
    case True
    have p': "?p' = p\<lparr>ap_entries := AList.update ?key vec (ap_entries p),
        ap_current_bytes := ap_current_bytes p - ar_byte_len a\<rparr>"
      using True inv by (simp add: pool_release_def vec_def Let_def)
    have "mset (pooled ?p') = mset (pooled p)"
      using upd [of vec] by (simp add: p' pooled_def)
    then have ms: "mset (pooled ?p' @ map snd (xs @ ys)) = mset (pooled p @ map snd (xs @ ys))"
      by simp
    have "entries_ok n (AList.update ?key vec (ap_entries p))"
      using vec inv by (intro entries_ok_update) auto
    then show ?thesis
      unfolding pool_inv_iff distinct_surface_mset [OF ms] bytes_of_mset [OF ms]
      using inv by (auto simp: p')
  next
    case False
    let ?v = "vec @ [\<lparr>pe_arena = a, pe_generation = 0, pe_state = Free\<rparr>]"
    have p': "?p' = p\<lparr>ap_entries := AList.update ?key ?v (ap_entries p)\<rparr>"
      using False inv by (simp add: pool_release_def vec_def Let_def)
    have "mset (pooled ?p') = add_mset a (mset (pooled p))"
      using upd [of ?v] by (simp add: p' pooled_def)
    then have ms: "mset (pooled ?p' @ map snd (xs @ ys)) = mset (pooled p @ map snd ?held)"
      by simp
    have "entries_ok n (AList.update ?key ?v (ap_entries p))"
      using vec inv False by (intro entries_ok_update) auto
    then show ?thesis
      unfolding pool_inv_iff distinct_surface_mset [OF ms] bytes_of_mset [OF ms]
      using inv by (simp add: p')
  qed
qed

lemma pool_inv_step:
  assumes "pool_step s s'" "pool_inv m n s"
  shows "pool_inv m n s'"
  using assms(1)
proof (cases rule: pool_step.cases)
  case (acquired alloc p key a r p' held)
  from acquired(4) show ?thesis
    unfolding acquired(2) by (intro pool_inv_acquire [OF assms(2) [unfolded acquired(1)] acquired(3)]) auto
next
  case (refused alloc p profile dim0 dim1 e p' held)
  from assms(2) show ?thesis by (simp add: refused(1,2) pool_acquire_Inl [OF refused(3)])
next
  case (released held xs key a ys p)
  show ?thesis
    unfolding released(2) by (rule pool_inv_release [OF assms(2) [unfolded released(1,3)]])
qed

lemma pool_inv_reach: "pool_reach (arena_pool_new m n) s \<Longrightarrow> pool_inv m n s"
proof (induction rule: pool_reach.induct)
  case start
  show ?case by (simp add: pool_inv_def arena_pool_new_def pooled_def)
next
  case (step s s')
  show ?case by (rule pool_inv_step [OF step(2,3)])
qed

lemma stats_total: "ps_total_entries (arena_pool_stats p) = length (pooled p)"
proof -
  have "sum_list (map (\<lambda>(_, v). length v) es) = length (concat (map (\<lambda>(_, v). map f v) es))" for f es
    by (induction es) auto
  then show ?thesis by (simp add: arena_pool_stats_def pooled_def)
qed

lemma stats_free:
  assumes "entries_ok n (ap_entries p)"
  shows "ps_free_entries (arena_pool_stats p) = length (pooled p)"
proof -
  have "entries_ok n es \<Longrightarrow> sum_list (map (\<lambda>(_, v). length (filter (\<lambda>e. pe_state e = Free) v)) es) =
      length (concat (map (\<lambda>(_, v). map f v) es))" for f es
    by (induction es) (auto simp: entries_ok_def intro!: arg_cong [of _ _ length] filter_True)
  from this [OF assms] show ?thesis by (simp add: arena_pool_stats_def pooled_def)
qed

text \<open>However clients acquire and release arenas, the pool's byte count is exactly the bytes of the
  cached arenas plus those handed out and stays within the budget, no arena is cached twice, held
  twice or cached while held, no shape caches more than its limit, and everything cached is free.\<close>
theorem arena_pool_accounting:
  assumes "pool_reach (arena_pool_new max_bytes per_key) (p, held)"
  shows "ap_current_bytes p = bytes_of (pooled p) + bytes_of (map snd held) \<and>
    ap_current_bytes p \<le> max_bytes \<and>
    distinct (map ar_surface (pooled p @ map snd held)) \<and>
    (\<forall>kv \<in> set (ap_entries p). length (snd kv) \<le> per_key) \<and>
    ps_free_entries (arena_pool_stats p) = ps_total_entries (arena_pool_stats p)"
proof -
  have inv: "pool_inv max_bytes per_key (p, held)" by (rule pool_inv_reach [OF assms])
  then have "entries_ok per_key (ap_entries p)" by (simp add: pool_inv_iff)
  with inv show ?thesis by (simp add: pool_inv_def stats_total stats_free)
qed

definition shape_a :: pool_key where
  "shape_a = \<lparr>pk_profile = supported_profile, pk_dim0 = 1, pk_dim1 = 4\<rparr>"

lemma acquire_fresh:
  assumes "pk_profile key = supported_profile" "ar_byte_len a \<le> m"
  shows "pool_acquire (Inr a) (arena_pool_new m n) (pk_profile (key :: pool_key)) (pk_dim0 key)
      (pk_dim1 key) = (Inr (a, False), (arena_pool_new m n)\<lparr>ap_current_bytes := ar_byte_len a\<rparr>)"
  using assms by (simp add: pool_acquire_def take_free_def arena_pool_new_def)

lemma reach_one_held:
  assumes "pk_profile (key :: pool_key) = supported_profile" "ar_byte_len a \<le> m"
  shows "pool_reach (arena_pool_new m n)
    ((arena_pool_new m n)\<lparr>ap_current_bytes := ar_byte_len a\<rparr>, [(key, a)])"
  by (rule pool_reach.step [OF pool_reach.start])
    (rule pool_step.acquired [OF acquire_fresh [OF assms]],
      simp add: pooled_def arena_pool_new_def)

theorem arena_pool_accounting_witness:
  "distinct (map ar_surface (pooled (arena_pool_new 64 2) @
     map snd [(shape_a, \<lparr>ar_surface = 7, ar_byte_len = 8\<rparr>)]))"
proof -
  have "pool_reach (arena_pool_new 64 2) ((arena_pool_new 64 2)\<lparr>ap_current_bytes := 8\<rparr>,
      [(shape_a, \<lparr>ar_surface = 7, ar_byte_len = 8\<rparr>)])"
    using reach_one_held [of shape_a "\<lparr>ar_surface = 7, ar_byte_len = 8\<rparr>" 64 2]
    by (simp add: shape_a_def)
  from arena_pool_accounting [OF this] show ?thesis by (simp add: pooled_def arena_pool_new_def)
qed

subsection \<open>Cached arenas of other shapes\<close>

lemma release_only_held:
  assumes "0 < n" "ar_byte_len (a :: arena) \<le> m"
  shows "pool_release ((arena_pool_new m n)\<lparr>ap_current_bytes := ar_byte_len a\<rparr>)
      (pk_profile (key :: pool_key)) (pk_dim0 key) (pk_dim1 key) a =
    (arena_pool_new m n)\<lparr>ap_current_bytes := ar_byte_len a,
      ap_entries := [(key, [\<lparr>pe_arena = a, pe_generation = 0, pe_state = Free\<rparr>])]\<rparr>"
  using assms by (simp add: pool_release_def arena_pool_new_def)

text \<open>An idle pool can refuse a shape that fits its budget.  After one arena was acquired and
  given back, nothing is held, but its bytes stay in the count and no operation evicts it, so an
  arena of another shape is refused when the two together exceed the budget.\<close>
theorem idle_pool_refuses_other_shape:
  assumes "pk_profile (key :: pool_key) = supported_profile" "pk_profile other = supported_profile"
    "other \<noteq> key" "0 < per_key" "ar_byte_len (a :: arena) \<le> max_bytes"
    "ar_byte_len (b :: arena) \<le> max_bytes" "max_bytes < ar_byte_len a + ar_byte_len b"
  shows "\<exists>p. pool_reach (arena_pool_new max_bytes per_key) (p, []) \<and>
    pool_acquire (Inr b) p (pk_profile (other :: pool_key)) (pk_dim0 other) (pk_dim1 other) =
      (Inl (BudgetExceeded (ar_byte_len a) (ar_byte_len b) max_bytes), p)"
proof -
  let ?p = "(arena_pool_new max_bytes per_key)\<lparr>ap_current_bytes := ar_byte_len a,
      ap_entries := [(key, [\<lparr>pe_arena = a, pe_generation = 0, pe_state = Free\<rparr>])]\<rparr>"
  have "pool_step ((arena_pool_new max_bytes per_key)\<lparr>ap_current_bytes := ar_byte_len a\<rparr>, [(key, a)])
      (?p, [] @ [])"
    unfolding release_only_held [OF assms(4,5), of key, symmetric]
    by (rule pool_step.released) simp
  then have "pool_reach (arena_pool_new max_bytes per_key) (?p, [])"
    using pool_reach.step [OF reach_one_held [OF assms(1,5)]] by simp
  moreover have "pool_acquire (Inr b) ?p (pk_profile other) (pk_dim0 other) (pk_dim1 other) =
      (Inl (BudgetExceeded (ar_byte_len a) (ar_byte_len b) max_bytes), ?p)"
    using assms by (cases other) (simp add: pool_acquire_def take_free_def arena_pool_new_def)
  ultimately show ?thesis by blast
qed

theorem idle_pool_refuses_other_shape_witness:
  "\<exists>p. pool_reach (arena_pool_new 8 4) (p, []) \<and>
     pool_acquire (Inr \<lparr>ar_surface = 2, ar_byte_len = 4\<rparr>) p (pk_profile (shape_a\<lparr>pk_dim1 := 2\<rparr>))
       (pk_dim0 (shape_a\<lparr>pk_dim1 := 2\<rparr>)) (pk_dim1 (shape_a\<lparr>pk_dim1 := 2\<rparr>)) =
       (Inl (BudgetExceeded 8 4 8), p)"
  using idle_pool_refuses_other_shape [of shape_a "shape_a\<lparr>pk_dim1 := 2\<rparr>" 4
      "\<lparr>ar_surface = 1, ar_byte_len = 8\<rparr>" 8 "\<lparr>ar_surface = 2, ar_byte_len = 4\<rparr>"]
  by (simp add: shape_a_def)

end
