(* ===== verification/KvCache.thy ===== *)
theory KvCache
  imports Prelude
begin

text \<open>
  The per-layer KV cache of \<open>kv_cache.rs\<close>: a ring buffer for sliding layers, concatenation for global
  layers, commit and rollback.

  Arrays belong to the \<open>mlx_rs\<close> package and are a parameter: a record of the operations the cache
  calls on the first axis (\<open>shape()[0]\<close>, \<open>size\<close>, \<open>zeros\<close>, \<open>index\<close>, \<open>index_mut\<close>, \<open>concatenate_axis\<close>).
  \<open>None\<close> is an error of the fallible operations and a panic of \<open>index_mut\<close>.  What the proofs rely on is
  \<open>mlx_laws\<close>: these operations act on the rows of an array like list slicing and appending.
  Counters are \<open>u32\<close> (sums wrap, written with \<open>mod\<close>); index arithmetic is on \<open>i32\<close> in the code and on
  natural numbers here, which agree below \<open>2 ^ 31\<close>.
\<close>

record 'a mlx =
  mx_rows :: "'a \<Rightarrow> nat"
  mx_size :: "'a \<Rightarrow> nat"
  mx_zeros :: "nat \<Rightarrow> nat \<Rightarrow> nat \<Rightarrow> 'a option"
  mx_slice :: "nat \<Rightarrow> nat \<Rightarrow> 'a \<Rightarrow> 'a"
  mx_write :: "nat \<Rightarrow> nat \<Rightarrow> 'a \<Rightarrow> 'a \<Rightarrow> 'a option"
  mx_concat :: "'a \<Rightarrow> 'a \<Rightarrow> 'a option"

definition mlx_laws :: "'a mlx \<Rightarrow> ('a \<Rightarrow> 'r list) \<Rightarrow> bool" where
  "mlx_laws mx rows \<longleftrightarrow>
     (\<forall>a. mx_rows mx a = length (rows a)) \<and>
     (\<forall>c h d z. mx_zeros mx c h d = Some z \<longrightarrow> length (rows z) = c) \<and>
     (\<forall>lo hi a. lo \<le> hi \<longrightarrow> hi \<le> length (rows a) \<longrightarrow>
        rows (mx_slice mx lo hi a) = take (hi - lo) (drop lo (rows a))) \<and>
     (\<forall>lo hi u t w. lo \<le> hi \<longrightarrow> hi \<le> length (rows t) \<longrightarrow> length (rows u) = hi - lo \<longrightarrow>
        mx_write mx lo hi u t = Some w \<longrightarrow> rows w = take lo (rows t) @ rows u @ drop hi (rows t)) \<and>
     (\<forall>lo hi u t. length (rows t) < length (rows u) \<longrightarrow> mx_write mx lo hi u t = None) \<and>
     (\<forall>a b c. mx_concat mx a b = Some c \<longrightarrow> rows c = rows a @ rows b)"

record 'a kv_cache =
  kc_n_kv_heads :: nat
  kc_head_dim :: nat
  kc_capacity :: nat
  kc_is_sliding :: bool
  kc_k_cache :: "'a option"
  kc_v_cache :: "'a option"
  kc_seq_len :: nat
  kc_preallocated_k :: "'a option"
  kc_preallocated_v :: "'a option"
  kc_total_appended :: nat
  kc_logical_start :: nat
  kc_physical_write_pos :: nat
  kc_committed_len :: nat
  kc_rollback_k :: "'a option"
  kc_rollback_v :: "'a option"
  kc_evictions_count :: nat
  kc_copy_bytes :: nat

definition kv_new :: "nat \<Rightarrow> nat \<Rightarrow> nat \<Rightarrow> bool \<Rightarrow> 'a kv_cache" where
  "kv_new capacity n_kv_heads head_dim is_sliding = \<lparr>kc_n_kv_heads = n_kv_heads,
     kc_head_dim = head_dim, kc_capacity = capacity, kc_is_sliding = is_sliding,
     kc_k_cache = None, kc_v_cache = None, kc_seq_len = 0, kc_preallocated_k = None,
     kc_preallocated_v = None, kc_total_appended = 0, kc_logical_start = 0,
     kc_physical_write_pos = 0, kc_committed_len = 0, kc_rollback_k = None, kc_rollback_v = None,
     kc_evictions_count = 0, kc_copy_bytes = 0\<rparr>"

text \<open>\<open>Err\<close> of an MLX operation, or a panic.  After a panic the cache is not used; it is given back
  unchanged.\<close>

datatype kv_error = MlxError | Panic

definition add32 :: "nat \<Rightarrow> nat \<Rightarrow> nat" where
  "add32 a b = (a + b) mod 2 ^ 32"

subsection \<open>Append\<close>

definition first_append :: "'a mlx \<Rightarrow> 'a kv_cache \<Rightarrow> 'a \<Rightarrow> 'a \<Rightarrow> nat
    \<Rightarrow> (kv_error + unit) \<times> 'a kv_cache" where
  "first_append mx c keys values incoming_len = (
     if kc_is_sliding c then
       let excess = incoming_len - kc_capacity c;
           trimmed = kc_capacity c < incoming_len;
           k = (if trimmed then mx_slice mx excess incoming_len keys else keys);
           v = (if trimmed then mx_slice mx excess incoming_len values else values);
           c1 = (if trimmed then c\<lparr>kc_evictions_count := excess\<rparr> else c);
           actual_n = (if trimmed then kc_capacity c else incoming_len)
       in if kc_capacity c < actual_n then (Inl MlxError, c1)
       else case mx_zeros mx (kc_capacity c) (kc_n_kv_heads c) (kc_head_dim c) of
         None \<Rightarrow> (Inl MlxError, c1)
       | Some z \<Rightarrow>
         (case (mx_write mx 0 actual_n k z, mx_write mx 0 actual_n v z) of
            (Some pre_k, Some pre_v) \<Rightarrow>
              if kc_capacity c = 0 then (Inl Panic, c)
              else (Inr (), c1\<lparr>kc_preallocated_k := Some pre_k, kc_preallocated_v := Some pre_v,
                kc_total_appended := actual_n, kc_seq_len := actual_n, kc_logical_start := 0,
                kc_physical_write_pos := actual_n mod kc_capacity c,
                kc_committed_len := actual_n\<rparr>)
          | _ \<Rightarrow> (Inl Panic, c))
     else (Inr (), c\<lparr>kc_k_cache := Some keys, kc_v_cache := Some values,
       kc_total_appended := incoming_len, kc_seq_len := incoming_len, kc_logical_start := 0,
       kc_physical_write_pos := incoming_len, kc_committed_len := incoming_len\<rparr>))"

text \<open>The write of one array into the ring, contiguous or in two segments.\<close>

definition ring_write :: "'a mlx \<Rightarrow> nat \<Rightarrow> nat \<Rightarrow> nat \<Rightarrow> 'a \<Rightarrow> 'a \<Rightarrow> 'a option" where
  "ring_write mx cap write_pos n_tok xs pre = (
     let end_wrap = write_pos + n_tok in
     if end_wrap \<le> cap then mx_write mx write_pos end_wrap xs pre
     else
       let first_seg = cap - write_pos; second_seg = n_tok - first_seg in
       case mx_write mx write_pos cap (mx_slice mx 0 first_seg xs) pre of
         None \<Rightarrow> None
       | Some pre1 \<Rightarrow> mx_write mx 0 second_seg (mx_slice mx first_seg n_tok xs) pre1)"

definition append_sliding :: "'a mlx \<Rightarrow> 'a kv_cache \<Rightarrow> 'a \<Rightarrow> 'a \<Rightarrow> nat
    \<Rightarrow> (kv_error + unit) \<times> 'a kv_cache" where
  "append_sliding mx c keys values incoming_len = (
     case (kc_preallocated_k c, kc_preallocated_v c) of
       (Some pre_k, Some pre_v) \<Rightarrow>
         (case (ring_write mx (kc_capacity c) (kc_physical_write_pos c) incoming_len keys pre_k,
                ring_write mx (kc_capacity c) (kc_physical_write_pos c) incoming_len values pre_v) of
            (Some pk, Some pv) \<Rightarrow>
              if kc_capacity c = 0 then (Inl Panic, c)
              else
                let total = add32 (kc_total_appended c) incoming_len in
                (Inr (), c\<lparr>kc_preallocated_k := Some pk, kc_preallocated_v := Some pv,
                  kc_physical_write_pos :=
                    add32 (kc_physical_write_pos c) incoming_len mod kc_capacity c,
                  kc_total_appended := total,
                  kc_seq_len := min total (kc_capacity c),
                  kc_logical_start :=
                    (if kc_capacity c < total then total - kc_capacity c else kc_logical_start c),
                  kc_evictions_count :=
                    (if kc_capacity c < total then total - kc_capacity c else kc_evictions_count c),
                  kc_rollback_k := None, kc_rollback_v := None\<rparr>)
          | _ \<Rightarrow> (Inl Panic, c))
     | _ \<Rightarrow> (Inl Panic, c))"

text \<open>\<open>append_global\<close> takes the arrays out of the cache before it concatenates: an error returns with
  both caches empty.\<close>

definition append_global :: "'a mlx \<Rightarrow> 'a kv_cache \<Rightarrow> 'a \<Rightarrow> 'a \<Rightarrow> nat
    \<Rightarrow> (kv_error + unit) \<times> 'a kv_cache" where
  "append_global mx c keys values incoming_len = (
     case (kc_k_cache c, kc_v_cache c) of
       (Some cached_k, Some cached_v) \<Rightarrow>
         let c0 = c\<lparr>kc_k_cache := None, kc_v_cache := None\<rparr> in
         (case mx_concat mx cached_k keys of
            None \<Rightarrow> (Inl MlxError, c0)
          | Some new_k \<Rightarrow> (case mx_concat mx cached_v values of
              None \<Rightarrow> (Inl MlxError, c0)
            | Some new_v \<Rightarrow> (Inr (), c0\<lparr>
                kc_copy_bytes := (kc_copy_bytes c + (mx_size mx cached_k * 4 + mx_size mx cached_v * 4))
                  mod 2 ^ 64,
                kc_k_cache := Some new_k, kc_v_cache := Some new_v,
                kc_total_appended := add32 (kc_total_appended c) incoming_len,
                kc_seq_len := add32 (kc_seq_len c) incoming_len,
                kc_physical_write_pos := add32 (kc_physical_write_pos c) incoming_len,
                kc_rollback_k := Some cached_k, kc_rollback_v := Some cached_v\<rparr>)))
     | _ \<Rightarrow> (Inl Panic, c))"

definition append_kv :: "'a mlx \<Rightarrow> 'a kv_cache \<Rightarrow> 'a \<Rightarrow> 'a \<Rightarrow> (kv_error + unit) \<times> 'a kv_cache" where
  "append_kv mx c keys values = (
     let incoming_len = mx_rows mx keys in
     if kc_k_cache c = None \<and> kc_v_cache c = None \<and>
        kc_preallocated_k c = None \<and> kc_preallocated_v c = None
     then first_append mx c keys values incoming_len
     else if kc_is_sliding c then append_sliding mx c keys values incoming_len
     else append_global mx c keys values incoming_len)"

subsection \<open>Commit, rollback, read\<close>

definition uncommitted_len :: "'a kv_cache \<Rightarrow> nat" where
  "uncommitted_len c = kc_total_appended c"

definition commit_step :: "'a kv_cache \<Rightarrow> 'a kv_cache" where
  "commit_step c = c\<lparr>kc_committed_len := uncommitted_len c, kc_rollback_k := None,
     kc_rollback_v := None\<rparr>"

definition rollback_kv :: "'a kv_cache \<Rightarrow> 'a kv_cache" where
  "rollback_kv c = (
     if kc_total_appended c = kc_committed_len c \<and> kc_seq_len c = kc_committed_len c then c
     else let c1 = (
       if kc_is_sliding c then
         (if kc_committed_len c = 0 then
            c\<lparr>kc_preallocated_k := None, kc_preallocated_v := None, kc_total_appended := 0,
              kc_seq_len := 0, kc_logical_start := 0, kc_physical_write_pos := 0\<rparr>
          else
            c\<lparr>kc_total_appended := kc_committed_len c,
              kc_seq_len := min (kc_committed_len c) (kc_capacity c),
              kc_logical_start := (if kc_capacity c < kc_committed_len c
                then kc_committed_len c - kc_capacity c else 0),
              kc_physical_write_pos := kc_committed_len c mod kc_capacity c\<rparr>)
       else
         c\<lparr>kc_k_cache := kc_rollback_k c, kc_v_cache := kc_rollback_v c,
           kc_total_appended := kc_committed_len c, kc_seq_len := kc_committed_len c,
           kc_physical_write_pos := kc_committed_len c\<rparr>)
     in c1\<lparr>kc_rollback_k := None, kc_rollback_v := None\<rparr>)"

text \<open>One array of the window: a contiguous segment or two concatenated ones.\<close>

definition ring_read :: "'a mlx \<Rightarrow> nat \<Rightarrow> nat \<Rightarrow> nat \<Rightarrow> 'a \<Rightarrow> 'a option" where
  "ring_read mx cap read_start n_to_read pre = (
     let end_wrap = read_start + n_to_read in
     if end_wrap \<le> cap then Some (mx_slice mx read_start end_wrap pre)
     else
       let first_seg = cap - read_start; second_seg = n_to_read - first_seg in
       mx_concat mx (mx_slice mx read_start cap pre) (mx_slice mx 0 second_seg pre))"

definition read_window_sliding :: "'a mlx \<Rightarrow> 'a kv_cache \<Rightarrow> ('a \<times> 'a) option" where
  "read_window_sliding mx c = (
     case (kc_preallocated_k c, kc_preallocated_v c) of
       (Some pre_k, Some pre_v) \<Rightarrow>
         if kc_seq_len c = 0 then None
         else
           let read_start = (if kc_capacity c \<le> kc_total_appended c
             then kc_physical_write_pos c else 0) in
           (case (ring_read mx (kc_capacity c) read_start (kc_seq_len c) pre_k,
                  ring_read mx (kc_capacity c) read_start (kc_seq_len c) pre_v) of
              (Some k, Some v) \<Rightarrow> Some (k, v)
            | _ \<Rightarrow> None)
     | _ \<Rightarrow> None)"

definition read_window :: "'a mlx \<Rightarrow> 'a kv_cache \<Rightarrow> ('a \<times> 'a) option" where
  "read_window mx c = (
     if kc_is_sliding c then read_window_sliding mx c
     else (case (kc_k_cache c, kc_v_cache c) of (Some k, Some v) \<Rightarrow> Some (k, v) | _ \<Rightarrow> None))"

subsection \<open>Byte accounting, receipt, reset\<close>

definition allocated_bytes :: "'a kv_cache \<Rightarrow> nat" where
  "allocated_bytes c = (
     if kc_is_sliding c then
       (if kc_preallocated_k c = None then 0
        else kc_capacity c * kc_n_kv_heads c * kc_head_dim c * 4 * 2)
     else if kc_seq_len c = 0 then 0
     else kc_seq_len c * kc_n_kv_heads c * kc_head_dim c * 4 * 2)"

definition committed_bytes :: "'a kv_cache \<Rightarrow> nat" where
  "committed_bytes c = (
     if kc_committed_len c = 0 then 0
     else min (kc_committed_len c) (kc_capacity c) * kc_n_kv_heads c * kc_head_dim c * 4 * 2)"

definition total_bytes :: "'a kv_cache \<Rightarrow> nat" where
  "total_bytes c = (
     if kc_seq_len c = 0 then 0 else kc_seq_len c * kc_n_kv_heads c * kc_head_dim c * 4 * 2)"

record kv_receipt =
  kr_logical_start :: nat
  kr_logical_length :: nat
  kr_capacity :: nat
  kr_physical_write_pos :: nat
  kr_allocated_bytes :: nat
  kr_committed_bytes :: nat
  kr_evictions_count :: nat
  kr_is_sliding :: bool

definition kv_receipt_of :: "'a kv_cache \<Rightarrow> kv_receipt" where
  "kv_receipt_of c = \<lparr>kr_logical_start = kc_logical_start c, kr_logical_length = kc_committed_len c,
     kr_capacity = kc_capacity c, kr_physical_write_pos = kc_physical_write_pos c,
     kr_allocated_bytes = allocated_bytes c, kr_committed_bytes = committed_bytes c,
     kr_evictions_count = kc_evictions_count c, kr_is_sliding = kc_is_sliding c\<rparr>"

definition kv_clear :: "'a kv_cache \<Rightarrow> 'a kv_cache" where
  "kv_clear c = c\<lparr>kc_k_cache := None, kc_v_cache := None, kc_preallocated_k := None,
     kc_preallocated_v := None, kc_rollback_k := None, kc_rollback_v := None, kc_seq_len := 0,
     kc_total_appended := 0, kc_logical_start := 0, kc_physical_write_pos := 0,
     kc_committed_len := 0, kc_evictions_count := 0, kc_copy_bytes := 0\<rparr>"

subsection \<open>The ring holds the last tokens\<close>

text \<open>A ring of \<open>cap\<close> rows after the rows \<open>hist\<close> were appended: each of the last \<open>cap\<close> of them is at
  its position modulo the capacity.\<close>

definition ring_holds :: "nat \<Rightarrow> 'r list \<Rightarrow> 'r list \<Rightarrow> bool" where
  "ring_holds cap ring hist \<longleftrightarrow> length ring = cap \<and>
     (\<forall>i < length hist. length hist \<le> i + cap \<longrightarrow> ring ! (i mod cap) = hist ! i)"

lemma mod_eq_close:
  assumes "(a::nat) mod m = b mod m" "a \<le> b" "b < a + m"
  shows "a = b"
proof -
  have "m dvd b - a" using assms(1,2) mod_eq_dvd_iff_nat [of a b m] by simp
  moreover have "b - a < m" using assms by simp
  ultimately have "b - a = 0" by (meson dvd_imp_le leD neq0_conv)
  with assms(2) show ?thesis by simp
qed

lemma ring_holds_append:
  assumes holds: "ring_holds cap ring hist" and len: "length ring' = cap"
    and new: "\<And>j. j < length xs \<Longrightarrow> length xs \<le> j + cap \<Longrightarrow>
      ring' ! ((length hist + j) mod cap) = xs ! j"
    and old: "\<And>p. p < cap \<Longrightarrow> (\<And>j. j < length xs \<Longrightarrow> (length hist + j) mod cap \<noteq> p) \<Longrightarrow>
      ring' ! p = ring ! p"
  shows "ring_holds cap ring' (hist @ xs)"
  unfolding ring_holds_def
proof (intro conjI allI impI)
  fix i assume i: "i < length (hist @ xs)" "length (hist @ xs) \<le> i + cap"
  show "ring' ! (i mod cap) = (hist @ xs) ! i"
  proof (cases "i < length hist")
    case True
    have cap: "0 < cap" using True i(2) by (cases cap) auto
    have "(length hist + j) mod cap \<noteq> i mod cap" if "j < length xs" for j
      using mod_eq_close [of i cap "length hist + j"] True i(2) that by fastforce
    with old [of "i mod cap"] cap have "ring' ! (i mod cap) = ring ! (i mod cap)" by simp
    also have "\<dots> = hist ! i" using holds True i(2) by (simp add: ring_holds_def)
    finally show ?thesis using True by (simp add: nth_append)
  next
    case False
    then obtain j where j: "i = length hist + j" by (metis le_Suc_ex linorder_not_less)
    with i new [of j] show ?thesis by (simp add: nth_append)
  qed
qed (rule len)

lemma mlx_lawsD:
  assumes "mlx_laws mx rows"
  shows "mx_rows mx a = length (rows a)"
    "mx_zeros mx c h d = Some z \<Longrightarrow> length (rows z) = c"
    "lo \<le> hi \<Longrightarrow> hi \<le> length (rows a) \<Longrightarrow> rows (mx_slice mx lo hi a) = take (hi - lo) (drop lo (rows a))"
    "lo \<le> hi \<Longrightarrow> hi \<le> length (rows t) \<Longrightarrow> length (rows u) = hi - lo \<Longrightarrow>
      mx_write mx lo hi u t = Some w \<Longrightarrow> rows w = take lo (rows t) @ rows u @ drop hi (rows t)"
    "length (rows t) < length (rows u) \<Longrightarrow> mx_write mx lo hi u t = None"
    "mx_concat mx a b = Some e \<Longrightarrow> rows e = rows a @ rows b"
  using assms unfolding mlx_laws_def by meson+

lemma mlx_write_rows: "mlx_laws mx rows \<Longrightarrow> mx_write mx lo hi u t = Some w \<Longrightarrow> lo \<le> hi \<Longrightarrow>
    hi \<le> length (rows t) \<Longrightarrow> length (rows u) = hi - lo \<Longrightarrow>
    rows w = take lo (rows t) @ rows u @ drop hi (rows t)"
  by (rule mlx_lawsD(4))

lemma mlx_write_long:
  assumes "mlx_laws mx rows" "mx_write mx lo hi u t = Some w"
  shows "length (rows u) \<le> length (rows t)"
  using mlx_lawsD(5) [OF assms(1), of t u lo hi] assms(2) by (cases "length (rows t) < length (rows u)") auto

lemmas mlx_slice_rows = mlx_lawsD(3)
lemmas mlx_concat_rows = mlx_lawsD(6)
lemmas mlx_rows = mlx_lawsD(1)

lemma ring_write_holds:
  assumes laws: "mlx_laws mx rows" and cap: "0 < cap"
    and holds: "ring_holds cap (rows pre) hist"
    and wr: "ring_write mx cap (length hist mod cap) (length (rows xs)) xs pre = Some pre'"
  shows "ring_holds cap (rows pre') (hist @ rows xs)"
proof -
  let ?wp = "length hist mod cap" let ?n = "length (rows xs)" let ?ring = "rows pre"
  have lr: "length ?ring = cap" using holds by (simp add: ring_holds_def)
  have wp: "?wp < cap" using cap by simp
  have pos: "(length hist + j) mod cap = (?wp + j) mod cap" for j by (simp add: mod_add_left_eq)
  show ?thesis
  proof (cases "?wp + ?n \<le> cap")
    case True
    then have "mx_write mx ?wp (?wp + ?n) xs pre = Some pre'"
      using wr by (simp add: ring_write_def)
    from mlx_write_rows [OF laws this] True lr
    have r: "rows pre' = take ?wp ?ring @ rows xs @ drop (?wp + ?n) ?ring" by simp
    show ?thesis
    proof (rule ring_holds_append [OF holds])
      show "length (rows pre') = cap" using True lr r by simp
      show "rows pre' ! ((length hist + j) mod cap) = rows xs ! j" if "j < ?n" for j
        using True that lr by (simp add: pos r nth_append)
      fix p assume p: "p < cap" "\<And>j. j < ?n \<Longrightarrow> (length hist + j) mod cap \<noteq> p"
      have "\<not> (?wp \<le> p \<and> p < ?wp + ?n)"
      proof
        assume a: "?wp \<le> p \<and> p < ?wp + ?n"
        then have "p - ?wp < ?n" by linarith
        have "?wp + (p - ?wp) = p" using a by simp
        then have "(length hist + (p - ?wp)) mod cap = p" using p(1) by (simp only: pos mod_less)
        with p(2) [OF \<open>p - ?wp < ?n\<close>] show False by simp
      qed
      then show "rows pre' ! p = ?ring ! p" using p(1) lr wp by (auto simp: r nth_append)
    qed
  next
    case False
    define first where "first = cap - ?wp"
    define second where "second = ?n - first"
    have fs: "first + ?wp = cap" "first + second = ?n" "0 < second"
      using False wp by (auto simp: first_def second_def)
    obtain pre1 where w1: "mx_write mx ?wp cap (mx_slice mx 0 first xs) pre = Some pre1"
      and w2: "mx_write mx 0 second (mx_slice mx first ?n xs) pre1 = Some pre'"
      using wr False by (auto simp: ring_write_def Let_def first_def second_def split: option.splits)
    have s1: "rows (mx_slice mx 0 first xs) = take first (rows xs)"
      and s2: "rows (mx_slice mx first ?n xs) = drop first (rows xs)"
      using fs by (simp_all add: mlx_slice_rows [OF laws])
    have r1: "rows pre1 = take ?wp ?ring @ take first (rows xs)"
    proof -
      have "length (rows (mx_slice mx 0 first xs)) = cap - ?wp" using fs by (simp add: s1)
      from mlx_write_rows [OF laws w1 _ _ this] wp lr show ?thesis by (simp add: s1)
    qed
    then have l1: "length (rows pre1) = cap" using fs lr by simp
    have sec: "second \<le> cap" using mlx_write_long [OF laws w2] fs l1 by (simp add: s2)
    have r2: "rows pre' = drop first (rows xs) @ drop second (rows pre1)"
      using mlx_write_rows [OF laws w2] fs sec l1 by (simp add: s2)
    have nth1: "rows pre1 ! p = (if p < ?wp then ?ring ! p else rows xs ! (p - ?wp))"
      if "p < cap" for p
      using that fs lr wp by (auto simp: r1 nth_append)
    have nth: "rows pre' ! p = (if p < second then rows xs ! (first + p) else
        if p < ?wp then ?ring ! p else rows xs ! (p - ?wp))" if "p < cap" for p
    proof (cases "p < second")
      case True
      then have "p < length (drop first (rows xs))" using fs by simp
      with True show ?thesis by (simp add: r2 nth_append)
    next
      case False
      have "length (drop first (rows xs)) = second" using fs by simp
      with False that l1 have "rows pre' ! p = rows pre1 ! p" by (simp add: r2 nth_append)
      with False nth1 [OF that] show ?thesis by simp
    qed
    show ?thesis
    proof (rule ring_holds_append [OF holds])
      show "length (rows pre') = cap" using sec fs l1 by (simp add: r2)
    next
      fix j assume j: "j < ?n" "?n \<le> j + cap"
      show "rows pre' ! ((length hist + j) mod cap) = rows xs ! j"
      proof (cases "j < first")
        case True
        then have "(?wp + j) mod cap = ?wp + j" using fs by simp
        with True j fs nth [of "?wp + j"] show ?thesis by (simp add: pos)
      next
        case False
        have "(?wp + j) mod cap = (?wp + j - cap) mod cap"
          using False fs by (subst mod_if) (auto simp: le_mod_geq)
        also have "\<dots> = j - first" using False j fs sec by (subst mod_less) auto
        finally have "(?wp + j) mod cap = j - first" .
        moreover have "j - first < second" "j - first < cap" "first + (j - first) = j"
          using False j fs sec by linarith+
        ultimately show ?thesis using nth [of "j - first"] by (simp add: pos)
      qed
    next
      fix p assume p: "p < cap" "\<And>j. j < ?n \<Longrightarrow> (length hist + j) mod cap \<noteq> p"
      have "\<not> p < second"
      proof
        assume "p < second"
        then have "(length hist + (first + p)) mod cap = p"
          unfolding pos using fs p(1) by (simp add: add.assoc [symmetric] add.commute [of _ first])
        with p(2) [of "first + p"] \<open>p < second\<close> fs show False by simp
      qed
      moreover have "p < ?wp"
      proof (rule ccontr)
        assume "\<not> p < ?wp"
        then have "(length hist + (p - ?wp)) mod cap = p" "p - ?wp < ?n"
          unfolding pos using fs p(1) by simp_all
        with p(2) show False by blast
      qed
      ultimately show "rows pre' ! p = ?ring ! p" using nth [OF p(1)] by simp
    qed
  qed
qed

lemma ring_read_rows:
  assumes laws: "mlx_laws mx rows" and cap: "0 < cap"
    and holds: "ring_holds cap (rows pre) hist"
    and rd: "ring_read mx cap (if cap \<le> length hist then length hist mod cap else 0)
      (min (length hist) cap) pre = Some a"
  shows "rows a = drop (length hist - cap) hist"
proof -
  let ?T = "length hist" let ?ring = "rows pre" let ?s = "length hist mod cap"
  have lr: "length ?ring = cap" using holds by (simp add: ring_holds_def)
  show ?thesis
  proof (cases "cap \<le> ?T")
    case False
    then have "a = mx_slice mx 0 ?T pre" using rd by (simp add: ring_read_def)
    then have "rows a = take ?T ?ring" using False lr by (simp add: mlx_slice_rows [OF laws])
    moreover have "take ?T ?ring = hist"
    proof (rule nth_equalityI)
      show "take ?T ?ring ! i = hist ! i" if "i < length (take ?T ?ring)" for i
        using holds that False by (simp add: ring_holds_def)
    qed (use False lr in simp)
    ultimately show ?thesis using False by simp
  next
    case True
    have s: "?s < cap" using cap by simp
    have "min ?T cap = cap" using True by simp
    with True rd have rd': "ring_read mx cap ?s cap pre = Some a" by (simp only: if_True)
    have "rows a = drop ?s ?ring @ take ?s ?ring"
    proof (cases "?s = 0")
      case True
      with rd' have "a = mx_slice mx 0 cap pre" by (simp add: ring_read_def)
      then show ?thesis using True lr by (simp add: mlx_slice_rows [OF laws])
    next
      case False
      with rd' s have "mx_concat mx (mx_slice mx ?s cap pre) (mx_slice mx 0 ?s pre) = Some a"
        by (simp add: ring_read_def Let_def)
      from mlx_concat_rows [OF laws this] s lr show ?thesis
        by (simp add: mlx_slice_rows [OF laws])
    qed
    moreover have "drop ?s ?ring @ take ?s ?ring = drop (?T - cap) hist"
    proof (rule nth_equalityI)
      fix k assume "k < length (drop ?s ?ring @ take ?s ?ring)"
      then have k: "k < cap" using lr s by simp
      have "(drop ?s ?ring @ take ?s ?ring) ! k = ?ring ! ((?s + k) mod cap)"
      proof (cases "k < cap - ?s")
        case True
        then have "(?s + k) mod cap = ?s + k" by (intro mod_less) linarith
        with True lr s show ?thesis by (simp only: nth_append length_drop nth_drop if_True)
      next
        case False
        then have "(?s + k) mod cap = (?s + k - cap) mod cap" by (intro le_mod_geq) linarith
        also have "\<dots> = k - (cap - ?s)" using False k s by (subst mod_less) linarith+
        finally show ?thesis
          using False lr s k by (simp only: nth_append length_drop nth_take if_False)
      qed
      also have "(?s + k) mod cap = (?T - cap + k) mod cap"
        using True by (metis le_add_diff_inverse2 mod_add_left_eq mod_add_self2)
      also have "?ring ! \<dots> = hist ! (?T - cap + k)"
        using holds True k by (simp add: ring_holds_def)
      finally show "(drop ?s ?ring @ take ?s ?ring) ! k = drop (?T - cap) hist ! k"
        using True by simp
    qed (use True lr s in simp)
    ultimately show ?thesis by simp
  qed
qed


subsection \<open>The invariant\<close>

definition kv_pristine :: "'a kv_cache \<Rightarrow> bool" where
  "kv_pristine c \<longleftrightarrow> kc_k_cache c = None \<and> kc_v_cache c = None \<and>
     kc_preallocated_k c = None \<and> kc_preallocated_v c = None"

text \<open>The cache holds the rows \<open>kh\<close> and \<open>vh\<close> appended so far.\<close>

definition kv_holds :: "('a \<Rightarrow> 'r list) \<Rightarrow> 'a kv_cache \<Rightarrow> 'r list \<Rightarrow> 'r list \<Rightarrow> bool" where
  "kv_holds rows c kh vh \<longleftrightarrow>
     length vh = length kh \<and> kc_total_appended c = length kh \<and>
     (if kc_is_sliding c then
        0 < kc_capacity c \<and> kc_k_cache c = None \<and> kc_v_cache c = None \<and>
        (\<exists>pk pv. kc_preallocated_k c = Some pk \<and> kc_preallocated_v c = Some pv \<and>
           ring_holds (kc_capacity c) (rows pk) kh \<and> ring_holds (kc_capacity c) (rows pv) vh) \<and>
        kc_seq_len c = min (length kh) (kc_capacity c) \<and>
        kc_logical_start c = length kh - kc_capacity c \<and>
        kc_physical_write_pos c = length kh mod kc_capacity c
      else
        kc_preallocated_k c = None \<and> kc_preallocated_v c = None \<and>
        (\<exists>k v. kc_k_cache c = Some k \<and> kc_v_cache c = Some v \<and> rows k = kh \<and> rows v = vh) \<and>
        kc_seq_len c = length kh \<and> kc_logical_start c = 0 \<and>
        kc_physical_write_pos c = length kh)"

lemma append_kv_fresh: "kv_pristine c \<Longrightarrow>
    append_kv mx c keys values = first_append mx c keys values (mx_rows mx keys)"
  by (simp add: append_kv_def kv_pristine_def)

lemma kv_holds_not_pristine: "kv_holds rows c kh vh \<Longrightarrow> \<not> kv_pristine c"
  by (auto simp: kv_holds_def kv_pristine_def split: if_splits)

lemma append_kv_holds:
  assumes "kv_holds rows c kh vh"
  shows "append_kv mx c keys values = (if kc_is_sliding c
    then append_sliding mx c keys values (mx_rows mx keys)
    else append_global mx c keys values (mx_rows mx keys))"
  using kv_holds_not_pristine [OF assms] unfolding append_kv_def kv_pristine_def Let_def by argo

text \<open>The last \<open>n\<close> elements of a list.\<close>

definition lastn :: "nat \<Rightarrow> 'b list \<Rightarrow> 'b list" where
  "lastn n xs = drop (length xs - n) xs"

lemma length_lastn [simp]: "length (lastn n xs) = min (length xs) n"
  by (simp add: lastn_def)

lemma lastn_lastn_append: "lastn n (lastn n xs @ ys) = lastn n (xs @ ys)"
  by (cases "n \<le> length xs") (auto simp: lastn_def min_def add.commute)

lemma first_append_holds:
  assumes laws: "mlx_laws mx rows" and app: "first_append mx c keys values (mx_rows mx keys) = (Inr u, c')"
    and pris: "kv_pristine c" and lv: "length (rows values) = length (rows keys)"
  shows "kv_holds rows c' (if kc_is_sliding c then lastn (kc_capacity c) (rows keys) else rows keys)
      (if kc_is_sliding c then lastn (kc_capacity c) (rows values) else rows values) \<and>
    kc_is_sliding c' = kc_is_sliding c \<and> kc_capacity c' = kc_capacity c \<and>
    kc_committed_len c' = kc_total_appended c'"
proof (cases "kc_is_sliding c")
  case False
  with app pris lv show ?thesis
    by (auto simp: first_append_def kv_holds_def kv_pristine_def mlx_rows [OF laws])
next
  case True
  define cap where "cap = kc_capacity c"
  define trim where "trim xs = (if cap < mx_rows mx keys
    then mx_slice mx (mx_rows mx keys - cap) (mx_rows mx keys) xs else xs)" for xs
  define n where "n = (if cap < mx_rows mx keys then cap else mx_rows mx keys)"
  have trim: "rows (trim xs) = lastn cap (rows xs)" if "length (rows xs) = length (rows keys)" for xs
    using that by (simp add: trim_def lastn_def mlx_rows [OF laws] mlx_slice_rows [OF laws])
  have n: "n = length (lastn cap (rows keys))" by (simp add: n_def mlx_rows [OF laws])
  obtain z pk pv where z: "mx_zeros mx cap (kc_n_kv_heads c) (kc_head_dim c) = Some z"
    and wk: "mx_write mx 0 n (trim keys) z = Some pk"
    and wv: "mx_write mx 0 n (trim values) z = Some pv"
    and cap: "0 < cap"
    and c': "kc_preallocated_k c' = Some pk" "kc_preallocated_v c' = Some pv"
      "kc_total_appended c' = n" "kc_seq_len c' = n" "kc_logical_start c' = 0"
      "kc_physical_write_pos c' = n mod cap" "kc_committed_len c' = n"
      "kc_k_cache c' = None" "kc_v_cache c' = None" "kc_is_sliding c'" "kc_capacity c' = cap"
    using app True pris
    by (auto simp: first_append_def Let_def trim_def n_def cap_def kv_pristine_def
        split: if_splits option.splits)
  have lz: "length (rows z) = cap" using mlx_lawsD(2) [OF laws z] .
  have holds: "ring_holds cap (rows p) (lastn cap (rows xs))"
    if "mx_write mx 0 n (trim xs) z = Some p" "length (rows xs) = length (rows keys)" for p xs
  proof -
    have l: "length (rows (trim xs)) = n" using n trim [OF that(2)] that(2) by simp
    have "n \<le> cap" using n by simp
    with mlx_write_rows [OF laws that(1)] l lz trim [OF that(2)]
    have "rows p = lastn cap (rows xs) @ drop n (rows z)" by simp
    with l n lz trim [OF that(2)] show ?thesis by (simp add: ring_holds_def nth_append)
  qed
  show ?thesis
    using holds [OF wk refl] holds [OF wv lv] c' cap True n lv
    by (simp add: kv_holds_def cap_def [symmetric])
qed

lemma append_sliding_holds:
  assumes laws: "mlx_laws mx rows" and holds: "kv_holds rows c kh vh" and sl: "kc_is_sliding c"
    and app: "append_sliding mx c keys values (mx_rows mx keys) = (Inr u, c')"
    and lv: "length (rows values) = length (rows keys)"
    and small: "length kh + length (rows keys) < 2 ^ 32"
  shows "kv_holds rows c' (kh @ rows keys) (vh @ rows values)"
    "kc_is_sliding c'" "kc_capacity c' = kc_capacity c" "kc_committed_len c' = kc_committed_len c"
proof -
  note h = holds [unfolded kv_holds_def if_P [OF sl]]
  let ?cap = "kc_capacity c"
  have cap: "0 < ?cap" using h by simp
  obtain pk pv where p: "kc_preallocated_k c = Some pk" "kc_preallocated_v c = Some pv"
    "ring_holds ?cap (rows pk) kh" "ring_holds ?cap (rows pv) vh"
    using h by auto
  let ?n = "length (rows keys)"
  let ?wp = "length kh mod ?cap"
  obtain pk' pv' where w: "ring_write mx ?cap ?wp ?n keys pk = Some pk'"
      "ring_write mx ?cap ?wp ?n values pv = Some pv'"
    and c': "c' = c\<lparr>kc_preallocated_k := Some pk', kc_preallocated_v := Some pv',
        kc_physical_write_pos := add32 ?wp ?n mod ?cap, kc_total_appended := add32 (length kh) ?n,
        kc_seq_len := min (add32 (length kh) ?n) ?cap,
        kc_logical_start := (if ?cap < add32 (length kh) ?n then add32 (length kh) ?n - ?cap
          else kc_logical_start c),
        kc_evictions_count := (if ?cap < add32 (length kh) ?n then add32 (length kh) ?n - ?cap
          else kc_evictions_count c),
        kc_rollback_k := None, kc_rollback_v := None\<rparr>"
    using app p h cap
    by (simp add: append_sliding_def mlx_rows [OF laws] Let_def
        split: option.splits)
  have t: "add32 (length kh) ?n = length kh + ?n" using small by (simp add: add32_def)
  have "?wp + ?n < 2 ^ 32"
    using small mod_less_eq_dividend [of "length kh" ?cap] by linarith
  then have wp: "add32 ?wp ?n mod ?cap = (length kh + ?n) mod ?cap"
    by (simp add: add32_def mod_add_left_eq)
  have rk: "ring_holds ?cap (rows pk') (kh @ rows keys)"
    by (rule ring_write_holds [OF laws cap p(3) w(1)])
  have w2: "ring_write mx ?cap (length vh mod ?cap) (length (rows values)) values pv = Some pv'"
    using w(2) h lv by simp
  have rv: "ring_holds ?cap (rows pv') (vh @ rows values)"
    by (rule ring_write_holds [OF laws cap p(4) w2])
  have ls: "kc_logical_start c = length kh - ?cap" using h by simp
  show "kv_holds rows c' (kh @ rows keys) (vh @ rows values)"
    unfolding kv_holds_def using sl h rk rv lv cap
    by (simp add: c' t wp ls)
  show "kc_is_sliding c'" "kc_capacity c' = kc_capacity c" "kc_committed_len c' = kc_committed_len c"
    using sl by (simp_all add: c')
qed

lemma append_global_holds:
  assumes laws: "mlx_laws mx rows" and holds: "kv_holds rows c kh vh" and sl: "\<not> kc_is_sliding c"
    and app: "append_global mx c keys values (mx_rows mx keys) = (Inr u, c')"
    and lv: "length (rows values) = length (rows keys)"
    and small: "length kh + length (rows keys) < 2 ^ 32"
  shows "kv_holds rows c' (kh @ rows keys) (vh @ rows values)"
    "\<not> kc_is_sliding c'" "kc_capacity c' = kc_capacity c" "kc_committed_len c' = kc_committed_len c"
    "kc_rollback_k c' = kc_k_cache c" "kc_rollback_v c' = kc_v_cache c"
proof -
  note h = holds [unfolded kv_holds_def if_not_P [OF sl]]
  obtain k v where kv: "kc_k_cache c = Some k" "kc_v_cache c = Some v" "rows k = kh" "rows v = vh"
    using h by auto
  have t: "add32 (length kh) (length (rows keys)) = length kh + length (rows keys)"
    using small by (simp add: add32_def)
  obtain k' v' where cc: "mx_concat mx k keys = Some k'" "mx_concat mx v values = Some v'"
    and c': "c' = c\<lparr>kc_copy_bytes := (kc_copy_bytes c + (mx_size mx k * 4 + mx_size mx v * 4)) mod 2 ^ 64,
      kc_k_cache := Some k', kc_v_cache := Some v',
      kc_total_appended := length kh + length (rows keys),
      kc_seq_len := length kh + length (rows keys),
      kc_physical_write_pos := length kh + length (rows keys),
      kc_rollback_k := Some k, kc_rollback_v := Some v\<rparr>"
    using app kv h by (simp add: append_global_def Let_def t mlx_rows [OF laws] split: option.splits)
  have r: "rows k' = kh @ rows keys" "rows v' = vh @ rows values"
    using mlx_concat_rows [OF laws cc(1)] mlx_concat_rows [OF laws cc(2)] kv by simp_all
  show "kv_holds rows c' (kh @ rows keys) (vh @ rows values)"
    unfolding kv_holds_def using sl h lv r by (simp add: c')
  show "\<not> kc_is_sliding c'" "kc_capacity c' = kc_capacity c"
    "kc_committed_len c' = kc_committed_len c" "kc_rollback_k c' = kc_k_cache c"
    "kc_rollback_v c' = kc_v_cache c"
    using sl kv by (simp_all add: c')
qed

lemma read_window_holds:
  assumes laws: "mlx_laws mx rows" and holds: "kv_holds rows c kh vh"
    and rd: "read_window mx c = Some (k, v)"
  shows "rows k = (if kc_is_sliding c then lastn (kc_capacity c) kh else kh) \<and>
    rows v = (if kc_is_sliding c then lastn (kc_capacity c) vh else vh)"
proof (cases "kc_is_sliding c")
  case False
  with holds rd show ?thesis by (auto simp: kv_holds_def read_window_def)
next
  case True
  note h = holds [unfolded kv_holds_def if_P [OF True]]
  obtain pk pv where p: "kc_preallocated_k c = Some pk" "kc_preallocated_v c = Some pv"
    "ring_holds (kc_capacity c) (rows pk) kh" "ring_holds (kc_capacity c) (rows pv) vh"
    using h by auto
  let ?start = "if kc_capacity c \<le> length kh then length kh mod kc_capacity c else 0"
  have rk: "ring_read mx (kc_capacity c) ?start (min (length kh) (kc_capacity c)) pk = Some k"
    and rv: "ring_read mx (kc_capacity c) ?start (min (length kh) (kc_capacity c)) pv = Some v"
    using rd True p h
    by (simp_all add: read_window_def read_window_sliding_def Let_def
        split: if_splits option.splits)
  have lv: "length vh = length kh" and cap: "0 < kc_capacity c" using h by simp_all
  note ring_read_rows [OF laws cap p(3) rk] ring_read_rows [OF laws cap p(4), unfolded lv, OF rv]
  with True lv show ?thesis by (simp add: lastn_def)
qed


subsection \<open>Runs of appends and commits\<close>

datatype 'a kv_op = OpAppend 'a 'a | OpCommit

fun kv_run :: "'a mlx \<Rightarrow> 'a kv_cache \<Rightarrow> 'a kv_op list \<Rightarrow> 'a kv_cache option" where
  "kv_run mx c [] = Some c"
| "kv_run mx c (OpCommit # ops) = kv_run mx (commit_step c) ops"
| "kv_run mx c (OpAppend k v # ops) = (case append_kv mx c k v of
      (Inr _, c') \<Rightarrow> kv_run mx c' ops
    | (Inl _, _) \<Rightarrow> None)"

text \<open>The keys and values appended by a run; each append brings as many values as keys.\<close>

fun op_keys :: "('a \<Rightarrow> 'r list) \<Rightarrow> 'a kv_op list \<Rightarrow> 'r list" where
  "op_keys rows [] = []"
| "op_keys rows (OpCommit # ops) = op_keys rows ops"
| "op_keys rows (OpAppend k v # ops) = rows k @ op_keys rows ops"

fun op_values :: "('a \<Rightarrow> 'r list) \<Rightarrow> 'a kv_op list \<Rightarrow> 'r list" where
  "op_values rows [] = []"
| "op_values rows (OpCommit # ops) = op_values rows ops"
| "op_values rows (OpAppend k v # ops) = rows v @ op_values rows ops"

fun ops_paired :: "('a \<Rightarrow> 'r list) \<Rightarrow> 'a kv_op list \<Rightarrow> bool" where
  "ops_paired rows [] \<longleftrightarrow> True"
| "ops_paired rows (OpCommit # ops) \<longleftrightarrow> ops_paired rows ops"
| "ops_paired rows (OpAppend k v # ops) \<longleftrightarrow> length (rows v) = length (rows k) \<and> ops_paired rows ops"

definition window_of :: "bool \<Rightarrow> nat \<Rightarrow> 'r list \<Rightarrow> 'r list" where
  "window_of sliding cap xs = (if sliding then lastn cap xs else xs)"

lemma window_of_append: "window_of sl cap (window_of sl cap xs @ ys) = window_of sl cap (xs @ ys)"
  by (simp add: window_of_def lastn_lastn_append)


lemma commit_fields:
  "kc_is_sliding (commit_step c) = kc_is_sliding c" "kc_capacity (commit_step c) = kc_capacity c"
  "kc_k_cache (commit_step c) = kc_k_cache c" "kc_v_cache (commit_step c) = kc_v_cache c"
  "kc_preallocated_k (commit_step c) = kc_preallocated_k c"
  "kc_preallocated_v (commit_step c) = kc_preallocated_v c"
  "kc_seq_len (commit_step c) = kc_seq_len c" "kc_logical_start (commit_step c) = kc_logical_start c"
  "kc_physical_write_pos (commit_step c) = kc_physical_write_pos c"
  "kc_total_appended (commit_step c) = kc_total_appended c"
  by (simp_all add: commit_step_def)

lemma commit_holds:
  assumes "kv_holds rows c kh vh"
  shows "kv_holds rows (commit_step c) kh vh"
proof -
  have "kv_holds rows (commit_step c) kh vh = kv_holds rows c kh vh"
    by (simp only: kv_holds_def commit_fields)
  with assms show ?thesis by simp
qed

lemma append_holds:
  assumes laws: "mlx_laws mx rows" and holds: "kv_holds rows c kh vh"
    and app: "append_kv mx c keys values = (Inr u, c')"
    and lv: "length (rows values) = length (rows keys)"
    and small: "length kh + length (rows keys) < 2 ^ 32"
  shows "kv_holds rows c' (kh @ rows keys) (vh @ rows values) \<and>
    kc_is_sliding c' = kc_is_sliding c \<and> kc_capacity c' = kc_capacity c \<and>
    kc_committed_len c' = kc_committed_len c"
proof (cases "kc_is_sliding c")
  case True
  with app have "append_sliding mx c keys values (mx_rows mx keys) = (Inr u, c')"
    by (simp add: append_kv_holds [OF holds])
  from append_sliding_holds [OF laws holds True this lv small] True show ?thesis by simp
next
  case False
  with app have "append_global mx c keys values (mx_rows mx keys) = (Inr u, c')"
    by (simp add: append_kv_holds [OF holds])
  from append_global_holds [OF laws holds False this lv small] False show ?thesis by simp
qed

lemma kv_run_holds:
  assumes laws: "mlx_laws mx rows" and "kv_holds rows c kh vh" and "ops_paired rows ops"
    and "length kh + length (op_keys rows ops) < 2 ^ 32" and "kv_run mx c ops = Some c'"
  shows "kv_holds rows c' (kh @ op_keys rows ops) (vh @ op_values rows ops) \<and>
    kc_is_sliding c' = kc_is_sliding c \<and> kc_capacity c' = kc_capacity c"
  using assms(2-)
proof (induction ops arbitrary: c kh vh)
  case (Cons op ops)
  show ?case
  proof (cases op)
    case OpCommit
    with Cons.prems Cons.IH [OF commit_holds [OF Cons.prems(1)]] show ?thesis
      by (simp add: commit_fields)
  next
    case (OpAppend k v)
    obtain u c1 where app: "append_kv mx c k v = (Inr u, c1)" and run: "kv_run mx c1 ops = Some c'"
      using Cons.prems(4) OpAppend by (auto split: prod.splits sum.splits)
    have lv: "length (rows v) = length (rows k)" and small: "length kh + length (rows k) < 2 ^ 32"
      and small': "length (kh @ rows k) + length (op_keys rows ops) < 2 ^ 32"
      using Cons.prems(2,3) OpAppend by simp_all
    note h1 = append_holds [OF laws Cons.prems(1) app lv small]
    have paired: "ops_paired rows ops" using Cons.prems(2) OpAppend by simp
    from Cons.IH [OF conjunct1 [OF h1] paired small' run] h1 OpAppend show ?thesis by simp
  qed
qed simp

lemma commit_pristine: "kv_pristine c \<Longrightarrow> kv_pristine (commit_step c)"
  by (simp only: kv_pristine_def commit_fields)

text \<open>A run from an empty cache ends empty or holding the window of everything appended.\<close>

lemma kv_run_fresh:
  assumes laws: "mlx_laws mx rows" and "kv_pristine c" and "ops_paired rows ops"
    and "length (op_keys rows ops) < 2 ^ 32" and "kv_run mx c ops = Some c'"
  shows "(kv_pristine c' \<and> op_keys rows ops = [] \<and>
      kc_total_appended c' = kc_total_appended c) \<or>
    (\<exists>kh vh. kv_holds rows c' kh vh \<and>
       window_of (kc_is_sliding c) (kc_capacity c) kh =
         window_of (kc_is_sliding c) (kc_capacity c) (op_keys rows ops) \<and>
       window_of (kc_is_sliding c) (kc_capacity c) vh =
         window_of (kc_is_sliding c) (kc_capacity c) (op_values rows ops) \<and>
       length kh \<le> length (op_keys rows ops) \<and>
       kc_is_sliding c' = kc_is_sliding c \<and> kc_capacity c' = kc_capacity c)"
  using assms(2-)
proof (induction ops arbitrary: c)
  case (Cons op ops)
  show ?case
  proof (cases op)
    case OpCommit
    with Cons.prems Cons.IH [OF commit_pristine [OF Cons.prems(1)]] show ?thesis
      by (simp add: commit_fields)
  next
    case (OpAppend k v)
    obtain u c1 where app: "append_kv mx c k v = (Inr u, c1)" and run: "kv_run mx c1 ops = Some c'"
      using Cons.prems(4) OpAppend by (auto split: prod.splits sum.splits)
    have lv: "length (rows v) = length (rows k)" and paired: "ops_paired rows ops"
      using Cons.prems(2) OpAppend by simp_all
    let ?w = "window_of (kc_is_sliding c) (kc_capacity c)"
    have first: "first_append mx c k v (mx_rows mx k) = (Inr u, c1)"
      using app append_kv_fresh [OF Cons.prems(1)] by simp
    note fa = first_append_holds [OF laws first Cons.prems(1) lv, folded window_of_def]
    have len: "length (?w (rows k)) \<le> length (rows k)" by (simp add: window_of_def)
    have small: "length (?w (rows k)) + length (op_keys rows ops) < 2 ^ 32"
      using Cons.prems(3) OpAppend len by simp
    note h = kv_run_holds [OF laws conjunct1 [OF fa] paired small run]
    show ?thesis
      using h fa OpAppend len
      by (intro disjI2 exI [of _ "?w (rows k) @ op_keys rows ops"]
          exI [of _ "?w (rows v) @ op_values rows ops"]) (simp add: window_of_append)
  qed
qed simp

lemma ring_read_defined: "(\<And>a b. mx_concat mx a b \<noteq> None) \<Longrightarrow> \<exists>a. ring_read mx cap s n pre = Some a"
  by (simp add: ring_read_def Let_def)

lemma read_window_defined:
  assumes holds: "kv_holds rows c kh vh" and ne: "kh \<noteq> []"
    and total: "\<And>a b. mx_concat mx a b \<noteq> None"
  shows "\<exists>k v. read_window mx c = Some (k, v)"
proof (cases "kc_is_sliding c")
  case False
  with holds show ?thesis by (auto simp: kv_holds_def read_window_def)
next
  case True
  note h = holds [unfolded kv_holds_def if_P [OF True]]
  obtain pk pv where p: "kc_preallocated_k c = Some pk" "kc_preallocated_v c = Some pv"
    using h by auto
  let ?start = "if kc_capacity c \<le> kc_total_appended c then kc_physical_write_pos c else 0"
  obtain k v where kv: "ring_read mx (kc_capacity c) ?start (kc_seq_len c) pk = Some k"
    "ring_read mx (kc_capacity c) ?start (kc_seq_len c) pv = Some v"
    using ring_read_defined [OF total] by metis
  have "kc_seq_len c \<noteq> 0" using h ne by simp
  then have "read_window_sliding mx c = Some (k, v)"
    using p kv by (simp only: read_window_sliding_def option.case prod.case if_False Let_def)
  with True show ?thesis by (simp add: read_window_def)
qed



text \<open>Arrays as lists of rows: an instance of the operations that never fails.\<close>

definition list_mlx :: "nat list mlx" where
  "list_mlx = \<lparr>mx_rows = length, mx_size = length, mx_zeros = (\<lambda>c h d. Some (replicate c 0)),
     mx_slice = (\<lambda>lo hi a. take (hi - lo) (drop lo a)),
     mx_write = (\<lambda>lo hi u t. if length t < length u then None
       else Some (take lo t @ u @ drop hi t)),
     mx_concat = (\<lambda>a b. Some (a @ b))\<rparr>"

lemma list_mlx_laws: "mlx_laws list_mlx (\<lambda>xs. xs)"
  by (simp add: mlx_laws_def list_mlx_def)

lemmas kv_eval = kv_new_def append_kv_def first_append_def append_sliding_def append_global_def
  ring_write_def list_mlx_def add32_def Let_def commit_step_def uncommitted_len_def


subsection \<open>Rollback\<close>


text \<open>The sliding branch of the rollback, for a cache that had committed tokens.\<close>

lemma rollback_sliding_fields:
  assumes "kc_is_sliding c" "kc_committed_len c \<noteq> 0"
    "\<not> (kc_total_appended c = kc_committed_len c \<and> kc_seq_len c = kc_committed_len c)"
  shows "rollback_kv c = c\<lparr>kc_total_appended := kc_committed_len c,
      kc_seq_len := min (kc_committed_len c) (kc_capacity c),
      kc_logical_start := kc_committed_len c - kc_capacity c,
      kc_physical_write_pos := kc_committed_len c mod kc_capacity c,
      kc_rollback_k := None, kc_rollback_v := None\<rparr>"
  unfolding rollback_kv_def if_not_P [OF assms(3)] if_P [OF assms(1)] if_not_P [OF assms(2)] Let_def
  by simp

text \<open>What a sliding cache holds after a rollback is what its ring holds, read as \<open>committed_len\<close>
  tokens.\<close>

lemma rollback_sliding_holds:
  assumes holds: "kv_holds rows c' kh' vh'" and sl: "kc_is_sliding c'"
    and com: "kc_committed_len c' = length kh" "kh \<noteq> []" "length vh = length kh"
    and ring: "\<And>p. ring_holds (kc_capacity c') (rows p) kh' \<Longrightarrow> ring_holds (kc_capacity c') (rows p) kh"
      "\<And>p. ring_holds (kc_capacity c') (rows p) vh' \<Longrightarrow> ring_holds (kc_capacity c') (rows p) vh"
    and changed: "length kh < length kh'"
  shows "kv_holds rows (rollback_kv c') kh vh \<and> kc_is_sliding (rollback_kv c') \<and>
    kc_capacity (rollback_kv c') = kc_capacity c'"
proof -
  note h = holds [unfolded kv_holds_def if_P [OF sl]]
  have ne: "kc_committed_len c' \<noteq> 0" "\<not> (kc_total_appended c' = kc_committed_len c' \<and>
      kc_seq_len c' = kc_committed_len c')"
    using com changed h by auto
  show ?thesis
    unfolding rollback_sliding_fields [OF sl ne] kv_holds_def
    using h com ring sl by auto
qed


lemma rollback_global_fields:
  assumes "\<not> kc_is_sliding c"
    "\<not> (kc_total_appended c = kc_committed_len c \<and> kc_seq_len c = kc_committed_len c)"
  shows "rollback_kv c = c\<lparr>kc_k_cache := kc_rollback_k c, kc_v_cache := kc_rollback_v c,
      kc_total_appended := kc_committed_len c, kc_seq_len := kc_committed_len c,
      kc_physical_write_pos := kc_committed_len c, kc_rollback_k := None, kc_rollback_v := None\<rparr>"
  unfolding rollback_kv_def if_not_P [OF assms(2)] if_not_P [OF assms(1)] Let_def by simp







text \<open>The window after a rolled-back append that ran past the capacity: the dropped tokens come
  first.\<close>

definition after_bad_rollback :: "nat \<Rightarrow> 'r list \<Rightarrow> 'r list \<Rightarrow> 'r list" where
  "after_bad_rollback cap hist xs =
     take (length hist - cap) hist @ xs @ drop (length xs) (lastn cap hist)"

lemma length_after_bad_rollback: "cap \<le> length hist \<Longrightarrow> length xs \<le> cap \<Longrightarrow>
    length (after_bad_rollback cap hist xs) = length hist"
  by (simp add: after_bad_rollback_def)

lemma ring_holds_bad_rollback:
  assumes holds: "ring_holds cap ring (hist @ xs)" and le: "cap \<le> length hist" "length xs \<le> cap"
  shows "ring_holds cap ring (after_bad_rollback cap hist xs)"
  unfolding ring_holds_def length_after_bad_rollback [OF le]
proof (intro conjI allI impI)
  fix i assume i: "i < length hist" "length hist \<le> i + cap"
  define j where "j = i + cap - length hist"
  have j: "i = length hist - cap + j" "j < cap" using i le by (simp_all add: j_def)
  have nth: "after_bad_rollback cap hist xs ! i = (if j < length xs then xs ! j else hist ! i)"
    using j le i by (auto simp: after_bad_rollback_def nth_append lastn_def)
  show "ring ! (i mod cap) = after_bad_rollback cap hist xs ! i"
  proof (cases "j < length xs")
    case True
    have "i + cap = length hist + j" using j le by simp
    then have "(length hist + j) mod cap = i mod cap" by (metis mod_add_self2)
    moreover have "ring ! ((length hist + j) mod cap) = (hist @ xs) ! (length hist + j)"
      using holds True le j by (simp add: ring_holds_def)
    ultimately show ?thesis using True nth by simp
  next
    case False
    have "length (hist @ xs) \<le> i + cap" using False j le by simp
    with holds i have "ring ! (i mod cap) = (hist @ xs) ! i" by (simp add: ring_holds_def)
    with False nth i show ?thesis by (simp add: nth_append)
  qed
qed (use holds in \<open>simp add: ring_holds_def\<close>)

lemma lastn_after_bad_rollback: "cap \<le> length hist \<Longrightarrow> length xs \<le> cap \<Longrightarrow>
    lastn cap (after_bad_rollback cap hist xs) = xs @ drop (length xs) (lastn cap hist)"
  by (simp add: lastn_def [of cap "after_bad_rollback cap hist xs"] length_after_bad_rollback)
    (simp add: after_bad_rollback_def)

text \<open>Rolling back an append on a full sliding layer does not restore it.  The window then shows
  the dropped tokens, up to the capacity, as its oldest entries, in the place of the committed tokens
  they overwrote, while every counter says that nothing was appended.\<close>
theorem rollback_after_wrap_shows_dropped_tokens:
  assumes "mlx_laws mx rows" "\<forall>a b. mx_concat mx a b \<noteq> None"
    and "kv_run mx (kv_new cap heads dim True) ops = Some c" "ops_paired rows ops"
    and "length (op_keys rows ops) + length (rows keys) < 2 ^ 32"
    and "kc_committed_len c = kc_total_appended c" "cap \<le> kc_total_appended c" "0 < cap"
    and "append_kv mx c keys values = (Inr (), c')" "length (rows values) = length (rows keys)"
    and "0 < length (rows keys)" "length (rows keys) \<le> cap"
  shows "\<exists>k v. read_window mx (rollback_kv c') = Some (k, v) \<and>
    rows k = rows keys @ drop (length (rows keys)) (window_of True cap (op_keys rows ops)) \<and>
    rows v = rows values @ drop (length (rows keys)) (window_of True cap (op_values rows ops)) \<and>
    kc_total_appended (rollback_kv c') = kc_total_appended c \<and>
    kc_seq_len (rollback_kv c') = kc_seq_len c"
proof -
  let ?c0 = "kv_new cap heads dim True :: 'a kv_cache"
  have new: "kv_pristine ?c0" "kc_is_sliding ?c0 = True" "kc_capacity ?c0 = cap"
    "kc_total_appended ?c0 = 0"
    by (simp_all add: kv_new_def kv_pristine_def)
  have small: "length (op_keys rows ops) < 2 ^ 32" using assms(5) by simp
  obtain kh vh where h: "kv_holds rows c kh vh"
      "window_of True cap kh = window_of True cap (op_keys rows ops)"
      "window_of True cap vh = window_of True cap (op_values rows ops)"
      "length kh \<le> length (op_keys rows ops)" "kc_is_sliding c" "kc_capacity c = cap"
    using kv_run_fresh [OF assms(1) new(1) assms(4) small assms(3)] assms(7,8) new by auto
  have k: "kc_total_appended c = length kh" "length vh = length kh" "cap \<le> length kh"
    using h(1) assms(7) by (simp_all add: kv_holds_def)
  have ne: "kh \<noteq> []" using k assms(8) by auto
  have small': "length kh + length (rows keys) < 2 ^ 32" using h(4) assms(5) by simp
  note a = append_holds [OF assms(1) h(1) assms(9,10) small']
  have a': "kv_holds rows c' (kh @ rows keys) (vh @ rows values)" "kc_is_sliding c'"
    "kc_capacity c' = cap" "kc_committed_len c' = length kh"
    using a h(5,6) assms(6) k by simp_all
  let ?bk = "after_bad_rollback cap kh (rows keys)"
  let ?bv = "after_bad_rollback cap vh (rows values)"
  have lk: "length ?bk = length kh" and lv: "length ?bv = length ?bk"
    using k assms(10,12) by (simp_all add: length_after_bad_rollback)
  have bad: "kv_holds rows (rollback_kv c') ?bk ?bv \<and> kc_is_sliding (rollback_kv c') \<and>
      kc_capacity (rollback_kv c') = kc_capacity c'"
  proof (rule rollback_sliding_holds [OF a'(1) a'(2)])
    show "kc_committed_len c' = length ?bk" using lk a'(4) by simp
    show "?bk \<noteq> []" using lk ne by (metis length_0_conv)
    show "length ?bv = length ?bk" by (rule lv)
    show "length ?bk < length (kh @ rows keys)" using lk assms(11) by simp
    show "ring_holds (kc_capacity c') (rows p) ?bk"
      if "ring_holds (kc_capacity c') (rows p) (kh @ rows keys)" for p
      using ring_holds_bad_rollback [OF that [unfolded a'(3)]] k assms(12) a'(3) by simp
    show "ring_holds (kc_capacity c') (rows p) ?bv"
      if "ring_holds (kc_capacity c') (rows p) (vh @ rows values)" for p
      using ring_holds_bad_rollback [OF that [unfolded a'(3)]] k assms(10,12) a'(3) by simp
  qed
  have "?bk \<noteq> []" using lk ne by (metis length_0_conv)
  then obtain kk vv where rd: "read_window mx (rollback_kv c') = Some (kk, vv)"
    using read_window_defined [OF conjunct1 [OF bad]] assms(2) by blast
  have lw: "lastn cap ?bk = rows keys @ drop (length (rows keys)) (lastn cap kh)"
    "lastn cap ?bv = rows values @ drop (length (rows values)) (lastn cap vh)"
    using k assms(10,12) by (simp_all add: lastn_after_bad_rollback)
  have win: "lastn cap kh = lastn cap (op_keys rows ops)" "lastn cap vh = lastn cap (op_values rows ops)"
    using h(2,3) by (simp_all add: window_of_def)
  have "rows kk = lastn cap ?bk \<and> rows vv = lastn cap ?bv"
    using read_window_holds [OF assms(1) conjunct1 [OF bad] rd] bad a'(3) by simp
  moreover have "kc_total_appended (rollback_kv c') = kc_total_appended c \<and>
      kc_seq_len (rollback_kv c') = kc_seq_len c"
    using bad h(1,5,6) lk a'(3) by (simp add: kv_holds_def)
  ultimately show ?thesis
    using rd lw win assms(10) by (simp add: window_of_def)
qed

theorem rollback_after_wrap_shows_dropped_tokens_witness:
  "\<exists>c c' k v. kv_run list_mlx (kv_new 3 1 1 True) [OpAppend [1,2,3] [11,12,13]] = Some c \<and>
     append_kv list_mlx c [9] [19] = (Inr (), c') \<and>
     read_window list_mlx (rollback_kv c') = Some (k, v) \<and> k = [9,2,3] \<and> v = [19,12,13]"
proof -
  let ?ops = "[OpAppend [1,2,3] [11,12,13::nat]]"
  obtain c c' where run: "kv_run list_mlx (kv_new 3 1 1 True) ?ops = Some c"
    and com: "kc_committed_len c = kc_total_appended c" and tot: "3 \<le> kc_total_appended c"
    and app: "append_kv list_mlx c [9] [19] = (Inr (), c')"
    by (simp add: kv_eval)
  have nf: "\<forall>a b. mx_concat list_mlx a b \<noteq> None" by (simp add: list_mlx_def)
  have w: "window_of True 3 (op_keys (\<lambda>xs. xs) ?ops) = [1,2,3]"
    "window_of True 3 (op_values (\<lambda>xs. xs) ?ops) = [11,12,13]"
    by (simp_all add: window_of_def lastn_def)
  from rollback_after_wrap_shows_dropped_tokens [OF list_mlx_laws nf run _ _ com tot _ app] w
  have "\<exists>k v. read_window list_mlx (rollback_kv c') = Some (k, v) \<and> k = [9,2,3] \<and> v = [19,12,13]"
    by auto
  with run app show ?thesis by blast
qed

text \<open>A global layer keeps the arrays of the last append only: after two uncommitted appends the
  rollback leaves the tokens of the first in the window, while the counters are those of the committed
  state.\<close>

lemma rollback_after_two_appends:
  assumes laws: "mlx_laws mx rows" and holds: "kv_holds rows c kh vh" and sl: "\<not> kc_is_sliding c"
    and com: "kc_committed_len c = length kh"
    and app1: "append_kv mx c k1 v1 = (Inr u1, c1)" and lv1: "length (rows v1) = length (rows k1)"
    and app2: "append_kv mx c1 k2 v2 = (Inr u2, c2)" and lv2: "length (rows v2) = length (rows k2)"
    and small: "length kh + length (rows k1) + length (rows k2) < 2 ^ 32"
    and ne: "0 < length (rows k1)"
  shows "\<exists>k v. read_window mx (rollback_kv c2) = Some (k, v) \<and> rows k = kh @ rows k1 \<and>
    rows v = vh @ rows v1 \<and> kc_seq_len (rollback_kv c2) = length kh"
proof -
  have s1: "length kh + length (rows k1) < 2 ^ 32" using small by simp
  have g1: "append_global mx c k1 v1 (mx_rows mx k1) = (Inr u1, c1)"
    using app1 append_kv_holds [OF holds, of mx k1 v1] sl by simp
  note a1 = append_global_holds [OF laws holds sl g1 lv1 s1]
  have s2: "length (kh @ rows k1) + length (rows k2) < 2 ^ 32" using small by simp
  have g2: "append_global mx c1 k2 v2 (mx_rows mx k2) = (Inr u2, c2)"
    using app2 append_kv_holds [OF a1(1), of mx k2 v2] a1(2) by simp
  note a2 = append_global_holds [OF laws a1(1,2) g2 lv2 s2]
  have t: "kc_total_appended c2 = length kh + length (rows k1) + length (rows k2)"
    "kc_committed_len c2 = length kh"
    using a2(1,4) a1(4) com by (simp_all add: kv_holds_def)
  then have nt: "\<not> (kc_total_appended c2 = kc_committed_len c2 \<and> kc_seq_len c2 = kc_committed_len c2)"
    using ne by simp
  obtain k v where kv: "kc_k_cache c1 = Some k" "kc_v_cache c1 = Some v"
    "rows k = kh @ rows k1" "rows v = vh @ rows v1"
    using a1(1,2) by (auto simp: kv_holds_def)
  show ?thesis
    unfolding rollback_global_fields [OF a2(2) nt]
    using kv a2(2,5,6) t by (simp add: read_window_def)
qed
end
