(* ===== verification/PageTiers.thy ===== *)
theory PageTiers
  imports Prelude
begin

text \<open>
  The tiered KV pages of \<open>kv_cache.rs\<close>: \<open>TiersPage\<close>, \<open>PageMigrationService\<close> and the disk tier.

  An \<open>f32\<close> is its 32 bits and bytes are little endian, as on the targets.  The Neural Engine programs
  that decompress and compress a page are parameters on byte lists.  Time is a natural number.  The disk
  directory maps the start token, which alone determines the file name, to the file's bytes; \<open>io_fails\<close>
  says for which files the operating system refuses to write.  Budget learning
  (\<open>learn_evolk_budgets\<close>) is left out.
\<close>

datatype tier = L1AneSram | L2Iosurface | L3DramHeap | L4Disk

definition tier_name :: "tier \<Rightarrow> string" where
  "tier_name t = (case t of L1AneSram \<Rightarrow> ''L1-ANE-SRAM'' | L2Iosurface \<Rightarrow> ''L2-IOSurface''
     | L3DramHeap \<Rightarrow> ''L3-DRAM-Heap'' | L4Disk \<Rightarrow> ''L4-Disk'')"

record 'h tiers_page =
  tp_l1_data :: "u32 list option"
  tp_l2_handle :: "'h option"
  tp_l3_data :: "u8 list option"
  tp_current_tier :: tier
  tp_last_access :: nat
  tp_token_start :: u32
  tp_token_end :: u32

definition tiers_page_new :: "nat \<Rightarrow> u32 \<Rightarrow> u32 \<Rightarrow> tier \<Rightarrow> 'h tiers_page" where
  "tiers_page_new now token_start token_end initial_tier = \<lparr>
     tp_l1_data = (if initial_tier = L1AneSram then Some [] else None),
     tp_l2_handle = None,
     tp_l3_data = (if initial_tier = L3DramHeap then Some [] else None),
     tp_current_tier = initial_tier, tp_last_access = now,
     tp_token_start = token_start, tp_token_end = token_end\<rparr>"

definition touch :: "nat \<Rightarrow> 'h tiers_page \<Rightarrow> 'h tiers_page" where
  "touch now p = p\<lparr>tp_last_access := now\<rparr>"

definition contains_token :: "'h tiers_page \<Rightarrow> u32 \<Rightarrow> bool" where
  "contains_token p token_id \<longleftrightarrow> token_id \<ge> tp_token_start p \<and> token_id < tp_token_end p"

definition token_count :: "'h tiers_page \<Rightarrow> u32" where
  "token_count p = sat_sub (tp_token_end p) (tp_token_start p)"

text \<open>The sizes of the page structure and of a block handle are compile-time constants.\<close>

definition page_allocated_bytes :: "nat \<Rightarrow> nat \<Rightarrow> 'h tiers_page \<Rightarrow> nat" where
  "page_allocated_bytes overhead handle_size p = (case tp_current_tier p of
      L1AneSram \<Rightarrow> (case tp_l1_data p of None \<Rightarrow> 0 | Some d \<Rightarrow> length d * 4) + overhead
    | L2Iosurface \<Rightarrow> (if tp_l2_handle p \<noteq> None then 1 else 0) * handle_size + overhead
    | L3DramHeap \<Rightarrow> (case tp_l3_data p of None \<Rightarrow> 0 | Some d \<Rightarrow> length d) + overhead
    | L4Disk \<Rightarrow> overhead)"

subsection \<open>The disk tier\<close>

type_synonym disk = "u32 \<Rightarrow> u8 list option"

datatype tier_error = NoL3Data | WriteFailed | ReadFailed | NoL1Data | NoL2Handle

definition evict_page_to_disk :: "(u32 \<Rightarrow> bool) \<Rightarrow> 'h tiers_page \<Rightarrow> disk
    \<Rightarrow> (tier_error + u32) \<times> disk" where
  "evict_page_to_disk io_fails page disk = (case tp_l3_data page of
      None \<Rightarrow> (Inl NoL3Data, disk)
    | Some compressed \<Rightarrow>
        if io_fails (tp_token_start page) then (Inl WriteFailed, disk)
        else (Inr (tp_token_start page), disk(tp_token_start page \<mapsto> compressed)))"

definition load_page_from_disk :: "u32 \<Rightarrow> disk \<Rightarrow> (tier_error + u8 list) \<times> disk" where
  "load_page_from_disk filename disk = (case disk filename of
      None \<Rightarrow> (Inl ReadFailed, disk)
    | Some data \<Rightarrow> (Inr data, disk(filename := None)))"

subsection \<open>Promotion and demotion\<close>

text \<open>\<open>chunks_exact(4)\<close> with \<open>f32::from_ne_bytes\<close>, and the bytes of a float slice (\<open>align_to\<close>).\<close>

fun floats_of_bytes :: "u8 list \<Rightarrow> u32 list" where
  "floats_of_bytes (a # b # c # d # xs) =
     (ucast a + push_bit 8 (ucast b) + push_bit 16 (ucast c) + push_bit 24 (ucast d)) #
     floats_of_bytes xs"
| "floats_of_bytes _ = []"

definition bytes_of_floats :: "u32 list \<Rightarrow> u8 list" where
  "bytes_of_floats fs = concat (map (\<lambda>w.
     [ucast w, ucast (drop_bit 8 w), ucast (drop_bit 16 w), ucast (drop_bit 24 w)]) fs)"

definition promote_to_l1 :: "(u8 list \<Rightarrow> u8 list) \<Rightarrow> 'h tiers_page
    \<Rightarrow> (tier_error + unit) \<times> 'h tiers_page" where
  "promote_to_l1 decompress page = (case tp_current_tier page of
      L3DramHeap \<Rightarrow> (case tp_l3_data page of
          None \<Rightarrow> (Inl NoL3Data, page)
        | Some l3_bytes \<Rightarrow> (Inr (), page\<lparr>
            tp_l1_data := Some (floats_of_bytes (decompress l3_bytes)),
            tp_l3_data := None, tp_current_tier := L1AneSram\<rparr>))
    | L2Iosurface \<Rightarrow> (case tp_l2_handle page of
          None \<Rightarrow> (Inl NoL2Handle, page)
        | Some _ \<Rightarrow> (Inr (), page\<lparr>tp_l2_handle := None, tp_current_tier := L1AneSram\<rparr>))
    | L1AneSram \<Rightarrow> (Inr (), page)
    | L4Disk \<Rightarrow> (Inr (), page))"

definition demote_to_l3 :: "(u8 list \<Rightarrow> u8 list) \<Rightarrow> 'h tiers_page
    \<Rightarrow> (tier_error + unit) \<times> 'h tiers_page" where
  "demote_to_l3 compress page = (case tp_current_tier page of
      L1AneSram \<Rightarrow> (case tp_l1_data page of
          None \<Rightarrow> (Inl NoL1Data, page)
        | Some fp16 \<Rightarrow> (Inr (), page\<lparr>tp_l3_data := Some (compress (bytes_of_floats fp16)),
            tp_l1_data := None, tp_current_tier := L3DramHeap\<rparr>))
    | L2Iosurface \<Rightarrow> (Inr (), page\<lparr>tp_l2_handle := None, tp_current_tier := L3DramHeap\<rparr>)
    | L3DramHeap \<Rightarrow> (Inr (), page)
    | L4Disk \<Rightarrow> (Inr (), page))"

subsection \<open>The migration service\<close>

record 'h migration =
  mg_pages :: "'h tiers_page list"
  mg_hot_threshold :: nat
  mg_cold_threshold :: nat
  mg_decompress :: "u8 list \<Rightarrow> u8 list"
  mg_compress :: "u8 list \<Rightarrow> u8 list"
  mg_head_dim :: u32
  mg_n_kv_heads :: u32
  mg_total_cache_budget :: nat

text \<open>Times are in seconds.\<close>

definition migration_new :: "(u8 list \<Rightarrow> u8 list) \<Rightarrow> (u8 list \<Rightarrow> u8 list) \<Rightarrow> u32 \<Rightarrow> u32
    \<Rightarrow> nat option \<Rightarrow> nat option \<Rightarrow> nat \<Rightarrow> 'h migration" where
  "migration_new decompress compress head_dim n_kv_heads hot cold budget = \<lparr>mg_pages = [],
     mg_hot_threshold = (case hot of None \<Rightarrow> 5 | Some t \<Rightarrow> t),
     mg_cold_threshold = (case cold of None \<Rightarrow> 30 | Some t \<Rightarrow> t),
     mg_decompress = decompress, mg_compress = compress, mg_head_dim = head_dim,
     mg_n_kv_heads = n_kv_heads, mg_total_cache_budget = budget\<rparr>"

definition add_page :: "nat \<Rightarrow> 'h migration \<Rightarrow> u32 \<Rightarrow> u32 \<Rightarrow> tier \<Rightarrow> 'h migration" where
  "add_page now m token_start token_end initial_tier =
     m\<lparr>mg_pages := mg_pages m @ [tiers_page_new now token_start token_end initial_tier]\<rparr>"

definition touch_token :: "nat \<Rightarrow> 'h migration \<Rightarrow> u32 \<Rightarrow> 'h migration" where
  "touch_token now m token_id = (case find_idx (\<lambda>p. contains_token p token_id) (mg_pages m) of
      None \<Rightarrow> m
    | Some i \<Rightarrow> m\<lparr>mg_pages := (mg_pages m)[i := touch now (mg_pages m ! i)]\<rparr>)"

text \<open>One page of a tick.\<close>

definition tick_page :: "'h migration \<Rightarrow> nat \<Rightarrow> 'h tiers_page
    \<Rightarrow> (tier_error + unit) \<times> 'h tiers_page" where
  "tick_page m now page = (
     let age = now - tp_last_access page;
         (r1, page1) = (
           if age < mg_hot_threshold m \<and> tp_current_tier page \<noteq> L1AneSram
           then promote_to_l1 (mg_decompress m) page
           else if mg_cold_threshold m < age \<and> tp_current_tier page \<noteq> L3DramHeap
           then demote_to_l3 (mg_compress m) page
           else (Inr (), page))
     in case r1 of
          Inl e \<Rightarrow> (Inl e, page1)
        | Inr _ \<Rightarrow>
            if mg_cold_threshold m < age \<and> tp_current_tier page1 = L1AneSram
            then demote_to_l3 (mg_compress m) page1
            else (Inr (), page1))"

text \<open>The loop of \<open>tick\<close>: the pages were moved out of the service; each is moved back after it was
  handled, and an error returns at once.\<close>

fun tick_loop :: "'h migration \<Rightarrow> nat \<Rightarrow> 'h tiers_page list \<Rightarrow> (tier_error + unit) \<times> 'h migration" where
  "tick_loop m now [] = (Inr (), m)"
| "tick_loop m now (page # pages) = (case tick_page m now page of
      (Inl e, _) \<Rightarrow> (Inl e, m)
    | (Inr _, page') \<Rightarrow> tick_loop (m\<lparr>mg_pages := mg_pages m @ [page']\<rparr>) now pages)"

definition tick :: "'h migration \<Rightarrow> nat \<Rightarrow> (tier_error + unit) \<times> 'h migration" where
  "tick m now = tick_loop (m\<lparr>mg_pages := []\<rparr>) now (mg_pages m)"

definition migration_allocated_bytes :: "nat \<Rightarrow> nat \<Rightarrow> nat \<Rightarrow> 'h migration \<Rightarrow> nat" where
  "migration_allocated_bytes struct_overhead overhead handle_size m =
     sum_list (map (page_allocated_bytes overhead handle_size) (mg_pages m)) + struct_overhead"

definition tier_counts :: "'h migration \<Rightarrow> nat \<times> nat \<times> nat \<times> nat" where
  "tier_counts m = (
     let n = (\<lambda>t. length (filter (\<lambda>p. tp_current_tier p = t) (mg_pages m)))
     in (n L1AneSram, n L2Iosurface, n L3DramHeap, n L4Disk))"

definition to_evict :: "'h migration \<Rightarrow> nat \<Rightarrow> nat list" where
  "to_evict m now = filter (\<lambda>i. mg_cold_threshold m < now - tp_last_access (mg_pages m ! i) \<and>
     tp_current_tier (mg_pages m ! i) = L3DramHeap) [0..<length (mg_pages m)]"

fun evict_loop :: "(u32 \<Rightarrow> bool) \<Rightarrow> 'h migration \<Rightarrow> disk \<Rightarrow> nat list \<Rightarrow> nat
    \<Rightarrow> (tier_error + nat) \<times> 'h migration \<times> disk" where
  "evict_loop io_fails m disk [] evicted = (Inr evicted, m, disk)"
| "evict_loop io_fails m disk (idx # idxs) evicted = (
     case evict_page_to_disk io_fails (mg_pages m ! idx) disk of
       (Inl e, disk') \<Rightarrow> (Inl e, m, disk')
     | (Inr _, disk') \<Rightarrow> evict_loop io_fails (m\<lparr>mg_pages := (mg_pages m)[idx :=
           (mg_pages m ! idx)\<lparr>tp_l3_data := None, tp_current_tier := L4Disk\<rparr>]\<rparr>)
           disk' idxs (evicted + 1))"

definition check_and_evict :: "(u32 \<Rightarrow> bool) \<Rightarrow> 'h migration \<Rightarrow> disk \<Rightarrow> nat
    \<Rightarrow> (tier_error + nat) \<times> 'h migration \<times> disk" where
  "check_and_evict io_fails m disk now = evict_loop io_fails m disk (rev (to_evict m now)) 0"

definition hot_tokens :: "'h migration \<Rightarrow> nat \<Rightarrow> u32 list" where
  "hot_tokens m now = map tp_token_start (filter (\<lambda>p.
     now - tp_last_access p < mg_hot_threshold m \<and> tp_current_tier p \<noteq> L4Disk) (mg_pages m))"

fun prefetch_loop :: "'h migration \<Rightarrow> disk \<Rightarrow> nat \<Rightarrow> u32 list \<Rightarrow> nat
    \<Rightarrow> (tier_error + nat) \<times> 'h migration \<times> disk" where
  "prefetch_loop m disk now [] prefetched = (Inr prefetched, m, disk)"
| "prefetch_loop m disk now (adj # adjs) prefetched = (
     case find_idx (\<lambda>p. tp_current_tier p = L4Disk \<and> contains_token p adj) (mg_pages m) of
       None \<Rightarrow> prefetch_loop m disk now adjs prefetched
     | Some i \<Rightarrow> (case load_page_from_disk (tp_token_start (mg_pages m ! i)) disk of
           (Inl e, disk') \<Rightarrow> (Inl e, m, disk')
         | (Inr data, disk') \<Rightarrow> prefetch_loop (m\<lparr>mg_pages := (mg_pages m)[i :=
               touch now ((mg_pages m ! i)\<lparr>tp_l3_data := Some data, tp_current_tier := L3DramHeap\<rparr>)]\<rparr>)
               disk' now adjs (prefetched + 1)))"

definition prefetch_predicted :: "'h migration \<Rightarrow> disk \<Rightarrow> nat
    \<Rightarrow> (tier_error + nat) \<times> 'h migration \<times> disk" where
  "prefetch_predicted m disk now = prefetch_loop m disk now
     (concat (map (\<lambda>s. [sat_sub s 256, s + 256]) (hot_tokens m now))) 0"

subsection \<open>Sound pages\<close>

text \<open>A page has the data of its tier.  Pages at L2 are excluded: see below.\<close>

definition page_sound :: "'h tiers_page \<Rightarrow> bool" where
  "page_sound p \<longleftrightarrow> (case tp_current_tier p of
      L1AneSram \<Rightarrow> tp_l1_data p \<noteq> None
    | L2Iosurface \<Rightarrow> False
    | L3DramHeap \<Rightarrow> tp_l3_data p \<noteq> None
    | L4Disk \<Rightarrow> True)"

definition page_id :: "'h tiers_page \<Rightarrow> u32 \<times> u32 \<times> nat" where
  "page_id p = (tp_token_start p, tp_token_end p, tp_last_access p)"

lemma promote_sound:
  assumes "page_sound p"
  shows "\<exists>p'. promote_to_l1 f p = (Inr (), p') \<and> page_sound p' \<and> page_id p' = page_id p \<and>
    tp_current_tier p' = (if tp_current_tier p = L4Disk then L4Disk else L1AneSram) \<and>
    (tp_current_tier p = L4Disk \<longrightarrow> p' = p)"
  using assms
  by (cases "tp_current_tier p") (auto simp: page_sound_def promote_to_l1_def page_id_def)

lemma demote_sound:
  assumes "page_sound p"
  shows "\<exists>p'. demote_to_l3 f p = (Inr (), p') \<and> page_sound p' \<and> page_id p' = page_id p \<and>
    tp_current_tier p' = (if tp_current_tier p = L4Disk then L4Disk else L3DramHeap) \<and>
    (tp_current_tier p = L4Disk \<longrightarrow> p' = p)"
  using assms
  by (cases "tp_current_tier p") (auto simp: page_sound_def demote_to_l3_def page_id_def)

text \<open>Where a page of a given age belongs.\<close>

definition wanted_tier :: "'h migration \<Rightarrow> nat \<Rightarrow> 'h tiers_page \<Rightarrow> tier" where
  "wanted_tier m now p = (
     if tp_current_tier p = L4Disk then L4Disk
     else if now - tp_last_access p < mg_hot_threshold m then L1AneSram
     else if mg_cold_threshold m < now - tp_last_access p then L3DramHeap
     else tp_current_tier p)"

lemma tick_page_sound:
  assumes "page_sound p" "mg_hot_threshold m \<le> mg_cold_threshold m"
  shows "\<exists>p'. tick_page m now p = (Inr (), p') \<and> page_sound p' \<and> page_id p' = page_id p \<and>
    tp_current_tier p' = wanted_tier m now p"
proof -
  let ?age = "now - tp_last_access p"
  obtain pp where pp: "promote_to_l1 (mg_decompress m) p = (Inr (), pp)" "page_sound pp"
      "page_id pp = page_id p"
      "tp_current_tier pp = (if tp_current_tier p = L4Disk then L4Disk else L1AneSram)"
    using promote_sound [OF assms(1)] by blast
  obtain pd where pd: "demote_to_l3 (mg_compress m) p = (Inr (), pd)" "page_sound pd"
      "page_id pd = page_id p"
      "tp_current_tier pd = (if tp_current_tier p = L4Disk then L4Disk else L3DramHeap)"
    using demote_sound [OF assms(1)] by blast
  consider (hot) "?age < mg_hot_threshold m" | (cold) "mg_cold_threshold m < ?age"
    | (warm) "\<not> ?age < mg_hot_threshold m" "\<not> mg_cold_threshold m < ?age" by blast
  then show ?thesis
  proof cases
    case hot
    then have "\<not> mg_cold_threshold m < ?age" using assms(2) by simp
    with hot pp assms(1) show ?thesis
      by (cases "tp_current_tier p") (simp_all add: tick_page_def wanted_tier_def Let_def)
  next
    case cold
    then have "\<not> ?age < mg_hot_threshold m" using assms(2) by simp
    with cold pd assms(1) show ?thesis
      by (cases "tp_current_tier p") (simp_all add: tick_page_def wanted_tier_def Let_def)
  next
    case warm
    with assms(1) show ?thesis
      by (cases "tp_current_tier p") (simp_all add: tick_page_def wanted_tier_def Let_def)
  qed
qed

lemma tick_page_cong: "mg_hot_threshold m = mg_hot_threshold m' \<Longrightarrow>
    mg_cold_threshold m = mg_cold_threshold m' \<Longrightarrow> mg_compress m = mg_compress m' \<Longrightarrow>
    mg_decompress m = mg_decompress m' \<Longrightarrow> tick_page m now p = tick_page m' now p"
  by (simp only: tick_page_def)

lemma tick_page_pages [simp]: "tick_page (m\<lparr>mg_pages := ps\<rparr>) now p = tick_page m now p"
  by (rule tick_page_cong) simp_all

lemma tick_loop_ok:
  assumes "\<And>p. p \<in> set xs \<Longrightarrow> \<exists>p'. tick_page m now p = (Inr (), p')"
  shows "tick_loop m now (xs @ ys) =
    tick_loop (m\<lparr>mg_pages := mg_pages m @ map (\<lambda>p. snd (tick_page m now p)) xs\<rparr>) now ys"
  using assms
proof (induction xs arbitrary: m)
  case (Cons x xs)
  obtain p' where x: "tick_page m now x = (Inr (), p')" using Cons.prems by auto
  let ?m = "m\<lparr>mg_pages := mg_pages m @ [p']\<rparr>"
  have "tick_loop ?m now (xs @ ys) =
      tick_loop (?m\<lparr>mg_pages := mg_pages ?m @ map (\<lambda>p. snd (tick_page ?m now p)) xs\<rparr>) now ys"
    by (rule Cons.IH) (use Cons.prems in simp)
  with x show ?case by simp
qed simp

lemma tick_prefix:
  assumes "mg_pages m = xs @ ys" "\<And>p. p \<in> set xs \<Longrightarrow> \<exists>p'. tick_page m now p = (Inr (), p')"
  shows "tick m now =
    tick_loop (m\<lparr>mg_pages := map (\<lambda>p. snd (tick_page m now p)) xs\<rparr>) now ys"
  using tick_loop_ok [of xs "m\<lparr>mg_pages := []\<rparr>" now ys] assms by (simp add: tick_def)

text \<open>When every tracked page has the data of its tier, a tick succeeds: it keeps every page in its
  place with its token range and access time, every page again has the data of its tier, recently
  used pages end in the Neural Engine's memory, cold ones in the heap, and pages on disk stay there.\<close>
theorem tick_keeps_pages:
  assumes "\<forall>p \<in> set (mg_pages m). page_sound p" "mg_hot_threshold m \<le> mg_cold_threshold m"
  shows "\<exists>m'. tick m now = (Inr (), m') \<and>
    map page_id (mg_pages m') = map page_id (mg_pages m) \<and>
    (\<forall>p \<in> set (mg_pages m'). page_sound p) \<and>
    map tp_current_tier (mg_pages m') = map (wanted_tier m now) (mg_pages m)"
proof -
  have ok: "\<exists>p'. tick_page m now p = (Inr (), p') \<and> page_sound p' \<and> page_id p' = page_id p \<and>
      tp_current_tier p' = wanted_tier m now p" if "p \<in> set (mg_pages m)" for p
    using tick_page_sound [OF _ assms(2)] assms(1) that by blast
  have "tick m now = (Inr (), m\<lparr>mg_pages := map (\<lambda>p. snd (tick_page m now p)) (mg_pages m)\<rparr>)"
    using tick_prefix [of m "mg_pages m" "[]" now] ok by fastforce
  moreover have "page_sound (snd (tick_page m now p)) \<and>
      page_id (snd (tick_page m now p)) = page_id p \<and>
      tp_current_tier (snd (tick_page m now p)) = wanted_tier m now p"
    if "p \<in> set (mg_pages m)" for p
    using ok [OF that] by auto
  ultimately show ?thesis by simp
qed

definition id_service :: "unit tiers_page list \<Rightarrow> unit migration" where
  "id_service ps = (migration_new (\<lambda>b. b) (\<lambda>b. b) 64 8 None None 0)\<lparr>mg_pages := ps\<rparr>"

definition heap_page :: "u32 \<Rightarrow> u8 list \<Rightarrow> unit tiers_page" where
  "heap_page s d = (tiers_page_new 0 s (s + 256) L3DramHeap)\<lparr>tp_l3_data := Some d\<rparr>"

theorem tick_keeps_pages_witness:
  "\<exists>m'. tick (id_service [heap_page 0 [1,2,3,4], tiers_page_new 0 256 512 L4Disk]) 2 = (Inr (), m') \<and>
     map tp_current_tier (mg_pages m') = [L1AneSram, L4Disk]"
proof -
  let ?m = "id_service [heap_page 0 [1,2,3,4], tiers_page_new 0 256 512 L4Disk]"
  have "\<forall>p \<in> set (mg_pages ?m). page_sound p" "mg_hot_threshold ?m \<le> mg_cold_threshold ?m"
    "map (wanted_tier ?m 2) (mg_pages ?m) = [L1AneSram, L4Disk]"
    by (simp_all add: id_service_def heap_page_def page_sound_def tiers_page_new_def
        migration_new_def wanted_tier_def)
  from tick_keeps_pages [OF this(1,2), of 2] this(3) show ?thesis by metis
qed

subsection \<open>Failing ticks\<close>

text \<open>A tick that fails loses pages.  A page registered at the IOSurface tier has no block handle;
  while it counts as recently used, its promotion fails, and the tick returns with that page and all
  pages after it gone from the service, whatever data they held.\<close>
theorem failed_tick_drops_pages:
  assumes "mg_pages m = xs @ tiers_page_new t0 start tend L2Iosurface # ys"
    and "\<forall>p \<in> set xs. page_sound p" "mg_hot_threshold m \<le> mg_cold_threshold m"
    and "now - t0 < mg_hot_threshold m"
  shows "\<exists>m'. tick m now = (Inl NoL2Handle, m') \<and> map page_id (mg_pages m') = map page_id xs"
proof -
  let ?p = "tiers_page_new t0 start tend L2Iosurface :: 'a tiers_page"
  have ok: "\<exists>p'. tick_page m now p = (Inr (), p') \<and> page_id p' = page_id p" if "p \<in> set xs" for p
    using tick_page_sound [OF _ assms(3)] assms(2) that by blast
  have "tick_page m now ?p = (Inl NoL2Handle, ?p)"
    using assms(4) by (simp add: tick_page_def promote_to_l1_def tiers_page_new_def)
  then have "tick m now = (Inl NoL2Handle, m\<lparr>mg_pages := map (\<lambda>p. snd (tick_page m now p)) xs\<rparr>)"
    using tick_prefix [OF assms(1)] ok by fastforce
  moreover have "page_id (snd (tick_page m now p)) = page_id p" if "p \<in> set xs" for p
    using ok [OF that] by auto
  ultimately show ?thesis by simp
qed

theorem failed_tick_drops_pages_witness:
  "\<exists>m'. tick (id_service [heap_page 0 [7], tiers_page_new 0 256 512 L2Iosurface, heap_page 512 [8]]) 1
     = (Inl NoL2Handle, m') \<and> map page_id (mg_pages m') = [(0, 256, 0)]"
proof -
  let ?m = "id_service [heap_page 0 [7], tiers_page_new 0 256 512 L2Iosurface, heap_page 512 [8]]"
  have "mg_pages ?m = [heap_page 0 [7]] @ tiers_page_new 0 256 512 L2Iosurface # [heap_page 512 [8]]"
    "\<forall>p \<in> set [heap_page 0 [7]]. page_sound p" "mg_hot_threshold ?m \<le> mg_cold_threshold ?m"
    "1 - 0 < mg_hot_threshold ?m" "map page_id [heap_page 0 [7]] = [(0, 256, 0)]"
    by (simp_all add: id_service_def heap_page_def page_sound_def tiers_page_new_def
        migration_new_def page_id_def)
  from failed_tick_drops_pages [OF this(1-4)] this(5) show ?thesis by simp
qed


subsection \<open>The disk tier\<close>

definition evicted_page :: "'h tiers_page \<Rightarrow> 'h tiers_page" where
  "evicted_page p = p\<lparr>tp_l3_data := None, tp_current_tier := L4Disk\<rparr>"

lemma evict_loop_ok:
  assumes "distinct idxs" "\<And>i. i \<in> set idxs \<Longrightarrow> i < length (mg_pages m)"
    and "\<And>i. i \<in> set idxs \<Longrightarrow> tp_l3_data (mg_pages m ! i) \<noteq> None"
    and "\<And>i. i \<in> set idxs \<Longrightarrow> \<not> io_fails (tp_token_start (mg_pages m ! i))"
    and "distinct (map tp_token_start (mg_pages m))"
  shows "\<exists>m' disk'. evict_loop io_fails m disk idxs n = (Inr (n + length idxs), m', disk') \<and>
    mg_pages m' = map (\<lambda>i. if i \<in> set idxs then evicted_page (mg_pages m ! i) else mg_pages m ! i)
      [0..<length (mg_pages m)] \<and>
    (\<forall>i < length (mg_pages m). disk' (tp_token_start (mg_pages m ! i)) =
       (if i \<in> set idxs then tp_l3_data (mg_pages m ! i)
        else disk (tp_token_start (mg_pages m ! i)))) \<and>
    mg_hot_threshold m' = mg_hot_threshold m \<and> mg_cold_threshold m' = mg_cold_threshold m"
  using assms
proof (induction idxs arbitrary: m disk n)
  case Nil
  show ?case by (simp add: map_nth)
next
  case (Cons i js)
  let ?ps = "mg_pages m"
  have i: "i < length ?ps" "\<not> io_fails (tp_token_start (?ps ! i))" "i \<notin> set js" "distinct js"
    using Cons.prems by simp_all
  obtain d where d: "tp_l3_data (?ps ! i) = Some d" using Cons.prems(3) [of i] by auto
  define m1 where "m1 = m\<lparr>mg_pages := ?ps[i := evicted_page (?ps ! i)]\<rparr>"
  let ?disk1 = "disk(tp_token_start (?ps ! i) \<mapsto> d)"
  have step: "evict_loop io_fails m disk (i # js) n = evict_loop io_fails m1 ?disk1 js (n + 1)"
    using i d by (simp add: evict_page_to_disk_def m1_def evicted_page_def)
  have starts: "map tp_token_start (mg_pages m1) = map tp_token_start ?ps"
    using i by (simp add: m1_def map_update evicted_page_def)
      (metis list_update_id nth_map)
  have nth1: "mg_pages m1 ! j = (if j = i then evicted_page (?ps ! i) else ?ps ! j)" for j
    using i by (simp add: m1_def nth_list_update)
  have len1: "length (mg_pages m1) = length ?ps" by (simp add: m1_def)
  have prem: "j < length (mg_pages m1)" "tp_l3_data (mg_pages m1 ! j) \<noteq> None"
    "\<not> io_fails (tp_token_start (mg_pages m1 ! j))" if "j \<in> set js" for j
    using Cons.prems(2-4) [of j] that i(3) by (auto simp: len1 nth1)
  obtain m' disk' where ih: "evict_loop io_fails m1 ?disk1 js (n + 1) = (Inr (n + 1 + length js), m', disk')"
    "mg_pages m' = map (\<lambda>j. if j \<in> set js then evicted_page (mg_pages m1 ! j) else mg_pages m1 ! j)
      [0..<length (mg_pages m1)]"
    "\<And>j. j < length (mg_pages m1) \<Longrightarrow> disk' (tp_token_start (mg_pages m1 ! j)) =
       (if j \<in> set js then tp_l3_data (mg_pages m1 ! j)
        else ?disk1 (tp_token_start (mg_pages m1 ! j)))"
    "mg_hot_threshold m' = mg_hot_threshold m1" "mg_cold_threshold m' = mg_cold_threshold m1"
    using Cons.IH [OF i(4) prem, of ?disk1 "n + 1"] Cons.prems(5) unfolding starts by blast
  have dist: "tp_token_start (?ps ! j) \<noteq> tp_token_start (?ps ! i)" if "j < length ?ps" "j \<noteq> i" for j
    using nth_eq_iff_index_eq [OF Cons.prems(5), of j i] that i(1) by simp
  have "disk' (tp_token_start (?ps ! j)) =
      (if j \<in> set (i # js) then tp_l3_data (?ps ! j) else disk (tp_token_start (?ps ! j)))"
    if "j < length ?ps" for j
    using ih(3) [of j] that i(3) d dist [of j] len1
    by (cases "j = i") (simp_all add: nth1 evicted_page_def)
  moreover have "mg_pages m' = map (\<lambda>j. if j \<in> set (i # js) then evicted_page (?ps ! j) else ?ps ! j)
      [0..<length ?ps]"
    unfolding ih(2) len1 using i(3) by (intro map_cong) (auto simp: nth1)
  ultimately show ?case using step ih(1,4,5) by (simp add: m1_def)
qed

lemma to_evict_props:
  "distinct (to_evict m now)"
  "i \<in> set (to_evict m now) \<longleftrightarrow> i < length (mg_pages m) \<and>
     mg_cold_threshold m < now - tp_last_access (mg_pages m ! i) \<and>
     tp_current_tier (mg_pages m ! i) = L3DramHeap"
  by (auto simp: to_evict_def)

text \<open>Cold heap pages survive the disk.  When the disk accepts writes, every page has the data of
  its tier and no two pages start at the same token, eviction moves every cold heap page to disk; loading
  the page of a token back gives the page its exact data again, as if it had just been used, and
  removes its file.\<close>
theorem evict_prefetch_roundtrip:
  assumes "\<forall>p \<in> set (mg_pages m). page_sound p" "\<forall>s. \<not> io_fails s"
    and "distinct (map tp_token_start (mg_pages m))" "i \<in> set (to_evict m now)"
    and "contains_token (mg_pages m ! i) adj"
    and "\<forall>j < length (mg_pages m). contains_token (mg_pages m ! j) adj \<longrightarrow> j = i"
  shows "\<exists>m1 disk1 m2 disk2.
    check_and_evict io_fails m disk now = (Inr (length (to_evict m now)), m1, disk1) \<and>
    (\<forall>j \<in> set (to_evict m now). tp_current_tier (mg_pages m1 ! j) = L4Disk \<and>
       tp_l3_data (mg_pages m1 ! j) = None) \<and>
    prefetch_loop m1 disk1 now' [adj] 0 = (Inr 1, m2, disk2) \<and>
    mg_pages m2 ! i = touch now' (mg_pages m ! i) \<and>
    disk2 (tp_token_start (mg_pages m ! i)) = None"
proof -
  let ?ps = "mg_pages m" let ?ev = "to_evict m now"
  have ev: "j < length ?ps" "tp_current_tier (?ps ! j) = L3DramHeap" if "j \<in> set ?ev" for j
    using that to_evict_props(2) by blast+
  have l3: "tp_l3_data (?ps ! j) \<noteq> None" if "j \<in> set ?ev" for j
    using bspec [OF assms(1) nth_mem [OF ev(1) [OF that]]] ev(2) [OF that] by (simp add: page_sound_def)
  obtain m1 disk1 where e: "check_and_evict io_fails m disk now = (Inr (length ?ev), m1, disk1)"
    "mg_pages m1 = map (\<lambda>j. if j \<in> set ?ev then evicted_page (?ps ! j) else ?ps ! j) [0..<length ?ps]"
    "\<forall>j < length ?ps. disk1 (tp_token_start (?ps ! j)) =
       (if j \<in> set ?ev then tp_l3_data (?ps ! j) else disk (tp_token_start (?ps ! j)))"
    using evict_loop_ok [of "rev ?ev" m io_fails disk 0] to_evict_props(1) [of m now] ev l3 assms(2,3)
    unfolding check_and_evict_def by (simp add: distinct_rev) blast
  have i: "i < length ?ps" using ev [OF assms(4)] by simp
  obtain d where d: "tp_l3_data (?ps ! i) = Some d" using l3 [OF assms(4)] by auto
  have nth1: "mg_pages m1 ! j = (if j \<in> set ?ev then evicted_page (?ps ! j) else ?ps ! j)"
    if "j < length ?ps" for j using that by (simp add: e(2))
  have len1: "length (mg_pages m1) = length ?ps" by (simp add: e(2))
  have tok: "contains_token (evicted_page p) t = contains_token p t" for p :: "'a tiers_page" and t
    by (simp add: contains_token_def evicted_page_def)
  let ?P = "\<lambda>p. tp_current_tier p = L4Disk \<and> contains_token p adj"
  have Pi: "?P (mg_pages m1 ! i)"
    using assms(4,5) i by (simp add: nth1 tok) (simp add: evicted_page_def)
  obtain k where k: "find_idx ?P (mg_pages m1) = Some k"
    using find_idx_exists [of "mg_pages m1 ! i" "mg_pages m1" ?P] Pi i len1 by auto
  have ki: "k < length ?ps" "?P (mg_pages m1 ! k)" using find_idx_Some [OF k] len1 by auto
  then have "contains_token (?ps ! k) adj" by (auto simp: nth1 tok split: if_splits)
  with assms(6) ki(1) have "k = i" by blast
  then have find: "find_idx ?P (mg_pages m1) = Some i" using k by simp
  have start: "tp_token_start (mg_pages m1 ! i) = tp_token_start (?ps ! i)"
    using assms(4) i by (simp add: nth1) (simp add: evicted_page_def)
  have load: "load_page_from_disk (tp_token_start (mg_pages m1 ! i)) disk1 =
      (Inr d, disk1(tp_token_start (?ps ! i) := None))"
    using e(3) assms(4) i d start by (simp add: load_page_from_disk_def)
  define m2 where "m2 = m1\<lparr>mg_pages := (mg_pages m1)[i := touch now' ((mg_pages m1 ! i)
      \<lparr>tp_l3_data := Some d, tp_current_tier := L3DramHeap\<rparr>)]\<rparr>"
  have "prefetch_loop m1 disk1 now' [adj] 0 = (Inr 1, m2, disk1(tp_token_start (?ps ! i) := None))"
    using find load by (simp add: m2_def)
  moreover have "mg_pages m2 ! i = touch now' (?ps ! i)"
  proof -
    have "mg_pages m2 ! i = touch now' ((evicted_page (?ps ! i))
        \<lparr>tp_l3_data := Some d, tp_current_tier := L3DramHeap\<rparr>)"
      using i len1 assms(4) by (simp add: m2_def nth1)
    also have "(evicted_page (?ps ! i))\<lparr>tp_l3_data := Some d, tp_current_tier := L3DramHeap\<rparr> = ?ps ! i"
      using d ev(2) [OF assms(4)] by (cases "?ps ! i") (simp add: evicted_page_def)
    finally show ?thesis .
  qed
  moreover have "\<forall>j \<in> set ?ev. tp_current_tier (mg_pages m1 ! j) = L4Disk \<and>
      tp_l3_data (mg_pages m1 ! j) = None"
    using ev(1) by (simp add: nth1) (simp add: evicted_page_def)
  ultimately show ?thesis using e(1) by auto
qed

theorem evict_prefetch_roundtrip_witness:
  "\<exists>m1 disk1 m2 disk2.
    check_and_evict (\<lambda>_. False) (id_service [heap_page 0 [1,2], heap_page 256 [3]]) (\<lambda>_. None) 40 =
      (Inr 2, m1, disk1) \<and> prefetch_loop m1 disk1 41 [300] 0 = (Inr 1, m2, disk2) \<and>
    mg_pages m2 ! 1 = touch 41 (heap_page 256 [3]) \<and> disk2 256 = None"
proof -
  let ?m = "id_service [heap_page 0 [1,2], heap_page 256 [3]]"
  have ev: "to_evict ?m 40 = [0, 1]"
    by (simp add: to_evict_def id_service_def heap_page_def tiers_page_new_def migration_new_def
        numeral_2_eq_2)
  have s: "\<forall>p \<in> set (mg_pages ?m). page_sound p" "distinct (map tp_token_start (mg_pages ?m))"
    "contains_token (mg_pages ?m ! 1) 300" "\<not> contains_token (mg_pages ?m ! 0) 300"
    "length (mg_pages ?m) = 2" "mg_pages ?m ! 1 = heap_page 256 [3]"
    by (simp_all add: id_service_def heap_page_def page_sound_def tiers_page_new_def
        migration_new_def contains_token_def)
  have only: "\<forall>j < length (mg_pages ?m). contains_token (mg_pages ?m ! j) 300 \<longrightarrow> j = 1"
    using s(4,5) by (auto simp: less_Suc_eq numeral_2_eq_2)
  have "1 \<in> set (to_evict ?m 40)" by (simp add: ev)
  from evict_prefetch_roundtrip [OF s(1) _ s(2) this s(3) only, of "\<lambda>_. False" "\<lambda>_. None" 41]
  show ?thesis unfolding ev s(6) by (auto simp: heap_page_def tiers_page_new_def)
qed

end
