(* ===== verification/Worklist.thy ===== *)
theory Worklist
  imports Prelude
begin

text \<open>
  The worklist loop shared by the epsilon closure of the grammar automaton (\<open>grammar.rs\<close>) and by dead
  code elimination (\<open>graph_optimizer.rs\<close>): a set of what was seen, a stack of what is still to expand.
  The code pops the last element of the stack and pushes each successor not seen before.  The loop may
  panic (a successor list can be undefined) and, over an infinite graph, need not stop, so the loop is a
  partial function; \<open>worklist_reaches\<close> shows that inside a finite closed set it returns, and that it
  returns exactly what is reachable.
\<close>

text \<open>The inner loop: insert every successor that is new and push it.  The top of the stack is the head
  of the list.\<close>

fun push_new :: "'a list \<Rightarrow> 'a set \<Rightarrow> 'a list \<Rightarrow> 'a set \<times> 'a list" where
  "push_new [] seen stack = (seen, stack)"
| "push_new (y # ys) seen stack =
     (if y \<in> seen then push_new ys seen stack else push_new ys (insert y seen) (y # stack))"

partial_function (option) worklist ::
    "('a \<Rightarrow> 'a list option) \<Rightarrow> 'a set \<Rightarrow> 'a list \<Rightarrow> 'a set option" where
  "worklist succs seen stack = (case stack of
      [] \<Rightarrow> Some seen
    | x # rest \<Rightarrow> (case succs x of
        None \<Rightarrow> None
      | Some ys \<Rightarrow> worklist succs (fst (push_new ys seen rest)) (snd (push_new ys seen rest))))"

text \<open>The edges of the graph the loop walks, and what it reaches.\<close>

definition edges :: "('a \<Rightarrow> 'a list option) \<Rightarrow> ('a \<times> 'a) set" where
  "edges succs = {(x, y). \<exists>ys. succs x = Some ys \<and> y \<in> set ys}"

definition reaches :: "('a \<Rightarrow> 'a list option) \<Rightarrow> 'a set \<Rightarrow> 'a set" where
  "reaches succs X = (edges succs)\<^sup>* `` X"

lemma reaches_mono: "X \<subseteq> Y \<Longrightarrow> reaches succs X \<subseteq> reaches succs Y"
  by (auto simp: reaches_def)

lemma reaches_refl: "X \<subseteq> reaches succs X"
  by (auto simp: reaches_def)

lemma reaches_step: "x \<in> reaches succs X \<Longrightarrow> succs x = Some ys \<Longrightarrow> y \<in> set ys \<Longrightarrow>
    y \<in> reaches succs X"
  unfolding reaches_def edges_def by (auto intro: rtrancl_into_rtrancl)

lemma reaches_least:
  assumes "X \<subseteq> Y" "\<And>x ys. x \<in> Y \<Longrightarrow> succs x = Some ys \<Longrightarrow> set ys \<subseteq> Y"
  shows "reaches succs X \<subseteq> Y"
proof
  fix y assume "y \<in> reaches succs X"
  then obtain x where "x \<in> X" "(x, y) \<in> (edges succs)\<^sup>*" by (auto simp: reaches_def)
  from this(2) show "y \<in> Y"
    by (induction rule: rtrancl_induct) (use \<open>x \<in> X\<close> assms in \<open>auto simp: edges_def\<close>)
qed

lemma reaches_idem: "reaches succs (reaches succs X) = reaches succs X"
proof (rule antisym)
  show "reaches succs (reaches succs X) \<subseteq> reaches succs X"
    by (rule reaches_least [OF order_refl]) (auto intro: reaches_step)
qed (rule reaches_refl)

lemma push_new_seen: "fst (push_new ys seen stack) = seen \<union> set ys"
  by (induction ys seen stack rule: push_new.induct) auto

lemma push_new_stack: "set (snd (push_new ys seen stack)) = set stack \<union> (set ys - seen)"
  by (induction ys seen stack rule: push_new.induct) auto

lemma push_new_measure:
  assumes "finite U" "set ys \<subseteq> U"
  shows "2 * card (U - fst (push_new ys seen stack)) + length (snd (push_new ys seen stack)) \<le>
    2 * card (U - seen) + length stack"
  using assms(2)
proof (induction ys seen stack rule: push_new.induct)
  case (2 y ys seen stack)
  show ?case
  proof (cases "y \<in> seen")
    case False
    have "U - insert y seen = (U - seen) - {y}" by auto
    moreover have "y \<in> U - seen" using 2(3) False by auto
    ultimately have "card (U - seen) = Suc (card (U - insert y seen))"
      using assms(1) by (metis card.remove finite_Diff)
    with 2 False show ?thesis by simp
  qed (use 2 in simp)
qed simp

text \<open>Inside a finite set closed under successors the loop returns.  What it returns is closed and
  contains nothing unreachable.\<close>

lemma worklist_reaches:
  assumes "finite U" "\<And>x. x \<in> U \<Longrightarrow> \<exists>ys. succs x = Some ys \<and> set ys \<subseteq> U"
    and "seen \<subseteq> U" "set stack \<subseteq> seen"
    and "\<And>x ys. x \<in> seen - set stack \<Longrightarrow> succs x = Some ys \<Longrightarrow> set ys \<subseteq> seen"
  shows "worklist succs seen stack = Some (reaches succs seen)"
  using assms(3-5)
proof (induction "2 * card (U - seen) + length stack" arbitrary: seen stack rule: less_induct)
  case less
  show ?case
  proof (cases stack)
    case Nil
    have "reaches succs seen = seen"
    proof (rule antisym)
      show "reaches succs seen \<subseteq> seen"
        by (rule reaches_least [OF order_refl]) (use less.prems(3) Nil in simp)
    qed (rule reaches_refl)
    with Nil show ?thesis by (simp add: worklist.simps)
  next
    case (Cons x rest)
    have x: "x \<in> seen" "x \<in> U" using less.prems Cons by auto
    obtain ys where ys: "succs x = Some ys" "set ys \<subseteq> U" using assms(2) [OF x(2)] by blast
    define seen' where "seen' = fst (push_new ys seen rest)"
    define stack' where "stack' = snd (push_new ys seen rest)"
    have s: "seen' = seen \<union> set ys" "set stack' = set rest \<union> (set ys - seen)"
      by (simp_all add: seen'_def stack'_def push_new_seen push_new_stack)
    have "worklist succs seen' stack' = Some (reaches succs seen')"
    proof (rule less.hyps)
      show "2 * card (U - seen') + length stack' < 2 * card (U - seen) + length stack"
        using push_new_measure [OF assms(1) ys(2), of seen rest]
        by (simp add: Cons seen'_def stack'_def)
      show "seen' \<subseteq> U" "set stack' \<subseteq> seen'" using s less.prems Cons ys(2) by auto
      show "set zs \<subseteq> seen'" if "z \<in> seen' - set stack'" "succs z = Some zs" for z zs
      proof (cases "z = x")
        case True
        with that(2) ys(1) s(1) show ?thesis by simp
      next
        case False
        with that(1) s Cons have "z \<in> seen - set stack" by auto
        with less.prems(3) that(2) s(1) show ?thesis by blast
      qed
    qed
    moreover have "reaches succs seen' = reaches succs seen"
    proof (rule antisym)
      have xr: "x \<in> reaches succs seen" using reaches_refl [of seen succs] x(1) by (rule subsetD)
      have "y \<in> reaches succs seen" if "y \<in> set ys" for y
        using reaches_step [where succs = succs and x = x and X = seen and ys = ys and y = y] xr ys(1) that
        by (simp only: simp_thms)
      then have "set ys \<subseteq> reaches succs seen" by (rule subsetI)
      then have "seen' \<subseteq> reaches succs seen"
        unfolding s(1) using reaches_refl [of seen succs] by (simp only: Un_subset_iff simp_thms)
      then show "reaches succs seen' \<subseteq> reaches succs seen"
        using reaches_mono reaches_idem by metis
      show "reaches succs seen \<subseteq> reaches succs seen'" using s(1) by (auto intro!: reaches_mono)
    qed
    moreover have "worklist succs seen stack = worklist succs seen' stack'"
      by (subst worklist.simps) (simp add: Cons ys(1) seen'_def stack'_def)
    ultimately show ?thesis by simp
  qed
qed

end
