(* ===== verification/Decimal.thy ===== *)
theory Decimal
  imports Prelude
begin

text \<open>Decimal numerals in names, and what keeps names apart.\<close>

text \<open>Decimal numbers (\<open>format!\<close> of an unsigned integer).\<close>

definition digit :: "nat \<Rightarrow> char" where
  "digit d = ''0123456789'' ! d"

fun dec :: "nat \<Rightarrow> string" where
  "dec n = (if n < 10 then [digit n] else dec (n div 10) @ [digit (n mod 10)])"

declare dec.simps [simp del]

lemma digit_not_underscore: "d < 10 \<Longrightarrow> digit d \<noteq> CHR ''_''"
  by (auto simp: digit_def less_Suc_eq numeral_eq_Suc)

lemma digit_not_dot: "d < 10 \<Longrightarrow> digit d \<noteq> CHR ''.''"
  by (auto simp: digit_def less_Suc_eq numeral_eq_Suc)

lemma dec_not_dot: "CHR ''.'' \<notin> set (dec n)"
proof (induction n rule: dec.induct)
  case (1 n)
  then show ?case
    using digit_not_dot [of n] digit_not_dot [of "n mod 10"]
    by (subst dec.simps) auto
qed

lemma digit_inj: "d < 10 \<Longrightarrow> e < 10 \<Longrightarrow> digit d = digit e \<Longrightarrow> d = e"
  unfolding digit_def by (rule nth_eq_iff_index_eq [THEN iffD1]) simp_all

lemma dec_not_underscore: "CHR ''_'' \<notin> set (dec n)"
proof (induction n rule: dec.induct)
  case (1 n)
  then show ?case
    using digit_not_underscore [of n] digit_not_underscore [of "n mod 10"]
    by (subst dec.simps) auto
qed

lemma dec_not_Nil [simp]: "dec n \<noteq> []" "[] \<noteq> dec n"
  by (simp_all add: dec.simps [of n])

lemma dec_inj: "dec m = dec n \<Longrightarrow> m = n"
proof (induction m arbitrary: n rule: dec.induct)
  case (1 m)
  show ?case
  proof (cases "m < 10")
    case True
    have "n < 10"
    proof (rule ccontr)
      assume "\<not> n < 10"
      then have "[digit m] = dec (n div 10) @ [digit (n mod 10)]"
        using 1(2) True by (simp add: dec.simps [of m] dec.simps [of n])
      then show False by simp
    qed
    with 1(2) True show ?thesis by (auto simp: dec.simps [of m] dec.simps [of n] dest: digit_inj)
  next
    case False
    have "\<not> n < 10"
    proof
      assume "n < 10"
      then have "[digit n] = dec (m div 10) @ [digit (m mod 10)]"
        using 1(2) False by (simp add: dec.simps [of m] dec.simps [of n])
      then show False by simp
    qed
    with 1(2) False have "dec (m div 10) = dec (n div 10)" "digit (m mod 10) = digit (n mod 10)"
      by (simp_all add: dec.simps [of m] dec.simps [of n])
    with 1(1) [OF False] digit_inj [of "m mod 10" "n mod 10"]
    have "m div 10 = n div 10" "m mod 10 = n mod 10" by simp_all
    then show ?thesis by (metis div_mult_mod_eq)
  qed
qed

lemma append_cons_unique:
  "x \<notin> set xs \<Longrightarrow> x \<notin> set ys \<Longrightarrow> xs @ x # as = ys @ x # bs \<Longrightarrow> xs = ys \<and> as = bs"
proof (induction xs arbitrary: ys)
  case Nil
  then show ?case by (cases ys) auto
next
  case (Cons a xs)
  then show ?case by (cases ys) auto
qed

end
