(* ===== verification/GraphOptimizer.thy ===== *)
theory GraphOptimizer
  imports Worklist Decimal
begin

text \<open>
  The compile-time graph optimiser of \<open>compiler/graph_optimizer.rs\<close>: the operation graph built from an
  execution plan, constant folding, shape propagation, dead code elimination and the write-back into
  the plan.

  Hash maps are functions to options, hash sets are sets.  Layer numbers are natural numbers (the code
  converts them with \<open>as u32\<close>; a plan has fewer than \<open>2 ^ 32\<close> layers).  Plan fields the optimiser neither
  reads nor writes are left out; the softcap value is of any type, only its presence is read.
\<close>

subsection \<open>The execution plan\<close>

record layer_plan =
  lp_layer_index :: u32
  lp_attention_kind :: string
  lp_n_heads :: u32
  lp_n_kv_heads :: u32
  lp_head_dim :: u32
  lp_global_head_dim :: "u32 option"
  lp_n_global_kv_heads :: "u32 option"
  lp_q_proj :: u32
  lp_k_proj :: u32
  lp_v_proj :: u32
  lp_o_proj :: u32
  lp_gate_proj :: u32
  lp_up_proj :: u32
  lp_down_proj :: u32
  lp_quantization_ids :: "string list"

record 'f plan =
  pl_embedding :: u32
  pl_layers :: "layer_plan list"
  pl_final_norm :: u32
  pl_output_projection :: "u32 option"
  pl_hidden_size :: u32
  pl_vocab_size :: u32
  pl_softcapping :: "'f option"

definition intermediate_size :: "'f plan \<Rightarrow> u32" where
  "intermediate_size p = pl_hidden_size p * 4"

subsection \<open>The operation graph\<close>

datatype op_kind = EmbeddingLookup | RmsNorm | QProj | KProj | VProj | QNorm | KNorm | RoPE
  | Attention | OProj | GateProj | UpProj | SiLU | GateTimesUp | DownProj | ResidualAdd
  | FinalNorm | OutputProjection | Softcap | Argmax

record op_node =
  on_id :: nat
  on_kind :: op_kind
  on_layer :: "nat option"
  on_inputs :: "string list"
  on_outputs :: "string list"
  on_known_input_shapes :: "u32 list list"
  on_known_output_shape :: "u32 list option"
  on_is_constant :: bool
  on_is_dead :: bool

record graph =
  gr_nodes :: "op_node list"
  gr_producer :: "string \<Rightarrow> nat option"
  gr_consumers :: "string \<Rightarrow> nat list option"
  gr_shapes :: "string \<Rightarrow> u32 list option"
  gr_constants :: "string set"
  gr_hidden_size :: u32
  gr_intermediate_size :: u32
  gr_vocab_size :: u32
  gr_n_heads :: u32
  gr_n_kv_heads :: u32
  gr_head_dim :: u32
  gr_global_head_dim :: "u32 option"
  gr_n_global_kv_heads :: "u32 option"

definition layer_name :: "nat \<Rightarrow> string \<Rightarrow> string" where
  "layer_name layer part = ''layer_'' @ dec layer @ ''_'' @ part"

definition register_consumers :: "op_node \<Rightarrow> graph \<Rightarrow> graph" where
  "register_consumers n g = g\<lparr>gr_consumers := fold (\<lambda>input cs.
     cs(input \<mapsto> (case cs input of None \<Rightarrow> [] | Some v \<Rightarrow> v) @ [on_id n])) (on_inputs n) (gr_consumers g)\<rparr>"

definition add_op_node :: "op_kind \<Rightarrow> nat option \<Rightarrow> string list \<Rightarrow> string list \<Rightarrow> u32 list list
    \<Rightarrow> u32 list option \<Rightarrow> bool \<Rightarrow> graph \<Rightarrow> graph" where
  "add_op_node kind layer_index inputs outputs in_shapes out_shape is_constant g = (
     let n = \<lparr>on_id = length (gr_nodes g), on_kind = kind, on_layer = layer_index,
           on_inputs = inputs, on_outputs = outputs, on_known_input_shapes = in_shapes,
           on_known_output_shape = out_shape, on_is_constant = is_constant, on_is_dead = False\<rparr>;
         g1 = g\<lparr>gr_producer := fold (\<lambda>output pr. pr(output \<mapsto> on_id n)) outputs (gr_producer g)\<rparr>;
         g2 = register_consumers n g1
     in g2\<lparr>gr_nodes := gr_nodes g2 @ [n]\<rparr>)"

definition seed_shape :: "string \<Rightarrow> u32 list \<Rightarrow> graph \<Rightarrow> graph" where
  "seed_shape t s g = g\<lparr>gr_shapes := (gr_shapes g)(t \<mapsto> s)\<rparr>"

text \<open>Seeding the shape of an output and adding its node, as the code does for most operations.\<close>

definition emit :: "op_kind \<Rightarrow> nat option \<Rightarrow> string list \<Rightarrow> string \<Rightarrow> u32 list list \<Rightarrow> u32 list
    \<Rightarrow> graph \<Rightarrow> graph" where
  "emit kind layer_index inputs output in_shapes shape g =
     add_op_node kind layer_index inputs [output] in_shapes (Some shape) False (seed_shape output shape g)"

definition build_prologue :: "'f plan \<Rightarrow> graph" where
  "build_prologue p = (
     let g = \<lparr>gr_nodes = [], gr_producer = Map.empty, gr_consumers = Map.empty,
           gr_shapes = [''hidden_states'' \<mapsto> [1, pl_hidden_size p]], gr_constants = {},
           gr_hidden_size = pl_hidden_size p, gr_intermediate_size = pl_hidden_size p * 4,
           gr_vocab_size = pl_vocab_size p, gr_n_heads = 0, gr_n_kv_heads = 0, gr_head_dim = 0,
           gr_global_head_dim = None, gr_n_global_kv_heads = None\<rparr>
     in if pl_embedding p \<noteq> 0
        then emit EmbeddingLookup None [''input_ids''] ''embedding_output'' [[1]]
               [pl_vocab_size p, pl_hidden_size p] g
        else g)"

definition residual_in :: "nat \<Rightarrow> string" where
  "residual_in i = (if i = 0 then ''embedding_output'' else layer_name (i - 1) ''output'')"

definition attention_inputs :: "nat \<Rightarrow> layer_plan \<Rightarrow> string list" where
  "attention_inputs i lp = (
     if lp_v_proj lp \<noteq> 0
     then [layer_name i ''q'', layer_name i ''k'', layer_name i ''v'', layer_name i ''rope'']
     else [layer_name i ''q'', layer_name i ''k'', layer_name i ''rope''])"

definition build_attention :: "'f plan \<Rightarrow> nat \<Rightarrow> layer_plan \<Rightarrow> graph \<Rightarrow> graph" where
  "build_attention p i lp g = (
     let hidden = [1, pl_hidden_size p];
         is_full = (lp_attention_kind lp = ''full_attention'');
         hdim = (if is_full then (case lp_global_head_dim lp of None \<Rightarrow> lp_head_dim lp | Some d \<Rightarrow> d)
                 else lp_head_dim lp);
         n_kv = (if is_full then (case lp_n_global_kv_heads lp of None \<Rightarrow> lp_n_kv_heads lp | Some d \<Rightarrow> d)
                 else lp_n_kv_heads lp);
         n_heads = lp_n_heads lp;
         norm_out = layer_name i ''norm_out'';
         g = (if i = 0 then g\<lparr>gr_n_heads := n_heads, gr_n_kv_heads := n_kv, gr_head_dim := hdim,
                gr_global_head_dim := lp_global_head_dim lp,
                gr_n_global_kv_heads := lp_n_global_kv_heads lp\<rparr> else g);
         g = emit RmsNorm (Some i) [residual_in i] norm_out [hidden] hidden g;
         g = (if lp_q_proj lp \<noteq> 0
              then emit QProj (Some i) [norm_out] (layer_name i ''q'') [hidden] hidden g else g);
         g = (if lp_k_proj lp \<noteq> 0
              then emit KProj (Some i) [norm_out] (layer_name i ''k'') [hidden] hidden g else g);
         g = (if lp_v_proj lp \<noteq> 0
              then emit VProj (Some i) [norm_out] (layer_name i ''v'') [hidden] hidden g else g);
         g = emit RoPE (Some i) [] (layer_name i ''rope'') [] [1, hdim * n_heads] g;
         g = emit Attention (Some i) (attention_inputs i lp) (layer_name i ''attn'') [hidden] hidden g;
         g = (if lp_o_proj lp \<noteq> 0
              then emit OProj (Some i) [layer_name i ''attn''] (layer_name i ''o'') [hidden] hidden g
              else g);
         attn_out = (if lp_o_proj lp \<noteq> 0 then layer_name i ''o'' else layer_name i ''attn'');
         g = emit ResidualAdd (Some i) [residual_in i, attn_out] (layer_name i ''post_attn'')
               [hidden, hidden] hidden g
     in emit RmsNorm (Some i) [layer_name i ''post_attn''] (layer_name i ''post_norm'') [hidden] hidden g)"

definition build_ffw :: "'f plan \<Rightarrow> nat \<Rightarrow> layer_plan \<Rightarrow> graph \<Rightarrow> graph" where
  "build_ffw p i lp g = (
     let hidden = [1, pl_hidden_size p];
         inter = [1, intermediate_size p];
         post_norm = layer_name i ''post_norm'';
         g = (if lp_gate_proj lp \<noteq> 0
              then emit SiLU (Some i) [layer_name i ''gate''] (layer_name i ''silu'') [inter] inter
                (emit GateProj (Some i) [post_norm] (layer_name i ''gate'') [hidden] inter g)
              else g);
         g = (if lp_up_proj lp \<noteq> 0
              then emit UpProj (Some i) [post_norm] (layer_name i ''up'') [hidden] inter g else g);
         g = (if lp_gate_proj lp \<noteq> 0 \<and> lp_up_proj lp \<noteq> 0
              then emit GateTimesUp (Some i) [layer_name i ''silu'', layer_name i ''up'']
                (layer_name i ''mul'') [inter, inter] inter g
              else g);
         down_in = (if lp_gate_proj lp \<noteq> 0 then layer_name i ''mul'' else layer_name i ''up'')
     in if lp_down_proj lp \<noteq> 0
        then emit ResidualAdd (Some i) [layer_name i ''post_attn'', layer_name i ''down'']
               (layer_name i ''output'') [hidden, hidden] hidden
               (emit DownProj (Some i) [down_in] (layer_name i ''down'') [inter] hidden g)
        else g)"

fun build_layers :: "'f plan \<Rightarrow> nat \<Rightarrow> layer_plan list \<Rightarrow> graph \<Rightarrow> graph" where
  "build_layers p i [] g = g"
| "build_layers p i (lp # lps) g = build_layers p (Suc i) lps (build_ffw p i lp (build_attention p i lp g))"

definition build_epilogue :: "'f plan \<Rightarrow> graph \<Rightarrow> graph" where
  "build_epilogue p g = (
     let hidden = [1, pl_hidden_size p];
         logits = [1, pl_vocab_size p];
         last_layer = (if pl_layers p = [] then ''embedding_output''
           else layer_name (length (pl_layers p) - 1) ''output'')
     in if pl_final_norm p \<noteq> 0 then
          let g = emit FinalNorm None [last_layer] ''final_norm_output'' [hidden] hidden g in
          if pl_output_projection p \<noteq> None then
            let g = emit OutputProjection None [''final_norm_output''] ''output_projection_output''
                      [hidden] logits g in
            if pl_softcapping p \<noteq> None then
              add_op_node Argmax None [''softcap_output''] [''output_token''] [logits] (Some []) False
                (emit Softcap None [''output_projection_output''] ''softcap_output'' [logits] logits g)
            else
              add_op_node Argmax None [''output_projection_output''] [''output_token''] [logits]
                (Some []) False g
          else
            add_op_node Argmax None [''final_norm_output''] [''output_token''] [hidden] (Some []) False g
        else g)"

definition from_plan :: "'f plan \<Rightarrow> graph" where
  "from_plan p = build_epilogue p (build_layers p 0 (pl_layers p) (build_prologue p))"

subsection \<open>Constant folding\<close>

definition starts_with :: "string \<Rightarrow> string \<Rightarrow> bool" where
  "starts_with pre s \<longleftrightarrow> take (length pre) s = pre"

definition input_constant :: "string set \<Rightarrow> string \<Rightarrow> bool" where
  "input_constant C t \<longleftrightarrow> t = ''input_ids'' \<or> starts_with ''constant_'' t \<or> t \<in> C"

text \<open>One sweep over the nodes: the new nodes, the constants, and whether anything changed.\<close>

fun fold_pass :: "op_node list \<Rightarrow> string set \<Rightarrow> op_node list \<times> string set \<times> bool" where
  "fold_pass [] C = ([], C, False)"
| "fold_pass (n # ns) C = (
     if on_is_constant n \<or> on_is_dead n then
       (case fold_pass ns C of (ns', C', ch) \<Rightarrow> (n # ns', C', ch))
     else if list_all (input_constant C) (on_inputs n) \<and> on_inputs n \<noteq> [] then
       (case fold_pass ns (C \<union> set (on_outputs n)) of
          (ns', C', ch) \<Rightarrow> (n\<lparr>on_is_constant := True\<rparr> # ns', C', True))
     else (case fold_pass ns C of (ns', C', ch) \<Rightarrow> (n # ns', C', ch)))"

definition open_nodes :: "op_node list \<Rightarrow> nat" where
  "open_nodes ns = length (filter (\<lambda>n. \<not> on_is_constant n) ns)"

lemma fold_pass_open:
  "fold_pass ns C = (ns', C', ch) \<Longrightarrow> open_nodes ns' \<le> open_nodes ns \<and>
    (ch \<longrightarrow> open_nodes ns' < open_nodes ns)"
  by (induction ns C arbitrary: ns' C' ch rule: fold_pass.induct)
    (fastforce simp: open_nodes_def split: if_splits prod.splits)+

function fold_constants :: "op_node list \<Rightarrow> string set \<Rightarrow> op_node list \<times> string set" where
  "fold_constants ns C = (case fold_pass ns C of
     (ns', C', ch) \<Rightarrow> if ch then fold_constants ns' C' else (ns', C'))"
  by pat_completeness auto
termination
  by (relation "measure (\<lambda>(ns, C). open_nodes ns)") (auto dest: fold_pass_open [OF sym])

declare fold_constants.simps [simp del]

definition run_constant_folding :: "graph \<Rightarrow> graph" where
  "run_constant_folding g = (
     case fold_constants (gr_nodes g) (insert ''input_ids'' (gr_constants g)) of
       (ns, C) \<Rightarrow> g\<lparr>gr_nodes := ns, gr_constants := C\<rparr>)"

subsection \<open>Shape propagation\<close>

definition last_dim :: "u32 \<Rightarrow> u32 list \<Rightarrow> u32 list" where
  "last_dim d s = (if 2 \<le> length s then s[length s - 1 := d] else s)"

definition first_input_shape :: "(string \<Rightarrow> u32 list option) \<Rightarrow> op_node \<Rightarrow> u32 list option" where
  "first_input_shape shapes n = (case on_inputs n of [] \<Rightarrow> None | t # _ \<Rightarrow> shapes t)"

definition infer_shape :: "graph \<Rightarrow> (string \<Rightarrow> u32 list option) \<Rightarrow> op_node \<Rightarrow> u32 list option" where
  "infer_shape g shapes n = (
     if on_known_output_shape n \<noteq> None then on_known_output_shape n
     else case on_kind n of
       RmsNorm \<Rightarrow> first_input_shape shapes n
     | ResidualAdd \<Rightarrow> first_input_shape shapes n
     | QNorm \<Rightarrow> first_input_shape shapes n
     | KNorm \<Rightarrow> first_input_shape shapes n
     | QProj \<Rightarrow> first_input_shape shapes n
     | KProj \<Rightarrow> first_input_shape shapes n
     | VProj \<Rightarrow> first_input_shape shapes n
     | OProj \<Rightarrow> first_input_shape shapes n
     | GateProj \<Rightarrow> map_option (last_dim (gr_intermediate_size g)) (first_input_shape shapes n)
     | UpProj \<Rightarrow> map_option (last_dim (gr_intermediate_size g)) (first_input_shape shapes n)
     | DownProj \<Rightarrow> map_option (last_dim (gr_hidden_size g)) (first_input_shape shapes n)
     | SiLU \<Rightarrow> first_input_shape shapes n
     | GateTimesUp \<Rightarrow> first_input_shape shapes n
     | Attention \<Rightarrow> Some [1, gr_hidden_size g]
     | RoPE \<Rightarrow> Some [1, gr_n_heads g * gr_head_dim g]
     | EmbeddingLookup \<Rightarrow> Some [1, gr_hidden_size g]
     | FinalNorm \<Rightarrow> Some [1, gr_hidden_size g]
     | OutputProjection \<Rightarrow> Some [1, gr_vocab_size g]
     | Softcap \<Rightarrow> first_input_shape shapes n
     | Argmax \<Rightarrow> Some [])"

text \<open>Inserting a shape for the outputs that have none.\<close>

fun add_shapes :: "u32 list \<Rightarrow> string list \<Rightarrow> (string \<Rightarrow> u32 list option)
    \<Rightarrow> (string \<Rightarrow> u32 list option) \<times> bool" where
  "add_shapes s [] shapes = (shapes, False)"
| "add_shapes s (t # ts) shapes = (
     if shapes t \<noteq> None then add_shapes s ts shapes
     else (fst (add_shapes s ts (shapes(t \<mapsto> s))), True))"

fun shape_pass :: "graph \<Rightarrow> op_node list \<Rightarrow> (string \<Rightarrow> u32 list option)
    \<Rightarrow> (string \<Rightarrow> u32 list option) \<times> bool" where
  "shape_pass g [] shapes = (shapes, False)"
| "shape_pass g (n # ns) shapes = (
     if on_is_dead n \<or> \<not> list_all (\<lambda>t. shapes t \<noteq> None) (on_inputs n) then shape_pass g ns shapes
     else case infer_shape g shapes n of
       None \<Rightarrow> shape_pass g ns shapes
     | Some s \<Rightarrow> (case add_shapes s (on_outputs n) shapes of
         (shapes', ch) \<Rightarrow> (fst (shape_pass g ns shapes'), ch \<or> snd (shape_pass g ns shapes'))))"

definition all_outputs :: "op_node list \<Rightarrow> string set" where
  "all_outputs ns = (\<Union>n \<in> set ns. set (on_outputs n))"

lemma add_shapes_ext: "add_shapes s ts shapes = (shapes', ch) \<Longrightarrow>
    shapes \<subseteq>\<^sub>m shapes' \<and> dom shapes' = dom shapes \<union> set ts \<and> (ch \<longleftrightarrow> \<not> set ts \<subseteq> dom shapes) \<and>
    (\<forall>t \<in> set ts - dom shapes. shapes' t = Some s)"
proof (induction ts arbitrary: shapes shapes' ch)
  case (Cons t ts)
  show ?case
  proof (cases "shapes t")
    case None
    obtain ch' where r: "add_shapes s ts (shapes(t \<mapsto> s)) = (shapes', ch')" "ch"
      using Cons.prems None by (cases "add_shapes s ts (shapes(t \<mapsto> s))") auto
    note ih = Cons.IH [OF r(1)]
    have le: "shapes \<subseteq>\<^sub>m shapes(t \<mapsto> s)" using None by (auto simp: map_le_def)
    have "shapes' t = Some s" using ih unfolding map_le_def by (metis domI fun_upd_same)
    have D: "dom (shapes(t \<mapsto> s)) = insert t (dom shapes)" and t: "t \<notin> dom shapes"
      using None by (simp_all add: domIff)
    note ih' = ih [unfolded D]
    show ?thesis
    proof (intro conjI)
      show "shapes \<subseteq>\<^sub>m shapes'" by (rule map_le_trans [OF le]) (use ih in blast)
      show "dom shapes' = dom shapes \<union> set (t # ts)" using ih' by auto
      show "ch \<longleftrightarrow> \<not> set (t # ts) \<subseteq> dom shapes" using r(2) t by simp
      show "\<forall>u \<in> set (t # ts) - dom shapes. shapes' u = Some s"
        using ih' \<open>shapes' t = Some s\<close> by auto
    qed
  next
    case (Some x)
    with Cons show ?thesis by (auto simp: domIff)
  qed
qed simp

lemma shape_pass_ext: "shape_pass g ns shapes = (shapes', ch) \<Longrightarrow>
    shapes \<subseteq>\<^sub>m shapes' \<and> dom shapes' \<subseteq> dom shapes \<union> all_outputs ns \<and> (ch \<longrightarrow> dom shapes' \<noteq> dom shapes)"
proof (induction g ns shapes arbitrary: shapes' ch rule: shape_pass.induct)
  case (2 g n ns shapes)
  have sub: "all_outputs ns \<subseteq> all_outputs (n # ns)" by (auto simp: all_outputs_def)
  show ?case
  proof (cases "on_is_dead n \<or> \<not> list_all (\<lambda>t. shapes t \<noteq> None) (on_inputs n) \<or> infer_shape g shapes n = None")
    case True
    then have r: "shape_pass g ns shapes = (shapes', ch)" using "2.prems" by (auto split: if_splits)
    have "shapes \<subseteq>\<^sub>m shapes' \<and> dom shapes' \<subseteq> dom shapes \<union> all_outputs ns \<and> (ch \<longrightarrow> dom shapes' \<noteq> dom shapes)"
      using True "2.IH"(1,2) r by blast
    with sub show ?thesis by blast
  next
    case False
    then obtain s where s: "infer_shape g shapes n = Some s" by auto
    obtain sh1 ch1 where a: "add_shapes s (on_outputs n) shapes = (sh1, ch1)" by force
    obtain ch2 where r: "shape_pass g ns sh1 = (shapes', ch2)" "ch = (ch1 \<or> ch2)"
      using "2.prems" False s a by (cases "shape_pass g ns sh1") auto
    note e = add_shapes_ext [OF a]
    have ih: "sh1 \<subseteq>\<^sub>m shapes' \<and> dom shapes' \<subseteq> dom sh1 \<union> all_outputs ns \<and> (ch2 \<longrightarrow> dom shapes' \<noteq> dom sh1)"
      using "2.IH"(3) [OF _ s a [symmetric] r(1)] False by blast
    note e1 = e [THEN conjunct1] and e2 = e [THEN conjunct2, THEN conjunct1]
      and e3 = e [THEN conjunct2, THEN conjunct2, THEN conjunct1]
    note i1 = ih [THEN conjunct1] and i2 = ih [THEN conjunct2, THEN conjunct1]
      and i3 = ih [THEN conjunct2, THEN conjunct2]
    have o: "all_outputs (n # ns) = set (on_outputs n) \<union> all_outputs ns"
      by (auto simp: all_outputs_def)
    have d: "dom sh1 \<subseteq> dom shapes'" by (rule map_le_implies_dom_le [OF i1])
    have "dom shapes' \<noteq> dom shapes" if ch
    proof
      assume eq: "dom shapes' = dom shapes"
      with d e2 have "dom sh1 = dom shapes" by auto
      with e2 e3 eq i3 that r(2) show False by auto
    qed
    moreover have "dom shapes' \<subseteq> dom shapes \<union> all_outputs (n # ns)" using i2 e2 o by auto
    ultimately show ?thesis using map_le_trans [OF e1 i1] by simp
  qed
qed (simp add: all_outputs_def)

function propagate_shapes :: "graph \<Rightarrow> op_node list \<Rightarrow> (string \<Rightarrow> u32 list option)
    \<Rightarrow> (string \<Rightarrow> u32 list option)" where
  "propagate_shapes g ns shapes = (
     if snd (shape_pass g ns shapes) then propagate_shapes g ns (fst (shape_pass g ns shapes))
     else fst (shape_pass g ns shapes))"
  by pat_completeness auto
termination
proof (relation "measure (\<lambda>(g, ns, shapes). card (all_outputs ns - dom shapes))")
  fix g ns and shapes :: "string \<Rightarrow> u32 list option"
  assume ch: "snd (shape_pass g ns shapes)"
  let ?s = "fst (shape_pass g ns shapes)"
  have e: "shapes \<subseteq>\<^sub>m ?s" "dom ?s \<subseteq> dom shapes \<union> all_outputs ns" "dom ?s \<noteq> dom shapes"
    using shape_pass_ext [of g ns shapes ?s True] ch by (cases "shape_pass g ns shapes"; simp)+
  have "dom shapes \<subset> dom ?s" using e(3) map_le_implies_dom_le [OF e(1)] by blast
  with e(2) have "all_outputs ns - dom ?s \<subset> all_outputs ns - dom shapes" by blast
  moreover have "finite (all_outputs ns)" by (simp add: all_outputs_def)
  ultimately show "((g, ns, ?s), g, ns, shapes) \<in> measure (\<lambda>(g, ns, shapes). card (all_outputs ns - dom shapes))"
    by (simp add: psubset_card_mono)
qed simp

declare propagate_shapes.simps [simp del]

definition run_shape_propagation :: "graph \<Rightarrow> graph" where
  "run_shape_propagation g = g\<lparr>gr_shapes := propagate_shapes g (gr_nodes g) (gr_shapes g)\<rparr>"

subsection \<open>Dead code elimination\<close>

definition dce_roots :: "op_node list \<Rightarrow> string list" where
  "dce_roots ns = (
     let roots = concat (map (\<lambda>n. if on_kind n = Argmax
           then filter (\<lambda>t. t = ''output_token'') (on_outputs n) else []) ns)
     in if roots = []
        then concat (map (\<lambda>n. if on_layer n = None \<and> ''output_token'' \<in> set (on_outputs n)
               then on_outputs n else []) ns)
        else roots)"

text \<open>The inputs of the producer of a tensor; a tensor without producer has none.\<close>

definition producer_inputs :: "graph \<Rightarrow> string \<Rightarrow> string list option" where
  "producer_inputs g t = (case gr_producer g t of
      None \<Rightarrow> Some []
    | Some k \<Rightarrow> if k < length (gr_nodes g) then Some (on_inputs (gr_nodes g ! k)) else None)"

definition mark_dead :: "string set \<Rightarrow> op_node \<Rightarrow> op_node" where
  "mark_dead live n = (
     if on_is_dead n then n
     else if \<not> list_ex (\<lambda>t. t \<in> live) (on_outputs n) \<and> on_outputs n \<noteq> []
     then n\<lparr>on_is_dead := True\<rparr> else n)"

text \<open>\<open>None\<close> would be the panic of an index out of range.\<close>

definition run_dead_code_elimination :: "graph \<Rightarrow> graph option" where
  "run_dead_code_elimination g = (
     let roots = dce_roots (gr_nodes g) in
     case worklist (producer_inputs g) (set roots) (rev roots) of
       None \<Rightarrow> None
     | Some live \<Rightarrow> Some (g\<lparr>gr_nodes := map (mark_dead live) (gr_nodes g)\<rparr>))"

subsection \<open>Writing the results back\<close>

definition shape_description :: "u32 list \<Rightarrow> string" where
  "shape_description s = (
     if s = [] then ''scalar''
     else fst (foldl (\<lambda>(out, first) d. (out @ (if first then '''' else ''x'') @ dec (unat d), False))
       ('''', True) s))"

definition layer_annotations :: "graph \<Rightarrow> nat \<Rightarrow> (string \<times> u32 list) list" where
  "layer_annotations g layer = concat (map (\<lambda>n.
     if on_layer n = Some layer
     then List.map_filter (\<lambda>t. map_option (Pair t) (gr_shapes g t)) (on_outputs n) else [])
     (gr_nodes g))"

definition shape_tag :: "string \<times> u32 list \<Rightarrow> string" where
  "shape_tag e = ''shape:'' @ fst e @ '':'' @ shape_description (snd e)"

definition push_tag :: "string list \<Rightarrow> string \<Rightarrow> string list" where
  "push_tag ids tag = (if tag \<in> set ids then ids else ids @ [tag])"

definition apply_shapes_to_plan :: "graph \<Rightarrow> 'f plan \<Rightarrow> 'f plan" where
  "apply_shapes_to_plan g p = p\<lparr>pl_layers := map (\<lambda>lp. lp\<lparr>lp_quantization_ids :=
     foldl push_tag (lp_quantization_ids lp)
       (map shape_tag (layer_annotations g (unat (lp_layer_index lp))))\<rparr>) (pl_layers p)\<rparr>"

definition clear_weight :: "op_kind \<Rightarrow> layer_plan \<Rightarrow> layer_plan" where
  "clear_weight kind lp = (case kind of
      QProj \<Rightarrow> lp\<lparr>lp_q_proj := 0\<rparr>
    | KProj \<Rightarrow> lp\<lparr>lp_k_proj := 0\<rparr>
    | VProj \<Rightarrow> lp\<lparr>lp_v_proj := 0\<rparr>
    | OProj \<Rightarrow> lp\<lparr>lp_o_proj := 0\<rparr>
    | GateProj \<Rightarrow> lp\<lparr>lp_gate_proj := 0\<rparr>
    | UpProj \<Rightarrow> lp\<lparr>lp_up_proj := 0\<rparr>
    | DownProj \<Rightarrow> lp\<lparr>lp_down_proj := 0\<rparr>
    | _ \<Rightarrow> lp)"

definition clear_node :: "op_node \<Rightarrow> layer_plan list \<Rightarrow> layer_plan list" where
  "clear_node n lps = (case on_layer n of
      None \<Rightarrow> lps
    | Some idx \<Rightarrow>
        if on_is_dead n \<and> idx < length lps then lps[idx := clear_weight (on_kind n) (lps ! idx)]
        else lps)"

definition drop_shape_tags :: "layer_plan \<Rightarrow> layer_plan" where
  "drop_shape_tags lp = lp\<lparr>lp_quantization_ids :=
     filter (\<lambda>t. \<not> starts_with ''shape:'' t) (lp_quantization_ids lp)\<rparr>"

definition apply_dce_to_plan :: "graph \<Rightarrow> 'f plan \<Rightarrow> 'f plan" where
  "apply_dce_to_plan g p =
     p\<lparr>pl_layers := map drop_shape_tags (fold clear_node (gr_nodes g) (pl_layers p))\<rparr>"

subsection \<open>The passes\<close>

definition optimize :: "'f plan \<Rightarrow> 'f plan option" where
  "optimize p = (
     let g = run_shape_propagation (run_constant_folding (from_plan p)) in
     case run_dead_code_elimination g of
       None \<Rightarrow> None
     | Some g' \<Rightarrow> Some (apply_dce_to_plan g' (apply_shapes_to_plan g' p)))"

definition shape_propagation :: "'f plan \<Rightarrow> 'f plan" where
  "shape_propagation p = apply_shapes_to_plan (run_shape_propagation (from_plan p)) p"

definition constant_folding :: "'f plan \<Rightarrow> 'f plan" where
  "constant_folding p = apply_shapes_to_plan (run_constant_folding (from_plan p)) p"

definition dead_code_elimination :: "'f plan \<Rightarrow> 'f plan option" where
  "dead_code_elimination p = (case run_dead_code_elimination (from_plan p) of
      None \<Rightarrow> None
    | Some g \<Rightarrow> Some (apply_dce_to_plan g p))"

subsection \<open>Constant folding and shape tags change nothing the plan keeps\<close>

definition strip :: "op_node \<Rightarrow> op_node" where
  "strip n = n\<lparr>on_is_constant := False\<rparr>"

lemma strip_fields [simp]:
  "on_kind (strip n) = on_kind n" "on_layer (strip n) = on_layer n"
  "on_inputs (strip n) = on_inputs n" "on_outputs (strip n) = on_outputs n"
  "on_is_dead (strip n) = on_is_dead n" "strip (n\<lparr>on_is_constant := b\<rparr>) = strip n"
  by (simp_all add: strip_def)

lemma fold_pass_strip: "map strip (fst (fold_pass ns C)) = map strip ns"
  by (induction ns C rule: fold_pass.induct) (auto split: prod.split)

lemma fold_constants_strip: "map strip (fst (fold_constants ns C)) = map strip ns"
proof (induction ns C rule: fold_constants.induct)
  case (1 ns C)
  obtain ns' C' ch where p: "fold_pass ns C = (ns', C', ch)" by (cases "fold_pass ns C") auto
  have "map strip ns' = map strip ns" using fold_pass_strip [of ns C] by (simp add: p)
  then show ?case using 1 [OF p [symmetric] refl] p by (simp add: fold_constants.simps [of ns C])
qed

lemma map_strip_eqD:
  assumes "map strip ns' = map strip ns"
  shows "length ns' = length ns" "\<And>k. k < length ns \<Longrightarrow> strip (ns' ! k) = strip (ns ! k)"
  using assms by (auto dest: map_eq_imp_length_eq) (metis length_map nth_map)

lemma dce_roots_strip: "dce_roots (map strip ns) = dce_roots ns"
  by (simp add: dce_roots_def o_def cong: if_cong)

lemma mark_dead_strip: "mark_dead live (strip n) = strip (mark_dead live n)"
  by (simp add: mark_dead_def strip_def)

lemma clear_node_strip: "clear_node (strip n) = clear_node n"
  unfolding clear_node_def strip_fields ..

lemma producer_inputs_strip:
  assumes "map strip (gr_nodes g') = map strip (gr_nodes g)" "gr_producer g' = gr_producer g"
  shows "producer_inputs g' = producer_inputs g"
proof
  fix t
  show "producer_inputs g' t = producer_inputs g t"
    using map_strip_eqD [OF assms(1)] assms(2)
    by (auto simp: producer_inputs_def split: option.split) (metis strip_fields(3))
qed

text \<open>Dead code elimination sees only what \<open>strip\<close> keeps.\<close>

lemma run_dce_strip:
  assumes "map strip (gr_nodes g') = map strip (gr_nodes g)" "gr_producer g' = gr_producer g"
  shows "map_option (\<lambda>h. map strip (gr_nodes h)) (run_dead_code_elimination g') =
    map_option (\<lambda>h. map strip (gr_nodes h)) (run_dead_code_elimination g)"
proof -
  have roots: "dce_roots (gr_nodes g') = dce_roots (gr_nodes g)"
    by (metis assms(1) dce_roots_strip)
  have "map (strip \<circ> mark_dead live) (gr_nodes g') = map (strip \<circ> mark_dead live) (gr_nodes g)" for live
  proof -
    have "map (mark_dead live) (map strip (gr_nodes g')) = map (mark_dead live) (map strip (gr_nodes g))"
      by (simp only: assms(1))
    then show ?thesis by (simp add: o_def mark_dead_strip)
  qed
  then show ?thesis
    by (simp add: run_dead_code_elimination_def Let_def roots producer_inputs_strip [OF assms]
        split: option.split)
qed

lemma fold_clear_strip: "fold clear_node ns lps = fold clear_node (map strip ns) lps"
  by (simp add: fold_map o_def clear_node_strip)

lemma clear_nodes_cong:
  assumes "map strip ns' = map strip ns"
  shows "fold clear_node ns' lps = fold clear_node ns lps"
  using fold_clear_strip [of ns' lps] fold_clear_strip [of ns lps] by (simp only: assms)

definition tag_layer :: "graph \<Rightarrow> layer_plan \<Rightarrow> layer_plan" where
  "tag_layer g lp = lp\<lparr>lp_quantization_ids := foldl push_tag (lp_quantization_ids lp)
     (map shape_tag (layer_annotations g (unat (lp_layer_index lp))))\<rparr>"

lemma apply_shapes_tag: "apply_shapes_to_plan g p = p\<lparr>pl_layers := map (tag_layer g) (pl_layers p)\<rparr>"
  by (simp add: apply_shapes_to_plan_def tag_layer_def [abs_def])

lemma clear_weight_tag: "clear_weight k (tag_layer g lp) = tag_layer g (clear_weight k lp)"
  by (cases k) (simp_all add: clear_weight_def tag_layer_def)

lemma clear_node_tag: "clear_node n (map (tag_layer g) lps) = map (tag_layer g) (clear_node n lps)"
  by (simp add: clear_node_def map_update clear_weight_tag split: option.split)

lemma fold_clear_tag:
  "fold clear_node ns (map (tag_layer g) lps) = map (tag_layer g) (fold clear_node ns lps)"
  by (induction ns arbitrary: lps) (simp_all add: clear_node_tag)

lemma shape_tag_prefix: "starts_with ''shape:'' (shape_tag e)"
  by (simp add: starts_with_def shape_tag_def)

lemma filter_push_tags: "filter (\<lambda>t. \<not> starts_with ''shape:'' t) (foldl push_tag ids (map shape_tag es)) =
    filter (\<lambda>t. \<not> starts_with ''shape:'' t) ids"
  by (induction es arbitrary: ids) (simp_all add: push_tag_def shape_tag_prefix)

lemma drop_tag_layer: "drop_shape_tags (tag_layer g lp) = drop_shape_tags lp"
  by (simp add: drop_shape_tags_def tag_layer_def filter_push_tags)

lemma apply_dce_shapes:
  assumes "map strip (gr_nodes g) = map strip (gr_nodes h)"
  shows "apply_dce_to_plan g (apply_shapes_to_plan f p) = apply_dce_to_plan h p"
  by (simp add: apply_dce_to_plan_def apply_shapes_tag fold_clear_tag drop_tag_layer
      clear_nodes_cong [OF assms])

text \<open>The optimiser does no more to a plan than dead code elimination.  Constant folding is never
  written back, and every shape annotation that shape propagation adds is removed again by the
  write-back of dead code elimination, so \<open>optimize\<close> and \<open>dead_code_elimination\<close> agree on all plans.\<close>
theorem optimize_is_dead_code_elimination: "optimize p = dead_code_elimination p"
proof -
  let ?g = "from_plan p"
  let ?h = "run_shape_propagation (run_constant_folding ?g)"
  have s: "map strip (gr_nodes ?h) = map strip (gr_nodes ?g)"
    using fold_constants_strip [of "gr_nodes ?g" "insert ''input_ids'' (gr_constants ?g)"]
    by (auto simp: run_shape_propagation_def run_constant_folding_def split: prod.split)
  have pr: "gr_producer ?h = gr_producer ?g"
    by (simp add: run_shape_propagation_def run_constant_folding_def split: prod.split)
  note d = run_dce_strip [OF s pr]
  show ?thesis
  proof (cases "run_dead_code_elimination ?g")
    case None
    with d show ?thesis by (simp add: optimize_def dead_code_elimination_def)
  next
    case (Some g')
    with d obtain h' where h: "run_dead_code_elimination ?h = Some h'"
      and e: "map strip (gr_nodes h') = map strip (gr_nodes g')" by auto
    from Some h show ?thesis
      by (simp add: optimize_def dead_code_elimination_def apply_dce_shapes [OF e])
  qed
qed


subsection \<open>Constant folding computes the least fixpoint\<close>

text \<open>The tensors that follow from constants: what the code takes for constant from the start, and the
  outputs of a node with inputs all of whose inputs follow.\<close>

inductive_set derivable :: "op_node list \<Rightarrow> string set" for ns where
  base: "t = ''input_ids'' \<or> starts_with ''constant_'' t \<Longrightarrow> t \<in> derivable ns"
| node: "n \<in> set ns \<Longrightarrow> on_inputs n \<noteq> [] \<Longrightarrow> (\<And>t. t \<in> set (on_inputs n) \<Longrightarrow> t \<in> derivable ns) \<Longrightarrow>
     u \<in> set (on_outputs n) \<Longrightarrow> u \<in> derivable ns"

definition folded :: "op_node list \<Rightarrow> op_node \<Rightarrow> bool" where
  "folded ns n \<longleftrightarrow> on_inputs n \<noteq> [] \<and> set (on_inputs n) \<subseteq> derivable ns"

text \<open>The invariant of the sweeps over the nodes \<open>ns0\<close> of the graph, on the part \<open>ns\<close> still to visit.\<close>

definition fold_inv :: "op_node list \<Rightarrow> op_node list \<Rightarrow> string set \<Rightarrow> bool" where
  "fold_inv ns0 ns C \<longleftrightarrow> C \<subseteq> derivable ns0 \<and>
     (\<forall>n \<in> set ns. \<not> on_is_dead n \<and> strip n \<in> strip ` set ns0 \<and>
        (on_is_constant n \<longrightarrow> folded ns0 n \<and> set (on_outputs n) \<subseteq> C))"

lemma derivable_outputs:
  assumes "strip n \<in> strip ` set ns0" "folded ns0 n"
  shows "set (on_outputs n) \<subseteq> derivable ns0"
proof
  fix u assume u: "u \<in> set (on_outputs n)"
  from assms(1) obtain n0 where n0: "n0 \<in> set ns0" "strip n = strip n0" by auto
  then have "on_inputs n0 = on_inputs n" "on_outputs n0 = on_outputs n" by (metis strip_fields)+
  with u assms(2) derivable.node [OF n0(1), of u] show "u \<in> derivable ns0"
    by (auto simp: folded_def)
qed

lemma folded_constant [simp]: "folded ns0 (n\<lparr>on_is_constant := b\<rparr>) = folded ns0 n"
  by (simp add: folded_def)

lemma fold_inv_mono: "fold_inv ns0 ns C \<Longrightarrow> C \<subseteq> C' \<Longrightarrow> C' \<subseteq> derivable ns0 \<Longrightarrow> fold_inv ns0 ns C'"
  unfolding fold_inv_def by blast

lemma fold_pass_inv:
  assumes "fold_pass ns C = (ns', C', ch)" "fold_inv ns0 ns C"
  shows "fold_inv ns0 ns' C' \<and> C \<subseteq> C' \<and>
    (\<not> ch \<longrightarrow> ns' = ns \<and> C' = C \<and>
      (\<forall>n \<in> set ns. \<not> on_is_constant n \<longrightarrow>
         \<not> (list_all (input_constant C) (on_inputs n) \<and> on_inputs n \<noteq> [])))"
  using assms
proof (induction ns C arbitrary: ns' C' ch rule: fold_pass.induct)
  case (1 C)
  then show ?case by simp
next
  case (2 n ns C)
  have inv: "C \<subseteq> derivable ns0" "\<not> on_is_dead n" "strip n \<in> strip ` set ns0"
    "on_is_constant n \<Longrightarrow> folded ns0 n \<and> set (on_outputs n) \<subseteq> C" "fold_inv ns0 ns C"
    using "2.prems"(2) by (auto simp: fold_inv_def)
  have single: "fold_inv ns0 (m # ms) D \<longleftrightarrow> fold_inv ns0 ms D \<and> \<not> on_is_dead m \<and>
      strip m \<in> strip ` set ns0 \<and> (on_is_constant m \<longrightarrow> folded ns0 m \<and> set (on_outputs m) \<subseteq> D)" for m ms D
    by (auto simp: fold_inv_def)
  show ?case
  proof (cases "on_is_constant n")
    case True
    obtain ms D c where r: "fold_pass ns C = (ms, D, c)" by (cases "fold_pass ns C") auto
    have ih: "fold_inv ns0 ms D \<and> C \<subseteq> D \<and> (\<not> c \<longrightarrow> ms = ns \<and> D = C \<and>
        (\<forall>n \<in> set ns. \<not> on_is_constant n \<longrightarrow>
           \<not> (list_all (input_constant C) (on_inputs n) \<and> on_inputs n \<noteq> [])))"
      using "2.IH"(1) [OF _ r inv(5)] True by simp
    have e: "ns' = n # ms" "C' = D" "ch = c" using "2.prems"(1) True r by simp_all
    show ?thesis unfolding e single using ih inv(2-4) True by auto
  next
    case False
    note F = False
    show ?thesis
    proof (cases "list_all (input_constant C) (on_inputs n) \<and> on_inputs n \<noteq> []")
      case True
      obtain ms D c where r: "fold_pass ns (C \<union> set (on_outputs n)) = (ms, D, c)"
        by (cases "fold_pass ns (C \<union> set (on_outputs n))") auto
      have f: "folded ns0 n"
        using True inv(1) by (auto simp: folded_def list_all_iff input_constant_def intro: derivable.base)
      have "fold_inv ns0 ns (C \<union> set (on_outputs n))"
        using fold_inv_mono [OF inv(5)] derivable_outputs [OF inv(3) f] inv(1) by simp
      then have ih: "fold_inv ns0 ms D \<and> C \<union> set (on_outputs n) \<subseteq> D"
        using "2.IH"(2) [OF _ _ r] F True inv(2) by simp
      have e: "ns' = n\<lparr>on_is_constant := True\<rparr> # ms" "C' = D" "ch = True"
        using "2.prems"(1) True F r inv(2) by simp_all
      show ?thesis unfolding e single using ih inv(2,3) f by simp
    next
      case False
      obtain ms D c where r: "fold_pass ns C = (ms, D, c)" by (cases "fold_pass ns C") auto
      have ih: "fold_inv ns0 ms D \<and> C \<subseteq> D \<and> (\<not> c \<longrightarrow> ms = ns \<and> D = C \<and>
          (\<forall>n \<in> set ns. \<not> on_is_constant n \<longrightarrow>
             \<not> (list_all (input_constant C) (on_inputs n) \<and> on_inputs n \<noteq> [])))"
        using "2.IH"(3) [OF _ False r inv(5)] F inv(2) by simp
      have e: "ns' = n # ms" "C' = D" "ch = c" using "2.prems"(1) False F r inv(2) by auto
      show ?thesis unfolding e single using ih inv(2-4) F False by auto
    qed
  qed
qed

lemma fold_constants_inv:
  assumes "fold_constants ns C = (ns', C')" "fold_inv ns0 ns C"
  shows "fold_inv ns0 ns' C' \<and> C \<subseteq> C' \<and> (\<forall>n \<in> set ns'. \<not> on_is_constant n \<longrightarrow>
    \<not> (list_all (input_constant C') (on_inputs n) \<and> on_inputs n \<noteq> []))"
  using assms
proof (induction ns C rule: fold_constants.induct)
  case (1 ns C)
  obtain ms D ch where p: "fold_pass ns C = (ms, D, ch)" by (cases "fold_pass ns C") auto
  note i = fold_pass_inv [OF p "1.prems"(2)]
  show ?case
  proof (cases ch)
    case True
    with "1.prems"(1) p have r: "fold_constants ms D = (ns', C')"
      by (simp add: fold_constants.simps [of ns C])
    from "1.IH" [OF p [symmetric] refl True r] i show ?thesis by blast
  next
    case False
    with "1.prems"(1) p have "ns' = ms" "C' = D" by (simp_all add: fold_constants.simps [of ns C])
    with i False show ?thesis by auto
  qed
qed

lemma fold_constants_exact:
  assumes "\<forall>n \<in> set ns. \<not> on_is_dead n \<and> \<not> on_is_constant n" "fold_constants ns {''input_ids''} = (ns', C')"
  shows "\<forall>n \<in> set ns'. on_is_constant n \<longleftrightarrow> folded ns n"
    "\<forall>n \<in> set ns'. strip n \<in> strip ` set ns"
    "\<And>t. t \<in> derivable ns \<longleftrightarrow> input_constant C' t"
proof -
  have "fold_inv ns ns {''input_ids''}"
    using assms(1) by (auto simp: fold_inv_def intro: derivable.base)
  note i = fold_constants_inv [OF assms(2) this]
  have inv: "fold_inv ns ns' C'" and closed: "\<forall>n \<in> set ns'. \<not> on_is_constant n \<longrightarrow>
      \<not> (list_all (input_constant C') (on_inputs n) \<and> on_inputs n \<noteq> [])" using i by blast+
  show s: "\<forall>n \<in> set ns'. strip n \<in> strip ` set ns" using inv by (simp add: fold_inv_def)
  have "strip ` set ns' = strip ` set ns"
    using fold_constants_strip [of ns "{''input_ids''}"] assms(2) by (metis fst_conv list.set_map)
  then have orig: "\<exists>m \<in> set ns'. strip m = strip n" if "n \<in> set ns" for n
    using that by (metis image_iff)
  show d: "t \<in> derivable ns \<longleftrightarrow> input_constant C' t" for t
  proof
    show "t \<in> derivable ns" if "input_constant C' t"
      using that inv by (auto simp: input_constant_def fold_inv_def intro: derivable.base)
    show "input_constant C' t" if "t \<in> derivable ns" using that
    proof (induction rule: derivable.induct)
      case (base t)
      then show ?case by (auto simp: input_constant_def)
    next
      case (node n u)
      obtain m where m: "m \<in> set ns'" "strip m = strip n" using orig [OF node(1)] by blast
      then have io: "on_inputs m = on_inputs n" "on_outputs m = on_outputs n" by (metis strip_fields)+
      with node closed m(1) have "on_is_constant m" by (auto simp: list_all_iff)
      with inv m(1) have "set (on_outputs m) \<subseteq> C'" by (simp add: fold_inv_def)
      with io node.hyps(4) show ?case by (auto simp: input_constant_def)
    qed
  qed
  show "\<forall>n \<in> set ns'. on_is_constant n = folded ns n"
    using inv closed d by (fastforce simp: fold_inv_def folded_def list_all_iff)
qed


subsection \<open>The graph of a plan\<close>

type_synonym op = "op_kind \<times> nat option \<times> string list \<times> string"

definition op_of :: "op_node \<Rightarrow> op" where
  "op_of n = (on_kind n, on_layer n, on_inputs n, hd (on_outputs n))"

text \<open>Every node is fresh and has one output, and the producer map points to a node with that output.\<close>

definition graph_ok :: "graph \<Rightarrow> bool" where
  "graph_ok g \<longleftrightarrow>
     (\<forall>n \<in> set (gr_nodes g). \<not> on_is_dead n \<and> \<not> on_is_constant n \<and> (\<exists>t. on_outputs n = [t])) \<and>
     (\<forall>t k. gr_producer g t = Some k \<longrightarrow>
        k < length (gr_nodes g) \<and> on_outputs (gr_nodes g ! k) = [t]) \<and>
     (\<forall>n \<in> set (gr_nodes g). gr_producer g (hd (on_outputs n)) \<noteq> None) \<and>
     gr_constants g = {}"

definition graph_ops :: "graph \<Rightarrow> op list" where
  "graph_ops g = map op_of (gr_nodes g)"

lemma register_consumers_fields [simp]:
  "gr_nodes (register_consumers n g) = gr_nodes g" "gr_producer (register_consumers n g) = gr_producer g"
  "gr_shapes (register_consumers n g) = gr_shapes g"
  "gr_constants (register_consumers n g) = gr_constants g"
  by (simp_all add: register_consumers_def)

lemma add_op_node_ops: "graph_ops (add_op_node k l i [t] ish osh False g) = graph_ops g @ [(k, l, i, t)]"
  by (simp add: add_op_node_def graph_ops_def op_of_def Let_def)

lemma add_op_node_ok: "graph_ok g \<Longrightarrow> graph_ok (add_op_node k l i [t] ish osh False g)"
  by (auto simp: graph_ok_def add_op_node_def Let_def nth_append less_Suc_eq split: if_splits)

lemma seed_shape_fields [simp]:
  "gr_nodes (seed_shape t s g) = gr_nodes g" "gr_producer (seed_shape t s g) = gr_producer g"
  "gr_constants (seed_shape t s g) = gr_constants g"
  "graph_ops (seed_shape t s g) = graph_ops g" "graph_ok (seed_shape t s g) = graph_ok g"
  by (simp_all add: seed_shape_def graph_ok_def graph_ops_def)

lemma emit_ops [simp]: "graph_ops (emit k l i t ish s g) = graph_ops g @ [(k, l, i, t)]"
  by (simp add: emit_def add_op_node_ops)

lemma emit_ok [simp]: "graph_ok g \<Longrightarrow> graph_ok (emit k l i t ish s g)"
  by (simp add: emit_def add_op_node_ok)

definition prologue_ops :: "'f plan \<Rightarrow> op list" where
  "prologue_ops p = (if pl_embedding p \<noteq> 0
     then [(EmbeddingLookup, None, [''input_ids''], ''embedding_output'')] else [])"

definition attention_ops :: "nat \<Rightarrow> layer_plan \<Rightarrow> op list" where
  "attention_ops i lp =
     [(RmsNorm, Some i, [residual_in i], layer_name i ''norm_out'')] @
     (if lp_q_proj lp \<noteq> 0 then [(QProj, Some i, [layer_name i ''norm_out''], layer_name i ''q'')] else []) @
     (if lp_k_proj lp \<noteq> 0 then [(KProj, Some i, [layer_name i ''norm_out''], layer_name i ''k'')] else []) @
     (if lp_v_proj lp \<noteq> 0 then [(VProj, Some i, [layer_name i ''norm_out''], layer_name i ''v'')] else []) @
     [(RoPE, Some i, [], layer_name i ''rope''),
      (Attention, Some i, attention_inputs i lp, layer_name i ''attn'')] @
     (if lp_o_proj lp \<noteq> 0 then [(OProj, Some i, [layer_name i ''attn''], layer_name i ''o'')] else []) @
     [(ResidualAdd, Some i, [residual_in i, if lp_o_proj lp \<noteq> 0 then layer_name i ''o''
         else layer_name i ''attn''], layer_name i ''post_attn''),
      (RmsNorm, Some i, [layer_name i ''post_attn''], layer_name i ''post_norm'')]"

definition ffw_ops :: "nat \<Rightarrow> layer_plan \<Rightarrow> op list" where
  "ffw_ops i lp =
     (if lp_gate_proj lp \<noteq> 0
      then [(GateProj, Some i, [layer_name i ''post_norm''], layer_name i ''gate''),
            (SiLU, Some i, [layer_name i ''gate''], layer_name i ''silu'')] else []) @
     (if lp_up_proj lp \<noteq> 0 then [(UpProj, Some i, [layer_name i ''post_norm''], layer_name i ''up'')] else []) @
     (if lp_gate_proj lp \<noteq> 0 \<and> lp_up_proj lp \<noteq> 0
      then [(GateTimesUp, Some i, [layer_name i ''silu'', layer_name i ''up''], layer_name i ''mul'')]
      else []) @
     (if lp_down_proj lp \<noteq> 0
      then [(DownProj, Some i, [if lp_gate_proj lp \<noteq> 0 then layer_name i ''mul'' else layer_name i ''up''],
               layer_name i ''down''),
            (ResidualAdd, Some i, [layer_name i ''post_attn'', layer_name i ''down''],
               layer_name i ''output'')] else [])"

fun layers_ops :: "nat \<Rightarrow> layer_plan list \<Rightarrow> op list" where
  "layers_ops i [] = []"
| "layers_ops i (lp # lps) = attention_ops i lp @ ffw_ops i lp @ layers_ops (Suc i) lps"

definition last_layer :: "'f plan \<Rightarrow> string" where
  "last_layer p = (if pl_layers p = [] then ''embedding_output''
     else layer_name (length (pl_layers p) - 1) ''output'')"

definition epilogue_ops :: "'f plan \<Rightarrow> op list" where
  "epilogue_ops p = (
     if pl_final_norm p = 0 then []
     else [(FinalNorm, None, [last_layer p], ''final_norm_output'')] @
       (if pl_output_projection p = None then [(Argmax, None, [''final_norm_output''], ''output_token'')]
        else [(OutputProjection, None, [''final_norm_output''], ''output_projection_output'')] @
          (if pl_softcapping p = None
           then [(Argmax, None, [''output_projection_output''], ''output_token'')]
           else [(Softcap, None, [''output_projection_output''], ''softcap_output''),
                 (Argmax, None, [''softcap_output''], ''output_token'')])))"

definition plan_ops :: "'f plan \<Rightarrow> op list" where
  "plan_ops p = prologue_ops p @ layers_ops 0 (pl_layers p) @ epilogue_ops p"

lemma build_prologue_ops: "graph_ops (build_prologue p) = prologue_ops p" "graph_ok (build_prologue p)"
  by (auto simp: build_prologue_def prologue_ops_def graph_ops_def graph_ok_def Let_def emit_def
      add_op_node_def seed_shape_def op_of_def)

lemma heads_fields [simp]:
  "graph_ops (g\<lparr>gr_n_heads := a, gr_n_kv_heads := b, gr_head_dim := c, gr_global_head_dim := d,
     gr_n_global_kv_heads := e\<rparr>) = graph_ops g"
  "graph_ok (g\<lparr>gr_n_heads := a, gr_n_kv_heads := b, gr_head_dim := c, gr_global_head_dim := d,
     gr_n_global_kv_heads := e\<rparr>) = graph_ok g"
  by (simp_all add: graph_ops_def graph_ok_def)

lemma build_attention_ops: "graph_ops (build_attention p i lp g) = graph_ops g @ attention_ops i lp"
  by (simp add: build_attention_def attention_ops_def Let_def)

lemma build_attention_ok: "graph_ok g \<Longrightarrow> graph_ok (build_attention p i lp g)"
  by (simp add: build_attention_def Let_def)

lemma build_ffw_ops: "graph_ops (build_ffw p i lp g) = graph_ops g @ ffw_ops i lp"
  by (simp add: build_ffw_def ffw_ops_def Let_def)

lemma build_ffw_ok: "graph_ok g \<Longrightarrow> graph_ok (build_ffw p i lp g)"
  by (simp add: build_ffw_def Let_def)

lemma build_layers_ops: "graph_ops (build_layers p i lps g) = graph_ops g @ layers_ops i lps"
  by (induction p i lps g rule: build_layers.induct) (simp_all add: build_attention_ops build_ffw_ops)

lemma build_layers_ok: "graph_ok g \<Longrightarrow> graph_ok (build_layers p i lps g)"
  by (induction p i lps g rule: build_layers.induct) (simp_all add: build_attention_ok build_ffw_ok)

lemma from_plan_ops: "graph_ops (from_plan p) = plan_ops p"
  by (simp add: from_plan_def plan_ops_def build_epilogue_def epilogue_ops_def Let_def
      last_layer_def add_op_node_ops build_layers_ops build_prologue_ops)

lemma from_plan_ok: "graph_ok (from_plan p)"
  by (simp add: from_plan_def build_epilogue_def Let_def add_op_node_ok build_layers_ok
      build_prologue_ops)


subsection \<open>Tensor names\<close>

lemma layer_name_inj [simp]: "layer_name i a = layer_name j b \<longleftrightarrow> i = j \<and> a = b"
  using append_cons_unique [OF dec_not_underscore dec_not_underscore, of i a j b]
  by (auto simp: layer_name_def dest: dec_inj)

lemma layer_name_global [simp]:
  "layer_name i a \<noteq> CHR ''e'' # s" "layer_name i a \<noteq> CHR ''f'' # s" "layer_name i a \<noteq> CHR ''o'' # s"
  "layer_name i a \<noteq> CHR ''s'' # s" "layer_name i a \<noteq> CHR ''i'' # s"
  "CHR ''e'' # s \<noteq> layer_name i a" "CHR ''f'' # s \<noteq> layer_name i a" "CHR ''o'' # s \<noteq> layer_name i a"
  "CHR ''s'' # s \<noteq> layer_name i a" "CHR ''i'' # s \<noteq> layer_name i a"
  by (simp_all add: layer_name_def)

subsection \<open>What dead code elimination keeps\<close>

lemma layers_ops_mem: "x \<in> set (layers_ops i lps) \<longleftrightarrow>
    (\<exists>j < length lps. x \<in> set (attention_ops (i + j) (lps ! j) @ ffw_ops (i + j) (lps ! j)))"
proof (induction i lps rule: layers_ops.induct)
  case (2 i lp lps)
  have "(\<exists>j < length (lp # lps). x \<in> set (attention_ops (i + j) ((lp # lps) ! j) @ ffw_ops (i + j) ((lp # lps) ! j)))
    \<longleftrightarrow> x \<in> set (attention_ops i lp @ ffw_ops i lp) \<or>
      (\<exists>j < length lps. x \<in> set (attention_ops (Suc i + j) (lps ! j) @ ffw_ops (Suc i + j) (lps ! j)))"
    by (simp only: length_Cons Ex_less_Suc2) simp
  with 2 show ?case by auto
qed simp

definition layer_ops :: "nat \<Rightarrow> layer_plan \<Rightarrow> op list" where
  "layer_ops i lp = attention_ops i lp @ ffw_ops i lp"

lemma plan_ops_mem: "x \<in> set (plan_ops p) \<longleftrightarrow> x \<in> set (prologue_ops p) \<or> x \<in> set (epilogue_ops p) \<or>
    (\<exists>i < length (pl_layers p). x \<in> set (layer_ops i (pl_layers p ! i)))"
  by (auto simp: plan_ops_def layers_ops_mem layer_ops_def)

text \<open>The layer reaches the output: a final norm, and a down projection in this and every later layer.\<close>

definition layer_live :: "'f plan \<Rightarrow> nat \<Rightarrow> bool" where
  "layer_live p i \<longleftrightarrow> pl_final_norm p \<noteq> 0 \<and> list_all (\<lambda>lp. lp_down_proj lp \<noteq> 0) (drop i (pl_layers p))"

lemma layer_live_Suc: "i < length (pl_layers p) \<Longrightarrow>
    layer_live p i \<longleftrightarrow> lp_down_proj (pl_layers p ! i) \<noteq> 0 \<and> layer_live p (Suc i)"
  by (auto simp: layer_live_def Cons_nth_drop_Suc [symmetric])

definition keep_layer :: "bool \<Rightarrow> layer_plan \<Rightarrow> layer_plan" where
  "keep_layer live lp = (
     if live then (if lp_up_proj lp = 0 then lp\<lparr>lp_gate_proj := 0\<rparr> else lp)
     else lp\<lparr>lp_q_proj := 0, lp_k_proj := 0, lp_v_proj := 0, lp_o_proj := 0, lp_gate_proj := 0,
             lp_up_proj := 0, lp_down_proj := 0\<rparr>)"

definition kept_layers :: "'f plan \<Rightarrow> layer_plan list" where
  "kept_layers p = map (\<lambda>i. drop_shape_tags (keep_layer (layer_live p i) (pl_layers p ! i)))
     [0..<length (pl_layers p)]"


text \<open>The tensors that can be live: everything outside the layers; in a layer, its output if the next
  layer is live, and its other tensors if the layer itself is, except the gate of a layer without up
  projection.\<close>

definition can_live :: "'f plan \<Rightarrow> string set" where
  "can_live p = {t. \<forall>i part. t = layer_name i part \<longrightarrow>
     (if part = ''output'' then layer_live p (Suc i)
      else layer_live p i \<and>
        (part = ''gate'' \<or> part = ''silu'' \<longrightarrow> lp_up_proj (pl_layers p ! i) \<noteq> 0))}"

lemma can_live_layer: "layer_name i part \<in> can_live p \<longleftrightarrow>
    (if part = ''output'' then layer_live p (Suc i)
      else layer_live p i \<and>
        (part = ''gate'' \<or> part = ''silu'' \<longrightarrow> lp_up_proj (pl_layers p ! i) \<noteq> 0))"
  by (simp add: can_live_def)

lemma can_live_global [simp]:
  "CHR ''e'' # s \<in> can_live p" "CHR ''f'' # s \<in> can_live p" "CHR ''o'' # s \<in> can_live p"
  "CHR ''s'' # s \<in> can_live p" "CHR ''i'' # s \<in> can_live p"
  by (simp_all add: can_live_def)

lemma residual_in_can_live: "residual_in i \<in> can_live p \<longleftrightarrow> i = 0 \<or> layer_live p i"
  by (simp add: residual_in_def can_live_layer)

lemma layer_closed:
  assumes "(k, l, ins, t) \<in> set (layer_ops i (pl_layers p ! i))" "t \<in> can_live p"
    and "i < length (pl_layers p)"
  shows "set ins \<subseteq> can_live p"
  using assms(1,2) layer_live_Suc [OF assms(3)]
  by (auto simp: layer_ops_def attention_ops_def ffw_ops_def attention_inputs_def can_live_layer
      residual_in_can_live split: if_splits)

lemma last_layer_can_live: "pl_final_norm p \<noteq> 0 \<Longrightarrow> last_layer p \<in> can_live p"
  by (simp add: last_layer_def can_live_layer layer_live_def)

lemma plan_closed:
  assumes "(k, l, ins, t) \<in> set (plan_ops p)" "t \<in> can_live p"
  shows "set ins \<subseteq> can_live p"
proof -
  consider (outer) "(k, l, ins, t) \<in> set (prologue_ops p) \<or> (k, l, ins, t) \<in> set (epilogue_ops p)"
    | (inner) i where "i < length (pl_layers p)" "(k, l, ins, t) \<in> set (layer_ops i (pl_layers p ! i))"
    using assms(1) unfolding plan_ops_mem by blast
  then show ?thesis
  proof cases
    case outer
    with last_layer_can_live [of p] show ?thesis
      by (auto simp: prologue_ops_def epilogue_ops_def split: if_splits)
  next
    case inner
    with layer_closed assms(2) show ?thesis by blast
  qed
qed

lemma layer_ops_layer: "(k, l, ins, t) \<in> set (layer_ops i lp) \<Longrightarrow> l = Some i \<and> (\<exists>part. t = layer_name i part)"
  by (auto simp: layer_ops_def attention_ops_def ffw_ops_def split: if_splits)


text \<open>The producer map of a plan's graph, in terms of its operations.\<close>

lemma from_plan_node: "n \<in> set (gr_nodes (from_plan p)) \<Longrightarrow>
    (on_kind n, on_layer n, on_inputs n, hd (on_outputs n)) \<in> set (plan_ops p) \<and>
    on_outputs n = [hd (on_outputs n)] \<and> \<not> on_is_dead n"
  using from_plan_ok [of p] unfolding graph_ok_def from_plan_ops [of p, symmetric]
  by (fastforce simp: graph_ops_def op_of_def)

lemma from_plan_op: "(k, l, ins, t) \<in> set (plan_ops p) \<Longrightarrow>
    \<exists>n \<in> set (gr_nodes (from_plan p)). on_kind n = k \<and> on_layer n = l \<and> on_inputs n = ins \<and> on_outputs n = [t]"
  using from_plan_ok [of p] unfolding graph_ok_def from_plan_ops [of p, symmetric]
  by (fastforce simp: graph_ops_def op_of_def)

lemma producer_total: "\<exists>ys. producer_inputs (from_plan p) t = Some ys"
  using from_plan_ok [of p] by (auto simp: producer_inputs_def graph_ok_def split: option.split)

lemma producer_op:
  assumes "producer_inputs (from_plan p) t = Some ys" "ys \<noteq> []"
  shows "\<exists>k l. (k, l, ys, t) \<in> set (plan_ops p)"
proof -
  from assms obtain j where j: "gr_producer (from_plan p) t = Some j" "j < length (gr_nodes (from_plan p))"
    "on_inputs (gr_nodes (from_plan p) ! j) = ys"
    by (auto simp: producer_inputs_def split: option.splits if_splits)
  have "on_outputs (gr_nodes (from_plan p) ! j) = [t]"
    using from_plan_ok [of p] j(1) by (simp add: graph_ok_def)
  with from_plan_node [OF nth_mem [OF j(2)]] j(3) show ?thesis by auto
qed

lemma op_producer:
  assumes "(k, l, ins, t) \<in> set (plan_ops p)"
  shows "\<exists>k l ys. producer_inputs (from_plan p) t = Some ys \<and> (k, l, ys, t) \<in> set (plan_ops p)"
proof -
  obtain n where n: "n \<in> set (gr_nodes (from_plan p))" "on_outputs n = [t]"
    using from_plan_op [OF assms] by blast
  then obtain j where j: "gr_producer (from_plan p) t = Some j"
    using from_plan_ok [of p] by (fastforce simp: graph_ok_def)
  then have o: "j < length (gr_nodes (from_plan p))" "on_outputs (gr_nodes (from_plan p) ! j) = [t]"
    using from_plan_ok [of p] by (simp_all add: graph_ok_def)
  from from_plan_node [OF nth_mem [OF o(1)]] o j show ?thesis
    by (auto simp: producer_inputs_def)
qed

definition live_tensors :: "'f plan \<Rightarrow> string set" where
  "live_tensors p = reaches (producer_inputs (from_plan p)) (set (dce_roots (gr_nodes (from_plan p))))"

lemma dce_from_plan: "\<exists>g. run_dead_code_elimination (from_plan p) = Some g \<and>
    gr_nodes g = map (mark_dead (live_tensors p)) (gr_nodes (from_plan p))"
proof -
  let ?g = "from_plan p" and ?roots = "dce_roots (gr_nodes (from_plan p))"
  let ?U = "set ?roots \<union> (\<Union>(k, l, ins, t) \<in> set (plan_ops p). set ins)"
  have "worklist (producer_inputs ?g) (set ?roots) (rev ?roots) = Some (live_tensors p)"
    unfolding live_tensors_def
  proof (rule worklist_reaches [of ?U])
    show "finite ?U" by auto
    show "\<exists>ys. producer_inputs ?g x = Some ys \<and> set ys \<subseteq> ?U" for x
    proof -
      obtain ys where ys: "producer_inputs ?g x = Some ys" using producer_total by blast
      show ?thesis
      proof (cases "ys = []")
        case False
        from producer_op [OF ys False] ys show ?thesis by fastforce
      qed (simp add: ys)
    qed
  qed auto
  then show ?thesis by (simp add: run_dead_code_elimination_def Let_def)
qed

lemma live_step:
  assumes "t \<in> live_tensors p" "(k, l, ins, t) \<in> set (plan_ops p)"
    and "\<And>k' l' ins'. (k', l', ins', t) \<in> set (plan_ops p) \<Longrightarrow> ins' = ins"
  shows "set ins \<subseteq> live_tensors p"
proof
  fix u assume u: "u \<in> set ins"
  obtain k' l' ys where "producer_inputs (from_plan p) t = Some ys" "(k', l', ys, t) \<in> set (plan_ops p)"
    using op_producer [OF assms(2)] by blast
  with assms(3) u show "u \<in> live_tensors p"
    using reaches_step assms(1) unfolding live_tensors_def by metis
qed


lemma layer_ops_output: "(k, l, ins, t) \<in> set (layer_ops i lp) \<Longrightarrow> k \<noteq> Argmax \<and> t \<noteq> ''output_token''"
  by (auto simp: layer_ops_def attention_ops_def ffw_ops_def split: if_splits)

lemma plan_ops_output_token: "(k, l, ins, ''output_token'') \<in> set (plan_ops p) \<Longrightarrow>
    k = Argmax \<and> pl_final_norm p \<noteq> 0"
  unfolding plan_ops_mem
  by (auto simp: prologue_ops_def epilogue_ops_def dest: layer_ops_output split: if_splits)

definition argmax_inputs :: "'f plan \<Rightarrow> string list" where
  "argmax_inputs p = (
     if pl_output_projection p = None then [''final_norm_output'']
     else if pl_softcapping p = None then [''output_projection_output''] else [''softcap_output''])"

lemma argmax_epilogue: "pl_final_norm p \<noteq> 0 \<Longrightarrow>
    (Argmax, None, argmax_inputs p, ''output_token'') \<in> set (epilogue_ops p)"
  by (simp add: epilogue_ops_def argmax_inputs_def)

lemma argmax_root:
  assumes "n \<in> set ns" "on_kind n = Argmax" "on_outputs n = [''output_token'']"
  shows "''output_token'' \<in> set (dce_roots ns)"
proof -
  let ?roots = "concat (map (\<lambda>n. if on_kind n = Argmax
    then filter (\<lambda>t. t = ''output_token'') (on_outputs n) else []) ns)"
  have "''output_token'' \<in> set ?roots" using assms by (simp add: bexI [of _ n])
  moreover from this have "?roots \<noteq> []" by (metis empty_iff list.set(1))
  ultimately show ?thesis by (simp only: dce_roots_def Let_def if_False)
qed

lemma from_plan_roots: "set (dce_roots (gr_nodes (from_plan p))) =
    (if pl_final_norm p \<noteq> 0 then {''output_token''} else {})"
proof -
  let ?ns = "gr_nodes (from_plan p)"
  have root: "\<exists>n \<in> set ?ns. t \<in> set (on_outputs n) \<and> ''output_token'' \<in> set (on_outputs n)"
    if "t \<in> set (dce_roots ?ns)" for t
    using that by (auto simp: dce_roots_def Let_def split: if_splits)
  show ?thesis
  proof (cases "pl_final_norm p = 0")
    case True
    have "t \<notin> set (dce_roots ?ns)" for t
    proof
      assume "t \<in> set (dce_roots ?ns)"
      then obtain n where n: "n \<in> set ?ns" "''output_token'' \<in> set (on_outputs n)" using root by blast
      note f = from_plan_node [OF n(1)]
      then obtain u where u: "on_outputs n = [u]" by blast
      with n(2) f have "(on_kind n, on_layer n, on_inputs n, ''output_token'') \<in> set (plan_ops p)" by simp
      with plan_ops_output_token True show False by blast
    qed
    then have "set (dce_roots ?ns) = {}" by (intro equals0I) auto
    with True show ?thesis by simp
  next
    case False
    then have "(Argmax, None, argmax_inputs p, ''output_token'') \<in> set (plan_ops p)"
      by (simp add: plan_ops_mem argmax_epilogue)
    from from_plan_op [OF this] have tok: "''output_token'' \<in> set (dce_roots ?ns)"
      using argmax_root by blast
    have "t \<in> {''output_token''}" if mem: "t \<in> set (dce_roots ?ns)" for t
    proof -
      obtain n where n: "n \<in> set ?ns" "t \<in> set (on_outputs n)" "''output_token'' \<in> set (on_outputs n)"
        using root [OF mem] by blast
      obtain u where "on_outputs n = [u]" using from_plan_node [OF n(1)] by blast
      with n show ?thesis by simp
    qed
    then have "set (dce_roots ?ns) \<subseteq> {''output_token''}" by (rule subsetI)
    then have "set (dce_roots ?ns) = {''output_token''}" using tok by blast
    with False show ?thesis by (simp only: if_True not_False_eq_True simp_thms)
  qed
qed

lemma live_can_live: "live_tensors p \<subseteq> can_live p"
  unfolding live_tensors_def
proof (rule reaches_least)
  show "set (dce_roots (gr_nodes (from_plan p))) \<subseteq> can_live p" by (simp add: from_plan_roots)
  fix t ys assume t: "t \<in> can_live p" and ys: "producer_inputs (from_plan p) t = Some ys"
  show "set ys \<subseteq> can_live p"
  proof (cases "ys = []")
    case False
    from producer_op [OF ys False] plan_closed t show ?thesis by blast
  qed simp
qed

lemma live_none: "pl_final_norm p = 0 \<Longrightarrow> live_tensors p = {}"
  by (simp add: live_tensors_def from_plan_roots reaches_def)

lemma plan_ops_layer:
  assumes "i < length (pl_layers p)"
  shows "(k, l, ins, layer_name i part) \<in> set (plan_ops p) \<longleftrightarrow>
    (k, l, ins, layer_name i part) \<in> set (layer_ops i (pl_layers p ! i))"
proof
  assume "(k, l, ins, layer_name i part) \<in> set (plan_ops p)"
  moreover have "(k, l, ins, layer_name i part) \<notin> set (prologue_ops p)"
    "(k, l, ins, layer_name i part) \<notin> set (epilogue_ops p)"
    by (auto simp: prologue_ops_def epilogue_ops_def split: if_splits)
  ultimately obtain j where "(k, l, ins, layer_name i part) \<in> set (layer_ops j (pl_layers p ! j))"
    unfolding plan_ops_mem by blast
  moreover from this have "j = i" using layer_ops_layer by fastforce
  ultimately show "(k, l, ins, layer_name i part) \<in> set (layer_ops i (pl_layers p ! i))" by simp
qed (use assms in \<open>auto simp: plan_ops_mem\<close>)

lemma map_if_Nil: "map f (if c then xs else []) = (if c then map f xs else [])"
  by simp

lemma set_if_Nil: "set (if c then xs else []) = {x. c \<and> x \<in> set xs}"
  by simp

lemma distinct_if_Nil: "distinct (if c then xs else []) \<longleftrightarrow> (c \<longrightarrow> distinct xs)"
  by simp

lemma layer_ops_distinct: "distinct (map (\<lambda>(k, l, ins, t). t) (layer_ops i lp))"
  by (simp add: layer_ops_def attention_ops_def ffw_ops_def map_if_Nil set_if_Nil distinct_if_Nil
      disjoint_iff del: if_split cong: conj_cong) auto

lemma layer_ops_unique:
  assumes "(k, l, ins, t) \<in> set (layer_ops i lp)" "(k', l', ins', t) \<in> set (layer_ops i lp)"
  shows "ins' = ins"
  using layer_ops_distinct [of i lp] assms by (fastforce simp: distinct_map inj_on_def)

lemma layer_step:
  assumes "layer_name i part \<in> live_tensors p" "(k, l, ins, layer_name i part) \<in> set (layer_ops i (pl_layers p ! i))"
    and "i < length (pl_layers p)"
  shows "set ins \<subseteq> live_tensors p"
  by (rule live_step [OF assms(1), of k l]) (use assms plan_ops_layer layer_ops_unique in \<open>blast+\<close>)


lemma residual_live:
  assumes "i < length (pl_layers p)" "layer_name i ''norm_out'' \<in> live_tensors p"
  shows "residual_in i \<in> live_tensors p"
  using layer_step [OF assms(2) _ assms(1), of RmsNorm "Some i" "[residual_in i]"]
  by (simp add: layer_ops_def attention_ops_def)

lemma output_residual_live:
  assumes "i < length (pl_layers p)" "layer_name i ''output'' \<in> live_tensors p" "lp_down_proj (pl_layers p ! i) \<noteq> 0"
  shows "layer_name i ''post_attn'' \<in> live_tensors p" "layer_name i ''down'' \<in> live_tensors p"
  using layer_step [OF assms(2) _ assms(1), of ResidualAdd "Some i" "[layer_name i ''post_attn'', layer_name i ''down'']"]
    assms(3)
  by (simp_all add: layer_ops_def ffw_ops_def)

lemma post_attn_live:
  assumes "i < length (pl_layers p)" "layer_name i ''post_attn'' \<in> live_tensors p"
  shows "residual_in i \<in> live_tensors p"
    "lp_o_proj (pl_layers p ! i) \<noteq> 0 \<Longrightarrow> layer_name i ''o'' \<in> live_tensors p"
    "lp_o_proj (pl_layers p ! i) = 0 \<Longrightarrow> layer_name i ''attn'' \<in> live_tensors p"
  using layer_step [OF assms(2) _ assms(1), of ResidualAdd "Some i" "[residual_in i,
      if lp_o_proj (pl_layers p ! i) \<noteq> 0 then layer_name i ''o'' else layer_name i ''attn'']"]
  by (simp_all add: layer_ops_def attention_ops_def)

lemma attn_live:
  assumes "i < length (pl_layers p)" "layer_name i ''post_attn'' \<in> live_tensors p"
  shows "layer_name i ''attn'' \<in> live_tensors p"
proof (cases "lp_o_proj (pl_layers p ! i) = 0")
  case True
  with post_attn_live(3) assms show ?thesis by blast
next
  case False
  with post_attn_live(2) assms have "layer_name i ''o'' \<in> live_tensors p" by blast
  with layer_step [OF this _ assms(1), of OProj "Some i" "[layer_name i ''attn'']"] False
  show ?thesis by (simp add: layer_ops_def attention_ops_def)
qed

lemma qkv_live:
  assumes "i < length (pl_layers p)" "layer_name i ''post_attn'' \<in> live_tensors p"
  shows "layer_name i ''q'' \<in> live_tensors p" "layer_name i ''k'' \<in> live_tensors p"
    "lp_v_proj (pl_layers p ! i) \<noteq> 0 \<Longrightarrow> layer_name i ''v'' \<in> live_tensors p"
  using layer_step [OF attn_live [OF assms] _ assms(1), of Attention "Some i" "attention_inputs i (pl_layers p ! i)"]
  by (auto simp: layer_ops_def attention_ops_def attention_inputs_def split: if_splits)

lemma ffw_live:
  assumes "i < length (pl_layers p)" "layer_name i ''down'' \<in> live_tensors p" "lp_down_proj (pl_layers p ! i) \<noteq> 0"
  shows "lp_up_proj (pl_layers p ! i) \<noteq> 0 \<Longrightarrow> layer_name i ''up'' \<in> live_tensors p"
    "lp_up_proj (pl_layers p ! i) \<noteq> 0 \<Longrightarrow> lp_gate_proj (pl_layers p ! i) \<noteq> 0 \<Longrightarrow> layer_name i ''gate'' \<in> live_tensors p"
proof -
  let ?lp = "pl_layers p ! i"
  have d: "(if lp_gate_proj ?lp \<noteq> 0 then layer_name i ''mul'' else layer_name i ''up'') \<in> live_tensors p"
    using layer_step [OF assms(2) _ assms(1), of DownProj "Some i"
        "[if lp_gate_proj ?lp \<noteq> 0 then layer_name i ''mul'' else layer_name i ''up'']"] assms(3)
    by (simp add: layer_ops_def ffw_ops_def)
  have m: "layer_name i ''silu'' \<in> live_tensors p" "layer_name i ''up'' \<in> live_tensors p"
    if "lp_up_proj ?lp \<noteq> 0" "lp_gate_proj ?lp \<noteq> 0"
    using layer_step [of i "''mul''" p GateTimesUp "Some i" "[layer_name i ''silu'', layer_name i ''up'']"]
      d that assms(1)
    by (simp_all add: layer_ops_def ffw_ops_def)
  show "layer_name i ''up'' \<in> live_tensors p" if "lp_up_proj ?lp \<noteq> 0"
    using d m that by (cases "lp_gate_proj ?lp = 0") simp_all
  show "layer_name i ''gate'' \<in> live_tensors p" if "lp_up_proj ?lp \<noteq> 0" "lp_gate_proj ?lp \<noteq> 0"
    using layer_step [OF m(1) [OF that] _ assms(1), of SiLU "Some i" "[layer_name i ''gate'']"] that
    by (simp add: layer_ops_def ffw_ops_def)
qed

lemma layer_ops_head:
  assumes "c \<noteq> CHR ''l''"
  shows "(k, l, ins, c # s) \<notin> set (layer_ops i lp)"
proof
  assume "(k, l, ins, c # s) \<in> set (layer_ops i lp)"
  from layer_ops_layer [OF this, THEN conjunct2] obtain part where "c # s = layer_name i part" ..
  then have "hd (c # s) = hd (layer_name i part)" by (rule arg_cong)
  with assms show False by (simp add: layer_name_def)
qed

lemma epilogue_unique: "c \<noteq> CHR ''l'' \<Longrightarrow> c \<noteq> CHR ''e'' \<Longrightarrow>
  (k, l, ins, c # s) \<in> set (plan_ops p) \<longleftrightarrow> (k, l, ins, c # s) \<in> set (epilogue_ops p)"
  by (simp add: plan_ops_mem layer_ops_head prologue_ops_def)

lemma epilogue_distinct: "distinct (map (\<lambda>(k, l, ins, t). t) (epilogue_ops p))"
  by (simp add: epilogue_ops_def)

lemma epilogue_step:
  assumes "c # s \<in> live_tensors p" "(k, l, ins, c # s) \<in> set (epilogue_ops p)"
    and "c \<noteq> CHR ''l''" "c \<noteq> CHR ''e''"
  shows "set ins \<subseteq> live_tensors p"
proof (rule live_step [OF assms(1), of k l])
  show "(k, l, ins, c # s) \<in> set (plan_ops p)" using assms(2-4) by (simp add: epilogue_unique)
  show "ins' = ins" if "(k', l', ins', c # s) \<in> set (plan_ops p)" for k' l' ins'
    using that assms(2-4) epilogue_distinct [of p] by (fastforce simp: epilogue_unique distinct_map inj_on_def)
qed

lemma last_layer_live:
  assumes "pl_final_norm p \<noteq> 0"
  shows "last_layer p \<in> live_tensors p"
proof -
  have "''output_token'' \<in> live_tensors p"
    using reaches_refl assms by (fastforce simp: live_tensors_def from_plan_roots)
  then have a: "set (argmax_inputs p) \<subseteq> live_tensors p"
    using argmax_epilogue [OF assms] by (rule epilogue_step) simp_all
  have logits: "''final_norm_output'' \<in> live_tensors p"
    if "''output_projection_output'' \<in> live_tensors p" "pl_output_projection p \<noteq> None"
    using epilogue_step [OF that(1), of OutputProjection None "[''final_norm_output'']"] that(2) assms
    by (simp add: epilogue_ops_def)
  have cap: "''output_projection_output'' \<in> live_tensors p"
    if "''softcap_output'' \<in> live_tensors p" "pl_output_projection p \<noteq> None" "pl_softcapping p \<noteq> None"
    using epilogue_step [OF that(1), of Softcap None "[''output_projection_output'']"] that(2,3) assms
    by (simp add: epilogue_ops_def)
  have fin: "''final_norm_output'' \<in> live_tensors p"
    using a logits cap by (simp add: argmax_inputs_def split: if_splits)
  show ?thesis
    using epilogue_step [OF fin, of FinalNorm None "[last_layer p]"] assms
    by (simp add: epilogue_ops_def)
qed


lemma layer_output_live:
  assumes "layer_live p i" "i < length (pl_layers p)"
  shows "layer_name i ''output'' \<in> live_tensors p"
  using assms
proof (induction "length (pl_layers p) - i" arbitrary: i)
  case (Suc n)
  have s: "lp_down_proj (pl_layers p ! i) \<noteq> 0" "layer_live p (Suc i)"
    using Suc.prems layer_live_Suc by blast+
  show ?case
  proof (cases "Suc i < length (pl_layers p)")
    case True
    with Suc.hyps(1) [of "Suc i"] Suc.hyps(2) s(2) have "layer_name (Suc i) ''output'' \<in> live_tensors p" by simp
    moreover have "lp_down_proj (pl_layers p ! Suc i) \<noteq> 0" using s(2) True layer_live_Suc by blast
    ultimately have "layer_name (Suc i) ''post_attn'' \<in> live_tensors p"
      using output_residual_live(1) True by blast
    from post_attn_live(1) [OF True this] show ?thesis by (simp add: residual_in_def)
  next
    case False
    with Suc.prems have "last_layer p = layer_name i ''output''"
      by (auto simp: last_layer_def dest: less_antisym intro: arg_cong2 [of _ _ _ _ layer_name])
    with last_layer_live [of p] Suc.prems(1) show ?thesis by (simp add: layer_live_def)
  qed
qed simp

lemma weight_ops:
  "(QProj, l, ins, t) \<in> set (layer_ops i lp) \<longleftrightarrow> lp_q_proj lp \<noteq> 0 \<and> l = Some i \<and>
     ins = [layer_name i ''norm_out''] \<and> t = layer_name i ''q''"
  "(KProj, l, ins, t) \<in> set (layer_ops i lp) \<longleftrightarrow> lp_k_proj lp \<noteq> 0 \<and> l = Some i \<and>
     ins = [layer_name i ''norm_out''] \<and> t = layer_name i ''k''"
  "(VProj, l, ins, t) \<in> set (layer_ops i lp) \<longleftrightarrow> lp_v_proj lp \<noteq> 0 \<and> l = Some i \<and>
     ins = [layer_name i ''norm_out''] \<and> t = layer_name i ''v''"
  "(OProj, l, ins, t) \<in> set (layer_ops i lp) \<longleftrightarrow> lp_o_proj lp \<noteq> 0 \<and> l = Some i \<and>
     ins = [layer_name i ''attn''] \<and> t = layer_name i ''o''"
  "(GateProj, l, ins, t) \<in> set (layer_ops i lp) \<longleftrightarrow> lp_gate_proj lp \<noteq> 0 \<and> l = Some i \<and>
     ins = [layer_name i ''post_norm''] \<and> t = layer_name i ''gate''"
  "(UpProj, l, ins, t) \<in> set (layer_ops i lp) \<longleftrightarrow> lp_up_proj lp \<noteq> 0 \<and> l = Some i \<and>
     ins = [layer_name i ''post_norm''] \<and> t = layer_name i ''up''"
  by (auto simp: layer_ops_def attention_ops_def ffw_ops_def set_if_Nil simp del: if_split)

lemma down_op:
  "(DownProj, l, ins, t) \<in> set (layer_ops i lp) \<longleftrightarrow> lp_down_proj lp \<noteq> 0 \<and> l = Some i \<and>
     ins = [if lp_gate_proj lp \<noteq> 0 then layer_name i ''mul'' else layer_name i ''up''] \<and> t = layer_name i ''down''"
  by (auto simp: layer_ops_def attention_ops_def ffw_ops_def set_if_Nil simp del: if_split)

text \<open>A projection of a layer has a live output exactly if the layer is live, the gate only if there is
  an up projection.\<close>

lemma weight_live:
  assumes "i < length (pl_layers p)" "(k, l, ins, t) \<in> set (layer_ops i (pl_layers p ! i))"
    and "k \<in> {QProj, KProj, VProj, OProj, GateProj, UpProj, DownProj}"
  shows "t \<in> live_tensors p \<longleftrightarrow>
    layer_live p i \<and> (k = GateProj \<longrightarrow> lp_up_proj (pl_layers p ! i) \<noteq> 0)"
proof -
  let ?lp = "pl_layers p ! i"
  have up: "layer_live p i \<and> (part = ''gate'' \<longrightarrow> lp_up_proj ?lp \<noteq> 0)"
    if "layer_name i part \<in> live_tensors p" "part \<noteq> ''output''" for part
    using subsetD [OF live_can_live that(1)] that(2) by (simp add: can_live_layer)
  have d: "layer_name i ''post_attn'' \<in> live_tensors p" "layer_name i ''down'' \<in> live_tensors p"
    "lp_down_proj ?lp \<noteq> 0" if "layer_live p i"
    using output_residual_live [OF assms(1) layer_output_live [OF that assms(1)]] that
      layer_live_Suc [OF assms(1)] by blast+
  from assms(3) consider "k = QProj" | "k = KProj" | "k = VProj" | "k = OProj" | "k = GateProj"
    | "k = UpProj" | "k = DownProj" by auto
  then show ?thesis
  proof cases
    case 1
    with assms(2) up [of "''q''"] d qkv_live(1) [OF assms(1)] show ?thesis by (auto simp: weight_ops)
  next
    case 2
    with assms(2) up [of "''k''"] d qkv_live(2) [OF assms(1)] show ?thesis by (auto simp: weight_ops)
  next
    case 3
    with assms(2) up [of "''v''"] d qkv_live(3) [OF assms(1)] show ?thesis by (auto simp: weight_ops)
  next
    case 4
    with assms(2) up [of "''o''"] d post_attn_live(2) [OF assms(1)] show ?thesis by (auto simp: weight_ops)
  next
    case 5
    with assms(2) up [of "''gate''"] d ffw_live(2) [OF assms(1)] show ?thesis by (auto simp: weight_ops)
  next
    case 6
    with assms(2) up [of "''up''"] d ffw_live(1) [OF assms(1)] show ?thesis by (auto simp: weight_ops)
  next
    case 7
    with assms(2) up [of "''down''"] d show ?thesis by (auto simp: down_op)
  qed
qed


subsection \<open>The optimised plan\<close>

definition dead_kinds :: "op_node list \<Rightarrow> nat \<Rightarrow> op_kind list" where
  "dead_kinds ns i = map on_kind (filter (\<lambda>n. on_layer n = Some i \<and> on_is_dead n) ns)"

lemma length_fold_clear [simp]: "length (fold clear_node ns lps) = length lps"
  by (induction ns arbitrary: lps) (simp_all add: clear_node_def split: option.split)

lemma fold_clear_nth: "i < length lps \<Longrightarrow>
    fold clear_node ns lps ! i = fold clear_weight (dead_kinds ns i) (lps ! i)"
proof (induction ns arbitrary: lps)
  case (Cons n ns)
  have "length (clear_node n lps) = length lps" by (simp add: clear_node_def split: option.split)
  with Cons have "fold clear_node (n # ns) lps ! i = fold clear_weight (dead_kinds ns i) (clear_node n lps ! i)"
    by simp
  also have "clear_node n lps ! i =
      (if on_layer n = Some i \<and> on_is_dead n then clear_weight (on_kind n) (lps ! i) else lps ! i)"
    using Cons.prems by (auto simp: clear_node_def nth_list_update split: option.split)
  finally show ?case by (simp add: dead_kinds_def)
qed (simp add: dead_kinds_def)

lemma fold_clear_weight: "fold clear_weight ks lp =
    lp\<lparr>lp_q_proj := if QProj \<in> set ks then 0 else lp_q_proj lp,
       lp_k_proj := if KProj \<in> set ks then 0 else lp_k_proj lp,
       lp_v_proj := if VProj \<in> set ks then 0 else lp_v_proj lp,
       lp_o_proj := if OProj \<in> set ks then 0 else lp_o_proj lp,
       lp_gate_proj := if GateProj \<in> set ks then 0 else lp_gate_proj lp,
       lp_up_proj := if UpProj \<in> set ks then 0 else lp_up_proj lp,
       lp_down_proj := if DownProj \<in> set ks then 0 else lp_down_proj lp\<rparr>"
proof (induction ks arbitrary: lp)
  case (Cons k ks)
  then show ?case by (cases k) (simp_all add: clear_weight_def)
qed simp

lemma dead_kinds_mem:
  assumes "k \<in> {QProj, KProj, VProj, OProj, GateProj, UpProj, DownProj}" "i < length (pl_layers p)"
    and "gr_nodes g = map (mark_dead (live_tensors p)) (gr_nodes (from_plan p))"
  shows "k \<in> set (dead_kinds (gr_nodes g) i) \<longleftrightarrow>
    (\<exists>l ins t. (k, l, ins, t) \<in> set (layer_ops i (pl_layers p ! i))) \<and>
    \<not> (layer_live p i \<and> (k = GateProj \<longrightarrow> lp_up_proj (pl_layers p ! i) \<noteq> 0))"
proof
  assume "k \<in> set (dead_kinds (gr_nodes g) i)"
  then obtain n where n: "n \<in> set (gr_nodes (from_plan p))" "on_kind n = k" "on_layer n = Some i"
    and dead: "on_is_dead (mark_dead (live_tensors p) n)"
    by (auto simp: dead_kinds_def assms(3) mark_dead_def split: if_splits)
  note f = from_plan_node [OF n(1)]
  then obtain t where t: "on_outputs n = [t]" by blast
  have op: "(k, Some i, on_inputs n, t) \<in> set (plan_ops p)" using f n(2,3) t by simp
  have "(k, Some i, on_inputs n, t) \<notin> set (prologue_ops p)" "(k, Some i, on_inputs n, t) \<notin> set (epilogue_ops p)"
    by (simp_all add: prologue_ops_def epilogue_ops_def)
  with op obtain j where j: "(k, Some i, on_inputs n, t) \<in> set (layer_ops j (pl_layers p ! j))"
    unfolding plan_ops_mem by blast
  then have "j = i" using layer_ops_layer by blast
  with j have o: "(k, Some i, on_inputs n, t) \<in> set (layer_ops i (pl_layers p ! i))" by simp
  moreover have "t \<notin> live_tensors p" using dead f t by (simp add: mark_dead_def split: if_splits)
  ultimately show "(\<exists>l ins t. (k, l, ins, t) \<in> set (layer_ops i (pl_layers p ! i))) \<and>
      \<not> (layer_live p i \<and> (k = GateProj \<longrightarrow> lp_up_proj (pl_layers p ! i) \<noteq> 0))"
    using weight_live [OF assms(2) o assms(1)] by blast
next
  assume a: "(\<exists>l ins t. (k, l, ins, t) \<in> set (layer_ops i (pl_layers p ! i))) \<and>
      \<not> (layer_live p i \<and> (k = GateProj \<longrightarrow> lp_up_proj (pl_layers p ! i) \<noteq> 0))"
  then obtain l ins t where o: "(k, l, ins, t) \<in> set (layer_ops i (pl_layers p ! i))" by blast
  have l: "l = Some i" using layer_ops_layer [OF o] by simp
  have "(k, l, ins, t) \<in> set (plan_ops p)" using o assms(2) unfolding plan_ops_mem by blast
  then obtain n where n: "n \<in> set (gr_nodes (from_plan p))" "on_kind n = k" "on_layer n = l" "on_outputs n = [t]"
    using from_plan_op by blast
  have "t \<notin> live_tensors p" using weight_live [OF assms(2) o assms(1)] a by blast
  then have "on_is_dead (mark_dead (live_tensors p) n)" using n(4) by (simp add: mark_dead_def)
  moreover have "on_kind (mark_dead (live_tensors p) n) = k" "on_layer (mark_dead (live_tensors p) n) = Some i"
    using n l by (simp_all add: mark_dead_def)
  ultimately show "k \<in> set (dead_kinds (gr_nodes g) i)"
    using n(1) by (force simp: dead_kinds_def assms(3))
qed

lemma clear_layer:
  assumes "i < length (pl_layers p)"
    and "gr_nodes g = map (mark_dead (live_tensors p)) (gr_nodes (from_plan p))"
  shows "fold clear_weight (dead_kinds (gr_nodes g) i) (pl_layers p ! i) =
    keep_layer (layer_live p i) (pl_layers p ! i)"
proof -
  note m = dead_kinds_mem [OF _ assms]
  show ?thesis
    unfolding fold_clear_weight keep_layer_def by (simp add: m weight_ops down_op)
qed

text \<open>C34: Dead code elimination never panics and changes exactly this: a layer from which the output
  token is reached (there is a final norm, and this and every later layer has a down projection) keeps all
  its weights, but for the gate of a layer without up projection; every other layer loses all seven
  projections; the shape annotations of all layers go.\<close>
theorem dead_code_elimination_exact:
  "dead_code_elimination p = Some (p\<lparr>pl_layers := kept_layers p\<rparr>)"
proof -
  obtain g where g: "run_dead_code_elimination (from_plan p) = Some g"
    "gr_nodes g = map (mark_dead (live_tensors p)) (gr_nodes (from_plan p))"
    using dce_from_plan by blast
  have "map drop_shape_tags (fold clear_node (gr_nodes g) (pl_layers p)) = kept_layers p"
    by (rule nth_equalityI) (simp_all add: kept_layers_def fold_clear_nth clear_layer [OF _ g(2)])
  with g(1) show ?thesis by (simp add: dead_code_elimination_def apply_dce_to_plan_def)
qed

subsection \<open>Constant folding of a plan\<close>

lemma from_plan_fresh: "\<forall>n \<in> set (gr_nodes (from_plan p)). \<not> on_is_dead n \<and> \<not> on_is_constant n"
  using from_plan_ok [of p] by (simp add: graph_ok_def)

lemma folded_strip [simp]: "folded ns (strip n) = folded ns n"
  by (simp add: folded_def)

text \<open>Constant folding of a plan's graph marks a node constant exactly if it has inputs and all of
  them follow from what the code takes for constant, in the least sense; the constant tensors are exactly
  those that follow.\<close>
theorem constant_folding_exact:
  "map on_is_constant (gr_nodes (run_constant_folding (from_plan p))) =
     map (folded (gr_nodes (from_plan p))) (gr_nodes (from_plan p)) \<and>
   {t. input_constant (gr_constants (run_constant_folding (from_plan p))) t} =
     derivable (gr_nodes (from_plan p))"
proof -
  let ?ns = "gr_nodes (from_plan p)" and ?g = "run_constant_folding (from_plan p)"
  obtain ns' C' where f: "fold_constants ?ns {''input_ids''} = (ns', C')" by force
  have c: "gr_constants (from_plan p) = {}" using from_plan_ok [of p] by (simp add: graph_ok_def)
  have g: "gr_nodes ?g = ns'" "gr_constants ?g = C'"
    using f c by (simp_all add: run_constant_folding_def)
  note e = fold_constants_exact [OF from_plan_fresh [of p] f]
  have "map strip ns' = map strip ?ns" using fold_constants_strip [of ?ns "{''input_ids''}"] f by simp
  then have "map (folded ?ns) (map strip ns') = map (folded ?ns) (map strip ?ns)" by (rule arg_cong)
  then have "map (folded ?ns) ns' = map (folded ?ns) ?ns" by (simp add: o_def)
  moreover have "map on_is_constant ns' = map (folded ?ns) ns'" using e(1) by simp
  ultimately show ?thesis using e(3) g by auto
qed


subsection \<open>Shapes of a plan's graph\<close>

definition op_output :: "op \<Rightarrow> string" where
  "op_output x = snd (snd (snd x))"

lemma op_output_simp [simp]: "op_output (k, l, i, t) = t"
  by (simp add: op_output_def)






text \<open>A node is typed by a shape map that gives its output the node's declared shape; the output of the
  argmax may still have none.\<close>

definition typed :: "(string \<Rightarrow> u32 list option) \<Rightarrow> op_node \<Rightarrow> bool" where
  "typed shapes n \<longleftrightarrow> on_known_output_shape n \<noteq> None \<and>
     (shapes (hd (on_outputs n)) = on_known_output_shape n \<or>
      shapes (hd (on_outputs n)) = None \<and> on_kind n = Argmax)"

definition graph_typed :: "graph \<Rightarrow> bool" where
  "graph_typed g \<longleftrightarrow> (distinct (map op_output (graph_ops g)) \<longrightarrow> list_all (typed (gr_shapes g)) (gr_nodes g))
     \<and> gr_shapes g ''output_token'' = None"

lemma list_all_typed_fresh:
  assumes "list_all (typed shapes) ns" "t \<notin> (hd \<circ> on_outputs) ` set ns"
  shows "list_all (typed (shapes(t \<mapsto> s))) ns"
  using assms by (auto simp: list_all_iff typed_def)

lemma graph_outputs: "map op_output (graph_ops g) = map (hd \<circ> on_outputs) (gr_nodes g)"
  by (simp add: graph_ops_def op_of_def op_output_def o_def)

lemma emit_typed [simp]:
  assumes "graph_typed g" "t \<noteq> ''output_token''"
  shows "graph_typed (emit k l i t ish s g)"
proof -
  have sh: "gr_shapes (emit k l i t ish s g) = (gr_shapes g)(t \<mapsto> s)"
    by (simp add: emit_def add_op_node_def seed_shape_def Let_def)
  obtain n where n: "gr_nodes (emit k l i t ish s g) = gr_nodes g @ [n]" "on_outputs n = [t]"
    "on_known_output_shape n = Some s"
    by (simp add: emit_def add_op_node_def Let_def)
  show ?thesis
    using assms unfolding graph_typed_def graph_outputs sh n(1)
    by (auto simp: typed_def n intro!: list_all_typed_fresh)
qed


lemma heads_typed [simp]: "graph_typed (g\<lparr>gr_n_heads := a, gr_n_kv_heads := b, gr_head_dim := c,
     gr_global_head_dim := d, gr_n_global_kv_heads := e\<rparr>) = graph_typed g"
  by (simp add: graph_typed_def)


lemma layer_name_token [simp]: "layer_name i part \<noteq> ''output_token''"
  by simp













end
