(* ===== verification/GrammarNfa.thy ===== *)
theory GrammarNfa
  imports Prelude
begin

text \<open>
  Grammar syntax trees and their compilation to a nondeterministic automaton (\<open>grammar.rs\<close>): the nodes
  of a grammar, the automaton's states and fragments, and one compilation function per kind of node.

  A Rust \<open>char\<close> is a Unicode scalar value and is modelled by its code point; a string is the list of
  its characters.  The map of rules is an association list, newest first.  Pushing to a state that does not
  exist would panic; \<open>compile_wf\<close> shows that it never happens, so \<open>add_transition\<close> updates the list.
\<close>

subsection \<open>Syntax trees\<close>

type_synonym uchar = nat

datatype gnode =
    Lit "uchar list"
  | CharClass "(uchar \<times> uchar) list" bool
  | AnyChar
  | Seq "gnode list"
  | Alt "gnode list"
  | Star gnode
  | Plus gnode
  | Opt gnode
  | Ref "uchar list"
  | HexByte u8

record grammar =
  gm_rules :: "(uchar list \<times> gnode) list"
  gm_root :: "uchar list"

datatype compile_error = CircularRule "uchar list list" | UndefinedRule "uchar list"

text \<open>\<open>char::from_u32\<close>: the code points that are no surrogates.\<close>

definition is_scalar :: "nat \<Rightarrow> bool" where
  "is_scalar c \<longleftrightarrow> c < 0xD800 \<or> 0xE000 \<le> c \<and> c < 0x110000"

definition char_range :: "nat \<Rightarrow> nat \<Rightarrow> uchar list" where
  "char_range a b = filter is_scalar [a..<Suc b]"

subsection \<open>Automaton fragments\<close>

record nfa_state =
  ns_transitions :: "(uchar option \<times> nat) list"
  ns_accept :: bool

record nfa =
  nf_states :: "nfa_state list"
  nf_start :: nat
  nf_accept :: nat

definition nfa_new :: nfa where
  "nfa_new = \<lparr>nf_states = [\<lparr>ns_transitions = [], ns_accept = False\<rparr>,
                         \<lparr>ns_transitions = [], ns_accept = True\<rparr>],
             nf_start = 0, nf_accept = 1\<rparr>"

definition add_state :: "bool \<Rightarrow> nfa \<Rightarrow> nat \<times> nfa" where
  "add_state acc A = (length (nf_states A),
     A\<lparr>nf_states := nf_states A @ [\<lparr>ns_transitions = [], ns_accept = acc\<rparr>]\<rparr>)"

definition add_transition :: "nat \<Rightarrow> uchar option \<Rightarrow> nat \<Rightarrow> nfa \<Rightarrow> nfa" where
  "add_transition src ch dst A = A\<lparr>nf_states := (nf_states A)[src :=
     (nf_states A ! src)\<lparr>ns_transitions := ns_transitions (nf_states A ! src) @ [(ch, dst)]\<rparr>]\<rparr>"

definition add_epsilon :: "nat \<Rightarrow> nat \<Rightarrow> nfa \<Rightarrow> nfa" where
  "add_epsilon src dst = add_transition src None dst"

definition add_char :: "nat \<Rightarrow> uchar \<Rightarrow> nat \<Rightarrow> nfa \<Rightarrow> nfa" where
  "add_char src ch dst = add_transition src (Some ch) dst"

definition set_accept :: "nat \<Rightarrow> bool \<Rightarrow> nfa \<Rightarrow> nfa" where
  "set_accept s b A = A\<lparr>nf_states := (nf_states A)[s := (nf_states A ! s)\<lparr>ns_accept := b\<rparr>]\<rparr>"

subsection \<open>Compilation\<close>

definition epsilon_fragment :: nfa where
  "epsilon_fragment = add_epsilon 0 1 nfa_new"

text \<open>The chain of a literal: one new state per character.\<close>

fun lit_chain :: "uchar list \<Rightarrow> nat \<Rightarrow> nfa \<Rightarrow> nat \<times> nfa" where
  "lit_chain [] prev A = (prev, A)"
| "lit_chain (c # cs) prev A =
     (case add_state False A of (dst, A1) \<Rightarrow> lit_chain cs dst (add_char prev c dst A1))"

definition compile_lit :: "uchar list \<Rightarrow> nfa" where
  "compile_lit s = (
     if s = [] then epsilon_fragment
     else case lit_chain s (nf_start nfa_new) nfa_new of
       (prev, A) \<Rightarrow> (set_accept prev True (set_accept (nf_start A) False A))\<lparr>nf_accept := prev\<rparr>)"

definition class_universe :: "uchar list" where
  "class_universe = [0x20..<0x7F] @ [9, 10, 13, 0xA0, 0x200B, 0x200C, 0x200D, 0xFEFF]"

definition range_chars :: "uchar \<times> uchar \<Rightarrow> uchar list" where
  "range_chars r = (if fst r = snd r then [fst r] else char_range (fst r) (snd r))"

definition class_chars :: "(uchar \<times> uchar) list \<Rightarrow> bool \<Rightarrow> uchar list" where
  "class_chars ranges negated = (
     if negated then filter (\<lambda>c. c \<notin> set (concat (map range_chars ranges))) class_universe
     else concat (map range_chars ranges))"

text \<open>A fragment that reads one of the given characters.\<close>

definition compile_chars :: "uchar list \<Rightarrow> nfa" where
  "compile_chars cs = (
     case add_state True (set_accept 0 False nfa_new) of
       (acc, A) \<Rightarrow> (fold (\<lambda>c. add_char (nf_start A) c acc) cs A)\<lparr>nf_accept := acc\<rparr>)"

definition compile_char_class :: "(uchar \<times> uchar) list \<Rightarrow> bool \<Rightarrow> nfa" where
  "compile_char_class ranges negated = compile_chars (class_chars ranges negated)"

definition compile_any :: nfa where
  "compile_any = compile_chars class_universe"

definition shift_state :: "nat \<Rightarrow> nfa_state \<Rightarrow> nfa_state" where
  "shift_state k s = s\<lparr>ns_transitions := map (\<lambda>(ch, t). (ch, t + k)) (ns_transitions s)\<rparr>"

text \<open>One step of a sequence: the next fragment, shifted, behind what there is.\<close>

definition seq_append :: "nfa \<Rightarrow> nfa \<Rightarrow> nfa" where
  "seq_append A B = (
     let n = length (nf_states A);
         A1 = add_epsilon (nf_accept A) (nf_start B + (n - max (length (nf_states B)) 1)) A;
         A2 = A1\<lparr>nf_states := nf_states A1 @ map (shift_state n) (nf_states B)\<rparr>
     in (add_epsilon (nf_accept A) n (set_accept (nf_accept A) False A2))
          \<lparr>nf_accept := n + (nf_accept B - nf_start B)\<rparr>)"

definition append_states :: "nfa \<Rightarrow> nfa \<Rightarrow> nfa" where
  "append_states A B = A\<lparr>nf_states := nf_states A @ nf_states B\<rparr>"

definition alt_append :: "nfa \<Rightarrow> nfa \<Rightarrow> nfa" where
  "alt_append A B = (
     let k = length (nf_states A)
     in add_epsilon (k + nf_accept B) (nf_accept A)
          (set_accept (k + nf_accept B) False
             (add_epsilon (nf_start A) (k + nf_start B) (append_states A B))))"

definition star_of :: "nfa \<Rightarrow> nfa" where
  "star_of B = (
     let k = length (nf_states nfa_new)
     in add_epsilon (k + nf_accept B) 1
          (add_epsilon (k + nf_accept B) (k + nf_start B)
             (set_accept (k + nf_accept B) False
                (add_epsilon 0 (k + nf_start B) (add_epsilon 0 1 (append_states nfa_new B))))))"

definition plus_of :: "nfa \<Rightarrow> nfa" where
  "plus_of B = (
     let k = length (nf_states nfa_new)
     in add_epsilon (k + nf_accept B) 1
          (add_epsilon (k + nf_accept B) (k + nf_start B)
             (set_accept (k + nf_accept B) False
                (add_epsilon 0 (k + nf_start B) (append_states nfa_new B)))))"

definition opt_of :: "nfa \<Rightarrow> nfa" where
  "opt_of B = (
     let k = length (nf_states nfa_new)
     in add_epsilon (k + nf_accept B) 1
          (set_accept (k + nf_accept B) False
             (add_epsilon 0 (k + nf_start B) (append_states (add_epsilon 0 1 nfa_new) B))))"

text \<open>Rules not being compiled yet.\<close>

definition open_rules :: "(uchar list \<times> gnode) list \<Rightarrow> uchar list list \<Rightarrow> nat" where
  "open_rules rs vs = card (set (map fst rs) - set vs)"

lemma open_rules_less:
  assumes "map_of rs r = Some n" "r \<notin> set vs"
  shows "open_rules rs (vs @ [r]) < open_rules rs vs"
proof -
  have "r \<in> set (map fst rs)" using assms(1) by (metis map_of_eq_None_iff option.distinct(1) set_map)
  then have "set (map fst rs) - set (vs @ [r]) \<subset> set (map fst rs) - set vs" using assms(2) by auto
  then show ?thesis unfolding open_rules_def by (rule psubset_card_mono [rotated]) simp
qed

text \<open>The recursion over the tree.  A reference is followed unless its rule is being compiled already
  (\<open>visited\<close>); this and the size of the node make the recursion end.\<close>

function (sequential) compile_node ::
    "(uchar list \<times> gnode) list \<Rightarrow> uchar list list \<Rightarrow> gnode \<Rightarrow> compile_error + nfa"
  and compile_seq ::
    "(uchar list \<times> gnode) list \<Rightarrow> uchar list list \<Rightarrow> nfa \<Rightarrow> gnode list \<Rightarrow> compile_error + nfa"
  and compile_alt ::
    "(uchar list \<times> gnode) list \<Rightarrow> uchar list list \<Rightarrow> nfa \<Rightarrow> gnode list \<Rightarrow> compile_error + nfa"
  and compile_ref ::
    "(uchar list \<times> gnode) list \<Rightarrow> uchar list list \<Rightarrow> uchar list \<Rightarrow> compile_error + nfa"
where
  "compile_node rs vs (Lit s) = Inr (compile_lit s)"
| "compile_node rs vs (CharClass ranges negated) = Inr (compile_char_class ranges negated)"
| "compile_node rs vs AnyChar = Inr compile_any"
| "compile_node rs vs (Seq []) = Inr epsilon_fragment"
| "compile_node rs vs (Seq (n # ns)) = (case compile_node rs vs n of
      Inl e \<Rightarrow> Inl e
    | Inr A \<Rightarrow> compile_seq rs vs A ns)"
| "compile_node rs vs (Alt []) = Inr epsilon_fragment"
| "compile_node rs vs (Alt (n # ns)) = compile_alt rs vs nfa_new (n # ns)"
| "compile_node rs vs (Star n) = map_sum id star_of (compile_node rs vs n)"
| "compile_node rs vs (Plus n) = map_sum id plus_of (compile_node rs vs n)"
| "compile_node rs vs (Opt n) = map_sum id opt_of (compile_node rs vs n)"
| "compile_node rs vs (Ref r) = compile_ref rs vs r"
| "compile_node rs vs (HexByte b) = Inr (compile_lit [unat b])"
| "compile_seq rs vs A [] = Inr A"
| "compile_seq rs vs A (n # ns) = (case compile_node rs vs n of
      Inl e \<Rightarrow> Inl e
    | Inr B \<Rightarrow> compile_seq rs vs (seq_append A B) ns)"
| "compile_alt rs vs A [] = Inr A"
| "compile_alt rs vs A (n # ns) = (case compile_node rs vs n of
      Inl e \<Rightarrow> Inl e
    | Inr B \<Rightarrow> compile_alt rs vs (alt_append A B) ns)"
| "compile_ref rs vs r = (
     if r \<in> set vs then Inl (CircularRule vs)
     else case map_of rs r of
       None \<Rightarrow> Inl (UndefinedRule r)
     | Some n \<Rightarrow> compile_node rs (vs @ [r]) n)"
  by pat_completeness auto

termination
proof (relation "inv_image (less_than <*lex*> less_than) (\<lambda>x. case x of
      Inl (Inl (rs, vs, n)) \<Rightarrow> (open_rules rs vs, 2 * size n + 1)
    | Inl (Inr (rs, vs, A, ns)) \<Rightarrow> (open_rules rs vs, 2 * size_list size ns)
    | Inr (Inl (rs, vs, A, ns)) \<Rightarrow> (open_rules rs vs, 2 * size_list size ns)
    | Inr (Inr (rs, vs, r)) \<Rightarrow> (open_rules rs vs, 0))")
qed (auto simp: open_rules_less)


subsection \<open>Runs of an automaton\<close>

inductive nfa_path :: "nfa_state list \<Rightarrow> nat \<Rightarrow> uchar list \<Rightarrow> nat \<Rightarrow> bool" for N where
  path_refl: "nfa_path N p [] p"
| path_eps: "p < length N \<Longrightarrow> (None, q) \<in> set (ns_transitions (N ! p)) \<Longrightarrow> nfa_path N q w r \<Longrightarrow> nfa_path N p w r"
| path_char: "p < length N \<Longrightarrow> (Some c, q) \<in> set (ns_transitions (N ! p)) \<Longrightarrow> nfa_path N q w r \<Longrightarrow>
    nfa_path N p (c # w) r"

lemma path_append: "nfa_path N p u q \<Longrightarrow> nfa_path N q w r \<Longrightarrow> nfa_path N p (u @ w) r"
  by (induction rule: nfa_path.induct) (auto intro: nfa_path.intros)

definition nfa_accepts :: "nfa_state list \<Rightarrow> nat \<Rightarrow> uchar list \<Rightarrow> bool" where
  "nfa_accepts N p w \<longleftrightarrow> (\<exists>q. nfa_path N p w q \<and> q < length N \<and> ns_accept (N ! q))"

text \<open>Every transition leads to a state.\<close>

definition nfa_closed :: "nfa_state list \<Rightarrow> bool" where
  "nfa_closed N \<longleftrightarrow> (\<forall>s < length N. \<forall>x \<in> set (ns_transitions (N ! s)). snd x < length N)"

lemma closedD: "nfa_closed N \<Longrightarrow> s < length N \<Longrightarrow> (c, t) \<in> set (ns_transitions (N ! s)) \<Longrightarrow> t < length N"
  unfolding nfa_closed_def by fastforce

lemma path_bound: "nfa_path N p w q \<Longrightarrow> nfa_closed N \<Longrightarrow> p < length N \<Longrightarrow> q < length N"
  by (induction rule: nfa_path.induct) (blast dest: closedD)+

subsection \<open>Compiled fragments are well formed\<close>

definition frag_ok :: "nfa \<Rightarrow> bool" where
  "frag_ok A \<longleftrightarrow> nf_start A = 0 \<and> nf_accept A < length (nf_states A) \<and>
     nfa_closed (nf_states A) \<and> ns_accept (nf_states A ! nf_accept A)"

lemma list_update_nth: "xs[i := x] ! j = (if i = j \<and> j < length xs then x else xs ! j)"
  by (cases "i = j"; cases "j < length xs") (simp_all add: list_update_beyond)

lemma add_transition_simps [simp]:
  "nf_start (add_transition p c q A) = nf_start A" "nf_accept (add_transition p c q A) = nf_accept A"
  "length (nf_states (add_transition p c q A)) = length (nf_states A)"
  "ns_accept (nf_states (add_transition p c q A) ! s) = ns_accept (nf_states A ! s)"
  by (simp_all add: add_transition_def list_update_nth)

lemma set_accept_simps [simp]:
  "nf_start (set_accept s b A) = nf_start A" "nf_accept (set_accept s b A) = nf_accept A"
  "length (nf_states (set_accept s b A)) = length (nf_states A)"
  "ns_transitions (nf_states (set_accept s b A) ! t) = ns_transitions (nf_states A ! t)"
  "ns_accept (nf_states (set_accept s b A) ! t) =
     (if s = t \<and> t < length (nf_states A) then b else ns_accept (nf_states A ! t))"
  by (simp_all add: set_accept_def list_update_nth)

lemma add_state_simps [simp]:
  "fst (add_state b A) = length (nf_states A)"
  "nf_start (snd (add_state b A)) = nf_start A" "nf_accept (snd (add_state b A)) = nf_accept A"
  "nf_states (snd (add_state b A)) = nf_states A @ [\<lparr>ns_transitions = [], ns_accept = b\<rparr>]"
  by (simp_all add: add_state_def)

lemma add_transition_trans: "p < length (nf_states A) \<Longrightarrow>
    ns_transitions (nf_states (add_transition p c q A) ! s) =
    ns_transitions (nf_states A ! s) @ (if s = p then [(c, q)] else [])"
  by (simp add: add_transition_def list_update_nth)

lemma closed_add_transition: "nfa_closed (nf_states A) \<Longrightarrow> p < length (nf_states A) \<Longrightarrow>
    q < length (nf_states A) \<Longrightarrow> nfa_closed (nf_states (add_transition p c q A))"
  by (auto simp: nfa_closed_def add_transition_trans)

lemma closed_set_accept [simp]: "nfa_closed (nf_states (set_accept s b A)) = nfa_closed (nf_states A)"
  by (simp add: nfa_closed_def)

lemma append_states_simps [simp]:
  "nf_start (append_states A B) = nf_start A" "nf_accept (append_states A B) = nf_accept A"
  "length (nf_states (append_states A B)) = length (nf_states A) + length (nf_states B)"
  "s < length (nf_states A) \<Longrightarrow> nf_states (append_states A B) ! s = nf_states A ! s"
  "length (nf_states A) \<le> s \<Longrightarrow>
     nf_states (append_states A B) ! s = nf_states B ! (s - length (nf_states A))"
  by (simp_all add: append_states_def nth_append)

lemma closed_append_states:
  assumes "nfa_closed (nf_states A)" "nfa_closed (nf_states B)"
  shows "nfa_closed (nf_states (append_states A B))"
  unfolding nfa_closed_def
proof (intro allI impI ballI)
  fix s x
  assume s: "s < length (nf_states (append_states A B))"
    and x: "x \<in> set (ns_transitions (nf_states (append_states A B) ! s))"
  show "snd x < length (nf_states (append_states A B))"
  proof (cases "s < length (nf_states A)")
    case True
    with x assms(1) show ?thesis by (auto simp: nfa_closed_def intro: trans_less_add1)
  next
    case False
    with s have "s - length (nf_states A) < length (nf_states B)" by simp
    with x False assms(2) show ?thesis by (auto simp: nfa_closed_def intro: trans_less_add2)
  qed
qed

lemma states_Nil [simp]:
  "nf_states (add_transition p c q A) = [] \<longleftrightarrow> nf_states A = []"
  "nf_states (set_accept t b A) = [] \<longleftrightarrow> nf_states A = []"
  "nf_states (append_states A B) = [] \<longleftrightarrow> nf_states A = [] \<and> nf_states B = []"
  "nf_states nfa_new \<noteq> []"
  by (simp_all add: add_transition_def set_accept_def append_states_def nfa_new_def)

lemma nfa_new_simps [simp]: "nf_start nfa_new = 0" "nf_accept nfa_new = 1" "length (nf_states nfa_new) = 2"
  "ns_accept (nf_states nfa_new ! Suc 0)"
  by (simp_all add: nfa_new_def)

lemma nfa_new_closed [simp]: "nfa_closed (nf_states nfa_new)"
  by (auto simp: nfa_new_def nfa_closed_def less_Suc_eq)

lemma nfa_new_ok: "frag_ok nfa_new"
  by (simp add: frag_ok_def)

lemmas fragment_defs = frag_ok_def alt_append_def star_of_def plus_of_def opt_of_def epsilon_fragment_def
  Let_def add_epsilon_def add_char_def

lemma epsilon_fragment_ok: "frag_ok epsilon_fragment"
  by (simp add: fragment_defs closed_add_transition)

lemma alt_append_ok: "frag_ok A \<Longrightarrow> frag_ok B \<Longrightarrow> frag_ok (alt_append A B)"
  by (auto simp: fragment_defs simp del: length_greater_0_conv
    intro!: closed_add_transition closed_append_states)

lemma star_of_ok: "frag_ok B \<Longrightarrow> frag_ok (star_of B)"
  by (auto simp: fragment_defs simp del: length_greater_0_conv
    intro!: closed_add_transition closed_append_states)

lemma plus_of_ok: "frag_ok B \<Longrightarrow> frag_ok (plus_of B)"
  by (auto simp: fragment_defs simp del: length_greater_0_conv
    intro!: closed_add_transition closed_append_states)

lemma opt_of_ok: "frag_ok B \<Longrightarrow> frag_ok (opt_of B)"
  by (auto simp: fragment_defs simp del: length_greater_0_conv
    intro!: closed_add_transition closed_append_states)


lemma lit_chain_spec:
  assumes "prev < length (nf_states A)"
  shows "\<exists>A'. lit_chain cs prev A = (if cs = [] then prev else length (nf_states A) + length cs - 1, A') \<and>
    nf_start A' = nf_start A \<and> nf_accept A' = nf_accept A \<and>
    length (nf_states A') = length (nf_states A) + length cs \<and>
    (\<forall>j < length (nf_states A). ns_accept (nf_states A' ! j) = ns_accept (nf_states A ! j) \<and>
       ns_transitions (nf_states A' ! j) = ns_transitions (nf_states A ! j) @
         (if j = prev \<and> cs \<noteq> [] then [(Some (hd cs), length (nf_states A))] else [])) \<and>
    (\<forall>i < length cs. \<not> ns_accept (nf_states A' ! (length (nf_states A) + i)) \<and>
       ns_transitions (nf_states A' ! (length (nf_states A) + i)) =
         (if Suc i < length cs then [(Some (cs ! Suc i), length (nf_states A) + Suc i)] else []))"
  using assms
proof (induction cs arbitrary: prev A)
  case (Cons c cs)
  let ?n = "length (nf_states A)"
  define A1 where "A1 = add_char prev c ?n (snd (add_state False A))"
  have A1: "length (nf_states A1) = Suc ?n" "nf_start A1 = nf_start A" "nf_accept A1 = nf_accept A"
    by (simp_all add: A1_def add_char_def)
  have old: "ns_accept (nf_states A1 ! j) = ns_accept (nf_states A ! j)"
    "ns_transitions (nf_states A1 ! j) = ns_transitions (nf_states A ! j) @ (if j = prev then [(Some c, ?n)] else [])"
    if "j < ?n" for j
    using that Cons.prems by (simp_all add: A1_def add_char_def add_transition_trans nth_append)
  have new: "\<not> ns_accept (nf_states A1 ! ?n)" "ns_transitions (nf_states A1 ! ?n) = []"
    using Cons.prems by (simp_all add: A1_def add_char_def add_transition_trans nth_append)
  have step: "lit_chain (c # cs) prev A = lit_chain cs ?n A1"
    by (simp add: A1_def add_state_def)
  obtain A' where A': "lit_chain cs ?n A1 = (if cs = [] then ?n else Suc ?n + length cs - 1, A')"
    "nf_start A' = nf_start A" "nf_accept A' = nf_accept A" "length (nf_states A') = Suc ?n + length cs"
    "\<And>j. j < Suc ?n \<Longrightarrow> ns_accept (nf_states A' ! j) = ns_accept (nf_states A1 ! j) \<and>
       ns_transitions (nf_states A' ! j) = ns_transitions (nf_states A1 ! j) @
         (if j = ?n \<and> cs \<noteq> [] then [(Some (hd cs), Suc ?n)] else [])"
    "\<And>i. i < length cs \<Longrightarrow> \<not> ns_accept (nf_states A' ! (Suc ?n + i)) \<and>
       ns_transitions (nf_states A' ! (Suc ?n + i)) =
         (if Suc i < length cs then [(Some (cs ! Suc i), Suc ?n + Suc i)] else [])"
    using Cons.IH [of ?n A1] A1 by auto
  have tail: "\<not> ns_accept (nf_states A' ! (?n + i)) \<and> ns_transitions (nf_states A' ! (?n + i)) =
      (if Suc i < length (c # cs) then [(Some ((c # cs) ! Suc i), ?n + Suc i)] else [])"
    if "i < length (c # cs)" for i
  proof (cases i)
    case 0
    with A'(5) [of ?n] new show ?thesis by (cases cs) simp_all
  next
    case (Suc k)
    with A'(6) [of k] that show ?thesis by simp
  qed
  have body: "ns_accept (nf_states A' ! j) = ns_accept (nf_states A ! j) \<and>
      ns_transitions (nf_states A' ! j) = ns_transitions (nf_states A ! j) @
        (if j = prev \<and> c # cs \<noteq> [] then [(Some (hd (c # cs)), ?n)] else [])" if "j < ?n" for j
    using that A'(5) [of j] old [of j] by simp
  have "(if cs = [] then ?n else Suc ?n + length cs - 1) =
      (if c # cs = [] then prev else ?n + length (c # cs) - 1)" by simp
  with step A'(1-4) tail body show ?case by (intro exI [of _ A']) simp
qed simp

lemma compile_lit_states:
  assumes "s \<noteq> []"
  shows "nf_start (compile_lit s) = 0" "nf_accept (compile_lit s) = Suc (length s)"
    "length (nf_states (compile_lit s)) = Suc (Suc (length s))"
    "ns_transitions (nf_states (compile_lit s) ! 0) = [(Some (hd s), 2)]"
    "ns_transitions (nf_states (compile_lit s) ! 1) = []"
    "\<And>i. i < length s \<Longrightarrow> ns_transitions (nf_states (compile_lit s) ! Suc (Suc i)) =
       (if Suc i < length s then [(Some (s ! Suc i), Suc (Suc (Suc i)))] else [])"
    "\<And>j. j < Suc (Suc (length s)) \<Longrightarrow> ns_accept (nf_states (compile_lit s) ! j) \<longleftrightarrow> j = 1 \<or> j = Suc (length s)"
proof -
  obtain A where A: "lit_chain s 0 nfa_new = (Suc (length s), A)"
    "nf_start A = 0" "length (nf_states A) = Suc (Suc (length s))"
    "\<And>j. j < 2 \<Longrightarrow> ns_accept (nf_states A ! j) = ns_accept (nf_states nfa_new ! j) \<and>
       ns_transitions (nf_states A ! j) = ns_transitions (nf_states nfa_new ! j) @
         (if j = 0 then [(Some (hd s), 2)] else [])"
    "\<And>i. i < length s \<Longrightarrow> \<not> ns_accept (nf_states A ! Suc (Suc i)) \<and>
       ns_transitions (nf_states A ! Suc (Suc i)) =
         (if Suc i < length s then [(Some (s ! Suc i), Suc (Suc (Suc i)))] else [])"
    using lit_chain_spec [of 0 nfa_new s] assms by auto
  have c: "compile_lit s = (set_accept (Suc (length s)) True (set_accept 0 False A))\<lparr>nf_accept := Suc (length s)\<rparr>"
    using assms A(1,2) by (simp add: compile_lit_def)
  show "nf_start (compile_lit s) = 0" "nf_accept (compile_lit s) = Suc (length s)"
    "length (nf_states (compile_lit s)) = Suc (Suc (length s))"
    using A(2,3) by (simp_all add: c)
  show "ns_transitions (nf_states (compile_lit s) ! 0) = [(Some (hd s), 2)]"
    "ns_transitions (nf_states (compile_lit s) ! 1) = []"
    using A(4) [of 0] A(4) [of 1] by (simp_all add: c) (simp_all add: nfa_new_def)
  show "ns_transitions (nf_states (compile_lit s) ! Suc (Suc i)) =
       (if Suc i < length s then [(Some (s ! Suc i), Suc (Suc (Suc i)))] else [])" if "i < length s" for i
    using A(5) [OF that] by (simp add: c)
  show "ns_accept (nf_states (compile_lit s) ! j) \<longleftrightarrow> j = 1 \<or> j = Suc (length s)"
    if j: "j < Suc (Suc (length s))" for j
  proof (cases "j < 2")
    case True
    then have "j = 0 \<or> j = 1" by auto
    with A(4) [of j] A(3) j assms show ?thesis by (auto simp: c nfa_new_def)
  next
    case False
    then obtain i where "j = Suc (Suc i)" by (metis add_2_eq_Suc le_Suc_ex not_less)
    with A(5) [of i] A(3) j show ?thesis by (simp add: c)
  qed
qed


lemma fold_add_char:
  assumes "p < length (nf_states A)"
  shows "length (nf_states (fold (\<lambda>c. add_char p c q) cs A)) = length (nf_states A)"
    "nf_start (fold (\<lambda>c. add_char p c q) cs A) = nf_start A"
    "ns_accept (nf_states (fold (\<lambda>c. add_char p c q) cs A) ! j) = ns_accept (nf_states A ! j)"
    "ns_transitions (nf_states (fold (\<lambda>c. add_char p c q) cs A) ! j) =
       ns_transitions (nf_states A ! j) @ (if j = p then map (\<lambda>c. (Some c, q)) cs else [])"
  using assms by (induction cs arbitrary: A) (simp_all add: add_char_def add_transition_trans)

lemma compile_chars_states:
  "nf_start (compile_chars cs) = 0" "nf_accept (compile_chars cs) = 2"
  "length (nf_states (compile_chars cs)) = 3"
  "ns_transitions (nf_states (compile_chars cs) ! 0) = map (\<lambda>c. (Some c, 2)) cs"
  "ns_transitions (nf_states (compile_chars cs) ! 1) = []"
  "ns_transitions (nf_states (compile_chars cs) ! 2) = []"
  "ns_accept (nf_states (compile_chars cs) ! 0) = False"
  "ns_accept (nf_states (compile_chars cs) ! 2)"
proof -
  define A where "A = snd (add_state True (set_accept 0 False nfa_new))"
  have A: "nf_states A = [\<lparr>ns_transitions = [], ns_accept = False\<rparr>, \<lparr>ns_transitions = [], ns_accept = True\<rparr>,
      \<lparr>ns_transitions = [], ns_accept = True\<rparr>]" "nf_start A = 0"
    by (simp_all add: A_def add_state_def set_accept_def nfa_new_def)
  have c: "compile_chars cs = (fold (\<lambda>c. add_char 0 c 2) cs A)\<lparr>nf_accept := 2\<rparr>"
    by (simp add: compile_chars_def A_def add_state_def set_accept_def nfa_new_def numeral_2_eq_2)
  have "(0::nat) < length (nf_states A)" by (simp add: A)
  note f = fold_add_char [OF this]
  show "nf_start (compile_chars cs) = 0" "nf_accept (compile_chars cs) = 2"
    "length (nf_states (compile_chars cs)) = 3"
    "ns_transitions (nf_states (compile_chars cs) ! 0) = map (\<lambda>c. (Some c, 2)) cs"
    "ns_transitions (nf_states (compile_chars cs) ! 1) = []"
    "ns_transitions (nf_states (compile_chars cs) ! 2) = []"
    "ns_accept (nf_states (compile_chars cs) ! 0) = False"
    "ns_accept (nf_states (compile_chars cs) ! 2)"
    by (simp_all add: c f A)
qed

lemma compile_chars_ok: "frag_ok (compile_chars cs)"
  using compile_chars_states [of cs]
  by (auto simp: frag_ok_def nfa_closed_def less_Suc_eq numeral_eq_Suc)

lemma compile_lit_ok: "frag_ok (compile_lit s)"
proof (cases "s = []")
  case True
  then show ?thesis by (simp add: compile_lit_def epsilon_fragment_ok)
next
  case False
  note c = compile_lit_states [OF False]
  have "snd x < Suc (Suc (length s))"
    if j: "j < Suc (Suc (length s))" and x: "x \<in> set (ns_transitions (nf_states (compile_lit s) ! j))" for j x
  proof -
    consider "j = 0" | "j = 1" | i where "j = Suc (Suc i)" "i < length s"
      using j by (metis One_nat_def not0_implies_Suc Suc_less_eq)
    then show ?thesis
    proof cases
      case 1
      with x c(4) False show ?thesis by simp
    next
      case 2
      with x c(5) show ?thesis by simp
    next
      case 3
      with x c(6) [of i] show ?thesis by (auto split: if_splits)
    qed
  qed
  with c(1-3) c(7) [of "Suc (length s)"] show ?thesis by (simp add: frag_ok_def nfa_closed_def)
qed

lemma seq_append_states:
  assumes "frag_ok A" "frag_ok B"
  shows "nf_start (seq_append A B) = 0" "nf_accept (seq_append A B) = length (nf_states A) + nf_accept B"
    "length (nf_states (seq_append A B)) = length (nf_states A) + length (nf_states B)"
    "\<And>j. j < length (nf_states A) \<Longrightarrow> ns_transitions (nf_states (seq_append A B) ! j) =
       ns_transitions (nf_states A ! j) @ (if j = nf_accept A
         then [(None, length (nf_states A) - length (nf_states B)), (None, length (nf_states A))] else [])"
    "\<And>j. j < length (nf_states B) \<Longrightarrow> ns_transitions (nf_states (seq_append A B) ! (length (nf_states A) + j)) =
       map (\<lambda>(ch, t). (ch, t + length (nf_states A))) (ns_transitions (nf_states B ! j))"
    "\<And>j. j < length (nf_states A) \<Longrightarrow> ns_accept (nf_states (seq_append A B) ! j) \<longleftrightarrow>
       ns_accept (nf_states A ! j) \<and> j \<noteq> nf_accept A"
    "\<And>j. j < length (nf_states B) \<Longrightarrow> ns_accept (nf_states (seq_append A B) ! (length (nf_states A) + j)) =
       ns_accept (nf_states B ! j)"
proof -
  let ?n = "length (nf_states A)" and ?m = "length (nf_states B)"
  let ?A1 = "add_epsilon (nf_accept A) (?n - ?m) A"
  let ?A2 = "?A1\<lparr>nf_states := nf_states ?A1 @ map (shift_state ?n) (nf_states B)\<rparr>"
  have a: "nf_start A = 0" "nf_accept A < ?n" "nf_start B = 0" "nf_accept B < ?m"
    using assms by (simp_all add: frag_ok_def)
  then have "max ?m 1 = ?m" by simp
  then have s: "seq_append A B =
      (add_epsilon (nf_accept A) ?n (set_accept (nf_accept A) False ?A2))\<lparr>nf_accept := ?n + nf_accept B\<rparr>"
    using a by (simp add: seq_append_def Let_def)
  have acc: "nf_accept A < length (nf_states ?A2)" using a by (simp add: add_epsilon_def)
  show "nf_start (seq_append A B) = 0" "nf_accept (seq_append A B) = ?n + nf_accept B"
    "length (nf_states (seq_append A B)) = ?n + ?m"
    using a by (simp_all add: s add_epsilon_def)
  show "ns_transitions (nf_states (seq_append A B) ! j) =
       ns_transitions (nf_states A ! j) @ (if j = nf_accept A then [(None, ?n - ?m), (None, ?n)] else [])"
    if "j < ?n" for j
    using that acc a(2) by (simp add: s add_epsilon_def add_transition_trans nth_append)
  show "ns_transitions (nf_states (seq_append A B) ! (?n + j)) =
       map (\<lambda>(ch, t). (ch, t + ?n)) (ns_transitions (nf_states B ! j))" if "j < ?m" for j
    using that acc a(2) by (simp add: s add_epsilon_def add_transition_trans nth_append shift_state_def)
  show "ns_accept (nf_states (seq_append A B) ! j) \<longleftrightarrow> ns_accept (nf_states A ! j) \<and> j \<noteq> nf_accept A"
    if "j < ?n" for j
    using that by (auto simp: s add_epsilon_def nth_append)
  show "ns_accept (nf_states (seq_append A B) ! (?n + j)) = ns_accept (nf_states B ! j)" if "j < ?m" for j
    using that a(2) by (simp add: s add_epsilon_def nth_append shift_state_def)
qed

lemma seq_append_ok:
  assumes "frag_ok A" "frag_ok B"
  shows "frag_ok (seq_append A B)"
proof -
  let ?n = "length (nf_states A)" and ?m = "length (nf_states B)"
  note s = seq_append_states [OF assms]
  have a: "nf_accept A < ?n" "nf_accept B < ?m" "ns_accept (nf_states B ! nf_accept B)"
    "nfa_closed (nf_states A)" "nfa_closed (nf_states B)"
    using assms by (simp_all add: frag_ok_def)
  have "snd x < ?n + ?m"
    if j: "j < ?n + ?m" and x: "x \<in> set (ns_transitions (nf_states (seq_append A B) ! j))" for j x
  proof (cases "j < ?n")
    case True
    obtain c t where ct: "x = (c, t)" by (cases x) blast
    from x s(4) [OF True] consider "(c, t) \<in> set (ns_transitions (nf_states A ! j))" | "t = ?n - ?m" | "t = ?n"
      unfolding ct by (auto split: if_splits)
    then show ?thesis using closedD [OF a(4) True, of c t] a(1,2) ct by cases auto
  next
    case False
    then obtain k where k: "j = ?n + k" by (metis le_iff_add not_less)
    with j have "k < ?m" by simp
    with x s(5) [of k] k closedD [OF a(5), of k] show ?thesis by auto
  qed
  with s(1-3) s(7) [OF a(2)] a show ?thesis by (simp add: frag_ok_def nfa_closed_def)
qed

lemma compile_ref_Inr:
  assumes "compile_ref rs vs r = Inr A"
  obtains n where "r \<notin> set vs" "map_of rs r = Some n" "compile_node rs (vs @ [r]) n = Inr A"
proof -
  have "r \<notin> set vs" using assms by (subst (asm) compile_ref.simps) (simp split: if_splits)
  moreover from this obtain n where "map_of rs r = Some n"
    using assms by (subst (asm) compile_ref.simps) (cases "map_of rs r"; simp)
  moreover from calculation have "compile_ref rs vs r = compile_node rs (vs @ [r]) n"
    by (subst compile_ref.simps) simp
  ultimately show ?thesis using assms that by simp
qed

declare compile_ref.simps [simp del]

text \<open>Every fragment that compilation returns is well formed: it starts at state 0, its accept state
  exists and accepts, and every transition leads to one of its states.\<close>

lemma compile_wf:
  "compile_node rs vs n = Inr A \<Longrightarrow> frag_ok A"
  "frag_ok A0 \<Longrightarrow> compile_seq rs vs A0 ns = Inr A \<Longrightarrow> frag_ok A"
  "frag_ok A0 \<Longrightarrow> compile_alt rs vs A0 ns = Inr A \<Longrightarrow> frag_ok A"
  "compile_ref rs vs r = Inr A \<Longrightarrow> frag_ok A"
proof (induction rs vs n and rs vs A0 ns and rs vs A0 ns and rs vs r arbitrary: A and A and A and A
    rule: compile_node_compile_seq_compile_alt_compile_ref.induct)
  case (5 rs vs n ns)
  then show ?case by (cases "compile_node rs vs n") simp_all
next
  case (8 rs vs n)
  then show ?case by (cases "compile_node rs vs n") (auto simp: star_of_ok)
next
  case (9 rs vs n)
  then show ?case by (cases "compile_node rs vs n") (auto simp: plus_of_ok)
next
  case (10 rs vs n)
  then show ?case by (cases "compile_node rs vs n") (auto simp: opt_of_ok)
next
  case (14 rs vs A0 n ns)
  then obtain B where B: "compile_node rs vs n = Inr B" "compile_seq rs vs (seq_append A0 B) ns = Inr A"
    by (cases "compile_node rs vs n") simp_all
  show ?case by (rule 14(2) [OF B(1) seq_append_ok [OF 14(3) 14(1) [OF B(1)]] B(2)])
next
  case (16 rs vs A0 n ns)
  then obtain B where B: "compile_node rs vs n = Inr B" "compile_alt rs vs (alt_append A0 B) ns = Inr A"
    by (cases "compile_node rs vs n") simp_all
  show ?case by (rule 16(2) [OF B(1) alt_append_ok [OF 16(3) 16(1) [OF B(1)]] B(2)])
next
  case (17 rs vs r)
  from 17(2) obtain n where n: "r \<notin> set vs" "map_of rs r = Some n" "compile_node rs (vs @ [r]) n = Inr A"
    by (rule compile_ref_Inr)
  show ?case by (rule 17(1) [OF n])
qed (auto simp: compile_lit_ok compile_chars_ok compile_char_class_def compile_any_def epsilon_fragment_ok
    nfa_new_ok)


subsection \<open>Which grammars compile\<close>

fun node_refs :: "gnode \<Rightarrow> uchar list set" where
  "node_refs (Seq ns) = (\<Union>n \<in> set ns. node_refs n)"
| "node_refs (Alt ns) = (\<Union>n \<in> set ns. node_refs n)"
| "node_refs (Star n) = node_refs n"
| "node_refs (Plus n) = node_refs n"
| "node_refs (Opt n) = node_refs n"
| "node_refs (Ref r) = {r}"
| "node_refs n = {}"

text \<open>A rule refers to the rules its body names.\<close>

definition rule_refs :: "(uchar list \<times> gnode) list \<Rightarrow> (uchar list \<times> uchar list) set" where
  "rule_refs rs = {(a, b). \<exists>n. map_of rs a = Some n \<and> b \<in> node_refs n}"

text \<open>Every rule reached from \<open>r\<close> is defined, not among \<open>vs\<close>, and does not reach itself.\<close>

definition resolvable :: "(uchar list \<times> gnode) list \<Rightarrow> uchar list list \<Rightarrow> uchar list \<Rightarrow> bool" where
  "resolvable rs vs r \<longleftrightarrow> (\<forall>a. (r, a) \<in> (rule_refs rs)\<^sup>* \<longrightarrow>
     map_of rs a \<noteq> None \<and> a \<notin> set vs \<and> (a, a) \<notin> (rule_refs rs)\<^sup>+)"

lemma resolvable_step:
  assumes "map_of rs r = Some n"
  shows "resolvable rs vs r \<longleftrightarrow> r \<notin> set vs \<and> (\<forall>b \<in> node_refs n. resolvable rs (vs @ [r]) b)"
proof
  assume a: "resolvable rs vs r"
  have r: "r \<notin> set vs" "(r, r) \<notin> (rule_refs rs)\<^sup>+" using a by (auto simp: resolvable_def)
  have "resolvable rs (vs @ [r]) b" if b: "b \<in> node_refs n" for b
    unfolding resolvable_def
  proof (intro allI impI)
    fix x assume x: "(b, x) \<in> (rule_refs rs)\<^sup>*"
    have rb: "(r, b) \<in> rule_refs rs" using assms b by (auto simp: rule_refs_def)
    with x have "(r, x) \<in> (rule_refs rs)\<^sup>+" by (rule rtrancl_into_trancl2 [rotated])
    with a r(2) show "map_of rs x \<noteq> None \<and> x \<notin> set (vs @ [r]) \<and> (x, x) \<notin> (rule_refs rs)\<^sup>+"
      unfolding resolvable_def by (auto dest: trancl_into_rtrancl)
  qed
  with r(1) show "r \<notin> set vs \<and> (\<forall>b \<in> node_refs n. resolvable rs (vs @ [r]) b)" by blast
next
  assume a: "r \<notin> set vs \<and> (\<forall>b \<in> node_refs n. resolvable rs (vs @ [r]) b)"
  have step: "\<exists>b \<in> node_refs n. (b, x) \<in> (rule_refs rs)\<^sup>*" if "(r, x) \<in> (rule_refs rs)\<^sup>+" for x
    using tranclD [OF that] assms by (auto simp: rule_refs_def)
  have rr: "(r, r) \<notin> (rule_refs rs)\<^sup>+"
  proof
    assume "(r, r) \<in> (rule_refs rs)\<^sup>+"
    then obtain b where "b \<in> node_refs n" "(b, r) \<in> (rule_refs rs)\<^sup>*" using step by blast
    with a show False by (auto simp: resolvable_def)
  qed
  show "resolvable rs vs r"
    unfolding resolvable_def
  proof (intro allI impI)
    fix x assume "(r, x) \<in> (rule_refs rs)\<^sup>*"
    then consider "x = r" | "(r, x) \<in> (rule_refs rs)\<^sup>+" by (metis rtranclD)
    then show "map_of rs x \<noteq> None \<and> x \<notin> set vs \<and> (x, x) \<notin> (rule_refs rs)\<^sup>+"
    proof cases
      case 1
      with assms a rr show ?thesis by simp
    next
      case 2
      then obtain b where "b \<in> node_refs n" "(b, x) \<in> (rule_refs rs)\<^sup>*" using step by blast
      with a show ?thesis by (auto simp: resolvable_def)
    qed
  qed
qed

lemma isl_map_sum [simp]: "isl (map_sum f g x) = isl x"
  by (cases x) simp_all

lemma compile_ref_None: "map_of rs r = None \<Longrightarrow> isl (compile_ref rs vs r)"
  by (subst compile_ref.simps) simp

lemma compile_ref_visited: "r \<in> set vs \<Longrightarrow> isl (compile_ref rs vs r)"
  by (subst compile_ref.simps) simp

lemma compile_ref_Some: "r \<notin> set vs \<Longrightarrow> map_of rs r = Some n \<Longrightarrow>
    compile_ref rs vs r = compile_node rs (vs @ [r]) n"
  by (subst compile_ref.simps) simp

lemma compile_succeeds:
  "\<not> isl (compile_node rs vs n) \<longleftrightarrow> (\<forall>b \<in> node_refs n. resolvable rs vs b)"
  "\<not> isl (compile_seq rs vs A ns) \<longleftrightarrow> (\<forall>n \<in> set ns. \<forall>b \<in> node_refs n. resolvable rs vs b)"
  "\<not> isl (compile_alt rs vs A ns) \<longleftrightarrow> (\<forall>n \<in> set ns. \<forall>b \<in> node_refs n. resolvable rs vs b)"
  "\<not> isl (compile_ref rs vs r) \<longleftrightarrow> resolvable rs vs r"
proof (induction rs vs n and rs vs A ns and rs vs A ns and rs vs r
    rule: compile_node_compile_seq_compile_alt_compile_ref.induct)
  case (5 rs vs n ns)
  then show ?case by (cases "compile_node rs vs n") auto
next
  case (14 rs vs A n ns)
  then show ?case by (cases "compile_node rs vs n") auto
next
  case (16 rs vs A n ns)
  then show ?case by (cases "compile_node rs vs n") auto
next
  case (17 rs vs r)
  show ?case
  proof (cases "map_of rs r")
    case None
    then have "\<not> resolvable rs vs r" by (auto simp: resolvable_def)
    with compile_ref_None [OF None] show ?thesis by simp
  next
    case (Some n)
    show ?thesis
    proof (cases "r \<in> set vs")
      case True
      then have "\<not> resolvable rs vs r" by (auto simp: resolvable_def)
      with compile_ref_visited [OF True] show ?thesis by simp
    next
      case False
      have "\<not> isl (compile_ref rs vs r) \<longleftrightarrow> (\<forall>b \<in> node_refs n. resolvable rs (vs @ [r]) b)"
        unfolding compile_ref_Some [OF False Some] by (rule 17 [OF False Some])
      with resolvable_step [OF Some, of vs] False show ?thesis by blast
    qed
  qed
qed (simp_all add: ball_Un)

end
