(* ===== verification/GrammarDfa.thy ===== *)
theory GrammarDfa
  imports GrammarNfa Worklist "HOL-Library.Product_Lexorder"
begin

text \<open>
  The deterministic automaton of a grammar and the state machine that masks tokens with it
  (\<open>grammar.rs\<close>): epsilon closure, subset construction, binary search in the sorted transitions,
  \<open>advance\<close>, token masks, and the compilation of a whole grammar.

  A \<open>BTreeSet<usize>\<close> is a set of naturals, the map from sets to state numbers a function to
  options.  An index out of range is a panic: the functions that index the automaton return an option,
  and the theorems show that they return.  A logit is of any type; \<open>neg_inf\<close> stands for minus infinity.
\<close>

subsection \<open>Epsilon closure and transitions of sets\<close>

definition eps_succs :: "nfa_state list \<Rightarrow> nat \<Rightarrow> nat list option" where
  "eps_succs N s = (if s < length N
     then Some (map snd (filter (\<lambda>(ch, t). ch = None) (ns_transitions (N ! s)))) else None)"

text \<open>The stack is filled in ascending order and popped from its end.\<close>

definition epsilon_closure :: "nfa_state list \<Rightarrow> nat set \<Rightarrow> nat set option" where
  "epsilon_closure N S = worklist (eps_succs N) S (rev (sorted_list_of_set S))"

definition char_targets :: "uchar \<Rightarrow> nfa_state \<Rightarrow> nat list" where
  "char_targets c s = map snd (filter (\<lambda>(ch, t). ch = Some c) (ns_transitions s))"

definition nfa_transition :: "nfa_state list \<Rightarrow> nat set \<Rightarrow> uchar \<Rightarrow> nat set option" where
  "nfa_transition N S c = (
     if \<forall>s \<in> S. s < length N then epsilon_closure N (\<Union>s \<in> S. set (char_targets c (N ! s))) else None)"

subsection \<open>Subset construction\<close>

record dfa_state =
  ds_id :: nat
  ds_valid_chars :: "(uchar \<times> uchar) list"
  ds_transitions :: "(uchar \<times> nat) list"
  ds_accept :: bool

definition state_chars :: "nfa_state \<Rightarrow> uchar set" where
  "state_chars s = set (concat (map (\<lambda>(ch, t). case ch of None \<Rightarrow> [] | Some c \<Rightarrow> [c]) (ns_transitions s)))"

lemma state_chars_mem: "c \<in> state_chars s \<longleftrightarrow> (\<exists>t. (Some c, t) \<in> set (ns_transitions s))"
  by (force simp: state_chars_def split: option.splits)

definition all_chars :: "nfa_state list \<Rightarrow> uchar set" where
  "all_chars N = (\<Union>s \<in> set N. state_chars s)"

definition chars_vec :: "nfa_state list \<Rightarrow> uchar list" where
  "chars_vec N = sorted_list_of_set
     (if all_chars N = {} then set ([0x20..<0x7F] @ [10, 9, 13]) else all_chars N)"

definition accepts_set :: "nfa_state list \<Rightarrow> nat set \<Rightarrow> bool" where
  "accepts_set N S \<longleftrightarrow> (\<exists>s \<in> S. ns_accept (N ! s))"

definition fresh_dfa_state :: "nfa_state list \<Rightarrow> nat \<Rightarrow> nat set \<Rightarrow> dfa_state" where
  "fresh_dfa_state N k S = \<lparr>ds_id = k, ds_valid_chars = [], ds_transitions = [], ds_accept = accepts_set N S\<rparr>"

text \<open>Consecutive characters as ranges.\<close>

fun run_end :: "uchar \<Rightarrow> uchar list \<Rightarrow> uchar \<times> uchar list" where
  "run_end e [] = (e, [])"
| "run_end e (c # cs) = (if c = e + 1 then run_end c cs else (e, c # cs))"

lemma run_end_length: "length (snd (run_end e cs)) \<le> length cs"
  by (induction e cs rule: run_end.induct) auto

function char_ranges :: "uchar list \<Rightarrow> (uchar \<times> uchar) list" where
  "char_ranges [] = []"
| "char_ranges (c # cs) = (c, fst (run_end c cs)) # char_ranges (snd (run_end c cs))"
  by pat_completeness auto
termination by (relation "measure length") (auto simp: le_imp_less_Suc run_end_length)

definition valid_chars_from_nfa_states :: "nfa_state list \<Rightarrow> nat set \<Rightarrow> (uchar \<times> uchar) list" where
  "valid_chars_from_nfa_states N S = char_ranges (sorted_list_of_set (\<Union>s \<in> S. state_chars (N ! s)))"

text \<open>\<open>dedup_by\<close> on the characters: of neighbours with the same character the first stays.\<close>

fun dedup_keys :: "('a \<times> 'b) list \<Rightarrow> ('a \<times> 'b) list" where
  "dedup_keys (x # y # xs) = (if fst x = fst y then dedup_keys (x # xs) else x # dedup_keys (y # xs))"
| "dedup_keys xs = xs"

type_synonym dfa_build = "dfa_state list \<times> (nat set \<Rightarrow> nat option) \<times> nat set list"

text \<open>The inner loop over the characters, for the set with number \<open>k\<close>.\<close>

fun dfa_chars :: "nfa_state list \<Rightarrow> nat set \<Rightarrow> nat \<Rightarrow> uchar list \<Rightarrow> dfa_build \<Rightarrow> dfa_build option" where
  "dfa_chars N S k [] b = Some b"
| "dfa_chars N S k (c # cs) (ds, ids, queue) = (case nfa_transition N S c of
      None \<Rightarrow> None
    | Some T \<Rightarrow>
        if T = {} then dfa_chars N S k cs (ds, ids, queue)
        else (case ids T of
            Some j \<Rightarrow> dfa_chars N S k cs
              (ds[k := (ds ! k)\<lparr>ds_transitions := ds_transitions (ds ! k) @ [(c, j)]\<rparr>], ids, queue)
          | None \<Rightarrow>
              let j = length ds;
                  ds1 = ds @ [fresh_dfa_state N j T]
              in dfa_chars N S k cs
                   (ds1[k := (ds1 ! k)\<lparr>ds_transitions := ds_transitions (ds1 ! k) @ [(c, j)]\<rparr>],
                    ids(T \<mapsto> j), queue @ [T])))"

definition finish_state :: "dfa_state \<Rightarrow> dfa_state" where
  "finish_state d = (
     let ts = dedup_keys (sort_key fst (ds_transitions d))
     in d\<lparr>ds_transitions := ts, ds_valid_chars := char_ranges (map fst ts)\<rparr>)"

partial_function (option) dfa_loop :: "nfa_state list \<Rightarrow> uchar list \<Rightarrow> dfa_state list
    \<Rightarrow> (nat set \<Rightarrow> nat option) \<Rightarrow> nat set list \<Rightarrow> dfa_state list option" where
  "dfa_loop N cs ds ids queue = (case queue of
      [] \<Rightarrow> Some ds
    | S # rest \<Rightarrow> (case ids S of
        None \<Rightarrow> None
      | Some k \<Rightarrow> (case dfa_chars N S k cs (ds, ids, rest) of
          None \<Rightarrow> None
        | Some (ds', ids', queue') \<Rightarrow> dfa_loop N cs (ds'[k := finish_state (ds' ! k)]) ids' queue')))"

definition nfa_to_dfa :: "nfa_state list \<Rightarrow> nat \<Rightarrow> dfa_state list option" where
  "nfa_to_dfa N start = (case epsilon_closure N {start} of
      None \<Rightarrow> None
    | Some S \<Rightarrow> dfa_loop N (chars_vec N) [fresh_dfa_state N 0 S] [S \<mapsto> 0] [S])"

subsection \<open>The state machine\<close>

record fsm =
  fs_states :: "dfa_state list"
  fs_current :: nat
  fs_start :: nat

definition fsm_new :: "dfa_state list \<Rightarrow> nat \<Rightarrow> fsm" where
  "fsm_new ds start = \<lparr>fs_states = ds, fs_current = start, fs_start = start\<rparr>"

text \<open>Binary search for a key in \<open>xs\<close>, between the positions \<open>lo\<close> and \<open>hi\<close>.\<close>

function bsearch :: "('k::linorder \<times> 'v) list \<Rightarrow> 'k \<Rightarrow> nat \<Rightarrow> nat \<Rightarrow> nat option" where
  "bsearch xs k lo hi = (
     if hi \<le> lo then None
     else let mid = (lo + hi) div 2
          in if fst (xs ! mid) = k then Some mid
             else if fst (xs ! mid) < k then bsearch xs k (Suc mid) hi
             else bsearch xs k lo mid)"
  by pat_completeness auto
termination by (relation "measure (\<lambda>(xs, k, lo, hi). hi - lo)") auto

declare bsearch.simps [simp del]

definition find_transition :: "dfa_state list \<Rightarrow> nat \<Rightarrow> uchar \<Rightarrow> nat option" where
  "find_transition ds s c = (
     let ts = ds_transitions (ds ! s)
     in map_option (\<lambda>i. snd (ts ! i)) (bsearch ts c 0 (length ts)))"

fun token_run :: "dfa_state list \<Rightarrow> nat \<Rightarrow> uchar list \<Rightarrow> bool" where
  "token_run ds s [] = True"
| "token_run ds s (c # cs) = (case find_transition ds s c of
      Some t \<Rightarrow> token_run ds t cs
    | None \<Rightarrow> False)"

definition is_valid_token :: "fsm \<Rightarrow> uchar list \<Rightarrow> bool" where
  "is_valid_token f text = token_run (fs_states f) (fs_current f) text"

datatype advance_error = NoTransition uchar nat

text \<open>\<open>advance\<close> moves character by character and stays where it failed.\<close>

fun advance :: "uchar list \<Rightarrow> fsm \<Rightarrow> (advance_error + unit) \<times> fsm" where
  "advance [] f = (Inr (), f)"
| "advance (c # cs) f = (case find_transition (fs_states f) (fs_current f) c of
      None \<Rightarrow> (Inl (NoTransition c (fs_current f)), f)
    | Some t \<Rightarrow> advance cs (f\<lparr>fs_current := t\<rparr>))"

definition fsm_reset :: "fsm \<Rightarrow> fsm" where
  "fsm_reset f = f\<lparr>fs_current := fs_start f\<rparr>"

definition is_accepting :: "fsm \<Rightarrow> bool" where
  "is_accepting f \<longleftrightarrow> fs_current f < length (fs_states f) \<and> ds_accept (fs_states f ! fs_current f)"

subsection \<open>Tokens\<close>

record tokenizer =
  tk_id_to_text :: "uchar list list"

definition tokenizer_decode :: "tokenizer \<Rightarrow> nat \<Rightarrow> uchar list" where
  "tokenizer_decode t k = (if k < length (tk_id_to_text t) then tk_id_to_text t ! k else [])"

definition tokenizer_vocab_size :: "tokenizer \<Rightarrow> nat" where
  "tokenizer_vocab_size t = length (tk_id_to_text t)"

definition valid_token_mask :: "fsm \<Rightarrow> tokenizer \<Rightarrow> nat \<Rightarrow> bool list" where
  "valid_token_mask f t vocab_size = map (\<lambda>k. is_valid_token f (tokenizer_decode t k)) [0..<vocab_size]"

definition apply_mask_to_logits :: "'l \<Rightarrow> fsm \<Rightarrow> tokenizer \<Rightarrow> 'l list \<Rightarrow> 'l list" where
  "apply_mask_to_logits neg_inf f t logits = map (\<lambda>(k, l).
     if \<not> is_valid_token f (tokenizer_decode t k) then neg_inf else l) (enumerate 0 logits)"

subsection \<open>Compiling a grammar\<close>

text \<open>\<open>None\<close> would be a panic.\<close>

definition compile_grammar :: "grammar \<Rightarrow> (compile_error + fsm) option" where
  "compile_grammar g = (case compile_ref (gm_rules g) [] (gm_root g) of
      Inl e \<Rightarrow> Some (Inl e)
    | Inr A \<Rightarrow> map_option (\<lambda>ds. Inr (fsm_new ds 0)) (nfa_to_dfa (nf_states A) (nf_start A)))"


subsection \<open>Closures and set transitions return\<close>

definition clo :: "nfa_state list \<Rightarrow> nat set \<Rightarrow> nat set" where
  "clo N S = reaches (eps_succs N) S"

definition delta :: "nfa_state list \<Rightarrow> nat set \<Rightarrow> uchar \<Rightarrow> nat set" where
  "delta N S c = clo N (\<Union>s \<in> S. set (char_targets c (N ! s)))"

lemma eps_succs_mem: "eps_succs N s = Some ys \<Longrightarrow> t \<in> set ys \<longleftrightarrow> (None, t) \<in> set (ns_transitions (N ! s)) \<and> s < length N"
  by (force simp: eps_succs_def split: if_splits)

lemma char_targets_mem: "t \<in> set (char_targets c s) \<longleftrightarrow> (Some c, t) \<in> set (ns_transitions s)"
  by (force simp: char_targets_def)

lemma epsilon_closure_clo:
  assumes "nfa_closed N" "S \<subseteq> {..<length N}"
  shows "epsilon_closure N S = Some (clo N S)"
  unfolding epsilon_closure_def clo_def
proof (rule worklist_reaches [of "{..<length N}"])
  have "finite S" using assms(2) finite_subset by blast
  then show "set (rev (sorted_list_of_set S)) \<subseteq> S"
    "\<And>x ys. x \<in> S - set (rev (sorted_list_of_set S)) \<Longrightarrow> eps_succs N x = Some ys \<Longrightarrow> set ys \<subseteq> S" by auto
  show "\<exists>ys. eps_succs N x = Some ys \<and> set ys \<subseteq> {..<length N}" if "x \<in> {..<length N}" for x
    using that closedD [OF assms(1)] by (auto simp: eps_succs_def)
qed (use assms in auto)

lemma clo_bound:
  assumes "nfa_closed N" "S \<subseteq> {..<length N}"
  shows "clo N S \<subseteq> {..<length N}"
  unfolding clo_def
proof (rule reaches_least [OF assms(2)])
  fix x ys assume "eps_succs N x = Some ys"
  then show "set ys \<subseteq> {..<length N}" using closedD [OF assms(1)] eps_succs_mem by blast
qed

lemma targets_bound: "nfa_closed N \<Longrightarrow> S \<subseteq> {..<length N} \<Longrightarrow>
    (\<Union>s \<in> S. set (char_targets c (N ! s))) \<subseteq> {..<length N}"
  using closedD by (fastforce simp: char_targets_mem)

lemma nfa_transition_delta: "nfa_closed N \<Longrightarrow> S \<subseteq> {..<length N} \<Longrightarrow> nfa_transition N S c = Some (delta N S c)"
  using targets_bound by (auto simp: nfa_transition_def delta_def epsilon_closure_clo)

lemma delta_bound: "nfa_closed N \<Longrightarrow> S \<subseteq> {..<length N} \<Longrightarrow> delta N S c \<subseteq> {..<length N}"
  unfolding delta_def by (rule clo_bound [OF _ targets_bound])

lemma clo_idem: "clo N (clo N S) = clo N S"
  by (simp add: clo_def reaches_idem)

lemma delta_closed: "clo N (delta N S c) = delta N S c"
  by (simp add: delta_def clo_idem)

subsection \<open>The subset construction keeps a numbering of sets\<close>

text \<open>\<open>Ts\<close> lists the sets found so far; the map gives a set its position, the automaton's state at that
  position accepts if the set does.\<close>

definition numbering :: "nfa_state list \<Rightarrow> dfa_state list \<Rightarrow> (nat set \<Rightarrow> nat option) \<Rightarrow> nat set list \<Rightarrow> bool" where
  "numbering N ds ids Ts \<longleftrightarrow> length ds = length Ts \<and> distinct Ts \<and>
     (\<forall>T j. ids T = Some j \<longleftrightarrow> j < length Ts \<and> Ts ! j = T) \<and>
     (\<forall>j < length Ts. ds_accept (ds ! j) = accepts_set N (Ts ! j)) \<and>
     (\<forall>T \<in> set Ts. T \<subseteq> {..<length N} \<and> T \<noteq> {})"

lemma numbering_update: "numbering N ds ids Ts \<Longrightarrow> ds_accept d = ds_accept (ds ! k) \<Longrightarrow>
    numbering N (ds[k := d]) ids Ts"
  by (simp add: numbering_def list_update_nth)

lemma numbering_push:
  assumes "numbering N ds ids Ts" "T \<subseteq> {..<length N}" "T \<noteq> {}" "ids T = None"
  shows "numbering N (ds @ [fresh_dfa_state N (length ds) T]) (ids(T \<mapsto> length ds)) (Ts @ [T])"
proof -
  have l: "length ds = length Ts" using assms(1) by (simp add: numbering_def)
  have i: "\<And>U j. ids U = Some j \<longleftrightarrow> j < length Ts \<and> Ts ! j = U" using assms(1) by (simp add: numbering_def)
  have new: "T \<notin> set Ts" using assms(4) i by (metis in_set_conv_nth option.distinct(1))
  have "(ids(T \<mapsto> length ds)) U = Some j \<longleftrightarrow> j < length (Ts @ [T]) \<and> (Ts @ [T]) ! j = U" for U j
    using i [of U j] new l by (auto simp: nth_append less_Suc_eq)
  with assms new l show ?thesis
    by (auto simp: numbering_def nth_append less_Suc_eq fresh_dfa_state_def)
qed

text \<open>The transitions of a set on the characters \<open>cs\<close>.\<close>

definition row :: "nfa_state list \<Rightarrow> (nat set \<Rightarrow> nat option) \<Rightarrow> nat set \<Rightarrow> uchar list \<Rightarrow> (uchar \<times> nat) list" where
  "row N ids S cs = map (\<lambda>c. (c, the (ids (delta N S c)))) (filter (\<lambda>c. delta N S c \<noteq> {}) cs)"

lemma row_Cons: "row N ids S (c # cs) =
    (if delta N S c = {} then row N ids S cs else (c, the (ids (delta N S c))) # row N ids S cs)"
  by (simp add: row_def)

lemma row_mono:
  assumes "ids \<subseteq>\<^sub>m ids'" "\<forall>c \<in> set cs. delta N S c \<noteq> {} \<longrightarrow> ids (delta N S c) \<noteq> None"
  shows "row N ids' S cs = row N ids S cs"
  using assms unfolding row_def by (auto simp: map_le_def domIff)

lemma dfa_chars_spec:
  assumes "nfa_closed N" "numbering N ds ids Ts" "k < length Ts" "Ts ! k = S"
  shows "\<exists>ds' ids' New. dfa_chars N S k cs (ds, ids, queue) = Some (ds', ids', queue @ New) \<and>
    numbering N ds' ids' (Ts @ New) \<and> ids \<subseteq>\<^sub>m ids' \<and>
    (\<forall>j < length Ts. j \<noteq> k \<longrightarrow> ds' ! j = ds ! j) \<and>
    (\<forall>j < length New. ds_transitions (ds' ! (length Ts + j)) = []) \<and>
    ds_transitions (ds' ! k) = ds_transitions (ds ! k) @ row N ids' S cs \<and>
    (\<forall>c \<in> set cs. delta N S c \<noteq> {} \<longrightarrow> ids' (delta N S c) \<noteq> None)"
  using assms(2-4)
proof (induction cs arbitrary: ds ids Ts queue)
  case Nil
  then show ?case by (auto simp: row_def)
next
  case (Cons c cs)
  have S: "S \<subseteq> {..<length N}" using Cons.prems by (auto simp: numbering_def)
  have l: "length ds = length Ts" using Cons.prems(1) by (simp add: numbering_def)
  let ?T = "delta N S c"
  note tr = nfa_transition_delta [OF assms(1) S, of c]
  show ?case
  proof (cases "?T = {}")
    case True
    with Cons.IH [OF Cons.prems, of queue] tr show ?thesis by (simp add: row_Cons)
  next
    case False
    define j where "j = (case ids ?T of Some j \<Rightarrow> j | None \<Rightarrow> length Ts)"
    define ds1 where "ds1 = (if ids ?T = None then ds @ [fresh_dfa_state N (length ds) ?T] else ds)"
    define ids1 where "ids1 = (if ids ?T = None then ids(?T \<mapsto> length ds) else ids)"
    define N1 where "N1 = (if ids ?T = None then [?T] else [])"
    define ds2 where "ds2 = ds1[k := (ds1 ! k)\<lparr>ds_transitions := ds_transitions (ds1 ! k) @ [(c, j)]\<rparr>]"
    have num1: "numbering N ds1 ids1 (Ts @ N1)"
      using numbering_push [OF Cons.prems(1) delta_bound [OF assms(1) S] False] Cons.prems(1)
      by (simp add: ds1_def ids1_def N1_def)
    have num2: "numbering N ds2 ids1 (Ts @ N1)"
      unfolding ds2_def by (rule numbering_update [OF num1]) simp
    have le: "ids \<subseteq>\<^sub>m ids1" by (auto simp: ids1_def map_le_def)
    have j: "ids1 ?T = Some j" by (auto simp: ids1_def j_def l split: option.splits)
    have step: "dfa_chars N S k (c # cs) (ds, ids, queue) = dfa_chars N S k cs (ds2, ids1, queue @ N1)"
      using tr False
      by (cases "ids ?T") (simp_all add: ds2_def ds1_def ids1_def N1_def j_def Let_def l)
    obtain ds' ids' New where r: "dfa_chars N S k cs (ds2, ids1, queue @ N1) = Some (ds', ids', (queue @ N1) @ New)"
      "numbering N ds' ids' ((Ts @ N1) @ New)" "ids1 \<subseteq>\<^sub>m ids'"
      "\<forall>i < length (Ts @ N1). i \<noteq> k \<longrightarrow> ds' ! i = ds2 ! i"
      "\<forall>i < length New. ds_transitions (ds' ! (length (Ts @ N1) + i)) = []"
      "ds_transitions (ds' ! k) = ds_transitions (ds2 ! k) @ row N ids' S cs"
      "\<forall>c \<in> set cs. delta N S c \<noteq> {} \<longrightarrow> ids' (delta N S c) \<noteq> None"
      using Cons.IH [OF num2, of "queue @ N1"] Cons.prems(2,3) by (auto simp: nth_append)
    have k: "k < length ds1" "ds_transitions (ds1 ! k) = ds_transitions (ds ! k)"
      using Cons.prems(2) l by (simp_all add: ds1_def nth_append)
    have j': "ids' ?T = Some j" using r(3) j by (metis domI map_le_def)
    have t: "ds_transitions (ds' ! k) = ds_transitions (ds ! k) @ row N ids' S (c # cs)"
      using r(6) k False j' by (simp add: ds2_def row_Cons)
    have old: "\<forall>i < length Ts. i \<noteq> k \<longrightarrow> ds' ! i = ds ! i"
      using r(4) l by (auto simp: ds2_def ds1_def nth_append)
    have fresh: "ds_transitions (ds' ! (length Ts + i)) = []" if i: "i < length (N1 @ New)" for i
    proof (cases "i < length N1")
      case True
      then have n: "ids ?T = None" "i = 0" by (auto simp: N1_def split: if_splits)
      with r(4) Cons.prems(2) True l show ?thesis
        by (simp add: ds2_def ds1_def nth_append fresh_dfa_state_def N1_def)
    next
      case False
      with r(5) [rule_format, of "i - length N1"] i show ?thesis by (simp add: add.assoc)
    qed
    show ?thesis
      unfolding step
      by (intro exI [of _ ds'] exI [of _ ids'] exI [of _ "N1 @ New"] conjI)
        (use r(1,2,7) map_le_trans [OF le r(3)] old fresh t j' in \<open>auto simp: append_assoc\<close>)
  qed
qed


lemma dedup_strict: "sorted_wrt (<) (map fst xs) \<Longrightarrow> dedup_keys xs = xs"
  for xs :: "('a::linorder \<times> 'b) list"
  by (induction xs rule: dedup_keys.induct) auto

lemma finish_strict:
  assumes "sorted_wrt (<) (map fst (ds_transitions d))"
  shows "ds_transitions (finish_state d) = ds_transitions d" "ds_accept (finish_state d) = ds_accept d"
proof -
  have "sorted (map fst (ds_transitions d))" using assms strict_sorted_imp_sorted by blast
  then have "sort_key fst (ds_transitions d) = ds_transitions d" by (rule sort_key_id_if_sorted)
  with assms show "ds_transitions (finish_state d) = ds_transitions d"
    by (simp add: finish_state_def Let_def dedup_strict)
  show "ds_accept (finish_state d) = ds_accept d" by (simp add: finish_state_def Let_def)
qed

lemma row_strict: "sorted_wrt (<) cs \<Longrightarrow> sorted_wrt (<) (map fst (row N ids S cs))"
  by (simp add: row_def o_def sorted_wrt_filter)

lemma chars_vec_strict: "sorted_wrt (<) (chars_vec N)"
  by (simp add: chars_vec_def)

text \<open>The state of the outer loop: the sets in the queue still have no transitions, all others have
  their row.\<close>

definition dfa_inv :: "nfa_state list \<Rightarrow> uchar list \<Rightarrow> dfa_state list \<Rightarrow> (nat set \<Rightarrow> nat option)
    \<Rightarrow> nat set list \<Rightarrow> nat set list \<Rightarrow> bool" where
  "dfa_inv N cs ds ids queue Ts \<longleftrightarrow> numbering N ds ids Ts \<and> set queue \<subseteq> set Ts \<and> distinct queue \<and>
     (\<forall>j < length Ts. if Ts ! j \<in> set queue then ds_transitions (ds ! j) = []
        else ds_transitions (ds ! j) = row N ids (Ts ! j) cs \<and>
          (\<forall>c \<in> set cs. delta N (Ts ! j) c \<noteq> {} \<longrightarrow> ids (delta N (Ts ! j) c) \<noteq> None))"

lemma dfa_step:
  assumes "nfa_closed N" "sorted_wrt (<) cs" "dfa_inv N cs ds ids (S # rest) Ts"
  shows "\<exists>k ds' ids' New. ids S = Some k \<and> dfa_chars N S k cs (ds, ids, rest) = Some (ds', ids', rest @ New) \<and>
    dfa_inv N cs (ds'[k := finish_state (ds' ! k)]) ids' (rest @ New) (Ts @ New)"
proof -
  have num: "numbering N ds ids Ts" and q: "S \<in> set Ts" "set rest \<subseteq> set Ts" "distinct rest" "S \<notin> set rest"
    using assms(3) by (simp_all add: dfa_inv_def)
  obtain k where k: "k < length Ts" "Ts ! k = S" using q(1) by (metis in_set_conv_nth)
  then have ids: "ids S = Some k" using num by (simp add: numbering_def)
  obtain ds' ids' New where r: "dfa_chars N S k cs (ds, ids, rest) = Some (ds', ids', rest @ New)"
    "numbering N ds' ids' (Ts @ New)" "ids \<subseteq>\<^sub>m ids'"
    "\<And>j. j < length Ts \<Longrightarrow> j \<noteq> k \<Longrightarrow> ds' ! j = ds ! j"
    "\<And>j. j < length New \<Longrightarrow> ds_transitions (ds' ! (length Ts + j)) = []"
    "ds_transitions (ds' ! k) = ds_transitions (ds ! k) @ row N ids' S cs"
    "\<And>c. c \<in> set cs \<Longrightarrow> delta N S c \<noteq> {} \<Longrightarrow> ids' (delta N S c) \<noteq> None"
    using dfa_chars_spec [OF assms(1) num k, of cs rest] by blast
  have "ds_transitions (ds ! k) = []" using assms(3) k by (auto simp: dfa_inv_def)
  then have tk: "ds_transitions (ds' ! k) = row N ids' S cs" using r(6) by simp
  then have f: "ds_transitions (finish_state (ds' ! k)) = row N ids' S cs"
    "ds_accept (finish_state (ds' ! k)) = ds_accept (ds' ! k)"
    using finish_strict [of "ds' ! k"] row_strict [OF assms(2)] by simp_all
  let ?ds = "ds'[k := finish_state (ds' ! k)]"
  have num': "numbering N ?ds ids' (Ts @ New)" by (rule numbering_update [OF r(2) f(2)])
  have dis: "distinct (Ts @ New)" using num' by (simp add: numbering_def)
  have len: "length ds' = length Ts + length New" using r(2) by (simp add: numbering_def)
  have new: "New ! i \<in> set New" "New ! i \<notin> set Ts" if "i < length New" for i
    using dis that by auto
  have "if (Ts @ New) ! j \<in> set (rest @ New) then ds_transitions (?ds ! j) = []
      else ds_transitions (?ds ! j) = row N ids' ((Ts @ New) ! j) cs \<and>
        (\<forall>c \<in> set cs. delta N ((Ts @ New) ! j) c \<noteq> {} \<longrightarrow> ids' (delta N ((Ts @ New) ! j) c) \<noteq> None)"
    if j: "j < length (Ts @ New)" for j
  proof (cases "j < length Ts")
    case False
    then obtain i where i: "j = length Ts + i" by (metis le_iff_add not_less)
    with j have "i < length New" by simp
    with i r(5) [of i] k(1) new show ?thesis by (simp add: list_update_nth)
  next
    case True
    have notnew: "Ts ! j \<notin> set New" using dis True by (auto dest: nth_mem)
    show ?thesis
    proof (cases "j = k")
      case True
      with k q(4) notnew f(1) len r(7) show ?thesis by (simp add: nth_append list_update_nth)
    next
      case jk: False
      have e: "?ds ! j = ds ! j" using r(4) [OF True jk] jk by simp
      have ne: "Ts ! j \<noteq> S" using k True jk num by (auto simp: numbering_def nth_eq_iff_index_eq)
      show ?thesis
      proof (cases "Ts ! j \<in> set rest")
        case in_rest: True
        have "ds_transitions (ds ! j) = []" using assms(3) True in_rest by (auto simp: dfa_inv_def)
        with in_rest True e show ?thesis by (simp add: nth_append)
      next
        case False
        have d: "ds_transitions (ds ! j) = row N ids (Ts ! j) cs"
          "\<forall>c \<in> set cs. delta N (Ts ! j) c \<noteq> {} \<longrightarrow> ids (delta N (Ts ! j) c) \<noteq> None"
          using assms(3) True False ne by (auto simp: dfa_inv_def)
        have m: "ids' U \<noteq> None" if "ids U \<noteq> None" for U
          using r(3) that by (metis domIff map_le_def)
        have "row N ids' (Ts ! j) cs = row N ids (Ts ! j) cs" by (rule row_mono [OF r(3) d(2)])
        with d m False notnew True e show ?thesis by (simp add: nth_append)
      qed
    qed
  qed
  moreover have "distinct (rest @ New)" "set (rest @ New) \<subseteq> set (Ts @ New)" using dis q by auto
  ultimately have "dfa_inv N cs ?ds ids' (rest @ New) (Ts @ New)"
    using num' unfolding dfa_inv_def by blast
  with ids r(1) show ?thesis by blast
qed

lemma numbering_length:
  assumes "numbering N ds ids Ts"
  shows "length Ts \<le> 2 ^ length N"
proof -
  have "set Ts \<subseteq> Pow {..<length N}" "distinct Ts" using assms by (auto simp: numbering_def)
  then have "length Ts \<le> card (Pow {..<length N})"
    by (metis card_mono distinct_card finite_Pow_iff finite_lessThan)
  then show ?thesis by (simp add: card_Pow)
qed

text \<open>The construction ends: there are at most \<open>2 ^ n\<close> sets.\<close>

lemma dfa_loop_spec:
  assumes "nfa_closed N" "sorted_wrt (<) cs" "dfa_inv N cs ds ids queue Ts"
  shows "\<exists>ds' ids' New. dfa_loop N cs ds ids queue = Some ds' \<and> dfa_inv N cs ds' ids' [] (Ts @ New)"
  using assms(3)
proof (induction "2 ^ length N - length Ts + length queue" arbitrary: ds ids queue Ts rule: less_induct)
  case less
  show ?case
  proof (cases queue)
    case Nil
    have "dfa_loop N cs ds ids queue = Some ds" by (subst dfa_loop.simps) (simp add: Nil)
    moreover have "dfa_inv N cs ds ids [] (Ts @ [])" using less.prems Nil by simp
    ultimately show ?thesis by blast
  next
    case (Cons S rest)
    obtain k ds1 ids1 N1 where s: "ids S = Some k"
      "dfa_chars N S k cs (ds, ids, rest) = Some (ds1, ids1, rest @ N1)"
      "dfa_inv N cs (ds1[k := finish_state (ds1 ! k)]) ids1 (rest @ N1) (Ts @ N1)"
      using dfa_step [OF assms(1,2) less.prems [unfolded Cons]] by blast
    have "length (Ts @ N1) \<le> 2 ^ length N"
      using s(3) numbering_length unfolding dfa_inv_def by blast
    then have "2 ^ length N - length (Ts @ N1) + length (rest @ N1) < 2 ^ length N - length Ts + length queue"
      using Cons by simp
    from less.hyps [OF this s(3)] obtain ds' ids' New where r:
      "dfa_loop N cs (ds1[k := finish_state (ds1 ! k)]) ids1 (rest @ N1) = Some ds'"
      "dfa_inv N cs ds' ids' [] ((Ts @ N1) @ New)" by blast
    have "dfa_loop N cs ds ids queue = Some ds'"
      by (subst dfa_loop.simps) (simp add: Cons s(1,2) r(1))
    with r(2) show ?thesis by (metis append_assoc)
  qed
qed

text \<open>A finished automaton over the sets \<open>Ts\<close>, looked up by \<open>find_transition\<close>.\<close>

definition dfa_for :: "nfa_state list \<Rightarrow> dfa_state list \<Rightarrow> nat set list \<Rightarrow> bool" where
  "dfa_for N ds Ts \<longleftrightarrow> length ds = length Ts \<and>
     (\<forall>j < length Ts. Ts ! j \<noteq> {} \<and> Ts ! j \<subseteq> {..<length N} \<and> ds_accept (ds ! j) = accepts_set N (Ts ! j) \<and>
        (\<forall>c. if delta N (Ts ! j) c = {} then find_transition ds j c = None
           else \<exists>i < length Ts. Ts ! i = delta N (Ts ! j) c \<and> find_transition ds j c = Some i))"

lemma bsearch_step:
  assumes "lo < hi"
  shows "bsearch xs k lo hi = (
     if fst (xs ! ((lo + hi) div 2)) = k then Some ((lo + hi) div 2)
     else if fst (xs ! ((lo + hi) div 2)) < k then bsearch xs k (Suc ((lo + hi) div 2)) hi
     else bsearch xs k lo ((lo + hi) div 2))"
  using assms by (subst bsearch.simps) (simp add: Let_def)

text \<open>In a strictly sorted part the search is exact.\<close>

lemma bsearch_exact:
  assumes "sorted_wrt (<) (map fst xs)" "hi \<le> length xs"
  shows "(bsearch xs k lo hi = Some i \<longrightarrow> lo \<le> i \<and> i < hi \<and> fst (xs ! i) = k) \<and>
    (bsearch xs k lo hi = None \<longrightarrow> (\<forall>j. lo \<le> j \<and> j < hi \<longrightarrow> fst (xs ! j) \<noteq> k))"
  using assms
proof (induction xs k lo hi rule: bsearch.induct)
  case (1 xs k lo hi)
  let ?m = "(lo + hi) div 2"
  have mono: "fst (xs ! a) < fst (xs ! b)" if "a < b" "b < length xs" for a b
    using "1.prems"(1) that by (simp add: sorted_wrt_iff_nth_less)
  show ?case
  proof (cases "lo < hi")
    case False
    then show ?thesis by (auto simp: bsearch.simps [of xs k lo hi])
  next
    case True
    then have m: "lo \<le> ?m" "?m < hi" by auto
    have less: "\<not> hi \<le> lo" using True by simp
    consider "fst (xs ! ?m) = k" | "fst (xs ! ?m) < k" | "k < fst (xs ! ?m)" by fastforce
    then show ?thesis
    proof cases
      case 1
      with m show ?thesis by (auto simp: bsearch_step [OF True])
    next
      case 2
      have "fst (xs ! j) \<noteq> k" if "j \<le> ?m" for j
        using mono [of j ?m] that m "1.prems"(2) 2 by (cases "j = ?m") auto
      note le = this
      have ne: "fst (xs ! ?m) \<noteq> k" using 2 by auto
      note ih = "1.IH"(1) [OF less refl ne 2 "1.prems"]
      from ne 2 have r: "bsearch xs k lo hi = bsearch xs k (Suc ?m) hi" by (simp add: bsearch_step [OF True])
      have "fst (xs ! j) \<noteq> k" if "bsearch xs k (Suc ?m) hi = None" "lo \<le> j \<and> j < hi" for j
        using le [of j] ih that 2 by (cases "j \<le> ?m") auto
      moreover have "lo \<le> i \<and> i < hi \<and> fst (xs ! i) = k" if "bsearch xs k (Suc ?m) hi = Some i"
        using ih that m 2 by auto
      ultimately show ?thesis unfolding r by blast
    next
      case 3
      have "fst (xs ! j) \<noteq> k" if "?m \<le> j" "j < hi" for j
        using mono [of ?m j] that m "1.prems"(2) 3 by (cases "j = ?m") auto
      note ge = this
      have ne: "fst (xs ! ?m) \<noteq> k" "\<not> fst (xs ! ?m) < k" using 3 by auto
      have "?m \<le> length xs" using m "1.prems"(2) by simp
      note ih = "1.IH"(2) [OF less refl ne "1.prems"(1) this]
      have r: "bsearch xs k lo hi = bsearch xs k lo ?m" using ne by (simp add: bsearch_step [OF True])
      have "fst (xs ! j) \<noteq> k" if "bsearch xs k lo ?m = None" "lo \<le> j \<and> j < hi" for j
        using ge [of j] ih that by (cases "?m \<le> j") auto
      moreover have "lo \<le> i \<and> i < hi \<and> fst (xs ! i) = k" if "bsearch xs k lo ?m = Some i"
        using ih that m by auto
      ultimately show ?thesis unfolding r by blast
    qed
  qed
qed

lemma find_transition_strict:
  assumes "sorted_wrt (<) (map fst (ds_transitions (ds ! j)))"
  shows "find_transition ds j c = map_of (ds_transitions (ds ! j)) c"
proof -
  let ?ts = "ds_transitions (ds ! j)"
  note e = bsearch_exact [OF assms order_refl, of c 0]
  show ?thesis
  proof (cases "bsearch ?ts c 0 (length ?ts)")
    case None
    then have "c \<notin> fst ` set ?ts" using e by (auto simp: in_set_conv_nth) (metis fst_conv)
    then have "map_of ?ts c = None" by (simp add: map_of_eq_None_iff)
    with None show ?thesis by (simp add: find_transition_def Let_def)
  next
    case (Some i)
    then have i: "i < length ?ts" "fst (?ts ! i) = c" using e [of i] by auto
    have "distinct (map fst ?ts)" using assms strict_sorted_iff by blast
    moreover have "(c, snd (?ts ! i)) \<in> set ?ts" using i by (metis nth_mem prod.collapse)
    ultimately have "map_of ?ts c = Some (snd (?ts ! i))" by simp
    with Some show ?thesis by (simp add: find_transition_def Let_def)
  qed
qed

lemma map_of_row: "map_of (row N ids S cs) c =
    (if c \<in> set cs \<and> delta N S c \<noteq> {} then Some (the (ids (delta N S c))) else None)"
  by (induction cs) (auto simp: row_def)

lemma delta_other: "c \<notin> set (chars_vec N) \<Longrightarrow> S \<subseteq> {..<length N} \<Longrightarrow> delta N S c = {}"
proof -
  assume c: "c \<notin> set (chars_vec N)" and S: "S \<subseteq> {..<length N}"
  have fin: "finite (all_chars N)"
    unfolding all_chars_def state_chars_def by (rule finite_UN_I [OF finite_set finite_set])
  have "c \<notin> all_chars N" using c fin by (auto simp: chars_vec_def split: if_splits)
  then have "char_targets c (N ! s) = []" if "s < length N" for s
    using that nth_mem [OF that]
    by (force simp: char_targets_def all_chars_def state_chars_mem filter_empty_conv)
  with S have "(\<Union>s \<in> S. set (char_targets c (N ! s))) = {}" by auto
  then show "delta N S c = {}" by (simp add: delta_def clo_def reaches_def)
qed

lemma nfa_to_dfa_spec:
  assumes "nfa_closed N" "start < length N"
  shows "\<exists>ds Ts. nfa_to_dfa N start = Some ds \<and> dfa_for N ds Ts \<and> Ts \<noteq> [] \<and> Ts ! 0 = clo N {start}"
proof -
  let ?S = "clo N {start}"
  have S: "?S \<subseteq> {..<length N}" "?S \<noteq> {}" "epsilon_closure N {start} = Some ?S"
    using clo_bound [OF assms(1), of "{start}"] epsilon_closure_clo [OF assms(1), of "{start}"] assms(2)
      reaches_refl [of "{start}" "eps_succs N"] by (auto simp: clo_def)
  have "dfa_inv N (chars_vec N) [fresh_dfa_state N 0 ?S] [?S \<mapsto> 0] [?S] [?S]"
    using S by (auto simp: dfa_inv_def numbering_def fresh_dfa_state_def)
  from dfa_loop_spec [OF assms(1) chars_vec_strict this] obtain ds ids New where
    r: "dfa_loop N (chars_vec N) [fresh_dfa_state N 0 ?S] [?S \<mapsto> 0] [?S] = Some ds"
    and inv: "dfa_inv N (chars_vec N) ds ids [] (?S # New)" by auto
  let ?Ts = "?S # New"
  have num: "numbering N ds ids ?Ts" using inv by (simp add: dfa_inv_def)
  have "dfa_for N ds ?Ts"
    unfolding dfa_for_def
  proof (intro conjI allI impI)
    show "length ds = length ?Ts" using num by (simp add: numbering_def)
    fix j assume j: "j < length ?Ts"
    have mem: "?Ts ! j \<in> set ?Ts" using j by (rule nth_mem)
    show b: "?Ts ! j \<noteq> {}" "?Ts ! j \<subseteq> {..<length N}" using num mem by (auto simp: numbering_def)
    show "ds_accept (ds ! j) = accepts_set N (?Ts ! j)" using num j by (simp add: numbering_def)
    fix c
    have t: "ds_transitions (ds ! j) = row N ids (?Ts ! j) (chars_vec N)"
      "\<forall>c \<in> set (chars_vec N). delta N (?Ts ! j) c \<noteq> {} \<longrightarrow> ids (delta N (?Ts ! j) c) \<noteq> None"
      using inv j by (auto simp: dfa_inv_def)
    have f: "find_transition ds j c = (if c \<in> set (chars_vec N) \<and> delta N (?Ts ! j) c \<noteq> {}
        then Some (the (ids (delta N (?Ts ! j) c))) else None)"
      using find_transition_strict [of ds j c] row_strict [OF chars_vec_strict]
      by (simp add: t(1) map_of_row)
    show "if delta N (?Ts ! j) c = {} then find_transition ds j c = None
        else \<exists>i < length ?Ts. ?Ts ! i = delta N (?Ts ! j) c \<and> find_transition ds j c = Some i"
    proof (cases "delta N (?Ts ! j) c = {}")
      case False
      then have c: "c \<in> set (chars_vec N)" using delta_other b(2) by blast
      then obtain i where "ids (delta N (?Ts ! j) c) = Some i" using t(2) False by blast
      moreover from this num have "i < length ?Ts \<and> ?Ts ! i = delta N (?Ts ! j) c"
        unfolding numbering_def by blast
      ultimately show ?thesis using f c False by auto
    qed (simp add: f)
  qed
  with r S(3) show ?thesis by (auto simp: nfa_to_dfa_def)
qed


subsection \<open>Runs of the state machine are runs of the automaton\<close>

fun deltas :: "nfa_state list \<Rightarrow> nat set \<Rightarrow> uchar list \<Rightarrow> nat set" where
  "deltas N S [] = S"
| "deltas N S (c # w) = deltas N (delta N S c) w"

lemma deltas_append: "deltas N S (u @ w) = deltas N (deltas N S u) w"
  by (induction N S u rule: deltas.induct) simp_all

lemma delta_empty [simp]: "delta N {} c = {}"
  by (simp add: delta_def clo_def reaches_def)

lemma deltas_empty [simp]: "deltas N {} w = {}"
  by (induction w) simp_all

lemma clo_path: "t \<in> clo N S \<longleftrightarrow> (\<exists>s \<in> S. nfa_path N s [] t)"
proof
  assume "t \<in> clo N S"
  then obtain s where s: "s \<in> S" "(s, t) \<in> (edges (eps_succs N))\<^sup>*" by (auto simp: clo_def reaches_def)
  from s(2) have "nfa_path N s [] t"
    by (induction rule: converse_rtrancl_induct)
      (auto simp: edges_def eps_succs_mem intro: nfa_path.intros)
  with s(1) show "\<exists>s \<in> S. nfa_path N s [] t" by blast
next
  assume "\<exists>s \<in> S. nfa_path N s [] t"
  then obtain s where s: "s \<in> S" "nfa_path N s [] t" by blast
  have "(p, q) \<in> (edges (eps_succs N))\<^sup>*" if "nfa_path N p w q" "w = []" for p w q
    using that
  proof (induction rule: nfa_path.induct)
    case (path_eps p q w r)
    then have "(p, q) \<in> edges (eps_succs N)" by (force simp: edges_def eps_succs_def)
    with path_eps show ?case by (simp add: converse_rtrancl_into_rtrancl)
  qed simp_all
  with s show "t \<in> clo N S" by (auto simp: clo_def reaches_def)
qed

lemma path_char_split: "nfa_path N p (c # w) r \<longleftrightarrow>
    (\<exists>q q'. nfa_path N p [] q \<and> q < length N \<and> (Some c, q') \<in> set (ns_transitions (N ! q)) \<and> nfa_path N q' w r)"
proof
  assume "nfa_path N p (c # w) r"
  then show "\<exists>q q'. nfa_path N p [] q \<and> q < length N \<and> (Some c, q') \<in> set (ns_transitions (N ! q)) \<and>
      nfa_path N q' w r"
  proof (induction p "c # w" r rule: nfa_path.induct)
    case (path_eps p q r)
    then show ?case by (meson nfa_path.path_eps)
  next
    case (path_char p q r)
    then show ?case by (meson nfa_path.path_refl)
  qed
next
  assume "\<exists>q q'. nfa_path N p [] q \<and> q < length N \<and> (Some c, q') \<in> set (ns_transitions (N ! q)) \<and>
      nfa_path N q' w r"
  then show "nfa_path N p (c # w) r"
    using path_append [of N p "[]"] nfa_path.path_char by (metis append_Nil)
qed

lemma delta_path:
  assumes "clo N S = S" "S \<subseteq> {..<length N}"
  shows "t \<in> delta N S c \<longleftrightarrow> (\<exists>s \<in> S. \<exists>q. (Some c, q) \<in> set (ns_transitions (N ! s)) \<and> nfa_path N q [] t)"
  unfolding delta_def clo_path by (simp only: UN_iff char_targets_mem Bex_def) blast

lemma deltas_path:
  assumes "nfa_closed N" "clo N S = S" "S \<subseteq> {..<length N}"
  shows "t \<in> deltas N S w \<longleftrightarrow> (\<exists>s \<in> S. nfa_path N s w t)"
  using assms(2,3)
proof (induction w arbitrary: S)
  case Nil
  then show ?case using clo_path [of t N S] by simp
next
  case (Cons c w)
  have "t \<in> deltas N S (c # w) \<longleftrightarrow> (\<exists>u \<in> delta N S c. nfa_path N u w t)"
    using Cons.IH [OF delta_closed delta_bound [OF assms(1) Cons.prems(2)]] by simp
  also have "\<dots> \<longleftrightarrow> (\<exists>s \<in> S. \<exists>q. (Some c, q) \<in> set (ns_transitions (N ! s)) \<and> nfa_path N q w t)"
    unfolding delta_path [OF Cons.prems] Bex_def
    using path_append [of N _ "[]" _ w t] nfa_path.path_refl by (metis append_Nil)
  also have "\<dots> \<longleftrightarrow> (\<exists>s \<in> S. nfa_path N s (c # w) t)"
  proof
    assume "\<exists>s \<in> S. \<exists>q. (Some c, q) \<in> set (ns_transitions (N ! s)) \<and> nfa_path N q w t"
    then show "\<exists>s \<in> S. nfa_path N s (c # w) t" using Cons.prems(2) by (auto intro: nfa_path.path_char)
  next
    assume "\<exists>s \<in> S. nfa_path N s (c # w) t"
    then obtain s q q' where "s \<in> S" "nfa_path N s [] q" "(Some c, q') \<in> set (ns_transitions (N ! q))"
      "nfa_path N q' w t" unfolding path_char_split by blast
    moreover from this have "q \<in> S" using clo_path [of q N S] Cons.prems(1) by auto
    ultimately show "\<exists>s \<in> S. \<exists>q. (Some c, q) \<in> set (ns_transitions (N ! s)) \<and> nfa_path N q w t" by blast
  qed
  finally show ?case .
qed

lemma dfa_forD:
  assumes "dfa_for N ds Ts" "j < length Ts"
  shows "Ts ! j \<noteq> {}" "Ts ! j \<subseteq> {..<length N}" "ds_accept (ds ! j) = accepts_set N (Ts ! j)" "length ds = length Ts"
    "find_transition ds j c = None \<longleftrightarrow> delta N (Ts ! j) c = {}"
    "find_transition ds j c = Some i \<Longrightarrow> i < length Ts \<and> Ts ! i = delta N (Ts ! j) c"
proof -
  have f: "if delta N (Ts ! j) c = {} then find_transition ds j c = None
      else \<exists>i < length Ts. Ts ! i = delta N (Ts ! j) c \<and> find_transition ds j c = Some i"
    using assms by (simp add: dfa_for_def)
  show "Ts ! j \<noteq> {}" "Ts ! j \<subseteq> {..<length N}" "ds_accept (ds ! j) = accepts_set N (Ts ! j)" "length ds = length Ts"
    using assms by (simp_all add: dfa_for_def)
  show "find_transition ds j c = None \<longleftrightarrow> delta N (Ts ! j) c = {}" using f by (auto split: if_splits)
  show "find_transition ds j c = Some i \<Longrightarrow> i < length Ts \<and> Ts ! i = delta N (Ts ! j) c"
    using f by (auto split: if_splits)
qed

lemma token_run_deltas:
  assumes "dfa_for N ds Ts" "j < length Ts"
  shows "token_run ds j w \<longleftrightarrow> deltas N (Ts ! j) w \<noteq> {}"
  using assms(2)
proof (induction w arbitrary: j)
  case (Cons c w)
  show ?case
  proof (cases "find_transition ds j c")
    case None
    with dfa_forD(5) [OF assms(1) Cons.prems, of c] show ?thesis by simp
  next
    case (Some i)
    with dfa_forD(6) [OF assms(1) Cons.prems Some] Cons.IH [of i] show ?thesis by simp
  qed
qed (simp add: dfa_forD(1) [OF assms(1)])

lemma advance_states [simp]: "fs_states (snd (advance w f)) = fs_states f" "fs_start (snd (advance w f)) = fs_start f"
  by (induction w f rule: advance.induct) (simp_all split: option.split)

lemma advance_deltas:
  assumes "dfa_for N (fs_states f) Ts" "fs_current f < length Ts"
  shows "fst (advance w f) = Inr () \<longleftrightarrow> deltas N (Ts ! fs_current f) w \<noteq> {}"
    "fst (advance w f) = Inr () \<Longrightarrow> fs_current (snd (advance w f)) < length Ts \<and>
       Ts ! fs_current (snd (advance w f)) = deltas N (Ts ! fs_current f) w"
    "fs_current (snd (advance w f)) < length Ts"
  using assms
proof (induction w f rule: advance.induct)
  case (1 f)
  {
    case 1
    then show ?case by (simp add: dfa_forD(1))
  next
    case 2
    then show ?case by simp
  next
    case 3
    then show ?case by simp
  }
next
  case (2 c cs f)
  {
    case 1
    show ?case
    proof (cases "find_transition (fs_states f) (fs_current f) c")
      case None
      with dfa_forD(5) [OF 1, of c] show ?thesis by simp
    next
      case (Some t)
      with dfa_forD(6) [OF 1 Some] 2(1) [OF Some] 1 show ?thesis by simp
    qed
  next
    case 2
    show ?case
    proof (cases "find_transition (fs_states f) (fs_current f) c")
      case None
      with 2 show ?thesis by simp
    next
      case (Some t)
      with dfa_forD(6) [OF 2(2,3) Some] "2.IH"(2) [OF Some] 2 show ?thesis by simp
    qed
  next
    case 3
    show ?case
    proof (cases "find_transition (fs_states f) (fs_current f) c")
      case None
      with 3 show ?thesis by simp
    next
      case (Some t)
      with dfa_forD(6) [OF 3 Some] "2.IH"(3) [OF Some] 3 show ?thesis by simp
    qed
  }
qed

text \<open>The state machine of well-formed automata.\<close>

definition viable :: "nfa_state list \<Rightarrow> uchar list \<Rightarrow> bool" where
  "viable N w \<longleftrightarrow> (\<exists>q. nfa_path N 0 w q)"

lemma fsm_runs:
  assumes "nfa_closed N" "dfa_for N ds Ts" "Ts \<noteq> []" "Ts ! 0 = clo N {0}" "N \<noteq> []"
  shows "fst (advance u (fsm_new ds 0)) = Inr () \<longleftrightarrow> viable N u"
    "fst (advance u (fsm_new ds 0)) = Inr () \<and> is_valid_token (snd (advance u (fsm_new ds 0))) t \<longleftrightarrow> viable N (u @ t)"
    "fst (advance u (fsm_new ds 0)) = Inr () \<and> is_accepting (snd (advance u (fsm_new ds 0))) \<longleftrightarrow> nfa_accepts N 0 u"
proof -
  let ?f = "fsm_new ds 0"
  have f: "dfa_for N (fs_states ?f) Ts" "fs_current ?f < length Ts" "fs_states ?f = ds" "fs_current ?f = 0"
    using assms by (simp_all add: fsm_new_def)
  note adv = advance_deltas [OF f(1,2)]
  have S: "clo N (clo N {0}) = clo N {0}" "clo N {0} \<subseteq> {..<length N}"
    using clo_bound [OF assms(1), of "{0}"] assms(5) by (simp_all add: clo_idem)
  have path: "q \<in> deltas N (Ts ! 0) w \<longleftrightarrow> nfa_path N 0 w q" for q w
  proof -
    have "q \<in> deltas N (clo N {0}) w \<longleftrightarrow> (\<exists>s. nfa_path N 0 [] s \<and> nfa_path N s w q)"
      unfolding deltas_path [OF assms(1) S] by (auto simp: clo_path)
    also have "\<dots> \<longleftrightarrow> nfa_path N 0 w q"
      using path_append [of N 0 "[]" _ w q] nfa_path.path_refl by (metis append_Nil)
    finally show ?thesis by (simp add: assms(4))
  qed
  then have ne: "deltas N (Ts ! 0) w \<noteq> {} \<longleftrightarrow> viable N w" for w
    unfolding viable_def by blast
  show a: "fst (advance u ?f) = Inr () \<longleftrightarrow> viable N u"
    using adv(1) [of u] by (simp add: f(4) ne)
  have cur: "fs_current (snd (advance u ?f)) < length Ts"
    "Ts ! fs_current (snd (advance u ?f)) = deltas N (Ts ! 0) u" if "viable N u"
    using adv(2) [of u] a that by (simp_all add: f(4))
  have "is_valid_token (snd (advance u ?f)) t \<longleftrightarrow> viable N (u @ t)" if "viable N u"
    using token_run_deltas [OF assms(2) cur(1) [OF that], of t] cur(2) [OF that]
    by (simp add: is_valid_token_def f(3) deltas_append [symmetric] ne)
  moreover have "viable N u" if "viable N (u @ t)"
    using that ne deltas_append deltas_empty by metis
  ultimately show "fst (advance u ?f) = Inr () \<and> is_valid_token (snd (advance u ?f)) t \<longleftrightarrow> viable N (u @ t)"
    using a by blast
  have "is_accepting (snd (advance u ?f)) \<longleftrightarrow> nfa_accepts N 0 u" if v: "viable N u"
  proof -
    have "is_accepting (snd (advance u ?f)) \<longleftrightarrow> accepts_set N (deltas N (Ts ! 0) u)"
      using dfa_forD(3,4) [OF assms(2) cur(1) [OF v]] cur [OF v] by (simp add: is_accepting_def f(3))
    also have "\<dots> \<longleftrightarrow> nfa_accepts N 0 u"
      using path_bound [OF _ assms(1)] assms(5) by (auto simp: accepts_set_def path nfa_accepts_def)
    finally show ?thesis .
  qed
  moreover have "viable N u" if "nfa_accepts N 0 u" using that by (auto simp: nfa_accepts_def viable_def)
  ultimately show "fst (advance u ?f) = Inr () \<and> is_accepting (snd (advance u ?f)) \<longleftrightarrow> nfa_accepts N 0 u"
    using a by blast
qed

lemma compiled_fsm:
  assumes "compile_ref (gm_rules g) [] (gm_root g) = Inr A"
  obtains ds Ts where "compile_grammar g = Some (Inr (fsm_new ds 0))" "dfa_for (nf_states A) ds Ts" "Ts \<noteq> []"
    "Ts ! 0 = clo (nf_states A) {0}" "nfa_closed (nf_states A)" "nf_states A \<noteq> []"
proof -
  have A: "nf_start A = 0" "nfa_closed (nf_states A)" "nf_accept A < length (nf_states A)"
    using compile_wf(4) [OF assms] by (simp_all add: frag_ok_def)
  then have "0 < length (nf_states A)" by linarith
  from nfa_to_dfa_spec [OF A(2) this] obtain ds Ts where
    "nfa_to_dfa (nf_states A) 0 = Some ds" "dfa_for (nf_states A) ds Ts" "Ts \<noteq> []" "Ts ! 0 = clo (nf_states A) {0}"
    by blast
  with that A assms \<open>0 < length (nf_states A)\<close> show ?thesis by (simp add: compile_grammar_def)
qed

text \<open>C36: Compiling a grammar ends without a panic.  It gives a state machine exactly if every rule
  reached from the root is defined and none of them reaches itself; otherwise it reports the error.\<close>
theorem compile_grammar_total:
  "compile_grammar g \<noteq> None \<and>
   ((\<exists>f. compile_grammar g = Some (Inr f)) \<longleftrightarrow> resolvable (gm_rules g) [] (gm_root g))"
proof (cases "compile_ref (gm_rules g) [] (gm_root g)")
  case (Inl e)
  then have "\<not> resolvable (gm_rules g) [] (gm_root g)"
    using compile_succeeds(4) [of "gm_rules g" "[]" "gm_root g"] by simp
  with Inl show ?thesis by (simp add: compile_grammar_def)
next
  case (Inr A)
  then have "resolvable (gm_rules g) [] (gm_root g)"
    using compile_succeeds(4) [of "gm_rules g" "[]" "gm_root g"] by simp
  moreover obtain ds where "compile_grammar g = Some (Inr (fsm_new ds 0))"
    using compiled_fsm [OF Inr] by blast
  ultimately show ?thesis by simp
qed

text \<open>C38: The state machine of a grammar runs its automaton exactly, after any text \<open>u\<close> fed to
  \<open>advance\<close>: \<open>u\<close> is taken iff the automaton has a run on it; then a token is unmasked iff \<open>u\<close> and the
  token have a run, and the machine accepts iff the automaton accepts \<open>u\<close>.\<close>
theorem fsm_simulates_nfa:
  "case compile_ref (gm_rules g) [] (gm_root g) of
     Inl e \<Rightarrow> compile_grammar g = Some (Inl e)
   | Inr A \<Rightarrow> \<exists>f. compile_grammar g = Some (Inr f) \<and> (\<forall>u t.
       (fst (advance u f) = Inr () \<longleftrightarrow> viable (nf_states A) u) \<and>
       (fst (advance u f) = Inr () \<and> is_valid_token (snd (advance u f)) t \<longleftrightarrow> viable (nf_states A) (u @ t)) \<and>
       (fst (advance u f) = Inr () \<and> is_accepting (snd (advance u f)) \<longleftrightarrow> nfa_accepts (nf_states A) 0 u))"
proof (cases "compile_ref (gm_rules g) [] (gm_root g)")
  case (Inl e)
  then show ?thesis by (simp add: compile_grammar_def)
next
  case (Inr A)
  obtain ds Ts where c: "compile_grammar g = Some (Inr (fsm_new ds 0))" "dfa_for (nf_states A) ds Ts" "Ts \<noteq> []"
    "Ts ! 0 = clo (nf_states A) {0}" "nfa_closed (nf_states A)" "nf_states A \<noteq> []"
    by (rule compiled_fsm [OF Inr])
  with fsm_runs [OF c(5,2,3,4,6)] Inr show ?thesis by simp
qed

lemma mask_advance: "is_valid_token f w \<longleftrightarrow> fst (advance w f) = Inr ()"
  unfolding is_valid_token_def
  by (induction w f rule: advance.induct) (simp_all split: option.split)

end
