(* ===== verification/GrammarLang.thy ===== *)
theory GrammarLang
  imports GrammarDfa
begin

text \<open>
  What the state machine of a grammar accepts, against the language its syntax tree denotes
  (\<open>grammar.rs\<close>): literals and character classes exactly, grammars of literals, classes, sequences and
  references at least.  Alternation and repetition lose words, and a sequence gains some; the last theorem
  computes the accepted language of the smallest such grammars.
\<close>

subsection \<open>The language of a syntax tree\<close>

inductive derives :: "(uchar list \<times> gnode) list \<Rightarrow> gnode \<Rightarrow> uchar list \<Rightarrow> bool"
  and derives_seq :: "(uchar list \<times> gnode) list \<Rightarrow> gnode list \<Rightarrow> uchar list \<Rightarrow> bool" for rs where
  d_lit: "derives rs (Lit s) s"
| d_hex: "derives rs (HexByte b) [unat b]"
| d_class: "c \<in> set (class_chars ranges negated) \<Longrightarrow> derives rs (CharClass ranges negated) [c]"
| d_any: "c \<in> set class_universe \<Longrightarrow> derives rs AnyChar [c]"
| d_seq: "derives_seq rs ns w \<Longrightarrow> derives rs (Seq ns) w"
| d_alt_nil: "derives rs (Alt []) []"
| d_alt: "n \<in> set ns \<Longrightarrow> derives rs n w \<Longrightarrow> derives rs (Alt ns) w"
| d_star_nil: "derives rs (Star n) []"
| d_star: "derives rs n u \<Longrightarrow> derives rs (Star n) w \<Longrightarrow> derives rs (Star n) (u @ w)"
| d_plus: "derives rs n u \<Longrightarrow> derives rs (Star n) w \<Longrightarrow> derives rs (Plus n) (u @ w)"
| d_opt_nil: "derives rs (Opt n) []"
| d_opt: "derives rs n w \<Longrightarrow> derives rs (Opt n) w"
| d_ref: "map_of rs r = Some n \<Longrightarrow> derives rs n w \<Longrightarrow> derives rs (Ref r) w"
| d_nil: "derives_seq rs [] []"
| d_cons: "derives rs n u \<Longrightarrow> derives_seq rs ns w \<Longrightarrow> derives_seq rs (n # ns) (u @ w)"

inductive_cases derives_elims:
  "derives rs (Lit s) w" "derives rs (HexByte b) w" "derives rs (CharClass ranges negated) w"
  "derives rs AnyChar w" "derives rs (Seq ns) w" "derives rs (Ref r) w"
  "derives_seq rs [] w" "derives_seq rs (n # ns) w"

definition fsm_accepts :: "fsm \<Rightarrow> uchar list \<Rightarrow> bool" where
  "fsm_accepts f w \<longleftrightarrow> fst (advance w f) = Inr () \<and> is_accepting (snd (advance w f))"

lemma compiled_accepts:
  assumes "compile_ref (gm_rules g) [] (gm_root g) = Inr A"
  shows "\<exists>f. compile_grammar g = Some (Inr f) \<and> (\<forall>w. fsm_accepts f w \<longleftrightarrow> nfa_accepts (nf_states A) 0 w)"
proof -
  obtain ds Ts where c: "compile_grammar g = Some (Inr (fsm_new ds 0))" "dfa_for (nf_states A) ds Ts" "Ts \<noteq> []"
    "Ts ! 0 = clo (nf_states A) {0}" "nfa_closed (nf_states A)" "nf_states A \<noteq> []"
    by (rule compiled_fsm [OF assms])
  with fsm_runs(3) [OF c(5,2,3,4,6)] show ?thesis by (auto simp: fsm_accepts_def)
qed

subsection \<open>Literals and classes\<close>

inductive_cases path_elims: "nfa_path N p w q"

lemma path_no_trans: "nfa_path N p w q \<Longrightarrow> ns_transitions (N ! p) = [] \<Longrightarrow> w = [] \<and> q = p"
  by (erule path_elims) auto

text \<open>The state of a literal's fragment after \<open>i\<close> characters.\<close>

definition lit_pos :: "nat \<Rightarrow> nat" where
  "lit_pos i = (if i = 0 then 0 else Suc i)"

lemma lit_pos_trans:
  assumes "s \<noteq> []" "i \<le> length s"
  shows "ns_transitions (nf_states (compile_lit s) ! lit_pos i) =
    (if i < length s then [(Some (s ! i), lit_pos (Suc i))] else [])"
proof (cases i)
  case 0
  with compile_lit_states(4) [OF assms(1)] assms show ?thesis by (simp add: lit_pos_def hd_conv_nth)
next
  case (Suc k)
  with compile_lit_states(6) [OF assms(1), of k] assms(2) show ?thesis by (simp add: lit_pos_def)
qed

lemma ex_le_Suc: "(\<exists>k \<le> Suc n. P k) \<longleftrightarrow> P 0 \<or> (\<exists>k \<le> n. P (Suc k))"
  using Ex_less_Suc2 [of "Suc n" P] by (simp only: less_Suc_eq_le)

lemma lit_path:
  assumes "s \<noteq> []" "i \<le> length s"
  shows "nfa_path (nf_states (compile_lit s)) (lit_pos i) w q \<longleftrightarrow>
    (\<exists>k \<le> length s - i. w = take k (drop i s) \<and> q = lit_pos (i + k))"
  using assms(2)
proof (induction "length s - i" arbitrary: i w)
  case 0
  then have i: "i = length s" by simp
  have t: "ns_transitions (nf_states (compile_lit s) ! lit_pos i) = []"
    using lit_pos_trans [OF assms(1), of i] i by simp
  show ?case using path_no_trans [OF _ t] i by (auto intro: nfa_path.path_refl)
next
  case (Suc n)
  let ?N = "nf_states (compile_lit s)"
  have i: "i < length s" using Suc.hyps(2) by simp
  have t: "ns_transitions (?N ! lit_pos i) = [(Some (s ! i), lit_pos (Suc i))]"
    using lit_pos_trans [OF assms(1), of i] i by simp
  have l: "lit_pos i < length ?N" using i compile_lit_states(3) [OF assms(1)] by (simp add: lit_pos_def)
  have "nfa_path ?N (lit_pos i) w q \<longleftrightarrow>
      w = [] \<and> q = lit_pos i \<or> (\<exists>w'. w = s ! i # w' \<and> nfa_path ?N (lit_pos (Suc i)) w' q)"
  proof
    assume "nfa_path ?N (lit_pos i) w q"
    then show "w = [] \<and> q = lit_pos i \<or> (\<exists>w'. w = s ! i # w' \<and> nfa_path ?N (lit_pos (Suc i)) w' q)"
      by (rule path_elims) (use t in auto)
  next
    assume "w = [] \<and> q = lit_pos i \<or> (\<exists>w'. w = s ! i # w' \<and> nfa_path ?N (lit_pos (Suc i)) w' q)"
    then show "nfa_path ?N (lit_pos i) w q"
      using l t by (auto intro: nfa_path.path_refl nfa_path.path_char)
  qed
  also have "\<dots> \<longleftrightarrow> w = [] \<and> q = lit_pos i \<or>
      (\<exists>k \<le> length s - Suc i. w = s ! i # take k (drop (Suc i) s) \<and> q = lit_pos (Suc i + k))"
    using Suc.hyps(1) [of "Suc i"] Suc.hyps(2) i by auto
  also have "\<dots> \<longleftrightarrow> (\<exists>k \<le> length s - i. w = take k (drop i s) \<and> q = lit_pos (i + k))"
  proof -
    have d: "drop i s = s ! i # drop (Suc i) s" using i by (simp add: Cons_nth_drop_Suc)
    have n: "length s - i = Suc (length s - Suc i)" using i by simp
    show ?thesis unfolding n d by (subst ex_le_Suc) simp
  qed
  finally show ?case .
qed

lemma lit_accepts: "nfa_accepts (nf_states (compile_lit s)) 0 w \<longleftrightarrow> w = s"
proof (cases "s = []")
  case True
  let ?N = "nf_states (compile_lit s)"
  have N: "?N = [\<lparr>ns_transitions = [(None, 1)], ns_accept = False\<rparr>, \<lparr>ns_transitions = [], ns_accept = True\<rparr>]"
    by (simp add: compile_lit_def True epsilon_fragment_def add_epsilon_def add_transition_def nfa_new_def)
  have "nfa_path ?N 0 w q \<longleftrightarrow> w = [] \<and> q < 2" for q
  proof
    assume "nfa_path ?N 0 w q"
    then show "w = [] \<and> q < 2"
      by (rule path_elims) (auto simp: N dest!: path_no_trans)
  next
    assume "w = [] \<and> q < 2"
    then show "nfa_path ?N 0 w q"
      by (auto simp: N less_2_cases_iff intro: nfa_path.intros)
  qed
  note p = this
  have "nfa_accepts ?N 0 w \<longleftrightarrow> w = []"
  proof
    assume "nfa_accepts ?N 0 w"
    then obtain q where "nfa_path ?N 0 w q" by (auto simp: nfa_accepts_def)
    with p show "w = []" by blast
  next
    assume "w = []"
    then have "nfa_path ?N 0 w 1" using p [of 1] by simp
    moreover have "1 < length ?N" "ns_accept (?N ! 1)" by (simp_all add: N)
    ultimately show "nfa_accepts ?N 0 w" by (auto simp: nfa_accepts_def)
  qed
  with True show ?thesis by simp
next
  case False
  note c = compile_lit_states [OF False]
  have p: "nfa_path (nf_states (compile_lit s)) 0 w q \<longleftrightarrow> (\<exists>k \<le> length s. w = take k s \<and> q = lit_pos k)" for q
    using lit_path [OF False, of 0] by (simp add: lit_pos_def)
  show ?thesis
  proof
    assume "nfa_accepts (nf_states (compile_lit s)) 0 w"
    then obtain k where "k \<le> length s" "w = take k s" "ns_accept (nf_states (compile_lit s) ! lit_pos k)"
      by (auto simp: nfa_accepts_def p)
    moreover from this c(7) [of "lit_pos k"] False have "k = length s"
      by (auto simp: lit_pos_def split: if_splits)
    ultimately show "w = s" by simp
  next
    assume "w = s"
    then show "nfa_accepts (nf_states (compile_lit s)) 0 w"
      using False c(3) c(7) [of "Suc (length s)"] p by (force simp: nfa_accepts_def lit_pos_def)
  qed
qed

lemma chars_accepts: "nfa_accepts (nf_states (compile_chars cs)) 0 w \<longleftrightarrow> (\<exists>c \<in> set cs. w = [c])"
proof -
  let ?N = "nf_states (compile_chars cs)"
  note c = compile_chars_states [of cs]
  have "nfa_path ?N 0 w q \<longleftrightarrow> w = [] \<and> q = 0 \<or> (\<exists>c \<in> set cs. w = [c] \<and> q = 2)" for q
  proof
    assume "nfa_path ?N 0 w q"
    then show "w = [] \<and> q = 0 \<or> (\<exists>c \<in> set cs. w = [c] \<and> q = 2)"
      by (rule path_elims) (use c(4) in \<open>auto dest!: path_no_trans [OF _ c(6)]\<close>)
  next
    assume "w = [] \<and> q = 0 \<or> (\<exists>c \<in> set cs. w = [c] \<and> q = 2)"
    then show "nfa_path ?N 0 w q"
      using c(3,4) by (auto intro!: nfa_path.path_refl nfa_path.path_char)
  qed
  then show ?thesis using c(3,7,8) by (auto simp: nfa_accepts_def)
qed

text \<open>A grammar of one rule.\<close>

definition one_rule :: "uchar list \<Rightarrow> gnode \<Rightarrow> grammar" where
  "one_rule r n = \<lparr>gm_rules = [(r, n)], gm_root = r\<rparr>"

lemma one_rule_ref: "compile_ref (gm_rules (one_rule r n)) [] (gm_root (one_rule r n)) = compile_node [(r, n)] [r] n"
  by (subst compile_ref.simps) (simp add: one_rule_def)

lemma one_rule_accepts:
  assumes "compile_node [(r, n)] [r] n = Inr A"
  shows "\<exists>f. compile_grammar (one_rule r n) = Some (Inr f) \<and>
    (\<forall>w. fsm_accepts f w \<longleftrightarrow> nfa_accepts (nf_states A) 0 w)"
  by (rule compiled_accepts) (simp only: one_rule_ref assms)


text \<open>A grammar whose root is a literal accepts exactly that literal, one whose root is a hex byte
  exactly that character, one whose root is a character class (or any) exactly the characters of the
  class (of the fixed universe).\<close>
theorem atoms_exact:
  "(\<exists>f. compile_grammar (one_rule r (Lit s)) = Some (Inr f) \<and> (\<forall>w. fsm_accepts f w \<longleftrightarrow> w = s)) \<and>
   (\<exists>f. compile_grammar (one_rule r (HexByte b)) = Some (Inr f) \<and> (\<forall>w. fsm_accepts f w \<longleftrightarrow> w = [unat b])) \<and>
   (\<exists>f. compile_grammar (one_rule r (CharClass ranges negated)) = Some (Inr f) \<and>
      (\<forall>w. fsm_accepts f w \<longleftrightarrow> w \<in> (\<lambda>c. [c]) ` set (class_chars ranges negated))) \<and>
   (\<exists>f. compile_grammar (one_rule r AnyChar) = Some (Inr f) \<and>
      (\<forall>w. fsm_accepts f w \<longleftrightarrow> w \<in> (\<lambda>c. [c]) ` set class_universe))"
proof (intro conjI)
  show "\<exists>f. compile_grammar (one_rule r (Lit s)) = Some (Inr f) \<and> (\<forall>w. fsm_accepts f w \<longleftrightarrow> w = s)"
    using one_rule_accepts [of r "Lit s" "compile_lit s"] by (simp add: lit_accepts)
  show "\<exists>f. compile_grammar (one_rule r (HexByte b)) = Some (Inr f) \<and> (\<forall>w. fsm_accepts f w \<longleftrightarrow> w = [unat b])"
    using one_rule_accepts [of r "HexByte b" "compile_lit [unat b]"] by (simp add: lit_accepts)
  show "\<exists>f. compile_grammar (one_rule r (CharClass ranges negated)) = Some (Inr f) \<and>
      (\<forall>w. fsm_accepts f w \<longleftrightarrow> w \<in> (\<lambda>c. [c]) ` set (class_chars ranges negated))"
    using one_rule_accepts [of r "CharClass ranges negated" "compile_chars (class_chars ranges negated)"]
    by (simp add: compile_char_class_def chars_accepts image_iff)
  show "\<exists>f. compile_grammar (one_rule r AnyChar) = Some (Inr f) \<and>
      (\<forall>w. fsm_accepts f w \<longleftrightarrow> w \<in> (\<lambda>c. [c]) ` set class_universe)"
    using one_rule_accepts [of r AnyChar "compile_chars class_universe"]
    by (simp add: compile_any_def chars_accepts image_iff)
qed

subsection \<open>Sequences accept every concatenation\<close>

text \<open>Runs survive where every transition is found again, shifted by \<open>k\<close>.\<close>

lemma path_embed:
  assumes "nfa_path N p w q" "length N + k \<le> length M"
    and "\<And>s c t. s < length N \<Longrightarrow> (c, t) \<in> set (ns_transitions (N ! s)) \<Longrightarrow>
      (c, t + k) \<in> set (ns_transitions (M ! (s + k)))"
  shows "nfa_path M (p + k) w (q + k)"
  using assms(1)
proof (induction rule: nfa_path.induct)
  case (path_refl p)
  show ?case by (rule nfa_path.path_refl)
next
  case (path_eps p q w r)
  show ?case
    by (rule nfa_path.path_eps [of _ _ "q + k"]) (use path_eps assms(2,3) in auto)
next
  case (path_char p c q w r)
  show ?case
    by (rule nfa_path.path_char [of _ _ _ "q + k"]) (use path_char assms(2,3) in auto)
qed

definition frag_word :: "nfa \<Rightarrow> uchar list \<Rightarrow> bool" where
  "frag_word A w \<longleftrightarrow> nfa_path (nf_states A) 0 w (nf_accept A)"

lemma frag_word_accepts: "frag_ok A \<Longrightarrow> frag_word A w \<Longrightarrow> nfa_accepts (nf_states A) 0 w"
  by (auto simp: frag_word_def nfa_accepts_def frag_ok_def)

lemma seq_append_word:
  assumes "frag_ok A" "frag_ok B" "frag_word A u" "frag_word B w"
  shows "frag_word (seq_append A B) (u @ w)"
proof -
  let ?n = "length (nf_states A)" and ?S = "nf_states (seq_append A B)"
  note s = seq_append_states [OF assms(1,2)]
  have acc: "nf_accept A < ?n" using assms(1) by (simp add: frag_ok_def)
  have 1: "nfa_path ?S (0 + 0) u (nf_accept A + 0)"
    by (rule path_embed [OF assms(3) [unfolded frag_word_def]]) (use s(3,4) in auto)
  have 2: "nfa_path ?S (nf_accept A) [] ?n"
  proof (rule nfa_path.path_eps [of _ _ ?n])
    show "nf_accept A < length ?S" using acc s(3) by simp
    show "(None, ?n) \<in> set (ns_transitions (?S ! nf_accept A))" using s(4) [OF acc] by simp
  qed (rule nfa_path.path_refl)
  have 3: "nfa_path ?S (0 + ?n) w (nf_accept B + ?n)"
  proof (rule path_embed [OF assms(4) [unfolded frag_word_def]])
    show "length (nf_states B) + ?n \<le> length ?S" using s(3) by simp
    fix j c t assume j: "j < length (nf_states B)" "(c, t) \<in> set (ns_transitions (nf_states B ! j))"
    have "(\<lambda>(ch, t). (ch, t + ?n)) (c, t) \<in> (\<lambda>(ch, t). (ch, t + ?n)) ` set (ns_transitions (nf_states B ! j))"
      using j(2) by (rule imageI)
    then show "(c, t + ?n) \<in> set (ns_transitions (?S ! (j + ?n)))"
      using s(5) [OF j(1)] by (simp add: add.commute)
  qed
  have "nfa_path ?S 0 u (nf_accept A)" "nfa_path ?S ?n w (nf_accept B + ?n)" using 1 3 by simp_all
  from path_append [OF path_append [OF this(1) 2] this(2)] show ?thesis
    using s(2) by (simp add: frag_word_def add.commute)
qed

lemma lit_word: "frag_word (compile_lit s) s"
proof (cases "s = []")
  case True
  have N: "nf_states (compile_lit s) = [\<lparr>ns_transitions = [(None, 1)], ns_accept = False\<rparr>, \<lparr>ns_transitions = [], ns_accept = True\<rparr>]"
    "nf_accept (compile_lit s) = 1"
    by (simp_all add: compile_lit_def True epsilon_fragment_def add_epsilon_def add_transition_def nfa_new_def)
  have "nfa_path (nf_states (compile_lit s)) 0 [] 1"
  proof (rule nfa_path.path_eps [of _ _ 1])
    show "0 < length (nf_states (compile_lit s))" by (simp add: N(1))
    show "(None, 1) \<in> set (ns_transitions (nf_states (compile_lit s) ! 0))" by (simp add: N(1))
  qed (rule nfa_path.path_refl)
  then show ?thesis using True N(2) by (simp add: frag_word_def)
next
  case False
  then show ?thesis
    using lit_path [OF False, of 0 s] compile_lit_states(2) [OF False]
    by (auto simp: frag_word_def lit_pos_def intro!: exI [of _ "length s"])
qed

lemma chars_word: "c \<in> set cs \<Longrightarrow> frag_word (compile_chars cs) [c]"
  using compile_chars_states [of cs]
  by (auto simp: frag_word_def intro!: nfa_path.path_char nfa_path.path_refl)

text \<open>Syntax without alternation and repetition.\<close>

fun flat :: "gnode \<Rightarrow> bool" where
  "flat (Seq ns) = list_all flat ns"
| "flat (Alt ns) = False"
| "flat (Star n) = False"
| "flat (Plus n) = False"
| "flat (Opt n) = False"
| "flat n = True"

lemma flat_compile:
  "compile_node rs vs n = Inr A \<Longrightarrow> flat n \<Longrightarrow> list_all (flat \<circ> snd) rs \<Longrightarrow> derives rs n w \<Longrightarrow> frag_word A w"
  "frag_ok A0 \<Longrightarrow> compile_seq rs vs A0 ns = Inr A \<Longrightarrow> list_all flat ns \<Longrightarrow> list_all (flat \<circ> snd) rs \<Longrightarrow>
     frag_word A0 u \<Longrightarrow> derives_seq rs ns w \<Longrightarrow> frag_word A (u @ w)"
  "compile_alt rs vs A0 ns = Inr A \<Longrightarrow> True"
  "compile_ref rs vs r = Inr A \<Longrightarrow> list_all (flat \<circ> snd) rs \<Longrightarrow> derives rs (Ref r) w \<Longrightarrow> frag_word A w"
proof (induction rs vs n and rs vs A0 ns and rs vs A0 ns and rs vs r arbitrary: A w and A u w and A and A w
    rule: compile_node_compile_seq_compile_alt_compile_ref.induct)
  case (1 rs vs s)
  then show ?case by (auto simp: lit_word elim: derives_elims)
next
  case (2 rs vs ranges negated)
  then show ?case by (auto simp: compile_char_class_def chars_word elim: derives_elims)
next
  case (3 rs vs)
  then show ?case by (auto simp: compile_any_def chars_word elim: derives_elims)
next
  case (4 rs vs)
  have "epsilon_fragment = compile_lit []" by (simp add: compile_lit_def)
  with 4 lit_word [of "[]"] show ?case by (auto elim!: derives_elims)
next
  case (5 rs vs n ns)
  from 5(3) obtain B where B: "compile_node rs vs n = Inr B" "compile_seq rs vs B ns = Inr A"
    by (cases "compile_node rs vs n") simp_all
  from 5(6) obtain u v where w: "w = u @ v" "derives rs n u" "derives_seq rs ns v"
    by (auto elim!: derives_elims)
  have f: "flat n" "list_all flat ns" using 5(4) by simp_all
  have "frag_word B u" by (rule 5(1) [OF B(1) f(1) 5(5) w(2)])
  from 5(2) [OF B(1) compile_wf(1) [OF B(1)] B(2) f(2) 5(5) this w(3)] show ?case by (simp add: w(1))
next
  case (11 rs vs r)
  then show ?case by simp
next
  case (12 rs vs b)
  then show ?case by (auto simp: lit_word elim: derives_elims)
next
  case (13 rs vs A0)
  then show ?case by (auto elim: derives_elims)
next
  case (14 rs vs A0 n ns)
  from 14(4) obtain B where B: "compile_node rs vs n = Inr B" "compile_seq rs vs (seq_append A0 B) ns = Inr A"
    by (cases "compile_node rs vs n") simp_all
  from 14(8) obtain v z where w: "w = v @ z" "derives rs n v" "derives_seq rs ns z"
    by (auto elim!: derives_elims)
  have f: "flat n" "list_all flat ns" using 14(5) by simp_all
  have ok: "frag_ok B" by (rule compile_wf(1) [OF B(1)])
  have "frag_word B v" by (rule 14(1) [OF B(1) f(1) 14(6) w(2)])
  then have "frag_word (seq_append A0 B) (u @ v)" by (rule seq_append_word [OF 14(3) ok 14(7)])
  from 14(2) [OF B(1) seq_append_ok [OF 14(3) ok] B(2) f(2) 14(6) this w(3)] show ?case by (simp add: w(1))
next
  case (17 rs vs r)
  from 17(2) obtain n where n: "r \<notin> set vs" "map_of rs r = Some n" "compile_node rs (vs @ [r]) n = Inr A"
    by (rule compile_ref_Inr)
  have "flat n" using 17(3) map_of_SomeD [OF n(2)] by (auto simp: list_all_iff)
  moreover have "derives rs n w" using 17(4) n(2) by (auto elim: derives_elims)
  ultimately show ?case using 17(1) [OF n] 17(3) by blast
qed auto


lemma compiled_Inr:
  assumes "compile_grammar g = Some (Inr f)"
  obtains A where "compile_ref (gm_rules g) [] (gm_root g) = Inr A"
    "\<And>w. fsm_accepts f w \<longleftrightarrow> nfa_accepts (nf_states A) 0 w"
proof (cases "compile_ref (gm_rules g) [] (gm_root g)")
  case (Inl e)
  with assms show ?thesis by (simp add: compile_grammar_def)
next
  case (Inr A)
  from compiled_accepts [OF Inr] assms that [OF Inr] show ?thesis by auto
qed

text \<open>Grammars whose rules use literals, classes, sequences and references only never mask a valid
  text: the state machine accepts every word the grammar derives.\<close>
theorem flat_grammar_complete:
  assumes "list_all (flat \<circ> snd) (gm_rules g)" "compile_grammar g = Some (Inr f)"
    and "derives (gm_rules g) (Ref (gm_root g)) w"
  shows "fsm_accepts f w"
proof -
  obtain A where A: "compile_ref (gm_rules g) [] (gm_root g) = Inr A"
    "fsm_accepts f w \<longleftrightarrow> nfa_accepts (nf_states A) 0 w"
    using compiled_Inr [OF assms(2)] by blast
  have "frag_word A w" by (rule flat_compile(4) [OF A(1) assms(1,3)])
  with frag_word_accepts [OF compile_wf(4) [OF A(1)]] A(2) show ?thesis by simp
qed

text \<open>\<open>r ::= "ab" d\<close> and \<open>d ::= [0-9]\<close>, by code points.\<close>

definition demo_grammar :: grammar where
  "demo_grammar = \<lparr>gm_rules = [([114], Seq [Lit [97, 98], Ref [100]]), ([100], CharClass [(48, 57)] False)],
     gm_root = [114]\<rparr>"

theorem flat_grammar_complete_witness:
  "\<exists>f. compile_grammar demo_grammar = Some (Inr f) \<and> fsm_accepts f [97, 98, 48]"
proof -
  have "\<exists>A. compile_ref (gm_rules demo_grammar) [] (gm_root demo_grammar) = Inr A"
    by (simp add: demo_grammar_def compile_ref.simps)
  then obtain f where f: "compile_grammar demo_grammar = Some (Inr f)" using compiled_accepts by blast
  have "48 \<in> set (class_chars [(48, 57)] False)"
    by (simp add: class_chars_def range_chars_def char_range_def is_scalar_def)
  then have "derives_seq (gm_rules demo_grammar) [Lit [97, 98], Ref [100]] ([97, 98] @ [48] @ [])"
    by (intro d_cons d_nil d_lit d_ref [of _ _ "CharClass [(48, 57)] False"] d_class)
      (simp add: demo_grammar_def)
  then have "derives (gm_rules demo_grammar) (Ref [114]) ([97, 98] @ [48] @ [])"
    by (intro d_ref [of _ _ "Seq [Lit [97, 98], Ref [100]]"] d_seq) (simp add: demo_grammar_def)
  then have "derives (gm_rules demo_grammar) (Ref (gm_root demo_grammar)) [97, 98, 48]"
    by (simp add: demo_grammar_def)
  moreover have "list_all (flat \<circ> snd) (gm_rules demo_grammar)" by (simp add: demo_grammar_def)
  ultimately show ?thesis using flat_grammar_complete [OF _ f] f by blast
qed

subsection \<open>What alternation, repetition and sequences do to the language\<close>

lemma one_char_states: "nf_states (compile_lit [c]) =
    [\<lparr>ns_transitions = [(Some c, 2)], ns_accept = False\<rparr>, \<lparr>ns_transitions = [], ns_accept = True\<rparr>,
     \<lparr>ns_transitions = [], ns_accept = True\<rparr>]" "nf_accept (compile_lit [c]) = 2" "nf_start (compile_lit [c]) = 0"
  by (simp_all add: compile_lit_def nfa_new_def add_state_def add_char_def add_transition_def set_accept_def)

lemma alt_states: "nf_states (alt_append (alt_append nfa_new (compile_lit [a])) (compile_lit [b])) =
    [\<lparr>ns_transitions = [(None, 2), (None, 5)], ns_accept = False\<rparr>, \<lparr>ns_transitions = [], ns_accept = True\<rparr>,
     \<lparr>ns_transitions = [(Some a, 2)], ns_accept = False\<rparr>, \<lparr>ns_transitions = [], ns_accept = True\<rparr>,
     \<lparr>ns_transitions = [(None, 1)], ns_accept = False\<rparr>,
     \<lparr>ns_transitions = [(Some b, 2)], ns_accept = False\<rparr>, \<lparr>ns_transitions = [], ns_accept = True\<rparr>,
     \<lparr>ns_transitions = [(None, 1)], ns_accept = False\<rparr>]"
  by (simp add: alt_append_def Let_def append_states_def add_epsilon_def add_transition_def set_accept_def
      one_char_states nfa_new_def numeral_eq_Suc)

lemma star_states: "nf_states (star_of (compile_lit [a])) =
    [\<lparr>ns_transitions = [(None, 1), (None, 2)], ns_accept = False\<rparr>, \<lparr>ns_transitions = [], ns_accept = True\<rparr>,
     \<lparr>ns_transitions = [(Some a, 2)], ns_accept = False\<rparr>, \<lparr>ns_transitions = [], ns_accept = True\<rparr>,
     \<lparr>ns_transitions = [(None, 2), (None, 1)], ns_accept = False\<rparr>]"
  by (simp add: star_of_def Let_def append_states_def add_epsilon_def add_transition_def set_accept_def
      one_char_states nfa_new_def numeral_eq_Suc)

lemma seq_states: "nf_states (seq_append (compile_lit [a]) (compile_lit [b])) =
    [\<lparr>ns_transitions = [(Some a, 2)], ns_accept = False\<rparr>, \<lparr>ns_transitions = [], ns_accept = True\<rparr>,
     \<lparr>ns_transitions = [(None, 0), (None, 3)], ns_accept = False\<rparr>,
     \<lparr>ns_transitions = [(Some b, 5)], ns_accept = False\<rparr>, \<lparr>ns_transitions = [], ns_accept = True\<rparr>,
     \<lparr>ns_transitions = [], ns_accept = True\<rparr>]"
  by (simp add: seq_append_def Let_def add_epsilon_def add_transition_def set_accept_def shift_state_def
      one_char_states numeral_eq_Suc)

text \<open>A set of states that runs do not leave.\<close>

lemma path_within:
  assumes "nfa_path N p w q" "p \<in> R"
    and "\<And>s c t. s \<in> R \<Longrightarrow> (c, t) \<in> set (ns_transitions (N ! s)) \<Longrightarrow> t \<in> R"
  shows "q \<in> R"
  using assms(1,2) by (induction rule: nfa_path.induct) (blast intro: assms(3))+

lemma alt_accepts: "\<not> nfa_accepts (nf_states (alt_append (alt_append nfa_new (compile_lit [a])) (compile_lit [b]))) 0 w"
proof
  let ?N = "nf_states (alt_append (alt_append nfa_new (compile_lit [a])) (compile_lit [b]))"
  assume "nfa_accepts ?N 0 w"
  then obtain q where q: "nfa_path ?N 0 w q" "ns_accept (?N ! q)" by (auto simp: nfa_accepts_def)
  have "q \<in> {0, 2, 5}"
    by (rule path_within [OF q(1)]) (auto simp: alt_states)
  with q(2) show False by (auto simp: alt_states)
qed

lemma star_accepts: "nfa_accepts (nf_states (star_of (compile_lit [a]))) 0 w \<longleftrightarrow> w = []"
proof
  let ?N = "nf_states (star_of (compile_lit [a]))"
  assume "nfa_accepts ?N 0 w"
  then obtain q where q: "nfa_path ?N 0 w q" "ns_accept (?N ! q)" by (auto simp: nfa_accepts_def)
  from q(1) show "w = []"
  proof (rule path_elims)
    fix t assume t: "(None, t) \<in> set (ns_transitions (?N ! 0))" "nfa_path ?N t w q"
    then have "t = 1 \<or> t = 2" by (auto simp: star_states)
    then show "w = []"
    proof
      assume "t = 1"
      with t(2) show ?thesis using path_no_trans [of ?N 1] by (simp add: star_states)
    next
      assume "t = 2"
      with t(2) have "q \<in> {2}" by (intro path_within [of ?N t w q "{2}"]) (auto simp: star_states)
      with q(2) show ?thesis by (simp add: star_states)
    qed
  qed (auto simp: star_states)
next
  let ?N = "nf_states (star_of (compile_lit [a]))"
  assume "w = []"
  moreover have "nfa_path ?N 0 [] 1"
  proof (rule nfa_path.path_eps [of _ _ 1])
    show "(None, 1) \<in> set (ns_transitions (?N ! 0))" by (simp add: star_states)
  qed (simp add: star_states, rule nfa_path.path_refl)
  ultimately show "nfa_accepts ?N 0 w" by (auto simp: nfa_accepts_def star_states intro!: exI [of _ 1])
qed


lemma seq_run:
  assumes "nfa_path (nf_states (seq_append (compile_lit [a]) (compile_lit [b]))) p w q" "q = 5"
  shows "(p = 0 \<longrightarrow> (\<exists>n. w = replicate (Suc n) a @ [b])) \<and> (p = 2 \<longrightarrow> (\<exists>n. w = replicate n a @ [b])) \<and>
    (p = 3 \<longrightarrow> w = [b]) \<and> (p = 5 \<longrightarrow> w = [])"
  using assms
proof (induction rule: nfa_path.induct)
  case (path_refl p)
  then show ?case by simp
next
  case (path_eps p t w q)
  then have "p = 2 \<and> (t = 0 \<or> t = 3)"
    by (auto simp: seq_states less_Suc_eq numeral_eq_Suc)
  with path_eps show ?case by (auto intro: exI [of _ "0::nat"]) (metis replicate_Suc)
next
  case (path_char p c t w q)
  then have "p = 0 \<and> c = a \<and> t = 2 \<or> p = 3 \<and> c = b \<and> t = 5"
    by (auto simp: seq_states less_Suc_eq numeral_eq_Suc)
  with path_char show ?case by auto
qed

lemma seq_accepts: "nfa_accepts (nf_states (seq_append (compile_lit [a]) (compile_lit [b]))) 0 w \<longleftrightarrow>
    (\<exists>n. w = replicate (Suc n) a @ [b])"
proof
  let ?N = "nf_states (seq_append (compile_lit [a]) (compile_lit [b]))"
  assume "nfa_accepts ?N 0 w"
  then obtain q where q: "nfa_path ?N 0 w q" "ns_accept (?N ! q)" by (auto simp: nfa_accepts_def)
  have "q \<in> {0, 2, 3, 5}"
    by (rule path_within [OF q(1)]) (auto simp: seq_states)
  with q(2) have "q = 5" by (auto simp: seq_states)
  with seq_run [OF q(1)] show "\<exists>n. w = replicate (Suc n) a @ [b]" by blast
next
  let ?N = "nf_states (seq_append (compile_lit [a]) (compile_lit [b]))"
  have step: "nfa_path ?N 0 (a # v) q" if "nfa_path ?N 2 v q" for v q
    by (rule nfa_path.path_char [OF _ _ that]) (simp_all add: seq_states)
  have e: "nfa_path ?N 2 v q" if "nfa_path ?N t v q" "t = 0 \<or> t = 3" for t v q
    by (rule nfa_path.path_eps [OF _ _ that(1)]) (use that(2) in \<open>auto simp: seq_states\<close>)
  have 3: "nfa_path ?N 3 [b] 5"
    by (rule nfa_path.path_char [OF _ _ nfa_path.path_refl]) (simp_all add: seq_states)
  have 2: "nfa_path ?N 2 (replicate n a @ [b]) 5" for n
  proof (induction n)
    case 0
    from e [OF 3] show ?case by simp
  next
    case (Suc n)
    from e [OF step [OF Suc]] show ?case by simp
  qed
  assume "\<exists>n. w = replicate (Suc n) a @ [b]"
  then obtain n where "w = a # replicate n a @ [b]" by auto
  with step [OF 2, of n] have "nfa_path ?N 0 w 5" by simp
  then show "nfa_accepts ?N 0 w" by (auto simp: nfa_accepts_def seq_states intro!: exI [of _ 5])
qed

text \<open>The compiled combinators change the language.  For any characters: \<open>"a" | "b"\<close> compiles to a
  machine that accepts nothing, \<open>"a"*\<close> to one that accepts only the empty text, and \<open>"a" "b"\<close> to one
  that accepts every \<open>a\<dots>ab\<close> with at least one \<open>a\<close>.\<close>
theorem combinators_change_language:
  "(\<exists>f. compile_grammar (one_rule r (Alt [Lit [a], Lit [b]])) = Some (Inr f) \<and> (\<forall>w. \<not> fsm_accepts f w)) \<and>
   (\<exists>f. compile_grammar (one_rule r (Star (Lit [a]))) = Some (Inr f) \<and> (\<forall>w. fsm_accepts f w \<longleftrightarrow> w = [])) \<and>
   (\<exists>f. compile_grammar (one_rule r (Seq [Lit [a], Lit [b]])) = Some (Inr f) \<and>
      (\<forall>w. fsm_accepts f w \<longleftrightarrow> (\<exists>n. w = replicate (Suc n) a @ [b])))"
  using one_rule_accepts [of r "Alt [Lit [a], Lit [b]]"] one_rule_accepts [of r "Star (Lit [a])"]
    one_rule_accepts [of r "Seq [Lit [a], Lit [b]]"]
  by (simp add: alt_accepts star_accepts seq_accepts)

end
