(* ===== verification/GrammarParser.thy ===== *)
theory GrammarParser
  imports GrammarNfa
begin

text \<open>
  The parser of grammar texts (\<open>grammar.rs\<close>): splitting of alternatives and sequences, terms, atoms,
  character classes, string escapes, rules.

  A text is the list of its code points.  Rust slices strings by bytes: \<open>slice\<close> computes the bytes of the
  UTF-8 encoding and gives \<open>None\<close> where Rust panics, off a character boundary or out of range.  The code
  often slices with character indices; so does the model.  \<open>Inl Panicked\<close> is a panic, any other
  \<open>Inl\<close> an error the code returns, and \<open>None\<close> a loop that does not end: the loop over the terms of a
  sequence is a partial function.
\<close>

subsection \<open>Characters and slices\<close>

abbreviation quote_c :: uchar where "quote_c \<equiv> 34"
abbreviation hash_c :: uchar where "hash_c \<equiv> 35"
abbreviation lparen_c :: uchar where "lparen_c \<equiv> 40"
abbreviation rparen_c :: uchar where "rparen_c \<equiv> 41"
abbreviation star_c :: uchar where "star_c \<equiv> 42"
abbreviation plus_c :: uchar where "plus_c \<equiv> 43"
abbreviation minus_c :: uchar where "minus_c \<equiv> 45"
abbreviation dot_c :: uchar where "dot_c \<equiv> 46"
abbreviation quest_c :: uchar where "quest_c \<equiv> 63"
abbreviation lbracket_c :: uchar where "lbracket_c \<equiv> 91"
abbreviation backslash_c :: uchar where "backslash_c \<equiv> 92"
abbreviation rbracket_c :: uchar where "rbracket_c \<equiv> 93"
abbreviation caret_c :: uchar where "caret_c \<equiv> 94"
abbreviation x_c :: uchar where "x_c \<equiv> 120"
abbreviation pipe_c :: uchar where "pipe_c \<equiv> 124"

text \<open>ASCII text as code points.\<close>

definition text_of :: "string \<Rightarrow> uchar list" where
  "text_of s = map of_char s"

definition utf8_len :: "uchar \<Rightarrow> nat" where
  "utf8_len c = (if c < 0x80 then 1 else if c < 0x800 then 2 else if c < 0x10000 then 3 else 4)"

definition byte_len :: "uchar list \<Rightarrow> nat" where
  "byte_len s = sum_list (map utf8_len s)"

fun take_bytes :: "nat \<Rightarrow> uchar list \<Rightarrow> uchar list option" where
  "take_bytes k [] = (if k = 0 then Some [] else None)"
| "take_bytes k (c # s) = (
     if k = 0 then Some []
     else if utf8_len c \<le> k then map_option (Cons c) (take_bytes (k - utf8_len c) s) else None)"

fun drop_bytes :: "nat \<Rightarrow> uchar list \<Rightarrow> uchar list option" where
  "drop_bytes k [] = (if k = 0 then Some [] else None)"
| "drop_bytes k (c # s) = (
     if k = 0 then Some (c # s)
     else if utf8_len c \<le> k then drop_bytes (k - utf8_len c) s else None)"

text \<open>\<open>&s[a..b]\<close> and \<open>&s[a..]\<close>.\<close>

definition slice :: "uchar list \<Rightarrow> nat \<Rightarrow> nat \<Rightarrow> uchar list option" where
  "slice s a b = (if a \<le> b then Option.bind (take_bytes b s) (drop_bytes a) else None)"

definition is_whitespace :: "uchar \<Rightarrow> bool" where
  "is_whitespace c \<longleftrightarrow> 9 \<le> c \<and> c \<le> 13 \<or> c = 32 \<or> c = 0x85 \<or> c = 0xA0 \<or> c = 0x1680 \<or>
     0x2000 \<le> c \<and> c \<le> 0x200A \<or> c = 0x2028 \<or> c = 0x2029 \<or> c = 0x202F \<or> c = 0x205F \<or> c = 0x3000"

definition trim :: "uchar list \<Rightarrow> uchar list" where
  "trim s = rev (dropWhile is_whitespace (rev (dropWhile is_whitespace s)))"

definition starts_with_text :: "uchar list \<Rightarrow> uchar list \<Rightarrow> bool" where
  "starts_with_text s p \<longleftrightarrow> take (length p) s = p"

text \<open>The first position of \<open>p\<close> in \<open>s\<close>, in characters; slicing there is always on a boundary.\<close>

fun find_text :: "uchar list \<Rightarrow> uchar list \<Rightarrow> nat option" where
  "find_text p [] = (if p = [] then Some 0 else None)"
| "find_text p (c # s) = (if starts_with_text (c # s) p then Some 0 else map_option Suc (find_text p s))"

text \<open>\<open>str::lines\<close>: split at line feeds, without a last empty line; a carriage return before the line feed
  goes with it.\<close>

fun lines_of :: "uchar list \<Rightarrow> uchar list \<Rightarrow> uchar list list" where
  "lines_of acc [] = (if acc = [] then [] else [rev acc])"
| "lines_of acc (c # s) = (
     if c = 10 then rev (if acc \<noteq> [] \<and> hd acc = 13 then tl acc else acc) # lines_of [] s
     else lines_of (c # acc) s)"

subsection \<open>Errors\<close>

datatype parse_error =
    EmptyRuleName
  | EmptyBody "uchar list"
  | ExpectedDefinition "uchar list"
  | NoRules
  | RootUndefined "uchar list"
  | EmptyExpression
  | UnbalancedCloseParen
  | UnbalancedCloseBracket
  | UnbalancedOpenParen
  | UnbalancedOpenBracket
  | UnclosedString
  | EmptySequence
  | SuffixWithoutTerm "uchar list"
  | EmptyTerm
  | EmptyAtom
  | InvalidHexByte "uchar list"
  | InvalidHexEscape "uchar list"
  | IncompleteHexEscape
  | InvalidCharRange uchar uchar
  | EmptyCharClass
  | UnrecognizedTerm "uchar list"
  | Panicked

definition or_panic :: "'a option \<Rightarrow> parse_error + 'a" where
  "or_panic x = (case x of None \<Rightarrow> Inl Panicked | Some y \<Rightarrow> Inr y)"

text \<open>\<open>u8::from_str_radix(s, 16)\<close>: hex digits after an optional plus sign, below 256.\<close>

definition hex_digit :: "uchar \<Rightarrow> nat option" where
  "hex_digit c = (
     if 48 \<le> c \<and> c \<le> 57 then Some (c - 48)
     else if 65 \<le> c \<and> c \<le> 70 then Some (c - 55)
     else if 97 \<le> c \<and> c \<le> 102 then Some (c - 87)
     else None)"

fun hex_value :: "nat \<Rightarrow> uchar list \<Rightarrow> nat option" where
  "hex_value v [] = Some v"
| "hex_value v (c # cs) = (case hex_digit c of
      None \<Rightarrow> None
    | Some d \<Rightarrow> if 256 \<le> v * 16 + d then None else hex_value (v * 16 + d) cs)"

definition from_hex :: "uchar list \<Rightarrow> nat option" where
  "from_hex s = (case s of
      [] \<Rightarrow> None
    | c # cs \<Rightarrow> if c = plus_c then (if cs = [] then None else hex_value 0 cs) else hex_value 0 s)"

subsection \<open>Splitting alternatives\<close>

record alt_scan =
  as_pos :: nat
  as_paren :: int
  as_bracket :: int
  as_in_string :: bool
  as_in_hex :: bool
  as_start :: nat
  as_parts :: "uchar list list"

text \<open>One turn of the loop.\<close>

definition alt_step :: "uchar list \<Rightarrow> alt_scan \<Rightarrow> parse_error + alt_scan" where
  "alt_step s a = (
     let i = as_pos a; c = s ! i in
     if as_in_string a then
       Inr (a\<lparr>as_pos := i + 1,
              as_in_string := \<not> (c = quote_c \<and> \<not> (0 < i \<and> s ! (i - 1) = backslash_c))\<rparr>)
     else if as_in_hex a then Inr (a\<lparr>as_pos := min (i + 2) (length s), as_in_hex := False\<rparr>)
     else if c = quote_c then Inr (a\<lparr>as_in_string := True, as_pos := i + 1\<rparr>)
     else if c = lparen_c then Inr (a\<lparr>as_paren := as_paren a + 1, as_pos := i + 1\<rparr>)
     else if c = rparen_c then
       (if as_paren a - 1 < 0 then Inl UnbalancedCloseParen
        else Inr (a\<lparr>as_paren := as_paren a - 1, as_pos := i + 1\<rparr>))
     else if c = lbracket_c then Inr (a\<lparr>as_bracket := as_bracket a + 1, as_pos := i + 1\<rparr>)
     else if c = rbracket_c then
       (if as_bracket a - 1 < 0 then Inl UnbalancedCloseBracket
        else Inr (a\<lparr>as_bracket := as_bracket a - 1, as_pos := i + 1\<rparr>))
     else if c = backslash_c \<and> i + 1 < length s \<and> s ! (i + 1) = x_c then
       Inr (a\<lparr>as_in_hex := True, as_pos := i + 2\<rparr>)
     else if c = pipe_c \<and> as_paren a = 0 \<and> as_bracket a = 0 then
       map_sum id (\<lambda>part. a\<lparr>as_parts := as_parts a @ [part], as_start := i + 1, as_pos := i + 1\<rparr>)
         (or_panic (slice s (as_start a) i))
     else Inr (a\<lparr>as_pos := i + 1\<rparr>))"

lemma alt_step_pos: "alt_step s a = Inr b \<Longrightarrow> as_pos a < length s \<Longrightarrow> as_pos a < as_pos b"
  by (auto simp: alt_step_def Let_def or_panic_def split: if_splits option.splits)

function alt_loop :: "uchar list \<Rightarrow> alt_scan \<Rightarrow> parse_error + alt_scan" where
  "alt_loop s a = (
     if as_pos a < length s then (case alt_step s a of Inl e \<Rightarrow> Inl e | Inr b \<Rightarrow> alt_loop s b)
     else Inr a)"
  by pat_completeness auto
termination
  by (relation "measure (\<lambda>(s, a). length s - as_pos a)") (auto dest!: alt_step_pos)

declare alt_loop.simps [simp del]

definition alt_init :: alt_scan where
  "alt_init = \<lparr>as_pos = 0, as_paren = 0, as_bracket = 0, as_in_string = False, as_in_hex = False,
     as_start = 0, as_parts = []\<rparr>"

definition split_alternation :: "uchar list \<Rightarrow> parse_error + uchar list list" where
  "split_alternation s = (case alt_loop s alt_init of
      Inl e \<Rightarrow> Inl e
    | Inr a \<Rightarrow>
        if as_paren a \<noteq> 0 then Inl UnbalancedOpenParen
        else if as_bracket a \<noteq> 0 then Inl UnbalancedOpenBracket
        else if as_in_string a then Inl UnclosedString
        else map_sum id (\<lambda>part. as_parts a @ [part]) (or_panic (drop_bytes (as_start a) s)))"


subsection \<open>Splitting sequences\<close>

text \<open>The scans over the characters: each takes a position and gives the position where it stops.\<close>

function scan_while :: "(uchar \<Rightarrow> bool) \<Rightarrow> uchar list \<Rightarrow> nat \<Rightarrow> nat" where
  "scan_while P s i = (if i < length s \<and> P (s ! i) then scan_while P s (i + 1) else i)"
  by pat_completeness auto
termination by (relation "measure (\<lambda>(P, s, i). length s - i)") auto

declare scan_while.simps [simp del]

text \<open>To the closing quote: past it at the end of a literal (\<open>past\<close>), on it inside a group.\<close>

function scan_string :: "bool \<Rightarrow> uchar list \<Rightarrow> nat \<Rightarrow> nat" where
  "scan_string past s i = (
     if i < length s then
       (if s ! i = backslash_c \<and> i + 1 < length s then scan_string past s (i + 2)
        else if s ! i = quote_c then (if past then i + 1 else i)
        else scan_string past s (i + 1))
     else i)"
  by pat_completeness auto
termination by (relation "measure (\<lambda>(past, s, i). length s - i)") auto

declare scan_string.simps [simp del]

function scan_class :: "uchar list \<Rightarrow> nat \<Rightarrow> nat \<Rightarrow> nat" where
  "scan_class s depth i = (
     if i < length s \<and> 0 < depth then
       (if s ! i = lbracket_c then scan_class s (depth + 1) (i + 1)
        else if s ! i = rbracket_c then scan_class s (depth - 1) (i + 1)
        else if s ! i = backslash_c \<and> i + 1 < length s then scan_class s depth (i + 2)
        else scan_class s depth (i + 1))
     else i)"
  by pat_completeness auto
termination by (relation "measure (\<lambda>(s, depth, i). length s - i)") auto

declare scan_class.simps [simp del]

lemma scan_string_ge: "i \<le> scan_string past s i"
  by (induction past s i rule: scan_string.induct) (subst scan_string.simps, auto)

function scan_group :: "uchar list \<Rightarrow> nat \<Rightarrow> nat \<Rightarrow> nat" where
  "scan_group s depth i = (
     if i < length s \<and> 0 < depth then
       (if s ! i = lparen_c then scan_group s (depth + 1) (i + 1)
        else if s ! i = rparen_c then scan_group s (depth - 1) (i + 1)
        else if s ! i = quote_c then scan_group s depth (scan_string False s (i + 1) + 1)
        else scan_group s depth (i + 1))
     else i)"
  by pat_completeness auto
termination
proof (relation "measure (\<lambda>(s, depth, i). length s - i)")
  fix s :: "uchar list" and depth i :: nat
  assume "i < length s \<and> 0 < depth"
  then show "((s, depth, scan_string False s (i + 1) + 1), s, depth, i) \<in> measure (\<lambda>(s, depth, i). length s - i)"
    using scan_string_ge [of "i + 1" False s] by auto
qed auto

declare scan_group.simps [simp del]

definition ident_char :: "uchar \<Rightarrow> bool" where
  "ident_char c \<longleftrightarrow> \<not> is_whitespace c \<and> c \<notin> {pipe_c, star_c, plus_c, quest_c, rparen_c, rbracket_c}"

definition suffix_char :: "uchar \<Rightarrow> bool" where
  "suffix_char c \<longleftrightarrow> c \<in> {star_c, plus_c, quest_c}"

text \<open>The extent of the term that starts at \<open>i\<close>, with its suffix operators.\<close>

definition term_body_end :: "uchar list \<Rightarrow> nat \<Rightarrow> nat" where
  "term_body_end s i = (
     if s ! i = quote_c then scan_string True s (i + 1)
     else if s ! i = lbracket_c then scan_class s 1 (i + 1)
     else if s ! i = lparen_c then scan_group s 1 (i + 1)
     else if s ! i = backslash_c \<and> i + 1 < length s \<and> s ! (i + 1) = x_c then i + 4
     else if s ! i = dot_c then i + 1
     else scan_while ident_char s i)"

definition term_end :: "uchar list \<Rightarrow> nat \<Rightarrow> nat" where
  "term_end s i = scan_while suffix_char s (term_body_end s i)"

text \<open>The loop over the terms.  It does not move past a closing parenthesis, a closing bracket or a bar at
  the start of a term.\<close>

partial_function (option) terms_loop ::
    "uchar list \<Rightarrow> nat \<Rightarrow> uchar list list \<Rightarrow> (parse_error + uchar list list) option" where
  "terms_loop s i terms = (
     let start = scan_while is_whitespace s i in
     if length s \<le> start then Some (Inr terms)
     else
       let stop = term_end s start in
       case slice s start stop of
         None \<Rightarrow> Some (Inl Panicked)
       | Some t \<Rightarrow> terms_loop s stop (if trim t = [] then terms else terms @ [trim t]))"

definition split_sequence_terms :: "uchar list \<Rightarrow> (parse_error + uchar list list) option" where
  "split_sequence_terms s = (case terms_loop s 0 [] of
      None \<Rightarrow> None
    | Some (Inl e) \<Rightarrow> Some (Inl e)
    | Some (Inr terms) \<Rightarrow> (case find (\<lambda>t. t = [star_c] \<or> t = [plus_c] \<or> t = [quest_c]) terms of
          Some t \<Rightarrow> Some (Inl (SuffixWithoutTerm t))
        | None \<Rightarrow> Some (Inr terms)))"

subsection \<open>Atoms\<close>

text \<open>The body of a character class, from position \<open>i\<close>.\<close>

definition escaped_char :: "uchar \<Rightarrow> uchar" where
  "escaped_char c = (if c = 110 then 10 else if c = 116 then 9 else if c = 114 then 13 else c)"

function class_ranges :: "uchar list \<Rightarrow> nat \<Rightarrow> parse_error + (uchar \<times> uchar) list" where
  "class_ranges s i = (
     if i < length s then
       (if i + 2 < length s \<and> s ! (i + 1) = minus_c then
          (if s ! (i + 2) < s ! i then Inl (InvalidCharRange (s ! i) (s ! (i + 2)))
           else map_sum id (Cons (s ! i, s ! (i + 2))) (class_ranges s (i + 3)))
        else if s ! i = backslash_c \<and> i + 1 < length s then
          map_sum id (Cons (escaped_char (s ! (i + 1)), escaped_char (s ! (i + 1)))) (class_ranges s (i + 2))
        else map_sum id (Cons (s ! i, s ! i)) (class_ranges s (i + 1)))
     else Inr [])"
  by pat_completeness auto
termination by (relation "measure (\<lambda>(s, i). length s - i)") auto

declare class_ranges.simps [simp del]

definition parse_char_class :: "uchar list \<Rightarrow> parse_error + gnode" where
  "parse_char_class body = (
     let body = trim body;
         negated = starts_with_text body [caret_c];
         content = (if negated then tl body else body)
     in case class_ranges content 0 of
          Inl e \<Rightarrow> Inl e
        | Inr ranges \<Rightarrow> if ranges = [] then Inl EmptyCharClass else Inr (CharClass ranges negated))"

function unescape_from :: "uchar list \<Rightarrow> nat \<Rightarrow> parse_error + uchar list" where
  "unescape_from s i = (
     if i < length s then
       (if s ! i = backslash_c \<and> i + 1 < length s then
          (if s ! (i + 1) = x_c then
             (if i + 3 < length s then
                (case slice s (i + 2) (i + 4) of
                   None \<Rightarrow> Inl Panicked
                 | Some hex \<Rightarrow> (case from_hex hex of
                       None \<Rightarrow> Inl (InvalidHexEscape hex)
                     | Some b \<Rightarrow> map_sum id (Cons b) (unescape_from s (i + 4))))
              else Inl IncompleteHexEscape)
           else map_sum id (Cons (escaped_char (s ! (i + 1)))) (unescape_from s (i + 2)))
        else map_sum id (Cons (s ! i)) (unescape_from s (i + 1)))
     else Inr [])"
  by pat_completeness auto
termination by (relation "measure (\<lambda>(s, i). length s - i)") auto

declare unescape_from.simps [simp del]

definition unescape_string :: "uchar list \<Rightarrow> parse_error + uchar list" where
  "unescape_string s = unescape_from s 0"

definition is_alpha :: "uchar \<Rightarrow> bool" where
  "is_alpha c \<longleftrightarrow> 65 \<le> c \<and> c \<le> 90 \<or> 97 \<le> c \<and> c \<le> 122"

definition is_alnum :: "uchar \<Rightarrow> bool" where
  "is_alnum c \<longleftrightarrow> is_alpha c \<or> 48 \<le> c \<and> c \<le> 57"

definition is_identifier :: "uchar list \<Rightarrow> bool" where
  "is_identifier s \<longleftrightarrow> (case s of
      [] \<Rightarrow> False
    | c # cs \<Rightarrow> (is_alpha c \<or> c = 95) \<and> list_all (\<lambda>c. is_alnum c \<or> c = 95 \<or> c = minus_c) cs)"


subsection \<open>Expressions and rules\<close>

text \<open>Parsing parts one after the other: the first error or endless loop is the result.\<close>

fun map_parse :: "('a \<Rightarrow> (parse_error + 'b) option) \<Rightarrow> 'a list \<Rightarrow> (parse_error + 'b list) option" where
  "map_parse f [] = Some (Inr [])"
| "map_parse f (x # xs) = (case f x of
      None \<Rightarrow> None
    | Some (Inl e) \<Rightarrow> Some (Inl e)
    | Some (Inr y) \<Rightarrow> map_option (map_sum id (Cons y)) (map_parse f xs))"

lemma map_parse_cong [fundef_cong]:
  "xs = ys \<Longrightarrow> (\<And>x. x \<in> set ys \<Longrightarrow> f x = g x) \<Longrightarrow> map_parse f xs = map_parse g ys"
proof (induction xs arbitrary: ys)
  case (Cons x xs)
  then have "map_parse f xs = map_parse g xs" "f x = g x" "ys = x # xs" by auto
  then show ?case by (simp split: option.split sum.split)
qed simp

datatype suffix = NoSuffix | StarSuffix | PlusSuffix | OptSuffix

definition split_suffix :: "uchar list \<Rightarrow> uchar list \<times> suffix" where
  "split_suffix s = (
     if s \<noteq> [] \<and> last s = star_c then (butlast s, StarSuffix)
     else if s \<noteq> [] \<and> last s = plus_c then (butlast s, PlusSuffix)
     else if s \<noteq> [] \<and> last s = quest_c then (butlast s, OptSuffix)
     else (s, NoSuffix))"

definition apply_suffix :: "suffix \<Rightarrow> gnode \<Rightarrow> gnode" where
  "apply_suffix x n = (case x of NoSuffix \<Rightarrow> n | StarSuffix \<Rightarrow> Star n | PlusSuffix \<Rightarrow> Plus n | OptSuffix \<Rightarrow> Opt n)"

text \<open>An atom that is no group.\<close>

definition parse_leaf :: "uchar list \<Rightarrow> parse_error + gnode" where
  "parse_leaf s = (
     if hd s = quote_c \<and> last s = quote_c \<and> 2 \<le> length s then
       map_sum id Lit (unescape_string (butlast (tl s)))
     else if hd s = lbracket_c \<and> last s = rbracket_c then parse_char_class (butlast (tl s))
     else if s = [dot_c] then Inr AnyChar
     else if starts_with_text s [backslash_c, x_c] \<and> byte_len s = 4 then
       (case from_hex (drop 2 s) of
          None \<Rightarrow> Inl (InvalidHexByte s)
        | Some b \<Rightarrow> Inr (HexByte (word_of_nat b)))
     else if is_identifier s then Inr (Ref s)
     else Inl (UnrecognizedTerm s))"

text \<open>Whether the tests before the one for a group fail and the group test succeeds.\<close>

definition is_group :: "uchar list \<Rightarrow> bool" where
  "is_group s \<longleftrightarrow> s \<noteq> [] \<and> hd s = lparen_c \<and> last s = rparen_c"

lemma trim_length: "length (trim s) \<le> length s"
  using length_dropWhile_le [of is_whitespace "rev (dropWhile is_whitespace s)"]
    length_dropWhile_le [of is_whitespace s]
  by (simp add: trim_def)

lemma take_bytes_length: "take_bytes k s = Some t \<Longrightarrow> length t \<le> length s"
  by (induction k s arbitrary: t rule: take_bytes.induct) (auto split: if_splits)

lemma drop_bytes_length: "drop_bytes k s = Some t \<Longrightarrow> length t \<le> length s"
  by (induction k s arbitrary: t rule: drop_bytes.induct) (force split: if_splits)+

lemma slice_length: "slice s a b = Some t \<Longrightarrow> length t \<le> length s"
  unfolding slice_def
  by (cases "take_bytes b s") (auto split: if_splits dest!: take_bytes_length drop_bytes_length)

definition parts_short :: "uchar list \<Rightarrow> uchar list list \<Rightarrow> bool" where
  "parts_short s ps \<longleftrightarrow> (\<forall>p \<in> set ps. length p \<le> length s)"

lemma alt_step_short: "alt_step s a = Inr b \<Longrightarrow> parts_short s (as_parts a) \<Longrightarrow> parts_short s (as_parts b)"
  by (auto simp: alt_step_def Let_def or_panic_def parts_short_def dest!: slice_length
      split: if_splits option.splits)

lemma alt_loop_short: "alt_loop s a = Inr b \<Longrightarrow> parts_short s (as_parts a) \<Longrightarrow> parts_short s (as_parts b)"
proof (induction s a rule: alt_loop.induct)
  case (1 s a)
  then show ?case
    by (cases "as_pos a < length s"; cases "alt_step s a")
      (auto simp: alt_loop.simps [of s a] dest: alt_step_short)
qed

lemma split_alternation_length:
  assumes "split_alternation s = Inr ps" "p \<in> set ps"
  shows "length p \<le> length s"
proof -
  obtain a where a: "alt_loop s alt_init = Inr a"
    and p: "map_sum id (\<lambda>part. as_parts a @ [part]) (or_panic (drop_bytes (as_start a) s)) = Inr ps"
    using assms(1) by (auto simp: split_alternation_def split: sum.splits if_splits)
  have "parts_short s (as_parts a)" by (rule alt_loop_short [OF a]) (simp add: alt_init_def parts_short_def)
  with p assms(2) drop_bytes_length show ?thesis
    by (auto simp: or_panic_def parts_short_def split: option.splits)
qed

lemma terms_loop_short:
  assumes "terms_loop s i terms = Some r" "parts_short s terms" "r = Inr ts"
  shows "parts_short s ts"
proof -
  have "parts_short s terms \<longrightarrow> (\<forall>ts. r = Inr ts \<longrightarrow> parts_short s ts)"
  proof (rule terms_loop.raw_induct [where P = "\<lambda>s i terms r.
      parts_short s terms \<longrightarrow> (\<forall>ts. r = Inr ts \<longrightarrow> parts_short s ts)", OF _ assms(1)])
    fix rec :: "uchar list \<Rightarrow> nat \<Rightarrow> uchar list list \<Rightarrow> (parse_error + uchar list list) option"
      and s i terms r
    assume IH: "\<And>s i terms r. rec s i terms = Some r \<Longrightarrow>
        parts_short s terms \<longrightarrow> (\<forall>ts. r = Inr ts \<longrightarrow> parts_short s ts)"
      and body: "(let start = scan_while is_whitespace s i
          in if length s \<le> start then Some (Inr terms)
             else let stop = term_end s start in
               case slice s start stop of None \<Rightarrow> Some (Inl Panicked)
               | Some t \<Rightarrow> rec s stop (if trim t = [] then terms else terms @ [trim t])) = Some r"
    let ?start = "scan_while is_whitespace s i"
    show "parts_short s terms \<longrightarrow> (\<forall>ts. r = Inr ts \<longrightarrow> parts_short s ts)"
    proof (cases "length s \<le> ?start \<or> slice s ?start (term_end s ?start) = None")
      case True
      with body show ?thesis by (auto simp: Let_def split: if_splits)
    next
      case False
      then obtain t where t: "slice s ?start (term_end s ?start) = Some t" by blast
      with body False have "rec s (term_end s ?start) (if trim t = [] then terms else terms @ [trim t]) = Some r"
        by (simp add: Let_def)
      note next_terms = IH [OF this]
      have "length (trim t) \<le> length s" using slice_length [OF t] trim_length [of t] by simp
      then have "parts_short s terms \<Longrightarrow> parts_short s (if trim t = [] then terms else terms @ [trim t])"
        by (simp add: parts_short_def)
      with next_terms show ?thesis by blast
    qed
  qed
  with assms(2,3) show ?thesis by blast
qed

lemma split_sequence_terms_length:
  assumes "split_sequence_terms s = Some (Inr ts)" "t \<in> set ts"
  shows "length t \<le> length s"
proof -
  have "terms_loop s 0 [] = Some (Inr ts)"
    using assms(1) by (auto simp: split_sequence_terms_def split: option.splits sum.splits)
  from terms_loop_short [OF this] assms(2) show ?thesis by (simp add: parts_short_def)
qed

lemma part_length: "split_alternation (trim s) = Inr ps \<Longrightarrow> p \<in> set ps \<Longrightarrow> length p \<le> length s"
  using split_alternation_length trim_length le_trans by blast

lemma base_length: "length (trim (fst (split_suffix (trim s)))) \<le> length s"
proof -
  have "length (fst (split_suffix (trim s))) \<le> length (trim s)" by (simp add: split_suffix_def)
  then show ?thesis using trim_length le_trans by blast
qed

lemma inner_length: "trim s \<noteq> [] \<Longrightarrow> length (trim s) - Suc (Suc 0) \<le> length s"
    "trim s \<noteq> [] \<Longrightarrow> length (trim s) - Suc (Suc 0) \<noteq> length s"
  using trim_length [of s] by (cases "trim s"; simp)+

function (sequential) parse_expression :: "uchar list \<Rightarrow> (parse_error + gnode) option"
  and parse_sequence :: "uchar list \<Rightarrow> (parse_error + gnode) option"
  and parse_term :: "uchar list \<Rightarrow> (parse_error + gnode) option"
  and parse_atom :: "uchar list \<Rightarrow> (parse_error + gnode) option"
where
  "parse_expression s = (
     if trim s = [] then Some (Inl EmptyExpression)
     else case split_alternation (trim s) of
       Inl e \<Rightarrow> Some (Inl e)
     | Inr parts \<Rightarrow>
         if 1 < length parts then map_option (map_sum id Alt) (map_parse parse_sequence parts)
         else parse_sequence (trim s))"
| "parse_sequence s = (case split_sequence_terms s of
      None \<Rightarrow> None
    | Some (Inl e) \<Rightarrow> Some (Inl e)
    | Some (Inr terms) \<Rightarrow>
        if terms = [] then Some (Inl EmptySequence)
        else if length terms = 1 then parse_term (hd terms)
        else map_option (map_sum id Seq) (map_parse parse_term terms))"
| "parse_term s = (
     if trim s = [] then Some (Inl EmptyTerm)
     else map_option (map_sum id (apply_suffix (snd (split_suffix (trim s)))))
       (parse_atom (trim (fst (split_suffix (trim s))))))"
| "parse_atom s = (
     if trim s = [] then Some (Inl EmptyAtom)
     else if is_group (trim s) then parse_expression (butlast (tl (trim s)))
     else Some (parse_leaf (trim s)))"
  by pat_completeness auto

termination
proof (relation "inv_image (less_than <*lex*> less_than) (\<lambda>x. case x of
      Inl (Inl s) \<Rightarrow> (length s, 3)
    | Inl (Inr s) \<Rightarrow> (length s, 2)
    | Inr (Inl s) \<Rightarrow> (length s, 1)
    | Inr (Inr s) \<Rightarrow> (length s, 0::nat))")
  show "wf (inv_image (less_than <*lex*> less_than) (\<lambda>x. case x of
      Inl (Inl s) \<Rightarrow> (length s, 3)
    | Inl (Inr s) \<Rightarrow> (length s, 2)
    | Inr (Inl s) \<Rightarrow> (length s, 1)
    | Inr (Inr s) \<Rightarrow> (length s, 0::nat)))" by auto
qed (auto simp: nat_less_le trim_length part_length base_length inner_length split_sequence_terms_length)

declare parse_expression.simps [simp del] parse_sequence.simps [simp del] parse_term.simps [simp del]
  parse_atom.simps [simp del]

text \<open>The rules of a text, line by line.  A rule of a name defined before replaces it in the map; the root
  stays the first name.\<close>

fun parse_lines :: "uchar list list \<Rightarrow> (uchar list \<times> gnode) list \<Rightarrow> uchar list option
    \<Rightarrow> (parse_error + (uchar list \<times> gnode) list \<times> uchar list option) option" where
  "parse_lines [] rules root = Some (Inr (rules, root))"
| "parse_lines (l # ls) rules root = (
     let l = trim l in
     if l = [] \<or> hd l = hash_c then parse_lines ls rules root
     else case find_text [58, 58, 61] l of
       None \<Rightarrow> Some (Inl (ExpectedDefinition l))
     | Some pos \<Rightarrow>
         let name = trim (take pos l); body = trim (drop (pos + 3) l) in
         if name = [] then Some (Inl EmptyRuleName)
         else if body = [] then Some (Inl (EmptyBody name))
         else case parse_expression body of
           None \<Rightarrow> None
         | Some (Inl e) \<Rightarrow> Some (Inl e)
         | Some (Inr n) \<Rightarrow> parse_lines ls (AList.update name n rules)
             (case root of None \<Rightarrow> Some name | Some r \<Rightarrow> Some r))"

definition parse_gbnf :: "uchar list \<Rightarrow> (parse_error + grammar) option" where
  "parse_gbnf s = (case parse_lines (lines_of [] s) [] None of
      None \<Rightarrow> None
    | Some (Inl e) \<Rightarrow> Some (Inl e)
    | Some (Inr (rules, root)) \<Rightarrow> (case root of
          None \<Rightarrow> Some (Inl NoRules)
        | Some r \<Rightarrow>
            if map_of rules r = None then Some (Inl (RootUndefined r))
            else Some (Inr \<lparr>gm_rules = rules, gm_root = r\<rparr>)))"

end
