(* ===== verification/GrammarSchema.thy ===== *)
theory GrammarSchema
  imports GrammarParser GrammarDfa
begin

text \<open>
  The translation of JSON schemas to grammar texts (\<open>grammar.rs\<close>, \<open>json_schema_emit_rule\<close>) and the
  grammar constructors on top of parser and compiler.

  A \<open>serde_json::Value\<close> is a datatype; an object is the list of its entries in iteration order, its keys
  distinct.  The JSON text of a value, used for the values of an \<open>enum\<close>, is the parameter \<open>to_json\<close>
  (\<open>serde_json::to_string\<close>, \<open>None\<close> where it fails).  The output string is threaded through the calls; an
  error (nesting deeper than 20) drops it and is \<open>None\<close>.
\<close>

datatype json =
    JNull
  | JBool bool
  | JNumber "uchar list"
  | JString "uchar list"
  | JArray "json list"
  | JObject "(uchar list \<times> json) list"

definition json_get :: "string \<Rightarrow> json \<Rightarrow> json option" where
  "json_get k v = (case v of JObject m \<Rightarrow> map_of m (text_of k) | _ \<Rightarrow> None)"

definition as_str :: "json \<Rightarrow> uchar list option" where
  "as_str v = (case v of JString s \<Rightarrow> Some s | _ \<Rightarrow> None)"

definition as_array :: "json \<Rightarrow> json list option" where
  "as_array v = (case v of JArray xs \<Rightarrow> Some xs | _ \<Rightarrow> None)"

definition as_object :: "json \<Rightarrow> (uchar list \<times> json) list option" where
  "as_object v = (case v of JObject m \<Rightarrow> Some m | _ \<Rightarrow> None)"

definition contains_text :: "uchar list \<Rightarrow> string \<Rightarrow> bool" where
  "contains_text out p \<longleftrightarrow> find_text (text_of p) out \<noteq> None"

fun join_text :: "uchar list \<Rightarrow> uchar list list \<Rightarrow> uchar list" where
  "join_text sep [] = []"
| "join_text sep [x] = x"
| "join_text sep (x # y # xs) = x @ sep @ join_text sep (y # xs)"

definition escape_json_char :: "uchar \<Rightarrow> uchar list" where
  "escape_json_char c = (
     if c = quote_c then [backslash_c, quote_c]
     else if c = backslash_c then [backslash_c, backslash_c]
     else if c = 10 then [backslash_c, 110]
     else if c = 9 then [backslash_c, 116]
     else if c = 13 then [backslash_c, 114]
     else [c])"

definition escape_json_string :: "uchar list \<Rightarrow> uchar list" where
  "escape_json_string s = concat (map escape_json_char s)"

text \<open>A string literal of the grammar text.\<close>

definition quoted :: "uchar list \<Rightarrow> uchar list" where
  "quoted s = quote_c # s @ [quote_c]"

definition rule_line :: "uchar list \<Rightarrow> uchar list \<Rightarrow> uchar list" where
  "rule_line name body = name @ text_of '' ::= '' @ body @ [10]"

definition spaced :: "uchar list list \<Rightarrow> uchar list" where
  "spaced xs = join_text (text_of '' '') xs"

definition ws_rule :: "uchar list" where
  "ws_rule = rule_line (text_of ''ws'')
     ([lbracket_c, 32, backslash_c, 116, backslash_c, 110, rbracket_c, star_c])"

definition string_rule :: "uchar list" where
  "string_rule = rule_line (text_of ''string'')
     (spaced [quoted [backslash_c, quote_c],
        [lparen_c, lbracket_c, caret_c, quote_c, rbracket_c, star_c, rparen_c],
        quoted [backslash_c, quote_c]])"

definition sign_text :: "uchar list" where
  "sign_text = [lparen_c] @ spaced [quoted (text_of ''-''), text_of ''|'', quoted []] @ [rparen_c]"

definition integer_rule :: "uchar list" where
  "integer_rule = rule_line (text_of ''integer'') (spaced [sign_text, text_of ''[0-9]+''])"

definition number_rule :: "uchar list" where
  "number_rule = rule_line (text_of ''number'')
     (spaced [sign_text, text_of ''[0-9]+'',
        [lparen_c] @ spaced [quoted (text_of ''.''), text_of ''[0-9]+''] @ [rparen_c, quest_c]])"

definition any_rule :: "uchar list" where
  "any_rule = rule_line (text_of ''any'')
     (spaced [text_of ''string'', text_of ''|'', text_of ''number'', text_of ''|'',
        quoted (text_of ''true''), text_of ''|'', quoted (text_of ''false''), text_of ''|'',
        quoted (text_of ''null''), text_of ''|'',
        quoted (text_of ''[''), text_of ''ws'', quoted (text_of '']''), text_of ''|'',
        quoted (text_of ''{''), text_of ''ws'', quoted (text_of ''}'')])"

definition push_ws :: "uchar list \<Rightarrow> uchar list" where
  "push_ws out = (if contains_text out ''ws ::='' then out else out @ ws_rule)"

definition emit_enum :: "(json \<Rightarrow> uchar list option) \<Rightarrow> uchar list \<Rightarrow> json list \<Rightarrow> uchar list" where
  "emit_enum to_json name vs = rule_line name (join_text (text_of '' | '')
     (map (\<lambda>v. quoted (escape_json_string (case to_json v of None \<Rightarrow> text_of ''null'' | Some t \<Rightarrow> t))) vs))"

text \<open>A schema of no known type: an enumeration, a reference, or anything.\<close>

definition emit_untyped :: "(json \<Rightarrow> uchar list option) \<Rightarrow> uchar list \<Rightarrow> json \<Rightarrow> uchar list \<Rightarrow> uchar list" where
  "emit_untyped to_json name schema out = (
     case Option.bind (json_get ''enum'' schema) as_array of
       Some vs \<Rightarrow> out @ emit_enum to_json name vs
     | None \<Rightarrow>
         (case Option.bind (json_get [CHR 0x24, CHR ''r'', CHR ''e'', CHR ''f''] schema) as_str of
            Some _ \<Rightarrow> out @ rule_line name (text_of ''string'')
          | None \<Rightarrow>
              (let out = out @ rule_line name (text_of ''any'')
               in if contains_text out ''any ::='' then out else out @ any_rule)))"

text \<open>The scalar types; \<open>None\<close> for any other type.\<close>

definition emit_scalar :: "uchar list \<Rightarrow> uchar list \<Rightarrow> uchar list \<Rightarrow> uchar list option" where
  "emit_scalar name ty out = (
     if ty = text_of ''string'' then
       (let out = out @ rule_line name (text_of ''string'')
        in Some (if contains_text out ''string ::='' then out else out @ string_rule))
     else if ty = text_of ''integer'' then
       (let out = out @ rule_line name (text_of ''integer'')
        in Some (if contains_text out ''integer ::='' then out else out @ integer_rule))
     else if ty = text_of ''number'' then
       (let out = out @ rule_line name (text_of ''number'')
        in Some (if contains_text out ''number ::='' then out else out @ number_rule))
     else if ty = text_of ''boolean'' then
       Some (out @ rule_line name (spaced [quoted (text_of ''true''), text_of ''|'', quoted (text_of ''false'')]))
     else if ty = text_of ''null'' then Some (out @ rule_line name (quoted (text_of ''null'')))
     else None)"

definition schema_type :: "json \<Rightarrow> uchar list" where
  "schema_type schema = (case Option.bind (json_get ''type'' schema) as_str of None \<Rightarrow> [] | Some t \<Rightarrow> t)"

definition required_names :: "json \<Rightarrow> uchar list list" where
  "required_names schema = (case Option.bind (json_get ''required'' schema) as_array of
      None \<Rightarrow> []
    | Some xs \<Rightarrow> List.map_filter as_str xs)"

text \<open>The key and value of one property, with the name of its value rule.\<close>

definition pair_text :: "uchar list \<Rightarrow> uchar list \<Rightarrow> uchar list" where
  "pair_text prop_name sub_rule = text_of '' '' @ spaced [quoted (escape_json_string prop_name), text_of ''ws'',
     quoted (text_of '':''), text_of ''ws'', sub_rule] @ text_of '' ''"

definition prop_rule_name :: "uchar list \<Rightarrow> uchar list \<Rightarrow> uchar list" where
  "prop_rule_name name prop_name = name @ text_of ''_'' @ prop_name"

definition value_rule_name :: "uchar list \<Rightarrow> uchar list \<Rightarrow> uchar list" where
  "value_rule_name name prop_name = text_of ''_'' @ prop_rule_name name prop_name @ text_of ''_value''"

definition opt_rule_name :: "uchar list \<Rightarrow> uchar list \<Rightarrow> uchar list" where
  "opt_rule_name name prop_name = text_of ''_'' @ prop_rule_name name prop_name @ text_of ''_opt''"

definition emit_object :: "uchar list \<Rightarrow> uchar list list \<Rightarrow> uchar list \<Rightarrow> uchar list" where
  "emit_object name added out = out @ (
     if added = [] then rule_line name (quoted (text_of ''{}''))
     else rule_line name (spaced [quoted (text_of ''{''), text_of ''ws'',
       join_text (text_of '' '' @ quoted (text_of '','') @ text_of '' ws '') added, quoted (text_of ''}'')]))"

definition emit_array :: "uchar list \<Rightarrow> uchar list option \<Rightarrow> uchar list \<Rightarrow> uchar list" where
  "emit_array name item out = out @ (case item of
      Some rule \<Rightarrow> rule_line name (spaced [quoted (text_of ''[''), text_of ''ws'',
        [lparen_c] @ rule, [lparen_c] @ quoted (text_of '',''), text_of ''ws'',
        rule @ [rparen_c, star_c, rparen_c], text_of ''ws'', quoted (text_of '']'')])
    | None \<Rightarrow> rule_line name (spaced [quoted (text_of ''[''), text_of ''ws'', quoted (text_of '']'')]))"

lemma map_of_size: "map_of m k = Some v \<Longrightarrow> size v < Suc (size_list (size_prod (\<lambda>x. 0) size) m)"
proof -
  assume "map_of m k = Some v"
  then have "(k, v) \<in> set m" by (rule map_of_SomeD)
  then have "size v \<le> size_list (size_prod (\<lambda>x. 0) size) m"
    by (intro size_list_estimation') auto
  then show ?thesis by simp
qed

lemma json_get_size: "json_get k v = Some w \<Longrightarrow> size w < size v"
  by (auto simp: json_get_def dest: map_of_size split: json.splits)

lemma as_object_size: "as_object v = Some m \<Longrightarrow> size_list (size_prod (\<lambda>x. 0) size) m < size v"
  by (auto simp: as_object_def split: json.splits)

lemma properties_size:
  "Option.bind (json_get k v) as_object = Some m \<Longrightarrow> size_list (size_prod (\<lambda>x. 0) size) m < size v"
  by (cases "json_get k v") (auto dest!: json_get_size as_object_size)

text \<open>The rules of a schema, and those of the properties of an object.\<close>

function (sequential) emit_rule :: "(json \<Rightarrow> uchar list option) \<Rightarrow> uchar list \<Rightarrow> json \<Rightarrow> uchar list \<Rightarrow> nat
    \<Rightarrow> uchar list option"
  and emit_props :: "(json \<Rightarrow> uchar list option) \<Rightarrow> uchar list \<Rightarrow> uchar list list \<Rightarrow> (uchar list \<times> json) list
    \<Rightarrow> uchar list \<Rightarrow> nat \<Rightarrow> uchar list list \<Rightarrow> (uchar list \<times> uchar list list) option"
where
  "emit_rule to_json name schema out depth = (
     if 20 < depth then None
     else if schema_type schema = text_of ''object'' then
       (case Option.bind (json_get ''properties'' schema) as_object of
          None \<Rightarrow> Some (out @ rule_line name (spaced [quoted (text_of ''{''), text_of ''ws'', quoted (text_of ''}'')]))
        | Some props \<Rightarrow> map_option (\<lambda>(out, added). push_ws (emit_object name added out))
            (emit_props to_json name (required_names schema) props out depth []))
     else if schema_type schema = text_of ''array'' then
       (case json_get ''items'' schema of
          None \<Rightarrow> Some (push_ws (emit_array name None out))
        | Some item \<Rightarrow> map_option (\<lambda>out. push_ws (emit_array name (Some (name @ text_of ''_item'')) out))
            (emit_rule to_json (name @ text_of ''_item'') item out (depth + 1)))
     else (case emit_scalar name (schema_type schema) out of
         Some out \<Rightarrow> Some (push_ws out)
       | None \<Rightarrow> Some (push_ws (emit_untyped to_json name schema out))))"
| "emit_props to_json name required [] out depth added = Some (out, added)"
| "emit_props to_json name required ((p, s) # props) out depth added = (
     case emit_rule to_json (value_rule_name name p) s out (depth + 1) of
       None \<Rightarrow> None
     | Some out \<Rightarrow>
         if p \<in> set required then
           emit_props to_json name required props out depth (added @ [pair_text p (value_rule_name name p)])
         else
           emit_props to_json name required props
             (out @ rule_line (opt_rule_name name p)
               (pair_text p (value_rule_name name p) @ text_of '' | '' @ quoted []))
             depth (added @ [opt_rule_name name p]))"
  by pat_completeness auto

termination
  by (relation "measure (\<lambda>x. case x of
      Inl (_, _, schema, _, _) \<Rightarrow> size schema
    | Inr (_, _, _, props, _, _, _) \<Rightarrow> size_list (size_prod (\<lambda>x. 0) size) props)")
    (auto dest: json_get_size properties_size)

declare emit_rule.simps [simp del] emit_props.simps [simp del]

definition json_schema_to_gbnf :: "(json \<Rightarrow> uchar list option) \<Rightarrow> uchar list \<Rightarrow> json \<Rightarrow> uchar list option" where
  "json_schema_to_gbnf to_json name schema =
     emit_rule to_json name schema (rule_line (text_of ''root'') name) 0"

datatype schema_error = NestingTooDeep | BadGrammar parse_error

text \<open>\<open>Grammar::from_json_schema\<close> and \<open>Grammar::compile_from_text\<close>; \<open>None\<close> where the parser does not end.\<close>

definition from_json_schema ::
    "(json \<Rightarrow> uchar list option) \<Rightarrow> uchar list \<Rightarrow> json \<Rightarrow> (schema_error + grammar) option" where
  "from_json_schema to_json name schema = (case json_schema_to_gbnf to_json name schema of
      None \<Rightarrow> Some (Inl NestingTooDeep)
    | Some t \<Rightarrow> map_option (map_sum BadGrammar id) (parse_gbnf t))"

definition compile_from_text :: "uchar list \<Rightarrow> ((parse_error + compile_error) + fsm) option" where
  "compile_from_text s = (case parse_gbnf s of
      None \<Rightarrow> None
    | Some (Inl e) \<Rightarrow> Some (Inl (Inl e))
    | Some (Inr g) \<Rightarrow> map_option (map_sum Inr id) (compile_grammar g))"

end
