(* ===== verification/GrammarRoundtrip.thy ===== *)
theory GrammarRoundtrip
  imports GrammarSchema
begin

text \<open>
  What the parser does with texts: a printer of grammars that the parser inverts, and the texts on
  which it fails, panics or does not end.

  The printer is a specification: it puts one space between terms, bars between alternatives and
  parentheses around every nested alternative or sequence.  \<open>printable\<close> names the grammars it prints:
  literals are ASCII and do not end in a backslash, the class bounds are letters and digits, names are
  identifiers.  The lemmas say for each scanner of the parser what it skips: \<open>alt_skips\<close> for the splitting
  of alternatives, \<open>group_skips\<close> for the search of a closing parenthesis, \<open>body_ends\<close> for the extent of a
  term.
\<close>

subsection \<open>ASCII texts\<close>

definition ascii :: "uchar list \<Rightarrow> bool" where
  "ascii s \<longleftrightarrow> list_all (\<lambda>c. c < 128) s"

lemma ascii_simps [simp]: "ascii []" "ascii (c # s) \<longleftrightarrow> c < 128 \<and> ascii s"
    "ascii (s @ t) \<longleftrightarrow> ascii s \<and> ascii t"
  by (auto simp: ascii_def)

lemma take_bytes_ascii: "ascii s \<Longrightarrow> take_bytes k s = (if k \<le> length s then Some (take k s) else None)"
proof (induction s arbitrary: k)
  case (Cons c s)
  then show ?case by (cases k) (auto simp: utf8_len_def)
qed auto

lemma drop_bytes_ascii: "ascii s \<Longrightarrow> drop_bytes k s = (if k \<le> length s then Some (drop k s) else None)"
proof (induction s arbitrary: k)
  case (Cons c s)
  then show ?case by (cases k) (auto simp: utf8_len_def)
qed auto

lemma drop_bytes_0 [simp]: "drop_bytes 0 s = Some s"
  by (cases s) simp_all

lemma ascii_take: "ascii s \<Longrightarrow> ascii (take k s)"
  by (auto simp: ascii_def list_all_iff dest: in_set_takeD)

lemma slice_ascii: "ascii (p @ t @ q) \<Longrightarrow> slice (p @ t @ q) (length p) (length p + length t) = Some t"
  by (simp add: slice_def take_bytes_ascii drop_bytes_ascii)

lemma byte_len_ascii: "ascii s \<Longrightarrow> byte_len s = length s"
  by (induction s) (simp_all add: byte_len_def utf8_len_def)

subsection \<open>Trimming\<close>

definition trimmed :: "uchar list \<Rightarrow> bool" where
  "trimmed s \<longleftrightarrow> s \<noteq> [] \<and> \<not> is_whitespace (hd s) \<and> \<not> is_whitespace (last s)"

definition blank :: "uchar list \<Rightarrow> bool" where
  "blank s \<longleftrightarrow> list_all is_whitespace s"

lemma blank_simps [simp]: "blank []" "blank (c # s) \<longleftrightarrow> is_whitespace c \<and> blank s"
    "blank (s @ t) \<longleftrightarrow> blank s \<and> blank t"
  by (auto simp: blank_def)

lemma dropWhile_blank: "blank l \<Longrightarrow> dropWhile is_whitespace (l @ s) = dropWhile is_whitespace s"
  by (induction l) simp_all

lemma dropWhile_trimmed: "s \<noteq> [] \<Longrightarrow> \<not> is_whitespace (hd s) \<Longrightarrow> dropWhile is_whitespace (s @ t) = s @ t"
  by (cases s) simp_all

lemma blank_rev: "blank (rev r) \<longleftrightarrow> blank r"
  by (simp add: blank_def)

lemma trim_padded:
  assumes "trimmed t" "blank l" "blank r"
  shows "trim (l @ t @ r) = t"
proof -
  have t: "t \<noteq> []" "\<not> is_whitespace (hd t)" "\<not> is_whitespace (last t)"
    using assms(1) by (auto simp: trimmed_def)
  have "dropWhile is_whitespace (rev r @ rev t) = rev t"
    using dropWhile_blank [of "rev r" "rev t"] dropWhile_trimmed [of "rev t" "[]"] t assms(3)
    by (simp add: blank_rev hd_rev)
  with dropWhile_blank [OF assms(2), of "t @ r"] dropWhile_trimmed [of t r] t show ?thesis
    by (simp add: trim_def)
qed

lemma trim_trimmed: "trimmed t \<Longrightarrow> trim t = t"
  using trim_padded [of t "[]" "[]"] by simp

lemma trimmed_append: "trimmed s \<Longrightarrow> trimmed t \<Longrightarrow> trimmed (s @ u @ t)"
  by (auto simp: trimmed_def)

lemma is_whitespace_space [simp]: "is_whitespace 32"
  by (simp add: is_whitespace_def)

subsection \<open>What the splitting of alternatives skips\<close>

definition alt_skips :: "int \<Rightarrow> uchar list \<Rightarrow> bool" where
  "alt_skips m t \<longleftrightarrow> (\<forall>pre post a. as_pos a = length pre \<and> \<not> as_in_string a \<and> \<not> as_in_hex a \<and>
     m \<le> as_paren a \<and> 0 \<le> as_bracket a \<longrightarrow>
     alt_loop (pre @ t @ post) a = alt_loop (pre @ t @ post) (a\<lparr>as_pos := length pre + length t\<rparr>))"

lemma alt_skipsD:
  assumes "alt_skips m t" "as_pos a = length pre" "\<not> as_in_string a" "\<not> as_in_hex a"
    "m \<le> as_paren a" "0 \<le> as_bracket a"
  shows "alt_loop (pre @ t @ post) a = alt_loop (pre @ t @ post) (a\<lparr>as_pos := length pre + length t\<rparr>)"
  using assms unfolding alt_skips_def by blast

lemma alt_skips_Nil [simp]: "alt_skips m []"
  unfolding alt_skips_def
proof (intro allI impI, elim conjE)
  fix pre post :: "uchar list" and a :: alt_scan
  assume "as_pos a = length pre"
  then have "a\<lparr>as_pos := length pre + length ([] :: uchar list)\<rparr> = a" by simp
  then show "alt_loop (pre @ [] @ post) a = alt_loop (pre @ [] @ post) (a\<lparr>as_pos := length pre + length ([] :: uchar list)\<rparr>)"
    by simp
qed

lemma alt_skips_append:
  assumes t: "alt_skips m t" and u: "alt_skips m u"
  shows "alt_skips m (t @ u)"
  unfolding alt_skips_def
proof (intro allI impI, elim conjE)
  fix pre post :: "uchar list" and a :: alt_scan
  assume a: "as_pos a = length pre" "\<not> as_in_string a" "\<not> as_in_hex a" "m \<le> as_paren a" "0 \<le> as_bracket a"
  have "alt_loop (pre @ t @ (u @ post)) a =
      alt_loop (pre @ t @ (u @ post)) (a\<lparr>as_pos := length pre + length t\<rparr>)"
    by (rule alt_skipsD [OF t a])
  also have "\<dots> = alt_loop ((pre @ t) @ u @ post)
      (a\<lparr>as_pos := length pre + length t\<rparr>\<lparr>as_pos := length (pre @ t) + length u\<rparr>)"
    using alt_skipsD [OF u, of "a\<lparr>as_pos := length pre + length t\<rparr>" "pre @ t" post] a by simp
  finally show "alt_loop (pre @ (t @ u) @ post) a =
      alt_loop (pre @ (t @ u) @ post) (a\<lparr>as_pos := length pre + length (t @ u)\<rparr>)"
    by (simp add: ac_simps)
qed

lemma alt_skips_mono: "alt_skips m t \<Longrightarrow> m \<le> n \<Longrightarrow> alt_skips n t"
  unfolding alt_skips_def by (meson order_trans)

text \<open>One turn of the loop at a known character.\<close>

lemma alt_loop_step:
  assumes "as_pos a = length pre" "alt_step (pre @ c # post) a = Inr b"
  shows "alt_loop (pre @ c # post) a = alt_loop (pre @ c # post) b"
  using assms by (subst alt_loop.simps) simp

definition plain_char :: "uchar \<Rightarrow> bool" where
  "plain_char c \<longleftrightarrow> c \<notin> {quote_c, lparen_c, rparen_c, lbracket_c, rbracket_c, backslash_c, pipe_c}"

lemma alt_skips_char: "plain_char c \<or> 1 \<le> m \<and> c = pipe_c \<Longrightarrow> alt_skips m [c]"
  unfolding alt_skips_def
  by (auto intro!: alt_loop_step simp: alt_step_def Let_def plain_char_def)

lemma alt_skips_plain: "list_all (\<lambda>c. plain_char c \<or> 1 \<le> m \<and> c = pipe_c) t \<Longrightarrow> alt_skips m t"
proof (induction t)
  case (Cons c t)
  then show ?case using alt_skips_append [OF alt_skips_char [of c m], of t] by auto
qed simp

lemma nth_close: "(pre @ x # t @ c # post) ! Suc (length pre + length t) = c"
  by (simp add: nth_append)

definition parens :: "uchar list \<Rightarrow> uchar list" where
  "parens t = lparen_c # t @ [rparen_c]"

lemma alt_skips_parens:
  assumes "alt_skips 1 t" "0 \<le> m"
  shows "alt_skips m (parens t)"
  unfolding alt_skips_def
proof (intro allI impI, elim conjE)
  fix pre post :: "uchar list" and a :: alt_scan
  assume a: "as_pos a = length pre" "\<not> as_in_string a" "\<not> as_in_hex a" "m \<le> as_paren a" "0 \<le> as_bracket a"
  let ?b = "a\<lparr>as_paren := as_paren a + 1, as_pos := length pre + 1\<rparr>"
  let ?c = "?b\<lparr>as_pos := length (pre @ [lparen_c]) + length t\<rparr>"
  let ?d = "a\<lparr>as_pos := length pre + length t + 2\<rparr>"
  have "alt_loop (pre @ lparen_c # (t @ rparen_c # post)) a = alt_loop (pre @ lparen_c # (t @ rparen_c # post)) ?b"
    by (rule alt_loop_step) (simp_all add: a alt_step_def Let_def)
  also have "\<dots> = alt_loop ((pre @ [lparen_c]) @ t @ (rparen_c # post)) ?c"
    using alt_skipsD [OF assms(1), of ?b "pre @ [lparen_c]" "rparen_c # post"] a assms(2) by simp
  also have "\<dots> = alt_loop ((pre @ lparen_c # t) @ rparen_c # post) ?c" by simp
  also have "\<dots> = alt_loop ((pre @ lparen_c # t) @ rparen_c # post) ?d"
    by (rule alt_loop_step) (use a assms(2) in \<open>simp_all add: alt_step_def Let_def nth_close\<close>)
  finally show "alt_loop (pre @ parens t @ post) a =
      alt_loop (pre @ parens t @ post) (a\<lparr>as_pos := length pre + length (parens t)\<rparr>)"
    by (simp add: parens_def)
qed

lemma alt_skips_brackets:
  assumes "alt_skips m t"
  shows "alt_skips m (lbracket_c # t @ [rbracket_c])"
  unfolding alt_skips_def
proof (intro allI impI, elim conjE)
  fix pre post :: "uchar list" and a :: alt_scan
  assume a: "as_pos a = length pre" "\<not> as_in_string a" "\<not> as_in_hex a" "m \<le> as_paren a" "0 \<le> as_bracket a"
  let ?b = "a\<lparr>as_bracket := as_bracket a + 1, as_pos := length pre + 1\<rparr>"
  let ?c = "?b\<lparr>as_pos := length (pre @ [lbracket_c]) + length t\<rparr>"
  let ?d = "a\<lparr>as_pos := length pre + length t + 2\<rparr>"
  have "alt_loop (pre @ lbracket_c # (t @ rbracket_c # post)) a = alt_loop (pre @ lbracket_c # (t @ rbracket_c # post)) ?b"
    by (rule alt_loop_step) (simp_all add: a alt_step_def Let_def)
  also have "\<dots> = alt_loop ((pre @ [lbracket_c]) @ t @ (rbracket_c # post)) ?c"
    using alt_skipsD [OF assms(1), of ?b "pre @ [lbracket_c]" "rbracket_c # post"] a by simp
  also have "\<dots> = alt_loop ((pre @ lbracket_c # t) @ rbracket_c # post) ?c" by simp
  also have "\<dots> = alt_loop ((pre @ lbracket_c # t) @ rbracket_c # post) ?d"
    by (rule alt_loop_step) (use a in \<open>simp_all add: alt_step_def Let_def nth_close\<close>)
  finally show "alt_loop (pre @ (lbracket_c # t @ [rbracket_c]) @ post) a =
      alt_loop (pre @ (lbracket_c # t @ [rbracket_c]) @ post)
        (a\<lparr>as_pos := length pre + length (lbracket_c # t @ [rbracket_c])\<rparr>)"
    by simp
qed

lemma alt_skips_hex: "alt_skips m [backslash_c, x_c, h, l]"
  unfolding alt_skips_def
proof (intro allI impI, elim conjE)
  fix pre post :: "uchar list" and a :: alt_scan
  assume a: "as_pos a = length pre" "\<not> as_in_string a" "\<not> as_in_hex a" "m \<le> as_paren a" "0 \<le> as_bracket a"
  let ?b = "a\<lparr>as_in_hex := True, as_pos := length pre + 2\<rparr>"
  let ?d = "a\<lparr>as_pos := length pre + 4\<rparr>"
  have "alt_loop (pre @ backslash_c # x_c # h # l # post) a = alt_loop (pre @ backslash_c # x_c # h # l # post) ?b"
    by (rule alt_loop_step) (simp_all add: a alt_step_def Let_def nth_append)
  also have "\<dots> = alt_loop ((pre @ [backslash_c, x_c]) @ h # l # post) ?b" by simp
  also have "\<dots> = alt_loop ((pre @ [backslash_c, x_c]) @ h # l # post) ?d"
    by (rule alt_loop_step) (use a in \<open>simp_all add: alt_step_def Let_def\<close>)
  finally show "alt_loop (pre @ [backslash_c, x_c, h, l] @ post) a =
      alt_loop (pre @ [backslash_c, x_c, h, l] @ post) (a\<lparr>as_pos := length pre + length [backslash_c, x_c, h, l]\<rparr>)"
    by (simp add: numeral_eq_Suc)
qed

text \<open>Inside a string only a quote whose previous character is no backslash ends it.\<close>

fun quotes_escaped :: "uchar \<Rightarrow> uchar list \<Rightarrow> bool" where
  "quotes_escaped p [] = True"
| "quotes_escaped p (c # s) \<longleftrightarrow> (c = quote_c \<longrightarrow> p = backslash_c) \<and> quotes_escaped c s"

lemma alt_loop_in_string:
  assumes "quotes_escaped p t" "as_pos a = length (pre @ [p])" "as_in_string a"
  shows "alt_loop (pre @ [p] @ t @ post) a = alt_loop (pre @ [p] @ t @ post) (a\<lparr>as_pos := length pre + 1 + length t\<rparr>)"
  using assms
proof (induction t arbitrary: pre p a)
  case Nil
  then have "a\<lparr>as_pos := length pre + 1 + length ([] :: uchar list)\<rparr> = a" by simp
  then show ?case by simp
next
  case (Cons c t)
  let ?b = "a\<lparr>as_pos := length pre + 2\<rparr>"
  have "a\<lparr>as_pos := length pre + 2, as_in_string := True\<rparr> = ?b" using Cons.prems by simp
  then have "alt_step ((pre @ [p]) @ c # (t @ post)) a = Inr ?b"
    using Cons.prems by (simp add: alt_step_def Let_def nth_append)
  then have "alt_loop ((pre @ [p]) @ c # (t @ post)) a = alt_loop ((pre @ [p]) @ c # (t @ post)) ?b"
    using Cons.prems by (intro alt_loop_step) simp_all
  also have "\<dots> = alt_loop ((pre @ [p]) @ [c] @ t @ post) ?b" by simp
  also have "\<dots> = alt_loop ((pre @ [p]) @ [c] @ t @ post) (?b\<lparr>as_pos := length (pre @ [p]) + 1 + length t\<rparr>)"
    using Cons.prems by (intro Cons.IH) simp_all
  finally show ?case by simp
qed

lemma alt_skips_quoted:
  assumes "quotes_escaped quote_c t" "t \<noteq> [] \<longrightarrow> last t \<noteq> backslash_c"
  shows "alt_skips m (quoted t)"
  unfolding alt_skips_def
proof (intro allI impI, elim conjE)
  fix pre post :: "uchar list" and a :: alt_scan
  assume a: "as_pos a = length pre" "\<not> as_in_string a" "\<not> as_in_hex a" "m \<le> as_paren a" "0 \<le> as_bracket a"
  let ?b = "a\<lparr>as_in_string := True, as_pos := length pre + 1\<rparr>"
  let ?c = "?b\<lparr>as_pos := length pre + 1 + length t\<rparr>"
  let ?d = "a\<lparr>as_pos := length pre + length t + 2\<rparr>"
  have "alt_loop (pre @ quote_c # (t @ quote_c # post)) a = alt_loop (pre @ quote_c # (t @ quote_c # post)) ?b"
    by (rule alt_loop_step) (simp_all add: a alt_step_def Let_def)
  also have "\<dots> = alt_loop (pre @ [quote_c] @ t @ (quote_c # post)) ?b" by simp
  also have "\<dots> = alt_loop (pre @ [quote_c] @ t @ (quote_c # post)) ?c"
    using assms(1) by (rule alt_loop_in_string) simp_all
  also have "\<dots> = alt_loop ((pre @ quote_c # t) @ quote_c # post) ?c" by simp
  also have "\<dots> = alt_loop ((pre @ quote_c # t) @ quote_c # post) ?d"
  proof (rule alt_loop_step)
    have "((pre @ quote_c # t) @ quote_c # post) ! (length pre + length t) \<noteq> backslash_c"
      using assms(2) by (cases t rule: rev_cases) (auto simp: nth_append)
    moreover have "((pre @ quote_c # t) @ quote_c # post) ! (Suc (length pre + length t)) = quote_c"
      by (simp add: nth_append)
    moreover have "a\<lparr>as_pos := Suc (Suc (length pre + length t)), as_in_string := False\<rparr> =
        a\<lparr>as_pos := Suc (Suc (length pre + length t))\<rparr>"
      using a(2) by simp
    ultimately show "alt_step ((pre @ quote_c # t) @ quote_c # post) ?c = Inr ?d"
      by (simp add: alt_step_def Let_def)
  qed simp
  finally show "alt_loop (pre @ quoted t @ post) a =
      alt_loop (pre @ quoted t @ post) (a\<lparr>as_pos := length pre + length (quoted t)\<rparr>)"
    by (simp add: quoted_def)
qed

subsection \<open>Literals\<close>

lemma escape_simps [simp]: "escape_json_string [] = []"
    "escape_json_string (c # w) = escape_json_char c @ escape_json_string w"
  by (simp_all add: escape_json_string_def)

lemma quotes_escaped_escape: "quotes_escaped p (escape_json_string w)"
proof (induction w arbitrary: p)
  case (Cons c w)
  then show ?case by (auto simp: escape_json_char_def)
qed simp

lemma escape_last: "w \<noteq> [] \<Longrightarrow> last (escape_json_string w) = backslash_c \<longleftrightarrow> last w = backslash_c"
proof (induction w)
  case (Cons c w)
  have "escape_json_string w = [] \<longleftrightarrow> w = []" by (cases w) (auto simp: escape_json_char_def)
  with Cons show ?case by (auto simp: escape_json_char_def)
qed simp

lemma escape_Nil_iff: "escape_json_string w = [] \<longleftrightarrow> w = []"
  by (cases w) (auto simp: escape_json_char_def)

lemma ascii_escape: "ascii w \<Longrightarrow> ascii (escape_json_string w)"
  by (induction w) (auto simp: escape_json_char_def)

lemma escape_no_newline: "10 \<notin> set (escape_json_string w)"
  by (induction w) (auto simp: escape_json_char_def)

lemma scan_string_escape:
  "scan_string past (pre @ escape_json_string w @ quote_c # post) (length pre) =
     length pre + length (escape_json_string w) + (if past then 1 else 0)"
proof (induction w arbitrary: pre)
  case Nil
  then show ?case by (subst scan_string.simps) simp
next
  case (Cons c w)
  let ?s = "pre @ escape_json_string (c # w) @ quote_c # post"
  have "scan_string past ?s (length pre) =
      scan_string past ((pre @ escape_json_char c) @ escape_json_string w @ quote_c # post)
        (length (pre @ escape_json_char c))"
    by (subst scan_string.simps) (simp add: escape_json_char_def)
  also have "\<dots> = length (pre @ escape_json_char c) + length (escape_json_string w) + (if past then 1 else 0)"
    by (rule Cons.IH)
  finally show ?case by simp
qed

lemma unescape_from_escape: "unescape_from (pre @ escape_json_string w) (length pre) = Inr w"
proof (induction w arbitrary: pre)
  case Nil
  then show ?case by (subst unescape_from.simps) simp
next
  case (Cons c w)
  have "unescape_from (pre @ escape_json_string (c # w)) (length pre) =
      map_sum id (Cons c) (unescape_from ((pre @ escape_json_char c) @ escape_json_string w) (length (pre @ escape_json_char c)))"
    by (subst unescape_from.simps) (auto simp: escape_json_char_def escaped_char_def nth_append)
  also have "unescape_from ((pre @ escape_json_char c) @ escape_json_string w) (length (pre @ escape_json_char c)) = Inr w"
    by (rule Cons.IH)
  finally show ?case by simp
qed

lemma unescape_escape: "unescape_string (escape_json_string w) = Inr w"
  using unescape_from_escape [of "[]" w] by (simp add: unescape_string_def)

subsection \<open>What the search of a closing parenthesis skips\<close>

definition group_skips :: "uchar list \<Rightarrow> bool" where
  "group_skips t \<longleftrightarrow> (\<forall>pre post d. 0 < d \<longrightarrow>
     scan_group (pre @ t @ post) d (length pre) = scan_group (pre @ t @ post) d (length pre + length t))"

lemma group_skipsD:
  "group_skips t \<Longrightarrow> 0 < d \<Longrightarrow>
    scan_group (pre @ t @ post) d (length pre) = scan_group (pre @ t @ post) d (length pre + length t)"
  by (simp add: group_skips_def)

lemma group_skips_Nil [simp]: "group_skips []"
  by (simp add: group_skips_def)

lemma group_skips_append:
  assumes t: "group_skips t" and u: "group_skips u"
  shows "group_skips (t @ u)"
  unfolding group_skips_def
proof (intro allI impI)
  fix pre post :: "uchar list" and d :: nat
  assume d: "0 < d"
  have "scan_group (pre @ t @ (u @ post)) d (length pre) = scan_group ((pre @ t) @ u @ post) d (length (pre @ t))"
    using group_skipsD [OF t d, of pre "u @ post"] by simp
  also have "\<dots> = scan_group ((pre @ t) @ u @ post) d (length (pre @ t) + length u)"
    by (rule group_skipsD [OF u d])
  finally show "scan_group (pre @ (t @ u) @ post) d (length pre) =
      scan_group (pre @ (t @ u) @ post) d (length pre + length (t @ u))"
    by (simp add: ac_simps)
qed

lemma group_skips_char: "c \<notin> {lparen_c, rparen_c, quote_c} \<Longrightarrow> group_skips [c]"
  unfolding group_skips_def by (intro allI impI, subst scan_group.simps) simp

lemma group_skips_chars: "list_all (\<lambda>c. c \<notin> {lparen_c, rparen_c, quote_c}) t \<Longrightarrow> group_skips t"
proof (induction t)
  case (Cons c t)
  then show ?case using group_skips_append [OF group_skips_char [of c], of t] by simp
qed simp

lemma group_skips_literal: "group_skips (quoted (escape_json_string w))"
  unfolding group_skips_def
proof (intro allI impI)
  fix pre post :: "uchar list" and d :: nat
  assume d: "0 < d"
  let ?s = "pre @ quoted (escape_json_string w) @ post"
  have "scan_string False ?s (length pre + 1) = length pre + 1 + length (escape_json_string w)"
    using scan_string_escape [of False "pre @ [quote_c]" w post] by (simp add: quoted_def)
  with d show "scan_group ?s d (length pre) = scan_group ?s d (length pre + length (quoted (escape_json_string w)))"
    by (subst scan_group.simps) (simp add: quoted_def)
qed

lemma scan_group_close:
  assumes "group_skips t"
  shows "scan_group (pre @ parens t @ post) d (Suc (length pre)) = (if d = 0 then Suc (length pre)
     else scan_group (pre @ parens t @ post) (d - 1) (length pre + length (parens t)))"
proof (cases "d = 0")
  case True
  then show ?thesis by (subst scan_group.simps) simp
next
  case False
  have "scan_group (pre @ parens t @ post) d (Suc (length pre)) = scan_group (pre @ parens t @ post) d (Suc (length pre + length t))"
    using group_skipsD [OF assms, of d "pre @ [lparen_c]" "rparen_c # post"] False by (simp add: parens_def)
  also have "\<dots> = scan_group (pre @ parens t @ post) (d - 1) (length pre + length (parens t))"
    using False by (subst scan_group.simps) (simp add: parens_def nth_close)
  finally show ?thesis using False by simp
qed

lemma group_skips_parens:
  assumes "group_skips t"
  shows "group_skips (parens t)"
  unfolding group_skips_def
proof (intro allI impI)
  fix pre post :: "uchar list" and d :: nat
  assume d: "0 < d"
  have "scan_group (pre @ parens t @ post) d (length pre) = scan_group (pre @ parens t @ post) (Suc d) (Suc (length pre))"
    using d by (subst scan_group.simps) (simp add: parens_def)
  with scan_group_close [OF assms, of pre post "Suc d"]
  show "scan_group (pre @ parens t @ post) d (length pre) =
      scan_group (pre @ parens t @ post) d (length pre + length (parens t))" by simp
qed

subsection \<open>The extent of a term\<close>

lemma scan_while_list:
  "list_all P t \<Longrightarrow> post = [] \<or> \<not> P (hd post) \<Longrightarrow> scan_while P (pre @ t @ post) (length pre) = length pre + length t"
proof (induction t arbitrary: pre)
  case Nil
  then show ?case by (subst scan_while.simps) (cases post; simp)
next
  case (Cons c t)
  have "scan_while P (pre @ (c # t) @ post) (length pre) = scan_while P ((pre @ [c]) @ t @ post) (length (pre @ [c]))"
    using Cons.prems by (subst scan_while.simps) simp
  also have "\<dots> = length (pre @ [c]) + length t" using Cons.prems by (intro Cons.IH) simp_all
  finally show ?case by simp
qed

definition body_ends :: "uchar list \<Rightarrow> bool" where
  "body_ends t \<longleftrightarrow> (\<forall>pre post. post = [] \<or> is_whitespace (hd post) \<or> suffix_char (hd post) \<longrightarrow>
     term_body_end (pre @ t @ post) (length pre) = length pre + length t)"

lemma body_ends_literal: "body_ends (quoted (escape_json_string w))"
  unfolding body_ends_def
proof (intro allI impI)
  fix pre post :: "uchar list"
  show "term_body_end (pre @ quoted (escape_json_string w) @ post) (length pre) =
      length pre + length (quoted (escape_json_string w))"
    using scan_string_escape [of True "pre @ [quote_c]" w post]
    by (simp add: quoted_def term_body_end_def)
qed

lemma body_ends_parens:
  assumes "group_skips t"
  shows "body_ends (parens t)"
  unfolding body_ends_def
proof (intro allI impI)
  fix pre post :: "uchar list"
  have "scan_group (pre @ parens t @ post) 0 i = i" for i by (subst scan_group.simps) simp
  moreover have "(pre @ parens t @ post) ! length pre = lparen_c" by (simp add: parens_def)
  ultimately show "term_body_end (pre @ parens t @ post) (length pre) = length pre + length (parens t)"
    using scan_group_close [OF assms, of pre post 1] by (simp add: term_body_end_def)
qed

definition class_char :: "uchar \<Rightarrow> bool" where
  "class_char c \<longleftrightarrow> is_alnum c \<or> c = minus_c \<or> c = caret_c"

lemma scan_class_plain:
  "list_all class_char t \<Longrightarrow> scan_class (pre @ t @ rbracket_c # post) 1 (length pre) = length pre + length t + 1"
proof (induction t arbitrary: pre)
  case Nil
  have "scan_class s 0 i = i" for s i by (subst scan_class.simps) simp
  then show ?case by (subst scan_class.simps) simp
next
  case (Cons c t)
  have "scan_class (pre @ (c # t) @ rbracket_c # post) 1 (length pre) =
      scan_class ((pre @ [c]) @ t @ rbracket_c # post) 1 (length (pre @ [c]))"
    using Cons.prems
    by (subst scan_class.simps) (auto simp: class_char_def is_alnum_def is_alpha_def)
  also have "\<dots> = length (pre @ [c]) + length t + 1" using Cons.prems by (intro Cons.IH) simp_all
  finally show ?case by simp
qed

lemma body_ends_class:
  assumes "list_all class_char t"
  shows "body_ends (lbracket_c # t @ [rbracket_c])"
  unfolding body_ends_def
  using scan_class_plain [OF assms, of "_ @ [lbracket_c]"] by (simp add: term_body_end_def)

lemma body_ends_dot: "body_ends [dot_c]"
  by (simp add: body_ends_def term_body_end_def)

lemma body_ends_hex: "body_ends [backslash_c, x_c, h, l]"
  by (simp add: body_ends_def term_body_end_def nth_append)

definition name_char :: "uchar \<Rightarrow> bool" where
  "name_char c \<longleftrightarrow> is_alnum c \<or> c = 95 \<or> c = minus_c"

lemma name_char_props:
  assumes "name_char c"
  shows "ident_char c" "plain_char c" "c \<notin> {lparen_c, rparen_c, quote_c}" "\<not> is_whitespace c" "c < 128"
    "\<not> suffix_char c" "c \<noteq> 58" "c \<noteq> hash_c" "c \<noteq> 10" "c \<noteq> dot_c"
  using assms
  by (auto simp: name_char_def is_alnum_def is_alpha_def ident_char_def plain_char_def is_whitespace_def
      suffix_char_def)

lemma identifier_chars:
  assumes "is_identifier r"
  shows "r \<noteq> []" "list_all name_char r"
  using assms by (auto simp: is_identifier_def name_char_def is_alnum_def list_all_iff split: list.splits)

lemma ends_not_ident: "is_whitespace c \<or> suffix_char c \<Longrightarrow> \<not> ident_char c"
  by (auto simp: ident_char_def suffix_char_def)

lemma body_ends_name:
  assumes "is_identifier r"
  shows "body_ends r"
  unfolding body_ends_def
proof (intro allI impI)
  fix pre post :: "uchar list"
  assume post: "post = [] \<or> is_whitespace (hd post) \<or> suffix_char (hd post)"
  obtain c cs where r: "r = c # cs" using identifier_chars(1) [OF assms] by (cases r) auto
  have c: "name_char c" using identifier_chars(2) [OF assms] r by simp
  have "list_all ident_char r"
    using identifier_chars(2) [OF assms] name_char_props(1) by (auto simp: list_all_iff)
  moreover have "post = [] \<or> \<not> ident_char (hd post)" using post ends_not_ident by blast
  ultimately have "scan_while ident_char (pre @ r @ post) (length pre) = length pre + length r"
    by (rule scan_while_list)
  then show "term_body_end (pre @ r @ post) (length pre) = length pre + length r"
    using name_char_props(2,10) [OF c] r by (simp add: term_body_end_def plain_char_def)
qed

subsection \<open>Terms and sequences\<close>

text \<open>What every printed text has.\<close>

definition framed :: "uchar list \<Rightarrow> bool" where
  "framed t \<longleftrightarrow> ascii t \<and> 10 \<notin> set t \<and> trimmed t \<and> group_skips t"

lemma framed_append: "framed s \<Longrightarrow> framed t \<Longrightarrow> ascii u \<Longrightarrow> 10 \<notin> set u \<Longrightarrow> group_skips u \<Longrightarrow> framed (s @ u @ t)"
  by (auto simp: framed_def trimmed_append intro: group_skips_append)

definition is_atom :: "uchar list \<Rightarrow> gnode \<Rightarrow> bool" where
  "is_atom t n \<longleftrightarrow> framed t \<and> alt_skips 0 t \<and> body_ends t \<and> \<not> suffix_char (last t) \<and>
     parse_atom t = Some (Inr n)"

definition is_term :: "uchar list \<Rightarrow> gnode \<Rightarrow> bool" where
  "is_term t n \<longleftrightarrow> framed t \<and> alt_skips 0 t \<and> t \<notin> {[star_c], [plus_c], [quest_c]} \<and>
     (\<forall>pre post. post = [] \<or> is_whitespace (hd post) \<longrightarrow>
       term_end (pre @ t @ post) (length pre) = length pre + length t) \<and>
     parse_term t = Some (Inr n)"

definition is_seq :: "uchar list \<Rightarrow> gnode \<Rightarrow> bool" where
  "is_seq t n \<longleftrightarrow> framed t \<and> alt_skips 0 t \<and>
     (\<forall>l r. blank l \<and> blank r \<and> ascii l \<and> ascii r \<longrightarrow> parse_sequence (l @ t @ r) = Some (Inr n))"

definition is_expr :: "uchar list \<Rightarrow> gnode \<Rightarrow> bool" where
  "is_expr t n \<longleftrightarrow> framed t \<and> alt_skips 1 t \<and> parse_expression t = Some (Inr n)"

lemma framed_trim [simp]: "framed t \<Longrightarrow> trim t = t"
  by (simp add: framed_def trim_trimmed)

lemma framed_ne: "framed t \<Longrightarrow> t \<noteq> []"
  by (simp add: framed_def trimmed_def)

lemma suffix_char_not_space: "suffix_char c \<Longrightarrow> \<not> is_whitespace c"
  by (auto simp: suffix_char_def is_whitespace_def)

lemma suffix_char_props:
  assumes "suffix_char c"
  shows "plain_char c" "c < 128" "c \<noteq> 10" "c \<notin> {lparen_c, rparen_c, quote_c}"
  using assms by (auto simp: suffix_char_def plain_char_def)

lemma term_end_suffix:
  assumes "body_ends t" "list_all suffix_char x" "post = [] \<or> is_whitespace (hd post)"
  shows "term_end (pre @ (t @ x) @ post) (length pre) = length pre + length (t @ x)"
proof -
  have "x @ post = [] \<or> is_whitespace (hd (x @ post)) \<or> suffix_char (hd (x @ post))"
    using assms(2,3) by (cases x) auto
  with assms(1) have "term_body_end (pre @ t @ (x @ post)) (length pre) = length pre + length t"
    unfolding body_ends_def by blast
  moreover have "scan_while suffix_char ((pre @ t) @ x @ post) (length (pre @ t)) = length (pre @ t) + length x"
    using assms(2,3) suffix_char_not_space by (intro scan_while_list) auto
  ultimately show ?thesis by (simp add: term_end_def)
qed

lemma atom_term:
  assumes "is_atom t n"
  shows "is_term t n"
proof -
  have t: "framed t" "alt_skips 0 t" "body_ends t" "\<not> suffix_char (last t)" "parse_atom t = Some (Inr n)"
    using assms by (auto simp: is_atom_def)
  have "split_suffix t = (t, NoSuffix)"
    using t(4) by (auto simp: split_suffix_def suffix_char_def)
  then have "parse_term t = Some (Inr n)"
    using t(1,5) framed_ne [OF t(1)] by (simp add: parse_term.simps apply_suffix_def)
  moreover have "t \<notin> {[star_c], [plus_c], [quest_c]}"
    using t(4) by (auto simp: suffix_char_def)
  moreover have "term_end (pre @ t @ post) (length pre) = length pre + length t"
    if "post = [] \<or> is_whitespace (hd post)" for pre post
    using term_end_suffix [OF t(3), of "[]" post pre] that by simp
  ultimately show ?thesis using t by (simp add: is_term_def)
qed

lemma suffixed_term:
  assumes "is_atom t n" "split_suffix (t @ [c]) = (t, x)" "suffix_char c"
  shows "is_term (t @ [c]) (apply_suffix x n)"
proof -
  have t: "framed t" "alt_skips 0 t" "body_ends t" "parse_atom t = Some (Inr n)"
    using assms(1) by (auto simp: is_atom_def)
  note c = suffix_char_props [OF assms(3)] suffix_char_not_space [OF assms(3)]
  have "trimmed (t @ [c])" using t(1) c by (auto simp: framed_def trimmed_def)
  moreover have "group_skips (t @ [c])"
    using t(1) group_skips_char [OF c(4)] group_skips_append by (auto simp: framed_def)
  ultimately have f: "framed (t @ [c])" using t(1) c by (simp add: framed_def)
  have "alt_skips 0 (t @ [c])" using t(2) alt_skips_char c(1) alt_skips_append by blast
  moreover have "t @ [c] \<notin> {[star_c], [plus_c], [quest_c]}" using framed_ne [OF t(1)] by auto
  moreover have "term_end (pre @ (t @ [c]) @ post) (length pre) = length pre + length (t @ [c])"
    if "post = [] \<or> is_whitespace (hd post)" for pre post
    using t(3) assms(3) that by (intro term_end_suffix) simp_all
  moreover have "parse_term (t @ [c]) = Some (Inr (apply_suffix x n))"
    using assms(2) t(1,4) framed_ne [OF f] f by (simp add: parse_term.simps)
  ultimately show ?thesis using f by (simp add: is_term_def)
qed

lemma terms_loop_end:
  assumes "blank r"
  shows "terms_loop (pre @ r) (length pre) acc = Some (Inr acc)"
proof -
  have "scan_while is_whitespace (pre @ r @ []) (length pre) = length pre + length r"
    using assms by (intro scan_while_list) (simp_all add: blank_def)
  then show ?thesis by (subst terms_loop.simps) (simp add: Let_def)
qed

lemma terms_loop_framed:
  assumes "framed t" "blank g" "ascii (pre @ g @ t @ post)"
    and stop: "term_end ((pre @ g) @ t @ post) (length (pre @ g)) = length (pre @ g) + length t"
  shows "terms_loop (pre @ g @ t @ post) (length pre) acc =
    terms_loop (pre @ g @ t @ post) (length (pre @ g @ t)) (acc @ [t])"
proof -
  let ?s = "pre @ g @ t @ post"
  have t: "framed t" "t \<noteq> []" using assms(1) framed_ne by auto
  have "\<not> is_whitespace (hd (t @ post))" using t by (auto simp: framed_def trimmed_def)
  then have start: "scan_while is_whitespace ?s (length pre) = length pre + length g"
    using assms(2) by (intro scan_while_list) (simp_all add: blank_def)
  have "slice ((pre @ g) @ t @ post) (length (pre @ g)) (length (pre @ g) + length t) = Some t"
    using assms(3) by (intro slice_ascii) simp
  with start stop t show ?thesis by (subst terms_loop.simps) (simp add: Let_def add.assoc)
qed

lemma terms_loop_term:
  assumes "is_term t n" "blank g" "ascii (pre @ g @ t @ post)" "post = [] \<or> is_whitespace (hd post)"
  shows "terms_loop (pre @ g @ t @ post) (length pre) acc =
    terms_loop (pre @ g @ t @ post) (length (pre @ g @ t)) (acc @ [t])"
proof (rule terms_loop_framed)
  show "framed t" using assms(1) by (simp add: is_term_def)
  show "term_end ((pre @ g) @ t @ post) (length (pre @ g)) = length (pre @ g) + length t"
    using assms(1,4) unfolding is_term_def by blast
qed (use assms in simp_all)

lemma terms_loop_terms:
  "list_all2 is_term ts ns \<Longrightarrow> blank r \<Longrightarrow> ascii (pre @ concat (map (Cons 32) ts) @ r) \<Longrightarrow>
    terms_loop (pre @ concat (map (Cons 32) ts) @ r) (length pre) acc = Some (Inr (acc @ ts))"
proof (induction ts arbitrary: ns pre acc)
  case Nil
  then show ?case using terms_loop_end [of r pre acc] by simp
next
  case (Cons t ts)
  obtain n ns' where ns: "ns = n # ns'" "is_term t n" "list_all2 is_term ts ns'"
    using Cons.prems(1) by (auto simp: list_all2_Cons1)
  let ?post = "concat (map (Cons 32) ts) @ r"
  have "?post = [] \<or> is_whitespace (hd ?post)"
    using Cons.prems(2) by (cases ts; cases r) (auto simp: blank_def)
  then have "terms_loop (pre @ [32] @ t @ ?post) (length pre) acc =
      terms_loop ((pre @ [32] @ t) @ ?post) (length (pre @ [32] @ t)) (acc @ [t])"
    using terms_loop_term [OF ns(2), of "[32]" pre ?post acc] Cons.prems(3) by simp
  also have "\<dots> = Some (Inr ((acc @ [t]) @ ts))"
    using Cons.prems by (intro Cons.IH [OF ns(3)]) simp_all
  finally show ?case by simp
qed

lemma spaced_Cons: "spaced (t # ts) = t @ concat (map (Cons 32) ts)"
proof (induction ts arbitrary: t)
  case (Cons u us)
  then show ?case by (simp add: spaced_def text_of_def of_char_def)
qed (simp add: spaced_def)

lemma split_terms:
  assumes "list_all2 is_term ts ns" "ts \<noteq> []" "blank l" "blank r" "ascii (l @ spaced ts @ r)"
  shows "split_sequence_terms (l @ spaced ts @ r) = Some (Inr ts)"
proof -
  obtain t us n ms where ts: "ts = t # us" "is_term t n" "list_all2 is_term us ms"
    using assms(1,2) by (cases ts) (auto simp: list_all2_Cons1)
  let ?post = "concat (map (Cons 32) us) @ r"
  have "?post = [] \<or> is_whitespace (hd ?post)"
    using assms(4) by (cases us; cases r) (auto simp: blank_def)
  then have "terms_loop (l @ t @ ?post) 0 [] = terms_loop ((l @ t) @ ?post) (length (l @ t)) [t]"
    using terms_loop_term [OF ts(2) assms(3), of "[]" ?post "[]"] assms(5) ts(1) by (simp add: spaced_Cons)
  also have "\<dots> = Some (Inr ([t] @ us))"
    using terms_loop_terms [OF ts(3) assms(4), of "l @ t" "[t]"] assms(5) ts(1) by (simp add: spaced_Cons)
  finally have "terms_loop (l @ spaced ts @ r) 0 [] = Some (Inr ts)" by (simp add: ts(1) spaced_Cons)
  moreover have "find (\<lambda>t. t = [star_c] \<or> t = [plus_c] \<or> t = [quest_c]) ts = None"
    using assms(1) by (auto simp: find_None_iff list_all2_conv_all_nth in_set_conv_nth is_term_def)
  ultimately show ?thesis by (simp add: split_sequence_terms_def)
qed

lemma map_parse_list: "list_all2 (\<lambda>x y. f x = Some (Inr y)) xs ys \<Longrightarrow> map_parse f xs = Some (Inr ys)"
  by (induction rule: list_all2_induct) simp_all

lemma term_seq:
  assumes "is_term t n"
  shows "is_seq t n"
proof -
  have t: "framed t" "alt_skips 0 t" "parse_term t = Some (Inr n)" using assms by (auto simp: is_term_def)
  have "parse_sequence (l @ t @ r) = Some (Inr n)" if "blank l" "blank r" "ascii l" "ascii r" for l r
  proof -
    have "split_sequence_terms (l @ spaced [t] @ r) = Some (Inr [t])"
      using assms that t(1) by (intro split_terms [where ns = "[n]"]) (simp_all add: spaced_Cons framed_def)
    then show ?thesis by (simp add: spaced_Cons parse_sequence.simps t(3))
  qed
  with t show ?thesis by (simp add: is_seq_def)
qed

lemma framed_spaced:
  "list_all2 is_term ts ns \<Longrightarrow> ts \<noteq> [] \<Longrightarrow> framed (spaced ts) \<and> alt_skips 0 (spaced ts)"
proof (induction ts arbitrary: ns)
  case (Cons t ts)
  obtain n ns' where t: "is_term t n" "list_all2 is_term ts ns'"
    using Cons.prems(1) by (auto simp: list_all2_Cons1)
  then have f: "framed t" "alt_skips 0 t" by (auto simp: is_term_def)
  show ?case
  proof (cases "ts = []")
    case True
    then show ?thesis using f by (simp add: spaced_Cons)
  next
    case False
    then obtain u us where ts: "ts = u # us" by (cases ts) auto
    have sp: "spaced (t # ts) = t @ [32] @ spaced ts" by (simp add: spaced_Cons ts)
    note IH = Cons.IH [OF t(2) False]
    have "group_skips [32]" "alt_skips 0 [32]"
      by (simp_all add: group_skips_char alt_skips_char plain_char_def)
    then have "framed (t @ [32] @ spaced ts)" "alt_skips 0 (t @ [32] @ spaced ts)"
      using f IH by (auto intro!: framed_append alt_skips_append simp del: append_Cons append_Nil)
    then show ?thesis by (simp add: sp)
  qed
qed simp

lemma terms_seq:
  assumes "list_all2 is_term ts ns" "2 \<le> length ts"
  shows "is_seq (spaced ts) (Seq ns)"
proof -
  have ne: "ts \<noteq> []" "length ts \<noteq> 1" using assms(2) by auto
  note f = framed_spaced [OF assms(1) ne(1)]
  have "list_all2 (\<lambda>t n. parse_term t = Some (Inr n)) ts ns"
    using assms(1) by (rule list_all2_mono) (simp add: is_term_def)
  note parsed = map_parse_list [OF this]
  have "parse_sequence (l @ spaced ts @ r) = Some (Inr (Seq ns))"
    if "blank l" "blank r" "ascii l" "ascii r" for l r
  proof -
    have "split_sequence_terms (l @ spaced ts @ r) = Some (Inr ts)"
      using assms(1) ne that f by (intro split_terms) (simp_all add: framed_def)
    then show ?thesis using ne parsed by (simp add: parse_sequence.simps)
  qed
  with f show ?thesis by (simp add: is_seq_def)
qed

subsection \<open>Alternatives\<close>

lemma alt_loop_parts:
  "us \<noteq> [] \<Longrightarrow> \<forall>u \<in> set us. alt_skips 0 u \<Longrightarrow> ascii (pre @ join_text [pipe_c] us) \<Longrightarrow>
    as_pos a = length pre \<Longrightarrow> as_start a = length pre \<Longrightarrow> \<not> as_in_string a \<Longrightarrow> \<not> as_in_hex a \<Longrightarrow>
    as_paren a = 0 \<Longrightarrow> as_bracket a = 0 \<Longrightarrow>
    \<exists>b. alt_loop (pre @ join_text [pipe_c] us) a = Inr b \<and> as_paren b = 0 \<and> as_bracket b = 0 \<and>
      \<not> as_in_string b \<and> as_start b \<le> length (pre @ join_text [pipe_c] us) \<and>
      as_parts b @ [drop (as_start b) (pre @ join_text [pipe_c] us)] = as_parts a @ us"
proof (induction "[pipe_c]" us arbitrary: pre a rule: join_text.induct)
  case (2 u)
  have "alt_loop (pre @ u @ []) a = alt_loop (pre @ u @ []) (a\<lparr>as_pos := length pre + length u\<rparr>)"
    using 2 by (intro alt_skipsD [of 0]) simp_all
  also have "\<dots> = Inr (a\<lparr>as_pos := length pre + length u\<rparr>)" by (subst alt_loop.simps) simp
  finally show ?case using 2 by simp
next
  case (3 u v us)
  let ?rest = "join_text [pipe_c] (v # us)"
  let ?s = "pre @ u @ pipe_c # ?rest"
  let ?b = "a\<lparr>as_pos := length pre + length u\<rparr>"
  let ?c = "a\<lparr>as_parts := as_parts a @ [u], as_start := length (pre @ u @ [pipe_c]),
    as_pos := length (pre @ u @ [pipe_c])\<rparr>"
  have ascii: "ascii ?s" using 3(4) by simp
  have "alt_loop ?s a = alt_loop ?s ?b"
    using 3(3,5-10) by (intro alt_skipsD [of 0]) simp_all
  also have "\<dots> = alt_loop ((pre @ u) @ pipe_c # ?rest) ?b" by simp
  also have "\<dots> = alt_loop ((pre @ u) @ pipe_c # ?rest) ?c"
  proof (rule alt_loop_step)
    have "slice ?s (length pre) (length pre + length u) = Some u" using ascii by (rule slice_ascii)
    then show "alt_step ((pre @ u) @ pipe_c # ?rest) ?b = Inr ?c"
      using 3(5-10) by (simp add: alt_step_def Let_def or_panic_def)
  qed simp
  also have "\<dots> = alt_loop ((pre @ u @ [pipe_c]) @ ?rest) ?c" by simp
  finally have step: "alt_loop ?s a = alt_loop ((pre @ u @ [pipe_c]) @ ?rest) ?c" .
  have "\<exists>b. alt_loop ((pre @ u @ [pipe_c]) @ ?rest) ?c = Inr b \<and> as_paren b = 0 \<and> as_bracket b = 0 \<and>
      \<not> as_in_string b \<and> as_start b \<le> length ((pre @ u @ [pipe_c]) @ ?rest) \<and>
      as_parts b @ [drop (as_start b) ((pre @ u @ [pipe_c]) @ ?rest)] = as_parts ?c @ v # us"
    using 3(3,5-10) ascii by (intro 3(1)) simp_all
  with step show ?case by simp
qed simp

lemma split_parts:
  assumes "us \<noteq> []" "\<forall>u \<in> set us. alt_skips 0 u" "ascii (join_text [pipe_c] us)"
  shows "split_alternation (join_text [pipe_c] us) = Inr us"
proof -
  obtain b where "alt_loop (join_text [pipe_c] us) alt_init = Inr b" "as_paren b = 0" "as_bracket b = 0"
      "\<not> as_in_string b" "as_start b \<le> length (join_text [pipe_c] us)"
      "as_parts b @ [drop (as_start b) (join_text [pipe_c] us)] = us"
    using alt_loop_parts [of us "[]" alt_init] assms by (auto simp: alt_init_def)
  with assms(3) show ?thesis
    by (simp add: split_alternation_def drop_bytes_ascii or_panic_def)
qed

lemma is_seqD: "is_seq t n \<Longrightarrow> blank l \<Longrightarrow> blank r \<Longrightarrow> ascii l \<Longrightarrow> ascii r \<Longrightarrow>
    parse_sequence (l @ t @ r) = Some (Inr n)"
  by (simp add: is_seq_def)

lemma seq_expr:
  assumes "is_seq t n"
  shows "is_expr t n"
proof -
  have t: "framed t" "alt_skips 0 t" "parse_sequence t = Some (Inr n)"
    using assms is_seqD [OF assms, of "[]" "[]"] by (simp_all add: is_seq_def)
  have "split_alternation t = Inr [t]" using split_parts [of "[t]"] t by (simp add: framed_def)
  with t framed_ne [OF t(1)] show ?thesis
    by (auto simp: is_expr_def parse_expression.simps intro: alt_skips_mono)
qed

text \<open>The alternatives with the spaces around the bars.\<close>

fun padded :: "uchar list \<Rightarrow> uchar list list \<Rightarrow> uchar list list" where
  "padded l [] = []"
| "padded l [t] = [l @ t]"
| "padded l (t # u # ts) = (l @ t @ [32]) # padded [32] (u # ts)"

definition barred :: "uchar list list \<Rightarrow> uchar list" where
  "barred ts = join_text [32, pipe_c, 32] ts"

lemma padded_Nil_iff: "padded l ts = [] \<longleftrightarrow> ts = []"
  by (induction l ts rule: padded.induct) simp_all

lemma padded_length [simp]: "length (padded l ts) = length ts"
  by (induction l ts rule: padded.induct) simp_all

lemma join_padded: "ts \<noteq> [] \<Longrightarrow> join_text [pipe_c] (padded l ts) = l @ barred ts"
proof (induction l ts rule: padded.induct)
  case (3 l t u ts)
  obtain p ps where p: "padded [32] (u # ts) = p # ps"
    by (cases "padded [32] (u # ts)") (auto simp: padded_Nil_iff)
  with 3 show ?case by (simp add: barred_def)
qed (simp_all add: barred_def)

lemma padded_skips:
  "list_all2 is_seq ts ns \<Longrightarrow> alt_skips 0 l \<Longrightarrow> u \<in> set (padded l ts) \<Longrightarrow> alt_skips 0 u"
proof (induction l ts arbitrary: ns rule: padded.induct)
  case (2 l t)
  then show ?case by (auto simp: list_all2_Cons1 is_seq_def intro: alt_skips_append)
next
  case (3 l t v ts)
  have space: "alt_skips 0 [32]" by (simp add: alt_skips_char plain_char_def)
  obtain n ms where n: "is_seq t n" "list_all2 is_seq (v # ts) ms"
    using "3.prems"(1) by (auto simp: list_all2_Cons1)
  consider "u = l @ t @ [32]" | "u \<in> set (padded [32] (v # ts))" using "3.prems"(3) by auto
  then show ?case
  proof cases
    case 1
    then show ?thesis using "3.prems"(2) n(1) space
      by (auto simp: is_seq_def intro!: alt_skips_append simp del: append_assoc)
  next
    case 2
    then show ?thesis using "3.IH" [OF n(2) space] by blast
  qed
qed simp

lemma padded_parse:
  "list_all2 is_seq ts ns \<Longrightarrow> blank l \<Longrightarrow> ascii l \<Longrightarrow>
    list_all2 (\<lambda>u n. parse_sequence u = Some (Inr n)) (padded l ts) ns"
proof (induction l ts arbitrary: ns rule: padded.induct)
  case (2 l t)
  then obtain n where n: "ns = [n]" "is_seq t n" by (auto simp: list_all2_Cons1)
  have "parse_sequence (l @ t @ []) = Some (Inr n)" using "2.prems" by (intro is_seqD [OF n(2)]) simp_all
  with n show ?case by simp
next
  case (3 l t v ts)
  then obtain n ms where n: "ns = n # ms" "is_seq t n" "list_all2 is_seq (v # ts) ms"
    by (auto simp: list_all2_Cons1)
  then have "parse_sequence (l @ t @ [32]) = Some (Inr n)" using "3.prems" by (simp add: is_seq_def)
  moreover have "list_all2 (\<lambda>u n. parse_sequence u = Some (Inr n)) (padded [32] (v # ts)) ms"
    by (rule "3.IH" [OF n(3)]) simp_all
  ultimately show ?case using n by simp
qed simp

lemma framed_barred:
  "list_all2 is_seq ts ns \<Longrightarrow> ts \<noteq> [] \<Longrightarrow> framed (barred ts) \<and> alt_skips 1 (barred ts)"
proof (induction ts arbitrary: ns)
  case (Cons t ts)
  obtain n ns' where t: "is_seq t n" "list_all2 is_seq ts ns'"
    using Cons.prems(1) by (auto simp: list_all2_Cons1)
  then have f: "framed t" "alt_skips 1 t" by (auto simp: is_seq_def intro: alt_skips_mono)
  show ?case
  proof (cases ts)
    case Nil
    then show ?thesis using f by (simp add: barred_def)
  next
    case (Cons u us)
    then have b: "barred (t # ts) = t @ [32, pipe_c, 32] @ barred ts" by (simp add: barred_def)
    note IH = Cons.IH [OF t(2)]
    have "group_skips [32, pipe_c, 32]" "alt_skips 1 [32, pipe_c, 32]"
      by (simp_all add: group_skips_chars alt_skips_plain plain_char_def)
    then have "framed (t @ [32, pipe_c, 32] @ barred ts)" "alt_skips 1 (t @ [32, pipe_c, 32] @ barred ts)"
      using f IH Cons by (auto intro!: framed_append alt_skips_append simp del: append_Cons append_Nil)
    then show ?thesis by (simp add: b)
  qed
qed simp

lemma seqs_expr:
  assumes "list_all2 is_seq ts ns" "2 \<le> length ts"
  shows "is_expr (barred ts) (Alt ns)"
proof -
  have ne: "ts \<noteq> []" "1 < length ts" using assms(2) by auto
  note f = framed_barred [OF assms(1) ne(1)]
  have "split_alternation (barred ts) = Inr (padded [] ts)"
    using split_parts [of "padded [] ts"] padded_skips [OF assms(1), of "[]"] ne f join_padded [OF ne(1), of "[]"]
    by (auto simp: padded_Nil_iff framed_def)
  moreover have "map_parse parse_sequence (padded [] ts) = Some (Inr ns)"
    using padded_parse [OF assms(1), of "[]"] by (intro map_parse_list) simp
  ultimately show ?thesis
    using f ne framed_ne [of "barred ts"] by (simp add: is_expr_def parse_expression.simps)
qed

lemma expr_parens:
  assumes "is_expr t n"
  shows "is_atom (parens t) n"
proof -
  have t: "framed t" "alt_skips 1 t" "parse_expression t = Some (Inr n)" using assms by (auto simp: is_expr_def)
  have f: "framed (parens t)"
    using t(1) group_skips_parens [of t] by (auto simp: framed_def parens_def trimmed_def is_whitespace_def)
  moreover have "parse_atom (parens t) = Some (Inr n)"
    using f framed_ne [OF f] t(3) by (simp add: parse_atom.simps is_group_def parens_def)
  ultimately show ?thesis
    using t(1,2) alt_skips_parens body_ends_parens
    by (auto simp: is_atom_def framed_def parens_def suffix_char_def)
qed

subsection \<open>Atoms\<close>

lemma atomI:
  assumes "ascii t" "10 \<notin> set t" "trimmed t" "group_skips t" "alt_skips 0 t" "body_ends t"
    "\<not> suffix_char (last t)" "\<not> is_group t" "parse_leaf t = Inr n"
  shows "is_atom t n"
proof -
  have "framed t" using assms(1-4) by (simp add: framed_def)
  with assms(5-9) framed_ne [OF this] show ?thesis by (simp add: is_atom_def parse_atom.simps)
qed

lemma trimmed_same:
  assumes "t \<noteq> []" "hd t \<in> {quote_c, lbracket_c, dot_c, backslash_c}" "\<not> is_whitespace (last t)"
  shows "trimmed t"
proof -
  have "\<not> is_whitespace c" if "c \<in> {quote_c, lbracket_c, dot_c, backslash_c}" for c
    using that by (elim insertE emptyE) (simp_all add: is_whitespace_def)
  with assms show ?thesis by (simp add: trimmed_def del: insert_iff)
qed

lemma literal_atom:
  assumes "ascii w" "w \<noteq> [] \<longrightarrow> last w \<noteq> backslash_c"
  shows "is_atom (quoted (escape_json_string w)) (Lit w)"
proof (rule atomI)
  show "parse_leaf (quoted (escape_json_string w)) = Inr (Lit w)"
    by (simp add: parse_leaf_def quoted_def unescape_escape)
  show "alt_skips 0 (quoted (escape_json_string w))"
    using assms(2) quotes_escaped_escape by (intro alt_skips_quoted) (auto simp: escape_last escape_Nil_iff)
  show "10 \<notin> set (quoted (escape_json_string w))" using escape_no_newline [of w] by (simp add: quoted_def)
  show "ascii (quoted (escape_json_string w))" using ascii_escape [OF assms(1)] by (simp add: quoted_def)
  show "trimmed (quoted (escape_json_string w))" by (simp add: quoted_def trimmed_def is_whitespace_def)
qed (simp_all add: group_skips_literal body_ends_literal, simp_all add: quoted_def suffix_char_def is_group_def)

definition hex_char :: "nat \<Rightarrow> uchar" where
  "hex_char d = (if d < 10 then 48 + d else 87 + d)"

definition hex_text :: "u8 \<Rightarrow> uchar list" where
  "hex_text b = [backslash_c, x_c, hex_char (unat b div 16), hex_char (unat b mod 16)]"

lemma hex_char_cases: "d < 16 \<Longrightarrow> 48 \<le> hex_char d \<and> hex_char d \<le> 57 \<or> 97 \<le> hex_char d \<and> hex_char d \<le> 102"
  by (auto simp: hex_char_def)

lemma hex_char_digit: "d < 16 \<Longrightarrow> hex_digit (hex_char d) = Some d"
  by (auto simp: hex_char_def hex_digit_def)

lemma hex_atom: "is_atom (hex_text b) (HexByte b)"
proof (rule atomI)
  have "unat b < 2 ^ LENGTH(8)" by (rule unsigned_less)
  then have b: "unat b < 256" by simp
  then have "unat b div 16 < 16" by simp
  note h = hex_char_digit [OF this] hex_char_cases [OF this]
  have l16: "unat b mod 16 < 16" by simp
  note l = hex_char_digit [OF l16] hex_char_cases [OF l16]
  have f: "from_hex [hex_char (unat b div 16), hex_char (unat b mod 16)] = Some (unat b)"
    using h l b by (auto simp: from_hex_def)
  have ch: "hex_char (unat b div 16) < 128" "hex_char (unat b mod 16) < 128"
    "hex_char (unat b div 16) \<noteq> 10" "hex_char (unat b mod 16) \<noteq> 10"
    "\<not> suffix_char (hex_char (unat b mod 16))" "\<not> is_whitespace (hex_char (unat b mod 16))"
    "hex_char (unat b div 16) \<notin> {lparen_c, rparen_c, quote_c}"
    "hex_char (unat b mod 16) \<notin> {lparen_c, rparen_c, quote_c}"
    using h(2) l(2) by (auto simp: suffix_char_def is_whitespace_def)
  then show "ascii (hex_text b)" "10 \<notin> set (hex_text b)" "\<not> suffix_char (last (hex_text b))"
    by (simp_all add: hex_text_def)
  show "trimmed (hex_text b)" using ch by (simp add: hex_text_def trimmed_same)
  show "group_skips (hex_text b)" using ch by (intro group_skips_chars) (simp add: hex_text_def)
  show "alt_skips 0 (hex_text b)" by (simp add: hex_text_def alt_skips_hex)
  show "body_ends (hex_text b)" by (simp add: hex_text_def body_ends_hex)
  show "\<not> is_group (hex_text b)" by (simp add: hex_text_def is_group_def)
  have "byte_len (hex_text b) = 4"
    using \<open>ascii (hex_text b)\<close> by (simp add: byte_len_ascii) (simp add: hex_text_def)
  with f show "parse_leaf (hex_text b) = Inr (HexByte b)"
    by (simp add: parse_leaf_def hex_text_def starts_with_text_def)
qed

lemma dot_atom: "is_atom [dot_c] AnyChar"
  by (rule atomI)
    (simp_all add: trimmed_def is_whitespace_def group_skips_char alt_skips_char plain_char_def body_ends_dot
      suffix_char_def is_group_def parse_leaf_def)

lemma name_atom:
  assumes "is_identifier r"
  shows "is_atom r (Ref r)"
proof (rule atomI)
  note r = identifier_chars [OF assms]
  then have c: "name_char (hd r)" "name_char (last r)" by (auto simp: list_all_iff)
  show "ascii r" "group_skips r"
    using r(2) name_char_props(3,5) by (auto simp: ascii_def list_all_iff intro!: group_skips_chars)
  show "10 \<notin> set r" using r(2) name_char_props(9) by (auto simp: list_all_iff)
  show "trimmed r" "\<not> suffix_char (last r)" using r(1) name_char_props(4,6) c by (simp_all add: trimmed_def)
  show "alt_skips 0 r" using r(2) name_char_props(2) by (auto simp: list_all_iff intro!: alt_skips_plain)
  show "body_ends r" by (rule body_ends_name [OF assms])
  have hd: "hd r \<notin> {quote_c, lparen_c, lbracket_c, dot_c, backslash_c}"
    using name_char_props(2,10) [OF c(1)] by (auto simp: plain_char_def)
  then show "\<not> is_group r" by (simp add: is_group_def)
  have "r \<noteq> [dot_c]" "\<not> starts_with_text r [backslash_c, x_c]"
    using hd r(1) by (cases r; auto simp: starts_with_text_def)+
  with hd assms show "parse_leaf r = Inr (Ref r)" by (simp add: parse_leaf_def)
qed

definition range_text :: "uchar \<times> uchar \<Rightarrow> uchar list" where
  "range_text r = [fst r, minus_c, snd r]"

definition class_text :: "(uchar \<times> uchar) list \<Rightarrow> bool \<Rightarrow> uchar list" where
  "class_text rs neg = (if neg then [caret_c] else []) @ concat (map range_text rs)"

definition plain_ranges :: "(uchar \<times> uchar) list \<Rightarrow> bool" where
  "plain_ranges rs \<longleftrightarrow> rs \<noteq> [] \<and> list_all (\<lambda>r. is_alnum (fst r) \<and> is_alnum (snd r) \<and> fst r \<le> snd r) rs"

lemma class_ranges_text:
  "list_all (\<lambda>r. fst r \<le> snd r) rs \<Longrightarrow> class_ranges (pre @ concat (map range_text rs)) (length pre) = Inr rs"
proof (induction rs arbitrary: pre)
  case Nil
  then show ?case by (subst class_ranges.simps) simp
next
  case (Cons r rs)
  have "class_ranges (pre @ concat (map range_text (r # rs))) (length pre) =
      map_sum id (Cons r) (class_ranges ((pre @ range_text r) @ concat (map range_text rs)) (length (pre @ range_text r)))"
    using Cons.prems by (subst class_ranges.simps) (auto simp: range_text_def nth_append numeral_eq_Suc)
  also have "class_ranges ((pre @ range_text r) @ concat (map range_text rs)) (length (pre @ range_text r)) = Inr rs"
    using Cons.prems by (intro Cons.IH) simp
  finally show ?case by simp
qed

lemma class_text_chars: "plain_ranges rs \<Longrightarrow> list_all class_char (class_text rs neg)"
  by (auto simp: plain_ranges_def class_text_def range_text_def class_char_def list_all_iff)

lemma class_char_props:
  assumes "class_char c"
  shows "plain_char c" "c \<notin> {lparen_c, rparen_c, quote_c}" "\<not> is_whitespace c" "c < 128" "c \<noteq> 10"
  using assms by (auto simp: class_char_def is_alnum_def is_alpha_def plain_char_def is_whitespace_def)

lemma parse_class_text:
  assumes "plain_ranges rs"
  shows "parse_char_class (class_text rs neg) = Inr (CharClass rs neg)"
proof -
  let ?t = "class_text rs neg"
  have ne: "?t \<noteq> []" using assms by (cases rs) (auto simp: plain_ranges_def class_text_def range_text_def)
  have "list_all class_char ?t" by (rule class_text_chars [OF assms])
  then have "trimmed ?t" using ne class_char_props(3) by (auto simp: trimmed_def list_all_iff)
  moreover have "starts_with_text ?t [caret_c] = neg"
    using assms by (cases rs)
      (auto simp: plain_ranges_def class_text_def range_text_def starts_with_text_def is_alnum_def is_alpha_def)
  moreover have "(if neg then tl ?t else ?t) = concat (map range_text rs)" by (simp add: class_text_def)
  moreover have "class_ranges (concat (map range_text rs)) 0 = Inr rs"
    using class_ranges_text [of rs "[]"] assms by (auto simp: plain_ranges_def list_all_iff)
  moreover have "rs \<noteq> []" using assms by (simp add: plain_ranges_def)
  ultimately show ?thesis by (simp add: parse_char_class_def Let_def trim_trimmed)
qed

lemma class_atom:
  assumes "plain_ranges rs"
  shows "is_atom (lbracket_c # class_text rs neg @ [rbracket_c]) (CharClass rs neg)"
proof (rule atomI)
  note cs = class_text_chars [OF assms, of neg]
  let ?t = "lbracket_c # class_text rs neg @ [rbracket_c]"
  show "ascii ?t" using cs class_char_props(4) by (auto simp: ascii_def list_all_iff)
  show "10 \<notin> set ?t" using cs class_char_props(5) by (auto simp: list_all_iff)
  show "trimmed ?t" by (intro trimmed_same) (simp_all add: is_whitespace_def)
  show "group_skips ?t" using cs class_char_props(2) by (intro group_skips_chars) (auto simp: list_all_iff)
  show "alt_skips 0 ?t"
    using cs class_char_props(1) by (intro alt_skips_brackets alt_skips_plain) (auto simp: list_all_iff)
  show "body_ends ?t" by (rule body_ends_class [OF cs])
  show "parse_leaf ?t = Inr (CharClass rs neg)" by (simp add: parse_leaf_def parse_class_text [OF assms])
qed (simp_all add: suffix_char_def is_group_def)

subsection \<open>Printing\<close>

definition is_alt :: "gnode \<Rightarrow> bool" where
  "is_alt n = (case n of Alt _ \<Rightarrow> True | _ \<Rightarrow> False)"

definition is_compound :: "gnode \<Rightarrow> bool" where
  "is_compound n = (case n of Alt _ \<Rightarrow> True | Seq _ \<Rightarrow> True | _ \<Rightarrow> False)"

definition is_repeat :: "gnode \<Rightarrow> bool" where
  "is_repeat n = (case n of Star _ \<Rightarrow> True | Plus _ \<Rightarrow> True | Opt _ \<Rightarrow> True | _ \<Rightarrow> False)"

definition parens_if :: "bool \<Rightarrow> uchar list \<Rightarrow> uchar list" where
  "parens_if b t = (if b then parens t else t)"

fun show_node :: "gnode \<Rightarrow> uchar list" where
  "show_node (Lit w) = quoted (escape_json_string w)"
| "show_node (CharClass rs neg) = lbracket_c # class_text rs neg @ [rbracket_c]"
| "show_node AnyChar = [dot_c]"
| "show_node (Seq ns) = spaced (map (\<lambda>n. parens_if (is_compound n) (show_node n)) ns)"
| "show_node (Alt ns) = barred (map (\<lambda>n. parens_if (is_alt n) (show_node n)) ns)"
| "show_node (Star n) = parens_if (is_compound n \<or> is_repeat n) (show_node n) @ [star_c]"
| "show_node (Plus n) = parens_if (is_compound n \<or> is_repeat n) (show_node n) @ [plus_c]"
| "show_node (Opt n) = parens_if (is_compound n \<or> is_repeat n) (show_node n) @ [quest_c]"
| "show_node (Ref r) = r"
| "show_node (HexByte b) = hex_text b"

fun printable :: "gnode \<Rightarrow> bool" where
  "printable (Lit w) \<longleftrightarrow> ascii w \<and> (w = [] \<or> last w \<noteq> backslash_c)"
| "printable (CharClass rs neg) \<longleftrightarrow> plain_ranges rs"
| "printable (Seq ns) \<longleftrightarrow> 2 \<le> length ns \<and> list_all printable ns"
| "printable (Alt ns) \<longleftrightarrow> 2 \<le> length ns \<and> list_all printable ns"
| "printable (Star n) \<longleftrightarrow> printable n"
| "printable (Plus n) \<longleftrightarrow> printable n"
| "printable (Opt n) \<longleftrightarrow> printable n"
| "printable (Ref r) \<longleftrightarrow> is_identifier r"
| "printable _ \<longleftrightarrow> True"

text \<open>Every printed node is what its kind says, and an expression in any case.\<close>

definition shown :: "gnode \<Rightarrow> bool" where
  "shown n \<longleftrightarrow> (\<not> is_compound n \<and> \<not> is_repeat n \<longrightarrow> is_atom (show_node n) n) \<and>
     (\<not> is_compound n \<longrightarrow> is_term (show_node n) n) \<and>
     (\<not> is_alt n \<longrightarrow> is_seq (show_node n) n) \<and> is_expr (show_node n) n"

lemma shown_atom: "is_atom (show_node n) n \<Longrightarrow> shown n"
  by (simp add: shown_def atom_term term_seq seq_expr)

lemma shown_term: "is_repeat n \<Longrightarrow> is_term (show_node n) n \<Longrightarrow> shown n"
  by (simp add: shown_def term_seq seq_expr)

lemma shown_parens_atom: "shown n \<Longrightarrow> is_atom (parens_if (is_compound n \<or> is_repeat n) (show_node n)) n"
  using expr_parens by (auto simp: shown_def parens_if_def)

lemma shown_parens_term: "shown n \<Longrightarrow> is_term (parens_if (is_compound n) (show_node n)) n"
  using expr_parens atom_term by (auto simp: shown_def parens_if_def)

lemma shown_parens_seq: "shown n \<Longrightarrow> is_seq (parens_if (is_alt n) (show_node n)) n"
  using expr_parens atom_term term_seq by (auto simp: shown_def parens_if_def)

lemma suffix_splits: "split_suffix (t @ [star_c]) = (t, StarSuffix)" "split_suffix (t @ [plus_c]) = (t, PlusSuffix)"
    "split_suffix (t @ [quest_c]) = (t, OptSuffix)"
  by (simp_all add: split_suffix_def)

lemma shown_repeat:
  assumes "shown n"
  shows "shown (Star n)" "shown (Plus n)" "shown (Opt n)"
  using suffixed_term [OF shown_parens_atom [OF assms] suffix_splits(1)]
    suffixed_term [OF shown_parens_atom [OF assms] suffix_splits(2)]
    suffixed_term [OF shown_parens_atom [OF assms] suffix_splits(3)]
  by (auto intro!: shown_term simp: is_repeat_def suffix_char_def apply_suffix_def)

lemma printable_shown: "printable n \<Longrightarrow> shown n"
proof (induction n rule: show_node.induct)
  case (1 w)
  then show ?case by (intro shown_atom) (auto intro: literal_atom)
next
  case (2 rs neg)
  then show ?case by (intro shown_atom) (simp add: class_atom)
next
  case 3
  then show ?case by (intro shown_atom) (simp add: dot_atom)
next
  case (4 ns)
  then have "list_all2 is_term (map (\<lambda>n. parens_if (is_compound n) (show_node n)) ns) ns"
    by (auto simp: list_all2_map1 list_all_iff list_all2_same intro!: shown_parens_term)
  with 4 have "is_seq (show_node (Seq ns)) (Seq ns)" by (simp add: terms_seq)
  then show ?case by (simp add: shown_def seq_expr is_compound_def)
next
  case (5 ns)
  then have "list_all2 is_seq (map (\<lambda>n. parens_if (is_alt n) (show_node n)) ns) ns"
    by (auto simp: list_all2_map1 list_all_iff list_all2_same intro!: shown_parens_seq)
  with 5 have "is_expr (show_node (Alt ns)) (Alt ns)" by (simp add: seqs_expr)
  then show ?case by (simp add: shown_def is_alt_def is_compound_def)
next
  case (9 r)
  then show ?case by (intro shown_atom) (simp add: name_atom)
next
  case (10 b)
  then show ?case by (intro shown_atom) (simp add: hex_atom)
qed (simp_all add: shown_repeat)

lemma parse_show: "printable n \<Longrightarrow> parse_expression (show_node n) = Some (Inr n)"
  using printable_shown by (auto simp: shown_def is_expr_def)

lemma framed_show: "printable n \<Longrightarrow> framed (show_node n)"
  using printable_shown by (auto simp: shown_def is_expr_def)

subsection \<open>Grammar texts\<close>

definition show_rules :: "(uchar list \<times> gnode) list \<Rightarrow> uchar list" where
  "show_rules rules = concat (map (\<lambda>r. rule_line (fst r) (show_node (snd r))) rules)"

lemma lines_of_line:
  "10 \<notin> set l \<Longrightarrow> (if l = [] then acc = [] \<or> hd acc \<noteq> 13 else last l \<noteq> 13) \<Longrightarrow>
    lines_of acc (l @ 10 # s) = (rev acc @ l) # lines_of [] s"
proof (induction l arbitrary: acc)
  case (Cons c l)
  then have "lines_of (c # acc) (l @ 10 # s) = (rev (c # acc) @ l) # lines_of [] s"
    by (intro Cons.IH) (auto split: if_splits)
  with Cons.prems show ?case by simp
qed auto

definition line_text :: "uchar list \<Rightarrow> uchar list \<Rightarrow> uchar list" where
  "line_text name body = name @ [32, 58, 58, 61, 32] @ body"

lemma rule_line_text: "rule_line name body = line_text name body @ [10]"
  by (simp add: rule_line_def line_text_def text_of_def of_char_def)

lemma find_define: "58 \<notin> set name \<Longrightarrow> find_text [58, 58, 61] (line_text name body) = Some (length name + 1)"
  by (induction name) (auto simp: line_text_def starts_with_text_def)

lemma identifier_trimmed:
  assumes "is_identifier name"
  shows "trimmed name" "58 \<notin> set name" "10 \<notin> set name" "hd name \<noteq> hash_c"
proof -
  note n = identifier_chars [OF assms]
  then have "name_char (hd name)" "name_char (last name)" by (auto simp: list_all_iff)
  with n name_char_props show "trimmed name" "hd name \<noteq> hash_c" by (auto simp: trimmed_def)
  show "58 \<notin> set name" "10 \<notin> set name" using n(2) name_char_props(7,9) by (auto simp: list_all_iff)
qed

text \<open>A rule line: its body decides.\<close>

lemma parse_rule_line_body:
  assumes "is_identifier name" "trimmed body"
  shows "parse_lines (line_text name body # ls) rules root = (case parse_expression body of
      None \<Rightarrow> None
    | Some (Inl e) \<Rightarrow> Some (Inl e)
    | Some (Inr n) \<Rightarrow> parse_lines ls (AList.update name n rules)
        (case root of None \<Rightarrow> Some name | Some r \<Rightarrow> Some r))"
proof -
  note n = identifier_trimmed [OF assms(1)]
  have "trimmed (line_text name body)" using n(1) assms(2) by (auto simp: line_text_def trimmed_def)
  then have t: "trim (line_text name body) = line_text name body" by (rule trim_trimmed)
  have ne: "line_text name body \<noteq> []" "hd (line_text name body) \<noteq> hash_c"
    using n(1,4) by (auto simp: line_text_def trimmed_def)
  have name: "trim (take (length name + 1) (line_text name body)) = name"
    using trim_padded [OF n(1), of "[]" "[32]"] by (simp add: line_text_def)
  have body: "trim (drop (length name + 1 + 3) (line_text name body)) = body"
    using trim_padded [OF assms(2), of "[32]" "[]"] by (simp add: line_text_def)
  have "name \<noteq> []" "body \<noteq> []" using n(1) assms(2) by (auto simp: trimmed_def)
  with t ne name body find_define [OF n(2), of body] show ?thesis
    by (simp add: Let_def)
qed

lemma parse_rule_line:
  assumes "is_identifier name" "trimmed body" "parse_expression body = Some (Inr n)"
  shows "parse_lines (line_text name body # ls) rules root =
    parse_lines ls (AList.update name n rules) (case root of None \<Rightarrow> Some name | Some r \<Rightarrow> Some r)"
  using assms by (simp add: parse_rule_line_body del: parse_lines.simps)

lemma lines_of_rule:
  assumes "is_identifier name" "trimmed body" "10 \<notin> set body"
  shows "lines_of [] (rule_line name body @ s) = line_text name body # lines_of [] s"
proof -
  have "last body \<noteq> 13" using assms(2) by (auto simp: trimmed_def is_whitespace_def)
  moreover have "body \<noteq> []" using assms(2) by (simp add: trimmed_def)
  ultimately have "lines_of [] (line_text name body @ 10 # s) = (rev [] @ line_text name body) # lines_of [] s"
    using assms(3) identifier_trimmed(3) [OF assms(1)] by (intro lines_of_line) (auto simp: line_text_def)
  then show ?thesis by (simp add: rule_line_text)
qed

lemma update_append_new: "k \<notin> set (map fst al) \<Longrightarrow> AList.update k v al = al @ [(k, v)]"
  by (induction al) auto

lemma parse_shown_rules:
  "list_all (\<lambda>r. is_identifier (fst r) \<and> printable (snd r)) rs \<Longrightarrow> distinct (map fst (old @ rs)) \<Longrightarrow>
    parse_lines (lines_of [] (show_rules rs @ s)) old root =
    parse_lines (lines_of [] s) (old @ rs) (case root of None \<Rightarrow> (case rs of [] \<Rightarrow> None | r # _ \<Rightarrow> Some (fst r)) | Some r \<Rightarrow> Some r)"
proof (induction rs arbitrary: old root)
  case Nil
  then show ?case by (simp add: show_rules_def split: option.split)
next
  case (Cons r rs)
  obtain name n where r: "r = (name, n)" by (cases r)
  have n: "is_identifier name" "printable n" using Cons.prems(1) r by simp_all
  have body: "trimmed (show_node n)" "10 \<notin> set (show_node n)"
    using framed_show [OF n(2)] by (simp_all add: framed_def)
  have "name \<notin> set (map fst old)" using Cons.prems(2) r by auto
  then have update: "AList.update name n old = old @ [r]" by (simp add: r update_append_new)
  have "lines_of [] (show_rules (r # rs) @ s) = line_text name (show_node n) # lines_of [] (show_rules rs @ s)"
    using lines_of_rule [OF n(1) body] by (simp add: show_rules_def r)
  then have "parse_lines (lines_of [] (show_rules (r # rs) @ s)) old root =
      parse_lines (lines_of [] (show_rules rs @ s)) (old @ [r]) (case root of None \<Rightarrow> Some name | Some r \<Rightarrow> Some r)"
    using parse_rule_line [OF n(1) body(1) parse_show [OF n(2)]] update by simp
  also have "\<dots> = parse_lines (lines_of [] s) ((old @ [r]) @ rs)
      (case (case root of None \<Rightarrow> Some name | Some r \<Rightarrow> Some r) of
        None \<Rightarrow> (case rs of [] \<Rightarrow> None | r # _ \<Rightarrow> Some (fst r)) | Some r \<Rightarrow> Some r)"
    using Cons.prems by (intro Cons.IH) simp_all
  finally show ?case by (simp add: r split: option.split)
qed

definition printable_grammar :: "grammar \<Rightarrow> bool" where
  "printable_grammar g \<longleftrightarrow> gm_rules g \<noteq> [] \<and> gm_root g = fst (hd (gm_rules g)) \<and>
     distinct (map fst (gm_rules g)) \<and>
     list_all (\<lambda>r. is_identifier (fst r) \<and> printable (snd r)) (gm_rules g)"

text \<open>C39: The parser inverts the printer: the text of any grammar with identifiers as rule names, ASCII
  literals that do not end in a backslash, classes of letters and digits, and any nesting of sequences,
  alternatives and repetitions, parses to exactly that grammar, with no error, panic or endless loop.\<close>

theorem grammar_text_roundtrip:
  assumes "printable_grammar g"
  shows "parse_gbnf (show_rules (gm_rules g)) = Some (Inr g)"
proof -
  obtain r rs where g: "gm_rules g = r # rs" "gm_root g = fst r" "distinct (map fst (r # rs))"
    "list_all (\<lambda>r. is_identifier (fst r) \<and> printable (snd r)) (r # rs)"
    using assms by (cases "gm_rules g") (auto simp: printable_grammar_def)
  have "parse_lines (lines_of [] (show_rules (r # rs))) [] None = Some (Inr (r # rs, Some (fst r)))"
    using parse_shown_rules [OF g(4), of "[]" "[]" None] g(3) by simp
  moreover have "map_of (r # rs) (fst r) \<noteq> None" by (cases r) simp
  ultimately show ?thesis
    using g(1,2) by (cases g) (simp add: parse_gbnf_def)
qed

definition digits_grammar :: grammar where
  "digits_grammar = \<lparr>gm_rules =
     [([114], Alt [Seq [Opt (Lit [45]), Plus (Ref [100])], Lit [34, 92, 40], Star (Alt [AnyChar, HexByte 0xFF])]),
      ([100], CharClass [(48, 57)] False)], gm_root = [114]\<rparr>"

lemma grammar_text_roundtrip_witness:
  "parse_gbnf (show_rules (gm_rules digits_grammar)) = Some (Inr digits_grammar)"
  by (rule grammar_text_roundtrip)
    (simp add: digits_grammar_def printable_grammar_def plain_ranges_def is_identifier_def is_alnum_def is_alpha_def)

subsection \<open>Texts that fail\<close>

lemma quotes_escaped_append:
  "quotes_escaped p (s @ [quote_c]) \<longleftrightarrow> quotes_escaped p s \<and> (if s = [] then p else last s) = backslash_c"
  by (induction s arbitrary: p) auto

lemma unclosed_literal:
  assumes "w \<noteq> []" "last w = backslash_c"
  shows "parse_expression (quoted (escape_json_string w)) = Some (Inl UnclosedString)"
proof -
  let ?e = "escape_json_string w" and ?b = "alt_init\<lparr>as_in_string := True, as_pos := 1\<rparr>"
  let ?c = "?b\<lparr>as_pos := length (quoted ?e)\<rparr>"
  have esc: "quotes_escaped quote_c (?e @ [quote_c])"
    using assms quotes_escaped_escape by (simp add: quotes_escaped_append escape_last escape_Nil_iff)
  have t: "trimmed (quoted ?e)" by (simp add: quoted_def trimmed_def is_whitespace_def)
  have "alt_loop ([] @ quote_c # (?e @ [quote_c])) alt_init = alt_loop ([] @ quote_c # (?e @ [quote_c])) ?b"
    by (rule alt_loop_step) (simp_all add: alt_init_def alt_step_def Let_def)
  also have "\<dots> = alt_loop ([] @ [quote_c] @ (?e @ [quote_c]) @ []) ?b" by simp
  also have "\<dots> = alt_loop ([] @ [quote_c] @ (?e @ [quote_c]) @ []) ?c"
    using alt_loop_in_string [OF esc, of ?b "[]" "[]"] by (simp add: quoted_def)
  also have "\<dots> = Inr ?c" by (subst alt_loop.simps) (simp add: quoted_def)
  finally have "alt_loop (quoted ?e) alt_init = Inr ?c" by (simp add: quoted_def)
  then have "split_alternation (quoted ?e) = Inl UnclosedString"
    by (simp add: split_alternation_def alt_init_def)
  with t show ?thesis by (simp add: parse_expression.simps trim_trimmed) (simp add: quoted_def)
qed

text \<open>The escaped text of an ASCII literal between quotes parses back to the literal, except
  for the literals that end in a backslash: their closing quote is taken for an escaped one and the text is
  rejected as an unclosed string.\<close>

theorem literal_text_exact:
  assumes "ascii w"
  shows "parse_expression (quoted (escape_json_string w)) =
    Some (if w \<noteq> [] \<and> last w = backslash_c then Inl UnclosedString else Inr (Lit w))"
proof (cases "w \<noteq> [] \<and> last w = backslash_c")
  case True
  then show ?thesis by (simp add: unclosed_literal)
next
  case False
  with assms have "printable (Lit w)" by auto
  from parse_show [OF this] False show ?thesis by auto
qed

lemma literal_text_exact_witness:
  "parse_expression (quoted (escape_json_string [97, 92])) = Some (Inl UnclosedString) \<and>
   parse_expression (quoted (escape_json_string [97, 34])) = Some (Inr (Lit [97, 34]))"
  using literal_text_exact [of "[97, 92]"] literal_text_exact [of "[97, 34]"] by simp

text \<open>The loop over the terms does not move past a closing parenthesis, a closing bracket or a bar.\<close>

definition stuck_at :: "uchar list \<Rightarrow> nat \<Rightarrow> bool" where
  "stuck_at s i \<longleftrightarrow> i < length s \<and> s ! i \<in> {rparen_c, rbracket_c, pipe_c}"

lemma stuck_term_end:
  assumes "stuck_at s i"
  shows "scan_while is_whitespace s i = i" "term_end s i = i"
proof -
  have c: "s ! i \<in> {rparen_c, rbracket_c, pipe_c}" using assms by (simp add: stuck_at_def)
  have "\<not> is_whitespace (s ! i)" using c by (elim insertE emptyE) (simp_all add: is_whitespace_def)
  then show "scan_while is_whitespace s i = i" by (subst scan_while.simps) simp
  have "\<not> ident_char (s ! i)" using c by (auto simp: ident_char_def)
  then have "scan_while ident_char s i = i" by (subst scan_while.simps) simp
  then have "term_body_end s i = i" using c by (auto simp: term_body_end_def)
  moreover have "\<not> suffix_char (s ! i)" using c by (auto simp: suffix_char_def)
  then have "scan_while suffix_char s i = i" by (subst scan_while.simps) simp
  ultimately show "term_end s i = i" by (simp add: term_end_def)
qed

lemma terms_loop_stuck:
  assumes "stuck_at s i" "ascii s"
  shows "terms_loop s i terms = None"
proof (rule ccontr)
  assume "terms_loop s i terms \<noteq> None"
  then obtain r where r: "terms_loop s i terms = Some r" by blast
  have "\<not> (stuck_at s i \<and> ascii s)"
  proof (rule terms_loop.raw_induct [where P = "\<lambda>s i terms r. \<not> (stuck_at s i \<and> ascii s)", OF _ r])
    fix rec :: "uchar list \<Rightarrow> nat \<Rightarrow> uchar list list \<Rightarrow> (parse_error + uchar list list) option"
      and s i terms r
    assume IH: "\<And>s i terms r. rec s i terms = Some r \<Longrightarrow> \<not> (stuck_at s i \<and> ascii s)"
      and body: "(let start = scan_while is_whitespace s i
          in if length s \<le> start then Some (Inr terms)
             else let stop = term_end s start in
               case slice s start stop of None \<Rightarrow> Some (Inl Panicked)
               | Some t \<Rightarrow> rec s stop (if trim t = [] then terms else terms @ [trim t])) = Some r"
    show "\<not> (stuck_at s i \<and> ascii s)"
    proof
      assume st: "stuck_at s i \<and> ascii s"
      then have i: "i < length s" by (simp add: stuck_at_def)
      have "slice s i i = Some []"
        using st i by (simp add: slice_def take_bytes_ascii drop_bytes_ascii ascii_take)
      with body stuck_term_end [of s i] st i have "rec s i (if trim [] = [] then terms else terms @ [trim []]) = Some r"
        by (simp add: Let_def)
      from IH [OF this] st show False by blast
    qed
  qed
  with assms show False by blast
qed

lemma terms_loop_gap_stuck:
  assumes "blank g" "c \<in> {rparen_c, rbracket_c, pipe_c}" "ascii (pre @ g @ c # post)"
  shows "terms_loop (pre @ g @ c # post) (length pre) acc = None"
proof -
  let ?s = "pre @ g @ c # post"
  have st: "stuck_at ?s (length (pre @ g))" using assms(2) by (auto simp: stuck_at_def nth_append)
  have "\<not> is_whitespace c" using assms(2) by (elim insertE emptyE) (simp_all add: is_whitespace_def)
  then have start: "scan_while is_whitespace ?s (length pre) = length (pre @ g)"
    using scan_while_list [of is_whitespace g "c # post" pre] assms(1) by (simp add: blank_def)
  have "slice ?s (length (pre @ g)) (length (pre @ g)) = Some []"
    using slice_ascii [of "pre @ g" "[]" "c # post"] assms(3) by simp
  moreover have "terms_loop ?s (length (pre @ g)) acc = None"
    using st assms(3) by (rule terms_loop_stuck)
  ultimately show ?thesis
    using start stuck_term_end(2) [OF st] by (subst terms_loop.simps) (simp add: Let_def trim_def)
qed

lemma framed_literal: "ascii w \<Longrightarrow> framed (quoted (escape_json_string w))"
  using escape_no_newline [of w] group_skips_literal [of w]
  by (simp add: framed_def quoted_def ascii_escape trimmed_def is_whitespace_def)

text \<open>The parser does not return on a string literal that ends in a backslash when the rest of the text
  starts with a closing parenthesis, a closing bracket or a bar and ends with a quote: the splitting of
  alternatives takes everything for one string, and the splitting of the sequence, which ends the literal at its
  closing quote, waits before the second character for ever.\<close>

theorem backslash_literal_never_returns:
  assumes "ascii w" "w \<noteq> []" "last w = backslash_c" "c \<in> {rparen_c, rbracket_c, pipe_c}"
    "ascii rest" "quote_c \<notin> set rest" "rest \<noteq> [] \<longrightarrow> last rest \<noteq> backslash_c"
  shows "parse_expression (quoted (escape_json_string w) @ [32, c] @ rest @ [quote_c]) = None"
proof -
  let ?lit = "quoted (escape_json_string w)" and ?inner = "escape_json_string w @ [quote_c, 32, c] @ rest"
  let ?s = "?lit @ [32] @ c # (rest @ [quote_c])"
  have s: "?s = quoted ?inner" "?s \<noteq> []" by (simp_all add: quoted_def)
  have ascii: "ascii ?s" using assms(1,4,5) ascii_escape [of w] by (auto simp: quoted_def)
  have esc: "quotes_escaped p (u @ v)" if "quotes_escaped p u" "quotes_escaped (if u = [] then p else last u) v" for p u v
    using that by (induction u arbitrary: p) auto
  have "quotes_escaped p rest" for p using assms(6) by (induction rest arbitrary: p) auto
  then have "quotes_escaped quote_c ?inner"
    using assms(2-4) quotes_escaped_escape by (intro esc) (auto simp: escape_last escape_Nil_iff)
  moreover have "last ?inner \<noteq> backslash_c" using assms(4,7) by auto
  ultimately have "alt_skips 0 ?s" unfolding s by (intro alt_skips_quoted) auto
  then have split: "split_alternation ?s = Inr [?s]" using split_parts [of "[?s]"] ascii by simp
  have "trimmed ?s" by (simp add: quoted_def trimmed_def is_whitespace_def)
  have "term_end ([] @ (?lit @ []) @ [32] @ c # (rest @ [quote_c])) (length ([] :: uchar list)) = length ([] :: uchar list) + length (?lit @ [])"
    by (rule term_end_suffix [OF body_ends_literal]) simp_all
  then have "terms_loop ([] @ [] @ ?s) (length ([] :: uchar list)) [] =
      terms_loop ([] @ [] @ ?s) (length ([] @ [] @ ?lit)) ([] @ [?lit])"
    using framed_literal [OF assms(1)] ascii by (intro terms_loop_framed) simp_all
  also have "\<dots> = None" using terms_loop_gap_stuck [of "[32]" c ?lit] assms(4) ascii by simp
  finally have "parse_sequence ?s = None" by (simp add: parse_sequence.simps split_sequence_terms_def)
  with split \<open>trimmed ?s\<close> s(2) show ?thesis by (simp add: parse_expression.simps trim_trimmed)
qed

lemma backslash_literal_never_returns_witness:
  "parse_expression [quote_c, backslash_c, backslash_c, quote_c, 32, rparen_c, 32, quote_c] = None"
  using backslash_literal_never_returns [of "[backslash_c]" rparen_c "[32]"]
  by (simp add: quoted_def escape_json_char_def)

end
