(* ===== verification/SchemaGrammar.thy ===== *)
theory SchemaGrammar
  imports GrammarRoundtrip
begin

text \<open>
  What the translation of JSON schemas promises: the nesting at which it gives up, the grammar of an
  enumeration, and the schemas whose grammar text the parser rejects.
\<close>

subsection \<open>Nesting\<close>

text \<open>How deep schemas nest: through the properties of objects and the items of arrays.\<close>

lemma property_size: "Option.bind (json_get k v) as_object = Some m \<Longrightarrow> p \<in> set m \<Longrightarrow> size (snd p) < size v"
proof -
  assume m: "Option.bind (json_get k v) as_object = Some m" and p: "p \<in> set m"
  have "size (snd p) \<le> size_list (size_prod (\<lambda>x. 0) size) m"
    using p by (intro size_list_estimation' [OF p]) (cases p; simp)
  with properties_size [OF m] show ?thesis by simp
qed

function schema_nesting :: "json \<Rightarrow> nat" where
  "schema_nesting s = (
     if schema_type s = text_of ''object'' then
       (case Option.bind (json_get ''properties'' s) as_object of
          None \<Rightarrow> 0
        | Some ps \<Rightarrow> foldr max (map (\<lambda>p. Suc (schema_nesting (snd p))) ps) 0)
     else if schema_type s = text_of ''array'' then
       (case json_get ''items'' s of None \<Rightarrow> 0 | Some item \<Rightarrow> Suc (schema_nesting item))
     else 0)"
  by pat_completeness auto
termination
  by (relation "measure size") (auto dest: json_get_size property_size)

declare schema_nesting.simps [simp del]

lemma emit_nesting:
  "(\<exists>t. emit_rule to_json name schema out depth = Some t) \<longleftrightarrow> depth + schema_nesting schema \<le> 20"
  "depth \<le> 20 \<Longrightarrow> (\<exists>t. emit_props to_json name required props out depth added = Some t) \<longleftrightarrow>
     depth + foldr max (map (\<lambda>p. Suc (schema_nesting (snd p))) props) 0 \<le> 20"
proof (induction to_json name schema out depth and to_json name required props out depth added
    rule: emit_rule_emit_props.induct)
  case (1 to_json name schema out depth)
  show ?case
  proof (cases "20 < depth")
    case True
    then show ?thesis by (simp add: emit_rule.simps)
  next
    case False
    then show ?thesis
      using 1 by (auto simp: emit_rule.simps [of to_json name schema] schema_nesting.simps [of schema]
          text_of_def split: option.splits)
  qed
next
  case (2 to_json name required out depth added)
  then show ?case by (simp add: emit_props.simps)
next
  case (3 to_json name required p s props out depth added)
  then show ?case
    by (cases "emit_rule to_json (value_rule_name name p) s out (depth + 1)")
      (auto simp: emit_props.simps)
qed

text \<open>A schema is translated exactly if its properties and items nest at most 20 deep; beyond,
  the translation is an error.\<close>

theorem schema_translated_iff:
  "(\<exists>t. json_schema_to_gbnf to_json name schema = Some t) \<longleftrightarrow> schema_nesting schema \<le> 20"
  using emit_nesting(1) [of to_json name schema _ 0] by (simp add: json_schema_to_gbnf_def)

subsection \<open>The grammars of scalar schemas\<close>

lemmas parser_eval = parse_expression.simps parse_sequence.simps parse_term.simps parse_atom.simps
  split_alternation_def alt_loop.simps alt_step_def alt_init_def or_panic_def Let_def slice_def
  split_sequence_terms_def terms_loop.simps term_end_def term_body_end_def scan_while.simps scan_string.simps
  scan_class.simps scan_group.simps ident_char_def suffix_char_def is_whitespace_def trim_def parse_leaf_def
  parse_char_class_def class_ranges.simps unescape_string_def unescape_from.simps escaped_char_def
  split_suffix_def apply_suffix_def is_group_def utf8_len_def starts_with_text_def nth_Cons'

lemmas text_eval = text_of_def of_char_def spaced_def quoted_def

definition ws_node :: gnode where
  "ws_node = Star (CharClass [(9, 9), (10, 10)] False)"

definition ws_body :: "uchar list" where
  "ws_body = [lbracket_c, 32, backslash_c, 116, backslash_c, 110, rbracket_c, star_c]"

lemma parse_ws_body: "parse_expression ws_body = Some (Inr ws_node)"
  by (simp add: parser_eval ws_body_def ws_node_def)

definition string_body :: "uchar list" where
  "string_body = spaced [quoted [backslash_c, quote_c],
     [lparen_c, lbracket_c, caret_c, quote_c, rbracket_c, star_c, rparen_c], quoted [backslash_c, quote_c]]"

lemma parse_string_body: "parse_expression string_body = Some (Inl UnbalancedOpenParen)"
  by (simp add: parser_eval string_body_def text_eval)

lemma identifier_names:
  "is_identifier (text_of ''root'')" "is_identifier (text_of ''ws'')" "is_identifier (text_of ''string'')"
  by (simp_all add: text_eval is_identifier_def is_alpha_def is_alnum_def)

lemma ws_rule_lines: "lines_of [] ws_rule = [line_text (text_of ''ws'') ws_body]"
proof -
  have "trimmed ws_body" "10 \<notin> set ws_body" by (simp_all add: ws_body_def trimmed_def is_whitespace_def)
  from lines_of_rule [OF identifier_names(2) this, of "[]"] show ?thesis
    by (simp add: ws_rule_def ws_body_def)
qed

text \<open>Printed rules, with or without the rule for white space at the end.\<close>

definition with_ws :: "bool \<Rightarrow> (uchar list \<times> gnode) list \<Rightarrow> (uchar list \<times> gnode) list" where
  "with_ws b rules = (if b then AList.update (text_of ''ws'') ws_node rules else rules)"

lemma parse_rules_ws:
  assumes "printable_grammar g"
  shows "parse_gbnf (show_rules (gm_rules g) @ (if b then ws_rule else [])) =
    Some (Inr (g\<lparr>gm_rules := with_ws b (gm_rules g)\<rparr>))"
proof -
  obtain r rs where g: "gm_rules g = r # rs" "gm_root g = fst r" "distinct (map fst (r # rs))"
    "list_all (\<lambda>r. is_identifier (fst r) \<and> printable (snd r)) (r # rs)"
    using assms by (cases "gm_rules g") (auto simp: printable_grammar_def)
  have ws: "trimmed ws_body" by (simp add: ws_body_def trimmed_def is_whitespace_def)
  have "parse_lines (lines_of [] (show_rules (r # rs) @ (if b then ws_rule else []))) [] None =
      Some (Inr (with_ws b (r # rs), Some (fst r)))"
    using parse_shown_rules [OF g(4), of "[]" "if b then ws_rule else []" None] g(3)
      parse_rule_line [OF identifier_names(2) ws parse_ws_body]
    by (cases b) (simp_all add: ws_rule_lines with_ws_def del: AList.update.simps)
  moreover have "map_of (with_ws b (r # rs)) (fst r) \<noteq> None"
    by (cases r) (auto simp: with_ws_def update_conv')
  ultimately show ?thesis using g(1,2) by (cases g) (simp add: parse_gbnf_def)
qed

lemma push_ws_cases: "\<exists>b. push_ws out = out @ (if b then ws_rule else [])"
proof (cases "contains_text out ''ws ::=''")
  case True
  then have "push_ws out = out @ (if False then ws_rule else [])" by (simp add: push_ws_def)
  then show ?thesis by blast
next
  case False
  then have "push_ws out = out @ (if True then ws_rule else [])" by (simp add: push_ws_def)
  then show ?thesis by blast
qed

text \<open>The grammar of an enumeration schema with the values' JSON texts.\<close>

definition enum_node :: "uchar list list \<Rightarrow> gnode" where
  "enum_node ts = (case ts of [t] \<Rightarrow> Lit t | _ \<Rightarrow> Alt (map Lit ts))"

definition enum_schema :: "json list \<Rightarrow> json" where
  "enum_schema vs = JObject [(text_of ''enum'', JArray vs)]"

definition literal_ok :: "uchar list \<Rightarrow> bool" where
  "literal_ok t \<longleftrightarrow> ascii t \<and> (t = [] \<or> last t \<noteq> backslash_c)"

lemma show_enum_node:
  "ts \<noteq> [] \<Longrightarrow> show_node (enum_node ts) = join_text (text_of '' | '') (map (\<lambda>t. quoted (escape_json_string t)) ts)"
  by (cases ts rule: remdups_adj.cases)
    (simp_all add: enum_node_def barred_def parens_if_def is_alt_def comp_def text_of_def of_char_def)

lemma printable_enum_node: "ts \<noteq> [] \<Longrightarrow> list_all literal_ok ts \<Longrightarrow> printable (enum_node ts)"
  by (cases ts rule: remdups_adj.cases)
    (auto simp: enum_node_def literal_ok_def list_all_iff)

lemma enum_schema_gets:
  "schema_type (enum_schema vs) = []" "Option.bind (json_get ''enum'' (enum_schema vs)) as_array = Some vs"
  by (simp_all add: schema_type_def enum_schema_def json_get_def as_array_def text_of_def of_char_def)

lemma emit_enum_schema:
  "emit_rule to_json name (enum_schema vs) out 0 = Some (push_ws (out @ emit_enum to_json name vs))"
  by (simp add: emit_rule.simps enum_schema_gets emit_scalar_def emit_untyped_def text_of_def of_char_def)

text \<open>The schema of an enumeration gives the grammar whose alternatives are the JSON texts of
  the values, in order, under the given name, with the root a reference to it and possibly the rule for white
  space.\<close>

theorem enum_schema_grammar:
  assumes "is_identifier name" "name \<noteq> text_of ''root''" "vs \<noteq> []"
    "\<forall>v \<in> set vs. to_json v = Some (text v) \<and> literal_ok (text v)"
  shows "\<exists>b. from_json_schema to_json name (enum_schema vs) = Some (Inr \<lparr>
     gm_rules = with_ws b [(text_of ''root'', Ref name), (name, enum_node (map text vs))],
     gm_root = text_of ''root''\<rparr>)"
proof -
  define g where "g = \<lparr>gm_rules = [(text_of ''root'', Ref name), (name, enum_node (map text vs))],
    gm_root = text_of ''root''\<rparr>"
  have "emit_enum to_json name vs = rule_line name (show_node (enum_node (map text vs)))"
    using assms(3,4) by (simp add: emit_enum_def show_enum_node comp_def cong: map_cong)
  then have out: "rule_line (text_of ''root'') name @ emit_enum to_json name vs = show_rules (gm_rules g)"
    by (simp add: show_rules_def g_def)
  obtain b where b: "push_ws (show_rules (gm_rules g)) = show_rules (gm_rules g) @ (if b then ws_rule else [])"
    using push_ws_cases by blast
  have "printable_grammar g"
    using assms identifier_names(1) by (auto simp: printable_grammar_def g_def list_all_iff intro!: printable_enum_node)
  note parsed = parse_rules_ws [OF this, of b]
  have "json_schema_to_gbnf to_json name (enum_schema vs) = Some (show_rules (gm_rules g) @ (if b then ws_rule else []))"
    by (simp add: json_schema_to_gbnf_def emit_enum_schema out b)
  with parsed have "from_json_schema to_json name (enum_schema vs) = Some (Inr (g\<lparr>gm_rules := with_ws b (gm_rules g)\<rparr>))"
    by (simp add: from_json_schema_def)
  then show ?thesis by (auto simp: g_def)
qed

lemma enum_schema_grammar_witness:
  "\<exists>b. from_json_schema (\<lambda>v. case v of JNumber t \<Rightarrow> Some t | _ \<Rightarrow> None) [110] (enum_schema [JNumber [49], JNumber [50]]) =
     Some (Inr \<lparr>gm_rules = with_ws b [(text_of ''root'', Ref [110]), ([110], Alt [Lit [49], Lit [50]])],
       gm_root = text_of ''root''\<rparr>)"
  using enum_schema_grammar [of "[110]" "[JNumber [49], JNumber [50]]" "\<lambda>v. case v of JNumber t \<Rightarrow> Some t | _ \<Rightarrow> None"
      "\<lambda>v. case v of JNumber t \<Rightarrow> t | _ \<Rightarrow> []"]
  by (simp add: is_identifier_def is_alpha_def literal_ok_def text_of_def of_char_def enum_node_def)

subsection \<open>Schemas that do not work\<close>

definition typed_schema :: "string \<Rightarrow> json" where
  "typed_schema t = JObject [(text_of ''type'', JString (text_of t))]"

definition ref_schema :: "uchar list \<Rightarrow> json" where
  "ref_schema target = JObject [(36 # text_of ''ref'', JString target)]"

lemma schema_gets:
  "schema_type (typed_schema t) = text_of t" "schema_type (ref_schema target) = []"
  "json_get ''properties'' (typed_schema t) = None" "json_get ''enum'' (ref_schema target) = None"
  "json_get [CHR 0x24, CHR ''r'', CHR ''e'', CHR ''f''] (ref_schema target) = Some (JString target)"
  by (simp_all add: schema_type_def typed_schema_def ref_schema_def json_get_def as_str_def text_of_def of_char_def)

lemma string_schema_rejected:
  assumes "is_identifier name" "name \<noteq> text_of ''root''"
    "\<not> contains_text (rule_line (text_of ''root'') name @ rule_line name (text_of ''string'')) ''string ::=''"
  shows "from_json_schema to_json name (typed_schema ''string'') = Some (Inl (BadGrammar UnbalancedOpenParen))"
proof -
  let ?s = "text_of ''string''"
  define g where "g = \<lparr>gm_rules = [(text_of ''root'', Ref name), (name, Ref ?s)], gm_root = text_of ''root''\<rparr>"
  let ?rules = "rule_line (text_of ''root'') name @ rule_line name ?s"
  have rules: "?rules = show_rules (gm_rules g)" by (simp add: show_rules_def g_def)
  have "emit_scalar name ?s (rule_line (text_of ''root'') name) = Some (?rules @ string_rule)"
    using assms(3) by (simp add: emit_scalar_def Let_def)
  moreover have "?s \<noteq> text_of ''object''" "?s \<noteq> text_of ''array''" by (simp_all add: text_of_def of_char_def)
  ultimately have "json_schema_to_gbnf to_json name (typed_schema ''string'') = Some (push_ws (?rules @ string_rule))"
    by (simp add: json_schema_to_gbnf_def emit_rule.simps schema_gets)
  moreover obtain b where "push_ws (?rules @ string_rule) = (?rules @ string_rule) @ (if b then ws_rule else [])"
    using push_ws_cases by blast
  ultimately have out: "json_schema_to_gbnf to_json name (typed_schema ''string'') =
      Some (show_rules (gm_rules g) @ string_rule @ (if b then ws_rule else []))"
    by (simp add: rules)
  let ?rest = "string_rule @ (if b then ws_rule else [])"
  have body: "trimmed string_body" "10 \<notin> set string_body"
    by (simp_all add: string_body_def text_eval trimmed_def is_whitespace_def)
  have "string_rule = rule_line ?s string_body" by (simp add: string_rule_def string_body_def)
  then have lines: "lines_of [] ?rest = line_text ?s string_body # lines_of [] (if b then ws_rule else [])"
    using lines_of_rule [OF identifier_names(3) body] by simp
  have gp: "list_all (\<lambda>r. is_identifier (fst r) \<and> printable (snd r)) (gm_rules g)" "distinct (map fst ([] @ gm_rules g))"
    using assms(1,2) identifier_names by (simp_all add: g_def)
  have "parse_lines (lines_of [] ?rest) rules root = Some (Inl UnbalancedOpenParen)" for rules root
    unfolding lines by (simp add: parse_rule_line_body [OF identifier_names(3) body(1)] parse_string_body
        del: parse_lines.simps)
  then have "parse_gbnf (show_rules (gm_rules g) @ ?rest) = Some (Inl UnbalancedOpenParen)"
    using parse_shown_rules [OF gp, of ?rest None] by (simp add: parse_gbnf_def)
  with out show ?thesis by (simp add: from_json_schema_def)
qed

lemma undefined_rule:
  assumes "name \<noteq> root" "u \<noteq> root" "u \<noteq> name" "name \<noteq> text_of ''ws''" "root \<noteq> text_of ''ws''"
    "n = Ref u \<or> (\<exists>w ns. n = Seq (Lit w # Ref u # ns))" "b \<longrightarrow> u \<noteq> text_of ''ws''"
  shows "compile_grammar \<lparr>gm_rules = with_ws b [(root, Ref name), (name, n)], gm_root = root\<rparr> =
    Some (Inl (UndefinedRule u))"
proof -
  let ?rs = "with_ws b [(root, Ref name), (name, n)]"
  have "map_of ?rs root = Some (Ref name)" "map_of ?rs name = Some n" "map_of ?rs u = None"
    using assms by (auto simp: with_ws_def update_conv')
  with assms show ?thesis by (auto simp: compile_grammar_def compile_ref.simps)
qed

lemma object_schema_grammar:
  assumes "is_identifier name" "name \<noteq> text_of ''root''"
  shows "from_json_schema to_json name (typed_schema ''object'') = Some (Inr \<lparr>gm_rules =
     with_ws False [(text_of ''root'', Ref name), (name, Seq [Lit (text_of ''{''), Ref (text_of ''ws''), Lit (text_of ''}'')])],
     gm_root = text_of ''root''\<rparr>)"
proof -
  define g where "g = \<lparr>gm_rules = [(text_of ''root'', Ref name), (name, Seq [Lit (text_of ''{''), Ref (text_of ''ws''),
    Lit (text_of ''}'')])], gm_root = text_of ''root''\<rparr>"
  have "printable_grammar g"
    using assms identifier_names by (simp add: printable_grammar_def g_def text_of_def of_char_def)
  note parsed = parse_rules_ws [OF this, of False]
  have "json_schema_to_gbnf to_json name (typed_schema ''object'') = Some (show_rules (gm_rules g))"
    by (simp add: json_schema_to_gbnf_def emit_rule.simps schema_gets g_def show_rules_def is_compound_def
        parens_if_def escape_json_char_def text_of_def of_char_def)
  with parsed show ?thesis by (simp add: from_json_schema_def g_def)
qed

lemma ref_schema_grammar:
  assumes "is_identifier name" "name \<noteq> text_of ''root''"
  shows "\<exists>b. from_json_schema to_json name (ref_schema target) = Some (Inr \<lparr>gm_rules =
     with_ws b [(text_of ''root'', Ref name), (name, Ref (text_of ''string''))], gm_root = text_of ''root''\<rparr>)"
proof -
  define g where "g = \<lparr>gm_rules = [(text_of ''root'', Ref name), (name, Ref (text_of ''string''))],
    gm_root = text_of ''root''\<rparr>"
  obtain b where b: "push_ws (show_rules (gm_rules g)) = show_rules (gm_rules g) @ (if b then ws_rule else [])"
    using push_ws_cases by blast
  have "printable_grammar g" using assms identifier_names by (simp add: printable_grammar_def g_def)
  note parsed = parse_rules_ws [OF this, of b]
  have "[] \<noteq> text_of ''object''" "[] \<noteq> text_of ''array''" by (simp_all add: text_of_def)
  then have "json_schema_to_gbnf to_json name (ref_schema target) = Some (push_ws (show_rules (gm_rules g)))"
    by (simp add: json_schema_to_gbnf_def emit_rule.simps schema_gets g_def show_rules_def emit_scalar_def
        emit_untyped_def as_str_def text_of_def)
  with parsed b show ?thesis by (auto simp: from_json_schema_def g_def)
qed

text \<open>Three kinds of schema never give a usable grammar, whatever the name of the rule.  The text
  of a string schema is rejected by the parser, because it takes the quote of the class in the string rule for
  the start of a literal; an object schema without properties refers to the white space rule, which is not
  emitted; a reference refers to the string rule, which is not emitted either.\<close>

theorem schemas_without_grammar:
  assumes "is_identifier name" "name \<notin> {text_of ''root'', text_of ''ws'', text_of ''string''}"
    "\<not> contains_text (rule_line (text_of ''root'') name @ rule_line name (text_of ''string'')) ''string ::=''"
  shows "from_json_schema to_json name (typed_schema ''string'') = Some (Inl (BadGrammar UnbalancedOpenParen)) \<and>
    (\<exists>g. from_json_schema to_json name (typed_schema ''object'') = Some (Inr g) \<and>
       compile_grammar g = Some (Inl (UndefinedRule (text_of ''ws'')))) \<and>
    (\<exists>g. from_json_schema to_json name (ref_schema target) = Some (Inr g) \<and>
       compile_grammar g = Some (Inl (UndefinedRule (text_of ''string''))))"
proof -
  have names: "name \<noteq> text_of ''root''" "name \<noteq> text_of ''ws''" "name \<noteq> text_of ''string''" using assms(2) by auto
  have rule_names: "text_of ''root'' \<noteq> text_of ''ws''" "text_of ''string'' \<noteq> text_of ''root''"
    "text_of ''ws'' \<noteq> text_of ''root''" "text_of ''string'' \<noteq> text_of ''ws''"
    by (simp_all add: text_of_def of_char_def)
  have obj: "from_json_schema to_json name (typed_schema ''object'') = Some (Inr g) \<Longrightarrow>
      compile_grammar g = Some (Inl (UndefinedRule (text_of ''ws'')))" for g
    using object_schema_grammar [OF assms(1) names(1), of to_json] names rule_names
    by (auto simp: undefined_rule)
  have ref: "from_json_schema to_json name (ref_schema target) = Some (Inr g) \<Longrightarrow>
      compile_grammar g = Some (Inl (UndefinedRule (text_of ''string'')))" for g
    using ref_schema_grammar [OF assms(1) names(1), of to_json target] names rule_names
    by (auto simp: undefined_rule)
  show ?thesis
    using string_schema_rejected [OF assms(1) names(1) assms(3)] obj ref
      object_schema_grammar [OF assms(1) names(1), of to_json]
      ref_schema_grammar [OF assms(1) names(1), of to_json target] by blast
qed

lemma schemas_without_grammar_witness:
  "from_json_schema (\<lambda>_. None) (text_of ''v'') (typed_schema ''string'') = Some (Inl (BadGrammar UnbalancedOpenParen))"
  by (rule schemas_without_grammar [THEN conjunct1])
    (simp_all add: is_identifier_def is_alpha_def text_of_def of_char_def contains_text_def rule_line_def
      starts_with_text_def)

end
