(* ===== verification/PrefixCache.thy ===== *)
theory PrefixCache
  imports Recency Bytes
begin

text \<open>
  The block-aware prefix cache (\<open>cache/prefix_cache.rs\<close>): hashing of blocks of 64 tokens, the
  uncompressed and the compressed cache with their LRU orders, and the cache shared by all sessions.

  The hash of the standard library (\<open>DefaultHasher\<close>, SipHash) of the 64 padded tokens of a block is the
  parameter \<open>sip\<close>.  Access times are written and never read; they come from a clock that gives the time of
  each block's turn.  The average prefix length of the statistics is never updated and left out.  The eviction loop pops the order until the map is small enough; on an empty order it
  would run for ever, so it is a partial function and the invariant shows that it returns.
\<close>

subsection \<open>Data\<close>

abbreviation prefix_block_size :: nat where "prefix_block_size \<equiv> 64"

type_synonym block_hash = "u8 list"

record block_entry =
  be_block_hash :: block_hash
  be_block_index :: nat
  be_last_access :: nat

record compressed_entry =
  ce_block_hash :: block_hash
  ce_page_index :: nat
  ce_token_count :: u32
  ce_last_access :: nat

record prefix_stats =
  ps_hits :: nat
  ps_misses :: nat
  ps_cached_blocks :: nat
  ps_evicted_blocks :: nat

record prefix_cache =
  pc_cache :: "(block_hash \<times> block_entry) list"
  pc_lru_order :: "block_hash list"
  pc_compressed_cache :: "(block_hash \<times> compressed_entry) list"
  pc_compressed_lru_order :: "block_hash list"
  pc_max_blocks :: nat
  pc_tip_lineage :: "(block_hash \<times> block_hash) list"
  pc_stats :: prefix_stats

definition no_stats :: prefix_stats where
  "no_stats = \<lparr>ps_hits = 0, ps_misses = 0, ps_cached_blocks = 0, ps_evicted_blocks = 0\<rparr>"

definition prefix_cache_new :: "nat \<Rightarrow> prefix_cache" where
  "prefix_cache_new max_blocks = \<lparr>pc_cache = [], pc_lru_order = [], pc_compressed_cache = [],
     pc_compressed_lru_order = [], pc_max_blocks = max_blocks, pc_tip_lineage = [], pc_stats = no_stats\<rparr>"

subsection \<open>Hashing\<close>

definition pad_block :: "u32 list \<Rightarrow> u32 list" where
  "pad_block tokens = (let n = min (length tokens) prefix_block_size in
     take n tokens @ replicate (prefix_block_size - n) 0)"

definition compute_block_hash :: "(u32 list \<Rightarrow> u64) \<Rightarrow> u32 list \<Rightarrow> block_hash" where
  "compute_block_hash sip tokens = (let result = sip (pad_block tokens) in
     u64_to_le_bytes result @ concat (map (\<lambda>i. u64_to_le_bytes (result * (word_of_nat i + 1))) [1..<4]))"

text \<open>The blocks of a token sequence, the last one possibly short.\<close>

definition block_count :: "u32 list \<Rightarrow> nat" where
  "block_count tokens = (length tokens + prefix_block_size - 1) div prefix_block_size"

definition block_tokens :: "u32 list \<Rightarrow> nat \<Rightarrow> u32 list" where
  "block_tokens tokens i = (let start = i * prefix_block_size; stop = min (start + prefix_block_size) (length tokens)
     in take (stop - start) (drop start tokens))"

definition block_hashes :: "(u32 list \<Rightarrow> u64) \<Rightarrow> u32 list \<Rightarrow> block_hash list" where
  "block_hashes sip tokens = map (\<lambda>i. compute_block_hash sip (block_tokens tokens i)) [0..<block_count tokens]"

subsection \<open>Lookup\<close>

text \<open>The walk over the blocks, to the first miss; \<open>hits\<close> and \<open>misses\<close> are counted on the way.\<close>

fun match_blocks :: "(block_hash \<times> 'e) list \<Rightarrow> block_hash list \<Rightarrow> prefix_stats \<Rightarrow> 'e list \<times> prefix_stats" where
  "match_blocks cache [] st = ([], st)"
| "match_blocks cache (h # hs) st = (case map_of cache h of
      Some e \<Rightarrow> (let (es, st') = match_blocks cache hs (st\<lparr>ps_hits := ps_hits st + 1\<rparr>) in (e # es, st'))
    | None \<Rightarrow> ([], st\<lparr>ps_misses := ps_misses st + 1\<rparr>))"

definition find_prefix ::
    "(u32 list \<Rightarrow> u64) \<Rightarrow> prefix_cache \<Rightarrow> u32 list \<Rightarrow> (block_entry list \<times> nat) \<times> prefix_cache" where
  "find_prefix sip pc tokens = (
     let (es, st) = match_blocks (pc_cache pc) (block_hashes sip tokens) (pc_stats pc)
     in ((es, length es * prefix_block_size), pc\<lparr>pc_stats := st\<rparr>))"

definition find_compressed_prefix ::
    "(u32 list \<Rightarrow> u64) \<Rightarrow> prefix_cache \<Rightarrow> u32 list \<Rightarrow> (compressed_entry list \<times> nat) \<times> prefix_cache" where
  "find_compressed_prefix sip pc tokens = (
     let (es, st) = match_blocks (pc_compressed_cache pc) (block_hashes sip tokens) (pc_stats pc)
     in ((es, length es * prefix_block_size), pc\<lparr>pc_stats := st\<rparr>))"

subsection \<open>Insertion and eviction\<close>

text \<open>\<open>touch_lru\<close> and \<open>touch_compressed_lru\<close>, on the order they change.\<close>

definition touch_order :: "block_hash list \<Rightarrow> block_hash \<Rightarrow> block_hash list" where
  "touch_order order h = (case find_idx (\<lambda>x. x = h) order of
      None \<Rightarrow> order
    | Some i \<Rightarrow> remove_nth i order @ [order ! i])"

definition touch_lru :: "prefix_cache \<Rightarrow> block_hash \<Rightarrow> prefix_cache" where
  "touch_lru pc h = pc\<lparr>pc_lru_order := touch_order (pc_lru_order pc) h\<rparr>"

definition touch_compressed_lru :: "prefix_cache \<Rightarrow> block_hash \<Rightarrow> prefix_cache" where
  "touch_compressed_lru pc h = pc\<lparr>pc_compressed_lru_order := touch_order (pc_compressed_lru_order pc) h\<rparr>"

text \<open>The loop of both evictions: the map, the order, the count of evicted blocks.\<close>

partial_function (option) evict_loop ::
    "nat \<Rightarrow> (block_hash \<times> 'e) list \<Rightarrow> block_hash list \<Rightarrow> nat
      \<Rightarrow> ((block_hash \<times> 'e) list \<times> block_hash list \<times> nat) option" where
  "evict_loop max_blocks cache order evicted = (
     if max_blocks < length cache then
       (case order of
          [] \<Rightarrow> evict_loop max_blocks cache [] evicted
        | h # hs \<Rightarrow> evict_loop max_blocks (AList.delete h cache) hs (evicted + 1))
     else Some (cache, order, evicted))"

definition evict_lru :: "prefix_cache \<Rightarrow> prefix_cache option" where
  "evict_lru pc = map_option
     (\<lambda>(cache, order, evicted). pc\<lparr>pc_cache := cache, pc_lru_order := order,
        pc_stats := pc_stats pc\<lparr>ps_evicted_blocks := evicted\<rparr>\<rparr>)
     (evict_loop (pc_max_blocks pc) (pc_cache pc) (pc_lru_order pc) (ps_evicted_blocks (pc_stats pc)))"

definition evict_compressed_lru :: "prefix_cache \<Rightarrow> prefix_cache option" where
  "evict_compressed_lru pc = map_option
     (\<lambda>(cache, order, evicted). pc\<lparr>pc_compressed_cache := cache, pc_compressed_lru_order := order,
        pc_stats := pc_stats pc\<lparr>ps_evicted_blocks := evicted\<rparr>\<rparr>)
     (evict_loop (pc_max_blocks pc) (pc_compressed_cache pc) (pc_compressed_lru_order pc)
        (ps_evicted_blocks (pc_stats pc)))"

definition count_cached :: "prefix_cache \<Rightarrow> prefix_cache" where
  "count_cached pc = pc\<lparr>pc_stats := pc_stats pc\<lparr>ps_cached_blocks := ps_cached_blocks (pc_stats pc) + 1\<rparr>\<rparr>"

text \<open>One turn of the insertion loops: the index of the block, its hash, the time.\<close>

definition insert_block :: "prefix_cache \<Rightarrow> nat \<times> block_hash \<times> nat \<Rightarrow> prefix_cache option" where
  "insert_block pc b = (case b of (block_idx, h, now) \<Rightarrow>
     if map_of (pc_cache pc) h \<noteq> None then Some (touch_lru pc h)
     else
       let e = \<lparr>be_block_hash = h, be_block_index = ps_cached_blocks (pc_stats pc) + block_idx,
                be_last_access = now\<rparr>
       in evict_lru (count_cached (pc\<lparr>pc_cache := AList.update h e (pc_cache pc),
            pc_lru_order := pc_lru_order pc @ [h]\<rparr>)))"

definition insert_compressed_block ::
    "nat \<Rightarrow> prefix_cache \<Rightarrow> (u32 \<times> block_hash \<times> nat) \<Rightarrow> prefix_cache option" where
  "insert_compressed_block page_index pc b = (case b of (token_count, h, now) \<Rightarrow>
     if map_of (pc_compressed_cache pc) h \<noteq> None then Some (touch_compressed_lru pc h)
     else
       let e = \<lparr>ce_block_hash = h, ce_page_index = page_index, ce_token_count = token_count,
                ce_last_access = now\<rparr>
       in evict_compressed_lru (count_cached (pc\<lparr>pc_compressed_cache := AList.update h e (pc_compressed_cache pc),
            pc_compressed_lru_order := pc_compressed_lru_order pc @ [h]\<rparr>)))"

definition pc_insert ::
    "(u32 list \<Rightarrow> u64) \<Rightarrow> (nat \<Rightarrow> nat) \<Rightarrow> prefix_cache \<Rightarrow> u32 list \<Rightarrow> prefix_cache option" where
  "pc_insert sip clock pc tokens = run_opt insert_block pc
     (map (\<lambda>i. (i, compute_block_hash sip (block_tokens tokens i), clock i)) [0..<block_count tokens])"

definition pc_insert_compressed ::
    "(u32 list \<Rightarrow> u64) \<Rightarrow> (nat \<Rightarrow> nat) \<Rightarrow> prefix_cache \<Rightarrow> u32 list \<Rightarrow> nat \<Rightarrow> prefix_cache option" where
  "pc_insert_compressed sip clock pc tokens page_index = run_opt (insert_compressed_block page_index) pc
     (map (\<lambda>i. (word_of_nat (length (block_tokens tokens i)), compute_block_hash sip (block_tokens tokens i), clock i))
       [0..<block_count tokens])"

definition pc_clear :: "prefix_cache \<Rightarrow> prefix_cache" where
  "pc_clear pc = pc\<lparr>pc_cache := [], pc_lru_order := [], pc_compressed_cache := [], pc_compressed_lru_order := [],
     pc_tip_lineage := [], pc_stats := no_stats\<rparr>"

subsection \<open>The shared cache\<close>

definition global_prefix_cache :: prefix_cache where
  "global_prefix_cache = prefix_cache_new 10000"

definition check_shared_prefix ::
    "(u32 list \<Rightarrow> u64) \<Rightarrow> prefix_cache \<Rightarrow> u32 list \<Rightarrow> (block_hash list \<times> nat) option \<times> prefix_cache" where
  "check_shared_prefix sip pc tokens = (case find_prefix sip pc tokens of ((matched, n), pc') \<Rightarrow>
     (if 0 < n then Some (map be_block_hash matched, n) else None, pc'))"

definition insert_shared_prefix ::
    "(u32 list \<Rightarrow> u64) \<Rightarrow> (nat \<Rightarrow> nat) \<Rightarrow> prefix_cache \<Rightarrow> u32 list \<Rightarrow> nat \<Rightarrow> prefix_cache option" where
  "insert_shared_prefix sip clock pc tokens page_index = pc_insert_compressed sip clock pc tokens page_index"

definition clear_shared_prefix_cache :: "prefix_cache \<Rightarrow> prefix_cache" where
  "clear_shared_prefix_cache pc = pc_clear pc"

text \<open>What other code can do to a cache.\<close>

inductive pc_step :: "(u32 list \<Rightarrow> u64) \<Rightarrow> prefix_cache \<Rightarrow> prefix_cache \<Rightarrow> bool" for sip where
  StepInsert: "pc_insert sip clock pc tokens = Some pc' \<Longrightarrow> pc_step sip pc pc'"
| StepInsertCompressed: "pc_insert_compressed sip clock pc tokens page = Some pc' \<Longrightarrow> pc_step sip pc pc'"
| StepFind: "find_prefix sip pc tokens = (r, pc') \<Longrightarrow> pc_step sip pc pc'"
| StepFindCompressed: "find_compressed_prefix sip pc tokens = (rc, pc') \<Longrightarrow> pc_step sip pc pc'"
| StepClear: "pc_step sip pc (pc_clear pc)"

definition pc_reachable :: "(u32 list \<Rightarrow> u64) \<Rightarrow> nat \<Rightarrow> prefix_cache \<Rightarrow> bool" where
  "pc_reachable sip max_blocks pc \<longleftrightarrow> (pc_step sip)\<^sup>*\<^sup>* (prefix_cache_new max_blocks) pc"

inductive shared_step :: "(u32 list \<Rightarrow> u64) \<Rightarrow> prefix_cache \<Rightarrow> prefix_cache \<Rightarrow> bool" for sip where
  ShareInsert: "insert_shared_prefix sip clock pc tokens page = Some pc' \<Longrightarrow> shared_step sip pc pc'"
| ShareCheck: "check_shared_prefix sip pc tokens = (r, pc') \<Longrightarrow> shared_step sip pc pc'"
| ShareClear: "shared_step sip pc (clear_shared_prefix_cache pc)"

definition shared_reachable :: "(u32 list \<Rightarrow> u64) \<Rightarrow> prefix_cache \<Rightarrow> bool" where
  "shared_reachable sip pc \<longleftrightarrow> (shared_step sip)\<^sup>*\<^sup>* global_prefix_cache pc"

subsection \<open>The eviction loop\<close>

definition lru_ok :: "(block_hash \<times> 'e) list \<Rightarrow> block_hash list \<Rightarrow> bool" where
  "lru_ok cache order \<longleftrightarrow> distinct (map fst cache) \<and> distinct order \<and> set order = fst ` set cache"

lemma lru_ok_length: "lru_ok cache order \<Longrightarrow> length cache = length order"
  unfolding lru_ok_def by (metis distinct_card length_map set_map)

lemma fst_delete: "fst ` set (AList.delete k al) = fst ` set al - {k}"
  by (induction al) auto

lemma lru_ok_delete: "lru_ok cache (h # hs) \<Longrightarrow> lru_ok (AList.delete h cache) hs"
  unfolding lru_ok_def fst_delete by (auto simp: AList.delete_eq distinct_map_filter)

lemma evict_loop_spec:
  assumes "lru_ok cache order"
  shows "\<exists>cache'. evict_loop m cache order n = Some (cache', last_n m order, n + (length order - m)) \<and>
    lru_ok cache' (last_n m order) \<and> (\<forall>k \<in> set (last_n m order). map_of cache' k = map_of cache k)"
  using assms
proof (induction order arbitrary: cache n)
  case Nil
  then have "cache = []" by (simp add: lru_ok_def)
  with Nil show ?case by (subst evict_loop.simps) (simp add: last_n_def)
next
  case (Cons h hs)
  show ?case
  proof (cases "m < length cache")
    case True
    then have m: "m \<le> length hs" "last_n m (h # hs) = last_n m hs"
      using lru_ok_length [OF Cons.prems] by (auto simp: last_n_def Suc_diff_le)
    from Cons.IH [OF lru_ok_delete [OF Cons.prems], of "n + 1"]
    obtain cache' where c: "evict_loop m (AList.delete h cache) hs (n + 1) =
        Some (cache', last_n m hs, n + 1 + (length hs - m))" "lru_ok cache' (last_n m hs)"
        "\<forall>k \<in> set (last_n m hs). map_of cache' k = map_of (AList.delete h cache) k" by blast
    have "h \<notin> set (last_n m hs)" using Cons.prems by (auto simp: lru_ok_def last_n_def dest: in_set_dropD)
    then have "\<forall>k \<in> set (last_n m hs). map_of cache' k = map_of cache k"
      using c(3) by (auto simp: delete_conv')
    with c True m show ?thesis by (subst evict_loop.simps) (simp add: Suc_diff_le)
  next
    case False
    then have "length (h # hs) \<le> m" using lru_ok_length [OF Cons.prems] by simp
    then show ?thesis using False Cons.prems by (subst evict_loop.simps) (simp add: last_n_short)
  qed
qed

lemma touch_order_distinct:
  assumes "distinct order" "h \<in> set order"
  shows "touch_order order h = remove1 h order @ [h]"
proof -
  obtain i where i: "find_idx (\<lambda>x. x = h) order = Some i" 
    using find_idx_exists [OF assms(2), of "\<lambda>x. x = h"] by auto
  have h: "i < length order" "order ! i = h" "h \<notin> set (take i order)"
    using find_idx_Some [OF i] by (auto simp: in_set_conv_nth)
  have "remove1 h (take i order @ h # drop (Suc i) order) = take i order @ drop (Suc i) order"
    using h(3) by (simp add: remove1_append)
  moreover have "take i order @ h # drop (Suc i) order = order" using split_at [OF h(1)] h(2) by simp
  ultimately have "remove1 h order = take i order @ drop (Suc i) order" by simp
  with i h show ?thesis by (simp add: touch_order_def remove_nth_def)
qed

lemma lru_ok_touch: "lru_ok cache order \<Longrightarrow> h \<in> set order \<Longrightarrow> lru_ok cache (remove1 h order @ [h])"
  by (auto simp: lru_ok_def)

lemma lru_ok_insert: "lru_ok cache order \<Longrightarrow> h \<notin> set order \<Longrightarrow> lru_ok (AList.update h e cache) (order @ [h])"
  by (auto simp: lru_ok_def dom_update distinct_update update_keys)

lemma lru_ok_present: "lru_ok cache order \<Longrightarrow> map_of cache h \<noteq> None \<longleftrightarrow> h \<in> set order"
  by (auto simp: lru_ok_def map_of_eq_None_iff)

subsection \<open>Invariant\<close>

definition pc_ok :: "prefix_cache \<Rightarrow> bool" where
  "pc_ok pc \<longleftrightarrow> lru_ok (pc_cache pc) (pc_lru_order pc) \<and> length (pc_lru_order pc) \<le> pc_max_blocks pc \<and>
     lru_ok (pc_compressed_cache pc) (pc_compressed_lru_order pc) \<and>
     length (pc_compressed_lru_order pc) \<le> pc_max_blocks pc"

lemma insert_block_spec:
  assumes "pc_ok pc"
  shows "\<exists>pc'. insert_block pc (i, h, now) = Some pc' \<and> pc_ok pc' \<and> pc_max_blocks pc' = pc_max_blocks pc \<and>
    pc_lru_order pc' = last_n (pc_max_blocks pc) (remove1 h (pc_lru_order pc) @ [h])"
proof (cases "h \<in> set (pc_lru_order pc)")
  case True
  have ok: "lru_ok (pc_cache pc) (pc_lru_order pc)" "length (pc_lru_order pc) \<le> pc_max_blocks pc"
    using assms by (auto simp: pc_ok_def)
  have "touch_order (pc_lru_order pc) h = remove1 h (pc_lru_order pc) @ [h]"
    using ok(1) True by (simp add: touch_order_distinct lru_ok_def)
  moreover have "length (remove1 h (pc_lru_order pc) @ [h]) = length (pc_lru_order pc)"
    using True by (simp add: length_remove1) (cases "pc_lru_order pc"; simp)
  ultimately show ?thesis
    using assms ok True lru_ok_touch [OF ok(1) True] lru_ok_present [OF ok(1), of h]
    by (simp add: insert_block_def touch_lru_def pc_ok_def last_n_short)
next
  case False
  have ok: "lru_ok (pc_cache pc) (pc_lru_order pc)" using assms by (simp add: pc_ok_def)
  let ?e = "\<lparr>be_block_hash = h, be_block_index = ps_cached_blocks (pc_stats pc) + i, be_last_access = now\<rparr>"
  obtain cache' where c: "evict_loop (pc_max_blocks pc) (AList.update h ?e (pc_cache pc)) (pc_lru_order pc @ [h])
      (ps_evicted_blocks (pc_stats pc)) = Some (cache', last_n (pc_max_blocks pc) (pc_lru_order pc @ [h]),
        ps_evicted_blocks (pc_stats pc) + (length (pc_lru_order pc @ [h]) - pc_max_blocks pc))"
      "lru_ok cache' (last_n (pc_max_blocks pc) (pc_lru_order pc @ [h]))"
    using evict_loop_spec [OF lru_ok_insert [OF ok False]] by blast
  then show ?thesis
    using assms False lru_ok_present [OF ok, of h]
    by (simp add: insert_block_def evict_lru_def count_cached_def pc_ok_def remove1_idem length_last_n Let_def)
qed

lemma insert_compressed_block_spec:
  assumes "pc_ok pc"
  shows "\<exists>pc'. insert_compressed_block page pc (n, h, now) = Some pc' \<and> pc_ok pc' \<and>
    pc_max_blocks pc' = pc_max_blocks pc \<and>
    pc_compressed_lru_order pc' = last_n (pc_max_blocks pc) (remove1 h (pc_compressed_lru_order pc) @ [h])"
proof (cases "h \<in> set (pc_compressed_lru_order pc)")
  case True
  have ok: "lru_ok (pc_compressed_cache pc) (pc_compressed_lru_order pc)"
      "length (pc_compressed_lru_order pc) \<le> pc_max_blocks pc"
    using assms by (auto simp: pc_ok_def)
  have "touch_order (pc_compressed_lru_order pc) h = remove1 h (pc_compressed_lru_order pc) @ [h]"
    using ok(1) True by (simp add: touch_order_distinct lru_ok_def)
  moreover have "length (remove1 h (pc_compressed_lru_order pc) @ [h]) = length (pc_compressed_lru_order pc)"
    using True by (simp add: length_remove1) (cases "pc_compressed_lru_order pc"; simp)
  ultimately show ?thesis
    using assms ok True lru_ok_touch [OF ok(1) True] lru_ok_present [OF ok(1), of h]
    by (simp add: insert_compressed_block_def touch_compressed_lru_def pc_ok_def last_n_short)
next
  case False
  have ok: "lru_ok (pc_compressed_cache pc) (pc_compressed_lru_order pc)" using assms by (simp add: pc_ok_def)
  let ?e = "\<lparr>ce_block_hash = h, ce_page_index = page, ce_token_count = n, ce_last_access = now\<rparr>"
  obtain cache' where c: "evict_loop (pc_max_blocks pc) (AList.update h ?e (pc_compressed_cache pc))
      (pc_compressed_lru_order pc @ [h])
      (ps_evicted_blocks (pc_stats pc)) = Some (cache', last_n (pc_max_blocks pc) (pc_compressed_lru_order pc @ [h]),
        ps_evicted_blocks (pc_stats pc) + (length (pc_compressed_lru_order pc @ [h]) - pc_max_blocks pc))"
      "lru_ok cache' (last_n (pc_max_blocks pc) (pc_compressed_lru_order pc @ [h]))"
    using evict_loop_spec [OF lru_ok_insert [OF ok False]] by blast
  then show ?thesis
    using assms False lru_ok_present [OF ok, of h]
    by (simp add: insert_compressed_block_def evict_compressed_lru_def count_cached_def pc_ok_def remove1_idem
        length_last_n Let_def)
qed

lemma pc_ok_lengths: "pc_ok pc \<Longrightarrow> distinct (pc_lru_order pc) \<and> length (pc_lru_order pc) \<le> pc_max_blocks pc"
    "pc_ok pc \<Longrightarrow> distinct (pc_compressed_lru_order pc) \<and> length (pc_compressed_lru_order pc) \<le> pc_max_blocks pc"
  by (auto simp: pc_ok_def lru_ok_def)

interpretation pl: recency insert_block "\<lambda>b. fst (snd b)" pc_lru_order pc_max_blocks pc_ok
  by unfold_locales (use pc_ok_lengths insert_block_spec in \<open>auto simp: split_paired_all\<close>)

interpretation pcl: recency "insert_compressed_block page" "\<lambda>b. fst (snd b)" pc_compressed_lru_order pc_max_blocks pc_ok
  for page
  by unfold_locales (use pc_ok_lengths insert_compressed_block_spec in \<open>auto simp: split_paired_all\<close>)

lemma pc_new_ok: "pc_ok (prefix_cache_new m)"
  by (simp add: pc_ok_def prefix_cache_new_def lru_ok_def)

lemma insert_keys: "map (fst \<circ> snd) (map (\<lambda>i. (f i, compute_block_hash sip (block_tokens tokens i), g i)) [0..<block_count tokens]) =
    block_hashes sip tokens"
  by (simp add: block_hashes_def comp_def)

lemma pc_insert_recency:
  assumes "pc_ok pc"
  shows "\<exists>pc'. pc_insert sip clock pc tokens = Some pc' \<and> pc_ok pc' \<and> pc_max_blocks pc' = pc_max_blocks pc \<and>
    pc_lru_order pc' = last_n (pc_max_blocks pc) (remdups (pc_lru_order pc @ block_hashes sip tokens))"
  using pl.touches_queue [OF assms, of "map (\<lambda>i. (i, compute_block_hash sip (block_tokens tokens i), clock i))
      [0..<block_count tokens]"]
  by (simp add: pc_insert_def block_hashes_def comp_def)

lemma pc_insert_compressed_recency:
  assumes "pc_ok pc"
  shows "\<exists>pc'. pc_insert_compressed sip clock pc tokens page = Some pc' \<and> pc_ok pc' \<and>
    pc_max_blocks pc' = pc_max_blocks pc \<and> pc_compressed_lru_order pc' =
      last_n (pc_max_blocks pc) (remdups (pc_compressed_lru_order pc @ block_hashes sip tokens))"
  using pcl.touches_queue [OF assms, of page "map (\<lambda>i. (word_of_nat (length (block_tokens tokens i)),
      compute_block_hash sip (block_tokens tokens i), clock i)) [0..<block_count tokens]"]
  by (simp add: pc_insert_compressed_def block_hashes_def comp_def)

lemma find_prefix_ok: "find_prefix sip pc tokens = (r, pc') \<Longrightarrow> pc_ok pc' = pc_ok pc \<and> pc_max_blocks pc' = pc_max_blocks pc"
  by (auto simp: find_prefix_def pc_ok_def split: prod.splits)

lemma find_compressed_prefix_ok:
  "find_compressed_prefix sip pc tokens = (r, pc') \<Longrightarrow> pc_ok pc' = pc_ok pc \<and> pc_max_blocks pc' = pc_max_blocks pc"
  by (auto simp: find_compressed_prefix_def pc_ok_def split: prod.splits)

lemma pc_step_ok: "pc_step sip pc pc' \<Longrightarrow> pc_ok pc \<Longrightarrow> pc_ok pc' \<and> pc_max_blocks pc' = pc_max_blocks pc"
proof (induction rule: pc_step.induct)
  case (StepInsert clock pc tokens pc')
  then show ?case using pc_insert_recency [of pc sip clock tokens] by auto
next
  case (StepInsertCompressed clock pc tokens page pc')
  then show ?case using pc_insert_compressed_recency [of pc sip clock tokens page] by auto
next
  case (StepClear pc)
  then show ?case by (simp add: pc_clear_def pc_ok_def lru_ok_def)
qed (use find_prefix_ok find_compressed_prefix_ok in blast)+

lemma pc_reachable_ok: "pc_reachable sip m pc \<Longrightarrow> pc_ok pc \<and> pc_max_blocks pc = m"
  unfolding pc_reachable_def
proof (induction rule: rtranclp_induct)
  case base
  then show ?case using pc_new_ok by (simp add: prefix_cache_new_def)
next
  case (step pc pc')
  then show ?case using pc_step_ok [OF step(2)] by simp
qed

text \<open>C20: In every reachable prefix cache both maps hold exactly the hashes of their LRU orders,
  without repetition and never more than the limit, and every insertion returns: afterwards the order lists the
  most recently inserted distinct blocks, up to the limit, in the order of their last insertion.\<close>

theorem prefix_cache_lru:
  assumes "pc_reachable sip m pc"
  shows "distinct (pc_lru_order pc) \<and> set (pc_lru_order pc) = fst ` set (pc_cache pc) \<and> length (pc_cache pc) \<le> m \<and>
    distinct (pc_compressed_lru_order pc) \<and>
    set (pc_compressed_lru_order pc) = fst ` set (pc_compressed_cache pc) \<and> length (pc_compressed_cache pc) \<le> m \<and>
    (\<exists>pc'. pc_insert sip clock pc tokens = Some pc' \<and>
       pc_lru_order pc' = last_n m (remdups (pc_lru_order pc @ block_hashes sip tokens))) \<and>
    (\<exists>pc'. pc_insert_compressed sip clock pc tokens page = Some pc' \<and>
       pc_compressed_lru_order pc' = last_n m (remdups (pc_compressed_lru_order pc @ block_hashes sip tokens)))"
proof -
  have ok: "pc_ok pc" "pc_max_blocks pc = m" using pc_reachable_ok [OF assms] by auto
  then have "length (pc_cache pc) = length (pc_lru_order pc)"
    "length (pc_compressed_cache pc) = length (pc_compressed_lru_order pc)"
    by (auto simp: pc_ok_def dest: lru_ok_length)
  with ok pc_insert_recency [OF ok(1), of sip clock tokens]
    pc_insert_compressed_recency [OF ok(1), of sip clock tokens page]
  show ?thesis by (auto simp: pc_ok_def lru_ok_def)
qed

lemma prefix_cache_lru_witness:
  "\<exists>pc'. pc_insert (\<lambda>_. 0) (\<lambda>_. 0) (prefix_cache_new 2) [1, 2, 3] = Some pc' \<and>
     pc_lru_order pc' = last_n 2 (remdups (pc_lru_order (prefix_cache_new 2) @ block_hashes (\<lambda>_. 0) [1, 2, 3]))"
proof -
  have "pc_reachable (\<lambda>_. 0) 2 (prefix_cache_new 2)" by (simp add: pc_reachable_def)
  from prefix_cache_lru [OF this, of "\<lambda>_. 0" "[1, 2, 3]"] show ?thesis by blast
qed

subsection \<open>What lookups find\<close>

lemma match_blocks_takeWhile:
  "fst (match_blocks cache hs st) = map (\<lambda>h. the (map_of cache h)) (takeWhile (\<lambda>h. h \<in> fst ` set cache) hs)"
proof (induction hs arbitrary: st)
  case (Cons h hs)
  show ?case
  proof (cases "map_of cache h")
    case None
    then have "h \<notin> fst ` set cache" by (simp add: map_of_eq_None_iff)
    then show ?thesis by (simp add: None)
  next
    case (Some e)
    then have "h \<in> fst ` set cache" by (metis map_of_eq_None_iff option.distinct(1))
    then show ?thesis using Cons by (simp add: Some Let_def split_beta)
  qed
qed simp

lemma find_prefix_exact:
  assumes "pc_ok pc"
  shows "fst (find_prefix sip pc q) =
    (let hs = takeWhile (\<lambda>h. h \<in> set (pc_lru_order pc)) (block_hashes sip q)
     in (map (\<lambda>h. the (map_of (pc_cache pc) h)) hs, length hs * prefix_block_size))"
proof -
  have "set (pc_lru_order pc) = fst ` set (pc_cache pc)" using assms by (simp add: pc_ok_def lru_ok_def)
  then show ?thesis
    using match_blocks_takeWhile [of "pc_cache pc" "block_hashes sip q" "pc_stats pc"]
    by (cases "match_blocks (pc_cache pc) (block_hashes sip q) (pc_stats pc)")
      (auto simp: find_prefix_def Let_def dest: arg_cong [of _ _ length])
qed

lemma block_count_Cons: "length b = 64 \<Longrightarrow> block_count (b @ rest) = Suc (block_count rest)"
  by (simp add: block_count_def)

lemma block_tokens_Cons:
  assumes "length b = 64"
  shows "block_tokens (b @ rest) 0 = b" "block_tokens (b @ rest) (Suc i) = block_tokens rest i"
proof -
  show "block_tokens (b @ rest) 0 = b" using assms by (simp add: block_tokens_def Let_def)
  have "min (Suc i * 64 + 64) (length (b @ rest)) - Suc i * 64 = min (i * 64 + 64) (length rest) - i * 64"
    using assms by simp
  moreover have "drop (Suc i * 64) (b @ rest) = drop (i * 64) rest" using assms by simp
  ultimately show "block_tokens (b @ rest) (Suc i) = block_tokens rest i"
    unfolding block_tokens_def Let_def by simp
qed

lemma block_hashes_concat:
  "\<forall>b \<in> set bs. length b = 64 \<Longrightarrow> block_hashes sip (concat bs) = map (compute_block_hash sip) bs"
proof (induction bs)
  case Nil
  then show ?case by (simp add: block_hashes_def block_count_def)
next
  case (Cons b bs)
  then have "block_hashes sip (concat (b # bs)) =
      compute_block_hash sip b # map (\<lambda>i. compute_block_hash sip (block_tokens (concat bs) i)) [0..<block_count (concat bs)]"
    by (simp add: block_hashes_def block_count_Cons block_tokens_Cons upt_conv_Cons del: upt_Suc
        flip: map_Suc_upt) (simp add: comp_def block_tokens_Cons)
  with Cons show ?case by (simp add: block_hashes_def)
qed

text \<open>A lookup matches a block wherever it was inserted: once a sequence of at most \<open>m\<close> whole
  blocks is inserted, any sequence of these blocks, in any order and with any repetition, is found to the end as
  a cached prefix, although the key and value data of a block depend on all the tokens before it.\<close>

theorem lookup_ignores_position:
  assumes "pc_reachable sip m pc" "\<forall>b \<in> set bs. length b = 64" "length bs \<le> m" "set qs \<subseteq> set bs"
  shows "\<exists>pc'. pc_insert sip clock pc (concat bs) = Some pc' \<and>
    snd (fst (find_prefix sip pc' (concat qs))) = length qs * prefix_block_size"
proof -
  let ?hs = "map (compute_block_hash sip) bs"
  have ok: "pc_ok pc" "pc_max_blocks pc = m" using pc_reachable_ok [OF assms(1)] by auto
  obtain pc' where pc': "pc_insert sip clock pc (concat bs) = Some pc'" "pc_ok pc'"
      "pc_lru_order pc' = last_n m (remdups (pc_lru_order pc @ ?hs))"
    using pc_insert_recency [OF ok(1), of sip clock "concat bs"] ok(2) block_hashes_concat [OF assms(2)] by auto
  have "length (remdups ?hs) \<le> m" using assms(3) length_remdups_leq [of ?hs] by simp
  moreover have "remdups (pc_lru_order pc @ ?hs) = filter (\<lambda>h. h \<notin> set ?hs) (remdups (pc_lru_order pc)) @ remdups ?hs"
    by (rule remdups_append)
  ultimately have "set ?hs \<subseteq> set (pc_lru_order pc')" unfolding pc'(3) by (simp add: last_n_append)
  then have "\<forall>h \<in> set (map (compute_block_hash sip) qs). h \<in> set (pc_lru_order pc')" using assms(4) by auto
  then have hits: "takeWhile (\<lambda>h. h \<in> set (pc_lru_order pc')) (map (compute_block_hash sip) qs) =
      map (compute_block_hash sip) qs"
    by (simp add: takeWhile_eq_all_conv)
  have whole: "\<forall>b \<in> set qs. length b = 64" using assms(2,4) by blast
  have "snd (fst (find_prefix sip pc' (concat qs))) = length qs * prefix_block_size"
    unfolding find_prefix_exact [OF pc'(2)] block_hashes_concat [OF whole] hits Let_def by simp
  with pc'(1) show ?thesis by blast
qed

lemma lookup_ignores_position_witness:
  "\<exists>pc'. pc_insert (\<lambda>ts. ucast (hd ts)) (\<lambda>_. 0) (prefix_cache_new 4) (concat [replicate 64 1, replicate 64 2]) = Some pc' \<and>
    snd (fst (find_prefix (\<lambda>ts. ucast (hd ts)) pc' (concat [replicate 64 2, replicate 64 1]))) =
      length [replicate 64 2, replicate 64 (1::u32)] * prefix_block_size"
proof -
  have "pc_reachable (\<lambda>ts. ucast (hd ts)) 4 (prefix_cache_new 4)" by (simp add: pc_reachable_def)
  then show ?thesis by (rule lookup_ignores_position) simp_all
qed

text \<open>A short block and the same block with zero tokens appended have the same hash.\<close>

lemma padded_block_hash:
  "length b + k \<le> 64 \<Longrightarrow> compute_block_hash sip (b @ replicate k 0) = compute_block_hash sip b"
  by (simp add: compute_block_hash_def pad_block_def Let_def min_def flip: replicate_add)

subsection \<open>The shared cache\<close>

lemma insert_compressed_block_cache:
  "insert_compressed_block page pc b = Some pc' \<Longrightarrow> pc_cache pc = [] \<Longrightarrow> pc_cache pc' = []"
  by (auto simp: insert_compressed_block_def touch_compressed_lru_def evict_compressed_lru_def count_cached_def Let_def
      split: prod.splits if_splits)

lemma shared_cache_empty: "shared_reachable sip pc \<Longrightarrow> pc_cache pc = []"
  unfolding shared_reachable_def
proof (induction rule: rtranclp_induct)
  case base
  then show ?case by (simp add: global_prefix_cache_def prefix_cache_new_def)
next
  case (step pc pc')
  from step(2) show ?case
  proof cases
    case (ShareInsert clock tokens page)
    then have run: "run_opt (insert_compressed_block page) pc
        (map (\<lambda>i. (word_of_nat (length (block_tokens tokens i)), compute_block_hash sip (block_tokens tokens i), clock i))
          [0..<block_count tokens]) = Some pc'"
      by (simp add: insert_shared_prefix_def pc_insert_compressed_def)
    show ?thesis
      by (rule run_opt_invariant [where P = "\<lambda>pc. pc_cache pc = []", OF run]) (use step(3) insert_compressed_block_cache in blast)+
  next
    case (ShareCheck tokens r)
    then show ?thesis using step(3)
      by (auto simp: check_shared_prefix_def find_prefix_def split: prod.splits)
  next
    case ShareClear
    then show ?thesis by (simp add: clear_shared_prefix_cache_def pc_clear_def)
  qed
qed

text \<open>The cache shared by all sessions never answers: insertions go to the compressed map, lookups
  read the uncompressed one, so after any sequence of shared operations every lookup is a miss.\<close>

theorem shared_prefix_never_hits:
  assumes "shared_reachable sip pc"
  shows "fst (check_shared_prefix sip pc tokens) = None"
proof -
  have "fst (match_blocks (pc_cache pc) (block_hashes sip tokens) (pc_stats pc)) = []"
    using shared_cache_empty [OF assms] by (cases "block_hashes sip tokens") simp_all
  then show ?thesis
    by (cases "match_blocks (pc_cache pc) (block_hashes sip tokens) (pc_stats pc)")
      (simp add: check_shared_prefix_def find_prefix_def)
qed

lemma shared_prefix_never_hits_witness:
  "\<exists>pc'. insert_shared_prefix (\<lambda>_. 0) (\<lambda>_. 0) global_prefix_cache [1, 2, 3] 5 = Some pc' \<and>
    fst (check_shared_prefix (\<lambda>_. 0) pc' [1, 2, 3]) = None"
proof -
  obtain pc' where pc': "insert_shared_prefix (\<lambda>_. 0) (\<lambda>_. 0) global_prefix_cache [1, 2, 3] 5 = Some pc'"
    using pc_insert_compressed_recency [OF pc_new_ok, of "\<lambda>_. 0" "\<lambda>_. 0" 10000 "[1, 2, 3]" 5]
    by (auto simp: insert_shared_prefix_def global_prefix_cache_def)
  then have "shared_reachable (\<lambda>_. 0) pc'"
    unfolding shared_reachable_def by (intro r_into_rtranclp ShareInsert)
  from shared_prefix_never_hits [OF this] pc' show ?thesis by blast
qed

end
