(* ===== verification/Orchestration.thy ===== *)
theory Orchestration
  imports Prelude
begin

text \<open>
  Runtime work items and their coordination (\<open>runtime_contract.rs\<close>, \<open>runtime_orchestration.rs\<close>): the
  contract of a work item, the phase scope opened for it with its guards, and the in-memory coordination
  fabric with the lifecycle from admission to acknowledgment.

  The fabric's map is an association list.  The asynchronous methods of the trait never wait on anything and
  are functions; the synchronous variants repeat them.  An error leaves the fabric as it was.
\<close>

subsection \<open>The contract\<close>

datatype backend_target = Mlx | Coreml | Accelerate | Reference | OtherBackend
datatype authority_mode = Authority | Provisional | FallbackMode | Research
datatype budget_class = Interactive | Background | BatchBudget | ResearchBudget
datatype copy_policy = ZeroCopy | MetadataOnlyView | LayoutReinterpret | LayoutTransformCopy
  | HostMaterializationCopy | FrameworkForcedCopy
datatype scratch_policy = NoScratch | PhaseLocalOnly | ReceiptedPrivateScratch
datatype commit_policy = DirectWriteback | RingBufferWritebackCopy | ReceiptOnly | ResearchOnly
datatype view_kind = IosurfaceDirectView | MappedHostView | CpuRingBufferView | FrameworkCopiedView | OpaquePrivateView
datatype access_mode = ReadAccess | WriteAccess | ReadWriteAccess

record retry_policy =
  ry_max_retries :: u32
  ry_backoff_ms :: u64

record backend_view =
  bv_view_id :: string
  bv_tensor_id :: string
  bv_view_kind :: view_kind
  bv_access_mode :: access_mode

record work_item =
  wi_schema :: string
  wi_schema_version :: string
  wi_work_id :: string
  wi_run_id :: string
  wi_phase_id :: string
  wi_canonical_phase :: "string option"
  wi_backend_target :: backend_target
  wi_island_id :: string
  wi_input_tensor_ids :: "string list"
  wi_output_tensor_ids :: "string list"
  wi_authority_mode :: authority_mode
  wi_deadline :: string
  wi_budget_class :: budget_class
  wi_retry_policy :: retry_policy
  wi_expected_receipts :: "string list"
  wi_receipt_before_ack :: bool

record sync_policy =
  sy_sync_before :: bool
  sy_sync_after :: bool
  sy_hash_required :: bool

record phase_scope =
  sc_schema :: string
  sc_schema_version :: string
  sc_phase_scope_id :: string
  sc_run_id :: string
  sc_phase_id :: string
  sc_backend_target :: backend_target
  sc_inputs :: "string list"
  sc_outputs :: "string list"
  sc_backend_views :: "backend_view list"
  sc_scratch_policy :: scratch_policy
  sc_copy_policy :: copy_policy
  sc_sync_policy :: sync_policy
  sc_commit_policy :: commit_policy
  sc_required_receipts :: "string list"
  sc_authority_mode :: authority_mode
  sc_golden_path_id :: "string option"

datatype fabric_error =
    ReceiptBeforeAckRequired
  | GoldenPathRequired
  | ForcedCopyNotEligible
  | CommitPolicyRequired
  | NotAdmitted
  | PhaseScopeMissing
  | DeadLettered
  | ReceiptNotCommitted
  | PhaseNotOpened
  | NoDurableReceipt

definition receipt_before_ack_guard :: "work_item \<Rightarrow> fabric_error + unit" where
  "receipt_before_ack_guard w = (if wi_receipt_before_ack w then Inr () else Inl ReceiptBeforeAckRequired)"

definition authority_guard :: "phase_scope \<Rightarrow> fabric_error + unit" where
  "authority_guard p = (
     if sc_authority_mode p = Authority \<and> sc_golden_path_id p = None then Inl GoldenPathRequired
     else if sc_copy_policy p = FrameworkForcedCopy \<and> sc_authority_mode p = Authority then Inl ForcedCopyNotEligible
     else if sc_commit_policy p = ReceiptOnly \<and> sc_authority_mode p = Authority then Inl CommitPolicyRequired
     else Inr ())"

definition scratch_can_be_committed_directly :: "phase_scope \<Rightarrow> bool" where
  "scratch_can_be_committed_directly p \<longleftrightarrow> sc_scratch_policy p = NoScratch \<and> sc_commit_policy p = DirectWriteback"

subsection \<open>The fabric\<close>

datatype coordination_state =
    Admitted | Claimed | PhaseOpened | BackendProvisional | ReceiptCommitted | AckEligible | Acked
  | ReclaimCandidate | DeadLetter

record runtime_receipt =
  rr_work_id :: string
  rr_phase_scope_id :: string
  rr_durable :: bool
  rr_backend_executed :: bool

record orch_record =
  or_work_item :: work_item
  or_phase_scope :: "phase_scope option"
  or_state :: coordination_state
  or_receipt :: "runtime_receipt option"

record fabric =
  fb_records :: "(string \<times> orch_record) list"
  fb_heartbeats :: "string set"

definition fabric_default :: fabric where
  "fabric_default = \<lparr>fb_records = [], fb_heartbeats = {}\<rparr>"

type_synonym 'a fabric_result = "(fabric_error + 'a) \<times> fabric"

definition open_phase_scope :: "work_item \<Rightarrow> phase_scope" where
  "open_phase_scope w = \<lparr>
     sc_schema = ''tribunus.phase_scope.v1'',
     sc_schema_version = ''v1'',
     sc_phase_scope_id = ''scope:'' @ wi_work_id w,
     sc_run_id = wi_run_id w,
     sc_phase_id = wi_phase_id w,
     sc_backend_target = wi_backend_target w,
     sc_inputs = wi_input_tensor_ids w,
     sc_outputs = wi_output_tensor_ids w,
     sc_backend_views = [],
     sc_scratch_policy = PhaseLocalOnly,
     sc_copy_policy = MetadataOnlyView,
     sc_sync_policy = \<lparr>sy_sync_before = True, sy_sync_after = True, sy_hash_required = True\<rparr>,
     sc_commit_policy = DirectWriteback,
     sc_required_receipts = wi_expected_receipts w,
     sc_authority_mode = wi_authority_mode w,
     sc_golden_path_id = wi_canonical_phase w\<rparr>"

definition receipt_for :: "work_item \<Rightarrow> phase_scope \<Rightarrow> runtime_receipt" where
  "receipt_for w p = \<lparr>rr_work_id = wi_work_id w, rr_phase_scope_id = sc_phase_scope_id p, rr_durable = True,
     rr_backend_executed = True\<rparr>"

definition fb_record :: "fabric \<Rightarrow> string \<Rightarrow> orch_record option" where
  "fb_record f work_id = map_of (fb_records f) work_id"

definition put_record :: "fabric \<Rightarrow> string \<Rightarrow> orch_record \<Rightarrow> fabric" where
  "put_record f work_id r = f\<lparr>fb_records := AList.update work_id r (fb_records f)\<rparr>"

definition fb_admit :: "fabric \<Rightarrow> work_item \<Rightarrow> orch_record fabric_result" where
  "fb_admit f w = (case receipt_before_ack_guard w of
      Inl e \<Rightarrow> (Inl e, f)
    | Inr _ \<Rightarrow>
        let p = open_phase_scope w in
        case authority_guard p of
          Inl e \<Rightarrow> (Inl e, f)
        | Inr _ \<Rightarrow>
            let r = \<lparr>or_work_item = w, or_phase_scope = Some p, or_state = Admitted, or_receipt = None\<rparr>
            in (Inr r, put_record f (wi_work_id w) r))"

text \<open>A method on an admitted item: an error, or the record it leaves.\<close>

definition on_record ::
    "fabric \<Rightarrow> string \<Rightarrow> (orch_record \<Rightarrow> fabric_error + orch_record) \<Rightarrow> orch_record fabric_result" where
  "on_record f work_id step = (case fb_record f work_id of
      None \<Rightarrow> (Inl NotAdmitted, f)
    | Some r \<Rightarrow> (case step r of
          Inl e \<Rightarrow> (Inl e, f)
        | Inr r' \<Rightarrow> (Inr r', put_record f work_id r')))"

definition fb_claim :: "fabric \<Rightarrow> string \<Rightarrow> orch_record fabric_result" where
  "fb_claim f work_id = on_record f work_id (\<lambda>r.
     if or_state r = DeadLetter then Inl DeadLettered else Inr (r\<lparr>or_state := Claimed\<rparr>))"

definition fb_heartbeat :: "fabric \<Rightarrow> string \<Rightarrow> unit fabric_result" where
  "fb_heartbeat f work_id = (
     if fb_record f work_id \<noteq> None then (Inr (), f\<lparr>fb_heartbeats := insert work_id (fb_heartbeats f)\<rparr>)
     else (Inl NotAdmitted, f))"

definition fb_ack :: "fabric \<Rightarrow> string \<Rightarrow> unit fabric_result" where
  "fb_ack f work_id = (case on_record f work_id (\<lambda>r.
       if or_state r \<in> {ReceiptCommitted, AckEligible} then Inr (r\<lparr>or_state := Acked\<rparr>)
       else Inl ReceiptNotCommitted) of
     (Inl e, f') \<Rightarrow> (Inl e, f')
   | (Inr _, f') \<Rightarrow> (Inr (), f'))"

definition reclaim_candidates :: "fabric \<Rightarrow> string list" where
  "reclaim_candidates f = map fst (filter
     (\<lambda>(work_id, r). work_id \<notin> fb_heartbeats f \<and> or_state r \<notin> {Acked, DeadLetter}) (fb_records f))"

definition fb_dead_letter :: "fabric \<Rightarrow> string \<Rightarrow> orch_record fabric_result" where
  "fb_dead_letter f work_id = on_record f work_id (\<lambda>r. Inr (r\<lparr>or_state := DeadLetter\<rparr>))"

definition fb_execute_backend :: "fabric \<Rightarrow> string \<Rightarrow> orch_record fabric_result" where
  "fb_execute_backend f work_id = on_record f work_id (\<lambda>r.
     if or_state r \<in> {Claimed, PhaseOpened} then Inr (r\<lparr>or_state := BackendProvisional\<rparr>)
     else Inl PhaseNotOpened)"

definition fb_commit_receipt :: "fabric \<Rightarrow> string \<Rightarrow> orch_record fabric_result" where
  "fb_commit_receipt f work_id = on_record f work_id (\<lambda>r. case or_phase_scope r of
       None \<Rightarrow> Inl PhaseScopeMissing
     | Some p \<Rightarrow> Inr (r\<lparr>or_receipt := Some (receipt_for (or_work_item r) p), or_state := ReceiptCommitted\<rparr>))"

definition fb_open_phase :: "fabric \<Rightarrow> string \<Rightarrow> orch_record fabric_result" where
  "fb_open_phase f work_id = on_record f work_id (\<lambda>r.
     if or_phase_scope r = None then Inl PhaseScopeMissing else Inr (r\<lparr>or_state := PhaseOpened\<rparr>))"

definition fb_mark_ack_eligible :: "fabric \<Rightarrow> string \<Rightarrow> orch_record fabric_result" where
  "fb_mark_ack_eligible f work_id = on_record f work_id (\<lambda>r.
     if or_receipt r = None then Inl NoDurableReceipt else Inr (r\<lparr>or_state := AckEligible\<rparr>))"

text \<open>The synchronous methods.\<close>

definition admit_sync :: "fabric \<Rightarrow> work_item \<Rightarrow> orch_record fabric_result" where
  "admit_sync = fb_admit"

definition commit_receipt_sync :: "fabric \<Rightarrow> string \<Rightarrow> orch_record fabric_result" where
  "commit_receipt_sync = fb_commit_receipt"

definition ack_sync :: "fabric \<Rightarrow> string \<Rightarrow> unit fabric_result" where
  "ack_sync = fb_ack"

inductive fabric_step :: "fabric \<Rightarrow> fabric \<Rightarrow> bool" where
  StAdmit: "fabric_step f (snd (fb_admit f w))"
| StClaim: "fabric_step f (snd (fb_claim f k))"
| StHeartbeat: "fabric_step f (snd (fb_heartbeat f k))"
| StAck: "fabric_step f (snd (fb_ack f k))"
| StDeadLetter: "fabric_step f (snd (fb_dead_letter f k))"
| StExecute: "fabric_step f (snd (fb_execute_backend f k))"
| StCommit: "fabric_step f (snd (fb_commit_receipt f k))"
| StOpen: "fabric_step f (snd (fb_open_phase f k))"
| StEligible: "fabric_step f (snd (fb_mark_ack_eligible f k))"

definition fabric_reachable :: "fabric \<Rightarrow> bool" where
  "fabric_reachable f \<longleftrightarrow> fabric_step\<^sup>*\<^sup>* fabric_default f"

subsection \<open>Invariant\<close>

text \<open>What holds of every record: it is the record of an admitted item under its id, and the states from the
  commit of the receipt on have the durable receipt of this item and its scope.\<close>

definition record_ok :: "string \<Rightarrow> orch_record \<Rightarrow> bool" where
  "record_ok k r \<longleftrightarrow> wi_work_id (or_work_item r) = k \<and> wi_receipt_before_ack (or_work_item r) \<and>
     or_phase_scope r = Some (open_phase_scope (or_work_item r)) \<and>
     authority_guard (open_phase_scope (or_work_item r)) = Inr () \<and>
     (or_receipt r = None \<or> or_receipt r = Some (receipt_for (or_work_item r) (open_phase_scope (or_work_item r)))) \<and>
     (or_state r \<in> {ReceiptCommitted, AckEligible, Acked} \<longrightarrow> or_receipt r \<noteq> None)"

definition fabric_ok :: "fabric \<Rightarrow> bool" where
  "fabric_ok f \<longleftrightarrow> (\<forall>k r. fb_record f k = Some r \<longrightarrow> record_ok k r)"

lemma fb_record_put [simp]: "fb_record (put_record f k r) = (fb_record f)(k \<mapsto> r)"
  by (simp add: fb_record_def put_record_def update_conv' fun_eq_iff)

lemma fb_heartbeats_put [simp]: "fb_heartbeats (put_record f k r) = fb_heartbeats f"
  by (simp add: put_record_def)

lemma fabric_ok_put: "fabric_ok f \<Longrightarrow> record_ok k r \<Longrightarrow> fabric_ok (put_record f k r)"
  by (simp add: fabric_ok_def)

lemma on_record_ok:
  assumes "fabric_ok f" "\<And>r r'. record_ok k r \<Longrightarrow> step r = Inr r' \<Longrightarrow> record_ok k r'"
  shows "fabric_ok (snd (on_record f k step))"
  using assms by (auto simp: on_record_def fabric_ok_def split: option.split sum.split)

lemma fb_ack_snd: "snd (fb_ack f k) = snd (on_record f k (\<lambda>r.
    if or_state r \<in> {ReceiptCommitted, AckEligible} then Inr (r\<lparr>or_state := Acked\<rparr>) else Inl ReceiptNotCommitted))"
  by (simp add: fb_ack_def split: prod.split sum.split)

lemma fabric_step_ok: "fabric_step f f' \<Longrightarrow> fabric_ok f \<Longrightarrow> fabric_ok f'"
proof (induction rule: fabric_step.induct)
  case (StAdmit f w)
  then show ?case
    by (auto simp: fb_admit_def Let_def receipt_before_ack_guard_def record_ok_def split: sum.split
        intro!: fabric_ok_put)
next
  case (StHeartbeat f k)
  then show ?case by (simp add: fb_heartbeat_def fabric_ok_def fb_record_def)
next
  case (StAck f k)
  then show ?case unfolding fb_ack_snd
    by (rule on_record_ok) (auto simp: record_ok_def split: if_splits)
qed (auto simp: fb_claim_def fb_dead_letter_def fb_execute_backend_def fb_commit_receipt_def fb_open_phase_def
    fb_mark_ack_eligible_def record_ok_def intro!: on_record_ok split: if_splits option.splits)

lemma fabric_reachable_ok: "fabric_reachable f \<Longrightarrow> fabric_ok f"
  unfolding fabric_reachable_def
  by (induction rule: rtranclp_induct) (auto simp: fabric_ok_def fabric_default_def fb_record_def dest: fabric_step_ok)


definition sample_item :: work_item where
  "sample_item = \<lparr>wi_schema = [], wi_schema_version = [], wi_work_id = ''w'', wi_run_id = [], wi_phase_id = [],
     wi_canonical_phase = Some ''p'', wi_backend_target = Mlx, wi_island_id = [], wi_input_tensor_ids = [],
     wi_output_tensor_ids = [], wi_authority_mode = Authority, wi_deadline = [], wi_budget_class = Interactive,
     wi_retry_policy = \<lparr>ry_max_retries = 1, ry_backoff_ms = 100\<rparr>, wi_expected_receipts = [],
     wi_receipt_before_ack = True\<rparr>"

lemma admit_sample: "fb_admit fabric_default sample_item =
   (let r = \<lparr>or_work_item = sample_item, or_phase_scope = Some (open_phase_scope sample_item), or_state = Admitted,
      or_receipt = None\<rparr> in (Inr r, put_record fabric_default ''w'' r))"
  by (simp add: fb_admit_def receipt_before_ack_guard_def authority_guard_def sample_item_def open_phase_scope_def)


subsection \<open>What the guards leave open\<close>

text \<open>A receipt does not show that anything ran.  From any state of any admitted item, a dead
  letter or one never claimed included, committing a receipt succeeds, the receipt says that the backend
  executed, and the item is then acknowledged.\<close>

theorem receipt_without_execution:
  assumes "fabric_reachable f" "fb_record f k = Some r"
  shows "\<exists>r1 r2 f1 f2. fb_commit_receipt f k = (Inr r1, f1) \<and> fb_ack f1 k = (Inr (), f2) \<and>
    fb_record f2 k = Some r2 \<and> or_state r2 = Acked \<and> map_option rr_backend_executed (or_receipt r2) = Some True"
proof -
  have "or_phase_scope r = Some (open_phase_scope (or_work_item r))"
    using fabric_reachable_ok [OF assms(1)] assms(2) by (simp add: fabric_ok_def record_ok_def)
  with assms(2) show ?thesis
    by (simp add: fb_commit_receipt_def fb_ack_def on_record_def receipt_for_def)
qed

lemma receipt_without_execution_witness:
  "\<exists>r1 r2 f1 f2. fb_commit_receipt (snd (fb_dead_letter (snd (fb_admit fabric_default sample_item)) ''w'')) ''w'' = (Inr r1, f1) \<and>
    fb_ack f1 ''w'' = (Inr (), f2) \<and> fb_record f2 ''w'' = Some r2 \<and> or_state r2 = Acked \<and>
    map_option rr_backend_executed (or_receipt r2) = Some True"
proof -
  let ?f = "snd (fb_admit fabric_default sample_item)"
  let ?r = "\<lparr>or_work_item = sample_item, or_phase_scope = Some (open_phase_scope sample_item), or_state = DeadLetter,
      or_receipt = None\<rparr>"
  have "fabric_step\<^sup>*\<^sup>* fabric_default ?f" by (intro r_into_rtranclp StAdmit)
  then have "fabric_reachable (snd (fb_dead_letter ?f ''w''))"
    unfolding fabric_reachable_def by (rule rtranclp.rtrancl_into_rtrancl) (rule StDeadLetter)
  moreover have "fb_record (snd (fb_dead_letter ?f ''w'')) ''w'' = Some ?r"
    by (simp add: admit_sample fb_dead_letter_def on_record_def Let_def)
  ultimately show ?thesis by (rule receipt_without_execution)
qed

text \<open>A heartbeat never expires: one heartbeat keeps the item out of the reclaim candidates for ever.\<close>

lemma heartbeats_grow: "fabric_step f f' \<Longrightarrow> fb_heartbeats f \<subseteq> fb_heartbeats f'"
  by (induction rule: fabric_step.induct)
    (auto simp: fb_admit_def Let_def fb_heartbeat_def fb_ack_snd fb_claim_def fb_dead_letter_def fb_execute_backend_def
      fb_commit_receipt_def fb_open_phase_def fb_mark_ack_eligible_def on_record_def split: sum.split option.split)

lemma heartbeat_blocks_reclaim:
  "k \<in> fb_heartbeats f \<Longrightarrow> fabric_step\<^sup>*\<^sup>* f f' \<Longrightarrow> k \<notin> set (reclaim_candidates f')"
proof -
  assume k: "k \<in> fb_heartbeats f" and "fabric_step\<^sup>*\<^sup>* f f'"
  from this(2) have "k \<in> fb_heartbeats f'"
    by (induction rule: rtranclp_induct) (use k heartbeats_grow in blast)+
  then show ?thesis by (auto simp: reclaim_candidates_def)
qed

end
