(* ===== verification/Readiness.thy ===== *)
theory Readiness
  imports Streaming
begin

text \<open>
  The readiness gates of the server (\<open>readiness_gates.rs\<close>): the gate set, the run with a worker process
  (feature \<open>mlx-backend\<close>), which sends one smoke request through the worker's event stream, and the run
  without one.

  The tokenizer's \<open>encode\<close> and the worker's \<open>start_generation\<close> are parameters; a result is the error's
  text or the tokens, respectively the events the stream delivers before it ends.  The request's other fields
  are constants that nothing here reads.
\<close>

datatype gate_status = GatePending | GateRunning | GatePassed | GateFailed | GateSkipped

record readiness_gate =
  rg_name :: string
  rg_status :: gate_status
  rg_elapsed_ms :: "u64 option"
  rg_detail :: "string option"

record readiness_gates =
  rs_gates :: "readiness_gate list"
  rs_ready :: bool

datatype runtime_mode = SafeMode | QualifiedMode | ExperimentalMode

definition new_gate :: "string \<Rightarrow> readiness_gate" where
  "new_gate name = \<lparr>rg_name = name, rg_status = GatePending, rg_elapsed_ms = None, rg_detail = None\<rparr>"

definition gates_new :: readiness_gates where
  "gates_new = \<lparr>rs_gates = map new_gate [''worker_health'', ''tokenizer'', ''smoke_prefill'', ''smoke_decode''],
     rs_ready = False\<rparr>"

definition all_passed :: "readiness_gates \<Rightarrow> bool" where
  "all_passed g \<longleftrightarrow> list_all (\<lambda>x. rg_status x = GatePassed) (rs_gates g)"

text \<open>\<open>iter_mut().find\<close>: the first gate of the name.\<close>

definition update_gate :: "string \<Rightarrow> (readiness_gate \<Rightarrow> readiness_gate) \<Rightarrow> readiness_gates \<Rightarrow> readiness_gates" where
  "update_gate name f g = (case find_idx (\<lambda>x. rg_name x = name) (rs_gates g) of
      None \<Rightarrow> g
    | Some i \<Rightarrow> g\<lparr>rs_gates := (rs_gates g)[i := f (rs_gates g ! i)]\<rparr>)"

definition refresh_ready :: "readiness_gates \<Rightarrow> readiness_gates" where
  "refresh_ready g = g\<lparr>rs_ready := all_passed g\<rparr>"

definition set_gate :: "string \<Rightarrow> bool \<Rightarrow> readiness_gates \<Rightarrow> readiness_gates" where
  "set_gate name passed g = refresh_ready
     (update_gate name (\<lambda>x. x\<lparr>rg_status := (if passed then GatePassed else GateFailed)\<rparr>) g)"

definition set_gate_detail :: "string \<Rightarrow> string option \<Rightarrow> readiness_gates \<Rightarrow> readiness_gates" where
  "set_gate_detail name d g = update_gate name (\<lambda>x. x\<lparr>rg_detail := d\<rparr>) g"

definition skip_gate :: "string \<Rightarrow> readiness_gates \<Rightarrow> readiness_gates" where
  "skip_gate name g = update_gate name (\<lambda>x. x\<lparr>rg_status := GateSkipped\<rparr>) g"

text \<open>The receive loop of the smoke request: an error's message, or whether a valid token came.\<close>

fun smoke_loop :: "bool \<Rightarrow> generation_event list \<Rightarrow> string + bool" where
  "smoke_loop got_token [] = Inr got_token"
| "smoke_loop got_token (e # events) = (case e of
      Token tok \<Rightarrow> smoke_loop (got_token \<or> tok < 128000) events
    | Done \<Rightarrow> Inr got_token
    | Error msg \<Rightarrow> Inl msg
    | _ \<Rightarrow> Inr got_token)"

definition fail_smoke :: "string \<Rightarrow> readiness_gates \<Rightarrow> readiness_gates" where
  "fail_smoke d g = set_gate_detail ''smoke_prefill'' (Some d) (set_gate ''smoke_prefill'' False g)"

text \<open>\<open>run_all\<close> with a worker: whether it is alive and how it answers a smoke request (\<open>None\<close> without
  supervisor), and the tokenizer's \<open>encode\<close> (\<open>None\<close> without tokenizer).\<close>

definition run_all_worker ::
    "(bool \<times> (u32 list \<Rightarrow> string + generation_event list)) option \<Rightarrow> (string \<Rightarrow> string + u32 list) option
      \<Rightarrow> runtime_mode \<Rightarrow> readiness_gates \<Rightarrow> readiness_gates" where
  "run_all_worker supervisor tokenizer mode g = (
     let worker_healthy = (case supervisor of None \<Rightarrow> False | Some (alive, _) \<Rightarrow> alive);
         g = set_gate ''worker_health'' worker_healthy g
     in if \<not> worker_healthy then g
     else
       let has_tokenizer = (tokenizer \<noteq> None \<or> mode = ExperimentalMode);
           g = set_gate ''tokenizer'' has_tokenizer g
       in if \<not> has_tokenizer then g
       else case supervisor of
         None \<Rightarrow> set_gate ''smoke_prefill'' False g
       | Some (_, start_generation) \<Rightarrow> (case tokenizer of
           None \<Rightarrow> set_gate ''smoke_prefill'' False g
         | Some encode \<Rightarrow> (case encode ''Hello'' of
             Inl e \<Rightarrow> fail_smoke (''tokenizer encode failed: '' @ e) g
           | Inr prompt_token_ids \<Rightarrow> (case start_generation prompt_token_ids of
               Inl e \<Rightarrow> fail_smoke (''start_generation failed: '' @ e) g
             | Inr events \<Rightarrow> (case smoke_loop False events of
                 Inl msg \<Rightarrow> fail_smoke (''error: '' @ msg) g
               | Inr True \<Rightarrow> set_gate ''smoke_decode'' True (set_gate ''smoke_prefill'' True g)
               | Inr False \<Rightarrow> fail_smoke ''no valid token received'' g)))))"

text \<open>\<open>run_all\<close> without a worker process.\<close>

definition run_all_cpu :: "bool \<Rightarrow> runtime_mode \<Rightarrow> readiness_gates \<Rightarrow> readiness_gates" where
  "run_all_cpu tokenizer mode g = (
     let g = skip_gate ''worker_health'' g;
         has_tokenizer = (tokenizer \<or> mode = ExperimentalMode);
         g = set_gate ''tokenizer'' has_tokenizer g
     in if \<not> has_tokenizer then refresh_ready g
     else refresh_ready (skip_gate ''smoke_decode'' (skip_gate ''smoke_prefill'' g)))"

subsection \<open>When the server becomes ready\<close>

definition four_gates :: "readiness_gates \<Rightarrow> bool" where
  "four_gates g \<longleftrightarrow> map rg_name (rs_gates g) = [''worker_health'', ''tokenizer'', ''smoke_prefill'', ''smoke_decode'']"

lemma four_gatesE:
  assumes "four_gates g"
  obtains a b c d where "rs_gates g = [a, b, c, d]" "rg_name a = ''worker_health''" "rg_name b = ''tokenizer''"
    "rg_name c = ''smoke_prefill''" "rg_name d = ''smoke_decode''"
  using assms unfolding four_gates_def by (auto simp: map_eq_Cons_conv)

lemmas gate_ops = set_gate_def set_gate_detail_def skip_gate_def fail_smoke_def update_gate_def refresh_ready_def
  all_passed_def

lemma run_all_worker_ready:
  assumes "four_gates g"
  shows "rs_ready (run_all_worker supervisor tokenizer mode g) \<longleftrightarrow>
    (\<exists>start encode toks events. supervisor = Some (True, start) \<and> tokenizer = Some encode \<and>
       encode ''Hello'' = Inr toks \<and> start toks = Inr events \<and> smoke_loop False events = Inr True)"
  using assms
  by (elim four_gatesE) (auto simp: run_all_worker_def Let_def gate_ops split: option.split sum.split bool.split)

lemma run_all_cpu_ready: "four_gates g \<Longrightarrow> \<not> rs_ready (run_all_cpu tokenizer mode g)"
  by (elim four_gatesE) (auto simp: run_all_cpu_def Let_def gate_ops)

text \<open>The tokens before the first event that is no token.\<close>

definition is_token :: "generation_event \<Rightarrow> bool" where
  "is_token e = (case e of Token _ \<Rightarrow> True | _ \<Rightarrow> False)"

definition starts_with_error :: "generation_event list \<Rightarrow> bool" where
  "starts_with_error events = (case events of Error _ # _ \<Rightarrow> True | _ \<Rightarrow> False)"

lemma smoke_loop_iff:
  "smoke_loop got events = Inr True \<longleftrightarrow>
    (got \<or> (\<exists>t < 128000. Token t \<in> set (takeWhile is_token events))) \<and>
    \<not> starts_with_error (dropWhile is_token events)"
proof (induction got events rule: smoke_loop.induct)
  case (2 got e events)
  then show ?case by (cases e) (auto simp: is_token_def starts_with_error_def)
qed (simp add: starts_with_error_def)

text \<open>With a worker the server is ready after the gates have run exactly if the worker is
  alive, a tokenizer is there and encodes the probe, the request starts, and the events of the stream begin with
  tokens, one of them below 128000, and no error follows these at once.\<close>

theorem ready_with_worker_iff:
  assumes "four_gates g"
  shows "rs_ready (run_all_worker supervisor tokenizer mode g) \<longleftrightarrow>
    (\<exists>start encode toks events. supervisor = Some (True, start) \<and> tokenizer = Some encode \<and>
       encode ''Hello'' = Inr toks \<and> start toks = Inr events \<and>
       (\<exists>t < 128000. Token t \<in> set (takeWhile is_token events)) \<and>
       \<not> starts_with_error (dropWhile is_token events))"
  unfolding run_all_worker_ready [OF assms] smoke_loop_iff by blast

lemma gates_new_four: "four_gates gates_new"
  by (simp add: four_gates_def gates_new_def new_gate_def)

lemma ready_with_worker_iff_witness:
  "rs_ready (run_all_worker (Some (True, \<lambda>_. Inr [Token 5, Done])) (Some (\<lambda>_. Inr [1])) SafeMode gates_new)"
  using ready_with_worker_iff [OF gates_new_four, of "Some (True, \<lambda>_. Inr [Token 5, Done])" "Some (\<lambda>_. Inr [1])" SafeMode]
  by (simp add: is_token_def starts_with_error_def)

text \<open>C40: The server never becomes ready.  A stream of events that the sequence validator of the
  streaming module accepts fails the smoke test, because its first event is \<open>Started\<close> or terminal and ends the
  loop; and without a worker process the skipped gates never count as passed.\<close>

theorem valid_streams_never_ready:
  assumes "four_gates g" "\<And>toks events. start toks = Inr events \<Longrightarrow> validate_event_sequence events"
  shows "\<not> rs_ready (run_all_worker (Some (alive, start)) tokenizer mode g) \<and> \<not> rs_ready (run_all_cpu has_tokenizer mode g)"
proof -
  have "takeWhile is_token events = []" if valid: "validate_event_sequence events" for events
    using valid by (cases events) (auto simp: validate_event_sequence_def is_token_def split: generation_event.splits)
  with assms(2) have "\<not> rs_ready (run_all_worker (Some (alive, start)) tokenizer mode g)"
    by (auto simp: run_all_worker_ready [OF assms(1)] smoke_loop_iff)
  with run_all_cpu_ready [OF assms(1)] show ?thesis by blast
qed

lemma valid_streams_never_ready_witness:
  "\<not> rs_ready (run_all_worker (Some (True, \<lambda>_. Inr [Started, Token 5, Done])) (Some (\<lambda>_. Inr [1])) SafeMode gates_new) \<and>
   \<not> rs_ready (run_all_cpu True SafeMode gates_new)"
  by (rule valid_streams_never_ready [OF gates_new_four]) (auto simp: validate_event_sequence_def)

end
