(* ===== verification/SwapRemove.thy ===== *)
theory SwapRemove
  imports Prelude "HOL-Library.Multiset"
begin

text \<open>
  Removal of a vector's element by moving the last one into its place, used by the residency manager and the chunk cache.
\<close>

text \<open>\<open>Vec::swap_remove\<close> for an index in range.\<close>

definition swap_remove :: "nat \<Rightarrow> 'a list \<Rightarrow> 'a list" where
  "swap_remove i xs = butlast (xs[i := last xs])"

lemma mset_swap_remove:
  assumes "i < length xs"
  shows "mset (swap_remove i xs) = mset xs - {#xs ! i#}"
proof -
  obtain ys y where xs: "xs = ys @ [y]" using assms by (cases xs rule: rev_cases) auto
  show ?thesis
  proof (cases "i < length ys")
    case True
    then show ?thesis using xs by (simp add: swap_remove_def nth_append list_update_append mset_update)
  next
    case False
    then have "i = length ys" using assms xs by simp
    then show ?thesis using xs by (simp add: swap_remove_def nth_append list_update_append)
  qed
qed

lemma length_swap_remove [simp]: "length (swap_remove i xs) = length xs - 1"
  by (simp add: swap_remove_def)

lemma sum_list_swap_remove:
  assumes "i < length xs"
  shows "sum_list (map f xs) = sum_list (map f (swap_remove i xs)) + (f (xs ! i) :: nat)"
proof -
  have "mset xs = mset (swap_remove i xs) + {#xs ! i#}" using assms by (simp add: mset_swap_remove)
  then have "sum_mset (image_mset f (mset xs)) = sum_mset (image_mset f (mset (swap_remove i xs))) + f (xs ! i)" by simp
  then show ?thesis by (simp add: sum_mset_sum_list [symmetric] del: mset_map flip: mset_map)
qed

end
