(* ===== verification/Residency.thy ===== *)
theory Residency
  imports SwapRemove
begin

text \<open>
  The residency manager of device segments (\<open>residency.rs\<close>): admission against a byte budget and the
  lifecycle of a segment from prefetch to retirement.  Sizes are words, since the reserve is subtracted with
  saturation.
\<close>

datatype segment_lease_state = LeasePrefetched | LeaseBound | LeaseInFlight | LeaseRetired

record segment_lease =
  sl_lease_segment_id :: string
  sl_byte_size :: u64
  sl_lease_state :: segment_lease_state

definition segment_lease_new :: "string \<Rightarrow> u64 \<Rightarrow> segment_lease_state \<Rightarrow> segment_lease" where
  "segment_lease_new segment_id byte_size st =
     \<lparr>sl_lease_segment_id = segment_id, sl_byte_size = byte_size, sl_lease_state = st\<rparr>"

record residency_manager =
  rm_memory_budget_bytes :: u64
  rm_safety_reserve_bytes :: u64
  rm_active_segments :: "string list"
  rm_prefetched :: "string list"
  rm_bound :: "string list"
  rm_in_flight :: "string option"

definition residency_new :: "u64 \<Rightarrow> u64 \<Rightarrow> residency_manager" where
  "residency_new budget_bytes safety_reserve_bytes = \<lparr>rm_memory_budget_bytes = budget_bytes,
     rm_safety_reserve_bytes = safety_reserve_bytes, rm_active_segments = [], rm_prefetched = [],
     rm_bound = [], rm_in_flight = None\<rparr>"

datatype residency_error = NotPrefetched string | NotBound string | AlreadyInFlight

definition can_admit :: "residency_manager \<Rightarrow> u64 \<Rightarrow> bool" where
  "can_admit m segment_bytes \<longleftrightarrow> segment_bytes \<le> sat_sub (rm_memory_budget_bytes m) (rm_safety_reserve_bytes m)"

definition request_prefetch :: "residency_manager \<Rightarrow> string \<Rightarrow> u64 \<Rightarrow> bool \<times> residency_manager" where
  "request_prefetch m segment_id byte_size = (
     if \<not> can_admit m byte_size then (False, m)
     else (True, m\<lparr>rm_active_segments := rm_active_segments m @ [segment_id],
            rm_prefetched := rm_prefetched m @ [segment_id]\<rparr>))"

definition bind_segment :: "residency_manager \<Rightarrow> string \<Rightarrow> (residency_error + unit) \<times> residency_manager" where
  "bind_segment m segment_id = (case find_idx (\<lambda>x. x = segment_id) (rm_prefetched m) of
      None \<Rightarrow> (Inl (NotPrefetched segment_id), m)
    | Some i \<Rightarrow> (Inr (), m\<lparr>rm_prefetched := swap_remove i (rm_prefetched m),
                         rm_bound := rm_bound m @ [segment_id]\<rparr>))"

definition mark_in_flight :: "residency_manager \<Rightarrow> string \<Rightarrow> (residency_error + unit) \<times> residency_manager" where
  "mark_in_flight m segment_id = (case find_idx (\<lambda>x. x = segment_id) (rm_bound m) of
      None \<Rightarrow> (Inl (NotBound segment_id), m)
    | Some i \<Rightarrow>
        if rm_in_flight m \<noteq> None then (Inl AlreadyInFlight, m)
        else (Inr (), m\<lparr>rm_bound := swap_remove i (rm_bound m), rm_in_flight := Some segment_id\<rparr>))"

definition retire :: "residency_manager \<Rightarrow> string \<Rightarrow> residency_manager" where
  "retire m segment_id = m\<lparr>
     rm_active_segments := filter (\<lambda>x. x \<noteq> segment_id) (rm_active_segments m),
     rm_prefetched := filter (\<lambda>x. x \<noteq> segment_id) (rm_prefetched m),
     rm_bound := filter (\<lambda>x. x \<noteq> segment_id) (rm_bound m),
     rm_in_flight := (if rm_in_flight m = Some segment_id then None else rm_in_flight m)\<rparr>"

definition residency_idle :: "residency_manager \<Rightarrow> bool" where
  "residency_idle m \<longleftrightarrow> rm_bound m = [] \<and> rm_in_flight m = None"

inductive residency_step :: "residency_manager \<Rightarrow> residency_manager \<Rightarrow> bool" where
  RequestPrefetch: "residency_step m (snd (request_prefetch m segment byte_size))"
| BindSegment: "residency_step m (snd (bind_segment m segment))"
| MarkInFlight: "residency_step m (snd (mark_in_flight m segment))"
| Retire: "residency_step m (retire m segment)"

definition residency_reachable :: "u64 \<Rightarrow> u64 \<Rightarrow> residency_manager \<Rightarrow> bool" where
  "residency_reachable budget reserve m \<longleftrightarrow> residency_step\<^sup>*\<^sup>* (residency_new budget reserve) m"

subsection \<open>Every admitted segment is in one stage\<close>

definition in_flight_mset :: "residency_manager \<Rightarrow> string multiset" where
  "in_flight_mset m = (case rm_in_flight m of None \<Rightarrow> {#} | Some x \<Rightarrow> {#x#})"

definition stages_ok :: "residency_manager \<Rightarrow> bool" where
  "stages_ok m \<longleftrightarrow> mset (rm_active_segments m) = mset (rm_prefetched m) + mset (rm_bound m) + in_flight_mset m"

lemma find_idx_eq: "find_idx (\<lambda>x. x = a) xs = Some i \<Longrightarrow> i < length xs \<and> xs ! i = a \<and> a \<in># mset xs"
  using find_idx_Some [of "\<lambda>x. x = a" xs i] by (auto simp: in_set_conv_nth)

lemma stages_step: "residency_step m m' \<Longrightarrow> stages_ok m \<Longrightarrow> stages_ok m'"
proof (induction rule: residency_step.induct)
  case (BindSegment m segment)
  then show ?case
    by (auto simp: stages_ok_def bind_segment_def in_flight_mset_def mset_swap_remove dest!: find_idx_eq split: option.splits)
next
  case (MarkInFlight m segment)
  then show ?case
    by (auto simp: stages_ok_def mark_in_flight_def in_flight_mset_def mset_swap_remove dest!: find_idx_eq split: option.splits)
next
  case (Retire m segment)
  then have "filter_mset (\<lambda>x. x \<noteq> segment) (mset (rm_active_segments m)) =
      filter_mset (\<lambda>x. x \<noteq> segment) (mset (rm_prefetched m) + mset (rm_bound m) + in_flight_mset m)"
    by (simp add: stages_ok_def)
  then show ?case
    by (auto simp: stages_ok_def retire_def in_flight_mset_def mset_filter split: option.splits)
qed (auto simp: stages_ok_def request_prefetch_def in_flight_mset_def)

text \<open>In every reachable residency manager each requested segment that is not retired is in
  exactly one stage: as a multiset, the active segments are the prefetched, the bound and the one in flight;
  the budget and the reserve never change.\<close>

theorem residency_stages:
  assumes "residency_reachable budget reserve m"
  shows "mset (rm_active_segments m) = mset (rm_prefetched m) + mset (rm_bound m) +
      (case rm_in_flight m of None \<Rightarrow> {#} | Some x \<Rightarrow> {#x#})
    \<and> (\<forall>n. can_admit m n \<longleftrightarrow> unat n \<le> unat budget - unat reserve)"
proof -
  have "stages_ok m \<and> rm_memory_budget_bytes m = budget \<and> rm_safety_reserve_bytes m = reserve"
    using assms unfolding residency_reachable_def
  proof (induction rule: rtranclp_induct)
    case base
    then show ?case by (simp add: stages_ok_def residency_new_def in_flight_mset_def)
  next
    case (step m m')
    have "rm_memory_budget_bytes m' = rm_memory_budget_bytes m \<and> rm_safety_reserve_bytes m' = rm_safety_reserve_bytes m"
      using step(2) by cases
        (auto simp: request_prefetch_def bind_segment_def mark_in_flight_def retire_def split: option.split)
    with step stages_step show ?case by metis
  qed
  then show ?thesis
    by (auto simp: stages_ok_def in_flight_mset_def can_admit_def word_le_nat_alt unat_sat_sub)
qed

lemma residency_stages_witness:
  "mset (rm_active_segments (snd (request_prefetch (residency_new 10 2) ''a'' 4))) = {#''a''#} \<and>
   can_admit (snd (request_prefetch (residency_new 10 2) ''a'' 4)) 8"
proof -
  let ?m = "snd (request_prefetch (residency_new 10 2) ''a'' 4)"
  have "residency_reachable 10 2 ?m"
    unfolding residency_reachable_def by (intro r_into_rtranclp RequestPrefetch)
  from residency_stages [OF this] show ?thesis
    by (simp add: request_prefetch_def residency_new_def can_admit_def sat_sub_def)
qed

end
