(* ===== verification/Routing.thy ===== *)
theory Routing
  imports Bytes "HOL-Library.Multiset"
begin

text \<open>
  The boundary plans of \<open>backend/routing.rs\<close>: which backend supports which evaluation policy, the validation
  of a compiled list of execution boundaries against the operation graph, and the sealed content digest.  The
  identifiers are the integers they wrap.  SHA-256 is a parameter, a function from bytes to hex text.
\<close>

type_synonym tensor_id = u64
type_synonym operation_id = u64
type_synonym backend_id = u32
type_synonym evaluation_group_id = u64
type_synonym evidence_digest = string

datatype physical_layout = RowMajor | ColumnMajor | PackedU32 u32 u8 | CustomLayout string

datatype conversion_kind = ConvNone | ConvLayout | DtypeCast | OwnedCopy | SharedReference

record transfer_plan =
  tp_tensor_id :: tensor_id
  tp_source_backend :: backend_id
  tp_destination_backend :: backend_id
  tp_source_layout :: physical_layout
  tp_destination_layout :: physical_layout
  tp_conversion :: conversion_kind
  tp_expected_bytes :: u64
  tp_synchronization_before :: bool
  tp_synchronization_after :: bool

text \<open>The arguments of \<open>Eager\<close> are \<open>release_inputs_after_use\<close> and \<open>prohibit_deferred_nodes\<close>.\<close>

datatype evaluation_policy = BackendLazy | ExplicitRegion | ExplicitOperation | Eager bool bool

datatype evaluation_policy_support = Native | Emulated | Unsupported

definition policy_support :: "backend_id \<Rightarrow> evaluation_policy \<Rightarrow> evaluation_policy_support" where
  "policy_support backend policy = (
     if backend = 0 then
       (case policy of BackendLazy \<Rightarrow> Native | ExplicitRegion \<Rightarrow> Native | ExplicitOperation \<Rightarrow> Native
        | Eager _ _ \<Rightarrow> Emulated)
     else if backend = 1 then
       (case policy of BackendLazy \<Rightarrow> Unsupported | ExplicitRegion \<Rightarrow> Emulated | ExplicitOperation \<Rightarrow> Native
        | Eager _ _ \<Rightarrow> Native)
     else if backend = 2 then
       (case policy of BackendLazy \<Rightarrow> Unsupported | ExplicitRegion \<Rightarrow> Native | ExplicitOperation \<Rightarrow> Unsupported
        | Eager _ _ \<Rightarrow> Unsupported)
     else if backend = 3 then
       (case policy of BackendLazy \<Rightarrow> Unsupported | ExplicitRegion \<Rightarrow> Native | ExplicitOperation \<Rightarrow> Unsupported
        | Eager _ _ \<Rightarrow> Native)
     else Unsupported)"

datatype synchronization_policy = SyncNone | SyncBarrier | SyncStream | SyncDevice

definition is_synchronized :: "synchronization_policy \<Rightarrow> bool" where
  "is_synchronized s \<longleftrightarrow> (case s of SyncNone \<Rightarrow> False | _ \<Rightarrow> True)"

record boundary_plan =
  bp_group_id :: evaluation_group_id
  bp_backend_id :: backend_id
  bp_operations :: "operation_id list"
  bp_materialized_outputs :: "tensor_id list"
  bp_policy :: evaluation_policy
  bp_synchronization :: synchronization_policy
  bp_release_after :: "tensor_id list"
  bp_content_digest :: "evidence_digest option"

record dependency_edge =
  de_from :: operation_id
  de_to :: operation_id
  de_via_tensor :: tensor_id

record validation_context =
  vc_expected_operations :: "operation_id list"
  vc_dependency_edges :: "dependency_edge list"
  vc_transfer_plans :: "transfer_plan list"

datatype plan_validation_error =
    DuplicateOperation operation_id
  | MissingOperation operation_id
  | TopologicalViolation operation_id operation_id
  | UnreferencedMaterializedOutput tensor_id
  | ConsumerBeforeProducer tensor_id operation_id
  | BackendTransitionWithoutTransfer backend_id backend_id
  | EagerWithDeferredDependency operation_id tensor_id evaluation_group_id
  | UnsupportedPolicy backend_id evaluation_policy
  | EmptyBoundary evaluation_group_id

subsection \<open>Validation\<close>

text \<open>The index from operations to boundaries, with the duplicates met on the way.\<close>

definition index_op ::
  "evaluation_group_id \<Rightarrow> operation_id
    \<Rightarrow> plan_validation_error list \<times> (operation_id \<rightharpoonup> evaluation_group_id)
    \<Rightarrow> plan_validation_error list \<times> (operation_id \<rightharpoonup> evaluation_group_id)" where
  "index_op g op s = (case s of (errors, index) \<Rightarrow>
     (if index op \<noteq> None then errors @ [DuplicateOperation op] else errors, index(op \<mapsto> g)))"

definition index_plan ::
  "boundary_plan \<Rightarrow> plan_validation_error list \<times> (operation_id \<rightharpoonup> evaluation_group_id)
    \<Rightarrow> plan_validation_error list \<times> (operation_id \<rightharpoonup> evaluation_group_id)" where
  "index_plan p = fold (index_op (bp_group_id p)) (bp_operations p)"

definition index_plans ::
  "boundary_plan list \<Rightarrow> plan_validation_error list \<times> (operation_id \<rightharpoonup> evaluation_group_id)" where
  "index_plans plans = fold index_plan plans ([], Map.empty)"

definition missing_operations ::
  "(operation_id \<rightharpoonup> evaluation_group_id) \<Rightarrow> operation_id list \<Rightarrow> plan_validation_error list" where
  "missing_operations index expected =
     map MissingOperation (filter (\<lambda>op. index op = None) expected)"

text \<open>The maps \<open>backend_of\<close> and \<open>materialized_outputs\<close> of the code, filled in the order of the plans.\<close>

definition by_group :: "(boundary_plan \<Rightarrow> 'a) \<Rightarrow> boundary_plan list \<Rightarrow> evaluation_group_id \<rightharpoonup> 'a" where
  "by_group f plans = fold (\<lambda>p m. m(bp_group_id p \<mapsto> f p)) plans Map.empty"

definition has_transfer ::
  "transfer_plan list \<Rightarrow> tensor_id \<Rightarrow> backend_id \<Rightarrow> backend_id \<Rightarrow> bool" where
  "has_transfer tps t src dst \<longleftrightarrow> list_ex (\<lambda>tp.
     tp_tensor_id tp = t \<and> tp_source_backend tp = src \<and> tp_destination_backend tp = dst) tps"

definition transition_errors ::
  "(operation_id \<rightharpoonup> evaluation_group_id) \<Rightarrow> (evaluation_group_id \<rightharpoonup> backend_id) \<Rightarrow> transfer_plan list
    \<Rightarrow> dependency_edge \<Rightarrow> plan_validation_error list" where
  "transition_errors index backend_of tps e =
     (case (index (de_from e), index (de_to e)) of
        (Some fg, Some tg) \<Rightarrow>
          (case (backend_of fg, backend_of tg) of
             (Some fb, Some tb) \<Rightarrow>
               if fb \<noteq> tb \<and> \<not> has_transfer tps (de_via_tensor e) fb tb
               then [BackendTransitionWithoutTransfer fb tb] else []
           | _ \<Rightarrow> [])
      | _ \<Rightarrow> [])"

definition prohibits_deferred :: "evaluation_policy \<Rightarrow> bool" where
  "prohibits_deferred policy \<longleftrightarrow> (case policy of Eager _ prohibit \<Rightarrow> prohibit | _ \<Rightarrow> False)"

definition edge_errors ::
  "(operation_id \<rightharpoonup> evaluation_group_id) \<Rightarrow> (evaluation_group_id \<rightharpoonup> tensor_id list) \<Rightarrow> boundary_plan
    \<Rightarrow> dependency_edge \<Rightarrow> plan_validation_error list" where
  "edge_errors index materialized p e = (
     if index (de_from e) \<noteq> Some (bp_group_id p) \<or> index (de_to e) = None
        \<or> index (de_to e) = index (de_from e) then []
     else
       let crossing = EagerWithDeferredDependency (de_from e) (de_via_tensor e) (the (index (de_to e)));
           output_is_materialized = (case materialized (bp_group_id p) of
             Some outputs \<Rightarrow> de_via_tensor e \<in> set outputs | None \<Rightarrow> False) in
       (if de_via_tensor e \<in> set (bp_release_after p) then [crossing] else []) @
       (if prohibits_deferred (bp_policy p) \<and>
           \<not> (output_is_materialized \<and> is_synchronized (bp_synchronization p))
        then [crossing] else []))"

definition plan_errors ::
  "(operation_id \<rightharpoonup> evaluation_group_id) \<Rightarrow> (evaluation_group_id \<rightharpoonup> tensor_id list)
    \<Rightarrow> dependency_edge list \<Rightarrow> boundary_plan \<Rightarrow> plan_validation_error list" where
  "plan_errors index materialized edges p =
     (if bp_operations p = [] then [EmptyBoundary (bp_group_id p)] else []) @
     (case policy_support (bp_backend_id p) (bp_policy p) of
        Unsupported \<Rightarrow> [UnsupportedPolicy (bp_backend_id p) (bp_policy p)] | _ \<Rightarrow> []) @
     concat (map (edge_errors index materialized p) edges)"

definition validation_errors ::
  "boundary_plan list \<Rightarrow> validation_context \<Rightarrow> plan_validation_error list" where
  "validation_errors plans ctx = (
     let (duplicates, index) = index_plans plans in
     duplicates @ missing_operations index (vc_expected_operations ctx) @
     concat (map (transition_errors index (by_group bp_backend_id plans) (vc_transfer_plans ctx))
       (vc_dependency_edges ctx)) @
     concat (map (plan_errors index (by_group bp_materialized_outputs plans) (vc_dependency_edges ctx)) plans))"

definition validate_boundary_plans ::
  "boundary_plan list \<Rightarrow> validation_context \<Rightarrow> plan_validation_error list + unit" where
  "validate_boundary_plans plans ctx = (
     let errors = validation_errors plans ctx in if errors = [] then Inr () else Inl errors)"

subsection \<open>The content digest\<close>

definition policy_bytes :: "evaluation_policy \<Rightarrow> u8 list" where
  "policy_bytes policy = (case policy of
     BackendLazy \<Rightarrow> [0] | ExplicitRegion \<Rightarrow> [1] | ExplicitOperation \<Rightarrow> [2]
   | Eager release prohibit \<Rightarrow> [3, of_bool release, of_bool prohibit])"

definition sync_byte :: "synchronization_policy \<Rightarrow> u8" where
  "sync_byte s = (case s of SyncNone \<Rightarrow> 0 | SyncBarrier \<Rightarrow> 1 | SyncStream \<Rightarrow> 2 | SyncDevice \<Rightarrow> 3)"

definition boundary_bytes :: "boundary_plan \<Rightarrow> u8 list" where
  "boundary_bytes p =
     [1] @ u64_to_le_bytes (bp_group_id p) @ u32_to_le_bytes (bp_backend_id p) @
     counted u64_to_le_bytes (bp_operations p) @ counted u64_to_le_bytes (bp_materialized_outputs p) @
     policy_bytes (bp_policy p) @ [sync_byte (bp_synchronization p)] @
     counted u64_to_le_bytes (bp_release_after p)"

definition compute_boundary_digest :: "(u8 list \<Rightarrow> string) \<Rightarrow> boundary_plan \<Rightarrow> evidence_digest" where
  "compute_boundary_digest sha256 p = sha256 (boundary_bytes p)"

record sealed_plan =
  sp_plan :: boundary_plan
  sp_content_digest :: evidence_digest

definition seal :: "(u8 list \<Rightarrow> string) \<Rightarrow> boundary_plan \<Rightarrow> sealed_plan" where
  "seal sha256 p = \<lparr>sp_plan = p, sp_content_digest = compute_boundary_digest sha256 p\<rparr>"

definition verify :: "(u8 list \<Rightarrow> string) \<Rightarrow> sealed_plan \<Rightarrow> bool" where
  "verify sha256 s \<longleftrightarrow> sp_content_digest s = compute_boundary_digest sha256 (sp_plan s)"


subsection \<open>The index\<close>

lemma fold_index:
  fixes s :: "plan_validation_error list \<times> (operation_id \<rightharpoonup> evaluation_group_id)"
  shows "snd (fold (\<lambda>(op, g). index_op g op) ps s) = snd s ++ map_of (rev ps) \<and>
    (fst (fold (\<lambda>(op, g). index_op g op) ps s) = [] \<longleftrightarrow>
      fst s = [] \<and> distinct (map fst ps) \<and> (\<forall>op \<in> fst ` set ps. snd s op = None))"
proof (induction ps arbitrary: s)
  case (Cons x ps)
  obtain op g where x: "x = (op, g)" by force
  have "snd (index_op g op s) = (snd s)(op \<mapsto> g)"
    "fst (index_op g op s) = [] \<longleftrightarrow> fst s = [] \<and> snd s op = None"
    by (simp_all add: index_op_def split: prod.splits)
  with Cons.IH [of "index_op g op s"] show ?case
    by (auto simp: x map_add_def fun_eq_iff split: option.splits)
qed simp

definition op_pairs :: "boundary_plan list \<Rightarrow> (operation_id \<times> evaluation_group_id) list" where
  "op_pairs plans = concat (map (\<lambda>p. map (\<lambda>op. (op, bp_group_id p)) (bp_operations p)) plans)"

lemma op_pairs_simps [simp]:
  "op_pairs [] = []"
  "op_pairs (p # plans) = map (\<lambda>op. (op, bp_group_id p)) (bp_operations p) @ op_pairs plans"
  "map fst (op_pairs plans) = concat (map bp_operations plans)"
  by (simp_all add: op_pairs_def map_concat comp_def)

lemma set_op_pairs: "(op, g) \<in> set (op_pairs plans) \<longleftrightarrow>
    (\<exists>p \<in> set plans. op \<in> set (bp_operations p) \<and> g = bp_group_id p)"
  by (auto simp: op_pairs_def)

lemma index_plans_pairs:
  "fold index_plan plans s = fold (\<lambda>(op, g). index_op g op) (op_pairs plans) s"
  by (induction plans arbitrary: s) (simp_all add: index_plan_def fold_map comp_def)

lemma duplicates_iff: "fst (index_plans plans) = [] \<longleftrightarrow> distinct (concat (map bp_operations plans))"
  using fold_index [of "op_pairs plans" "([], Map.empty)"]
  by (simp add: index_plans_def index_plans_pairs)

lemma index_map_of: "snd (index_plans plans) = map_of (rev (op_pairs plans))"
  using fold_index [of "op_pairs plans" "([], Map.empty)"]
  by (simp add: index_plans_def index_plans_pairs)

lemma index_None_iff:
  "snd (index_plans plans) op = None \<longleftrightarrow> (\<forall>p \<in> set plans. op \<notin> set (bp_operations p))"
  by (force simp: index_map_of map_of_eq_None_iff op_pairs_def)

lemma index_Some_iff:
  assumes "distinct (concat (map bp_operations plans))"
  shows "snd (index_plans plans) op = Some g \<longleftrightarrow>
    (\<exists>p \<in> set plans. op \<in> set (bp_operations p) \<and> g = bp_group_id p)"
proof -
  have "distinct (map fst (rev (op_pairs plans)))"
    using assms by (simp add: rev_map [symmetric])
  then show ?thesis
    by (simp add: index_map_of set_op_pairs)
qed

lemma by_group_map_of:
  "fold (\<lambda>p m. m(bp_group_id p \<mapsto> f p)) plans m = m ++ map_of (rev (map (\<lambda>p. (bp_group_id p, f p)) plans))"
  by (induction plans arbitrary: m) (simp_all add: map_add_upd_left)

lemma by_group_eq:
  assumes "distinct (map bp_group_id plans)" "p \<in> set plans"
  shows "by_group f plans (bp_group_id p) = Some (f p)"
proof -
  have "distinct (map fst (rev (map (\<lambda>p. (bp_group_id p, f p)) plans)))"
    using assms(1) by (simp add: rev_map [symmetric] comp_def)
  then show ?thesis
    using assms(2) by (auto simp: by_group_def by_group_map_of)
qed


subsection \<open>What is accepted\<close>

text \<open>The contract of a list of boundaries, in terms of the plans only.\<close>

definition edge_ok :: "validation_context \<Rightarrow> dependency_edge \<Rightarrow> boundary_plan \<Rightarrow> boundary_plan \<Rightarrow> bool" where
  "edge_ok ctx e p q \<longleftrightarrow>
     (bp_backend_id p \<noteq> bp_backend_id q \<longrightarrow>
        has_transfer (vc_transfer_plans ctx) (de_via_tensor e) (bp_backend_id p) (bp_backend_id q)) \<and>
     (bp_group_id p \<noteq> bp_group_id q \<longrightarrow>
        de_via_tensor e \<notin> set (bp_release_after p) \<and>
        (prohibits_deferred (bp_policy p) \<longrightarrow>
           de_via_tensor e \<in> set (bp_materialized_outputs p) \<and> bp_synchronization p \<noteq> SyncNone))"

definition boundaries_ok :: "boundary_plan list \<Rightarrow> validation_context \<Rightarrow> bool" where
  "boundaries_ok plans ctx \<longleftrightarrow>
     distinct (concat (map bp_operations plans)) \<and>
     (\<forall>op \<in> set (vc_expected_operations ctx). \<exists>p \<in> set plans. op \<in> set (bp_operations p)) \<and>
     (\<forall>p \<in> set plans. bp_operations p \<noteq> [] \<and> policy_support (bp_backend_id p) (bp_policy p) \<noteq> Unsupported) \<and>
     (\<forall>e \<in> set (vc_dependency_edges ctx). \<forall>p \<in> set plans. \<forall>q \<in> set plans.
        de_from e \<in> set (bp_operations p) \<longrightarrow> de_to e \<in> set (bp_operations q) \<longrightarrow> edge_ok ctx e p q)"

lemma is_synchronized_iff [simp]: "is_synchronized s \<longleftrightarrow> s \<noteq> SyncNone"
  by (cases s) (simp_all add: is_synchronized_def)

lemma missing_iff: "missing_operations (snd (index_plans plans)) expected = [] \<longleftrightarrow>
    (\<forall>op \<in> set expected. \<exists>p \<in> set plans. op \<in> set (bp_operations p))"
  by (simp add: missing_operations_def filter_empty_conv index_None_iff)

lemma transition_iff:
  assumes ops: "distinct (concat (map bp_operations plans))" and gids: "distinct (map bp_group_id plans)"
  shows "transition_errors (snd (index_plans plans)) (by_group bp_backend_id plans) tps e = [] \<longleftrightarrow>
    (\<forall>p \<in> set plans. \<forall>q \<in> set plans. de_from e \<in> set (bp_operations p) \<longrightarrow> de_to e \<in> set (bp_operations q) \<longrightarrow>
       bp_backend_id p \<noteq> bp_backend_id q \<longrightarrow>
       has_transfer tps (de_via_tensor e) (bp_backend_id p) (bp_backend_id q))"
proof (cases "snd (index_plans plans) (de_from e) = None \<or> snd (index_plans plans) (de_to e) = None")
  case True
  then have "transition_errors (snd (index_plans plans)) (by_group bp_backend_id plans) tps e = []"
    by (auto simp: transition_errors_def split: option.splits)
  with True show ?thesis by (auto simp: index_None_iff)
next
  case False
  then obtain p q where p: "p \<in> set plans" "de_from e \<in> set (bp_operations p)"
      "snd (index_plans plans) (de_from e) = Some (bp_group_id p)"
    and q: "q \<in> set plans" "de_to e \<in> set (bp_operations q)"
      "snd (index_plans plans) (de_to e) = Some (bp_group_id q)"
    using index_Some_iff [OF ops] by (metis not_None_eq)
  have unique: "p' = p" if "p' \<in> set plans" "op \<in> set (bp_operations p')" "op \<in> set (bp_operations p)" "p \<in> set plans"
    for p p' op
  proof -
    have "Some (bp_group_id p') = Some (bp_group_id p)"
      using that index_Some_iff [OF ops] by metis
    then show "p' = p" using gids that by (auto simp: distinct_map inj_on_def)
  qed
  have "by_group bp_backend_id plans (bp_group_id p) = Some (bp_backend_id p)"
    "by_group bp_backend_id plans (bp_group_id q) = Some (bp_backend_id q)"
    using by_group_eq [OF gids] p q by auto
  then have "transition_errors (snd (index_plans plans)) (by_group bp_backend_id plans) tps e = [] \<longleftrightarrow>
      (bp_backend_id p \<noteq> bp_backend_id q \<longrightarrow>
       has_transfer tps (de_via_tensor e) (bp_backend_id p) (bp_backend_id q))"
    using p q by (simp add: transition_errors_def)
  with p q unique show ?thesis by blast
qed

lemma edge_errors_iff:
  assumes ops: "distinct (concat (map bp_operations plans))" and gids: "distinct (map bp_group_id plans)"
    and p: "p \<in> set plans"
  shows "edge_errors (snd (index_plans plans)) (by_group bp_materialized_outputs plans) p e = [] \<longleftrightarrow>
    (\<forall>q \<in> set plans. de_from e \<in> set (bp_operations p) \<longrightarrow> de_to e \<in> set (bp_operations q) \<longrightarrow>
       bp_group_id p \<noteq> bp_group_id q \<longrightarrow>
       de_via_tensor e \<notin> set (bp_release_after p) \<and>
       (prohibits_deferred (bp_policy p) \<longrightarrow>
          de_via_tensor e \<in> set (bp_materialized_outputs p) \<and> bp_synchronization p \<noteq> SyncNone))"
    (is "?lhs \<longleftrightarrow> (\<forall>q \<in> set plans. _ \<longrightarrow> _ \<longrightarrow> _ \<longrightarrow> ?ok)")
proof -
  let ?ix = "snd (index_plans plans)"
  have from_iff: "?ix (de_from e) = Some (bp_group_id p) \<longleftrightarrow> de_from e \<in> set (bp_operations p)"
    using index_Some_iff [OF ops] gids p by (auto simp: distinct_map inj_on_def)
  have lhs: "?lhs \<longleftrightarrow> (?ix (de_from e) \<noteq> Some (bp_group_id p) \<or> ?ix (de_to e) = None
      \<or> ?ix (de_to e) = ?ix (de_from e) \<or> ?ok)"
    using by_group_eq [OF gids p, of bp_materialized_outputs] by (auto simp: edge_errors_def Let_def)
  show ?thesis
  proof (cases "?ix (de_to e)")
    case None
    then show ?thesis using lhs by (simp add: index_None_iff)
  next
    case (Some g)
    then obtain q where q: "q \<in> set plans" "de_to e \<in> set (bp_operations q)" "g = bp_group_id q"
      using index_Some_iff [OF ops] by blast
    have "bp_group_id q' = g" if "q' \<in> set plans" "de_to e \<in> set (bp_operations q')" for q'
      using index_Some_iff [OF ops, of "de_to e" "bp_group_id q'"] Some that by auto
    with q Some lhs from_iff show ?thesis by auto
  qed
qed

lemma plan_errors_iff: "plan_errors index materialized edges p = [] \<longleftrightarrow>
    bp_operations p \<noteq> [] \<and> policy_support (bp_backend_id p) (bp_policy p) \<noteq> Unsupported \<and>
    (\<forall>e \<in> set edges. edge_errors index materialized p e = [])"
  by (cases "policy_support (bp_backend_id p) (bp_policy p)") (simp_all add: plan_errors_def)

lemma validation_errors_iff:
  assumes "distinct (map bp_group_id plans)"
  shows "validation_errors plans ctx = [] \<longleftrightarrow> boundaries_ok plans ctx"
proof (cases "distinct (concat (map bp_operations plans))")
  case False
  then have "fst (index_plans plans) \<noteq> []" by (simp add: duplicates_iff)
  with False show ?thesis
    by (auto simp: validation_errors_def boundaries_ok_def split: prod.splits)
next
  case True
  have "validation_errors plans ctx = [] \<longleftrightarrow>
      missing_operations (snd (index_plans plans)) (vc_expected_operations ctx) = [] \<and>
      (\<forall>e \<in> set (vc_dependency_edges ctx).
         transition_errors (snd (index_plans plans)) (by_group bp_backend_id plans) (vc_transfer_plans ctx) e = []) \<and>
      (\<forall>p \<in> set plans. plan_errors (snd (index_plans plans)) (by_group bp_materialized_outputs plans)
         (vc_dependency_edges ctx) p = [])"
    using True by (auto simp: validation_errors_def duplicates_iff [symmetric] split: prod.splits)
  also have "\<dots> \<longleftrightarrow> boundaries_ok plans ctx"
    using True
    unfolding boundaries_ok_def edge_ok_def missing_iff transition_iff [OF True assms] plan_errors_iff
    by (simp add: edge_errors_iff [OF True assms] cong: ball_cong) blast
  finally show ?thesis .
qed


text \<open>For plans whose group identifiers are distinct, validation succeeds exactly if every operation
  occurs once, every expected operation occurs, no boundary is empty or has a policy its backend does not support,
  every dependency between backends has a transfer of its tensor, no boundary releases a tensor another one
  consumes, and an eager boundary that prohibits deferred nodes materialises and synchronises such tensors.\<close>

theorem validate_boundary_plans_iff:
  "distinct (map bp_group_id plans) \<Longrightarrow>
    validate_boundary_plans plans ctx = Inr () \<longleftrightarrow> boundaries_ok plans ctx"
  by (simp add: validate_boundary_plans_def Let_def validation_errors_iff)

lemma validate_boundary_plans_iff_witness:
  "validate_boundary_plans
     [\<lparr>bp_group_id = 7, bp_backend_id = 0, bp_operations = [1], bp_materialized_outputs = [],
       bp_policy = BackendLazy, bp_synchronization = SyncNone, bp_release_after = [], bp_content_digest = None\<rparr>]
     \<lparr>vc_expected_operations = [1], vc_dependency_edges = [], vc_transfer_plans = []\<rparr> = Inr ()"
  by (subst validate_boundary_plans_iff) (simp_all add: boundaries_ok_def policy_support_def)

lemma mset_concat_map: "mset (concat (map f xs)) = \<Sum>\<^sub># (image_mset (\<lambda>x. mset (f x)) (mset xs))"
  by (induction xs) simp_all

lemma boundaries_ok_mset:
  assumes "mset qs = mset ps"
  shows "boundaries_ok qs ctx \<longleftrightarrow> boundaries_ok ps ctx"
proof -
  have "mset (concat (map bp_operations qs)) = mset (concat (map bp_operations ps))"
    using assms by (simp add: mset_concat_map)
  then have "distinct (concat (map bp_operations qs)) = distinct (concat (map bp_operations ps))"
    by (metis mset_eq_imp_distinct_iff)
  with mset_eq_setD [OF assms] show ?thesis by (simp add: boundaries_ok_def)
qed

text \<open>The errors the type provides for a wrong order.\<close>

fun is_order_error :: "plan_validation_error \<Rightarrow> bool" where
  "is_order_error (TopologicalViolation _ _) = True"
| "is_order_error (UnreferencedMaterializedOutput _) = True"
| "is_order_error (ConsumerBeforeProducer _ _) = True"
| "is_order_error _ = False"

lemma fold_index_no_order:
  "\<forall>err \<in> set (fst s). \<not> is_order_error err \<Longrightarrow>
    \<forall>err \<in> set (fst (fold (\<lambda>(op, g). index_op g op) ps s)). \<not> is_order_error err"
proof (induction ps arbitrary: s)
  case (Cons x ps)
  have "\<forall>err \<in> set (fst (index_op (snd x) (fst x) s)). \<not> is_order_error err"
    using Cons.prems by (auto simp: index_op_def split: prod.splits if_splits)
  from Cons.IH [OF this] show ?case by (simp add: case_prod_beta)
qed simp

lemma transition_no_order: "err \<in> set (transition_errors ix bo tps e) \<Longrightarrow> \<not> is_order_error err"
  by (auto simp: transition_errors_def split: option.splits if_splits)

lemma edge_no_order: "err \<in> set (edge_errors ix mo p e) \<Longrightarrow> \<not> is_order_error err"
  by (auto simp: edge_errors_def Let_def split: if_splits)

lemma plan_no_order: "err \<in> set (plan_errors ix mo es p) \<Longrightarrow> \<not> is_order_error err"
  by (auto simp: plan_errors_def dest: edge_no_order split: evaluation_policy_support.splits if_splits)

lemma no_order_errors: "\<forall>err \<in> set (validation_errors plans ctx). \<not> is_order_error err"
proof -
  have "\<forall>err \<in> set (fst (index_plans plans)). \<not> is_order_error err"
    using fold_index_no_order [of "([], Map.empty)"] by (simp add: index_plans_def index_plans_pairs)
  then show ?thesis
    unfolding validation_errors_def case_prod_beta Let_def
    by (auto simp: missing_operations_def dest: transition_no_order plan_no_order)
qed

text \<open>The order of the boundaries is not looked at: any permutation of accepted plans is accepted, also one
  that runs a consumer before its producer.  What the plan type promises about topological order is not checked,
  and its errors for it are never reported.\<close>

theorem validation_ignores_order:
  assumes "distinct (map bp_group_id ps)" and "mset qs = mset ps"
  shows "(validate_boundary_plans qs ctx = Inr ()) = (validate_boundary_plans ps ctx = Inr ()) \<and>
    (\<forall>errors. validate_boundary_plans ps ctx = Inl errors \<longrightarrow> (\<forall>err \<in> set errors. \<not> is_order_error err))"
proof -
  have "distinct (map bp_group_id qs)"
    using assms by (metis mset_eq_imp_distinct_iff mset_map)
  with assms boundaries_ok_mset [OF assms(2)] no_order_errors [of ps ctx] show ?thesis
    by (simp add: validate_boundary_plans_def Let_def validation_errors_iff)
qed

text \<open>Operation 1 produces the tensor that operation 2 consumes; the boundaries are given in the wrong order.\<close>

lemma validation_ignores_order_witness:
  "let p = \<lparr>bp_group_id = 0, bp_backend_id = 0, bp_operations = [1], bp_materialized_outputs = [],
         bp_policy = ExplicitOperation, bp_synchronization = SyncNone, bp_release_after = [],
         bp_content_digest = None\<rparr>;
       q = p\<lparr>bp_group_id := 1, bp_operations := [2]\<rparr>;
       ctx = \<lparr>vc_expected_operations = [1, 2],
         vc_dependency_edges = [\<lparr>de_from = 1, de_to = 2, de_via_tensor = 9\<rparr>], vc_transfer_plans = []\<rparr>
   in validate_boundary_plans [q, p] ctx = Inr ()"
  unfolding Let_def
  by (subst conjunct1 [OF validation_ignores_order
        [where ps = "[\<lparr>bp_group_id = 0, bp_backend_id = 0, bp_operations = [1], bp_materialized_outputs = [],
           bp_policy = ExplicitOperation, bp_synchronization = SyncNone, bp_release_after = [],
           bp_content_digest = None\<rparr>,
           \<lparr>bp_group_id = 1, bp_backend_id = 0, bp_operations = [2], bp_materialized_outputs = [],
           bp_policy = ExplicitOperation, bp_synchronization = SyncNone, bp_release_after = [],
           bp_content_digest = None\<rparr>]"]])
    (simp_all add: add_mset_commute validate_boundary_plans_def Let_def validation_errors_iff boundaries_ok_def
      edge_ok_def prohibits_deferred_def policy_support_def)

text \<open>Two boundaries on different backends that share a group identifier: the transfer of the tensor between them
  is not asked for, because the map from groups to backends keeps the last one.\<close>

lemma shared_group_id_hides_transfer:
  "let p = \<lparr>bp_group_id = 0, bp_backend_id = 0, bp_operations = [1], bp_materialized_outputs = [],
         bp_policy = ExplicitOperation, bp_synchronization = SyncNone, bp_release_after = [],
         bp_content_digest = None\<rparr>;
       q = p\<lparr>bp_backend_id := 1, bp_operations := [2]\<rparr>;
       ctx = \<lparr>vc_expected_operations = [1, 2],
         vc_dependency_edges = [\<lparr>de_from = 1, de_to = 2, de_via_tensor = 9\<rparr>], vc_transfer_plans = []\<rparr>
   in validate_boundary_plans [p, q] ctx = Inr () \<and>
      validate_boundary_plans [p, q\<lparr>bp_group_id := 1\<rparr>] ctx = Inl [BackendTransitionWithoutTransfer 0 1]"
  by (simp add: Let_def validate_boundary_plans_def validation_errors_def index_plans_def index_plan_def index_op_def
      missing_operations_def by_group_def transition_errors_def has_transfer_def plan_errors_def edge_errors_def
      policy_support_def prohibits_deferred_def)


subsection \<open>What the digest identifies\<close>

lemma policy_bytes_prefix: "prefix_code UNIV policy_bytes"
  unfolding prefix_code_def
proof (intro ballI allI impI)
  fix x y s t assume "policy_bytes x @ s = policy_bytes y @ t"
  then show "x = y \<and> s = t"
    by (cases x; cases y) (auto simp: policy_bytes_def of_bool_def split: if_splits)
qed

lemma sync_byte_inject: "sync_byte x = sync_byte y \<Longrightarrow> x = y"
  by (cases x; cases y) (simp_all add: sync_byte_def)

text \<open>The counts are cast to 32 bits, so the encoding is injective while they fit.\<close>

definition counts_fit :: "boundary_plan \<Rightarrow> bool" where
  "counts_fit p \<longleftrightarrow> length (bp_operations p) < 2 ^ 32 \<and> length (bp_materialized_outputs p) < 2 ^ 32 \<and>
     length (bp_release_after p) < 2 ^ 32"

lemma counted_ids:
  "counted u64_to_le_bytes xs @ s = counted u64_to_le_bytes ys @ t \<Longrightarrow>
    length xs < 2 ^ 32 \<Longrightarrow> length ys < 2 ^ 32 \<Longrightarrow> xs = ys \<and> s = t"
  using prefix_codeD [OF prefix_code_counted [OF prefix_code_u64], of xs s ys t] by simp

lemma counts_fitD:
  "counts_fit p \<Longrightarrow> length (bp_operations p) < 2 ^ 32"
  "counts_fit p \<Longrightarrow> length (bp_materialized_outputs p) < 2 ^ 32"
  "counts_fit p \<Longrightarrow> length (bp_release_after p) < 2 ^ 32"
  by (simp_all add: counts_fit_def)

lemma boundary_bytes_inject:
  assumes fit: "counts_fit p" "counts_fit q" and eq: "boundary_bytes p = boundary_bytes q"
  shows "p\<lparr>bp_content_digest := None\<rparr> = q\<lparr>bp_content_digest := None\<rparr>"
proof -
  have head: "bp_group_id p = bp_group_id q" "bp_backend_id p = bp_backend_id q"
    and r0: "counted u64_to_le_bytes (bp_operations p) @ counted u64_to_le_bytes (bp_materialized_outputs p) @
        policy_bytes (bp_policy p) @ [sync_byte (bp_synchronization p)] @ counted u64_to_le_bytes (bp_release_after p) =
      counted u64_to_le_bytes (bp_operations q) @ counted u64_to_le_bytes (bp_materialized_outputs q) @
        policy_bytes (bp_policy q) @ [sync_byte (bp_synchronization q)] @ counted u64_to_le_bytes (bp_release_after q)"
    using eq by (simp_all add: boundary_bytes_def)
  note o = counted_ids [OF r0 counts_fitD(1) [OF fit(1)] counts_fitD(1) [OF fit(2)]]
  note m = counted_ids [OF conjunct2 [OF o] counts_fitD(2) [OF fit(1)] counts_fitD(2) [OF fit(2)]]
  note pol = prefix_codeD [OF policy_bytes_prefix conjunct2 [OF m] UNIV_I UNIV_I]
  have sync: "bp_synchronization p = bp_synchronization q"
    and r3: "counted u64_to_le_bytes (bp_release_after p) @ [] = counted u64_to_le_bytes (bp_release_after q) @ []"
    using pol by (auto intro: sync_byte_inject)
  note rel = counted_ids [OF r3 counts_fitD(3) [OF fit(1)] counts_fitD(3) [OF fit(2)]]
  show ?thesis
    using head o m pol sync rel by (intro boundary_plan.equality) simp_all
qed

text \<open>A sealed plan verifies; the digest of one plan verifies another plan only if both agree in every field
  but the embedded digest, or their encodings are a collision of the hash function.\<close>

theorem seal_identifies_plan:
  assumes "counts_fit p" and "counts_fit q"
  shows "verify sha256 (seal sha256 p) \<and>
    (verify sha256 \<lparr>sp_plan = q, sp_content_digest = sp_content_digest (seal sha256 p)\<rparr> \<longleftrightarrow>
      p\<lparr>bp_content_digest := None\<rparr> = q\<lparr>bp_content_digest := None\<rparr> \<or>
      boundary_bytes p \<noteq> boundary_bytes q \<and> sha256 (boundary_bytes p) = sha256 (boundary_bytes q))"
proof -
  have "boundary_bytes p = boundary_bytes (p\<lparr>bp_content_digest := None\<rparr>)" for p
    by (simp add: boundary_bytes_def)
  then have "p\<lparr>bp_content_digest := None\<rparr> = q\<lparr>bp_content_digest := None\<rparr> \<Longrightarrow> boundary_bytes p = boundary_bytes q"
    by metis
  with boundary_bytes_inject [OF assms] have "p\<lparr>bp_content_digest := None\<rparr> = q\<lparr>bp_content_digest := None\<rparr> \<longleftrightarrow> boundary_bytes p = boundary_bytes q"
    by blast
  then show ?thesis
    unfolding verify_def seal_def compute_boundary_digest_def sealed_plan.select_convs by metis
qed

text \<open>With a hash function that only counts, two plans that differ in their policy alone, which the shortest
  encodings tell apart.\<close>

lemma seal_identifies_plan_witness:
  "let p = \<lparr>bp_group_id = 0, bp_backend_id = 0, bp_operations = [1], bp_materialized_outputs = [],
         bp_policy = BackendLazy, bp_synchronization = SyncNone, bp_release_after = [], bp_content_digest = None\<rparr>;
       sha = (\<lambda>bs. map (\<lambda>b. if b = 0 then CHR ''0'' else CHR ''1'') bs)
   in verify sha (seal sha p) \<and>
      \<not> verify sha \<lparr>sp_plan = p\<lparr>bp_policy := ExplicitRegion\<rparr>, sp_content_digest = sp_content_digest (seal sha p)\<rparr>"
  unfolding Let_def
  by (rule conjI, rule conjunct1 [OF seal_identifies_plan [where q = "\<lparr>bp_group_id = 0, bp_backend_id = 0,
      bp_operations = [], bp_materialized_outputs = [], bp_policy = BackendLazy, bp_synchronization = SyncNone,
      bp_release_after = [], bp_content_digest = None\<rparr>"]], simp_all add: counts_fit_def verify_def seal_def
      compute_boundary_digest_def boundary_bytes_def policy_bytes_def)

end
