(* ===== verification/TensorRegistry.thy ===== *)
theory TensorRegistry
  imports Routing "HOL-Library.AList"
begin

text \<open>
  The logical tensor registry of \<open>backend/tensor_registry.rs\<close>: tensors with one materialization per backend, an
  authoritative backend and a version.  The map of materializations is an association list whose order stands
  for the unspecified order of the hash map.  The counters are natural numbers.
\<close>

datatype backend_dtype = F32 | F16 | BF16 | I8 | U8 | I32 | U32

datatype tensor_mutability = Immutable | Mutable | Ephemeral

datatype tensor_role = Weight | Activation | KvCacheRole | Residual | Gradient | Scratch | Output

record tensor_contract =
  tc_logical_shape :: "u32 list"
  tc_canonical_dtype :: backend_dtype
  tc_mutability :: tensor_mutability
  tc_role :: tensor_role

datatype materialization_state = Fresh | Stale | Pending

record materialization_record =
  mr_materialization_id :: nat
  mr_backend_id :: backend_id
  mr_tensor_version :: nat
  mr_physical_shape :: "u32 list"
  mr_physical_layout :: physical_layout
  mr_dtype :: backend_dtype
  mr_state :: materialization_state
  mr_backend_handle :: u64

record materialized_tensor =
  mt_tensor_id :: tensor_id
  mt_contract :: tensor_contract
  mt_authoritative_backend :: backend_id
  mt_version :: nat
  mt_materializations :: "(backend_id \<times> materialization_record) list"

definition mt_new :: "tensor_id \<Rightarrow> tensor_contract \<Rightarrow> backend_id \<Rightarrow> materialized_tensor" where
  "mt_new tid contract backend = \<lparr>mt_tensor_id = tid, mt_contract = contract,
     mt_authoritative_backend = backend, mt_version = 0, mt_materializations = []\<rparr>"

definition is_fresh :: "materialized_tensor \<Rightarrow> backend_id \<Rightarrow> bool" where
  "is_fresh t b = (case map_of (mt_materializations t) b of
     Some r \<Rightarrow> mr_state r = Fresh \<and> mr_tensor_version r = mt_version t | None \<Rightarrow> False)"

definition get_handle :: "materialized_tensor \<Rightarrow> backend_id \<Rightarrow> u64 option" where
  "get_handle t b = (if is_fresh t b then map_option mr_backend_handle (map_of (mt_materializations t) b) else None)"

definition materialization_count :: "materialized_tensor \<Rightarrow> nat" where
  "materialization_count t = length (mt_materializations t)"

datatype registry_error =
    AlreadyRegistered tensor_id
  | TensorNotFound tensor_id
  | DtypeMismatch backend_dtype backend_dtype tensor_id
  | RankMismatch nat nat
  | ImmutableTensor tensor_id tensor_role

definition validate_materialization ::
  "materialized_tensor \<Rightarrow> backend_dtype \<Rightarrow> u32 list \<Rightarrow> registry_error + unit" where
  "validate_materialization t dtype shape = (
     if dtype \<noteq> tc_canonical_dtype (mt_contract t)
     then Inl (DtypeMismatch dtype (tc_canonical_dtype (mt_contract t)) (mt_tensor_id t))
     else if length shape \<noteq> length (tc_logical_shape (mt_contract t))
     then Inl (RankMismatch (length shape) (length (tc_logical_shape (mt_contract t))))
     else Inr ())"

definition fresh_record ::
  "nat \<Rightarrow> materialized_tensor \<Rightarrow> backend_id \<Rightarrow> u64 \<Rightarrow> u32 list \<Rightarrow> physical_layout \<Rightarrow> backend_dtype
    \<Rightarrow> materialization_record" where
  "fresh_record mid t b handle shape layout dtype =
     \<lparr>mr_materialization_id = mid, mr_backend_id = b, mr_tensor_version = mt_version t,
      mr_physical_shape = shape, mr_physical_layout = layout, mr_dtype = dtype, mr_state = Fresh,
      mr_backend_handle = handle\<rparr>"

text \<open>\<open>MaterializedTensor::add_materialization\<close>: the new tensor, the advanced sequence and the record.\<close>

definition mt_add_materialization ::
  "materialized_tensor \<Rightarrow> nat \<Rightarrow> backend_id \<Rightarrow> u64 \<Rightarrow> u32 list \<Rightarrow> physical_layout \<Rightarrow> backend_dtype
    \<Rightarrow> registry_error + materialized_tensor \<times> nat \<times> materialization_record" where
  "mt_add_materialization t sq b handle shape layout dtype =
     (case validate_materialization t dtype shape of
        Inl e \<Rightarrow> Inl e
      | Inr _ \<Rightarrow>
          let r = fresh_record sq t b handle shape layout dtype in
          Inr (t\<lparr>mt_materializations := AList.update b r (mt_materializations t)\<rparr>, sq + 1, r))"

definition prepare_transition ::
  "materialized_tensor \<Rightarrow> backend_id \<Rightarrow> backend_dtype \<Rightarrow> u32 list \<Rightarrow> registry_error + unit" where
  "prepare_transition t b dtype shape = (
     if tc_mutability (mt_contract t) = Immutable
     then Inl (ImmutableTensor (mt_tensor_id t) (tc_role (mt_contract t)))
     else validate_materialization t dtype shape)"

record transition_receipt =
  tr_tensor_id :: tensor_id
  tr_previous_version :: nat
  tr_new_version :: nat
  tr_previous_authority :: backend_id
  tr_new_authority :: backend_id
  tr_previous_authoritative :: "materialization_record option"
  tr_replaced_destination :: "materialization_record option"
  tr_invalidated :: "materialization_record list"
  tr_new_authoritative :: materialization_record

text \<open>Marks stale what is not on the new authority.\<close>

definition invalidate :: "backend_id \<Rightarrow> materialization_record \<Rightarrow> materialization_record" where
  "invalidate b r = (if mr_backend_id r \<noteq> b then r\<lparr>mr_state := Stale\<rparr> else r)"

text \<open>\<open>None\<close> is the panic of the \<open>expect\<close>.\<close>

definition commit_transition ::
  "materialized_tensor \<Rightarrow> backend_id \<Rightarrow> u64 \<Rightarrow> u32 list \<Rightarrow> physical_layout \<Rightarrow> backend_dtype \<Rightarrow> nat
    \<Rightarrow> (materialized_tensor \<times> nat \<times> transition_receipt) option" where
  "commit_transition t b handle shape layout dtype sq = (
     let previous = map_of (mt_materializations t) (mt_authoritative_backend t);
         replaced = map_of (mt_materializations t) b;
         marked = map (\<lambda>(k, r). (k, invalidate b r)) (mt_materializations t);
         invalidated = filter (\<lambda>r. mr_backend_id r \<noteq> b) (map snd marked);
         t' = t\<lparr>mt_version := mt_version t + 1, mt_authoritative_backend := b, mt_materializations := marked\<rparr> in
     (case mt_add_materialization t' sq b handle shape layout dtype of
        Inl _ \<Rightarrow> None
      | Inr (t'', sq', r) \<Rightarrow> Some (t'', sq',
          \<lparr>tr_tensor_id = mt_tensor_id t, tr_previous_version = mt_version t, tr_new_version = mt_version t'',
           tr_previous_authority = mt_authoritative_backend t, tr_new_authority = b,
           tr_previous_authoritative = previous, tr_replaced_destination = replaced,
           tr_invalidated = invalidated, tr_new_authoritative = r\<rparr>)))"

subsection \<open>The registry\<close>

record tensor_registry =
  rg_tensors :: "tensor_id \<rightharpoonup> materialized_tensor"
  rg_seq :: nat

definition rg_new :: tensor_registry where
  "rg_new = \<lparr>rg_tensors = Map.empty, rg_seq = 0\<rparr>"

definition rg_register :: "materialized_tensor \<Rightarrow> tensor_registry \<Rightarrow> registry_error + tensor_registry" where
  "rg_register t g = (
     if rg_tensors g (mt_tensor_id t) \<noteq> None then Inl (AlreadyRegistered (mt_tensor_id t))
     else Inr (g\<lparr>rg_tensors := (rg_tensors g)(mt_tensor_id t \<mapsto> t)\<rparr>))"

definition rg_remove :: "tensor_id \<Rightarrow> tensor_registry \<Rightarrow> materialized_tensor option \<times> tensor_registry" where
  "rg_remove tid g = (rg_tensors g tid, g\<lparr>rg_tensors := (rg_tensors g)(tid := None)\<rparr>)"

definition rg_add_materialization ::
  "tensor_id \<Rightarrow> backend_id \<Rightarrow> u64 \<Rightarrow> u32 list \<Rightarrow> physical_layout \<Rightarrow> backend_dtype \<Rightarrow> tensor_registry
    \<Rightarrow> registry_error + tensor_registry \<times> materialization_record" where
  "rg_add_materialization tid b handle shape layout dtype g =
     (case rg_tensors g tid of
        None \<Rightarrow> Inl (TensorNotFound tid)
      | Some t \<Rightarrow>
          (case mt_add_materialization t (rg_seq g) b handle shape layout dtype of
             Inl e \<Rightarrow> Inl e
           | Inr (t', sq', r) \<Rightarrow>
               Inr (g\<lparr>rg_tensors := (rg_tensors g)(tid \<mapsto> t'), rg_seq := sq'\<rparr>, r)))"

definition advance_version ::
  "tensor_id \<Rightarrow> backend_id \<Rightarrow> u64 \<Rightarrow> u32 list \<Rightarrow> physical_layout \<Rightarrow> backend_dtype \<Rightarrow> tensor_registry
    \<Rightarrow> (registry_error + tensor_registry \<times> transition_receipt) option" where
  "advance_version tid b handle shape layout dtype g =
     (case rg_tensors g tid of
        None \<Rightarrow> Some (Inl (TensorNotFound tid))
      | Some t \<Rightarrow>
          (case prepare_transition t b dtype shape of
             Inl e \<Rightarrow> Some (Inl e)
           | Inr _ \<Rightarrow>
               (case commit_transition t b handle shape layout dtype (rg_seq g) of
                  None \<Rightarrow> None
                | Some (t', sq', receipt) \<Rightarrow>
                    Some (Inr (g\<lparr>rg_tensors := (rg_tensors g)(tid \<mapsto> t'), rg_seq := sq'\<rparr>, receipt)))))"


subsection \<open>Clients\<close>

text \<open>
  A client can build tensors, clone registered ones, change the public field \<open>tensor_id\<close>, register what it
  holds, remove, and call the two mutating operations.  The second component is what it holds.
\<close>

inductive rg_step :: "tensor_registry \<times> materialized_tensor set \<Rightarrow> tensor_registry \<times> materialized_tensor set \<Rightarrow> bool" where
  new: "rg_step (g, H) (g, insert (mt_new tid c b) H)"
| clone: "rg_tensors g tid = Some t \<Longrightarrow> rg_step (g, H) (g, insert t H)"
| relabel: "t \<in> H \<Longrightarrow> rg_step (g, H) (g, insert (t\<lparr>mt_tensor_id := tid\<rparr>) H)"
| register: "t \<in> H \<Longrightarrow> rg_register t g = Inr g' \<Longrightarrow> rg_step (g, H) (g', H)"
| remove: "rg_remove tid g = (ot, g') \<Longrightarrow> rg_step (g, H) (g', H \<union> set_option ot)"
| add: "rg_add_materialization tid b h shape layout dtype g = Inr (g', r) \<Longrightarrow> rg_step (g, H) (g', H)"
| advance: "advance_version tid b h shape layout dtype g = Some (Inr (g', receipt)) \<Longrightarrow> rg_step (g, H) (g', H)"

definition rg_reachable :: "tensor_registry \<Rightarrow> materialized_tensor set \<Rightarrow> bool" where
  "rg_reachable g H \<longleftrightarrow> rg_step\<^sup>*\<^sup>* (rg_new, {}) (g, H)"

text \<open>The invariant of one tensor under a registry whose next identifier is \<open>sq\<close>.\<close>

definition record_ok :: "nat \<Rightarrow> materialized_tensor \<Rightarrow> backend_id \<Rightarrow> materialization_record \<Rightarrow> bool" where
  "record_ok sq t b r \<longleftrightarrow> mr_backend_id r = b \<and> mr_materialization_id r < sq \<and> mr_tensor_version r \<le> mt_version t \<and>
     mr_state r = (if mr_tensor_version r = mt_version t then Fresh else Stale) \<and>
     validate_materialization t (mr_dtype r) (mr_physical_shape r) = Inr ()"

definition tensor_ok :: "nat \<Rightarrow> materialized_tensor \<Rightarrow> bool" where
  "tensor_ok sq t \<longleftrightarrow> distinct (map fst (mt_materializations t)) \<and>
     (\<forall>(b, r) \<in> set (mt_materializations t). record_ok sq t b r) \<and>
     inj_on (\<lambda>x. mr_materialization_id (snd x)) (set (mt_materializations t)) \<and>
     (mt_version t \<noteq> 0 \<longrightarrow> is_fresh t (mt_authoritative_backend t))"

definition registry_ok :: "tensor_registry \<times> materialized_tensor set \<Rightarrow> bool" where
  "registry_ok s = (case s of (g, H) \<Rightarrow>
     (\<forall>t \<in> H. tensor_ok (rg_seq g) t) \<and>
     (\<forall>tid t. rg_tensors g tid = Some t \<longrightarrow> mt_tensor_id t = tid \<and> tensor_ok (rg_seq g) t))"

lemma validate_iff: "validate_materialization t d shape = Inr () \<longleftrightarrow>
    d = tc_canonical_dtype (mt_contract t) \<and> length shape = length (tc_logical_shape (mt_contract t))"
  by (auto simp: validate_materialization_def)

lemma is_fresh_iff: "is_fresh t b \<longleftrightarrow>
    (\<exists>r. map_of (mt_materializations t) b = Some r \<and> mr_state r = Fresh \<and> mr_tensor_version r = mt_version t)"
  by (simp add: is_fresh_def split: option.splits)

lemma is_fresh_relabel [simp]: "is_fresh (t\<lparr>mt_tensor_id := tid\<rparr>) = is_fresh t"
  by (simp add: is_fresh_iff fun_eq_iff)

lemma tensor_ok_new: "tensor_ok sq (mt_new tid c b)"
  by (simp add: tensor_ok_def mt_new_def)

lemma tensor_ok_relabel: "tensor_ok sq t \<Longrightarrow> tensor_ok sq (t\<lparr>mt_tensor_id := tid\<rparr>)"
  by (auto simp: tensor_ok_def record_ok_def validate_iff)

lemma tensor_ok_Suc: "tensor_ok sq t \<Longrightarrow> tensor_ok (Suc sq) t"
  by (fastforce simp: tensor_ok_def record_ok_def)

text \<open>What an insertion puts into the list.\<close>

lemma set_update_distinct:
  "distinct (map fst al) \<Longrightarrow> set (AList.update k v al) = insert (k, v) {x \<in> set al. fst x \<noteq> k}"
  by (induction al) (auto simp: image_iff)

lemma tensor_ok_add:
  assumes ok: "tensor_ok sq t" and add: "mt_add_materialization t sq b h shape layout dtype = Inr (t', sq', r)"
  shows "tensor_ok sq' t' \<and> sq' = sq + 1 \<and> mt_tensor_id t' = mt_tensor_id t"
proof -
  have v: "validate_materialization t dtype shape = Inr ()" and r: "r = fresh_record sq t b h shape layout dtype"
    and t': "t' = t\<lparr>mt_materializations := AList.update b r (mt_materializations t)\<rparr>" and sq': "sq' = sq + 1"
    using add by (auto simp: mt_add_materialization_def Let_def split: sum.splits)
  have d: "distinct (map fst (mt_materializations t))" using ok by (simp add: tensor_ok_def)
  have rec: "record_ok sq t k x" if "(k, x) \<in> set (mt_materializations t)" for k x
    using ok that by (auto simp: tensor_ok_def)
  have rec': "record_ok sq' t' k x" if "(k, x) \<in> set (mt_materializations t')" for k x
  proof (cases "(k, x) = (b, r)")
    case True
    with v show ?thesis
      by (simp add: record_ok_def r t' sq' fresh_record_def validate_iff)
  next
    case False
    with that d have "(k, x) \<in> set (mt_materializations t)" by (auto simp: t' set_update_distinct)
    from rec [OF this] show ?thesis
      by (auto simp: record_ok_def t' sq' validate_iff)
  qed
  let ?id = "\<lambda>x. mr_materialization_id (snd x)" and ?old = "{x \<in> set (mt_materializations t). fst x \<noteq> b}"
  have old: "?id z < sq" if "z \<in> set (mt_materializations t)" for z
    using rec [of "fst z" "snd z"] that by (simp add: record_ok_def)
  have "?id (b, r) = sq" by (simp add: r fresh_record_def)
  then have "?id (b, r) \<notin> ?id ` ?old" using old by force
  moreover have "inj_on ?id ?old"
    using ok by (auto simp: tensor_ok_def intro: inj_on_subset)
  ultimately have "inj_on ?id (insert (b, r) ?old)" by (auto simp: inj_on_insert)
  then have "inj_on ?id (set (mt_materializations t'))" using d by (simp add: t' set_update_distinct)
  moreover have "is_fresh t' (mt_authoritative_backend t')" if "mt_version t' \<noteq> 0"
    using that ok by (auto simp: t' tensor_ok_def is_fresh_iff update_conv' r fresh_record_def)
  ultimately show ?thesis
    using d rec' by (auto simp: tensor_ok_def t' sq' distinct_update)
qed


text \<open>A transition, in closed form.\<close>

definition transitioned ::
  "materialized_tensor \<Rightarrow> backend_id \<Rightarrow> materialization_record \<Rightarrow> materialized_tensor" where
  "transitioned t b r = t\<lparr>mt_version := mt_version t + 1, mt_authoritative_backend := b,
     mt_materializations := AList.update b r (map (\<lambda>(k, r). (k, invalidate b r)) (mt_materializations t))\<rparr>"

lemma commit_transition_eq:
  assumes "validate_materialization t dtype shape = Inr ()"
  shows "commit_transition t b h shape layout dtype sq =
    (let r = (fresh_record sq t b h shape layout dtype)\<lparr>mr_tensor_version := mt_version t + 1\<rparr> in
     Some (transitioned t b r, sq + 1,
       \<lparr>tr_tensor_id = mt_tensor_id t, tr_previous_version = mt_version t, tr_new_version = mt_version t + 1,
        tr_previous_authority = mt_authoritative_backend t, tr_new_authority = b,
        tr_previous_authoritative = map_of (mt_materializations t) (mt_authoritative_backend t),
        tr_replaced_destination = map_of (mt_materializations t) b,
        tr_invalidated = filter (\<lambda>r. mr_backend_id r \<noteq> b) (map (invalidate b \<circ> snd) (mt_materializations t)),
        tr_new_authoritative = r\<rparr>))"
  using assms
  by (simp add: commit_transition_def mt_add_materialization_def validate_materialization_def transitioned_def
      fresh_record_def Let_def comp_def case_prod_beta split: if_splits)

lemma map_of_transitioned: "map_of (mt_materializations (transitioned t b r)) k =
    (if k = b then Some r else map_option (invalidate b) (map_of (mt_materializations t) k))"
proof -
  have "map_of (map (\<lambda>(k, r). (k, invalidate b r)) al) k = map_option (invalidate b) (map_of al k)" for al
    by (induction al) auto
  then show ?thesis by (simp add: transitioned_def update_conv')
qed

lemma tensor_ok_transitioned:
  assumes ok: "tensor_ok sq t" and v: "validate_materialization t dtype shape = Inr ()"
    and r: "r = (fresh_record sq t b h shape layout dtype)\<lparr>mr_tensor_version := mt_version t + 1\<rparr>"
  shows "tensor_ok (sq + 1) (transitioned t b r)"
proof -
  let ?t' = "transitioned t b r"
  let ?old = "map (\<lambda>(k, r). (k, invalidate b r)) (mt_materializations t)"
  have rec: "record_ok sq t k x" if "(k, x) \<in> set (mt_materializations t)" for k x
    using ok that by (auto simp: tensor_ok_def)
  have fsts: "map fst ?old = map fst (mt_materializations t)" by (simp add: comp_def case_prod_beta)
  then have d: "distinct (map fst ?old)" using ok by (simp only: tensor_ok_def)
  have members: "(k, x) \<in> set (mt_materializations ?t') \<longleftrightarrow>
      (k, x) = (b, r) \<or> k \<noteq> b \<and> (\<exists>y. (k, y) \<in> set (mt_materializations t) \<and> x = y\<lparr>mr_state := Stale\<rparr>)" for k x
  proof -
    have "(k, x) \<in> set (mt_materializations ?t') \<longleftrightarrow> (k, x) = (b, r) \<or> k \<noteq> b \<and>
        (\<exists>y. (k, y) \<in> set (mt_materializations t) \<and> x = invalidate b y)"
      unfolding transitioned_def using set_update_distinct [OF d, of b r] by auto
    moreover have "invalidate b y = y\<lparr>mr_state := Stale\<rparr>" if "(k, y) \<in> set (mt_materializations t)" "k \<noteq> b" for y
      using rec [OF that(1)] that(2) by (simp add: invalidate_def record_ok_def)
    ultimately show ?thesis by auto
  qed
  have recs: "record_ok (sq + 1) ?t' k x" if "(k, x) \<in> set (mt_materializations ?t')" for k x
    using that v rec unfolding members
    by (auto simp: record_ok_def r fresh_record_def transitioned_def validate_iff dest!: rec)
  have "inj_on (\<lambda>x. mr_materialization_id (snd x)) (set (mt_materializations ?t'))"
  proof (rule inj_onI)
    fix x y assume xy: "x \<in> set (mt_materializations ?t')" "y \<in> set (mt_materializations ?t')"
      "mr_materialization_id (snd x) = mr_materialization_id (snd y)"
    obtain k u l w where kl: "x = (k, u)" "y = (l, w)" by (cases x, cases y) blast
    have less: "mr_materialization_id z < sq" if "(m, z) \<in> set (mt_materializations t)" for m z
      using rec [OF that] by (simp add: record_ok_def)
    have same: "m = n \<and> z = z'" if "(m, z) \<in> set (mt_materializations t)" "(n, z') \<in> set (mt_materializations t)"
      "mr_materialization_id z = mr_materialization_id z'" for m n z z'
      using ok that by (force simp: tensor_ok_def inj_on_def)
    have "mr_materialization_id r = sq" by (simp add: r fresh_record_def)
    with xy kl show "x = y" unfolding kl members by (auto dest: less same)
  qed
  moreover have "distinct (map fst (mt_materializations ?t'))"
    unfolding transitioned_def using d by (simp add: distinct_update del: map_map)
  moreover have "is_fresh ?t' b"
    by (simp add: is_fresh_def map_of_transitioned) (simp add: r fresh_record_def transitioned_def)
  ultimately show ?thesis
    using recs by (auto simp: tensor_ok_def transitioned_def)
qed


subsection \<open>Every reachable registry\<close>

lemma registry_okD:
  "registry_ok (g, H) \<Longrightarrow> rg_tensors g tid = Some t \<Longrightarrow> mt_tensor_id t = tid \<and> tensor_ok (rg_seq g) t"
  by (simp add: registry_ok_def)

lemma advance_version_eq:
  assumes "rg_tensors g tid = Some t"
  shows "advance_version tid b h shape layout dtype g =
    (case prepare_transition t b dtype shape of
       Inl e \<Rightarrow> Some (Inl e)
     | Inr _ \<Rightarrow>
         let (t', sq', receipt) = the (commit_transition t b h shape layout dtype (rg_seq g)) in
         Some (Inr (g\<lparr>rg_tensors := (rg_tensors g)(tid \<mapsto> t'), rg_seq := sq'\<rparr>, receipt)))"
proof (cases "prepare_transition t b dtype shape")
  case (Inr u)
  then have "validate_materialization t dtype shape = Inr ()"
    by (simp add: prepare_transition_def split: if_splits)
  with assms Inr show ?thesis
    by (simp add: advance_version_def commit_transition_eq Let_def)
qed (simp add: advance_version_def assms)

lemma registry_ok_step:
  assumes "rg_step s s'" and "registry_ok s"
  shows "registry_ok s'"
  using assms
proof cases
  case (add tid b h shape layout dtype g g' r H)
  then obtain t t' where t: "rg_tensors g tid = Some t"
    "mt_add_materialization t (rg_seq g) b h shape layout dtype = Inr (t', rg_seq g', r)"
    "g' = g\<lparr>rg_tensors := (rg_tensors g)(tid \<mapsto> t'), rg_seq := rg_seq g'\<rparr>"
    by (auto simp: rg_add_materialization_def split: option.splits sum.splits)
  have ok: "registry_ok (g, H)" using assms add by simp
  from registry_okD [OF this t(1)] tensor_ok_add [OF _ t(2)]
  have "tensor_ok (rg_seq g') t' \<and> rg_seq g' = rg_seq g + 1 \<and> mt_tensor_id t' = tid" by auto
  moreover have "rg_tensors g' = (rg_tensors g)(tid \<mapsto> t')" by (subst t(3)) simp
  ultimately show ?thesis
    using ok by (auto simp: add(2) registry_ok_def intro: tensor_ok_Suc)
next
  case (advance tid b h shape layout dtype g g' receipt H)
  have ok: "registry_ok (g, H)" using assms advance by simp
  from advance(3) obtain t where t: "rg_tensors g tid = Some t"
    by (auto simp: advance_version_def split: option.splits)
  then obtain u where prep: "prepare_transition t b dtype shape = Inr u"
    using advance(3) by (auto simp: advance_version_def split: sum.splits)
  then have v: "validate_materialization t dtype shape = Inr ()"
    by (simp add: prepare_transition_def split: if_splits)
  from advance(3) prep have g': "g' = g\<lparr>rg_tensors := (rg_tensors g)(tid \<mapsto> transitioned t b
      ((fresh_record (rg_seq g) t b h shape layout dtype)\<lparr>mr_tensor_version := mt_version t + 1\<rparr>)),
      rg_seq := rg_seq g + 1\<rparr>"
    by (simp add: advance_version_eq [OF t] commit_transition_eq [OF v] Let_def)
  have "tensor_ok (rg_seq g + 1) (transitioned t b
      ((fresh_record (rg_seq g) t b h shape layout dtype)\<lparr>mr_tensor_version := mt_version t + 1\<rparr>))"
    using tensor_ok_transitioned [OF _ v refl] registry_okD [OF ok t] by blast
  moreover have "mt_tensor_id (transitioned t b r) = tid" for r
    using registry_okD [OF ok t] by (simp add: transitioned_def)
  ultimately show ?thesis
    using ok by (auto simp: advance(2) g' registry_ok_def intro: tensor_ok_Suc)
qed (auto simp: registry_ok_def tensor_ok_new tensor_ok_relabel rg_register_def rg_remove_def split: if_splits)

lemma reachable_ok:
  assumes "rg_reachable g H"
  shows "registry_ok (g, H)"
proof -
  have "registry_ok s" if "rg_step\<^sup>*\<^sup>* (rg_new, {}) s" for s
    using that
  proof induction
    case base
    show ?case by (simp add: registry_ok_def rg_new_def)
  next
    case (step s s')
    from registry_ok_step [OF step(2,3)] show ?case .
  qed
  with assms show ?thesis by (simp add: rg_reachable_def)
qed

text \<open>What clients see of a tensor: its version, its owner and the handles that are given out.\<close>

record coherence =
  co_version :: nat
  co_owner :: backend_id
  co_copies :: "backend_id \<Rightarrow> u64 option"

definition coherence_of :: "materialized_tensor \<Rightarrow> coherence" where
  "coherence_of t = \<lparr>co_version = mt_version t, co_owner = mt_authoritative_backend t, co_copies = get_handle t\<rparr>"

definition co_share :: "backend_id \<Rightarrow> u64 \<Rightarrow> coherence \<Rightarrow> coherence" where
  "co_share b h c = c\<lparr>co_copies := (co_copies c)(b \<mapsto> h)\<rparr>"

definition co_write :: "backend_id \<Rightarrow> u64 \<Rightarrow> coherence \<Rightarrow> coherence" where
  "co_write b h c = \<lparr>co_version = co_version c + 1, co_owner = b, co_copies = [b \<mapsto> h]\<rparr>"

lemma coherence_add:
  assumes "validate_materialization t dtype shape = Inr ()"
  shows "\<exists>t'. mt_add_materialization t sq b h shape layout dtype =
      Inr (t', sq + 1, fresh_record sq t b h shape layout dtype) \<and> coherence_of t' = co_share b h (coherence_of t)"
  using assms
  by (auto simp: mt_add_materialization_def Let_def coherence_of_def co_share_def get_handle_def is_fresh_def
      fun_eq_iff update_conv' fresh_record_def split: option.splits)

lemma coherence_transitioned:
  assumes ok: "tensor_ok sq t"
    and r: "r = (fresh_record sq t b h shape layout dtype)\<lparr>mr_tensor_version := mt_version t + 1\<rparr>"
  shows "coherence_of (transitioned t b r) = co_write b h (coherence_of t)"
proof -
  have "get_handle (transitioned t b r) k = [b \<mapsto> h] k" for k
  proof (cases "k = b")
    case True
    have "mt_version (transitioned t b r) = mt_version t + 1" by (simp add: transitioned_def)
    with True show ?thesis
      by (simp add: get_handle_def is_fresh_def map_of_transitioned) (simp add: r fresh_record_def)
  next
    case False
    have "mr_backend_id x = k" if "map_of (mt_materializations t) k = Some x" for x
      using ok map_of_SomeD [OF that] by (auto simp: tensor_ok_def record_ok_def)
    with False show ?thesis
      by (auto simp: get_handle_def is_fresh_def map_of_transitioned invalidate_def split: option.splits)
  qed
  then show ?thesis
    by (simp add: coherence_of_def co_write_def fun_eq_iff transitioned_def)
qed


text \<open>In every reachable registry a tensor hands out the handle of a backend exactly if the materialization
  there has the tensor's current version; once written, the authoritative backend always has one.  Records are
  filed under their backend, are never pending, and their identifiers are distinct and already issued.\<close>

theorem registry_coherence:
  assumes "rg_reachable g H" and "rg_tensors g tid = Some t"
  shows "mt_tensor_id t = tid \<and>
    (\<forall>b h. get_handle t b = Some h \<longleftrightarrow> (\<exists>r. map_of (mt_materializations t) b = Some r \<and>
       mr_tensor_version r = mt_version t \<and> mr_backend_handle r = h)) \<and>
    (mt_version t \<noteq> 0 \<longrightarrow> get_handle t (mt_authoritative_backend t) \<noteq> None) \<and>
    (\<forall>(b, r) \<in> set (mt_materializations t). mr_backend_id r = b \<and> mr_state r \<noteq> Pending \<and>
       mr_materialization_id r < rg_seq g) \<and>
    distinct (map (\<lambda>(b, r). mr_materialization_id r) (mt_materializations t))"
proof -
  from registry_okD [OF reachable_ok [OF assms(1)] assms(2)]
  have tid: "mt_tensor_id t = tid" and ok: "tensor_ok (rg_seq g) t" by auto
  have rec: "record_ok (rg_seq g) t b r" if "(b, r) \<in> set (mt_materializations t)" for b r
    using ok that by (auto simp: tensor_ok_def)
  have handle: "get_handle t b = Some h \<longleftrightarrow> (\<exists>r. map_of (mt_materializations t) b = Some r \<and>
      mr_tensor_version r = mt_version t \<and> mr_backend_handle r = h)" for b h
  proof (cases "map_of (mt_materializations t) b")
    case (Some r)
    then have "record_ok (rg_seq g) t b r" by (intro rec map_of_SomeD)
    with Some show ?thesis by (auto simp: get_handle_def is_fresh_iff record_ok_def split: if_splits)
  qed (simp add: get_handle_def)
  have "distinct (mt_materializations t)" using ok by (auto simp: tensor_ok_def distinct_map)
  then have "distinct (map (\<lambda>(b, r). mr_materialization_id r) (mt_materializations t))"
    using ok by (simp add: distinct_map tensor_ok_def case_prod_beta')
  moreover have "mt_version t \<noteq> 0 \<longrightarrow> get_handle t (mt_authoritative_backend t) \<noteq> None"
    using ok by (auto simp: tensor_ok_def get_handle_def is_fresh_iff)
  moreover have "\<forall>(b, r) \<in> set (mt_materializations t). mr_backend_id r = b \<and> mr_state r \<noteq> Pending \<and>
      mr_materialization_id r < rg_seq g"
    using rec by (auto simp: record_ok_def split: if_splits)
  ultimately show ?thesis using tid handle by blast
qed

text \<open>C12: Seen through versions, owners and handles the registry is a write-invalidate protocol: a valid
  materialization adds the handle of one more backend, a valid transition raises the version and leaves the new
  owner's handle alone, with the receipt naming the versions and the records replaced.  An invalid or immutable
  request is an error and changes nothing; neither operation panics.\<close>

theorem registry_refines_write_invalidate:
  assumes "rg_reachable g H" and "rg_tensors g tid = Some t"
  shows "(case rg_add_materialization tid b h shape layout dtype g of
      Inl e \<Rightarrow> validate_materialization t dtype shape = Inl e
    | Inr (g', r) \<Rightarrow> validate_materialization t dtype shape = Inr () \<and>
        (\<exists>t'. g' = g\<lparr>rg_tensors := (rg_tensors g)(tid \<mapsto> t'), rg_seq := rg_seq g + 1\<rparr> \<and>
          coherence_of t' = co_share b h (coherence_of t))) \<and>
    (case advance_version tid b h shape layout dtype g of
      None \<Rightarrow> False
    | Some (Inl e) \<Rightarrow> prepare_transition t b dtype shape = Inl e
    | Some (Inr (g', rc)) \<Rightarrow> tc_mutability (mt_contract t) \<noteq> Immutable \<and>
        (\<exists>t'. g' = g\<lparr>rg_tensors := (rg_tensors g)(tid \<mapsto> t'), rg_seq := rg_seq g + 1\<rparr> \<and>
          coherence_of t' = co_write b h (coherence_of t)) \<and>
        tr_new_version rc = tr_previous_version rc + 1 \<and>
        set (map mr_backend_id (tr_invalidated rc)) = fst ` set (mt_materializations t) - {b} \<and>
        tr_previous_authoritative rc = map_of (mt_materializations t) (mt_authoritative_backend t))"
    (is "?add \<and> ?advance")
proof
  show ?add
  proof (cases "validate_materialization t dtype shape")
    case (Inr u)
    then have "validate_materialization t dtype shape = Inr ()" by simp
    from coherence_add [OF this, of "rg_seq g" b h layout] obtain t' where
      "mt_add_materialization t (rg_seq g) b h shape layout dtype =
        Inr (t', rg_seq g + 1, fresh_record (rg_seq g) t b h shape layout dtype)"
      "coherence_of t' = co_share b h (coherence_of t)" by blast
    with assms(2) Inr show ?thesis by (auto simp: rg_add_materialization_def)
  qed (simp add: rg_add_materialization_def mt_add_materialization_def assms(2))
  show ?advance
  proof (cases "prepare_transition t b dtype shape")
    case (Inr u)
    let ?r = "(fresh_record (rg_seq g) t b h shape layout dtype)\<lparr>mr_tensor_version := mt_version t + 1\<rparr>"
    have v: "validate_materialization t dtype shape = Inr ()" and mut: "tc_mutability (mt_contract t) \<noteq> Immutable"
      using Inr by (auto simp: prepare_transition_def split: if_splits)
    have ok: "tensor_ok (rg_seq g) t"
      using registry_okD [OF reachable_ok [OF assms(1)] assms(2)] by blast
    have rec: "mr_backend_id r = k" if "(k, r) \<in> set (mt_materializations t)" for k r
      using ok that by (auto simp: tensor_ok_def record_ok_def)
    have inv: "mr_backend_id (invalidate b r) = mr_backend_id r" for r by (simp add: invalidate_def)
    have "set (map mr_backend_id (filter (\<lambda>r. mr_backend_id r \<noteq> b)
        (map (invalidate b \<circ> snd) (mt_materializations t)))) = fst ` set (mt_materializations t) - {b}"
      using rec by (force simp: inv image_iff)
    with coherence_transitioned [OF ok refl, of b h shape layout dtype] Inr mut v assms(2) show ?thesis
      by (simp add: advance_version_eq commit_transition_eq Let_def) blast
  qed (simp add: advance_version_def assms(2))
qed

text \<open>A mutable tensor with contents on backend 0, then written on backend 1.\<close>

definition example_registry :: "tensor_registry" where
  "example_registry = \<lparr>rg_tensors = [5 \<mapsto> mt_new 5
     \<lparr>tc_logical_shape = [2], tc_canonical_dtype = F32, tc_mutability = Mutable, tc_role = KvCacheRole\<rparr> 0], rg_seq = 0\<rparr>"

lemma example_reachable: "\<exists>H. rg_reachable example_registry H"
proof -
  let ?t = "mt_new 5 \<lparr>tc_logical_shape = [2], tc_canonical_dtype = F32, tc_mutability = Mutable, tc_role = KvCacheRole\<rparr> 0"
  have "rg_step (rg_new, {}) (rg_new, {?t})" by (rule rg_step.new)
  moreover have "rg_step (rg_new, {?t}) (example_registry, {?t})"
    by (rule rg_step.register [where t = ?t]) (simp_all add: rg_register_def rg_new_def example_registry_def mt_new_def)
  ultimately show ?thesis unfolding rg_reachable_def by (meson converse_rtranclp_into_rtranclp rtranclp.rtrancl_refl)
qed

lemma registry_coherence_witness:
  "case rg_tensors example_registry 5 of Some t \<Rightarrow> mt_tensor_id t = 5 | None \<Rightarrow> False"
proof -
  obtain H where "rg_reachable example_registry H" using example_reachable by blast
  from registry_coherence [OF this, of 5] show ?thesis by (simp add: example_registry_def)
qed

lemma registry_refines_write_invalidate_witness:
  "case advance_version 5 1 77 [2] RowMajor F32 example_registry of
     Some (Inr (g', rc)) \<Rightarrow> tr_new_version rc = 1 \<and> map_option (\<lambda>t. get_handle t 1) (rg_tensors g' 5) = Some (Some 77)
   | _ \<Rightarrow> False"
proof -
  obtain H where "rg_reachable example_registry H" using example_reachable by blast
  from conjunct2 [OF registry_refines_write_invalidate [where tid = 5 and b = 1 and h = 77 and
      shape = "[2]" and layout = RowMajor and dtype = F32, OF this]] show ?thesis
    by (simp add: example_registry_def advance_version_def prepare_transition_def validate_materialization_def
        commit_transition_def mt_add_materialization_def fresh_record_def mt_new_def get_handle_def is_fresh_def Let_def)
qed

text \<open>The identifier of a tensor is a public field: a clone under another identifier is registered with the same
  materialization identifiers, of which the registry calls itself the only authority.\<close>

lemma relabelled_clone_shares_identifiers:
  assumes "rg_tensors g tid = Some t" and "rg_tensors g tid' = None" and "rg_reachable g H"
  shows "\<exists>g' H'. rg_reachable g' H' \<and> rg_tensors g' tid = Some t \<and>
    map_option mt_materializations (rg_tensors g' tid') = Some (mt_materializations t)"
proof -
  let ?t = "t\<lparr>mt_tensor_id := tid'\<rparr>" and ?g = "g\<lparr>rg_tensors := (rg_tensors g)(tid' \<mapsto> t\<lparr>mt_tensor_id := tid'\<rparr>)\<rparr>"
  have "rg_step (g, H) (g, insert t H)" using assms(1) by (rule rg_step.clone)
  moreover have "rg_step (g, insert t H) (g, insert ?t (insert t H))" by (rule rg_step.relabel) simp
  moreover have "rg_step (g, insert ?t (insert t H)) (?g, insert ?t (insert t H))"
    by (rule rg_step.register [where t = ?t]) (simp_all add: rg_register_def assms(2))
  ultimately have "rg_reachable ?g (insert ?t (insert t H))"
    using assms(3) unfolding rg_reachable_def by (meson rtranclp.rtrancl_into_rtrancl)
  moreover have "tid \<noteq> tid'" using assms by auto
  ultimately show ?thesis
    using assms(1) by (intro exI [of _ ?g] exI [of _ "insert ?t (insert t H)"] conjI) simp_all
qed

end
