(* ===== verification/ImageBuilder.thy ===== *)
theory ImageBuilder
  imports Decimal
begin

text \<open>
  The builder of compute images in \<open>compute_image/manifest.rs\<close>: tensors appended to the current segment,
  segments closed into the table and the payloads, the residency plan that grows with them.  Tensor identifiers
  are natural numbers (an image has fewer than \<open>2 ^ 32\<close> tensors).  SHA-256 is a parameter.  Of the manifest only
  what the builder itself writes is kept.
\<close>

datatype segment_kind = Persistent | LayerSegment u32 | Final

record segment =
  sg_id :: string
  sg_filename :: string
  sg_byte_size :: nat
  sg_sha256 :: string
  sg_tensor_ids :: "nat list"
  sg_kind :: segment_kind
  sg_alignment_bytes :: nat

record quantization_desc =
  qd_bits :: u32
  qd_group_size :: u32
  qd_groups :: u32
  qd_scale_tensor_id :: nat
  qd_bias_tensor_id :: nat

record tensor_entry =
  te_id :: nat
  te_name :: string
  te_role :: string
  te_layer :: "u32 option"
  te_segment :: string
  te_source_filename :: string
  te_source_sha256 :: string
  te_source_offset :: u64
  te_offset :: nat
  te_byte_length :: nat
  te_logical_dtype :: string
  te_storage_dtype :: string
  te_logical_shape :: "u32 list"
  te_physical_shape :: "u32 list"
  te_mutability :: string
  te_quantization :: "quantization_desc option"
  te_tensor_alignment_bytes :: nat
  te_layout_version :: nat

record alias_entry =
  al_logical_name :: string
  al_physical_tensor_id :: nat
  al_reason :: string

record segment_builder =
  sb_id :: string
  sb_filename :: string
  sb_kind :: segment_kind
  sb_data :: "u8 list"
  sb_tensor_ids :: "nat list"
  sb_offset :: nat

record image_builder =
  ib_persistent_segments :: "string list"
  ib_layer_segments :: "string list"
  ib_next_tensor_id :: nat
  ib_current_segment :: "segment_builder option"
  ib_segments :: "segment list"
  ib_segment_payloads :: "u8 list list"
  ib_tensors :: "tensor_entry list"
  ib_aliases :: "alias_entry list"

definition ib_new :: image_builder where
  "ib_new = \<lparr>ib_persistent_segments = [], ib_layer_segments = [], ib_next_tensor_id = 0,
     ib_current_segment = None, ib_segments = [], ib_segment_payloads = [], ib_tensors = [], ib_aliases = []\<rparr>"

definition set_start_tensor_id :: "nat \<Rightarrow> image_builder \<Rightarrow> image_builder" where
  "set_start_tensor_id start b = b\<lparr>ib_next_tensor_id := start\<rparr>"

definition flush_segment :: "(u8 list \<Rightarrow> string) \<Rightarrow> image_builder \<Rightarrow> image_builder" where
  "flush_segment sha256 b =
     (case ib_current_segment b of
        None \<Rightarrow> b
      | Some seg \<Rightarrow>
          let b' = b\<lparr>ib_current_segment := None,
                ib_segment_payloads := ib_segment_payloads b @ [sb_data seg],
                ib_segments := ib_segments b @ [\<lparr>sg_id = sb_id seg, sg_filename = sb_filename seg,
                  sg_byte_size = length (sb_data seg), sg_sha256 = sha256 (sb_data seg),
                  sg_tensor_ids = sb_tensor_ids seg, sg_kind = sb_kind seg, sg_alignment_bytes = 4096\<rparr>]\<rparr> in
          (case sb_kind seg of
             LayerSegment _ \<Rightarrow> b'\<lparr>ib_layer_segments := ib_layer_segments b @ [sb_id seg]\<rparr>
           | _ \<Rightarrow> b'\<lparr>ib_persistent_segments := ib_persistent_segments b @ [sb_id seg]\<rparr>))"

text \<open>\<open>format!("{:03}")\<close>.\<close>

definition pad3 :: "nat \<Rightarrow> string" where
  "pad3 n = replicate (3 - length (dec n)) (CHR ''0'') @ dec n"

definition begin_segment ::
  "(u8 list \<Rightarrow> string) \<Rightarrow> string \<Rightarrow> segment_kind \<Rightarrow> image_builder \<Rightarrow> image_builder" where
  "begin_segment sha256 i kind b = (
     let b' = flush_segment sha256 b in
     b'\<lparr>ib_current_segment := Some \<lparr>sb_id = i,
        sb_filename = ''segment_'' @ pad3 (length (ib_segments b')) @ ''.bin'',
        sb_kind = kind, sb_data = [], sb_tensor_ids = [], sb_offset = 0\<rparr>\<rparr>)"

text \<open>The arguments of \<open>add_tensor\<close>.\<close>

record tensor_args =
  ta_name :: string
  ta_role :: string
  ta_layer :: "u32 option"
  ta_data :: "u8 list"
  ta_source_filename :: string
  ta_source_sha256 :: string
  ta_source_offset :: u64
  ta_logical_dtype :: string
  ta_storage_dtype :: string
  ta_logical_shape :: "u32 list"
  ta_physical_shape :: "u32 list"
  ta_quantization :: "quantization_desc option"

text \<open>\<open>None\<close> is the panic of a call before any segment was begun.\<close>

definition add_tensor :: "tensor_args \<Rightarrow> image_builder \<Rightarrow> (nat \<times> image_builder) option" where
  "add_tensor a b =
     (case ib_current_segment b of
        None \<Rightarrow> None
      | Some seg \<Rightarrow>
          let i = ib_next_tensor_id b;
              offset = sb_offset seg;
              seg' = seg\<lparr>sb_data := sb_data seg @ ta_data a, sb_offset := offset + length (ta_data a),
                sb_tensor_ids := sb_tensor_ids seg @ [i]\<rparr>;
              entry = \<lparr>te_id = i, te_name = ta_name a, te_role = ta_role a, te_layer = ta_layer a,
                te_segment = sb_id seg, te_source_filename = ta_source_filename a,
                te_source_sha256 = ta_source_sha256 a, te_source_offset = ta_source_offset a,
                te_offset = offset, te_byte_length = length (ta_data a),
                te_logical_dtype = ta_logical_dtype a, te_storage_dtype = ta_storage_dtype a,
                te_logical_shape = ta_logical_shape a, te_physical_shape = ta_physical_shape a,
                te_mutability = ''read_only'', te_quantization = ta_quantization a,
                te_tensor_alignment_bytes = 16, te_layout_version = 1\<rparr> in
          Some (i, b\<lparr>ib_next_tensor_id := i + 1, ib_current_segment := Some seg',
            ib_tensors := ib_tensors b @ [entry]\<rparr>))"

definition add_alias :: "string \<Rightarrow> nat \<Rightarrow> string \<Rightarrow> image_builder \<Rightarrow> image_builder" where
  "add_alias name i reason b = b\<lparr>ib_aliases := ib_aliases b @
     [\<lparr>al_logical_name = name, al_physical_tensor_id = i, al_reason = reason\<rparr>]\<rparr>"

text \<open>What \<open>finalize\<close> puts into the image: the segments with their payloads, the tensor and alias tables and the
  total of the bytes.\<close>

record image =
  im_segments :: "segment list"
  im_payloads :: "u8 list list"
  im_tensor_table :: "tensor_entry list"
  im_alias_table :: "alias_entry list"
  im_persistent_segments :: "string list"
  im_layer_segments :: "string list"
  im_total_bytes :: nat

definition ib_finalize :: "(u8 list \<Rightarrow> string) \<Rightarrow> image_builder \<Rightarrow> image" where
  "ib_finalize sha256 b = (
     let b' = flush_segment sha256 b in
     \<lparr>im_segments = ib_segments b', im_payloads = ib_segment_payloads b', im_tensor_table = ib_tensors b',
      im_alias_table = ib_aliases b', im_persistent_segments = ib_persistent_segments b',
      im_layer_segments = ib_layer_segments b',
      im_total_bytes = sum_list (map sg_byte_size (ib_segments b'))\<rparr>)"

subsection \<open>Programs of builder calls\<close>

datatype builder_op = BeginSegment string segment_kind | AddTensor tensor_args | AddAlias string nat string

fun run_op :: "(u8 list \<Rightarrow> string) \<Rightarrow> builder_op \<Rightarrow> image_builder \<Rightarrow> image_builder option" where
  "run_op sha (BeginSegment i kind) b = Some (begin_segment sha i kind b)"
| "run_op sha (AddTensor a) b = map_option snd (add_tensor a b)"
| "run_op sha (AddAlias name i reason) b = Some (add_alias name i reason b)"

fun run_ops :: "(u8 list \<Rightarrow> string) \<Rightarrow> builder_op list \<Rightarrow> image_builder \<Rightarrow> image_builder option" where
  "run_ops sha [] b = Some b"
| "run_ops sha (op # ops) b = (case run_op sha op b of None \<Rightarrow> None | Some b' \<Rightarrow> run_ops sha ops b')"

fun added :: "builder_op list \<Rightarrow> u8 list list" where
  "added [] = []"
| "added (AddTensor a # ops) = ta_data a # added ops"
| "added (_ # ops) = added ops"

fun begun :: "builder_op list \<Rightarrow> string list" where
  "begun [] = []"
| "begun (BeginSegment i _ # ops) = i # begun ops"
| "begun (_ # ops) = begun ops"

text \<open>What a reader of the image finds for an entry of the tensor table.\<close>

definition read_tensor :: "image \<Rightarrow> tensor_entry \<Rightarrow> u8 list option" where
  "read_tensor im e = map_option (\<lambda>p. take (te_byte_length e) (drop (te_offset e) p))
     (map_of (zip (map sg_id (im_segments im)) (im_payloads im)) (te_segment e))"


subsection \<open>Everything that was added can be read back\<close>

text \<open>The payloads by segment, closed ones first.\<close>

definition open_payloads :: "image_builder \<Rightarrow> (string \<times> u8 list) list" where
  "open_payloads b = zip (map sg_id (ib_segments b)) (ib_segment_payloads b) @
     (case ib_current_segment b of None \<Rightarrow> [] | Some s \<Rightarrow> [(sb_id s, sb_data s)])"

definition open_tensor_ids :: "image_builder \<Rightarrow> nat list" where
  "open_tensor_ids b = concat (map sg_tensor_ids (ib_segments b)) @
     (case ib_current_segment b of None \<Rightarrow> [] | Some s \<Rightarrow> sb_tensor_ids s)"

definition open_bytes :: "image_builder \<Rightarrow> nat" where
  "open_bytes b = sum_list (map sg_byte_size (ib_segments b)) +
     (case ib_current_segment b of None \<Rightarrow> 0 | Some s \<Rightarrow> length (sb_data s))"

definition entry_holds :: "(string \<times> u8 list) list \<Rightarrow> tensor_entry \<Rightarrow> u8 list \<Rightarrow> bool" where
  "entry_holds ps e d \<longleftrightarrow> (\<exists>p. map_of ps (te_segment e) = Some p \<and> te_byte_length e = length d \<and>
     te_offset e + length d \<le> length p \<and> take (length d) (drop (te_offset e) p) = d)"

text \<open>\<open>ids\<close> and \<open>ds\<close> are the segments begun and the data added so far.\<close>

definition builder_ok :: "string list \<Rightarrow> u8 list list \<Rightarrow> image_builder \<Rightarrow> bool" where
  "builder_ok ids ds b \<longleftrightarrow>
     length (ib_segments b) = length (ib_segment_payloads b) \<and>
     map fst (open_payloads b) = ids \<and>
     (\<forall>s. ib_current_segment b = Some s \<longrightarrow> sb_offset s = length (sb_data s)) \<and>
     list_all2 (entry_holds (open_payloads b)) (ib_tensors b) ds \<and>
     ib_next_tensor_id b = length ds \<and>
     map te_id (ib_tensors b) = [0..<length ds] \<and>
     open_tensor_ids b = [0..<length ds] \<and>
     open_bytes b = length (concat ds)"

lemma flush_open:
  assumes "length (ib_segments b) = length (ib_segment_payloads b)"
  shows "open_payloads (flush_segment sha b) = open_payloads b"
    "open_tensor_ids (flush_segment sha b) = open_tensor_ids b"
    "open_bytes (flush_segment sha b) = open_bytes b"
    "length (ib_segments (flush_segment sha b)) = length (ib_segment_payloads (flush_segment sha b))"
    "ib_current_segment (flush_segment sha b) = None"
    "ib_tensors (flush_segment sha b) = ib_tensors b"
    "ib_next_tensor_id (flush_segment sha b) = ib_next_tensor_id b"
  using assms
  by (auto simp: flush_segment_def open_payloads_def open_tensor_ids_def open_bytes_def Let_def
      split: option.splits segment_kind.splits)

lemma builder_ok_flush: "builder_ok ids ds b \<Longrightarrow> builder_ok ids ds (flush_segment sha b)"
  by (simp add: builder_ok_def flush_open)

lemma entry_holds_more: "entry_holds ps e d \<Longrightarrow> i \<notin> fst ` set ps \<Longrightarrow> entry_holds (ps @ [(i, p)]) e d"
  by (fastforce simp: entry_holds_def map_add_def dest: map_of_SomeD split: option.splits)

lemma builder_ok_begin:
  assumes ok: "builder_ok ids ds b" and new: "i \<notin> set ids"
  shows "builder_ok (ids @ [i]) ds (begin_segment sha i kind b)"
proof -
  let ?f = "flush_segment sha b"
  have f: "builder_ok ids ds ?f" "ib_current_segment ?f = None"
    using builder_ok_flush [OF ok] ok by (simp_all add: builder_ok_def flush_open)
  have ps: "open_payloads (begin_segment sha i kind b) = open_payloads ?f @ [(i, [])]"
    using f(2) by (simp add: open_payloads_def begin_segment_def Let_def)
  have "set (map fst (open_payloads ?f)) = set ids" using f(1) by (simp only: builder_ok_def)
  with new have "i \<notin> fst ` set (open_payloads ?f)" by simp
  then have "list_all2 (entry_holds (open_payloads ?f @ [(i, [])])) (ib_tensors ?f) ds"
    using f(1) by (auto simp: builder_ok_def intro: list_all2_mono entry_holds_more)
  with f show ?thesis
    by (simp add: builder_ok_def ps) (simp add: begin_segment_def Let_def open_tensor_ids_def open_bytes_def)
qed

lemma entry_holds_append:
  assumes "entry_holds (qs @ [(i, p)]) e d" and "i \<notin> fst ` set qs"
  shows "entry_holds (qs @ [(i, p @ p')]) e d"
proof -
  have none: "map_of qs i = None" using assms(2) by (simp add: map_of_eq_None_iff)
  show ?thesis
  proof (cases "te_segment e = i")
    case True
    with assms(1) none show ?thesis by (auto simp: entry_holds_def map_add_def)
  next
    case False
    with assms(1) show ?thesis by (auto simp: entry_holds_def map_add_def split: option.splits)
  qed
qed

lemma builder_ok_add:
  assumes ok: "builder_ok ids ds b" and ids: "distinct ids" and add: "add_tensor a b = Some (i, b')"
  shows "builder_ok ids (ds @ [ta_data a]) b' \<and> i = length ds"
proof -
  obtain s where s: "ib_current_segment b = Some s"
    using add by (auto simp: add_tensor_def split: option.splits)
  let ?qs = "zip (map sg_id (ib_segments b)) (ib_segment_payloads b)"
  have ps: "open_payloads b = ?qs @ [(sb_id s, sb_data s)]"
    by (simp add: open_payloads_def s)
  have "distinct (map fst (?qs @ [(sb_id s, sb_data s)]))"
    using ok ids unfolding ps [symmetric] by (simp only: builder_ok_def)
  then have fresh: "sb_id s \<notin> fst ` set ?qs" by simp
  have ps': "open_payloads b' = ?qs @ [(sb_id s, sb_data s @ ta_data a)]"
    using add by (auto simp: add_tensor_def s Let_def open_payloads_def)
  have old: "list_all2 (entry_holds (open_payloads b')) (ib_tensors b) ds"
    using ok fresh by (auto simp: builder_ok_def ps ps' intro: list_all2_mono entry_holds_append)
  have len: "sb_offset s = length (sb_data s)" using ok s by (simp add: builder_ok_def)
  from add ok s obtain e where e: "ib_tensors b' = ib_tensors b @ [e]" "te_segment e = sb_id s"
    "te_offset e = length (sb_data s)" "te_byte_length e = length (ta_data a)" "te_id e = length ds"
    by (auto simp: add_tensor_def Let_def builder_ok_def)
  have "map_of ?qs (sb_id s) = None" using fresh by (simp add: map_of_eq_None_iff)
  then have "entry_holds (open_payloads b') e (ta_data a)"
    by (simp add: entry_holds_def ps' e map_add_def)
  with old have "list_all2 (entry_holds (open_payloads b')) (ib_tensors b') (ds @ [ta_data a])"
    by (simp add: e(1) list_all2_appendI)
  with ok add s e ps ps' len show ?thesis
    by (auto simp: builder_ok_def add_tensor_def Let_def open_tensor_ids_def open_bytes_def)
qed

lemma builder_ok_run:
  "builder_ok ids ds b \<Longrightarrow> distinct (ids @ begun ops) \<Longrightarrow> run_ops sha ops b = Some b' \<Longrightarrow>
    builder_ok (ids @ begun ops) (ds @ added ops) b'"
proof (induction sha ops b arbitrary: ids ds rule: run_ops.induct)
  case (2 sha op ops b)
  then obtain b1 where b1: "run_op sha op b = Some b1" "run_ops sha ops b1 = Some b'"
    by (auto split: option.splits)
  show ?case
  proof (cases op)
    case (BeginSegment i kind)
    then have "builder_ok (ids @ [i]) ds b1"
      using builder_ok_begin [OF 2(2)] b1(1) 2(3) by auto
    from 2(1) [OF b1(1) this _ b1(2)] 2(3) BeginSegment show ?thesis by simp
  next
    case (AddTensor a)
    then obtain i where "add_tensor a b = Some (i, b1)" using b1(1) by auto
    then have "builder_ok ids (ds @ [ta_data a]) b1"
      using builder_ok_add [OF 2(2)] 2(3) by auto
    from 2(1) [OF b1(1) this _ b1(2)] 2(3) AddTensor show ?thesis by simp
  next
    case (AddAlias name i reason)
    then have "builder_ok ids ds b1"
      using 2(2) b1(1)
      by (auto simp: add_alias_def builder_ok_def open_payloads_def open_tensor_ids_def open_bytes_def)
    from 2(1) [OF b1(1) this _ b1(2)] 2(3) AddAlias show ?thesis by simp
  qed
qed simp

text \<open>After any program of builder calls that begins its segments under distinct identifiers, every entry of
  the final tensor table reads back exactly the bytes it was added with.  Tensors are numbered from 0 in the
  order of the calls, every tensor belongs to one segment, and the total is the sum of what was added.\<close>

theorem image_roundtrip:
  assumes "run_ops sha ops ib_new = Some b" and "distinct (begun ops)"
  shows "map (read_tensor (ib_finalize sha b)) (im_tensor_table (ib_finalize sha b)) = map Some (added ops) \<and>
    map te_id (im_tensor_table (ib_finalize sha b)) = [0..<length (added ops)] \<and>
    concat (map sg_tensor_ids (im_segments (ib_finalize sha b))) = [0..<length (added ops)] \<and>
    im_total_bytes (ib_finalize sha b) = length (concat (added ops))"
proof -
  have "builder_ok [] [] ib_new"
    by (simp add: builder_ok_def ib_new_def open_payloads_def open_tensor_ids_def open_bytes_def)
  from builder_ok_run [OF this _ assms(1)] assms(2) have "builder_ok (begun ops) (added ops) b" by simp
  then have ok: "builder_ok (begun ops) (added ops) (flush_segment sha b)" by (rule builder_ok_flush)
  have none: "ib_current_segment (flush_segment sha b) = None"
    using \<open>builder_ok (begun ops) (added ops) b\<close> by (simp add: builder_ok_def flush_open)
  let ?im = "ib_finalize sha b"
  have ps: "open_payloads (flush_segment sha b) = zip (map sg_id (im_segments ?im)) (im_payloads ?im)"
    by (simp add: open_payloads_def none ib_finalize_def Let_def)
  have "list_all2 (entry_holds (open_payloads (flush_segment sha b))) (im_tensor_table ?im) (added ops)"
    using ok by (simp add: builder_ok_def ib_finalize_def Let_def)
  then have "list_all2 (\<lambda>e d. read_tensor ?im e = Some d) (im_tensor_table ?im) (added ops)"
    by (rule list_all2_mono) (auto simp: entry_holds_def read_tensor_def ps)
  then have "map (read_tensor ?im) (im_tensor_table ?im) = map Some (added ops)"
    by (simp add: list_all2_conv_all_nth list_eq_iff_nth_eq)
  with ok none show ?thesis
    by (simp add: builder_ok_def open_tensor_ids_def open_bytes_def ib_finalize_def Let_def)
qed

definition tensor_of_bytes :: "u8 list \<Rightarrow> tensor_args" where
  "tensor_of_bytes d = \<lparr>ta_name = ''w'', ta_role = '''', ta_layer = None, ta_data = d, ta_source_filename = '''',
     ta_source_sha256 = '''', ta_source_offset = 0, ta_logical_dtype = ''F32'', ta_storage_dtype = ''U8'',
     ta_logical_shape = [], ta_physical_shape = [], ta_quantization = None\<rparr>"

lemma image_roundtrip_witness:
  "let ops = [BeginSegment ''persistent'' Persistent, AddTensor (tensor_of_bytes [1, 2, 3]),
         AddTensor (tensor_of_bytes [4]), BeginSegment ''layer_0'' (LayerSegment 0), AddTensor (tensor_of_bytes [5, 6])]
   in \<exists>b. run_ops (\<lambda>_. '''') ops ib_new = Some b \<and>
      map (read_tensor (ib_finalize (\<lambda>_. '''') b)) (im_tensor_table (ib_finalize (\<lambda>_. '''') b)) =
        [Some [1, 2, 3], Some [4], Some [5, 6]]"
proof -
  let ?ops = "[BeginSegment ''persistent'' Persistent, AddTensor (tensor_of_bytes [1, 2, 3]),
    AddTensor (tensor_of_bytes [4]), BeginSegment ''layer_0'' (LayerSegment 0), AddTensor (tensor_of_bytes [5, 6])]"
  obtain b where b: "run_ops (\<lambda>_. '''') ?ops ib_new = Some b"
    by (simp add: add_tensor_def begin_segment_def Let_def)
  from image_roundtrip [OF this] b show ?thesis by (simp add: tensor_of_bytes_def)
qed

text \<open>The table promises an alignment of 16 bytes that the offsets do not have.\<close>

lemma offsets_not_aligned:
  "map_option (\<lambda>b. map (\<lambda>e. (te_offset e, te_tensor_alignment_bytes e)) (ib_tensors b))
     (run_ops sha [BeginSegment ''s'' Persistent, AddTensor (tensor_of_bytes [1, 2, 3]),
       AddTensor (tensor_of_bytes [4])] ib_new) = Some [(0, 16), (3, 16)]"
  by (simp add: add_tensor_def begin_segment_def flush_segment_def ib_new_def tensor_of_bytes_def Let_def)

end
