(* ===== verification/ModelConfig.thy ===== *)
theory ModelConfig
  imports Decimal "HOL-Library.Sublist"
begin

text \<open>
  The configuration layer of \<open>config.rs\<close> and \<open>config_namespace.rs\<close>: the normalised architecture from the parsed
  JSON, the namespace of the text model, the execution specification with its tensor bindings, and the hardware
  targets.  The JSON parser belongs to serde; the raw structures it fills are records here.  Floating point
  values are of any type \<open>'f\<close>, since nothing here computes with them.  Dimensions are 32 bit words; a
  division by zero panics, which is the outer \<open>None\<close>.
\<close>

subsection \<open>The normalised architecture\<close>

datatype attention_kind = SlidingAttention | FullAttention

record 'f rope_spec =
  rs_theta :: 'f
  rs_rope_type :: string
  rs_partial_rotary_factor :: "'f option"

record moe_config =
  mo_num_experts :: u32
  mo_top_k_experts :: u32
  mo_intermediate_size :: u32
  mo_shared_experts :: bool

record 'f text_arch =
  ar_hidden_size :: u32
  ar_intermediate_size :: u32
  ar_num_attention_heads :: u32
  ar_num_key_value_heads :: u32
  ar_head_dim :: u32
  ar_global_head_dim :: "u32 option"
  ar_num_global_key_value_heads :: "u32 option"
  ar_num_hidden_layers :: u32
  ar_vocab_size :: u32
  ar_sliding_window :: u32
  ar_max_position_embeddings :: u32
  ar_rms_norm_eps :: 'f
  ar_tie_word_embeddings :: bool
  ar_attention_k_eq_v :: bool
  ar_final_logit_softcapping :: "'f option"
  ar_hidden_size_per_layer_input :: u32
  ar_layer_types :: "attention_kind list"
  ar_rope_local :: "'f rope_spec"
  ar_rope_global :: "'f rope_spec option"
  ar_model_type :: string
  ar_moe_config :: "moe_config option"

datatype quantization_mode = QuantNone | QuantAffine | QuantSymmetric

text \<open>The overrides of a \<open>QuantizationMeta\<close> are always created empty and left out.\<close>

record quantization_meta =
  qm_bits :: u32
  qm_group_size :: u32
  qm_mode :: quantization_mode

subsection \<open>The raw configuration\<close>

record 'f raw_rope_spec =
  rr_rope_theta :: 'f
  rr_rope_type :: "string option"
  rr_partial_rotary_factor :: "'f option"

text \<open>The two members of \<open>RawRopeParams\<close> are a pair: sliding attention, full attention.\<close>

record 'f raw_text_config =
  rt_hidden_size :: u32
  rt_intermediate_size :: u32
  rt_num_attention_heads :: u32
  rt_num_key_value_heads :: u32
  rt_head_dim :: u32
  rt_global_head_dim :: "u32 option"
  rt_num_global_key_value_heads :: "u32 option"
  rt_num_hidden_layers :: u32
  rt_vocab_size :: u32
  rt_sliding_window :: u32
  rt_max_position_embeddings :: "u32 option"
  rt_rms_norm_eps :: 'f
  rt_tie_word_embeddings :: "bool option"
  rt_attention_k_eq_v :: "bool option"
  rt_final_logit_softcapping :: "'f option"
  rt_hidden_size_per_layer_input :: "u32 option"
  rt_layer_types :: "string list"
  rt_rope_parameters :: "('f raw_rope_spec option \<times> 'f raw_rope_spec option) option"
  rt_model_type :: "string option"

record raw_quantization =
  rq_group_size :: "u32 option"
  rq_bits :: "u32 option"
  rq_mode :: "string option"

record 'f raw_config =
  rc_model_type :: "string option"
  rc_hidden_size :: "u32 option"
  rc_intermediate_size :: "u32 option"
  rc_num_attention_heads :: "u32 option"
  rc_num_key_value_heads :: "u32 option"
  rc_head_dim :: "u32 option"
  rc_global_head_dim :: "u32 option"
  rc_num_global_key_value_heads :: "u32 option"
  rc_num_hidden_layers :: "u32 option"
  rc_vocab_size :: "u32 option"
  rc_sliding_window :: "u32 option"
  rc_rms_norm_eps :: "'f option"
  rc_tie_word_embeddings :: "bool option"
  rc_attention_k_eq_v :: "bool option"
  rc_final_logit_softcapping :: "'f option"
  rc_hidden_size_per_layer_input :: "u32 option"
  rc_layer_types :: "string list option"
  rc_enable_moe_block :: "bool option"
  rc_moe_intermediate_size :: "u32 option"
  rc_num_experts :: "u32 option"
  rc_top_k_experts :: "u32 option"
  rc_text_config :: "'f raw_text_config option"
  rc_has_vision_config :: bool
  rc_has_audio_config :: bool
  rc_quantization :: "raw_quantization option"
  rc_max_position_embeddings :: "u32 option"

definition unwrap_or :: "'a option \<Rightarrow> 'a \<Rightarrow> 'a" where
  "unwrap_or x d = (case x of Some v \<Rightarrow> v | None \<Rightarrow> d)"

definition option_or :: "'a option \<Rightarrow> 'a option \<Rightarrow> 'a option" where
  "option_or x y = (case x of Some v \<Rightarrow> Some v | None \<Rightarrow> y)"

text \<open>\<open>to_text_config_fallback\<close>; \<open>eps\<close> is the literal \<open>1e-6\<close>.\<close>

definition to_text_config_fallback :: "'f \<Rightarrow> 'f raw_config \<Rightarrow> 'f raw_text_config option" where
  "to_text_config_fallback eps rc = (
     let heads = unwrap_or (rc_num_attention_heads rc) 16 in
     if rc_head_dim rc = None \<and> heads = 0 then None
     else Some \<lparr>rt_hidden_size = unwrap_or (rc_hidden_size rc) 2048,
       rt_intermediate_size = unwrap_or (rc_intermediate_size rc) 8192,
       rt_num_attention_heads = heads,
       rt_num_key_value_heads = unwrap_or (rc_num_key_value_heads rc) 4,
       rt_head_dim = (case rc_head_dim rc of Some d \<Rightarrow> d | None \<Rightarrow> unwrap_or (rc_hidden_size rc) 2048 div heads),
       rt_global_head_dim = rc_global_head_dim rc,
       rt_num_global_key_value_heads = rc_num_global_key_value_heads rc,
       rt_num_hidden_layers = unwrap_or (rc_num_hidden_layers rc) 24,
       rt_vocab_size = unwrap_or (rc_vocab_size rc) 32768,
       rt_sliding_window = unwrap_or (rc_sliding_window rc) 32768,
       rt_max_position_embeddings = rc_max_position_embeddings rc,
       rt_rms_norm_eps = unwrap_or (rc_rms_norm_eps rc) eps,
       rt_tie_word_embeddings = rc_tie_word_embeddings rc,
       rt_attention_k_eq_v = rc_attention_k_eq_v rc,
       rt_final_logit_softcapping = rc_final_logit_softcapping rc,
       rt_hidden_size_per_layer_input = rc_hidden_size_per_layer_input rc,
       rt_layer_types = unwrap_or (rc_layer_types rc) [],
       rt_rope_parameters = None,
       rt_model_type = rc_model_type rc\<rparr>)"

datatype config_error = LayerTypeCount nat nat

definition parse_layer_types :: "'f raw_text_config \<Rightarrow> config_error + attention_kind list" where
  "parse_layer_types rt = (
     let kinds = map (\<lambda>s. if s = ''full_attention'' then FullAttention else SlidingAttention) (rt_layer_types rt) in
     if kinds = [] then Inr (replicate (unat (rt_num_hidden_layers rt)) SlidingAttention)
     else if length kinds \<noteq> unat (rt_num_hidden_layers rt)
     then Inl (LayerTypeCount (length kinds) (unat (rt_num_hidden_layers rt)))
     else Inr kinds)"

text \<open>The rope of the sliding layers has a default with \<open>theta\<close> \<open>10000.0\<close>, that of the full layers none.\<close>

definition rope_of_raw :: "string \<Rightarrow> 'f raw_rope_spec \<Rightarrow> 'f rope_spec" where
  "rope_of_raw kind s = \<lparr>rs_theta = rr_rope_theta s, rs_rope_type = unwrap_or (rr_rope_type s) kind,
     rs_partial_rotary_factor = rr_partial_rotary_factor s\<rparr>"

definition parse_rope_local :: "'f \<Rightarrow> 'f raw_text_config \<Rightarrow> 'f rope_spec" where
  "parse_rope_local theta rt = (case rt_rope_parameters rt of
     Some (Some s, _) \<Rightarrow> rope_of_raw ''default'' s
   | _ \<Rightarrow> \<lparr>rs_theta = theta, rs_rope_type = ''default'', rs_partial_rotary_factor = None\<rparr>)"

definition parse_rope_global :: "'f raw_text_config \<Rightarrow> 'f rope_spec option" where
  "parse_rope_global rt = (case rt_rope_parameters rt of
     Some (_, Some s) \<Rightarrow> Some (rope_of_raw ''proportional'' s) | _ \<Rightarrow> None)"

definition parse_moe :: "'f raw_config \<Rightarrow> 'f raw_text_config \<Rightarrow> moe_config option" where
  "parse_moe rc rt = (
     if unwrap_or (rc_enable_moe_block rc) False then
       let n = unwrap_or (rc_num_experts rc) 0; k = unwrap_or (rc_top_k_experts rc) 1 in
       if n > 0 \<and> k > 0 then
         Some \<lparr>mo_num_experts = n, mo_top_k_experts = k,
           mo_intermediate_size = unwrap_or (rc_moe_intermediate_size rc) (rt_intermediate_size rt),
           mo_shared_experts = False\<rparr>
       else None
     else None)"

text \<open>\<open>str::contains\<close>.\<close>

definition str_contains :: "string \<Rightarrow> string \<Rightarrow> bool" where
  "str_contains s p \<longleftrightarrow> list_ex (prefix p) (suffixes s)"

definition parse_quantization :: "'f raw_config \<Rightarrow> quantization_meta option" where
  "parse_quantization rc = (case rc_quantization rc of
     Some q \<Rightarrow> Some \<lparr>qm_bits = unwrap_or (rq_bits q) 16, qm_group_size = unwrap_or (rq_group_size q) 64,
       qm_mode = (if rq_mode q = Some ''affine'' then QuantAffine else QuantNone)\<rparr>
   | None \<Rightarrow>
       if rc_text_config rc \<noteq> None then
         let mt = unwrap_or (rc_model_type rc) '''' in
         if str_contains mt ''unified'' \<or> prefix ''gemma4'' mt
         then Some \<lparr>qm_bits = 8, qm_group_size = 64, qm_mode = QuantAffine\<rparr> else None
       else None)"

definition arch_of_raw ::
  "'f \<Rightarrow> 'f raw_config \<Rightarrow> 'f raw_text_config \<Rightarrow> attention_kind list \<Rightarrow> 'f text_arch" where
  "arch_of_raw theta rc rt kinds = \<lparr>ar_hidden_size = rt_hidden_size rt,
     ar_intermediate_size = rt_intermediate_size rt,
     ar_num_attention_heads = rt_num_attention_heads rt,
     ar_num_key_value_heads = rt_num_key_value_heads rt,
     ar_head_dim = rt_head_dim rt,
     ar_global_head_dim = rt_global_head_dim rt,
     ar_num_global_key_value_heads = rt_num_global_key_value_heads rt,
     ar_num_hidden_layers = rt_num_hidden_layers rt,
     ar_vocab_size = rt_vocab_size rt,
     ar_sliding_window = rt_sliding_window rt,
     ar_max_position_embeddings =
       unwrap_or (option_or (rt_max_position_embeddings rt) (rc_max_position_embeddings rc)) 131072,
     ar_rms_norm_eps = rt_rms_norm_eps rt,
     ar_tie_word_embeddings = unwrap_or (rt_tie_word_embeddings rt) True,
     ar_attention_k_eq_v = unwrap_or (rt_attention_k_eq_v rt) True,
     ar_final_logit_softcapping = rt_final_logit_softcapping rt,
     ar_hidden_size_per_layer_input = unwrap_or (rt_hidden_size_per_layer_input rt) 0,
     ar_layer_types = kinds,
     ar_rope_local = parse_rope_local theta rt,
     ar_rope_global = parse_rope_global rt,
     ar_model_type = unwrap_or (rt_model_type rt) ''gemma4_unified_text'',
     ar_moe_config = parse_moe rc rt\<rparr>"

text \<open>\<open>parse_config\<close> behind the JSON parser, with the two literals it contains.\<close>

definition parse_config ::
  "'f \<Rightarrow> 'f \<Rightarrow> 'f raw_config \<Rightarrow> (config_error + 'f text_arch \<times> quantization_meta option) option" where
  "parse_config theta eps rc =
     (case (case rc_text_config rc of Some rt \<Rightarrow> Some rt | None \<Rightarrow> to_text_config_fallback eps rc) of
        None \<Rightarrow> None
      | Some rt \<Rightarrow>
          (case parse_layer_types rt of
             Inl e \<Rightarrow> Some (Inl e)
           | Inr kinds \<Rightarrow> Some (Inr (arch_of_raw theta rc rt kinds, parse_quantization rc))))"


subsection \<open>The namespace of the text model\<close>

record namespace =
  ns_root :: string
  ns_discovery :: string
  ns_lm_head_key :: string
  ns_lm_head_aliased :: bool

definition anchors :: "string list" where
  "anchors = [''embed_tokens.weight'', ''norm.weight'', ''layers.0.input_layernorm.weight'',
     ''layers.0.self_attn.q_proj.weight'']"

definition try_candidate :: "string list \<Rightarrow> string \<Rightarrow> namespace option" where
  "try_candidate names candidate = (
     if list_all (\<lambda>a. candidate @ ''.'' @ a \<in> set names) anchors then
       let lm_head_key = candidate @ ''.lm_head.weight'';
           lm_head_exists = lm_head_key \<in> set names in
       Some \<lparr>ns_root = candidate,
         ns_discovery = ''matched '' @ dec (length anchors) @ '' anchors under '' @ [CHR 0x27] @ candidate @ [CHR 0x27],
         ns_lm_head_key = (if lm_head_exists then lm_head_key else candidate @ ''.embed_tokens.weight''),
         ns_lm_head_aliased = (\<not> lm_head_exists)\<rparr>
     else None)"

definition resolve_namespace :: "string list \<Rightarrow> namespace option" where
  "resolve_namespace names = (case try_candidate names ''language_model.model'' of
     Some ns \<Rightarrow> Some ns | None \<Rightarrow> try_candidate names ''model'')"

subsection \<open>The execution specification\<close>

datatype tensor_role = Embedding | FinalNorm | LmHead | AttentionNorm | FfnNorm | QProj | KProj | VProj | OProj
  | GlobalKProj | GlobalVProj | GateProj | UpProj | DownProj | QNorm | KNorm

record packed_shapes =
  pk_weight :: "u32 list"
  pk_scales :: "u32 list"
  pk_biases :: "u32 list"
  pk_bits :: u32
  pk_group_size :: u32
  pk_groups :: u32

record tensor_binding =
  tb_name :: string
  tb_role :: tensor_role
  tb_logical_shape :: "u32 list"
  tb_packed_shape :: "packed_shapes option"

record 'f layer_spec =
  ls_index :: nat
  ls_attention_kind :: attention_kind
  ls_q_out :: u32
  ls_kv_out :: u32
  ls_n_heads :: u32
  ls_n_kv_heads :: u32
  ls_head_dim :: u32
  ls_global_kv_out :: "u32 option"
  ls_n_global_kv_heads :: "u32 option"
  ls_global_head_dim :: "u32 option"
  ls_rope_theta :: 'f
  ls_rope_type :: string
  ls_partial_rotary_factor :: "'f option"
  ls_sliding_window :: "u32 option"
  ls_tensors :: "tensor_binding list"

record 'f execution_spec =
  es_architecture :: "'f text_arch"
  es_namespace :: namespace
  es_global_tensors :: "tensor_binding list"
  es_layers :: "'f layer_spec list"
  es_quantization :: "quantization_meta option"

text \<open>A packed \<open>out\<close> by \<open>in\<close> matrix: \<open>32 / bits\<close> values per stored word.  \<open>None\<close> is a division by zero.\<close>

definition pack_linear :: "u32 \<Rightarrow> u32 \<Rightarrow> u32 \<Rightarrow> u32 \<Rightarrow> packed_shapes option" where
  "pack_linear out_dim in_dim group_size bits = (
     if bits = 0 \<or> 32 div bits = 0 \<or> group_size = 0 then None
     else
       let packed_in = in_dim div (32 div bits);
           n_groups = in_dim div group_size in
       Some \<lparr>pk_weight = [out_dim, packed_in], pk_scales = [out_dim, n_groups], pk_biases = [out_dim, n_groups],
         pk_bits = bits, pk_group_size = group_size, pk_groups = n_groups\<rparr>)"

definition layer_tensor :: "string \<Rightarrow> nat \<Rightarrow> string \<Rightarrow> string" where
  "layer_tensor root layer name = root @ ''.layers.'' @ dec layer @ ''.'' @ name @ ''.weight''"

definition norm_binding :: "string \<Rightarrow> nat \<Rightarrow> string \<Rightarrow> tensor_role \<Rightarrow> u32 \<Rightarrow> tensor_binding" where
  "norm_binding root layer name role dim =
     \<lparr>tb_name = layer_tensor root layer name, tb_role = role, tb_logical_shape = [dim], tb_packed_shape = None\<rparr>"

definition quantized_linear ::
  "string \<Rightarrow> nat \<Rightarrow> string \<Rightarrow> tensor_role \<Rightarrow> u32 \<Rightarrow> u32 \<Rightarrow> u32 \<Rightarrow> u32 \<Rightarrow> tensor_binding option" where
  "quantized_linear root layer proj role out_dim in_dim group_size bits =
     map_option (\<lambda>p. \<lparr>tb_name = layer_tensor root layer proj, tb_role = role,
         tb_logical_shape = [out_dim, in_dim], tb_packed_shape = Some p\<rparr>)
       (pack_linear out_dim in_dim group_size bits)"

definition full_head_dim :: "'f text_arch \<Rightarrow> u32" where
  "full_head_dim ar = unwrap_or (ar_global_head_dim ar) (ar_head_dim ar)"

definition full_kv_out :: "'f text_arch \<Rightarrow> u32" where
  "full_kv_out ar = unwrap_or (ar_num_global_key_value_heads ar) 1 * full_head_dim ar"

definition spec_layer_tensors ::
  "string \<Rightarrow> 'f text_arch \<Rightarrow> u32 \<Rightarrow> u32 \<Rightarrow> nat \<Rightarrow> attention_kind \<Rightarrow> tensor_binding list option" where
  "spec_layer_tensors root ar gs bits layer kind = (
     let is_full = (kind = FullAttention);
         norm_dim = (if is_full then full_head_dim ar else ar_head_dim ar);
         q_out = ar_num_attention_heads ar * norm_dim;
         kv_out = (if is_full then full_kv_out ar else ar_num_key_value_heads ar * ar_head_dim ar);
         hidden = ar_hidden_size ar;
         inter = ar_intermediate_size ar in
     those ([Some (norm_binding root layer ''input_layernorm'' AttentionNorm hidden),
        Some (norm_binding root layer ''post_attention_layernorm'' FfnNorm hidden),
        Some (norm_binding root layer ''self_attn.q_norm'' QNorm norm_dim),
        Some (norm_binding root layer ''self_attn.k_norm'' KNorm norm_dim),
        quantized_linear root layer ''self_attn.q_proj'' QProj q_out hidden gs bits,
        quantized_linear root layer ''self_attn.k_proj'' KProj kv_out hidden gs bits] @
       (if \<not> is_full then [quantized_linear root layer ''self_attn.v_proj'' VProj
          (ar_num_key_value_heads ar * ar_head_dim ar) hidden gs bits] else []) @
       [quantized_linear root layer ''self_attn.o_proj'' OProj hidden q_out gs bits,
        quantized_linear root layer ''mlp.gate_proj'' GateProj inter hidden gs bits,
        quantized_linear root layer ''mlp.up_proj'' UpProj inter hidden gs bits,
        quantized_linear root layer ''mlp.down_proj'' DownProj hidden inter gs bits]))"

definition rope_for :: "'f text_arch \<Rightarrow> bool \<Rightarrow> 'f rope_spec" where
  "rope_for ar is_full = (if is_full then unwrap_or (ar_rope_global ar) (ar_rope_local ar) else ar_rope_local ar)"

definition compile_layer ::
  "string \<Rightarrow> 'f text_arch \<Rightarrow> u32 \<Rightarrow> u32 \<Rightarrow> nat \<Rightarrow> attention_kind \<Rightarrow> 'f layer_spec option" where
  "compile_layer root ar gs bits layer kind = (
     let is_full = (kind = FullAttention);
         hdim = (if is_full then full_head_dim ar else ar_head_dim ar);
         rope = rope_for ar is_full in
     map_option (\<lambda>tensors. \<lparr>ls_index = layer, ls_attention_kind = kind,
         ls_q_out = ar_num_attention_heads ar * hdim,
         ls_kv_out = (if is_full then full_kv_out ar else ar_num_key_value_heads ar * ar_head_dim ar),
         ls_n_heads = ar_num_attention_heads ar, ls_n_kv_heads = ar_num_key_value_heads ar,
         ls_head_dim = hdim,
         ls_global_kv_out = (if is_full then Some (full_kv_out ar) else None),
         ls_n_global_kv_heads = ar_num_global_key_value_heads ar, ls_global_head_dim = ar_global_head_dim ar,
         ls_rope_theta = rs_theta rope, ls_rope_type = rs_rope_type rope,
         ls_partial_rotary_factor = rs_partial_rotary_factor rope,
         ls_sliding_window = (if is_full then None else Some (ar_sliding_window ar)),
         ls_tensors = tensors\<rparr>)
       (spec_layer_tensors root ar gs bits layer kind))"

definition compile_globals ::
  "string \<Rightarrow> 'f text_arch \<Rightarrow> quantization_meta option \<Rightarrow> tensor_binding list option" where
  "compile_globals root ar q = (
     let embed = (\<lambda>packed. \<lparr>tb_name = root @ ''.embed_tokens.weight'', tb_role = Embedding,
           tb_logical_shape = [ar_vocab_size ar, ar_hidden_size ar], tb_packed_shape = packed\<rparr>);
         rest = \<lparr>tb_name = root @ ''.norm.weight'', tb_role = FinalNorm,
             tb_logical_shape = [ar_hidden_size ar], tb_packed_shape = None\<rparr> #
           (if \<not> ar_tie_word_embeddings ar then [\<lparr>tb_name = root @ ''.lm_head.weight'', tb_role = LmHead,
             tb_logical_shape = [ar_vocab_size ar, ar_hidden_size ar], tb_packed_shape = None\<rparr>] else []) in
     (case q of
        None \<Rightarrow> Some (embed None # rest)
      | Some m \<Rightarrow> map_option (\<lambda>p. embed (Some p) # rest)
          (pack_linear (ar_vocab_size ar) (ar_hidden_size ar) (qm_group_size m) (qm_bits m))))"

text \<open>\<open>compile\<close>: without quantization metadata the layers still get 16 bits in groups of 64.\<close>

definition compile_spec ::
  "'f text_arch \<Rightarrow> namespace \<Rightarrow> quantization_meta option \<Rightarrow> 'f execution_spec option" where
  "compile_spec ar ns q = (
     let bits = (case q of Some m \<Rightarrow> qm_bits m | None \<Rightarrow> 16);
         gs = (case q of Some m \<Rightarrow> qm_group_size m | None \<Rightarrow> 64) in
     (case compile_globals (ns_root ns) ar q of
        None \<Rightarrow> None
      | Some globals \<Rightarrow>
          map_option (\<lambda>layers. \<lparr>es_architecture = ar, es_namespace = ns, es_global_tensors = globals,
              es_layers = layers, es_quantization = q\<rparr>)
            (those (map (\<lambda>(i, kind). compile_layer (ns_root ns) ar gs bits i kind)
              (enumerate 0 (ar_layer_types ar))))))"

definition filter_spec_to_existing :: "string set \<Rightarrow> 'f execution_spec \<Rightarrow> 'f execution_spec" where
  "filter_spec_to_existing existing sp = sp\<lparr>
     es_global_tensors := filter (\<lambda>b. tb_name b \<in> existing) (es_global_tensors sp),
     es_layers := map (\<lambda>l. l\<lparr>ls_tensors := filter (\<lambda>b. tb_name b \<in> existing) (ls_tensors l)\<rparr>) (es_layers sp)\<rparr>"

subsection \<open>Hardware targets\<close>

datatype compile_quant_mode = Nf4 u32 | Af8 u32

definition quant_mode_from_name :: "string \<Rightarrow> compile_quant_mode option" where
  "quant_mode_from_name name = (
     if name = ''nf4'' then Some (Nf4 64) else if name = ''nf4-128'' then Some (Nf4 128)
     else if name = ''8bit'' then Some (Af8 64) else None)"

definition quant_mode_name :: "compile_quant_mode \<Rightarrow> string" where
  "quant_mode_name m = (case m of
     Nf4 g \<Rightarrow> if g = 64 then ''nf4'' else if g = 128 then ''nf4-128'' else ''nf4-64''
   | Af8 _ \<Rightarrow> ''8bit'')"

datatype hardware_target = M1 | M1Pro | M2 | M2Ultra | M3Ultra

definition detect_target :: "u64 \<Rightarrow> u32 \<Rightarrow> hardware_target" where
  "detect_target ram_mb cpu_count = (
     if ram_mb \<ge> 393216 \<and> cpu_count \<ge> 24 then M3Ultra
     else if ram_mb \<ge> 131072 \<and> cpu_count \<ge> 20 then M2Ultra
     else if ram_mb \<ge> 65536 \<and> cpu_count \<ge> 12 then M2
     else if ram_mb \<ge> 32768 then M1Pro else M1)"

fun recommended_quant :: "hardware_target \<Rightarrow> string" where
  "recommended_quant M1 = ''nf4-128''"
| "recommended_quant M1Pro = ''nf4-64''"
| "recommended_quant M2 = ''nf4-64''"
| "recommended_quant M2Ultra = ''8bit''"
| "recommended_quant M3Ultra = ''none''"

definition needs_weight_streaming :: "hardware_target \<Rightarrow> bool" where
  "needs_weight_streaming t \<longleftrightarrow> t = M1 \<or> t = M1Pro"

fun recommended_batch :: "hardware_target \<Rightarrow> u32" where
  "recommended_batch M1 = 4"
| "recommended_batch M1Pro = 8"
| "recommended_batch M2 = 12"
| "recommended_batch M2Ultra = 20"
| "recommended_batch M3Ultra = 32"

definition ane_cores :: "hardware_target \<Rightarrow> u32" where
  "ane_cores t = (if t = M2Ultra \<or> t = M3Ultra then 32 else 16)"

fun segment_target_size_mb :: "hardware_target \<Rightarrow> u32" where
  "segment_target_size_mb M1 = 64"
| "segment_target_size_mb M1Pro = 128"
| "segment_target_size_mb M2 = 256"
| "segment_target_size_mb M2Ultra = 512"
| "segment_target_size_mb M3Ultra = 1024"

text \<open>\<open>compile_with_authority\<close>: a mode that was asked for, else the one the target recommends.\<close>

definition effective_quant :: "compile_quant_mode option \<Rightarrow> hardware_target \<Rightarrow> compile_quant_mode option" where
  "effective_quant asked target = option_or asked (quant_mode_from_name (recommended_quant target))"


subsection \<open>The names of a specification\<close>

lemma layer_tensor_inj: "layer_tensor root i a = layer_tensor root j b \<longleftrightarrow> i = j \<and> a = b"
proof
  assume "layer_tensor root i a = layer_tensor root j b"
  then have "dec i @ CHR ''.'' # (a @ ''.weight'') = dec j @ CHR ''.'' # (b @ ''.weight'')"
    by (simp add: layer_tensor_def)
  from append_cons_unique [OF dec_not_dot dec_not_dot this] show "i = j \<and> a = b"
    by (auto dest: dec_inj)
qed simp

definition layer_names :: "attention_kind \<Rightarrow> string list" where
  "layer_names kind = [''input_layernorm'', ''post_attention_layernorm'', ''self_attn.q_norm'', ''self_attn.k_norm'',
     ''self_attn.q_proj'', ''self_attn.k_proj''] @ (if kind = FullAttention then [] else [''self_attn.v_proj'']) @
     [''self_attn.o_proj'', ''mlp.gate_proj'', ''mlp.up_proj'', ''mlp.down_proj'']"

lemma distinct_layer_names: "distinct (layer_names kind)"
  by (simp add: layer_names_def)

lemma those_Some_iff: "those xs = Some ys \<longleftrightarrow> xs = map Some ys"
  by (induction xs arbitrary: ys) (auto split: option.splits)

lemma pack_linear_some: "pack_linear out_dim in_dim gs bits \<noteq> None \<longleftrightarrow> bits \<noteq> 0 \<and> 32 div bits \<noteq> 0 \<and> gs \<noteq> 0"
  by (simp add: pack_linear_def Let_def)

text \<open>All of a layer's projections are packed.\<close>

lemma spec_layer_tensors_some:
  assumes "spec_layer_tensors root ar gs bits i kind = Some ts"
  shows "map tb_name ts = map (layer_tensor root i) (layer_names kind) \<and>
    (\<forall>b \<in> set ts. \<forall>name. tb_name b = layer_tensor root i name \<longrightarrow>
      (tb_packed_shape b \<noteq> None \<longleftrightarrow>
        name \<notin> {''input_layernorm'', ''post_attention_layernorm'', ''self_attn.q_norm'', ''self_attn.k_norm''}))"
  using assms
  by (auto simp: spec_layer_tensors_def Let_def quantized_linear_def norm_binding_def layer_names_def
      layer_tensor_inj split: option.splits if_splits)

definition global_names :: "bool \<Rightarrow> string list" where
  "global_names tied = [''.embed_tokens.weight'', ''.norm.weight''] @ (if tied then [] else [''.lm_head.weight''])"

lemma compile_globals_some:
  assumes "compile_globals root ar q = Some ts"
  shows "map tb_name ts = map ((@) root) (global_names (ar_tie_word_embeddings ar)) \<and>
    map (\<lambda>b. tb_packed_shape b = None) ts = (q = None) # map (\<lambda>_. True) (tl ts)"
  using assms by (auto simp: compile_globals_def Let_def global_names_def split: option.splits)

lemma compile_spec_some:
  assumes "compile_spec ar ns q = Some sp"
  shows "\<exists>gs bits. compile_globals (ns_root ns) ar q = Some (es_global_tensors sp) \<and>
    map (\<lambda>(i, kind). compile_layer (ns_root ns) ar gs bits i kind) (enumerate 0 (ar_layer_types ar)) =
      map Some (es_layers sp) \<and> es_namespace sp = ns"
  using assms by (auto simp: compile_spec_def Let_def those_Some_iff split: option.splits) blast+

lemma compile_spec_layer:
  assumes "compile_spec ar ns q = Some sp" and "i < length (ar_layer_types ar)"
  shows "i < length (es_layers sp) \<and> ls_index (es_layers sp ! i) = i \<and>
    (\<exists>gs bits. spec_layer_tensors (ns_root ns) ar gs bits i (ar_layer_types ar ! i) = Some (ls_tensors (es_layers sp ! i)))"
proof -
  from compile_spec_some [OF assms(1)] obtain gs bits where
    l: "map (\<lambda>(i, kind). compile_layer (ns_root ns) ar gs bits i kind) (enumerate 0 (ar_layer_types ar)) =
      map Some (es_layers sp)" by blast
  have len: "i < length (es_layers sp)" using arg_cong [OF l, of length] assms(2) by simp
  have layer: "compile_layer (ns_root ns) ar gs bits i (ar_layer_types ar ! i) = Some (es_layers sp ! i)"
    using arg_cong [OF l, of "\<lambda>xs. xs ! i"] assms(2) len by (simp add: nth_enumerate_eq)
  then obtain ts where ts: "spec_layer_tensors (ns_root ns) ar gs bits i (ar_layer_types ar ! i) = Some ts"
    by (auto simp: compile_layer_def Let_def)
  with layer have "ls_index (es_layers sp ! i) = i" "ls_tensors (es_layers sp ! i) = ts"
    by (auto simp: compile_layer_def Let_def dest!: sym [of _ "es_layers sp ! i"])
  with ts len show ?thesis by auto
qed

lemma compile_spec_length: "compile_spec ar ns q = Some sp \<Longrightarrow> length (es_layers sp) = length (ar_layer_types ar)"
  using compile_spec_some [of ar ns q sp] by (auto dest: map_eq_imp_length_eq)

definition spec_names :: "'f execution_spec \<Rightarrow> string list" where
  "spec_names sp = map tb_name (es_global_tensors sp) @ concat (map (\<lambda>l. map tb_name (ls_tensors l)) (es_layers sp))"

lemma layer_tensor_not_global:
  "name \<in> set (global_names tied) \<Longrightarrow> root @ name \<noteq> layer_tensor root i part"
  by (auto simp: global_names_def layer_tensor_def split: if_splits)

lemma distinct_concat_nth:
  assumes "\<And>i. i < length xss \<Longrightarrow> distinct (xss ! i)"
    and "\<And>i j. i < length xss \<Longrightarrow> j < length xss \<Longrightarrow> i \<noteq> j \<Longrightarrow> set (xss ! i) \<inter> set (xss ! j) = {}"
  shows "distinct (concat xss)"
  using assms
proof (induction xss)
  case (Cons xs xss)
  have "distinct (concat xss)"
    by (rule Cons.IH) (use Cons.prems(1) [of "Suc _"] Cons.prems(2) [of "Suc _" "Suc _"] in auto)
  moreover have "set xs \<inter> set (concat xss) = {}"
  proof (rule ccontr)
    assume "set xs \<inter> set (concat xss) \<noteq> {}"
    then obtain ys x where "ys \<in> set xss" "x \<in> set xs" "x \<in> set ys" by auto
    then obtain j where "j < length xss" "xss ! j = ys" by (auto simp: in_set_conv_nth)
    with Cons.prems(2) [of 0 "Suc j"] \<open>x \<in> set xs\<close> \<open>x \<in> set ys\<close> show False by auto
  qed
  ultimately show ?case using Cons.prems(1) [of 0] by simp
qed simp

lemma compile_spec_distinct:
  assumes "compile_spec ar ns q = Some sp"
  shows "distinct (spec_names sp)"
proof -
  let ?root = "ns_root ns"
  have names: "map tb_name (ls_tensors (es_layers sp ! i)) = map (layer_tensor ?root i) (layer_names (ar_layer_types ar ! i))"
    if "i < length (es_layers sp)" for i
    using compile_spec_layer [OF assms, of i] compile_spec_length [OF assms] that spec_layer_tensors_some by fastforce
  obtain tied where globals: "map tb_name (es_global_tensors sp) = map ((@) ?root) (global_names tied)"
    using compile_spec_some [OF assms] compile_globals_some by blast
  have "distinct (concat (map (\<lambda>l. map tb_name (ls_tensors l)) (es_layers sp)))"
  proof (rule distinct_concat_nth)
    fix i assume "i < length (map (\<lambda>l. map tb_name (ls_tensors l)) (es_layers sp))"
    then show "distinct (map (\<lambda>l. map tb_name (ls_tensors l)) (es_layers sp) ! i)"
      using distinct_layer_names by (simp add: names distinct_map inj_on_def layer_tensor_inj)
  next
    fix i j assume "i < length (map (\<lambda>l. map tb_name (ls_tensors l)) (es_layers sp))"
      "j < length (map (\<lambda>l. map tb_name (ls_tensors l)) (es_layers sp))" "i \<noteq> j"
    then show "set (map (\<lambda>l. map tb_name (ls_tensors l)) (es_layers sp) ! i) \<inter>
        set (map (\<lambda>l. map tb_name (ls_tensors l)) (es_layers sp) ! j) = {}"
      by (auto simp del: set_map simp: names) (auto simp: layer_tensor_inj)
  qed
  moreover have "distinct (map tb_name (es_global_tensors sp))"
    unfolding globals by (simp add: distinct_map inj_on_def global_names_def)
  moreover have "set (map tb_name (es_global_tensors sp)) \<inter>
      set (concat (map (\<lambda>l. map tb_name (ls_tensors l)) (es_layers sp))) = {}"
  proof -
    have "x \<notin> set (map tb_name (es_global_tensors sp))" if "x = layer_tensor ?root i part" for x i part
    proof
      assume "x \<in> set (map tb_name (es_global_tensors sp))"
      then obtain name where "name \<in> set (global_names tied)" "x = ?root @ name" unfolding globals by auto
      with layer_tensor_not_global that show False by metis
    qed
    moreover have "\<exists>i part. x = layer_tensor ?root i part"
      if "x \<in> set (concat (map (\<lambda>l. map tb_name (ls_tensors l)) (es_layers sp)))" for x
    proof -
      from that obtain l where "l \<in> set (es_layers sp)" "x \<in> set (map tb_name (ls_tensors l))" by auto
      then obtain i where "i < length (es_layers sp)" "x \<in> set (map tb_name (ls_tensors (es_layers sp ! i)))"
        by (metis in_set_conv_nth)
      then show ?thesis by (auto simp del: set_map simp: names) auto
    qed
    ultimately show ?thesis by blast
  qed
  ultimately show ?thesis by (simp add: spec_names_def)
qed


text \<open>Every binding of a compiled specification has a name of its own, so the maps from names the compiler
  builds lose nothing.\<close>

theorem spec_names_distinct:
  assumes "compile_spec ar ns q = Some sp"
  shows "distinct (spec_names sp)"
  using assms by (rule compile_spec_distinct)

definition example_arch :: "unit text_arch" where
  "example_arch = \<lparr>ar_hidden_size = 64, ar_intermediate_size = 128, ar_num_attention_heads = 2,
     ar_num_key_value_heads = 1, ar_head_dim = 32, ar_global_head_dim = None,
     ar_num_global_key_value_heads = None, ar_num_hidden_layers = 2, ar_vocab_size = 100,
     ar_sliding_window = 16, ar_max_position_embeddings = 128, ar_rms_norm_eps = (),
     ar_tie_word_embeddings = False, ar_attention_k_eq_v = False, ar_final_logit_softcapping = None,
     ar_hidden_size_per_layer_input = 0, ar_layer_types = [SlidingAttention, FullAttention],
     ar_rope_local = \<lparr>rs_theta = (), rs_rope_type = ''default'', rs_partial_rotary_factor = None\<rparr>,
     ar_rope_global = None, ar_model_type = ''tiny'', ar_moe_config = None\<rparr>"

definition example_namespace :: namespace where
  "example_namespace = \<lparr>ns_root = ''model'', ns_discovery = '''', ns_lm_head_key = ''model.embed_tokens.weight'',
     ns_lm_head_aliased = True\<rparr>"

lemma spec_names_distinct_witness:
  "\<exists>sp. compile_spec example_arch example_namespace None = Some sp \<and> length (spec_names sp) = 24 \<and>
    distinct (spec_names sp)"
proof -
  obtain sp where sp: "compile_spec example_arch example_namespace None = Some sp"
    "length (spec_names sp) = 24"
    by (simp add: compile_spec_def compile_globals_def compile_layer_def spec_layer_tensors_def quantized_linear_def
        pack_linear_def Let_def example_arch_def example_namespace_def spec_names_def)
  with spec_names_distinct [OF sp(1)] show ?thesis by blast
qed

text \<open>A packed row holds the whole input dimension exactly if the packing divides it.\<close>

lemma pack_linear_exact:
  assumes "pack_linear out_dim in_dim gs bits = Some p"
  shows "unat (pk_weight p ! 1) * unat (32 div bits) = unat in_dim \<longleftrightarrow> unat (32 div bits) dvd unat in_dim"
  using assms
  by (auto simp: pack_linear_def Let_def unat_div_distrib split: if_splits) (metis dvd_triv_right)

text \<open>Only two targets get the quantization they recommend; the name \<open>nf4-64\<close> is not one the parser knows.\<close>

lemma effective_quant_targets:
  "effective_quant None t = (case t of M1 \<Rightarrow> Some (Nf4 128) | M2Ultra \<Rightarrow> Some (Af8 64) | _ \<Rightarrow> None)"
  by (cases t) (simp_all add: effective_quant_def option_or_def quant_mode_from_name_def)

lemma quant_mode_roundtrip: "quant_mode_from_name name = Some m \<Longrightarrow> quant_mode_name m = name"
  by (auto simp: quant_mode_from_name_def quant_mode_name_def split: if_splits)

text \<open>A parsed architecture has one kind for each layer it counts.\<close>

lemma parse_config_layers:
  "parse_config theta eps rc = Some (Inr (ar, q)) \<Longrightarrow> length (ar_layer_types ar) = unat (ar_num_hidden_layers ar)"
  by (auto simp: parse_config_def parse_layer_types_def arch_of_raw_def Let_def split: option.splits sum.splits if_splits)

end
