(* ===== verification/ModelPlan.thy ===== *)
theory ModelPlan
  imports ModelConfig
begin

text \<open>
  The model execution plan of \<open>config.rs\<close> and the backend routes of \<open>config/operation_route.rs\<close>: a plan built from
  the architecture and the identifiers of the emitted tensors, its validation, the fusion pass, the fused ANE
  islands, and the routes the loader assigns (\<open>executor.rs\<close>, \<open>profiled_model.rs\<close>).  Tensor identifiers are natural
  numbers.  The cast of a float to 32 bits is a parameter.
\<close>

subsection \<open>Operation routes\<close>

record operation_route =
  or_rms_norm :: u32
  or_silu :: u32
  or_matmul :: u32
  or_attention :: u32
  or_softmax :: u32
  or_rope :: u32
  or_add :: u32
  or_multiply :: u32
  or_transpose :: u32
  or_reshape :: u32

definition default_route :: operation_route where
  "default_route = \<lparr>or_rms_norm = 1, or_silu = 0, or_matmul = 0, or_attention = 0, or_softmax = 0, or_rope = 0,
     or_add = 1, or_multiply = 1, or_transpose = 0, or_reshape = 1\<rparr>"

definition route_backends :: "operation_route \<Rightarrow> u32 list" where
  "route_backends r = [or_rms_norm r, or_silu r, or_matmul r, or_attention r, or_softmax r, or_rope r,
     or_add r, or_multiply r, or_transpose r, or_reshape r]"

definition has_ane_backend :: "operation_route \<Rightarrow> bool" where
  "has_ane_backend r \<longleftrightarrow> list_ex (\<lambda>b. b = 3) (route_backends r)"

text \<open>\<open>max_by_key\<close> keeps the last of several greatest entries.\<close>

definition better :: "(nat \<Rightarrow> nat) \<Rightarrow> nat \<Rightarrow> nat \<Rightarrow> nat" where
  "better freq i best = (if freq i \<ge> freq best then i else best)"

definition dominant_backend :: "operation_route \<Rightarrow> u32" where
  "dominant_backend r = (
     let freq = (\<lambda>i. length (filter (\<lambda>b. b = word_of_nat i) (route_backends r))) in
     word_of_nat (fold (better freq) [1, 2, 3] 0))"

definition set_dominant_backend :: "u32 \<Rightarrow> operation_route \<Rightarrow> operation_route" where
  "set_dominant_backend b r = (
     if b = 0 then r\<lparr>or_matmul := 0, or_attention := 0, or_softmax := 0, or_rope := 0, or_silu := 0,
       or_transpose := 0\<rparr>
     else if b = 1 then r\<lparr>or_rms_norm := 1, or_add := 1, or_multiply := 1, or_reshape := 1\<rparr>
     else if b = 2 then r\<lparr>or_matmul := 2, or_attention := 2, or_softmax := 2, or_rope := 2, or_silu := 2,
       or_transpose := 2\<rparr>
     else if b = 3 then r\<lparr>or_rms_norm := 3, or_silu := 3, or_matmul := 3, or_attention := 3, or_softmax := 3,
       or_rope := 3, or_add := 3, or_multiply := 3, or_transpose := 3, or_reshape := 3\<rparr>
     else r)"

subsection \<open>The plan\<close>

datatype fused_operation = FusedNormQProj | FusedNormKProj | FusedNormVProj | FusedFfnActivation
  | FusedResidualNorm | FusedFlashAttention | FusedMoERoute | CustomFusion string

record 'f layer_plan =
  lp_layer_index :: nat
  lp_attention_kind :: string
  lp_segment_id :: string
  lp_hidden_size :: u32
  lp_n_heads :: u32
  lp_n_kv_heads :: u32
  lp_head_dim :: u32
  lp_global_head_dim :: "u32 option"
  lp_n_global_kv_heads :: "u32 option"
  lp_sliding_window :: u32
  lp_rope_theta :: 'f
  lp_partial_rotary_factor :: "'f option"
  lp_attention_k_eq_v :: bool
  lp_q_norm_enabled :: bool
  lp_k_norm_enabled :: bool
  lp_q_proj_tensor_id :: nat
  lp_k_proj_tensor_id :: nat
  lp_v_proj_tensor_id :: nat
  lp_o_proj_tensor_id :: nat
  lp_q_norm_tensor_id :: "nat option"
  lp_k_norm_tensor_id :: "nat option"
  lp_gate_proj_tensor_id :: nat
  lp_up_proj_tensor_id :: nat
  lp_down_proj_tensor_id :: nat
  lp_input_layernorm_tensor_id :: nat
  lp_post_attention_layernorm_tensor_id :: nat
  lp_pre_ffw_layernorm_tensor_id :: "nat option"
  lp_post_ffw_layernorm_tensor_id :: "nat option"
  lp_layer_scalar_ids :: "nat list"
  lp_quantization_ids :: "string list"
  lp_route :: operation_route
  lp_fused_operations :: "fused_operation list"

record prologue_plan =
  pp_segment_id :: string
  pp_embedding_tensor_id :: nat
  pp_embedding_name :: string
  pp_embedding_shape :: "u32 list"
  pp_embedding_dtype :: string

record 'f epilogue_plan =
  ep_segment_id :: string
  ep_final_norm_tensor_id :: nat
  ep_final_norm_name :: string
  ep_output_projection_tensor_id :: "nat option"
  ep_output_projection_name :: "string option"
  ep_final_logit_softcapping :: "'f option"
  ep_vocab_size :: u32

record ane_fused_island =
  ai_island_id :: string
  ai_modelc_relpath :: string
  ai_layer_indices :: "nat list"
  ai_compute_units :: string
  ai_function_name :: string

record 'f model_plan =
  mp_prologue :: prologue_plan
  mp_layers :: "'f layer_plan list"
  mp_epilogue :: "'f epilogue_plan"
  mp_fused_ane_islands :: "ane_fused_island list"
  mp_hidden_size :: u32
  mp_vocab_size :: u32
  mp_sliding_window :: u32
  mp_final_logit_softcapping :: "'f option"
  mp_tie_word_embeddings :: bool
  mp_rms_norm_eps :: 'f

subsection \<open>Building the plan\<close>

text \<open>The route assessment at the end of \<open>build_execution_plan\<close>.\<close>

definition assessed_route :: "bool \<Rightarrow> operation_route" where
  "assessed_route is_full = \<lparr>or_rms_norm = 1, or_silu = 0, or_matmul = 0,
     or_attention = (if is_full then 3 else 0), or_softmax = 0, or_rope = 0,
     or_add = 1, or_multiply = 1, or_transpose = 0, or_reshape = 1\<rparr>"

definition build_layer_plan ::
  "('f \<Rightarrow> 'f) \<Rightarrow> 'f text_arch \<Rightarrow> string \<Rightarrow> (string \<rightharpoonup> nat) \<Rightarrow> nat \<Rightarrow> attention_kind \<Rightarrow> 'f layer_plan" where
  "build_layer_plan to_f32 ar root ids layer kind = (
     let is_full = (kind = FullAttention);
         get_opt = (\<lambda>name. ids (layer_tensor root layer name));
         get = (\<lambda>name. unwrap_or (get_opt name) 0);
         rope = rope_for ar is_full in
     \<lparr>lp_layer_index = layer,
      lp_attention_kind = (if is_full then ''full_attention'' else ''sliding_attention''),
      lp_segment_id = ''layer_'' @ dec layer,
      lp_hidden_size = ar_hidden_size ar,
      lp_n_heads = ar_num_attention_heads ar,
      lp_n_kv_heads = (if is_full then unwrap_or (ar_num_global_key_value_heads ar) (ar_num_key_value_heads ar)
        else ar_num_key_value_heads ar),
      lp_head_dim = (if is_full then full_head_dim ar else ar_head_dim ar),
      lp_global_head_dim = (if is_full then ar_global_head_dim ar else None),
      lp_n_global_kv_heads = (if is_full then ar_num_global_key_value_heads ar else None),
      lp_sliding_window = ar_sliding_window ar,
      lp_rope_theta = to_f32 (rs_theta rope),
      lp_partial_rotary_factor = map_option to_f32 (rs_partial_rotary_factor rope),
      lp_attention_k_eq_v = (ar_attention_k_eq_v ar \<and> is_full),
      lp_q_norm_enabled = True,
      lp_k_norm_enabled = True,
      lp_q_proj_tensor_id = get ''self_attn.q_proj'',
      lp_k_proj_tensor_id = get ''self_attn.k_proj'',
      lp_v_proj_tensor_id = (if is_full then get ''self_attn.k_proj'' else get ''self_attn.v_proj''),
      lp_o_proj_tensor_id = get ''self_attn.o_proj'',
      lp_q_norm_tensor_id = get_opt ''self_attn.q_norm'',
      lp_k_norm_tensor_id = get_opt ''self_attn.k_norm'',
      lp_gate_proj_tensor_id = get ''mlp.gate_proj'',
      lp_up_proj_tensor_id = get ''mlp.up_proj'',
      lp_down_proj_tensor_id = get ''mlp.down_proj'',
      lp_input_layernorm_tensor_id = get ''input_layernorm'',
      lp_post_attention_layernorm_tensor_id = get ''post_attention_layernorm'',
      lp_pre_ffw_layernorm_tensor_id = None,
      lp_post_ffw_layernorm_tensor_id = None,
      lp_layer_scalar_ids = [],
      lp_quantization_ids = [],
      lp_route = assessed_route is_full,
      lp_fused_operations = []\<rparr>)"

definition build_execution_plan ::
  "('f \<Rightarrow> 'f) \<Rightarrow> 'f text_arch \<Rightarrow> namespace \<Rightarrow> (string \<rightharpoonup> nat) \<Rightarrow> 'f model_plan" where
  "build_execution_plan to_f32 ar ns ids = (
     let root = ns_root ns;
         embed_name = root @ ''.embed_tokens.weight'';
         fn_name = root @ ''.norm.weight'' in
     \<lparr>mp_prologue = \<lparr>pp_segment_id = ''persistent'', pp_embedding_tensor_id = unwrap_or (ids embed_name) 0,
        pp_embedding_name = embed_name, pp_embedding_shape = [ar_vocab_size ar, ar_hidden_size ar],
        pp_embedding_dtype = ''U8''\<rparr>,
      mp_layers = map (\<lambda>(i, kind). build_layer_plan to_f32 ar root ids i kind) (enumerate 0 (ar_layer_types ar)),
      mp_epilogue = \<lparr>ep_segment_id = ''persistent'', ep_final_norm_tensor_id = unwrap_or (ids fn_name) 0,
        ep_final_norm_name = fn_name, ep_output_projection_tensor_id = ids (ns_lm_head_key ns),
        ep_output_projection_name = Some (ns_lm_head_key ns),
        ep_final_logit_softcapping = ar_final_logit_softcapping ar, ep_vocab_size = ar_vocab_size ar\<rparr>,
      mp_fused_ane_islands = [],
      mp_hidden_size = ar_hidden_size ar,
      mp_vocab_size = ar_vocab_size ar,
      mp_sliding_window = ar_sliding_window ar,
      mp_final_logit_softcapping = ar_final_logit_softcapping ar,
      mp_tie_word_embeddings = ar_tie_word_embeddings ar,
      mp_rms_norm_eps = ar_rms_norm_eps ar\<rparr>)"

subsection \<open>Validation\<close>

datatype plan_error =
    ZeroLayers
  | LayerIndex nat nat
  | LayerHiddenSize nat u32 u32
  | ZeroTensor nat string
  | SlidingWithoutV nat
  | FullWithoutGlobalHeadDim nat
  | UnknownAttentionKind nat string
  | SegmentId nat string string
  | ZeroEmbedding
  | ZeroFinalNorm
  | ZeroVocab

definition zero_check :: "nat \<Rightarrow> string \<Rightarrow> nat \<Rightarrow> plan_error list" where
  "zero_check i field tid = (if tid = 0 then [ZeroTensor i field] else [])"

definition layer_errors :: "u32 \<Rightarrow> nat \<Rightarrow> 'f layer_plan \<Rightarrow> plan_error list" where
  "layer_errors hidden i p =
     (if lp_layer_index p \<noteq> i then [LayerIndex i (lp_layer_index p)] else []) @
     (if lp_hidden_size p \<noteq> hidden then [LayerHiddenSize i (lp_hidden_size p) hidden] else []) @
     zero_check i ''q_proj_tensor_id'' (lp_q_proj_tensor_id p) @
     zero_check i ''k_proj_tensor_id'' (lp_k_proj_tensor_id p) @
     zero_check i ''o_proj_tensor_id'' (lp_o_proj_tensor_id p) @
     zero_check i ''gate_proj_tensor_id'' (lp_gate_proj_tensor_id p) @
     zero_check i ''up_proj_tensor_id'' (lp_up_proj_tensor_id p) @
     zero_check i ''down_proj_tensor_id'' (lp_down_proj_tensor_id p) @
     zero_check i ''input_layernorm_tensor_id'' (lp_input_layernorm_tensor_id p) @
     zero_check i ''post_attention_layernorm_tensor_id'' (lp_post_attention_layernorm_tensor_id p) @
     (if lp_attention_kind p = ''sliding_attention'' then
        (if lp_v_proj_tensor_id p = 0 then [SlidingWithoutV i] else [])
      else if lp_attention_kind p = ''full_attention'' then
        (if lp_global_head_dim p = None then [FullWithoutGlobalHeadDim i] else [])
      else [UnknownAttentionKind i (lp_attention_kind p)]) @
     (if lp_segment_id p \<noteq> ''layer_'' @ dec i then [SegmentId i (lp_segment_id p) (''layer_'' @ dec i)] else [])"

definition plan_errors :: "'f model_plan \<Rightarrow> plan_error list" where
  "plan_errors mp =
     (if mp_layers mp = [] then [ZeroLayers] else []) @
     concat (map (\<lambda>(i, p). layer_errors (mp_hidden_size mp) i p) (enumerate 0 (mp_layers mp))) @
     (if pp_embedding_tensor_id (mp_prologue mp) = 0 then [ZeroEmbedding] else []) @
     (if ep_final_norm_tensor_id (mp_epilogue mp) = 0 then [ZeroFinalNorm] else []) @
     (if ep_vocab_size (mp_epilogue mp) = 0 then [ZeroVocab] else [])"

definition validate_plan :: "'f model_plan \<Rightarrow> plan_error list + unit" where
  "validate_plan mp = (if plan_errors mp = [] then Inr () else Inl (plan_errors mp))"

subsection \<open>Fusion\<close>

definition operation_names :: "'f layer_plan \<Rightarrow> string list" where
  "operation_names p =
     (if lp_input_layernorm_tensor_id p \<noteq> 0 then [''rms_norm''] else []) @
     (if lp_q_proj_tensor_id p \<noteq> 0 then [''q_proj''] else []) @
     (if lp_k_proj_tensor_id p \<noteq> 0 then [''k_proj''] else []) @
     (if lp_v_proj_tensor_id p \<noteq> 0 then [''v_proj''] else []) @
     (if lp_q_proj_tensor_id p \<noteq> 0 \<and> lp_k_proj_tensor_id p \<noteq> 0 then [''matmul'', ''softmax''] else []) @
     (if lp_q_proj_tensor_id p \<noteq> 0 \<and> lp_v_proj_tensor_id p \<noteq> 0 then [''matmul''] else []) @
     (if lp_o_proj_tensor_id p \<noteq> 0 then [''add''] else []) @
     (if lp_post_attention_layernorm_tensor_id p \<noteq> 0 then [''rms_norm''] else []) @
     (if lp_gate_proj_tensor_id p \<noteq> 0 then [''gate_proj'', ''silu''] else []) @
     (if lp_up_proj_tensor_id p \<noteq> 0 then [''multiply''] else []) @
     (if lp_down_proj_tensor_id p \<noteq> 0 then [''down_proj''] else [])"

text \<open>The rest of the pattern is matched against the rest of the operations; the loop returns as soon as it is used up.\<close>

fun has_pattern :: "string list \<Rightarrow> string list \<Rightarrow> bool" where
  "has_pattern ops [] = True"
| "has_pattern [] (x # xs) = False"
| "has_pattern (op # ops) (x # xs) = (if op = x then has_pattern ops xs else has_pattern ops (x # xs))"

definition layer_fusions :: "string list \<Rightarrow> fused_operation list" where
  "layer_fusions ops =
     (if has_pattern ops [''rms_norm'', ''q_proj''] then [FusedNormQProj] else []) @
     (if has_pattern ops [''rms_norm'', ''k_proj''] then [FusedNormKProj] else []) @
     (if has_pattern ops [''rms_norm'', ''v_proj''] then [FusedNormVProj] else []) @
     (if has_pattern ops [''silu'', ''multiply''] then [FusedFfnActivation] else []) @
     (if has_pattern ops [''add'', ''rms_norm''] then [FusedResidualNorm] else []) @
     (if has_pattern ops [''matmul'', ''softmax'', ''matmul''] then [FusedFlashAttention] else [])"

definition apply_fusion_pass :: "'f model_plan \<Rightarrow> 'f model_plan" where
  "apply_fusion_pass mp = mp\<lparr>mp_layers :=
     map (\<lambda>p. p\<lparr>lp_fused_operations := layer_fusions (operation_names p)\<rparr>) (mp_layers mp)\<rparr>"

definition island_of :: "nat list \<Rightarrow> ane_fused_island" where
  "island_of ixs = (
     let i = ''ane_fused_layer'' @ dec (hd ixs) @ ''-'' @ dec (last ixs) in
     \<lparr>ai_island_id = i, ai_modelc_relpath = i @ ''.modelc'', ai_layer_indices = ixs,
      ai_compute_units = ''cpuAndNeuralEngine'', ai_function_name = ''main''\<rparr>)"

definition is_ane :: "'f layer_plan \<Rightarrow> bool" where
  "is_ane p = has_ane_backend (lp_route p)"

text \<open>The inner loop takes a run of layers on the Neural Engine, the outer loop continues behind it.\<close>

function ane_islands :: "'f layer_plan list \<Rightarrow> ane_fused_island list" where
  "ane_islands [] = []"
| "ane_islands (p # ps) = (
     if is_ane p then
       (let run = p # takeWhile is_ane ps in
        (if length run \<ge> 2 then [island_of (map lp_layer_index run)] else []) @ ane_islands (dropWhile is_ane ps))
     else ane_islands ps)"
  by pat_completeness auto
termination by (relation "measure length") (auto simp: length_dropWhile_le less_Suc_eq_le)

definition build_ane_fusion_plan :: "'f model_plan \<Rightarrow> 'f model_plan" where
  "build_ane_fusion_plan mp = mp\<lparr>mp_fused_ane_islands := ane_islands (mp_layers mp)\<rparr>"

subsection \<open>Routes at load time\<close>

definition resolve_attention_backend :: "'f layer_plan \<Rightarrow> u32" where
  "resolve_attention_backend p = (if lp_attention_kind p = ''full_attention'' then 0 else 2)"

text \<open>The loop of \<open>profiled_model.rs\<close> over the layers of a loaded plan.\<close>

definition assign_routes :: "'f model_plan \<Rightarrow> 'f model_plan" where
  "assign_routes mp = mp\<lparr>mp_layers :=
     map (\<lambda>p. p\<lparr>lp_route := set_dominant_backend (resolve_attention_backend p) (lp_route p)\<rparr>) (mp_layers mp)\<rparr>"


subsection \<open>Lemmas on patterns and runs\<close>

lemma has_pattern_subseq: "has_pattern ops pat \<longleftrightarrow> subseq pat ops"
  by (induction ops pat rule: has_pattern.induct) (auto simp: subseq_Cons2_iff)

definition maximal_run :: "('a \<Rightarrow> bool) \<Rightarrow> 'a list \<Rightarrow> nat \<Rightarrow> nat \<Rightarrow> bool" where
  "maximal_run P xs a b \<longleftrightarrow> a + 2 \<le> b \<and> b \<le> length xs \<and> (\<forall>i. a \<le> i \<and> i < b \<longrightarrow> P (xs ! i)) \<and>
     (a = 0 \<or> \<not> P (xs ! (a - 1))) \<and> (b = length xs \<or> \<not> P (xs ! b))"

lemma maximal_run_skip:
  assumes "\<not> P x"
  shows "maximal_run P (x # xs) a b \<longleftrightarrow> (\<exists>a' b'. a = Suc a' \<and> b = Suc b' \<and> maximal_run P xs a' b')"
proof
  assume run: "maximal_run P (x # xs) a b"
  have "a \<noteq> 0"
  proof
    assume "a = 0"
    then have "P ((x # xs) ! 0)" using run by (auto simp: maximal_run_def dest!: spec [of _ 0])
    with assms show False by simp
  qed
  then obtain a' where a: "a = Suc a'" by (cases a) auto
  with run obtain b' where b: "b = Suc b'" by (cases b) (auto simp: maximal_run_def)
  have "P (xs ! i)" if "a' \<le> i" "i < b'" for i
    using run that a b by (auto simp: maximal_run_def dest!: spec [of _ "Suc i"])
  moreover have "a' = 0 \<or> \<not> P (xs ! (a' - 1))" using run a by (cases a') (auto simp: maximal_run_def)
  ultimately have "maximal_run P xs a' b'" using run a b by (auto simp: maximal_run_def)
  with a b show "\<exists>a' b'. a = Suc a' \<and> b = Suc b' \<and> maximal_run P xs a' b'" by blast
next
  assume "\<exists>a' b'. a = Suc a' \<and> b = Suc b' \<and> maximal_run P xs a' b'"
  then obtain a' b' where ab: "a = Suc a'" "b = Suc b'" and run: "maximal_run P xs a' b'" by blast
  have "P ((x # xs) ! i)" if "a \<le> i" "i < b" for i
    using that run ab by (cases i) (auto simp: maximal_run_def)
  moreover have "\<not> P ((x # xs) ! (a - 1))" using run ab assms by (cases a') (auto simp: maximal_run_def)
  ultimately show "maximal_run P (x # xs) a b" using run ab by (auto simp: maximal_run_def)
qed

lemma maximal_run_run:
  assumes ys: "\<forall>y \<in> set ys. P y" "ys \<noteq> []" and zs: "zs = [] \<or> \<not> P (hd zs)"
  shows "maximal_run P (ys @ zs) a b \<longleftrightarrow> a = 0 \<and> b = length ys \<and> length ys \<ge> 2 \<or>
    (\<exists>a' b'. a = length ys + a' \<and> b = length ys + b' \<and> maximal_run P zs a' b')"
    (is "?run \<longleftrightarrow> ?first \<or> ?later")
proof
  have start: "\<not> P ((ys @ zs) ! length ys)" if "length ys < length (ys @ zs)"
    using zs that by (cases zs) (auto simp: nth_append)
  assume run: ?run
  show "?first \<or> ?later"
  proof (cases "a < length ys")
    case True
    have "a = 0"
    proof (rule ccontr)
      assume "a \<noteq> 0"
      moreover have "(ys @ zs) ! (a - 1) = ys ! (a - 1)" using True by (intro nth_append_left) simp
      ultimately have "\<not> P (ys ! (a - 1))" using run by (auto simp: maximal_run_def)
      with ys True show False by (metis less_imp_diff_less nth_mem)
    qed
    moreover have "b = length ys"
    proof (rule ccontr)
      assume ne: "b \<noteq> length ys"
      show False
      proof (cases "b < length ys")
        case True
        then have "\<not> P (ys ! b)" using run by (auto simp: maximal_run_def nth_append)
        with ys True show False by simp
      next
        case False
        with ne run True have "P ((ys @ zs) ! length ys)" "length ys < length (ys @ zs)"
          unfolding maximal_run_def by (auto dest!: spec [of _ "length ys"])
        with start show False by blast
      qed
    qed
    ultimately show ?thesis using run by (auto simp: maximal_run_def)
  next
    case False
    then obtain a' where a: "a = length ys + a'" by (metis le_add_diff_inverse not_less)
    with run obtain b' where b: "b = length ys + b'"
      by (metis (no_types, lifting) add.assoc le_Suc_ex maximal_run_def)
    have "P (zs ! i)" if "a' \<le> i" "i < b'" for i
      using run that a b by (auto simp: maximal_run_def nth_append dest!: spec [of _ "length ys + i"])
    moreover have "a' = 0 \<or> \<not> P (zs ! (a' - 1))"
      using run a by (cases a') (auto simp: maximal_run_def nth_append)
    ultimately have "maximal_run P zs a' b'" using run a b by (auto simp: maximal_run_def nth_append)
    with a b show ?thesis by blast
  qed
next
  assume "?first \<or> ?later"
  then show ?run
  proof
    assume f: ?first
    have "P ((ys @ zs) ! i)" if "i < length ys" for i using that ys by (simp add: nth_append)
    moreover have "length ys = length (ys @ zs) \<or> \<not> P ((ys @ zs) ! length ys)"
      using zs by (cases zs) (auto simp: nth_append)
    ultimately show ?run using f by (auto simp: maximal_run_def)
  next
    assume ?later
    then obtain a' b' where ab: "a = length ys + a'" "b = length ys + b'" and run: "maximal_run P zs a' b'" by blast
    have "a' \<noteq> 0"
    proof
      assume "a' = 0"
      then have "P (zs ! 0)" "zs \<noteq> []"
        using run by (auto simp: maximal_run_def dest!: spec [of _ 0])
      with zs show False by (simp add: hd_conv_nth)
    qed
    have "P ((ys @ zs) ! i)" if "a \<le> i" "i < b" for i
    proof -
      have "P (zs ! (i - length ys))"
        using that run ab by (auto simp: maximal_run_def dest!: spec [of _ "i - length ys"])
      with that ab show ?thesis by (simp add: nth_append)
    qed
    moreover have "\<not> P ((ys @ zs) ! (a - 1))"
      using run ab \<open>a' \<noteq> 0\<close> by (auto simp: maximal_run_def nth_append)
    ultimately show ?run using run ab by (auto simp: maximal_run_def nth_append)
  qed
qed

lemma takeWhile_not_hd: "dropWhile P xs = [] \<or> \<not> P (hd (dropWhile P xs))"
  by (induction xs) auto

lemma shifted_intervals:
  fixes n k :: nat
  shows "{[n + a..<n + b] | a b. \<exists>a' b'. a = k + a' \<and> b = k + b' \<and> S a' b'} =
    {[n + k + a..<n + k + b] | a b. S a b}" (is "?l = ?r")
proof (rule set_eqI)
  fix x
  have "x \<in> ?l \<longleftrightarrow> (\<exists>a' b'. x = [n + (k + a')..<n + (k + b')] \<and> S a' b')" by blast
  also have "\<dots> \<longleftrightarrow> x \<in> ?r" by (simp add: add.assoc)
  finally show "x \<in> ?l \<longleftrightarrow> x \<in> ?r" .
qed

lemma ane_islands_runs:
  "map lp_layer_index ps = [n..<n + length ps] \<Longrightarrow>
    set (map ai_layer_indices (ane_islands ps)) = {[n + a..<n + b] | a b. maximal_run is_ane ps a b}"
proof (induction ps arbitrary: n rule: ane_islands.induct)
  case 1
  then show ?case by (simp add: maximal_run_def)
next
  case (2 p ps)
  show ?case
  proof (cases "is_ane p")
    case False
    have "map lp_layer_index ps = [n + 1..<n + 1 + length ps]"
      using 2(3) by (simp add: upt_conv_Cons del: upt_Suc)
    from 2(2) [OF False this] have "set (map ai_layer_indices (ane_islands (p # ps))) =
        {[n + 1 + a..<n + 1 + b] | a b. maximal_run is_ane ps a b}" using False by simp
    also have "\<dots> = {[n + a..<n + b] | a b. maximal_run is_ane (p # ps) a b}"
      unfolding maximal_run_skip [of is_ane, OF False] shifted_intervals [symmetric] by simp
    finally show ?thesis .
  next
    case True
    let ?run = "p # takeWhile is_ane ps" and ?rest = "dropWhile is_ane ps"
    have split: "p # ps = ?run @ ?rest" by simp
    have "map lp_layer_index ?run @ map lp_layer_index ?rest = [n..<n + length (?run @ ?rest)]"
      using 2(3) unfolding split by (simp only: map_append)
    also have "\<dots> = [n..<n + length ?run] @ [n + length ?run..<n + length ?run + length ?rest]"
      by (simp only: length_append add.assoc [symmetric]) (rule upt_add_eq_append, simp)
    finally have "map lp_layer_index ?run = [n..<n + length ?run] \<and>
        map lp_layer_index ?rest = [n + length ?run..<n + length ?run + length ?rest]"
      by (subst (asm) append_eq_append_conv) (simp, assumption)
    then have idx: "map lp_layer_index ?run = [n..<n + length ?run]"
      and rest: "map lp_layer_index ?rest = [n + length ?run..<n + length ?run + length ?rest]"
      by blast+
    note IH = 2(1) [OF True refl rest]
    have runs: "maximal_run is_ane (p # ps) a b \<longleftrightarrow> a = 0 \<and> b = length ?run \<and> length ?run \<ge> 2 \<or>
        (\<exists>a' b'. a = length ?run + a' \<and> b = length ?run + b' \<and> maximal_run is_ane ?rest a' b')" for a b
      unfolding split using True by (intro maximal_run_run takeWhile_not_hd) (auto dest: set_takeWhileD)
    have "set (map ai_layer_indices (ane_islands (p # ps))) =
        (if length ?run \<ge> 2 then {[n..<n + length ?run]} else {}) \<union>
        {[n + length ?run + a..<n + length ?run + b] | a b. maximal_run is_ane ?rest a b}"
      unfolding IH [symmetric] idx [symmetric] using True by (simp add: Let_def island_of_def)
    also have "\<dots> = {[n + a..<n + b] | a b. a = 0 \<and> b = length ?run \<and> length ?run \<ge> 2} \<union>
        {[n + a..<n + b] | a b. \<exists>a' b'. a = length ?run + a' \<and> b = length ?run + b' \<and> maximal_run is_ane ?rest a' b'}"
      unfolding shifted_intervals by auto
    also have "\<dots> = {[n + a..<n + b] | a b. maximal_run is_ane (p # ps) a b}"
      unfolding runs by blast
    finally show ?thesis .
  qed
qed


subsection \<open>What is built, fused and routed\<close>

definition emitted :: "(string \<rightharpoonup> nat) \<Rightarrow> string \<Rightarrow> bool" where
  "emitted ids name \<longleftrightarrow> (\<exists>i. ids name = Some i \<and> i \<noteq> 0)"

definition required_names :: "attention_kind \<Rightarrow> string list" where
  "required_names kind = [''self_attn.q_proj'', ''self_attn.k_proj'', ''self_attn.o_proj'', ''mlp.gate_proj'',
     ''mlp.up_proj'', ''mlp.down_proj'', ''input_layernorm'', ''post_attention_layernorm''] @
     (if kind = SlidingAttention then [''self_attn.v_proj''] else [])"

lemma unwrap_or_0 [simp]: "unwrap_or x (0 :: nat) = 0 \<longleftrightarrow> x = None \<or> x = Some 0"
  by (simp add: unwrap_or_def split: option.splits)

lemma not_emitted_iff: "(ids name = None \<or> ids name = Some 0) \<longleftrightarrow> \<not> emitted ids name"
  by (cases "ids name") (auto simp: emitted_def)

lemma layer_errors_built:
  "layer_errors (ar_hidden_size ar) i (build_layer_plan to_f32 ar root ids i kind) = [] \<longleftrightarrow>
    (kind = FullAttention \<longrightarrow> ar_global_head_dim ar \<noteq> None) \<and>
    (\<forall>name \<in> set (required_names kind). emitted ids (layer_tensor root i name))"
  by (cases kind)
    (auto simp: layer_errors_def zero_check_def build_layer_plan_def Let_def required_names_def not_emitted_iff)

lemma enumerate_map_built:
  "enumerate n (map (\<lambda>(i, kind). f i kind) (enumerate n xs)) = map (\<lambda>(i, kind). (i, f i kind)) (enumerate n xs)"
  by (induction xs arbitrary: n) simp_all

lemma validate_built_plan:
  "validate_plan (build_execution_plan to_f32 ar ns ids) = Inr () \<longleftrightarrow>
    ar_layer_types ar \<noteq> [] \<and> ar_vocab_size ar \<noteq> 0 \<and>
    emitted ids (ns_root ns @ ''.embed_tokens.weight'') \<and> emitted ids (ns_root ns @ ''.norm.weight'') \<and>
    (\<forall>(i, kind) \<in> set (enumerate 0 (ar_layer_types ar)).
       (kind = FullAttention \<longrightarrow> ar_global_head_dim ar \<noteq> None) \<and>
       (\<forall>name \<in> set (required_names kind). emitted ids (layer_tensor (ns_root ns) i name)))"
proof -
  let ?mp = "build_execution_plan to_f32 ar ns ids"
  have "concat (map (\<lambda>(i, p). layer_errors (mp_hidden_size ?mp) i p) (enumerate 0 (mp_layers ?mp))) = [] \<longleftrightarrow>
      (\<forall>(i, kind) \<in> set (enumerate 0 (ar_layer_types ar)).
        (kind = FullAttention \<longrightarrow> ar_global_head_dim ar \<noteq> None) \<and>
        (\<forall>name \<in> set (required_names kind). emitted ids (layer_tensor (ns_root ns) i name)))"
    by (simp add: build_execution_plan_def Let_def enumerate_map_built comp_def case_prod_beta layer_errors_built)
  moreover have "mp_layers ?mp = [] \<longleftrightarrow> ar_layer_types ar = []"
    "pp_embedding_tensor_id (mp_prologue ?mp) = 0 \<longleftrightarrow> \<not> emitted ids (ns_root ns @ ''.embed_tokens.weight'')"
    "ep_final_norm_tensor_id (mp_epilogue ?mp) = 0 \<longleftrightarrow> \<not> emitted ids (ns_root ns @ ''.norm.weight'')"
    "ep_vocab_size (mp_epilogue ?mp) = ar_vocab_size ar"
    by (simp_all add: build_execution_plan_def Let_def not_emitted_iff enumerate_eq_zip)
  ultimately have "plan_errors ?mp = [] \<longleftrightarrow>
    ar_layer_types ar \<noteq> [] \<and> ar_vocab_size ar \<noteq> 0 \<and>
    emitted ids (ns_root ns @ ''.embed_tokens.weight'') \<and> emitted ids (ns_root ns @ ''.norm.weight'') \<and>
    (\<forall>(i, kind) \<in> set (enumerate 0 (ar_layer_types ar)).
       (kind = FullAttention \<longrightarrow> ar_global_head_dim ar \<noteq> None) \<and>
       (\<forall>name \<in> set (required_names kind). emitted ids (layer_tensor (ns_root ns) i name)))"
    unfolding plan_errors_def append_is_Nil_conv by auto
  then show ?thesis by (simp add: validate_plan_def)
qed

text \<open>A plan built from emitted tensors validates exactly if there is a layer and a vocabulary, the embedding and
  the final norm have identifiers other than 0, and every layer has one for each tensor its kind requires, full
  attention layers also a global head dimension.\<close>

theorem built_plan_validates:
  "validate_plan (build_execution_plan to_f32 ar ns ids) = Inr () \<longleftrightarrow>
    ar_layer_types ar \<noteq> [] \<and> ar_vocab_size ar \<noteq> 0 \<and>
    emitted ids (ns_root ns @ ''.embed_tokens.weight'') \<and> emitted ids (ns_root ns @ ''.norm.weight'') \<and>
    (\<forall>(i, kind) \<in> set (enumerate 0 (ar_layer_types ar)).
       (kind = FullAttention \<longrightarrow> ar_global_head_dim ar \<noteq> None) \<and>
       (\<forall>name \<in> set (required_names kind). emitted ids (layer_tensor (ns_root ns) i name)))"
  by (rule validate_built_plan)

text \<open>A text model with one sliding layer, every tensor with the identifier 7.\<close>

definition tiny_arch :: "bool text_arch" where
  "tiny_arch = \<lparr>ar_hidden_size = 64, ar_intermediate_size = 128, ar_num_attention_heads = 2,
     ar_num_key_value_heads = 1, ar_head_dim = 32, ar_global_head_dim = None,
     ar_num_global_key_value_heads = None, ar_num_hidden_layers = 1, ar_vocab_size = 100,
     ar_sliding_window = 16, ar_max_position_embeddings = 128, ar_rms_norm_eps = True,
     ar_tie_word_embeddings = True, ar_attention_k_eq_v = False, ar_final_logit_softcapping = None,
     ar_hidden_size_per_layer_input = 0, ar_layer_types = [SlidingAttention],
     ar_rope_local = \<lparr>rs_theta = True, rs_rope_type = ''default'', rs_partial_rotary_factor = None\<rparr>,
     ar_rope_global = None, ar_model_type = ''tiny'', ar_moe_config = None\<rparr>"

definition model_namespace :: namespace where
  "model_namespace = \<lparr>ns_root = ''model'', ns_discovery = '''', ns_lm_head_key = ''model.embed_tokens.weight'',
     ns_lm_head_aliased = True\<rparr>"

lemma built_plan_validates_witness:
  "validate_plan (build_execution_plan (\<lambda>x. x) tiny_arch model_namespace (\<lambda>_. Some 7)) = Inr ()"
  by (subst built_plan_validates) (simp add: tiny_arch_def emitted_def)

lemma assigned_routes:
  "set_dominant_backend 0 (assessed_route True) = default_route"
  "set_dominant_backend 2 (assessed_route False) = \<lparr>or_rms_norm = 1, or_silu = 2, or_matmul = 2, or_attention = 2,
     or_softmax = 2, or_rope = 2, or_add = 1, or_multiply = 1, or_transpose = 2, or_reshape = 1\<rparr>"
  by (simp_all add: set_dominant_backend_def assessed_route_def default_route_def)

lemma loaded_route:
  "dominant_backend (set_dominant_backend (if full then 0 else 2) (assessed_route full)) = (if full then 0 else 2)"
  "\<not> has_ane_backend (set_dominant_backend (if full then 0 else 2) (assessed_route full))"
  by (cases full; simp add: assigned_routes dominant_backend_def Let_def better_def route_backends_def
      default_route_def has_ane_backend_def)+

lemma loaded_layer:
  assumes p: "p = build_layer_plan to_f32 ar root ids i kind"
  shows "resolve_attention_backend (p\<lparr>lp_route := r\<rparr>) = resolve_attention_backend p"
    "dominant_backend (set_dominant_backend (resolve_attention_backend p) (lp_route p)) = resolve_attention_backend p"
    "\<not> has_ane_backend (set_dominant_backend (resolve_attention_backend p) (lp_route p))"
proof -
  have "resolve_attention_backend p = (if kind = FullAttention then 0 else 2)"
    and "lp_route p = assessed_route (kind = FullAttention)"
    by (simp_all add: p build_layer_plan_def resolve_attention_backend_def Let_def)
  with loaded_route [of "kind = FullAttention"]
  show "dominant_backend (set_dominant_backend (resolve_attention_backend p) (lp_route p)) = resolve_attention_backend p"
    "\<not> has_ane_backend (set_dominant_backend (resolve_attention_backend p) (lp_route p))" by simp_all
qed (simp add: resolve_attention_backend_def)

lemma maximal_run_map: "maximal_run P (map f xs) a b \<longleftrightarrow> maximal_run (P \<circ> f) xs a b"
  unfolding maximal_run_def by (simp cong: conj_cong disj_cong)

lemma built_layers: "mp_layers (build_execution_plan to_f32 ar ns ids) =
    map (\<lambda>(i, kind). build_layer_plan to_f32 ar (ns_root ns) ids i kind) (enumerate 0 (ar_layer_types ar))"
  by (simp add: build_execution_plan_def Let_def)

lemma is_ane_built: "is_ane (build_layer_plan to_f32 ar root ids i kind) \<longleftrightarrow> kind = FullAttention"
  by (simp add: is_ane_def build_layer_plan_def Let_def has_ane_backend_def assessed_route_def route_backends_def)

text \<open>The fused islands of a built plan are exactly the maximal runs of at least two consecutive full attention
  layers.  The routes assigned when the image is loaded make the backend of each layer's attention kind the
  dominant one and leave no layer on the Neural Engine runtime those islands are compiled for.\<close>

theorem built_plan_islands:
  "set (map ai_layer_indices (mp_fused_ane_islands (build_ane_fusion_plan (build_execution_plan to_f32 ar ns ids)))) =
      {[a..<b] | a b. maximal_run (\<lambda>kind. kind = FullAttention) (ar_layer_types ar) a b} \<and>
    list_all (\<lambda>p. dominant_backend (lp_route p) = resolve_attention_backend p \<and> \<not> is_ane p)
      (mp_layers (assign_routes (build_execution_plan to_f32 ar ns ids)))"
proof
  let ?ps = "mp_layers (build_execution_plan to_f32 ar ns ids)"
  have "map lp_layer_index ?ps = map fst (enumerate 0 (ar_layer_types ar))"
    by (simp add: built_layers comp_def case_prod_beta build_layer_plan_def Let_def)
  also have "\<dots> = [0..<0 + length ?ps]" by (simp add: built_layers)
  finally have runs: "set (map ai_layer_indices (ane_islands ?ps)) =
      {[0 + a..<0 + b] | a b. maximal_run is_ane ?ps a b}" by (rule ane_islands_runs)
  have "maximal_run is_ane ?ps a b \<longleftrightarrow> maximal_run (\<lambda>kind. kind = FullAttention)
      (map snd (enumerate 0 (ar_layer_types ar))) a b" for a b
    unfolding built_layers maximal_run_map by (simp add: comp_def case_prod_beta is_ane_built)
  with runs show "set (map ai_layer_indices (mp_fused_ane_islands
      (build_ane_fusion_plan (build_execution_plan to_f32 ar ns ids)))) =
      {[a..<b] | a b. maximal_run (\<lambda>kind. kind = FullAttention) (ar_layer_types ar) a b}"
    by (simp add: build_ane_fusion_plan_def)
  show "list_all (\<lambda>p. dominant_backend (lp_route p) = resolve_attention_backend p \<and> \<not> is_ane p)
      (mp_layers (assign_routes (build_execution_plan to_f32 ar ns ids)))"
    by (auto simp: list_all_iff assign_routes_def built_layers is_ane_def loaded_layer [OF refl])
qed


text \<open>The fusion pass gives every layer of a valid plan the projections of the queries and keys, the activation,
  the residual norm and, where there is a value projection, its norm and flash attention, in this order.
  A pattern is found wherever it is a subsequence of the operations, contiguous or not.\<close>

theorem fusion_of_valid_plan:
  assumes "validate_plan mp = Inr ()" and "p \<in> set (mp_layers (apply_fusion_pass mp))"
  shows "lp_fused_operations p = [FusedNormQProj, FusedNormKProj] @
      (if lp_v_proj_tensor_id p \<noteq> 0 then [FusedNormVProj] else []) @ [FusedFfnActivation, FusedResidualNorm] @
      (if lp_v_proj_tensor_id p \<noteq> 0 then [FusedFlashAttention] else []) \<and>
    (\<forall>ops pat. has_pattern ops pat = subseq pat ops)"
proof -
  obtain p0 where p0: "p0 \<in> set (mp_layers mp)"
    and p: "p = p0\<lparr>lp_fused_operations := layer_fusions (operation_names p0)\<rparr>"
    using assms(2) by (auto simp: apply_fusion_pass_def)
  then obtain i where "i < length (mp_layers mp)" "mp_layers mp ! i = p0"
    by (auto simp: in_set_conv_nth)
  then have "(i, p0) \<in> set (enumerate 0 (mp_layers mp))" by (simp add: in_set_enumerate_eq)
  with assms(1) have "layer_errors (mp_hidden_size mp) i p0 = []"
    by (force simp: validate_plan_def plan_errors_def split: if_splits)
  then have ids: "lp_q_proj_tensor_id p0 \<noteq> 0" "lp_k_proj_tensor_id p0 \<noteq> 0" "lp_o_proj_tensor_id p0 \<noteq> 0"
    "lp_gate_proj_tensor_id p0 \<noteq> 0" "lp_up_proj_tensor_id p0 \<noteq> 0" "lp_down_proj_tensor_id p0 \<noteq> 0"
    "lp_input_layernorm_tensor_id p0 \<noteq> 0" "lp_post_attention_layernorm_tensor_id p0 \<noteq> 0"
    by (auto simp: layer_errors_def zero_check_def split: if_splits)
  show ?thesis
    by (cases "lp_v_proj_tensor_id p0 = 0") (simp_all add: p ids operation_names_def layer_fusions_def has_pattern_subseq)
qed

lemma fusion_of_valid_plan_witness:
  "\<exists>p. mp_layers (apply_fusion_pass (build_execution_plan (\<lambda>x. x) tiny_arch model_namespace (\<lambda>_. Some 7))) = [p] \<and>
    FusedFlashAttention \<in> set (lp_fused_operations p)"
proof -
  let ?mp = "build_execution_plan (\<lambda>x. x) tiny_arch model_namespace (\<lambda>_. Some (7 :: nat))"
  have v: "validate_plan ?mp = Inr ()"
    by (simp add: validate_plan_def plan_errors_def build_execution_plan_def tiny_arch_def Let_def layer_errors_def
        zero_check_def build_layer_plan_def unwrap_or_def)
  obtain p where p: "mp_layers (apply_fusion_pass ?mp) = [p]" "lp_v_proj_tensor_id p = 7"
    by (simp add: apply_fusion_pass_def built_layers tiny_arch_def build_layer_plan_def Let_def unwrap_or_def)
  from fusion_of_valid_plan [OF v, of p] p show ?thesis by simp
qed


text \<open>A full attention layer has no value projection: its name is not in the specification, so the tensor is never
  emitted, and the plan uses the key projection for the values, also when the architecture says that keys and
  values differ.\<close>

theorem full_attention_drops_values:
  assumes "compile_spec ar ns q = Some sp" and "(i, FullAttention) \<in> set (enumerate 0 (ar_layer_types ar))"
  shows "layer_tensor (ns_root ns) i ''self_attn.v_proj'' \<notin> set (spec_names sp) \<and>
    lp_v_proj_tensor_id (mp_layers (build_execution_plan to_f32 ar ns ids) ! i) =
      lp_k_proj_tensor_id (mp_layers (build_execution_plan to_f32 ar ns ids) ! i) \<and>
    lp_attention_k_eq_v (mp_layers (build_execution_plan to_f32 ar ns ids) ! i) = ar_attention_k_eq_v ar"
proof -
  have ix: "i < length (ar_layer_types ar)" "ar_layer_types ar ! i = FullAttention"
    using assms(2) by (auto simp: in_set_enumerate_eq)
  have "layer_tensor (ns_root ns) i ''self_attn.v_proj'' \<notin> set (map tb_name (ls_tensors l))" if l: "l \<in> set (es_layers sp)" for l
  proof -
    obtain j where j: "j < length (es_layers sp)" "es_layers sp ! j = l" using l by (auto simp: in_set_conv_nth)
    with compile_spec_layer [OF assms(1), of j] compile_spec_length [OF assms(1)] spec_layer_tensors_some
    have "map tb_name (ls_tensors l) = map (layer_tensor (ns_root ns) j) (layer_names (ar_layer_types ar ! j))" by metis
    then show ?thesis using ix by (auto simp: layer_tensor_inj layer_names_def simp del: set_map split: if_splits)
  qed
  moreover have "layer_tensor (ns_root ns) i ''self_attn.v_proj'' \<notin> set (map tb_name (es_global_tensors sp))"
  proof
    assume "layer_tensor (ns_root ns) i ''self_attn.v_proj'' \<in> set (map tb_name (es_global_tensors sp))"
    moreover obtain tied where "map tb_name (es_global_tensors sp) = map ((@) (ns_root ns)) (global_names tied)"
      using compile_spec_some [OF assms(1)] compile_globals_some by metis
    ultimately obtain name where "name \<in> set (global_names tied)"
      "layer_tensor (ns_root ns) i ''self_attn.v_proj'' = ns_root ns @ name" by auto
    with layer_tensor_not_global show False by metis
  qed
  moreover have "mp_layers (build_execution_plan to_f32 ar ns ids) ! i =
      build_layer_plan to_f32 ar (ns_root ns) ids i FullAttention"
    using ix by (simp add: built_layers nth_enumerate_eq)
  ultimately show ?thesis by (auto simp: spec_names_def build_layer_plan_def Let_def)
qed

lemma full_attention_drops_values_witness:
  "\<exists>sp. compile_spec example_arch example_namespace None = Some sp \<and>
    ''model.layers.1.self_attn.v_proj.weight'' \<notin> set (spec_names sp) \<and> \<not> ar_attention_k_eq_v example_arch"
proof -
  obtain sp where sp: "compile_spec example_arch example_namespace None = Some sp"
    by (simp add: compile_spec_def compile_globals_def compile_layer_def spec_layer_tensors_def quantized_linear_def
        pack_linear_def Let_def example_arch_def example_namespace_def)
  have "(1, FullAttention) \<in> set (enumerate 0 (ar_layer_types example_arch))" by (simp add: example_arch_def)
  moreover have "layer_tensor (ns_root example_namespace) 1 ''self_attn.v_proj'' = ''model.layers.1.self_attn.v_proj.weight''"
    by (simp add: layer_tensor_def example_namespace_def dec.simps digit_def)
  ultimately show ?thesis
    using sp full_attention_drops_values [OF sp, of 1 "\<lambda>x. x" "\<lambda>_. None"] by (auto simp: example_arch_def)
qed

end
