(* ===== verification/ImageCompile.thy ===== *)
theory ImageCompile
  imports ImageBuilder ModelPlan
begin

text \<open>
  The text part of the image compiler: binding validation (\<open>validator.rs\<close>), emission of the source tensors
  (\<open>emit_tensor\<close>, \<open>emit_quantized_binding\<close>, \<open>emit_binding_set\<close> and \<open>compile_sequential\<close> of \<open>compute_image/compile.rs\<close>) and
  the plan that is stored with the image.  Source tensors are a map from names.  The vision and audio encoders,
  the quantization of the payload and the writing of files are not modelled.
\<close>

record source_tensor =
  st_shape :: "u32 list"
  st_dtype :: string
  st_data :: "u8 list"
  st_source_filename :: string
  st_source_sha256 :: string
  st_source_offset :: u64

subsection \<open>Binding validation\<close>

datatype binding_status = BindingOk | Missing | ShapeMismatch | UnexpectedDtype | PackedShapeError

definition dtype_ok :: "string \<Rightarrow> bool" where
  "dtype_ok d \<longleftrightarrow> d \<in> set [''F32'', ''F64'', ''F16'', ''BF16'', ''I64'', ''U32'', ''I32'', ''I8'', ''U8'']"

definition is_quant_pack :: "source_tensor \<Rightarrow> u32 list \<Rightarrow> bool" where
  "is_quant_pack m logical \<longleftrightarrow> st_dtype m = ''U32'' \<and> length (st_shape m) = length logical \<and>
     list_all (\<lambda>(a, l). a = l \<or> a * 4 = l) (zip (st_shape m) logical)"

definition check_binding :: "(string \<rightharpoonup> source_tensor) \<Rightarrow> tensor_binding \<Rightarrow> binding_status" where
  "check_binding src b =
     (case src (tb_name b) of
        None \<Rightarrow> Missing
      | Some m \<Rightarrow>
          let shape_match = (st_shape m = tb_logical_shape b);
              packed_match = map_option (\<lambda>p. pk_weight p = st_shape m) (tb_packed_shape b) in
          if \<not> shape_match \<and> packed_match \<noteq> Some True then
            (if is_quant_pack m (tb_logical_shape b) then BindingOk
             else if tb_packed_shape b \<noteq> None then PackedShapeError else ShapeMismatch)
          else if \<not> dtype_ok (st_dtype m) then UnexpectedDtype
          else BindingOk)"

definition spec_bindings :: "'f execution_spec \<Rightarrow> tensor_binding list" where
  "spec_bindings sp = es_global_tensors sp @ concat (map ls_tensors (es_layers sp))"

definition executable :: "(string \<rightharpoonup> source_tensor) \<Rightarrow> 'f execution_spec \<Rightarrow> bool" where
  "executable src sp \<longleftrightarrow>
     length (filter (\<lambda>b. check_binding src b \<noteq> BindingOk) (spec_bindings sp)) = 0 \<and> spec_bindings sp \<noteq> []"

subsection \<open>Emission\<close>

datatype emit_error = MissingTensor string | EmbeddingNotEmitted | NoSegmentStarted | SpecPanic
  | SourceNotExecutable nat nat | NamespaceNotResolved
  | AdapterRejected

fun role_name :: "tensor_role \<Rightarrow> string" where
  "role_name Embedding = ''Embedding''"
| "role_name FinalNorm = ''FinalNorm''"
| "role_name LmHead = ''LmHead''"
| "role_name AttentionNorm = ''AttentionNorm''"
| "role_name FfnNorm = ''FfnNorm''"
| "role_name QProj = ''QProj''"
| "role_name KProj = ''KProj''"
| "role_name VProj = ''VProj''"
| "role_name OProj = ''OProj''"
| "role_name GlobalKProj = ''GlobalKProj''"
| "role_name GlobalVProj = ''GlobalVProj''"
| "role_name GateProj = ''GateProj''"
| "role_name UpProj = ''UpProj''"
| "role_name DownProj = ''DownProj''"
| "role_name QNorm = ''QNorm''"
| "role_name KNorm = ''KNorm''"

definition emit_tensor ::
  "(string \<rightharpoonup> source_tensor) \<Rightarrow> string \<Rightarrow> string \<Rightarrow> u32 option \<Rightarrow> string \<Rightarrow> u32 list \<Rightarrow> quantization_desc option
    \<Rightarrow> image_builder \<Rightarrow> emit_error + nat \<times> image_builder" where
  "emit_tensor src name role layer dtype shape q b =
     (case src name of
        None \<Rightarrow> Inl (MissingTensor name)
      | Some t \<Rightarrow>
          (case add_tensor \<lparr>ta_name = name, ta_role = role, ta_layer = layer, ta_data = st_data t,
              ta_source_filename = st_source_filename t, ta_source_sha256 = st_source_sha256 t,
              ta_source_offset = st_source_offset t, ta_logical_dtype = dtype, ta_storage_dtype = st_dtype t,
              ta_logical_shape = shape, ta_physical_shape = st_shape t, ta_quantization = q\<rparr> b of
             None \<Rightarrow> Inl NoSegmentStarted
           | Some r \<Rightarrow> Inr r))"

text \<open>\<open>strip_suffix(".weight").unwrap_or(name)\<close>.\<close>

definition weight_stem :: "string \<Rightarrow> string" where
  "weight_stem name = (if suffix ''.weight'' name then take (length name - 7) name else name)"

definition emit_quantized_binding ::
  "(string \<rightharpoonup> source_tensor) \<Rightarrow> string \<Rightarrow> string \<Rightarrow> u32 option \<Rightarrow> u32 list \<Rightarrow> packed_shapes
    \<Rightarrow> image_builder \<Rightarrow> emit_error + nat \<times> image_builder" where
  "emit_quantized_binding src name role layer shape p b =
     (case emit_tensor src (weight_stem name @ ''.scales'') (role @ ''::scales'') layer ''F32'' (pk_scales p) None b of
        Inl e \<Rightarrow> Inl e
      | Inr (scales_id, b1) \<Rightarrow>
          (case emit_tensor src (weight_stem name @ ''.biases'') (role @ ''::biases'') layer ''F32'' (pk_biases p) None b1 of
             Inl e \<Rightarrow> Inl e
           | Inr (biases_id, b2) \<Rightarrow>
               emit_tensor src name role layer ''F32'' shape
                 (Some \<lparr>qd_bits = pk_bits p, qd_group_size = pk_group_size p, qd_groups = pk_groups p,
                    qd_scale_tensor_id = scales_id, qd_bias_tensor_id = biases_id\<rparr>) b2))"

definition emit_binding_set ::
  "(string \<rightharpoonup> source_tensor) \<Rightarrow> tensor_binding \<Rightarrow> u32 option \<Rightarrow> image_builder \<Rightarrow> emit_error + nat \<times> image_builder" where
  "emit_binding_set src bd layer b =
     (case tb_packed_shape bd of
        Some p \<Rightarrow> emit_quantized_binding src (tb_name bd) (role_name (tb_role bd)) layer (tb_logical_shape bd) p b
      | None \<Rightarrow> emit_tensor src (tb_name bd) (role_name (tb_role bd)) layer ''F32'' (tb_logical_shape bd) None b)"

text \<open>The loop over the bindings of one segment, with the map of the emitted identifiers.\<close>

type_synonym emission = "image_builder \<times> (string \<rightharpoonup> nat)"

fun emit_bindings ::
  "(string \<rightharpoonup> source_tensor) \<Rightarrow> u32 option \<Rightarrow> tensor_binding list \<Rightarrow> emission \<Rightarrow> emit_error + emission" where
  "emit_bindings src layer [] s = Inr s"
| "emit_bindings src layer (bd # bds) s =
     (case emit_binding_set src bd layer (fst s) of
        Inl e \<Rightarrow> Inl e
      | Inr (i, b) \<Rightarrow> emit_bindings src layer bds (b, (snd s)(tb_name bd \<mapsto> i)))"

fun emit_layers ::
  "(u8 list \<Rightarrow> string) \<Rightarrow> (string \<rightharpoonup> source_tensor) \<Rightarrow> 'f layer_spec list \<Rightarrow> emission \<Rightarrow> emit_error + emission" where
  "emit_layers sha src [] s = Inr s"
| "emit_layers sha src (l # ls) s =
     (let b = begin_segment sha (''layer_'' @ dec (ls_index l)) (LayerSegment (word_of_nat (ls_index l))) (fst s) in
      case emit_bindings src (Some (word_of_nat (ls_index l))) (ls_tensors l) (b, snd s) of
        Inl e \<Rightarrow> Inl e
      | Inr s' \<Rightarrow> emit_layers sha src ls s')"

definition emit_spec ::
  "(u8 list \<Rightarrow> string) \<Rightarrow> (string \<rightharpoonup> source_tensor) \<Rightarrow> 'f execution_spec \<Rightarrow> emit_error + emission" where
  "emit_spec sha src sp =
     (case emit_bindings src None (es_global_tensors sp) (begin_segment sha ''persistent'' Persistent ib_new, Map.empty) of
        Inl e \<Rightarrow> Inl e
      | Inr (b, ids) \<Rightarrow>
          if ns_lm_head_aliased (es_namespace sp) then
            (case ids (ns_root (es_namespace sp) @ ''.embed_tokens.weight'') of
               None \<Rightarrow> Inl EmbeddingNotEmitted
             | Some i \<Rightarrow> emit_layers sha src (es_layers sp)
                 (add_alias ''lm_head.weight'' i ''tie_word_embeddings=true'' b, ids))
          else emit_layers sha src (es_layers sp) (b, ids))"

text \<open>From the loaded source to the image and its plan, without compile-time quantization and without the graph
  optimiser, which has a theory of its own.  \<open>skip\<close> skips the validation; \<open>adapter\<close> is the answer of the model
  adapters.\<close>

definition compile_image ::
  "bool \<Rightarrow> bool \<Rightarrow> (u8 list \<Rightarrow> string) \<Rightarrow> ('f \<Rightarrow> 'f) \<Rightarrow> (string \<rightharpoonup> source_tensor) \<Rightarrow> string list \<Rightarrow> 'f text_arch
    \<Rightarrow> quantization_meta option \<Rightarrow> emit_error + image \<times> 'f model_plan" where
  "compile_image skip adapter sha to_f32 src names ar q =
     (case resolve_namespace names of
        None \<Rightarrow> Inl NamespaceNotResolved
      | Some ns \<Rightarrow>
          (case compile_spec ar ns q of
             None \<Rightarrow> Inl SpecPanic
           | Some full \<Rightarrow>
               let sp = filter_spec_to_existing (set names) full;
                   bad = filter (\<lambda>b. check_binding src b \<noteq> BindingOk) (spec_bindings sp) in
               if \<not> skip \<and> \<not> executable src sp then Inl (SourceNotExecutable (length bad) (length (spec_bindings sp)))
               else if \<not> skip \<and> \<not> adapter then Inl AdapterRejected
               else
                 (case emit_spec sha src sp of
                    Inl e \<Rightarrow> Inl e
                  | Inr (b, ids) \<Rightarrow> Inr (ib_finalize sha b,
                      apply_fusion_pass (build_ane_fusion_plan (build_execution_plan to_f32 ar ns ids))))))"


subsection \<open>Identifiers given out by the emission\<close>

lemma flush_next [simp]: "ib_next_tensor_id (flush_segment sha b) = ib_next_tensor_id b"
  by (simp add: flush_segment_def Let_def split: option.splits segment_kind.splits)

lemma begin_next [simp]: "ib_next_tensor_id (begin_segment sha i kind b) = ib_next_tensor_id b"
  by (simp add: begin_segment_def Let_def)

lemma alias_next [simp]: "ib_next_tensor_id (add_alias name i reason b) = ib_next_tensor_id b"
  by (simp add: add_alias_def)

lemma emit_tensor_id:
  "emit_tensor src name role layer dtype shape q b = Inr (i, b') \<Longrightarrow>
    i = ib_next_tensor_id b \<and> ib_next_tensor_id b' = i + 1 \<and> src name \<noteq> None"
  by (auto simp: emit_tensor_def add_tensor_def Let_def split: option.splits)

lemma emit_binding_set_id:
  assumes "emit_binding_set src bd layer b = Inr (i, b')"
  shows "i = ib_next_tensor_id b + (if tb_packed_shape bd = None then 0 else 2) \<and> ib_next_tensor_id b' = i + 1 \<and>
    src (tb_name bd) \<noteq> None \<and>
    (tb_packed_shape bd \<noteq> None \<longrightarrow> src (weight_stem (tb_name bd) @ ''.scales'') \<noteq> None \<and>
      src (weight_stem (tb_name bd) @ ''.biases'') \<noteq> None)"
  using assms
  by (auto simp: emit_binding_set_def emit_quantized_binding_def split: option.splits sum.splits
      dest!: emit_tensor_id)

lemma emit_bindings_ids:
  "emit_bindings src layer bds (b, ids) = Inr (b', ids') \<Longrightarrow>
    ib_next_tensor_id b \<le> ib_next_tensor_id b' \<and>
    (\<forall>n. n \<notin> tb_name ` set bds \<longrightarrow> ids' n = ids n) \<and>
    (\<forall>n \<in> tb_name ` set bds. \<exists>i. ids' n = Some i \<and> ib_next_tensor_id b \<le> i) \<and>
    (\<forall>bd \<in> set bds. tb_packed_shape bd \<noteq> None \<longrightarrow> src (weight_stem (tb_name bd) @ ''.scales'') \<noteq> None \<and>
      src (weight_stem (tb_name bd) @ ''.biases'') \<noteq> None)"
proof (induction bds arbitrary: b ids)
  case (Cons bd bds)
  then obtain i b1 where e: "emit_binding_set src bd layer b = Inr (i, b1)"
    and rest: "emit_bindings src layer bds (b1, ids(tb_name bd \<mapsto> i)) = Inr (b', ids')"
    by (auto split: sum.splits)
  note head = emit_binding_set_id [OF e]
  note tail = Cons.IH [OF rest]
  have "\<exists>i. ids' n = Some i \<and> ib_next_tensor_id b \<le> i" if "n \<in> tb_name ` set (bd # bds)" for n
  proof (cases "n \<in> tb_name ` set bds")
    case True
    with tail head show ?thesis by (metis le_add1 le_trans)
  next
    case False
    with that tail head show ?thesis by (auto split: if_splits)
  qed
  moreover have "ib_next_tensor_id b \<le> ib_next_tensor_id b'" using head tail by linarith
  ultimately show ?case using head tail by auto
qed simp

lemma emit_layers_ids:
  "emit_layers sha src ls (b, ids) = Inr (b', ids') \<Longrightarrow>
    (\<forall>n. n \<notin> tb_name ` set (concat (map ls_tensors ls)) \<longrightarrow> ids' n = ids n) \<and>
    (\<forall>n \<in> tb_name ` set (concat (map ls_tensors ls)). \<exists>i. ids' n = Some i \<and> ib_next_tensor_id b \<le> i) \<and>
    (\<forall>bd \<in> set (concat (map ls_tensors ls)). tb_packed_shape bd \<noteq> None \<longrightarrow>
      src (weight_stem (tb_name bd) @ ''.scales'') \<noteq> None \<and> src (weight_stem (tb_name bd) @ ''.biases'') \<noteq> None)"
proof (induction ls arbitrary: b ids)
  case (Cons l ls)
  then obtain b1 ids1 where e: "emit_bindings src (Some (word_of_nat (ls_index l))) (ls_tensors l)
      (begin_segment sha (''layer_'' @ dec (ls_index l)) (LayerSegment (word_of_nat (ls_index l))) b, ids) = Inr (b1, ids1)"
    and rest: "emit_layers sha src ls (b1, ids1) = Inr (b', ids')"
    by (auto simp: Let_def split: sum.splits)
  note head = emit_bindings_ids [OF e, simplified]
  note tail = Cons.IH [OF rest]
  have "\<exists>i. ids' n = Some i \<and> ib_next_tensor_id b \<le> i"
    if "n \<in> tb_name ` set (concat (map ls_tensors (l # ls)))" for n
  proof (cases "n \<in> tb_name ` set (concat (map ls_tensors ls))")
    case True
    with tail head show ?thesis by (meson le_trans)
  next
    case False
    with that have n: "n \<in> tb_name ` set (ls_tensors l)" by auto
    have "\<exists>i. ids1 n = Some i \<and> ib_next_tensor_id b \<le> i" using head n by blast
    moreover have "ids' n = ids1 n" using False tail by blast
    ultimately show ?thesis by simp
  qed
  moreover have "ids' n = ids n" if "n \<notin> tb_name ` set (concat (map ls_tensors (l # ls)))" for n
    using that tail head by (simp add: image_Un)
  ultimately show ?case using head tail by (simp add: ball_Un)
qed simp

text \<open>The specification that is emitted, in terms of the names that exist.\<close>

lemma filtered_names:
  "map tb_name (es_global_tensors (filter_spec_to_existing ex sp)) = filter (\<lambda>n. n \<in> ex) (map tb_name (es_global_tensors sp))"
  "set (concat (map ls_tensors (es_layers (filter_spec_to_existing ex sp)))) =
    {b \<in> set (concat (map ls_tensors (es_layers sp))). tb_name b \<in> ex}"
  by (auto simp: filter_spec_to_existing_def filter_map comp_def)

lemma emit_spec_parts:
  assumes "emit_spec sha src sp = Inr (b, ids)"
  shows "\<exists>b2 b2' ids1. emit_bindings src None (es_global_tensors sp)
      (begin_segment sha ''persistent'' Persistent ib_new, Map.empty) = Inr (b2, ids1) \<and>
    ib_next_tensor_id b2' = ib_next_tensor_id b2 \<and> emit_layers sha src (es_layers sp) (b2', ids1) = Inr (b, ids)"
proof -
  from assms obtain b2 ids1 where "emit_bindings src None (es_global_tensors sp)
      (begin_segment sha ''persistent'' Persistent ib_new, Map.empty) = Inr (b2, ids1)"
    and "emit_layers sha src (es_layers sp) (b2, ids1) = Inr (b, ids) \<or>
      (\<exists>i. emit_layers sha src (es_layers sp) (add_alias ''lm_head.weight'' i ''tie_word_embeddings=true'' b2, ids1) = Inr (b, ids))"
    by (auto simp: emit_spec_def split: sum.splits if_splits option.splits) blast
  then show ?thesis using alias_next by blast
qed

lemma emit_spec_ids:
  assumes "emit_spec sha src sp = Inr (b, ids)" and "es_global_tensors sp = e # gs"
    and "tb_name e \<notin> set (map tb_name gs) \<union> tb_name ` set (concat (map ls_tensors (es_layers sp)))"
  shows "ids (tb_name e) = Some (if tb_packed_shape e = None then 0 else 2)"
    "\<And>n. n \<noteq> tb_name e \<Longrightarrow> n \<in> set (map tb_name gs) \<union> tb_name ` set (concat (map ls_tensors (es_layers sp))) \<Longrightarrow>
      emitted ids n"
    "\<And>n. n \<notin> set (map tb_name (es_global_tensors sp)) \<union> tb_name ` set (concat (map ls_tensors (es_layers sp))) \<Longrightarrow>
      ids n = None"
    "\<And>bd. bd \<in> set (concat (map ls_tensors (es_layers sp))) \<Longrightarrow> tb_packed_shape bd \<noteq> None \<Longrightarrow>
      src (weight_stem (tb_name bd) @ ''.scales'') \<noteq> None \<and> src (weight_stem (tb_name bd) @ ''.biases'') \<noteq> None"
proof -
  let ?b0 = "begin_segment sha ''persistent'' Persistent ib_new"
  have next0: "ib_next_tensor_id ?b0 = 0" by (simp add: ib_new_def)
  from emit_spec_parts [OF assms(1)] obtain b2 b2' ids1 where
    eg: "emit_bindings src None (e # gs) (?b0, Map.empty) = Inr (b2, ids1)"
    and n2: "ib_next_tensor_id b2' = ib_next_tensor_id b2"
    and l: "emit_layers sha src (es_layers sp) (b2', ids1) = Inr (b, ids)" unfolding assms(2) by blast
  from eg obtain i b1 where e: "emit_binding_set src e None ?b0 = Inr (i, b1)"
    and g: "emit_bindings src None gs (b1, [tb_name e \<mapsto> i]) = Inr (b2, ids1)"
    by (auto split: sum.splits)
  note E = emit_binding_set_id [OF e, unfolded next0]
  note G = emit_bindings_ids [OF g]
  note L = emit_layers_ids [OF l, unfolded n2]
  show "ids (tb_name e) = Some (if tb_packed_shape e = None then 0 else 2)"
    using assms(3) E G L by auto
  show "emitted ids n" if "n \<noteq> tb_name e"
    "n \<in> set (map tb_name gs) \<union> tb_name ` set (concat (map ls_tensors (es_layers sp)))" for n
  proof (cases "n \<in> tb_name ` set (concat (map ls_tensors (es_layers sp)))")
    case True
    with L obtain j where "ids n = Some j" "ib_next_tensor_id b2 \<le> j" by blast
    moreover have "1 \<le> ib_next_tensor_id b2" using E G by linarith
    ultimately show ?thesis by (auto simp: emitted_def)
  next
    case False
    with that(2) have "n \<in> tb_name ` set gs" by auto
    with G obtain j where "ids1 n = Some j" "ib_next_tensor_id b1 \<le> j" by blast
    moreover have "ids n = ids1 n" using False L by blast
    ultimately show ?thesis using E by (auto simp: emitted_def)
  qed
  show "ids n = None"
    if "n \<notin> set (map tb_name (es_global_tensors sp)) \<union> tb_name ` set (concat (map ls_tensors (es_layers sp)))" for n
    using that G L assms(2) by auto
  show "src (weight_stem (tb_name bd) @ ''.scales'') \<noteq> None \<and> src (weight_stem (tb_name bd) @ ''.biases'') \<noteq> None"
    if "bd \<in> set (concat (map ls_tensors (es_layers sp)))" "tb_packed_shape bd \<noteq> None" for bd
    using L that by blast
qed


subsection \<open>What a compiled image holds\<close>

lemma resolve_namespace_anchors:
  "resolve_namespace names = Some ns \<Longrightarrow> ns_root ns \<in> {''language_model.model'', ''model''} \<and>
    (\<forall>a \<in> set anchors. ns_root ns @ ''.'' @ a \<in> set names)"
  by (auto simp: resolve_namespace_def try_candidate_def Let_def list_all_iff split: option.splits if_splits)

lemma image_spec_emission:
  assumes res: "resolve_namespace names = Some ns" and spec: "compile_spec ar ns q = Some full"
    and emit: "emit_spec sha src (filter_spec_to_existing (set names) full) = Inr (b, ids)"
  shows "ids (ns_root ns @ ''.embed_tokens.weight'') = Some (if q = None then 0 else 2)"
    "\<And>n. n \<in> set (spec_names full) \<Longrightarrow> n \<noteq> ns_root ns @ ''.embed_tokens.weight'' \<Longrightarrow> emitted ids n \<longleftrightarrow> n \<in> set names"
    "\<And>bd. bd \<in> set (concat (map ls_tensors (es_layers full))) \<Longrightarrow> tb_name bd \<in> set names \<Longrightarrow>
      tb_packed_shape bd \<noteq> None \<Longrightarrow>
      src (weight_stem (tb_name bd) @ ''.scales'') \<noteq> None \<and> src (weight_stem (tb_name bd) @ ''.biases'') \<noteq> None"
proof -
  let ?embed = "ns_root ns @ ''.embed_tokens.weight''" and ?sp = "filter_spec_to_existing (set names) full"
  let ?layer = "\<lambda>sp. tb_name ` set (concat (map ls_tensors (es_layers sp)))"
  have "''embed_tokens.weight'' \<in> set anchors" by (simp add: anchors_def)
  with resolve_namespace_anchors [OF res] have embed: "?embed \<in> set names" by fastforce
  obtain tied where globals: "map tb_name (es_global_tensors full) = map ((@) (ns_root ns)) (global_names tied)"
    and packed: "map (\<lambda>b. tb_packed_shape b = None) (es_global_tensors full) =
      (q = None) # map (\<lambda>_. True) (tl (es_global_tensors full))"
    using compile_spec_some [OF spec] compile_globals_some by metis
  then obtain e gs where eg: "es_global_tensors full = e # gs" "tb_name e = ?embed"
    by (cases "es_global_tensors full") (auto simp: global_names_def)
  have pe: "tb_packed_shape e = None \<longleftrightarrow> q = None" using packed eg by simp
  have sp_globals: "es_global_tensors ?sp = e # filter (\<lambda>b. tb_name b \<in> set names) gs"
    using embed eg by (simp add: filter_spec_to_existing_def)
  have layers: "set (concat (map ls_tensors (es_layers ?sp))) =
      {b \<in> set (concat (map ls_tensors (es_layers full))). tb_name b \<in> set names}"
    by (rule filtered_names(2))
  have "distinct (spec_names full)" by (rule compile_spec_distinct [OF spec])
  then have fresh: "tb_name e \<notin> set (map tb_name gs) \<union> ?layer full"
    using eg by (auto simp: spec_names_def)
  then have fresh': "tb_name e \<notin> set (map tb_name (filter (\<lambda>b. tb_name b \<in> set names) gs)) \<union> ?layer ?sp"
    unfolding layers by auto
  note E = emit_spec_ids [OF emit sp_globals fresh']
  show "ids ?embed = Some (if q = None then 0 else 2)" using E(1) eg pe by simp
  show "emitted ids n \<longleftrightarrow> n \<in> set names" if "n \<in> set (spec_names full)" "n \<noteq> ?embed" for n
  proof
    assume "n \<in> set names"
    with that eg have "n \<in> set (map tb_name (filter (\<lambda>b. tb_name b \<in> set names) gs)) \<union> ?layer ?sp"
      unfolding layers by (auto simp: spec_names_def)
    with E(2) that eg show "emitted ids n" by auto
  next
    assume em: "emitted ids n"
    show "n \<in> set names"
    proof (rule ccontr)
      assume "n \<notin> set names"
      then have "n \<notin> set (map tb_name (es_global_tensors ?sp)) \<union> ?layer ?sp"
        unfolding layers filtered_names(1) by auto
      from E(3) [OF this] em show False by (simp add: emitted_def)
    qed
  qed
  show "src (weight_stem (tb_name bd) @ ''.scales'') \<noteq> None \<and> src (weight_stem (tb_name bd) @ ''.biases'') \<noteq> None"
    if "bd \<in> set (concat (map ls_tensors (es_layers full)))" "tb_name bd \<in> set names" "tb_packed_shape bd \<noteq> None" for bd
    using E(4) that unfolding layers by blast
qed

lemma compile_image_parts:
  assumes "compile_image skip adapter sha to_f32 src names ar q = Inr (im, mp)"
  shows "\<exists>ns full b ids. resolve_namespace names = Some ns \<and> compile_spec ar ns q = Some full \<and>
    emit_spec sha src (filter_spec_to_existing (set names) full) = Inr (b, ids) \<and>
    mp = apply_fusion_pass (build_ane_fusion_plan (build_execution_plan to_f32 ar ns ids))"
  using assms by (auto simp: compile_image_def Let_def split: option.splits sum.splits if_splits)







text \<open>A source that has any tensor one asks for, with the anchors of the namespace as its names.\<close>

definition any_tensor :: source_tensor where
  "any_tensor = \<lparr>st_shape = [], st_dtype = ''F32'', st_data = [], st_source_filename = '''', st_source_sha256 = '''',
     st_source_offset = 0\<rparr>"

definition anchor_names :: "string list" where
  "anchor_names = [''model.embed_tokens.weight'', ''model.norm.weight'', ''model.layers.0.input_layernorm.weight'',
     ''model.layers.0.self_attn.q_proj.weight'']"

lemma anchor_image:
  "\<exists>im mp. compile_image True True (\<lambda>_. '''') (\<lambda>x. x) (\<lambda>_. Some any_tensor) anchor_names tiny_arch None = Inr (im, mp)"
proof -
  have d0: "dec 0 = ''0''" by (simp add: dec.simps digit_def)
  show ?thesis
    by (simp add: compile_image_def resolve_namespace_def try_candidate_def anchors_def anchor_names_def compile_spec_def
        compile_globals_def compile_layer_def spec_layer_tensors_def quantized_linear_def norm_binding_def pack_linear_def
        tiny_arch_def filter_spec_to_existing_def layer_tensor_def d0 emit_spec_def emit_binding_set_def
        emit_quantized_binding_def emit_tensor_def add_tensor_def begin_segment_def flush_segment_def ib_new_def
        add_alias_def Let_def)
qed



definition projections :: "string list" where
  "projections = [''self_attn.q_proj'', ''self_attn.k_proj'', ''self_attn.v_proj'', ''self_attn.o_proj'',
     ''mlp.gate_proj'', ''mlp.up_proj'', ''mlp.down_proj'']"

lemma weight_stem_append: "weight_stem (xs @ ''.weight'') = xs"
  by (simp add: weight_stem_def suffix_def)

lemma weight_stem_layer: "weight_stem (layer_tensor root i name) = root @ ''.layers.'' @ dec i @ ''.'' @ name"
  using weight_stem_append [of "root @ ''.layers.'' @ dec i @ ''.'' @ name"] by (simp add: layer_tensor_def)

text \<open>Without compile-time quantization only packed sources compile: if a compilation succeeds, every projection
  the source has for a layer comes with its scales and biases, whatever the metadata say.  The query
  projection of the first layer always is among them, since the namespace is found by it.\<close>

theorem compiled_sources_are_packed:
  assumes "compile_image skip adapter sha to_f32 src names ar q = Inr (im, mp)" and "ar_layer_types ar \<noteq> []"
  shows "\<exists>root \<in> {''language_model.model'', ''model''}. layer_tensor root 0 ''self_attn.q_proj'' \<in> set names \<and>
    (\<forall>(i, kind) \<in> set (enumerate 0 (ar_layer_types ar)). \<forall>name \<in> set projections \<inter> set (layer_names kind).
      layer_tensor root i name \<in> set names \<longrightarrow>
        src (root @ ''.layers.'' @ dec i @ ''.'' @ name @ ''.scales'') \<noteq> None \<and>
        src (root @ ''.layers.'' @ dec i @ ''.'' @ name @ ''.biases'') \<noteq> None)"
proof -
  from compile_image_parts [OF assms(1)] obtain ns full b ids where res: "resolve_namespace names = Some ns"
    and spec: "compile_spec ar ns q = Some full"
    and emit: "emit_spec sha src (filter_spec_to_existing (set names) full) = Inr (b, ids)" by blast
  have "''layers.0.self_attn.q_proj.weight'' \<in> set anchors" by (simp add: anchors_def)
  with resolve_namespace_anchors [OF res] have "ns_root ns @ ''.'' @ ''layers.0.self_attn.q_proj.weight'' \<in> set names"
    by blast
  moreover have "dec 0 = ''0''" by (simp add: dec.simps digit_def)
  ultimately have anchor: "layer_tensor (ns_root ns) 0 ''self_attn.q_proj'' \<in> set names"
    by (simp add: layer_tensor_def)
  have "src (ns_root ns @ ''.layers.'' @ dec i @ ''.'' @ name @ ''.scales'') \<noteq> None \<and>
      src (ns_root ns @ ''.layers.'' @ dec i @ ''.'' @ name @ ''.biases'') \<noteq> None"
    if i: "(i, kind) \<in> set (enumerate 0 (ar_layer_types ar))" and name: "name \<in> set projections" "name \<in> set (layer_names kind)"
      and there: "layer_tensor (ns_root ns) i name \<in> set names" for i kind name
  proof -
    have ix: "i < length (ar_layer_types ar)" "ar_layer_types ar ! i = kind"
      using i by (auto simp: in_set_enumerate_eq)
    from compile_spec_layer [OF spec ix(1)] obtain gs bits where l: "i < length (es_layers full)"
      "spec_layer_tensors (ns_root ns) ar gs bits i kind = Some (ls_tensors (es_layers full ! i))" using ix(2) by blast
    note S = spec_layer_tensors_some [OF l(2)]
    have "layer_tensor (ns_root ns) i name \<in> set (map tb_name (ls_tensors (es_layers full ! i)))"
      using S name(2) by (metis image_eqI set_map)
    then obtain bd where bd: "bd \<in> set (ls_tensors (es_layers full ! i))" "tb_name bd = layer_tensor (ns_root ns) i name"
      by auto
    have "tb_packed_shape bd \<noteq> None"
      using S bd name(1) by (auto simp: projections_def)
    moreover have "bd \<in> set (concat (map ls_tensors (es_layers full)))" using bd(1) l(1) by auto
    ultimately show ?thesis
      using image_spec_emission(3) [OF res spec emit, of bd] bd(2) there by (simp add: weight_stem_layer)
  qed
  with anchor resolve_namespace_anchors [OF res] show ?thesis by (intro bexI [of _ "ns_root ns"]) auto
qed

lemma compiled_sources_are_packed_witness:
  "\<exists>root \<in> {''language_model.model'', ''model''}. layer_tensor root 0 ''self_attn.q_proj'' \<in> set anchor_names"
proof -
  obtain im mp where c: "compile_image True True (\<lambda>_. '''') (\<lambda>x. x) (\<lambda>_. Some any_tensor) anchor_names tiny_arch None =
    Inr (im, mp)" using anchor_image by blast
  from compiled_sources_are_packed [OF c] show ?thesis by (auto simp: tiny_arch_def)
qed

text \<open>After the filter no binding is ever reported missing.\<close>

lemma filtered_never_missing:
  assumes "dom src = ex" and "b \<in> set (spec_bindings (filter_spec_to_existing ex sp))"
  shows "check_binding src b \<noteq> Missing"
proof -
  have "tb_name b \<in> ex" using assms(2) by (auto simp: spec_bindings_def filter_spec_to_existing_def)
  with assms(1) show ?thesis by (auto simp: check_binding_def Let_def dom_def split: if_splits)
qed

end
