(* ===== verification/ScheduleCompiler.thy ===== *)
theory ScheduleCompiler
  imports ModelPlan TensorRegistry
begin

text \<open>
  The scheduled module of \<open>compiler/scheduled.rs\<close> and the schedule compiler of \<open>compiler/compile_schedule.rs\<close>: one
  region per layer with its physical tensors, the memory plan, the transfers and the evaluation boundaries.
  Identifiers are natural numbers, sizes are 64 bit words.  SHA-256 is a parameter.
\<close>

datatype storage_class = IoSurface | HeapStorage | Mapped | MetalStorage | CoreMlArray | Virtual

record physical_tensor =
  pt_semantic_id :: nat
  pt_name :: string
  pt_shape :: "u32 list"
  pt_dtype :: backend_dtype
  pt_layout :: physical_layout
  pt_storage_class :: storage_class
  pt_backend :: backend_id
  pt_materialized :: bool
  pt_alignment :: nat

datatype dependency_kind = DataDependency | StateTransition | ResourceDependency | OrderingDependency

record region_dependency =
  rd_predecessor :: nat
  rd_tensors :: "nat list"
  rd_kind :: dependency_kind

datatype state_effect = KvCacheRead | KvCacheWrite | KvCacheClear

datatype operation_family = QuantizedMatmul | Matmul | RmsNorm | RoPE | Silu | AddOp | MultiplyOp | SoftmaxOp | TransposeOp
  | ReshapeOp | IndexSelect | Sampling | Reduction | LayoutTransformOp | Checksum | MlpBlock | AttentionBlock
  | DecoderLayer | PrefillFragment

record fusion_boundary =
  fb_operations :: "nat list"
  fb_fused_family :: operation_family
  fb_qualified :: bool
  fb_backend :: "backend_id option"

text \<open>The list of fused kernel regions is always created empty and left out.\<close>

record scheduled_region =
  sr_region_id :: nat
  sr_name :: string
  sr_operations :: "nat list"
  sr_selected_backend :: backend_id
  sr_physical_tensors :: "physical_tensor list"
  sr_inputs :: "nat list"
  sr_outputs :: "nat list"
  sr_dependencies :: "region_dependency list"
  sr_fusions :: "fusion_boundary list"
  sr_state_effects :: "state_effect list"
  sr_temp_memory_bytes :: u64
  sr_is_fence :: bool

record schedule_transfer =
  st_source :: nat
  st_destination :: nat
  st_source_backend :: backend_id
  st_dest_backend :: backend_id
  st_source_storage :: storage_class
  st_dest_storage :: storage_class
  st_size_bytes :: u64
  st_zero_copy_capable :: bool
  st_zero_copy_verified :: bool
  st_conversion_needed :: bool

record buffer_reuse =
  br_tensor_a :: nat
  br_tensor_b :: nat
  br_size_bytes :: u64

record memory_plan =
  me_total_bytes :: u64
  me_peak_bytes :: u64
  me_per_backend :: "backend_id \<rightharpoonup> u64"
  me_aliases :: "(nat \<times> nat) list"
  me_buffer_reuse :: "buffer_reuse list"

record sealed_boundary =
  se_regions :: "nat list"
  se_requires_fence :: bool
  se_same_backend :: bool

record scheduled_module =
  sm_digest :: string
  sm_source_semantic_digest :: string
  sm_regions :: "scheduled_region list"
  sm_transfers :: "schedule_transfer list"
  sm_memory_plan :: memory_plan
  sm_evaluation_boundaries :: "sealed_boundary list"
  sm_machine_profile_digest :: string

definition sm_new :: "string \<Rightarrow> scheduled_module" where
  "sm_new source = \<lparr>sm_digest = '''', sm_source_semantic_digest = source, sm_regions = [], sm_transfers = [],
     sm_memory_plan = \<lparr>me_total_bytes = 0, me_peak_bytes = 0, me_per_backend = Map.empty, me_aliases = [],
       me_buffer_reuse = []\<rparr>,
     sm_evaluation_boundaries = [], sm_machine_profile_digest = ''''\<rparr>"

definition region_text :: "scheduled_region \<Rightarrow> string" where
  "region_text r = dec (sr_region_id r) @ dec (unat (sr_selected_backend r)) @ dec (length (sr_operations r))"

definition sm_seal :: "(string \<Rightarrow> string) \<Rightarrow> scheduled_module \<Rightarrow> scheduled_module" where
  "sm_seal sha256 m = m\<lparr>sm_digest := sha256 (sm_source_semantic_digest m @ concat (map region_text (sm_regions m)))\<rparr>"

subsection \<open>The compiler\<close>

definition seq_len :: "'f text_arch \<Rightarrow> u64" where
  "seq_len ar = ucast (min (ar_max_position_embeddings ar) 8192)"

definition hidden_state_bytes :: "'f text_arch \<Rightarrow> u64" where
  "hidden_state_bytes ar = seq_len ar * ucast (ar_hidden_size ar) * 4"

text \<open>The closure over the layers and \<open>estimate_layer_peak_memory\<close> compute the same.\<close>

definition estimate_layer_peak_memory :: "'f layer_plan \<Rightarrow> 'f text_arch \<Rightarrow> u64" where
  "estimate_layer_peak_memory l ar = (
     let qkv_workspace = seq_len ar * (ucast (lp_n_heads l) + 2 * ucast (lp_n_kv_heads l)) * ucast (lp_head_dim l) * 4;
         ffn_inter = 2 * seq_len ar * ucast (ar_intermediate_size ar) * 4 in
     max (max qkv_workspace ffn_inter) (hidden_state_bytes ar))"

definition row_major_tensor ::
  "nat \<Rightarrow> string \<Rightarrow> u32 list \<Rightarrow> backend_dtype \<Rightarrow> storage_class \<Rightarrow> backend_id \<Rightarrow> physical_tensor" where
  "row_major_tensor i name shape dtype storage backend =
     \<lparr>pt_semantic_id = i, pt_name = name, pt_shape = shape, pt_dtype = dtype, pt_layout = RowMajor,
      pt_storage_class = storage, pt_backend = backend, pt_materialized = True, pt_alignment = 4096\<rparr>"

definition layer_tensors :: "'f text_arch \<Rightarrow> nat \<Rightarrow> 'f layer_plan \<Rightarrow> backend_id \<Rightarrow> physical_tensor list" where
  "layer_tensors ar i l backend = (
     let is_full = (lp_attention_kind l = ''full_attention'');
         base = i * 100;
         name = (\<lambda>part. ''layer_'' @ dec i @ part);
         seq = ucast (seq_len ar) :: u32;
         tensor = (\<lambda>k part shape. row_major_tensor (base + k) (name part) shape F32 IoSurface backend);
         cache_capacity = (if is_full then seq else lp_sliding_window l);
         kv_cache_size = (if is_full then unwrap_or (lp_n_global_kv_heads l) (lp_n_kv_heads l) else lp_n_kv_heads l);
         kv_hd = (if is_full then unwrap_or (lp_global_head_dim l) (lp_head_dim l) else lp_head_dim l) in
     [tensor 1 ''_hidden_input'' [seq, ar_hidden_size ar],
      tensor 2 ''_hidden_output'' [seq, ar_hidden_size ar],
      tensor 3 ''_k_cache'' [cache_capacity, kv_cache_size, kv_hd],
      tensor 4 ''_v_cache'' [cache_capacity, kv_cache_size, kv_hd]] @
     map (\<lambda>(suffix, n). tensor (10 + of_char suffix) (''_attn_'' @ [suffix]) [seq, n, lp_head_dim l])
       [(CHR ''q'', lp_n_heads l), (CHR ''k'', lp_n_kv_heads l), (CHR ''v'', lp_n_kv_heads l)] @
     [tensor 20 ''_gate_proj'' [seq, ar_intermediate_size ar],
      tensor 21 ''_up_proj'' [seq, ar_intermediate_size ar],
      tensor 22 ''_down_proj'' [seq, ar_hidden_size ar]])"

definition layer_region :: "'f text_arch \<Rightarrow> nat \<Rightarrow> 'f layer_plan \<Rightarrow> scheduled_region" where
  "layer_region ar i l = (
     let backend = dominant_backend (lp_route l) in
     \<lparr>sr_region_id = i, sr_name = ''layer_'' @ dec i @ ''_'' @ lp_attention_kind l,
      sr_operations = [i * 10 + 1, i * 10 + 2], sr_selected_backend = backend,
      sr_physical_tensors = layer_tensors ar i l backend,
      sr_inputs = [i * 100 + 1], sr_outputs = [i * 100 + 2],
      sr_dependencies = (if i > 0 then [\<lparr>rd_predecessor = i - 1, rd_tensors = [(i - 1) * 100 + 2],
        rd_kind = DataDependency\<rparr>] else []),
      sr_fusions = [],
      sr_state_effects = [KvCacheWrite],
      sr_temp_memory_bytes = estimate_layer_peak_memory l ar, sr_is_fence = False\<rparr>)"

definition schedule_memory :: "'f model_plan \<Rightarrow> 'f text_arch \<Rightarrow> memory_plan" where
  "schedule_memory mp ar = (
     let hidden = hidden_state_bytes ar;
         bytes = map (\<lambda>l. estimate_layer_peak_memory l ar) (mp_layers mp);
         peak = (case bytes of [] \<Rightarrow> hidden | b # bs \<Rightarrow> fold max bs b) in
     \<lparr>me_total_bytes = peak + hidden, me_peak_bytes = max peak hidden,
      me_per_backend = [0 \<mapsto> peak, 1 \<mapsto> 0, 2 \<mapsto> 0], me_aliases = [],
      me_buffer_reuse = map (\<lambda>i. \<lparr>br_tensor_a = (i - 1) * 100 + 2, br_tensor_b = i * 100 + 1, br_size_bytes = hidden\<rparr>)
        [1..<length (mp_layers mp)]\<rparr>)"

definition io_transfer :: "'f text_arch \<Rightarrow> nat \<Rightarrow> schedule_transfer" where
  "io_transfer ar t = \<lparr>st_source = t, st_destination = t, st_source_backend = 0, st_dest_backend = 0,
     st_source_storage = IoSurface, st_dest_storage = IoSurface, st_size_bytes = hidden_state_bytes ar,
     st_zero_copy_capable = True, st_zero_copy_verified = False, st_conversion_needed = False\<rparr>"

text \<open>\<open>(0..n).step_by(6)\<close>.\<close>

definition boundary_starts :: "nat \<Rightarrow> nat list" where
  "boundary_starts n = map (\<lambda>k. k * 6) [0..<(n + 5) div 6]"

definition schedule_boundaries :: "nat \<Rightarrow> sealed_boundary list" where
  "schedule_boundaries n = map (\<lambda>start. \<lparr>se_regions = [start..<min (start + 6) n],
     se_requires_fence = (start > 0), se_same_backend = True\<rparr>) (boundary_starts n)"

definition compile_model_to_scheduled_module ::
  "(string \<Rightarrow> string) \<Rightarrow> 'f model_plan \<Rightarrow> 'f text_arch \<Rightarrow> string \<Rightarrow> scheduled_module" where
  "compile_model_to_scheduled_module sha256 mp ar source =
     sm_seal sha256 ((sm_new source)\<lparr>
       sm_regions := map (\<lambda>(i, l). layer_region ar i l) (enumerate 0 (mp_layers mp)),
       sm_memory_plan := schedule_memory mp ar,
       sm_transfers := concat (map (\<lambda>i. [io_transfer ar (i * 100 + 1), io_transfer ar (i * 100 + 2)])
         [0..<length (mp_layers mp)]),
       sm_evaluation_boundaries := schedule_boundaries (length (mp_layers mp))\<rparr>)"


subsection \<open>Regions\<close>

lemma of_char_codes: "(of_char (CHR ''q'') :: nat) = 113" "(of_char (CHR ''k'') :: nat) = 107" "(of_char (CHR ''v'') :: nat) = 118"
  by simp_all

text \<open>The offsets of a layer's tensors in its block of 100 identifiers; those of the attention intermediates reach
  into the next block.\<close>

definition tensor_offsets :: "nat list" where
  "tensor_offsets = [1, 2, 3, 4, 123, 117, 128, 20, 21, 22]"

lemma layer_tensor_ids: "map pt_semantic_id (layer_tensors ar i l b) = map (\<lambda>k. i * 100 + k) tensor_offsets"
  by (simp add: layer_tensors_def Let_def row_major_tensor_def tensor_offsets_def)

lemma layer_tensor_backend: "t \<in> set (layer_tensors ar i l b) \<Longrightarrow> pt_backend t = b"
  by (auto simp: layer_tensors_def Let_def row_major_tensor_def)

lemma offsets_residue:
  "\<forall>k \<in> set tensor_offsets. \<forall>j \<in> set tensor_offsets. k mod 100 = j mod 100 \<longrightarrow> k = j"
  by (simp add: tensor_offsets_def)

lemma tensor_ids_inj:
  assumes "i * 100 + k = j * 100 + l" "k \<in> set tensor_offsets" "l \<in> set tensor_offsets"
  shows "i = j \<and> k = (l :: nat)"
proof -
  have "(i * 100 + k) mod 100 = (j * 100 + l) mod 100" using assms(1) by simp
  then have "k mod 100 = l mod 100" by simp
  with offsets_residue assms(2,3) have "k = l" by blast
  with assms(1) show ?thesis by simp
qed

lemma distinct_blocks:
  fixes f :: "nat \<Rightarrow> 'a list"
  assumes "\<And>i. distinct (f i)" and "\<And>i j. i \<noteq> j \<Longrightarrow> set (f i) \<inter> set (f j) = {}"
  shows "distinct (concat (map f [0..<n]))"
proof (induction n)
  case (Suc n)
  have "x \<notin> set (f n)" if "x \<in> set (concat (map f [0..<n]))" for x
  proof -
    from that obtain i where "i < n" "x \<in> set (f i)" by auto
    with assms(2) [of i n] show ?thesis by (simp add: disjoint_iff)
  qed
  then have "set (concat (map f [0..<n])) \<inter> set (f n) = {}" by (rule disjoint_iff [THEN iffD2, rule_format])
  moreover have "concat (map f [0..<Suc n]) = concat (map f [0..<n]) @ f n" by simp
  ultimately show ?case using Suc assms(1) [of n] by (simp only: distinct_append)
qed simp

lemma compiled_fields:
  "sm_regions (compile_model_to_scheduled_module sha mp ar src) = map (\<lambda>(i, l). layer_region ar i l) (enumerate 0 (mp_layers mp))"
  "sm_memory_plan (compile_model_to_scheduled_module sha mp ar src) = schedule_memory mp ar"
  "sm_transfers (compile_model_to_scheduled_module sha mp ar src) =
    concat (map (\<lambda>i. [io_transfer ar (i * 100 + 1), io_transfer ar (i * 100 + 2)]) [0..<length (mp_layers mp)])"
  "sm_evaluation_boundaries (compile_model_to_scheduled_module sha mp ar src) = schedule_boundaries (length (mp_layers mp))"
  by (simp_all add: compile_model_to_scheduled_module_def sm_seal_def)

lemma region_nth:
  "i < length (mp_layers mp) \<Longrightarrow>
    sm_regions (compile_model_to_scheduled_module sha mp ar src) ! i = layer_region ar i (mp_layers mp ! i)"
  by (simp add: compiled_fields nth_enumerate_eq)

definition region_ok :: "scheduled_module \<Rightarrow> nat \<Rightarrow> bool" where
  "region_ok m i \<longleftrightarrow> (let r = sm_regions m ! i; ids = map pt_semantic_id (sr_physical_tensors r) in
     sr_region_id r = i \<and> (\<forall>t \<in> set (sr_physical_tensors r). pt_backend t = sr_selected_backend r) \<and>
     set (sr_inputs r) \<subseteq> set ids \<and> set (sr_outputs r) \<subseteq> set ids \<and>
     (\<forall>d \<in> set (sr_dependencies r). rd_predecessor d < i \<and> rd_tensors d = sr_outputs (sm_regions m ! rd_predecessor d)))"

text \<open>C15: A schedule has one region per layer, in order, on the dominant backend of the layer's route with all its
  tensors; inputs and outputs are among the tensors, dependencies name the outputs of an earlier region.  No two
  tensors and no two operations of the schedule share an identifier.\<close>

theorem schedule_well_formed:
  "length (sm_regions (compile_model_to_scheduled_module sha mp ar src)) = length (mp_layers mp) \<and>
    map sr_selected_backend (sm_regions (compile_model_to_scheduled_module sha mp ar src)) =
      map (\<lambda>l. dominant_backend (lp_route l)) (mp_layers mp) \<and>
    list_all (region_ok (compile_model_to_scheduled_module sha mp ar src)) [0..<length (mp_layers mp)] \<and>
    distinct (concat (map (\<lambda>r. map pt_semantic_id (sr_physical_tensors r))
      (sm_regions (compile_model_to_scheduled_module sha mp ar src)))) \<and>
    distinct (concat (map sr_operations (sm_regions (compile_model_to_scheduled_module sha mp ar src))))"
proof -
  let ?m = "compile_model_to_scheduled_module sha mp ar src" and ?n = "length (mp_layers mp)"
  have len: "length (sm_regions ?m) = ?n" by (simp add: compiled_fields)
  have regions: "sm_regions ?m = map (\<lambda>i. layer_region ar i (mp_layers mp ! i)) [0..<?n]"
    by (rule nth_equalityI) (simp_all add: len region_nth)
  have "map (\<lambda>r. map pt_semantic_id (sr_physical_tensors r)) (sm_regions ?m) =
      map (\<lambda>i. map (\<lambda>k. i * 100 + k) tensor_offsets) [0..<?n]"
    by (simp add: regions layer_region_def Let_def layer_tensor_ids)
  moreover have "distinct (concat (map (\<lambda>i. map (\<lambda>k. i * 100 + k) tensor_offsets) [0..<?n]))"
  proof (rule distinct_blocks)
    show "distinct (map (\<lambda>k. i * 100 + k) tensor_offsets)" for i :: nat
      by (simp add: tensor_offsets_def)
    show "set (map (\<lambda>k. i * 100 + k) tensor_offsets) \<inter> set (map (\<lambda>k. j * 100 + k) tensor_offsets) = {}"
      if "i \<noteq> j" for i j :: nat
    proof (rule ccontr)
      assume "set (map (\<lambda>k. i * 100 + k) tensor_offsets) \<inter> set (map (\<lambda>k. j * 100 + k) tensor_offsets) \<noteq> {}"
      then obtain k l where "k \<in> set tensor_offsets" "l \<in> set tensor_offsets" "i * 100 + k = j * 100 + l"
        unfolding set_map by blast
      with tensor_ids_inj that show False by blast
    qed
  qed
  ultimately have tensors: "distinct (concat (map (\<lambda>r. map pt_semantic_id (sr_physical_tensors r)) (sm_regions ?m)))"
    by simp
  have "map sr_operations (sm_regions ?m) = map (\<lambda>i. [i * 10 + 1, i * 10 + 2]) [0..<?n]"
    by (simp add: regions layer_region_def Let_def)
  moreover have "distinct (concat (map (\<lambda>i. [i * 10 + 1, i * 10 + 2 :: nat]) [0..<?n]))"
    by (rule distinct_blocks) auto
  ultimately have operations: "distinct (concat (map sr_operations (sm_regions ?m)))" by simp
  have "region_ok ?m i" if i: "i < ?n" for i
  proof -
    have ids: "map pt_semantic_id (sr_physical_tensors (sm_regions ?m ! i)) = map (\<lambda>k. i * 100 + k) tensor_offsets"
      using i by (simp add: region_nth layer_region_def Let_def layer_tensor_ids)
    have io: "sr_region_id (sm_regions ?m ! j) = j" "sr_inputs (sm_regions ?m ! j) = [j * 100 + 1]"
      "sr_outputs (sm_regions ?m ! j) = [j * 100 + 2]" if "j < ?n" for j
      using that by (simp_all add: region_nth layer_region_def Let_def)
    have "i * 100 + 1 \<in> set (map (\<lambda>k. i * 100 + k) tensor_offsets)" "i * 100 + 2 \<in> set (map (\<lambda>k. i * 100 + k) tensor_offsets)"
      by (simp_all add: tensor_offsets_def)
    then have inputs: "set (sr_inputs (sm_regions ?m ! i)) \<subseteq> set (map pt_semantic_id (sr_physical_tensors (sm_regions ?m ! i)))"
      "set (sr_outputs (sm_regions ?m ! i)) \<subseteq> set (map pt_semantic_id (sr_physical_tensors (sm_regions ?m ! i)))"
      unfolding ids io(2) [OF i] io(3) [OF i] by simp_all
    have backend: "pt_backend t = sr_selected_backend (sm_regions ?m ! i)"
      if "t \<in> set (sr_physical_tensors (sm_regions ?m ! i))" for t
      using that i by (simp add: region_nth layer_region_def Let_def layer_tensor_backend)
    have deps: "rd_predecessor d < i \<and> rd_tensors d = sr_outputs (sm_regions ?m ! rd_predecessor d)"
      if "d \<in> set (sr_dependencies (sm_regions ?m ! i))" for d
    proof -
      have "0 < i" "d = \<lparr>rd_predecessor = i - 1, rd_tensors = [(i - 1) * 100 + 2], rd_kind = DataDependency\<rparr>"
        using that i by (auto simp: region_nth layer_region_def Let_def split: if_splits)
      with i io(3) [of "i - 1"] show ?thesis by simp
    qed
    show ?thesis unfolding region_ok_def Let_def using io(1) [OF i] inputs backend deps by blast
  qed
  then have "list_all (region_ok ?m) [0..<?n]" by (simp add: list_all_iff)
  moreover have "map sr_selected_backend (sm_regions ?m) = map (\<lambda>l. dominant_backend (lp_route l)) (mp_layers mp)"
    by (rule nth_equalityI) (simp_all add: len region_nth layer_region_def Let_def)
  ultimately show ?thesis using len tensors operations by blast
qed

subsection \<open>Boundaries and memory\<close>

lemma boundaries_concat: "concat (map (\<lambda>k. [k * 6..<min (k * 6 + 6) n]) [0..<m]) = [0..<min (m * 6) n]"
proof (induction m)
  case (Suc m)
  have "[0..<min (m * 6) n] @ [m * 6..<min (m * 6 + 6) n] = [0..<min (m * 6 + 6) n]"
  proof (cases "m * 6 \<le> n")
    case True
    then obtain d where "min (m * 6 + 6) n = m * 6 + d" by (metis le_Suc_ex le_add1 min.boundedI)
    with True upt_add_eq_append [of 0 "m * 6" d] show ?thesis by simp
  qed simp
  with Suc show ?case by (simp add: add.commute)
qed simp

text \<open>The evaluation boundaries cut the regions into consecutive groups, every group but the last of six, the last
  of one to six; all but the first ask for a fence.  The memory plan covers the greatest layer: its peak is at
  least what every region declares, and its total the peak layer and one hidden state.\<close>

theorem boundaries_partition:
  "concat (map se_regions (sm_evaluation_boundaries (compile_model_to_scheduled_module sha mp ar src))) =
      [0..<length (mp_layers mp)] \<and>
    (\<forall>k < length (sm_evaluation_boundaries (compile_model_to_scheduled_module sha mp ar src)).
      let b = sm_evaluation_boundaries (compile_model_to_scheduled_module sha mp ar src) ! k in
      se_regions b \<noteq> [] \<and> length (se_regions b) \<le> 6 \<and> (se_requires_fence b \<longleftrightarrow> k > 0) \<and>
      (k + 1 < length (sm_evaluation_boundaries (compile_model_to_scheduled_module sha mp ar src)) \<longrightarrow>
        length (se_regions b) = 6)) \<and>
    (\<forall>r \<in> set (sm_regions (compile_model_to_scheduled_module sha mp ar src)).
      sr_temp_memory_bytes r \<le> me_peak_bytes (sm_memory_plan (compile_model_to_scheduled_module sha mp ar src)))"
proof -
  let ?n = "length (mp_layers mp)"
  have "concat (map se_regions (schedule_boundaries ?n)) = [0..<min ((?n + 5) div 6 * 6) ?n]"
    unfolding boundaries_concat [symmetric] by (simp add: schedule_boundaries_def boundary_starts_def comp_def)
  also have "min ((?n + 5) div 6 * 6) ?n = ?n" by linarith
  finally have all: "concat (map se_regions (schedule_boundaries ?n)) = [0..<?n]" .
  have each: "let b = schedule_boundaries ?n ! k in se_regions b \<noteq> [] \<and> length (se_regions b) \<le> 6 \<and>
      (se_requires_fence b \<longleftrightarrow> k > 0) \<and> (k + 1 < length (schedule_boundaries ?n) \<longrightarrow> length (se_regions b) = 6)"
    if "k < length (schedule_boundaries ?n)" for k
  proof -
    have k: "k < (?n + 5) div 6" using that by (simp add: schedule_boundaries_def boundary_starts_def)
    then have "k * 6 < ?n" by linarith
    moreover have "k + 1 < (?n + 5) div 6 \<longrightarrow> k * 6 + 6 \<le> ?n" by linarith
    ultimately show ?thesis
      using k by (auto simp: schedule_boundaries_def boundary_starts_def Let_def)
  qed
  have fold_max: "x \<le> fold max xs y" if "x \<in> set (y # xs)" for x y :: u64 and xs
    using that by (metis Max_ge List.finite_set Max.set_eq_fold)
  have "estimate_layer_peak_memory l ar \<le> me_peak_bytes (schedule_memory mp ar)" if "l \<in> set (mp_layers mp)" for l
  proof -
    from that obtain l0 ls where ls: "mp_layers mp = l0 # ls" by (cases "mp_layers mp") auto
    let ?f = "\<lambda>l. estimate_layer_peak_memory l ar"
    have "?f l \<in> set (?f l0 # map ?f ls)" using that ls by auto
    from fold_max [OF this] have "?f l \<le> fold max (map ?f ls) (?f l0)" .
    then show ?thesis by (auto simp: schedule_memory_def Let_def ls intro: order_trans)
  qed
  with all each show ?thesis
    by (auto simp: compiled_fields layer_region_def Let_def in_set_enumerate_eq)
qed


definition seven_layers :: "bool text_arch" where
  "seven_layers = tiny_arch\<lparr>ar_layer_types := replicate 6 SlidingAttention @ [FullAttention]\<rparr>"

lemma boundaries_partition_witness:
  "map se_regions (sm_evaluation_boundaries (compile_model_to_scheduled_module (\<lambda>s. s)
      (build_execution_plan (\<lambda>x. x) seven_layers model_namespace Map.empty) seven_layers '''')) =
    [[0, 1, 2, 3, 4, 5], [6]]"
proof -
  let ?m = "compile_model_to_scheduled_module (\<lambda>s. s)
    (build_execution_plan (\<lambda>x. x) seven_layers model_namespace Map.empty) seven_layers ''''"
  have n: "length (mp_layers (build_execution_plan (\<lambda>x. x) seven_layers model_namespace Map.empty)) = 7"
    by (simp add: built_layers seven_layers_def)
  note P = boundaries_partition [of "\<lambda>s. s" "build_execution_plan (\<lambda>x. x) seven_layers model_namespace Map.empty"
    seven_layers "''''", unfolded n]
  from P show ?thesis
    by (simp add: compiled_fields n schedule_boundaries_def boundary_starts_def upt_rec)
qed

lemma loaded_backends:
  "map (\<lambda>l. dominant_backend (lp_route l)) (mp_layers (assign_routes (build_execution_plan to_f32 ar ns ids))) =
    map (\<lambda>kind. if kind = FullAttention then 0 else 2) (ar_layer_types ar)"
proof -
  have "dominant_backend (set_dominant_backend (resolve_attention_backend p) (lp_route p)) =
      (if kind = FullAttention then 0 else 2)"
    if "p = build_layer_plan to_f32 ar (ns_root ns) ids i kind" for p i kind
    using loaded_layer(2) [OF that] that by (simp add: build_layer_plan_def resolve_attention_backend_def Let_def)
  then have "map (\<lambda>l. dominant_backend (lp_route l)) (mp_layers (assign_routes (build_execution_plan to_f32 ar ns ids))) =
      map (\<lambda>(i, kind). if kind = FullAttention then 0 else 2) (enumerate 0 (ar_layer_types ar))"
    by (simp add: assign_routes_def built_layers comp_def case_prod_beta)
  also have "\<dots> = map (\<lambda>kind. if kind = FullAttention then 0 else 2) (map snd (enumerate 0 (ar_layer_types ar)))"
    unfolding map_map by (simp add: comp_def case_prod_beta)
  finally show ?thesis by simp
qed

text \<open>After loading, full attention layers are scheduled on backend 0 and sliding ones on backend 2, yet every
  transfer of the schedule goes from backend 0 to backend 0 and every boundary claims that its regions share
  one backend.\<close>

theorem schedule_ignores_backends:
  "map sr_selected_backend (sm_regions (compile_model_to_scheduled_module sha
      (assign_routes (build_execution_plan to_f32 ar ns ids)) ar src)) =
      map (\<lambda>kind. if kind = FullAttention then 0 else 2) (ar_layer_types ar) \<and>
    map (\<lambda>t. (st_source_backend t, st_dest_backend t)) (sm_transfers (compile_model_to_scheduled_module sha
      (assign_routes (build_execution_plan to_f32 ar ns ids)) ar src)) =
      replicate (2 * length (ar_layer_types ar)) (0, 0) \<and>
    list_all se_same_backend (sm_evaluation_boundaries (compile_model_to_scheduled_module sha
      (assign_routes (build_execution_plan to_f32 ar ns ids)) ar src))"
proof -
  let ?mp = "assign_routes (build_execution_plan to_f32 ar ns ids)"
  have len: "length (mp_layers ?mp) = length (ar_layer_types ar)"
    by (simp add: assign_routes_def built_layers)
  have "map sr_selected_backend (sm_regions (compile_model_to_scheduled_module sha ?mp ar src)) =
      map (\<lambda>l. dominant_backend (lp_route l)) (mp_layers ?mp)"
    by (rule nth_equalityI) (simp_all add: compiled_fields nth_enumerate_eq layer_region_def Let_def)
  moreover have "map (\<lambda>t. (st_source_backend t, st_dest_backend t))
      (concat (map (\<lambda>i. [io_transfer ar (i * 100 + 1), io_transfer ar (i * 100 + 2)]) [0..<n])) = replicate (2 * n) (0, 0)" for n
    by (induction n) (simp_all add: io_transfer_def replicate_append_same [symmetric])
  moreover have "list_all se_same_backend (schedule_boundaries n)" for n
    by (simp add: schedule_boundaries_def list_all_iff)
  ultimately show ?thesis by (simp only: compiled_fields loaded_backends len)
qed

text \<open>The sealed digest writes the numbers of a region without separators.\<close>

lemma seal_ambiguous:
  "\<exists>r r'. sr_region_id r \<noteq> sr_region_id r' \<and> sr_selected_backend r \<noteq> sr_selected_backend r' \<and>
    sm_digest (sm_seal sha (m\<lparr>sm_regions := [r]\<rparr>)) = sm_digest (sm_seal sha (m\<lparr>sm_regions := [r']\<rparr>))"
proof -
  let ?r = "\<lambda>i b. \<lparr>sr_region_id = i, sr_name = '''', sr_operations = [], sr_selected_backend = b,
    sr_physical_tensors = [], sr_inputs = [], sr_outputs = [], sr_dependencies = [], sr_fusions = [], sr_state_effects = [],
    sr_temp_memory_bytes = 0, sr_is_fence = False\<rparr>"
  have "region_text (?r 1 12) = region_text (?r 11 2)"
    by (simp add: region_text_def dec.simps digit_def)
  then show ?thesis by (intro exI [of _ "?r 1 12"] exI [of _ "?r 11 2"]) (simp add: sm_seal_def)
qed

text \<open>Asking for backend 1 does not make it dominant.\<close>

lemma accelerate_not_dominant: "dominant_backend (set_dominant_backend 1 default_route) = 0"
  by (simp add: default_route_def set_dominant_backend_def dominant_backend_def Let_def better_def route_backends_def)

end
