(* ===== verification/LayoutTransform.thy ===== *)
theory LayoutTransform
  imports Bytes
begin

text \<open>
  The prepacked weight layout of \<open>layout_transform.rs\<close>: the blocked transpose, the group reordering and the
  interleaving of weights with scales and biases, with their loops over preallocated buffers.  Floats are kept as
  their bit patterns.  \<open>None\<close> is a failed assertion or a division by zero.
\<close>

subsection \<open>Loops over buffers\<close>

text \<open>\<open>dst[a..a + src.len()].copy_from_slice(src)\<close>.\<close>

definition copy_slice :: "nat \<Rightarrow> 'a list \<Rightarrow> 'a list \<Rightarrow> 'a list" where
  "copy_slice a src dst = take a dst @ src @ drop (a + length src) dst"

definition slice :: "nat \<Rightarrow> nat \<Rightarrow> 'a list \<Rightarrow> 'a list" where
  "slice a len xs = take len (drop a xs)"

text \<open>\<open>(0..n).step_by(64)\<close>.\<close>

definition block_starts :: "nat \<Rightarrow> nat list" where
  "block_starts n = map (\<lambda>b. b * 64) [0..<(n + 63) div 64]"

text \<open>\<open>for ni in 0..n { for gi in 0..groups { .. } }\<close>.\<close>

definition pairs :: "nat \<Rightarrow> nat \<Rightarrow> (nat \<times> nat) list" where
  "pairs n m = concat (map (\<lambda>i. map (\<lambda>j. (i, j)) [0..<m]) [0..<n])"

subsection \<open>The transforms\<close>

definition transpose_order :: "nat \<Rightarrow> nat \<Rightarrow> (nat \<times> nat) list" where
  "transpose_order k n = concat (map (\<lambda>kb. concat (map (\<lambda>nb.
     concat (map (\<lambda>ki. map (\<lambda>ni. (ki, ni)) [nb..<min (nb + 64) n]) [kb..<min (kb + 64) k]))
     (block_starts n))) (block_starts k))"

definition transpose_u8 :: "u8 list \<Rightarrow> nat \<Rightarrow> nat \<Rightarrow> u8 list option" where
  "transpose_u8 src k n =
     (if length src \<noteq> k * n then None
      else Some (fold (\<lambda>(ki, ni) dst. dst[ni * k + ki := src ! (ki * n + ni)]) (transpose_order k n)
        (replicate (n * k) 0)))"

definition reorder_groups :: "u8 list \<Rightarrow> nat \<Rightarrow> nat \<Rightarrow> nat \<Rightarrow> u8 list option" where
  "reorder_groups src k n g =
     (if length src \<noteq> n * k \<or> g = 0 \<or> k mod g \<noteq> 0 then None
      else Some (fold (\<lambda>(ni, gi) dst. copy_slice (ni * k + gi * g) (slice (ni * k + gi * g) g src) dst)
        (pairs n (k div g)) (replicate (n * k) 0)))"

definition interleave_scales_biases ::
  "u8 list \<Rightarrow> u32 list \<Rightarrow> u32 list \<Rightarrow> nat \<Rightarrow> nat \<Rightarrow> nat \<Rightarrow> u8 list option" where
  "interleave_scales_biases weight scales biases k n g =
     (if g = 0 then None
      else let groups = k div g in
        if length weight \<noteq> n * k \<or> length scales \<noteq> n * groups \<or> length biases \<noteq> n * groups then None
        else Some (fold (\<lambda>(ni, gi) packed.
            let off = (ni * groups + gi) * (g + 8) in
            copy_slice (off + g + 4) (u32_to_le_bytes (biases ! (ni * groups + gi)))
              (copy_slice (off + g) (u32_to_le_bytes (scales ! (ni * groups + gi)))
                (copy_slice off (slice (ni * k + gi * g) g weight) packed)))
          (pairs n groups) (replicate (n * groups * (g + 8)) 0)))"

definition uninterleave_scales_biases ::
  "u8 list \<Rightarrow> nat \<Rightarrow> nat \<Rightarrow> nat \<Rightarrow> (u8 list \<times> u32 list \<times> u32 list) option" where
  "uninterleave_scales_biases packed k n g =
     (if g = 0 then None
      else let groups = k div g in
        if length packed \<noteq> n * groups * (g + 8) then None
        else Some (fold (\<lambda>(ni, gi) (weight, scales, biases).
            let off = (ni * groups + gi) * (g + 8) in
            (copy_slice (ni * k + gi * g) (slice off g packed) weight,
             scales[ni * groups + gi := u32_from_le_bytes (slice (off + g) 4 packed)],
             biases[ni * groups + gi := u32_from_le_bytes (slice (off + g + 4) 4 packed)]))
          (pairs n groups) (replicate (n * k) 0, replicate (n * groups) 0, replicate (n * groups) 0)))"

record prepack_metadata =
  pm_layout_abi :: string
  pm_k :: nat
  pm_n :: nat
  pm_group_size :: nat
  pm_original_bytes :: nat
  pm_packed_bytes :: nat

text \<open>The time the transform took is left out of the metadata.\<close>

definition prepack_pipeline ::
  "u8 list \<Rightarrow> u32 list \<Rightarrow> u32 list \<Rightarrow> nat \<Rightarrow> nat \<Rightarrow> nat \<Rightarrow> (u8 list \<times> prepack_metadata) option" where
  "prepack_pipeline weight scales biases k n g =
     (case transpose_u8 weight k n of
        None \<Rightarrow> None
      | Some transposed \<Rightarrow>
          (case reorder_groups transposed k n g of
             None \<Rightarrow> None
           | Some reordered \<Rightarrow>
               map_option (\<lambda>packed. (packed, \<lparr>pm_layout_abi = ''prepacked-int8-v1'', pm_k = k, pm_n = n,
                   pm_group_size = g, pm_original_bytes = k * n, pm_packed_bytes = length packed\<rparr>))
                 (interleave_scales_biases reordered scales biases k n g)))"

datatype roundtrip_error = WeightMismatch nat | ScaleMismatch nat | BiasMismatch nat

text \<open>\<open>far x y\<close> stands for the float comparison \<open>(x - y).abs() > 1e-7\<close>.\<close>

definition verify_roundtrip ::
  "(u32 \<Rightarrow> u32 \<Rightarrow> bool) \<Rightarrow> u8 list \<Rightarrow> u32 list \<Rightarrow> u32 list \<Rightarrow> nat \<Rightarrow> nat \<Rightarrow> nat \<Rightarrow> (roundtrip_error + unit) option" where
  "verify_roundtrip far weight scales biases k n g =
     (case prepack_pipeline weight scales biases k n g of
        None \<Rightarrow> None
      | Some (packed, _) \<Rightarrow>
          (case uninterleave_scales_biases packed k n g of
             None \<Rightarrow> None
           | Some (w_rt, s_rt, b_rt) \<Rightarrow>
               (case transpose_u8 w_rt n k of
                  None \<Rightarrow> None
                | Some w_rt_t \<Rightarrow>
                    Some (case find (\<lambda>i. w_rt_t ! i \<noteq> weight ! i) [0..<length weight] of
                        Some i \<Rightarrow> Inl (WeightMismatch i)
                      | None \<Rightarrow>
                          (case find (\<lambda>i. far (s_rt ! i) (scales ! i)) [0..<length scales] of
                             Some i \<Rightarrow> Inl (ScaleMismatch i)
                           | None \<Rightarrow>
                               (case find (\<lambda>i. far (b_rt ! i) (biases ! i)) [0..<length biases] of
                                  Some i \<Rightarrow> Inl (BiasMismatch i)
                                | None \<Rightarrow> Inr ()))))))"

subsection \<open>What the loops compute\<close>

lemma length_copy_slice: "a + length src \<le> length dst \<Longrightarrow> length (copy_slice a src dst) = length dst"
  by (simp add: copy_slice_def)

lemma length_slice: "a + len \<le> length xs \<Longrightarrow> length (slice a len xs) = len"
  by (simp add: slice_def)

lemma copy_slice_append:
  "a + length xs + length ys \<le> length dst \<Longrightarrow>
    copy_slice (a + length xs) ys (copy_slice a xs dst) = copy_slice a (xs @ ys) dst"
  by (simp add: copy_slice_def ac_simps)

text \<open>Two nested loops run through the numbers below the product.\<close>

lemma pairs_flat: "map (\<lambda>(i, j). i * m + j) (pairs n m) = [0..<n * m]"
proof (induction n)
  case (Suc n)
  have "pairs (Suc n) m = pairs n m @ map (\<lambda>j. (n, j)) [0..<m]" by (simp add: pairs_def)
  then have "map (\<lambda>(i, j). i * m + j) (pairs (Suc n) m) = [0..<n * m] @ map (\<lambda>j. n * m + j) [0..<m]"
    using Suc by (simp add: comp_def)
  also have "map (\<lambda>j. n * m + j) [0..<m] = [n * m..<n * m + m]" by (simp add: map_add_upt [symmetric] add.commute)
  finally show ?case using upt_add_eq_append [of 0 "n * m" m] by (simp add: add.commute)
qed (simp add: pairs_def)

lemma fold_pairs:
  assumes "\<And>i j s. j < m \<Longrightarrow> f (i, j) s = h (i * m + j) s"
  shows "fold f (pairs n m) s = fold h [0..<n * m] s"
proof -
  have "fold f (pairs n m) s = fold (\<lambda>(i, j). h (i * m + j)) (pairs n m) s"
    by (rule fold_cong) (auto simp: pairs_def fun_eq_iff assms)
  also have "\<dots> = fold h (map (\<lambda>(i, j). i * m + j) (pairs n m)) s"
    by (simp add: fold_map comp_def case_prod_beta')
  finally show ?thesis by (simp add: pairs_flat)
qed

text \<open>Equally long blocks copied one after the other.\<close>

lemma fold_blocks:
  assumes "\<And>b. b < m \<Longrightarrow> length (blk b) = w" and "length dst = m * w"
  shows "fold (\<lambda>b. copy_slice (b * w) (blk b)) [0..<m] dst = concat (map blk [0..<m])"
proof -
  have "fold (\<lambda>b. copy_slice (b * w) (blk b)) [0..<l] dst = concat (map blk [0..<l]) @ drop (l * w) dst \<and>
      length (concat (map blk [0..<l])) = l * w" if "l \<le> m" for l
    using that
  proof (induction l)
    case (Suc l)
    then have "length (blk l) = w" using assms(1) by simp
    with Suc show ?case by (simp add: copy_slice_def add.commute)
  qed simp
  from this [of m] assms(2) show ?thesis by simp
qed

lemma concat_slices:
  "length xs = m * w \<Longrightarrow> concat (map (\<lambda>b. slice (b * w) w xs) [0..<m]) = xs"
proof (induction m arbitrary: xs)
  case (Suc m)
  have "concat (map (\<lambda>b. slice (b * w) w xs) [0..<m]) = concat (map (\<lambda>b. slice (b * w) w (take (m * w) xs)) [0..<m])"
  proof (rule arg_cong [of _ _ concat], rule map_cong [OF refl])
    fix b assume "b \<in> set [0..<m]"
    then have "Suc b * w \<le> m * w" by (intro mult_le_mono1) simp
    then show "slice (b * w) w xs = slice (b * w) w (take (m * w) xs)"
      by (simp add: slice_def drop_take min_def)
  qed
  also have "\<dots> = take (m * w) xs" using Suc by simp
  finally show ?case using Suc.prems by (simp add: slice_def)
qed simp

text \<open>Updates at positions that determine the value.\<close>

lemma length_fold_update: "length (fold (\<lambda>i d. d[pos i := val i]) is d) = length d"
  by (induction "is" arbitrary: d) simp_all

lemma fold_update_other: "p \<notin> pos ` set js \<Longrightarrow> fold (\<lambda>i d. d[pos i := val i]) js d ! p = d ! p"
  by (induction js arbitrary: d) simp_all

lemma fold_update_at:
  "p \<in> pos ` set js \<Longrightarrow> p < length d \<Longrightarrow> (\<And>j. j \<in> set js \<Longrightarrow> pos j = p \<Longrightarrow> val j = v) \<Longrightarrow>
    fold (\<lambda>i d. d[pos i := val i]) js d ! p = v"
proof (induction js arbitrary: d)
  case (Cons j js)
  show ?case
  proof (cases "p \<in> pos ` set js")
    case True
    with Cons show ?thesis by simp
  next
    case False
    with Cons.prems have "pos j = p" by auto
    with False Cons.prems show ?thesis by (simp add: fold_update_other)
  qed
qed simp


subsection \<open>The transpose\<close>

lemma block_starts_cover: "(\<exists>b \<in> set (block_starts n). b \<le> i \<and> i < min (b + 64) n) \<longleftrightarrow> i < n"
proof
  assume "i < n"
  then have "i div 64 < (n + 63) div 64" by linarith
  then have "i div 64 * 64 \<in> set (block_starts n)" by (simp add: block_starts_def)
  moreover have "i div 64 * 64 \<le> i \<and> i < i div 64 * 64 + 64" by linarith
  ultimately show "\<exists>b \<in> set (block_starts n). b \<le> i \<and> i < min (b + 64) n"
    using \<open>i < n\<close> by (intro bexI [of _ "i div 64 * 64"]) simp_all
qed auto

lemma in_blocks:
  "(x, y) \<in> set (concat (map (\<lambda>a. concat (map (\<lambda>b. concat (map (\<lambda>i. map (\<lambda>j. (i, j)) (inner b)) (outer a))) bs)) as)) \<longleftrightarrow>
    (\<exists>a \<in> set as. x \<in> set (outer a)) \<and> (\<exists>b \<in> set bs. y \<in> set (inner b))"
  by auto

lemma in_transpose_order: "(ki, ni) \<in> set (transpose_order k n) \<longleftrightarrow> ki < k \<and> ni < n"
  unfolding transpose_order_def in_blocks set_upt atLeastLessThan_iff block_starts_cover ..

lemma index_below: "i < n \<Longrightarrow> j < m \<Longrightarrow> i * m + j < n * (m :: nat)"
proof -
  assume "i < n" "j < m"
  then have "i * m + j < Suc i * m" "Suc i * m \<le> n * m" by (simp_all add: mult_le_mono1 del: mult_Suc) simp
  then show ?thesis by linarith
qed

lemma transpose_u8_reference:
  assumes "length src = k * n"
  shows "transpose_u8 src k n = Some (map (\<lambda>p. src ! (p mod k * n + p div k)) [0..<n * k])"
proof -
  let ?pos = "\<lambda>(ki, ni). ni * k + ki" and ?val = "\<lambda>(ki, ni). src ! (ki * n + ni)"
  let ?r = "fold (\<lambda>i d. d[?pos i := ?val i]) (transpose_order k n) (replicate (n * k) 0)"
  have "?r = map (\<lambda>p. src ! (p mod k * n + p div k)) [0..<n * k]"
  proof (rule nth_equalityI)
    show "length ?r = length (map (\<lambda>p. src ! (p mod k * n + p div k)) [0..<n * k])"
      by (simp only: length_fold_update) simp
    fix p assume "p < length ?r"
    then have p: "p < n * k" by (simp only: length_fold_update) simp
    then have k: "0 < k" by (cases k) simp_all
    have "p div k < n" using p by (simp add: less_mult_imp_div_less)
    then have mem: "(p mod k, p div k) \<in> set (transpose_order k n)" using k by (simp add: in_transpose_order)
    have "?r ! p = src ! (p mod k * n + p div k)"
    proof (rule fold_update_at)
      show "p \<in> ?pos ` set (transpose_order k n)"
        by (rule image_eqI [OF _ mem]) simp
      show "p < length (replicate (n * k) (0 :: u8))" using p by simp
      show "?val j = src ! (p mod k * n + p div k)" if "j \<in> set (transpose_order k n)" "?pos j = p" for j
      proof -
        obtain ki ni where j: "j = (ki, ni)" by fastforce
        with that have "ki < k" "p = ni * k + ki" by (simp_all add: in_transpose_order)
        then show ?thesis by (simp add: j)
      qed
    qed
    with p show "?r ! p = map (\<lambda>p. src ! (p mod k * n + p div k)) [0..<n * k] ! p" by simp
  qed
  with assms show ?thesis by (simp add: transpose_u8_def case_prod_beta')
qed

lemma transpose_back:
  assumes "length w = k * n"
  shows "transpose_u8 (map (\<lambda>p. w ! (p mod k * n + p div k)) [0..<n * k]) n k = Some w"
proof -
  let ?t = "map (\<lambda>p. w ! (p mod k * n + p div k)) [0..<n * k]"
  have "map (\<lambda>q. ?t ! (q mod n * k + q div n)) [0..<k * n] = w"
  proof (rule nth_equalityI)
    fix q assume "q < length (map (\<lambda>q. ?t ! (q mod n * k + q div n)) [0..<k * n])"
    then have q: "q < k * n" by simp
    then have n: "0 < n" by (cases n) simp_all
    have d: "q div n < k" using q by (simp add: less_mult_imp_div_less)
    have "q mod n * k + q div n < n * k" using n d by (intro index_below) simp_all
    moreover have "(q mod n * k + q div n) mod k = q div n" "(q mod n * k + q div n) div k = q mod n"
      using d by simp_all
    ultimately show "map (\<lambda>q. ?t ! (q mod n * k + q div n)) [0..<k * n] ! q = w ! q" using q by simp
  qed (simp add: assms)
  with transpose_u8_reference [of ?t n k] show ?thesis by simp
qed

subsection \<open>Grouping and interleaving\<close>

lemma reorder_groups_identity:
  assumes "length src = n * k" "0 < g" "k mod g = 0"
  shows "reorder_groups src k n g = Some src"
proof -
  let ?m = "n * (k div g)"
  have k: "k = k div g * g" using div_mult_mod_eq [of k g] assms(3) by simp
  have len: "length src = ?m * g" using assms(1) k by (metis mult.assoc)
  have "fold (\<lambda>(ni, gi) dst. copy_slice (ni * k + gi * g) (slice (ni * k + gi * g) g src) dst) (pairs n (k div g)) d =
      fold (\<lambda>b. copy_slice (b * g) (slice (b * g) g src)) [0..<?m] d" for d
  proof (rule fold_pairs)
    fix i j :: nat and s :: "u8 list"
    have "i * k + j * g = (i * (k div g) + j) * g" by (subst (1) k) (simp add: algebra_simps)
    then show "(case (i, j) of (ni, gi) \<Rightarrow> \<lambda>dst. copy_slice (ni * k + gi * g) (slice (ni * k + gi * g) g src) dst) s =
        copy_slice ((i * (k div g) + j) * g) (slice ((i * (k div g) + j) * g) g src) s" by simp
  qed
  moreover have "fold (\<lambda>b. copy_slice (b * g) (slice (b * g) g src)) [0..<?m] (replicate (n * k) 0) =
      concat (map (\<lambda>b. slice (b * g) g src) [0..<?m])"
  proof (rule fold_blocks)
    show "length (slice (b * g) g src) = g" if "b < ?m" for b
    proof -
      have "Suc b * g \<le> ?m * g" using that by (intro mult_le_mono1) simp
      then show ?thesis by (intro length_slice) (simp add: len)
    qed
    show "length (replicate (n * k) (0 :: u8)) = ?m * g" using len unfolding assms(1) by (simp only: length_replicate)
  qed
  ultimately show ?thesis using assms by (simp add: reorder_groups_def concat_slices [OF len])
qed


definition group_block :: "u8 list \<Rightarrow> u32 list \<Rightarrow> u32 list \<Rightarrow> nat \<Rightarrow> nat \<Rightarrow> u8 list" where
  "group_block w s b g i = slice (i * g) g w @ u32_to_le_bytes (s ! i) @ u32_to_le_bytes (b ! i)"

lemma length_group_block: "length w = m * g \<Longrightarrow> i < m \<Longrightarrow> length (group_block w s b g i) = g + 8"
proof -
  assume "length w = m * g" "i < m"
  moreover have "Suc i * g \<le> m * g" using \<open>i < m\<close> by (intro mult_le_mono1) simp
  ultimately show ?thesis by (simp add: group_block_def length_slice)
qed

lemma group_offset: "k mod g = 0 \<Longrightarrow> i * k + j * g = (i * (k div g) + j) * (g :: nat)"
  using div_mult_mod_eq [of k g] by (metis add.right_neutral distrib_right mult.assoc)

lemma interleave_blocks:
  assumes "0 < g" "k mod g = 0" "length w = n * k" "length s = n * (k div g)" "length b = n * (k div g)"
  shows "interleave_scales_biases w s b k n g = Some (concat (map (group_block w s b g) [0..<n * (k div g)]))"
proof -
  let ?m = "n * (k div g)" and ?B = "g + 8"
  have w: "length w = ?m * g" using group_offset [OF assms(2), of n 0] assms(3) by simp
  have step: "copy_slice (i * ?B + g + 4) (u32_to_le_bytes (b ! i)) (copy_slice (i * ?B + g) (u32_to_le_bytes (s ! i))
      (copy_slice (i * ?B) (slice (i * g) g w) p)) = copy_slice (i * ?B) (group_block w s b g i) p"
    if "i < ?m" "length p = ?m * ?B" for i p
  proof -
    have "Suc i * g \<le> ?m * g" "Suc i * ?B \<le> ?m * ?B" using that(1) by (intro mult_le_mono1; simp)+
    then have l: "length (slice (i * g) g w) = g" and "i * ?B + g + 8 \<le> length p"
      using that(2) by (simp_all add: length_slice w)
    then show ?thesis
      using copy_slice_append [of "i * ?B" "slice (i * g) g w" "u32_to_le_bytes (s ! i)" p]
        copy_slice_append [of "i * ?B" "slice (i * g) g w @ u32_to_le_bytes (s ! i)" "u32_to_le_bytes (b ! i)" p]
      by (simp add: group_block_def add.assoc)
  qed
  let ?f = "\<lambda>i p. copy_slice (i * ?B + g + 4) (u32_to_le_bytes (b ! i)) (copy_slice (i * ?B + g) (u32_to_le_bytes (s ! i))
      (copy_slice (i * ?B) (slice (i * g) g w) p))"
  have len: "length (fold ?f [0..<l] p) = ?m * ?B \<and>
      fold ?f [0..<l] p = fold (\<lambda>i. copy_slice (i * ?B) (group_block w s b g i)) [0..<l] p"
    if "l \<le> ?m" "length p = ?m * ?B" for l p
    using that(1)
  proof (induction l)
    case (Suc l)
    let ?q = "fold ?f [0..<l] p"
    have ih: "length ?q = ?m * ?B" "?q = fold (\<lambda>i. copy_slice (i * ?B) (group_block w s b g i)) [0..<l] p"
      using Suc.IH [OF Suc_leD [OF Suc.prems]] by blast+
    have "Suc l * ?B \<le> ?m * ?B" using Suc.prems by (rule mult_le_mono1)
    moreover have "l < ?m" using Suc.prems by simp
    ultimately have "length (copy_slice (l * ?B) (group_block w s b g l) ?q) = ?m * ?B"
      using ih(1) by (simp add: length_copy_slice length_group_block [OF w])
    moreover have "fold ?f [0..<Suc l] p = copy_slice (l * ?B) (group_block w s b g l) ?q"
      using step [OF \<open>l < ?m\<close> ih(1)] by simp
    ultimately show ?case using ih(2) by simp
  qed (simp add: that)
  have "fold (\<lambda>(ni, gi) packed. let off = (ni * (k div g) + gi) * ?B in
            copy_slice (off + g + 4) (u32_to_le_bytes (b ! (ni * (k div g) + gi)))
              (copy_slice (off + g) (u32_to_le_bytes (s ! (ni * (k div g) + gi)))
                (copy_slice off (slice (ni * k + gi * g) g w) packed)))
          (pairs n (k div g)) p = fold ?f [0..<?m] p" for p
    by (rule fold_pairs) (simp add: Let_def group_offset [OF assms(2)])
  moreover have "fold ?f [0..<?m] (replicate (?m * ?B) 0) =
      fold (\<lambda>i. copy_slice (i * ?B) (group_block w s b g i)) [0..<?m] (replicate (?m * ?B) 0)"
    using len [of ?m "replicate (?m * ?B) 0"] by simp
  moreover have "\<dots> = concat (map (group_block w s b g) [0..<?m])"
    by (rule fold_blocks) (simp_all add: length_group_block [OF w])
  ultimately show ?thesis using assms by (simp add: interleave_scales_biases_def Let_def mult.assoc)
qed

lemma slice_concat:
  assumes "\<And>i. i < m \<Longrightarrow> length (blk i) = w" "i < m" "a + len \<le> w"
  shows "slice (i * w + a) len (concat (map blk [0..<m])) = slice a len (blk i)"
proof -
  have len: "length (concat (map blk [0..<l])) = l * w" if "l \<le> m" for l
    using that by (induction l) (simp_all add: assms(1))
  have "[0..<m] = [0..<i] @ i # [Suc i..<m]"
    using assms(2) by (metis append_Cons append_Nil le_eq_less_or_eq upt_conv_Cons upt_add_eq_append zero_le le_add_diff_inverse)
  then have "concat (map blk [0..<m]) = concat (map blk [0..<i]) @ blk i @ concat (map blk [Suc i..<m])" by simp
  then show ?thesis using len [of i] assms by (simp add: slice_def)
qed

lemma fold_triple:
  "fold (\<lambda>x (a, b, c). (f x a, g x b, h x c)) xs (a, b, c) = (fold f xs a, fold g xs b, fold h xs c)"
  by (induction xs arbitrary: a b c) simp_all

lemma fold_update_all:
  assumes "length d = m"
  shows "fold (\<lambda>i d. d[i := val i]) [0..<m] d = map val [0..<m]"
proof (rule nth_equalityI)
  show "length (fold (\<lambda>i d. d[i := val i]) [0..<m] d) = length (map val [0..<m])"
    by (simp add: length_fold_update [of id, simplified] assms)
  fix i assume "i < length (fold (\<lambda>i d. d[i := val i]) [0..<m] d)"
  then have "i < m" by (simp add: length_fold_update [of id, simplified] assms)
  then show "fold (\<lambda>i d. d[i := val i]) [0..<m] d ! i = map val [0..<m] ! i"
    using fold_update_at [of i id "[0..<m]" d val "val i"] assms by simp
qed


lemma uninterleave_blocks:
  assumes "0 < g" "k mod g = 0" "length w = n * k" "length s = n * (k div g)" "length b = n * (k div g)"
  shows "uninterleave_scales_biases (concat (map (group_block w s b g) [0..<n * (k div g)])) k n g = Some (w, s, b)"
proof -
  let ?m = "n * (k div g)" and ?B = "g + 8"
  let ?p = "concat (map (group_block w s b g) [0..<?m])"
  have w: "length w = ?m * g" using group_offset [OF assms(2), of n 0] assms(3) by simp
  note blk = length_group_block [OF w, of _ s b]
  have len: "length (concat (map (group_block w s b g) [0..<l])) = l * ?B" if "l \<le> ?m" for l
    using that by (induction l) (simp_all add: blk)
  have part: "slice (i * ?B + a) l ?p = slice a l (group_block w s b g i)" if "i < ?m" "a + l \<le> ?B" for i a l
    by (rule slice_concat [OF blk that])
  have weight_len: "length (slice (i * g) g w) = g" if "i < ?m" for i
  proof -
    have "Suc i * g \<le> ?m * g" using that by (intro mult_le_mono1) simp
    then show ?thesis by (simp add: length_slice w)
  qed
  have parts: "slice (i * ?B) g ?p = slice (i * g) g w" "slice (i * ?B + g) 4 ?p = u32_to_le_bytes (s ! i)"
    "slice (i * ?B + g + 4) 4 ?p = u32_to_le_bytes (b ! i)" if "i < ?m" for i
    using part [OF that, of 0 g] part [OF that, of g 4] part [OF that, of "g + 4" 4] weight_len [OF that]
    by (simp_all add: group_block_def slice_def add.assoc)
  let ?f = "\<lambda>i (weight, scales, biases).
      (copy_slice (i * g) (slice (i * ?B) g ?p) weight,
       scales[i := u32_from_le_bytes (slice (i * ?B + g) 4 ?p)],
       biases[i := u32_from_le_bytes (slice (i * ?B + g + 4) 4 ?p)])"
  have "fold (\<lambda>(ni, gi) (weight, scales, biases). let off = (ni * (k div g) + gi) * ?B in
      (copy_slice (ni * k + gi * g) (slice off g ?p) weight,
       scales[ni * (k div g) + gi := u32_from_le_bytes (slice (off + g) 4 ?p)],
       biases[ni * (k div g) + gi := u32_from_le_bytes (slice (off + g + 4) 4 ?p)])) (pairs n (k div g)) x = fold ?f [0..<?m] x" for x
    by (rule fold_pairs) (simp add: Let_def group_offset [OF assms(2)] split: prod.split)
  moreover have "fold ?f [0..<?m] (replicate (n * k) 0, replicate ?m 0, replicate ?m 0) =
      (fold (\<lambda>i. copy_slice (i * g) (slice (i * ?B) g ?p)) [0..<?m] (replicate (n * k) 0),
       fold (\<lambda>i d. d[i := u32_from_le_bytes (slice (i * ?B + g) 4 ?p)]) [0..<?m] (replicate ?m 0),
       fold (\<lambda>i d. d[i := u32_from_le_bytes (slice (i * ?B + g + 4) 4 ?p)]) [0..<?m] (replicate ?m 0))"
    by (rule fold_triple)
  moreover have "fold (\<lambda>i. copy_slice (i * g) (slice (i * ?B) g ?p)) [0..<?m] (replicate (n * k) 0) =
      concat (map (\<lambda>i. slice (i * ?B) g ?p) [0..<?m])"
    by (rule fold_blocks) (use w assms(3) in \<open>simp_all add: parts weight_len\<close>)
  moreover have "map (\<lambda>i. slice (i * ?B) g ?p) [0..<?m] = map (\<lambda>i. slice (i * g) g w) [0..<?m]"
    by (rule map_cong [OF refl]) (simp add: parts)
  moreover have "map (\<lambda>i. u32_from_le_bytes (slice (i * ?B + g) 4 ?p)) [0..<?m] = s"
    by (rule nth_equalityI) (simp_all add: parts assms(4))
  moreover have "map (\<lambda>i. u32_from_le_bytes (slice (i * ?B + g + 4) 4 ?p)) [0..<?m] = b"
    by (rule nth_equalityI) (simp_all add: parts assms(5))
  ultimately show ?thesis using assms(1) len [of ?m]
    by (simp add: uninterleave_scales_biases_def Let_def fold_update_all concat_slices [OF w] mult.assoc)
qed

lemma prepack_some:
  assumes "0 < g" "k mod g = 0" "length w = k * n" "length s = n * (k div g)" "length b = n * (k div g)"
  shows "\<exists>t packed meta. transpose_u8 w k n = Some t \<and> transpose_u8 t n k = Some w \<and>
    prepack_pipeline w s b k n g = Some (packed, meta) \<and>
    uninterleave_scales_biases packed k n g = Some (t, s, b) \<and>
    length packed = n * (k div g) * (g + 8) \<and> pm_packed_bytes meta = length packed"
proof -
  let ?t = "map (\<lambda>p. w ! (p mod k * n + p div k)) [0..<n * k]"
  have t: "length ?t = n * k" by simp
  have m: "length ?t = n * (k div g) * g" using group_offset [OF assms(2), of n 0] by simp
  have "length (concat (map (group_block ?t s b g) [0..<l])) = l * (g + 8)" if "l \<le> n * (k div g)" for l
    using that by (induction l) (simp_all add: length_group_block [OF m])
  from this [OF order_refl] show ?thesis
    using transpose_u8_reference [OF assms(3)] transpose_back [OF assms(3)] reorder_groups_identity [OF t assms(1,2)]
      interleave_blocks [OF assms(1,2) t assms(4,5)] uninterleave_blocks [OF assms(1,2) t assms(4,5)]
    by (simp add: prepack_pipeline_def)
qed

text \<open>C13: For a matrix of \<open>k\<close> times \<open>n\<close> bytes, \<open>k\<close> a multiple of the group size, and one scale and bias per group, the
  prepacking succeeds, unpacking gives the transposed weights, the scales and the biases bit by bit, transposing
  again gives the original weights, and the verification passes (also for infinite and undefined floats, which the
  comparison does not find far from themselves).  The packed size is \<open>n * (k / group_size) * (group_size + 8)\<close>.\<close>

theorem prepack_roundtrip:
  assumes "0 < g" and "k mod g = 0" and "length w = k * n" and "length s = n * (k div g)"
    and "length b = n * (k div g)" and "\<And>x. \<not> far x x"
  shows "verify_roundtrip far w s b k n g = Some (Inr ()) \<and>
    (\<exists>t packed meta. transpose_u8 w k n = Some t \<and> transpose_u8 t n k = Some w \<and>
      prepack_pipeline w s b k n g = Some (packed, meta) \<and>
      uninterleave_scales_biases packed k n g = Some (t, s, b) \<and> length packed = n * (k div g) * (g + 8))"
proof -
  from prepack_some [OF assms(1-5)] obtain t packed meta where p: "transpose_u8 w k n = Some t"
    "transpose_u8 t n k = Some w" "prepack_pipeline w s b k n g = Some (packed, meta)"
    "uninterleave_scales_biases packed k n g = Some (t, s, b)" "length packed = n * (k div g) * (g + 8)" by blast
  moreover have "verify_roundtrip far w s b k n g = Some (Inr ())"
    using p by (simp add: verify_roundtrip_def assms(6) find_None_iff [THEN iffD2])
  ultimately show ?thesis by blast
qed

lemma prepack_roundtrip_witness:
  "verify_roundtrip (\<lambda>x y. x \<noteq> y) [1, 2, 3, 4, 5, 6] [7, 8, 9] [10, 11, 12] 2 3 2 = Some (Inr ())"
  using prepack_roundtrip [of 2 2 "[1, 2, 3, 4, 5, 6]" 3 "[7, 8, 9]" "[10, 11, 12]" "\<lambda>x y. x \<noteq> y"] by simp

text \<open>The blocked loops compute the transpose: row \<open>ni\<close> of the result is column \<open>ni\<close> of the source.\<close>

lemma transpose_columns:
  assumes "length src = k * n" "transpose_u8 src k n = Some t" "ki < k" "ni < n"
  shows "t ! (ni * k + ki) = src ! (ki * n + ni)"
  using assms transpose_u8_reference [OF assms(1)] index_below [of ni n ki k] by auto

end
