(* ===== verification/ArrayRegistry.thy ===== *)
theory ArrayRegistry
  imports Prelude
begin

text \<open>
  The registry of arrays in \<open>bridge.rs\<close>: slots with a generation each, a stack of free slots, and handles that pack
  a slot and a generation.  Arrays are a type parameter; the callback an entry may carry is left out.
\<close>

subsection \<open>Handles\<close>

type_synonym array_handle = u64

definition pack_handle :: "u32 \<Rightarrow> u32 \<Rightarrow> array_handle" where
  "pack_handle slot gen = push_bit 32 (ucast gen) OR ucast slot"

definition unpack_handle :: "array_handle \<Rightarrow> u32 \<times> u32" where
  "unpack_handle h = (ucast (h AND 0xFFFFFFFF), ucast (drop_bit 32 h))"

lemma low_mask: "(0xFFFFFFFF :: u64) = mask 32"
  by (simp add: mask_eq_exp_minus_1)

lemma unpack_pack [simp]: "unpack_handle (pack_handle slot gen) = (slot, gen)"
proof -
  have "ucast (pack_handle slot gen AND 0xFFFFFFFF) = slot"
    unfolding low_mask by (rule bit_word_eqI) (simp add: pack_handle_def bit_simps)
  moreover have "ucast (drop_bit 32 (pack_handle slot gen)) = gen"
    by (rule bit_word_eqI) (auto simp add: pack_handle_def bit_simps dest: bit_imp_le_length)
  ultimately show ?thesis by (simp add: unpack_handle_def)
qed

lemma pack_unpack: "unpack_handle h = (slot, gen) \<Longrightarrow> pack_handle slot gen = h"
proof (rule bit_word_eqI)
  fix n assume u: "unpack_handle h = (slot, gen)" and n: "n < LENGTH(64)"
  from u have s: "slot = ucast (h AND mask 32)" and g: "gen = ucast (drop_bit 32 h)"
    by (simp_all add: unpack_handle_def low_mask)
  show "bit (pack_handle slot gen) n = bit h n"
    using n by (auto simp add: pack_handle_def s g bit_simps)
qed

subsection \<open>The registry\<close>

record 'a array_entry =
  ae_array :: 'a
  ae_generation :: u32

record 'a array_registry =
  gr_slots :: "'a array_entry option list"
  gr_freelist :: "u32 list"
  gr_total_allocated :: nat

definition reg_new :: "'a array_registry" where
  "reg_new = \<lparr>gr_slots = [None], gr_freelist = [], gr_total_allocated = 0\<rparr>"

text \<open>\<open>None\<close> is the panic of an index out of range.\<close>

definition reg_insert :: "'a \<Rightarrow> 'a array_registry \<Rightarrow> (array_handle \<times> 'a array_registry) option" where
  "reg_insert a r =
     (if gr_freelist r \<noteq> [] then
        let reused = last (gr_freelist r) in
        if unat reused < length (gr_slots r) then
          let gen = (case gr_slots r ! unat reused of None \<Rightarrow> 1 | Some e \<Rightarrow> ae_generation e + 1) in
          Some (pack_handle reused gen,
            r\<lparr>gr_slots := (gr_slots r)[unat reused := Some \<lparr>ae_array = a, ae_generation = gen\<rparr>],
              gr_freelist := butlast (gr_freelist r), gr_total_allocated := gr_total_allocated r + 1\<rparr>)
        else None
      else
        Some (pack_handle (word_of_nat (length (gr_slots r))) 1,
          r\<lparr>gr_slots := gr_slots r @ [Some \<lparr>ae_array = a, ae_generation = 1\<rparr>],
            gr_total_allocated := gr_total_allocated r + 1\<rparr>))"

definition reg_get :: "'a array_registry \<Rightarrow> array_handle \<Rightarrow> 'a option" where
  "reg_get r h = (
     let (slot, gen) = unpack_handle h in
     if slot = 0 then None
     else if unat slot < length (gr_slots r) then
       (case gr_slots r ! unat slot of
          None \<Rightarrow> None
        | Some e \<Rightarrow> if ae_generation e = gen then Some (ae_array e) else None)
     else None)"

definition reg_remove :: "array_handle \<Rightarrow> 'a array_registry \<Rightarrow> 'a option \<times> 'a array_registry" where
  "reg_remove h r = (
     let (slot, gen) = unpack_handle h in
     if slot = 0 then (None, r)
     else if unat slot < length (gr_slots r) then
       (case gr_slots r ! unat slot of
          Some e \<Rightarrow>
            if ae_generation e = gen then
              (Some (ae_array e), r\<lparr>gr_slots := (gr_slots r)[unat slot := None],
                 gr_freelist := gr_freelist r @ [slot]\<rparr>)
            else (None, r)
        | None \<Rightarrow> (None, r))
     else (None, r))"

definition reg_drain :: "'a array_registry \<Rightarrow> 'a array_registry" where
  "reg_drain r = r\<lparr>gr_slots := [None], gr_freelist := []\<rparr>"

definition free_array :: "array_handle \<Rightarrow> 'a array_registry \<Rightarrow> 'a array_registry" where
  "free_array h r = snd (reg_remove h r)"

definition handle_count :: "'a array_registry \<Rightarrow> nat" where
  "handle_count r = length (filter (\<lambda>s. s \<noteq> None) (gr_slots r))"


text \<open>\<open>matmul\<close>, \<open>add\<close> and \<open>multiply\<close>: both operands are looked up before the operation of the array library, a
  parameter, runs.\<close>

datatype array_error = OperandANotFound | OperandBNotFound | OperationFailed

definition binary_op ::
  "('a \<Rightarrow> 'a \<Rightarrow> 'a option) \<Rightarrow> array_handle \<Rightarrow> array_handle \<Rightarrow> 'a array_registry
    \<Rightarrow> (array_error + array_handle \<times> 'a array_registry) option" where
  "binary_op f ha hb r =
     (case reg_get r ha of
        None \<Rightarrow> Some (Inl OperandANotFound)
      | Some a \<Rightarrow>
          (case reg_get r hb of
             None \<Rightarrow> Some (Inl OperandBNotFound)
           | Some b \<Rightarrow>
               (case f a b of
                  None \<Rightarrow> Some (Inl OperationFailed)
                | Some c \<Rightarrow> map_option Inr (reg_insert c r))))"

subsection \<open>Reachable registries\<close>

text \<open>The registry holds fewer than \<open>2 ^ 32\<close> slots; beyond that the slot number is truncated.\<close>

inductive reg_reach :: "'a array_registry \<Rightarrow> bool" where
  reg_start: "reg_reach reg_new"
| reg_inserted: "reg_reach r \<Longrightarrow> length (gr_slots r) < 2 ^ 32 \<Longrightarrow> reg_insert a r = Some (h, r') \<Longrightarrow> reg_reach r'"
| reg_removed: "reg_reach r \<Longrightarrow> reg_reach (snd (reg_remove h r))"
| reg_drained: "reg_reach r \<Longrightarrow> reg_reach (reg_drain r)"

definition slot_free :: "'a array_registry \<Rightarrow> nat \<Rightarrow> bool" where
  "slot_free r n \<longleftrightarrow> 0 < n \<and> n < length (gr_slots r) \<and> gr_slots r ! n = None"

text \<open>Free slots are exactly those on the free list, and every entry has generation 1.\<close>

definition reg_ok :: "'a array_registry \<Rightarrow> bool" where
  "reg_ok r \<longleftrightarrow> 0 < length (gr_slots r) \<and> length (gr_slots r) \<le> 2 ^ 32 \<and> gr_slots r ! 0 = None \<and>
     distinct (gr_freelist r) \<and> (\<forall>s. s \<in> set (gr_freelist r) \<longleftrightarrow> slot_free r (unat s)) \<and>
     (\<forall>n e. n < length (gr_slots r) \<longrightarrow> gr_slots r ! n = Some e \<longrightarrow> ae_generation e = 1)"

text \<open>The handle of a slot, and what a registry holds slot by slot.\<close>

definition slot_handle :: "u32 \<Rightarrow> array_handle" where
  "slot_handle s = pack_handle s 1"

lemma slot_handle_inject [simp]: "slot_handle s = slot_handle t \<longleftrightarrow> s = t"
  by (metis slot_handle_def prod.inject unpack_pack)

lemma reg_get_ok:
  "reg_ok r \<Longrightarrow> reg_get r h = Some a \<longleftrightarrow>
    (\<exists>s e. h = slot_handle s \<and> s \<noteq> 0 \<and> unat s < length (gr_slots r) \<and> gr_slots r ! unat s = Some e \<and> ae_array e = a)"
  unfolding slot_handle_def reg_get_def Let_def
  by (cases "unpack_handle h") (auto simp: reg_ok_def split: option.splits if_splits dest: pack_unpack)

lemma reg_insert_ok:
  assumes ok: "reg_ok r" and room: "length (gr_slots r) < 2 ^ 32"
  shows "\<exists>s r'. reg_insert a r = Some (slot_handle s, r') \<and> s \<noteq> 0 \<and> reg_ok r' \<and>
    s = (if gr_freelist r = [] then word_of_nat (length (gr_slots r)) else last (gr_freelist r)) \<and>
    (unat s < length (gr_slots r) \<longrightarrow> gr_slots r ! unat s = None) \<and>
    gr_slots r' = (if gr_freelist r = [] then gr_slots r @ [Some \<lparr>ae_array = a, ae_generation = 1\<rparr>]
      else (gr_slots r)[unat s := Some \<lparr>ae_array = a, ae_generation = 1\<rparr>])"
proof (cases "gr_freelist r = []")
  case True
  let ?s = "word_of_nat (length (gr_slots r)) :: u32"
  have s: "unat ?s = length (gr_slots r)" using room by (simp add: unat_of_nat)
  have "?s \<noteq> 0" using s ok by (metis reg_ok_def less_numeral_extra(3) unat_0)
  moreover have "\<not> slot_free r n" if "n < 2 ^ 32" for n
  proof -
    have "unat (word_of_nat n :: u32) = n" using that by (simp add: unat_of_nat)
    with ok True show ?thesis by (metis reg_ok_def list.set(1) empty_iff)
  qed
  ultimately show ?thesis using True ok room s
    by (auto simp: reg_insert_def slot_handle_def reg_ok_def slot_free_def nth_append)
next
  case False
  let ?s = "last (gr_freelist r)"
  have free: "slot_free r (unat ?s)" using ok False by (metis reg_ok_def last_in_set)
  have fl: "gr_freelist r = butlast (gr_freelist r) @ [?s]" using False by simp
  have "distinct (butlast (gr_freelist r) @ [?s])" using ok fl by (simp add: reg_ok_def)
  then have dist: "distinct (butlast (gr_freelist r))" "?s \<notin> set (butlast (gr_freelist r))"
    unfolding distinct_append by simp_all
  have members: "t \<in> set (butlast (gr_freelist r)) \<longleftrightarrow> slot_free r (unat t) \<and> t \<noteq> ?s" for t
  proof -
    have "t \<in> set (gr_freelist r) \<longleftrightarrow> t \<in> set (butlast (gr_freelist r)) \<or> t = ?s" by (subst fl) auto
    with ok dist show ?thesis by (auto simp: reg_ok_def)
  qed
  have "?s \<noteq> 0" using free by (auto simp: slot_free_def)
  with False free ok dist members show ?thesis
    by (auto simp: reg_insert_def slot_handle_def reg_ok_def slot_free_def Let_def nth_list_update
        word_unat_eq_iff [symmetric])
qed

lemma reg_remove_ok:
  assumes ok: "reg_ok r"
  shows "fst (reg_remove h r) = reg_get r h \<and> reg_ok (snd (reg_remove h r)) \<and>
    (case reg_get r h of None \<Rightarrow> snd (reg_remove h r) = r
     | Some a \<Rightarrow> \<exists>s. h = slot_handle s \<and> s \<noteq> 0 \<and> unat s < length (gr_slots r) \<and>
         snd (reg_remove h r) = r\<lparr>gr_slots := (gr_slots r)[unat s := None], gr_freelist := gr_freelist r @ [s]\<rparr>)"
proof (cases "reg_get r h")
  case None
  then show ?thesis using ok
    by (auto simp: reg_get_def reg_remove_def Let_def split: prod.splits option.splits if_splits)
next
  case (Some a)
  then obtain s e where s: "h = slot_handle s" "s \<noteq> 0" "unat s < length (gr_slots r)" "gr_slots r ! unat s = Some e"
    "ae_array e = a" using reg_get_ok [OF ok] by blast
  have gen: "ae_generation e = 1" using ok s by (simp add: reg_ok_def)
  have rm: "reg_remove h r = (Some a, r\<lparr>gr_slots := (gr_slots r)[unat s := None], gr_freelist := gr_freelist r @ [s]\<rparr>)"
    using s gen by (simp add: reg_remove_def slot_handle_def)
  have "s \<notin> set (gr_freelist r)" using ok s by (simp add: reg_ok_def slot_free_def)
  moreover have "unat s \<noteq> 0" using s(2) by (simp add: unat_eq_0)
  ultimately have "reg_ok (snd (reg_remove h r))" using ok s(3) unfolding rm
    by (auto simp: reg_ok_def slot_free_def nth_list_update word_unat_eq_iff [symmetric])
  with Some s rm show ?thesis by simp
qed

lemma reg_drain_ok: "reg_ok r \<Longrightarrow> reg_ok (reg_drain r)"
  by (auto simp: reg_ok_def reg_drain_def slot_free_def)

lemma reg_reach_ok: "reg_reach r \<Longrightarrow> reg_ok r"
proof (induction rule: reg_reach.induct)
  case reg_start
  show ?case by (auto simp: reg_ok_def reg_new_def slot_free_def)
next
  case (reg_inserted r a h r')
  with reg_insert_ok [of r a] show ?case by auto
next
  case (reg_removed r h)
  with reg_remove_ok show ?case by blast
next
  case (reg_drained r)
  then show ?case by (simp add: reg_drain_ok)
qed


subsection \<open>What holders of handles see\<close>

lemma last_slot_free: "reg_ok r \<Longrightarrow> gr_freelist r \<noteq> [] \<Longrightarrow> slot_free r (unat (last (gr_freelist r)))"
  by (metis reg_ok_def last_in_set)

lemma reg_get_insert:
  assumes ok: "reg_ok r" and room: "length (gr_slots r) < 2 ^ 32"
  shows "\<exists>h r'. reg_insert a r = Some (h, r') \<and> reg_get r h = None \<and> reg_get r' = (reg_get r)(h \<mapsto> a)"
proof -
  from reg_insert_ok [OF ok room, of a] obtain s r' where
    ins: "reg_insert a r = Some (slot_handle s, r')" "s \<noteq> 0" "reg_ok r'"
    "s = (if gr_freelist r = [] then word_of_nat (length (gr_slots r)) else last (gr_freelist r))"
    "unat s < length (gr_slots r) \<longrightarrow> gr_slots r ! unat s = None"
    "gr_slots r' = (if gr_freelist r = [] then gr_slots r @ [Some \<lparr>ae_array = a, ae_generation = 1\<rparr>]
      else (gr_slots r)[unat s := Some \<lparr>ae_array = a, ae_generation = 1\<rparr>])" by blast
  have slots: "n < length (gr_slots r') \<and> gr_slots r' ! n = Some e \<longleftrightarrow>
      (if n = unat s then e = \<lparr>ae_array = a, ae_generation = 1\<rparr> else n < length (gr_slots r) \<and> gr_slots r ! n = Some e)" for n e
  proof (cases "gr_freelist r = []")
    case True
    then have "unat s = length (gr_slots r)" using ins(4) room by (simp add: unat_of_nat)
    with True ins(6) show ?thesis by (auto simp: nth_append less_Suc_eq)
  next
    case False
    then have "unat s < length (gr_slots r)" using ins(4) last_slot_free [OF ok] by (simp add: slot_free_def)
    with False ins(6) show ?thesis by (auto simp: nth_list_update)
  qed
  have "reg_get r' h = Some b \<longleftrightarrow> ((reg_get r)(slot_handle s \<mapsto> a)) h = Some b" for h b
  proof -
    have "reg_get r' h = Some b \<longleftrightarrow> (\<exists>t e. h = slot_handle t \<and> t \<noteq> 0 \<and>
        (if unat t = unat s then e = \<lparr>ae_array = a, ae_generation = 1\<rparr> else unat t < length (gr_slots r) \<and> gr_slots r ! unat t = Some e) \<and>
        ae_array e = b)"
      unfolding reg_get_ok [OF ins(3)] using slots by blast
    also have "\<dots> \<longleftrightarrow> ((reg_get r)(slot_handle s \<mapsto> a)) h = Some b"
      using ins(2) by (auto simp: reg_get_ok [OF ok] word_unat_eq_iff [symmetric] split: if_splits)
    finally show ?thesis .
  qed
  then have "reg_get r' = (reg_get r)(slot_handle s \<mapsto> a)"
    by (intro ext) (metis option.exhaust)
  moreover have "reg_get r (slot_handle s) = None"
  proof (rule ccontr)
    assume "reg_get r (slot_handle s) \<noteq> None"
    then obtain b where "reg_get r (slot_handle s) = Some b" by auto
    with ins(5) show False by (auto simp: reg_get_ok [OF ok])
  qed
  ultimately show ?thesis using ins(1) by blast
qed

lemma reg_get_remove:
  assumes ok: "reg_ok r"
  shows "reg_get (snd (reg_remove h r)) = (reg_get r)(h := None)"
proof (cases "reg_get r h")
  case None
  with reg_remove_ok [OF ok, of h] show ?thesis by (auto simp: fun_eq_iff)
next
  case (Some a)
  with reg_remove_ok [OF ok, of h] obtain s where s: "h = slot_handle s" "s \<noteq> 0" "unat s < length (gr_slots r)"
    "snd (reg_remove h r) = r\<lparr>gr_slots := (gr_slots r)[unat s := None], gr_freelist := gr_freelist r @ [s]\<rparr>"
    and ok': "reg_ok (snd (reg_remove h r))" by auto
  let ?r = "snd (reg_remove h r)"
  have slots: "n < length (gr_slots ?r) \<and> gr_slots ?r ! n = Some e \<longleftrightarrow>
      n \<noteq> unat s \<and> n < length (gr_slots r) \<and> gr_slots r ! n = Some e" for n e
    using s(3) unfolding s(4) by (auto simp: nth_list_update)
  have "reg_get ?r k = Some b \<longleftrightarrow> (\<exists>t e. k = slot_handle t \<and> t \<noteq> 0 \<and>
      (unat t \<noteq> unat s \<and> unat t < length (gr_slots r) \<and> gr_slots r ! unat t = Some e) \<and> ae_array e = b)" for k b
    unfolding reg_get_ok [OF ok'] using slots by blast
  moreover have "(\<exists>t e. k = slot_handle t \<and> t \<noteq> 0 \<and>
      (unat t \<noteq> unat s \<and> unat t < length (gr_slots r) \<and> gr_slots r ! unat t = Some e) \<and> ae_array e = b) \<longleftrightarrow>
      ((reg_get r)(h := None)) k = Some b" for k b
    unfolding s(1) by (auto simp: reg_get_ok [OF ok] word_unat_eq_iff [symmetric])
  ultimately have "reg_get ?r k = Some b \<longleftrightarrow> ((reg_get r)(h := None)) k = Some b" for k b by (simp only:)
  then show ?thesis by (intro ext) (metis option.exhaust)
qed

lemma reg_get_drain: "reg_get (reg_drain r) = Map.empty"
  by (auto simp: fun_eq_iff reg_get_def reg_drain_def Let_def unat_eq_0 split: prod.splits)

lemma handle_count_dom:
  assumes ok: "reg_ok r"
  shows "handle_count r = card (dom (reg_get r))"
proof -
  let ?live = "{n. n < length (gr_slots r) \<and> gr_slots r ! n \<noteq> None}"
  have small: "n < 2 ^ 32" if "n < length (gr_slots r)" for n using ok that by (simp add: reg_ok_def)
  have inj: "inj_on (\<lambda>n. slot_handle (word_of_nat n)) ?live"
  proof (rule inj_onI)
    fix m n assume "m \<in> ?live" "n \<in> ?live" "slot_handle (word_of_nat m) = slot_handle (word_of_nat n)"
    then have "unat (word_of_nat m :: u32) = unat (word_of_nat n :: u32)" "m < 2 ^ 32" "n < 2 ^ 32"
      using small by auto
    then show "m = n" by (simp add: unat_of_nat)
  qed
  have "dom (reg_get r) = (\<lambda>n. slot_handle (word_of_nat n)) ` ?live"
  proof (rule set_eqI)
    fix h
    show "h \<in> dom (reg_get r) \<longleftrightarrow> h \<in> (\<lambda>n. slot_handle (word_of_nat n)) ` ?live"
    proof
      assume "h \<in> dom (reg_get r)"
      then obtain s where "h = slot_handle s" "unat s < length (gr_slots r)" "gr_slots r ! unat s \<noteq> None"
        by (auto simp: dom_def reg_get_ok [OF ok])
      then show "h \<in> (\<lambda>n. slot_handle (word_of_nat n)) ` ?live" by (intro image_eqI [of _ _ "unat s"]) simp_all
    next
      assume "h \<in> (\<lambda>n. slot_handle (word_of_nat n)) ` ?live"
      then obtain n e where n: "h = slot_handle (word_of_nat n)" "n < length (gr_slots r)" "gr_slots r ! n = Some e" by auto
      have u: "unat (word_of_nat n :: u32) = n" using small [OF n(2)] by (simp add: unat_of_nat)
      have "n \<noteq> 0" using ok n by (metis reg_ok_def option.distinct(1))
      then have "(word_of_nat n :: u32) \<noteq> 0" using u by auto
      with n u have "reg_get r h = Some (ae_array e)" unfolding reg_get_ok [OF ok] by auto
      then show "h \<in> dom (reg_get r)" by auto
    qed
  qed
  then have "card (dom (reg_get r)) = card ?live" by (simp only: card_image [OF inj])
  then show ?thesis by (simp add: handle_count_def length_filter_conv_card)
qed


text \<open>C8: In every reachable registry with a slot to spare, insertion returns a handle that was not live and makes
  exactly it stand for the array; removal returns what the handle stood for and makes exactly it unknown; draining
  makes all handles unknown; and the handle count is the number of live handles.\<close>

theorem array_registry_refines_map:
  assumes "reg_reach r" and "length (gr_slots r) < 2 ^ 32"
  shows "(\<exists>k r'. reg_insert a r = Some (k, r') \<and> reg_get r k = None \<and> reg_get r' = (reg_get r)(k \<mapsto> a)) \<and>
    fst (reg_remove h r) = reg_get r h \<and> reg_get (snd (reg_remove h r)) = (reg_get r)(h := None) \<and>
    reg_get (reg_drain r) = Map.empty \<and> handle_count r = card (dom (reg_get r))"
  using reg_get_insert [OF reg_reach_ok [OF assms(1)] assms(2), of a] reg_remove_ok [OF reg_reach_ok [OF assms(1)], of h]
    reg_get_remove [OF reg_reach_ok [OF assms(1)]] reg_get_drain [of r] handle_count_dom [OF reg_reach_ok [OF assms(1)]]
  by blast

lemma array_registry_refines_map_witness:
  "reg_get (reg_drain (reg_new :: nat array_registry)) = Map.empty \<and> handle_count (reg_new :: nat array_registry) = 0"
  using array_registry_refines_map [OF reg_start, of "0 :: nat" 0]
  by (simp add: reg_new_def handle_count_def)

lemma freed_slot_is_next:
  assumes ok: "reg_ok r" and get: "reg_get r h = Some a"
  shows "\<exists>r'. reg_insert b (free_array h r) = Some (h, r') \<and> reg_get r' h = Some b"
proof -
  let ?r = "snd (reg_remove h r)"
  from reg_remove_ok [OF ok, of h] get obtain s where s: "h = slot_handle s" "s \<noteq> 0" "unat s < length (gr_slots r)"
    "?r = r\<lparr>gr_slots := (gr_slots r)[unat s := None], gr_freelist := gr_freelist r @ [s]\<rparr>" by auto
  then have "reg_insert b ?r = Some (h, r\<lparr>gr_slots := (gr_slots r)[unat s := Some \<lparr>ae_array = b, ae_generation = 1\<rparr>],
      gr_freelist := gr_freelist r, gr_total_allocated := gr_total_allocated r + 1\<rparr>)"
    by (simp add: reg_insert_def Let_def slot_handle_def)
  moreover have "reg_get (r\<lparr>gr_slots := (gr_slots r)[unat s := Some \<lparr>ae_array = b, ae_generation = 1\<rparr>],
      gr_freelist := gr_freelist r, gr_total_allocated := gr_total_allocated r + 1\<rparr>) h = Some b"
    using s by (simp add: reg_get_def slot_handle_def)
  ultimately show ?thesis by (simp add: free_array_def)
qed

text \<open>Generations do not protect handles: freeing empties the slot and with it the generation, so every entry has
  generation 1, the next array that is inserted gets the freed handle again, and who still holds it reads the new
  array.\<close>

theorem freed_handle_comes_back:
  assumes "reg_reach r" and "reg_get r h = Some a"
  shows "\<exists>r'. reg_insert b (free_array h r) = Some (h, r') \<and> reg_get r' h = Some b"
  using freed_slot_is_next [OF reg_reach_ok [OF assms(1)] assms(2)] .

lemma freed_handle_comes_back_witness:
  "\<exists>h r r'. reg_insert 7 (reg_new :: nat array_registry) = Some (h, r) \<and>
    reg_insert 8 (free_array h r) = Some (h, r') \<and> reg_get r' h = Some 8"
proof -
  obtain r where r: "reg_insert (7 :: nat) reg_new = Some (slot_handle 1, r)"
    "r = \<lparr>gr_slots = [None, Some \<lparr>ae_array = 7, ae_generation = 1\<rparr>], gr_freelist = [], gr_total_allocated = 1\<rparr>"
    by (simp add: reg_insert_def reg_new_def slot_handle_def)
  have "reg_reach r" using reg_inserted [OF reg_start _ r(1)] by (simp add: reg_new_def)
  moreover have "reg_get r (slot_handle 1) = Some 7" by (simp add: r(2) reg_get_def slot_handle_def)
  ultimately show ?thesis using r(1) freed_handle_comes_back [of r "slot_handle 1" 7 8] by blast
qed

end
