(* ===== verification/ImageReader.thy ===== *)
theory ImageReader
  imports ImageCompile ArrayRegistry Bytes
begin

text \<open>
  Reading compute images: the manifest and its verification (\<open>compute_image/manifest.rs\<close>) and the activation of
  segments into the array registry (\<open>compute_image/segment.rs\<close>).  The disk is a map from file names to bytes.
  SHA-256, the serialisation that is hashed and the constructor of arrays are parameters.
\<close>

subsection \<open>Manifests\<close>

text \<open>Versions and the identity of the source are one opaque value.\<close>

record ('s, 'f) manifest =
  mf_identity :: 's
  mf_architecture :: "'f text_arch"
  mf_segments :: "segment list"
  mf_tensor_table :: "tensor_entry list"
  mf_alias_table :: "alias_entry list"
  mf_persistent_segments :: "string list"
  mf_layer_segments :: "string list"
  mf_layer_window_size :: nat
  mf_total_bytes :: nat
  mf_image_hash :: string
  mf_required_storage_abi :: string
  mf_prepacked_layout :: string
  mf_execution_plan :: "'f model_plan"

record segment_receipt =
  rc_id :: string
  rc_filename :: string
  rc_sha256 :: string
  rc_byte_size :: nat

record compile_receipt =
  cr_complete_image_hash :: string
  cr_segment_hashes :: "segment_receipt list"

type_synonym ('s, 'f) fingerprint =
  "'s \<times> 'f text_arch \<times> segment list \<times> tensor_entry list \<times> alias_entry list \<times> string list \<times> string list \<times> nat \<times> nat"

definition fingerprint :: "('s, 'f) manifest \<Rightarrow> ('s, 'f) fingerprint" where
  "fingerprint m = (mf_identity m, mf_architecture m, mf_segments m, mf_tensor_table m, mf_alias_table m,
     mf_persistent_segments m, mf_layer_segments m, mf_layer_window_size m, mf_total_bytes m)"

definition compute_manifest_hash ::
  "(u8 list \<Rightarrow> string) \<Rightarrow> (('s, 'f) fingerprint \<Rightarrow> u8 list) \<Rightarrow> ('s, 'f) manifest \<Rightarrow> string" where
  "compute_manifest_hash sha json m = sha (json (fingerprint m))"

text \<open>\<open>finalize\<close>: the manifest and the segment files.  The writes happen in the order of the segments.\<close>

definition finalize_manifest ::
  "(u8 list \<Rightarrow> string) \<Rightarrow> (('s, 'f) fingerprint \<Rightarrow> u8 list) \<Rightarrow> 's \<Rightarrow> 'f text_arch \<Rightarrow> 'f model_plan \<Rightarrow> image \<Rightarrow> ('s, 'f) manifest" where
  "finalize_manifest sha json identity ar plan im = (
     let m = \<lparr>mf_identity = identity, mf_architecture = ar, mf_segments = im_segments im,
           mf_tensor_table = im_tensor_table im, mf_alias_table = im_alias_table im,
           mf_persistent_segments = im_persistent_segments im, mf_layer_segments = im_layer_segments im,
           mf_layer_window_size = 2, mf_total_bytes = im_total_bytes im, mf_image_hash = '''',
           mf_required_storage_abi = ''copied-v0'', mf_prepacked_layout = ''none'', mf_execution_plan = plan\<rparr> in
     m\<lparr>mf_image_hash := compute_manifest_hash sha json m\<rparr>)"

type_synonym disk = "string \<rightharpoonup> u8 list"

definition write_segments :: "image \<Rightarrow> disk \<Rightarrow> disk" where
  "write_segments im d = fold (\<lambda>(s, p) d. d(sg_filename s \<mapsto> p)) (zip (im_segments im) (im_payloads im)) d"

definition build_compile_receipt :: "('s, 'f) manifest \<Rightarrow> compile_receipt" where
  "build_compile_receipt m = \<lparr>cr_complete_image_hash = mf_image_hash m,
     cr_segment_hashes = map (\<lambda>s. \<lparr>rc_id = sg_id s, rc_filename = sg_filename s, rc_sha256 = sg_sha256 s,
       rc_byte_size = sg_byte_size s\<rparr>) (mf_segments m)\<rparr>"

subsection \<open>Verification\<close>

record manifest_verification =
  mv_manifest_hash_matches :: bool
  mv_segment_hashes_match :: bool
  mv_verified_segment_count :: nat
  mv_total_bytes :: nat

datatype open_error =
    SegmentUnreadable string
  | ManifestHashMismatch
  | ReceiptMismatch
  | SegmentHashMismatch
  | SegmentSizeMismatch string nat nat
  | SegmentAlignmentInvalid string nat
  | SegmentUnaligned string nat
  | TensorUnaligned string nat nat
  | TensorExceedsSegment string
  | UnknownStorageAbi string

definition copied_v0 :: string where "copied_v0 = ''copied-v0''"
definition mapped_no_copy_v1 :: string where "mapped_no_copy_v1 = ''mapped-no-copy-v1''"

definition is_valid_storage_abi :: "string \<Rightarrow> bool" where
  "is_valid_storage_abi abi \<longleftrightarrow> abi = copied_v0 \<or> abi = mapped_no_copy_v1"

fun first_some :: "('a \<Rightarrow> 'b option) \<Rightarrow> 'a list \<Rightarrow> 'b option" where
  "first_some f [] = None"
| "first_some f (x # xs) = (case f x of None \<Rightarrow> first_some f xs | Some y \<Rightarrow> Some y)"

definition receipt_matches :: "compile_receipt \<Rightarrow> ('s, 'f) manifest \<Rightarrow> bool" where
  "receipt_matches rc m \<longleftrightarrow> cr_complete_image_hash rc = mf_image_hash m \<and>
     length (cr_segment_hashes rc) = length (mf_segments m) \<and>
     list_all (\<lambda>(r, s). rc_id r = sg_id s \<and> rc_filename r = sg_filename s \<and> rc_sha256 r = sg_sha256 s \<and>
       rc_byte_size r = sg_byte_size s) (zip (cr_segment_hashes rc) (mf_segments m))"

definition mapped_segment_error :: "disk \<Rightarrow> segment \<Rightarrow> open_error option" where
  "mapped_segment_error d s = (
     let actual = (case d (sg_filename s) of None \<Rightarrow> 0 | Some bytes \<Rightarrow> length bytes);
         ab = word_of_nat (sg_alignment_bytes s) :: u64 in
     if actual \<noteq> sg_byte_size s then Some (SegmentSizeMismatch (sg_filename s) (sg_byte_size s) actual)
     else if ab < 4096 \<or> ab AND (ab - 1) \<noteq> 0 then Some (SegmentAlignmentInvalid (sg_filename s) (sg_alignment_bytes s))
     else if sg_byte_size s mod sg_alignment_bytes s \<noteq> 0 then Some (SegmentUnaligned (sg_filename s) (sg_byte_size s))
     else None)"

text \<open>The map of the segments keeps the last segment of an identifier.\<close>

definition mapped_tensor_error :: "segment list \<Rightarrow> tensor_entry \<Rightarrow> open_error option" where
  "mapped_tensor_error segs t = (
     let tab = (if te_tensor_alignment_bytes t \<noteq> 0 then te_tensor_alignment_bytes t else 16) in
     if te_offset t mod tab \<noteq> 0 then Some (TensorUnaligned (te_name t) (te_offset t) tab)
     else (case map_of (rev (map (\<lambda>s. (sg_id s, s)) segs)) (te_segment t) of
         None \<Rightarrow> None
       | Some s \<Rightarrow> if min (te_offset t + te_byte_length t) (2 ^ 64 - 1) > sg_byte_size s
           then Some (TensorExceedsSegment (te_name t)) else None))"

text \<open>\<open>skip\<close> is the environment variable that switches the comparison of the manifest's hash off.\<close>

definition verify_manifest ::
  "bool \<Rightarrow> (u8 list \<Rightarrow> string) \<Rightarrow> (('s, 'f) fingerprint \<Rightarrow> u8 list) \<Rightarrow> disk \<Rightarrow> ('s, 'f) manifest \<Rightarrow> compile_receipt
    \<Rightarrow> open_error + manifest_verification" where
  "verify_manifest skip sha json d m rc = (
     let manifest_ok = (mf_image_hash m = compute_manifest_hash sha json m \<or> skip);
         receipt_ok = receipt_matches rc m;
         read = (\<lambda>s. case d (sg_filename s) of None \<Rightarrow> [] | Some bytes \<Rightarrow> bytes);
         matching = (\<lambda>s. sha (read s) = sg_sha256 s);
         hashes_ok = (list_all matching (mf_segments m) \<and> cr_complete_image_hash rc = mf_image_hash m \<and> receipt_ok) in
     case first_some (\<lambda>s. if d (sg_filename s) = None then Some (SegmentUnreadable (sg_filename s)) else None) (mf_segments m) of
       Some e \<Rightarrow> Inl e
     | None \<Rightarrow>
         if \<not> manifest_ok then Inl ManifestHashMismatch
         else if \<not> receipt_ok then Inl ReceiptMismatch
         else if \<not> hashes_ok then Inl SegmentHashMismatch
         else
           let abi_error = (if mf_required_storage_abi m = mapped_no_copy_v1 then
                 (case first_some (mapped_segment_error d) (mf_segments m) of
                    Some e \<Rightarrow> Some e
                  | None \<Rightarrow> first_some (mapped_tensor_error (mf_segments m)) (mf_tensor_table m))
               else if \<not> is_valid_storage_abi (mf_required_storage_abi m) then Some (UnknownStorageAbi (mf_required_storage_abi m))
               else None) in
           (case abi_error of
              Some e \<Rightarrow> Inl e
            | None \<Rightarrow> Inr \<lparr>mv_manifest_hash_matches = manifest_ok, mv_segment_hashes_match = hashes_ok,
                mv_verified_segment_count = length (filter matching (mf_segments m)),
                mv_total_bytes = sum_list (map (\<lambda>s. length (read s)) (mf_segments m))\<rparr>))"

text \<open>\<open>open\<close>: a receipt that cannot be read counts as an empty one.\<close>

definition open_image ::
  "bool \<Rightarrow> (u8 list \<Rightarrow> string) \<Rightarrow> (('s, 'f) fingerprint \<Rightarrow> u8 list) \<Rightarrow> disk \<Rightarrow> ('s, 'f) manifest \<Rightarrow> compile_receipt option
    \<Rightarrow> open_error + manifest_verification" where
  "open_image skip sha json d m rc = verify_manifest skip sha json d m
     (case rc of None \<Rightarrow> \<lparr>cr_complete_image_hash = '''', cr_segment_hashes = []\<rparr> | Some r \<Rightarrow> r)"

subsection \<open>Tensors and their catalogue\<close>

datatype tensor_error = TensorNotFound string | SegmentNotFound string | TensorOutOfBounds string

definition tensor_bytes ::
  "disk \<Rightarrow> ('s, 'f) manifest \<Rightarrow> string \<Rightarrow> (tensor_error + open_error) + u8 list \<times> string \<times> u32 list" where
  "tensor_bytes d m name =
     (case find (\<lambda>e. te_name e = name) (mf_tensor_table m) of
        None \<Rightarrow> Inl (Inl (TensorNotFound name))
      | Some e \<Rightarrow>
          (case find (\<lambda>s. sg_id s = te_segment e) (mf_segments m) of
             None \<Rightarrow> Inl (Inl (SegmentNotFound name))
           | Some s \<Rightarrow>
               (case d (sg_filename s) of
                  None \<Rightarrow> Inl (Inr (SegmentUnreadable (sg_filename s)))
                | Some payload \<Rightarrow>
                    if te_offset e + te_byte_length e > length payload then Inl (Inl (TensorOutOfBounds name))
                    else Inr (take (te_byte_length e) (drop (te_offset e) payload), te_storage_dtype e, te_physical_shape e))))"

record resolved_binding =
  rb_tensor_id :: nat
  rb_canonical_name :: string
  rb_segment_id :: string
  rb_offset :: nat
  rb_byte_length :: nat
  rb_physical_dtype :: string
  rb_runtime_dtype :: string
  rb_physical_shape :: "u32 list"
  rb_logical_shape :: "u32 list"
  rb_strides :: "u32 list"
  rb_quantization :: "quantization_desc option"
  rb_alias_of :: "nat option"
  rb_layout_version :: nat

definition entry_binding :: "tensor_entry \<Rightarrow> resolved_binding" where
  "entry_binding e = \<lparr>rb_tensor_id = te_id e, rb_canonical_name = te_name e, rb_segment_id = te_segment e,
     rb_offset = te_offset e, rb_byte_length = te_byte_length e, rb_physical_dtype = te_storage_dtype e,
     rb_runtime_dtype = te_logical_dtype e, rb_physical_shape = te_physical_shape e,
     rb_logical_shape = te_logical_shape e, rb_strides = [], rb_quantization = te_quantization e,
     rb_alias_of = None, rb_layout_version = te_layout_version e\<rparr>"

definition resolve_tensor_name :: "nat \<Rightarrow> tensor_entry list \<Rightarrow> string" where
  "resolve_tensor_name i table = (case find (\<lambda>e. te_id e = i) table of None \<Rightarrow> '''' | Some e \<Rightarrow> te_name e)"

definition add_alias_binding ::
  "tensor_entry list \<Rightarrow> alias_entry \<Rightarrow> (string \<rightharpoonup> resolved_binding) \<Rightarrow> (string \<rightharpoonup> resolved_binding)" where
  "add_alias_binding table a catalog =
     (case catalog (resolve_tensor_name (al_physical_tensor_id a) table) of
        None \<Rightarrow> catalog
      | Some phys \<Rightarrow> catalog(al_logical_name a \<mapsto> phys\<lparr>rb_tensor_id := al_physical_tensor_id a,
          rb_canonical_name := al_logical_name a, rb_alias_of := Some (al_physical_tensor_id a)\<rparr>))"

definition build_tensor_catalog :: "('s, 'f) manifest \<Rightarrow> string \<rightharpoonup> resolved_binding" where
  "build_tensor_catalog m = fold (add_alias_binding (mf_tensor_table m)) (mf_alias_table m)
     (fold (\<lambda>e c. c(te_name e \<mapsto> entry_binding e)) (mf_tensor_table m) Map.empty)"


subsection \<open>ABI and layout validation\<close>

record storage_abi_spec =
  sa_abi_id :: string
  sa_segment_alignment_bytes :: nat
  sa_tensor_offset_alignment_bytes :: nat
  sa_supported_physical_dtypes :: "string list"
  sa_byte_order :: string
  sa_layout_version :: nat
  sa_prepacked_layout :: string

definition mapped_no_copy_spec :: storage_abi_spec where
  "mapped_no_copy_spec = \<lparr>sa_abi_id = mapped_no_copy_v1, sa_segment_alignment_bytes = 4096,
     sa_tensor_offset_alignment_bytes = 16,
     sa_supported_physical_dtypes = [''U8'', ''I8'', ''F16'', ''BF16'', ''F32'', ''U32''],
     sa_byte_order = ''le'', sa_layout_version = 1, sa_prepacked_layout = ''none''\<rparr>"

datatype abi_violation =
  OffsetNotAligned string nat | DtypeNotSupported string string | GroupsExceedElements string u64 u64 | SegmentNotAligned string nat

text \<open>\<open>to_uppercase\<close> on the letters of a data type's name.\<close>

definition upper :: "string \<Rightarrow> string" where
  "upper = map (\<lambda>c. if c \<in> set ''abcdefghijklmnopqrstuvwxyz'' then char_of ((of_char c :: nat) - 32) else c)"

definition shape_product :: "u32 list \<Rightarrow> u64" where
  "shape_product dims = prod_list (map ucast dims)"

definition validate_tensor_for_mapped_abi :: "tensor_entry \<Rightarrow> storage_abi_spec \<Rightarrow> abi_violation list + unit" where
  "validate_tensor_for_mapped_abi e spec = (
     let offset_errors = (if te_offset e mod sa_tensor_offset_alignment_bytes spec \<noteq> 0
           then [OffsetNotAligned (te_name e) (te_offset e)] else []);
         dtype_errors = (if \<not> list_ex (\<lambda>d. upper d = upper (te_storage_dtype e)) (sa_supported_physical_dtypes spec)
           then [DtypeNotSupported (te_name e) (te_storage_dtype e)] else []);
         quant_errors = (case te_quantization e of
             None \<Rightarrow> []
           | Some q \<Rightarrow>
               let packed = sat_mul (ucast (qd_groups q)) (ucast (qd_group_size q)) in
               if packed > shape_product (te_logical_shape e)
               then [GroupsExceedElements (te_name e) packed (shape_product (te_logical_shape e))] else []);
         errors = offset_errors @ dtype_errors @ quant_errors in
     if errors = [] then Inr () else Inl errors)"

definition validate_manifest_for_abi :: "('s, 'f) manifest \<Rightarrow> storage_abi_spec \<Rightarrow> abi_violation list + unit" where
  "validate_manifest_for_abi m spec = (
     let segment_errors = concat (map (\<lambda>s. if sg_alignment_bytes s mod sa_segment_alignment_bytes spec \<noteq> 0
           then [SegmentNotAligned (sg_id s) (sg_alignment_bytes s)] else []) (mf_segments m));
         tensor_errors = concat (map (\<lambda>e. case validate_tensor_for_mapped_abi e spec of Inl es \<Rightarrow> es | Inr _ \<Rightarrow> [])
           (mf_tensor_table m));
         errors = segment_errors @ tensor_errors in
     if errors = [] then Inr () else Inl errors)"

datatype layout_error = UnsupportedDtype string | ByteCountMismatch u64 | ZeroLength string | ExceedsSegment string
  | DegenerateShape string

definition element_bytes :: "string \<Rightarrow> u64 option" where
  "element_bytes dtype =
     (if dtype \<in> set [''f32'', ''F32'', ''Float32''] then Some 4
      else if dtype \<in> set [''bf16'', ''BF16'', ''BFloat16''] then Some 2
      else if dtype \<in> set [''f16'', ''F16'', ''Float16''] then Some 2
      else if dtype \<in> set [''u8'', ''U8'', ''Uint8''] then Some 1
      else if dtype \<in> set [''i8'', ''I8'', ''Int8''] then Some 1
      else if dtype \<in> set [''u32'', ''U32'', ''Uint32''] then Some 4
      else None)"

definition validate_physical_dtype :: "string \<Rightarrow> u64 \<Rightarrow> u32 list \<Rightarrow> layout_error + u64" where
  "validate_physical_dtype dtype byte_length shape =
     (case element_bytes dtype of
        None \<Rightarrow> Inl (UnsupportedDtype dtype)
      | Some w \<Rightarrow>
          let expected = sat_mul (shape_product shape) w in
          if byte_length \<noteq> expected then Inl (ByteCountMismatch expected) else Inr expected)"

definition validate_tensor_layout :: "tensor_entry \<Rightarrow> nat \<Rightarrow> layout_error + unit" where
  "validate_tensor_layout e segment_size =
     (if te_byte_length e = 0 then Inl (ZeroLength (te_name e))
      else if min (te_offset e + te_byte_length e) (2 ^ 64 - 1) > segment_size then Inl (ExceedsSegment (te_name e))
      else if te_quantization e \<noteq> None then
        (if te_physical_shape e = [] \<or> list_ex (\<lambda>d. d = 0) (te_physical_shape e) then Inl (DegenerateShape (te_name e))
         else Inr ())
      else (case validate_physical_dtype (te_storage_dtype e) (word_of_nat (te_byte_length e)) (te_physical_shape e) of
          Inl er \<Rightarrow> Inl er
        | Inr _ \<Rightarrow> Inr ()))"

subsection \<open>From bytes to arrays\<close>

text \<open>The typed elements handed to the constructor of arrays; floats are bit patterns.\<close>

datatype array_data = DataU8 "u8 list" | DataU32 "u32 list" | DataI8 "u8 list" | DataI32 "u32 list" | DataF32 "u32 list"

fun chunks_exact :: "nat \<Rightarrow> u8 list \<Rightarrow> u8 list list" where
  "chunks_exact 0 bs = []"
| "chunks_exact (Suc n) bs = (if length bs < Suc n then [] else take (Suc n) bs # chunks_exact (Suc n) (drop (Suc n) bs))"

definition u16_from_le_bytes :: "u8 list \<Rightarrow> 16 word" where
  "u16_from_le_bytes bs = ucast (bs ! 0) OR push_bit 8 (ucast (bs ! 1))"

datatype load_error =
    LengthNotMultiple nat nat
  | UnsupportedStorageDtype string
  | LayerSegmentNotFound string
  | SegmentFileUnreadable string
  | TensorNotInTable nat
  | TensorExceedsPayload string
  | LeaseMismatch nat nat
  | HandleNotInRegistry array_handle
  | MissingCompanion string
  | MissingPersistentHandle string

definition dtype_to_array :: "(array_data \<Rightarrow> u32 list \<Rightarrow> 'a) \<Rightarrow> u8 list \<Rightarrow> string \<Rightarrow> u32 list \<Rightarrow> load_error + 'a" where
  "dtype_to_array from_slice bytes dtype dims =
     (if dtype \<in> set [''U8'', ''Uint8''] then Inr (from_slice (DataU8 bytes) dims)
      else if dtype \<in> set [''U32'', ''Uint32''] then
        (if length bytes mod 4 \<noteq> 0 then Inl (LengthNotMultiple 4 (length bytes))
         else Inr (from_slice (DataU32 (map u32_from_le_bytes (chunks_exact 4 bytes))) dims))
      else if dtype \<in> set [''I8'', ''Int8''] then Inr (from_slice (DataI8 bytes) dims)
      else if dtype \<in> set [''I32'', ''Int32''] then
        (if length bytes mod 4 \<noteq> 0 then Inl (LengthNotMultiple 4 (length bytes))
         else Inr (from_slice (DataI32 (map u32_from_le_bytes (chunks_exact 4 bytes))) dims))
      else if dtype \<in> set [''F32'', ''Float32''] then
        (if length bytes mod 4 \<noteq> 0 then Inl (LengthNotMultiple 4 (length bytes))
         else Inr (from_slice (DataF32 (map u32_from_le_bytes (chunks_exact 4 bytes))) dims))
      else if dtype \<in> set [''BF16'', ''BFloat16''] then
        (if length bytes mod 2 \<noteq> 0 then Inl (LengthNotMultiple 2 (length bytes))
         else Inr (from_slice (DataF32 (map (\<lambda>c. push_bit 16 (ucast (u16_from_le_bytes c))) (chunks_exact 2 bytes))) dims))
      else Inl (UnsupportedStorageDtype dtype))"

subsection \<open>Activation\<close>

definition slice_tensor_bytes :: "u8 list \<Rightarrow> tensor_entry \<Rightarrow> load_error + u8 list" where
  "slice_tensor_bytes bytes e =
     (if te_offset e + te_byte_length e > length bytes then Inl (TensorExceedsPayload (te_name e))
      else Inr (take (te_byte_length e) (drop (te_offset e) bytes)))"

definition load_tensor ::
  "(array_data \<Rightarrow> u32 list \<Rightarrow> 'a) \<Rightarrow> tensor_entry list \<Rightarrow> u8 list \<Rightarrow> nat \<Rightarrow> load_error + tensor_entry \<times> 'a" where
  "load_tensor from_slice table bytes i =
     (case find (\<lambda>e. te_id e = i) table of
        None \<Rightarrow> Inl (TensorNotInTable i)
      | Some e \<Rightarrow>
          (case slice_tensor_bytes bytes e of
             Inl er \<Rightarrow> Inl er
           | Inr data \<Rightarrow>
               (case dtype_to_array from_slice data (te_storage_dtype e) (te_physical_shape e) of
                  Inl er \<Rightarrow> Inl er
                | Inr a \<Rightarrow> Inr (e, a))))"

text \<open>The loop over the tensors of a segment.  The registry is global: an error does not undo the insertions made
  before it.  The outer \<open>None\<close> is a panic of the registry.\<close>

fun load_tensors ::
  "(array_data \<Rightarrow> u32 list \<Rightarrow> 'a) \<Rightarrow> tensor_entry list \<Rightarrow> u8 list \<Rightarrow> nat list \<Rightarrow> (string \<times> array_handle) list \<Rightarrow> 'a array_registry
    \<Rightarrow> ((load_error + (string \<times> array_handle) list) \<times> 'a array_registry) option" where
  "load_tensors from_slice table bytes [] hs reg = Some (Inr hs, reg)"
| "load_tensors from_slice table bytes (i # is) hs reg =
     (case load_tensor from_slice table bytes i of
        Inl er \<Rightarrow> Some (Inl er, reg)
      | Inr (e, a) \<Rightarrow>
          (case reg_insert a reg of
             None \<Rightarrow> None
           | Some (h, reg') \<Rightarrow> load_tensors from_slice table bytes is (hs @ [(te_name e, h)]) reg'))"

text \<open>\<open>format!("layer_{}", layer_index)\<close>.\<close>

definition layer_segment_id :: "nat \<Rightarrow> string" where
  "layer_segment_id layer = ''layer_'' @ dec layer"

record layer_lease =
  ll_layer_index :: nat
  ll_segment_id :: string
  ll_bytes_read :: nat
  ll_handles :: "array_handle list"

definition activate_layer ::
  "(array_data \<Rightarrow> u32 list \<Rightarrow> 'a) \<Rightarrow> disk \<Rightarrow> ('s, 'f) manifest \<Rightarrow> nat \<Rightarrow> 'a array_registry
    \<Rightarrow> ((load_error + layer_lease) \<times> 'a array_registry) option" where
  "activate_layer from_slice d m layer reg = (
     let seg_id = layer_segment_id layer in
     case find (\<lambda>s. sg_id s = seg_id) (mf_segments m) of
       None \<Rightarrow> Some (Inl (LayerSegmentNotFound seg_id), reg)
     | Some s \<Rightarrow>
         (case d (sg_filename s) of
            None \<Rightarrow> Some (Inl (SegmentFileUnreadable (sg_filename s)), reg)
          | Some bytes \<Rightarrow>
              map_option (\<lambda>(r, reg'). (map_sum id (\<lambda>hs. \<lparr>ll_layer_index = layer, ll_segment_id = seg_id,
                  ll_bytes_read = length bytes, ll_handles = map snd hs\<rparr>) r, reg'))
                (load_tensors from_slice (mf_tensor_table m) bytes (sg_tensor_ids s) [] reg)))"

text \<open>Dropping a lease frees its handles.\<close>

definition drop_lease :: "layer_lease \<Rightarrow> 'a array_registry \<Rightarrow> 'a array_registry" where
  "drop_lease l reg = fold free_array (ll_handles l) reg"

fun lease_arrays ::
  "tensor_entry list \<Rightarrow> 'a array_registry \<Rightarrow> (nat \<times> array_handle) list \<Rightarrow> (string \<rightharpoonup> 'a) \<Rightarrow> load_error + (string \<rightharpoonup> 'a)" where
  "lease_arrays table reg [] arrays = Inr arrays"
| "lease_arrays table reg ((i, h) # ihs) arrays =
     (case find (\<lambda>e. te_id e = i) table of
        None \<Rightarrow> Inl (TensorNotInTable i)
      | Some e \<Rightarrow>
          (case reg_get reg h of
             None \<Rightarrow> Inl (HandleNotInRegistry h)
           | Some a \<Rightarrow> lease_arrays table reg ihs (arrays(te_name e \<mapsto> a))))"

definition build_layer_arrays_from_lease ::
  "('s, 'f) manifest \<Rightarrow> nat \<Rightarrow> layer_lease \<Rightarrow> 'a array_registry \<Rightarrow> load_error + (string \<rightharpoonup> 'a)" where
  "build_layer_arrays_from_lease m layer lease reg = (
     let seg_id = layer_segment_id layer in
     case find (\<lambda>s. sg_id s = seg_id) (mf_segments m) of
       None \<Rightarrow> Inl (LayerSegmentNotFound seg_id)
     | Some s \<Rightarrow>
         if length (sg_tensor_ids s) \<noteq> length (ll_handles lease)
         then Inl (LeaseMismatch (length (sg_tensor_ids s)) (length (ll_handles lease)))
         else lease_arrays (mf_tensor_table m) reg (zip (sg_tensor_ids s) (ll_handles lease)) Map.empty)"


subsection \<open>The runtime\<close>

record quantized_binding =
  qb_weight_handle :: array_handle
  qb_scales_handle :: array_handle
  qb_biases_handle :: array_handle
  qb_logical_out_features :: u32
  qb_logical_in_features :: u32
  qb_group_size :: u32
  qb_bits :: u32
  qb_transpose :: bool

record ('s, 'f) image_runtime =
  rt_manifest :: "('s, 'f) manifest"
  rt_persistent_handles :: "(string \<times> array_handle) list"
  rt_quantized_bindings :: "(string \<times> quantized_binding) list"
  rt_total_bytes_activated :: nat
  rt_released :: bool

definition rt_new :: "('s, 'f) manifest \<Rightarrow> ('s, 'f) image_runtime" where
  "rt_new m = \<lparr>rt_manifest = m, rt_persistent_handles = [], rt_quantized_bindings = [],
     rt_total_bytes_activated = 0, rt_released = False\<rparr>"

definition quantized_binding_of ::
  "tensor_entry list \<Rightarrow> (string \<times> array_handle) list \<Rightarrow> tensor_entry \<Rightarrow> quantization_desc \<Rightarrow> (load_error + quantized_binding) option" where
  "quantized_binding_of table handles e q =
     (case find (\<lambda>x. te_id x = qd_scale_tensor_id q) table of
        None \<Rightarrow> Some (Inl (MissingCompanion (te_name e)))
      | Some scales \<Rightarrow>
          (case find (\<lambda>x. te_id x = qd_bias_tensor_id q) table of
             None \<Rightarrow> Some (Inl (MissingCompanion (te_name e)))
           | Some biases \<Rightarrow>
               (case (map_of handles (te_name e), map_of handles (te_name scales), map_of handles (te_name biases)) of
                  (None, _, _) \<Rightarrow> Some (Inl (MissingPersistentHandle (te_name e)))
                | (_, None, _) \<Rightarrow> Some (Inl (MissingPersistentHandle (te_name scales)))
                | (_, _, None) \<Rightarrow> Some (Inl (MissingPersistentHandle (te_name biases)))
                | (Some w, Some s, Some b) \<Rightarrow>
                    if length (te_logical_shape e) < 2 then None
                    else Some (Inr \<lparr>qb_weight_handle = w, qb_scales_handle = s, qb_biases_handle = b,
                      qb_logical_out_features = te_logical_shape e ! 0, qb_logical_in_features = te_logical_shape e ! 1,
                      qb_group_size = qd_group_size q, qb_bits = qd_bits q, qb_transpose = True\<rparr>))))"

text \<open>\<open>None\<close> is the panic of a quantized tensor with fewer than two dimensions.\<close>

fun rebuild_bindings ::
  "string list \<Rightarrow> tensor_entry list \<Rightarrow> (string \<times> array_handle) list \<Rightarrow> tensor_entry list \<Rightarrow> (string \<times> quantized_binding) list
    \<Rightarrow> (load_error + (string \<times> quantized_binding) list) option" where
  "rebuild_bindings persistent table handles [] acc = Some (Inr acc)"
| "rebuild_bindings persistent table handles (e # es) acc =
     (if te_segment e \<notin> set persistent then rebuild_bindings persistent table handles es acc
      else (case te_quantization e of
          None \<Rightarrow> rebuild_bindings persistent table handles es acc
        | Some q \<Rightarrow>
            (case quantized_binding_of table handles e q of
               None \<Rightarrow> None
             | Some (Inl er) \<Rightarrow> Some (Inl er)
             | Some (Inr qb) \<Rightarrow> rebuild_bindings persistent table handles es (AList.update (te_name e) qb acc))))"

definition rebuild_quantized_bindings_from_persistent ::
  "('s, 'f) image_runtime \<Rightarrow> (load_error + ('s, 'f) image_runtime) option" where
  "rebuild_quantized_bindings_from_persistent rt =
     map_option (map_sum id (\<lambda>qbs. rt\<lparr>rt_quantized_bindings := qbs\<rparr>))
       (rebuild_bindings (mf_persistent_segments (rt_manifest rt)) (mf_tensor_table (rt_manifest rt))
         (rt_persistent_handles rt) (mf_tensor_table (rt_manifest rt)) [])"

fun activate_segments ::
  "(array_data \<Rightarrow> u32 list \<Rightarrow> 'a) \<Rightarrow> disk \<Rightarrow> string list \<Rightarrow> ('s, 'f) image_runtime \<Rightarrow> 'a array_registry
    \<Rightarrow> ((load_error + ('s, 'f) image_runtime) \<times> 'a array_registry) option" where
  "activate_segments from_slice d [] rt reg = Some (Inr rt, reg)"
| "activate_segments from_slice d (seg_id # ids) rt reg =
     (case find (\<lambda>s. sg_id s = seg_id) (mf_segments (rt_manifest rt)) of
        None \<Rightarrow> Some (Inl (LayerSegmentNotFound seg_id), reg)
      | Some s \<Rightarrow>
          (case d (sg_filename s) of
             None \<Rightarrow> Some (Inl (SegmentFileUnreadable (sg_filename s)), reg)
           | Some bytes \<Rightarrow>
               (case load_tensors from_slice (mf_tensor_table (rt_manifest rt)) bytes (sg_tensor_ids s) [] reg of
                  None \<Rightarrow> None
                | Some (Inl er, reg') \<Rightarrow> Some (Inl er, reg')
                | Some (Inr hs, reg') \<Rightarrow>
                    activate_segments from_slice d ids
                      (rt\<lparr>rt_persistent_handles := fold (\<lambda>(n, h). AList.update n h) hs (rt_persistent_handles rt),
                        rt_total_bytes_activated := rt_total_bytes_activated rt + length bytes\<rparr>) reg')))"

definition activate_persistent ::
  "(array_data \<Rightarrow> u32 list \<Rightarrow> 'a) \<Rightarrow> disk \<Rightarrow> ('s, 'f) image_runtime \<Rightarrow> 'a array_registry
    \<Rightarrow> ((load_error + ('s, 'f) image_runtime) \<times> 'a array_registry) option" where
  "activate_persistent from_slice d rt reg =
     (case activate_segments from_slice d (mf_persistent_segments (rt_manifest rt)) rt reg of
        None \<Rightarrow> None
      | Some (Inl er, reg') \<Rightarrow> Some (Inl er, reg')
      | Some (Inr rt', reg') \<Rightarrow> map_option (\<lambda>r. (r, reg')) (rebuild_quantized_bindings_from_persistent rt'))"

definition rt_release :: "('s, 'f) image_runtime \<Rightarrow> 'a array_registry \<Rightarrow> ('s, 'f) image_runtime \<times> 'a array_registry" where
  "rt_release rt reg =
     (if rt_released rt then (rt, reg)
      else (rt\<lparr>rt_persistent_handles := [], rt_quantized_bindings := [], rt_released := True\<rparr>,
        fold free_array (map snd (rt_persistent_handles rt)) reg))"

subsection \<open>Memory estimates\<close>

definition rope_bytes :: "'f text_arch \<Rightarrow> u64" where
  "rope_bytes ar = sat_add
     (sat_mul (sat_mul (ucast (ar_max_position_embeddings ar)) (ucast (ar_head_dim ar))) 4)
     (sat_mul (sat_mul (ucast (ar_max_position_embeddings ar)) (ucast (unwrap_or (ar_global_head_dim ar) (ar_head_dim ar)))) 4)"

definition segment_bytes :: "('s, 'f) manifest \<Rightarrow> string list \<Rightarrow> nat list" where
  "segment_bytes m ids = map sg_byte_size (List.map_filter (\<lambda>i. find (\<lambda>s. sg_id s = i) (mf_segments m)) ids)"

definition estimate_open_runtime_peak_bytes :: "('s, 'f) manifest \<Rightarrow> u64" where
  "estimate_open_runtime_peak_bytes m = (
     let ar = mf_architecture m;
         persistent_bytes = word_of_nat (sum_list (segment_bytes m (mf_persistent_segments m))) :: u64;
         embedding = sat_mul (sat_mul (ucast (ar_vocab_size ar)) (ucast (ar_hidden_size ar))) 4 in
     sat_add (sat_add (sat_add persistent_bytes (rope_bytes ar)) embedding) (1024 * 1024 * 1024))"

text \<open>\<open>sort_by\<close> with the comparison reversed, then the first \<open>window\<close> of them.\<close>

definition max_layer_window_bytes :: "('s, 'f) manifest \<Rightarrow> nat" where
  "max_layer_window_bytes m =
     sum_list (take (max (mf_layer_window_size m) 1) (rev (sort (segment_bytes m (mf_layer_segments m)))))"

record admission_estimate =
  ae_virtual_mapped_bytes :: u64
  ae_expected_resident_bytes :: u64
  ae_persistent_materialized_bytes :: u64
  ae_max_layer_window_bytes :: u64
  ae_rope_bytes :: u64
  ae_kv_budget_bytes :: u64
  ae_mlx_workspace_bytes :: u64
  ae_allocator_cache_bytes :: u64
  ae_system_reserve_bytes :: u64
  ae_largest_transient_bytes :: u64
  ae_materialized_bytes :: u64

definition representation_aware_admission_estimate :: "('s, 'f) manifest \<Rightarrow> admission_estimate" where
  "representation_aware_admission_estimate m = (
     let ar = mf_architecture m;
         persistent = word_of_nat (sum_list (segment_bytes m (mf_persistent_segments m))) :: u64;
         window = word_of_nat (max_layer_window_bytes m) :: u64;
         total_mapped = word_of_nat (sum_list (map sg_byte_size (mf_segments m))) :: u64;
         rope = rope_bytes ar;
         workspace = 512 * 1024 * 1024;
         is_mapped = (mf_required_storage_abi m = mapped_no_copy_v1);
         seq_len = ucast (min (ar_max_position_embeddings ar) 8192) :: u64;
         hidden = ucast (ar_hidden_size ar);
         attention_workspace = sat_mul (sat_mul seq_len hidden) 4;
         output_workspace = sat_mul (sat_mul hidden (ucast (ar_vocab_size ar))) 4;
         tensor_bytes = (\<lambda>es. word_of_nat (sum_list (map te_byte_length es)) :: u64);
         (resident, materialized) = (if is_mapped
           then (sat_add (sat_add (sat_add persistent window) rope) workspace,
             tensor_bytes (filter (\<lambda>e. te_quantization e \<noteq> None) (mf_tensor_table m)))
           else (sat_add (sat_add (tensor_bytes (mf_tensor_table m)) rope) workspace, 0)) in
     \<lparr>ae_virtual_mapped_bytes = (if is_mapped then total_mapped else 0),
      ae_expected_resident_bytes = resident,
      ae_persistent_materialized_bytes = persistent,
      ae_max_layer_window_bytes = window,
      ae_rope_bytes = rope,
      ae_kv_budget_bytes = sat_mul rope 4,
      ae_mlx_workspace_bytes = workspace,
      ae_allocator_cache_bytes = 512 * 1024 * 1024,
      ae_system_reserve_bytes = 2 * 1024 * 1024 * 1024,
      ae_largest_transient_bytes = max attention_workspace output_workspace,
      ae_materialized_bytes = materialized\<rparr>)"


subsection \<open>File names of segments are distinct\<close>

definition number :: "string \<Rightarrow> nat" where
  "number s = foldl (\<lambda>n c. n * 10 + (of_char c - 48)) 0 s"

lemma digit_code: "d < 10 \<Longrightarrow> (of_char (digit d) :: nat) = 48 + d"
  by (auto simp: digit_def less_Suc_eq numeral_eq_Suc)

lemma number_dec: "number (dec n) = n"
proof (induction n rule: dec.induct)
  case (1 n)
  show ?case
  proof (cases "n < 10")
    case True
    then show ?thesis by (simp add: dec.simps [of n] number_def digit_code)
  next
    case False
    with 1 have "foldl (\<lambda>n c. n * 10 + (of_char c - 48)) 0 (dec (n div 10)) = n div 10" by (simp add: number_def)
    with False show ?thesis by (simp add: dec.simps [of n] number_def digit_code)
  qed
qed

lemma number_pad: "number (replicate k (CHR ''0'') @ s) = number s"
  by (induction k) (simp_all add: number_def)

lemma pad3_inject: "pad3 m = pad3 n \<longleftrightarrow> m = n"
  by (metis pad3_def number_pad number_dec)

definition segment_filename :: "nat \<Rightarrow> string" where
  "segment_filename i = ''segment_'' @ pad3 i @ ''.bin''"

lemma segment_filename_inject [simp]: "segment_filename i = segment_filename j \<longleftrightarrow> i = j"
  by (simp add: segment_filename_def pad3_inject)

text \<open>What the builder records of its files.\<close>

definition files_ok :: "(u8 list \<Rightarrow> string) \<Rightarrow> image_builder \<Rightarrow> bool" where
  "files_ok sha b \<longleftrightarrow>
     map sg_filename (ib_segments b) = map segment_filename [0..<length (ib_segments b)] \<and>
     map sg_byte_size (ib_segments b) = map length (ib_segment_payloads b) \<and>
     map sg_sha256 (ib_segments b) = map sha (ib_segment_payloads b) \<and>
     list_all (\<lambda>s. sg_alignment_bytes s = 4096) (ib_segments b) \<and>
     (\<forall>s. ib_current_segment b = Some s \<longrightarrow> sb_filename s = segment_filename (length (ib_segments b)))"

lemma files_ok_flush: "files_ok sha b \<Longrightarrow> files_ok sha (flush_segment sha b)"
  by (auto simp: files_ok_def flush_segment_def Let_def split: option.splits segment_kind.splits)

lemma files_ok_op: "files_ok sha b \<Longrightarrow> run_op sha op b = Some b' \<Longrightarrow> files_ok sha b'"
proof (cases op)
  case (BeginSegment i kind)
  assume "files_ok sha b" "run_op sha op b = Some b'"
  then have b': "b' = begin_segment sha i kind b" using BeginSegment by simp
  from files_ok_flush [OF \<open>files_ok sha b\<close>] show ?thesis
    unfolding b' files_ok_def begin_segment_def Let_def by (simp add: segment_filename_def)
next
  case (AddTensor a)
  assume "files_ok sha b" "run_op sha op b = Some b'"
  with AddTensor show ?thesis
    by (auto simp: add_tensor_def Let_def files_ok_def split: option.splits)
next
  case (AddAlias n i r)
  assume "files_ok sha b" "run_op sha op b = Some b'"
  with AddAlias show ?thesis by (auto simp: add_alias_def files_ok_def)
qed

lemma files_ok_run: "files_ok sha b \<Longrightarrow> run_ops sha ops b = Some b' \<Longrightarrow> files_ok sha b'"
  by (induction sha ops b rule: run_ops.induct) (auto split: option.splits dest: files_ok_op)

lemma fresh_files:
  assumes "run_ops sha ops ib_new = Some b"
  shows "map sg_filename (im_segments (ib_finalize sha b)) = map segment_filename [0..<length (im_segments (ib_finalize sha b))]"
    "map sg_byte_size (im_segments (ib_finalize sha b)) = map length (im_payloads (ib_finalize sha b))"
    "map sg_sha256 (im_segments (ib_finalize sha b)) = map sha (im_payloads (ib_finalize sha b))"
    "list_all (\<lambda>s. sg_alignment_bytes s = 4096) (im_segments (ib_finalize sha b))"
proof -
  have "files_ok sha ib_new" by (simp add: files_ok_def ib_new_def)
  then have "files_ok sha (flush_segment sha b)" using files_ok_run [OF _ assms] files_ok_flush by blast
  then show "map sg_filename (im_segments (ib_finalize sha b)) = map segment_filename [0..<length (im_segments (ib_finalize sha b))]"
    "map sg_byte_size (im_segments (ib_finalize sha b)) = map length (im_payloads (ib_finalize sha b))"
    "map sg_sha256 (im_segments (ib_finalize sha b)) = map sha (im_payloads (ib_finalize sha b))"
    "list_all (\<lambda>s. sg_alignment_bytes s = 4096) (im_segments (ib_finalize sha b))"
    by (simp_all add: files_ok_def ib_finalize_def Let_def)
qed

lemma write_all:
  assumes "distinct (map sg_filename ss)" "length ss = length ps" "i < length ss"
  shows "fold (\<lambda>(s, p) d. d(sg_filename s \<mapsto> p)) (zip ss ps) d (sg_filename (ss ! i)) = Some (ps ! i)"
  using assms
proof (induction ss arbitrary: ps d i)
  case (Cons s ss)
  then obtain p qs where ps: "ps = p # qs" by (cases ps) auto
  have other: "fold (\<lambda>(s, p) d. d(sg_filename s \<mapsto> p)) (zip ss rs) c f = c f" if "f \<notin> sg_filename ` set ss" for c f rs
    using that by (induction ss arbitrary: c rs) (auto simp: zip_Cons1 split: list.split)
  show ?case
  proof (cases i)
    case 0
    have "sg_filename s \<notin> sg_filename ` set ss" using Cons.prems(1) by simp
    then have "fold (\<lambda>(s, p) d. d(sg_filename s \<mapsto> p)) (zip ss qs) (d(sg_filename s \<mapsto> p)) (sg_filename s) =
        (d(sg_filename s \<mapsto> p)) (sg_filename s)" by (rule other)
    then show ?thesis by (simp add: ps 0 del: fun_upd_apply) simp
  next
    case (Suc j)
    have "fold (\<lambda>(s, p) d. d(sg_filename s \<mapsto> p)) (zip ss qs) (d(sg_filename s \<mapsto> p)) (sg_filename (ss ! j)) = Some (qs ! j)"
      by (rule Cons.IH) (use Cons.prems ps Suc in simp_all)
    then show ?thesis by (simp add: ps Suc del: fun_upd_apply)
  qed
qed simp

lemma written_segment:
  assumes "run_ops sha ops ib_new = Some b" and "i < length (im_segments (ib_finalize sha b))"
  shows "write_segments (ib_finalize sha b) d (sg_filename (im_segments (ib_finalize sha b) ! i)) =
    Some (im_payloads (ib_finalize sha b) ! i)"
proof -
  note f = fresh_files [OF assms(1)]
  have "distinct (map sg_filename (im_segments (ib_finalize sha b)))"
    unfolding f(1) by (simp add: distinct_map inj_on_def)
  moreover have "length (im_segments (ib_finalize sha b)) = length (im_payloads (ib_finalize sha b))"
    using arg_cong [OF f(2), of length] by simp
  ultimately show ?thesis unfolding write_segments_def by (intro write_all assms(2))
qed


subsection \<open>Which images open\<close>

lemma first_some_None: "first_some f xs = None \<longleftrightarrow> (\<forall>x \<in> set xs. f x = None)"
  by (induction xs) (auto split: option.split)

lemma zip_map_self: "zip (map f xs) xs = map (\<lambda>x. (f x, x)) xs"
  by (induction xs) simp_all

lemma receipt_of_manifest: "receipt_matches (build_compile_receipt m) m"
  by (simp add: receipt_matches_def build_compile_receipt_def zip_map_self list_all_iff)

text \<open>The ABI part of the verification.\<close>

definition abi_ok :: "disk \<Rightarrow> ('s, 'f) manifest \<Rightarrow> bool" where
  "abi_ok d m \<longleftrightarrow> (if mf_required_storage_abi m = mapped_no_copy_v1
     then (\<forall>s \<in> set (mf_segments m). mapped_segment_error d s = None) \<and>
       (\<forall>e \<in> set (mf_tensor_table m). mapped_tensor_error (mf_segments m) e = None)
     else is_valid_storage_abi (mf_required_storage_abi m))"

definition segment_authentic :: "(u8 list \<Rightarrow> string) \<Rightarrow> disk \<Rightarrow> segment \<Rightarrow> bool" where
  "segment_authentic sha d s \<longleftrightarrow> (\<exists>bytes. d (sg_filename s) = Some bytes \<and> sha bytes = sg_sha256 s)"

lemma verify_manifest_ok:
  "(\<exists>v. verify_manifest skip sha json d m rc = Inr v) \<longleftrightarrow>
    list_all (segment_authentic sha d) (mf_segments m) \<and>
    (mf_image_hash m = compute_manifest_hash sha json m \<or> skip) \<and> receipt_matches rc m \<and> abi_ok d m"
proof (cases "\<forall>s \<in> set (mf_segments m). d (sg_filename s) \<noteq> None")
  case True
  let ?read = "\<lambda>s. case d (sg_filename s) of None \<Rightarrow> [] | Some bytes \<Rightarrow> bytes"
  have none: "first_some (\<lambda>s. if d (sg_filename s) = None then Some (SegmentUnreadable (sg_filename s)) else None)
      (mf_segments m) = None"
    using True by (simp add: first_some_None)
  have auth: "segment_authentic sha d s \<longleftrightarrow> sha (?read s) = sg_sha256 s" if "s \<in> set (mf_segments m)" for s
    using True that by (auto simp: segment_authentic_def split: option.split)
  have abi: "(if mf_required_storage_abi m = mapped_no_copy_v1 then
        (case first_some (mapped_segment_error d) (mf_segments m) of
           Some e \<Rightarrow> Some e
         | None \<Rightarrow> first_some (mapped_tensor_error (mf_segments m)) (mf_tensor_table m))
      else if \<not> is_valid_storage_abi (mf_required_storage_abi m) then Some (UnknownStorageAbi (mf_required_storage_abi m))
      else None) = None \<longleftrightarrow> abi_ok d m"
  proof (cases "first_some (mapped_segment_error d) (mf_segments m)")
    case None
    then have "\<forall>s \<in> set (mf_segments m). mapped_segment_error d s = None"
      using first_some_None [of "mapped_segment_error d" "mf_segments m"] by simp
    with None show ?thesis
      by (simp add: abi_ok_def first_some_None [of "mapped_tensor_error (mf_segments m)"])
  next
    case (Some e)
    then have "\<not> (\<forall>s \<in> set (mf_segments m). mapped_segment_error d s = None)"
      using first_some_None [of "mapped_segment_error d" "mf_segments m"] by simp
    with Some show ?thesis by (simp add: abi_ok_def)
  qed
  have all: "list_all (segment_authentic sha d) (mf_segments m) \<longleftrightarrow>
      list_all (\<lambda>s. sha (?read s) = sg_sha256 s) (mf_segments m)"
    by (simp add: list_all_iff auth)
  have rc: "receipt_matches rc m \<Longrightarrow> cr_complete_image_hash rc = mf_image_hash m"
    by (simp add: receipt_matches_def)
  have split: "(\<exists>v. (case x of None \<Rightarrow> Inr y | Some e \<Rightarrow> Inl e) = Inr v) \<longleftrightarrow> x = None" for x :: "open_error option" and y
    by (cases x) simp_all
  show ?thesis
    unfolding verify_manifest_def Let_def none option.case all abi [symmetric]
    using rc by (auto simp only: split if_True if_False sum.simps ex_simps simp_thms split: if_split)
next
  case False
  then obtain s where s: "s \<in> set (mf_segments m)" "d (sg_filename s) = None" by blast
  then have "\<not> segment_authentic sha d s" by (simp add: segment_authentic_def)
  with s(1) have "\<not> list_all (segment_authentic sha d) (mf_segments m)" by (auto simp: list_all_iff)
  moreover obtain e where "first_some (\<lambda>s. if d (sg_filename s) = None then Some (SegmentUnreadable (sg_filename s)) else None)
      (mf_segments m) = Some e"
    using s first_some_None [of "\<lambda>s. if d (sg_filename s) = None then Some (SegmentUnreadable (sg_filename s)) else None" "mf_segments m"]
    by fastforce
  ultimately show ?thesis by (simp add: verify_manifest_def Let_def)
qed



text \<open>The parts of a fresh image.\<close>

lemma fresh_entries:
  assumes "run_ops sha ops ib_new = Some b" and "distinct (begun ops)"
  shows "list_all2 (entry_holds (zip (map sg_id (im_segments (ib_finalize sha b))) (im_payloads (ib_finalize sha b))))
      (im_tensor_table (ib_finalize sha b)) (added ops)"
    "map te_id (im_tensor_table (ib_finalize sha b)) = [0..<length (added ops)]"
    "distinct (map sg_id (im_segments (ib_finalize sha b)))"
proof -
  have "builder_ok [] [] ib_new"
    by (simp add: builder_ok_def ib_new_def open_payloads_def open_tensor_ids_def open_bytes_def)
  from builder_ok_run [OF this _ assms(1)] assms(2) have b: "builder_ok (begun ops) (added ops) b" by simp
  then have ok: "builder_ok (begun ops) (added ops) (flush_segment sha b)" by (rule builder_ok_flush)
  have none: "ib_current_segment (flush_segment sha b) = None" using b by (simp add: builder_ok_def flush_open)
  have ps: "open_payloads (flush_segment sha b) = zip (map sg_id (im_segments (ib_finalize sha b))) (im_payloads (ib_finalize sha b))"
    by (simp add: open_payloads_def none ib_finalize_def Let_def)
  show "list_all2 (entry_holds (zip (map sg_id (im_segments (ib_finalize sha b))) (im_payloads (ib_finalize sha b))))
      (im_tensor_table (ib_finalize sha b)) (added ops)"
    using ok unfolding ps [symmetric] by (simp add: builder_ok_def ib_finalize_def Let_def)
  show "map te_id (im_tensor_table (ib_finalize sha b)) = [0..<length (added ops)]"
    using ok by (simp add: builder_ok_def ib_finalize_def Let_def)
  have "length (im_segments (ib_finalize sha b)) = length (im_payloads (ib_finalize sha b))"
    using ok by (simp add: builder_ok_def ib_finalize_def Let_def)
  moreover have "map fst (open_payloads (flush_segment sha b)) = begun ops" using ok by (simp only: builder_ok_def)
  ultimately have "map sg_id (im_segments (ib_finalize sha b)) = begun ops" unfolding ps by simp
  with assms(2) show "distinct (map sg_id (im_segments (ib_finalize sha b)))" by simp
qed

text \<open>The files, the manifest and the receipt that a program of builder calls leaves behind.\<close>

definition sealed_disk :: "(u8 list \<Rightarrow> string) \<Rightarrow> image_builder \<Rightarrow> disk" where
  "sealed_disk sha b = write_segments (ib_finalize sha b) Map.empty"

definition sealed_manifest ::
  "(u8 list \<Rightarrow> string) \<Rightarrow> (('s, 'f) fingerprint \<Rightarrow> u8 list) \<Rightarrow> 's \<Rightarrow> 'f text_arch \<Rightarrow> 'f model_plan \<Rightarrow> image_builder \<Rightarrow> ('s, 'f) manifest" where
  "sealed_manifest sha json identity ar plan b = finalize_manifest sha json identity ar plan (ib_finalize sha b)"

lemma sealed_fields [simp]:
  "mf_segments (sealed_manifest sha json s ar plan b) = im_segments (ib_finalize sha b)"
  "mf_tensor_table (sealed_manifest sha json s ar plan b) = im_tensor_table (ib_finalize sha b)"
  "mf_alias_table (sealed_manifest sha json s ar plan b) = im_alias_table (ib_finalize sha b)"
  "mf_required_storage_abi (sealed_manifest sha json s ar plan b) = copied_v0"
  "mf_image_hash (sealed_manifest sha json s ar plan b) = compute_manifest_hash sha json (sealed_manifest sha json s ar plan b)"
  by (simp_all add: sealed_manifest_def finalize_manifest_def Let_def compute_manifest_hash_def fingerprint_def copied_v0_def)

lemma sealed_file:
  assumes "run_ops sha ops ib_new = Some b" and "s \<in> set (im_segments (ib_finalize sha b))"
  shows "\<exists>p. sealed_disk sha b (sg_filename s) = Some p \<and> sg_byte_size s = length p \<and> sg_sha256 s = sha p \<and>
    (distinct (map sg_id (im_segments (ib_finalize sha b))) \<longrightarrow>
      map_of (zip (map sg_id (im_segments (ib_finalize sha b))) (im_payloads (ib_finalize sha b))) (sg_id s) = Some p)"
proof -
  note f = fresh_files [OF assms(1)]
  let ?ss = "im_segments (ib_finalize sha b)" and ?ps = "im_payloads (ib_finalize sha b)"
  obtain i where i: "i < length ?ss" "?ss ! i = s" using assms(2) by (auto simp: in_set_conv_nth)
  have len: "length ?ss = length ?ps" using arg_cong [OF f(2), of length] by simp
  have "sg_byte_size s = length (?ps ! i)" "sg_sha256 s = sha (?ps ! i)"
    using arg_cong [OF f(2), of "\<lambda>xs. xs ! i"] arg_cong [OF f(3), of "\<lambda>xs. xs ! i"] i len by simp_all
  moreover have "map_of (zip (map sg_id ?ss) ?ps) (sg_id s) = Some (?ps ! i)" if "distinct (map sg_id ?ss)"
    using map_of_zip_nth [of "map sg_id ?ss" ?ps i] that i len by simp
  moreover have "sealed_disk sha b (sg_filename s) = Some (?ps ! i)"
    using written_segment [OF assms(1) i(1)] i(2) by (simp add: sealed_disk_def)
  ultimately show ?thesis by blast
qed




definition two_segments :: "builder_op list" where
  "two_segments = [BeginSegment ''persistent'' Persistent, AddTensor (tensor_of_bytes [1, 2, 3]),
     BeginSegment ''layer_0'' (LayerSegment 0), AddTensor (tensor_of_bytes [4]), AddTensor (tensor_of_bytes [5, 6])]"

definition example_plan :: "unit model_plan" where
  "example_plan = build_execution_plan (\<lambda>x. x) example_arch example_namespace Map.empty"

lemma two_segments_run: "\<exists>b. run_ops sha two_segments ib_new = Some b"
  by (simp add: two_segments_def add_tensor_def begin_segment_def Let_def)


subsection \<open>What the hash does not cover\<close>

lemma entries_aligned_16: "run_ops sha ops b = Some b' \<Longrightarrow> list_all (\<lambda>e. te_tensor_alignment_bytes e = 16) (ib_tensors b) \<Longrightarrow>
    list_all (\<lambda>e. te_tensor_alignment_bytes e = 16) (ib_tensors b')"
proof (induction sha ops b rule: run_ops.induct)
  case (2 sha op ops b)
  then obtain b1 where b1: "run_op sha op b = Some b1" "run_ops sha ops b1 = Some b'" by (auto split: option.splits)
  have "ib_tensors (flush_segment sha b) = ib_tensors b"
    by (simp add: flush_segment_def Let_def split: option.split segment_kind.split)
  with b1(1) 2(3) have "list_all (\<lambda>e. te_tensor_alignment_bytes e = 16) (ib_tensors b1)"
    by (cases op) (auto simp: begin_segment_def add_tensor_def add_alias_def Let_def split: option.splits)
  with 2(1) b1 show ?case by blast
qed simp

lemma fresh_alignment:
  assumes "run_ops sha ops ib_new = Some b" "e \<in> set (im_tensor_table (ib_finalize sha b))"
  shows "te_tensor_alignment_bytes e = 16"
proof -
  have "list_all (\<lambda>e. te_tensor_alignment_bytes e = 16) (ib_tensors b)"
    by (rule entries_aligned_16 [OF assms(1)]) (simp add: ib_new_def)
  moreover have "im_tensor_table (ib_finalize sha b) = ib_tensors b"
    by (simp add: ib_finalize_def Let_def flush_segment_def split: option.split segment_kind.split)
  ultimately show ?thesis using assms(2) by (simp add: list_all_iff)
qed

lemma segment_lookup:
  assumes "distinct (map sg_id segs)" "map_of (rev (map (\<lambda>s. (sg_id s, s)) segs)) i = Some s"
  shows "s \<in> set segs \<and> sg_id s = i"
  using assms(2) by (auto dest: map_of_SomeD)

lemma fresh_tensor_in_segment:
  assumes run: "run_ops sha ops ib_new = Some b" and ids: "distinct (begun ops)"
    and e: "e \<in> set (im_tensor_table (ib_finalize sha b))"
    and s: "s \<in> set (im_segments (ib_finalize sha b))" "sg_id s = te_segment e"
  shows "te_offset e + te_byte_length e \<le> sg_byte_size s"
proof -
  note fr = fresh_entries [OF run ids]
  from fr(1) e obtain d where "entry_holds (zip (map sg_id (im_segments (ib_finalize sha b))) (im_payloads (ib_finalize sha b))) e d"
    by (auto simp: list_all2_conv_all_nth in_set_conv_nth)
  moreover from sealed_file [OF run s(1)] fr(3) obtain p where
    "map_of (zip (map sg_id (im_segments (ib_finalize sha b))) (im_payloads (ib_finalize sha b))) (sg_id s) = Some p"
    "sg_byte_size s = length p" by blast
  ultimately show ?thesis using s(2) by (auto simp: entry_holds_def)
qed

lemma mapped_segment_fresh:
  assumes "run_ops sha ops ib_new = Some b" "s \<in> set (im_segments (ib_finalize sha b))"
  shows "mapped_segment_error (sealed_disk sha b) s = None \<longleftrightarrow> 4096 dvd sg_byte_size s"
proof -
  from sealed_file [OF assms] obtain p where p: "sealed_disk sha b (sg_filename s) = Some p" "sg_byte_size s = length p" by blast
  have "sg_alignment_bytes s = 4096" using fresh_files(4) [OF assms(1)] assms(2) by (simp add: list_all_iff)
  moreover have "(4096 :: u64) AND 4095 = 0" by simp
  ultimately show ?thesis using p by (simp add: mapped_segment_error_def Let_def dvd_eq_mod_eq_0)
qed

lemma mapped_tensor_fresh:
  assumes run: "run_ops sha ops ib_new = Some b" and ids: "distinct (begun ops)"
    and e: "e \<in> set (im_tensor_table (ib_finalize sha b))"
  shows "mapped_tensor_error (im_segments (ib_finalize sha b)) e = None \<longleftrightarrow> 16 dvd te_offset e"
proof (cases "map_of (rev (map (\<lambda>s. (sg_id s, s)) (im_segments (ib_finalize sha b)))) (te_segment e)")
  case None
  then show ?thesis using fresh_alignment [OF run e] by (simp add: mapped_tensor_error_def dvd_eq_mod_eq_0)
next
  case (Some s)
  from segment_lookup [OF fresh_entries(3) [OF run ids] Some] fresh_tensor_in_segment [OF run ids e]
  have "te_offset e + te_byte_length e \<le> sg_byte_size s" by blast
  then have "\<not> min (te_offset e + te_byte_length e) (2 ^ 64 - 1) > sg_byte_size s" by linarith
  with Some show ?thesis using fresh_alignment [OF run e]
    by (simp only: mapped_tensor_error_def Let_def option.case if_False) (simp add: dvd_eq_mod_eq_0)
qed

lemma relabelled_hash:
  "compute_manifest_hash sha json (m\<lparr>mf_required_storage_abi := abi, mf_execution_plan := plan\<rparr>) = compute_manifest_hash sha json m"
  "build_compile_receipt (m\<lparr>mf_required_storage_abi := abi, mf_execution_plan := plan\<rparr>) = build_compile_receipt m"
  by (simp_all add: compute_manifest_hash_def fingerprint_def build_compile_receipt_def)

text \<open>C10: The hash of a manifest covers neither the execution plan nor the storage ABI.  A sealed image whose plan is
  replaced by any other plan opens with its old hash and receipt.  Relabelled as mapped without copies it opens
  exactly if every segment's size is a multiple of 4096 and every tensor's offset one of 16, which the builder never
  arranges.\<close>

theorem plan_and_abi_not_hashed:
  assumes "run_ops sha ops ib_new = Some b" and "distinct (begun ops)"
  shows "(\<exists>v. open_image False sha json (sealed_disk sha b)
      ((sealed_manifest sha json s ar plan b)\<lparr>mf_execution_plan := plan'\<rparr>)
      (Some (build_compile_receipt (sealed_manifest sha json s ar plan b))) = Inr v) \<and>
    ((\<exists>v. open_image False sha json (sealed_disk sha b)
      ((sealed_manifest sha json s ar plan b)\<lparr>mf_required_storage_abi := mapped_no_copy_v1, mf_execution_plan := plan'\<rparr>)
      (Some (build_compile_receipt (sealed_manifest sha json s ar plan b))) = Inr v) \<longleftrightarrow>
    list_all (\<lambda>s. 4096 dvd sg_byte_size s) (im_segments (ib_finalize sha b)) \<and>
    list_all (\<lambda>e. 16 dvd te_offset e) (im_tensor_table (ib_finalize sha b)))"
proof -
  let ?m = "sealed_manifest sha json s ar plan b" and ?d = "sealed_disk sha b"
  let ?r = "\<lambda>abi. ?m\<lparr>mf_required_storage_abi := abi, mf_execution_plan := plan'\<rparr>"
  have auth: "list_all (segment_authentic sha ?d) (mf_segments (?r abi))" for abi
    using sealed_file [OF assms(1)] by (fastforce simp: list_all_iff segment_authentic_def)
  have rc: "receipt_matches (build_compile_receipt ?m) (?r abi)" for abi
    using receipt_of_manifest [of "?r abi"] unfolding relabelled_hash .
  have hash: "mf_image_hash (?r abi) = compute_manifest_hash sha json (?r abi)" for abi
    unfolding relabelled_hash by simp
  have opens: "(\<exists>v. open_image False sha json ?d (?r abi) (Some (build_compile_receipt ?m)) = Inr v) \<longleftrightarrow> abi_ok ?d (?r abi)" for abi
    unfolding open_image_def option.case verify_manifest_ok using auth rc hash by blast
  have eq: "?m\<lparr>mf_execution_plan := plan'\<rparr> = ?r copied_v0"
    by (simp add: sealed_manifest_def finalize_manifest_def Let_def copied_v0_def)
  have "abi_ok ?d (?r copied_v0)"
    by (simp add: abi_ok_def is_valid_storage_abi_def copied_v0_def mapped_no_copy_v1_def)
  moreover have "abi_ok ?d (?r mapped_no_copy_v1) \<longleftrightarrow>
      list_all (\<lambda>s. 4096 dvd sg_byte_size s) (im_segments (ib_finalize sha b)) \<and>
      list_all (\<lambda>e. 16 dvd te_offset e) (im_tensor_table (ib_finalize sha b))"
    by (simp add: abi_ok_def list_all_iff mapped_segment_fresh [OF assms(1)] mapped_tensor_fresh [OF assms])
  ultimately show ?thesis unfolding eq opens by blast
qed

lemma plan_and_abi_not_hashed_witness:
  "\<exists>b v. run_ops (\<lambda>_. ''h'') two_segments ib_new = Some b \<and>
    open_image False (\<lambda>_. ''h'') (\<lambda>_. []) (sealed_disk (\<lambda>_. ''h'') b)
      ((sealed_manifest (\<lambda>_. ''h'') (\<lambda>_. []) () example_arch example_plan b)\<lparr>mf_execution_plan := assign_routes example_plan\<rparr>)
      (Some (build_compile_receipt (sealed_manifest (\<lambda>_. ''h'') (\<lambda>_. []) () example_arch example_plan b))) = Inr v"
proof -
  obtain b where b: "run_ops (\<lambda>_. ''h'') two_segments ib_new = Some b" using two_segments_run by blast
  have "distinct (begun two_segments)" by (simp add: two_segments_def)
  from plan_and_abi_not_hashed [OF b this, where json = "\<lambda>_. []" and s = "()" and ar = example_arch and plan = example_plan
      and plan' = "assign_routes example_plan"]
  show ?thesis using b by blast
qed

end
