(* ===== verification/ImageLease.thy ===== *)
theory ImageLease
  imports ImageReader
begin

text \<open>
  Leases: activation of a segment puts exactly its tensors into the array registry, dropping the lease takes exactly
  them out again, and what remains of an activation that fails.
\<close>

subsection \<open>Loading into the registry\<close>

lemma reg_insert_total:
  assumes ok: "reg_ok r" and room: "length (gr_slots r) < 2 ^ 32"
  shows "\<exists>h r'. reg_insert a r = Some (h, r') \<and> reg_get r h = None \<and> reg_get r' = (reg_get r)(h \<mapsto> a) \<and>
    reg_ok r' \<and> length (gr_slots r') \<le> length (gr_slots r) + 1"
proof -
  from reg_insert_ok [OF ok room, of a] obtain h r' where ins: "reg_insert a r = Some (h, r')" "reg_ok r'"
    "gr_slots r' = (if gr_freelist r = [] then gr_slots r @ [Some \<lparr>ae_array = a, ae_generation = 1\<rparr>]
      else (gr_slots r)[unat (last (gr_freelist r)) := Some \<lparr>ae_array = a, ae_generation = 1\<rparr>])"
    by (auto split: if_splits)
  from reg_get_insert [OF ok room, of a] ins(1) have "reg_get r h = None" "reg_get r' = (reg_get r)(h \<mapsto> a)" by auto
  moreover have "length (gr_slots r') \<le> length (gr_slots r) + 1" using ins(3) by (cases "gr_freelist r = []") simp_all
  ultimately show ?thesis using ins by blast
qed

text \<open>The loop over the tensors, given what each of them loads as.\<close>

lemma load_tensors_ok:
  assumes "reg_ok reg" and "length (gr_slots reg) + length ids \<le> 2 ^ 32"
    and "\<And>i. i \<in> set ids \<Longrightarrow> \<exists>e. load_tensor from_slice table bytes i = Inr (e, arr i) \<and> te_name e = name i"
  shows "\<exists>hs reg'. (\<forall>js. load_tensors from_slice table bytes (ids @ js) acc reg =
      load_tensors from_slice table bytes js (acc @ zip (map name ids) hs) reg') \<and>
    length hs = length ids \<and> reg_ok reg' \<and> distinct hs \<and> (\<forall>h \<in> set hs. reg_get reg h = None) \<and>
    map (reg_get reg') hs = map (Some \<circ> arr) ids \<and> (\<forall>h. h \<notin> set hs \<longrightarrow> reg_get reg' h = reg_get reg h)"
  using assms
proof (induction ids arbitrary: acc reg)
  case Nil
  then show ?case by auto
next
  case (Cons i ids)
  obtain e where e: "load_tensor from_slice table bytes i = Inr (e, arr i)" "te_name e = name i"
    using Cons.prems(3) by fastforce
  from reg_insert_total [OF Cons.prems(1), of "arr i"] Cons.prems(2) obtain h r' where
    ins: "reg_insert (arr i) reg = Some (h, r')" "reg_get reg h = None" "reg_get r' = (reg_get reg)(h \<mapsto> arr i)"
    "reg_ok r'" "length (gr_slots r') \<le> length (gr_slots reg) + 1" by auto
  have "length (gr_slots r') + length ids \<le> 2 ^ 32" using ins(5) Cons.prems(2) by simp
  from Cons.IH [OF ins(4) this, of "acc @ [(name i, h)]"] Cons.prems(3) obtain hs reg' where
    ih: "\<And>js. load_tensors from_slice table bytes (ids @ js) (acc @ [(name i, h)]) r' =
        load_tensors from_slice table bytes js ((acc @ [(name i, h)]) @ zip (map name ids) hs) reg'"
    "length hs = length ids" "reg_ok reg'" "distinct hs" "\<forall>k \<in> set hs. reg_get r' k = None"
    "map (reg_get reg') hs = map (Some \<circ> arr) ids" "\<forall>k. k \<notin> set hs \<longrightarrow> reg_get reg' k = reg_get r' k" by auto
  have new: "h \<notin> set hs" using ih(5) ins(3) by auto
  have "\<forall>k \<in> set (h # hs). reg_get reg k = None"
    using ih(5) ins(2,3) by (auto split: if_splits)
  moreover have "\<forall>k. k \<notin> set (h # hs) \<longrightarrow> reg_get reg' k = reg_get reg k" using ih(7) ins(3) by simp
  moreover have "map (reg_get reg') (h # hs) = map (Some \<circ> arr) (i # ids)" using ih(6,7) ins(3) new by simp
  moreover have "load_tensors from_slice table bytes ((i # ids) @ js) acc reg =
      load_tensors from_slice table bytes js (acc @ zip (map name (i # ids)) (h # hs)) reg'" for js
    using ih(1) [of js] e ins(1) by simp
  moreover have "length (h # hs) = length (i # ids)" "distinct (h # hs)" using ih(2,4) new by simp_all
  ultimately show ?case using ih(3) by blast
qed


subsection \<open>The tensors of a segment\<close>

text \<open>Every tensor a segment lists is in the table under its identifier and placed in that segment.\<close>

definition placed :: "tensor_entry list \<Rightarrow> string \<Rightarrow> nat list \<Rightarrow> bool" where
  "placed table sid ids \<longleftrightarrow> (\<forall>i \<in> set ids. i < length table \<and> te_segment (table ! i) = sid)"

definition placed_ok :: "image_builder \<Rightarrow> bool" where
  "placed_ok b \<longleftrightarrow> ib_next_tensor_id b = length (ib_tensors b) \<and>
     (\<forall>s \<in> set (ib_segments b). placed (ib_tensors b) (sg_id s) (sg_tensor_ids s)) \<and>
     (\<forall>s. ib_current_segment b = Some s \<longrightarrow> placed (ib_tensors b) (sb_id s) (sb_tensor_ids s))"

lemma placed_ok_flush: "placed_ok b \<Longrightarrow> placed_ok (flush_segment sha b)"
  by (auto simp: placed_ok_def flush_segment_def Let_def split: option.splits segment_kind.splits)

lemma placed_append: "placed t sid ids \<Longrightarrow> placed (t @ [e]) sid ids"
  by (auto simp: placed_def nth_append)

lemma placed_ok_op:
  assumes "placed_ok b" "run_op sha op b = Some b'"
  shows "placed_ok b'"
proof (cases op)
  case (BeginSegment i kind)
  with assms(2) have b': "b' = begin_segment sha i kind b" by simp
  show ?thesis using placed_ok_flush [OF assms(1), of sha]
    unfolding b' placed_ok_def begin_segment_def Let_def by (simp add: placed_def)
next
  case (AddTensor a)
  obtain s where s: "ib_current_segment b = Some s"
    using AddTensor assms(2) by (auto simp: add_tensor_def split: option.splits)
  obtain i where add: "add_tensor a b = Some (i, b')" using AddTensor assms(2) by auto
  define e where "e = last (ib_tensors b')"
  have e: "ib_tensors b' = ib_tensors b @ [e]" "te_segment e = sb_id s" "ib_segments b' = ib_segments b"
    "ib_next_tensor_id b' = ib_next_tensor_id b + 1"
    "map_option sb_id (ib_current_segment b') = Some (sb_id s)"
    "map_option sb_tensor_ids (ib_current_segment b') = Some (sb_tensor_ids s @ [ib_next_tensor_id b])"
    using add s by (auto simp: add_tensor_def Let_def e_def)
  have "placed (ib_tensors b @ [e]) (sb_id s) (sb_tensor_ids s @ [length (ib_tensors b)])"
    using assms(1) s e(2) by (auto simp: placed_ok_def placed_def nth_append)
  moreover have "ib_next_tensor_id b = length (ib_tensors b)" using assms(1) by (simp add: placed_ok_def)
  ultimately have "placed (ib_tensors b') (sb_id s') (sb_tensor_ids s')" if "ib_current_segment b' = Some s'" for s'
    using e(1,5,6) that by simp
  moreover have "placed (ib_tensors b') (sg_id t) (sg_tensor_ids t)" if "t \<in> set (ib_segments b')" for t
    using assms(1) that e(1,3) by (simp add: placed_ok_def placed_append)
  moreover have "ib_next_tensor_id b' = length (ib_tensors b')" using assms(1) e(1,4) by (simp add: placed_ok_def)
  ultimately show ?thesis unfolding placed_ok_def by blast
next
  case (AddAlias n i r)
  with assms show ?thesis by (auto simp: placed_ok_def add_alias_def)
qed

lemma placed_ok_run: "run_ops sha ops b = Some b' \<Longrightarrow> placed_ok b \<Longrightarrow> placed_ok b'"
  by (induction sha ops b rule: run_ops.induct) (auto split: option.splits dest: placed_ok_op)

lemma fresh_placed:
  assumes "run_ops sha ops ib_new = Some b" "s \<in> set (im_segments (ib_finalize sha b))"
  shows "placed (im_tensor_table (ib_finalize sha b)) (sg_id s) (sg_tensor_ids s)"
proof -
  have "placed_ok ib_new" by (simp add: placed_ok_def ib_new_def)
  then have "placed_ok (flush_segment sha b)" using placed_ok_run [OF assms(1)] placed_ok_flush by blast
  with assms(2) show ?thesis by (simp add: placed_ok_def ib_finalize_def Let_def)
qed

lemma find_distinct: "distinct (map f xs) \<Longrightarrow> x \<in> set xs \<Longrightarrow> f x = y \<Longrightarrow> find (\<lambda>z. f z = y) xs = Some x"
  by (induction xs) (auto simp: image_iff)

text \<open>What a tensor of a segment of a fresh image loads as.\<close>

lemma fresh_load_tensor:
  assumes run: "run_ops sha ops ib_new = Some b" and ids: "distinct (begun ops)"
    and s: "s \<in> set (im_segments (ib_finalize sha b))" and i: "i \<in> set (sg_tensor_ids s)"
    and p: "sealed_disk sha b (sg_filename s) = Some p"
  shows "i < length (im_tensor_table (ib_finalize sha b)) \<and>
    find (\<lambda>e. te_id e = i) (im_tensor_table (ib_finalize sha b)) = Some (im_tensor_table (ib_finalize sha b) ! i) \<and>
    load_tensor from_slice (im_tensor_table (ib_finalize sha b)) p i =
      (case dtype_to_array from_slice (added ops ! i) (te_storage_dtype (im_tensor_table (ib_finalize sha b) ! i))
          (te_physical_shape (im_tensor_table (ib_finalize sha b) ! i)) of
        Inl er \<Rightarrow> Inl er | Inr a \<Rightarrow> Inr (im_tensor_table (ib_finalize sha b) ! i, a))"
proof -
  let ?t = "im_tensor_table (ib_finalize sha b)"
  let ?ps = "zip (map sg_id (im_segments (ib_finalize sha b))) (im_payloads (ib_finalize sha b))"
  note fr = fresh_entries [OF run ids]
  have pl: "i < length ?t" "te_segment (?t ! i) = sg_id s"
    using fresh_placed [OF run s] i by (simp_all add: placed_def)
  have "length ?t = length (added ops)" using fr(1) by (rule list_all2_lengthD)
  moreover have "te_id (?t ! i) = map te_id ?t ! i" using pl(1) by simp
  ultimately have id: "te_id (?t ! i) = i" using pl(1) unfolding fr(2) by simp
  have "distinct (map te_id ?t)" unfolding fr(2) by simp
  from find_distinct [OF this nth_mem [OF pl(1)] id] have found: "find (\<lambda>e. te_id e = i) ?t = Some (?t ! i)" .
  from sealed_file [OF run s] fr(3) p have "map_of ?ps (sg_id s) = Some p" by auto
  moreover have "entry_holds ?ps (?t ! i) (added ops ! i)" using fr(1) pl(1) by (simp add: list_all2_conv_all_nth)
  ultimately have "slice_tensor_bytes p (?t ! i) = Inr (added ops ! i)"
    using pl(2) by (auto simp: entry_holds_def slice_tensor_bytes_def)
  with found pl(1) show ?thesis by (simp add: load_tensor_def)
qed


subsection \<open>Leases\<close>



lemma layer_0_id: "layer_segment_id 0 = ''layer_0''"
  by (simp add: layer_segment_id_def dec.simps digit_def)


text \<open>An activation that fails on a tensor after others were loaded returns an error and no lease, and leaves the
  arrays loaded so far in the registry, where nobody holds their handles.\<close>

theorem failed_activation_leaks:
  assumes "run_ops sha ops ib_new = Some b" and "distinct (begun ops)"
    and "s \<in> set (im_segments (ib_finalize sha b))" and "sg_id s = layer_segment_id layer"
    and "sg_tensor_ids s = ids @ k # js" and "reg_reach reg" and "length (gr_slots reg) + length ids \<le> 2 ^ 32"
    and "\<And>i. i \<in> set ids \<Longrightarrow>
      dtype_to_array from_slice (added ops ! i) (te_storage_dtype (im_tensor_table (ib_finalize sha b) ! i))
        (te_physical_shape (im_tensor_table (ib_finalize sha b) ! i)) = Inr (arr i)"
    and "dtype_to_array from_slice (added ops ! k) (te_storage_dtype (im_tensor_table (ib_finalize sha b) ! k))
        (te_physical_shape (im_tensor_table (ib_finalize sha b) ! k)) = Inl er"
  shows "\<exists>reg'. activate_layer from_slice (sealed_disk sha b) (sealed_manifest sha json ident ar plan b) layer reg =
      Some (Inl er, reg') \<and> handle_count reg' = handle_count reg + length ids"
proof -
  let ?t = "im_tensor_table (ib_finalize sha b)"
  obtain p where p: "sealed_disk sha b (sg_filename s) = Some p" using sealed_file [OF assms(1,3)] by blast
  note tensor = fresh_load_tensor [OF assms(1-3) _ p]
  have found: "find (\<lambda>s. sg_id s = layer_segment_id layer) (im_segments (ib_finalize sha b)) = Some s"
    by (rule find_distinct [OF fresh_entries(3) [OF assms(1,2)] assms(3,4)])
  have "\<exists>e. load_tensor from_slice ?t p i = Inr (e, arr i) \<and> te_name e = te_name (?t ! i)" if "i \<in> set ids" for i
    using tensor [of i from_slice] assms(5) assms(8) [OF that] that by simp
  from load_tensors_ok [OF reg_reach_ok [OF assms(6)] assms(7) this, of "[]"] obtain hs reg' where
    load: "\<And>js. load_tensors from_slice ?t p (ids @ js) [] reg =
      load_tensors from_slice ?t p js (zip (map (\<lambda>i. te_name (?t ! i)) ids) hs) reg'"
    and hs: "length hs = length ids" "reg_ok reg'" "distinct hs" "\<forall>h \<in> set hs. reg_get reg h = None"
      "map (reg_get reg') hs = map (Some \<circ> arr) ids" "\<forall>h. h \<notin> set hs \<longrightarrow> reg_get reg' h = reg_get reg h"
    by auto
  have "load_tensor from_slice ?t p k = Inl er" using tensor [of k from_slice] assms(5,9) by simp
  with load [of "k # js"] have "activate_layer from_slice (sealed_disk sha b) (sealed_manifest sha json ident ar plan b)
      layer reg = Some (Inl er, reg')"
    by (simp add: activate_layer_def Let_def found p assms(5))
  moreover have "dom (reg_get reg') = dom (reg_get reg) \<union> set hs"
  proof -
    have "reg_get reg' h \<noteq> None" if "h \<in> set hs" for h
    proof -
      have "reg_get reg' h \<in> set (map (reg_get reg') hs)" using that by simp
      then show ?thesis unfolding hs(5) by auto
    qed
    then have "h \<in> dom (reg_get reg') \<longleftrightarrow> h \<in> dom (reg_get reg) \<union> set hs" for h
      using hs(6) by (cases "h \<in> set hs") (auto simp: domIff)
    then show ?thesis by blast
  qed
  moreover have "dom (reg_get reg) \<inter> set hs = {}" using hs(4) by auto
  ultimately show ?thesis
    using handle_count_dom [OF reg_reach_ok [OF assms(6)]] handle_count_dom [OF hs(2)] hs(1,3)
    by (simp add: card_Un_disjoint distinct_card)
qed

definition half_segment :: "builder_op list" where
  "half_segment = [BeginSegment ''layer_0'' (LayerSegment 0), AddTensor (tensor_of_bytes [4]),
     AddTensor ((tensor_of_bytes [5, 6])\<lparr>ta_storage_dtype := ''F16''\<rparr>)]"

text \<open>Half precision tensors are accepted when an image is compiled and when its layout is validated, but no array can
  be made of them.\<close>

lemma f16_compiles_but_does_not_load:
  "dtype_ok ''F16'' \<and> element_bytes ''F16'' = Some 2 \<and>
    list_ex (\<lambda>d. d = ''F16'') (sa_supported_physical_dtypes mapped_no_copy_spec) \<and>
    dtype_to_array from_slice bytes ''F16'' dims = Inl (UnsupportedStorageDtype ''F16'')"
  by (simp add: dtype_ok_def element_bytes_def mapped_no_copy_spec_def dtype_to_array_def)

lemma half_segment_image:
  "run_ops sha half_segment ib_new = Some b \<Longrightarrow>
    map (\<lambda>s. (sg_id s, sg_tensor_ids s)) (im_segments (ib_finalize sha b)) = [(''layer_0'', [0, 1])] \<and>
    map (\<lambda>e. (te_storage_dtype e, te_physical_shape e)) (im_tensor_table (ib_finalize sha b)) = [(''U8'', []), (''F16'', [])]"
  by (auto simp: half_segment_def begin_segment_def add_tensor_def flush_segment_def ib_finalize_def ib_new_def
      tensor_of_bytes_def Let_def numeral_eq_Suc)

lemma failed_activation_leaks_witness:
  "\<exists>b reg'. run_ops (\<lambda>_. ''h'') half_segment ib_new = Some b \<and>
    activate_layer (\<lambda>d _. d) (sealed_disk (\<lambda>_. ''h'') b)
      (sealed_manifest (\<lambda>_. ''h'') (\<lambda>_. []) () example_arch example_plan b) 0 reg_new =
        Some (Inl (UnsupportedStorageDtype ''F16''), reg') \<and>
    handle_count reg' = 1"
proof -
  obtain b where b: "run_ops (\<lambda>_. ''h'') half_segment ib_new = Some b"
    by (simp add: half_segment_def add_tensor_def begin_segment_def Let_def)
  note im = half_segment_image [OF b]
  from im obtain s where s: "im_segments (ib_finalize (\<lambda>_. ''h'') b) = [s]" "sg_id s = layer_segment_id 0"
    "sg_tensor_ids s = [0] @ 1 # []" unfolding layer_0_id by auto
  from im obtain e0 e1 where t: "im_tensor_table (ib_finalize (\<lambda>_. ''h'') b) = [e0, e1]"
    "te_storage_dtype e0 = ''U8''" "te_storage_dtype e1 = ''F16''" by auto
  have "distinct (begun half_segment)" "s \<in> set (im_segments (ib_finalize (\<lambda>_. ''h'') b))"
    using s(1) by (simp_all add: half_segment_def)
  moreover have "length (gr_slots (reg_new :: array_data array_registry)) + length [0 :: nat] \<le> 2 ^ 32"
    by (simp add: reg_new_def)
  moreover have "dtype_to_array (\<lambda>d _. d) (added half_segment ! i) (te_storage_dtype (im_tensor_table (ib_finalize (\<lambda>_. ''h'') b) ! i))
      (te_physical_shape (im_tensor_table (ib_finalize (\<lambda>_. ''h'') b) ! i)) = Inr (DataU8 (added half_segment ! i))"
    if "i \<in> set [0]" for i
    using that by (simp add: t dtype_to_array_def)
  moreover have "dtype_to_array (\<lambda>d _. d) (added half_segment ! 1) (te_storage_dtype (im_tensor_table (ib_finalize (\<lambda>_. ''h'') b) ! 1))
      (te_physical_shape (im_tensor_table (ib_finalize (\<lambda>_. ''h'') b) ! 1)) = Inl (UnsupportedStorageDtype ''F16'')"
    by (simp add: t dtype_to_array_def)
  ultimately obtain reg' where "activate_layer (\<lambda>d _. d) (sealed_disk (\<lambda>_. ''h'') b)
      (sealed_manifest (\<lambda>_. ''h'') (\<lambda>_. []) () example_arch example_plan b) 0 reg_new =
        Some (Inl (UnsupportedStorageDtype ''F16''), reg')"
    "handle_count reg' = handle_count (reg_new :: array_data array_registry) + length [0 :: nat]"
    using failed_activation_leaks [OF b _ _ s(2,3) reg_start, of "\<lambda>d _. d" "\<lambda>i. DataU8 (added half_segment ! i)"
      "UnsupportedStorageDtype ''F16''" "\<lambda>_. []" "()" example_arch example_plan] by blast
  moreover have "handle_count (reg_new :: array_data array_registry) = 0" by (simp add: handle_count_def reg_new_def)
  ultimately show ?thesis using b by auto
qed

end
