(* ===== verification/TransformPass.thy ===== *)
theory TransformPass
  imports Prelude
begin

text \<open>
  The pass framework of \<open>compiler/pass.rs\<close>: passes over an intermediate representation, their receipts, and the pipeline
  that applies them round by round until a round rewrites nothing.  Durations are left out.  The locale
  \<open>sound_passes\<close> states what a pipeline needs of its passes to preserve a view of the representation.
\<close>

record pass_identity =
  pi_name :: string
  pi_version :: string
  pi_implementation_digest :: string

record 'note transform_receipt =
  tr_pass :: pass_identity
  tr_input_digest :: string
  tr_output_digest :: string
  tr_rewrites_applied :: nat
  tr_rewrites_rejected :: nat
  tr_rewrite_descriptions :: "'note list"
  tr_reached_fixpoint :: bool
  tr_equivalence_claimed :: bool
  tr_equivalence_evidence :: "string option"

record ('ir, 'note) transform_pass =
  tp_identity :: pass_identity
  tp_applies_to :: "'ir \<Rightarrow> bool"
  tp_apply :: "'ir \<Rightarrow> string \<Rightarrow> 'ir \<times> 'note transform_receipt"

definition noop_pass :: "('ir, 'note) transform_pass" where
  "noop_pass = (
     let identity = \<lparr>pi_name = ''noop'', pi_version = ''1.0.0'', pi_implementation_digest = ''''\<rparr> in
     \<lparr>tp_identity = identity, tp_applies_to = (\<lambda>_. True),
      tp_apply = (\<lambda>ir digest. (ir, \<lparr>tr_pass = identity, tr_input_digest = digest, tr_output_digest = digest,
        tr_rewrites_applied = 0, tr_rewrites_rejected = 0, tr_rewrite_descriptions = [], tr_reached_fixpoint = True,
        tr_equivalence_claimed = True, tr_equivalence_evidence = None\<rparr>))\<rparr>)"

text \<open>The state of \<open>run\<close>: the current representation, its digest, the receipts and whether the round changed anything.\<close>

type_synonym ('ir, 'note) pipeline_state = "'ir \<times> string \<times> 'note transform_receipt list \<times> bool"

definition run_pass :: "('ir, 'note) transform_pass \<Rightarrow> ('ir, 'note) pipeline_state \<Rightarrow> ('ir, 'note) pipeline_state" where
  "run_pass p = (\<lambda>(cur, digest, receipts, changed).
     if \<not> tp_applies_to p cur then (cur, digest, receipts, changed)
     else (let (nxt, r) = tp_apply p cur digest in
       (nxt, tr_output_digest r, receipts @ [r], changed \<or> tr_rewrites_applied r > 0)))"

definition mark_fixpoint :: "'note transform_receipt list \<Rightarrow> 'note transform_receipt list" where
  "mark_fixpoint rs = (if rs = [] then [] else butlast rs @ [(last rs)\<lparr>tr_reached_fixpoint := True\<rparr>])"

text \<open>\<open>for _iteration in 0..max_iterations\<close> with its early exit.\<close>

fun run_rounds ::
  "('ir, 'note) transform_pass list \<Rightarrow> nat \<Rightarrow> 'ir \<Rightarrow> string \<Rightarrow> 'note transform_receipt list \<Rightarrow> 'ir \<times> 'note transform_receipt list" where
  "run_rounds passes 0 cur digest receipts = (cur, receipts)"
| "run_rounds passes (Suc n) cur digest receipts =
     (let (cur', digest', receipts', changed) = fold run_pass passes (cur, digest, receipts, False) in
      if \<not> changed then (cur', mark_fixpoint receipts')
      else run_rounds passes n cur' digest' receipts')"

record ('ir, 'note) pipeline =
  tl_passes :: "('ir, 'note) transform_pass list"
  tl_max_iterations :: nat

definition pipeline_new :: "('ir, 'note) transform_pass list \<Rightarrow> ('ir, 'note) pipeline" where
  "pipeline_new passes = \<lparr>tl_passes = passes, tl_max_iterations = 20\<rparr>"

definition with_max_iterations :: "nat \<Rightarrow> ('ir, 'note) pipeline \<Rightarrow> ('ir, 'note) pipeline" where
  "with_max_iterations n p = p\<lparr>tl_max_iterations := n\<rparr>"

definition run_pipeline :: "('ir, 'note) pipeline \<Rightarrow> 'ir \<Rightarrow> string \<Rightarrow> 'ir \<times> 'note transform_receipt list" where
  "run_pipeline p ir digest = run_rounds (tl_passes p) (tl_max_iterations p) ir digest []"

subsection \<open>Receipts\<close>

lemma length_mark_fixpoint [simp]: "length (mark_fixpoint rs) = length rs"
  by (cases rs rule: rev_cases) (simp_all add: mark_fixpoint_def)

lemma round_receipts:
  "fold run_pass passes (cur, digest, receipts, ch) = (cur', digest', receipts', ch') \<Longrightarrow>
    length receipts' \<le> length receipts + length passes"
proof (induction passes arbitrary: cur digest receipts ch)
  case (Cons p passes)
  obtain c d r x where s: "run_pass p (cur, digest, receipts, ch) = (c, d, r, x)" by (metis prod_cases4)
  then have "length r \<le> length receipts + 1" by (auto simp: run_pass_def split: if_splits prod.splits)
  moreover have "length receipts' \<le> length r + length passes" using Cons.prems s by (intro Cons.IH) simp
  ultimately show ?case by simp
qed simp

lemma rounds_receipts:
  "length (snd (run_rounds passes n cur digest receipts)) \<le> length receipts + n * length passes"
proof (induction n arbitrary: cur digest receipts)
  case (Suc n)
  obtain c d r x where s: "fold run_pass passes (cur, digest, receipts, False) = (c, d, r, x)" by (metis prod_cases4)
  note round_receipts [OF s]
  with Suc.IH [of c d r] s show ?case by (auto simp: Let_def)
qed simp

subsection \<open>Sound passes\<close>

locale sound_passes =
  fixes view :: "'ir \<Rightarrow> 'v" and sound :: "('ir, 'note) transform_pass \<Rightarrow> bool"
  assumes apply_view: "sound p \<Longrightarrow> tp_applies_to p ir \<Longrightarrow> view (fst (tp_apply p ir digest)) = view ir"
begin

lemma round_view:
  "list_all sound passes \<Longrightarrow> view (fst (fold run_pass passes s)) = view (fst s)"
proof (induction passes arbitrary: s)
  case (Cons p passes)
  have "view (fst (run_pass p s)) = view (fst s)"
    using apply_view [of p] Cons.prems by (auto simp: run_pass_def split: prod.splits) (metis fst_conv)
  with Cons show ?case by simp
qed simp

lemma rounds_view:
  "list_all sound passes \<Longrightarrow> view (fst (run_rounds passes n cur digest receipts)) = view cur"
proof (induction n arbitrary: cur digest receipts)
  case (Suc n)
  obtain c d r x where s: "fold run_pass passes (cur, digest, receipts, False) = (c, d, r, x)" by (metis prod_cases4)
  have "view c = view cur" using round_view [OF Suc.prems, of "(cur, digest, receipts, False)"] s by simp
  with Suc s show ?case by (simp add: Let_def)
qed simp

lemma pipeline_view: "list_all sound (tl_passes p) \<Longrightarrow> view (fst (run_pipeline p ir digest)) = view ir"
  by (simp add: run_pipeline_def rounds_view)

end

end
