(* ===== verification/AneFusion.thy ===== *)
theory AneFusion
  imports ScheduleCompiler TransformPass
begin

text \<open>
  The fusion pass of \<open>compiler/ane/fusion.rs\<close>: runs of adjacent regions on the Neural Engine are merged into one region.
  Regions are those of the schedule compiler; the descriptions of the receipt are values instead of texts.
\<close>

record ane_fusion_config =
  fc_max_ops_per_region :: "nat option"
  fc_min_ops_to_fuse :: nat
  fc_bridge_singletons :: bool

definition default_fusion_config :: ane_fusion_config where
  "default_fusion_config = \<lparr>fc_max_ops_per_region = None, fc_min_ops_to_fuse = 2, fc_bridge_singletons = True\<rparr>"

definition ane_id :: backend_id where "ane_id = 3"

record ane_run =
  rn_start :: nat
  rn_end :: nat
  rn_len :: nat

text \<open>The loop of \<open>find_ane_runs\<close> over the regions with its index, the runs found and the start of the open run.\<close>

fun scan_runs :: "nat \<Rightarrow> scheduled_region list \<Rightarrow> nat option \<Rightarrow> ane_run list \<Rightarrow> nat option \<times> ane_run list" where
  "scan_runs i [] run_start runs = (run_start, runs)"
| "scan_runs i (r # rs) run_start runs =
     (case (sr_selected_backend r = ane_id, run_start) of
        (True, None) \<Rightarrow> scan_runs (i + 1) rs (Some i) runs
      | (False, Some start) \<Rightarrow> scan_runs (i + 1) rs None (runs @ [\<lparr>rn_start = start, rn_end = i - 1, rn_len = i - start\<rparr>])
      | _ \<Rightarrow> scan_runs (i + 1) rs run_start runs)"

definition raw_ane_runs :: "scheduled_region list \<Rightarrow> ane_run list" where
  "raw_ane_runs regions =
     (case scan_runs 0 regions None [] of
        (Some start, runs) \<Rightarrow> runs @ [\<lparr>rn_start = start, rn_end = length regions - 1, rn_len = length regions - start\<rparr>]
      | (None, runs) \<Rightarrow> runs)"

text \<open>The loop over the runs between the first and the last; \<open>next.len()\<close> is the length of the following run.\<close>

fun bridge_loop :: "ane_run list \<Rightarrow> ane_run list \<Rightarrow> ane_run list" where
  "bridge_loop result (cur # nxt # rest) =
     (let prev = last result in
      if rn_len cur = 1 \<and> rn_len prev > 0 \<and> rn_len nxt > 0
      then bridge_loop (butlast result @ [\<lparr>rn_start = rn_start prev, rn_end = rn_end cur, rn_len = rn_len prev + 1\<rparr>]) (nxt # rest)
      else bridge_loop (result @ [cur]) (nxt # rest))"
| "bridge_loop result [final] = (if rn_end (last result) \<noteq> rn_end final then result @ [final] else result)"
| "bridge_loop result [] = result"

definition bridge_singleton_runs :: "ane_run list \<Rightarrow> ane_run list" where
  "bridge_singleton_runs runs = (if length runs < 3 then runs else bridge_loop [hd runs] (tl runs))"

definition find_ane_runs :: "ane_fusion_config \<Rightarrow> scheduled_region list \<Rightarrow> ane_run list" where
  "find_ane_runs cfg regions = (
     let runs = raw_ane_runs regions in
     if fc_bridge_singletons cfg \<and> length runs \<ge> 2 then bridge_singleton_runs runs else runs)"

definition fused_region_id :: "nat \<Rightarrow> nat \<Rightarrow> nat" where
  "fused_region_id a b = unat ((word_of_nat a * 1000003 XOR (word_of_nat b + 0x542b6d8b)) :: u64)"

text \<open>\<open>regions[start..=end]\<close>.\<close>

definition run_regions :: "scheduled_region list \<Rightarrow> ane_run \<Rightarrow> scheduled_region list" where
  "run_regions regions run = take (rn_end run + 1 - rn_start run) (drop (rn_start run) regions)"

definition merge_run :: "scheduled_region list \<Rightarrow> ane_run \<Rightarrow> scheduled_region" where
  "merge_run regions run = (
     let rs = run_regions regions run; first = regions ! rn_start run; lst = regions ! rn_end run in
     \<lparr>sr_region_id = fused_region_id (sr_region_id first) (sr_region_id lst),
      sr_name = ''ane_fused_r'' @ dec (sr_region_id first) @ ''-r'' @ dec (sr_region_id lst),
      sr_operations = concat (map sr_operations rs), sr_selected_backend = ane_id,
      sr_physical_tensors = concat (map sr_physical_tensors rs),
      sr_inputs = sr_inputs first, sr_outputs = sr_outputs lst, sr_dependencies = sr_dependencies first,
      sr_fusions = map (\<lambda>r. \<lparr>fb_operations = sr_operations r, fb_fused_family = MlpBlock, fb_qualified = True,
        fb_backend = Some ane_id\<rparr>) (tl rs),
      sr_state_effects = concat (map sr_state_effects rs),
      sr_temp_memory_bytes = sum_list (map sr_temp_memory_bytes rs), sr_is_fence = False\<rparr>)"

datatype fusion_note = FusedRegions nat nat nat nat | SkippedFusion nat nat

fun fuse_runs ::
  "ane_fusion_config \<Rightarrow> scheduled_region list \<Rightarrow> nat \<Rightarrow> ane_run list \<Rightarrow> scheduled_region list \<times> fusion_note list" where
  "fuse_runs cfg regions i [] = (drop i regions, [])"
| "fuse_runs cfg regions i (run # runs) =
     (let before = take (rn_start run - i) (drop i regions);
          (rest, notes) = fuse_runs cfg regions (rn_end run + 1) runs in
      if rn_len run \<ge> fc_min_ops_to_fuse cfg then
        (let fused = merge_run regions run in
         (before @ fused # rest, FusedRegions (rn_start run) (rn_end run) (rn_len run) (sr_region_id fused) # notes))
      else (before @ run_regions regions run @ rest,
        (if rn_len run > 1 then [SkippedFusion (rn_len run) (fc_min_ops_to_fuse cfg)] else []) @ notes))"

definition fuse :: "ane_fusion_config \<Rightarrow> scheduled_region list \<Rightarrow> scheduled_region list \<times> fusion_note list" where
  "fuse cfg regions = (if regions = [] then ([], []) else fuse_runs cfg regions 0 (find_ane_runs cfg regions))"

definition ane_fusion_pass :: "ane_fusion_config \<Rightarrow> (scheduled_region list, fusion_note) transform_pass" where
  "ane_fusion_pass cfg = (
     let identity = \<lparr>pi_name = ''ane:fusion'', pi_version = ''1.0.0'',
           pi_implementation_digest = ''ane-fusion-v1-ops='' @
             (case fc_max_ops_per_region cfg of None \<Rightarrow> ''None'' | Some n \<Rightarrow> ''Some('' @ dec n @ '')'')\<rparr> in
     \<lparr>tp_identity = identity,
      tp_applies_to = list_ex (\<lambda>r. sr_selected_backend r = ane_id),
      tp_apply = (\<lambda>regions digest.
        let (fused, notes) = fuse cfg regions in
        (fused, \<lparr>tr_pass = identity, tr_input_digest = digest,
           tr_output_digest = ''ane-fused:'' @ dec (length regions) @ ''->'' @ dec (length fused),
           tr_rewrites_applied = length (filter (\<lambda>n. case n of FusedRegions _ _ _ _ \<Rightarrow> True | _ \<Rightarrow> False) notes),
           tr_rewrites_rejected = length (filter (\<lambda>n. case n of SkippedFusion _ _ \<Rightarrow> True | _ \<Rightarrow> False) notes),
           tr_rewrite_descriptions = notes, tr_reached_fixpoint = True, tr_equivalence_claimed = True,
           tr_equivalence_evidence = None\<rparr>))\<rparr>)"

record ane_fused_artifact =
  af_region_name :: string
  af_operation_ids :: "nat list"

definition build_fused_ane_regions :: "scheduled_region list \<Rightarrow> ane_fused_artifact list" where
  "build_fused_ane_regions regions =
     map (\<lambda>r. \<lparr>af_region_name = sr_name r, af_operation_ids = sr_operations r\<rparr>)
       (filter (\<lambda>r. sr_selected_backend r = 3 \<and> length (sr_operations r) > 1) (fst (fuse default_fusion_config regions)))"


subsection \<open>Runs are disjoint and in order\<close>

text \<open>The runs lie between \<open>lo\<close> and \<open>n\<close>, one after the other.\<close>

fun runs_ok :: "nat \<Rightarrow> nat \<Rightarrow> ane_run list \<Rightarrow> bool" where
  "runs_ok lo n [] \<longleftrightarrow> True"
| "runs_ok lo n (r # rs) \<longleftrightarrow> lo \<le> rn_start r \<and> rn_start r \<le> rn_end r \<and> rn_end r < n \<and> runs_ok (rn_end r + 1) n rs"

lemma runs_ok_snoc:
  "runs_ok lo n (rs @ [r]) \<longleftrightarrow> runs_ok lo n rs \<and>
    (if rs = [] then lo else rn_end (last rs) + 1) \<le> rn_start r \<and> rn_start r \<le> rn_end r \<and> rn_end r < n"
  by (induction rs arbitrary: lo) auto

lemma runs_ok_mono: "runs_ok lo n rs \<Longrightarrow> lo' \<le> lo \<Longrightarrow> runs_ok lo' n rs"
  by (cases rs) auto

lemma runs_ok_append:
  "runs_ok lo n (xs @ ys) \<longleftrightarrow> runs_ok lo n xs \<and> runs_ok (if xs = [] then lo else rn_end (last xs) + 1) n ys"
  by (induction xs arbitrary: lo) auto

definition run_on_ane :: "scheduled_region list \<Rightarrow> ane_run \<Rightarrow> bool" where
  "run_on_ane regions run \<longleftrightarrow> (\<forall>j. rn_start run \<le> j \<and> j \<le> rn_end run \<longrightarrow> sr_selected_backend (regions ! j) = ane_id)"

text \<open>The state of the scan after \<open>i\<close> regions.\<close>

definition scan_ok :: "scheduled_region list \<Rightarrow> nat \<Rightarrow> nat option \<Rightarrow> ane_run list \<Rightarrow> bool" where
  "scan_ok regions i run_start runs \<longleftrightarrow> runs_ok 0 i runs \<and> list_all (run_on_ane regions) runs \<and>
     (\<forall>s. run_start = Some s \<longrightarrow> s < i \<and> (if runs = [] then 0 else rn_end (last runs) + 1) \<le> s \<and>
       (\<forall>j. s \<le> j \<and> j < i \<longrightarrow> sr_selected_backend (regions ! j) = ane_id))"

lemma runs_ok_bound: "runs_ok lo n rs \<Longrightarrow> n \<le> m \<Longrightarrow> runs_ok lo m rs"
  by (induction rs arbitrary: lo) auto

lemma last_run_bound: "runs_ok lo n rs \<Longrightarrow> rs \<noteq> [] \<Longrightarrow> rn_end (last rs) < n"
  by (induction rs arbitrary: lo) auto

lemma scan_step:
  assumes ok: "scan_ok regions i s runs"
  shows "sr_selected_backend (regions ! i) = ane_id \<Longrightarrow> s = None \<Longrightarrow> scan_ok regions (i + 1) (Some i) runs"
    "sr_selected_backend (regions ! i) = ane_id \<Longrightarrow> s = Some b \<Longrightarrow> scan_ok regions (i + 1) s runs"
    "s = Some b \<Longrightarrow> scan_ok regions (i + 1) None (runs @ [\<lparr>rn_start = b, rn_end = i - 1, rn_len = i - b\<rparr>])"
    "s = None \<Longrightarrow> scan_ok regions (i + 1) None runs"
proof -
  have r: "runs_ok 0 i runs" "runs_ok 0 (i + 1) runs" using ok runs_ok_bound [of 0 i runs "i + 1"] by (simp_all add: scan_ok_def)
  show "scan_ok regions (i + 1) (Some i) runs" if "sr_selected_backend (regions ! i) = ane_id" "s = None"
    using ok that r last_run_bound [OF r(1)] by (auto simp: scan_ok_def Suc_le_eq less_Suc_eq)
  show "scan_ok regions (i + 1) s runs" if "sr_selected_backend (regions ! i) = ane_id" "s = Some b"
    using ok that r by (auto simp: scan_ok_def less_Suc_eq)
  show "scan_ok regions (i + 1) None runs" if "s = None" using ok r that by (simp add: scan_ok_def)
  show "scan_ok regions (i + 1) None (runs @ [\<lparr>rn_start = b, rn_end = i - 1, rn_len = i - b\<rparr>])" if "s = Some b"
  proof -
    have b: "b < i" "(if runs = [] then 0 else rn_end (last runs) + 1) \<le> b"
      "\<forall>j. b \<le> j \<and> j < i \<longrightarrow> sr_selected_backend (regions ! j) = ane_id" using ok that by (simp_all add: scan_ok_def)
    have "j \<le> i - 1 \<longleftrightarrow> j < i" for j using b(1) by linarith
    with b(3) have "run_on_ane regions \<lparr>rn_start = b, rn_end = i - 1, rn_len = i - b\<rparr>" by (simp add: run_on_ane_def)
    moreover have "runs_ok 0 (i + 1) (runs @ [\<lparr>rn_start = b, rn_end = i - 1, rn_len = i - b\<rparr>])"
      unfolding runs_ok_snoc using r(2) b by auto
    ultimately show ?thesis using ok by (simp add: scan_ok_def)
  qed
qed

lemma scan_runs_ok:
  "scan_ok regions i s runs \<Longrightarrow> drop i regions = rs \<Longrightarrow> i \<le> length regions \<Longrightarrow> scan_runs i rs s runs = (s', runs') \<Longrightarrow>
    scan_ok regions (length regions) s' runs'"
proof (induction rs arbitrary: i s runs)
  case Nil
  then have "i = length regions" by simp
  with Nil show ?case by simp
next
  case (Cons r rs)
  have i: "i < length regions" using Cons.prems(2) by (cases "i < length regions") simp_all
  then have d: "regions ! i = r" "drop (i + 1) regions = rs" using Cons.prems(2) by (simp_all add: Cons_nth_drop_Suc [symmetric])
  note step = scan_step [OF Cons.prems(1), unfolded d(1)]
  have le: "i + 1 \<le> length regions" using i by simp
  show ?case
  proof (cases s)
    case None
    show ?thesis
    proof (cases "sr_selected_backend r = ane_id")
      case True
      with None Cons.prems(4) have "scan_runs (i + 1) rs (Some i) runs = (s', runs')" by simp
      with Cons.IH [OF step(1) [OF True None] d(2) le] show ?thesis by blast
    next
      case False
      with None Cons.prems(4) have "scan_runs (i + 1) rs None runs = (s', runs')" by simp
      with Cons.IH [OF step(4) [OF None] d(2) le] show ?thesis by blast
    qed
  next
    case (Some b)
    show ?thesis
    proof (cases "sr_selected_backend r = ane_id")
      case True
      with Some Cons.prems(4) have "scan_runs (i + 1) rs s runs = (s', runs')" by simp
      with Cons.IH [OF step(2) [OF True Some] d(2) le] show ?thesis by blast
    next
      case False
      with Some Cons.prems(4) have
        "scan_runs (i + 1) rs None (runs @ [\<lparr>rn_start = b, rn_end = i - 1, rn_len = i - b\<rparr>]) = (s', runs')" by simp
      with Cons.IH [OF step(3) [OF Some] d(2) le] show ?thesis by blast
    qed
  qed
qed

lemma raw_ane_runs_ok:
  assumes "regions \<noteq> []"
  shows "runs_ok 0 (length regions) (raw_ane_runs regions) \<and> list_all (run_on_ane regions) (raw_ane_runs regions)"
proof -
  obtain s runs where scan: "scan_runs 0 regions None [] = (s, runs)" by fastforce
  have ok: "scan_ok regions (length regions) s runs"
    by (rule scan_runs_ok [OF _ _ _ scan]) (simp_all add: scan_ok_def)
  show ?thesis
  proof (cases s)
    case None
    with ok scan show ?thesis by (simp add: raw_ane_runs_def scan_ok_def)
  next
    case (Some b)
    have "scan_ok regions (length regions + 1) None
        (runs @ [\<lparr>rn_start = b, rn_end = length regions - 1, rn_len = length regions - b\<rparr>])"
      by (rule scan_step(3) [OF ok Some])
    moreover have "runs_ok 0 (length regions) (runs @ [\<lparr>rn_start = b, rn_end = length regions - 1, rn_len = length regions - b\<rparr>])"
      unfolding runs_ok_snoc using ok Some assms by (auto simp: scan_ok_def)
    ultimately show ?thesis using Some scan by (simp add: raw_ane_runs_def scan_ok_def)
  qed
qed

lemma bridge_loop_ok:
  "runs_ok 0 n (result @ rest) \<Longrightarrow> result \<noteq> [] \<Longrightarrow> runs_ok 0 n (bridge_loop result rest)"
proof (induction result rest rule: bridge_loop.induct)
  case (1 result cur nxt rest)
  show ?case
  proof (cases "rn_len cur = 1 \<and> rn_len (last result) > 0 \<and> rn_len nxt > 0")
    case True
    obtain front prev where r: "result = front @ [prev]" using "1.prems"(2) by (cases result rule: rev_cases) simp_all
    have "runs_ok 0 n ((front @ [\<lparr>rn_start = rn_start prev, rn_end = rn_end cur, rn_len = rn_len prev + 1\<rparr>]) @ nxt # rest)"
      using "1.prems"(1) unfolding r runs_ok_append by auto
    with "1.IH"(1) [OF refl True] True r show ?thesis by (simp add: Let_def)
  next
    case False
    then have "bridge_loop result (cur # nxt # rest) = bridge_loop (result @ [cur]) (nxt # rest)" by (auto simp: Let_def)
    with "1.IH"(2) [OF refl False] "1.prems" show ?thesis by (simp del: bridge_loop.simps)
  qed
next
  case (2 result final)
  then show ?case by (auto simp: runs_ok_append)
qed simp

lemma find_ane_runs_ok: "regions \<noteq> [] \<Longrightarrow> runs_ok 0 (length regions) (find_ane_runs cfg regions)"
proof -
  assume "regions \<noteq> []"
  then have ok: "runs_ok 0 (length regions) (raw_ane_runs regions)" using raw_ane_runs_ok by blast
  have "runs_ok 0 (length regions) (bridge_singleton_runs (raw_ane_runs regions))"
  proof (cases "raw_ane_runs regions")
    case (Cons r rs)
    with ok bridge_loop_ok [of "length regions" "[r]" rs] show ?thesis by (simp add: bridge_singleton_runs_def)
  qed (simp add: bridge_singleton_runs_def)
  with ok show ?thesis by (simp add: find_ane_runs_def Let_def)
qed

subsection \<open>What fusion keeps\<close>

lemma run_split:
  assumes "i \<le> rn_start run" "rn_start run \<le> rn_end run" "rn_end run < length regions"
  shows "drop i regions = take (rn_start run - i) (drop i regions) @ run_regions regions run @ drop (rn_end run + 1) regions"
proof -
  have "drop i regions = take (rn_start run - i) (drop i regions) @ drop (rn_start run - i) (drop i regions)"
    by (rule append_take_drop_id [symmetric])
  also have "drop (rn_start run - i) (drop i regions) = drop (rn_start run) regions" using assms(1) by simp
  also have "drop (rn_start run) regions = run_regions regions run @ drop (rn_end run + 1) regions"
    using append_take_drop_id [of "rn_end run + 1 - rn_start run" "drop (rn_start run) regions"] assms(2)
    by (simp add: run_regions_def)
  finally show ?thesis .
qed

text \<open>A view that a merged region shares with its run is kept by fusion.\<close>

lemma fuse_runs_view:
  assumes "\<forall>run\<in>set runs. f (merge_run regions run) = concat (map f (run_regions regions run))"
    and "runs_ok i (length regions) runs"
  shows "concat (map f (fst (fuse_runs cfg regions i runs))) = concat (map f (drop i regions))"
  using assms
proof (induction runs arbitrary: i)
  case (Cons run runs)
  obtain rest ns where f: "fuse_runs cfg regions (rn_end run + 1) runs = (rest, ns)" by fastforce
  from Cons.prems have ih: "concat (map f rest) = concat (map f (drop (rn_end run + 1) regions))"
    using Cons.IH [of "rn_end run + 1"] f by simp
  have "drop i regions = take (rn_start run - i) (drop i regions) @ run_regions regions run @ drop (rn_end run + 1) regions"
    using Cons.prems(2) by (intro run_split) simp_all
  then have "concat (map f (drop i regions)) = concat (map f (take (rn_start run - i) (drop i regions))) @
      concat (map f (run_regions regions run)) @ concat (map f (drop (rn_end run + 1) regions))"
    by (metis concat_append map_append)
  with ih Cons.prems(1) show ?case by (simp add: f [simplified] Let_def)
qed simp

lemma fuse_view:
  assumes "\<forall>run\<in>set (find_ane_runs cfg regions). f (merge_run regions run) = concat (map f (run_regions regions run))"
  shows "concat (map f (fst (fuse cfg regions))) = concat (map f regions)"
proof (cases "regions = []")
  case False
  with fuse_runs_view [OF assms find_ane_runs_ok] show ?thesis by (simp add: fuse_def)
qed (simp add: fuse_def)

text \<open>The operations of a schedule with the backend that runs each.\<close>

definition placed_operations :: "scheduled_region list \<Rightarrow> (nat \<times> backend_id) list" where
  "placed_operations rs = concat (map (\<lambda>r. map (\<lambda>op. (op, sr_selected_backend r)) (sr_operations r)) rs)"

lemma runs_ok_ends: "runs_ok lo n runs \<Longrightarrow> run \<in> set runs \<Longrightarrow> rn_start run \<le> rn_end run \<and> rn_end run < n"
  by (induction runs arbitrary: lo) auto

lemma run_regions_on_ane:
  assumes "run_on_ane regions run" "rn_end run < length regions" "r \<in> set (run_regions regions run)"
  shows "sr_selected_backend r = ane_id"
proof -
  obtain k where k: "k < length (run_regions regions run)" "r = run_regions regions run ! k"
    using assms(3) by (metis in_set_conv_nth)
  then have "r = regions ! (rn_start run + k)" "rn_start run + k \<le> rn_end run" using assms(2) by (simp_all add: run_regions_def)
  with assms(1) show ?thesis by (simp add: run_on_ane_def)
qed

lemma unbridged_placement: "placed_operations (fst (fuse (cfg\<lparr>fc_bridge_singletons := False\<rparr>) regions)) = placed_operations regions"
  unfolding placed_operations_def
proof (rule fuse_view, rule ballI)
  fix run assume run: "run \<in> set (find_ane_runs (cfg\<lparr>fc_bridge_singletons := False\<rparr>) regions)"
  show "map (\<lambda>op. (op, sr_selected_backend (merge_run regions run))) (sr_operations (merge_run regions run)) =
      concat (map (\<lambda>r. map (\<lambda>op. (op, sr_selected_backend r)) (sr_operations r)) (run_regions regions run))"
  proof (cases "regions = []")
    case True
    with run show ?thesis by (simp add: find_ane_runs_def raw_ane_runs_def)
  next
    case False
    from run have "run \<in> set (raw_ane_runs regions)" by (simp add: find_ane_runs_def Let_def)
    with raw_ane_runs_ok [OF False] have "run_on_ane regions run" "rn_end run < length regions"
      by (auto simp: list_all_iff dest: runs_ok_ends)
    then have "\<forall>r\<in>set (run_regions regions run). sr_selected_backend r = ane_id" using run_regions_on_ane by blast
    then show ?thesis by (simp add: merge_run_def Let_def map_concat comp_def cong: map_cong)
  qed
qed

definition plain_region :: "nat \<Rightarrow> backend_id \<Rightarrow> scheduled_region" where
  "plain_region n b = \<lparr>sr_region_id = n, sr_name = ''r'', sr_operations = [n], sr_selected_backend = b, sr_physical_tensors = [],
    sr_inputs = [], sr_outputs = [], sr_dependencies = [], sr_fusions = [], sr_state_effects = [], sr_temp_memory_bytes = 0,
    sr_is_fence = False\<rparr>"

definition interleaved_regions :: "scheduled_region list" where
  "interleaved_regions = [plain_region 0 3, plain_region 1 0, plain_region 2 3, plain_region 3 0, plain_region 4 3]"

text \<open>Regions 0, 2 and 4 are on the Neural Engine, 1 and 3 are not: bridging puts the operation of region 1 there.\<close>

lemma bridging_moves_operations:
  "placed_operations interleaved_regions = [(0, 3), (1, 0), (2, 3), (3, 0), (4, 3)]"
  "placed_operations (fst (fuse default_fusion_config interleaved_regions)) = [(0, 3), (1, 3), (2, 3), (3, 0), (4, 3)]"
  by (simp_all add: placed_operations_def interleaved_regions_def plain_region_def fuse_def find_ane_runs_def raw_ane_runs_def
      default_fusion_config_def bridge_singleton_runs_def run_regions_def merge_run_def ane_id_def Let_def)

text \<open>C16: For every configuration, \<open>AneFusionPass::fuse\<close> keeps the operations, the physical tensors and the state effects of a
  schedule, in their order: none is lost, repeated or moved.  Without bridging every operation also stays on its backend.  The
  default configuration bridges: it joins Neural Engine runs across the regions of other backends between them, so there is a
  schedule whose default fusion moves an operation to the Neural Engine that the router had placed elsewhere.\<close>

theorem fusion_keeps_operations:
  "concat (map sr_operations (fst (fuse cfg regions))) = concat (map sr_operations regions) \<and>
   concat (map sr_physical_tensors (fst (fuse cfg regions))) = concat (map sr_physical_tensors regions) \<and>
   concat (map sr_state_effects (fst (fuse cfg regions))) = concat (map sr_state_effects regions) \<and>
   placed_operations (fst (fuse (cfg\<lparr>fc_bridge_singletons := False\<rparr>) regions)) = placed_operations regions \<and>
   (\<exists>rs. fc_bridge_singletons default_fusion_config \<and>
      placed_operations (fst (fuse default_fusion_config rs)) \<noteq> placed_operations rs)"
proof (intro conjI)
  show "concat (map sr_operations (fst (fuse cfg regions))) = concat (map sr_operations regions)"
    by (rule fuse_view) (simp add: merge_run_def Let_def)
  show "concat (map sr_physical_tensors (fst (fuse cfg regions))) = concat (map sr_physical_tensors regions)"
    by (rule fuse_view) (simp add: merge_run_def Let_def)
  show "concat (map sr_state_effects (fst (fuse cfg regions))) = concat (map sr_state_effects regions)"
    by (rule fuse_view) (simp add: merge_run_def Let_def)
  show "placed_operations (fst (fuse (cfg\<lparr>fc_bridge_singletons := False\<rparr>) regions)) = placed_operations regions"
    by (rule unbridged_placement)
  show "\<exists>rs. fc_bridge_singletons default_fusion_config \<and>
      placed_operations (fst (fuse default_fusion_config rs)) \<noteq> placed_operations rs"
    by (rule exI [of _ interleaved_regions]) (simp add: bridging_moves_operations, simp add: default_fusion_config_def)
qed

subsection \<open>Fusion as a pass of the pipeline\<close>

lemma fuse_keeps_order: "concat (map sr_operations (fst (fuse cfg regions))) = concat (map sr_operations regions)"
  by (rule fuse_view) (simp add: merge_run_def Let_def)

text \<open>The passes of the repository on schedules: fusion under some configuration, and the pass that does nothing.\<close>

definition schedule_pass :: "(scheduled_region list, fusion_note) transform_pass \<Rightarrow> bool" where
  "schedule_pass p \<longleftrightarrow> p = noop_pass \<or> (\<exists>cfg. p = ane_fusion_pass cfg)"

interpretation ane: sound_passes "\<lambda>rs. concat (map sr_operations rs)" schedule_pass
proof
  fix p ir digest
  assume "schedule_pass p"
  then consider "p = noop_pass" | cfg where "p = ane_fusion_pass cfg" by (auto simp: schedule_pass_def)
  then show "concat (map sr_operations (fst (tp_apply p ir digest))) = concat (map sr_operations ir)"
  proof cases
    case 2
    have "fst (tp_apply (ane_fusion_pass cfg) ir digest) = fst (fuse cfg ir)"
      by (simp add: ane_fusion_pass_def Let_def split: prod.split)
    with 2 fuse_keeps_order show ?thesis by simp
  qed (simp add: noop_pass_def Let_def)
qed

text \<open>A pipeline of fusion passes, under any configurations, ends after at most twenty rounds with the operations of the
  schedule in their order, and with at most one receipt per pass and round.\<close>

theorem fusion_pipeline_keeps_order:
  "concat (map sr_operations (fst (run_pipeline (pipeline_new (map ane_fusion_pass cfgs)) regions digest))) =
     concat (map sr_operations regions) \<and>
   length (snd (run_pipeline (pipeline_new (map ane_fusion_pass cfgs)) regions digest)) \<le> 20 * length cfgs"
proof
  have "list_all schedule_pass (tl_passes (pipeline_new (map ane_fusion_pass cfgs)))"
    by (auto simp: pipeline_new_def list_all_iff schedule_pass_def)
  then show "concat (map sr_operations (fst (run_pipeline (pipeline_new (map ane_fusion_pass cfgs)) regions digest))) =
     concat (map sr_operations regions)" by (rule ane.pipeline_view)
  show "length (snd (run_pipeline (pipeline_new (map ane_fusion_pass cfgs)) regions digest)) \<le> 20 * length cfgs"
    using rounds_receipts [of "map ane_fusion_pass cfgs" 20 regions digest "[]"]
    by (simp add: run_pipeline_def pipeline_new_def)
qed

end
