(* ===== verification/ChunkKv.thy ===== *)
theory ChunkKv
  imports SwapRemove
begin

text \<open>
  The semantic chunk cache of \<open>cache/chunk_kv.rs\<close>: tokens are buffered until a boundary, chunks are kept with a score of
  importance and a byte estimate, and the least important chunk goes first.  Floating point numbers and their operations,
  and the size of a chunk record, are a parameter of the definitions that use them; no theorem needs a law of them.
  Positions and counts of tokens stay below \<open>2 ^ 32\<close> and are natural numbers.
\<close>

datatype chunk_type = SentenceChunk | SystemChunk | UserInputChunk | AssistantReplyChunk

text \<open>\<open>fl_dec m e\<close> is the literal with the digits \<open>m\<close> of which \<open>e\<close> follow the point; \<open>fl_greater\<close> says that
  \<open>partial_cmp\<close> returns \<open>Greater\<close>.\<close>

record 'f float_env =
  fl_dec :: "nat \<Rightarrow> nat \<Rightarrow> 'f"
  fl_of_nat :: "nat \<Rightarrow> 'f"
  fl_to_nat :: "'f \<Rightarrow> nat"
  fl_add :: "'f \<Rightarrow> 'f \<Rightarrow> 'f"
  fl_mul :: "'f \<Rightarrow> 'f \<Rightarrow> 'f"
  fl_div :: "'f \<Rightarrow> 'f \<Rightarrow> 'f"
  fl_max :: "'f \<Rightarrow> 'f \<Rightarrow> 'f"
  fl_min :: "'f \<Rightarrow> 'f \<Rightarrow> 'f"
  fl_clamp :: "'f \<Rightarrow> 'f \<Rightarrow> 'f \<Rightarrow> 'f"
  fl_greater :: "'f \<Rightarrow> 'f \<Rightarrow> bool"
  size_of_chunk :: nat

record 'f semantic_chunk =
  sc_chunk_id :: nat
  sc_start_token :: nat
  sc_end_token :: nat
  sc_token_count :: nat
  sc_kv_pages :: "u32 list"
  sc_importance_score :: 'f
  sc_chunk_type :: chunk_type

record pending_chunk =
  pd_tokens :: "u32 list"
  pd_start_token :: nat
  pd_boundary_count :: nat

record 'f chunk_cache =
  cc_chunks :: "'f semantic_chunk list"
  cc_max_chunks :: nat
  cc_total_budget_bytes :: nat
  cc_current_bytes :: nat
  cc_compression_ratio :: 'f
  cc_next_chunk_id :: nat
  cc_pending :: pending_chunk
  cc_sentence_end_tokens :: "u32 list"
  cc_speaker_boundary_tokens :: "u32 list"

definition empty_pending :: pending_chunk where
  "empty_pending = \<lparr>pd_tokens = [], pd_start_token = 0, pd_boundary_count = 0\<rparr>"

definition chunk_cache_new :: "'f float_env \<Rightarrow> nat \<Rightarrow> nat \<Rightarrow> 'f chunk_cache" where
  "chunk_cache_new fe max_chunks budget_bytes = \<lparr>cc_chunks = [], cc_max_chunks = max_chunks,
     cc_total_budget_bytes = budget_bytes, cc_current_bytes = 0, cc_compression_ratio = fl_dec fe 10 1, cc_next_chunk_id = 1,
     cc_pending = empty_pending, cc_sentence_end_tokens = [], cc_speaker_boundary_tokens = []\<rparr>"

definition chunk_cache_default :: "'f float_env \<Rightarrow> 'f chunk_cache" where
  "chunk_cache_default fe = chunk_cache_new fe 100 (512 * 1024 * 1024)"

definition set_compression_ratio :: "'f float_env \<Rightarrow> 'f \<Rightarrow> 'f chunk_cache \<Rightarrow> 'f chunk_cache" where
  "set_compression_ratio fe ratio c =
     c\<lparr>cc_compression_ratio := fl_min fe (fl_max fe ratio (fl_dec fe 125 3)) (fl_dec fe 640 1)\<rparr>"





definition infer_chunk_type :: "'f chunk_cache \<Rightarrow> u32 list \<Rightarrow> chunk_type \<Rightarrow> chunk_type" where
  "infer_chunk_type c tokens hint = (
     if hint \<noteq> SentenceChunk then hint
     else if tokens = [] then SentenceChunk
     else if list_ex (\<lambda>t. t \<in> set (cc_speaker_boundary_tokens c)) tokens then UserInputChunk
     else SentenceChunk)"

text \<open>\<open>(256.0 / self.compression_ratio.max(0.125)) as usize\<close>.\<close>

definition per_token_compressed :: "'f float_env \<Rightarrow> 'f chunk_cache \<Rightarrow> nat" where
  "per_token_compressed fe c = fl_to_nat fe (fl_div fe (fl_dec fe 2560 1) (fl_max fe (cc_compression_ratio c) (fl_dec fe 125 3)))"

definition estimate_chunk_bytes :: "'f float_env \<Rightarrow> 'f chunk_cache \<Rightarrow> u32 list \<Rightarrow> nat" where
  "estimate_chunk_bytes fe c tokens = length tokens * per_token_compressed fe c + (size_of_chunk fe + 4 * 4)"

definition estimate_eviction_bytes :: "'f float_env \<Rightarrow> 'f chunk_cache \<Rightarrow> 'f semantic_chunk \<Rightarrow> nat" where
  "estimate_eviction_bytes fe c chunk = sc_token_count chunk * per_token_compressed fe c + size_of_chunk fe"

text \<open>\<open>iter().rposition(P)\<close>.\<close>

definition rposition :: "('a \<Rightarrow> bool) \<Rightarrow> 'a list \<Rightarrow> nat option" where
  "rposition P xs = map_option (\<lambda>k. length xs - 1 - k) (find_idx P (rev xs))"

definition type_bonus :: "'f float_env \<Rightarrow> chunk_type \<Rightarrow> 'f" where
  "type_bonus fe ty = (case ty of SystemChunk \<Rightarrow> fl_dec fe 10 1 | AssistantReplyChunk \<Rightarrow> fl_dec fe 7 1
     | SentenceChunk \<Rightarrow> fl_dec fe 5 1 | UserInputChunk \<Rightarrow> fl_dec fe 3 1)"

definition length_factor :: "'f float_env \<Rightarrow> nat \<Rightarrow> 'f" where
  "length_factor fe token_count = (if token_count < 4 then fl_dec fe 3 1 else if token_count < 8 then fl_dec fe 6 1
     else if token_count > 256 then fl_dec fe 8 1 else fl_dec fe 10 1)"

definition compute_importance :: "'f float_env \<Rightarrow> 'f chunk_cache \<Rightarrow> 'f semantic_chunk \<Rightarrow> 'f" where
  "compute_importance fe c chunk = (
     let max_idx = length (cc_chunks c) - 1;
         idx = (case rposition (\<lambda>d. sc_chunk_id d = sc_chunk_id chunk) (cc_chunks c) of Some i \<Rightarrow> i | None \<Rightarrow> max_idx + 1);
         recency = (if max_idx = 0 then fl_dec fe 10 1
           else fl_clamp fe (fl_div fe (fl_of_nat fe idx) (fl_of_nat fe (max max_idx 1))) (fl_dec fe 0 1) (fl_dec fe 10 1));
         page_bonus = fl_min fe (fl_mul fe (fl_of_nat fe (length (sc_kv_pages chunk))) (fl_dec fe 5 2)) (fl_dec fe 3 1) in
     fl_add fe (fl_add fe (fl_add fe
       (fl_mul fe (fl_dec fe 40 2) recency)
       (fl_mul fe (fl_dec fe 35 2) (type_bonus fe (sc_chunk_type chunk))))
       (fl_mul fe (fl_dec fe 15 2) (length_factor fe (sc_token_count chunk))))
       (fl_mul fe (fl_dec fe 10 2) page_bonus))"

definition recompute_importance :: "'f float_env \<Rightarrow> 'f chunk_cache \<Rightarrow> 'f chunk_cache" where
  "recompute_importance fe c =
     c\<lparr>cc_chunks := map (\<lambda>d. d\<lparr>sc_importance_score := compute_importance fe c d\<rparr>) (cc_chunks c)\<rparr>"

text \<open>\<open>min_by\<close> over the scores with their indices: a later one replaces the best so far when that compares greater.\<close>

fun min_index :: "'f float_env \<Rightarrow> nat \<Rightarrow> 'f \<Rightarrow> nat \<Rightarrow> 'f list \<Rightarrow> nat" where
  "min_index fe best score i [] = best"
| "min_index fe best score i (x # xs) =
     (if fl_greater fe score x then min_index fe i x (i + 1) xs else min_index fe best score (i + 1) xs)"

definition lowest_index :: "'f float_env \<Rightarrow> 'f semantic_chunk list \<Rightarrow> nat" where
  "lowest_index fe ds = (case map sc_importance_score ds of [] \<Rightarrow> 0 | x # xs \<Rightarrow> min_index fe 0 x 1 xs)"

definition evict_lowest :: "'f float_env \<Rightarrow> 'f chunk_cache \<Rightarrow> 'f chunk_cache" where
  "evict_lowest fe c = (
     if cc_chunks c = [] then c
     else let c = recompute_importance fe c; idx = lowest_index fe (cc_chunks c); evicted = cc_chunks c ! idx in
       c\<lparr>cc_chunks := swap_remove idx (cc_chunks c),
         cc_current_bytes := cc_current_bytes c - estimate_eviction_bytes fe c evicted\<rparr>)"

definition evict_one_chunk :: "'f float_env \<Rightarrow> 'f chunk_cache \<Rightarrow> 'f chunk_cache" where
  "evict_one_chunk = evict_lowest"



lemma min_index_bound: "best < i \<Longrightarrow> min_index fe best score i xs < i + length xs"
proof (induction xs arbitrary: best score i)
  case (Cons x xs)
  with Cons.IH [of i "i + 1" x] Cons.IH [of best "i + 1" score] show ?case by simp
qed simp

lemma lowest_index_bound: "ds \<noteq> [] \<Longrightarrow> lowest_index fe ds < length ds"
  using min_index_bound [of 0 1 fe "sc_importance_score (hd ds)" "map sc_importance_score (tl ds)"]
  by (cases ds) (simp_all add: lowest_index_def)

lemma length_evict_lowest [simp]: "length (cc_chunks (evict_lowest fe c)) = length (cc_chunks c) - 1"
  by (simp add: evict_lowest_def recompute_importance_def Let_def)

text \<open>\<open>while !self.chunks.is_empty() && (...)\<close>.\<close>

function evict_to_limits :: "'f float_env \<Rightarrow> 'f chunk_cache \<Rightarrow> 'f chunk_cache" where
  "evict_to_limits fe c =
     (if cc_chunks c \<noteq> [] \<and> (length (cc_chunks c) > cc_max_chunks c \<or> cc_current_bytes c > cc_total_budget_bytes c)
      then evict_to_limits fe (evict_lowest fe c) else c)"
  by pat_completeness auto
termination by (relation "measure (\<lambda>(fe, c). length (cc_chunks c))") auto

declare evict_to_limits.simps [simp del]

datatype chunk_error = StartNotBeforeEnd | TokenCountMismatch nat nat nat

definition insert_chunk ::
  "'f float_env \<Rightarrow> nat \<Rightarrow> nat \<Rightarrow> u32 list \<Rightarrow> u32 list \<Rightarrow> 'f chunk_cache \<Rightarrow> (chunk_error + unit) \<times> 'f chunk_cache" where
  "insert_chunk fe start end_token tokens pages c = (
     if start \<ge> end_token then (Inl StartNotBeforeEnd, c)
     else if end_token - start \<noteq> length tokens then (Inl (TokenCountMismatch start end_token (length tokens)), c)
     else let ctype = infer_chunk_type c tokens SentenceChunk;
              est_bytes = estimate_chunk_bytes fe c tokens;
              chunk = \<lparr>sc_chunk_id = cc_next_chunk_id c, sc_start_token = start, sc_end_token = end_token,
                sc_token_count = length tokens, sc_kv_pages = pages, sc_importance_score = fl_dec fe 5 1,
                sc_chunk_type = ctype\<rparr>;
              c = c\<lparr>cc_next_chunk_id := cc_next_chunk_id c + 1\<rparr>;
              chunk = chunk\<lparr>sc_importance_score := compute_importance fe c chunk\<rparr>;
              c = c\<lparr>cc_current_bytes := cc_current_bytes c + est_bytes, cc_chunks := cc_chunks c @ [chunk]\<rparr> in
       (Inr (), evict_to_limits fe c))"

text \<open>The loop of \<open>find_matching_prefix\<close> over the sorted chunks, for \<open>n\<close> query tokens.\<close>

fun prefix_loop :: "nat \<Rightarrow> 'f semantic_chunk list \<Rightarrow> u32 list \<Rightarrow> nat \<Rightarrow> nat \<Rightarrow> u32 list \<times> nat" where
  "prefix_loop n [] matched_pages matched_tokens token_pos = (matched_pages, matched_tokens)"
| "prefix_loop n (chunk # chunks) matched_pages matched_tokens token_pos =
     (if token_pos + sc_token_count chunk > n then (matched_pages, matched_tokens)
      else prefix_loop n chunks (matched_pages @ sc_kv_pages chunk) (matched_tokens + sc_token_count chunk)
        (token_pos + sc_token_count chunk))"

definition find_matching_prefix :: "'f chunk_cache \<Rightarrow> u32 list \<Rightarrow> (u32 list \<times> nat) option" where
  "find_matching_prefix c tokens = (
     if tokens = [] \<or> cc_chunks c = [] then None
     else let (matched_pages, matched_tokens) = prefix_loop (length tokens) (sort_key sc_start_token (cc_chunks c)) [] 0 0 in
       if matched_tokens = 0 then None else Some (matched_pages, matched_tokens))"

text \<open>The same loop with the comparison of tokens; the slice \<open>token_buffer[start..end]\<close> panics when the start is after the end.\<close>

fun verified_loop ::
  "u32 list \<Rightarrow> u32 list \<Rightarrow> 'f semantic_chunk list \<Rightarrow> u32 list \<Rightarrow> nat \<Rightarrow> nat \<Rightarrow> (u32 list \<times> nat) option" where
  "verified_loop query buffer [] matched_pages matched_tokens query_pos = Some (matched_pages, matched_tokens)"
| "verified_loop query buffer (chunk # chunks) matched_pages matched_tokens query_pos =
     (if query_pos + sc_token_count chunk > length query then Some (matched_pages, matched_tokens)
      else if sc_end_token chunk > length buffer then Some (matched_pages, matched_tokens)
      else if sc_start_token chunk > sc_end_token chunk then None
      else if take (sc_end_token chunk - sc_start_token chunk) (drop (sc_start_token chunk) buffer)
        \<noteq> take (sc_token_count chunk) (drop query_pos query) then Some (matched_pages, matched_tokens)
      else verified_loop query buffer chunks (matched_pages @ sc_kv_pages chunk) (matched_tokens + sc_token_count chunk)
        (query_pos + sc_token_count chunk))"

definition find_matching_prefix_verified ::
  "u32 list \<Rightarrow> u32 list \<Rightarrow> 'f semantic_chunk list \<Rightarrow> (u32 list \<times> nat) option option" where
  "find_matching_prefix_verified query buffer chunks_to_check = (
     if query = [] \<or> chunks_to_check = [] \<or> buffer = [] then Some None
     else map_option (\<lambda>(matched_pages, matched_tokens). if matched_tokens = 0 then None else Some (matched_pages, matched_tokens))
       (verified_loop query buffer (sort_key sc_start_token chunks_to_check) [] 0 0))"

definition clear_chunks :: "'f chunk_cache \<Rightarrow> 'f chunk_cache" where
  "clear_chunks c = c\<lparr>cc_chunks := [], cc_current_bytes := 0, cc_pending := empty_pending\<rparr>"

definition flush_pending :: "'f chunk_cache \<Rightarrow> 'f chunk_cache" where
  "flush_pending c = c\<lparr>cc_pending := empty_pending\<rparr>"

subsection \<open>Byte accounting\<close>

text \<open>What the resident chunks would free.\<close>

definition resident_bytes :: "'f float_env \<Rightarrow> 'f chunk_cache \<Rightarrow> nat" where
  "resident_bytes fe c = sum_list (map (estimate_eviction_bytes fe c) (cc_chunks c))"

lemma evict_lowest_keeps [simp]:
  "cc_max_chunks (evict_lowest fe c) = cc_max_chunks c"
  "cc_total_budget_bytes (evict_lowest fe c) = cc_total_budget_bytes c"
  "cc_compression_ratio (evict_lowest fe c) = cc_compression_ratio c"
  "cc_next_chunk_id (evict_lowest fe c) = cc_next_chunk_id c"
  "cc_pending (evict_lowest fe c) = cc_pending c"
  "cc_sentence_end_tokens (evict_lowest fe c) = cc_sentence_end_tokens c"
  "cc_speaker_boundary_tokens (evict_lowest fe c) = cc_speaker_boundary_tokens c"
  by (simp_all add: evict_lowest_def recompute_importance_def Let_def)

lemma estimate_eviction_cong:
  "cc_compression_ratio c = cc_compression_ratio d \<Longrightarrow> estimate_eviction_bytes fe c = estimate_eviction_bytes fe d"
  by (rule ext) (simp add: estimate_eviction_bytes_def per_token_compressed_def)

text \<open>An eviction frees exactly the estimate of the chunk it removes.\<close>

lemma evict_lowest_bytes:
  assumes "cc_current_bytes c = resident_bytes fe c + extra"
  shows "cc_current_bytes (evict_lowest fe c) = resident_bytes fe (evict_lowest fe c) + extra"
proof (cases "cc_chunks c = []")
  case True
  with assms show ?thesis by (simp add: evict_lowest_def)
next
  case False
  define r where "r = recompute_importance fe c"
  define i where "i = lowest_index fe (cc_chunks r)"
  have r: "cc_chunks r \<noteq> []" "cc_current_bytes r = cc_current_bytes c" "cc_compression_ratio r = cc_compression_ratio c"
    using False by (simp_all add: r_def recompute_importance_def)
  have est: "estimate_eviction_bytes fe r = estimate_eviction_bytes fe c"
    "estimate_eviction_bytes fe (evict_lowest fe c) = estimate_eviction_bytes fe c"
    using estimate_eviction_cong [OF r(3)] estimate_eviction_cong [OF evict_lowest_keeps(3)] by simp_all
  have "map (estimate_eviction_bytes fe c) (cc_chunks r) = map (estimate_eviction_bytes fe c) (cc_chunks c)"
    by (simp add: r_def recompute_importance_def estimate_eviction_bytes_def comp_def)
  then have res: "resident_bytes fe c = sum_list (map (estimate_eviction_bytes fe c) (cc_chunks r))" by (simp add: resident_bytes_def)
  have e: "evict_lowest fe c = r\<lparr>cc_chunks := swap_remove i (cc_chunks r),
      cc_current_bytes := cc_current_bytes r - estimate_eviction_bytes fe r (cc_chunks r ! i)\<rparr>"
    using False by (simp add: evict_lowest_def r_def i_def Let_def)
  have "i < length (cc_chunks r)" unfolding i_def by (rule lowest_index_bound [OF r(1)])
  from sum_list_swap_remove [OF this, of "estimate_eviction_bytes fe c"] res
  have "resident_bytes fe c = resident_bytes fe (evict_lowest fe c) + estimate_eviction_bytes fe c (cc_chunks r ! i)"
    by (simp add: resident_bytes_def est e [THEN arg_cong, of cc_chunks])
  moreover have "cc_current_bytes (evict_lowest fe c) = cc_current_bytes c - estimate_eviction_bytes fe c (cc_chunks r ! i)"
    by (simp add: e r(2) est(1))
  ultimately show ?thesis using assms by simp
qed

lemma evict_to_limits_keeps [simp]:
  "cc_max_chunks (evict_to_limits fe c) = cc_max_chunks c"
  "cc_total_budget_bytes (evict_to_limits fe c) = cc_total_budget_bytes c"
  "cc_compression_ratio (evict_to_limits fe c) = cc_compression_ratio c"
  "cc_next_chunk_id (evict_to_limits fe c) = cc_next_chunk_id c"
  "cc_pending (evict_to_limits fe c) = cc_pending c"
  by (induction fe c rule: evict_to_limits.induct; subst evict_to_limits.simps; simp)+

lemma evict_to_limits_ok:
  "cc_current_bytes c = resident_bytes fe c + extra \<Longrightarrow>
    cc_current_bytes (evict_to_limits fe c) = resident_bytes fe (evict_to_limits fe c) + extra \<and>
    (cc_chunks (evict_to_limits fe c) = [] \<or>
      length (cc_chunks (evict_to_limits fe c)) \<le> cc_max_chunks c \<and>
      cc_current_bytes (evict_to_limits fe c) \<le> cc_total_budget_bytes c)"
proof (induction fe c rule: evict_to_limits.induct)
  case (1 fe c)
  show ?case
  proof (cases "cc_chunks c \<noteq> [] \<and> (length (cc_chunks c) > cc_max_chunks c \<or> cc_current_bytes c > cc_total_budget_bytes c)")
    case True
    then have e: "evict_to_limits fe c = evict_to_limits fe (evict_lowest fe c)" by (subst evict_to_limits.simps) simp
    from "1.IH" [OF True evict_lowest_bytes [OF "1.prems"]] show ?thesis unfolding e evict_lowest_keeps .
  next
    case False
    then have "evict_to_limits fe c = c" by (subst evict_to_limits.simps) (rule if_not_P)
    with "1.prems" False show ?thesis by auto
  qed
qed

subsection \<open>Inserting many chunks\<close>

type_synonym insertion = "nat \<times> nat \<times> u32 list \<times> u32 list"

fun insertion_ok :: "insertion \<Rightarrow> bool" where
  "insertion_ok (start, end_token, tokens, pages) \<longleftrightarrow> start < end_token \<and> length tokens = end_token - start"

fun insert_all :: "'f float_env \<Rightarrow> insertion list \<Rightarrow> 'f chunk_cache \<Rightarrow> 'f chunk_cache" where
  "insert_all fe [] c = c"
| "insert_all fe ((start, end_token, tokens, pages) # ins) c =
     insert_all fe ins (snd (insert_chunk fe start end_token tokens pages c))"

lemma insert_all_snoc:
  "insert_all fe (ins @ [(start, end_token, tokens, pages)]) c =
    snd (insert_chunk fe start end_token tokens pages (insert_all fe ins c))"
  by (induction fe ins c rule: insert_all.induct) simp_all

text \<open>An insertion adds sixteen bytes more than the chunk's eviction will free.\<close>

lemma insert_chunk_bytes:
  assumes bytes: "cc_current_bytes c = resident_bytes fe c + extra" and ok: "insertion_ok (start, end_token, tokens, pages)"
  shows "\<exists>c'. insert_chunk fe start end_token tokens pages c = (Inr (), c') \<and>
    cc_current_bytes c' = resident_bytes fe c' + (extra + 16) \<and> cc_total_budget_bytes c' = cc_total_budget_bytes c \<and>
    cc_max_chunks c' = cc_max_chunks c \<and> cc_next_chunk_id c' = cc_next_chunk_id c + 1 \<and>
    (cc_chunks c' = [] \<or> length (cc_chunks c') \<le> cc_max_chunks c \<and> cc_current_bytes c' \<le> cc_total_budget_bytes c)"
proof -
  define d where "d = c\<lparr>cc_next_chunk_id := cc_next_chunk_id c + 1\<rparr>"
  define chunk where "chunk = \<lparr>sc_chunk_id = cc_next_chunk_id c, sc_start_token = start, sc_end_token = end_token,
     sc_token_count = length tokens, sc_kv_pages = pages, sc_importance_score = fl_dec fe 5 1,
     sc_chunk_type = infer_chunk_type c tokens SentenceChunk\<rparr>"
  define chunk' where "chunk' = chunk\<lparr>sc_importance_score := compute_importance fe d chunk\<rparr>"
  define e where "e = d\<lparr>cc_current_bytes := cc_current_bytes d + estimate_chunk_bytes fe c tokens, cc_chunks := cc_chunks d @ [chunk']\<rparr>"
  have ins: "insert_chunk fe start end_token tokens pages c = (Inr (), evict_to_limits fe e)"
    using ok by (simp add: insert_chunk_def Let_def d_def chunk_def chunk'_def e_def)
  have est: "estimate_eviction_bytes fe e = estimate_eviction_bytes fe c" by (rule estimate_eviction_cong) (simp add: e_def d_def)
  have "resident_bytes fe e = resident_bytes fe c + estimate_eviction_bytes fe c chunk'"
    by (simp add: resident_bytes_def est) (simp add: e_def d_def)
  moreover have "estimate_chunk_bytes fe c tokens = estimate_eviction_bytes fe c chunk' + 16"
    by (simp add: estimate_chunk_bytes_def estimate_eviction_bytes_def chunk'_def chunk_def)
  ultimately have "cc_current_bytes e = resident_bytes fe e + (extra + 16)"
    using bytes by (simp add: e_def d_def)
  note ok = evict_to_limits_ok [OF this]
  have "cc_max_chunks e = cc_max_chunks c" "cc_total_budget_bytes e = cc_total_budget_bytes c"
    "cc_next_chunk_id e = cc_next_chunk_id c + 1" by (simp_all add: e_def d_def)
  with ok ins show ?thesis by auto
qed

lemma insert_all_bytes:
  assumes "cc_current_bytes c = resident_bytes fe c + extra" and "list_all insertion_ok ins"
  shows "cc_current_bytes (insert_all fe ins c) = resident_bytes fe (insert_all fe ins c) + (extra + 16 * length ins) \<and>
    cc_total_budget_bytes (insert_all fe ins c) = cc_total_budget_bytes c \<and>
    (ins \<noteq> [] \<longrightarrow> cc_chunks (insert_all fe ins c) = [] \<or>
      cc_current_bytes (insert_all fe ins c) \<le> cc_total_budget_bytes c)"
  using assms
proof (induction ins rule: rev_induct)
  case (snoc x ins)
  obtain start end_token tokens pages where x: "x = (start, end_token, tokens, pages)" by (cases x)
  define d where "d = insert_all fe ins c"
  from snoc have ih: "cc_current_bytes d = resident_bytes fe d + (extra + 16 * length ins)"
    "cc_total_budget_bytes d = cc_total_budget_bytes c" by (simp_all add: d_def)
  from snoc.prems x have "insertion_ok (start, end_token, tokens, pages)" by simp
  from insert_chunk_bytes [OF ih(1) this] ih(2) show ?case
    by (auto simp: x insert_all_snoc d_def [symmetric])
qed simp

text \<open>C21: Starting from a cache without chunks, once the chunks inserted number more than a sixteenth of the byte budget, no
  chunk is resident after any insertion: each is evicted by its own insertion, although that returns success, and the bytes
  in use are sixteen per chunk ever inserted.  An eviction frees sixteen bytes less than the insertion charged.\<close>

theorem chunk_cache_starves:
  assumes "cc_chunks c = []" and "cc_current_bytes c = 0" and "list_all insertion_ok ins"
    and "cc_total_budget_bytes c < 16 * length ins"
  shows "cc_chunks (insert_all fe ins c) = [] \<and> cc_current_bytes (insert_all fe ins c) = 16 * length ins"
proof -
  have "cc_current_bytes c = resident_bytes fe c + 0" using assms(1,2) by (simp add: resident_bytes_def)
  note ok = insert_all_bytes [OF this assms(3)]
  with assms(4) have "cc_chunks (insert_all fe ins c) = []" by (cases "ins = []") auto
  with ok show ?thesis by (simp add: resident_bytes_def)
qed

subsection \<open>Splitting the stream\<close>










subsection \<open>Prefix matches\<close>

text \<open>The tokens that a buffer holds at the positions of a chunk.\<close>

definition chunk_content :: "u32 list \<Rightarrow> 'f semantic_chunk \<Rightarrow> u32 list" where
  "chunk_content buffer d = take (sc_end_token d - sc_start_token d) (drop (sc_start_token d) buffer)"

lemma verified_loop_sound:
  "verified_loop query buffer ds pages m pos = Some (pages', m') \<Longrightarrow> pos \<le> length query \<Longrightarrow>
    \<exists>k. pages' = pages @ concat (map sc_kv_pages (take k ds)) \<and> m' = m + sum_list (map sc_token_count (take k ds)) \<and>
      pos + sum_list (map sc_token_count (take k ds)) \<le> length query \<and>
      concat (map (chunk_content buffer) (take k ds)) = take (sum_list (map sc_token_count (take k ds))) (drop pos query)"
proof (induction ds arbitrary: pages m pos)
  case (Cons d ds)
  show ?case
  proof (cases "pos + sc_token_count d \<le> length query \<and> sc_end_token d \<le> length buffer \<and> sc_start_token d \<le> sc_end_token d \<and>
      chunk_content buffer d = take (sc_token_count d) (drop pos query)")
    case True
    with Cons.prems(1) have "verified_loop query buffer ds (pages @ sc_kv_pages d) (m + sc_token_count d) (pos + sc_token_count d) =
        Some (pages', m')" by (simp add: chunk_content_def)
    from Cons.IH [OF this] True obtain k where
      "pages' = (pages @ sc_kv_pages d) @ concat (map sc_kv_pages (take k ds))"
      "m' = m + sc_token_count d + sum_list (map sc_token_count (take k ds))"
      "pos + sc_token_count d + sum_list (map sc_token_count (take k ds)) \<le> length query"
      "concat (map (chunk_content buffer) (take k ds)) =
        take (sum_list (map sc_token_count (take k ds))) (drop (pos + sc_token_count d) query)" by blast
    with True show ?thesis by (intro exI [of _ "Suc k"]) (simp add: take_add add_ac)
  next
    case False
    with Cons.prems have "pages' = pages \<and> m' = m" by (auto simp: chunk_content_def split: if_splits)
    with Cons.prems(2) show ?thesis by (intro exI [of _ 0]) simp
  qed
qed (simp add: exI [of _ 0])

text \<open>C23: What \<open>find_matching_prefix_verified\<close> returns is right about the tokens: the matched count is a positive number of
  query tokens, the buffer's tokens at the positions of the first chunks, in order of position, are that prefix of the
  query, and the pages are those of these chunks.  It does not require the chunks to be adjacent or the first to start at
  zero.\<close>

theorem verified_match_is_prefix:
  assumes "find_matching_prefix_verified query buffer chunks_to_check = Some (Some (pages, n))"
  shows "\<exists>k. pages = concat (map sc_kv_pages (take k (sort_key sc_start_token chunks_to_check))) \<and>
    n = sum_list (map sc_token_count (take k (sort_key sc_start_token chunks_to_check))) \<and> 0 < n \<and> n \<le> length query \<and>
    concat (map (chunk_content buffer) (take k (sort_key sc_start_token chunks_to_check))) = take n query"
proof -
  from assms have "verified_loop query buffer (sort_key sc_start_token chunks_to_check) [] 0 0 = Some (pages, n)" and n: "n \<noteq> 0"
    by (auto simp: find_matching_prefix_verified_def split: if_splits)
  from verified_loop_sound [OF this(1)] n show ?thesis by auto
qed

text \<open>The unverified match sees only how many tokens the query has: a single resident chunk matches every query that is long
  enough, wherever it starts.\<close>

lemma unverified_match_ignores_tokens:
  "find_matching_prefix c (map f query) = find_matching_prefix c query"
  "find_matching_prefix (c\<lparr>cc_chunks := [d]\<rparr>) query =
    (if query \<noteq> [] \<and> 0 < sc_token_count d \<and> sc_token_count d \<le> length query
     then Some (sc_kv_pages d, sc_token_count d) else None)"
  by (simp_all add: find_matching_prefix_def)

subsection \<open>Witnesses\<close>

text \<open>Floating point numbers replaced by natural numbers that keep the digits of literals.\<close>

definition nat_env :: "nat float_env" where
  "nat_env = \<lparr>fl_dec = (\<lambda>m e. m), fl_of_nat = (\<lambda>n. n), fl_to_nat = (\<lambda>n. n), fl_add = (+), fl_mul = (*), fl_div = (div),
     fl_max = max, fl_min = min, fl_clamp = (\<lambda>x lo hi. max lo (min hi x)), fl_greater = (>), size_of_chunk = 56\<rparr>"

theorem chunk_cache_starves_witness:
  "cc_chunks (insert_all nat_env (replicate 65 (0, 2, [7, 8], [1])) (chunk_cache_new nat_env 4 1024)) = [] \<and>
   cc_current_bytes (insert_all nat_env (replicate 65 (0, 2, [7, 8], [1])) (chunk_cache_new nat_env 4 1024)) = 1040"
  using chunk_cache_starves [of "chunk_cache_new nat_env 4 1024" "replicate 65 (0, 2, [7, 8], [1])" nat_env]
  by (simp add: chunk_cache_new_def list_all_iff)



definition witness_chunk :: "nat \<Rightarrow> nat \<Rightarrow> u32 list \<Rightarrow> nat semantic_chunk" where
  "witness_chunk start n pages = \<lparr>sc_chunk_id = 1, sc_start_token = start, sc_end_token = start + n, sc_token_count = n,
     sc_kv_pages = pages, sc_importance_score = 0, sc_chunk_type = SentenceChunk\<rparr>"

theorem verified_match_is_prefix_witness:
  "\<exists>k. [4, 5] = concat (map sc_kv_pages (take k (sort_key sc_start_token [witness_chunk 3 1 [5], witness_chunk 0 2 [4]]))) \<and>
    3 = sum_list (map sc_token_count (take k (sort_key sc_start_token [witness_chunk 3 1 [5], witness_chunk 0 2 [4]]))) \<and>
    0 < (3 :: nat) \<and> 3 \<le> length [10, 11, 13, 14 :: u32] \<and>
    concat (map (chunk_content [10, 11, 12, 13]) (take k (sort_key sc_start_token [witness_chunk 3 1 [5], witness_chunk 0 2 [4]]))) =
      take 3 [10, 11, 13, 14]"
  by (rule verified_match_is_prefix) (simp add: find_matching_prefix_verified_def witness_chunk_def)

end
