(* ===== verification/RateLimiter.thy ===== *)
theory RateLimiter
  imports Prelude
begin

text \<open>
  The request limiter of \<open>server/rate_limiter.rs\<close>: token buckets that many requests use at once through atomic
  operations, and the map of buckets by address of the client.  Every atomic operation of \<open>try_consume\<close> and \<open>refill\<close> is
  a step; a history is any interleaving of the steps of any number of calls.  The tokens gained in a number of seconds,
  \<open>(elapsed * refill_rate) as u64\<close>, are a parameter.
\<close>

record token_bucket =
  tb_tokens :: u64
  tb_capacity :: u64
  tb_last_refill :: u64

definition bucket_new :: "u64 \<Rightarrow> u64 \<Rightarrow> token_bucket" where
  "bucket_new capacity now = \<lparr>tb_tokens = capacity, tb_capacity = capacity, tb_last_refill = now\<rparr>"

text \<open>Where a call of \<open>try_consume(n)\<close> stands, with its local variables.\<close>

datatype call =
    ReadClock u64
  | ReadLast u64 u64
  | ClaimRefill u64 u64 u64
  | ReadTokens u64 u64
  | StoreTokens u64 u64
  | LoadTokens u64
  | TakeTokens u64 u64
  | Returned u64 bool

fun call_step :: "(u64 \<Rightarrow> u64) \<Rightarrow> u64 \<Rightarrow> token_bucket \<Rightarrow> call \<Rightarrow> token_bucket \<times> call" where
  "call_step gain clock b (ReadClock n) = (b, ReadLast n clock)"
| "call_step gain clock b (ReadLast n now) =
     (b, if now \<le> tb_last_refill b then LoadTokens n else ClaimRefill n now (tb_last_refill b))"
| "call_step gain clock b (ClaimRefill n now before) =
     (if tb_last_refill b \<noteq> before then (b, LoadTokens n)
      else (b\<lparr>tb_last_refill := now\<rparr>,
        let gained = gain (now - before) in if gained > 0 then ReadTokens n gained else LoadTokens n))"
| "call_step gain clock b (ReadTokens n gained) = (b, StoreTokens n (min (tb_capacity b) (sat_add (tb_tokens b) gained)))"
| "call_step gain clock b (StoreTokens n new) = (b\<lparr>tb_tokens := new\<rparr>, LoadTokens n)"
| "call_step gain clock b (LoadTokens n) = (b, if tb_tokens b < n then Returned n False else TakeTokens n (tb_tokens b))"
| "call_step gain clock b (TakeTokens n current) =
     (if tb_tokens b = current then (b\<lparr>tb_tokens := current - n\<rparr>, Returned n True) else (b, LoadTokens n))"
| "call_step gain clock b (Returned n granted) = (b, Returned n granted)"

text \<open>A schedule names, step by step, the call that moves and the time that it would read.\<close>

type_synonym schedule = "(nat \<times> u64) list"

definition bucket_step :: "(u64 \<Rightarrow> u64) \<Rightarrow> nat \<times> u64 \<Rightarrow> token_bucket \<times> call list \<Rightarrow> token_bucket \<times> call list" where
  "bucket_step gain = (\<lambda>(i, clock) (b, calls).
     if i < length calls then (let (b', call) = call_step gain clock b (calls ! i) in (b', calls[i := call])) else (b, calls))"

definition run_calls :: "(u64 \<Rightarrow> u64) \<Rightarrow> schedule \<Rightarrow> token_bucket \<times> call list \<Rightarrow> token_bucket \<times> call list" where
  "run_calls gain sched = fold (bucket_step gain) sched"

text \<open>A call that runs alone.\<close>

definition refill :: "(u64 \<Rightarrow> u64) \<Rightarrow> u64 \<Rightarrow> token_bucket \<Rightarrow> token_bucket" where
  "refill gain now b = (
     if now \<le> tb_last_refill b then b
     else let gained = gain (now - tb_last_refill b); b = b\<lparr>tb_last_refill := now\<rparr> in
       if gained > 0 then b\<lparr>tb_tokens := min (tb_capacity b) (sat_add (tb_tokens b) gained)\<rparr> else b)"

definition try_consume :: "(u64 \<Rightarrow> u64) \<Rightarrow> u64 \<Rightarrow> u64 \<Rightarrow> token_bucket \<Rightarrow> bool \<times> token_bucket" where
  "try_consume gain now n b = (
     let b = refill gain now b in
     if tb_tokens b < n then (False, b) else (True, b\<lparr>tb_tokens := tb_tokens b - n\<rparr>))"

text \<open>A call of \<open>try_consume\<close> that no other call interrupts returns after at most seven atomic steps what the
  sequential reading of its code says, and leaves the bucket that this says.\<close>

theorem lone_call_is_sequential:
  "run_calls gain (replicate 7 (0, now)) (b, [ReadClock n]) =
    (snd (try_consume gain now n b), [Returned n (fst (try_consume gain now n b))])"
proof -
  have seven: "replicate 7 x = [x, x, x, x, x, x, x]" for x :: "nat \<times> u64" by (simp add: numeral_eq_Suc)
  show ?thesis unfolding seven run_calls_def
    by (cases "now \<le> tb_last_refill b"; cases "gain (now - tb_last_refill b) > 0")
      (auto simp: bucket_step_def try_consume_def refill_def Let_def)
qed

subsection \<open>What any interleaving grants\<close>

fun call_ok :: "u64 \<Rightarrow> call \<Rightarrow> bool" where
  "call_ok cap (ReadLast n now) \<longleftrightarrow> True"
| "call_ok cap (ClaimRefill n now before) \<longleftrightarrow> before < now"
| "call_ok cap (StoreTokens n new) \<longleftrightarrow> new \<le> cap"
| "call_ok cap (TakeTokens n current) \<longleftrightarrow> n \<le> current"
| "call_ok cap _ \<longleftrightarrow> True"

text \<open>Tokens that a call was granted, and whether it has claimed a refill that it has not stored.\<close>

fun granted :: "call \<Rightarrow> nat" where
  "granted (Returned n True) = unat n"
| "granted _ = 0"

fun refilling :: "call \<Rightarrow> nat" where
  "refilling (ReadTokens n gained) = 1"
| "refilling (StoreTokens n new) = 1"
| "refilling _ = 0"

definition total_granted :: "call list \<Rightarrow> nat" where
  "total_granted calls = sum_list (map granted calls)"

definition bucket_inv :: "u64 \<Rightarrow> u64 \<Rightarrow> token_bucket \<times> call list \<Rightarrow> bool" where
  "bucket_inv cap t0 = (\<lambda>(b, calls). tb_capacity b = cap \<and> tb_tokens b \<le> cap \<and> t0 \<le> tb_last_refill b \<and>
     list_all (call_ok cap) calls \<and>
     total_granted calls + unat (tb_tokens b) + unat cap * sum_list (map refilling calls)
       \<le> unat cap * (1 + (unat (tb_last_refill b) - unat t0)))"

lemma sum_list_map_update:
  "i < length xs \<Longrightarrow> sum_list (map f (xs[i := y])) + f (xs ! i) = sum_list (map f xs) + (f y :: nat)"
  by (induction xs arbitrary: i) (auto split: nat.splits)

text \<open>One atomic operation, in terms of the call that makes it.\<close>

lemma call_step_account:
  assumes "call_step gain clock b call = (b', call')" and "call_ok (tb_capacity b) call" and "tb_tokens b \<le> tb_capacity b"
  shows "tb_capacity b' = tb_capacity b \<and> tb_tokens b' \<le> tb_capacity b \<and> tb_last_refill b \<le> tb_last_refill b' \<and>
    call_ok (tb_capacity b) call' \<and>
    granted call' + unat (tb_tokens b') + unat (tb_capacity b) * refilling call' \<le>
      granted call + unat (tb_tokens b) + unat (tb_capacity b) * refilling call +
      unat (tb_capacity b) * (unat (tb_last_refill b') - unat (tb_last_refill b))"
proof (cases call)
  case (ClaimRefill n now before)
  show ?thesis
  proof (cases "tb_last_refill b = before")
    case True
    with assms(1,2) ClaimRefill have "b' = b\<lparr>tb_last_refill := now\<rparr>" "tb_last_refill b < now" "refilling call' \<le> 1" "granted call' = 0"
      "call_ok (tb_capacity b) call'"
      by (auto simp: Let_def split: if_splits)
    moreover have "unat (tb_last_refill b) < unat now" using calculation(2) by (simp add: word_less_nat_alt)
    then have "1 \<le> unat now - unat (tb_last_refill b)" by simp
    then have "unat (tb_capacity b) * refilling call' \<le> unat (tb_capacity b) * (unat now - unat (tb_last_refill b))"
      using \<open>refilling call' \<le> 1\<close> by (meson le_trans mult_le_mono2)
    ultimately show ?thesis using assms(3) ClaimRefill by simp
  next
    case False
    with assms ClaimRefill show ?thesis by auto
  qed
next
  case (TakeTokens n current)
  with assms show ?thesis
    by (auto simp: unat_sub_if' word_le_nat_alt intro: order_trans split: if_splits)
next
  case (Returned n g)
  with assms show ?thesis by auto
qed (use assms in \<open>auto split: if_splits simp: word_le_nat_alt word_less_nat_alt min_def\<close>)

lemma bucket_step_inv:
  assumes "bucket_inv cap t0 s"
  shows "bucket_inv cap t0 (bucket_step gain e s)"
proof -
  obtain b calls where s: "s = (b, calls)" by (cases s)
  obtain i clock where e: "e = (i, clock)" by (cases e)
  show ?thesis
  proof (cases "i < length calls")
    case True
    obtain b' call' where st: "call_step gain clock b (calls ! i) = (b', call')" by fastforce
    have inv: "tb_capacity b = cap" "tb_tokens b \<le> cap" "t0 \<le> tb_last_refill b" "list_all (call_ok cap) calls"
      "total_granted calls + unat (tb_tokens b) + unat cap * sum_list (map refilling calls)
       \<le> unat cap * (1 + (unat (tb_last_refill b) - unat t0))"
      using assms by (simp_all add: bucket_inv_def s)
    from inv(4) True have "call_ok (tb_capacity b) (calls ! i)" by (simp add: list_all_length inv(1))
    note acc = call_step_account [OF st this, unfolded inv(1), OF inv(2)]
    have g: "total_granted (calls[i := call']) + granted (calls ! i) = total_granted calls + granted call'"
      "sum_list (map refilling (calls[i := call'])) + refilling (calls ! i) = sum_list (map refilling calls) + refilling call'"
      using sum_list_map_update [OF True] by (simp_all add: total_granted_def)
    have c: "unat cap * sum_list (map refilling (calls[i := call'])) + unat cap * refilling (calls ! i) =
        unat cap * sum_list (map refilling calls) + unat cap * refilling call'"
      using arg_cong [OF g(2), of "(*) (unat cap)"] by (simp only: add_mult_distrib2)
    have le: "unat t0 \<le> unat (tb_last_refill b)" "unat (tb_last_refill b) \<le> unat (tb_last_refill b')"
      using inv(3) acc by (simp_all add: word_le_nat_alt)
    then have "unat (tb_last_refill b') - unat t0 =
        (unat (tb_last_refill b) - unat t0) + (unat (tb_last_refill b') - unat (tb_last_refill b))" by simp
    then have t: "unat cap * (1 + (unat (tb_last_refill b') - unat t0)) = unat cap * (1 + (unat (tb_last_refill b) - unat t0)) +
        unat cap * (unat (tb_last_refill b') - unat (tb_last_refill b))" by (simp only: add_mult_distrib2 add.assoc)
    have "total_granted (calls[i := call']) + unat (tb_tokens b') + unat cap * sum_list (map refilling (calls[i := call']))
       \<le> unat cap * (1 + (unat (tb_last_refill b') - unat t0))"
      unfolding t using acc inv(5) g(1) c by linarith
    moreover have "list_all (call_ok cap) (calls[i := call'])"
      using inv(4) acc by (auto simp: list_all_iff dest!: set_update_subset_insert [THEN subsetD])
    moreover have "t0 \<le> tb_last_refill b'" using inv(3) acc by (meson order_trans)
    ultimately show ?thesis using acc True st inv(1) by (simp add: bucket_inv_def bucket_step_def s e)
  next
    case False
    with assms show ?thesis by (simp add: s e bucket_step_def)
  qed
qed

lemma run_calls_inv: "bucket_inv cap t0 s \<Longrightarrow> bucket_inv cap t0 (run_calls gain sched s)"
  by (induction sched arbitrary: s) (simp_all add: run_calls_def bucket_step_inv)

lemma bucket_inv_start: "bucket_inv cap t0 (bucket_new cap t0, map ReadClock ns)"
proof -
  have "sum_list (map granted (map ReadClock ns)) = 0" "sum_list (map refilling (map ReadClock ns)) = 0"
    by (induction ns) simp_all
  then show ?thesis by (simp add: bucket_inv_def bucket_new_def total_granted_def list_all_iff)
qed

text \<open>The race: a call claims the refill of one second and reads the tokens, a second call takes all of them, the first
  stores the refilled count over that and takes one, and a third takes the rest.\<close>

definition lost_take :: "u64 \<Rightarrow> schedule" where
  "lost_take t = replicate 4 (0, t) @ replicate 4 (1, t) @ replicate 3 (0, t) @ replicate 4 (2, t)"

lemma lost_take_run:
  assumes "0 < cap" and "gain 1 > 0" and "t0 < t0 + 1"
  shows "run_calls gain (lost_take (t0 + 1)) (bucket_new cap t0, map ReadClock [1, cap, cap - 1]) =
    (\<lparr>tb_tokens = 0, tb_capacity = cap, tb_last_refill = t0 + 1\<rparr>, [Returned 1 True, Returned cap True, Returned (cap - 1) True])"
proof -
  have full: "min cap (sat_add cap g) = cap" for g :: u64
    by (rule min_absorb1) (use unsigned_less [of cap, where 'a = nat] in \<open>simp add: word_le_nat_alt unat_sat_add\<close>)
  have one: "\<not> cap < 1" using assms(1) by (simp add: word_less_nat_alt unat_eq_0 [symmetric] del: unat_eq_zero)
  have ne: "cap \<noteq> 0" using assms(1) by auto
  have nle: "\<not> t0 + 1 \<le> t0" using assms(3) by simp
  show ?thesis
    using assms(2) by (simp add: run_calls_def lost_take_def numeral_eq_Suc bucket_step_def bucket_new_def full one nle ne)
qed
text \<open>C25: However the atomic steps of any number of calls interleave, and however long any of them pauses, a bucket grants at
  most its capacity once at the start and once more for every second that its clock has advanced, and never holds more
  than its capacity.\<close>

theorem grants_bounded_by_elapsed_time:
  "total_granted (snd (run_calls gain sched (bucket_new cap t0, map ReadClock ns))) \<le>
     unat cap * (1 + (unat (tb_last_refill (fst (run_calls gain sched (bucket_new cap t0, map ReadClock ns)))) - unat t0)) \<and>
   tb_tokens (fst (run_calls gain sched (bucket_new cap t0, map ReadClock ns))) \<le> cap"
  using run_calls_inv [OF bucket_inv_start [of cap t0 ns], of gain sched]
  by (cases "run_calls gain sched (bucket_new cap t0, map ReadClock ns)") (auto simp: bucket_inv_def)

text \<open>C26: The bound is reached: there is a schedule of three calls within one second after the bucket was made that grants
  twice the capacity, however little a second refills.  The refill stores a count it computed from an earlier reading, over
  what other calls took in between.\<close>

theorem refill_overwrites_takes:
  assumes "0 < cap" and "gain 1 > 0" and "t0 < t0 + 1"
  shows "total_granted (snd (run_calls gain (lost_take (t0 + 1)) (bucket_new cap t0, map ReadClock [1, cap, cap - 1]))) = 2 * unat cap"
proof -
  have "1 \<le> unat cap" using assms(1) by (simp add: word_less_nat_alt)
  moreover have "unat (cap - 1) = unat cap - 1" by (rule unat_minus_one) (use assms(1) in auto)
  ultimately show ?thesis unfolding lost_take_run [where gain = gain, OF assms] by (simp add: total_granted_def)
qed

lemma refill_overwrites_takes_witness:
  "total_granted (snd (run_calls (\<lambda>s. s) (lost_take (0 + 1)) (bucket_new 10 0, map ReadClock [1, 10, 10 - 1]))) = 20"
  using refill_overwrites_takes [of 10 "\<lambda>s. s" 0] by simp

subsection \<open>The limiter\<close>

text \<open>Buckets are shared by reference: the map holds addresses of buckets.\<close>

record rate_limiter =
  rl_buckets :: "(string \<times> nat) list"
  rl_arcs :: "token_bucket list"
  rl_default_capacity :: u64

definition limiter_new :: "u64 \<Rightarrow> rate_limiter" where
  "limiter_new capacity = \<lparr>rl_buckets = [], rl_arcs = [], rl_default_capacity = capacity\<rparr>"

text \<open>Where a call of \<open>check\<close> stands: before the lookup under the read lock, before the insertion under the write lock, before
  it consumes a token of its bucket.  The map is not locked between these.\<close>

datatype check = LookUp string | CreateBucket string | ConsumeOne nat | Checked bool

fun check_step :: "(u64 \<Rightarrow> u64) \<Rightarrow> u64 \<Rightarrow> rate_limiter \<Rightarrow> check \<Rightarrow> rate_limiter \<times> check" where
  "check_step gain clock rl (LookUp ip) =
     (rl, case map_of (rl_buckets rl) ip of Some a \<Rightarrow> ConsumeOne a | None \<Rightarrow> CreateBucket ip)"
| "check_step gain clock rl (CreateBucket ip) =
     (rl\<lparr>rl_arcs := rl_arcs rl @ [bucket_new (rl_default_capacity rl) clock],
         rl_buckets := AList.update ip (length (rl_arcs rl)) (rl_buckets rl)\<rparr>, ConsumeOne (length (rl_arcs rl)))"
| "check_step gain clock rl (ConsumeOne a) =
     (let (ok, b) = try_consume gain clock 1 (rl_arcs rl ! a) in (rl\<lparr>rl_arcs := (rl_arcs rl)[a := b]\<rparr>, Checked ok))"
| "check_step gain clock rl (Checked ok) = (rl, Checked ok)"

definition limiter_step :: "(u64 \<Rightarrow> u64) \<Rightarrow> nat \<times> u64 \<Rightarrow> rate_limiter \<times> check list \<Rightarrow> rate_limiter \<times> check list" where
  "limiter_step gain = (\<lambda>(i, clock) (rl, checks).
     if i < length checks then (let (rl', c) = check_step gain clock rl (checks ! i) in (rl', checks[i := c])) else (rl, checks))"

definition run_checks :: "(u64 \<Rightarrow> u64) \<Rightarrow> schedule \<Rightarrow> rate_limiter \<times> check list \<Rightarrow> rate_limiter \<times> check list" where
  "run_checks gain sched = fold (limiter_step gain) sched"

definition cleanup_stale :: "u64 \<Rightarrow> rate_limiter \<Rightarrow> rate_limiter" where
  "cleanup_stale now rl =
     rl\<lparr>rl_buckets := filter (\<lambda>(ip, a). tb_last_refill (rl_arcs rl ! a) \<ge> sat_sub now 300) (rl_buckets rl)\<rparr>"

text \<open>\<open>check\<close> without interruption.\<close>

definition check_ip :: "(u64 \<Rightarrow> u64) \<Rightarrow> u64 \<Rightarrow> string \<Rightarrow> rate_limiter \<Rightarrow> rate_limiter \<times> bool" where
  "check_ip gain now ip rl = (
     let (rl, c) = (case map_of (rl_buckets rl) ip of Some a \<Rightarrow> (rl, ConsumeOne a) | None \<Rightarrow> check_step gain now rl (CreateBucket ip));
         (rl, c) = check_step gain now rl c in
     (rl, c = Checked True))"

text \<open>The answers to \<open>k\<close> requests in a row.\<close>

fun check_times :: "(u64 \<Rightarrow> u64) \<Rightarrow> u64 \<Rightarrow> string \<Rightarrow> nat \<Rightarrow> rate_limiter \<Rightarrow> bool list" where
  "check_times gain now ip 0 rl = []"
| "check_times gain now ip (Suc k) rl = (let (rl, ok) = check_ip gain now ip rl in ok # check_times gain now ip k rl)"

lemma try_consume_now:
  "tb_last_refill b = now \<Longrightarrow> try_consume gain now 1 b = (if tb_tokens b = 0 then (False, b) else (True, b\<lparr>tb_tokens := tb_tokens b - 1\<rparr>))"
  by (auto simp: try_consume_def refill_def word_less_nat_alt unat_eq_zero)

lemma check_known:
  assumes "map_of (rl_buckets rl) ip = Some a" and "a < length (rl_arcs rl)" and "tb_last_refill (rl_arcs rl ! a) = now"
  shows "check_times gain now ip k rl =
    replicate (min k (unat (tb_tokens (rl_arcs rl ! a)))) True @ replicate (k - unat (tb_tokens (rl_arcs rl ! a))) False"
  using assms
proof (induction k arbitrary: rl)
  case (Suc k)
  let ?b = "rl_arcs rl ! a"
  show ?case
  proof (cases "tb_tokens ?b = 0")
    case True
    then have "check_ip gain now ip rl = (rl, False)" using Suc.prems by (simp add: check_ip_def try_consume_now)
    with Suc.IH [OF Suc.prems] True show ?thesis by simp
  next
    case False
    let ?rl = "rl\<lparr>rl_arcs := (rl_arcs rl)[a := ?b\<lparr>tb_tokens := tb_tokens ?b - 1\<rparr>]\<rparr>"
    have "check_ip gain now ip rl = (?rl, True)" using False Suc.prems by (simp add: check_ip_def try_consume_now)
    moreover have "check_times gain now ip k ?rl = replicate (min k (unat (tb_tokens ?b - 1))) True @ replicate (k - unat (tb_tokens ?b - 1)) False"
      using Suc.IH [of ?rl] Suc.prems by simp
    moreover have "unat (tb_tokens ?b) = Suc (unat (tb_tokens ?b - 1))" using False by (simp add: unat_minus_one unat_gt_0)
    ultimately show ?thesis by simp
  qed
qed simp

lemma check_fresh:
  assumes "map_of (rl_buckets rl) ip = None"
  shows "check_times gain now ip k rl = replicate (min k (unat (rl_default_capacity rl))) True @
    replicate (k - unat (rl_default_capacity rl)) False"
proof (cases k)
  case (Suc k')
  define rl' where "rl' = fst (check_step gain now rl (CreateBucket ip))"
  have known: "map_of (rl_buckets rl') ip = Some (length (rl_arcs rl))" by (simp add: rl'_def update_conv')
  have arc: "rl_arcs rl' ! length (rl_arcs rl) = bucket_new (rl_default_capacity rl) now"
    "length (rl_arcs rl) < length (rl_arcs rl')" by (simp_all add: rl'_def)
  have "check_ip gain now ip rl = check_ip gain now ip rl'"
    using assms known by (simp add: check_ip_def rl'_def)
  then have "check_times gain now ip k rl = check_times gain now ip k rl'" by (simp add: Suc)
  also have "\<dots> = replicate (min k (unat (rl_default_capacity rl))) True @ replicate (k - unat (rl_default_capacity rl)) False"
    using check_known [OF known arc(2), where now = now and k = k and gain = gain] by (simp add: arc(1) bucket_new_def)
  finally show ?thesis .
qed simp

subsection \<open>First visits at once\<close>

text \<open>The schedule in which \<open>k\<close> requests look the address up before any of them inserts a bucket.\<close>

definition all_look_first :: "nat \<Rightarrow> u64 \<Rightarrow> schedule" where
  "all_look_first k now = map (\<lambda>i. (i, now)) [0..<k] @ concat (map (\<lambda>i. [(i, now), (i, now)]) [0..<k])"

lemma nth_mid: "i < n \<Longrightarrow> (replicate i x @ replicate (n - i) y) ! i = y"
  by (simp add: nth_append)

lemma update_mid:
  assumes "i < n"
  shows "(replicate i x @ replicate (n - i) y)[i := x] = replicate (Suc i) x @ replicate (n - Suc i) y"
proof -
  obtain m where m: "n - i = Suc m" using assms by (cases "n - i") auto
  then have "n - Suc i = m" by simp
  then show ?thesis unfolding m by (simp add: list_update_append replicate_app_Cons_same)
qed

lemma all_look:
  assumes "map_of (rl_buckets rl) ip = None"
  shows "j \<le> k \<Longrightarrow> run_checks gain (map (\<lambda>i. (i, now)) [0..<j]) (rl, replicate k (LookUp ip)) =
    (rl, replicate j (CreateBucket ip) @ replicate (k - j) (LookUp ip))"
proof (induction j)
  case (Suc j)
  then show ?case using assms by (simp add: run_checks_def limiter_step_def nth_mid update_mid del: replicate.simps)
qed (simp add: run_checks_def)

lemma one_creates:
  assumes "i < k" and "0 < rl_default_capacity rl"
  shows "\<exists>rl'. run_checks gain [(i, now), (i, now)] (rl, replicate i (Checked True) @ replicate (k - i) (CreateBucket ip)) =
      (rl', replicate (Suc i) (Checked True) @ replicate (k - Suc i) (CreateBucket ip)) \<and>
    rl_default_capacity rl' = rl_default_capacity rl"
proof -
  let ?cs = "replicate i (Checked True) @ replicate (k - i) (CreateBucket ip)"
  have full: "try_consume gain now 1 (bucket_new (rl_default_capacity rl) now) =
      (True, (bucket_new (rl_default_capacity rl) now)\<lparr>tb_tokens := rl_default_capacity rl - 1\<rparr>)"
    using assms(2) by (subst try_consume_now) (auto simp: bucket_new_def)
  have "run_checks gain [(i, now), (i, now)] (rl, ?cs) =
      (rl\<lparr>rl_arcs := rl_arcs rl @ [(bucket_new (rl_default_capacity rl) now)\<lparr>tb_tokens := rl_default_capacity rl - 1\<rparr>],
         rl_buckets := AList.update ip (length (rl_arcs rl)) (rl_buckets rl)\<rparr>, ?cs[i := Checked True])"
    using assms(1) by (simp add: run_checks_def limiter_step_def nth_mid full)
  then show ?thesis using assms(1) by (simp add: update_mid del: replicate.simps)
qed

lemma all_create:
  assumes "0 < rl_default_capacity rl"
  shows "j \<le> k \<Longrightarrow> \<exists>rl'. run_checks gain (concat (map (\<lambda>i. [(i, now), (i, now)]) [0..<j])) (rl, replicate k (CreateBucket ip)) =
      (rl', replicate j (Checked True) @ replicate (k - j) (CreateBucket ip)) \<and> rl_default_capacity rl' = rl_default_capacity rl"
proof (induction j)
  case (Suc j)
  then obtain rl1 where r: "run_checks gain (concat (map (\<lambda>i. [(i, now), (i, now)]) [0..<j])) (rl, replicate k (CreateBucket ip)) =
      (rl1, replicate j (Checked True) @ replicate (k - j) (CreateBucket ip))" "rl_default_capacity rl1 = rl_default_capacity rl" by auto
  from Suc.prems have "j < k" by simp
  from one_creates [OF this, of rl1 gain now ip] assms r(2) obtain rl2 where
    "run_checks gain [(j, now), (j, now)] (rl1, replicate j (Checked True) @ replicate (k - j) (CreateBucket ip)) =
      (rl2, replicate (Suc j) (Checked True) @ replicate (k - Suc j) (CreateBucket ip))"
    "rl_default_capacity rl2 = rl_default_capacity rl" by auto
  with r(1) show ?case by (intro exI [of _ rl2]) (simp add: run_checks_def del: replicate.simps)
qed (simp add: run_checks_def)

text \<open>C27: Requests from an address without a bucket: one after the other within a second, the first ones pass up to the
  capacity and all others are refused.  When they arrive at once and all look the address up before one of them inserts a
  bucket, every one of them passes, however many they are: each makes a bucket of its own.\<close>

theorem first_visits_all_pass:
  assumes "map_of (rl_buckets rl) ip = None" and "0 < rl_default_capacity rl"
  shows "check_times gain now ip k rl =
      replicate (min k (unat (rl_default_capacity rl))) True @ replicate (k - unat (rl_default_capacity rl)) False \<and>
    snd (run_checks gain (all_look_first k now) (rl, replicate k (LookUp ip))) = replicate k (Checked True)"
proof
  show "check_times gain now ip k rl =
      replicate (min k (unat (rl_default_capacity rl))) True @ replicate (k - unat (rl_default_capacity rl)) False"
    by (rule check_fresh [OF assms(1)])
  obtain rl' where "run_checks gain (concat (map (\<lambda>i. [(i, now), (i, now)]) [0..<k])) (rl, replicate k (CreateBucket ip)) =
      (rl', replicate k (Checked True))"
    using all_create [OF assms(2), of k k gain now ip] by auto
  with all_look [OF assms(1), of k k gain now] show "snd (run_checks gain (all_look_first k now) (rl, replicate k (LookUp ip))) =
      replicate k (Checked True)"
    by (simp add: run_checks_def all_look_first_def)
qed

lemma first_visits_all_pass_witness:
  "check_times (\<lambda>s. s) 0 ''10.0.0.1'' 3 (limiter_new 2) = [True, True, False] \<and>
   snd (run_checks (\<lambda>s. s) (all_look_first 3 0) (limiter_new 2, replicate 3 (LookUp ''10.0.0.1''))) = replicate 3 (Checked True)"
proof -
  have two: "unat (2 :: u64) = 2" by simp
  have "replicate (min 3 2) True @ replicate (3 - 2) False = [True, True, False]" by (simp add: numeral_2_eq_2)
  then show ?thesis
    using first_visits_all_pass [of "limiter_new 2" "''10.0.0.1''" "\<lambda>s. s" 0 3] unfolding limiter_new_def
    by (simp only: rate_limiter.simps two map_of.simps) simp
qed

end
