(* ===== verification/WeightRowCache.thy ===== *)
theory WeightRowCache
  imports Recency "HOL-Library.Multiset"
begin

text \<open>
  The cache of output weight rows of \<open>ane/weight_row_cache.rs\<close>: the slot allocator, the conversions between
  single and half precision on bit patterns, loading, prefetching and reading rows.  The arena is its list of half
  precision words.  Single precision numbers are their bit patterns; their sum and product, the extraction of a row from the
  weight array and whether the arena can be locked are parameters.  Fewer than \<open>2 ^ 64 - 1\<close> accesses are made, so access
  numbers are natural numbers and \<open>u64::MAX\<close> is above all of them.
\<close>

type_synonym u16 = "16 word"

record slot_allocator =
  sa_max_slots :: nat
  sa_occupied :: "u32 option list"
  sa_lru_order :: "nat list"
  sa_access_counter :: nat

definition slots_new :: "nat \<Rightarrow> slot_allocator" where
  "slots_new max_slots = \<lparr>sa_max_slots = max_slots, sa_occupied = replicate max_slots None,
     sa_lru_order = replicate max_slots 0, sa_access_counter = 0\<rparr>"

text \<open>The loop of \<open>find_victim\<close>; \<open>None\<close> is \<open>u64::MAX\<close>.\<close>

fun victim_scan :: "nat \<Rightarrow> nat \<Rightarrow> nat option \<Rightarrow> nat list \<Rightarrow> nat" where
  "victim_scan i min_idx min_val [] = min_idx"
| "victim_scan i min_idx min_val (seq # seqs) =
     (if (case min_val of None \<Rightarrow> True | Some m \<Rightarrow> seq < m) then victim_scan (i + 1) i (Some seq) seqs
      else victim_scan (i + 1) min_idx min_val seqs)"

definition find_victim :: "slot_allocator \<Rightarrow> nat" where
  "find_victim a = victim_scan 0 0 None (sa_lru_order a)"

text \<open>An allocator without slots panics, \<open>None\<close>.\<close>

definition allocate_slot :: "u32 \<Rightarrow> slot_allocator \<Rightarrow> ((nat \<times> bool) \<times> slot_allocator) option" where
  "allocate_slot token a =
     (case find_idx (\<lambda>slot. slot = Some token) (sa_occupied a) of
        Some idx \<Rightarrow> Some ((idx, True), a\<lparr>sa_lru_order := (sa_lru_order a)[idx := sa_access_counter a],
          sa_access_counter := sa_access_counter a + 1\<rparr>)
      | None \<Rightarrow> (let slot_idx = find_victim a in
          if slot_idx < length (sa_occupied a) then
            Some ((slot_idx, False), a\<lparr>sa_occupied := (sa_occupied a)[slot_idx := Some token],
              sa_lru_order := (sa_lru_order a)[slot_idx := sa_access_counter a],
              sa_access_counter := sa_access_counter a + 1\<rparr>)
          else None))"

definition slot_lookup :: "slot_allocator \<Rightarrow> u32 \<Rightarrow> nat option" where
  "slot_lookup a token = find_idx (\<lambda>slot. slot = Some token) (sa_occupied a)"

definition token_at :: "slot_allocator \<Rightarrow> nat \<Rightarrow> u32 option" where
  "token_at a slot = (if slot < length (sa_occupied a) then sa_occupied a ! slot else None)"

definition occupied_count :: "slot_allocator \<Rightarrow> nat" where
  "occupied_count a = length (filter (\<lambda>slot. slot \<noteq> None) (sa_occupied a))"

definition slots_clear :: "slot_allocator \<Rightarrow> slot_allocator" where
  "slots_clear a = a\<lparr>sa_occupied := map (\<lambda>_. None) (sa_occupied a), sa_lru_order := map (\<lambda>_. 0) (sa_lru_order a),
     sa_access_counter := 0\<rparr>"

subsection \<open>Half precision\<close>

definition f32_to_f16 :: "u32 \<Rightarrow> u16" where
  "f32_to_f16 bits = (
     let sign = ucast (drop_bit 31 bits AND 1) :: u16; expo = uint (drop_bit 23 bits AND 0xFF); mant = bits AND 0x7FFFFF in
     if expo = 0xFF then push_bit 15 sign OR 0x7C00 OR (if mant \<noteq> 0 then 0x0200 else 0)
     else if expo = 0 then push_bit 15 sign
     else let new_exp = expo - 127 + 15 in
       if new_exp \<ge> 31 then push_bit 15 sign OR 0x7C00
       else if new_exp \<le> 0 then push_bit 15 sign
       else push_bit 15 sign OR push_bit 10 (word_of_int new_exp) OR ucast (drop_bit 13 mant))"

definition leading_zeros :: "u32 \<Rightarrow> nat" where
  "leading_zeros w = length (takeWhile (\<lambda>i. \<not> bit w i) (rev [0..<32]))"

definition f16_to_f32 :: "u16 \<Rightarrow> u32" where
  "f16_to_f32 h = (
     let sign = ucast (drop_bit 15 h AND 1) :: u32; expo = ucast (drop_bit 10 h AND 0x1F) :: u32; mant = ucast (h AND 0x03FF) :: u32 in
     if expo = 0 then
       (if mant = 0 then push_bit 31 sign
        else let leading = leading_zeros mant - 21;
                 norm_exp = push_bit 23 (word_of_int (127 - 15 - int leading));
                 norm_mant = push_bit (leading + 1) mant AND 0x7FFFFF in
          push_bit 31 sign OR norm_exp OR norm_mant)
     else if expo = 31 then
       (let mant32 = (if mant = 0 then 0 else push_bit 13 mant OR 0x7FFFFF) in push_bit 31 sign OR 0x7F800000 OR mant32)
     else push_bit 31 sign OR push_bit 23 (expo + (127 - 15)) OR push_bit 13 mant)"

subsection \<open>Rows\<close>

record weight_row_cache =
  wr_rows :: "u16 list"
  wr_cached_token_ids :: "u32 list"
  wr_max_rows :: nat
  wr_hidden_size :: nat
  wr_slots :: slot_allocator

datatype row_error = RowTooShort nat nat | ArenaLock | ArenaUnlock | ExtractError

text \<open>The loop over \<open>0..hs\<close> that writes a row at its offset.\<close>

fun write_row :: "nat \<Rightarrow> u32 list \<Rightarrow> u16 list \<Rightarrow> u16 list" where
  "write_row offset [] rows = rows"
| "write_row offset (x # xs) rows = write_row (offset + 1) xs (rows[offset := f32_to_f16 x])"

definition load_row :: "bool \<Rightarrow> bool \<Rightarrow> u32 \<Rightarrow> u32 list \<Rightarrow> weight_row_cache \<Rightarrow> ((row_error + unit) \<times> weight_row_cache) option" where
  "load_row lock_ok unlock_ok token row_data c = (
     case allocate_slot token (wr_slots c) of None \<Rightarrow> None
     | Some ((slot_idx, already_cached), slots) \<Rightarrow>
         (let c = c\<lparr>wr_slots := slots\<rparr>; hs = wr_hidden_size c in
          if length row_data < hs then Some (Inl (RowTooShort (length row_data) hs), c)
          else if \<not> lock_ok then Some (Inl ArenaLock, c)
          else let c = c\<lparr>wr_rows := write_row (slot_idx * hs) (take hs row_data) (wr_rows c)\<rparr> in
            if \<not> unlock_ok then Some (Inl ArenaUnlock, c)
            else Some (Inr (), c\<lparr>wr_cached_token_ids := (wr_cached_token_ids c)[slot_idx := token]\<rparr>)))"

text \<open>The environment of a prefetch says, for each token, what the extraction gives and whether the arena locks and unlocks.\<close>

type_synonym row_env = "u32 \<Rightarrow> (row_error + u32 list) \<times> bool \<times> bool"

fun prefetch_rows :: "row_env \<Rightarrow> u32 list \<Rightarrow> weight_row_cache \<Rightarrow> ((row_error + unit) \<times> weight_row_cache) option" where
  "prefetch_rows env [] c = Some (Inr (), c)"
| "prefetch_rows env (token # tokens) c =
     (if slot_lookup (wr_slots c) token \<noteq> None then
        (case allocate_slot token (wr_slots c) of None \<Rightarrow> None
         | Some (_, slots) \<Rightarrow> prefetch_rows env tokens (c\<lparr>wr_slots := slots\<rparr>))
      else (case env token of
         (Inl e, _) \<Rightarrow> Some (Inl e, c)
       | (Inr row_data, lock_ok, unlock_ok) \<Rightarrow>
           (case load_row lock_ok unlock_ok token row_data c of None \<Rightarrow> None
            | Some (Inl e, c) \<Rightarrow> Some (Inl e, c)
            | Some (Inr _, c) \<Rightarrow> prefetch_rows env tokens c)))"

definition row_at :: "weight_row_cache \<Rightarrow> nat \<Rightarrow> u16 list" where
  "row_at c slot = take (wr_hidden_size c) (drop (slot * wr_hidden_size c) (wr_rows c))"

text \<open>The accumulation of a logit; a hidden state shorter than the row panics.\<close>

fun dot_row :: "(u32 \<Rightarrow> u32 \<Rightarrow> u32) \<Rightarrow> (u32 \<Rightarrow> u32 \<Rightarrow> u32) \<Rightarrow> u32 \<Rightarrow> u16 list \<Rightarrow> u32 list \<Rightarrow> u32 option" where
  "dot_row add mul logit [] hs = Some logit"
| "dot_row add mul logit (w # ws) [] = None"
| "dot_row add mul logit (w # ws) (h # hs) = dot_row add mul (add logit (mul (f16_to_f32 w) h)) ws hs"

definition read_logit ::
  "(u32 \<Rightarrow> u32 \<Rightarrow> u32) \<Rightarrow> (u32 \<Rightarrow> u32 \<Rightarrow> u32) \<Rightarrow> weight_row_cache \<Rightarrow> u32 \<Rightarrow> u32 list \<Rightarrow> u32 option option" where
  "read_logit add mul c token hidden_state =
     (case slot_lookup (wr_slots c) token of None \<Rightarrow> Some None
      | Some slot \<Rightarrow> map_option Some (dot_row add mul 0 (row_at c slot) hidden_state))"

definition row_cache_new :: "u16 list \<Rightarrow> nat \<Rightarrow> nat \<Rightarrow> weight_row_cache" where
  "row_cache_new rows max_rows hidden_size = \<lparr>wr_rows = rows, wr_cached_token_ids = replicate max_rows 0,
     wr_max_rows = max_rows, wr_hidden_size = hidden_size, wr_slots = slots_new max_rows\<rparr>"

subsection \<open>The round trip of half precision\<close>

lemma bit_below: "take_bit n w = w \<Longrightarrow> bit w i \<Longrightarrow> i < n" for w :: "'a::len word"
  by (metis bit_take_bit_iff)

lemma bit_above: "take_bit n w = w \<Longrightarrow> n \<le> i \<Longrightarrow> bit w i = False" for w :: "'a::len word"
  by (metis bit_take_bit_iff leD)

lemma pack_fields:
  fixes s e m :: u32
  assumes "take_bit 1 s = s" and "take_bit 8 e = e" and "take_bit 23 m = m"
  defines "x \<equiv> push_bit 31 s OR push_bit 23 e OR m"
  shows "drop_bit 31 x AND 1 = s" "drop_bit 23 x AND 0xFF = e" "x AND 0x7FFFFF = m"
proof -
  have masks: "(0xFF :: u32) = mask 8" "(0x7FFFFF :: u32) = mask 23" by (simp_all add: mask_eq_exp_minus_1)
  note above = bit_above [OF assms(1)] bit_above [OF assms(2)] bit_above [OF assms(3)]
  have "bit (drop_bit 31 x AND 1) n = bit s n" for n
    by (cases "n = 0") (auto simp: x_def bit_simps above simp del: and_one_eq bit_0)
  then show "drop_bit 31 x AND 1 = s" by (intro bit_word_eqI) simp
  have "bit (drop_bit 23 x AND mask 8) n = bit e n" for n
    by (cases "n < 8") (auto simp: x_def bit_simps above)
  then show "drop_bit 23 x AND 0xFF = e" unfolding masks by (intro bit_word_eqI) simp
  have "bit (x AND mask 23) n = bit m n" for n
    by (cases "n < 23") (auto simp: x_def bit_simps above)
  then show "x AND 0x7FFFFF = m" unfolding masks by (intro bit_word_eqI) simp
qed

lemma f32_to_f16_packed:
  assumes "take_bit 1 s = s" and "take_bit 8 e = e" and "take_bit 23 m = m"
  shows "f32_to_f16 (push_bit 31 s OR push_bit 23 e OR m) =
    (if uint e = 0xFF then push_bit 15 (ucast s) OR 0x7C00 OR (if m \<noteq> 0 then 0x0200 else 0)
     else if uint e = 0 then push_bit 15 (ucast s)
     else if uint e - 112 \<ge> 31 then push_bit 15 (ucast s) OR 0x7C00
     else if uint e - 112 \<le> 0 then push_bit 15 (ucast s)
     else push_bit 15 (ucast s) OR push_bit 10 (word_of_int (uint e - 112)) OR ucast (drop_bit 13 m))"
  unfolding f32_to_f16_def Let_def pack_fields [OF assms] by (simp add: diff_diff_eq)

lemma low_bits:
  fixes h :: u16
  shows "take_bit 1 (ucast (drop_bit 15 h AND 1) :: u32) = ucast (drop_bit 15 h AND 1)"
    and "take_bit 5 (drop_bit 10 h AND 0x1F) = drop_bit 10 h AND 0x1F"
    and "take_bit 10 (h AND 0x3FF) = h AND 0x3FF"
proof -
  have masks: "(0x1F :: u16) = mask 5" "(0x3FF :: u16) = mask 10" by (simp_all add: mask_eq_exp_minus_1)
  show "take_bit 1 (ucast (drop_bit 15 h AND 1) :: u32) = ucast (drop_bit 15 h AND 1)"
    by (cases "odd (drop_bit 15 h)") (simp_all add: and_one_eq mod2_eq_if)
  show "take_bit 5 (drop_bit 10 h AND 0x1F) = drop_bit 10 h AND 0x1F" unfolding masks
    by (rule bit_word_eqI) (auto simp: bit_simps)
  show "take_bit 10 (h AND 0x3FF) = h AND 0x3FF" unfolding masks by (rule bit_word_eqI) (auto simp: bit_simps)
qed

lemma h_fields:
  fixes h :: u16
  shows "push_bit 15 (ucast (ucast (drop_bit 15 h AND 1) :: u32)) = h AND 0x8000"
    and "(h AND 0x8000) OR push_bit 10 (drop_bit 10 h AND 0x1F) OR (h AND 0x3FF) = h"
proof -
  have masks: "(0x1F :: u16) = mask 5" "(0x3FF :: u16) = mask 10" "(0x8000 :: u16) = 2 ^ 15"
    by (simp_all add: mask_eq_exp_minus_1)
  have top: "bit (0x8000 :: u16) n \<longleftrightarrow> n = 15" for n unfolding masks(3) bit_exp_iff by auto
  have hi: "bit (h AND 0x8000) n \<longleftrightarrow> n = 15 \<and> bit h 15" for n by (auto simp only: bit_and_iff top)
  have "push_bit 15 (ucast (ucast (drop_bit 15 h AND 1) :: u32)) = (if bit h 15 then 0x8000 else (0 :: u16))"
    by (simp add: and_one_eq mod2_eq_if bit_iff_odd_drop_bit)
  moreover have "h AND 0x8000 = (if bit h 15 then 0x8000 else 0)"
    by (rule bit_word_eqI, cases "bit h 15") (simp_all only: hi if_True if_False top simp_thms bit_0_eq bot_apply bot_bool_def)
  ultimately show "push_bit 15 (ucast (ucast (drop_bit 15 h AND 1) :: u32)) = h AND 0x8000" by (simp only:)
  have "bit ((h AND 0x8000) OR push_bit 10 (drop_bit 10 h AND mask 5) OR (h AND mask 10)) n = bit h n" if "n < 16" for n
    unfolding bit_or_iff hi by (cases "n = 15"; cases "n < 10") (use that in \<open>auto simp: bit_simps\<close>)
  then show "(h AND 0x8000) OR push_bit 10 (drop_bit 10 h AND 0x1F) OR (h AND 0x3FF) = h" unfolding masks(1,2)
    by (intro bit_word_eqI) simp
qed

lemma take_bit_23 [simp]:
  "take_bit 10 m = m \<Longrightarrow> take_bit 23 (push_bit 13 (ucast m :: u32)) = push_bit 13 (ucast m)" for m :: u16
  by (rule bit_word_eqI) (auto simp: bit_simps dest: bit_below)

lemma or_low_bits_nonzero: "w OR 0x7FFFFF \<noteq> (0 :: u32)"
proof
  assume "w OR 0x7FFFFF = 0"
  with le_word_or1 [of "0x7FFFFF" w] have "(0x7FFFFF :: u32) \<le> 0" by simp
  then show False by simp
qed

lemma subnormal_exponent:
  assumes "k \<le> 11"
  shows "uint (word_of_int (127 - 15 - int k) :: u32) = 112 - int k"
    and "take_bit 8 (word_of_int (127 - 15 - int k) :: u32) = word_of_int (127 - 15 - int k)"
proof -
  from assms have "k = 0 \<or> k = 1 \<or> k = 2 \<or> k = 3 \<or> k = 4 \<or> k = 5 \<or> k = 6 \<or> k = 7 \<or> k = 8 \<or> k = 9 \<or> k = 10 \<or> k = 11"
    by presburger
  then show "uint (word_of_int (127 - 15 - int k) :: u32) = 112 - int k"
    and "take_bit 8 (word_of_int (127 - 15 - int k) :: u32) = word_of_int (127 - 15 - int k)"
    by (elim disjE; simp)+
qed

lemma field_uints:
  fixes h :: u16
  shows "uint (ucast (drop_bit 10 h AND 0x1F) :: u32) = uint (drop_bit 10 h AND 0x1F)" "uint (drop_bit 10 h AND 0x1F) < 32"
    and "(ucast (h AND 0x3FF) :: u32) = 0 \<longleftrightarrow> h AND 0x3FF = 0"
proof -
  show "uint (ucast (drop_bit 10 h AND 0x1F) :: u32) = uint (drop_bit 10 h AND 0x1F)" by (simp add: uint_up_ucast is_up)
  show "uint (drop_bit 10 h AND 0x1F) < 32" using word_and_le1 [of "drop_bit 10 h" "0x1F"] by (simp add: word_le_def)
  have "uint (ucast (h AND 0x3FF) :: u32) = uint (h AND 0x3FF)" by (simp add: uint_up_ucast is_up)
  then show "(ucast (h AND 0x3FF) :: u32) = 0 \<longleftrightarrow> h AND 0x3FF = 0" by (simp add: word_uint_eq_iff)
qed

lemmas packed_half = f32_to_f16_packed [OF low_bits(1)]

lemma subnormal_roundtrip:
  assumes "drop_bit 10 h AND 0x1F = 0"
  shows "f32_to_f16 (f16_to_f32 h) = h AND 0x8000"
proof -
  let ?s = "ucast (drop_bit 15 h AND 1) :: u32"
  let ?m = "h AND 0x3FF"
  show ?thesis
  proof (cases "?m = 0")
    case True
    have "f16_to_f32 h = push_bit 31 ?s OR push_bit 23 0 OR 0" using assms True by (simp add: f16_to_f32_def Let_def)
    moreover have "f32_to_f16 (push_bit 31 ?s OR push_bit 23 0 OR 0) = push_bit 15 (ucast ?s)"
      by (subst packed_half) simp_all
    ultimately show ?thesis using h_fields(1) by simp
  next
    case False
    let ?l = "leading_zeros (ucast ?m) - 21"
    let ?x = "word_of_int (127 - 15 - int ?l) :: u32"
    let ?y = "push_bit (?l + 1) (ucast ?m) AND 0x7FFFFF :: u32"
    have "leading_zeros w \<le> 32" for w
      unfolding leading_zeros_def using length_takeWhile_le [of "\<lambda>i. \<not> bit w i" "rev [0..<32]"] by simp
    then have l: "?l \<le> 11" by (simp add: le_diff_conv)
    note x = subnormal_exponent(1) [OF l]
    note subnormal_exponent(2) [OF l]
    moreover have "take_bit 23 ?y = ?y" by (simp add: take_bit_eq_mask mask_eq_exp_minus_1 and.assoc)
    moreover have "f16_to_f32 h = push_bit 31 ?s OR push_bit 23 ?x OR ?y"
      using assms False field_uints(3) [of h] by (simp add: f16_to_f32_def Let_def)
    ultimately have "f32_to_f16 (f16_to_f32 h) = push_bit 15 (ucast ?s)"
      using l x by (simp only: packed_half) simp
    then show ?thesis using h_fields(1) by simp
  qed
qed

lemma special_roundtrip:
  assumes "drop_bit 10 h AND 0x1F = 0x1F"
  shows "f32_to_f16 (f16_to_f32 h) = (if h AND 0x3FF \<noteq> 0 then (h AND 0x8000) OR 0x7E00 else h)"
proof -
  let ?s = "ucast (drop_bit 15 h AND 1) :: u32"
  let ?m = "h AND 0x3FF"
  let ?y = "(if ?m = 0 then 0 else push_bit 13 (ucast ?m) OR 0x7FFFFF) :: u32"
  have x: "f16_to_f32 h = push_bit 31 ?s OR push_bit 23 0xFF OR ?y"
    using assms field_uints(3) [of h] by (simp add: f16_to_f32_def Let_def)
  have "take_bit 23 (push_bit 13 (ucast ?m) :: u32) = push_bit 13 (ucast ?m)" by (rule take_bit_23 [OF low_bits(3)])
  then have "take_bit 23 ?y = ?y" by (simp add: take_bit_or)
  then have "f32_to_f16 (f16_to_f32 h) = push_bit 15 (ucast ?s) OR 0x7C00 OR (if ?y \<noteq> 0 then 0x0200 else 0)"
    unfolding x by (subst packed_half) simp_all
  then have r: "f32_to_f16 (f16_to_f32 h) = (h AND 0x8000) OR 0x7C00 OR (if ?y \<noteq> 0 then 0x0200 else 0)"
    unfolding h_fields(1) .
  show ?thesis
  proof (cases "?m = 0")
    case True
    have "(h AND 0x8000) OR 0x7C00 = h" using h_fields(2) [of h] unfolding assms True by simp
    with r True show ?thesis by simp
  next
    case False
    then have "?y \<noteq> 0" by (simp add: or_low_bits_nonzero)
    then have "f32_to_f16 (f16_to_f32 h) = (h AND 0x8000) OR (0x7C00 OR 0x0200)" unfolding r by simp
    with False show ?thesis by simp
  qed
qed

lemma normal_roundtrip:
  assumes "drop_bit 10 h AND 0x1F \<noteq> 0" and "drop_bit 10 h AND 0x1F \<noteq> 0x1F"
  shows "f32_to_f16 (f16_to_f32 h) = h"
proof -
  let ?s = "ucast (drop_bit 15 h AND 1) :: u32"
  let ?e = "drop_bit 10 h AND 0x1F"
  let ?m = "h AND 0x3FF"
  let ?x = "ucast ?e + (127 - 15) :: u32"
  let ?y = "push_bit 13 (ucast ?m) :: u32"
  note u = field_uints(1) [of h]
  have "uint ?e \<noteq> uint (0x1F :: u16)" "uint ?e \<noteq> uint (0 :: u16)" using assms unfolding word_uint_eq_iff by blast+
  then have ne: "uint ?e \<noteq> 31" "uint ?e \<noteq> 0" by simp_all
  then have en: "uint ?e < 31" "uint ?e > 0" using field_uints(2) [of h] uint_ge_0 [of ?e] by linarith+
  have "(ucast ?e :: u32) \<noteq> 0" "(ucast ?e :: u32) \<noteq> 31" using ne u by (auto simp: word_uint_eq_iff)
  then have x: "f16_to_f32 h = push_bit 31 ?s OR push_bit 23 ?x OR ?y" by (simp add: f16_to_f32_def Let_def)
  have ux: "uint ?x = uint ?e + 112" using en u by (simp add: uint_word_ariths)
  have "take_bit 8 ?x = ?x"
    by (simp only: word_uint_eq_iff unsigned_take_bit_eq ux) (use en in \<open>simp add: take_bit_int_eq_self\<close>)
  moreover have "take_bit 23 ?y = ?y" by (rule take_bit_23 [OF low_bits(3)])
  ultimately have "f32_to_f16 (f16_to_f32 h) = push_bit 15 (ucast ?s) OR push_bit 10 (word_of_int (uint ?e)) OR ucast (drop_bit 13 ?y)"
    unfolding x using en ux by (simp only: packed_half) simp
  moreover have "ucast (drop_bit 13 ?y) = ?m"
    by (rule bit_word_eqI) (auto simp: bit_simps dest: bit_below [OF low_bits(3)])
  ultimately show ?thesis using h_fields by simp
qed

text \<open>C28: Half precision words survive the conversion to single precision and back, with two exceptions: subnormal
  numbers become zero of their sign, and a NaN becomes the quiet NaN of its sign.  Subnormal numbers
  are already wrong in single precision: the smallest one, two to the power of minus 24, is \<open>0x33800000\<close> there.\<close>

theorem f16_roundtrip:
  "f32_to_f16 (f16_to_f32 h) =
    (if drop_bit 10 h AND 0x1F = 0 then h AND 0x8000
     else if drop_bit 10 h AND 0x1F = 0x1F \<and> h AND 0x3FF \<noteq> 0 then (h AND 0x8000) OR 0x7E00 else h) \<and>
   f16_to_f32 1 = 0x33000800"
proof
  show "f32_to_f16 (f16_to_f32 h) =
    (if drop_bit 10 h AND 0x1F = 0 then h AND 0x8000
     else if drop_bit 10 h AND 0x1F = 0x1F \<and> h AND 0x3FF \<noteq> 0 then (h AND 0x8000) OR 0x7E00 else h)"
    using subnormal_roundtrip [of h] special_roundtrip [of h] normal_roundtrip [of h]
    by (cases "drop_bit 10 h AND 0x1F = 0"; cases "drop_bit 10 h AND 0x1F = 0x1F") simp_all
  show "f16_to_f32 1 = 0x33000800" by code_simp
qed


subsection \<open>Least recently used\<close>

definition slot_entry :: "u32 option \<Rightarrow> nat \<Rightarrow> (nat \<times> u32) list" where
  "slot_entry slot seq = (case slot of None \<Rightarrow> [] | Some token \<Rightarrow> [(seq, token)])"

definition slot_entries :: "slot_allocator \<Rightarrow> (nat \<times> u32) list" where
  "slot_entries a = concat (map2 slot_entry (sa_occupied a) (sa_lru_order a))"

text \<open>The cached tokens, the least recently used first.\<close>

definition slot_queue :: "slot_allocator \<Rightarrow> u32 list" where
  "slot_queue a = map snd (sort_key fst (slot_entries a))"

text \<open>The state after the second allocation: free slots have number zero and occupied ones do not.\<close>

definition slots_ok :: "slot_allocator \<Rightarrow> bool" where
  "slots_ok a \<longleftrightarrow> length (sa_lru_order a) = length (sa_occupied a) \<and> sa_occupied a \<noteq> [] \<and> 0 < sa_access_counter a \<and>
     (\<forall>i < length (sa_occupied a). if sa_occupied a ! i = None then sa_lru_order a ! i = 0
        else 0 < sa_lru_order a ! i \<and> sa_lru_order a ! i < sa_access_counter a) \<and>
     distinct (map fst (slot_entries a)) \<and> distinct (map snd (slot_entries a))"

lemma slot_entries_update:
  assumes "i < length occ" and "length lru = length occ"
  shows "\<exists>xs ys. concat (map2 slot_entry occ lru) = xs @ slot_entry (occ ! i) (lru ! i) @ ys \<and>
    (\<forall>slot seq. concat (map2 slot_entry (occ[i := slot]) (lru[i := seq])) = xs @ slot_entry slot seq @ ys)"
proof (intro exI conjI allI)
  let ?xs = "concat (map2 slot_entry (take i occ) (take i lru))"
  let ?ys = "concat (map2 slot_entry (drop (Suc i) occ) (drop (Suc i) lru))"
  have l: "length (take i occ) = length (take i lru)" using assms by simp
  have "map2 slot_entry occ lru = map2 slot_entry (take i occ @ occ ! i # drop (Suc i) occ) (take i lru @ lru ! i # drop (Suc i) lru)"
    using assms id_take_nth_drop [of i occ] id_take_nth_drop [of i lru] by simp
  then show "concat (map2 slot_entry occ lru) = ?xs @ slot_entry (occ ! i) (lru ! i) @ ?ys"
    using l by (simp add: zip_append)
  fix slot seq
  show "concat (map2 slot_entry (occ[i := slot]) (lru[i := seq])) = ?xs @ slot_entry slot seq @ ?ys"
    using assms l by (simp add: upd_conv_take_nth_drop zip_append)
qed

lemma in_slot_entries:
  assumes "length (sa_lru_order a) = length (sa_occupied a)"
  shows "(q, t) \<in> set (slot_entries a) \<longleftrightarrow>
    (\<exists>i < length (sa_occupied a). sa_occupied a ! i = Some t \<and> sa_lru_order a ! i = q)"
proof -
  have entry: "(q, t) \<in> set (slot_entry slot seq) \<longleftrightarrow> slot = Some t \<and> seq = q" for slot seq
    by (auto simp: slot_entry_def split: option.splits)
  have "(q, t) \<in> set (slot_entries a) \<longleftrightarrow> (Some t, q) \<in> set (zip (sa_occupied a) (sa_lru_order a))"
    by (force simp: slot_entries_def entry)
  with assms show ?thesis by (auto simp: set_zip)
qed

lemma slot_lookup_queue:
  assumes "slots_ok a"
  shows "slot_lookup a t \<noteq> None \<longleftrightarrow> t \<in> set (slot_queue a)"
proof -
  have l: "length (sa_lru_order a) = length (sa_occupied a)" using assms by (simp add: slots_ok_def)
  have "slot_lookup a t \<noteq> None \<longleftrightarrow> Some t \<in> set (sa_occupied a)"
    unfolding slot_lookup_def find_idx_None [THEN arg_cong [where f = Not]] by auto
  also have "\<dots> \<longleftrightarrow> (\<exists>q. (q, t) \<in> set (slot_entries a))" unfolding in_slot_entries [OF l] by (auto simp: in_set_conv_nth)
  also have "\<dots> \<longleftrightarrow> t \<in> set (slot_queue a)" by (force simp: slot_queue_def)
  finally show ?thesis .
qed

text \<open>A list of the entries in the order of their numbers determines the queue.\<close>

lemma slot_queue_eq:
  assumes "mset zs = mset (slot_entries a)" and "sorted (map fst zs)" and "distinct (map fst (slot_entries a))"
  shows "slot_queue a = map snd zs"
  unfolding slot_queue_def
  by (subst sort_key_inj_key_eq [OF assms(1) [symmetric] _ assms(2)]) (use assms(3) in \<open>simp_all add: distinct_map\<close>)

lemma victim_scan_spec:
  "(case min_val of None \<Rightarrow> seqs \<noteq> [] | Some m \<Rightarrow> True) \<Longrightarrow>
    (\<exists>m. min_val = Some m \<and> victim_scan i min_idx min_val seqs = min_idx \<and> (\<forall>q \<in> set seqs. m \<le> q)) \<or>
    (\<exists>k < length seqs. victim_scan i min_idx min_val seqs = i + k \<and> (\<forall>q \<in> set seqs. seqs ! k \<le> q) \<and>
      (\<forall>m. min_val = Some m \<longrightarrow> seqs ! k < m))"
proof (induction seqs arbitrary: i min_idx min_val)
  case (Cons x xs)
  show ?case
  proof (cases "case min_val of None \<Rightarrow> True | Some m \<Rightarrow> x < m")
    case True
    from Cons.IH [of "Some x" "i + 1" i] consider
      "victim_scan (i + 1) i (Some x) xs = i" "\<forall>q \<in> set xs. x \<le> q" |
      k where "k < length xs" "victim_scan (i + 1) i (Some x) xs = i + 1 + k" "\<forall>q \<in> set xs. xs ! k \<le> q" "xs ! k < x" by auto
    then show ?thesis
    proof cases
      case 1
      with True show ?thesis by (intro disjI2 exI [of _ 0]) (auto split: option.splits)
    next
      case 2
      with True show ?thesis by (intro disjI2 exI [of _ "Suc k"]) (auto split: option.splits)
    qed
  next
    case False
    then obtain m where m: "min_val = Some m" "m \<le> x" by (auto split: option.splits)
    with Cons.IH [of min_val "i + 1" min_idx] consider
      "victim_scan (i + 1) min_idx min_val xs = min_idx" "\<forall>q \<in> set xs. m \<le> q" |
      k where "k < length xs" "victim_scan (i + 1) min_idx min_val xs = i + 1 + k" "\<forall>q \<in> set xs. xs ! k \<le> q" "xs ! k < m" by auto
    then show ?thesis
    proof cases
      case 1
      with m show ?thesis by auto
    next
      case 2
      with m show ?thesis by (intro disjI2 exI [of _ "Suc k"]) auto
    qed
  qed
qed (auto split: option.splits)

lemma find_victim_spec:
  assumes "sa_lru_order a \<noteq> []"
  shows "find_victim a < length (sa_lru_order a)" "\<forall>q \<in> set (sa_lru_order a). sa_lru_order a ! find_victim a \<le> q"
  using victim_scan_spec [where min_val = None and seqs = "sa_lru_order a" and i = 0 and min_idx = 0] assms by (auto simp: find_victim_def)


text \<open>Writing token \<open>t\<close> with the next access number into slot \<open>i\<close>.\<close>

lemma slot_write:
  assumes ok: "slots_ok a" and i: "i < length (sa_occupied a)"
    and fresh: "\<forall>q u. (q, u) \<in> set (slot_entries a) \<and> u = t \<longrightarrow> sa_occupied a ! i = Some t"
  defines "b \<equiv> a\<lparr>sa_occupied := (sa_occupied a)[i := Some t], sa_lru_order := (sa_lru_order a)[i := sa_access_counter a],
    sa_access_counter := sa_access_counter a + 1\<rparr>"
  shows "slots_ok b" "slot_queue b = (case sa_occupied a ! i of None \<Rightarrow> slot_queue a | Some u \<Rightarrow> remove1 u (slot_queue a)) @ [t]"
proof -
  let ?c = "sa_access_counter a"
  have l: "length (sa_lru_order a) = length (sa_occupied a)" using ok by (simp add: slots_ok_def)
  from slot_entries_update [OF i l] obtain xs ys where
    es: "slot_entries a = xs @ slot_entry (sa_occupied a ! i) (sa_lru_order a ! i) @ ys" and
    fs: "slot_entries b = xs @ [(?c, t)] @ ys"
    by (auto simp: slot_entries_def b_def slot_entry_def)
  have less: "q < ?c" if "(q, u) \<in> set (slot_entries a)" for q u
    using that ok unfolding in_slot_entries [OF l] slots_ok_def by (metis option.distinct(1))
  have d: "distinct (map fst (slot_entries a))" "distinct (map snd (slot_entries a))" using ok by (simp_all add: slots_ok_def)
  have t: "t \<notin> snd ` set (xs @ ys)"
  proof
    assume "t \<in> snd ` set (xs @ ys)"
    then obtain q where q: "(q, t) \<in> set (xs @ ys)" by force
    with es fresh have "sa_occupied a ! i = Some t" by auto
    with q es d(2) show False by (force simp: slot_entry_def)
  qed
  have c: "?c \<notin> fst ` set (xs @ ys)" using less es by fastforce
  have fd: "distinct (map fst (slot_entries b))" "distinct (map snd (slot_entries b))"
    using d t c unfolding es fs by (auto simp: slot_entry_def split: option.splits)
  have bl: "length (sa_lru_order b) = length (sa_occupied b)" "length (sa_occupied b) = length (sa_occupied a)"
    using l by (simp_all add: b_def)
  show "slots_ok b" using ok fd bl i unfolding slots_ok_def by (auto simp: b_def nth_list_update less_Suc_eq)
  define zs where "zs = sort_key fst (slot_entries a)"
  have zs: "mset zs = mset (slot_entries a)" "sorted (map fst zs)" "distinct (map snd zs)"
    using d(2) by (simp_all add: zs_def) (metis distinct_map mset_sort mset_eq_imp_distinct_iff set_sort mset_map)
  define rs where "rs = (case sa_occupied a ! i of None \<Rightarrow> zs | Some u \<Rightarrow> remove1 (sa_lru_order a ! i, u) zs)"
  have "mset rs = mset (xs @ ys)" "sorted (map fst rs)"
    using zs es by (auto simp: rs_def slot_entry_def sorted_map_remove1 zs_def split: option.splits)
  moreover from this(1) have "set rs = set (xs @ ys)" by (rule mset_eq_setD)
  with es have "set rs \<subseteq> set (slot_entries a)" by auto
  ultimately have rs: "mset rs = mset (xs @ ys)" "sorted (map fst rs)" "set rs \<subseteq> set (slot_entries a)" by simp_all
  have "slot_queue b = map snd (rs @ [(?c, t)])"
  proof (rule slot_queue_eq [OF _ _ fd(1)])
    show "mset (rs @ [(?c, t)]) = mset (slot_entries b)" using rs(1) by (simp add: fs)
    show "sorted (map fst (rs @ [(?c, t)]))" using rs(2,3) less by (fastforce simp: sorted_append)
  qed
  moreover have "map snd rs = (case sa_occupied a ! i of None \<Rightarrow> slot_queue a | Some u \<Rightarrow> remove1 u (slot_queue a))"
  proof (cases "sa_occupied a ! i")
    case (Some u)
    have "map snd (remove1 (q, u) zs) = remove1 u (map snd zs)" if "(q, u) \<in> set zs" for q
      using that zs(3)
    proof (induction zs)
      case (Cons z zs)
      then show ?case by (cases z) force
    qed simp
    moreover have "(sa_lru_order a ! i, u) \<in> set zs" using es Some by (simp add: zs_def slot_entry_def)
    ultimately show ?thesis using Some by (simp add: rs_def slot_queue_def zs_def)
  qed (simp add: rs_def slot_queue_def zs_def)
  ultimately show "slot_queue b = (case sa_occupied a ! i of None \<Rightarrow> slot_queue a | Some u \<Rightarrow> remove1 u (slot_queue a)) @ [t]" by simp
qed


lemma slot_queue_length:
  assumes "length (sa_lru_order a) = length (sa_occupied a)"
  shows "length (slot_queue a) = occupied_count a"
proof -
  have "length (concat (map2 slot_entry occ lru)) = length (filter (\<lambda>slot. slot \<noteq> None) occ)"
    if "length lru = length occ" for occ :: "u32 option list" and lru
    using that by (induction occ lru rule: list_induct2') (auto simp: slot_entry_def split: option.splits)
  with assms show ?thesis by (simp add: slot_queue_def slot_entries_def occupied_count_def)
qed

lemma occupied_count_full:
  assumes "\<forall>i < length (sa_occupied a). sa_occupied a ! i \<noteq> None"
  shows "occupied_count a = length (sa_occupied a)"
proof -
  have "filter (\<lambda>slot. slot \<noteq> None) (sa_occupied a) = sa_occupied a" using assms by (intro filter_True) (auto simp: in_set_conv_nth)
  then show ?thesis by (simp add: occupied_count_def)
qed

lemma occupied_count_le: "occupied_count a \<le> length (sa_occupied a)"
  by (simp add: occupied_count_def)

lemma occupied_count_less: "i < length (sa_occupied a) \<Longrightarrow> sa_occupied a ! i = None \<Longrightarrow> occupied_count a < length (sa_occupied a)"
  unfolding occupied_count_def by (rule length_filter_less [of None]) (auto simp: in_set_conv_nth)

text \<open>The least entry is the first of the queue.\<close>

lemma slot_queue_hd:
  assumes ok: "slots_ok a" and e: "(q, u) \<in> set (slot_entries a)" and least: "\<forall>e \<in> set (slot_entries a). q \<le> fst e"
  shows "\<exists>us. slot_queue a = u # us"
proof -
  define zs where "zs = sort_key fst (slot_entries a)"
  have zs: "set zs = set (slot_entries a)" "sorted (map fst zs)" by (simp_all add: zs_def)
  obtain z rest where z: "zs = z # rest" using zs e by (cases zs) auto
  have "(q, u) \<in> set (z # rest)" "\<forall>e \<in> set rest. fst z \<le> fst e" using e zs z by auto
  then have "fst z \<le> q" by auto
  moreover have "z \<in> set (slot_entries a)" using z zs(1) by auto
  ultimately have "fst z = q" using least by (simp add: order_antisym)
  have "inj_on fst (set (slot_entries a))" using ok by (simp add: slots_ok_def distinct_map)
  then have "z = (q, u)" by (rule inj_onD) (use \<open>fst z = q\<close> e \<open>z \<in> set (slot_entries a)\<close> in simp_all)
  with z show ?thesis by (simp add: slot_queue_def zs_def [symmetric])
qed

definition touch_slot :: "slot_allocator \<Rightarrow> u32 \<Rightarrow> slot_allocator option" where
  "touch_slot a token = map_option snd (allocate_slot token a)"

lemma touch_slot_queue:
  assumes ok: "slots_ok a"
  shows "\<exists>b. touch_slot a t = Some b \<and> slots_ok b \<and> length (sa_occupied b) = length (sa_occupied a) \<and>
    slot_queue b = last_n (length (sa_occupied a)) (remove1 t (slot_queue a) @ [t])"
proof -
  have l: "length (sa_lru_order a) = length (sa_occupied a)" using ok by (simp add: slots_ok_def)
  have len: "length (slot_queue a) \<le> length (sa_occupied a)" unfolding slot_queue_length [OF l] by (rule occupied_count_le)
  show ?thesis
  proof (cases "slot_lookup a t")
    case (Some i)
    then have i: "i < length (sa_occupied a)" "sa_occupied a ! i = Some t"
      using find_idx_Some [OF Some [unfolded slot_lookup_def]] by auto
    let ?b = "a\<lparr>sa_occupied := (sa_occupied a)[i := Some t], sa_lru_order := (sa_lru_order a)[i := sa_access_counter a],
      sa_access_counter := sa_access_counter a + 1\<rparr>"
    have "(sa_occupied a)[i := Some t] = sa_occupied a" using list_update_id [of "sa_occupied a" i] i(2) by simp
    then have "touch_slot a t = Some ?b" using Some unfolding slot_lookup_def
      by (cases a) (simp add: touch_slot_def allocate_slot_def)
    moreover have "slots_ok ?b" "slot_queue ?b = remove1 t (slot_queue a) @ [t]" using slot_write [OF ok i(1), of t] i(2) by simp_all
    moreover have "t \<in> set (slot_queue a)" using slot_lookup_queue [OF ok, of t] Some by simp
    then have "length (remove1 t (slot_queue a) @ [t]) \<le> length (sa_occupied a)"
      using len length_pos_if_in_set [of t "slot_queue a"] by (simp add: length_remove1)
    ultimately show ?thesis by (simp add: last_n_short)
  next
    case None
    let ?v = "find_victim a"
    have ne: "sa_lru_order a \<noteq> []" using ok l by (auto simp: slots_ok_def)
    have v: "?v < length (sa_occupied a)" "\<forall>q \<in> set (sa_lru_order a). sa_lru_order a ! ?v \<le> q"
      using find_victim_spec [of a] ne l by simp_all
    let ?b = "a\<lparr>sa_occupied := (sa_occupied a)[?v := Some t], sa_lru_order := (sa_lru_order a)[?v := sa_access_counter a],
      sa_access_counter := sa_access_counter a + 1\<rparr>"
    have b: "touch_slot a t = Some ?b" using None v(1) by (simp add: touch_slot_def allocate_slot_def slot_lookup_def Let_def)
    have tq: "t \<notin> set (slot_queue a)" using slot_lookup_queue [OF ok, of t] None by simp
    have fresh: "\<forall>q u. (q, u) \<in> set (slot_entries a) \<and> u = t \<longrightarrow> sa_occupied a ! ?v = Some t"
      using tq by (force simp: slot_queue_def)
    note w = slot_write [OF ok v(1) fresh]
    have "slot_queue ?b = last_n (length (sa_occupied a)) (slot_queue a @ [t])"
    proof (cases "sa_occupied a ! ?v")
      case None
      with w(2) have "slot_queue ?b = slot_queue a @ [t]" by simp
      moreover have "length (slot_queue a @ [t]) \<le> length (sa_occupied a)"
        using occupied_count_less [OF v(1) None] slot_queue_length [OF l] by simp
      ultimately show ?thesis by (simp add: last_n_short)
    next
      case (Some u)
      then have pos: "0 < sa_lru_order a ! ?v" using ok v(1) by (simp add: slots_ok_def)
      have "sa_occupied a ! i \<noteq> None" if "i < length (sa_occupied a)" for i
      proof
        assume "sa_occupied a ! i = None"
        then have "sa_lru_order a ! i = 0" using ok that unfolding slots_ok_def by metis
        moreover have "sa_lru_order a ! i \<in> set (sa_lru_order a)" using that l by simp
        ultimately show False using v(2) pos by force
      qed
      then have full: "length (slot_queue a) = length (sa_occupied a)"
        using occupied_count_full slot_queue_length [OF l] by simp
      have "(sa_lru_order a ! ?v, u) \<in> set (slot_entries a)" unfolding in_slot_entries [OF l] using v(1) Some by blast
      moreover have "\<forall>e \<in> set (slot_entries a). sa_lru_order a ! ?v \<le> fst e"
        using v(2) in_slot_entries [OF l] l by (fastforce simp: split_paired_all)
      ultimately obtain us where us: "slot_queue a = u # us" using slot_queue_hd [OF ok] by blast
      with w(2) Some full show ?thesis by (simp add: last_n_def)
    qed
    with b w(1) tq show ?thesis by (simp add: remove1_idem)
  qed
qed

interpretation slots: recency touch_slot "\<lambda>t. t" slot_queue "\<lambda>a. length (sa_occupied a)" slots_ok
proof
  fix s :: slot_allocator
  assume ok: "slots_ok s"
  then have l: "length (sa_lru_order s) = length (sa_occupied s)" by (simp add: slots_ok_def)
  have "distinct (slot_queue s)" using ok by (simp add: slots_ok_def slot_queue_def distinct_map)
  then show "distinct (slot_queue s) \<and> length (slot_queue s) \<le> length (sa_occupied s)"
    unfolding slot_queue_length [OF l] using occupied_count_le by blast
qed (use touch_slot_queue in simp)


text \<open>The first allocation writes number zero, which free slots have too: the second one takes its slot again.\<close>

lemma victim_scan_zero: "victim_scan i k (Some 0) seqs = k"
  by (induction seqs arbitrary: i) simp_all

lemma find_idx_replicate_None: "find_idx (\<lambda>slot. slot = Some t) (replicate n None) = None"
  by (simp add: find_idx_None)

lemma first_two:
  "run_opt touch_slot (slots_new (Suc n)) [t1, t2] =
    Some \<lparr>sa_max_slots = Suc n, sa_occupied = Some t2 # replicate n None, sa_lru_order = 1 # replicate n 0, sa_access_counter = 2\<rparr>"
proof -
  have rest: "find_idx (\<lambda>slot. slot = Some t) (replicate n None) = None" for t :: u32 by (simp add: find_idx_None)
  have "touch_slot (slots_new (Suc n)) t1 =
      Some \<lparr>sa_max_slots = Suc n, sa_occupied = Some t1 # replicate n None, sa_lru_order = 0 # replicate n 0, sa_access_counter = 1\<rparr>"
    by (simp add: touch_slot_def allocate_slot_def slots_new_def find_victim_def victim_scan_zero rest)
  moreover have "touch_slot \<lparr>sa_max_slots = Suc n, sa_occupied = Some t1 # replicate n None, sa_lru_order = 0 # replicate n 0,
      sa_access_counter = 1\<rparr> t2 =
      Some \<lparr>sa_max_slots = Suc n, sa_occupied = Some t2 # replicate n None, sa_lru_order = 1 # replicate n 0, sa_access_counter = 2\<rparr>"
    by (cases "t1 = t2") (simp_all add: touch_slot_def allocate_slot_def find_victim_def victim_scan_zero rest)
  ultimately show ?thesis by simp
qed

lemma slots_ok_two:
  "slots_ok \<lparr>sa_max_slots = Suc n, sa_occupied = Some t # replicate n None, sa_lru_order = 1 # replicate n 0, sa_access_counter = 2\<rparr> \<and>
   slot_queue \<lparr>sa_max_slots = Suc n, sa_occupied = Some t # replicate n None, sa_lru_order = 1 # replicate n 0, sa_access_counter = 2\<rparr> = [t]"
proof -
  have "concat (map2 slot_entry (replicate n None) lru) = []" for lru
    by (auto simp: slot_entry_def dest: set_zip_leftD)
  then have e: "slot_entries \<lparr>sa_max_slots = Suc n, sa_occupied = Some t # replicate n None, sa_lru_order = 1 # replicate n 0,
      sa_access_counter = 2\<rparr> = [(1, t)]"
    by (simp add: slot_entries_def slot_entry_def)
  show ?thesis unfolding slots_ok_def slot_queue_def e by (auto simp: nth_Cons')
qed

text \<open>C29: After a token \<open>t1\<close>, another one and any further ones were allocated in a cache of \<open>n\<close> slots, the cached tokens are
  the last \<open>n\<close> distinct tokens allocated after \<open>t1\<close>.  So the allocator is exact about the least recent use,
  except that the first token is thrown out by the second one however many slots are free.\<close>

theorem slot_allocator_lru:
  assumes "0 < n"
  shows "\<exists>a. run_opt touch_slot (slots_new n) (t1 # t2 # ts) = Some a \<and>
    (\<forall>t. slot_lookup a t \<noteq> None \<longleftrightarrow> t \<in> set (last_n n (remdups (t2 # ts))))"
proof -
  obtain m where n: "n = Suc m" using assms by (cases n) auto
  let ?a = "\<lparr>sa_max_slots = Suc m, sa_occupied = Some t2 # replicate m None, sa_lru_order = 1 # replicate m 0, sa_access_counter = 2\<rparr>"
  from slots.touches_queue [of ?a ts] slots_ok_two [of m t2] obtain b where
    b: "run_opt touch_slot ?a ts = Some b" "slots_ok b" "slot_queue b = last_n n (remdups ([t2] @ ts))" by (auto simp: n)
  have "run_opt touch_slot (slots_new n) ([t1, t2] @ ts) = Some b"
    unfolding run_opt_append n first_two using b(1) by simp
  then have "run_opt touch_slot (slots_new n) (t1 # t2 # ts) = Some b" by (simp only: append_Cons append_Nil)
  with slot_lookup_queue [OF b(2)] b(3) show ?thesis by (intro exI [of _ b]) simp
qed

lemma slot_allocator_lru_witness:
  "\<exists>a. run_opt touch_slot (slots_new 4) [7, 8, 9] = Some a \<and>
    (\<forall>t. slot_lookup a t \<noteq> None \<longleftrightarrow> t \<in> set (last_n 4 (remdups [8, 9])))"
  by (rule slot_allocator_lru) simp


subsection \<open>Loading rows\<close>

lemma write_row_eq:
  "offset + length xs \<le> length rows \<Longrightarrow>
    write_row offset xs rows = take offset rows @ map f32_to_f16 xs @ drop (offset + length xs) rows"
proof (induction xs arbitrary: offset rows)
  case (Cons x xs)
  then have "write_row offset (x # xs) rows =
      take (offset + 1) (rows[offset := f32_to_f16 x]) @ map f32_to_f16 xs @ drop (offset + 1 + length xs) (rows[offset := f32_to_f16 x])"
    by simp
  also have "take (offset + 1) (rows[offset := f32_to_f16 x]) = take offset rows @ [f32_to_f16 x]"
    using Cons.prems by (simp add: take_Suc_conv_app_nth)
  finally show ?case by simp
qed simp

text \<open>The slot that an allocation returns is the one that a lookup finds afterwards.\<close>

lemma allocate_slot_lookup:
  assumes "sa_occupied a \<noteq> []" and "length (sa_lru_order a) = length (sa_occupied a)"
  shows "\<exists>slot hit b. allocate_slot token a = Some ((slot, hit), b) \<and> slot < length (sa_occupied a) \<and>
    slot_lookup b token = Some slot \<and> length (sa_occupied b) = length (sa_occupied a) \<and>
    length (sa_lru_order b) = length (sa_occupied b)"
proof (cases "find_idx (\<lambda>slot. slot = Some token) (sa_occupied a)")
  case (Some i)
  then have "i < length (sa_occupied a)" using find_idx_Some by blast
  with Some assms show ?thesis by (simp add: allocate_slot_def slot_lookup_def) blast
next
  case None
  have ne: "sa_lru_order a \<noteq> []" using assms by auto
  have v: "find_victim a < length (sa_occupied a)" using find_victim_spec(1) [OF ne] assms(2) by simp
  have "find_idx (\<lambda>slot. slot = Some token) (xs[v := Some token]) = Some v"
    if "v < length xs" "find_idx (\<lambda>slot. slot = Some token) xs = None" for v and xs :: "u32 option list"
    using that by (induction xs arbitrary: v) (auto split: nat.splits if_splits)
  with v None assms(2) show ?thesis
    by (intro exI [of _ "find_victim a"] exI [of _ False]) (simp add: allocate_slot_def slot_lookup_def Let_def)
qed

definition row_cache_ok :: "weight_row_cache \<Rightarrow> bool" where
  "row_cache_ok c \<longleftrightarrow> sa_occupied (wr_slots c) \<noteq> [] \<and> length (sa_lru_order (wr_slots c)) = length (sa_occupied (wr_slots c)) \<and>
     length (wr_rows c) = length (sa_occupied (wr_slots c)) * wr_hidden_size c"

lemma slot_bound: "slot < n \<Longrightarrow> slot * hs + hs \<le> n * hs" for slot n hs :: nat
  using mult_le_mono1 [of "Suc slot" n hs] by simp

text \<open>Loading a row of at least the hidden size while the arena locks succeeds.  The token is then found in one slot, whose
  row is the half precision version of the given numbers, the rows of all other slots are as before, and the logit read for the
  token is the accumulated product of that row with the hidden state.\<close>

theorem loaded_row_reads:
  assumes "row_cache_ok c" and "wr_hidden_size c \<le> length row_data"
  shows "\<exists>c' slot. load_row True True token row_data c = Some (Inr (), c') \<and> row_cache_ok c' \<and>
    slot_lookup (wr_slots c') token = Some slot \<and> row_at c' slot = map f32_to_f16 (take (wr_hidden_size c) row_data) \<and>
    (\<forall>other. other \<noteq> slot \<longrightarrow> row_at c' other = row_at c other) \<and>
    read_logit add mul c' token hidden_state =
      map_option Some (dot_row add mul 0 (map f32_to_f16 (take (wr_hidden_size c) row_data)) hidden_state)"
proof -
  let ?hs = "wr_hidden_size c"
  from assms(1) obtain slot hit b where al: "allocate_slot token (wr_slots c) = Some ((slot, hit), b)"
    "slot < length (sa_occupied (wr_slots c))" "slot_lookup b token = Some slot"
    "length (sa_occupied b) = length (sa_occupied (wr_slots c))" "length (sa_lru_order b) = length (sa_occupied b)"
    using allocate_slot_lookup [of "wr_slots c" token] by (auto simp: row_cache_ok_def)
  define c' where "c' = c\<lparr>wr_slots := b, wr_rows := write_row (slot * ?hs) (take ?hs row_data) (wr_rows c),
    wr_cached_token_ids := (wr_cached_token_ids c)[slot := token]\<rparr>"
  have load: "load_row True True token row_data c = Some (Inr (), c')"
    using al(1) assms(2) by (simp add: load_row_def c'_def Let_def)
  have len: "length (take ?hs row_data) = ?hs" using assms(2) by simp
  have fit: "slot * ?hs + ?hs \<le> length (wr_rows c)" using slot_bound [OF al(2)] assms(1) by (simp add: row_cache_ok_def)
  have rows: "wr_rows c' = take (slot * ?hs) (wr_rows c) @ map f32_to_f16 (take ?hs row_data) @ drop (slot * ?hs + ?hs) (wr_rows c)"
    using write_row_eq [of "slot * ?hs" "take ?hs row_data" "wr_rows c"] len fit by (simp add: c'_def)
  have at: "row_at c' slot = map f32_to_f16 (take ?hs row_data)"
    using fit len by (simp add: row_at_def rows) (simp add: c'_def)
  have other: "row_at c' k = row_at c k" if "k \<noteq> slot" for k
  proof (cases "k < slot")
    case True
    from slot_bound [OF this, of ?hs] fit show ?thesis
      by (simp add: row_at_def rows drop_take) (simp add: c'_def min_def)
  next
    case False
    with that have k: "slot \<le> k" "slot * ?hs + ?hs \<le> k * ?hs" using slot_bound [of slot k ?hs] by linarith+
    then have "drop (k * ?hs) (take (slot * ?hs) (wr_rows c)) = []"
      "drop (k * ?hs - slot * ?hs) (map f32_to_f16 (take ?hs row_data)) = []"
      "k * ?hs - slot * ?hs - ?hs + (slot * ?hs + ?hs) = k * ?hs" using fit len by simp_all
    then have "drop (k * ?hs) (wr_rows c') = drop (k * ?hs) (wr_rows c)" using fit len by (simp add: rows)
    then show ?thesis by (simp add: row_at_def) (simp add: c'_def)
  qed
  have ok: "row_cache_ok c'" using assms(1) al(2,4,5) fit len by (auto simp: row_cache_ok_def rows) (simp_all add: c'_def)
  have lk: "slot_lookup (wr_slots c') token = Some slot" using al(3) by (simp add: c'_def)
  then have "read_logit add mul c' token hidden_state =
      map_option Some (dot_row add mul 0 (map f32_to_f16 (take ?hs row_data)) hidden_state)" by (simp add: read_logit_def at)
  with load ok lk at other show ?thesis by blast
qed

text \<open>C30: When the arena cannot be locked, prefetching an uncached token returns the error, but the token keeps the slot it was
  given and the slot keeps the row of another token.  Every later prefetch of the token then succeeds without loading it, so
  logits are read from the wrong row.\<close>

theorem failed_load_is_cached:
  assumes "row_cache_ok c" and "wr_hidden_size c \<le> length row_data" and "slot_lookup (wr_slots c) token = None"
    and "env token = (Inr row_data, False, unlock_ok)"
  shows "\<exists>c' slot. prefetch_rows env [token] c = Some (Inl ArenaLock, c') \<and> slot_lookup (wr_slots c') token = Some slot \<and>
    row_at c' slot = row_at c slot \<and>
    (\<exists>c''. prefetch_rows env' [token] c' = Some (Inr (), c'') \<and> slot_lookup (wr_slots c'') token = Some slot \<and>
      row_at c'' slot = row_at c slot)"
proof -
  from assms(1) obtain slot hit b where al: "allocate_slot token (wr_slots c) = Some ((slot, hit), b)"
    "slot_lookup b token = Some slot" "length (sa_occupied b) = length (sa_occupied (wr_slots c))"
    "length (sa_lru_order b) = length (sa_occupied b)"
    using allocate_slot_lookup [of "wr_slots c" token] by (auto simp: row_cache_ok_def)
  have ne: "sa_occupied b \<noteq> []" using assms(1) al(3) by (auto simp: row_cache_ok_def)
  from allocate_slot_lookup [OF ne al(4), of token] obtain slot' hit' b' where
    al': "allocate_slot token b = Some ((slot', hit'), b')" "slot_lookup b' token = Some slot'" by blast
  have same: "slot' = slot" using al(2) al'(1) by (simp add: allocate_slot_def slot_lookup_def split: option.splits)
  have "prefetch_rows env [token] c = Some (Inl ArenaLock, c\<lparr>wr_slots := b\<rparr>)"
    using assms al(1) by (simp add: load_row_def Let_def)
  moreover have "prefetch_rows env' [token] (c\<lparr>wr_slots := b\<rparr>) = Some (Inr (), c\<lparr>wr_slots := b'\<rparr>)"
    using al(2) al'(1) by simp
  ultimately show ?thesis using al(2) al'(2) same
    by (intro exI [of _ "c\<lparr>wr_slots := b\<rparr>"] exI [of _ slot]) (simp add: row_at_def)
qed

definition small_cache :: weight_row_cache where
  "small_cache = row_cache_new [1, 2, 3, 4] 2 2"

lemma small_cache_ok: "row_cache_ok small_cache" "wr_hidden_size small_cache = 2" "slot_lookup (wr_slots small_cache) t = None"
  by (simp_all add: small_cache_def row_cache_new_def row_cache_ok_def slots_new_def slot_lookup_def find_idx_None)

lemma loaded_row_reads_witness:
  "\<exists>c' slot. load_row True True 5 [0x3F800000, 0xC0000000] small_cache = Some (Inr (), c') \<and> row_cache_ok c' \<and>
    slot_lookup (wr_slots c') 5 = Some slot \<and> row_at c' slot = map f32_to_f16 (take 2 [0x3F800000, 0xC0000000]) \<and>
    (\<forall>other. other \<noteq> slot \<longrightarrow> row_at c' other = row_at small_cache other) \<and>
    read_logit (+) (*) c' 5 [] =
      map_option Some (dot_row (+) (*) 0 (map f32_to_f16 (take 2 [0x3F800000, 0xC0000000])) [])"
  using loaded_row_reads [of small_cache "[0x3F800000, 0xC0000000]" 5 "(+)" "(*)" "[]"] small_cache_ok by simp

lemma failed_load_is_cached_witness:
  "\<exists>c' slot. prefetch_rows (\<lambda>_. (Inr [0, 0], False, True)) [5] small_cache = Some (Inl ArenaLock, c') \<and>
    slot_lookup (wr_slots c') 5 = Some slot \<and> row_at c' slot = row_at small_cache slot \<and>
    (\<exists>c''. prefetch_rows (\<lambda>_. (Inr [0, 0], True, True)) [5] c' = Some (Inr (), c'') \<and> slot_lookup (wr_slots c'') 5 = Some slot \<and>
      row_at c'' slot = row_at small_cache slot)"
  by (rule failed_load_is_cached) (simp_all add: small_cache_ok)

end
