(* ===== verification/Speculative.thy ===== *)
theory Speculative
  imports Prelude
begin

text \<open>
  Speculative decoding, \<open>speculative.rs\<close>: the orchestrator that lets a draft model propose tokens and a target model verify
  them, its random numbers, the perturbation of drafts, and the verification of several drafts at once (SpecHub).  The two
  models are parameters over states of their own.  Single precision numbers are bit patterns, double precision numbers a
  type parameter; their operations are a parameter without laws.
\<close>

type_synonym f32 = u32

record 'f spec_env =
  se_exp :: "f32 \<Rightarrow> f32"
  se_mul :: "f32 \<Rightarrow> f32 \<Rightarrow> f32"
  se_sub :: "f32 \<Rightarrow> f32 \<Rightarrow> f32"
  se_div :: "f32 \<Rightarrow> f32 \<Rightarrow> f32"
  se_neg :: "f32 \<Rightarrow> f32"
  se_min :: "f32 \<Rightarrow> f32 \<Rightarrow> f32"
  se_max :: "f32 \<Rightarrow> f32 \<Rightarrow> f32"
  se_gt :: "f32 \<Rightarrow> f32 \<Rightarrow> bool"
  se_of_u32 :: "u32 \<Rightarrow> f32"
  se_to_u64 :: "f32 \<Rightarrow> u64"
  se_dec :: "nat \<Rightarrow> nat \<Rightarrow> f32"
  de_of_f32 :: "f32 \<Rightarrow> 'f"
  de_of_nat :: "nat \<Rightarrow> 'f"
  de_dec :: "nat \<Rightarrow> nat \<Rightarrow> 'f"
  de_neg_infinity :: 'f
  de_add :: "'f \<Rightarrow> 'f \<Rightarrow> 'f"
  de_sub :: "'f \<Rightarrow> 'f \<Rightarrow> 'f"
  de_mul :: "'f \<Rightarrow> 'f \<Rightarrow> 'f"
  de_div :: "'f \<Rightarrow> 'f \<Rightarrow> 'f"
  de_max :: "'f \<Rightarrow> 'f \<Rightarrow> 'f"
  de_exp :: "'f \<Rightarrow> 'f"
  de_gt :: "'f \<Rightarrow> 'f \<Rightarrow> bool"
  de_ge :: "'f \<Rightarrow> 'f \<Rightarrow> bool"

subsection \<open>Random numbers\<close>

definition xorshift_seed :: "u32 \<Rightarrow> u32" where
  "xorshift_seed nanos = max (0xdeadbee + nanos) 1"

definition xorshift :: "u32 \<Rightarrow> u32" where
  "xorshift s0 = (
     let s1 = s0 XOR push_bit 13 s0; s2 = s1 XOR drop_bit 17 s1 in s2 XOR push_bit 5 s2)"

text \<open>\<open>gen_f32\<close> for the new state: the top 23 bits times \<open>1.0 / 8388608.0\<close>.\<close>

definition unit_f32 :: "'f spec_env \<Rightarrow> u32 \<Rightarrow> f32" where
  "unit_f32 se s = se_mul se (se_of_u32 se (drop_bit 9 s)) (se_div se (se_dec se 10 1) (se_dec se 83886080 1))"

subsection \<open>The step\<close>

record spec_stats =
  ss_total_steps :: nat
  ss_total_draft_tokens :: nat
  ss_total_accepted_draft :: nat
  ss_total_target_tokens :: nat
  ss_rejection_count :: nat

definition stats_default :: spec_stats where
  "stats_default = \<lparr>ss_total_steps = 0, ss_total_draft_tokens = 0, ss_total_accepted_draft = 0, ss_total_target_tokens = 0,
     ss_rejection_count = 0\<rparr>"

record spec_decoding =
  sd_speculation_length :: nat
  sd_stats :: spec_stats
  sd_rng :: u32

definition spec_new :: "nat \<Rightarrow> u32 \<Rightarrow> spec_decoding" where
  "spec_new speculation_length nanos =
     \<lparr>sd_speculation_length = speculation_length, sd_stats = stats_default, sd_rng = xorshift_seed nanos\<rparr>"

record 'd draft_model =
  dm_speculate :: "u32 list \<Rightarrow> nat \<Rightarrow> 'd \<Rightarrow> (string + u32 list \<times> f32 list) \<times> 'd"

record 't target_model =
  tm_verify :: "u32 list \<Rightarrow> u32 list \<Rightarrow> 't \<Rightarrow> (string + f32 list) \<times> 't"
  tm_accept_tokens :: "u32 list \<Rightarrow> 't \<Rightarrow> 't"

definition accept_prob :: "'f spec_env \<Rightarrow> f32 \<Rightarrow> f32 \<Rightarrow> f32" where
  "accept_prob se target_logit draft_log_prob = (
     let p_target = se_exp se target_logit; p_draft = se_exp se draft_log_prob in
     if se_gt se p_draft (se_dec se 0 1) then se_min se (se_div se p_target p_draft) (se_dec se 10 1) else se_dec se 0 1)"

text \<open>The loop over the candidates: the state of the generator after it and the index of the first rejection.  A log
  probability that is missing is a panic.\<close>

fun sample_loop :: "'f spec_env \<Rightarrow> nat \<Rightarrow> nat \<Rightarrow> f32 list \<Rightarrow> f32 list \<Rightarrow> u32 \<Rightarrow> (u32 \<times> nat option) option" where
  "sample_loop se i 0 logits log_probs rng = Some (rng, None)"
| "sample_loop se i (Suc n) (l # logits) (p # log_probs) rng =
     (let rng = xorshift rng in
      if se_gt se (unit_f32 se rng) (accept_prob se l p) then Some (rng, Some i)
      else sample_loop se (i + 1) n logits log_probs rng)"
| "sample_loop se i (Suc n) _ _ rng = None"

definition corrected_token :: "'f spec_env \<Rightarrow> f32 \<Rightarrow> u32 \<Rightarrow> u32" where
  "corrected_token se logit candidate = (
     if se_gt se logit (se_dec se 0 1) then candidate
     else (ucast ((ucast logit :: u64) * 6364136223846793005) :: u32) mod max candidate 1)"

definition bonus_token :: "'f spec_env \<Rightarrow> f32 \<Rightarrow> u32 \<Rightarrow> u32" where
  "bonus_token se bonus_logit final_candidate = (
     if se_gt se bonus_logit (se_dec se 0 1)
     then ucast (drop_bit 32 (se_to_u64 se (se_mul se bonus_logit (se_dec se 10000 1)) * 2862933555777941757))
     else final_candidate)"

datatype step_error = DraftError string | VerifyError string | TooFewLogits nat nat

text \<open>\<open>step\<close>; \<open>None\<close> is a panic.  Without candidates the fallbacks to the last candidate and its logit panic.\<close>

definition spec_step :: "'f spec_env \<Rightarrow> 'd draft_model \<Rightarrow> 't target_model \<Rightarrow> u32 list \<Rightarrow> spec_decoding \<Rightarrow> 'd \<Rightarrow> 't \<Rightarrow>
    ((step_error + u32) \<times> spec_decoding \<times> 'd \<times> 't) option" where
  "spec_step se draft target prefix sd d t = (
     case dm_speculate draft prefix (sd_speculation_length sd) d of
       (Inl e, d) \<Rightarrow> Some (Inl (DraftError e), sd, d, t)
     | (Inr (candidates, draft_log_probs), d) \<Rightarrow>
         (let n = length candidates; st = sd_stats sd;
              st = st\<lparr>ss_total_steps := ss_total_steps st + 1, ss_total_draft_tokens := ss_total_draft_tokens st + n\<rparr> in
          case tm_verify target prefix candidates t of
            (Inl e, t) \<Rightarrow> Some (Inl (VerifyError e), sd\<lparr>sd_stats := st\<rparr>, d, t)
          | (Inr target_logits, t) \<Rightarrow>
              if length target_logits < n
              then Some (Inl (TooFewLogits (length target_logits) n), sd\<lparr>sd_stats := st\<rparr>, d, t)
              else (case sample_loop se 0 n target_logits draft_log_probs (sd_rng sd) of
                  None \<Rightarrow> None
                | Some (rng, Some i) \<Rightarrow>
                    Some (Inr (corrected_token se (target_logits ! i) (candidates ! i)),
                      sd\<lparr>sd_rng := rng, sd_stats := st\<lparr>ss_total_accepted_draft := ss_total_accepted_draft st + i,
                        ss_total_target_tokens := ss_total_target_tokens st + 1, ss_rejection_count := ss_rejection_count st + 1\<rparr>\<rparr>,
                      d, if i > 0 then tm_accept_tokens target (take i candidates) t else t)
                | Some (rng, None) \<Rightarrow>
                    if n = 0 \<and> (target_logits = [] \<or> \<not> se_gt se (target_logits ! 0) (se_dec se 0 1)) then None
                    else
                      Some (Inr (bonus_token se (if n < length target_logits then target_logits ! n else target_logits ! (n - 1))
                          (candidates ! (n - 1))),
                        sd\<lparr>sd_rng := rng, sd_stats := st\<lparr>ss_total_accepted_draft := ss_total_accepted_draft st + n,
                          ss_total_target_tokens := ss_total_target_tokens st + 1\<rparr>\<rparr>,
                        d, tm_accept_tokens target candidates t))))"

definition acceptance_rate :: "'f spec_env \<Rightarrow> spec_decoding \<Rightarrow> 'f" where
  "acceptance_rate se sd = (
     if ss_total_draft_tokens (sd_stats sd) = 0 then de_dec se 0 1
     else de_div se (de_of_nat se (ss_total_accepted_draft (sd_stats sd))) (de_of_nat se (ss_total_draft_tokens (sd_stats sd))))"

subsection \<open>Draft strategies\<close>

datatype sample_strategy = Greedy | Temperature f32 | TopK u32 | TopP f32 | Contrastive f32 f32 | Mirostat f32 f32 | Typical f32
  | EpsilonPrune f32 | EtaPrune f32 | LocallyTypical u32 f32 | RandomlySample | BeamWidth u32

text \<open>\<open>probs[i]\<close> in the beam strategy panics when there are fewer probabilities than tokens; the other strategies stop there.\<close>

definition resample :: "'f spec_env \<Rightarrow> u32 list \<Rightarrow> f32 list \<Rightarrow> sample_strategy \<Rightarrow> (u32 \<times> f32) list option" where
  "resample se tokens probs strategy = (
     let scaled = (\<lambda>f. Some (zip tokens (map f probs))) in
     case strategy of
       Greedy \<Rightarrow> Some (zip tokens probs)
     | Temperature temp \<Rightarrow> scaled (\<lambda>lp. se_mul se lp (se_div se (se_dec se 10 1) temp))
     | TopK k \<Rightarrow> Some (zip tokens probs)
     | TopP p \<Rightarrow> Some (zip tokens probs)
     | Contrastive alpha beta \<Rightarrow> scaled (\<lambda>lp. se_sub se (se_mul se lp (se_sub se (se_dec se 10 1) alpha)) beta)
     | Mirostat tau learn_rate \<Rightarrow> scaled (\<lambda>lp.
         se_mul se (if se_gt se (se_neg se lp) tau then se_mul se lp (se_dec se 5 1) else lp) (se_exp se (se_mul se lp learn_rate)))
     | Typical p \<Rightarrow> scaled (\<lambda>lp. se_mul se lp p)
     | EpsilonPrune eps \<Rightarrow> scaled (\<lambda>lp. if se_gt se eps (se_exp se lp) then se_mul se lp (se_dec se 5 1) else lp)
     | EtaPrune eta \<Rightarrow> scaled (\<lambda>lp. se_mul se lp (se_dec se 9 1))
     | LocallyTypical k tau \<Rightarrow> scaled (\<lambda>lp. se_div se (se_mul se lp tau) (se_max se (se_of_u32 se k) (se_dec se 10 1)))
     | RandomlySample \<Rightarrow> Some (map (\<lambda>(i, tok). (tok + word_of_nat i * 17, se_neg se (se_dec se 10 1))) (enumerate 0 tokens))
     | BeamWidth width \<Rightarrow>
         if length probs < length tokens then None
         else Some (map (\<lambda>(i, tok, p). if i mod 2 = 1 then (tok + width, se_mul se p (se_dec se 8 1)) else (tok, p))
           (enumerate 0 (zip tokens probs))))"

subsection \<open>Several drafts\<close>

text \<open>A stable sort by descending score, as \<open>sort_by\<close> with the reversed comparison; scores that do not compare count as equal.\<close>

fun insert_desc :: "(f32 \<Rightarrow> f32 \<Rightarrow> bool) \<Rightarrow> 'a \<times> f32 \<Rightarrow> ('a \<times> f32) list \<Rightarrow> ('a \<times> f32) list" where
  "insert_desc gt x [] = [x]"
| "insert_desc gt x (y # ys) = (if gt (snd y) (snd x) then y # insert_desc gt x ys else x # y # ys)"

definition top_scored :: "'f spec_env \<Rightarrow> f32 list \<Rightarrow> nat \<Rightarrow> nat \<Rightarrow> nat \<Rightarrow> (nat \<times> f32) list" where
  "top_scored se data base vocab_size top_k =
     take top_k (foldr (insert_desc (se_gt se)) (map (\<lambda>v. (v, data ! (base + v))) [0..<vocab_size]) [])"

text \<open>A hash map is a list of its entries; \<open>order\<close> gives the order in which a map is iterated.\<close>

type_synonym 'f joint = "((nat \<times> u32) \<times> 'f) list"

definition sparse_joint_distribution_at_pos ::
  "'f spec_env \<Rightarrow> f32 list \<Rightarrow> nat \<Rightarrow> nat \<Rightarrow> nat \<Rightarrow> nat \<Rightarrow> nat \<Rightarrow> 'f joint" where
  "sparse_joint_distribution_at_pos se draft_data num_drafts seq_len vocab_size pos top_k =
     concat (map (\<lambda>d. map (\<lambda>(v, prob). ((d, word_of_nat v), de_of_f32 se prob))
         (filter (\<lambda>(v, prob). se_gt se prob (se_dec se 1 10))
           (top_scored se draft_data (d * (seq_len * vocab_size) + pos * vocab_size) vocab_size top_k)))
       [0..<num_drafts])"

definition softmax_at_pos :: "'f spec_env \<Rightarrow> f32 list \<Rightarrow> nat \<Rightarrow> nat \<Rightarrow> 'f \<Rightarrow> 'f list" where
  "softmax_at_pos se data vocab_size pos inv_temp = (
     let base = pos * vocab_size;
         vals = map (\<lambda>v. de_mul se (de_of_f32 se (data ! (base + v))) inv_temp) [0..<vocab_size];
         max_logit = foldl (\<lambda>m val. if de_gt se val m then val else m) (de_neg_infinity se) vals;
         scaled = map (\<lambda>val. de_exp se (de_sub se val max_logit)) vals;
         total = foldl (de_add se) (de_dec se 0 1) scaled;
         inv_sum = (if de_gt se total (de_dec se 0 1) then de_div se (de_dec se 10 1) total else de_dec se 0 1) in
     map (\<lambda>x. de_mul se x inv_sum) scaled)"

text \<open>\<open>max_by\<close> keeps the later one of two that do not compare greater.\<close>

definition max_entry :: "'f spec_env \<Rightarrow> ('k \<times> 'f) list \<Rightarrow> ('k \<times> 'f) option" where
  "max_entry se es = (case es of [] \<Rightarrow> None
     | e # es \<Rightarrow> Some (foldl (\<lambda>best x. if de_gt se (snd best) (snd x) then best else x) e es))"

definition compatible_pair :: "'f spec_env \<Rightarrow> u32 list \<Rightarrow> u32 list \<Rightarrow> bool" where
  "compatible_pair se xs ys = (
     let intersection = length (filter (\<lambda>t. t \<in> set ys) xs); union_size = length xs + length ys - intersection;
         jaccard = (if union_size > 0 then de_div se (de_of_nat se intersection) (de_of_nat se union_size) else de_dec se 0 1) in
     de_ge se jaccard (de_dec se 3 1))"

definition compatible_subset_at_pos :: "'f spec_env \<Rightarrow> f32 list \<Rightarrow> nat \<Rightarrow> nat \<Rightarrow> nat \<Rightarrow> nat \<Rightarrow> nat \<Rightarrow> nat list" where
  "compatible_subset_at_pos se draft_data num_drafts seq_len vocab_size pos top_k = (
     let draft_sets = map (\<lambda>d. map (word_of_nat \<circ> fst)
             (top_scored se draft_data (d * (seq_len * vocab_size) + pos * vocab_size) vocab_size top_k)) [0..<num_drafts];
         compat_count = (\<lambda>i. length (filter (\<lambda>j. j \<noteq> i \<and> compatible_pair se (draft_sets ! min i j) (draft_sets ! max i j)) [0..<num_drafts])) in
     filter (\<lambda>i. compat_count i > 0) [0..<num_drafts])"

text \<open>\<open>*map.entry(token).or_insert(0.0) += x\<close>.\<close>

definition add_mass :: "'f spec_env \<Rightarrow> u32 \<Rightarrow> 'f \<Rightarrow> (u32 \<times> 'f) list \<Rightarrow> (u32 \<times> 'f) list" where
  "add_mass se token x masses =
     AList.update token (de_add se (case map_of masses token of None \<Rightarrow> de_dec se 0 1 | Some y \<Rightarrow> y) x) masses"

record 'f map_orders =
  joint_order :: "'f joint \<Rightarrow> 'f joint"
  mass_order :: "(u32 \<times> 'f) list \<Rightarrow> (u32 \<times> 'f) list"

definition find_consensus_token :: "'f spec_env \<Rightarrow> 'f map_orders \<Rightarrow> 'f joint \<Rightarrow> (u32 \<times> 'f) option" where
  "find_consensus_token se mo joint =
     max_entry se (mass_order mo (fold (\<lambda>((d, token), prob). add_mass se token prob) (joint_order mo joint) []))"

definition reweigh_with_subset :: "'f spec_env \<Rightarrow> 'f map_orders \<Rightarrow> 'f joint \<Rightarrow> nat list \<Rightarrow> 'f list \<Rightarrow> u32" where
  "reweigh_with_subset se mo joint compat_set target_probs =
     (case max_entry se (mass_order mo (fold (\<lambda>((d, token), draft_prob) scores.
         if d \<in> set compat_set
         then add_mass se token (de_mul se draft_prob
           (if unat token < length target_probs then target_probs ! unat token else de_dec se 0 1)) scores
         else scores) (joint_order mo joint) [])) of Some (t, _) \<Rightarrow> t | None \<Rightarrow> 0)"

definition target_argmax :: "'f spec_env \<Rightarrow> 'f list \<Rightarrow> u32" where
  "target_argmax se target_probs =
     (case max_entry se (enumerate 0 target_probs) of Some (i, _) \<Rightarrow> word_of_nat i | None \<Rightarrow> 0)"

text \<open>The token for one position.\<close>

definition token_at_pos :: "'f spec_env \<Rightarrow> 'f map_orders \<Rightarrow> f32 list \<Rightarrow> f32 list \<Rightarrow> nat \<Rightarrow> nat \<Rightarrow> nat \<Rightarrow> 'f \<Rightarrow> nat \<Rightarrow> u32" where
  "token_at_pos se mo draft_data target_data num_drafts seq_len vocab_size inv_temp pos = (
     let top_k = 10;
         joint = sparse_joint_distribution_at_pos se draft_data num_drafts seq_len vocab_size pos top_k;
         target_probs = softmax_at_pos se target_data vocab_size pos inv_temp;
         argmax = target_argmax se target_probs in
     case find_consensus_token se mo joint of
       Some (consensus, mass) \<Rightarrow>
         if consensus = argmax \<or>
            de_gt se (if unat consensus < length target_probs then target_probs ! unat consensus else de_dec se 0 1) (de_dec se 3 1)
         then consensus
         else let compat = compatible_subset_at_pos se draft_data num_drafts seq_len vocab_size pos top_k in
           if compat = [] then argmax else reweigh_with_subset se mo joint compat target_probs
     | None \<Rightarrow> argmax)"

record array2 =
  ar_shape :: "nat list"
  ar_data :: "f32 list"

record 'f hub_verification =
  hv_accepted_tokens :: "u32 list"
  hv_acceptance_rate :: 'f
  hv_saved_latency_ms :: 'f

datatype hub_error = DraftRank nat | TargetRank nat | SeqLenMismatch nat nat | VocabMismatch nat nat

text \<open>The loop over the positions with the tokens, the draft positions and the accepted ones so far.\<close>

definition spechub_verify ::
  "'f spec_env \<Rightarrow> 'f map_orders \<Rightarrow> array2 \<Rightarrow> array2 \<Rightarrow> 'f \<Rightarrow> hub_error + 'f hub_verification" where
  "spechub_verify se mo draft_probs target_logits temperature = (
     let ds = ar_shape draft_probs; ts = ar_shape target_logits in
     if length ds \<noteq> 3 then Inl (DraftRank (length ds))
     else if length ts \<noteq> 2 then Inl (TargetRank (length ts))
     else if ts ! 0 \<noteq> ds ! 1 then Inl (SeqLenMismatch (ds ! 1) (ts ! 0))
     else if ts ! 1 \<noteq> ds ! 2 then Inl (VocabMismatch (ds ! 2) (ts ! 1))
     else let inv_temp = de_div se (de_dec se 10 1) (de_max se temperature (de_dec se 1 8));
              (tokens, total, accepted) = foldl (\<lambda>(tokens, total, accepted) pos.
                (tokens @ [token_at_pos se mo (ar_data draft_probs) (ar_data target_logits) (ds ! 0) (ds ! 1) (ds ! 2) inv_temp pos],
                 total + ds ! 0, accepted + 1)) ([], 0 :: nat, 0 :: nat) [0..<ds ! 1] in
       Inr \<lparr>hv_accepted_tokens = tokens,
         hv_acceptance_rate = (if total > 0 then de_div se (de_of_nat se accepted) (de_of_nat se total) else de_dec se 0 1),
         hv_saved_latency_ms = de_dec se 0 1\<rparr>)"

subsection \<open>Random numbers never stop\<close>

lemma xor_push_zero:
  assumes "0 < n" and "w XOR push_bit n w = 0"
  shows "w = (0 :: 'a::len word)"
proof (rule bit_word_eqI)
  fix i
  have eq: "bit w i \<longleftrightarrow> n \<le> i \<and> bit w (i - n)" if "i < LENGTH('a)" for i
    using that arg_cong [OF assms(2), of "\<lambda>v. bit v i"] by (auto simp: bit_simps)
  show "bit w i \<longleftrightarrow> bit 0 i" if "i < LENGTH('a)"
    using that
  proof (induction i rule: less_induct)
    case (less i)
    show ?case using eq [OF less.prems] less.IH [of "i - n"] less.prems assms(1) by auto
  qed
qed

lemma xor_drop_zero:
  assumes "0 < n" and "w XOR drop_bit n w = 0"
  shows "w = (0 :: 'a::len word)"
proof (rule bit_word_eqI)
  fix i
  have eq: "bit w i \<longleftrightarrow> bit w (i + n)" for i
    using arg_cong [OF assms(2), of "\<lambda>v. bit v i"] by (auto simp: bit_simps add.commute)
  have "bit w i \<longleftrightarrow> bit w (i + k * n)" for k
  proof (induction k)
    case (Suc k)
    with eq [of "i + k * n"] show ?case by (simp add: ac_simps)
  qed simp
  from this [of "LENGTH('a)"] have "bit w i \<longleftrightarrow> bit w (i + LENGTH('a) * n)" .
  moreover have "LENGTH('a) \<le> i + LENGTH('a) * n" using assms(1) by (cases n) simp_all
  ultimately show "bit w i \<longleftrightarrow> bit 0 i" using bit_imp_le_length [of w "i + LENGTH('a) * n"] by auto
qed

lemma xorshift_nonzero:
  assumes "s \<noteq> 0"
  shows "xorshift s \<noteq> 0"
proof -
  define s1 where "s1 = s XOR push_bit 13 s"
  define s2 where "s2 = s1 XOR drop_bit 17 s1"
  have "s1 \<noteq> 0" using xor_push_zero [of 13 s] assms by (auto simp: s1_def)
  then have "s2 \<noteq> 0" using xor_drop_zero [of 17 s1] by (auto simp: s2_def)
  then have "s2 XOR push_bit 5 s2 \<noteq> 0" using xor_push_zero [of 5 s2] by auto
  moreover have "xorshift s = s2 XOR push_bit 5 s2" unfolding xorshift_def Let_def s1_def s2_def by (rule refl)
  ultimately show ?thesis by (simp only: not_False_eq_True)
qed

lemma xorshift_seed_nonzero: "xorshift_seed nanos \<noteq> 0"
proof -
  have "1 \<le> xorshift_seed nanos" by (simp add: xorshift_seed_def)
  then show ?thesis by (auto simp: word_le_nat_alt)
qed

subsection \<open>What a step does\<close>

text \<open>The random state after \<open>k\<close> numbers.\<close>

definition rng_after :: "nat \<Rightarrow> u32 \<Rightarrow> u32" where
  "rng_after k = xorshift ^^ k"

lemma sample_loop_spec:
  "n \<le> length logits \<Longrightarrow> n \<le> length log_probs \<Longrightarrow>
    \<exists>k \<le> n. sample_loop se i n logits log_probs rng =
      Some (rng_after (if k < n then k + 1 else n) rng, if k < n then Some (i + k) else None) \<and>
      (\<forall>j < k. \<not> se_gt se (unit_f32 se (rng_after (j + 1) rng)) (accept_prob se (logits ! j) (log_probs ! j))) \<and>
      (k < n \<longrightarrow> se_gt se (unit_f32 se (rng_after (k + 1) rng)) (accept_prob se (logits ! k) (log_probs ! k)))"
proof (induction n arbitrary: i logits log_probs rng)
  case 0
  then show ?case by (simp add: rng_after_def)
next
  case (Suc n)
  obtain l ls p ps where c: "logits = l # ls" "log_probs = p # ps" using Suc.prems by (cases logits; cases log_probs) auto
  have step: "rng_after (Suc m) rng = rng_after m (xorshift rng)" for m by (simp add: rng_after_def funpow_swap1)
  show ?case
  proof (cases "se_gt se (unit_f32 se (xorshift rng)) (accept_prob se l p)")
    case True
    then show ?thesis by (intro exI [of _ 0]) (simp add: c Let_def step, simp add: rng_after_def)
  next
    case False
    from Suc.IH [of ls ps "i + 1" "xorshift rng"] Suc.prems obtain k where k: "k \<le> n"
      "sample_loop se (i + 1) n ls ps (xorshift rng) =
        Some (rng_after (if k < n then k + 1 else n) (xorshift rng), if k < n then Some (i + 1 + k) else None)"
      "\<forall>j < k. \<not> se_gt se (unit_f32 se (rng_after (j + 1) (xorshift rng))) (accept_prob se (ls ! j) (ps ! j))"
      "k < n \<longrightarrow> se_gt se (unit_f32 se (rng_after (k + 1) (xorshift rng))) (accept_prob se (ls ! k) (ps ! k))"
      by (auto simp: c)
    have "\<forall>j < Suc k. \<not> se_gt se (unit_f32 se (rng_after (j + 1) rng)) (accept_prob se (logits ! j) (log_probs ! j))"
    proof (intro allI impI)
      fix j assume "j < Suc k"
      then show "\<not> se_gt se (unit_f32 se (rng_after (j + 1) rng)) (accept_prob se (logits ! j) (log_probs ! j))"
      proof (cases j)
        case 0
        then show ?thesis using False by (simp add: c rng_after_def)
      next
        case (Suc m)
        with \<open>j < Suc k\<close> have "m < k" by simp
        with k(3) Suc step [of "m + 1"] show ?thesis by (simp add: c)
      qed
    qed
    with k False show ?thesis by (intro exI [of _ "Suc k"]) (simp add: c Let_def step)
  qed
qed

text \<open>C31: When the draft gives at least one candidate with as many log probabilities, and the target as many logits, a step
  returns a token.  There is a number \<open>k\<close> of candidates such that exactly the first \<open>k\<close> are committed to the target and pass
  their test with one random number each; if \<open>k\<close> is not all of them the next one fails its test, the token is the
  corrected one at that position and one rejection is counted; otherwise it is the bonus token.  The statistics count the
  step, the candidates, the \<open>k\<close> accepted ones and one target token.\<close>

theorem step_commits_prefix:
  assumes "dm_speculate draft prefix (sd_speculation_length sd) d = (Inr (candidates, log_probs), d')"
    and "tm_verify target prefix candidates t = (Inr logits, t')"
    and "candidates \<noteq> []" and "length log_probs = length candidates" and "length candidates \<le> length logits"
  shows "\<exists>k token sd'. k \<le> length candidates \<and>
    spec_step se draft target prefix sd d t =
      Some (Inr token, sd', d', if k > 0 then tm_accept_tokens target (take k candidates) t' else t') \<and>
    (\<forall>j < k. \<not> se_gt se (unit_f32 se (rng_after (j + 1) (sd_rng sd))) (accept_prob se (logits ! j) (log_probs ! j))) \<and>
    (if k < length candidates
     then se_gt se (unit_f32 se (rng_after (k + 1) (sd_rng sd))) (accept_prob se (logits ! k) (log_probs ! k)) \<and>
       token = corrected_token se (logits ! k) (candidates ! k)
     else token = bonus_token se (logits ! (if k < length logits then k else k - 1)) (last candidates)) \<and>
    sd_stats sd' = \<lparr>ss_total_steps = ss_total_steps (sd_stats sd) + 1,
      ss_total_draft_tokens = ss_total_draft_tokens (sd_stats sd) + length candidates,
      ss_total_accepted_draft = ss_total_accepted_draft (sd_stats sd) + k,
      ss_total_target_tokens = ss_total_target_tokens (sd_stats sd) + 1,
      ss_rejection_count = ss_rejection_count (sd_stats sd) + (if k < length candidates then 1 else 0)\<rparr>"
proof -
  let ?n = "length candidates"
  from sample_loop_spec [of ?n logits log_probs se 0 "sd_rng sd"] assms(4,5) obtain k where k: "k \<le> ?n"
    "sample_loop se 0 ?n logits log_probs (sd_rng sd) =
      Some (rng_after (if k < ?n then k + 1 else ?n) (sd_rng sd), if k < ?n then Some k else None)"
    "\<forall>j < k. \<not> se_gt se (unit_f32 se (rng_after (j + 1) (sd_rng sd))) (accept_prob se (logits ! j) (log_probs ! j))"
    "k < ?n \<longrightarrow> se_gt se (unit_f32 se (rng_after (k + 1) (sd_rng sd))) (accept_prob se (logits ! k) (log_probs ! k))" by auto
  show ?thesis
  proof (cases "k < ?n")
    case True
    with k assms(1,2,5) show ?thesis by (intro exI [of _ k]) (simp add: spec_step_def Let_def)
  next
    case False
    with k(1) have "k = ?n" by simp
    with k assms show ?thesis by (intro exI [of _ k]) (simp add: spec_step_def Let_def last_conv_nth)
  qed
qed


text \<open>Without candidates: the fallbacks index before the first element.\<close>

lemma empty_draft_panics:
  assumes "dm_speculate draft prefix (sd_speculation_length sd) d = (Inr ([], log_probs), d')"
    and "tm_verify target prefix [] t = (Inr [logit], t')" and "\<not> se_gt se logit (se_dec se 0 1)"
  shows "spec_step se draft target prefix sd d t = None"
  using assms by (simp add: spec_step_def Let_def)

subsection \<open>Statistics\<close>

text \<open>All states that steps with any models reach from a new orchestrator; a step that panics reaches none.\<close>

inductive spec_reach :: "'f spec_env \<Rightarrow> nat \<Rightarrow> u32 \<Rightarrow> 'd \<times> 't \<Rightarrow> spec_decoding \<Rightarrow> bool" for se speculation_length nanos where
  spec_start: "spec_reach se speculation_length nanos models (spec_new speculation_length nanos)"
| spec_next: "spec_reach se speculation_length nanos (d, t) sd \<Longrightarrow>
    spec_step se draft target prefix sd d t = Some (r, sd', d', t') \<Longrightarrow> spec_reach se speculation_length nanos (d', t') sd'"

definition spec_ok :: "spec_decoding \<Rightarrow> bool" where
  "spec_ok sd \<longleftrightarrow> sd_rng sd \<noteq> 0 \<and> ss_total_accepted_draft (sd_stats sd) \<le> ss_total_draft_tokens (sd_stats sd) \<and>
     ss_rejection_count (sd_stats sd) \<le> ss_total_target_tokens (sd_stats sd) \<and>
     ss_total_target_tokens (sd_stats sd) \<le> ss_total_steps (sd_stats sd)"

lemma sample_loop_bounds:
  "sample_loop se i n logits log_probs rng = Some (rng', r) \<Longrightarrow> rng \<noteq> 0 \<Longrightarrow>
    rng' \<noteq> 0 \<and> (\<forall>j. r = Some j \<longrightarrow> i \<le> j \<and> j < i + n)"
proof (induction se i n logits log_probs rng rule: sample_loop.induct)
  case (2 se i n l logits p log_probs rng)
  have nz: "xorshift rng \<noteq> 0" using "2.prems"(2) by (rule xorshift_nonzero)
  show ?case
  proof (cases "se_gt se (unit_f32 se (xorshift rng)) (accept_prob se l p)")
    case True
    with "2.prems" nz show ?thesis by (auto simp: Let_def)
  next
    case False
    with "2.prems"(1) have "sample_loop se (i + 1) n logits log_probs (xorshift rng) = Some (rng', r)" by (simp add: Let_def)
    from "2.IH" [OF refl False this nz] show ?thesis by auto
  qed
qed auto

lemma spec_step_ok:
  assumes ok: "spec_ok sd" and step: "spec_step se draft target prefix sd d t = Some (r, sd', d', t')"
  shows "spec_ok sd'"
proof -
  have rng: "sd_rng sd \<noteq> 0" using ok by (simp add: spec_ok_def)
  obtain dr d1 where dr: "dm_speculate draft prefix (sd_speculation_length sd) d = (dr, d1)" by fastforce
  show ?thesis
  proof (cases dr)
    case (Inl e)
    with dr step ok show ?thesis by (simp add: spec_step_def)
  next
    case (Inr c)
    obtain cands lps where c: "c = (cands, lps)" by (cases c)
    let ?n = "length cands"
    obtain tr t1 where tr: "tm_verify target prefix cands t = (tr, t1)" by fastforce
    show ?thesis
    proof (cases tr)
      case (Inl e)
      with dr tr \<open>dr = Inr c\<close> c step have "sd' = sd\<lparr>sd_stats := (sd_stats sd)\<lparr>ss_total_steps := ss_total_steps (sd_stats sd) + 1,
          ss_total_draft_tokens := ss_total_draft_tokens (sd_stats sd) + ?n\<rparr>\<rparr>" by (simp add: spec_step_def Let_def)
      with ok show ?thesis by (simp add: spec_ok_def)
    next
      case logits: (Inr logits)
      show ?thesis
      proof (cases "length logits < ?n")
        case True
        with dr tr Inr logits c step have "sd' = sd\<lparr>sd_stats := (sd_stats sd)\<lparr>ss_total_steps := ss_total_steps (sd_stats sd) + 1,
            ss_total_draft_tokens := ss_total_draft_tokens (sd_stats sd) + ?n\<rparr>\<rparr>" by (simp add: spec_step_def Let_def)
        with ok show ?thesis by (simp add: spec_ok_def)
      next
        case False
        note eqs = dr tr Inr logits c False
        show ?thesis
        proof (cases "sample_loop se 0 ?n logits lps (sd_rng sd)")
          case None
          with eqs step show ?thesis by (simp add: spec_step_def Let_def)
        next
          case (Some x)
          obtain rng' rej where x: "x = (rng', rej)" by (cases x)
          note b = sample_loop_bounds [OF Some [unfolded x] rng]
          show ?thesis
          proof (cases rej)
            case None
            with eqs Some x b step ok show ?thesis by (auto simp: spec_step_def Let_def spec_ok_def split: if_splits)
          next
            case (Some k)
            with eqs \<open>sample_loop se 0 ?n logits lps (sd_rng sd) = Some x\<close> x b step ok show ?thesis
              by (auto simp: spec_step_def Let_def spec_ok_def)
          qed
        qed
      qed
    qed
  qed
qed

text \<open>C32: After any steps with any draft and target models, errors included, the acceptance count is at most the count of
  candidates, so the rate lies between zero and one, rejections are at most target tokens and these at most steps, and the
  random generator has not fallen into its fixed point zero.\<close>

theorem spec_statistics_consistent:
  assumes "spec_reach se speculation_length nanos models sd"
  shows "sd_rng sd \<noteq> 0 \<and> ss_total_accepted_draft (sd_stats sd) \<le> ss_total_draft_tokens (sd_stats sd) \<and>
    ss_rejection_count (sd_stats sd) \<le> ss_total_target_tokens (sd_stats sd) \<and>
    ss_total_target_tokens (sd_stats sd) \<le> ss_total_steps (sd_stats sd)"
proof -
  from assms have "spec_ok sd"
  proof induction
    case (spec_start models)
    then show ?case by (simp add: spec_ok_def spec_new_def stats_default_def xorshift_seed_nonzero)
  next
    case (spec_next d t sd draft target prefix r sd' d' t')
    show ?case by (rule spec_step_ok [OF spec_next.IH spec_next.hyps(2)])
  qed
  then show ?thesis by (simp add: spec_ok_def)
qed

subsection \<open>Acceptance of several drafts\<close>

lemma verify_loop:
  "foldl (\<lambda>(tokens, total, accepted) pos. (tokens @ [f pos], total + m, accepted + 1)) (tokens, total, accepted) ps =
    (tokens @ map f ps, total + length ps * m, accepted + length ps)" for total m accepted :: nat
  by (induction ps arbitrary: tokens total accepted) (simp_all add: ac_simps)

text \<open>For arrays whose shapes agree, verification of several drafts gives one token per position and counts every position
  as accepted, whether the token is the drafts' consensus, a reweighed one or the target's own choice.  Its acceptance rate
  is the number of positions divided by positions times drafts, whatever the drafts and the target say.\<close>

theorem spechub_rate_is_constant:
  assumes "ar_shape draft_probs = [num_drafts, seq_len, vocab_size]" and "ar_shape target_logits = [seq_len, vocab_size]"
  shows "\<exists>v. spechub_verify se mo draft_probs target_logits temperature = Inr v \<and>
    length (hv_accepted_tokens v) = seq_len \<and>
    hv_acceptance_rate v = (if seq_len * num_drafts > 0
      then de_div se (de_of_nat se seq_len) (de_of_nat se (seq_len * num_drafts)) else de_dec se 0 1)"
  using assms by (simp add: spechub_verify_def Let_def verify_loop [unfolded One_nat_def add_Suc_right add_0_right]
      verify_loop [where m = 0, unfolded One_nat_def add_Suc_right add_0_right])


subsection \<open>Witnesses\<close>

text \<open>Numbers replaced by words and naturals that keep the digits of literals.\<close>

definition word_env :: "nat spec_env" where
  "word_env = \<lparr>se_exp = (\<lambda>x. x), se_mul = (*), se_sub = (-), se_div = (div), se_neg = uminus, se_min = min, se_max = max,
     se_gt = (>), se_of_u32 = (\<lambda>x. x), se_to_u64 = ucast, se_dec = (\<lambda>m e. word_of_nat m), de_of_f32 = unat, de_of_nat = (\<lambda>n. n),
     de_dec = (\<lambda>m e. m), de_neg_infinity = 0, de_add = (+), de_sub = (-), de_mul = (*), de_div = (div), de_max = max,
     de_exp = (\<lambda>x. x), de_gt = (>), de_ge = (\<ge>)\<rparr>"

text \<open>A draft that always proposes the same tokens, and targets that list what was committed or always fail.\<close>

definition const_draft :: "unit draft_model" where
  "const_draft = \<lparr>dm_speculate = (\<lambda>prefix n d. (Inr ([7, 8], [5, 5]), d))\<rparr>"

definition list_target :: "u32 list target_model" where
  "list_target = \<lparr>tm_verify = (\<lambda>prefix draft t. (Inr [9, 0, 3], t)), tm_accept_tokens = (\<lambda>tokens t. t @ tokens)\<rparr>"

definition failing_target :: "u32 list target_model" where
  "failing_target = \<lparr>tm_verify = (\<lambda>prefix draft t. (Inl ''out of memory'', t)), tm_accept_tokens = (\<lambda>tokens t. t @ tokens)\<rparr>"

lemma step_commits_prefix_witness:
  "\<exists>k token sd'. k \<le> length [7, 8 :: u32] \<and>
    spec_step word_env const_draft list_target [1] (spec_new 2 0) () [] =
      Some (Inr token, sd', (), if k > 0 then tm_accept_tokens list_target (take k [7, 8]) [] else []) \<and>
    (\<forall>j < k. \<not> se_gt word_env (unit_f32 word_env (rng_after (j + 1) (sd_rng (spec_new 2 0))))
      (accept_prob word_env ([9, 0, 3] ! j) ([5, 5] ! j))) \<and>
    (if k < length [7, 8 :: u32]
     then se_gt word_env (unit_f32 word_env (rng_after (k + 1) (sd_rng (spec_new 2 0)))) (accept_prob word_env ([9, 0, 3] ! k) ([5, 5] ! k)) \<and>
       token = corrected_token word_env ([9, 0, 3] ! k) ([7, 8] ! k)
     else token = bonus_token word_env ([9, 0, 3] ! (if k < length [9, 0, 3 :: u32] then k else k - 1)) (last [7, 8])) \<and>
    sd_stats sd' = \<lparr>ss_total_steps = ss_total_steps (sd_stats (spec_new 2 0)) + 1,
      ss_total_draft_tokens = ss_total_draft_tokens (sd_stats (spec_new 2 0)) + length [7, 8 :: u32],
      ss_total_accepted_draft = ss_total_accepted_draft (sd_stats (spec_new 2 0)) + k,
      ss_total_target_tokens = ss_total_target_tokens (sd_stats (spec_new 2 0)) + 1,
      ss_rejection_count = ss_rejection_count (sd_stats (spec_new 2 0)) + (if k < length [7, 8 :: u32] then 1 else 0)\<rparr>"
  by (rule step_commits_prefix [of const_draft _ _ _ _ "[5, 5]"]) (simp_all add: const_draft_def list_target_def)

lemma spec_statistics_consistent_witness:
  "\<exists>r sd. spec_step word_env const_draft failing_target [1] (spec_new 2 0) () [] = Some (r, sd, (), []) \<and>
    ss_total_draft_tokens (sd_stats sd) = 2 \<and>
    sd_rng sd \<noteq> 0 \<and> ss_total_accepted_draft (sd_stats sd) \<le> ss_total_draft_tokens (sd_stats sd) \<and>
    ss_rejection_count (sd_stats sd) \<le> ss_total_target_tokens (sd_stats sd) \<and>
    ss_total_target_tokens (sd_stats sd) \<le> ss_total_steps (sd_stats sd)"
proof -
  let ?sd = "(spec_new 2 0)\<lparr>sd_stats := stats_default\<lparr>ss_total_steps := 1, ss_total_draft_tokens := 2\<rparr>\<rparr>"
  have step: "spec_step word_env const_draft failing_target [1] (spec_new 2 0) () [] =
      Some (Inl (VerifyError ''out of memory''), ?sd, (), [])"
    by (simp add: spec_step_def const_draft_def failing_target_def Let_def spec_new_def stats_default_def)
  have "spec_reach word_env 2 0 ((), [] :: u32 list) ?sd" by (rule spec_next [OF spec_start step])
  from spec_statistics_consistent [OF this] step show ?thesis
    by (intro exI [of _ "Inl (VerifyError ''out of memory'')"] exI [of _ ?sd]) (simp add: stats_default_def)
qed

lemma spechub_rate_is_constant_witness:
  "\<exists>v. spechub_verify word_env \<lparr>joint_order = rev, mass_order = (\<lambda>m. m)\<rparr> \<lparr>ar_shape = [2, 1, 2], ar_data = [3, 4, 5, 6]\<rparr>
      \<lparr>ar_shape = [1, 2], ar_data = [8, 9]\<rparr> 1 = Inr v \<and>
    length (hv_accepted_tokens v) = 1 \<and>
    hv_acceptance_rate v = (if 1 * 2 > (0 :: nat) then de_div word_env (de_of_nat word_env 1) (de_of_nat word_env (1 * 2)) else de_dec word_env 0 1)"
  by (rule spechub_rate_is_constant) simp_all

end
