(* ===== verification/Spec2Isabelle.thy ===== *)
theory Spec2Isabelle
  imports KvSlots Scheduler TokenBudget KvArena Streaming Protocol ArenaPool KvCache PageTiers
    GraphOptimizer GrammarLang SchemaGrammar
    PrefixCache Orchestration Readiness Residency
    Routing TensorRegistry ImageCompile ScheduleCompiler LayoutTransform ArrayRegistry ImageLease AneFusion ChunkKv RateLimiter WeightRowCache Speculative
begin

text \<open>
  Verification library for the core of the Tribunus Compute Kernel, the inference engine under
  \<open>src/compute-native/compute-core/src\<close> (paths below are relative to it).

  \<^bold>\<open>The program.\<close>  The engine serves generation requests.  The scheduler (\<open>scheduling/\<close>) admits requests
  into batches, gives each a slot and pages of KV memory from the allocators (\<open>memory/allocator.rs\<close>), preempts
  and resumes them; a token budget scheduler (\<open>scheduling/token_budget.rs\<close>) cuts prompts into chunks.  KV data
  lives in a block arena with prefix sharing (\<open>kv_arena/\<close>), in per-layer ring buffers and in tiered pages
  (\<open>kv_cache.rs\<close>).  Tokens leave through a bounded stream (\<open>streaming.rs\<close>); the worker process talks to
  its host by framed events (\<open>worker_protocol.rs\<close>, \<open>session.rs\<close>); surfaces pass between devices through arenas
  (\<open>arena_lifecycle.rs\<close>, \<open>arena_pool.rs\<close>).  At compile time the graph optimiser rewrites the
  execution plan (\<open>compiler/graph_optimizer.rs\<close>); during generation a grammar automaton masks tokens
  (\<open>grammar.rs\<close>).  A prefix cache (\<open>cache/prefix_cache.rs\<close>) shares KV blocks of equal token blocks, a chunk cache
  (\<open>cache/chunk_kv.rs\<close>) keeps KV pages of whole sentences, a residency
  manager (\<open>residency.rs\<close>) keeps a window of model segments loaded, a work fabric (\<open>runtime_orchestration.rs\<close>)
  hands out leased work items, and readiness gates (\<open>readiness_gates.rs\<close>) decide when a worker may serve.  The server limits requests by token
  buckets (\<open>server/rate_limiter.rs\<close>); rows of the output weights are kept near the Neural Engine
  (\<open>ane/weight_row_cache.rs\<close>).  A draft model may propose tokens that the target model verifies
  (\<open>speculative.rs\<close>).
  Before all that an image is compiled: the model's configuration becomes a specification of its tensors
  (\<open>config.rs\<close>), the tensors are emitted into a compute image (\<open>compute_image/\<close>) and an execution plan over their
  identifiers is built and stored; from the plan a schedule of regions is compiled (\<open>compiler/compile_schedule.rs\<close>).
  Boundary plans say which backend runs which operations (\<open>backend/routing.rs\<close>) and a registry tracks which backend
  holds a current copy of each tensor (\<open>backend/tensor_registry.rs\<close>).

  \<^bold>\<open>The theories\<close>, in the order of their imports.

  \<^item> \<open>Prelude\<close>: machine integer types, saturating arithmetic, bit counts, lists and association lists.
  \<^item> \<open>Bytes\<close>: little-endian bytes of words, and encodings of which none is the start of another.
  \<^item> \<open>Recency\<close>: the locale \<open>recency\<close> of queues ordered by last use, with the lemma that after any touches the
    queue lists the last distinct keys; the arena's LRU tracker, both orders of the prefix cache and the row cache interpret it.
  \<^item> \<open>Pager\<close>: \<open>memory/allocator.rs\<close>.  The page bitmap with its scan, the block allocator with generations and
    handles, the IOSurface pool.  The locale \<open>page_allocator\<close> states what a provider of pages promises; the bitmap pager interprets it
    and the scheduler's invariant rests on it.  Theorems: first fit allocation, handle validity up
    to wrap-around of the generation, byte accounting, and the exact meaning of \<open>is_full\<close>.
  \<^item> \<open>KvSlots\<close>: the byte codec of compressed KV slots in \<open>kv_cache.rs\<close> (page data round trip and its failure).
  \<^item> \<open>Scheduler\<close>: \<open>scheduling/scheduler.rs\<close> and its records.  Every public operation is a definition and a step of
    \<open>sched_step\<close>; \<open>sched_inv\<close> holds in every reachable state, so no page is lost or shared, batches hold each
    active request once, preemptions are bounded by priority boosts, resumption restores what was saved.
  \<^item> \<open>TokenBudget\<close>: cycles dispatch a prefix of the queue and, repeated, drain it.
  \<^item> \<open>KvArena\<close>: block arena, logical tables, prefix index, reference counts, LRU tracker, KV plans.
  \<^item> \<open>Streaming\<close>: the stream as interleavings of sender and receiver steps; the event sequence validator.
  \<^item> \<open>Protocol\<close>, \<open>Lifecycle\<close>: frame validation, the host's and the worker's session machines (the second refines
    the first), the arena's state machine; all three interpret the locales \<open>guarded_fsm\<close> and \<open>ranked_fsm\<close>.
  \<^item> \<open>ArenaPool\<close>: pooled surfaces and their byte budget.
  \<^item> \<open>KvCache\<close>: ring and global layers of the per-layer cache; arrays are a parameter with laws on rows.
  \<^item> \<open>PageTiers\<close>: tier migration, eviction to disk and prefetch of KV pages.
  \<^item> \<open>Worklist\<close>: the stack loop shared by dead code elimination and epsilon closure, a partial function, with the
    lemma that in a finite closed set it returns exactly what is reachable.
  \<^item> \<open>GraphOptimizer\<close>: the operation graph of a plan, folding, shape propagation (both \<open>function\<close>s with a
    measure), dead code elimination and the write-back.  Dead code elimination is computed exactly, and the
    whole optimiser equals it.
  \<^item> \<open>GrammarNfa\<close>, \<open>GrammarDfa\<close>, \<open>GrammarLang\<close>: syntax trees to automaton fragments (recursion ends because a
    rule is not entered twice), subset construction (a partial function over at most \<open>2 ^ n\<close> sets, shown to
    return), the masking machine, and what language it accepts.
  \<^item> \<open>GrammarParser\<close>: the parser of grammar texts in \<open>grammar.rs\<close>; strings are code points and slices
    compute UTF-8 byte offsets; the loop over terms is a partial function because it may not end.
    \<open>GrammarSchema\<close>: the translation of JSON schemas to grammar texts.  \<open>GrammarRoundtrip\<close>: a printer the
    parser inverts, and texts on which the parser does not return.  \<open>SchemaGrammar\<close>: what schemas give.

  \<^item> \<open>PrefixCache\<close>: the cache's index, its two LRU orders and its byte count, with what every operation keeps of
    them and which lookups hit.
  \<^item> \<open>ChunkKv\<close>: the semantic chunk cache: how a token stream is split into chunks, the byte account and why it fills up,
    what a prefix match says.  \<open>SwapRemove\<close>: the removal it shares with the residency manager.
  \<^item> \<open>Orchestration\<close>: leases, acknowledgements and receipts of work items as a step relation.
  \<^item> \<open>Readiness\<close>: the readiness gates, and their relation to the event sequence validator of \<open>Streaming\<close>.
  \<^item> \<open>Residency\<close>: which segments are loaded in every reachable state.

  \<^item> \<open>RateLimiter\<close>: the token buckets of the server under every interleaving of their atomic operations, and the map of
    buckets.  \<open>WeightRowCache\<close>: half precision conversions on bit patterns, the slot allocator of the Neural Engine's row
    cache, which interprets \<open>recency\<close>, and what is read from a row after it was loaded or failed to load.
  \<^item> \<open>Speculative\<close>: the steps of speculative decoding, with the models as parameters: what a step commits and counts, and the
    random numbers; the verification of several drafts at once.

  \<^item> \<open>Decimal\<close>: decimal numerals, used in tensor and segment names.
  \<^item> \<open>Routing\<close>: boundary plans, their validation and their digest.  \<open>TensorRegistry\<close>: the registry's operations, with
    a refinement to a write-invalidate protocol.
  \<^item> \<open>ModelConfig\<close>: the raw configuration, its parsing, and \<open>compile\<close>, which lists the tensors a model must have.
    \<open>ImageBuilder\<close>: the segments of an image and where each tensor lies in them.  \<open>ModelPlan\<close>: the execution plan over
    tensor identifiers, its validation, fusions, islands and routes.  \<open>ImageCompile\<close> composes the three: from a
    source to the plan that its image stores, and when that plan is valid.
  \<^item> \<open>ScheduleCompiler\<close>: regions, memory plan, transfers and boundaries of a plan.
  \<^item> \<open>LayoutTransform\<close>: the blocked loops of the prepacked weight layout and their round trip.
  \<^item> \<open>ArrayRegistry\<close>: the global registry of arrays behind handles, as a finite map, and why its generations never
    change.  \<open>ImageReader\<close>: verification of an image on disk, its tensor catalogue, the activation of segments into the
    registry and the leases on them; it composes the builder, the compiler and the registry.  \<open>ImageLease\<close>: what
    the lease on a layer of a sealed image holds, and what a failed activation leaves behind.
  \<^item> \<open>TransformPass\<close>: the pipeline of compiler passes; the locale \<open>sound_passes\<close> states what a pass must keep.
    \<open>AneFusion\<close>: the fusion of Neural Engine regions, the pass that interprets the locale.

  \<^bold>\<open>Conventions.\<close>  Structs are records, enums datatypes, \<open>Result\<close> a sum, \<open>Option\<close> an option; a panic is an outer
  \<open>None\<close> or an error of its own, and theorems say where it cannot happen.  Integers whose overflow can be observed
  are words; a \<open>usize\<close> that counts elements is a natural number.  No fuel is used: loops are structural recursion,
  functions with a measure, or partial functions with a proof that they return.  Array kernels, the Neural Engine
  and the disk are parameters, with their laws as named hypotheses.

  \<^bold>\<open>Not modelled.\<close>  Tokenizer files; process supervision and
  sockets; executors and array kernels; file formats; profiling records; the HTTP server and the modalities;
  vendored and ported trees.  The manifest lists each with its reason.
\<close>

end
